(* ===== verification/Prelude.thy ===== *)
theory Prelude
  imports Main "HOL-Library.Word"
begin

unbundle bit_operations_syntax

text \<open>
  Shared vocabulary of the development: the machine types of the C++ sources, the error
  values that stand for its exceptions, the checked memory accesses the packing kernels are
  written with, little-endian byte views of machine words, and bit streams (the reference
  reading of a packed buffer).
\<close>

section \<open>Machine types and exceptions\<close>

type_synonym byte = "8 word"
type_synonym u32 = "32 word"
type_synonym u64 = "64 word"
type_synonym block = "128 word"

text \<open>
  One constructor per exception class the sources throw (\<open>JsonError\<close> for those of the JSON
  library, \<open>TypeError\<close> and \<open>CastError\<close> for those of the binding library, \<open>PythonError\<close> for one
  that the Python runtime has raised; \<open>IndexError\<close>, \<open>KeyError\<close>, \<open>ValueError\<close> and \<open>OSError\<close>
  are Python's own). \<open>MemFault\<close> is no exception: it marks an access outside the memory an object owns (undefined behaviour), so that a result
  \<open>Inr _\<close> or \<open>Inl e\<close> with \<open>e \<noteq> MemFault\<close> also says that no such access happens.
\<close>

datatype error =
    InvalidArgument | OutOfRange | LogicError | OverflowError | RuntimeError | BadAlloc
  | JsonError | TypeError | CastError | PythonError | IndexError | KeyError | ValueError | OSError | MemFault

type_synonym 'a res = "error + 'a"

definition rbind :: "'a res \<Rightarrow> ('a \<Rightarrow> 'b res) \<Rightarrow> 'b res" where
  "rbind r f = (case r of Inl e \<Rightarrow> Inl e | Inr x \<Rightarrow> f x)"

text \<open>\<open>throw_if c e\<close> is the statement \<open>if (c) throw e;\<close>.\<close>

definition throw_if :: "bool \<Rightarrow> error \<Rightarrow> unit res" where
  "throw_if c e = (if c then Inl e else Inr ())"

named_theorems res_simps \<open>rewriting of results\<close>

lemma rbind_Inl [simp]: "rbind (Inl e) f = Inl e"
  and rbind_Inr [simp]: "rbind (Inr x) f = f x"
  by (simp_all add: rbind_def)

lemma rbind_assoc: "rbind (rbind r f) g = rbind r (\<lambda>x. rbind (f x) g)"
  by (cases r) simp_all

lemma rbind_eq_Inr [res_simps]: "rbind r f = Inr y \<longleftrightarrow> (\<exists>x. r = Inr x \<and> f x = Inr y)"
  by (cases r) auto

lemma rbind_eq_Inl [res_simps]:
  "rbind r f = Inl e \<longleftrightarrow> r = Inl e \<or> (\<exists>x. r = Inr x \<and> f x = Inl e)"
  by (cases r) auto

lemma throw_if_True [simp]: "throw_if True e = Inl e"
  and throw_if_False [simp]: "throw_if False e = Inr ()"
  by (simp_all add: throw_if_def)

lemma throw_if_Inr [res_simps]: "throw_if c e = Inr u \<longleftrightarrow> \<not> c"
  by (auto simp: throw_if_def)

section \<open>Checked accesses to a buffer\<close>

text \<open>
  \<open>ldn xs off k\<close> reads \<open>k\<close> consecutive cells, \<open>stn xs off ys\<close> overwrites the cells from
  \<open>off\<close>; \<open>None\<close> is an access outside the buffer, undefined behaviour in the source.
\<close>

definition ldn :: "'a list \<Rightarrow> nat \<Rightarrow> nat \<Rightarrow> 'a list option" where
  "ldn xs off k = (if off + k \<le> length xs then Some (take k (drop off xs)) else None)"

definition stn :: "'a list \<Rightarrow> nat \<Rightarrow> 'a list \<Rightarrow> 'a list option" where
  "stn xs off ys =
     (if off + length ys \<le> length xs
      then Some (take off xs @ ys @ drop (off + length ys) xs) else None)"

lemma length_stn: "stn xs off ys = Some zs \<Longrightarrow> length zs = length xs"
  by (auto simp: stn_def split: if_splits)

lemma stn_Nil [simp]: "off \<le> length xs \<Longrightarrow> stn xs off [] = Some xs"
  by (simp add: stn_def)

lemma stn_stn:
  "stn xs off ys = Some zs \<Longrightarrow> stn zs (off + length ys) ws = stn xs off (ys @ ws)"
proof -
  assume "stn xs off ys = Some zs"
  then have zs: "zs = take off xs @ ys @ drop (off + length ys) xs"
    and len: "off + length ys \<le> length xs" by (auto simp: stn_def split: if_splits)
  then show ?thesis by (simp add: stn_def min_absorb2 ac_simps)
qed

lemma stn_all: "length ys = length xs \<Longrightarrow> stn xs 0 ys = Some ys"
  by (simp add: stn_def)

definition of_option :: "'a option \<Rightarrow> 'a res" where
  "of_option r = (case r of None \<Rightarrow> Inl MemFault | Some x \<Rightarrow> Inr x)"

lemma of_option_simps [simp]: "of_option None = Inl MemFault" "of_option (Some x) = Inr x"
  by (simp_all add: of_option_def)

text \<open>\<open>xs[i]\<close> and \<open>xs[i] = x\<close>.\<close>

definition rd :: "'a list \<Rightarrow> nat \<Rightarrow> 'a res" where
  "rd xs i = (if i < length xs then Inr (xs ! i) else Inl MemFault)"

definition wr :: "'a list \<Rightarrow> nat \<Rightarrow> 'a \<Rightarrow> 'a list res" where
  "wr xs i x = (if i < length xs then Inr (xs[i := x]) else Inl MemFault)"

lemma rd_Inr [simp]: "i < length xs \<Longrightarrow> rd xs i = Inr (xs ! i)"
  and wr_Inr [simp]: "i < length xs \<Longrightarrow> wr xs i x = Inr (xs[i := x])"
  by (simp_all add: rd_def wr_def)

section \<open>Counted loops and size arithmetic\<close>

text \<open>\<^verbatim>\<open>for (; i < n; ++i) { body }\<close>, left early by an exception of the body.\<close>

function for_loop :: "nat \<Rightarrow> nat \<Rightarrow> (nat \<Rightarrow> 's \<Rightarrow> 's res) \<Rightarrow> 's \<Rightarrow> 's res" where
  "for_loop i n body s =
     (if i < n then rbind (body i s) (for_loop (Suc i) n body) else Inr s)"
  by pat_completeness auto
termination by (relation "measure (\<lambda>(i, n, body, s). n - i)") auto

declare for_loop.simps [simp del]

lemma for_loop_end [simp]: "n \<le> i \<Longrightarrow> for_loop i n body s = Inr s"
  and for_loop_step: "i < n \<Longrightarrow> for_loop i n body s = rbind (body i s) (for_loop (Suc i) n body)"
  by (simp_all add: for_loop.simps [of i])

lemma for_loop_rule:
  assumes "i \<le> n" "P i s"
    and "\<And>k s. i \<le> k \<Longrightarrow> k < n \<Longrightarrow> P k s \<Longrightarrow> \<exists>s'. body k s = Inr s' \<and> P (Suc k) s'"
  shows "\<exists>s'. for_loop i n body s = Inr s' \<and> P n s'"
  using assms
proof (induction "n - i" arbitrary: i s)
  case 0
  then show ?case by simp
next
  case (Suc m)
  then have i: "i < n" by simp
  with Suc.prems obtain s' where "body i s = Inr s'" "P (Suc i) s'" by blast
  moreover from this Suc.hyps i Suc.prems(3)
  have "\<exists>s''. for_loop (Suc i) n body s' = Inr s'' \<and> P n s''"
    by (intro Suc.hyps(1)) auto
  ultimately show ?case using i by (simp add: for_loop_step)
qed

text \<open>Results in order, up to the first exception.\<close>

fun collect :: "'a res list \<Rightarrow> 'a list res" where
  "collect [] = Inr []"
| "collect (r # rs) = rbind r (\<lambda>x. rbind (collect rs) (\<lambda>xs. Inr (x # xs)))"

lemma collect_ok: "(\<And>x. x \<in> set xs \<Longrightarrow> f x = Inr (g x)) \<Longrightarrow> collect (map f xs) = Inr (map g xs)"
  by (induction xs) simp_all

text \<open>A loop that stores its results in an array of its own length.\<close>

lemma fill_loop_from:
  "i \<le> n \<Longrightarrow> length out = n \<Longrightarrow>
     for_loop i n (\<lambda>i out. rbind (f i) (wr out i)) out = rbind (collect (map f [i..<n])) (\<lambda>ys. Inr (take i out @ ys))"
proof (induction "n - i" arbitrary: i out)
  case 0
  then show ?case by simp
next
  case (Suc m)
  then have i: "i < n" by simp
  show ?case
  proof (cases "f i")
    case (Inl e)
    then show ?thesis using i by (simp add: for_loop_step upt_conv_Cons)
  next
    case (Inr y)
    have t: "take (Suc i) (out[i := y]) = take i out @ [y]" using i Suc.prems by (simp add: take_Suc_conv_app_nth)
    have "for_loop i n (\<lambda>i out. rbind (f i) (wr out i)) out =
        for_loop (Suc i) n (\<lambda>i out. rbind (f i) (wr out i)) (out[i := y])"
      using i Inr Suc.prems by (simp add: for_loop_step)
    also have "\<dots> = rbind (collect (map f [Suc i..<n])) (\<lambda>ys. Inr (take i out @ y # ys))"
      using Suc.hyps(1) [of "Suc i" "out[i := y]"] Suc.hyps(2) Suc.prems i t by simp
    also have "\<dots> = rbind (collect (map f [i..<n])) (\<lambda>ys. Inr (take i out @ ys))"
      using i Inr by (cases "collect (map f [Suc i..<n])") (simp_all add: upt_conv_Cons)
    finally show ?thesis .
  qed
qed

lemma fill_loop:
  "length out = n \<Longrightarrow> for_loop 0 n (\<lambda>i out. rbind (f i) (wr out i)) out = collect (map f [0..<n])"
  by (simp add: fill_loop_from) (cases "collect (map f [0..<n])"; simp)

text \<open>\<open>size_t\<close> is 64 bits wide; sums and products of sizes wrap.\<close>

definition usz :: "nat \<Rightarrow> nat" where "usz n = n mod 2 ^ 64"

definition SIZE_MAX :: nat where "SIZE_MAX = 2 ^ 64 - 1"

lemma usz_small [simp]: "n < 2 ^ 64 \<Longrightarrow> usz n = n"
  by (simp add: usz_def)

section \<open>Options\<close>

lemma bind_eq_Some_iff [res_simps]:
  "Option.bind r f = Some y \<longleftrightarrow> (\<exists>x. r = Some x \<and> f x = Some y)"
  by (cases r) auto

section \<open>Little-endian bytes of a word\<close>

definition le_bytes :: "nat \<Rightarrow> 'a::len word \<Rightarrow> byte list" where
  "le_bytes k w = map (\<lambda>i. ucast (drop_bit (8 * i) w)) [0..<k]"

fun of_le_bytes :: "byte list \<Rightarrow> 'a::len word" where
  "of_le_bytes [] = 0"
| "of_le_bytes (b # bs) = ucast b OR push_bit 8 (of_le_bytes bs)"

lemma length_le_bytes [simp]: "length (le_bytes k w) = k"
  by (simp add: le_bytes_def)

lemma le_bytes_0 [simp]: "le_bytes 0 w = []"
  by (simp add: le_bytes_def)

lemma le_bytes_Suc: "le_bytes (Suc k) w = ucast w # le_bytes k (drop_bit 8 w)"
proof -
  have "map (\<lambda>i. ucast (drop_bit (8 * i) w)) [0..<Suc k] =
      (ucast w :: byte) # map (\<lambda>i. ucast (drop_bit (8 * i) (drop_bit 8 w))) [0..<k]"
    by (simp only: upt_conv_Cons [OF zero_less_Suc] map_Suc_upt [symmetric])
      (simp add: ac_simps)
  then show ?thesis by (simp add: le_bytes_def)
qed

lemma bit_of_le_bytes:
  "bit (of_le_bytes bs :: 'a::len word) k \<longleftrightarrow>
     k < LENGTH('a) \<and> k div 8 < length bs \<and> bit (bs ! (k div 8)) (k mod 8)"
proof (induction bs arbitrary: k)
  case Nil
  then show ?case by simp
next
  case (Cons b bs)
  show ?case
  proof (cases "k < 8")
    case True
    then show ?thesis by (auto simp: bit_simps)
  next
    case False
    then have "k div 8 = Suc ((k - 8) div 8)" "k mod 8 = (k - 8) mod 8" "\<not> bit b k"
      by (auto simp: le_div_geq le_mod_geq dest: bit_imp_le_length)
    then show ?thesis using False Cons.IH [of "k - 8"]
      by (auto simp: bit_simps dest: bit_imp_le_length)
  qed
qed

lemma of_le_bytes_le_bytes:
  assumes "LENGTH('a::len) = 8 * k"
  shows "of_le_bytes (le_bytes k w) = (w :: 'a word)"
proof (rule bit_word_eqI)
  fix n assume n: "n < LENGTH('a)"
  then have "n div 8 < k" "n mod 8 < 8" using assms by auto
  then show "bit (of_le_bytes (le_bytes k w) :: 'a word) n \<longleftrightarrow> bit w n"
    using n assms by (auto simp: bit_of_le_bytes le_bytes_def bit_simps)
qed

lemma le_bytes_of_le_bytes:
  assumes "8 * length bs \<le> LENGTH('a::len)"
  shows "le_bytes (length bs) (of_le_bytes bs :: 'a word) = bs"
proof (rule nth_equalityI)
  show "length (le_bytes (length bs) (of_le_bytes bs :: 'a word)) = length bs" by simp
next
  fix i assume "i < length (le_bytes (length bs) (of_le_bytes bs :: 'a word))"
  then have i: "i < length bs" by simp
  show "le_bytes (length bs) (of_le_bytes bs :: 'a word) ! i = bs ! i"
  proof (rule bit_word_eqI)
    fix n assume "n < LENGTH(8)"
    then have n: "n < 8" by simp
    then have "(8 * i + n) div 8 = i" "(8 * i + n) mod 8 = n" "8 * i + n < LENGTH('a)"
      using i assms by auto
    then show "bit (le_bytes (length bs) (of_le_bytes bs :: 'a word) ! i) n = bit (bs ! i) n"
      using i n by (simp add: le_bytes_def bit_simps bit_of_le_bytes)
  qed
qed

section \<open>Bit streams\<close>

text \<open>\<open>bits_of w xs\<close> lists the low \<open>w\<close> bits of every element, least significant first.\<close>

definition bits_of :: "nat \<Rightarrow> byte list \<Rightarrow> bool list" where
  "bits_of w xs = concat (map (\<lambda>x. map (bit x) [0..<w]) xs)"

lemma bits_of_Nil [simp]: "bits_of w [] = []"
  and bits_of_Cons: "bits_of w (x # xs) = map (bit x) [0..<w] @ bits_of w xs"
  and bits_of_append [simp]: "bits_of w (xs @ ys) = bits_of w xs @ bits_of w ys"
  by (simp_all add: bits_of_def)

lemma length_bits_of [simp]: "length (bits_of w xs) = w * length xs"
  by (induction xs) (simp_all add: bits_of_Cons)

lemma nth_bits_of:
  "k < w * length xs \<Longrightarrow> bits_of w xs ! k = bit (xs ! (k div w)) (k mod w)"
proof (induction xs arbitrary: k)
  case Nil
  then show ?case by simp
next
  case (Cons x xs)
  show ?case
  proof (cases "k < w")
    case True
    then show ?thesis by (simp add: bits_of_Cons nth_append)
  next
    case False
    with Cons.prems have "0 < w" "k - w < w * length xs" by (cases w; auto)+
    with False Cons.IH [of "k - w"] show ?thesis
      by (simp add: bits_of_Cons nth_append le_div_geq le_mod_geq)
  qed
qed

lemma bits_of_cong: "map (take_bit w) xs = map (take_bit w) ys \<Longrightarrow> bits_of w xs = bits_of w ys"
proof -
  assume eq: "map (take_bit w) xs = map (take_bit w) ys"
  have "bits_of w zs = bits_of w (map (take_bit w) zs)" for zs
    by (induction zs) (auto simp: bits_of_Cons bit_take_bit_iff)
  with eq show ?thesis by metis
qed

lemma bits_of_inj:
  assumes "bits_of w xs = bits_of w ys" and "0 < w"
  shows "map (take_bit w) xs = map (take_bit w) ys"
proof (rule nth_equalityI)
  have len: "length xs = length ys"
    using arg_cong [OF assms(1), of length] assms(2) by simp
  then show "length (map (take_bit w) xs) = length (map (take_bit w) ys)" by simp
  fix i assume "i < length (map (take_bit w) xs)"
  then have i: "i < length xs" by simp
  have "bit (xs ! i) n = bit (ys ! i) n" if n: "n < w" for n
  proof -
    have "w * i + n < w * length xs"
    proof -
      have "w * i + n < w * Suc i" using n by simp
      also have "\<dots> \<le> w * length xs" using i by (intro mult_le_mono) auto
      finally show ?thesis .
    qed
    with assms len n show ?thesis
      using nth_bits_of [of "w * i + n" w xs] nth_bits_of [of "w * i + n" w ys] by simp
  qed
  then show "map (take_bit w) xs ! i = map (take_bit w) ys ! i"
    using i len by (auto intro!: bit_word_eqI simp: bit_take_bit_iff)
qed

lemma bits_of_le_bytes:
  "bits_of 8 (le_bytes k w) = map (bit w) [0..<8 * k]" for w :: "'a::len word"
proof (rule nth_equalityI)
  fix i assume "i < length (bits_of 8 (le_bytes k w))"
  then have i: "i < 8 * k" by simp
  then have "i div 8 < k" by auto
  with i show "bits_of 8 (le_bytes k w) ! i = map (bit w) [0..<8 * k] ! i"
    by (simp add: nth_bits_of le_bytes_def bit_simps)
qed simp

end
