(* ===== verification/Array_Spec.thy ===== *)
theory Array_Spec
  imports Prelude
begin

text \<open>
  The contract of an indexed container of ring elements, as the vector class offers it and as
  the batch accesses and the evaluation of function secret shares use it: \<open>elems\<close> is the
  abstract content, \<open>fetch\<close> and \<open>put\<close> the element accesses.
\<close>

text \<open>A sequence of writes, in order; the first failing write stops it.\<close>

fun write_all :: "('v \<Rightarrow> nat \<Rightarrow> 'e \<Rightarrow> 'v res) \<Rightarrow> (nat \<times> 'e) list \<Rightarrow> 'v \<Rightarrow> 'v res" where
  "write_all put [] v = Inr v"
| "write_all put ((i, x) # ws) v = rbind (put v i x) (write_all put ws)"

text \<open>What the writes leave in the abstract content.\<close>

fun updates :: "(nat \<times> 'e) list \<Rightarrow> 'e list \<Rightarrow> 'e list" where
  "updates [] es = es"
| "updates ((i, x) # ws) es = updates ws (es[i := x])"

lemma length_updates [simp]: "length (updates ws es) = length es"
  by (induction ws es rule: updates.induct) simp_all

lemma updates_append: "updates (ws @ ws') es = updates ws' (updates ws es)"
  by (induction ws es rule: updates.induct) simp_all

lemma nth_updates_notin: "i \<notin> fst ` set ws \<Longrightarrow> updates ws es ! i = es ! i"
  by (induction ws es rule: updates.induct) (auto simp: nth_list_update)

lemma nth_updates:
  assumes "distinct (map fst ws)" "(i, x) \<in> set ws" "i < length es"
  shows "updates ws es ! i = x"
  using assms
proof (induction ws es rule: updates.induct)
  case (2 j y ws es)
  then show ?case by (cases "(i, x) \<in> set ws") (auto simp: nth_updates_notin)
qed simp

text \<open>Writes to distinct cells commute, whatever their order.\<close>

lemma updates_perm:
  assumes "distinct (map fst ws)" "distinct (map fst ws')" "set ws = set ws'"
    and "\<forall>(i, x)\<in>set ws. i < length es"
  shows "updates ws es = updates ws' es"
proof (rule nth_equalityI)
  fix i assume i: "i < length (updates ws es)"
  show "updates ws es ! i = updates ws' es ! i"
  proof (cases "i \<in> fst ` set ws")
    case True
    then obtain x where "(i, x) \<in> set ws" by auto
    with i assms show ?thesis using nth_updates [of ws i x es] nth_updates [of ws' i x es] by simp
  next
    case False
    with assms(3) show ?thesis by (simp add: nth_updates_notin)
  qed
qed simp

lemma updates_all:
  assumes "distinct (map fst ws)" "fst ` set ws = {..<length es}" "\<And>i x. (i, x) \<in> set ws \<Longrightarrow> x = f i"
  shows "updates ws es = map f [0..<length es]"
proof (rule nth_equalityI)
  fix i assume "i < length (updates ws es)"
  then have i: "i < length es" by simp
  then obtain x where "(i, x) \<in> set ws" using assms(2) by (metis fst_conv imageE lessThan_iff surj_pair)
  with i assms show "updates ws es ! i = map f [0..<length es] ! i"
    using nth_updates [of ws i x es] by simp
qed simp

locale array_store =
  fixes ok :: "'v \<Rightarrow> bool"
    and valid :: "'e \<Rightarrow> bool"
    and elems :: "'v \<Rightarrow> 'e list"
    and fetch :: "'v \<Rightarrow> nat \<Rightarrow> 'e res"
    and put :: "'v \<Rightarrow> nat \<Rightarrow> 'e \<Rightarrow> 'v res"
  assumes get_ok: "ok v \<Longrightarrow> i < length (elems v) \<Longrightarrow> fetch v i = Inr (elems v ! i)"
    and get_out: "length (elems v) \<le> i \<Longrightarrow> ok v \<Longrightarrow> fetch v i = Inl OutOfRange"
    and set_ok: "ok v \<Longrightarrow> i < length (elems v) \<Longrightarrow> valid x \<Longrightarrow>
      \<exists>v'. put v i x = Inr v' \<and> ok v' \<and> elems v' = (elems v)[i := x]"
    and set_out: "length (elems v) \<le> i \<Longrightarrow> ok v \<Longrightarrow> put v i x = Inl OutOfRange"
    and valid_elems: "ok v \<Longrightarrow> x \<in> set (elems v) \<Longrightarrow> valid x"
begin

lemma get_set:
  assumes "ok v" "i < length (elems v)" "valid x" "j < length (elems v)"
  shows "rbind (put v i x) (\<lambda>v'. fetch v' j) = (if j = i then Inr x else fetch v j)"
proof -
  obtain v' where "put v i x = Inr v'" "ok v'" "elems v' = (elems v)[i := x]"
    using set_ok [OF assms(1-3)] by blast
  with assms show ?thesis by (simp add: get_ok nth_list_update)
qed

lemma write_all_ok:
  assumes "ok v" "\<forall>(i, x)\<in>set ws. i < length (elems v) \<and> valid x"
  shows "\<exists>v'. write_all put ws v = Inr v' \<and> ok v' \<and> elems v' = updates ws (elems v)"
  using assms
proof (induction ws arbitrary: v)
  case (Cons w ws)
  obtain i x where w: "w = (i, x)" by (cases w)
  with Cons.prems obtain v' where "put v i x = Inr v'" "ok v'" "elems v' = (elems v)[i := x]"
    using set_ok [of v i x] by auto
  moreover from this Cons w have "\<exists>v''. write_all put ws v' = Inr v'' \<and> ok v'' \<and>
      elems v'' = updates ws (elems v')" by (intro Cons.IH) auto
  ultimately show ?case by (simp add: w)
qed simp

text \<open>The first index out of range stops the sequence with that exception.\<close>

lemma write_all_out:
  assumes "ok v" "\<forall>(i, x)\<in>set ws. i < length (elems v) \<and> valid x" "length (elems v) \<le> j"
  shows "write_all put (ws @ (j, y) # ws') v = Inl OutOfRange"
  using assms
proof (induction ws arbitrary: v)
  case Nil
  then show ?case by (simp add: set_out)
next
  case (Cons w ws)
  obtain i x where w: "w = (i, x)" by (cases w)
  with Cons.prems obtain v' where "put v i x = Inr v'" "ok v'" "elems v' = (elems v)[i := x]"
    using set_ok [of v i x] by auto
  with Cons w show ?case by auto
qed

end

end
