(* ===== verification/Threads.thy ===== *)
theory Threads
  imports Array_Spec
begin

text \<open>
  Worker threads that fill a shared container: each has its own sequence of element writes, the
  writes of different threads interleave in any order, a thread stops at its first exception,
  and the exception of the first failing thread is rethrown after all have been joined. The
  theorem says that no interleaving matters when the written indices are distinct.
\<close>

section \<open>Interleaved execution\<close>

type_synonym ('v, 'e) pool = "'v \<times> error option \<times> (nat \<times> 'e) list list"

inductive par_step :: "('v \<Rightarrow> nat \<Rightarrow> 'e \<Rightarrow> 'v res) \<Rightarrow> ('v, 'e) pool \<Rightarrow> ('v, 'e) pool \<Rightarrow> bool"
  for put :: "'v \<Rightarrow> nat \<Rightarrow> 'e \<Rightarrow> 'v res"
where
  step_write: "i < length ws \<Longrightarrow> ws ! i = (k, x) # rest \<Longrightarrow> put v k x = Inr v' \<Longrightarrow>
     par_step put (v, e, ws) (v', e, ws[i := rest])"
| step_throw: "i < length ws \<Longrightarrow> ws ! i = (k, x) # rest \<Longrightarrow> put v k x = Inl err \<Longrightarrow>
     par_step put (v, e, ws) (v, if e = None then Some err else e, ws[i := []])"

definition joined :: "('v \<Rightarrow> nat \<Rightarrow> 'e \<Rightarrow> 'v res) \<Rightarrow> 'v \<Rightarrow> (nat \<times> 'e) list list \<Rightarrow> 'v res \<Rightarrow> bool" where
  "joined put v ws r \<longleftrightarrow> (\<exists>v' e ws'. (par_step put)\<^sup>*\<^sup>* (v, None, ws) (v', e, ws') \<and>
     (\<forall>w\<in>set ws'. w = []) \<and> r = (case e of None \<Rightarrow> Inr v' | Some err \<Rightarrow> Inl err))"

text \<open>
  Two threads that touch the same memory location race, which C++ leaves undefined: then
  nothing is known of the result. \<open>loc\<close> is the location an element lives in.
\<close>

definition races :: "(nat \<Rightarrow> nat) \<Rightarrow> (nat \<times> 'e) list list \<Rightarrow> bool" where
  "races loc ws \<longleftrightarrow> (\<exists>j<length ws. \<exists>i<j. \<exists>(k, x)\<in>set (ws ! i). \<exists>(k', x')\<in>set (ws ! j). loc k = loc k')"

definition threads :: "(nat \<Rightarrow> nat) \<Rightarrow> ('v \<Rightarrow> nat \<Rightarrow> 'e \<Rightarrow> 'v res) \<Rightarrow> 'v \<Rightarrow> (nat \<times> 'e) list list \<Rightarrow>
    'v res \<Rightarrow> bool" where
  "threads loc put v ws r \<longleftrightarrow> races loc ws \<or> joined put v ws r"

lemma distinct_concat_nth:
  "distinct (concat xs) \<Longrightarrow> i < j \<Longrightarrow> j < length xs \<Longrightarrow> x \<in> set (xs ! i) \<Longrightarrow> x \<notin> set (xs ! j)"
proof (induction xs arbitrary: i j)
  case (Cons y ys)
  then obtain j' where j: "j = Suc j'" by (cases j) auto
  show ?case
  proof (cases i)
    case 0
    then have "x \<in> set y" "ys ! j' \<in> set ys" using Cons.prems j by auto
    then show ?thesis using Cons.prems(1) j by auto
  next
    case (Suc i')
    then show ?thesis using Cons.IH [of i' j'] Cons.prems j by simp
  qed
qed simp

lemma distinct_no_races: "distinct (map fst (concat ws)) \<Longrightarrow> \<not> races (\<lambda>k. k) ws"
proof
  assume d: "distinct (map fst (concat ws))" and "races (\<lambda>k. k) ws"
  then obtain i j k x x' where ij: "i < j" "j < length ws" "(k, x) \<in> set (ws ! i)" "(k, x') \<in> set (ws ! j)"
    unfolding races_def by blast
  have "distinct (concat (map (map fst) ws))" using d by (simp add: map_concat)
  from distinct_concat_nth [OF this ij(1), of k] ij show False by force
qed

inductive_cases par_stepE: "par_step put (v, e, ws) s'"

section \<open>Independence of the interleaving\<close>

lemma concat_update:
  assumes "i < length ws" "ws ! i = y # rest"
  shows "\<exists>A B. concat ws = A @ y # B \<and> concat (ws[i := rest]) = A @ B"
proof -
  have ws: "ws = take i ws @ (y # rest) # drop (Suc i) ws"
    using assms by (metis id_take_nth_drop)
  have "ws[i := rest] = take i ws @ rest # drop (Suc i) ws"
    using assms(1) by (simp add: upd_conv_take_nth_drop)
  then have "concat (ws[i := rest]) = concat (take i ws) @ rest @ concat (drop (Suc i) ws)" by simp
  moreover have "concat ws = concat (take i ws) @ y # rest @ concat (drop (Suc i) ws)"
    by (subst ws) simp
  ultimately show ?thesis by (metis append_Cons)
qed

context array_store
begin

text \<open>The invariant of a pool that runs towards the content \<open>goal\<close>.\<close>

definition pool_inv :: "'e list \<Rightarrow> ('v, 'e) pool \<Rightarrow> bool" where
  "pool_inv goal s \<longleftrightarrow> (case s of (v, e, ws) \<Rightarrow> e = None \<and> ok v \<and>
     distinct (map fst (concat ws)) \<and>
     (\<forall>(k, x)\<in>set (concat ws). k < length (elems v) \<and> valid x) \<and>
     updates (concat ws) (elems v) = goal)"

lemma pool_write:
  assumes inv: "pool_inv goal (v, None, ws)" and i: "i < length ws" "ws ! i = (k, x) # rest"
  shows "\<exists>v'. put v k x = Inr v' \<and> pool_inv goal (v', None, ws[i := rest])"
proof -
  obtain A B where AB: "concat ws = A @ (k, x) # B" "concat (ws[i := rest]) = A @ B"
    using concat_update [OF i] by blast
  have I: "ok v" "distinct (map fst (A @ (k, x) # B))" "updates (A @ (k, x) # B) (elems v) = goal"
    "\<forall>(k, x)\<in>set (A @ (k, x) # B). k < length (elems v) \<and> valid x"
    using inv unfolding pool_inv_def prod.case AB by blast+
  then have v: "ok v" "k < length (elems v)" "valid x" by auto
  then obtain v' where v': "put v k x = Inr v'" "ok v'" "elems v' = (elems v)[k := x]"
    using set_ok by blast
  have "updates (A @ (k, x) # B) (elems v) = updates ((k, x) # A @ B) (elems v)"
    by (rule updates_perm) (use I in auto)
  then have "updates (A @ B) (elems v') = goal" using I(3) v'(3) by simp
  moreover have "distinct (map fst (A @ B))"
    "\<forall>(k, x)\<in>set (A @ B). k < length (elems v') \<and> valid x" using I(2,4) v'(3) by auto
  ultimately have "pool_inv goal (v', None, ws[i := rest])"
    unfolding pool_inv_def prod.case AB using v'(2) by blast
  then show ?thesis using v'(1) by blast
qed

lemma pool_step:
  assumes "pool_inv goal s" "par_step put s s'"
  shows "pool_inv goal s'"
proof -
  obtain v e ws where s: "s = (v, e, ws)" by (cases s)
  with assms(1) have e: "e = None" by (simp add: pool_inv_def)
  with assms s have inv: "pool_inv goal (v, None, ws)" and st: "par_step put (v, None, ws) s'" by simp_all
  from st show ?thesis
  proof (rule par_stepE)
    fix i k x rest v' e'
    assume "s' = (v', None, ws[i := rest])" "i < length ws" "ws ! i = (k, x) # rest" "put v k x = Inr v'"
    then show ?thesis using pool_write [OF inv] by fastforce
  next
    fix i k x rest err
    assume "i < length ws" "ws ! i = (k, x) # rest" "put v k x = Inl err"
    then show ?thesis using pool_write [OF inv, of i k x rest] by simp
  qed
qed

lemma pool_runs:
  "(par_step put)\<^sup>*\<^sup>* s s' \<Longrightarrow> pool_inv goal s \<Longrightarrow> pool_inv goal s'"
  by (induction rule: rtranclp_induct) (auto intro: pool_step)

lemma pool_finishes:
  "pool_inv goal (v, None, ws) \<Longrightarrow>
     \<exists>v' ws'. (par_step put)\<^sup>*\<^sup>* (v, None, ws) (v', None, ws') \<and> (\<forall>w\<in>set ws'. w = [])"
proof (induction "length (concat ws)" arbitrary: v ws)
  case 0
  then show ?case by auto
next
  case (Suc m)
  then have "concat ws \<noteq> []" by (metis length_0_conv Zero_not_Suc)
  then obtain w where "w \<in> set ws" "w \<noteq> []" unfolding concat_eq_Nil_conv by blast
  then obtain i y rest where i: "i < length ws" "ws ! i = y # rest"
    by (metis in_set_conv_nth neq_Nil_conv)
  obtain k x where y: "y = (k, x)" by (cases y)
  obtain v' where v': "put v k x = Inr v'" "pool_inv goal (v', None, ws[i := rest])"
    using pool_write [OF Suc.prems i [unfolded y]] by blast
  have "m = length (concat (ws[i := rest]))"
    using concat_update [OF i] Suc.hyps(2) by auto
  from Suc.hyps(1) [OF this v'(2)] obtain v'' ws'' where
    "(par_step put)\<^sup>*\<^sup>* (v', None, ws[i := rest]) (v'', None, ws'')" "\<forall>w\<in>set ws''. w = []" by blast
  moreover have "par_step put (v, None, ws) (v', None, ws[i := rest])"
    using i v'(1) y by (auto intro: par_step.step_write)
  ultimately show ?case by (meson converse_rtranclp_into_rtranclp)
qed

theorem joined_unique:
  assumes "ok v" "distinct (map fst (concat ws))"
    and "\<forall>(k, x)\<in>set (concat ws). k < length (elems v) \<and> valid x"
  shows "\<exists>r. joined put v ws r"
    and "joined put v ws r \<Longrightarrow> \<exists>v'. r = Inr v' \<and> ok v' \<and> elems v' = updates (concat ws) (elems v)"
proof -
  have inv: "pool_inv (updates (concat ws) (elems v)) (v, None, ws)"
    using assms by (simp add: pool_inv_def)
  show "\<exists>r. joined put v ws r"
    using pool_finishes [OF inv] unfolding joined_def by blast
  assume "joined put v ws r"
  then obtain v' e ws' where run: "(par_step put)\<^sup>*\<^sup>* (v, None, ws) (v', e, ws')"
    and fin: "\<forall>w\<in>set ws'. w = []" and r: "r = (case e of None \<Rightarrow> Inr v' | Some err \<Rightarrow> Inl err)"
    by (auto simp: joined_def)
  have "concat ws' = []" using fin by (simp add: concat_eq_Nil_conv)
  with pool_runs [OF run inv] r
  show "\<exists>v'. r = Inr v' \<and> ok v' \<and> elems v' = updates (concat ws) (elems v)"
    by (auto simp: pool_inv_def)
qed

end

end
