(* ===== verification/Ring.thy ===== *)
theory Ring
  imports Prelude
begin

text \<open>
  Scalar arithmetic in \<open>Z_(2^ell)\<close>: the masks and operations of \<^verbatim>\<open>include/common.hpp\<close>
  (8-bit and 32-bit), \<open>ringRand\<close>, and the checked 64-bit operations the Python module exports
  (\<^verbatim>\<open>src/bind/util_bind.cpp\<close>). The template parameter \<open>ELL\<close> is an argument. The
  locale \<open>zring\<close> is the interface the secret-sharing schemes use.
\<close>

section \<open>The operations of common.hpp\<close>

definition RING_MASK8 :: "nat \<Rightarrow> byte" where
  "RING_MASK8 ell = (if ell = 8 then 0xFF else ucast (push_bit ell (1::u32) - 1))"

definition ringAdd8 :: "nat \<Rightarrow> byte \<Rightarrow> byte \<Rightarrow> byte" where
  "ringAdd8 ell a b =
     (if ell = 8 then ucast ((ucast a :: u32) + ucast b)
      else ucast (((ucast a :: u32) + ucast b) AND ucast (RING_MASK8 ell)))"

definition ringSub8 :: "nat \<Rightarrow> byte \<Rightarrow> byte \<Rightarrow> byte" where
  "ringSub8 ell a b =
     (if ell = 8 then ucast ((ucast a :: u32) - ucast b)
      else ucast (((ucast a :: u32) - ucast b) AND ucast (RING_MASK8 ell)))"

definition ringMul8 :: "nat \<Rightarrow> byte \<Rightarrow> byte \<Rightarrow> byte" where
  "ringMul8 ell a b =
     (if ell = 8 then ucast ((ucast a :: u32) * ucast b)
      else ucast (((ucast a :: u32) * ucast b) AND ucast (RING_MASK8 ell)))"

definition RING_MASK32 :: "nat \<Rightarrow> u32" where
  "RING_MASK32 ell =
     (if ell \<ge> 32 then 0xFFFFFFFF else ucast (push_bit ell (1::u64) - 1))"

definition ringAdd32 :: "nat \<Rightarrow> u32 \<Rightarrow> u32 \<Rightarrow> u32" where
  "ringAdd32 ell a b = (if ell \<ge> 32 then a + b else (a + b) AND RING_MASK32 ell)"

definition ringSub32 :: "nat \<Rightarrow> u32 \<Rightarrow> u32 \<Rightarrow> u32" where
  "ringSub32 ell a b = (if ell \<ge> 32 then a - b else (a - b) AND RING_MASK32 ell)"

definition ringMul32 :: "nat \<Rightarrow> u32 \<Rightarrow> u32 \<Rightarrow> u32" where
  "ringMul32 ell a b = (if ell \<ge> 32 then a * b else (a * b) AND RING_MASK32 ell)"

definition RING_SCALAR_ELL_MIN :: nat where "RING_SCALAR_ELL_MIN = 1"
definition RING_SCALAR_ELL_MAX :: nat where "RING_SCALAR_ELL_MAX = 31"

text \<open>
  \<open>ringRand\<close>: \<open>inited\<close> is the \<open>std::once_flag\<close>, \<open>sodium_init\<close> the return value of the
  library call, \<open>v\<close> the four bytes \<open>randombytes_buf\<close> fills in. A throwing initialiser leaves
  the flag unset.
\<close>

definition ringRand :: "bool \<Rightarrow> int \<Rightarrow> u32 \<Rightarrow> nat \<Rightarrow> bool \<times> u32 res" where
  "ringRand inited sodium_init v ell =
     (if ell < RING_SCALAR_ELL_MIN \<or> ell > RING_SCALAR_ELL_MAX
      then (inited, Inl InvalidArgument)
      else if \<not> inited \<and> sodium_init < 0 then (False, Inl RuntimeError)
      else (True, Inr (ucast ((ucast v :: u64) AND (push_bit ell 1 - 1)))))"

section \<open>The exported 64-bit operations\<close>

definition ring_mask :: "nat \<Rightarrow> u64 res" where
  "ring_mask ell =
     (if ell < 1 \<or> ell > 31 then Inl InvalidArgument else Inr (push_bit ell 1 - 1))"

definition ring_add :: "nat \<Rightarrow> u64 \<Rightarrow> u64 \<Rightarrow> u64 res" where
  "ring_add ell a b =
     (if ell < 1 \<or> ell > 31 then Inl InvalidArgument
      else let m = push_bit ell 1 - 1 in
        if a > m then Inl InvalidArgument
        else if b > m then Inl InvalidArgument
        else Inr ((a + b) AND m))"

definition ring_sub :: "nat \<Rightarrow> u64 \<Rightarrow> u64 \<Rightarrow> u64 res" where
  "ring_sub ell a b =
     (if ell < 1 \<or> ell > 31 then Inl InvalidArgument
      else let m = push_bit ell 1 - 1 in
        if a > m then Inl InvalidArgument
        else if b > m then Inl InvalidArgument
        else Inr ((a - b) AND m))"

definition ring_mul :: "nat \<Rightarrow> u64 \<Rightarrow> u64 \<Rightarrow> u64 res" where
  "ring_mul ell a b =
     (if ell < 1 \<or> ell > 31 then Inl InvalidArgument
      else let m = push_bit ell 1 - 1 in
        if a > m then Inl InvalidArgument
        else if b > m then Inl InvalidArgument
        else Inr ((a * b) AND m))"

definition ring_mod :: "nat \<Rightarrow> u64 \<Rightarrow> u64 \<Rightarrow> u64 res" where
  "ring_mod ell v m =
     (if ell < 1 \<or> ell > 31 then Inl InvalidArgument
      else let k = push_bit ell 1 - 1 in
        if v > k then Inl InvalidArgument
        else if m > k then Inl InvalidArgument
        else if m = 0 then Inl InvalidArgument
        else Inr (v mod m))"

section \<open>Masks and truncation\<close>

named_theorems ring_simps \<open>ring operations as truncated word arithmetic\<close>

lemma push_bit_1_minus_1: "push_bit ell 1 - 1 = (mask ell :: 'a::len word)"
  by (simp add: mask_eq_exp_minus_1)

lemma mask_LENGTH_ge: "LENGTH('a::len) \<le> n \<Longrightarrow> (mask n :: 'a word) = - 1"
  by (rule bit_word_eqI) (simp add: bit_mask_iff)

lemma byte_max_mask: "(255 :: byte) = mask 8"
  and u32_max_mask: "(4294967295 :: u32) = mask 32"
  by (simp_all add: mask_eq_exp_minus_1)

lemma take_bit_8 [simp]: "8 \<le> n \<Longrightarrow> take_bit n (w :: byte) = w"
  by (rule bit_word_eqI) (simp add: bit_take_bit_iff)

lemma le_mask_iff:
  fixes w :: "'a::len word"
  assumes "ell \<le> LENGTH('a)"
  shows "w \<le> mask ell \<longleftrightarrow> take_bit ell w = w"
proof -
  have "int (unat (mask ell :: 'a word)) = int (mask ell)"
    using assms by (simp add: uint_mask_eq min_def of_nat_mask_eq)
  then have "unat (mask ell :: 'a word) = mask ell" by (simp only: of_nat_eq_iff)
  then have "w \<le> mask ell \<longleftrightarrow> unat w < 2 ^ ell"
    by (auto simp: word_le_nat_alt mask_eq_exp_minus_1 Suc_diff_Suc less_Suc_eq_le [symmetric])
  also have "\<dots> \<longleftrightarrow> unat (take_bit ell w) = unat w"
    by (simp add: unsigned_take_bit_eq take_bit_nat_eq_self_iff)
  finally show ?thesis by (simp add: word_unat_eq_iff)
qed

lemma RING_MASK8_eq: "ell \<le> 8 \<Longrightarrow> RING_MASK8 ell = mask ell"
  unfolding RING_MASK8_def push_bit_1_minus_1
  by (auto intro!: bit_word_eqI simp: bit_simps byte_max_mask)

lemma RING_MASK32_eq: "RING_MASK32 ell = mask ell"
  unfolding RING_MASK32_def push_bit_1_minus_1
  by (auto intro!: bit_word_eqI simp: bit_simps u32_max_mask)

lemma and_RING_MASK8 [ring_simps]: "ell \<le> 8 \<Longrightarrow> w AND RING_MASK8 ell = take_bit ell w"
  by (simp add: RING_MASK8_eq take_bit_eq_mask)

lemma le_RING_MASK8 [ring_simps]:
  "ell \<le> 8 \<Longrightarrow> w \<le> RING_MASK8 ell \<longleftrightarrow> take_bit ell w = w"
  by (simp add: RING_MASK8_eq le_mask_iff)

lemma ucast_and: "ucast (x AND y) = (ucast x AND ucast y)"
  by (rule bit_word_eqI) (auto simp: bit_simps)

lemma ucast_ops_8:
  fixes a b :: byte
  shows "ucast ((ucast a :: u32) + ucast b) = a + b"
    and "ucast ((ucast a :: u32) - ucast b) = a - b"
    and "ucast ((ucast a :: u32) * ucast b) = a * b"
  by (transfer; simp add: take_bit_add take_bit_diff take_bit_mult)+

lemma ucast_ucast_u32 [simp]: "ucast (ucast (w :: byte) :: u32) = w"
  by (rule bit_word_eqI) (simp add: bit_simps)

lemma ringAdd8_eq [ring_simps]: "ell \<le> 8 \<Longrightarrow> ringAdd8 ell a b = take_bit ell (a + b)"
  and ringSub8_eq [ring_simps]: "ell \<le> 8 \<Longrightarrow> ringSub8 ell a b = take_bit ell (a - b)"
  and ringMul8_eq [ring_simps]: "ell \<le> 8 \<Longrightarrow> ringMul8 ell a b = take_bit ell (a * b)"
  by (simp_all add: ringAdd8_def ringSub8_def ringMul8_def ucast_and ucast_ops_8
      and_RING_MASK8)

lemma ringAdd32_eq [ring_simps]: "ell \<le> 32 \<Longrightarrow> ringAdd32 ell a b = take_bit ell (a + b)"
  and ringSub32_eq [ring_simps]: "ell \<le> 32 \<Longrightarrow> ringSub32 ell a b = take_bit ell (a - b)"
  and ringMul32_eq [ring_simps]: "ell \<le> 32 \<Longrightarrow> ringMul32 ell a b = take_bit ell (a * b)"
  by (auto simp: ringAdd32_def ringSub32_def ringMul32_def RING_MASK32_eq take_bit_eq_mask
      mask_LENGTH_ge)

section \<open>The ring interface\<close>

text \<open>
  The contract the schemes rely on: \<open>val\<close> reads a representation as an integer, and on the
  admissible widths \<open>ok\<close> the three operations are the ring operations of \<open>Z_(2^ell)\<close>.
\<close>

locale zring =
  fixes ok :: "nat \<Rightarrow> bool"
    and val :: "'w \<Rightarrow> int"
    and add sub mul :: "nat \<Rightarrow> 'w \<Rightarrow> 'w \<Rightarrow> 'w"
  assumes val_add: "ok ell \<Longrightarrow> val (add ell a b) = (val a + val b) mod 2 ^ ell"
    and val_sub: "ok ell \<Longrightarrow> val (sub ell a b) = (val a - val b) mod 2 ^ ell"
    and val_mul: "ok ell \<Longrightarrow> val (mul ell a b) = (val a * val b) mod 2 ^ ell"
    and val_nonneg: "0 \<le> val a"
    and val_inj: "val a = val b \<Longrightarrow> a = b"
begin

lemmas val_ops = val_add val_sub val_mul

lemma range: "ok ell \<Longrightarrow> val (add ell a b) < 2 ^ ell"
  "ok ell \<Longrightarrow> val (sub ell a b) < 2 ^ ell"
  "ok ell \<Longrightarrow> val (mul ell a b) < 2 ^ ell"
  by (simp_all add: val_ops)

lemma add_assoc: "ok ell \<Longrightarrow> add ell (add ell a b) c = add ell a (add ell b c)"
  by (rule val_inj) (simp add: val_ops mod_simps add.assoc)

lemma add_commute: "ok ell \<Longrightarrow> add ell a b = add ell b a"
  by (rule val_inj) (simp add: val_ops add.commute)

lemma mul_commute: "ok ell \<Longrightarrow> mul ell a b = mul ell b a"
  by (rule val_inj) (simp add: val_ops mult.commute)

lemma mul_add: "ok ell \<Longrightarrow> mul ell a (add ell b c) = add ell (mul ell a b) (mul ell a c)"
  by (rule val_inj) (simp add: val_ops mod_simps distrib_left)

text \<open>A value masked by \<open>sub\<close> is recovered by \<open>add\<close>: two-party additive sharing.\<close>

lemma sub_add: "ok ell \<Longrightarrow> val v < 2 ^ ell \<Longrightarrow> add ell (sub ell v r) r = v"
  by (rule val_inj) (simp add: val_ops mod_simps val_nonneg)

end

lemma uint_take_bit_mod: "uint (take_bit ell w) = uint w mod 2 ^ ell"
  unfolding unsigned_take_bit_eq by (rule take_bit_eq_mod)

lemma uint_take_bit_ops:
  fixes a b :: "'a::len word"
  assumes "ell \<le> LENGTH('a)"
  shows "uint (take_bit ell (a + b)) = (uint a + uint b) mod 2 ^ ell"
    and "uint (take_bit ell (a - b)) = (uint a - uint b) mod 2 ^ ell"
    and "uint (take_bit ell (a * b)) = (uint a * uint b) mod 2 ^ ell"
  using assms by (simp_all add: uint_take_bit_mod uint_word_ariths mod_mod_cancel le_imp_power_dvd)

text \<open>The ring operations only look at the low bits of their operands.\<close>

lemma take_bit_ring:
  fixes x y :: byte
  assumes "ell \<le> 8"
  shows "take_bit ell (take_bit ell x + take_bit ell y) = take_bit ell (x + y)"
    "take_bit ell (take_bit ell x - take_bit ell y) = take_bit ell (x - y)"
    "take_bit ell (take_bit ell x * take_bit ell y) = take_bit ell (x * y)"
  using assms by (simp_all add: word_uint_eq_iff uint_take_bit_ops) (simp_all add: uint_take_bit_mod mod_simps)

text \<open>Congruence modulo \<open>2^ell\<close>.\<close>

lemma take_bit_cong:
  fixes x y :: byte
  assumes "ell \<le> 8" "take_bit ell x = take_bit ell x'" "take_bit ell y = take_bit ell y'"
  shows "take_bit ell (x + y) = take_bit ell (x' + y')" "take_bit ell (x - y) = take_bit ell (x' - y')"
    "take_bit ell (x * y) = take_bit ell (x' * y')"
  using take_bit_ring [OF assms(1), of x y] take_bit_ring [OF assms(1), of x' y'] assms(2,3) by metis+

interpretation r8: zring "\<lambda>ell. 1 \<le> ell \<and> ell \<le> 8" uint ringAdd8 ringSub8 ringMul8
  by unfold_locales (auto simp: ring_simps uint_take_bit_ops word_uint_eq_iff)

interpretation r32: zring "\<lambda>ell. 1 \<le> ell \<and> ell \<le> 32" uint ringAdd32 ringSub32 ringMul32
  by unfold_locales (auto simp: ring_simps uint_take_bit_ops word_uint_eq_iff)

section \<open>Properties\<close>

text \<open>On every admissible width the 8-bit and 32-bit operations are addition, subtraction
  and multiplication modulo \<open>2^ell\<close>, whatever the operands.\<close>

theorem ring_operations:
  "(1 \<le> ell \<and> ell \<le> 8 \<longrightarrow>
     uint (ringAdd8 ell a b) = (uint a + uint b) mod 2 ^ ell \<and>
     uint (ringSub8 ell a b) = (uint a - uint b) mod 2 ^ ell \<and>
     uint (ringMul8 ell a b) = (uint a * uint b) mod 2 ^ ell) \<and>
   (1 \<le> ell \<and> ell \<le> 32 \<longrightarrow>
     uint (ringAdd32 ell c d) = (uint c + uint d) mod 2 ^ ell \<and>
     uint (ringSub32 ell c d) = (uint c - uint d) mod 2 ^ ell \<and>
     uint (ringMul32 ell c d) = (uint c * uint d) mod 2 ^ ell)"
  using r8.val_ops [of ell a b] r32.val_ops [of ell c d] by blast

theorem ring_operations_witness:
  "uint (ringSub8 5 3 7) = 28 \<and> uint (ringMul32 31 0x7FFFFFFF 0x7FFFFFFF) = 1"
  using ring_operations [of 5 3 7] ring_operations [where ell = 31 and c = "0x7FFFFFFF" and d = "0x7FFFFFFF"]
  by simp

text \<open>The operands the exported operations accept.\<close>

definition in_ring :: "nat \<Rightarrow> u64 \<Rightarrow> bool" where
  "in_ring ell a \<longleftrightarrow> uint a < 2 ^ ell"

lemma in_ring_iff: "ell \<le> 31 \<Longrightarrow> in_ring ell a \<longleftrightarrow> \<not> a > push_bit ell 1 - 1"
proof -
  have "uint a < 2 ^ ell \<longleftrightarrow> uint a mod 2 ^ ell = uint a"
    by (metis mod_pos_pos_trivial pos_mod_bound unsigned_greater_eq zero_less_numeral zero_less_power)
  then show "ell \<le> 31 \<Longrightarrow> ?thesis"
    unfolding push_bit_1_minus_1 not_less
    by (simp add: le_mask_iff in_ring_def word_uint_eq_iff uint_take_bit_mod)
qed

text \<open>The operations exported to Python accept exactly widths 1 to 31 and operands below
  \<open>2^ell\<close> (and a non-zero modulus), answer everything else with \<open>invalid_argument\<close>, and compute
  the operation modulo \<open>2^ell\<close>.\<close>

theorem exported_operations:
  "ring_add ell a b = (if 1 \<le> ell \<and> ell \<le> 31 \<and> in_ring ell a \<and> in_ring ell b
     then Inr (word_of_int ((uint a + uint b) mod 2 ^ ell)) else Inl InvalidArgument) \<and>
   ring_sub ell a b = (if 1 \<le> ell \<and> ell \<le> 31 \<and> in_ring ell a \<and> in_ring ell b
     then Inr (word_of_int ((uint a - uint b) mod 2 ^ ell)) else Inl InvalidArgument) \<and>
   ring_mul ell a b = (if 1 \<le> ell \<and> ell \<le> 31 \<and> in_ring ell a \<and> in_ring ell b
     then Inr (word_of_int ((uint a * uint b) mod 2 ^ ell)) else Inl InvalidArgument) \<and>
   ring_mod ell a b = (if 1 \<le> ell \<and> ell \<le> 31 \<and> in_ring ell a \<and> in_ring ell b \<and> b \<noteq> 0
     then Inr (word_of_int (uint a mod uint b)) else Inl InvalidArgument)"
proof (cases "1 \<le> ell \<and> ell \<le> 31")
  case False
  then show ?thesis by (auto simp: ring_add_def ring_sub_def ring_mul_def ring_mod_def)
next
  case True
  have m: "w AND 2 ^ ell - 1 = word_of_int (uint w mod 2 ^ ell)" for w :: u64
    by (simp flip: mask_eq_exp_minus_1 take_bit_eq_mask uint_take_bit_mod)
  have "uint (x + y) mod 2 ^ ell = (uint x + uint y) mod 2 ^ ell"
    "uint (x - y) mod 2 ^ ell = (uint x - uint y) mod 2 ^ ell"
    "uint (x * y) mod 2 ^ ell = (uint x * uint y) mod 2 ^ ell" for x y :: u64
    using True uint_take_bit_ops [of ell x y] by (simp_all add: uint_take_bit_mod)
  moreover have "a mod b = word_of_int (uint a mod uint b)" by (simp add: word_mod_def)
  ultimately show ?thesis using True
    by (auto simp: ring_add_def ring_sub_def ring_mul_def ring_mod_def Let_def in_ring_iff m)
qed

end
