(* ===== verification/Intrinsics.thy ===== *)
theory Intrinsics
  imports Prelude
begin

text \<open>
  The SSE intrinsics the sources use: those of the nibble and crumb kernels of
  \<^verbatim>\<open>include/rvector.hpp\<close> as operations on lane lists, those of the secret-sharing
  schemes on 128-bit words. As a lane list, a register seen as 16 bytes, 8 words of 16 bits or 4 words of
  32 bits, least significant lane first. A register is reinterpreted with other lanes by
  \<open>epi8_of_epi32\<close> and \<open>epi16_of_epi8\<close>.
\<close>

definition sat16 :: "int \<Rightarrow> 16 word" where
  "sat16 x = word_of_int (max (- 32768) (min 32767 x))"

definition satu8 :: "int \<Rightarrow> byte" where
  "satu8 x = word_of_int (max 0 (min 255 x))"

definition mm_and_si128 :: "'a::len word list \<Rightarrow> 'a word list \<Rightarrow> 'a word list" where
  "mm_and_si128 = map2 (AND)"

text \<open>Unsigned bytes of the first operand times signed bytes of the second, pairs added
  with signed saturation.\<close>

fun mm_maddubs_epi16 :: "byte list \<Rightarrow> byte list \<Rightarrow> 16 word list" where
  "mm_maddubs_epi16 (a0 # a1 # as) (b0 # b1 # bs) =
     sat16 (uint a0 * sint b0 + uint a1 * sint b1) # mm_maddubs_epi16 as bs"
| "mm_maddubs_epi16 as bs = []"

text \<open>Signed 16-bit lanes to unsigned bytes with saturation, first operand in the low half.\<close>

definition mm_packus_epi16 :: "16 word list \<Rightarrow> 16 word list \<Rightarrow> byte list" where
  "mm_packus_epi16 as bs = map (\<lambda>x. satu8 (sint x)) (as @ bs)"

text \<open>Signed 16-bit products, neighbouring pairs added in 32 bits.\<close>

fun mm_madd_epi16 :: "16 word list \<Rightarrow> 16 word list \<Rightarrow> 32 word list" where
  "mm_madd_epi16 (a0 # a1 # as) (b0 # b1 # bs) =
     word_of_int (sint a0 * sint b0 + sint a1 * sint b1) # mm_madd_epi16 as bs"
| "mm_madd_epi16 as bs = []"

definition epi8_of_epi32 :: "32 word list \<Rightarrow> byte list" where
  "epi8_of_epi32 xs = concat (map (le_bytes 4) xs)"

text \<open>Byte shuffle: a selector byte with its top bit set clears the lane.\<close>

definition mm_shuffle_epi8 :: "byte list \<Rightarrow> byte list \<Rightarrow> byte list" where
  "mm_shuffle_epi8 xs sel =
     map (\<lambda>s. if bit s 7 then 0 else xs ! unat (s AND 15)) sel"

text \<open>Zero extension of the eight low bytes to 16-bit lanes, and logical right shifts.\<close>

definition mm_cvtepu8_epi16 :: "byte list \<Rightarrow> 16 word list" where
  "mm_cvtepu8_epi16 xs = map ucast (take 8 xs)"

definition mm_srli_epi16 :: "16 word list \<Rightarrow> nat \<Rightarrow> 16 word list" where
  "mm_srli_epi16 xs n = map (drop_bit n) xs"

text \<open>Interleave the low (high) four 16-bit lanes of two registers.\<close>

definition mm_unpacklo_epi16 :: "16 word list \<Rightarrow> 16 word list \<Rightarrow> 16 word list" where
  "mm_unpacklo_epi16 as bs = concat (map2 (\<lambda>a b. [a, b]) (take 4 as) (take 4 bs))"

definition mm_unpackhi_epi16 :: "16 word list \<Rightarrow> 16 word list \<Rightarrow> 16 word list" where
  "mm_unpackhi_epi16 as bs =
     concat (map2 (\<lambda>a b. [a, b]) (take 4 (drop 4 as)) (take 4 (drop 4 bs)))"

section \<open>Registers as 128-bit words\<close>

text \<open>\<open>_mm_set_epi64x(hi, lo)\<close>, the low half, byte-wise subtraction and a byte in all lanes.\<close>

definition mm_set_epi64x :: "u64 \<Rightarrow> u64 \<Rightarrow> block" where
  "mm_set_epi64x hi lo = ucast lo OR push_bit 64 (ucast hi)"

definition mm_cvtsi128_si64 :: "block \<Rightarrow> u64" where
  "mm_cvtsi128_si64 v = ucast v"

definition mm_sub_epi8 :: "block \<Rightarrow> block \<Rightarrow> block" where
  "mm_sub_epi8 a b = of_le_bytes (map2 (-) (le_bytes 16 a) (le_bytes 16 b))"

definition mm_set1_epi8 :: "byte \<Rightarrow> block" where
  "mm_set1_epi8 x = of_le_bytes (replicate 16 x)"

text \<open>The hash \<^verbatim>\<open>emp::CCRH\<close>: key, then input.\<close>

type_synonym ccrh = "block \<Rightarrow> block \<Rightarrow> block"

section \<open>Lanes\<close>

lemmas intrinsic_defs =
  mm_and_si128_def mm_packus_epi16_def epi8_of_epi32_def mm_shuffle_epi8_def
  mm_cvtepu8_epi16_def mm_srli_epi16_def mm_unpacklo_epi16_def mm_unpackhi_epi16_def

lemma length_mm_packus_epi16 [simp]: "length (mm_packus_epi16 as bs) = length as + length bs"
  by (simp add: mm_packus_epi16_def)

lemma length_mm_and_si128 [simp]: "length (mm_and_si128 as bs) = min (length as) (length bs)"
  by (simp add: mm_and_si128_def)

end
