(* ===== verification/Packing.thy ===== *)
theory Packing
  imports Ring Intrinsics
begin

text \<open>
  The pack and unpack kernels of \<^verbatim>\<open>include/rvector.hpp\<close>: \<open>_pack2\<close> .. \<open>_pack7\<close> and
  \<open>_unpack2\<close> .. \<open>_unpack7\<close>. Every kernel is a sequence of counted loops over whole groups
  of elements followed by a tail. \<open>pack_loop\<close> and \<open>unpack_loop\<close> are that counted loop, with
  the group body as an argument; all reads and writes are bounds checked, so a result
  \<open>Some _\<close> also says that no access leaves the buffers.
\<close>

section \<open>The loop skeletons\<close>

text \<open>\<^verbatim>\<open>for (; i + g < n; i += g + 1, out += B) { dst[out..] = f(src[i..i+g]); }\<close>\<close>

function pack_loop :: "nat \<Rightarrow> nat \<Rightarrow> (byte list \<Rightarrow> byte list) \<Rightarrow> byte list \<Rightarrow> nat \<Rightarrow>
    nat \<Rightarrow> nat \<Rightarrow> byte list \<Rightarrow> (nat \<times> nat \<times> byte list) option" where
  "pack_loop g B f src n i out dst =
     (if i + g < n
      then Option.bind (ldn src i (Suc g)) (\<lambda>xs.
           Option.bind (stn dst out (f xs)) (\<lambda>dst'.
           pack_loop g B f src n (i + Suc g) (out + B) dst'))
      else Some (i, out, dst))"
  by pat_completeness auto
termination by (relation "measure (\<lambda>(g, B, f, src, n, i, out, dst). n - i)") auto

text \<open>\<^verbatim>\<open>for (; i + g < n; i += g + 1, in += B) { dst[i..i+g] = f(src[in..]); }\<close>\<close>

function unpack_loop :: "nat \<Rightarrow> nat \<Rightarrow> (byte list \<Rightarrow> byte list) \<Rightarrow> byte list \<Rightarrow> nat \<Rightarrow>
    nat \<Rightarrow> nat \<Rightarrow> byte list \<Rightarrow> (nat \<times> nat \<times> byte list) option" where
  "unpack_loop g B f src n i inp dst =
     (if i + g < n
      then Option.bind (ldn src inp B) (\<lambda>xs.
           Option.bind (stn dst i (f xs)) (\<lambda>dst'.
           unpack_loop g B f src n (i + Suc g) (inp + B) dst'))
      else Some (i, inp, dst))"
  by pat_completeness auto
termination by (relation "measure (\<lambda>(g, B, f, src, n, i, inp, dst). n - i)") auto

declare pack_loop.simps [simp del] unpack_loop.simps [simp del]

section \<open>ELL = 4\<close>

text \<open>Two 16-byte loads, masked, nibble pairs multiplied and added, packed to 16 bytes.\<close>

definition pack4_step :: "byte list \<Rightarrow> byte list" where
  "pack4_step xs =
     (let mul = concat (replicate 8 [0x01, 0x10]);
          mask4 = replicate 16 0x0F;
          lo = mm_and_si128 (take 16 xs) mask4;
          hi = mm_and_si128 (take 16 (drop 16 xs)) mask4;
          p_lo = mm_maddubs_epi16 mul lo;
          p_hi = mm_maddubs_epi16 mul hi
      in mm_packus_epi16 p_lo p_hi)"

text \<open>One pass of the outer loop: \<open>k\<close> and \<open>h\<close> count over four such steps.\<close>

definition pack4_block :: "byte list \<Rightarrow> byte list" where
  "pack4_block xs =
     concat (map (\<lambda>k. concat (map (\<lambda>h. pack4_step (drop (k * 64 + h * 32) xs)) [0..<2])) [0..<2])"

definition pack4_pair :: "byte list \<Rightarrow> byte list" where
  "pack4_pair xs = [(xs ! 0 AND 0x0F) OR push_bit 4 (xs ! 1 AND 0x0F)]"

definition pack4 :: "byte list \<Rightarrow> nat \<Rightarrow> byte list \<Rightarrow> (nat \<times> byte list) option" where
  "pack4 src n dst =
     Option.bind (pack_loop 127 64 pack4_block src n 0 0 dst) (\<lambda>(i, out, dst).
     Option.bind (pack_loop 1 1 pack4_pair src n i out dst) (\<lambda>(i, out, dst).
     if i < n
     then Option.bind (ldn src i 1) (\<lambda>xs.
          Option.bind (stn dst out [xs ! 0 AND 0x0F]) (\<lambda>dst.
          Some (Suc out, dst)))
     else Some (out, dst)))"

definition unpack4_step :: "byte list \<Rightarrow> byte list" where
  "unpack4_step xs =
     (let m4 = replicate 8 0x0F;
          w = mm_cvtepu8_epi16 xs;
          lo = mm_and_si128 w m4;
          hi = mm_and_si128 (mm_srli_epi16 w 4) m4
      in mm_packus_epi16 (mm_unpacklo_epi16 lo hi) (mm_unpackhi_epi16 lo hi))"

definition unpack4_block :: "byte list \<Rightarrow> byte list" where
  "unpack4_block xs = concat (map (\<lambda>k. unpack4_step (drop (k * 8) xs)) [0..<8])"

definition unpack4_pair :: "byte list \<Rightarrow> byte list" where
  "unpack4_pair xs = [xs ! 0 AND 0xF, drop_bit 4 (xs ! 0)]"

definition unpack4 :: "byte list \<Rightarrow> nat \<Rightarrow> byte list \<Rightarrow> byte list option" where
  "unpack4 src n dst =
     Option.bind (unpack_loop 127 64 unpack4_block src n 0 0 dst) (\<lambda>(i, inp, dst).
     Option.bind (unpack_loop 1 1 unpack4_pair src n i inp dst) (\<lambda>(i, inp, dst).
     if i < n
     then Option.bind (ldn src inp 1) (\<lambda>xs. stn dst i [xs ! 0 AND 0xF])
     else Some dst))"

section \<open>ELL = 2\<close>

definition pack2_lane :: "byte list \<Rightarrow> byte list" where
  "pack2_lane xs =
     (let mul = concat (replicate 4 [0x01, 0x04, 0x10, 0x40]);
          m2 = replicate 16 3;
          sel = [0, 4, 8, 12] @ replicate 12 0x80;
          v = mm_and_si128 (take 16 xs) m2;
          p = mm_maddubs_epi16 mul v;
          q = mm_madd_epi16 p (replicate 8 1);
          r = mm_shuffle_epi8 (epi8_of_epi32 q) sel
      in take 4 r)"

definition pack2_block :: "byte list \<Rightarrow> byte list" where
  "pack2_block xs =
     concat (map (\<lambda>b. concat (map (\<lambda>k. pack2_lane (drop (b * 64 + k * 16) xs)) [0..<4])) [0..<4])"

definition pack2_quad :: "byte list \<Rightarrow> byte list" where
  "pack2_quad xs =
     [(xs ! 0 AND 3) OR push_bit 2 (xs ! 1 AND 3) OR push_bit 4 (xs ! 2 AND 3)
        OR push_bit 6 (xs ! 3 AND 3)]"

text \<open>\<open>b |= (src[i+j] & M) << (j * ell)\<close> over the elements left over.\<close>

fun or_tail :: "nat \<Rightarrow> byte \<Rightarrow> nat \<Rightarrow> byte list \<Rightarrow> 'w::len word \<Rightarrow> 'w word" where
  "or_tail ell M j [] acc = acc"
| "or_tail ell M j (x # xs) acc =
     or_tail ell M (Suc j) xs (acc OR push_bit (j * ell) (ucast (x AND M)))"

definition pack2 :: "byte list \<Rightarrow> nat \<Rightarrow> byte list \<Rightarrow> (nat \<times> byte list) option" where
  "pack2 src n dst =
     Option.bind (pack_loop 255 64 pack2_block src n 0 0 dst) (\<lambda>(i, out, dst).
     Option.bind (pack_loop 3 1 pack2_quad src n i out dst) (\<lambda>(i, out, dst).
     if i < n
     then Option.bind (ldn src i (n - i)) (\<lambda>xs.
          Option.bind (stn dst out [or_tail 2 3 0 xs 0]) (\<lambda>dst.
          Some (Suc out, dst)))
     else Some (out, dst)))"

definition unpack2_byte :: "byte list \<Rightarrow> byte list" where
  "unpack2_byte xs =
     (let b = xs ! 0 in [b AND 3, drop_bit 2 b AND 3, drop_bit 4 b AND 3, drop_bit 6 b])"

definition unpack2_block :: "byte list \<Rightarrow> byte list" where
  "unpack2_block xs =
     concat (map (\<lambda>k. concat (map (\<lambda>j. unpack2_byte (drop (k * 4 + j) xs)) [0..<4])) [0..<16])"

definition unpack2 :: "byte list \<Rightarrow> nat \<Rightarrow> byte list \<Rightarrow> byte list option" where
  "unpack2 src n dst =
     Option.bind (unpack_loop 255 64 unpack2_block src n 0 0 dst) (\<lambda>(i, inp, dst).
     Option.bind (unpack_loop 3 1 unpack2_byte src n i inp dst) (\<lambda>(i, inp, dst).
     if i < n
     then Option.bind (ldn src inp 1) (\<lambda>xs.
          stn dst i (map (\<lambda>j. drop_bit (j * 2) (xs ! 0) AND 3) [0..<n - i]))
     else Some dst))"

section \<open>ELL = 3, 5, 6, 7: bit windows\<close>

text \<open>The bytes \<open>(uint8_t)(bits >> 8b)\<close> for \<open>b < k\<close> are \<open>le_bytes k bits\<close>.\<close>

definition pack3_group :: "byte list \<Rightarrow> byte list" where
  "pack3_group xs =
     (let M = 7; bits = (ucast (xs ! 0 AND M) :: u32)
        OR push_bit 3 (ucast (xs ! 1 AND M)) OR push_bit 6 (ucast (xs ! 2 AND M))
        OR push_bit 9 (ucast (xs ! 3 AND M)) OR push_bit 12 (ucast (xs ! 4 AND M))
        OR push_bit 15 (ucast (xs ! 5 AND M)) OR push_bit 18 (ucast (xs ! 6 AND M))
        OR push_bit 21 (ucast (xs ! 7 AND M))
      in [ucast bits, ucast (drop_bit 8 bits), ucast (drop_bit 16 bits)])"

definition pack5_group :: "byte list \<Rightarrow> byte list" where
  "pack5_group xs =
     (let M = 31; bits = (ucast (xs ! 0 AND M) :: u64)
        OR push_bit 5 (ucast (xs ! 1 AND M)) OR push_bit 10 (ucast (xs ! 2 AND M))
        OR push_bit 15 (ucast (xs ! 3 AND M)) OR push_bit 20 (ucast (xs ! 4 AND M))
        OR push_bit 25 (ucast (xs ! 5 AND M)) OR push_bit 30 (ucast (xs ! 6 AND M))
        OR push_bit 35 (ucast (xs ! 7 AND M))
      in [ucast bits, ucast (drop_bit 8 bits), ucast (drop_bit 16 bits),
          ucast (drop_bit 24 bits), ucast (drop_bit 32 bits)])"

definition pack6_group :: "byte list \<Rightarrow> byte list" where
  "pack6_group xs =
     (let M = 63; bits = (ucast (xs ! 0 AND M) :: u32)
        OR push_bit 6 (ucast (xs ! 1 AND M)) OR push_bit 12 (ucast (xs ! 2 AND M))
        OR push_bit 18 (ucast (xs ! 3 AND M))
      in [ucast bits, ucast (drop_bit 8 bits), ucast (drop_bit 16 bits)])"

definition pack7_group :: "byte list \<Rightarrow> byte list" where
  "pack7_group xs =
     (let M = 127; bits = (ucast (xs ! 0 AND M) :: u64)
        OR push_bit 7 (ucast (xs ! 1 AND M)) OR push_bit 14 (ucast (xs ! 2 AND M))
        OR push_bit 21 (ucast (xs ! 3 AND M)) OR push_bit 28 (ucast (xs ! 4 AND M))
        OR push_bit 35 (ucast (xs ! 5 AND M)) OR push_bit 42 (ucast (xs ! 6 AND M))
        OR push_bit 49 (ucast (xs ! 7 AND M))
      in [ucast bits, ucast (drop_bit 8 bits), ucast (drop_bit 16 bits),
          ucast (drop_bit 24 bits), ucast (drop_bit 32 bits), ucast (drop_bit 40 bits),
          ucast (drop_bit 48 bits)])"

text \<open>The tail of these kernels: gather the rest in one word, then write its bytes.\<close>

definition pack_tail :: "nat \<Rightarrow> byte \<Rightarrow> ('w::len) itself \<Rightarrow> byte list \<Rightarrow> nat \<Rightarrow>
    nat \<times> nat \<times> byte list \<Rightarrow> (nat \<times> byte list) option" where
  "pack_tail ell M T src n = (\<lambda>(i, out, dst).
     if i < n
     then Option.bind (ldn src i (n - i)) (\<lambda>xs.
          let bits = (or_tail ell M 0 xs 0 :: 'w word);
              bs = le_bytes (((n - i) * ell + 7) div 8) bits
          in Option.bind (stn dst out bs) (\<lambda>dst. Some (out + length bs, dst)))
     else Some (out, dst))"

definition pack3 :: "byte list \<Rightarrow> nat \<Rightarrow> byte list \<Rightarrow> (nat \<times> byte list) option" where
  "pack3 src n dst =
     Option.bind (pack_loop 7 3 pack3_group src n 0 0 dst) (pack_tail 3 7 TYPE(32) src n)"

definition pack5 :: "byte list \<Rightarrow> nat \<Rightarrow> byte list \<Rightarrow> (nat \<times> byte list) option" where
  "pack5 src n dst =
     Option.bind (pack_loop 7 5 pack5_group src n 0 0 dst) (pack_tail 5 31 TYPE(64) src n)"

definition pack6 :: "byte list \<Rightarrow> nat \<Rightarrow> byte list \<Rightarrow> (nat \<times> byte list) option" where
  "pack6 src n dst =
     Option.bind (pack_loop 3 3 pack6_group src n 0 0 dst) (pack_tail 6 63 TYPE(32) src n)"

definition pack7 :: "byte list \<Rightarrow> nat \<Rightarrow> byte list \<Rightarrow> (nat \<times> byte list) option" where
  "pack7 src n dst =
     Option.bind (pack_loop 7 7 pack7_group src n 0 0 dst) (pack_tail 7 127 TYPE(64) src n)"

definition unpack3_group :: "byte list \<Rightarrow> byte list" where
  "unpack3_group xs =
     (let M = 7; bits = (ucast (xs ! 0) :: u32) OR push_bit 8 (ucast (xs ! 1))
        OR push_bit 16 (ucast (xs ! 2))
      in [ucast (bits AND M), ucast (drop_bit 3 bits AND M), ucast (drop_bit 6 bits AND M),
          ucast (drop_bit 9 bits AND M), ucast (drop_bit 12 bits AND M),
          ucast (drop_bit 15 bits AND M), ucast (drop_bit 18 bits AND M),
          ucast (drop_bit 21 bits AND M)])"

definition unpack5_group :: "byte list \<Rightarrow> byte list" where
  "unpack5_group xs =
     (let M = 31; bits = (ucast (xs ! 0) :: u64) OR push_bit 8 (ucast (xs ! 1))
        OR push_bit 16 (ucast (xs ! 2)) OR push_bit 24 (ucast (xs ! 3))
        OR push_bit 32 (ucast (xs ! 4))
      in [ucast (bits AND M), ucast (drop_bit 5 bits AND M), ucast (drop_bit 10 bits AND M),
          ucast (drop_bit 15 bits AND M), ucast (drop_bit 20 bits AND M),
          ucast (drop_bit 25 bits AND M), ucast (drop_bit 30 bits AND M),
          ucast (drop_bit 35 bits AND M)])"

definition unpack6_group :: "byte list \<Rightarrow> byte list" where
  "unpack6_group xs =
     (let M = 63; bits = (ucast (xs ! 0) :: u32) OR push_bit 8 (ucast (xs ! 1))
        OR push_bit 16 (ucast (xs ! 2))
      in [ucast (bits AND M), ucast (drop_bit 6 bits AND M), ucast (drop_bit 12 bits AND M),
          ucast (drop_bit 18 bits AND M)])"

definition unpack7_group :: "byte list \<Rightarrow> byte list" where
  "unpack7_group xs =
     (let M = 127; bits = (ucast (xs ! 0) :: u64) OR push_bit 8 (ucast (xs ! 1))
        OR push_bit 16 (ucast (xs ! 2)) OR push_bit 24 (ucast (xs ! 3))
        OR push_bit 32 (ucast (xs ! 4)) OR push_bit 40 (ucast (xs ! 5))
        OR push_bit 48 (ucast (xs ! 6))
      in [ucast (bits AND M), ucast (drop_bit 7 bits AND M), ucast (drop_bit 14 bits AND M),
          ucast (drop_bit 21 bits AND M), ucast (drop_bit 28 bits AND M),
          ucast (drop_bit 35 bits AND M), ucast (drop_bit 42 bits AND M),
          ucast (drop_bit 49 bits AND M)])"

text \<open>
  The tail reads a window of one byte, or of two when the element straddles a byte boundary;
  the shifts happen on promoted 32-bit integers.
\<close>

function unpack_tail :: "nat \<Rightarrow> byte \<Rightarrow> byte list \<Rightarrow> nat \<Rightarrow> nat \<Rightarrow> nat \<Rightarrow> byte list \<Rightarrow>
    byte list option" where
  "unpack_tail ell M src n i bt dst =
     (if i < n
      then Option.bind (ldn src (bt div 8) 1) (\<lambda>xs.
           let v = ucast (drop_bit (bt mod 8) (ucast (xs ! 0) :: u32) AND ucast M)
           in Option.bind (stn dst i [v]) (\<lambda>dst.
           Option.bind
             (if bt mod 8 + ell > 8
              then Option.bind (ldn src (bt div 8 + 1) 1) (\<lambda>ys.
                   stn dst i
                     [v OR ucast (push_bit (8 - bt mod 8) (ucast (ys ! 0) :: u32) AND ucast M)])
              else Some dst)
             (\<lambda>dst. unpack_tail ell M src n (Suc i) (bt + ell) dst)))
      else Some dst)"
  by pat_completeness auto
termination by (relation "measure (\<lambda>(ell, M, src, n, i, bt, dst). n - i)") auto

declare unpack_tail.simps [simp del]

definition unpack3 :: "byte list \<Rightarrow> nat \<Rightarrow> byte list \<Rightarrow> byte list option" where
  "unpack3 src n dst =
     Option.bind (unpack_loop 7 3 unpack3_group src n 0 0 dst) (\<lambda>(i, inp, dst).
     unpack_tail 3 7 src n i (i * 3) dst)"

definition unpack5 :: "byte list \<Rightarrow> nat \<Rightarrow> byte list \<Rightarrow> byte list option" where
  "unpack5 src n dst =
     Option.bind (unpack_loop 7 5 unpack5_group src n 0 0 dst) (\<lambda>(i, inp, dst).
     unpack_tail 5 31 src n i (i * 5) dst)"

definition unpack6 :: "byte list \<Rightarrow> nat \<Rightarrow> byte list \<Rightarrow> byte list option" where
  "unpack6 src n dst =
     Option.bind (unpack_loop 3 3 unpack6_group src n 0 0 dst) (\<lambda>(i, inp, dst).
     unpack_tail 6 63 src n i (i * 6) dst)"

definition unpack7 :: "byte list \<Rightarrow> nat \<Rightarrow> byte list \<Rightarrow> byte list option" where
  "unpack7 src n dst =
     Option.bind (unpack_loop 7 7 unpack7_group src n 0 0 dst) (\<lambda>(i, inp, dst).
     unpack_tail 7 127 src n i (i * 7) dst)"

end
