(* ===== verification/Kernel_Lemmas.thy ===== *)
theory Kernel_Lemmas
  imports Packing
begin

text \<open>
  Facts on the lane intrinsics and on bit streams that the kernel proofs share: what one
  vector step of \<open>_pack4\<close>, \<open>_unpack4\<close> and \<open>_pack2\<close> does to the bits of its input.
\<close>

section \<open>Bits of numerals and lists\<close>

lemma byte_bit_ge [simp]: "8 \<le> n \<Longrightarrow> \<not> bit (w :: byte) n"
  by (auto dest: bit_imp_le_length)

lemmas upts = upt_rec [of 0 "numeral k" for k] 

lemma upt_numerals:
  "[0..<2] = [0, 1 :: nat]" "[0..<3] = [0, 1, 2 :: nat]" "[0..<4] = [0, 1, 2, 3 :: nat]"
  "[0..<5] = [0, 1, 2, 3, 4 :: nat]" "[0..<6] = [0, 1, 2, 3, 4, 5 :: nat]"
  "[0..<7] = [0, 1, 2, 3, 4, 5, 6 :: nat]" "[0..<8] = [0, 1, 2, 3, 4, 5, 6, 7 :: nat]"
  by (simp_all add: upt_rec)

lemma mask_numerals:
  "(3 :: byte) = mask 2" "(7 :: byte) = mask 3" "(15 :: byte) = mask 4"
  "(31 :: byte) = mask 5" "(63 :: byte) = mask 6" "(127 :: byte) = mask 7"
  "(7 :: u32) = mask 3" "(63 :: u32) = mask 6" "(31 :: u64) = mask 5" "(127 :: u64) = mask 7"
  by (simp_all add: mask_eq_exp_minus_1)

lemma list_of_length:
  "length xs = 1 \<longleftrightarrow> (\<exists>a. xs = [a])"
  "length xs = 2 \<longleftrightarrow> (\<exists>a b. xs = [a, b])"
  "length xs = 3 \<longleftrightarrow> (\<exists>a b c. xs = [a, b, c])"
  "length xs = 4 \<longleftrightarrow> (\<exists>a b c d. xs = [a, b, c, d])"
  "length xs = 5 \<longleftrightarrow> (\<exists>a b c d e. xs = [a, b, c, d, e])"
  "length xs = 7 \<longleftrightarrow> (\<exists>a b c d e f g. xs = [a, b, c, d, e, f, g])"
  "length xs = 8 \<longleftrightarrow> (\<exists>a b c d e f g h. xs = [a, b, c, d, e, f, g, h])"
  by (auto simp: eval_nat_numeral length_Suc_conv)

lemma bits_of_take: "bits_of w (take k xs) = take (w * k) (bits_of w xs)"
proof (induction xs arbitrary: k)
  case (Cons x xs)
  then show ?case by (cases k) (auto simp: bits_of_Cons take_Cons')
qed simp

lemma bits_of_drop: "bits_of w (drop k xs) = drop (w * k) (bits_of w xs)"
proof (induction xs arbitrary: k)
  case (Cons x xs)
  then show ?case by (cases k) (auto simp: bits_of_Cons drop_Cons')
qed simp

lemma concat_chunks: "concat (map (\<lambda>k. take m (drop (k * m) xs)) [0..<q]) = take (q * m) xs"
proof (induction q)
  case (Suc q)
  have "take (Suc q * m) xs = take (q * m + m) xs" by (simp add: add.commute)
  also have "\<dots> = take (q * m) xs @ take m (drop (q * m) xs)" by (simp add: take_add)
  finally show ?case using Suc by simp
qed simp

section \<open>The SIMD steps\<close>

lemma sint_small: "uint v < 2 ^ (LENGTH('a) - 1) \<Longrightarrow> sint (v :: 'a::len word) = uint v"
proof -
  assume "uint v < 2 ^ (LENGTH('a) - 1)"
  moreover have "- (2 ^ (LENGTH('a) - 1)) \<le> uint v"
    by (rule order_trans [OF _ uint_ge_0]) simp
  ultimately show ?thesis by (simp add: sint_uint signed_take_bit_int_eq_self)
qed

lemma sint_word_of_int_small:
  "- (2 ^ (LENGTH('a) - 1)) \<le> k \<Longrightarrow> k < 2 ^ (LENGTH('a) - 1) \<Longrightarrow>
     sint (word_of_int k :: 'a::len word) = k"
  by (simp add: signed_take_bit_int_eq_self sint_sbintrunc')

lemma maddubs_pair4:
  "satu8 (sint (sat16 (uint (1::byte) * sint (x AND 15) + uint (16::byte) * sint (y AND 15))))
     = (x AND 15) OR push_bit 4 (y AND 15)" (is "satu8 (sint (sat16 ?v)) = _")
proof -
  let ?x = "uint (x AND 15)" and ?y = "uint (y AND 15)"
  have b: "0 \<le> ?x" "?x < 16" "0 \<le> ?y" "?y < 16"
    using and_mask_lt_2p [of x 4] and_mask_lt_2p [of y 4] by (simp_all add: mask_numerals)
  have v: "?v = ?x + 16 * ?y" using b by (simp add: sint_small)
  have m: "max (- 32768) (min 32767 (?x + 16 * ?y)) = ?x + 16 * ?y"
    "max 0 (min 255 (?x + 16 * ?y)) = ?x + 16 * ?y"
    using b by linarith+
  have "sint (word_of_int (?x + 16 * ?y) :: 16 word) = ?x + 16 * ?y"
    by (rule sint_word_of_int_small; simp) (use b in linarith)+
  then have "satu8 (sint (sat16 ?v)) = word_of_int (?x + 16 * ?y)"
    by (simp only: sat16_def satu8_def v m)
  also have "\<dots> = (x AND 15) + push_bit 4 (y AND 15)"
    by (simp add: push_bit_eq_mult)
  also have "\<dots> = (x AND 15) OR push_bit 4 (y AND 15)"
    by (rule disjunctive_add_eq_or) (auto intro!: bit_word_eqI simp: bit_simps mask_numerals)
  finally show ?thesis .
qed

lemma maddubs_and4:
  "length xs = 2 * k \<Longrightarrow>
   map (\<lambda>v. satu8 (sint v)) (mm_maddubs_epi16 (concat (replicate k [1, 16])) (mm_and_si128 xs (replicate (2 * k) 15)))
    = concat (map (\<lambda>j. pack4_pair (drop (2 * j) xs)) [0..<k])"
proof (induction k arbitrary: xs)
  case (Suc k)
  then obtain a b ys where xs: "xs = a # b # ys" "length ys = 2 * k"
    by (auto simp: length_Suc_conv)
  have "concat (map (\<lambda>j. pack4_pair (drop (2 * j) xs)) [0..<Suc k])
     = pack4_pair xs @ concat (map (\<lambda>j. pack4_pair (drop (2 * j) ys)) [0..<k])"
    by (simp only: upt_conv_Cons [OF zero_less_Suc] map_Suc_upt [symmetric]) (simp add: xs o_def)
  with Suc.IH [OF xs(2)] show ?case
    by (simp add: xs mm_and_si128_def maddubs_pair4 [simplified] pack4_pair_def)
qed (simp add: mm_and_si128_def)

lemma pack4_pair_bits: "2 \<le> length xs \<Longrightarrow> bits_of 8 (pack4_pair xs) = bits_of 4 (take 2 xs)"
  by (cases xs; cases "tl xs")
     (auto simp: pack4_pair_def bits_of_Cons upt_numerals bit_simps mask_numerals)

lemma pack4_step_bits:
  assumes "32 \<le> length xs"
  shows "bits_of 8 (pack4_step xs) = bits_of 4 (take 32 xs)" "length (pack4_step xs) = 16"
proof -
  have *: "map (\<lambda>v. satu8 (sint v)) (mm_maddubs_epi16 (concat (replicate 8 [1, 16])) (mm_and_si128 ys (replicate 16 15)))
    = concat (map (\<lambda>j. pack4_pair (drop (2 * j) ys)) [0..<8])" if "length ys = 16" for ys
    using maddubs_and4 [of ys 8] that by simp
  have "bits_of 8 (concat (map (\<lambda>j. pack4_pair (drop (2 * j) ys)) [0..<8])) = bits_of 4 ys"
    if "length ys = 16" for ys
  proof -
    have "bits_of 8 (concat (map (\<lambda>j. pack4_pair (drop (2 * j) ys)) [0..<8]))
       = bits_of 4 (concat (map (\<lambda>j. take 2 (drop (j * 2) ys)) [0..<8]))"
      using that by (simp add: upt_numerals pack4_pair_bits)
    then show ?thesis using that by (simp only: concat_chunks) simp
  qed
  note b = this
  have "pack4_step xs = concat (map (\<lambda>j. pack4_pair (drop (2 * j) (take 16 xs))) [0..<8])
     @ concat (map (\<lambda>j. pack4_pair (drop (2 * j) (take 16 (drop 16 xs)))) [0..<8])"
    using assms by (simp add: pack4_step_def mm_packus_epi16_def Let_def *)
  moreover have "take 32 xs = take 16 xs @ take 16 (drop 16 xs)"
    by (simp flip: take_add)
  ultimately show "bits_of 8 (pack4_step xs) = bits_of 4 (take 32 xs)" 
    using b assms by simp
  then have "8 * length (pack4_step xs) = 4 * 32" using assms
    by (metis length_bits_of length_take min.absorb2)
  then show "length (pack4_step xs) = 16" by simp
qed

lemma satu8_sint_small: "uint v < 256 \<Longrightarrow> satu8 (sint (v :: 16 word)) = ucast v"
proof -
  assume v: "uint v < 256"
  then have "sint v = uint v" by (intro sint_small) simp
  with v have "satu8 (sint v) = word_of_int (uint v)"
    by (simp add: satu8_def max_def)
  then show ?thesis unfolding ucast_eq by simp
qed

lemma mask16: "(15 :: 16 word) = mask 4" by (simp add: mask_eq_exp_minus_1)
lemma unpack4_lanes:
  "satu8 (sint (ucast (b :: byte) AND 15 :: 16 word)) = b AND 15"
  "satu8 (sint (drop_bit 4 (ucast (b :: byte)) AND 15 :: 16 word)) = drop_bit 4 b"
proof -
  have less: "uint (w AND 15 :: 16 word) < 256" for w
    using and_mask_lt_2p [of w 4] by (simp add: mask_eq_exp_minus_1)
  show "satu8 (sint (ucast (b :: byte) AND 15 :: 16 word)) = b AND 15"
    "satu8 (sint (drop_bit 4 (ucast (b :: byte)) AND 15 :: 16 word)) = drop_bit 4 b"
    unfolding satu8_sint_small [OF less]
    by (rule bit_word_eqI, auto simp: bit_simps mask_numerals mask16 dest: bit_imp_le_length)+
qed

lemma unpack4_pair_bits:
  "1 \<le> length xs \<Longrightarrow> bits_of 4 (unpack4_pair xs) = bits_of 8 (take 1 xs)"
  by (cases xs) (auto simp: unpack4_pair_def bits_of_Cons upt_numerals bit_simps mask_numerals)

lemma list_of_length_ge8:
  "8 \<le> length xs \<longleftrightarrow> (\<exists>a b c d e f g h ys. xs = a # b # c # d # e # f # g # h # ys)"
  by (auto simp: eval_nat_numeral Suc_le_length_iff)

lemma replicate_8: "replicate 8 x = [x, x, x, x, x, x, x, x]"
  by (simp add: numeral_eq_Suc)

lemma unpack4_step_bits:
  assumes "8 \<le> length xs"
  shows "bits_of 4 (unpack4_step xs) = bits_of 8 (take 8 xs)" "length (unpack4_step xs) = 16"
proof -
  obtain a b c d e f g h ys where xs: "xs = a # b # c # d # e # f # g # h # ys"
    using assms by (auto simp: list_of_length_ge8)
  have "unpack4_step xs = concat (map (\<lambda>x. [x AND 15, drop_bit 4 x]) [a, b, c, d, e, f, g, h])"
    unfolding xs unpack4_step_def Let_def intrinsic_defs
    by (simp add: unpack4_lanes replicate_8)
  then show "bits_of 4 (unpack4_step xs) = bits_of 8 (take 8 xs)" "length (unpack4_step xs) = 16"
    by (auto simp: xs bits_of_Cons upt_numerals bit_simps mask_numerals)
qed

lemma add_push_bit_eq_or:
  fixes x y :: "'a::len word"
  assumes "take_bit k x = x"
  shows "x + push_bit k y = x OR push_bit k y"
proof (rule disjunctive_add_eq_or, rule bit_word_eqI)
  fix n
  have "bit (take_bit k x) n \<longleftrightarrow> bit x n" using assms by simp
  then show "bit (x AND push_bit k y) n \<longleftrightarrow> bit 0 n" by (auto simp: bit_simps)
qed

lemma maddubs_quad2:
  fixes a b c d :: byte
  defines "l \<equiv> sat16 (uint (1::byte) * sint (a AND 3) + uint (4::byte) * sint (b AND 3))"
    and "h \<equiv> sat16 (uint (16::byte) * sint (c AND 3) + uint (64::byte) * sint (d AND 3))"
  shows "ucast (word_of_int (sint l * sint (1 :: 16 word) + sint h * sint (1 :: 16 word)) :: u32)
    = (a AND 3) OR push_bit 2 (b AND 3) OR push_bit 4 (c AND 3) OR push_bit 6 (d AND 3)"
proof -
  let ?a = "uint (a AND 3)" and ?b = "uint (b AND 3)" and ?c = "uint (c AND 3)" and ?d = "uint (d AND 3)"
  have r: "0 \<le> ?a" "?a < 4" "0 \<le> ?b" "?b < 4" "0 \<le> ?c" "?c < 4" "0 \<le> ?d" "?d < 4"
    using and_mask_lt_2p [of a 2] and_mask_lt_2p [of b 2] and_mask_lt_2p [of c 2]
      and_mask_lt_2p [of d 2] by (simp_all add: mask_numerals)
  then have s: "sint (a AND 3) = ?a" "sint (b AND 3) = ?b" "sint (c AND 3) = ?c" "sint (d AND 3) = ?d"
    by (simp_all add: sint_small)
  have m: "max (- 32768) (min 32767 (?a + 4 * ?b)) = ?a + 4 * ?b"
    "max (- 32768) (min 32767 (16 * ?c + 64 * ?d)) = 16 * ?c + 64 * ?d"
    using r by linarith+
  have "sint (word_of_int (?a + 4 * ?b) :: 16 word) = ?a + 4 * ?b"
    "sint (word_of_int (16 * ?c + 64 * ?d) :: 16 word) = 16 * ?c + 64 * ?d"
    by (rule sint_word_of_int_small; simp; use r in linarith)+
  then have "sint l = ?a + 4 * ?b" "sint h = 16 * ?c + 64 * ?d"
    unfolding l_def h_def sat16_def s using m by simp_all
  then have "(word_of_int (sint l * sint (1 :: 16 word) + sint h * sint (1 :: 16 word)) :: u32)
     = ucast (a AND 3) + push_bit 2 (ucast (b AND 3)) + push_bit 4 (ucast (c AND 3)) + push_bit 6 (ucast (d AND 3))"
    unfolding ucast_eq by (simp add: push_bit_eq_mult)
  also have "\<dots> = ucast (a AND 3) OR push_bit 2 (ucast (b AND 3)) OR push_bit 4 (ucast (c AND 3)) OR push_bit 6 (ucast (d AND 3))"
    by (subst add_push_bit_eq_or, (rule bit_word_eqI, auto simp: bit_simps mask_numerals)[1])+
       (simp add: or.assoc)
  finally show ?thesis
    by (auto intro!: bit_word_eqI simp: bit_simps mask_numerals)
qed

lemma list_of_length_ge16:
  "16 \<le> length xs \<longleftrightarrow> (\<exists>a b c d e f g h a' b' c' d' e' f' g' h' ys.
     xs = a # b # c # d # e # f # g # h # a' # b' # c' # d' # e' # f' # g' # h' # ys)"
  by (auto simp: eval_nat_numeral Suc_le_length_iff)
lemma replicate_16: "replicate 16 x = [x, x, x, x, x, x, x, x, x, x, x, x, x, x, x, x]"
 "replicate 4 x = [x,x,x,x]" "replicate 12 x = [x, x, x, x,x, x, x, x,x, x, x, x]"
  by (simp_all add: numeral_eq_Suc)

lemma le_bytes_4: "le_bytes 4 w = [ucast w, ucast (drop_bit 8 w), ucast (drop_bit 16 w), ucast (drop_bit 24 w)]"
  by (simp add: le_bytes_def upt_numerals)

lemma pack2_lane_eq:
  assumes "16 \<le> length xs"
  shows "pack2_lane xs = concat (map (\<lambda>j. pack2_quad (drop (j * 4) xs)) [0..<4])"
proof -
  obtain a b c d e f g h a' b' c' d' e' f' g' h' ys where
    xs: "xs = a # b # c # d # e # f # g # h # a' # b' # c' # d' # e' # f' # g' # h' # ys"
    using assms by (auto simp: list_of_length_ge16)
  show ?thesis
    unfolding xs pack2_lane_def Let_def
    by (simp add: replicate_16 replicate_8 mm_and_si128_def epi8_of_epi32_def mm_shuffle_epi8_def le_bytes_4
        maddubs_quad2 [simplified] pack2_quad_def upt_numerals)
qed

end
