(* ===== verification/Pack_Proofs.thy ===== *)
theory Pack_Proofs
  imports Kernel_Lemmas
begin

text \<open>
  Correctness of the pack kernels: every kernel, on every length, writes exactly
  \<open>(n * ell + 7) div 8\<close> bytes, never accesses memory outside its buffers, and leaves the bit
  stream of the input followed by zero bits (\<open>pack_done\<close>).
\<close>

definition packed :: "nat \<Rightarrow> byte list \<Rightarrow> nat \<Rightarrow> nat \<times> nat \<times> byte list \<Rightarrow> bool" where
  "packed ell src L = (\<lambda>(i, out, dst). i \<le> length src \<and> 8 * out = i * ell \<and> length dst = L \<and>
     bits_of 8 (take out dst) = bits_of ell (take i src))"

lemma packed_bound: "packed ell src L (i, out, dst) \<Longrightarrow> i \<le> n \<Longrightarrow> n * ell \<le> 8 * L \<Longrightarrow> out \<le> L"
proof -
  assume "packed ell src L (i, out, dst)" "i \<le> n" "n * ell \<le> 8 * L"
  then have "8 * out = i * ell" "i * ell \<le> n * ell" by (auto simp: packed_def)
  then show ?thesis using \<open>n * ell \<le> 8 * L\<close> by linarith
qed

lemma packed_write:
  assumes P: "packed ell src L (i, out, dst)" and n: "i + k \<le> n" "n \<le> length src"
    and room: "n * ell \<le> 8 * L"
    and ys: "bits_of 8 ys = bits_of ell (take k (drop i src))"
  shows "\<exists>dst'. stn dst out ys = Some dst' \<and> packed ell src L (i + k, out + length ys, dst')"
proof -
  have len: "8 * length ys = ell * k"
    using arg_cong [OF ys, of length] n by (simp add: min_absorb2)
  have "(i + k) * ell \<le> 8 * L" using n room by (meson le_trans mult_le_mono1)
  then have fit: "out + length ys \<le> L" using P len
    by (simp add: packed_def algebra_simps)
  then have out: "out \<le> length dst" using P by (simp add: packed_def)
  let ?d = "take out dst @ ys @ drop (out + length ys) dst"
  have "stn dst out ys = Some ?d" using fit P by (simp add: stn_def packed_def)
  moreover have "packed ell src L (i + k, out + length ys, ?d)"
    using P n len fit out ys by (simp add: packed_def algebra_simps take_add min_absorb2)
  ultimately show ?thesis by blast
qed

lemma pack_loop_packed:
  assumes f: "\<And>xs. length xs = Suc g \<Longrightarrow> length (f xs) = B \<and> bits_of 8 (f xs) = bits_of ell xs"
    and n: "n \<le> length src" and room: "n * ell \<le> 8 * L"
  shows "packed ell src L (i, out, dst) \<Longrightarrow> i \<le> n \<Longrightarrow>
    \<exists>i' out' dst'. pack_loop g B f src n i out dst = Some (i', out', dst') \<and>
      packed ell src L (i', out', dst') \<and> i' \<le> n \<and> n \<le> i' + g"
proof (induction "n - i" arbitrary: i out dst rule: less_induct)
  case less
  show ?case
  proof (cases "i + g < n")
    case True
    let ?xs = "take (Suc g) (drop i src)"
    have ld: "ldn src i (Suc g) = Some ?xs" using True n by (simp add: ldn_def)
    have fx: "length (f ?xs) = B" "bits_of 8 (f ?xs) = bits_of ell ?xs"
      using f [of ?xs] True n by auto
    obtain dst' where st: "stn dst out (f ?xs) = Some dst'"
      and P: "packed ell src L (i + Suc g, out + B, dst')"
      using packed_write [OF less.prems(1) _ n room fx(2)] True fx(1) by auto
    have "pack_loop g B f src n i out dst = pack_loop g B f src n (i + Suc g) (out + B) dst'"
      by (subst pack_loop.simps) (simp add: True ld st)
    with less.hyps [OF _ P] True show ?thesis by simp
  next
    case False
    then show ?thesis using less.prems by (subst pack_loop.simps) auto
  qed
qed

text \<open>The gathering loop of the tails, as one word.\<close>

fun bits_word :: "nat \<Rightarrow> byte list \<Rightarrow> 'w::len word" where
  "bits_word ell [] = 0"
| "bits_word ell (x # xs) = ucast (x AND mask ell) OR push_bit ell (bits_word ell xs)"

lemma or_tail_eq:
  "or_tail ell (mask ell) j xs acc = acc OR push_bit (j * ell) (bits_word ell xs)"
  by (induction xs arbitrary: j acc)
     (simp_all add: push_bit_or or.assoc add.commute)

lemma bit_bits_word:
  assumes "ell * length xs \<le> LENGTH('w::len)" and "ell \<le> 8" "k < m" "m \<le> LENGTH('w)"
  shows "bit (bits_word ell xs :: 'w word) k \<longleftrightarrow>
    k < ell * length xs \<and> bits_of ell xs ! k"
  using assms
proof (induction xs arbitrary: k m)
  case (Cons x xs)
  show ?case
  proof (cases "k < ell")
    case True
    then show ?thesis using Cons.prems by (simp add: bit_simps bits_of_Cons nth_append)
  next
    case False
    then have "bit (bits_word ell xs :: 'w word) (k - ell) \<longleftrightarrow>
      k - ell < ell * length xs \<and> bits_of ell xs ! (k - ell)"
      using Cons.prems by (intro Cons.IH [of _ m]) auto
    with False show ?thesis using Cons.prems by (auto simp: bit_simps bits_of_Cons nth_append)
  qed
qed simp

lemma bits_bits_word:
  assumes "ell * length xs \<le> m" and "m \<le> LENGTH('w::len)" and "ell \<le> 8"
  shows "map (bit (bits_word ell xs :: 'w word)) [0..<m] =
     bits_of ell xs @ replicate (m - ell * length xs) False"
  using assms by (intro nth_equalityI) (auto simp: bit_bits_word [of ell xs _ m] nth_append)

definition pack_done :: "nat \<Rightarrow> byte list \<Rightarrow> nat \<Rightarrow> nat \<times> byte list \<Rightarrow> bool" where
  "pack_done ell src n = (\<lambda>(out, dst). out = length dst \<and> out = (n * ell + 7) div 8 \<and>
     bits_of 8 dst = bits_of ell (take n src) @ replicate (8 * length dst - ell * n) False)"

lemma packed_full:
  assumes "packed ell src L (n, out, dst)" "L = (n * ell + 7) div 8"
  shows "pack_done ell src n (out, dst)"
proof -
  from assms(1) have *: "8 * out = n * ell" "length dst = L" "n \<le> length src"
    "bits_of 8 (take out dst) = bits_of ell (take n src)"
    by (auto simp: packed_def)
  then have "out = L" using assms(2) by auto
  with * assms(2) show ?thesis by (simp add: pack_done_def mult.commute)
qed

lemma ceil8: "8 * x = N + p \<Longrightarrow> p < 8 \<Longrightarrow> x = (N + 7) div 8 \<and> p = 8 * x - N" for x N p :: nat
  by arith

lemma packed_tail:
  assumes P: "packed ell src L (i, out, dst)" and i: "i < n" and n: "n \<le> length src"
    and L: "L = (n * ell + 7) div 8" and ell: "0 < ell" "ell \<le> 8" 
    and bs: "bits_of 8 bs = bits_of ell (take (n - i) (drop i src)) @ replicate p False" "p < 8"
  shows "\<exists>dst'. stn dst out bs = Some dst' \<and> pack_done ell src n (out + length bs, dst')"
proof -
  from P have *: "8 * out = i * ell" "length dst = L" "i \<le> length src"
    "bits_of 8 (take out dst) = bits_of ell (take i src)"
    by (auto simp: packed_def)
  have "8 * length bs = ell * (n - i) + p"
    using arg_cong [OF bs(1), of length] i n by (simp add: min_absorb2)
  moreover have "ell * (n - i) + i * ell = n * ell" using i by (simp add: algebra_simps)
  ultimately have "8 * (out + length bs) = n * ell + p"
    using *(1) by (simp add: distrib_left)
  then have len: "out + length bs = L" and p: "p = 8 * L - ell * n" 
    using ceil8 [of "out + length bs" "n * ell" p] bs(2) L by (simp_all add: mult.commute)
  then have st: "stn dst out bs = Some (take out dst @ bs)" using * by (simp add: stn_def)
  have "take n src = take i src @ take (n - i) (drop i src)"
    using i by (metis add_diff_inverse_nat less_imp_le_nat not_less take_add)
  then have "pack_done ell src n (out + length bs, take out dst @ bs)"
    using * len bs p L by (simp add: pack_done_def min_absorb2)
  with st show ?thesis by blast
qed

lemma pack_tail_done:
  assumes P: "packed ell src L (i, out, dst)" and i: "i \<le> n" "n \<le> i + g" and n: "n \<le> length src"
    and L: "L = (n * ell + 7) div 8" and ell: "0 < ell" "ell \<le> 8"
    and g: "g * ell + 7 \<le> LENGTH('w::len)" and M: "M = mask ell"
  shows "\<exists>r. pack_tail ell M TYPE('w) src n (i, out, dst) = Some r \<and> pack_done ell src n r"
proof (cases "i < n")
  case True
  let ?xs = "take (n - i) (drop i src)"
  define k where "k = ((n - i) * ell + 7) div 8"
  let ?bs = "le_bytes k (or_tail ell M 0 ?xs 0 :: 'w word)"
  have ld: "ldn src i (n - i) = Some ?xs" using True n by (simp add: ldn_def)
  have len: "length ?xs = n - i" using True n by simp
  have "(n - i) * ell \<le> g * ell" using i by (intro mult_le_mono) auto
  then have "(n - i) * ell \<le> 8 * k" "8 * k \<le> LENGTH('w)" "8 * k - (n - i) * ell < 8"
    using g unfolding k_def by linarith+
  then have k: "ell * length ?xs \<le> 8 * k" "8 * k \<le> LENGTH('w)" "8 * k - ell * length ?xs < 8"
    unfolding len by (simp_all only: mult.commute [of ell])
  have "bits_of 8 ?bs = bits_of ell ?xs @ replicate (8 * k - ell * length ?xs) False"
    unfolding bits_of_le_bytes M or_tail_eq
    using bits_bits_word [OF k(1,2) ell(2)] by simp
  from packed_tail [OF P True n L ell this k(3)]
  show ?thesis using True ld by (auto simp: pack_tail_def k_def)
next
  case False
  then show ?thesis using packed_full [of ell src L n] P i L by (simp add: pack_tail_def)
qed

lemma packed_init: "length dst = L \<Longrightarrow> packed ell src L (0, 0, dst)"
  by (simp add: packed_def)

lemma room: "n * ell \<le> 8 * ((n * ell + 7) div 8)" for n ell :: nat by linarith

lemma pack3_group_bits: "length xs = Suc 7 \<Longrightarrow>
    length (pack3_group xs) = 3 \<and> bits_of 8 (pack3_group xs) = bits_of 3 xs"
  and pack5_group_bits: "length xs = Suc 7 \<Longrightarrow>
    length (pack5_group xs) = 5 \<and> bits_of 8 (pack5_group xs) = bits_of 5 xs"
  and pack7_group_bits: "length xs = Suc 7 \<Longrightarrow>
    length (pack7_group xs) = 7 \<and> bits_of 8 (pack7_group xs) = bits_of 7 xs"
  by (auto simp: list_of_length pack3_group_def pack5_group_def pack7_group_def Let_def
      bits_of_Cons upt_numerals bit_simps mask_numerals)

lemma pack6_group_bits: "length xs = Suc 3 \<Longrightarrow>
    length (pack6_group xs) = 3 \<and> bits_of 8 (pack6_group xs) = bits_of 6 xs"
  by (auto simp: list_of_length pack6_group_def Let_def bits_of_Cons upt_numerals bit_simps
      mask_numerals)

lemma pack_window:
  assumes f: "\<And>xs. length xs = Suc g \<Longrightarrow> length (f xs) = B \<and> bits_of 8 (f xs) = bits_of ell xs"
    and ell: "0 < ell" "ell \<le> 8" and g: "g * ell + 7 \<le> LENGTH('w::len)" and M: "M = mask ell"
    and n: "n \<le> length src" and dst: "length dst = (n * ell + 7) div 8"
  shows "\<exists>r. Option.bind (pack_loop g B f src n 0 0 dst) (pack_tail ell M TYPE('w) src n) = Some r
    \<and> pack_done ell src n r"
proof -
  have "\<exists>i out dst'. pack_loop g B f src n 0 0 dst = Some (i, out, dst') \<and>
      packed ell src (length dst) (i, out, dst') \<and> i \<le> n \<and> n \<le> i + g"
    by (rule pack_loop_packed [of g f B ell, OF f])
      (use n dst room [of n ell] in \<open>simp_all add: packed_init\<close>)
  then obtain i out dst' where "pack_loop g B f src n 0 0 dst = Some (i, out, dst')"
    and P: "packed ell src (length dst) (i, out, dst')" and i: "i \<le> n" "n \<le> i + g"
    by blast
  moreover have "\<exists>r. pack_tail ell M TYPE('w) src n (i, out, dst') = Some r \<and> pack_done ell src n r"
    by (rule pack_tail_done [OF P i n dst ell g M])
  ultimately show ?thesis by simp
qed

lemma pack3_done: "n \<le> length src \<Longrightarrow> length dst = (n * 3 + 7) div 8 \<Longrightarrow>
    \<exists>r. pack3 src n dst = Some r \<and> pack_done 3 src n r"
  unfolding pack3_def by (rule pack_window [OF pack3_group_bits]) (simp_all add: mask_numerals)

lemma pack5_done: "n \<le> length src \<Longrightarrow> length dst = (n * 5 + 7) div 8 \<Longrightarrow>
    \<exists>r. pack5 src n dst = Some r \<and> pack_done 5 src n r"
  unfolding pack5_def by (rule pack_window [OF pack5_group_bits]) (simp_all add: mask_numerals)

lemma pack6_done: "n \<le> length src \<Longrightarrow> length dst = (n * 6 + 7) div 8 \<Longrightarrow>
    \<exists>r. pack6 src n dst = Some r \<and> pack_done 6 src n r"
  unfolding pack6_def by (rule pack_window [OF pack6_group_bits]) (simp_all add: mask_numerals)

lemma pack7_done: "n \<le> length src \<Longrightarrow> length dst = (n * 7 + 7) div 8 \<Longrightarrow>
    \<exists>r. pack7 src n dst = Some r \<and> pack_done 7 src n r"
  unfolding pack7_def by (rule pack_window [OF pack7_group_bits]) (simp_all add: mask_numerals)

lemma take_chunks_all: "length xs = q * m \<Longrightarrow> concat (map (\<lambda>k. take m (drop (k * m) xs)) [0..<q]) = xs"
  by (simp only: concat_chunks) simp

lemma length_of_bits: "bits_of w ys = bits_of v xs \<Longrightarrow> w * length ys = v * length xs"
  by (drule arg_cong [of _ _ length]) simp

lemma list_of_length_ge4: "4 \<le> length xs \<longleftrightarrow> (\<exists>a b c d ys. xs = a # b # c # d # ys)"
  by (auto simp: eval_nat_numeral Suc_le_length_iff)

lemma pack4_block_bits:
  assumes "length xs = Suc 127"
  shows "length (pack4_block xs) = 64 \<and> bits_of 8 (pack4_block xs) = bits_of 4 xs"
proof -
  have "bits_of 8 (pack4_block xs) = bits_of 4 (concat (map (\<lambda>k. take 32 (drop (k * 32) xs)) [0..<4]))"
    using assms by (simp add: pack4_block_def upt_numerals pack4_step_bits)
  also have "concat (map (\<lambda>k. take 32 (drop (k * 32) xs)) [0..<4]) = xs"
    using assms by (intro take_chunks_all) simp
  finally have bits: "bits_of 8 (pack4_block xs) = bits_of 4 xs" .
  with length_of_bits [OF bits] assms show ?thesis by simp
qed

lemma pack2_quad_bits:
  "4 \<le> length xs \<Longrightarrow> length (pack2_quad xs) = 1 \<and> bits_of 8 (pack2_quad xs) = bits_of 2 (take 4 xs)"
  by (auto simp: list_of_length_ge4 pack2_quad_def bits_of_Cons upt_numerals bit_simps
      mask_numerals)

lemma pack2_lane_bits:
  assumes "16 \<le> length xs"
  shows "bits_of 8 (pack2_lane xs) = bits_of 2 (take 16 xs)"
proof -
  have "bits_of 8 (pack2_lane xs) = bits_of 2 (concat (map (\<lambda>j. take 4 (drop (j * 4) (take 16 xs))) [0..<4]))"
    using assms by (simp add: pack2_lane_eq upt_numerals pack2_quad_bits take_drop)
  also have "concat (map (\<lambda>j. take 4 (drop (j * 4) (take 16 xs))) [0..<4]) = take 16 xs"
    using assms by (intro take_chunks_all) simp
  finally show ?thesis .
qed

lemma pack2_block_bits:
  assumes "length xs = Suc 255"
  shows "length (pack2_block xs) = 64 \<and> bits_of 8 (pack2_block xs) = bits_of 2 xs"
proof -
  have "bits_of 8 (pack2_block xs) = bits_of 2 (concat (map (\<lambda>k. take 16 (drop (k * 16) xs)) [0..<16]))"
    using assms by (simp add: pack2_block_def upt_rec pack2_lane_bits)
  also have "concat (map (\<lambda>k. take 16 (drop (k * 16) xs)) [0..<16]) = xs"
    using assms by (intro take_chunks_all) simp
  finally have bits: "bits_of 8 (pack2_block xs) = bits_of 2 xs" .
  with length_of_bits [OF bits] assms show ?thesis by simp
qed

lemma pack4_single_bits: "bits_of 8 [x AND 15] = bits_of 4 [x] @ replicate 4 False"
  by (auto simp: bits_of_Cons upt_numerals bit_simps mask_numerals numeral_eq_Suc(1)
      replicate_16)

lemma pack4_done:
  assumes n: "n \<le> length src" and dst: "length dst = (n * 4 + 7) div 8"
  shows "\<exists>r. pack4 src n dst = Some r \<and> pack_done 4 src n r"
proof -
  note rm = room [of n 4, folded dst]
  have "\<exists>i out d. pack_loop 127 64 pack4_block src n 0 0 dst = Some (i, out, d) \<and>
      packed 4 src (length dst) (i, out, d) \<and> i \<le> n \<and> n \<le> i + 127"
    by (rule pack_loop_packed [OF pack4_block_bits n rm]) (simp_all add: packed_init)
  then obtain i out d where l1: "pack_loop 127 64 pack4_block src n 0 0 dst = Some (i, out, d)"
    and P1: "packed 4 src (length dst) (i, out, d)" "i \<le> n" by blast
  have "\<exists>i' out' d'. pack_loop 1 1 pack4_pair src n i out d = Some (i', out', d') \<and>
      packed 4 src (length dst) (i', out', d') \<and> i' \<le> n \<and> n \<le> i' + 1"
    by (rule pack_loop_packed [OF _ n rm P1])
      (simp add: pack4_pair_bits, simp add: pack4_pair_def)
  then obtain i' out' d' where l2: "pack_loop 1 1 pack4_pair src n i out d = Some (i', out', d')"
    and P2: "packed 4 src (length dst) (i', out', d')" and i': "i' \<le> n" "n \<le> i' + 1" by blast
  show ?thesis
  proof (cases "i' < n")
    case True
    then have "i' + 1 = n" using i' by simp
    then have xs: "take (n - i') (drop i' src) = [src ! i']" "ldn src i' 1 = Some [src ! i']"
      using n by (auto simp: ldn_def take_Suc hd_drop_conv_nth)
    have "\<exists>d''. stn d' out' [src ! i' AND 15] = Some d'' \<and>
        pack_done 4 src n (out' + length [src ! i' AND 15], d'')"
      by (rule packed_tail [OF P2 True n dst, where p = 4])
        (simp, simp, simp only: xs pack4_single_bits, simp)
    then show ?thesis using l1 l2 xs True by (auto simp: pack4_def)
  next
    case False
    then have "i' = n" using i' by simp
    then show ?thesis using l1 l2 packed_full [of 4 src _ n] P2 dst by (auto simp: pack4_def)
  qed
qed

lemma pack2_done:
  assumes n: "n \<le> length src" and dst: "length dst = (n * 2 + 7) div 8"
  shows "\<exists>r. pack2 src n dst = Some r \<and> pack_done 2 src n r"
proof -
  note rm = room [of n 2, folded dst]
  have "\<exists>i out d. pack_loop 255 64 pack2_block src n 0 0 dst = Some (i, out, d) \<and>
      packed 2 src (length dst) (i, out, d) \<and> i \<le> n \<and> n \<le> i + 255"
    by (rule pack_loop_packed [OF pack2_block_bits n rm]) (simp_all add: packed_init)
  then obtain i out d where l1: "pack_loop 255 64 pack2_block src n 0 0 dst = Some (i, out, d)"
    and P1: "packed 2 src (length dst) (i, out, d)" "i \<le> n" by blast
  have "\<exists>i' out' d'. pack_loop 3 1 pack2_quad src n i out d = Some (i', out', d') \<and>
      packed 2 src (length dst) (i', out', d') \<and> i' \<le> n \<and> n \<le> i' + 3"
    by (rule pack_loop_packed [OF _ n rm P1]) (simp add: pack2_quad_bits)
  then obtain i' out' d' where l2: "pack_loop 3 1 pack2_quad src n i out d = Some (i', out', d')"
    and P2: "packed 2 src (length dst) (i', out', d')" and i': "i' \<le> n" "n \<le> i' + 3" by blast
  show ?thesis
  proof (cases "i' < n")
    case True
    let ?xs = "take (n - i') (drop i' src)"
    have ld: "ldn src i' (n - i') = Some ?xs" "length ?xs = n - i'"
      using n i' by (auto simp: ldn_def)
    have "[or_tail 2 3 0 ?xs 0] = le_bytes 1 (bits_word 2 ?xs :: byte)"
      using or_tail_eq [of 2 0 ?xs "0 :: byte"] by (simp add: mask_numerals le_bytes_def)
    then have "bits_of 8 [or_tail 2 3 0 ?xs 0] = map (bit (bits_word 2 ?xs :: byte)) [0..<8]"
      using bits_of_le_bytes [of 1 "bits_word 2 ?xs :: byte"] by simp
    also have "\<dots> = bits_of 2 ?xs @ replicate (8 - 2 * length ?xs) False"
      by (rule bits_bits_word) (use ld i' in auto)
    finally have b: "bits_of 8 [or_tail 2 3 0 ?xs 0] = bits_of 2 ?xs @ replicate (8 - 2 * length ?xs) False" .
    have "\<exists>d''. stn d' out' [or_tail 2 3 0 ?xs 0] = Some d'' \<and>
        pack_done 2 src n (out' + length [or_tail 2 3 0 ?xs 0 :: byte], d'')"
      by (rule packed_tail [OF P2 True n dst _ _ b]) (use ld True in auto)
    then show ?thesis using l1 l2 ld True by (auto simp: pack2_def)
  next
    case False
    then have "i' = n" using i' by simp
    then show ?thesis using l1 l2 packed_full [of 2 src _ n] P2 dst by (auto simp: pack2_def)
  qed
qed

end
