(* ===== verification/Unpack_Proofs.thy ===== *)
theory Unpack_Proofs
  imports Pack_Proofs
begin

text \<open>
  Correctness of the unpack kernels: every kernel reads only bytes that hold elements, fills
  all \<open>n\<close> cells and produces the elements whose bits the packed stream lists
  (\<open>unpack_done\<close>).
\<close>

definition unpacked :: "nat \<Rightarrow> byte list \<Rightarrow> nat \<Rightarrow> nat \<times> nat \<times> byte list \<Rightarrow> bool" where
  "unpacked ell src n = (\<lambda>(i, inp, dst). i \<le> n \<and> length dst = n \<and> 8 * inp = i * ell \<and>
     bits_of ell (take i dst) = take (ell * i) (bits_of 8 src) \<and>
     (\<forall>x\<in>set (take i dst). take_bit ell x = x))"

definition unpack_done :: "nat \<Rightarrow> byte list \<Rightarrow> nat \<Rightarrow> byte list \<Rightarrow> bool" where
  "unpack_done ell src n dst \<longleftrightarrow> length dst = n \<and>
     bits_of ell dst = take (ell * n) (bits_of 8 src) \<and> (\<forall>x\<in>set dst. take_bit ell x = x)"

lemma unpacked_init: "length dst = n \<Longrightarrow> unpacked ell src n (0, 0, dst)"
  by (simp add: unpacked_def)

lemma unpacked_full: "unpacked ell src n (n, inp, dst) \<Longrightarrow> unpack_done ell src n dst"
  by (auto simp: unpacked_def unpack_done_def)

lemma store_step:
  assumes len: "length dst = n" and i: "i + length ys \<le> n"
    and d: "bits_of ell (take i dst) = take (ell * i) S" "\<forall>x\<in>set (take i dst). take_bit ell x = x"
    and ys: "bits_of ell ys = take (ell * length ys) (drop (ell * i) S)"
      "\<forall>x\<in>set ys. take_bit ell x = x"
  shows "\<exists>dst'. stn dst i ys = Some dst' \<and> length dst' = n \<and>
    bits_of ell (take (i + length ys) dst') = take (ell * (i + length ys)) S \<and>
    (\<forall>x\<in>set (take (i + length ys) dst'). take_bit ell x = x)"
proof -
  let ?d = "take i dst @ ys @ drop (i + length ys) dst"
  have "stn dst i ys = Some ?d" using len i by (simp add: stn_def)
  moreover have "take (i + length ys) ?d = take i dst @ ys" using len i by (simp add: min_absorb2)
  ultimately show ?thesis using len i d ys
    by (auto simp: take_add distrib_left)
qed

lemma unpack_loop_unpacked:
  assumes f: "\<And>xs. length xs = B \<Longrightarrow> length (f xs) = Suc g \<and> bits_of ell (f xs) = bits_of 8 xs \<and>
      (\<forall>x\<in>set (f xs). take_bit ell x = x)"
    and room: "n * ell \<le> 8 * length src"
  shows "unpacked ell src n (i, inp, dst) \<Longrightarrow>
    \<exists>i' inp' dst'. unpack_loop g B f src n i inp dst = Some (i', inp', dst') \<and>
      unpacked ell src n (i', inp', dst') \<and> i' \<le> n \<and> n \<le> i' + g"
proof (induction "n - i" arbitrary: i inp dst rule: less_induct)
  case less
  show ?case
  proof (cases "i + g < n")
    case True
    let ?xs = "take B (drop inp src)"
    have B: "8 * B = ell * Suc g"
      using f [of "replicate B 0"] by (metis length_bits_of length_replicate)
    have inp: "8 * inp = ell * i" using less.prems by (simp add: unpacked_def mult.commute)
    have "8 * (inp + B) = ell * (i + Suc g)" using B inp by (simp add: distrib_left)
    also have "\<dots> \<le> ell * n" using True by (intro mult_le_mono2) simp
    finally have le: "inp + B \<le> length src" using room by (simp add: mult.commute)
    then have ld: "ldn src inp B = Some ?xs" "length ?xs = B" by (auto simp: ldn_def)
    note fx = f [OF ld(2)]
    have "bits_of ell (f ?xs) = take (8 * B) (drop (8 * inp) (bits_of 8 src))"
      using fx by (simp add: bits_of_take bits_of_drop)
    then have b: "bits_of ell (f ?xs) = take (ell * length (f ?xs)) (drop (ell * i) (bits_of 8 src))"
      using fx B inp by simp
    from store_step [OF _ _ _ _ b, of dst n] less.prems fx True
    obtain dst' where st: "stn dst i (f ?xs) = Some dst'"
      and P: "length dst' = n" "bits_of ell (take (i + Suc g) dst') = take (ell * (i + Suc g)) (bits_of 8 src)"
       "\<forall>x\<in>set (take (i + Suc g) dst'). take_bit ell x = x"
      by (auto simp: unpacked_def)
    have P': "unpacked ell src n (i + Suc g, inp + B, dst')"
      using P True B inp by (simp add: unpacked_def algebra_simps)
    have "unpack_loop g B f src n i inp dst = unpack_loop g B f src n (i + Suc g) (inp + B) dst'"
      by (subst unpack_loop.simps) (simp add: True ld st)
    with less.hyps [OF _ P'] True show ?thesis by simp
  next
    case False
    then show ?thesis using less.prems by (subst unpack_loop.simps) (auto simp: unpacked_def)
  qed
qed

text \<open>The two-byte window of the tail reads the next \<open>ell\<close> bits of the stream.\<close>

lemma div_mod_8:
  fixes m k q :: nat
  shows "m + k < 8 \<Longrightarrow> (8 * q + m + k) div 8 = q \<and> (8 * q + m + k) mod 8 = m + k"
    and "m < 8 \<Longrightarrow> k < 8 \<Longrightarrow> 8 \<le> m + k \<Longrightarrow>
      (8 * q + m + k) div 8 = q + 1 \<and> (8 * q + m + k) mod 8 = k - (8 - m)"
  by presburger+

lemma window_bits:
  fixes src :: "byte list"
  assumes ell: "0 < ell" "ell \<le> 8" and bt: "bt + ell \<le> 8 * length src"
  defines "v \<equiv> ucast (drop_bit (bt mod 8) (ucast (src ! (bt div 8)) :: u32) AND ucast (mask ell :: byte)) :: byte"
    and "w \<equiv> ucast (push_bit (8 - bt mod 8) (ucast (src ! (bt div 8 + 1)) :: u32) AND ucast (mask ell :: byte)) :: byte"
  shows "map (bit (if bt mod 8 + ell > 8 then v OR w else v)) [0..<ell] =
      take ell (drop bt (bits_of 8 src))"
proof (rule nth_equalityI)
  show "length (map (bit (if bt mod 8 + ell > 8 then v OR w else v)) [0..<ell]) =
      length (take ell (drop bt (bits_of 8 src)))" using bt by simp
next
  fix k assume "k < length (map (bit (if bt mod 8 + ell > 8 then v OR w else v)) [0..<ell])"
  then have k: "k < ell" by simp
  let ?m = "bt mod 8" and ?q = "bt div 8"
  have split: "bt = 8 * ?q + ?m" by simp
  have S: "take ell (drop bt (bits_of 8 src)) ! k = bit (src ! ((bt + k) div 8)) ((bt + k) mod 8)"
    using bt k by (simp add: nth_bits_of)
  have bv: "bit v k \<longleftrightarrow> bit (src ! ?q) (?m + k)"
    using k ell unfolding v_def by (auto simp: bit_simps)
  have bw: "bit w k \<longleftrightarrow> 8 - ?m \<le> k \<and> bit (src ! (?q + 1)) (k - (8 - ?m))"
    using k ell unfolding w_def by (auto simp: bit_simps)
  show "map (bit (if bt mod 8 + ell > 8 then v OR w else v)) [0..<ell] ! k =
      take ell (drop bt (bits_of 8 src)) ! k"
  proof (cases "?m + k < 8")
    case True
    have "(bt + k) div 8 = ?q \<and> (bt + k) mod 8 = ?m + k" using div_mod_8(1) [OF True, of ?q] by simp
    then show ?thesis using True k S bv bw by (auto simp: bit_simps)
  next
    case False
    then have "8 \<le> ?m + k" "?m + ell > 8" "8 - ?m \<le> k" using k by linarith+
    moreover from this have "(bt + k) div 8 = ?q + 1 \<and> (bt + k) mod 8 = k - (8 - ?m)"
      using div_mod_8(2) [of ?m k ?q] k ell by simp
    ultimately have "(bt + k) div 8 = ?q + 1 \<and> (bt + k) mod 8 = k - (8 - ?m) \<and>
        ?m + ell > 8 \<and> 8 - ?m \<le> k" by simp
    then show ?thesis using False k S bv bw by (auto simp: bit_simps)
  qed
qed

lemma straddle_bound: "m mod 8 + e > 8 \<Longrightarrow> m + e \<le> 8 * L \<Longrightarrow> m div 8 + 1 < L" for m e L :: nat
  using div_mult_mod_eq [of m 8] by linarith

lemma unpack_tail_done:
  assumes ell: "0 < ell" "ell \<le> 8" and M: "M = mask ell" and room: "n * ell \<le> 8 * length src"
  shows "i \<le> n \<Longrightarrow> length dst = n \<Longrightarrow>
    bits_of ell (take i dst) = take (ell * i) (bits_of 8 src) \<Longrightarrow>
    \<forall>x\<in>set (take i dst). take_bit ell x = x \<Longrightarrow>
    \<exists>r. unpack_tail ell M src n i (i * ell) dst = Some r \<and> unpack_done ell src n r"
proof (induction "n - i" arbitrary: i dst rule: less_induct)
  case less
  note d = less.prems
  show ?case
  proof (cases "i < n")
    case False
    then have "i = n" using d by simp
    then show ?thesis using d by (subst unpack_tail.simps) (auto simp: unpack_done_def)
  next
    case True
    let ?bt = "i * ell"
    have "Suc i * ell \<le> n * ell" using True by (intro mult_le_mono1) simp
    then have bt: "?bt + ell \<le> 8 * length src" using room by simp
    then have q: "?bt div 8 < length src" using ell by linarith
    let ?v = "ucast (drop_bit (?bt mod 8) (ucast (src ! (?bt div 8)) :: u32) AND ucast (mask ell :: byte)) :: byte"
    let ?w = "ucast (push_bit (8 - ?bt mod 8) (ucast (src ! (?bt div 8 + 1)) :: u32) AND ucast (mask ell :: byte)) :: byte"
    let ?r = "if ?bt mod 8 + ell > 8 then ?v OR ?w else ?v"
    have ld: "ldn src (?bt div 8) 1 = Some [src ! (?bt div 8)]"
      using q by (auto simp: ldn_def take_Suc hd_drop_conv_nth)
    have ld2: "?bt mod 8 + ell > 8 \<Longrightarrow> ldn src (?bt div 8 + 1) 1 = Some [src ! (?bt div 8 + 1)]"
    proof -
      assume "?bt mod 8 + ell > 8"
      then have "?bt div 8 + 1 < length src" using bt by (rule straddle_bound)
      then show ?thesis by (auto simp: ldn_def take_Suc hd_drop_conv_nth)
    qed
    have tb: "take_bit ell ?r = ?r"
      by (rule bit_word_eqI) (auto simp: bit_simps)
    have b: "bits_of ell [?r] = take (ell * length [?r]) (drop (ell * i) (bits_of 8 src))"
      using window_bits [OF ell bt] by (simp add: bits_of_Cons mult.commute)
    from store_step [OF d(2) _ d(3,4) b] True tb obtain dst' where st: "stn dst i [?r] = Some dst'"
      and P: "length dst' = n" "bits_of ell (take (Suc i) dst') = take (ell * Suc i) (bits_of 8 src)"
        "\<forall>x\<in>set (take (Suc i) dst'). take_bit ell x = x"
      by auto
    have s1: "stn dst i [?v] = Some (take i dst @ [?v] @ drop (i + 1) dst)"
      using True d by (simp add: stn_def)
    have s2: "stn (take i dst @ [?v] @ drop (i + 1) dst) i [x] = stn dst i [x]" for x
      using True d by (simp add: stn_def)
    have "unpack_tail ell M src n i ?bt dst = unpack_tail ell M src n (Suc i) (?bt + ell) dst'"
    proof (cases "?bt mod 8 + ell > 8")
      case wide: True
      then show ?thesis using st ld2
        by (subst unpack_tail.simps) (simp add: True M ld s1 s2 [unfolded append_Cons append_Nil] del: One_nat_def)
    next
      case narrow: False
      then show ?thesis using st
        by (subst unpack_tail.simps) (simp add: True M ld del: One_nat_def)
    qed
    moreover have "\<exists>r. unpack_tail ell M src n (Suc i) (Suc i * ell) dst' = Some r \<and> unpack_done ell src n r"
      using less.hyps [of "Suc i" dst'] True P by auto
    ultimately show ?thesis by (simp add: add.commute)
  qed
qed

lemma unpack_window:
  assumes f: "\<And>xs. length xs = B \<Longrightarrow> length (f xs) = Suc g \<and> bits_of ell (f xs) = bits_of 8 xs \<and>
      (\<forall>x\<in>set (f xs). take_bit ell x = x)"
    and ell: "0 < ell" "ell \<le> 8" and M: "M = mask ell"
    and src: "n * ell \<le> 8 * length src" and dst: "length dst = n"
  shows "\<exists>r. Option.bind (unpack_loop g B f src n 0 0 dst) (\<lambda>(i, inp, dst).
      unpack_tail ell M src n i (i * ell) dst) = Some r \<and> unpack_done ell src n r"
proof -
  have "\<exists>i inp d. unpack_loop g B f src n 0 0 dst = Some (i, inp, d) \<and>
      unpacked ell src n (i, inp, d) \<and> i \<le> n \<and> n \<le> i + g"
    by (rule unpack_loop_unpacked [of B f g ell, OF f])
      (use src dst in \<open>simp_all add: unpacked_init\<close>)
  then obtain i inp d where l: "unpack_loop g B f src n 0 0 dst = Some (i, inp, d)"
    and P: "unpacked ell src n (i, inp, d)" by blast
  from P have "\<exists>r. unpack_tail ell M src n i (i * ell) d = Some r \<and> unpack_done ell src n r"
    by (intro unpack_tail_done [OF ell M src]) (auto simp: unpacked_def)
  with l show ?thesis by simp
qed

lemma take_bit_self_iff: "take_bit ell (x :: byte) = x \<longleftrightarrow> (\<forall>k<8. ell \<le> k \<longrightarrow> \<not> bit x k)"
  by (auto simp: bit_eq_iff bit_simps not_less)

lemma unpack3_group_bits: "length xs = 3 \<Longrightarrow>
    length (unpack3_group xs) = Suc 7 \<and> bits_of 3 (unpack3_group xs) = bits_of 8 xs \<and>
    (\<forall>x\<in>set (unpack3_group xs). take_bit 3 x = x)"
  by (auto simp: list_of_length unpack3_group_def Let_def bits_of_Cons upt_numerals bit_simps
      mask_numerals take_bit_self_iff)

lemma unpack5_group_bits: "length xs = 5 \<Longrightarrow>
    length (unpack5_group xs) = Suc 7 \<and> bits_of 5 (unpack5_group xs) = bits_of 8 xs \<and>
    (\<forall>x\<in>set (unpack5_group xs). take_bit 5 x = x)"
  by (auto simp: list_of_length unpack5_group_def Let_def bits_of_Cons upt_numerals bit_simps
      mask_numerals take_bit_self_iff)

lemma unpack6_group_bits: "length xs = 3 \<Longrightarrow>
    length (unpack6_group xs) = Suc 3 \<and> bits_of 6 (unpack6_group xs) = bits_of 8 xs \<and>
    (\<forall>x\<in>set (unpack6_group xs). take_bit 6 x = x)"
  by (auto simp: list_of_length unpack6_group_def Let_def bits_of_Cons upt_numerals bit_simps
      mask_numerals take_bit_self_iff)

lemma unpack7_group_bits: "length xs = 7 \<Longrightarrow>
    length (unpack7_group xs) = Suc 7 \<and> bits_of 7 (unpack7_group xs) = bits_of 8 xs \<and>
    (\<forall>x\<in>set (unpack7_group xs). take_bit 7 x = x)"
  by (auto simp: list_of_length unpack7_group_def Let_def bits_of_Cons upt_numerals bit_simps
      mask_numerals take_bit_self_iff)

lemma unpack3_done: "n * 3 \<le> 8 * length src \<Longrightarrow> length dst = n \<Longrightarrow>
    \<exists>r. unpack3 src n dst = Some r \<and> unpack_done 3 src n r"
  unfolding unpack3_def by (rule unpack_window [OF unpack3_group_bits]) (simp_all add: mask_numerals)

lemma unpack5_done: "n * 5 \<le> 8 * length src \<Longrightarrow> length dst = n \<Longrightarrow>
    \<exists>r. unpack5 src n dst = Some r \<and> unpack_done 5 src n r"
  unfolding unpack5_def by (rule unpack_window [OF unpack5_group_bits]) (simp_all add: mask_numerals)

lemma unpack6_done: "n * 6 \<le> 8 * length src \<Longrightarrow> length dst = n \<Longrightarrow>
    \<exists>r. unpack6 src n dst = Some r \<and> unpack_done 6 src n r"
  unfolding unpack6_def by (rule unpack_window [OF unpack6_group_bits]) (simp_all add: mask_numerals)

lemma unpack7_done: "n * 7 \<le> 8 * length src \<Longrightarrow> length dst = n \<Longrightarrow>
    \<exists>r. unpack7 src n dst = Some r \<and> unpack_done 7 src n r"
  unfolding unpack7_def by (rule unpack_window [OF unpack7_group_bits]) (simp_all add: mask_numerals)

lemma unpack4_pair_Cons: "unpack4_pair (x # xs) = [x AND 15, drop_bit 4 x]"
  by (simp add: unpack4_pair_def)

lemma unpack2_byte_Cons:
  "unpack2_byte (x # xs) = [x AND 3, drop_bit 2 x AND 3, drop_bit 4 x AND 3, drop_bit 6 x]"
  by (simp add: unpack2_byte_def Let_def)

text \<open>A block is the concatenation of what the scalar loop does with each byte.\<close>

lemma unpack4_step_eq:
  assumes "8 \<le> length xs"
  shows "unpack4_step xs = concat (map (\<lambda>x. unpack4_pair [x]) (take 8 xs))"
proof -
  obtain a b c d e f g h ys where xs: "xs = a # b # c # d # e # f # g # h # ys"
    using assms by (auto simp: list_of_length_ge8)
  show ?thesis
    unfolding xs unpack4_step_def Let_def intrinsic_defs
    by (simp add: unpack4_lanes replicate_8 unpack4_pair_Cons)
qed

lemma concat_map_concat:
  "concat (map (\<lambda>k. concat (map h (f k))) ks) = concat (map h (concat (map f ks)))"
  by (induction ks) auto

lemma map_concat_chunks:
  assumes "length xs = q * m"
    and "\<And>k. k < q \<Longrightarrow> F (drop (k * m) xs) = concat (map h (take m (drop (k * m) xs)))"
  shows "concat (map (\<lambda>k. F (drop (k * m) xs)) [0..<q]) = concat (map h xs)"
proof -
  have "map (\<lambda>k. F (drop (k * m) xs)) [0..<q] =
      map (\<lambda>k. concat (map h (take m (drop (k * m) xs)))) [0..<q]"
    using assms(2) by (intro map_cong) auto
  then show ?thesis
    by (simp only: concat_map_concat take_chunks_all [OF assms(1)])
qed

lemma concat_bytes_bits:
  assumes "\<And>x. bits_of ell (h x) = bits_of 8 [x]" and "\<And>x y. y \<in> set (h x) \<Longrightarrow> take_bit ell y = y"
    and "\<And>x. length (h x) = c"
  shows "length (concat (map h xs)) = c * length xs \<and>
    bits_of ell (concat (map h xs)) = bits_of 8 xs \<and>
    (\<forall>y\<in>set (concat (map h xs)). take_bit ell y = y)"
  using assms by (induction xs) (auto simp: bits_of_Cons [of 8])

lemma unpack4_pair_spec: "bits_of 4 (unpack4_pair [x]) = bits_of 8 [x]"
  "y \<in> set (unpack4_pair [x]) \<Longrightarrow> take_bit 4 y = y" "length (unpack4_pair [x]) = 2"
  by (auto simp: unpack4_pair_Cons bits_of_Cons upt_numerals bit_simps mask_numerals
      take_bit_self_iff)

lemma unpack2_byte_spec: "bits_of 2 (unpack2_byte [x]) = bits_of 8 [x]"
  "y \<in> set (unpack2_byte [x]) \<Longrightarrow> take_bit 2 y = y" "length (unpack2_byte [x]) = 4"
  by (auto simp: unpack2_byte_Cons bits_of_Cons upt_numerals bit_simps mask_numerals
      take_bit_self_iff)

lemma single_byte:
  assumes "length xs = 1" and "\<And>x. bits_of ell (h [x]) = bits_of 8 [x]"
    and "\<And>x y. y \<in> set (h [x]) \<Longrightarrow> take_bit ell y = y" and "\<And>x. length (h [x]) = c"
  shows "length (h xs) = c \<and> bits_of ell (h xs) = bits_of 8 xs \<and>
    (\<forall>y\<in>set (h xs). take_bit ell y = y)"
proof -
  obtain x where "xs = [x]" using assms(1) by (auto simp: length_Suc_conv)
  with assms(2-4) show ?thesis by simp
qed

lemma unpack4_block_eq:
  assumes "length xs = 64"
  shows "unpack4_block xs = concat (map (\<lambda>x. unpack4_pair [x]) xs)"
proof -
  have "unpack4_step (drop (k * 8) xs) = concat (map (\<lambda>x. unpack4_pair [x]) (take 8 (drop (k * 8) xs)))"
    if "k < 8" for k
    by (rule unpack4_step_eq) (use that assms in simp)
  then show ?thesis
    unfolding unpack4_block_def using assms map_concat_chunks [of xs 8 8 unpack4_step "\<lambda>x. unpack4_pair [x]"]
    by simp
qed

lemma unpack2_block_eq:
  assumes "length xs = 64"
  shows "unpack2_block xs = concat (map (\<lambda>x. unpack2_byte [x]) xs)"
proof -
  let ?F = "\<lambda>zs. concat (map (\<lambda>j. unpack2_byte (drop j zs)) [0..<4])"
  have F: "?F zs = concat (map (\<lambda>x. unpack2_byte [x]) (take 4 zs))" if zs: "4 \<le> length zs" for zs
  proof -
    obtain a b c d ys where "zs = a # b # c # d # ys"
      using iffD1 [OF list_of_length_ge4 zs] by blast
    then show ?thesis by (simp add: upt_numerals unpack2_byte_Cons)
  qed
  have "concat (map (\<lambda>k. ?F (drop (k * 4) xs)) [0..<16]) = concat (map (\<lambda>x. unpack2_byte [x]) xs)"
  proof (rule map_concat_chunks)
    show "length xs = 16 * 4" using assms by simp
    fix k :: nat assume "k < 16"
    then show "?F (drop (k * 4) xs) = concat (map (\<lambda>x. unpack2_byte [x]) (take 4 (drop (k * 4) xs)))"
      using assms by (intro F) simp
  qed
  then show ?thesis by (simp add: unpack2_block_def add.commute)
qed

lemma unpack4_done:
  assumes src: "n * 4 \<le> 8 * length src" and dst: "length dst = n"
  shows "\<exists>r. unpack4 src n dst = Some r \<and> unpack_done 4 src n r"
proof -
  have "\<exists>i inp d. unpack_loop 127 64 unpack4_block src n 0 0 dst = Some (i, inp, d) \<and>
      unpacked 4 src n (i, inp, d) \<and> i \<le> n \<and> n \<le> i + 127"
    by (rule unpack_loop_unpacked [OF _ src unpacked_init [OF dst]])
      (use concat_bytes_bits [OF unpack4_pair_spec] in \<open>simp add: unpack4_block_eq\<close>)
  then obtain i inp d where l1: "unpack_loop 127 64 unpack4_block src n 0 0 dst = Some (i, inp, d)"
    and P1: "unpacked 4 src n (i, inp, d)" by blast
  have "\<exists>i' inp' d'. unpack_loop 1 1 unpack4_pair src n i inp d = Some (i', inp', d') \<and>
      unpacked 4 src n (i', inp', d') \<and> i' \<le> n \<and> n \<le> i' + 1"
    by (rule unpack_loop_unpacked [OF _ src P1])
      (use single_byte [OF _ unpack4_pair_spec] in simp)
  then obtain i' inp' d' where l2: "unpack_loop 1 1 unpack4_pair src n i inp d = Some (i', inp', d')"
    and P2: "unpacked 4 src n (i', inp', d')" and i': "i' \<le> n" "n \<le> i' + 1" by blast
  show ?thesis
  proof (cases "i' < n")
    case True
    then have n: "n = Suc i'" using i' by simp
    have inp: "inp' < length src" using P2 src n by (auto simp: unpacked_def)
    have e: "8 * inp' = 4 * i'" using P2 by (simp add: unpacked_def)
    from inp have ld: "ldn src inp' 1 = Some [src ! inp']"
      by (auto simp: ldn_def take_Suc hd_drop_conv_nth)
    let ?x = "src ! inp'"
    have "bits_of 4 [?x AND 15] = take 4 (bits_of 8 [?x])"
      by (auto simp: bits_of_Cons upt_numerals bit_simps mask_numerals)
    also have "bits_of 8 [?x] = take 8 (drop (8 * inp') (bits_of 8 src))"
      using inp by (simp flip: bits_of_drop add: bits_of_Cons Cons_nth_drop_Suc [symmetric])
    finally have b: "bits_of 4 [?x AND 15] = take (4 * length [?x AND 15]) (drop (4 * i') (bits_of 8 src))"
      using P2 e by (simp add: unpacked_def)
    have "take_bit 4 (?x AND 15) = ?x AND 15"
      unfolding take_bit_self_iff by (auto simp: bit_simps mask_numerals)
    then have "\<exists>d''. stn d' i' [?x AND 15] = Some d'' \<and> unpack_done 4 src n d''"
      using store_step [OF _ _ _ _ b, of d' n] P2 n by (auto simp: unpacked_def unpack_done_def)
    then show ?thesis using l1 l2 ld True by (auto simp: unpack4_def)
  next
    case False
    then have "i' = n" using i' by simp
    then show ?thesis using l1 l2 unpacked_full [of 4 src n] P2 by (auto simp: unpack4_def)
  qed
qed

lemma unpack2_done:
  assumes src: "n * 2 \<le> 8 * length src" and dst: "length dst = n"
  shows "\<exists>r. unpack2 src n dst = Some r \<and> unpack_done 2 src n r"
proof -
  have "\<exists>i inp d. unpack_loop 255 64 unpack2_block src n 0 0 dst = Some (i, inp, d) \<and>
      unpacked 2 src n (i, inp, d) \<and> i \<le> n \<and> n \<le> i + 255"
    by (rule unpack_loop_unpacked [OF _ src unpacked_init [OF dst]])
      (use concat_bytes_bits [OF unpack2_byte_spec] in \<open>simp add: unpack2_block_eq\<close>)
  then obtain i inp d where l1: "unpack_loop 255 64 unpack2_block src n 0 0 dst = Some (i, inp, d)"
    and P1: "unpacked 2 src n (i, inp, d)" by blast
  have "\<exists>i' inp' d'. unpack_loop 3 1 unpack2_byte src n i inp d = Some (i', inp', d') \<and>
      unpacked 2 src n (i', inp', d') \<and> i' \<le> n \<and> n \<le> i' + 3"
    by (rule unpack_loop_unpacked [OF _ src P1])
      (use single_byte [OF _ unpack2_byte_spec] in simp)
  then obtain i' inp' d' where l2: "unpack_loop 3 1 unpack2_byte src n i inp d = Some (i', inp', d')"
    and P2: "unpacked 2 src n (i', inp', d')" and i': "i' \<le> n" "n \<le> i' + 3" by blast
  show ?thesis
  proof (cases "i' < n")
    case True
    have inp: "inp' < length src" using P2 src True by (auto simp: unpacked_def)
    have e: "8 * inp' = 2 * i'" using P2 by (simp add: unpacked_def)
    from inp have ld: "ldn src inp' 1 = Some [src ! inp']"
      by (auto simp: ldn_def take_Suc hd_drop_conv_nth)
    let ?x = "src ! inp'"
    let ?ys = "map (\<lambda>j. drop_bit (j * 2) ?x AND 3) [0..<n - i']"
    have ni: "n - i' = 1 \<or> n - i' = 2 \<or> n - i' = 3" using True i' by linarith
    then have "bits_of 2 ?ys = take (2 * (n - i')) (bits_of 8 [?x])"
      by (elim disjE) (auto simp: bits_of_Cons upt_numerals bit_simps mask_numerals)
    also have "bits_of 8 [?x] = take 8 (drop (8 * inp') (bits_of 8 src))"
      using inp by (simp flip: bits_of_drop add: bits_of_Cons Cons_nth_drop_Suc [symmetric])
    finally have b: "bits_of 2 ?ys = take (2 * length ?ys) (drop (2 * i') (bits_of 8 src))"
      using e ni by (auto simp add: min_def)
    have "\<forall>y\<in>set ?ys. take_bit 2 y = y"
      by (auto simp: take_bit_self_iff bit_simps mask_numerals)
    then have "\<exists>d''. stn d' i' ?ys = Some d'' \<and> unpack_done 2 src n d''"
      using store_step [OF _ _ _ _ b, of d' n] P2 True by (auto simp: unpacked_def unpack_done_def)
    then show ?thesis using l1 l2 ld True by (auto simp: unpack2_def)
  next
    case False
    then have "i' = n" using i' by simp
    then show ?thesis using l1 l2 unpacked_full [of 2 src n] P2 by (auto simp: unpack2_def)
  qed
qed

end
