(* ===== verification/Codec.thy ===== *)
theory Codec
  imports Unpack_Proofs
begin

text \<open>
  The interface between packed buffers and their users: a pack kernel and an unpack kernel
  for one element width, with the round trip proved once and interpreted on the six pairs of
  kernels.
\<close>

section \<open>The codec interface\<close>

locale codec =
  fixes ell :: nat
    and pack :: "byte list \<Rightarrow> nat \<Rightarrow> byte list \<Rightarrow> (nat \<times> byte list) option"
    and unpack :: "byte list \<Rightarrow> nat \<Rightarrow> byte list \<Rightarrow> byte list option"
  assumes ell: "0 < ell" "ell \<le> 8"
    and pack_ok: "n \<le> length src \<Longrightarrow> length dst = (n * ell + 7) div 8 \<Longrightarrow>
      \<exists>r. pack src n dst = Some r \<and> pack_done ell src n r"
    and unpack_ok: "n * ell \<le> 8 * length src \<Longrightarrow> length dst = n \<Longrightarrow>
      \<exists>r. unpack src n dst = Some r \<and> unpack_done ell src n r"
begin

lemma pack_Some:
  assumes "n \<le> length src" and "length dst = (n * ell + 7) div 8"
  obtains out where "pack src n dst = Some (length dst, out)" "length out = length dst"
    "bits_of 8 out = bits_of ell (take n src) @ replicate (8 * length dst - ell * n) False"
proof -
  obtain r where "pack src n dst = Some r" "pack_done ell src n r"
    using pack_ok [OF assms] by blast
  then show thesis using that assms(2) by (cases r) (simp add: pack_done_def)
qed

lemma unpack_unique:
  assumes "unpack_done ell src n xs" and "bits_of 8 src = bits_of ell ys @ zs" and "length ys = n"
  shows "xs = map (take_bit ell) ys"
proof -
  have "bits_of ell xs = bits_of ell ys" using assms by (simp add: unpack_done_def)
  then have "map (take_bit ell) xs = map (take_bit ell) ys" using ell by (intro bits_of_inj)
  moreover have "map (take_bit ell) xs = xs"
    using assms(1) by (simp add: unpack_done_def map_idI)
  ultimately show ?thesis by simp
qed

theorem roundtrip:
  assumes "n \<le> length src" and "length dst = (n * ell + 7) div 8" and "length dst' = n"
  shows "\<exists>buf. pack src n dst = Some (length dst, buf) \<and> length buf = length dst \<and>
     unpack buf n dst' = Some (map (take_bit ell) (take n src))"
proof -
  obtain buf where p: "pack src n dst = Some (length dst, buf)" "length buf = length dst"
    "bits_of 8 buf = bits_of ell (take n src) @ replicate (8 * length dst - ell * n) False"
    using pack_Some [OF assms(1,2)] by blast
  have "n * ell \<le> 8 * length buf" using p(2) assms(2) room [of n ell] by simp
  then obtain r where u: "unpack buf n dst' = Some r" "unpack_done ell buf n r"
    using unpack_ok assms(3) by blast
  have "r = map (take_bit ell) (take n src)"
    using unpack_unique [OF u(2) p(3)] assms(1) by simp
  with p u show ?thesis by simp
qed

lemma roundtrip_all:
  assumes "n \<le> length src" and "length dst = (n * ell + 7) div 8"
  shows "\<exists>buf. pack src n dst = Some (length dst, buf) \<and> length buf = length dst \<and>
     (\<forall>dst'. length dst' = n \<longrightarrow> unpack buf n dst' = Some (map (take_bit ell) (take n src)))"
proof -
  obtain buf where p: "pack src n dst = Some (length dst, buf)" "length buf = length dst"
    using pack_Some [OF assms] by blast
  have "unpack buf n dst' = Some (map (take_bit ell) (take n src))" if "length dst' = n" for dst'
    using roundtrip [OF assms that] p by auto
  with p show ?thesis by blast
qed

end

interpretation c2: codec 2 pack2 unpack2
  by unfold_locales (simp_all add: pack2_done unpack2_done del: split_paired_Ex)
interpretation c3: codec 3 pack3 unpack3
  by unfold_locales (simp_all add: pack3_done unpack3_done del: split_paired_Ex)
interpretation c4: codec 4 pack4 unpack4
  by unfold_locales (simp_all add: pack4_done unpack4_done del: split_paired_Ex)
interpretation c5: codec 5 pack5 unpack5
  by unfold_locales (simp_all add: pack5_done unpack5_done del: split_paired_Ex)
interpretation c6: codec 6 pack6 unpack6
  by unfold_locales (simp_all add: pack6_done unpack6_done del: split_paired_Ex)
interpretation c7: codec 7 pack7 unpack7
  by unfold_locales (simp_all add: pack7_done unpack7_done del: split_paired_Ex)

end
