(* ===== verification/Rvector.thy ===== *)
theory Rvector
  imports Threads Codec
begin

text \<open>
  One object of the class \<^verbatim>\<open>Rvector<ELL>\<close> (\<^verbatim>\<open>include/rvector.hpp\<close>), \<open>ELL\<close> being
  an argument: bit-packed 64-bit words for \<open>ELL = 1\<close>, one byte per element otherwise.
  Construction, element access, batch access, fills, canonical form and the horizontal sums.
\<close>

section \<open>The object and its storage\<close>

text \<open>
  \<open>d64\<close> is \<open>data_\<close> for \<open>ELL = 1\<close> and \<open>d8\<close> is \<open>data_\<close> otherwise. The lists are the part of
  the allocation the object may use, so an index beyond them is an access outside the block.
\<close>

record rvec =
  n_elems :: nat
  n_words :: nat
  d64 :: "u64 list"
  d8 :: "byte list"

definition ELEMS_PER_WORD :: "nat \<Rightarrow> nat" where
  "ELEMS_PER_WORD ell = (if ell = 1 then 64 else 1)"

definition wordsFor :: "nat \<Rightarrow> nat \<Rightarrow> nat" where
  "wordsFor ell n = usz (n + ELEMS_PER_WORD ell - 1) div ELEMS_PER_WORD ell"

definition sizeof_word :: "nat \<Rightarrow> nat" where
  "sizeof_word ell = (if ell = 1 then 8 else 1)"

text \<open>
  \<open>heap bytes\<close> is what \<open>std::aligned_alloc(32, bytes)\<close> answers: \<open>None\<close> for a null pointer,
  otherwise the (indeterminate) byte at each offset of the block.
\<close>

type_synonym heap = "nat \<Rightarrow> (nat \<Rightarrow> byte) option"

definition alloc_bytes :: "nat \<Rightarrow> nat \<Rightarrow> nat" where
  "alloc_bytes ell w =
     (let ALIGN = 32; bytes = usz (w * sizeof_word ell)
      in if bytes mod ALIGN \<noteq> 0 then usz (bytes + ALIGN - 1) div ALIGN * ALIGN else bytes)"

definition allocData :: "nat \<Rightarrow> heap \<Rightarrow> nat \<Rightarrow> rvec \<Rightarrow> rvec res" where
  "allocData ell heap w v =
     (if w > 0
      then (case heap (alloc_bytes ell w) of
          None \<Rightarrow> Inl BadAlloc
        | Some f \<Rightarrow>
            (let k = min w (alloc_bytes ell w div sizeof_word ell)
             in Inr (v\<lparr>n_words := w,
                  d64 := (if ell = 1 then map (\<lambda>i. of_le_bytes (map f [8 * i..<8 * i + 8])) [0..<k]
                          else []),
                  d8 := (if ell = 1 then [] else map f [0..<k])\<rparr>)))
      else Inr (v\<lparr>n_words := 0, d64 := [], d8 := []\<rparr>))"

definition rv_default :: rvec where
  "rv_default = \<lparr>n_elems = 0, n_words = 0, d64 = [], d8 = []\<rparr>"

definition rv_new :: "nat \<Rightarrow> heap \<Rightarrow> nat \<Rightarrow> rvec res" where
  "rv_new ell heap n =
     rbind (allocData ell heap (wordsFor ell n) (rv_default\<lparr>n_elems := n\<rparr>)) (\<lambda>v.
     if ell = 1 \<and> n_words v > 0 \<and> n_elems v mod 64 \<noteq> 0
     then rbind (wr (d64 v) (n_words v - 1) 0) (\<lambda>d. Inr (v\<lparr>d64 := d\<rparr>))
     else Inr v)"

definition rv_size :: "rvec \<Rightarrow> nat" where "rv_size v = n_elems v"
definition rv_words :: "rvec \<Rightarrow> nat" where "rv_words v = n_words v"

definition bytesSize :: "nat \<Rightarrow> rvec \<Rightarrow> nat" where
  "bytesSize ell v = usz (n_words v * sizeof_word ell)"

text \<open>\<open>data_\<close> read as bytes (x86 is little-endian).\<close>

definition rv_bytes :: "nat \<Rightarrow> rvec \<Rightarrow> byte list" where
  "rv_bytes ell v = (if ell = 1 then concat (map (le_bytes 8) (d64 v)) else d8 v)"

section \<open>Copies and moves\<close>

text \<open>\<open>memcpy\<close> of the words: the source block is read and the fresh block written in full.\<close>

definition rv_copy :: "nat \<Rightarrow> heap \<Rightarrow> rvec \<Rightarrow> rvec res" where
  "rv_copy ell heap other =
     (let v = rv_default\<lparr>n_elems := n_elems other\<rparr> in
      if n_words other > 0
      then rbind (allocData ell heap (n_words other) v) (\<lambda>v.
           let k = n_words v in
           if ell = 1
           then (if k \<le> length (d64 other) \<and> k \<le> length (d64 v)
                 then Inr (v\<lparr>d64 := take k (d64 other) @ drop k (d64 v)\<rparr>) else Inl MemFault)
           else (if k \<le> length (d8 other) \<and> k \<le> length (d8 v)
                 then Inr (v\<lparr>d8 := take k (d8 other) @ drop k (d8 v)\<rparr>) else Inl MemFault))
      else Inr v)"

text \<open>A move gives the new object and what is left of the old one (its pointer is null).\<close>

definition rv_move :: "rvec \<Rightarrow> rvec \<times> rvec" where
  "rv_move other = (other, other\<lparr>n_elems := 0, n_words := 0, d64 := [], d8 := []\<rparr>)"

text \<open>Assignments act on a store of objects; \<open>a = b\<close> is the self-assignment test.\<close>

definition rv_move_assign :: "nat \<Rightarrow> nat \<Rightarrow> (nat \<Rightarrow> rvec) \<Rightarrow> nat \<Rightarrow> rvec" where
  "rv_move_assign a b st =
     (if a \<noteq> b then let (new, old) = rv_move (st b) in st(a := new, b := old) else st)"

definition rv_copy_assign :: "nat \<Rightarrow> heap \<Rightarrow> nat \<Rightarrow> nat \<Rightarrow> (nat \<Rightarrow> rvec) \<Rightarrow> (nat \<Rightarrow> rvec) res" where
  "rv_copy_assign ell heap a b st =
     (if a \<noteq> b then rbind (rv_copy ell heap (st b)) (\<lambda>c. Inr (st(a := fst (rv_move c))))
      else Inr st)"

section \<open>Canonical form and fills\<close>

definition maskPartialLastWord :: "nat \<Rightarrow> rvec \<Rightarrow> rvec res" where
  "maskPartialLastWord ell v =
     (if ell \<noteq> 1 then Inr v
      else if n_elems v = 0 then Inr v
      else let rem = n_elems v mod 64 in
        if rem = 0 then Inr v
        else rbind (rd (d64 v) (n_words v - 1)) (\<lambda>w.
             rbind (wr (d64 v) (n_words v - 1) (w AND (push_bit rem 1 - 1))) (\<lambda>d.
             Inr (v\<lparr>d64 := d\<rparr>))))"

definition mask_bytes :: "nat \<Rightarrow> rvec \<Rightarrow> rvec res" where
  "mask_bytes ell v =
     rbind (for_loop 0 (n_words v)
        (\<lambda>i d. rbind (rd d i) (\<lambda>x. wr d i (x AND RING_MASK8 ell))) (d8 v))
       (\<lambda>d. Inr (v\<lparr>d8 := d\<rparr>))"

definition canonicalize :: "nat \<Rightarrow> rvec \<Rightarrow> rvec res" where
  "canonicalize ell v =
     (if ell = 1 then maskPartialLastWord ell v
      else if ell \<noteq> 8 then mask_bytes ell v
      else Inr v)"

definition checkRing :: "nat \<Rightarrow> byte \<Rightarrow> unit res" where
  "checkRing ell val = throw_if (ell < 8 \<and> val > RING_MASK8 ell) InvalidArgument"

definition fill_n :: "'a list \<Rightarrow> nat \<Rightarrow> 'a \<Rightarrow> 'a list res" where
  "fill_n xs k x = (if k \<le> length xs then Inr (replicate k x @ drop k xs) else Inl MemFault)"

definition rv_fill :: "nat \<Rightarrow> byte \<Rightarrow> rvec \<Rightarrow> rvec res" where
  "rv_fill ell val v =
     rbind (checkRing ell val) (\<lambda>_.
     if n_words v = 0 then Inr v
     else rbind
       (if ell = 1
        then rbind (fill_n (d64 v) (n_words v) (if val AND 1 \<noteq> 0 then NOT 0 else 0))
               (\<lambda>d. Inr (v\<lparr>d64 := d\<rparr>))
        else rbind (fill_n (d8 v) (n_words v) val) (\<lambda>d. Inr (v\<lparr>d8 := d\<rparr>)))
       (maskPartialLastWord ell))"

section \<open>Element access\<close>

definition rv_get :: "nat \<Rightarrow> rvec \<Rightarrow> nat \<Rightarrow> byte res" where
  "rv_get ell v i =
     (if i \<ge> n_elems v then Inl OutOfRange
      else if ell = 1
      then rbind (rd (d64 v) (i div 64)) (\<lambda>w. Inr (ucast (drop_bit (i mod 64) w AND 1)))
      else rbind (rd (d8 v) i) (\<lambda>x. Inr (x AND RING_MASK8 ell)))"

definition rv_set :: "nat \<Rightarrow> rvec \<Rightarrow> nat \<Rightarrow> byte \<Rightarrow> rvec res" where
  "rv_set ell v i val =
     (if i \<ge> n_elems v then Inl OutOfRange
      else rbind (checkRing ell val) (\<lambda>_.
        if ell = 1
        then rbind (rd (d64 v) (i div 64)) (\<lambda>w.
             rbind (wr (d64 v) (i div 64)
               (if val AND 1 \<noteq> 0 then w OR push_bit (i mod 64) 1
                else w AND NOT (push_bit (i mod 64) 1)))
             (\<lambda>d. Inr (v\<lparr>d64 := d\<rparr>)))
        else rbind (wr (d8 v) i val) (\<lambda>d. Inr (v\<lparr>d8 := d\<rparr>))))"

text \<open>The index array is a list; its length is the parameter \<open>n\<close>.\<close>

definition batchSet :: "nat \<Rightarrow> nat list \<Rightarrow> byte \<Rightarrow> rvec \<Rightarrow> rvec res" where
  "batchSet ell indices val v =
     rbind (checkRing ell val) (\<lambda>_.
     for_loop 0 (length indices) (\<lambda>k v.
       rbind (rd indices k) (\<lambda>i. if i \<ge> n_elems v then Inl OutOfRange else rv_set ell v i val)) v)"

text \<open>\<open>alias\<close> says that \<open>out\<close> is the receiver itself.\<close>

definition batchGet :: "nat \<Rightarrow> bool \<Rightarrow> rvec \<Rightarrow> nat list \<Rightarrow> rvec \<Rightarrow> rvec res" where
  "batchGet ell alias v indices out =
     (if alias then Inl InvalidArgument
      else if rv_size out < length indices then Inl InvalidArgument
      else for_loop 0 (length indices) (\<lambda>k out.
        rbind (rd indices k) (\<lambda>i.
        if i \<ge> n_elems v then Inl OutOfRange
        else rbind (rv_get ell v i) (rv_set ell out k))) out)"

section \<open>Horizontal sums\<close>

definition popcountll :: "u64 \<Rightarrow> u64" where
  "popcountll w = of_nat (length (filter (bit w) [0..<64]))"

definition reduce_1 :: "rvec \<Rightarrow> byte res" where
  "reduce_1 v =
     rbind (for_loop 0 (n_words v) (\<lambda>i parity.
        rbind (rd (d64 v) i) (\<lambda>w. Inr (parity + popcountll w))) (0 :: u64))
      (\<lambda>parity. Inr (ucast (parity AND 1)))"

text \<open>
  \<open>_mm256_sad_epu8\<close> against zero: four 64-bit lanes, each the sum of eight bytes; the code
  keeps the low 16 bits of every lane.
\<close>

definition mm256_sad_epu8_zero :: "byte list \<Rightarrow> u64 list" where
  "mm256_sad_epu8_zero xs =
     map (\<lambda>l. sum_list (map (\<lambda>j. ucast (xs ! (8 * l + j))) [0..<8])) [0..<4]"

definition sad_total :: "byte list \<Rightarrow> u64" where
  "sad_total xs =
     (let vsad = mm256_sad_epu8_zero xs in
      ucast (ucast (vsad ! 0) :: 16 word) + ucast (ucast (vsad ! 1) :: 16 word)
      + ucast (ucast (vsad ! 2) :: 16 word) + ucast (ucast (vsad ! 3) :: 16 word))"

function reduce_blocks :: "byte list \<Rightarrow> nat \<Rightarrow> nat \<Rightarrow> u64 \<Rightarrow> (nat \<times> u64) res" where
  "reduce_blocks d n i acc =
     (if i + 32 \<le> n
      then rbind (of_option (ldn d i 32)) (\<lambda>va. reduce_blocks d n (i + 32) (acc + sad_total va))
      else Inr (i, acc))"
  by pat_completeness auto
termination by (relation "measure (\<lambda>(d, n, i, acc). n - i)") auto

declare reduce_blocks.simps [simp del]

definition reduce :: "nat \<Rightarrow> rvec \<Rightarrow> byte res" where
  "reduce ell v =
     (if ell = 1 then reduce_1 v
      else rbind (reduce_blocks (d8 v) (n_elems v) 0 0) (\<lambda>(i, acc).
           rbind (for_loop i (n_elems v) (\<lambda>i acc. rbind (rd (d8 v) i) (\<lambda>x. Inr (acc + ucast x))) acc)
             (\<lambda>acc. Inr (if ell = 8 then ucast acc else ucast (acc AND ucast (RING_MASK8 ell))))))"

definition checkVecSizes :: "rvec \<Rightarrow> rvec \<Rightarrow> unit res" where
  "checkVecSizes v other = throw_if (n_elems v \<noteq> n_elems other) LogicError"

definition checkOutSize :: "rvec \<Rightarrow> rvec \<Rightarrow> unit res" where
  "checkOutSize v out = throw_if (n_elems v \<noteq> n_elems out) LogicError"

definition dot_kernel :: "nat \<Rightarrow> rvec \<Rightarrow> rvec \<Rightarrow> byte res" where
  "dot_kernel ell a b =
     (if ell = 1
      then rbind (for_loop 0 (n_words a) (\<lambda>i acc.
             rbind (rd (d64 a) i) (\<lambda>x. rbind (rd (d64 b) i) (\<lambda>y.
             Inr (acc + popcountll (x AND y))))) (0 :: u64))
           (\<lambda>acc. Inr (ucast (acc AND 1)))
      else rbind (for_loop 0 (n_elems a) (\<lambda>i acc.
             rbind (rd (d8 a) i) (\<lambda>x. rbind (rd (d8 b) i) (\<lambda>y.
             Inr (acc + ucast ((ucast (ucast x :: 16 word) :: u32) * ucast (ucast y :: 16 word))))))
             (0 :: u64))
           (\<lambda>acc. Inr (if ell = 8 then ucast acc else ucast (acc AND ucast (RING_MASK8 ell)))))"

definition dot :: "nat \<Rightarrow> rvec \<Rightarrow> rvec \<Rightarrow> byte res" where
  "dot ell a b = rbind (checkVecSizes a b) (\<lambda>_. dot_kernel ell a b)"

end
