(* ===== verification/Rvector_Facts.thy ===== *)
theory Rvector_Facts
  imports Rvector
begin

text \<open>
  What the operations on one vector do, on the abstract content \<open>elems\<close>: the invariant
  \<open>rv_ok\<close>, the canonical form \<open>canon\<close>, and the behaviour of every operation on them. The
  class is an instance of the container interface \<open>array_store\<close>.
\<close>

section \<open>Invariant and abstract content\<close>

text \<open>
  The bound on the length keeps \<open>wordsFor\<close> and the rounding of the allocation from wrapping.
\<close>

definition rv_ok :: "nat \<Rightarrow> rvec \<Rightarrow> bool" where
  "rv_ok ell v \<longleftrightarrow> 1 \<le> ell \<and> ell \<le> 8 \<and> n_elems v + 63 < 2 ^ 64 \<and>
     n_words v = wordsFor ell (n_elems v) \<and>
     (if ell = 1 then length (d64 v) = n_words v \<and> d8 v = []
      else length (d8 v) = n_words v \<and> d64 v = [])"

definition elem :: "nat \<Rightarrow> rvec \<Rightarrow> nat \<Rightarrow> byte" where
  "elem ell v i =
     (if ell = 1 then of_bool (bit (d64 v ! (i div 64)) (i mod 64))
      else d8 v ! i AND RING_MASK8 ell)"

definition elems :: "nat \<Rightarrow> rvec \<Rightarrow> byte list" where
  "elems ell v = map (elem ell v) [0..<n_elems v]"

definition canon :: "nat \<Rightarrow> rvec \<Rightarrow> bool" where
  "canon ell v \<longleftrightarrow>
     (if ell = 1
      then (\<forall>k. n_elems v \<le> k \<longrightarrow> k < 64 * n_words v \<longrightarrow> \<not> bit (d64 v ! (k div 64)) (k mod 64))
      else (\<forall>x\<in>set (d8 v). take_bit ell x = x))"

named_theorems rv_simps \<open>facts on well-formed vectors\<close>

lemma length_elems [simp]: "length (elems ell v) = n_elems v"
  by (simp add: elems_def)

lemma nth_elems [simp]: "i < n_elems v \<Longrightarrow> elems ell v ! i = elem ell v i"
  by (simp add: elems_def)

lemma wordsFor_1: "n + 63 < 2 ^ 64 \<Longrightarrow> wordsFor 1 n = (n + 63) div 64"
  by (simp add: wordsFor_def ELEMS_PER_WORD_def)

lemma wordsFor_byte: "n < 2 ^ 64 \<Longrightarrow> ell \<noteq> 1 \<Longrightarrow> wordsFor ell n = n"
  by (simp add: wordsFor_def ELEMS_PER_WORD_def)

lemma rv_ok_1:
  "rv_ok 1 v \<longleftrightarrow> n_elems v + 63 < 2 ^ 64 \<and> n_words v = (n_elems v + 63) div 64 \<and>
     length (d64 v) = n_words v \<and> d8 v = []"
  using wordsFor_1 by (auto simp: rv_ok_def)

lemma rv_ok_byte:
  "ell \<noteq> 1 \<Longrightarrow> rv_ok ell v \<longleftrightarrow> 2 \<le> ell \<and> ell \<le> 8 \<and> n_elems v + 63 < 2 ^ 64 \<and>
     n_words v = n_elems v \<and> length (d8 v) = n_elems v \<and> d64 v = []"
  using wordsFor_byte [of "n_elems v" ell] by (auto simp: rv_ok_def)

text \<open>Every use of the invariant goes by these two cases.\<close>

lemma rv_cases:
  assumes "rv_ok ell v"
  obtains (bits) "ell = 1" "n_elems v + 63 < 2 ^ 64" "n_words v = (n_elems v + 63) div 64"
      "length (d64 v) = n_words v" "d8 v = []"
  | (bytes) "ell \<noteq> 1" "2 \<le> ell" "ell \<le> 8" "n_elems v + 63 < 2 ^ 64" "n_words v = n_elems v"
      "length (d8 v) = n_elems v" "d64 v = []"
  using assms rv_ok_1 rv_ok_byte by (cases "ell = 1") auto

lemma rv_ok_words:
  "rv_ok ell v \<Longrightarrow> ell = 1 \<Longrightarrow>
     length (d64 v) = n_words v \<and> n_words v = (n_elems v + 63) div 64"
  by (auto elim: rv_cases)

lemma rv_ok_ell: "rv_ok ell v \<Longrightarrow> 1 \<le> ell \<and> ell \<le> 8"
  by (simp add: rv_ok_def)

lemma word_index: "i < n \<Longrightarrow> i div 64 < (n + 63) div 64" for i n :: nat
  by linarith

lemma elem_byte: "ell \<noteq> 1 \<Longrightarrow> ell \<le> 8 \<Longrightarrow> elem ell v i = take_bit ell (d8 v ! i)"
  by (simp add: elem_def and_RING_MASK8)

lemma elem_1: "ell = 1 \<Longrightarrow> elem ell v i = of_bool (bit (d64 v ! (i div 64)) (i mod 64))"
  by (simp add: elem_def)

lemma canon_1:
  "ell = 1 \<Longrightarrow> canon ell v \<longleftrightarrow>
     (\<forall>k. n_elems v \<le> k \<longrightarrow> k < 64 * n_words v \<longrightarrow> elem ell v k = 0)"
  by (simp add: canon_def elem_1)

lemma take_bit_of_bool [simp]: "0 < ell \<Longrightarrow> take_bit ell (of_bool b :: byte) = of_bool b"
  by (cases b) simp_all

lemma elem_range: "1 \<le> ell \<Longrightarrow> ell \<le> 8 \<Longrightarrow> take_bit ell (elem ell v i) = elem ell v i"
  by (cases "ell = 1") (simp_all add: elem_byte elem_1)

lemma elems_range: "rv_ok ell v \<Longrightarrow> x \<in> set (elems ell v) \<Longrightarrow> take_bit ell x = x"
  using rv_ok_ell elem_range by (fastforce simp: elems_def)

lemma checkRing_iff:
  "1 \<le> ell \<Longrightarrow> ell \<le> 8 \<Longrightarrow>
     checkRing ell val = (if take_bit ell val = val then Inr () else Inl InvalidArgument)"
  by (cases "ell = 8") (auto simp: checkRing_def throw_if_def le_RING_MASK8 not_le [symmetric])

section \<open>Element access\<close>

lemma low_bit: "ucast (drop_bit m w AND 1) = (of_bool (bit w m) :: 'b::len word)"
  for w :: "'a::len word"
  by (rule bit_word_eqI) (auto simp: bit_simps)

lemma rv_get_ok: "rv_ok ell v \<Longrightarrow> i < n_elems v \<Longrightarrow> rv_get ell v i = Inr (elem ell v i)"
  by (erule rv_cases) (auto simp: rv_get_def elem_def low_bit word_index)

lemma and_1_bit: "val AND 1 \<noteq> 0 \<longleftrightarrow> bit val 0" for val :: byte
  by (simp add: and_one_eq mod_2_eq_odd bit_0)

lemma bit_flag: "take_bit 1 val = val \<Longrightarrow> of_bool (val AND 1 \<noteq> 0) = (val :: byte)"
proof -
  assume v: "take_bit 1 val = val"
  have "bit val n \<longleftrightarrow> n = 0 \<and> bit val 0" for n
    using arg_cong [OF v, of "\<lambda>x. bit x n"] unfolding bit_take_bit_iff less_one by blast
  then show ?thesis
    unfolding and_1_bit by (intro bit_word_eqI) (metis bit_of_bool_iff)
qed

lemma rv_set_ok:
  assumes ok: "rv_ok ell v" and i: "i < n_elems v" and val: "take_bit ell val = val"
  shows "\<exists>v'. rv_set ell v i val = Inr v' \<and> rv_ok ell v' \<and> elems ell v' = (elems ell v)[i := val] \<and>
    (canon ell v \<longrightarrow> canon ell v')"
  using ok
proof (cases rule: rv_cases)
  case bits
  let ?q = "i div 64" and ?m = "i mod 64"
  let ?w = "if val AND 1 \<noteq> 0 then d64 v ! ?q OR push_bit ?m 1 else d64 v ! ?q AND NOT (push_bit ?m 1)"
  have bw: "bit ?w k \<longleftrightarrow> (if k = ?m then val AND 1 \<noteq> 0 else bit (d64 v ! ?q) k)" if "k < 64" for k
    using that by (auto simp: bit_simps)
  have q: "?q < length (d64 v)" using bits i word_index by simp
  have val1: "of_bool (val AND 1 \<noteq> 0) = val" using bit_flag val bits(1) by simp
  obtain w where w: "w = ?w" by blast
  let ?v = "v\<lparr>d64 := (d64 v)[?q := w]\<rparr>"
  have el: "elem ell ?v k = (if k = i then val else elem ell v k)" for k
  proof (cases "k div 64 = ?q")
    case True
    then have "k = i \<longleftrightarrow> k mod 64 = ?m" by (metis div_mult_mod_eq)
    moreover have "elem ell ?v k = of_bool (bit w (k mod 64))"
      using True q bits(1) by (simp add: elem_1)
    ultimately show ?thesis
      using bw [of "k mod 64"] val1 True bits(1) unfolding w by (simp add: elem_1)
  next
    case False
    then show ?thesis using bits(1) by (auto simp: elem_1)
  qed
  have "canon ell v \<longrightarrow> canon ell ?v" using el i bits(1) by (simp add: canon_1)
  moreover have "elems ell ?v = (elems ell v)[i := val]"
    by (rule nth_equalityI) (simp_all add: nth_list_update el)
  moreover have "rv_ok ell ?v" using ok bits by (simp add: rv_ok_def)
  moreover have "rv_set ell v i val = Inr ?v"
    using i q bits val unfolding w by (simp add: rv_set_def checkRing_iff)
  ultimately show ?thesis by blast
next
  case bytes
  let ?v = "v\<lparr>d8 := (d8 v)[i := val]\<rparr>"
  have "canon ell v \<longrightarrow> canon ell ?v"
    using bytes val by (auto simp: canon_def dest: set_update_subset_insert [THEN subsetD])
  moreover have "elems ell ?v = (elems ell v)[i := val]"
    using bytes val i by (intro nth_equalityI) (auto simp: nth_list_update elem_byte)
  moreover have "rv_ok ell ?v" using ok bytes by (simp add: rv_ok_def)
  moreover have "rv_set ell v i val = Inr ?v"
    using i bytes val by (simp add: rv_set_def checkRing_iff)
  ultimately show ?thesis by blast
qed

lemma rv_get_out: "n_elems v \<le> i \<Longrightarrow> rv_get ell v i = Inl OutOfRange"
  and rv_set_out: "n_elems v \<le> i \<Longrightarrow> rv_set ell v i x = Inl OutOfRange"
  by (simp_all add: rv_get_def rv_set_def)

interpretation rv: array_store "rv_ok ell" "\<lambda>x. take_bit ell x = x" "elems ell" "rv_get ell" "rv_set ell"
  for ell
  by unfold_locales
    (use rv_set_ok in \<open>fastforce simp: rv_get_ok rv_get_out rv_set_out elems_range\<close>)+


section \<open>Construction\<close>

lemma alloc_enough: "w * sizeof_word ell + 31 < 2 ^ 64 \<Longrightarrow> w \<le> alloc_bytes ell w div sizeof_word ell"
proof -
  assume b: "w * sizeof_word ell + 31 < 2 ^ 64"
  have *: "m \<le> (31 + m) div 32 * 32" for m :: nat by presburger
  have "w * sizeof_word ell \<le> alloc_bytes ell w"
    using b * [of "w * sizeof_word ell"] by (simp add: alloc_bytes_def Let_def)
  then show ?thesis by (cases "ell = 1") (simp_all add: sizeof_word_def)
qed

text \<open>A copy is the same vector, in memory of its own.\<close>

lemma rv_copy_ok:
  assumes v: "rv_ok ell v" and heap: "\<forall>k. heap k \<noteq> None"
  shows "rv_copy ell heap v = Inr v"
proof (cases "n_words v = 0")
  case True
  then show ?thesis using v by (auto elim!: rv_cases simp: rv_copy_def rv_default_def)
next
  case False
  have "n_words v * sizeof_word ell + 31 < 2 ^ 64"
    using v by (cases rule: rv_cases) (simp_all add: sizeof_word_def)
  then have w: "n_words v \<le> alloc_bytes ell (n_words v) div sizeof_word ell" by (rule alloc_enough)
  obtain f where f: "heap (alloc_bytes ell (n_words v)) = Some f" using heap by blast
  show ?thesis
    using v
  proof (cases rule: rv_cases)
    case bits
    then show ?thesis using False w f by (simp add: rv_copy_def allocData_def Let_def rv_default_def)
  next
    case bytes
    then show ?thesis using False w f by (simp add: rv_copy_def allocData_def Let_def rv_default_def)
  qed
qed

lemma rv_new_cases:
  assumes ell: "1 \<le> ell" "ell \<le> 8" and n: "n + 63 < 2 ^ 64"
  shows "rv_new ell heap n = Inl BadAlloc \<or>
    (\<exists>v. rv_new ell heap n = Inr v \<and> rv_ok ell v \<and> n_elems v = n)"
proof (cases "n = 0")
  case True
  then show ?thesis using ell
    by (simp add: rv_new_def allocData_def rv_default_def rv_ok_def wordsFor_def ELEMS_PER_WORD_def)
next
  case False
  let ?w = "wordsFor ell n"
  have w: "0 < ?w" "ell = 1 \<Longrightarrow> ?w = (n + 63) div 64" "ell \<noteq> 1 \<Longrightarrow> ?w = n"
    using False n ell wordsFor_1 wordsFor_byte [of n ell] by (cases "ell = 1"; force)+
  have "?w * sizeof_word ell + 31 < 2 ^ 64"
    using n w by (cases "ell = 1") (simp_all add: sizeof_word_def)
  then have "?w \<le> alloc_bytes ell ?w div sizeof_word ell" by (rule alloc_enough)
  then show ?thesis using w False ell n
    by (cases "heap (alloc_bytes ell ?w)")
      (auto simp: rv_new_def allocData_def rv_default_def rv_ok_def Let_def)
qed

lemma rv_new_ok:
  assumes "1 \<le> ell" "ell \<le> 8" "n + 63 < 2 ^ 64" "rv_new ell heap n = Inr v"
  shows "rv_ok ell v" "n_elems v = n"
  using rv_new_cases [OF assms(1-3), of heap] assms(4) by auto

lemma rv_new_heap:
  assumes "1 \<le> ell" "ell \<le> 8" "n + 63 < 2 ^ 64" "\<forall>k. heap k \<noteq> None"
  shows "\<exists>v. rv_new ell heap n = Inr v \<and> rv_ok ell v \<and> n_elems v = n"
proof -
  have "rv_new ell heap n \<noteq> Inl BadAlloc"
    using spec [OF assms(4), of "alloc_bytes ell (wordsFor ell n)"]
    by (auto simp: rv_new_def allocData_def Let_def wr_def split: option.split)
  then show ?thesis using rv_new_cases [OF assms(1-3), of heap] by blast
qed

section \<open>Canonical form and fills\<close>

lemma rv_ok_update:
  "rv_ok ell v \<Longrightarrow> ell = 1 \<Longrightarrow> length d = length (d64 v) \<Longrightarrow> rv_ok ell (v\<lparr>d64 := d\<rparr>)"
  "rv_ok ell v \<Longrightarrow> ell \<noteq> 1 \<Longrightarrow> length d' = length (d8 v) \<Longrightarrow> rv_ok ell (v\<lparr>d8 := d'\<rparr>)"
  by (auto simp: rv_ok_def)

text \<open>Two bytes vectors whose cells agree up to the unused bits have the same content.\<close>

lemma mask_bytes_ok:
  assumes "rv_ok ell v" "ell \<noteq> 1"
  shows "mask_bytes ell v = Inr (v\<lparr>d8 := map (take_bit ell) (d8 v)\<rparr>)"
  using assms(1)
proof (cases rule: rv_cases)
  case bits
  then show ?thesis using assms(2) by simp
next
  case bytes
  let ?P = "\<lambda>k d. d = map (take_bit ell) (take k (d8 v)) @ drop k (d8 v)"
  have "\<exists>d. for_loop 0 (n_words v) (\<lambda>i d. rbind (rd d i) (\<lambda>x. wr d i (x AND RING_MASK8 ell))) (d8 v)
      = Inr d \<and> ?P (n_words v) d"
    by (rule for_loop_rule)
      (use bytes in \<open>auto simp: and_RING_MASK8 nth_append take_Suc_conv_app_nth
        list_update_append Cons_nth_drop_Suc [symmetric]\<close>)
  then show ?thesis using bytes by (auto simp: mask_bytes_def)
qed

text \<open>Index arithmetic of a partly used last word.\<close>

lemma partial_word: "n mod 64 \<noteq> 0 \<Longrightarrow> (n + 63) div 64 = Suc (n div 64)" for n :: nat
proof -
  assume "n mod 64 \<noteq> 0"
  moreover have "64 * Suc q \<le> m + 63 \<and> m + 63 < 64 * Suc (Suc q)"
    if "64 * q + r = m" "r < 64" "r \<noteq> 0" for m q r :: nat
    using that by simp
  ultimately have "64 * Suc (n div 64) \<le> n + 63 \<and> n + 63 < 64 * Suc (Suc (n div 64))"
    using mult_div_mod_eq mod_less_divisor [of 64 n, OF zero_less_numeral] by blast
  then show ?thesis by (intro div_nat_eqI) simp_all
qed

lemma used_word: "k < n \<Longrightarrow> k div 64 = n div 64 \<Longrightarrow> k mod 64 < n mod 64" for k n :: nat
  using mult_div_mod_eq [of 64 n] mult_div_mod_eq [of 64 k] by linarith

lemma padding_word:
  fixes n k :: nat
  assumes "n mod 64 \<noteq> 0" "n \<le> k" "k < 64 * ((n + 63) div 64)"
  shows "k div 64 = n div 64" "n mod 64 \<le> k mod 64"
proof -
  have "64 * ((n + 63) div 64) = 64 * (n div 64) + 64" using partial_word [OF assms(1)] by simp
  then have "k < 64 * (n div 64) + 64" "64 * (n div 64) \<le> k" using assms by linarith+
  then show q: "k div 64 = n div 64" by linarith
  show "n mod 64 \<le> k mod 64" using assms(2) q
    by (metis add_le_cancel_left div_mult_mod_eq)
qed

lemma maskPartialLastWord_ok:
  assumes "rv_ok ell v"
  shows "\<exists>v'. maskPartialLastWord ell v = Inr v' \<and> rv_ok ell v' \<and> elems ell v' = elems ell v \<and>
    n_elems v' = n_elems v \<and> (ell = 1 \<longrightarrow> canon ell v') \<and> (ell \<noteq> 1 \<longrightarrow> v' = v)"
  using assms
proof (cases rule: rv_cases)
  case bytes
  then show ?thesis using assms by (simp add: maskPartialLastWord_def)
next
  case bits
  let ?n = "n_elems v" and ?q = "n_elems v div 64"
  show ?thesis
  proof (cases "?n mod 64 = 0")
    case True
    have "canon ell v" using bits True by (auto simp: canon_def)
    then show ?thesis using assms bits True by (simp add: maskPartialLastWord_def Let_def)
  next
    case False
    obtain w where w: "w = d64 v ! ?q AND mask (?n mod 64)" by blast
    have bw: "bit w k \<longleftrightarrow> k < ?n mod 64 \<and> bit (d64 v ! ?q) k" if "k < 64" for k
      using that unfolding w by (auto simp: bit_simps)
    let ?v = "v\<lparr>d64 := (d64 v)[?q := w]\<rparr>"
    have q: "n_words v - 1 = ?q" "?q < n_words v" "?n \<noteq> 0"
      using partial_word [OF False] bits False by auto
    have el: "elem ell ?v k = (if k div 64 = ?q \<and> ?n mod 64 \<le> k mod 64 then 0 else elem ell v k)" for k
      using q bits(1,4) bw [of "k mod 64"] by (auto simp: elem_1 nth_list_update)
    have inside: "k < ?n \<Longrightarrow> \<not> (k div 64 = ?q \<and> ?n mod 64 \<le> k mod 64)" for k
      using used_word [of k ?n] by auto
    have outside: "?n \<le> k \<Longrightarrow> k < 64 * n_words v \<Longrightarrow> k div 64 = ?q \<and> ?n mod 64 \<le> k mod 64" for k
      using padding_word [OF False, of k] bits(3) by simp
    have "elems ell ?v = elems ell v"
    proof (rule nth_equalityI)
      fix k assume "k < length (elems ell ?v)"
      then have k: "k < ?n" by simp
      then have "elem ell ?v k = elem ell v k" unfolding el using inside by metis
      then show "elems ell ?v ! k = elems ell v ! k" using k by simp
    qed simp
    moreover have "canon ell ?v"
      unfolding canon_1 [OF bits(1)]
    proof (intro allI impI)
      fix k assume "n_elems ?v \<le> k" "k < 64 * n_words ?v"
      then show "elem ell ?v k = 0" unfolding el using outside [of k] by simp
    qed
    moreover have "rv_ok ell ?v" by (rule rv_ok_update(1) [OF assms bits(1)]) simp
    moreover have "maskPartialLastWord ell v = Inr ?v"
    proof -
      have "rd (d64 v) ?q = Inr (d64 v ! ?q)" "wr (d64 v) ?q x = Inr ((d64 v)[?q := x])" for x
        using q bits(4) by simp_all
      then show ?thesis using bits(1) False q(1,3)
        unfolding maskPartialLastWord_def Let_def push_bit_1_minus_1 w by simp
    qed
    ultimately show ?thesis using bits(1) by (intro exI [of _ ?v]) simp
  qed
qed

lemma canonicalize_ok:
  assumes "rv_ok ell v"
  shows "\<exists>v'. canonicalize ell v = Inr v' \<and> rv_ok ell v' \<and> elems ell v' = elems ell v \<and> canon ell v'"
proof (cases "ell = 1")
  case True
  then show ?thesis using maskPartialLastWord_ok [OF assms] by (auto simp: canonicalize_def)
next
  case False
  then have b: "rv_ok ell v" "ell \<le> 8" "length (d8 v) = n_elems v"
    using assms by (auto simp: rv_ok_byte)
  let ?v = "v\<lparr>d8 := map (take_bit ell) (d8 v)\<rparr>"
  have "elems ell ?v = elems ell v"
    by (rule nth_equalityI) (use False b in \<open>auto simp: elem_byte\<close>)
  moreover have "canon ell ?v" using False by (auto simp: canon_def)
  moreover have "map (take_bit 8) (d8 v) = d8 v" by (simp add: map_idI)
  ultimately show ?thesis using b False mask_bytes_ok [OF b(1) False]
    by (cases "ell = 8") (auto simp: canonicalize_def rv_ok_update)
qed

lemma rv_fill_ok:
  assumes ok: "rv_ok ell v" and val: "take_bit ell val = val"
  shows "\<exists>v'. rv_fill ell val v = Inr v' \<and> rv_ok ell v' \<and>
    elems ell v' = replicate (n_elems v) val \<and> canon ell v'"
proof (cases "n_words v = 0")
  case True
  then have "n_elems v = 0" "d8 v = []" using ok by (auto elim: rv_cases)
  then show ?thesis using True ok val rv_ok_ell [OF ok]
    by (auto simp: rv_fill_def checkRing_iff canon_def elems_def)
next
  case False
  show ?thesis
    using ok
  proof (cases rule: rv_cases)
    case bits
    let ?v = "v\<lparr>d64 := replicate (n_words v) (if val AND 1 \<noteq> 0 then NOT 0 else 0)\<rparr>"
    have "of_bool (val AND 1 \<noteq> 0) = val" using bit_flag val bits(1) by simp
    moreover have "elem ell ?v i = of_bool (val AND 1 \<noteq> 0)" if "i < n_elems v" for i
      using bits(1,3) word_index [OF that] by (simp add: elem_1 bit_not_iff)
    ultimately have "elem ell ?v i = val" if "i < n_elems v" for i using that by metis
    then have "elems ell ?v = replicate (n_elems v) val" by (auto intro!: nth_equalityI)
    moreover have "rv_ok ell ?v" using ok bits by (simp add: rv_ok_update)
    moreover have "rv_fill ell val v = maskPartialLastWord ell ?v"
      using False bits val by (simp add: rv_fill_def checkRing_iff fill_n_def)
    ultimately show ?thesis using maskPartialLastWord_ok [of ell ?v] bits(1) by auto
  next
    case bytes
    let ?v = "v\<lparr>d8 := replicate (n_words v) val\<rparr>"
    have "elems ell ?v = replicate (n_elems v) val"
      using bytes val by (auto intro!: nth_equalityI simp: elem_byte)
    moreover have "rv_fill ell val v = Inr ?v"
      using False bytes val
      by (simp add: rv_fill_def checkRing_iff fill_n_def maskPartialLastWord_def)
    ultimately show ?thesis using ok bytes val by (auto simp: rv_ok_update canon_def)
  qed
qed

end
