(* ===== verification/Rvector_Batch.thy ===== *)
theory Rvector_Batch
  imports Rvector_Facts
begin

text \<open>
  The batch accesses, as clients of the container interface, and the horizontal sums
  \<open>reduce\<close> and \<open>dot\<close>.
\<close>

section \<open>Batch access\<close>

lemma for_loop_rd:
  "k \<le> length xs \<Longrightarrow> for_loop k (length xs) (\<lambda>k s. rbind (rd xs k) (\<lambda>i. put s i x)) s =
     write_all put (map (\<lambda>i. (i, x)) (drop k xs)) s"
proof (induction "length xs - k" arbitrary: k s)
  case 0
  then show ?case by simp
next
  case (Suc m)
  then have "k < length xs" by simp
  moreover from this have "drop k xs = xs ! k # drop (Suc k) xs" by (simp add: Cons_nth_drop_Suc)
  moreover have "for_loop (Suc k) (length xs) (\<lambda>k s. rbind (rd xs k) (\<lambda>i. put s i x)) =
      write_all put (map (\<lambda>i. (i, x)) (drop (Suc k) xs))"
    using Suc.hyps Suc.prems \<open>k < length xs\<close> by (intro ext) auto
  ultimately show ?case by (simp add: for_loop_step)
qed

lemma batchSet_write_all:
  "batchSet ell is x v = rbind (checkRing ell x) (\<lambda>_. write_all (rv_set ell) (map (\<lambda>i. (i, x)) is) v)"
proof -
  have "(if i \<ge> n_elems v then Inl OutOfRange else rv_set ell v i x) = rv_set ell v i x" for v i
    by (simp add: rv_set_def)
  then show ?thesis using for_loop_rd [of 0 "is" "rv_set ell" x v] by (simp add: batchSet_def)
qed

lemma updates_const:
  "updates (map (\<lambda>i. (i, x)) is) es = map (\<lambda>k. if k \<in> set is then x else es ! k) [0..<length es]"
proof (induction "is" arbitrary: es)
  case Nil
  then show ?case by (simp add: map_nth)
next
  case (Cons i "is")
  show ?case by (rule nth_equalityI) (auto simp: Cons.IH nth_list_update)
qed

lemma batchSet_ok:
  assumes ok: "rv_ok ell v" and x: "take_bit ell x = x" and "is": "\<forall>i\<in>set is. i < n_elems v"
  shows "\<exists>v'. batchSet ell is x v = Inr v' \<and> rv_ok ell v' \<and>
    elems ell v' = map (\<lambda>k. if k \<in> set is then x else elems ell v ! k) [0..<n_elems v]"
  using rv.write_all_ok [OF ok, of "map (\<lambda>i. (i, x)) is"] x "is" rv_ok_ell [OF ok]
  by (auto simp: batchSet_write_all checkRing_iff updates_const)

lemma batchSet_out:
  assumes ok: "rv_ok ell v" and x: "take_bit ell x = x"
    and "is": "\<forall>i\<in>set is. i < n_elems v" "n_elems v \<le> j"
  shows "batchSet ell (is @ j # js) x v = Inl OutOfRange"
  using rv.write_all_out [OF ok, of "map (\<lambda>i. (i, x)) is" j x] x "is" rv_ok_ell [OF ok]
  by (auto simp: batchSet_write_all checkRing_iff)

lemma batchGet_ok:
  assumes v: "rv_ok ell v" and out: "rv_ok ell out" and len: "length is \<le> n_elems out"
    and "is": "\<forall>i\<in>set is. i < n_elems v"
  shows "\<exists>out'. batchGet ell False v is out = Inr out' \<and> rv_ok ell out' \<and>
    elems ell out' = map ((!) (elems ell v)) is @ drop (length is) (elems ell out)"
proof -
  let ?P = "\<lambda>k o'. rv_ok ell o' \<and>
    elems ell o' = map ((!) (elems ell v)) (take k is) @ drop k (elems ell out)"
  have "\<exists>out'. for_loop 0 (length is) (\<lambda>k out. rbind (rd is k) (\<lambda>i. if i \<ge> n_elems v then Inl OutOfRange
      else rbind (rv_get ell v i) (rv_set ell out k))) out = Inr out' \<and> ?P (length is) out'"
  proof (rule for_loop_rule)
    fix k o' assume k: "k < length is" and P: "?P k o'"
    let ?x = "elems ell v ! (is ! k)"
    have i: "is ! k < n_elems v" using k "is" by simp
    have n: "n_elems o' = n_elems out"
      using P k len by (metis (no_types, lifting) add_diff_inverse_nat le_trans length_append length_drop
        length_elems length_map length_take less_imp_le min.absorb2 not_less)
    have "\<exists>v'. rv_set ell o' k ?x = Inr v' \<and> rv_ok ell v' \<and> elems ell v' = (elems ell o')[k := ?x]"
    proof (rule rv.set_ok)
      show "take_bit ell ?x = ?x" using elems_range [OF v] i by (metis length_elems nth_mem)
    qed (use P n k len in auto)
    then obtain v' where v': "rv_set ell o' k ?x = Inr v'" "rv_ok ell v'"
      "elems ell v' = (elems ell o')[k := ?x]" by blast
    have "drop k (elems ell out) = elems ell out ! k # drop (Suc k) (elems ell out)"
      using k len Cons_nth_drop_Suc [of k "elems ell out"] by simp
    then have "elems ell v' = map ((!) (elems ell v)) (take (Suc k) is) @ drop (Suc k) (elems ell out)"
      using v'(3) P k by (simp add: list_update_append take_Suc_conv_app_nth)
    with v' i k rv.get_ok [OF v] show "\<exists>s'. rbind (rd is k) (\<lambda>i. if i \<ge> n_elems v then Inl OutOfRange
      else rbind (rv_get ell v i) (rv_set ell o' k)) = Inr s' \<and> ?P (Suc k) s'" by auto
  qed (use out in auto)
  then show ?thesis using len by (auto simp: batchGet_def rv_size_def)
qed

section \<open>Horizontal sums\<close>

lemma uint_take_bit_sum:
  fixes xs :: "'a::len word list"
  assumes "ell \<le> LENGTH('a)"
  shows "uint (take_bit ell (sum_list xs)) = (\<Sum>x\<leftarrow>xs. uint x) mod 2 ^ ell"
proof (induction xs)
  case (Cons x xs)
  have "uint (take_bit ell (x + sum_list xs)) = (uint x + uint (sum_list xs)) mod 2 ^ ell"
    using assms by (rule uint_take_bit_ops)
  also have "\<dots> = (uint x + (\<Sum>x\<leftarrow>xs. uint x)) mod 2 ^ ell"
    using Cons by (intro mod_add_cong) (simp_all add: uint_take_bit_mod)
  finally show ?case by simp
qed simp

lemma sum_list_mod: "(\<Sum>x\<leftarrow>xs. f x mod m) mod m = (\<Sum>x\<leftarrow>xs. f x) mod m" for m :: int
proof (induction xs)
  case (Cons x xs)
  have "(f x mod m + (\<Sum>x\<leftarrow>xs. f x mod m)) mod m = (f x + (\<Sum>x\<leftarrow>xs. f x)) mod m"
    by (rule mod_add_cong) (simp_all add: Cons)
  then show ?case by simp
qed simp

lemma take_bit_sum_list:
  fixes xs :: "'a::len word list"
  assumes "ell \<le> LENGTH('a)"
  shows "take_bit ell (sum_list (map (take_bit ell) xs)) = take_bit ell (sum_list xs)"
  unfolding word_uint_eq_iff uint_take_bit_sum [OF assms]
  by (simp add: uint_take_bit_mod sum_list_mod o_def)

lemma ucast_add:
  "LENGTH('b) \<le> LENGTH('a) \<Longrightarrow> (ucast (x + y :: 'a::len word) :: 'b::len word) = ucast x + ucast y"
  by (simp add: word_uint_eq_iff uint_word_ariths unsigned_ucast_eq take_bit_eq_mod mod_mod_cancel
      le_imp_power_dvd mod_simps)

lemma ucast_mult:
  "LENGTH('b) \<le> LENGTH('a) \<Longrightarrow> (ucast (x * y :: 'a::len word) :: 'b::len word) = ucast x * ucast y"
  by (simp add: word_uint_eq_iff uint_word_ariths unsigned_ucast_eq take_bit_eq_mod mod_mod_cancel
      le_imp_power_dvd mod_simps)

lemma ucast_sum_list: "LENGTH('b) \<le> LENGTH('a) \<Longrightarrow>
    (ucast (sum_list xs :: 'a::len word) :: 'b::len word) = sum_list (map ucast xs)"
  by (induction xs) (simp_all add: ucast_add)

lemma ucast_up_down [simp]: "LENGTH('a::len) \<le> LENGTH('b::len) \<Longrightarrow>
    ucast (ucast (w :: 'a word) :: 'b word) = w"
  by (rule bit_word_eqI) (simp add: bit_simps)

lemma sum_list_mod_cong:
  "(\<And>x. x \<in> set xs \<Longrightarrow> f x mod m = g x mod m) \<Longrightarrow> (\<Sum>x\<leftarrow>xs. f x) mod m = (\<Sum>x\<leftarrow>xs. g x) mod m"
  for m :: int
  by (metis (no_types, lifting) map_eq_conv sum_list_mod)

lemma for_loop_sum:
  assumes "i \<le> n" and "\<And>k acc. i \<le> k \<Longrightarrow> k < n \<Longrightarrow> body k acc = Inr (acc + h k)"
  shows "for_loop i n body acc = Inr (acc + sum_list (map h [i..<n]))"
proof -
  have "\<exists>s. for_loop i n body acc = Inr s \<and> s = acc + sum_list (map h [i..<n])"
    by (rule for_loop_rule [where P = "\<lambda>k s. s = acc + sum_list (map h [i..<k])"])
      (use assms in \<open>auto simp: add.assoc\<close>)
  then show ?thesis by simp
qed

subsection \<open>Sums of absolute differences\<close>

lemma uint_sum_bytes:
  fixes ys :: "byte list"
  assumes "length ys \<le> 8"
  shows "uint (sum_list (map ucast ys) :: u64) = (\<Sum>y\<leftarrow>ys. uint y)" "(\<Sum>y\<leftarrow>ys. uint y) \<le> 2040"
proof -
  have "(\<Sum>y\<leftarrow>ys. uint y) \<le> 255 * int (length ys)"
  proof (induction ys)
    case (Cons y ys)
    moreover have "uint y < 2 ^ LENGTH(8)" by (rule unsigned_less)
    ultimately show ?case by simp
  qed simp
  then show b: "(\<Sum>y\<leftarrow>ys. uint y) \<le> 2040" using assms by linarith
  have "0 \<le> (\<Sum>y\<leftarrow>ys. uint y)" by (rule sum_list_nonneg) auto
  then show "uint (sum_list (map ucast ys) :: u64) = (\<Sum>y\<leftarrow>ys. uint y)"
  proof -
    have "uint (ucast y :: u64) = uint y" for y :: byte
      by (simp add: unsigned_ucast_eq flip: unsigned_take_bit_eq)
    moreover have "take_bit 64 (w :: u64) = w" for w
      by (rule bit_word_eqI) (simp add: bit_take_bit_iff)
    ultimately show ?thesis
      using uint_take_bit_sum [of 64 "map ucast ys :: u64 list"] b \<open>0 \<le> (\<Sum>y\<leftarrow>ys. uint y)\<close>
      by (simp add: o_def)
  qed
qed

lemma lane_16: "length ys \<le> 8 \<Longrightarrow>
    ucast (ucast (sum_list (map ucast ys) :: u64) :: 16 word) = (sum_list (map ucast ys) :: u64)"
  for ys :: "byte list"
proof -
  assume ys: "length ys \<le> 8"
  have "0 \<le> (\<Sum>y\<leftarrow>ys. uint y)" by (rule sum_list_nonneg) auto
  moreover have "ucast (ucast s :: 16 word) = take_bit 16 s" for s :: u64
    by (rule bit_word_eqI) (auto simp: bit_simps)
  ultimately show ?thesis using uint_sum_bytes [OF ys]
    by (simp add: word_uint_eq_iff uint_take_bit_mod)
qed

lemma sad_total_eq:
  assumes "length xs = 32"
  shows "sad_total xs = sum_list (map ucast xs)"
proof -
  let ?ys = "\<lambda>l. take 8 (drop (l * 8) xs)"
  have lane: "sum_list (map (\<lambda>j. ucast (xs ! (8 * l + j))) [0..<8]) = (sum_list (map ucast (?ys l)) :: u64)"
    if "l < 4" for l
  proof -
    have "map (\<lambda>j. ucast (xs ! (8 * l + j))) [0..<8] = (map ucast (?ys l) :: u64 list)"
      using that assms by (intro nth_equalityI) (auto simp: mult.commute)
    then show ?thesis by simp
  qed
  have "sad_total xs = sum_list (map (\<lambda>l. sum_list (map ucast (?ys l))) [0..<4])"
  proof -
    have "mm256_sad_epu8_zero xs = map (\<lambda>l. sum_list (map ucast (?ys l))) [0..<4]"
      unfolding mm256_sad_epu8_zero_def by (rule map_cong) (use lane in auto)
    then show ?thesis by (simp add: sad_total_def Let_def upt_numerals lane_16)
  qed
  also have "\<dots> = sum_list (map ucast (concat (map ?ys [0..<4])))"
    by (simp add: upt_numerals)
  also have "concat (map ?ys [0..<4]) = xs" by (rule take_chunks_all) (simp add: assms)
  finally show ?thesis .
qed

lemma reduce_blocks_ok:
  "i \<le> n \<Longrightarrow> n \<le> length d \<Longrightarrow> \<exists>i'. reduce_blocks d n i acc =
     Inr (i', acc + sum_list (map (\<lambda>k. ucast (d ! k)) [i..<i'])) \<and> i \<le> i' \<and> i' \<le> n"
proof (induction d n i acc rule: reduce_blocks.induct)
  case (1 d n i acc)
  show ?case
  proof (cases "i + 32 \<le> n")
    case True
    let ?va = "take 32 (drop i d)"
    have va: "ldn d i 32 = Some ?va" "length ?va = 32" using True "1.prems" by (auto simp: ldn_def)
    have "map ucast ?va = map (\<lambda>k. ucast (d ! k) :: u64) [i..<i + 32]"
      using va True "1.prems" by (intro nth_equalityI) auto
    then have sad: "sad_total ?va = sum_list (map (\<lambda>k. ucast (d ! k)) [i..<i + 32])"
      using va sad_total_eq by simp
    obtain i' where i': "reduce_blocks d n (i + 32) (acc + sad_total ?va) =
        Inr (i', acc + sad_total ?va + sum_list (map (\<lambda>k. ucast (d ! k)) [i + 32..<i']))"
      "i + 32 \<le> i'" "i' \<le> n"
      using "1.IH" [OF True] True "1.prems" by auto
    have "[i..<i'] = [i..<i + 32] @ [i + 32..<i']"
      using i'(2) by (metis le_add1 le_add_diff_inverse upt_add_eq_append)
    then show ?thesis using i' va sad True
      by (subst reduce_blocks.simps) (auto simp: add.assoc)
  next
    case False
    then show ?thesis using "1.prems" by (subst reduce_blocks.simps) auto
  qed
qed

text \<open>The final truncation of the 64-bit accumulator.\<close>

lemma final_mask:
  fixes acc :: u64
  assumes "1 \<le> ell" "ell \<le> 8"
  shows "(if ell = 8 then ucast acc else ucast (acc AND ucast (RING_MASK8 ell))) =
    (take_bit ell (ucast acc) :: byte)"
  using assms by (auto simp: ucast_and and_RING_MASK8)

lemma reduce_bytes:
  assumes v: "rv_ok ell v" "ell \<noteq> 1"
  shows "reduce ell v = Inr (take_bit ell (sum_list (elems ell v)))"
proof -
  have b: "1 \<le> ell" "ell \<le> 8" "length (d8 v) = n_elems v" using v by (auto simp: rv_ok_byte)
  obtain i where i: "reduce_blocks (d8 v) (n_elems v) 0 0 =
      Inr (i, sum_list (map (\<lambda>k. ucast (d8 v ! k)) [0..<i]))" "i \<le> n_elems v"
    using reduce_blocks_ok [of 0 "n_elems v" "d8 v" 0] b by auto
  let ?s = "\<lambda>n. sum_list (map (\<lambda>k. ucast (d8 v ! k) :: u64) [0..<n])"
  have "for_loop i (n_elems v) (\<lambda>i acc. rbind (rd (d8 v) i) (\<lambda>x. Inr (acc + ucast x))) (?s i) =
      Inr (?s i + sum_list (map (\<lambda>k. ucast (d8 v ! k)) [i..<n_elems v]))"
    by (rule for_loop_sum) (use i b in auto)
  also have "\<dots> = Inr (?s (n_elems v))"
    using i(2) upt_add_eq_append [of 0 i "n_elems v - i"] by simp
  finally have "reduce ell v = Inr (take_bit ell (ucast (?s (n_elems v))))"
    using i v(2) final_mask [OF b(1,2)] by (simp add: reduce_def)
  moreover have "ucast (?s (n_elems v)) = sum_list (d8 v)"
    using map_nth [of "d8 v"] b(3) by (simp add: ucast_sum_list o_def)
  moreover have "elems ell v = map (take_bit ell) (d8 v)"
    using v(2) b by (intro nth_equalityI) (auto simp: elem_byte)
  ultimately show ?thesis using take_bit_sum_list [of ell "d8 v"] b by simp
qed

subsection \<open>Parities\<close>

text \<open>The population count of a run of words counts the set bits of the whole run.\<close>

lemma popcount_run:
  "sum_list (map (\<lambda>i. popcountll (f i)) [0..<m]) =
     of_nat (length (filter (\<lambda>k. bit (f (k div 64)) (k mod 64)) [0..<64 * m]))"
proof (induction m)
  case (Suc m)
  have "[0..<64 * Suc m] = [0..<64 * m] @ map (\<lambda>j. 64 * m + j) [0..<64]"
    using upt_add_eq_append [of 0 "64 * m" 64] map_add_upt [of "64 * m" 64]
    by (simp add: add.commute)
  moreover have "filter (\<lambda>k. bit (f (k div 64)) (k mod 64)) (map (\<lambda>j. 64 * m + j) [0..<64]) =
      map (\<lambda>j. 64 * m + j) (filter (bit (f m)) [0..<64])"
    unfolding filter_map by (auto intro!: filter_cong)
  ultimately show ?case using Suc by (simp add: popcountll_def)
qed simp

lemma parity_ucast: "ucast ((of_nat k :: u64) AND 1) = (of_bool (odd k) :: byte)"
proof -
  have "(of_nat k :: u64) AND 1 = of_bool (odd k)"
    by (simp add: and_one_eq mod_2_eq_odd)
  then show ?thesis by simp
qed

lemma count_padding:
  assumes "n \<le> m" "\<And>k. n \<le> k \<Longrightarrow> k < m \<Longrightarrow> \<not> P k"
  shows "length (filter P [0..<m]) = length (filter P [0..<n])"
proof -
  have "[0..<m] = [0..<n] @ [n..<m]"
    using assms(1) upt_add_eq_append [of 0 n "m - n"] by simp
  moreover have "filter P [n..<m] = []" using assms(2) by auto
  ultimately show ?thesis by simp
qed

lemma odd_count: "of_bool (odd (length (filter P xs))) = (\<Sum>x\<leftarrow>xs. of_bool (P x)) mod (2 :: int)"
proof -
  have "(\<Sum>x\<leftarrow>xs. of_bool (P x)) = int (length (filter P xs))" by (induction xs) auto
  then show ?thesis by (simp add: mod_2_eq_odd)
qed

lemma words_cover: "n \<le> 64 * ((n + 63) div 64)" for n :: nat
  using mult_div_mod_eq [of 64 "n + 63"] mod_less_divisor [of 64 "n + 63", OF zero_less_numeral]
  by linarith

lemma uint_of_bool: "uint (of_bool b :: byte) = of_bool b"
  by (cases b) simp_all

lemma reduce_bits:
  assumes v: "rv_ok ell v" "ell = 1" "canon ell v"
  shows "\<exists>r. reduce ell v = Inr r \<and> uint r = (\<Sum>x\<leftarrow>elems ell v. uint x) mod 2 ^ ell"
proof -
  have b: "length (d64 v) = n_words v" "n_words v = (n_elems v + 63) div 64"
    using v by (auto elim: rv_cases)
  let ?P = "\<lambda>k. bit (d64 v ! (k div 64)) (k mod 64)"
  have "for_loop 0 (n_words v) (\<lambda>i parity. rbind (rd (d64 v) i) (\<lambda>w. Inr (parity + popcountll w))) 0 =
      Inr (0 + sum_list (map (\<lambda>i. popcountll (d64 v ! i)) [0..<n_words v]))"
    by (rule for_loop_sum) (use b in auto)
  then have "reduce_1 v = Inr (of_bool (odd (length (filter ?P [0..<64 * n_words v]))))"
    by (simp add: reduce_1_def popcount_run parity_ucast)
  moreover have "length (filter ?P [0..<64 * n_words v]) = length (filter ?P [0..<n_elems v])"
    by (rule count_padding) (use v b words_cover in \<open>auto simp: canon_def\<close>)
  moreover have "(\<Sum>x\<leftarrow>elems ell v. uint x) = (\<Sum>k\<leftarrow>[0..<n_elems v]. of_bool (?P k))"
    using v(2) by (simp add: elems_def o_def elem_1 uint_of_bool)
  ultimately show ?thesis using v(2) by (simp add: reduce_def uint_of_bool odd_count)
qed

lemma reduce_ok:
  assumes "rv_ok ell v" "ell = 1 \<longrightarrow> canon ell v"
  shows "\<exists>r. reduce ell v = Inr r \<and> uint r = (\<Sum>x\<leftarrow>elems ell v. uint x) mod 2 ^ ell"
proof (cases "ell = 1")
  case True
  then show ?thesis using assms reduce_bits by blast
next
  case False
  then show ?thesis
    using assms(1) reduce_bytes [OF assms(1)] uint_take_bit_sum [of ell "elems ell v"] rv_ok_ell [OF assms(1)]
    by simp
qed

section \<open>Inner product\<close>

lemma mul_trunc: "ucast (ucast ((ucast (ucast x :: 16 word) :: u32) * ucast (ucast y :: 16 word)) :: u64) =
    x * y" for x y :: byte
proof -
  have "ucast (ucast p :: u64) = (ucast p :: byte)" for p :: u32
    by (rule bit_word_eqI) (auto simp: bit_simps)
  moreover have "ucast (ucast (ucast z :: 16 word) :: u32) = z" for z :: byte
    by (rule bit_word_eqI) (auto simp: bit_simps)
  ultimately show ?thesis by (simp add: ucast_mult)
qed

lemma dot_bits:
  assumes a: "rv_ok ell a" "ell = 1" and b: "rv_ok ell b" "n_elems a = n_elems b"
    and c: "canon ell a \<or> canon ell b"
  shows "\<exists>r. dot ell a b = Inr r \<and>
    uint r = (\<Sum>i\<leftarrow>[0..<n_elems a]. uint (elem ell a i) * uint (elem ell b i)) mod 2 ^ ell"
proof -
  have l: "length (d64 a) = n_words a" "length (d64 b) = n_words a"
    "n_words a = (n_elems a + 63) div 64" "n_words b = n_words a"
    using rv_ok_words [OF a] rv_ok_words [OF b(1) a(2)] b(2) by simp_all
  let ?P = "\<lambda>k. bit (d64 a ! (k div 64) AND d64 b ! (k div 64)) (k mod 64)"
  have "for_loop 0 (n_words a) (\<lambda>i acc. rbind (rd (d64 a) i) (\<lambda>x. rbind (rd (d64 b) i)
        (\<lambda>y. Inr (acc + popcountll (x AND y))))) 0 =
      Inr (0 + sum_list (map (\<lambda>i. popcountll (d64 a ! i AND d64 b ! i)) [0..<n_words a]))"
    by (rule for_loop_sum) (use l in auto)
  then have "dot ell a b = Inr (of_bool (odd (length (filter ?P [0..<64 * n_words a]))))"
    using a(2) b(2) popcount_run [of "\<lambda>i. d64 a ! i AND d64 b ! i" "n_words a"]
    by (simp add: dot_def checkVecSizes_def dot_kernel_def parity_ucast)
  moreover have "length (filter ?P [0..<64 * n_words a]) = length (filter ?P [0..<n_elems a])"
  proof (rule count_padding)
    show "n_elems a \<le> 64 * n_words a" using l(3) words_cover by simp
    fix k assume "n_elems a \<le> k" "k < 64 * n_words a"
    with c a(2) b(2) l(4) show "\<not> ?P k" by (auto simp: canon_def bit_and_iff)
  qed
  moreover have "(\<Sum>i\<leftarrow>[0..<n_elems a]. uint (elem ell a i) * uint (elem ell b i)) =
      (\<Sum>k\<leftarrow>[0..<n_elems a]. of_bool (?P k))"
    using a(2) by (simp add: elem_1 uint_of_bool bit_and_iff of_bool_conj)
  ultimately show ?thesis using a(2) by (simp add: uint_of_bool odd_count)
qed

lemma dot_bytes:
  assumes a: "rv_ok ell a" "ell \<noteq> 1" and b: "rv_ok ell b" "n_elems a = n_elems b"
  shows "\<exists>r. dot ell a b = Inr r \<and>
    uint r = (\<Sum>i\<leftarrow>[0..<n_elems a]. uint (elem ell a i) * uint (elem ell b i)) mod 2 ^ ell"
proof -
  have l: "1 \<le> ell" "ell \<le> 8" "length (d8 a) = n_elems a" "length (d8 b) = n_elems a"
    using a b by (auto simp: rv_ok_byte)
  let ?p = "\<lambda>i. ucast ((ucast (ucast (d8 a ! i) :: 16 word) :: u32) * ucast (ucast (d8 b ! i) :: 16 word)) :: u64"
  have "for_loop 0 (n_elems a) (\<lambda>i acc. rbind (rd (d8 a) i) (\<lambda>x. rbind (rd (d8 b) i)
        (\<lambda>y. Inr (acc + ucast ((ucast (ucast x :: 16 word) :: u32) * ucast (ucast y :: 16 word)))))) 0 =
      Inr (0 + sum_list (map ?p [0..<n_elems a]))"
    by (rule for_loop_sum) (use l in auto)
  then have "dot ell a b = Inr (take_bit ell (ucast (sum_list (map ?p [0..<n_elems a]))))"
    using a(2) b(2) final_mask [OF l(1,2)] by (simp add: dot_def checkVecSizes_def dot_kernel_def)
  also have "ucast (sum_list (map ?p [0..<n_elems a])) =
      sum_list (map (\<lambda>i. d8 a ! i * d8 b ! i) [0..<n_elems a])"
    by (simp add: ucast_sum_list o_def mul_trunc)
  finally have r: "dot ell a b = Inr (take_bit ell (sum_list (map (\<lambda>i. d8 a ! i * d8 b ! i) [0..<n_elems a])))" .
  have "uint (d8 a ! i * d8 b ! i) mod 2 ^ ell = uint (elem ell a i) * uint (elem ell b i) mod 2 ^ ell" for i
    using a(2) l uint_take_bit_ops(3) [of ell "d8 a ! i" "d8 b ! i"]
    by (simp add: elem_byte uint_take_bit_mod mod_simps)
  then have "uint (take_bit ell (sum_list (map (\<lambda>i. d8 a ! i * d8 b ! i) [0..<n_elems a]))) =
      (\<Sum>i\<leftarrow>[0..<n_elems a]. uint (elem ell a i) * uint (elem ell b i)) mod 2 ^ ell"
    using l uint_take_bit_sum [of ell "map (\<lambda>i. d8 a ! i * d8 b ! i) [0..<n_elems a]"]
    by (simp add: o_def) (rule sum_list_mod_cong)
  with r show ?thesis by blast
qed

end
