(* ===== verification/Rvector_Ops.thy ===== *)
theory Rvector_Ops
  imports Rvector_Batch
begin

text \<open>
  The element-wise arithmetic of \<^verbatim>\<open>Rvector\<close> with its aliasing: the operations take
  references to vectors in a store, the output may be one of the inputs, and every kernel
  compares the data pointers to choose between a loop over live memory and a loop whose
  pointers are declared \<open>__restrict__\<close>.
\<close>

section \<open>The store and the loops\<close>

type_synonym store = "nat \<Rightarrow> rvec"
type_synonym 'w mem = "nat \<Rightarrow> 'w list"

text \<open>\<open>data()\<close>: distinct objects own distinct blocks, an empty one has a null pointer.\<close>

definition data_ptr :: "store \<Rightarrow> nat \<Rightarrow> nat option" where
  "data_ptr st r = (if n_words (st r) = 0 then None else Some r)"

definition reads2 :: "('w \<Rightarrow> 'w \<Rightarrow> 'w) \<Rightarrow> nat \<Rightarrow> nat \<Rightarrow> 'w mem \<Rightarrow> nat \<Rightarrow> 'w res" where
  "reads2 f a b h i = rbind (rd (h a) i) (\<lambda>x. rbind (rd (h b) i) (\<lambda>y. Inr (f x y)))"

definition reads1 :: "('w \<Rightarrow> 'w) \<Rightarrow> nat \<Rightarrow> 'w mem \<Rightarrow> nat \<Rightarrow> 'w res" where
  "reads1 f a h i = rbind (rd (h a) i) (\<lambda>x. Inr (f x))"

text \<open>\<open>po[i] = g(i)\<close>, every read seeing the writes already done.\<close>

definition loop_live :: "('w mem \<Rightarrow> nat \<Rightarrow> 'w res) \<Rightarrow> nat \<Rightarrow> nat \<Rightarrow> 'w mem \<Rightarrow> 'w mem res" where
  "loop_live g po n h =
     for_loop 0 n (\<lambda>i h. rbind (g h i) (\<lambda>x. rbind (wr (h po) i x) (\<lambda>d. Inr (h(po := d))))) h"

text \<open>The same with \<open>__restrict__\<close>: the reads may all be done before the writes.\<close>

definition loop_restrict :: "('w mem \<Rightarrow> nat \<Rightarrow> 'w res) \<Rightarrow> nat \<Rightarrow> nat \<Rightarrow> 'w mem \<Rightarrow> 'w mem res" where
  "loop_restrict g po n h =
     rbind (for_loop 0 n (\<lambda>i d. rbind (g h i) (wr d i)) (h po)) (\<lambda>d. Inr (h(po := d)))"

definition loop :: "bool \<Rightarrow> ('w mem \<Rightarrow> nat \<Rightarrow> 'w res) \<Rightarrow> nat \<Rightarrow> nat \<Rightarrow> 'w mem \<Rightarrow> 'w mem res" where
  "loop overlap g po n h = (if overlap then loop_live g po n h else loop_restrict g po n h)"

definition on64 :: "nat \<Rightarrow> (u64 mem \<Rightarrow> u64 mem res) \<Rightarrow> store \<Rightarrow> store res" where
  "on64 out F st =
     rbind (F (\<lambda>r. d64 (st r))) (\<lambda>h. Inr (st(out := (st out)\<lparr>d64 := h out\<rparr>)))"

definition on8 :: "nat \<Rightarrow> (byte mem \<Rightarrow> byte mem res) \<Rightarrow> store \<Rightarrow> store res" where
  "on8 out F st =
     rbind (F (\<lambda>r. d8 (st r))) (\<lambda>h. Inr (st(out := (st out)\<lparr>d8 := h out\<rparr>)))"

section \<open>The kernels\<close>

text \<open>One byte: \<open>uint8_t\<close> operands are promoted, the result is masked and truncated.\<close>

definition add_elem :: "nat \<Rightarrow> byte \<Rightarrow> byte \<Rightarrow> byte" where
  "add_elem ell x y =
     (if ell = 8 then ucast ((ucast x :: u32) + ucast y)
      else ucast (((ucast x :: u32) + ucast y) AND ucast (RING_MASK8 ell)))"

definition sub_elem :: "nat \<Rightarrow> byte \<Rightarrow> byte \<Rightarrow> byte" where
  "sub_elem ell x y =
     (if ell = 8 then ucast ((ucast x :: u32) - ucast y)
      else ucast (((ucast x :: u32) - ucast y) AND ucast (RING_MASK8 ell)))"

definition mul_elem :: "nat \<Rightarrow> byte \<Rightarrow> byte \<Rightarrow> byte" where
  "mul_elem ell x y =
     (if ell = 8 then ucast ((ucast x :: u32) * ucast y)
      else ucast (((ucast x :: u32) * ucast y) AND ucast (RING_MASK8 ell)))"

definition overlap2 :: "store \<Rightarrow> nat \<Rightarrow> nat \<Rightarrow> nat \<Rightarrow> bool" where
  "overlap2 st a b out \<longleftrightarrow> data_ptr st out = data_ptr st a \<or> data_ptr st out = data_ptr st b"

definition overlap1 :: "store \<Rightarrow> nat \<Rightarrow> nat \<Rightarrow> bool" where
  "overlap1 st a out \<longleftrightarrow> data_ptr st out = data_ptr st a"

definition add_kernel :: "nat \<Rightarrow> nat \<Rightarrow> nat \<Rightarrow> nat \<Rightarrow> store \<Rightarrow> store res" where
  "add_kernel ell a b out st =
     (if ell = 1
      then on64 out (loop (overlap2 st a b out) (reads2 (XOR) a b) out (n_words (st a))) st
      else on8 out (loop (overlap2 st a b out) (reads2 (add_elem ell) a b) out (n_elems (st a))) st)"

definition sub_kernel :: "nat \<Rightarrow> nat \<Rightarrow> nat \<Rightarrow> nat \<Rightarrow> store \<Rightarrow> store res" where
  "sub_kernel ell a b out st =
     (if ell = 1 then add_kernel ell a b out st
      else on8 out (loop (overlap2 st a b out) (reads2 (sub_elem ell) a b) out (n_elems (st a))) st)"

definition hadamard_kernel :: "nat \<Rightarrow> nat \<Rightarrow> nat \<Rightarrow> nat \<Rightarrow> store \<Rightarrow> store res" where
  "hadamard_kernel ell a b out st =
     (if ell = 1
      then on64 out (loop (overlap2 st a b out) (reads2 (AND) a b) out (n_words (st a))) st
      else on8 out (loop (overlap2 st a b out) (reads2 (mul_elem ell) a b) out (n_elems (st a))) st)"

definition addScalar_kernel :: "nat \<Rightarrow> nat \<Rightarrow> byte \<Rightarrow> nat \<Rightarrow> store \<Rightarrow> store res" where
  "addScalar_kernel ell a s out st =
     (if ell = 1
      then (if overlap1 st a out
            then (if s = 0 then Inr st
                  else on64 out (loop True (reads1 NOT a) out (n_words (st a))) st)
            else (if s = 0 then on64 out (loop False (reads1 (\<lambda>x. x) a) out (n_words (st a))) st
                  else on64 out (loop False (reads1 NOT a) out (n_words (st a))) st))
      else on8 out
        (loop (overlap1 st a out) (reads1 (\<lambda>x. add_elem ell x s) a) out (n_elems (st a))) st)"

definition subScalar_kernel :: "nat \<Rightarrow> nat \<Rightarrow> byte \<Rightarrow> nat \<Rightarrow> store \<Rightarrow> store res" where
  "subScalar_kernel ell a s out st =
     (if ell = 1 then addScalar_kernel ell a s out st
      else on8 out
        (loop (overlap1 st a out) (reads1 (\<lambda>x. sub_elem ell x s) a) out (n_elems (st a))) st)"

definition mulScalar_kernel :: "nat \<Rightarrow> nat \<Rightarrow> byte \<Rightarrow> nat \<Rightarrow> store \<Rightarrow> store res" where
  "mulScalar_kernel ell a s out st =
     (if ell = 1
      then (if overlap1 st a out
            then (if s = 1 then Inr st
                  else on64 out (loop True (\<lambda>h i. Inr 0) out (n_words (st a))) st)
            else (if s = 1 then on64 out (loop False (reads1 (\<lambda>x. x) a) out (n_words (st a))) st
                  else on64 out (loop False (\<lambda>h i. Inr 0) out (n_words (st a))) st))
      else on8 out
        (loop (overlap1 st a out) (reads1 (\<lambda>x. mul_elem ell x s) a) out (n_elems (st a))) st)"

section \<open>The operations\<close>

definition mask_out :: "nat \<Rightarrow> nat \<Rightarrow> store \<Rightarrow> store res" where
  "mask_out ell out st =
     rbind (maskPartialLastWord ell (st out)) (\<lambda>v. Inr (st(out := v)))"

definition rv_add :: "nat \<Rightarrow> nat \<Rightarrow> nat \<Rightarrow> nat \<Rightarrow> store \<Rightarrow> store res" where
  "rv_add ell a b out st =
     rbind (checkVecSizes (st a) (st b)) (\<lambda>_.
     rbind (checkOutSize (st a) (st out)) (\<lambda>_.
     rbind (add_kernel ell a b out st) (mask_out ell out)))"

definition rv_sub :: "nat \<Rightarrow> nat \<Rightarrow> nat \<Rightarrow> nat \<Rightarrow> store \<Rightarrow> store res" where
  "rv_sub ell a b out st =
     rbind (checkVecSizes (st a) (st b)) (\<lambda>_.
     rbind (checkOutSize (st a) (st out)) (\<lambda>_.
     rbind (sub_kernel ell a b out st) (mask_out ell out)))"

definition rv_hadamard :: "nat \<Rightarrow> nat \<Rightarrow> nat \<Rightarrow> nat \<Rightarrow> store \<Rightarrow> store res" where
  "rv_hadamard ell a b out st =
     rbind (checkVecSizes (st a) (st b)) (\<lambda>_.
     rbind (checkOutSize (st a) (st out)) (\<lambda>_.
     rbind (hadamard_kernel ell a b out st) (mask_out ell out)))"

definition rv_addScalar :: "nat \<Rightarrow> nat \<Rightarrow> byte \<Rightarrow> nat \<Rightarrow> store \<Rightarrow> store res" where
  "rv_addScalar ell a s out st =
     rbind (checkRing ell s) (\<lambda>_.
     rbind (checkOutSize (st a) (st out)) (\<lambda>_.
     rbind (addScalar_kernel ell a s out st) (mask_out ell out)))"

definition rv_subScalar :: "nat \<Rightarrow> nat \<Rightarrow> byte \<Rightarrow> nat \<Rightarrow> store \<Rightarrow> store res" where
  "rv_subScalar ell a s out st =
     rbind (checkRing ell s) (\<lambda>_.
     rbind (checkOutSize (st a) (st out)) (\<lambda>_.
     rbind (subScalar_kernel ell a s out st) (mask_out ell out)))"

definition rv_mulScalar :: "nat \<Rightarrow> nat \<Rightarrow> byte \<Rightarrow> nat \<Rightarrow> store \<Rightarrow> store res" where
  "rv_mulScalar ell a s out st =
     rbind (checkRing ell s) (\<lambda>_.
     rbind (checkOutSize (st a) (st out)) (\<lambda>_.
     rbind (mulScalar_kernel ell a s out st) (mask_out ell out)))"

section \<open>Both loops compute the pointwise function\<close>

lemma loop_ok:
  assumes len: "n \<le> length (h po)"
    and g: "\<And>i h'. i < n \<Longrightarrow> (\<And>r. length (h' r) = length (h r) \<and> h' r ! i = h r ! i) \<Longrightarrow> g h' i = Inr (v i)"
  shows "loop overlap g po n h = Inr (h(po := map v [0..<n] @ drop n (h po)))"
proof -
  let ?d = "\<lambda>k. map v [0..<k] @ drop k (h po)"
  have wr: "wr (?d k) k (v k) = Inr (?d (Suc k))" if "k < n" for k
    using that len
    by (simp add: list_update_append Cons_nth_drop_Suc [of k "h po", symmetric])
  have same: "length (?d k) = length (h po)" "?d k ! k = h po ! k" if "k < n" for k
    using that len by (auto simp: nth_append)
  have live: "\<exists>s. for_loop 0 n (\<lambda>i h. rbind (g h i) (\<lambda>x. rbind (wr (h po) i x) (\<lambda>d. Inr (h(po := d))))) h
      = Inr s \<and> s = h(po := ?d n)"
  proof (rule for_loop_rule [where P = "\<lambda>k s. s = h(po := ?d k)"])
    fix k s assume "k < n" and s: "s = h(po := ?d k)"
    then have "g s k = Inr (v k)" using same [of k] by (intro g) auto
    then show "\<exists>s'. rbind (g s k) (\<lambda>x. rbind (wr (s po) k x) (\<lambda>d. Inr (s(po := d)))) = Inr s' \<and>
        s' = h(po := ?d (Suc k))"
      using wr [OF \<open>k < n\<close>] s by simp
  qed auto
  have "\<exists>s. for_loop 0 n (\<lambda>i d. rbind (g h i) (wr d i)) (h po) = Inr s \<and> s = ?d n"
  proof (rule for_loop_rule [where P = "\<lambda>k s. s = ?d k"])
    fix k s assume k: "k < n" and s: "s = ?d k"
    have "g h k = Inr (v k)" using k by (intro g) auto
    then show "\<exists>s'. rbind (g h k) (wr s k) = Inr s' \<and> s' = ?d (Suc k)"
      using wr [OF k] s by simp
  qed auto
  with live show ?thesis by (auto simp: loop_def loop_live_def loop_restrict_def)
qed

lemma reads2_loop:
  assumes "n \<le> length (h a)" "n \<le> length (h b)" "n \<le> length (h po)"
  shows "loop overlap (reads2 f a b) po n h =
    Inr (h(po := map (\<lambda>i. f (h a ! i) (h b ! i)) [0..<n] @ drop n (h po)))"
  by (rule loop_ok) (use assms in \<open>auto simp: reads2_def\<close>)

lemma reads1_loop:
  assumes "n \<le> length (h a)" "n \<le> length (h po)"
  shows "loop overlap (reads1 f a) po n h =
    Inr (h(po := map (\<lambda>i. f (h a ! i)) [0..<n] @ drop n (h po)))"
  by (rule loop_ok) (use assms in \<open>auto simp: reads1_def\<close>)

lemma const_loop:
  "n \<le> length (h po) \<Longrightarrow> loop overlap (\<lambda>h i. Inr x) po n h =
    Inr (h(po := map (\<lambda>i. x) [0..<n] @ drop n (h po)))"
  by (rule loop_ok) auto

section \<open>The result of an operation\<close>

text \<open>Only the output object changes, and its content is \<open>f\<close>, in canonical form.\<close>

definition writes :: "nat \<Rightarrow> nat \<Rightarrow> store \<Rightarrow> (nat \<Rightarrow> byte) \<Rightarrow> store \<Rightarrow> bool" where
  "writes ell out st f st' \<longleftrightarrow> (\<forall>r. r \<noteq> out \<longrightarrow> st' r = st r) \<and> rv_ok ell (st' out) \<and>
     elems ell (st' out) = map f [0..<n_elems (st out)] \<and> (ell \<noteq> 1 \<longrightarrow> canon ell (st' out))"

lemma on64_writes:
  assumes ok: "rv_ok ell (st out)" "ell = 1"
    and F: "F (\<lambda>r. d64 (st r)) = Inr ((\<lambda>r. d64 (st r))
      (out := map v [0..<n_words (st out)] @ drop (n_words (st out)) (d64 (st out))))"
    and f: "\<And>i. i < n_elems (st out) \<Longrightarrow> f i = of_bool (bit (v (i div 64)) (i mod 64))"
  shows "\<exists>st'. on64 out F st = Inr st' \<and> writes ell out st f st'"
proof -
  note w = rv_ok_words [OF ok]
  let ?o = "(st out)\<lparr>d64 := map v [0..<n_words (st out)]\<rparr>"
  have "elems ell ?o = map f [0..<n_elems (st out)]"
    using ok(2) w f word_index by (intro nth_equalityI) (auto simp: elem_1)
  moreover have "rv_ok ell ?o" by (rule rv_ok_update(1) [OF ok]) (simp add: w)
  moreover have "on64 out F st = Inr (st(out := ?o))"
    using F w by (simp add: on64_def)
  ultimately show ?thesis using ok(2) by (intro exI [of _ "st(out := ?o)"]) (simp add: writes_def)
qed

lemma on8_writes:
  assumes ok: "rv_ok ell (st out)" "ell \<noteq> 1" and n: "n = n_elems (st out)"
    and F: "F (\<lambda>r. d8 (st r)) = Inr ((\<lambda>r. d8 (st r))
      (out := map v [0..<n] @ drop n (d8 (st out))))"
    and f: "\<And>i. i < n_elems (st out) \<Longrightarrow> f i = v i \<and> take_bit ell (v i) = v i"
  shows "\<exists>st'. on8 out F st = Inr st' \<and> writes ell out st f st'"
proof -
  have w: "length (d8 (st out)) = n_elems (st out)" "ell \<le> 8" using ok by (auto simp: rv_ok_byte)
  let ?o = "(st out)\<lparr>d8 := map v [0..<n]\<rparr>"
  have "elems ell ?o = map f [0..<n_elems (st out)]"
    using ok(2) w f n by (intro nth_equalityI) (auto simp: elem_byte)
  moreover have "canon ell ?o" using ok(2) f n by (auto simp: canon_def)
  moreover have "rv_ok ell ?o" by (rule rv_ok_update(2) [OF ok]) (simp add: w n)
  moreover have "on8 out F st = Inr (st(out := ?o))"
    using F w n by (simp add: on8_def)
  ultimately show ?thesis by (intro exI [of _ "st(out := ?o)"]) (simp add: writes_def)
qed

lemma id_writes:
  assumes "rv_ok ell (st out)" "ell = 1" "\<And>i. i < n_elems (st out) \<Longrightarrow> f i = elem ell (st out) i"
  shows "writes ell out st f st"
  using assms by (auto simp: writes_def elems_def)

lemma mask_out_writes:
  assumes "writes ell out st f st'"
  shows "\<exists>st''. mask_out ell out st' = Inr st'' \<and> writes ell out st f st'' \<and>
    canon ell (st'' out)"
proof -
  have ok: "rv_ok ell (st' out)" using assms by (simp add: writes_def)
  from maskPartialLastWord_ok [OF ok] obtain v where "maskPartialLastWord ell (st' out) = Inr v"
    "rv_ok ell v" "elems ell v = elems ell (st' out)" "ell = 1 \<longrightarrow> canon ell v"
    "ell \<noteq> 1 \<longrightarrow> v = st' out" by blast
  then show ?thesis using assms by (auto simp: mask_out_def writes_def)
qed

lemma elem_ops:
  "1 \<le> ell \<Longrightarrow> ell \<le> 8 \<Longrightarrow> add_elem ell x y = take_bit ell (x + y)"
  "1 \<le> ell \<Longrightarrow> ell \<le> 8 \<Longrightarrow> sub_elem ell x y = take_bit ell (x - y)"
  "1 \<le> ell \<Longrightarrow> ell \<le> 8 \<Longrightarrow> mul_elem ell x y = take_bit ell (x * y)"
  using ringAdd8_eq [of ell x y] ringSub8_eq [of ell x y] ringMul8_eq [of ell x y]
  by (simp_all add: add_elem_def sub_elem_def mul_elem_def ringAdd8_def ringSub8_def ringMul8_def)

lemma ring_low:
  assumes "1 \<le> ell" "ell \<le> 8"
  shows "ringAdd8 ell (take_bit ell x) (take_bit ell y) = ringAdd8 ell x y"
    "ringSub8 ell (take_bit ell x) (take_bit ell y) = ringSub8 ell x y"
    "ringMul8 ell (take_bit ell x) (take_bit ell y) = ringMul8 ell x y"
  using assms by (simp_all add: ringAdd8_eq ringSub8_eq ringMul8_eq take_bit_ring)

lemma bit_ring:
  "ringAdd8 1 (of_bool p) (of_bool q) = of_bool (p \<noteq> q)"
  "ringSub8 1 (of_bool p) (of_bool q) = of_bool (p \<noteq> q)"
  "ringMul8 1 (of_bool p) (of_bool q) = of_bool (p \<and> q)"
  by (cases p; cases q; simp add: ringAdd8_eq ringSub8_eq ringMul8_eq)+

section \<open>Correctness of the operations\<close>

text \<open>Three vectors of one length, as the size checks leave them; they may coincide.\<close>

definition same_shape :: "nat \<Rightarrow> store \<Rightarrow> nat \<Rightarrow> nat \<Rightarrow> bool" where
  "same_shape ell st a out \<longleftrightarrow>
     rv_ok ell (st a) \<and> rv_ok ell (st out) \<and> n_elems (st a) = n_elems (st out)"

lemma same_shape_1:
  assumes "same_shape ell st a out" "ell = 1"
  shows "rv_ok ell (st out)" "n_words (st a) = n_words (st out)"
    "length (d64 (st a)) = n_words (st out)" "length (d64 (st out)) = n_words (st out)"
  using assms rv_ok_words [of ell "st a"] rv_ok_words [of ell "st out"] by (auto simp: same_shape_def)

lemma same_shape_byte:
  assumes "same_shape ell st a out" "ell \<noteq> 1"
  shows "rv_ok ell (st out)" "1 \<le> ell" "ell \<le> 8" "n_elems (st a) = n_elems (st out)"
    "length (d8 (st a)) = n_elems (st out)" "length (d8 (st out)) = n_elems (st out)"
  using assms by (auto simp: same_shape_def rv_ok_byte)

lemma bits2_writes:
  assumes s: "same_shape ell st a out" "same_shape ell st b out" "ell = 1"
    and f: "\<And>x y k. k < 64 \<Longrightarrow> bit (g x y) k \<longleftrightarrow> G (bit x k) (bit y k)"
  shows "\<exists>st'. on64 out (loop overlap (reads2 g a b) out (n_words (st a))) st = Inr st' \<and>
    writes ell out st (\<lambda>i. of_bool (G (elem ell (st a) i = 1) (elem ell (st b) i = 1))) st'"
proof (rule on64_writes)
  note sh = same_shape_1 [OF s(1,3)] same_shape_1 [OF s(2,3)]
  show "rv_ok ell (st out)" "ell = 1" using sh s by simp_all
  show "loop overlap (reads2 g a b) out (n_words (st a)) (\<lambda>r. d64 (st r)) = Inr ((\<lambda>r. d64 (st r))
      (out := map (\<lambda>i. g (d64 (st a) ! i) (d64 (st b) ! i)) [0..<n_words (st out)] @
        drop (n_words (st out)) (d64 (st out))))"
    unfolding sh(2) by (rule reads2_loop [where h = "\<lambda>r. d64 (st r)"]) (simp_all add: sh)
qed (use s(3) f in \<open>simp add: elem_1\<close>)

lemma bits1_writes:
  assumes s: "same_shape ell st a out" "ell = 1"
    and f: "\<And>x k. k < 64 \<Longrightarrow> bit (g x) k \<longleftrightarrow> G (bit x k)"
  shows "\<exists>st'. on64 out (loop overlap (reads1 g a) out (n_words (st a))) st = Inr st' \<and>
    writes ell out st (\<lambda>i. of_bool (G (elem ell (st a) i = 1))) st'"
proof (rule on64_writes)
  note sh = same_shape_1 [OF s]
  show "rv_ok ell (st out)" "ell = 1" using sh s by simp_all
  show "loop overlap (reads1 g a) out (n_words (st a)) (\<lambda>r. d64 (st r)) = Inr ((\<lambda>r. d64 (st r))
      (out := map (\<lambda>i. g (d64 (st a) ! i)) [0..<n_words (st out)] @
        drop (n_words (st out)) (d64 (st out))))"
    unfolding sh(2) by (rule reads1_loop [where h = "\<lambda>r. d64 (st r)"]) (simp_all add: sh)
qed (use s(2) f in \<open>simp add: elem_1\<close>)

lemma bytes2_writes:
  assumes s: "same_shape ell st a out" "same_shape ell st b out" "ell \<noteq> 1"
    and f: "\<And>x y. g x y = f (take_bit ell x) (take_bit ell y) \<and> take_bit ell (g x y) = g x y"
  shows "\<exists>st'. on8 out (loop overlap (reads2 g a b) out (n_elems (st a))) st = Inr st' \<and>
    writes ell out st (\<lambda>i. f (elem ell (st a) i) (elem ell (st b) i)) st'"
proof (rule on8_writes)
  note sh = same_shape_byte [OF s(1,3)] same_shape_byte [OF s(2,3)]
  show "rv_ok ell (st out)" "ell \<noteq> 1" "n_elems (st a) = n_elems (st out)" using sh s by simp_all
  show "loop overlap (reads2 g a b) out (n_elems (st a)) (\<lambda>r. d8 (st r)) = Inr ((\<lambda>r. d8 (st r))
      (out := map (\<lambda>i. g (d8 (st a) ! i) (d8 (st b) ! i)) [0..<n_elems (st a)] @
        drop (n_elems (st a)) (d8 (st out))))"
    by (rule reads2_loop [where h = "\<lambda>r. d8 (st r)"]) (simp_all add: sh)
  show "f (elem ell (st a) i) (elem ell (st b) i) = g (d8 (st a) ! i) (d8 (st b) ! i) \<and>
      take_bit ell (g (d8 (st a) ! i) (d8 (st b) ! i)) = g (d8 (st a) ! i) (d8 (st b) ! i)" for i
    using f [of "d8 (st a) ! i" "d8 (st b) ! i"] s(3) sh(3) by (metis elem_byte)
qed

lemma bytes1_writes:
  assumes s: "same_shape ell st a out" "ell \<noteq> 1"
    and f: "\<And>x. g x = f (take_bit ell x) \<and> take_bit ell (g x) = g x"
  shows "\<exists>st'. on8 out (loop overlap (reads1 g a) out (n_elems (st a))) st = Inr st' \<and>
    writes ell out st (\<lambda>i. f (elem ell (st a) i)) st'"
proof (rule on8_writes)
  note sh = same_shape_byte [OF s]
  show "rv_ok ell (st out)" "ell \<noteq> 1" "n_elems (st a) = n_elems (st out)" using sh s by simp_all
  show "loop overlap (reads1 g a) out (n_elems (st a)) (\<lambda>r. d8 (st r)) = Inr ((\<lambda>r. d8 (st r))
      (out := map (\<lambda>i. g (d8 (st a) ! i)) [0..<n_elems (st a)] @
        drop (n_elems (st a)) (d8 (st out))))"
    by (rule reads1_loop [where h = "\<lambda>r. d8 (st r)"]) (simp_all add: sh)
  show "f (elem ell (st a) i) = g (d8 (st a) ! i) \<and>
      take_bit ell (g (d8 (st a) ! i)) = g (d8 (st a) ! i)" for i
    using f [of "d8 (st a) ! i"] s(2) sh(3) by (metis elem_byte)
qed

text \<open>A bit of the abstract content, as a ring element.\<close>

lemma elem_bool: "ell = 1 \<Longrightarrow> elem ell v i = of_bool (elem ell v i = 1)"
  by (simp add: elem_1)

lemma ring_bool:
  assumes "ell = 1"
  shows "ringAdd8 ell (elem ell u i) (elem ell v i) = of_bool ((elem ell u i = 1) \<noteq> (elem ell v i = 1))"
    "ringMul8 ell (elem ell u i) (elem ell v i) = of_bool (elem ell u i = 1 \<and> elem ell v i = 1)"
    "ringSub8 ell (elem ell u i) (elem ell v i) = of_bool ((elem ell u i = 1) \<noteq> (elem ell v i = 1))"
  using bit_ring [of "elem ell u i = 1" "elem ell v i = 1"] elem_bool [OF assms, of u i]
    elem_bool [OF assms, of v i] assms by metis+

lemma ring_scalar_bool:
  assumes "ell = 1"
  shows "ringAdd8 ell (elem ell u i) s = of_bool ((elem ell u i = 1) \<noteq> odd s)"
    "ringSub8 ell (elem ell u i) s = of_bool ((elem ell u i = 1) \<noteq> odd s)"
    "ringMul8 ell (elem ell u i) s = of_bool (elem ell u i = 1 \<and> odd s)"
proof -
  have e: "take_bit ell (elem ell u i) = of_bool (elem ell u i = 1)"
    using elem_range [of ell u i] elem_bool [OF assms, of u i] assms by simp
  have "take_bit ell s = of_bool (odd s)" using assms by (simp add: mod_2_eq_odd)
  with e show "ringAdd8 ell (elem ell u i) s = of_bool ((elem ell u i = 1) \<noteq> odd s)"
    "ringSub8 ell (elem ell u i) s = of_bool ((elem ell u i = 1) \<noteq> odd s)"
    "ringMul8 ell (elem ell u i) s = of_bool (elem ell u i = 1 \<and> odd s)"
    using ring_low [of ell "elem ell u i" s] bit_ring [of "elem ell u i = 1" "odd s"] assms
    by simp_all
qed

lemma writes_cong:
  "writes ell out st f st' \<Longrightarrow> (\<And>i. i < n_elems (st out) \<Longrightarrow> f i = g i) \<Longrightarrow> writes ell out st g st'"
  by (simp add: writes_def)

lemma add_kernel_writes:
  assumes "same_shape ell st a out" "same_shape ell st b out"
  shows "\<exists>st'. add_kernel ell a b out st = Inr st' \<and>
    writes ell out st (\<lambda>i. ringAdd8 ell (elem ell (st a) i) (elem ell (st b) i)) st'"
proof (cases "ell = 1")
  case True
  then show ?thesis using bits2_writes [OF assms True, of "(XOR)" "(\<noteq>)"]
    by (simp add: add_kernel_def ring_bool bit_xor_iff)
next
  case False
  note e = same_shape_byte(2,3) [OF assms(1) False]
  show ?thesis using bytes2_writes [OF assms False, of "add_elem ell" "ringAdd8 ell"] e False
    by (simp add: add_kernel_def elem_ops ringAdd8_eq take_bit_ring)
qed

lemma sub_kernel_writes:
  assumes "same_shape ell st a out" "same_shape ell st b out"
  shows "\<exists>st'. sub_kernel ell a b out st = Inr st' \<and>
    writes ell out st (\<lambda>i. ringSub8 ell (elem ell (st a) i) (elem ell (st b) i)) st'"
proof (cases "ell = 1")
  case True
  then show ?thesis using add_kernel_writes [OF assms] by (simp add: sub_kernel_def ring_bool)
next
  case False
  note e = same_shape_byte(2,3) [OF assms(1) False]
  show ?thesis using bytes2_writes [OF assms False, of "sub_elem ell" "ringSub8 ell"] e False
    by (simp add: sub_kernel_def elem_ops ringSub8_eq take_bit_ring)
qed

lemma hadamard_kernel_writes:
  assumes "same_shape ell st a out" "same_shape ell st b out"
  shows "\<exists>st'. hadamard_kernel ell a b out st = Inr st' \<and>
    writes ell out st (\<lambda>i. ringMul8 ell (elem ell (st a) i) (elem ell (st b) i)) st'"
proof (cases "ell = 1")
  case True
  then show ?thesis using bits2_writes [OF assms True, of "(AND)" "(\<and>)"]
    by (simp add: hadamard_kernel_def ring_bool bit_and_iff)
next
  case False
  note e = same_shape_byte(2,3) [OF assms(1) False]
  show ?thesis using bytes2_writes [OF assms False, of "mul_elem ell" "ringMul8 ell"] e False
    by (simp add: hadamard_kernel_def elem_ops ringMul8_eq take_bit_ring)
qed

lemma overlap1_elem:
  assumes "same_shape ell st a out" "ell = 1" "overlap1 st a out" "i < n_elems (st out)"
  shows "elem ell (st a) i = elem ell (st out) i"
proof -
  have "n_words (st out) \<noteq> 0"
    using assms rv_ok_words [of ell "st out"] word_index [OF assms(4)] by (auto simp: same_shape_def)
  then show ?thesis using assms(3) by (auto simp: overlap1_def data_ptr_def split: if_splits)
qed

lemma bit_scalar: "take_bit 1 s = s \<Longrightarrow> s = 0 \<or> s = 1" for s :: byte
proof -
  assume "take_bit 1 s = s"
  then have "of_bool (s AND 1 \<noteq> 0) = s" by (rule bit_flag)
  then show ?thesis by (cases "s AND 1 = 0") simp_all
qed

lemma nop_writes:
  assumes "same_shape ell st a out" "ell = 1" "overlap1 st a out"
  shows "writes ell out st (\<lambda>i. of_bool (elem ell (st a) i = 1)) st"
proof (rule id_writes)
  fix i assume "i < n_elems (st out)"
  then have "elem ell (st a) i = elem ell (st out) i" by (rule overlap1_elem [OF assms])
  with elem_bool [OF assms(2), of "st a" i]
  show "of_bool (elem ell (st a) i = 1) = elem ell (st out) i" by simp
qed (use assms in \<open>auto simp: same_shape_def\<close>)

lemma addScalar_kernel_writes:
  assumes sh: "same_shape ell st a out" and s: "take_bit ell s = s"
  shows "\<exists>st'. addScalar_kernel ell a s out st = Inr st' \<and>
    writes ell out st (\<lambda>i. ringAdd8 ell (elem ell (st a) i) s) st'"
proof (cases "ell = 1")
  case True
  have "(\<exists>st'. on64 out (loop ov (reads1 NOT a) out (n_words (st a))) st = Inr st' \<and>
      writes ell out st (\<lambda>i. of_bool (elem ell (st a) i \<noteq> 1)) st')"
    "(\<exists>st'. on64 out (loop ov (reads1 (\<lambda>x. x) a) out (n_words (st a))) st = Inr st' \<and>
      writes ell out st (\<lambda>i. of_bool (elem ell (st a) i = 1)) st')" for ov
    using bits1_writes [OF sh True, of NOT Not ov] bits1_writes [OF sh True, of "\<lambda>x. x" "\<lambda>x. x" ov]
    by (simp_all add: bit_not_iff)
  moreover have "overlap1 st a out \<Longrightarrow> writes ell out st (\<lambda>i. of_bool (elem ell (st a) i = 1)) st"
    by (rule nop_writes [OF sh True])
  moreover have "s = 0 \<or> s = 1" using s True bit_scalar by simp
  ultimately show ?thesis using True by (auto simp: addScalar_kernel_def ring_scalar_bool)
next
  case False
  note e = same_shape_byte(2,3) [OF sh False]
  show ?thesis
    using bytes1_writes [OF sh False, of "\<lambda>x. add_elem ell x s" "\<lambda>x. ringAdd8 ell x s"] e False s
      take_bit_ring(1) [of ell _ s]
    by (simp add: addScalar_kernel_def elem_ops ringAdd8_eq)
qed

lemma subScalar_kernel_writes:
  assumes sh: "same_shape ell st a out" and s: "take_bit ell s = s"
  shows "\<exists>st'. subScalar_kernel ell a s out st = Inr st' \<and>
    writes ell out st (\<lambda>i. ringSub8 ell (elem ell (st a) i) s) st'"
proof (cases "ell = 1")
  case True
  then show ?thesis using addScalar_kernel_writes [OF assms]
    by (simp add: subScalar_kernel_def ring_scalar_bool)
next
  case False
  note e = same_shape_byte(2,3) [OF sh False]
  show ?thesis
    using bytes1_writes [OF sh False, of "\<lambda>x. sub_elem ell x s" "\<lambda>x. ringSub8 ell x s"] e False s
      take_bit_ring(2) [of ell _ s]
    by (simp add: subScalar_kernel_def elem_ops ringSub8_eq)
qed

lemma const_writes:
  assumes "same_shape ell st a out" "ell = 1"
  shows "\<exists>st'. on64 out (loop ov (\<lambda>h i. Inr 0) out (n_words (st a))) st = Inr st' \<and>
    writes ell out st (\<lambda>i. 0) st'"
proof (rule on64_writes)
  note sh = same_shape_1 [OF assms]
  show "rv_ok ell (st out)" "ell = 1" using sh assms by simp_all
  show "loop ov (\<lambda>h i. Inr 0) out (n_words (st a)) (\<lambda>r. d64 (st r)) = Inr ((\<lambda>r. d64 (st r))
      (out := map (\<lambda>i. 0) [0..<n_words (st out)] @ drop (n_words (st out)) (d64 (st out))))"
    unfolding sh(2) by (rule const_loop [where h = "\<lambda>r. d64 (st r)"]) (simp add: sh)
qed simp

lemma mulScalar_kernel_writes:
  assumes sh: "same_shape ell st a out" and s: "take_bit ell s = s"
  shows "\<exists>st'. mulScalar_kernel ell a s out st = Inr st' \<and>
    writes ell out st (\<lambda>i. ringMul8 ell (elem ell (st a) i) s) st'"
proof (cases "ell = 1")
  case True
  have "\<exists>st'. on64 out (loop ov (reads1 (\<lambda>x. x) a) out (n_words (st a))) st = Inr st' \<and>
      writes ell out st (\<lambda>i. of_bool (elem ell (st a) i = 1)) st'" for ov
    using bits1_writes [OF sh True, of "\<lambda>x. x" "\<lambda>x. x" ov] by simp
  moreover have "overlap1 st a out \<Longrightarrow> writes ell out st (\<lambda>i. of_bool (elem ell (st a) i = 1)) st"
    by (rule nop_writes [OF sh True])
  moreover have "s = 0 \<or> s = 1" using s True bit_scalar by simp
  ultimately show ?thesis using True const_writes [OF sh True]
    by (auto simp: mulScalar_kernel_def ring_scalar_bool)
next
  case False
  note e = same_shape_byte(2,3) [OF sh False]
  show ?thesis
    using bytes1_writes [OF sh False, of "\<lambda>x. mul_elem ell x s" "\<lambda>x. ringMul8 ell x s"] e False s
      take_bit_ring(3) [of ell _ s]
    by (simp add: mulScalar_kernel_def elem_ops ringMul8_eq)
qed

text \<open>The kernel followed by the mask of the last word.\<close>

lemma masked_writes:
  assumes "\<exists>st'. K st = Inr st' \<and> writes ell out st f st'"
  shows "\<exists>st'. rbind (K st) (mask_out ell out) = Inr st' \<and> writes ell out st f st' \<and> canon ell (st' out)"
  using assms mask_out_writes by fastforce

lemma shape_checks:
  assumes "same_shape ell st a out" "same_shape ell st b out"
  shows "checkVecSizes (st a) (st b) = Inr ()" "checkOutSize (st a) (st out) = Inr ()"
  using assms by (simp_all add: same_shape_def checkVecSizes_def checkOutSize_def)

lemmas vector_writes = masked_writes [where K = "add_kernel ell a b out" for ell a b out, OF add_kernel_writes]
  masked_writes [where K = "sub_kernel ell a b out" for ell a b out, OF sub_kernel_writes]
  masked_writes [where K = "hadamard_kernel ell a b out" for ell a b out, OF hadamard_kernel_writes]

lemmas scalar_writes =
  masked_writes [where K = "addScalar_kernel ell a s out" for ell a s out, OF addScalar_kernel_writes]
  masked_writes [where K = "subScalar_kernel ell a s out" for ell a s out, OF subScalar_kernel_writes]
  masked_writes [where K = "mulScalar_kernel ell a s out" for ell a s out, OF mulScalar_kernel_writes]

lemma rv_add_ok:
  assumes "same_shape ell st a out" "same_shape ell st b out"
  shows "\<exists>st'. rv_add ell a b out st = Inr st' \<and> canon ell (st' out) \<and>
    writes ell out st (\<lambda>i. ringAdd8 ell (elem ell (st a) i) (elem ell (st b) i)) st'"
  using vector_writes(1) [OF assms] shape_checks [OF assms] by (auto simp: rv_add_def)

lemma rv_sub_ok:
  assumes "same_shape ell st a out" "same_shape ell st b out"
  shows "\<exists>st'. rv_sub ell a b out st = Inr st' \<and> canon ell (st' out) \<and>
    writes ell out st (\<lambda>i. ringSub8 ell (elem ell (st a) i) (elem ell (st b) i)) st'"
  using vector_writes(2) [OF assms] shape_checks [OF assms] by (auto simp: rv_sub_def)

lemma rv_hadamard_ok:
  assumes "same_shape ell st a out" "same_shape ell st b out"
  shows "\<exists>st'. rv_hadamard ell a b out st = Inr st' \<and> canon ell (st' out) \<and>
    writes ell out st (\<lambda>i. ringMul8 ell (elem ell (st a) i) (elem ell (st b) i)) st'"
  using vector_writes(3) [OF assms] shape_checks [OF assms] by (auto simp: rv_hadamard_def)

lemma rv_scalar_ok:
  assumes "same_shape ell st a out" "take_bit ell s = s"
  shows "\<exists>st'. rv_addScalar ell a s out st = Inr st' \<and> canon ell (st' out) \<and>
      writes ell out st (\<lambda>i. ringAdd8 ell (elem ell (st a) i) s) st'"
    "\<exists>st'. rv_subScalar ell a s out st = Inr st' \<and> canon ell (st' out) \<and>
      writes ell out st (\<lambda>i. ringSub8 ell (elem ell (st a) i) s) st'"
    "\<exists>st'. rv_mulScalar ell a s out st = Inr st' \<and> canon ell (st' out) \<and>
      writes ell out st (\<lambda>i. ringMul8 ell (elem ell (st a) i) s) st'"
proof -
  have "checkRing ell s = Inr ()"
    using assms rv_ok_ell [of ell "st a"] by (simp add: same_shape_def checkRing_iff)
  then show "\<exists>st'. rv_addScalar ell a s out st = Inr st' \<and> canon ell (st' out) \<and>
      writes ell out st (\<lambda>i. ringAdd8 ell (elem ell (st a) i) s) st'"
    "\<exists>st'. rv_subScalar ell a s out st = Inr st' \<and> canon ell (st' out) \<and>
      writes ell out st (\<lambda>i. ringSub8 ell (elem ell (st a) i) s) st'"
    "\<exists>st'. rv_mulScalar ell a s out st = Inr st' \<and> canon ell (st' out) \<and>
      writes ell out st (\<lambda>i. ringMul8 ell (elem ell (st a) i) s) st'"
    using scalar_writes [OF assms] shape_checks(2) [OF assms(1,1)]
    by (auto simp: rv_addScalar_def rv_subScalar_def rv_mulScalar_def)
qed

end
