(* ===== verification/Rvector_Pack.thy ===== *)
theory Rvector_Pack
  imports Rvector_Batch
begin

text \<open>
  Packed buffers (\<^verbatim>\<open>RvectorPack\<close>), \<^verbatim>\<open>packRvec\<close> and \<^verbatim>\<open>unpackRvec\<close> on top of the
  kernels, and the vector file format of \<^verbatim>\<open>save\<close> and \<^verbatim>\<open>load\<close>.
\<close>

section \<open>Packed buffers\<close>

record rpack =
  p_ell :: nat
  p_n :: nat
  p_buf :: "byte list"

definition bytesFor :: "nat \<Rightarrow> nat \<Rightarrow> nat res" where
  "bytesFor ell n =
     (if ell < 1 \<or> ell > 8 then Inl InvalidArgument
      else if n > SIZE_MAX div 8 then Inl OverflowError
      else if ell = 1 then Inr (usz (usz (n + 63) div 64 * 8))
      else if ell = 8 then Inr n
      else if n > SIZE_MAX div ell then Inl OverflowError
      else Inr (usz (usz (n * ell) + 7) div 8))"

text \<open>
  \<open>AlignedAlloc::allocate\<close>: a null pointer for no elements, else the size that is requested;
  \<open>avail\<close> says for which sizes \<open>std::aligned_alloc\<close> succeeds.
\<close>

definition aligned_allocate :: "nat \<Rightarrow> nat \<Rightarrow> (nat \<Rightarrow> bool) \<Rightarrow> nat \<Rightarrow> nat option res" where
  "aligned_allocate Alignment szT avail n =
     (if n = 0 then Inr None
      else let bytes = usz (n * szT + (Alignment - 1)) div Alignment * Alignment
           in if avail bytes then Inr (Some bytes) else Inl BadAlloc)"

text \<open>The buffer is a \<open>std::vector\<close>: too large a size is a \<open>length_error\<close>, bytes start at 0.\<close>

definition rp_new :: "(nat \<Rightarrow> bool) \<Rightarrow> nat \<Rightarrow> nat \<Rightarrow> rpack res" where
  "rp_new avail ell n =
     rbind (bytesFor ell n) (\<lambda>k.
     rbind (throw_if (k > 2 ^ 63 - 1) LogicError) (\<lambda>_.
     rbind (aligned_allocate 16 1 avail k) (\<lambda>_.
     rbind (throw_if (ell < 1 \<or> ell > 8) InvalidArgument) (\<lambda>_.
     Inr \<lparr>p_ell = ell, p_n = n, p_buf = replicate k 0\<rparr>))))"

section \<open>packRvec and unpackRvec\<close>

definition pack_kernel :: "nat \<Rightarrow> byte list \<Rightarrow> nat \<Rightarrow> byte list \<Rightarrow> (nat \<times> byte list) option" where
  "pack_kernel ell =
     (if ell = 2 then pack2 else if ell = 3 then pack3 else if ell = 4 then pack4
      else if ell = 5 then pack5 else if ell = 6 then pack6 else pack7)"

definition unpack_kernel :: "nat \<Rightarrow> byte list \<Rightarrow> nat \<Rightarrow> byte list \<Rightarrow> byte list option" where
  "unpack_kernel ell =
     (if ell = 2 then unpack2 else if ell = 3 then unpack3 else if ell = 4 then unpack4
      else if ell = 5 then unpack5 else if ell = 6 then unpack6 else unpack7)"

definition packRvec :: "nat \<Rightarrow> rvec \<Rightarrow> rpack \<Rightarrow> rpack res" where
  "packRvec ell src aux =
     (if p_ell aux \<noteq> ell \<or> p_n aux \<noteq> n_elems src then Inl InvalidArgument
      else if ell = 1 \<or> ell = 8
      then (if bytesSize ell src > 0
            then rbind (of_option (ldn (rv_bytes ell src) 0 (bytesSize ell src))) (\<lambda>bs.
                 rbind (of_option (stn (p_buf aux) 0 bs)) (\<lambda>b. Inr (aux\<lparr>p_buf := b\<rparr>)))
            else Inr aux)
      else rbind (of_option (pack_kernel ell (rv_bytes ell src) (n_elems src) (p_buf aux)))
             (\<lambda>(out, b). Inr (aux\<lparr>p_buf := b\<rparr>)))"

text \<open>Overwriting \<open>data_\<close> through a byte pointer.\<close>

definition set_bytes :: "nat \<Rightarrow> rvec \<Rightarrow> byte list \<Rightarrow> rvec" where
  "set_bytes ell v bs =
     (if ell = 1
      then v\<lparr>d64 := map (\<lambda>i. of_le_bytes (take 8 (drop (8 * i) bs))) [0..<length (d64 v)]\<rparr>
      else v\<lparr>d8 := bs\<rparr>)"

definition unpackRvec :: "nat \<Rightarrow> rpack \<Rightarrow> rvec \<Rightarrow> rvec res" where
  "unpackRvec ell aux dst =
     (if p_ell aux \<noteq> ell \<or> p_n aux \<noteq> n_elems dst then Inl InvalidArgument
      else rbind
        (if ell = 1 \<or> ell = 8
         then (if bytesSize ell dst > 0
               then rbind (of_option (ldn (p_buf aux) 0 (min (length (p_buf aux)) (bytesSize ell dst)))) (\<lambda>bs.
                    rbind (of_option (stn (rv_bytes ell dst) 0 bs)) (\<lambda>b. Inr (set_bytes ell dst b)))
               else Inr dst)
         else rbind (of_option (unpack_kernel ell (p_buf aux) (n_elems dst) (rv_bytes ell dst)))
                (\<lambda>b. Inr (set_bytes ell dst b)))
        (canonicalize ell))"

section \<open>Files\<close>

definition FILE_MAGIC :: u32 where "FILE_MAGIC = 0x4D504D54"

definition checkExt :: "string \<Rightarrow> string \<Rightarrow> unit res" where
  "checkExt path ext =
     throw_if (length path < length ext \<or> drop (length path - length ext) path \<noteq> ext) RuntimeError"

text \<open>
  A stream of the C library that is open for writing: what is in the file, and what the library
  still holds in its buffer. When it writes the buffer out is up to the library: \<open>drain\<close> says how many of
  the bytes held it passes on during a call, given how many are in the file and how many it holds. A file
  has room for \<open>room\<close> bytes. \<open>fwrite\<close> tells whether what it passed on was written;
  \<open>fclose\<close> passes on the rest and tells the same.
\<close>

record ostream =
  in_file :: "byte list"
  in_buffer :: "byte list"

definition stream_new :: ostream where
  "stream_new = \<lparr>in_file = [], in_buffer = []\<rparr>"

definition fwrite :: "(nat \<Rightarrow> nat \<Rightarrow> nat) \<Rightarrow> nat \<Rightarrow> ostream \<Rightarrow> byte list \<Rightarrow> ostream \<times> bool" where
  "fwrite drain room f bs =
     (let held = in_buffer f @ bs;
          k = min (drain (length (in_file f)) (length held)) (length held);
          j = min k (room - length (in_file f))
      in (\<lparr>in_file = in_file f @ take j held, in_buffer = drop j held\<rparr>, j = k))"

definition fclose :: "nat \<Rightarrow> ostream \<Rightarrow> byte list \<times> bool" where
  "fclose room f =
     (in_file f @ take (room - length (in_file f)) (in_buffer f), length (in_file f) + length (in_buffer f) \<le> room)"

type_synonym files = "string \<Rightarrow> byte list option"

text \<open>The stream is closed by the deleter of the \<^verbatim>\<open>unique_ptr\<close> that holds it, on every way out;
  what \<open>fclose\<close> returns is not looked at.\<close>

definition closed_file :: "nat \<Rightarrow> string \<Rightarrow> ostream \<Rightarrow> files \<Rightarrow> files" where
  "closed_file room path f fs = fs(path := Some (fst (fclose room f)))"

definition save :: "nat \<Rightarrow> (string \<Rightarrow> bool) \<Rightarrow> (nat \<Rightarrow> nat \<Rightarrow> nat) \<Rightarrow> nat \<Rightarrow> string \<Rightarrow> rvec \<Rightarrow> rpack \<Rightarrow> files \<Rightarrow>
    files \<times> rpack \<times> unit res" where
  "save ell openable drain room path v aux fs =
     (case checkExt path ''.mpmtrvp'' of Inl e \<Rightarrow> (fs, aux, Inl e)
      | Inr _ \<Rightarrow>
        if \<not> openable path then (fs, aux, Inl RuntimeError)
        else let (f, ok) = fwrite drain room stream_new (le_bytes 4 FILE_MAGIC) in
        if \<not> ok then (closed_file room path f fs, aux, Inl RuntimeError)
        else let (f, ok) = fwrite drain room f
               (le_bytes 8 (of_nat ell :: u64) @ le_bytes 8 (of_nat (n_elems v) :: u64)) in
        if \<not> ok then (closed_file room path f fs, aux, Inl RuntimeError)
        else case packRvec ell v aux of Inl e \<Rightarrow> (closed_file room path f fs, aux, Inl e)
        | Inr aux' \<Rightarrow>
          let (f, ok) = fwrite drain room f (p_buf aux') in
          (closed_file room path f fs, aux', if ok then Inr () else Inl RuntimeError))"

definition load :: "nat \<Rightarrow> string \<Rightarrow> rvec \<Rightarrow> rpack \<Rightarrow> files \<Rightarrow> rvec \<times> rpack \<times> unit res" where
  "load ell path v aux fs =
     (case checkExt path ''.mpmtrvp'' of Inl e \<Rightarrow> (v, aux, Inl e)
      | Inr _ \<Rightarrow>
        case fs path of None \<Rightarrow> (v, aux, Inl RuntimeError)
        | Some f \<Rightarrow>
          if length f < 4 \<or> of_le_bytes (take 4 f) \<noteq> FILE_MAGIC then (v, aux, Inl RuntimeError)
          else if length f < 20 then (v, aux, Inl RuntimeError)
          else if (of_le_bytes (take 8 (drop 4 f)) :: u64) \<noteq> of_nat ell
          then (v, aux, Inl RuntimeError)
          else if (of_le_bytes (take 8 (drop 12 f)) :: u64) \<noteq> of_nat (n_elems v)
          then (v, aux, Inl RuntimeError)
          else if length (drop 20 f) \<noteq> length (p_buf aux) then (v, aux, Inl RuntimeError)
          else let aux' = aux\<lparr>p_buf := drop 20 f\<rparr> in
          case unpackRvec ell aux' v of Inl e \<Rightarrow> (v, aux', Inl e)
          | Inr v' \<Rightarrow>
            (if ell = 1
             then case maskPartialLastWord ell v' of Inl e \<Rightarrow> (v', aux', Inl e)
                  | Inr v'' \<Rightarrow> (v'', aux', Inr ())
             else (v', aux', Inr ())))"

section \<open>Sizes\<close>

lemma bytesFor_Inr:
  assumes "bytesFor ell n = Inr k"
  shows "1 \<le> ell" "ell \<le> 8" "n < 2 ^ 61"
    "k = (if ell = 1 then 8 * ((n + 63) div 64) else (n * ell + 7) div 8)"
proof -
  have b: "1 \<le> ell \<and> ell \<le> 8 \<and> n \<le> SIZE_MAX div 8"
    using assms by (auto simp: bytesFor_def split: if_splits)
  then show "1 \<le> ell" "ell \<le> 8" by simp_all
  show n: "n < 2 ^ 61" using b by (simp add: SIZE_MAX_def)
  have "n * ell \<le> n * 8" using b by (intro mult_le_mono2) simp
  moreover from n have "n * 8 + 7 < 2 ^ 64" "n + 63 < 2 ^ 64" by simp_all
  ultimately have m: "n * ell + 7 < 2 ^ 64" "n * ell \<le> SIZE_MAX" "n + 63 < 2 ^ 64"
    unfolding SIZE_MAX_def by linarith+
  have "(n + 63) div 64 * 8 \<le> n + 63" by linarith
  with m have m': "(n + 63) div 64 * 8 < 2 ^ 64" by linarith
  have d: "n \<le> SIZE_MAX div ell" using b m(2) by (simp add: less_eq_div_iff_mult_less_eq)
  have "(n * 8 + 7) div 8 = n" by simp
  with assms b m m' d show "k = (if ell = 1 then 8 * ((n + 63) div 64) else (n * ell + 7) div 8)"
    by (auto simp: bytesFor_def usz_def mult.commute split: if_splits)
qed

definition aux_ok :: "nat \<Rightarrow> nat \<Rightarrow> rpack \<Rightarrow> bool" where
  "aux_ok ell n aux \<longleftrightarrow> p_ell aux = ell \<and> p_n aux = n \<and> bytesFor ell n = Inr (length (p_buf aux))"

lemma rp_new_ok: "rp_new avail ell n = Inr aux \<Longrightarrow> aux_ok ell n aux"
  by (cases "bytesFor ell n") (auto simp: rp_new_def aux_ok_def res_simps)

lemma aux_ok_length:
  assumes "aux_ok ell n aux"
  shows "1 \<le> ell" "ell \<le> 8" "n < 2 ^ 61" "p_ell aux = ell" "p_n aux = n"
    "length (p_buf aux) = (if ell = 1 then 8 * ((n + 63) div 64) else (n * ell + 7) div 8)"
  using assms bytesFor_Inr [of ell n "length (p_buf aux)"] by (auto simp: aux_ok_def)

section \<open>Bytes and words\<close>

lemma take_drop_concat:
  "(\<And>x. length (f x) = m) \<Longrightarrow> i < length xs \<Longrightarrow> take m (drop (m * i) (concat (map f xs))) = f (xs ! i)"
proof (induction xs arbitrary: i)
  case (Cons x xs)
  then show ?case by (cases i) simp_all
qed simp

lemma words_of_bytes:
  "map (\<lambda>i. of_le_bytes (take 8 (drop (8 * i) (concat (map (le_bytes 8) ws))))) [0..<length ws] = ws"
  for ws :: "u64 list"
  using take_drop_concat [of "le_bytes 8 :: u64 \<Rightarrow> byte list" 8 _ ws]
  by (intro nth_equalityI) (simp_all add: of_le_bytes_le_bytes)

lemma length_rv_bytes:
  "rv_ok ell v \<Longrightarrow> length (rv_bytes ell v) = (if ell = 1 then 8 * n_words v else n_elems v)"
  by (erule rv_cases) (simp_all add: rv_bytes_def length_concat o_def sum_list_triv)

lemma bytesSize_ok: "rv_ok ell v \<Longrightarrow> bytesSize ell v = length (rv_bytes ell v)"
  by (simp add: length_rv_bytes, erule rv_cases)
    (simp_all add: bytesSize_def sizeof_word_def usz_def)

section \<open>Round trip\<close>

text \<open>The packed buffer lists the bits of the elements, then zeros up to the last byte.\<close>

lemma kernels_ok:
  assumes "2 \<le> ell" "ell \<le> 7" "n \<le> length src" "length dst = (n * ell + 7) div 8"
  shows "\<exists>buf. pack_kernel ell src n dst = Some (length dst, buf) \<and> length buf = length dst \<and>
    (\<forall>dst'. length dst' = n \<longrightarrow> unpack_kernel ell buf n dst' = Some (map (take_bit ell) (take n src)))"
proof -
  consider "ell = 2" | "ell = 3" | "ell = 4" | "ell = 5" | "ell = 6" | "ell = 7"
    using assms(1,2) by linarith
  then show ?thesis
    using assms c2.roundtrip_all [of n src dst] c3.roundtrip_all [of n src dst]
      c4.roundtrip_all [of n src dst] c5.roundtrip_all [of n src dst]
      c6.roundtrip_all [of n src dst] c7.roundtrip_all [of n src dst]
    by cases (simp_all add: pack_kernel_def unpack_kernel_def)
qed

text \<open>What a packed buffer holds, independently of the kernels.\<close>

definition holds :: "nat \<Rightarrow> rpack \<Rightarrow> rvec \<Rightarrow> bool" where
  "holds ell aux v \<longleftrightarrow> aux_ok ell (n_elems v) aux \<and>
     (\<forall>dst. rv_ok ell dst \<longrightarrow> n_elems dst = n_elems v \<longrightarrow>
        (\<exists>dst'. unpackRvec ell aux dst = Inr dst' \<and> rv_ok ell dst' \<and> canon ell dst' \<and>
           elems ell dst' = elems ell v))"

lemma elems_cong:
  assumes "n_elems u = n_elems v" "ell = 1 \<longrightarrow> d64 u = d64 v"
    "ell \<noteq> 1 \<longrightarrow> ell \<le> 8 \<and> length (d8 u) = n_elems v \<and> length (d8 v) = n_elems v \<and>
      map (take_bit ell) (d8 u) = map (take_bit ell) (d8 v)"
  shows "elems ell u = elems ell v"
proof (rule nth_equalityI)
  fix i assume "i < length (elems ell u)"
  then have i: "i < n_elems v" using assms(1) by simp
  have "elem ell u i = elem ell v i"
  proof (cases "ell = 1")
    case True
    then show ?thesis using assms(2) by (simp add: elem_1)
  next
    case False
    then show ?thesis
      using assms(3) i nth_map [of i "d8 u" "take_bit ell"] nth_map [of i "d8 v" "take_bit ell"]
      by (simp add: elem_byte)
  qed
  then show "elems ell u ! i = elems ell v ! i" using assms(1) i by simp
qed (simp add: assms(1))

text \<open>Everything after the kernel: the bytes are stored, then made canonical.\<close>

lemma stored_ok:
  assumes "rv_ok ell u" "n_elems u = n_elems v" "elems ell u = elems ell v"
  shows "\<exists>u'. canonicalize ell u = Inr u' \<and> rv_ok ell u' \<and> canon ell u' \<and> elems ell u' = elems ell v"
  using canonicalize_ok [OF assms(1)] assms(3) by auto

text \<open>Overwriting a vector with the bytes of another one of its size.\<close>

lemma set_bytes_ok:
  assumes v: "rv_ok ell v" and dst: "rv_ok ell dst" "n_elems dst = n_elems v"
  shows "rv_ok ell (set_bytes ell dst (rv_bytes ell v))"
    "n_elems (set_bytes ell dst (rv_bytes ell v)) = n_elems v"
    "elems ell (set_bytes ell dst (rv_bytes ell v)) = elems ell v"
proof -
  let ?u = "set_bytes ell dst (rv_bytes ell v)"
  have "rv_ok ell ?u \<and> n_elems ?u = n_elems v \<and> elems ell ?u = elems ell v"
  proof (cases "ell = 1")
    case True
    have l: "length (d64 dst) = length (d64 v)"
      using rv_ok_words [OF v True] rv_ok_words [OF dst(1) True] dst(2) by simp
    have u: "?u = dst\<lparr>d64 := d64 v\<rparr>"
      using words_of_bytes [of "d64 v"] True l by (simp add: set_bytes_def rv_bytes_def)
    have "rv_ok ell ?u" unfolding u by (rule rv_ok_update(1) [OF dst(1) True]) (simp add: l)
    moreover have "elems ell ?u = elems ell v"
      unfolding u by (rule elems_cong) (use True dst(2) in simp_all)
    ultimately show ?thesis using dst(2) u by simp
  next
    case False
    then have "length (d8 v) = n_elems v" "length (d8 dst) = n_elems v" "ell \<le> 8"
      using v dst by (auto simp: rv_ok_byte)
    then show ?thesis
      using False dst rv_ok_update(2) [OF dst(1) False, of "d8 v"]
      by (auto simp: set_bytes_def rv_bytes_def intro: elems_cong)
  qed
  then show "rv_ok ell ?u" "n_elems ?u = n_elems v" "elems ell ?u = elems ell v" by simp_all
qed

lemma unpack_copy:
  assumes v: "rv_ok ell v" and aux: "aux_ok ell (n_elems v) aux" and buf: "p_buf aux = rv_bytes ell v"
    and ell: "ell = 1 \<or> ell = 8" and dst: "rv_ok ell dst" "n_elems dst = n_elems v"
  shows "\<exists>dst'. unpackRvec ell aux dst = Inr dst' \<and> rv_ok ell dst' \<and> canon ell dst' \<and>
      elems ell dst' = elems ell v"
proof -
  have len: "length (rv_bytes ell dst) = length (rv_bytes ell v)"
    using v dst by (simp add: length_rv_bytes) (auto simp: rv_ok_def)
  let ?u = "set_bytes ell dst (rv_bytes ell v)"
  note s = stored_ok [OF set_bytes_ok [OF v dst]]
  have p: "p_ell aux = ell" "p_n aux = n_elems dst" using aux dst by (auto simp: aux_ok_def)
  show ?thesis
  proof (cases "bytesSize ell dst > 0")
    case True
    have "unpackRvec ell aux dst = canonicalize ell ?u"
      using True p ell buf len by (auto simp: unpackRvec_def bytesSize_ok [OF dst(1)] ldn_def stn_all)
    with s show ?thesis by simp
  next
    case False
    then have "rv_bytes ell v = []" "rv_bytes ell dst = []"
      using len by (simp_all add: bytesSize_ok [OF dst(1)])
    then have "n_elems v = 0"
      using length_rv_bytes [OF v] rv_ok_words [OF v] words_cover [of "n_elems v"]
      by (simp split: if_splits)
    then have "elems ell dst = elems ell v" using dst by (simp add: elems_def)
    moreover have "unpackRvec ell aux dst = canonicalize ell dst"
      using False p ell by (simp add: unpackRvec_def)
    ultimately show ?thesis using stored_ok [OF dst] by simp
  qed
qed

lemma packRvec_holds:
  assumes v: "rv_ok ell v" and aux: "aux_ok ell (n_elems v) aux"
  shows "\<exists>aux'. packRvec ell v aux = Inr aux' \<and> holds ell aux' v \<and> length (p_buf aux') = length (p_buf aux)"
proof (cases "ell = 1 \<or> ell = 8")
  case ell: True
  note a = aux_ok_length [OF aux]
  have len: "length (p_buf aux) = length (rv_bytes ell v)"
    using ell a v rv_ok_words [OF v] by (auto simp: length_rv_bytes)
  let ?aux = "aux\<lparr>p_buf := rv_bytes ell v\<rparr>"
  have "packRvec ell v aux = Inr ?aux"
  proof (cases "rv_bytes ell v = []")
    case True
    then have "p_buf aux = []" "bytesSize ell v = 0" using len by (simp_all add: bytesSize_ok [OF v])
    then show ?thesis using True ell a(4,5) by (simp add: packRvec_def)
  next
    case False
    have "ldn (rv_bytes ell v) 0 (bytesSize ell v) = Some (rv_bytes ell v)"
      by (simp add: bytesSize_ok [OF v] ldn_def)
    moreover have "stn (p_buf aux) 0 (rv_bytes ell v) = Some (rv_bytes ell v)"
      using len by (intro stn_all) simp
    ultimately show ?thesis using False ell a(4,5)
      by (simp add: packRvec_def bytesSize_ok [OF v])
  qed
  moreover have "aux_ok ell (n_elems v) ?aux" using aux len by (simp add: aux_ok_def)
  ultimately show ?thesis using unpack_copy [OF v _ _ ell] len by (auto simp: holds_def)
next
  case False
  note a = aux_ok_length [OF aux]
  have e: "2 \<le> ell" "ell \<le> 7" "ell \<noteq> 1" using False a by simp_all
  have l: "length (d8 v) = n_elems v" "rv_bytes ell v = d8 v"
    using v e by (auto simp: rv_ok_byte rv_bytes_def)
  obtain buf where buf: "pack_kernel ell (d8 v) (n_elems v) (p_buf aux) = Some (length (p_buf aux), buf)"
    "length buf = length (p_buf aux)"
    "\<And>dst'. length dst' = n_elems v \<Longrightarrow> unpack_kernel ell buf (n_elems v) dst' = Some (map (take_bit ell) (d8 v))"
    using kernels_ok [OF e(1,2), of "n_elems v" "d8 v" "p_buf aux"] a(6) e l by auto
  let ?aux = "aux\<lparr>p_buf := buf\<rparr>"
  have "\<exists>dst'. unpackRvec ell ?aux dst = Inr dst' \<and> rv_ok ell dst' \<and> canon ell dst' \<and>
      elems ell dst' = elems ell v" if dst: "rv_ok ell dst" "n_elems dst = n_elems v" for dst
  proof -
    let ?u = "dst\<lparr>d8 := map (take_bit ell) (d8 v)\<rparr>"
    have d: "length (d8 dst) = n_elems v" "rv_bytes ell dst = d8 dst"
      using dst e by (auto simp: rv_ok_byte rv_bytes_def)
    have "rv_ok ell ?u" using rv_ok_update(2) [OF dst(1) e(3)] l d by simp
    moreover have "elems ell ?u = elems ell v"
      by (rule elems_cong) (use dst e l in \<open>auto simp: o_def\<close>)
    moreover have "unpackRvec ell ?aux dst = canonicalize ell ?u"
      using False a dst e d buf(3) [of "d8 dst"] by (simp add: unpackRvec_def set_bytes_def)
    ultimately show ?thesis using stored_ok [of ell ?u v] dst by simp
  qed
  moreover have "packRvec ell v aux = Inr ?aux" using False a l buf(1) by (simp add: packRvec_def)
  moreover have "aux_ok ell (n_elems v) ?aux" using aux buf(2) by (simp add: aux_ok_def)
  ultimately show ?thesis using buf(2) by (auto simp: holds_def)
qed

section \<open>Saving and loading\<close>

definition file_of :: "nat \<Rightarrow> nat \<Rightarrow> byte list \<Rightarrow> byte list" where
  "file_of ell n buf =
     le_bytes 4 FILE_MAGIC @ le_bytes 8 (of_nat ell :: u64) @ le_bytes 8 (of_nat n :: u64) @ buf"

text \<open>A stream holds what was written to it so far, and its file is what of that has room.\<close>

definition stream_ok :: "nat \<Rightarrow> byte list \<Rightarrow> ostream \<Rightarrow> bool" where
  "stream_ok room bs f \<longleftrightarrow> in_file f @ in_buffer f = bs \<and> length (in_file f) \<le> room"

lemma stream_new_ok: "stream_ok room [] stream_new"
  by (simp add: stream_ok_def stream_new_def)

lemma closed_stream: "stream_ok room bs f \<Longrightarrow> closed_file room path f fs = fs(path := Some (take room bs))"
  by (auto simp: stream_ok_def closed_file_def fclose_def)

lemma fwrite_stream:
  assumes "stream_ok room bs f" "fwrite drain room f xs = (g, ok)"
  shows "stream_ok room (bs @ xs) g" "\<not> ok \<Longrightarrow> room < length (bs @ xs) \<and> length (in_file g) = room"
    "(\<And>a n. n \<le> drain a n) \<Longrightarrow> ok \<Longrightarrow> length (bs @ xs) \<le> room" "(\<And>a n. drain a n = 0) \<Longrightarrow> ok"
proof -
  let ?h = "in_buffer f @ xs"
  let ?k = "min (drain (length (in_file f)) (length ?h)) (length ?h)"
  let ?j = "min ?k (room - length (in_file f))"
  have f: "in_file f @ in_buffer f = bs" "length (in_file f) \<le> room" using assms(1) by (simp_all add: stream_ok_def)
  have g: "g = \<lparr>in_file = in_file f @ take ?j ?h, in_buffer = drop ?j ?h\<rparr>" "ok = (?j = ?k)"
    using assms(2) unfolding fwrite_def Let_def by blast+
  have all: "in_file f @ ?h = bs @ xs" using f(1) by (metis append.assoc)
  have len: "length (in_file f) + length ?h = length (bs @ xs)" unfolding all [symmetric] by simp
  show "stream_ok room (bs @ xs) g" unfolding g(1) stream_ok_def all [symmetric] using f(2)
    by (simp only: ostream.select_convs append.assoc append_take_drop_id length_append length_take) simp
  { assume "\<not> ok"
    then have "room - length (in_file f) < ?k" unfolding g(2) by linarith
    moreover have "length (in_file g) = length (in_file f) + min (length ?h) ?j"
      unfolding g(1) by (simp only: ostream.select_convs length_append length_take)
    ultimately show "room < length (bs @ xs) \<and> length (in_file g) = room" unfolding len [symmetric] using f(2) by linarith }
  { assume full: "\<And>a n. n \<le> drain a n" and ok
    from full have "?k = length ?h" by (simp add: min_absorb2)
    with \<open>ok\<close> have "length ?h \<le> room - length (in_file f)" unfolding g(2) by linarith
    then show "length (bs @ xs) \<le> room" unfolding len [symmetric] using f(2) by linarith }
  { assume "\<And>a n. drain a n = 0"
    then show ok unfolding g(2) by simp }
qed

text \<open>What \<open>save\<close> leaves on the device: the file, cut where the device was full. That it was cut shows in the
  result only if the library had to write the bytes in question before the end.\<close>

lemma save_file:
  assumes v: "rv_ok ell v" "aux_ok ell (n_elems v) aux"
    and path: "checkExt path ''.mpmtrvp'' = Inr ()" "openable path"
  shows "\<exists>aux' aux'' r. packRvec ell v aux = Inr aux' \<and> holds ell aux' v \<and>
    length (p_buf aux') = length (p_buf aux) \<and>
    save ell openable drain room path v aux fs =
      (fs(path := Some (take room (file_of ell (n_elems v) (p_buf aux')))), aux'', r) \<and>
    r \<in> {Inr (), Inl RuntimeError} \<and> (20 + length (p_buf aux) \<le> room \<longrightarrow> r = Inr () \<and> aux'' = aux') \<and>
    ((\<forall>a n. n \<le> drain a n) \<longrightarrow> r = Inr () \<longrightarrow> 20 + length (p_buf aux) \<le> room) \<and> ((\<forall>a n. drain a n = 0) \<longrightarrow> r = Inr ())"
proof -
  obtain aux' where aux': "packRvec ell v aux = Inr aux'" "holds ell aux' v"
    "length (p_buf aux') = length (p_buf aux)"
    using packRvec_holds [OF v] by blast
  let ?M = "le_bytes 4 FILE_MAGIC" and ?H = "le_bytes 8 (of_nat ell :: u64) @ le_bytes 8 (of_nat (n_elems v) :: u64)"
  let ?F = "file_of ell (n_elems v) (p_buf aux')"
  have F: "?F = (([] @ ?M) @ ?H) @ p_buf aux'" by (simp add: file_of_def)
  obtain f1 ok1 where 1: "fwrite drain room stream_new ?M = (f1, ok1)" by fastforce
  obtain f2 ok2 where 2: "fwrite drain room f1 ?H = (f2, ok2)" by fastforce
  obtain f3 ok3 where 3: "fwrite drain room f2 (p_buf aux') = (f3, ok3)" by fastforce
  note s1 = fwrite_stream [OF stream_new_ok 1]
  note s2 = fwrite_stream [OF s1(1) 2]
  note s3 = fwrite_stream [OF s2(1) 3]
  have cut: "fs(path := Some (take room bs)) = fs(path := Some (take room (bs @ cs)))" if "room < length bs" for bs cs :: "byte list"
    using that by simp
  have len: "length ?F = 20 + length (p_buf aux)" by (simp add: file_of_def aux'(3))
  note w = 1 2 3
  let ?r = "\<lambda>r. r \<in> {Inr (), Inl RuntimeError :: unit res}"
  consider "\<not> ok1" | "ok1" "\<not> ok2" | "ok1" "ok2" by blast
  then have "\<exists>aux'' r. save ell openable drain room path v aux fs = (fs(path := Some (take room ?F)), aux'', r) \<and> ?r r \<and>
      (20 + length (p_buf aux) \<le> room \<longrightarrow> r = Inr () \<and> aux'' = aux') \<and>
      ((\<forall>a n. n \<le> drain a n) \<longrightarrow> r = Inr () \<longrightarrow> 20 + length (p_buf aux) \<le> room) \<and> ((\<forall>a n. drain a n = 0) \<longrightarrow> r = Inr ())"
  proof cases
    case 1
    then have full: "room < length ([] @ ?M)" using s1(2) by blast
    have "save ell openable drain room path v aux fs = (fs(path := Some (take room ([] @ ?M))), aux, Inl RuntimeError)"
      unfolding closed_stream [OF s1(1), symmetric] using 1 w(1) path by (simp add: save_def)
    then have "save ell openable drain room path v aux fs = (fs(path := Some (take room ?F)), aux, Inl RuntimeError)"
      using cut [OF full, of "?H @ p_buf aux'"] unfolding F append.assoc by simp
    moreover have "\<not> (\<forall>a n. drain a n = 0)" using s1(4) 1 by blast
    ultimately show ?thesis using full len by auto
  next
    case 2
    then have full: "room < length (([] @ ?M) @ ?H)" using s2(2) by blast
    have "save ell openable drain room path v aux fs = (fs(path := Some (take room (([] @ ?M) @ ?H))), aux, Inl RuntimeError)"
      unfolding closed_stream [OF s2(1), symmetric] using 2 w(1,2) path by (simp add: save_def)
    then have "save ell openable drain room path v aux fs = (fs(path := Some (take room ?F)), aux, Inl RuntimeError)"
      using cut [OF full, of "p_buf aux'"] unfolding F by simp
    moreover have "\<not> (\<forall>a n. drain a n = 0)" using s2(4) 2 by blast
    ultimately show ?thesis using full len by auto
  next
    case 3
    then have "save ell openable drain room path v aux fs = (fs(path := Some (take room ?F)), aux', if ok3 then Inr () else Inl RuntimeError)"
      unfolding F closed_stream [OF s3(1), symmetric] using w path aux'(1) by (simp add: save_def)
    then show ?thesis using s3(2-4) len unfolding F [symmetric] by auto
  qed
  with aux' show ?thesis by blast
qed

lemma header_fields:
  assumes "f = file_of ell n buf"
  shows "length f = 20 + length buf" "of_le_bytes (take 4 f) = FILE_MAGIC"
    "(of_le_bytes (take 8 (drop 4 f)) :: u64) = of_nat ell"
    "(of_le_bytes (take 8 (drop 12 f)) :: u64) = of_nat n" "drop 20 f = buf"
  using assms by (simp_all add: file_of_def of_le_bytes_le_bytes)

lemma load_whole:
  assumes h: "holds ell aux v" and dst: "rv_ok ell dst" "n_elems dst = n_elems v"
    and aux2: "aux_ok ell (n_elems v) aux2" and path: "checkExt path ''.mpmtrvp'' = Inr ()"
    and f: "fs path = Some (file_of ell (n_elems v) (p_buf aux))"
  shows "\<exists>dst'. load ell path dst aux2 fs = (dst', aux, Inr ()) \<and> rv_ok ell dst' \<and> canon ell dst' \<and>
    elems ell dst' = elems ell v"
proof -
  have len: "length (p_buf aux) = length (p_buf aux2)"
    using h aux2 by (auto simp: holds_def aux_ok_def)
  have aux: "aux2\<lparr>p_buf := p_buf aux\<rparr> = aux"
    using h aux2 by (auto simp: holds_def aux_ok_def)
  obtain d where d: "unpackRvec ell aux dst = Inr d" "rv_ok ell d" "canon ell d"
    "elems ell d = elems ell v"
    using h dst by (auto simp: holds_def)
  obtain d' where d': "maskPartialLastWord ell d = Inr d'" "rv_ok ell d'" "elems ell d' = elems ell d"
    "ell = 1 \<longrightarrow> canon ell d'" using maskPartialLastWord_ok [OF d(2)] by blast
  have "load ell path dst aux2 fs = (if ell = 1 then d' else d, aux, Inr ())"
    using path f dst d d' header_fields [OF refl, of ell "n_elems v" "p_buf aux"] len aux
    by (auto simp: load_def)
  with d d' show ?thesis by auto
qed

lemma load_cut:
  assumes "fs path = Some (take room (file_of ell n buf))" "room < 20 + length buf"
    "length (p_buf aux2) = length buf"
  shows "load ell path dst aux2 fs = (dst, aux2, Inl RuntimeError)"
proof (cases "checkExt path ''.mpmtrvp''")
  case (Inl e)
  then show ?thesis by (auto simp: load_def checkExt_def throw_if_def split: if_splits)
next
  case (Inr u)
  have "length (take room (file_of ell n buf)) = min room (20 + length buf)"
    by (simp add: header_fields)
  then show ?thesis using assms Inr by (auto simp: load_def)
qed

end
