(* ===== verification/Vector_Theorems.thy ===== *)
theory Vector_Theorems
  imports Rvector_Ops Rvector_Pack
begin

text \<open>
  What the vector class promises, on the abstract content of its objects. Each statement is
  followed by an instance on concrete vectors.
\<close>

lemma map2_elems:
  "n_elems u = n_elems v \<Longrightarrow>
     map2 f (elems ell u) (elems ell v) = map (\<lambda>i. f (elem ell u i) (elem ell v i)) [0..<n_elems v]"
  by (rule nth_equalityI) auto

lemma map_elems: "map f (elems ell u) = map (\<lambda>i. f (elem ell u i)) [0..<n_elems u]"
  by (simp add: elems_def)

text \<open>\<open>returns ell out st xs r\<close>: the operation succeeds, only \<open>out\<close> changes, and it becomes a
  well-formed vector in canonical form with content \<open>xs\<close>.\<close>

definition returns :: "nat \<Rightarrow> nat \<Rightarrow> store \<Rightarrow> byte list \<Rightarrow> store res \<Rightarrow> bool" where
  "returns ell out st xs r \<longleftrightarrow>
     (\<exists>st'. r = Inr st' \<and> (\<forall>r. r \<noteq> out \<longrightarrow> st' r = st r) \<and>
        rv_ok ell (st' out) \<and> canon ell (st' out) \<and> elems ell (st' out) = xs)"

lemma returnsI:
  assumes "\<exists>st'. r = Inr st' \<and> canon ell (st' out) \<and> writes ell out st f st'"
    and "map f [0..<n_elems (st out)] = xs"
  shows "returns ell out st xs r"
  using assms by (auto simp: writes_def returns_def)

section \<open>Element-wise arithmetic\<close>

text \<open>C23: Element-wise addition, subtraction and product of two vectors of one length succeed
  whichever of the three references coincide, change the output vector only, leave it in
  canonical form, and compute the ring operation on every pair of elements.\<close>

theorem vector_arithmetic:
  assumes "rv_ok ell (st a)" "rv_ok ell (st b)" "rv_ok ell (st out)"
    and "n_elems (st a) = n_elems (st out)" "n_elems (st b) = n_elems (st out)"
  shows "returns ell out st (map2 (ringAdd8 ell) (elems ell (st a)) (elems ell (st b)))
      (rv_add ell a b out st) \<and>
    returns ell out st (map2 (ringSub8 ell) (elems ell (st a)) (elems ell (st b)))
      (rv_sub ell a b out st) \<and>
    returns ell out st (map2 (ringMul8 ell) (elems ell (st a)) (elems ell (st b)))
      (rv_hadamard ell a b out st)"
proof -
  have sh: "same_shape ell st a out" "same_shape ell st b out"
    using assms by (simp_all add: same_shape_def)
  have m: "map (\<lambda>i. f (elem ell (st a) i) (elem ell (st b) i)) [0..<n_elems (st out)] =
      map2 f (elems ell (st a)) (elems ell (st b))" for f
    by (simp add: map2_elems assms(4,5))
  show ?thesis
    using returnsI [OF rv_add_ok [OF sh] m] returnsI [OF rv_sub_ok [OF sh] m]
      returnsI [OF rv_hadamard_ok [OF sh] m] by blast
qed

text \<open>Vectors for the instances: three bits, and three 3-bit elements.\<close>

definition bits3 :: rvec where
  "bits3 = \<lparr>n_elems = 3, n_words = 1, d64 = [5], d8 = []\<rparr>"

definition trits3 :: rvec where
  "trits3 = \<lparr>n_elems = 3, n_words = 3, d64 = [], d8 = [1, 7, 4]\<rparr>"

lemma bits3_ok: "rv_ok 1 bits3" "n_elems bits3 = 3"
  and trits3_ok: "rv_ok 3 trits3" "n_elems trits3 = 3"
  by (simp_all add: rv_ok_def bits3_def trits3_def wordsFor_def ELEMS_PER_WORD_def usz_def)

lemma two: "replicate 2 (0 :: byte) = [0, 0]"
  by (simp add: numeral_2_eq_2)

lemma trits3_elems: "elems 3 trits3 = [1, 7, 4]"
  by (simp add: elems_def elem_def trits3_def upt_numerals RING_MASK8_def)

theorem vector_arithmetic_witness:
  "returns 3 0 (\<lambda>_. trits3) [2, 6, 0] (rv_add 3 0 0 0 (\<lambda>_. trits3))"
  using vector_arithmetic [of 3 "\<lambda>_. trits3" 0 0 0] trits3_ok
  by (simp add: trits3_elems ringAdd8_def RING_MASK8_def)

text \<open>The same for the operations with a scalar, whose operand must be a ring element.\<close>

theorem scalar_arithmetic:
  assumes "rv_ok ell (st a)" "rv_ok ell (st out)" "n_elems (st a) = n_elems (st out)"
    and "take_bit ell s = s"
  shows "returns ell out st (map (\<lambda>x. ringAdd8 ell x s) (elems ell (st a))) (rv_addScalar ell a s out st) \<and>
    returns ell out st (map (\<lambda>x. ringSub8 ell x s) (elems ell (st a))) (rv_subScalar ell a s out st) \<and>
    returns ell out st (map (\<lambda>x. ringMul8 ell x s) (elems ell (st a))) (rv_mulScalar ell a s out st)"
proof -
  have sh: "same_shape ell st a out" using assms by (simp add: same_shape_def)
  have m: "map (\<lambda>i. f (elem ell (st a) i)) [0..<n_elems (st out)] = map f (elems ell (st a))" for f
    by (simp add: map_elems assms(3))
  note ok = rv_scalar_ok [OF sh assms(4)]
  show ?thesis
    using returnsI [OF ok(1) m] returnsI [OF ok(2) m] returnsI [OF ok(3) m] by blast
qed

theorem scalar_arithmetic_witness:
  "returns 3 1 (\<lambda>_. trits3) [7, 5, 2] (rv_addScalar 3 0 6 1 (\<lambda>_. trits3))"
  using scalar_arithmetic [of 3 "\<lambda>_. trits3" 0 1 6] trits3_ok
  by (simp add: trits3_elems ringAdd8_def RING_MASK8_def)

section \<open>Packing and files\<close>

text \<open>C24: A vector packed into a buffer of its width and length and unpacked into any vector of
  that length arrives unchanged, for every width and every length (hence every combination of
  SIMD blocks, groups and tails); no access leaves a buffer, and the buffer has
  \<open>(n * ell + 7) div 8\<close> bytes, whole 64-bit words for \<open>ell = 1\<close>.\<close>

theorem pack_roundtrip:
  assumes "rv_ok ell v" "rp_new avail ell (n_elems v) = Inr aux"
    and "rv_ok ell dst" "n_elems dst = n_elems v"
  shows "\<exists>aux' dst'. packRvec ell v aux = Inr aux' \<and> unpackRvec ell aux' dst = Inr dst' \<and>
    rv_ok ell dst' \<and> canon ell dst' \<and> elems ell dst' = elems ell v \<and>
    length (p_buf aux') =
      (if ell = 1 then 8 * ((n_elems v + 63) div 64) else (n_elems v * ell + 7) div 8)"
  using packRvec_holds [OF assms(1) rp_new_ok [OF assms(2)]] assms(3,4)
    aux_ok_length(6) [OF rp_new_ok [OF assms(2)]]
  by (auto simp: holds_def)

definition pack3_buf :: rpack where "pack3_buf = \<lparr>p_ell = 3, p_n = 3, p_buf = [0, 0]\<rparr>"

lemma pack3_buf_new: "rp_new (\<lambda>_. True) 3 (n_elems trits3) = Inr pack3_buf"
  by (simp add: rp_new_def bytesFor_def trits3_ok SIZE_MAX_def usz_def throw_if_def
      aligned_allocate_def Let_def two pack3_buf_def)

theorem pack_roundtrip_witness:
  "\<exists>aux' dst'. packRvec 3 trits3 pack3_buf = Inr aux' \<and>
    unpackRvec 3 aux' trits3 = Inr dst' \<and> elems 3 dst' = [1, 7, 4]"
  using pack_roundtrip [OF trits3_ok(1) pack3_buf_new trits3_ok(1) refl]
  by (auto simp: trits3_elems)

text \<open>C28: If the device has room for the file, \<open>save\<close> returns and the file loads into any vector of the same width
  and length, and gives the saved elements, whenever the C library writes its buffer out. If it has not, the file left
  behind is cut, and \<open>load\<close> refuses it and leaves the vector and its buffer as they were; but only a library
  that writes at once lets \<open>save\<close> throw then: one that keeps the bytes until the stream is closed lets it
  return as if the file were complete.\<close>

theorem save_load:
  assumes "rv_ok ell v" "rp_new avail ell (n_elems v) = Inr aux"
    and "checkExt path ''.mpmtrvp'' = Inr ()" "openable path"
    and "save ell openable drain room path v aux fs = (fs', aux', r)"
    and "rv_ok ell dst" "n_elems dst = n_elems v" "rp_new avail' ell (n_elems v) = Inr aux2"
  shows "if 20 + length (p_buf aux) \<le> room
    then r = Inr () \<and> (\<exists>dst' aux2'. load ell path dst aux2 fs' = (dst', aux2', Inr ()) \<and> rv_ok ell dst' \<and>
      canon ell dst' \<and> elems ell dst' = elems ell v)
    else load ell path dst aux2 fs' = (dst, aux2, Inl RuntimeError) \<and> r \<in> {Inr (), Inl RuntimeError} \<and>
      ((\<forall>a n. n \<le> drain a n) \<longrightarrow> r = Inl RuntimeError) \<and> ((\<forall>a n. drain a n = 0) \<longrightarrow> r = Inr ())"
proof -
  note aux = rp_new_ok [OF assms(2)] and aux2 = rp_new_ok [OF assms(8)]
  obtain a b q where s: "holds ell a v" "length (p_buf a) = length (p_buf aux)"
    "save ell openable drain room path v aux fs = (fs(path := Some (take room (file_of ell (n_elems v) (p_buf a)))), b, q)"
    "q \<in> {Inr (), Inl RuntimeError}" "20 + length (p_buf aux) \<le> room \<longrightarrow> q = Inr ()"
    "(\<forall>a n. n \<le> drain a n) \<longrightarrow> q = Inr () \<longrightarrow> 20 + length (p_buf aux) \<le> room" "(\<forall>a n. drain a n = 0) \<longrightarrow> q = Inr ()"
    using save_file [where openable = openable and room = room and drain = drain and fs = fs, OF assms(1) aux assms(3,4)] by blast
  have r: "fs' path = Some (take room (file_of ell (n_elems v) (p_buf a)))" "q = r" using s(3) assms(5) by auto
  show ?thesis
  proof (cases "20 + length (p_buf aux) \<le> room")
    case True
    then have "fs' path = Some (file_of ell (n_elems v) (p_buf a))" using r(1) s(2) by (simp add: header_fields)
    from load_whole [where fs = fs', OF s(1) assms(6,7) aux2 assms(3) this] show ?thesis using True s(5) r(2) by auto
  next
    case False
    have "load ell path dst aux2 fs' = (dst, aux2, Inl RuntimeError)"
      using load_cut [where fs = fs' and path = path, OF r(1)] False s(2) aux aux2 by (simp add: aux_ok_def)
    then show ?thesis using False s(4,6,7) r(2) by auto
  qed
qed

lemma mpmt_path: "checkExt ''v.mpmtrvp'' ''.mpmtrvp'' = Inr ()"
  by (simp add: checkExt_def)

text \<open>A library with a buffer of 16 bytes, on a device with room and on a full one.\<close>

abbreviation "buffer16 \<equiv> (\<lambda>_ n. if n < 16 then 0 else n)"

theorem save_load_witness:
  "(\<exists>fs' aux' dst' aux2'. save 3 (\<lambda>_. True) buffer16 100 ''v.mpmtrvp'' trits3 pack3_buf (\<lambda>_. None) = (fs', aux', Inr ()) \<and>
    load 3 ''v.mpmtrvp'' trits3 pack3_buf fs' = (dst', aux2', Inr ()) \<and> elems 3 dst' = [1, 7, 4]) \<and>
   (\<exists>fs' aux'. save 3 (\<lambda>_. True) (\<lambda>_ _. 0) 21 ''v.mpmtrvp'' trits3 pack3_buf (\<lambda>_. None) = (fs', aux', Inr ()) \<and>
    load 3 ''v.mpmtrvp'' trits3 pack3_buf fs' = (trits3, pack3_buf, Inl RuntimeError))"
proof
  obtain fs1 aux1 r1 where s1: "save 3 (\<lambda>_. True) buffer16 100 ''v.mpmtrvp'' trits3 pack3_buf (\<lambda>_. None) = (fs1, aux1, r1)" using prod_cases3 by blast
  from save_load [OF trits3_ok(1) pack3_buf_new mpmt_path _ s1 trits3_ok(1) refl pack3_buf_new] s1
  show "\<exists>fs' aux' dst' aux2'. save 3 (\<lambda>_. True) buffer16 100 ''v.mpmtrvp'' trits3 pack3_buf (\<lambda>_. None) = (fs', aux', Inr ()) \<and>
    load 3 ''v.mpmtrvp'' trits3 pack3_buf fs' = (dst', aux2', Inr ()) \<and> elems 3 dst' = [1, 7, 4]"
    by (auto simp: trits3_elems pack3_buf_def)
  obtain fs2 aux2 r2 where s2: "save 3 (\<lambda>_. True) (\<lambda>_ _. 0) 21 ''v.mpmtrvp'' trits3 pack3_buf (\<lambda>_. None) = (fs2, aux2, r2)" using prod_cases3 by blast
  from save_load [OF trits3_ok(1) pack3_buf_new mpmt_path _ s2 trits3_ok(1) refl pack3_buf_new] s2
  show "\<exists>fs' aux'. save 3 (\<lambda>_. True) (\<lambda>_ _. 0) 21 ''v.mpmtrvp'' trits3 pack3_buf (\<lambda>_. None) = (fs', aux', Inr ()) \<and>
    load 3 ''v.mpmtrvp'' trits3 pack3_buf fs' = (trits3, pack3_buf, Inl RuntimeError)"
    by (auto simp: pack3_buf_def)
qed

section \<open>Construction and element access\<close>

text \<open>Constructing a vector of up to \<open>2^64 - 64\<close> elements either fails with
  \<open>bad_alloc\<close> or gives a well-formed vector of that length.\<close>

theorem construction:
  assumes "1 \<le> ell" "ell \<le> 8" "n + 63 < 2 ^ 64"
  shows "rv_new ell heap n = Inl BadAlloc \<or>
    (\<exists>v. rv_new ell heap n = Inr v \<and> rv_ok ell v \<and> rv_size v = n)"
  using rv_new_cases [OF assms] by (auto simp: rv_size_def)

theorem construction_witness:
  "\<exists>v. rv_new 1 (\<lambda>_. Some (\<lambda>_. 0)) 70 = Inr v \<and> rv_ok 1 v \<and> rv_size v = 70"
proof -
  have "rv_new 1 (\<lambda>_. Some (\<lambda>_. 0)) 70 \<noteq> Inl BadAlloc"
    by (simp add: rv_new_def allocData_def wordsFor_def ELEMS_PER_WORD_def alloc_bytes_def
        sizeof_word_def usz_def Let_def rv_default_def)
  with construction [of 1 70 "\<lambda>_. Some (\<lambda>_. 0)"] show ?thesis by simp
qed

text \<open>Just beyond that bound the word count of a bit vector wraps around to zero: the
  constructor succeeds without allocating and the first read leaves the object.\<close>

theorem construction_wraps:
  "\<exists>v. rv_new 1 heap SIZE_MAX = Inr v \<and> rv_size v = SIZE_MAX \<and> rv_words v = 0 \<and>
    rv_get 1 v 0 = Inl MemFault"
  by (simp add: rv_new_def allocData_def wordsFor_def ELEMS_PER_WORD_def usz_def SIZE_MAX_def
      rv_default_def rv_size_def rv_words_def rv_get_def rd_def)

text \<open>Reading after a write gives the written element at its index and the old element
  everywhere else; an index out of range and a value outside the ring are rejected.\<close>

theorem element_access:
  assumes "rv_ok ell v" "j < rv_size v"
  shows "(i < rv_size v \<and> take_bit ell x = x \<longrightarrow>
      rbind (rv_set ell v i x) (\<lambda>v'. rv_get ell v' j) = (if j = i then Inr x else rv_get ell v j)) \<and>
    (i \<ge> rv_size v \<longrightarrow> rv_set ell v i x = Inl OutOfRange \<and> rv_get ell v i = Inl OutOfRange) \<and>
    (i < rv_size v \<and> take_bit ell x \<noteq> x \<longrightarrow> rv_set ell v i x = Inl InvalidArgument)"
  using rv.get_set [OF assms(1), of i x j] assms(2) rv_ok_ell [OF assms(1)]
  by (auto simp: rv_size_def rv_set_def rv_get_def checkRing_iff)

theorem element_access_witness:
  "rbind (rv_set 3 trits3 2 6) (\<lambda>v'. rv_get 3 v' 2) = Inr 6 \<and>
   rv_set 3 trits3 3 6 = Inl OutOfRange \<and> rv_set 3 trits3 0 8 = Inl InvalidArgument"
  using element_access [of 3 trits3 2 2 6] element_access [of 3 trits3 2 3 6]
    element_access [of 3 trits3 2 0 8] trits3_ok
  by (simp add: rv_size_def)

text \<open>\<open>batchSet\<close> writes the value at every listed index and nowhere else; the first index
  out of range stops it with an exception.\<close>

theorem batch_set:
  assumes "rv_ok ell v" "take_bit ell x = x" "\<forall>i\<in>set is. i < rv_size v"
  shows "(\<exists>v'. batchSet ell is x v = Inr v' \<and> rv_ok ell v' \<and>
      elems ell v' = map (\<lambda>k. if k \<in> set is then x else elems ell v ! k) [0..<rv_size v]) \<and>
    (\<forall>j js. rv_size v \<le> j \<longrightarrow> batchSet ell (is @ j # js) x v = Inl OutOfRange)"
  using batchSet_ok [OF assms(1,2)] batchSet_out [OF assms(1,2)] assms(3) by (simp add: rv_size_def)

theorem batch_set_witness:
  "\<exists>v'. batchSet 3 [0, 2, 0] 5 trits3 = Inr v' \<and> elems 3 v' = [5, 7, 5]"
  using batch_set [OF trits3_ok(1), of 5 "[0, 2, 0]"] trits3_ok(2)
  by (auto simp: rv_size_def trits3_elems upt_numerals)

text \<open>\<open>batchGet\<close> copies the listed elements, in order and with repetitions, to the front of
  the output and leaves the rest of the output alone.\<close>

theorem batch_get:
  assumes "rv_ok ell v" "rv_ok ell out" "length is \<le> rv_size out" "\<forall>i\<in>set is. i < rv_size v"
  shows "\<exists>out'. batchGet ell False v is out = Inr out' \<and> rv_ok ell out' \<and>
    elems ell out' = map ((!) (elems ell v)) is @ drop (length is) (elems ell out)"
  using batchGet_ok [OF assms(1,2)] assms(3,4) by (simp add: rv_size_def)

theorem batch_get_witness:
  "\<exists>out'. batchGet 3 False trits3 [2, 2] trits3 = Inr out' \<and> elems 3 out' = [4, 4, 4]"
  using batch_get [OF trits3_ok(1) trits3_ok(1), of "[2, 2]"] trits3_ok(2)
  by (auto simp: rv_size_def trits3_elems)

section \<open>Horizontal sums\<close>

text \<open>\<open>reduce\<close> is the sum of the elements and \<open>dot\<close> the sum of the products modulo
  \<open>2^ell\<close>, for every length (whole 32-byte blocks and the rest, or population counts), once the
  padding bits are clear.\<close>

theorem horizontal_sums:
  assumes "rv_ok ell a" "rv_ok ell b" "rv_size a = rv_size b" "canon ell a"
  shows "(\<exists>r. reduce ell a = Inr r \<and> uint r = (\<Sum>x\<leftarrow>elems ell a. uint x) mod 2 ^ ell) \<and>
    (\<exists>r. dot ell a b = Inr r \<and>
      uint r = (\<Sum>i\<leftarrow>[0..<rv_size a]. uint (elems ell a ! i) * uint (elems ell b ! i)) mod 2 ^ ell)"
proof -
  have "(\<Sum>i\<leftarrow>[0..<n_elems a]. uint (elems ell a ! i) * uint (elems ell b ! i)) =
      (\<Sum>i\<leftarrow>[0..<n_elems a]. uint (elem ell a i) * uint (elem ell b i))"
    using assms(3) by (intro arg_cong [of _ _ sum_list] map_cong) (auto simp: rv_size_def)
  moreover have "\<exists>r. dot ell a b = Inr r \<and>
      uint r = (\<Sum>i\<leftarrow>[0..<n_elems a]. uint (elem ell a i) * uint (elem ell b i)) mod 2 ^ ell"
    using dot_bits [OF assms(1) _ assms(2)] dot_bytes [OF assms(1) _ assms(2)] assms(3,4)
    by (cases "ell = 1") (simp_all add: rv_size_def)
  moreover have "\<exists>r. reduce ell a = Inr r \<and> uint r = (\<Sum>x\<leftarrow>elems ell a. uint x) mod 2 ^ ell"
    by (rule reduce_ok [OF assms(1)]) (use assms(4) in auto)
  ultimately show ?thesis by (simp add: rv_size_def)
qed

theorem horizontal_sums_witness:
  "(\<exists>r. reduce 3 trits3 = Inr r \<and> uint r = 4) \<and> (\<exists>r. dot 3 trits3 trits3 = Inr r \<and> uint r = 2)"
  using horizontal_sums [OF trits3_ok(1) trits3_ok(1) refl] trits3_ok(2)
  by (simp add: rv_size_def trits3_elems upt_numerals canon_def) (simp add: trits3_def)

end
