(* ===== verification/Dpf.thy ===== *)
theory Dpf
  imports Ring Intrinsics
begin

text \<open>
  The two-party distributed point function of \<^verbatim>\<open>include/ref_impl/dpf/bgi16.hpp\<close>: keys, the
  operations on 128-bit states, and the dealer's key generation. \<open>ELL_IN\<close> and \<open>ELL_OUT\<close> are
  arguments. The hash \<^verbatim>\<open>emp::CCRH\<close> is the parameter \<open>ccrh\<close> (key, then input); the results of
  the random number generator are arguments.
\<close>

section \<open>Keys and states\<close>

datatype dpf_pid = DEALER | EVALUATOR_0 | EVALUATOR_1

record dpf_key =
  stOrigin :: block
  cws :: "(block \<times> block) list"
  cwLast :: u64
  keyL :: "byte list"
  keyR :: "byte list"

definition STDMASK_F0 :: block where "STDMASK_F0 = 0"

definition STDMASK_MSB1 :: block where
  "STDMASK_MSB1 = mm_set_epi64x 0x8000000000000000 0"

definition STDMASK_NOT_MSB1 :: block where
  "STDMASK_NOT_MSB1 = mm_set_epi64x 0x7FFFFFFFFFFFFFFF 0xFFFFFFFFFFFFFFFF"

text \<open>The top bits of the sixteen bytes.\<close>

definition mm_movemask_epi8 :: "block \<Rightarrow> u32" where
  "mm_movemask_epi8 v = horner_sum of_bool 2 (map (\<lambda>i. bit v (8 * i + 7)) [0..<16])"

definition getMsb :: "block \<Rightarrow> u32" where
  "getMsb v = drop_bit 15 (mm_movemask_epi8 v)"

definition getTrunc :: "nat \<Rightarrow> block \<Rightarrow> u64" where
  "getTrunc ell_out v = mm_cvtsi128_si64 v AND ucast (RING_MASK8 ell_out)"

definition mm_set1_epi32 :: "u32 \<Rightarrow> block" where
  "mm_set1_epi32 x =
     ucast x OR push_bit 32 (ucast x) OR push_bit 64 (ucast x) OR push_bit 96 (ucast x)"

text \<open>\<^verbatim>\<open>_mm_loadu_si128\<close> of the sixteen key bytes.\<close>

definition load_block :: "byte list \<Rightarrow> block" where
  "load_block bs = of_le_bytes (take 16 bs)"

section \<open>Key generation\<close>

text \<open>
  The root states: the top bit of party 0's state is cleared, that of party 1's state is set.
\<close>

definition gen_root :: "nat \<Rightarrow> block \<Rightarrow> block" where
  "gen_root pid r =
     (let cbitMask = (if pid = 0 then STDMASK_F0 else STDMASK_MSB1)
      in (STDMASK_NOT_MSB1 AND r) XOR cbitMask)"

text \<open>The correction words of one level, from the expansions of the two states.\<close>

definition gen_cw :: "u32 \<Rightarrow> block \<Rightarrow> block \<Rightarrow> block \<Rightarrow> block \<Rightarrow> block \<times> block" where
  "gen_cw ai l0 r0 l1 r1 =
     (let lost0 = (if ai XOR 1 = 0 then l0 else r0);
          lost1 = (if ai XOR 1 = 0 then l1 else r1);
          base = (lost0 XOR lost1) AND STDMASK_NOT_MSB1;
          cbitR = ai XOR getMsb (r0 XOR r1);
          cwR = base XOR (if cbitR = 0 then STDMASK_F0 else STDMASK_MSB1);
          cbitL = 1 XOR ai XOR getMsb (l0 XOR l1);
          cwL = base XOR (if cbitL = 0 then STDMASK_F0 else STDMASK_MSB1)
      in (cwL, cwR))"

definition gen_next :: "u32 \<Rightarrow> block \<times> block \<Rightarrow> block \<Rightarrow> block \<Rightarrow> block \<Rightarrow> block" where
  "gen_next ai cw st l r =
     (let oblMask = (if ai = 0 then fst cw else snd cw);
          mulMask = mm_set1_epi32 (- getMsb st)
      in (oblMask AND mulMask) XOR (if ai = 0 then l else r))"

text \<open>The loop over the levels \<open>i\<close>, collecting the correction words.\<close>

fun gen_loop :: "(block \<Rightarrow> block) \<Rightarrow> (block \<Rightarrow> block) \<Rightarrow> nat \<Rightarrow> u32 \<Rightarrow> nat list \<Rightarrow>
    block \<Rightarrow> block \<Rightarrow> (block \<times> block) list \<times> block \<times> block" where
  "gen_loop hL hR ell_in alpha [] s0 s1 = ([], s0, s1)"
| "gen_loop hL hR ell_in alpha (i # is) s0 s1 =
     (let l0 = hL s0; r0 = hR s0; l1 = hL s1; r1 = hR s1;
          ai = drop_bit (ell_in - 1 - i) alpha AND 1;
          cw = gen_cw ai l0 r0 l1 r1;
          (cs, t0, t1) = gen_loop hL hR ell_in alpha is
             (gen_next ai cw s0 l0 r0) (gen_next ai cw s1 l1 r1)
      in (cw # cs, t0, t1))"

definition gen_cwLast :: "nat \<Rightarrow> byte \<Rightarrow> block \<Rightarrow> block \<Rightarrow> u64" where
  "gen_cwLast ell_out beta s0 s1 =
     (let g0 = getTrunc ell_out s0; g1 = getTrunc ell_out s1
      in (if getMsb s1 = 0 then ucast beta - g0 + g1 else g0 - g1 - ucast beta)
         AND ucast (RING_MASK8 ell_out))"

text \<open>
  \<open>DOMAIN_SIZE\<close> is a 32-bit constant, so for \<open>ELL_IN = 32\<close> it is 0. \<open>rnd0\<close>, \<open>rnd1\<close> and the two
  key strings are what \<open>randombytes_buf\<close> delivers.
\<close>

definition gen :: "ccrh \<Rightarrow> nat \<Rightarrow> nat \<Rightarrow> int \<Rightarrow> block \<Rightarrow> block \<Rightarrow> byte list \<Rightarrow> byte list \<Rightarrow>
    u32 \<Rightarrow> byte \<Rightarrow> (dpf_key \<times> dpf_key) res" where
  "gen ccrh ell_in ell_out sodium_init rnd0 rnd1 kL kR alpha beta =
     (if sodium_init < 0 then Inl RuntimeError
      else if alpha \<ge> ucast (push_bit ell_in (1 :: u64)) then Inl InvalidArgument
      else let hL = ccrh (load_block kL); hR = ccrh (load_block kR);
               s0 = gen_root 0 rnd0; s1 = gen_root 1 rnd1;
               (cs, t0, t1) = gen_loop hL hR ell_in alpha [0..<ell_in] s0 s1;
               last = gen_cwLast ell_out beta t0 t1;
               key = (\<lambda>s. \<lparr>stOrigin = s, cws = cs, cwLast = last, keyL = kL, keyR = kR\<rparr>)
      in Inr (key s0, key s1))"

section \<open>Evaluation of one node\<close>

definition child :: "(block \<Rightarrow> block) \<Rightarrow> block \<Rightarrow> block \<Rightarrow> block" where
  "child h cw st = h st XOR (mm_set1_epi32 (- getMsb st) AND cw)"

definition pidMask :: "dpf_pid \<Rightarrow> u64" where
  "pidMask pid = (if pid = EVALUATOR_0 then 0 else NOT 0)"

definition leaf_value :: "nat \<Rightarrow> dpf_pid \<Rightarrow> u64 \<Rightarrow> block \<Rightarrow> byte" where
  "leaf_value ell_out pid cw_last st =
     (let msbMask = 0 - ucast (getMsb st);
          rawRes = mm_cvtsi128_si64 st + (cw_last AND msbMask)
      in ucast (((rawRes XOR pidMask pid) - pidMask pid) AND ucast (RING_MASK8 ell_out)))"

end
