(* ===== verification/Dpf_Tree.thy ===== *)
theory Dpf_Tree
  imports Dpf
begin

text \<open>
  The evaluation tree of a key as a mathematical function \<open>node\<close>, and what key generation
  establishes about the trees of the two keys: they differ on the path to \<open>alpha\<close>, where the
  control bits are opposite, and agree in every other node.
\<close>

section \<open>States\<close>

lemma bit_movemask: "bit (mm_movemask_epi8 v) k \<longleftrightarrow> k < 16 \<and> bit v (8 * k + 7)"
proof (cases "k < 16")
  case True
  then show ?thesis by (simp add: mm_movemask_epi8_def bit_horner_sum_bit_word_iff)
next
  case False
  then show ?thesis by (simp add: mm_movemask_epi8_def bit_horner_sum_bit_word_iff)
qed

lemma getMsb_eq: "getMsb v = of_bool (bit v 127)"
  by (rule bit_word_eqI) (auto simp: getMsb_def bit_drop_bit_eq bit_movemask bit_of_bool_iff)

lemma getMsb_xor: "getMsb (v XOR w) = getMsb v XOR getMsb w"
  by (auto simp: getMsb_eq bit_xor_iff)

lemma mm_set1_msb: "mm_set1_epi32 (- getMsb v) = (if bit v 127 then - 1 else 0)"
proof (cases "bit v 127")
  case True
  have "bit (mm_set1_epi32 (- 1)) k" if "k < 128" for k
    using that by (simp add: mm_set1_epi32_def bit_simps) linarith
  then have "mm_set1_epi32 (- 1) = - 1" by (intro bit_word_eqI) (simp add: bit_simps)
  with True show ?thesis by (simp add: getMsb_eq)
next
  case False
  then show ?thesis by (simp add: getMsb_eq mm_set1_epi32_def)
qed

lemma stdmask_bits:
  "bit STDMASK_MSB1 k \<longleftrightarrow> k = 127" "bit STDMASK_NOT_MSB1 k \<longleftrightarrow> k < 127"
proof -
  have "STDMASK_MSB1 = push_bit 127 1" by (simp add: STDMASK_MSB1_def mm_set_epi64x_def)
  then have "bit STDMASK_MSB1 k \<longleftrightarrow> bit (push_bit 127 1 :: block) k" by (simp only:)
  also have "\<dots> \<longleftrightarrow> k = 127"
    by (simp only: bit_push_bit_iff bit_1_iff) auto
  finally show "bit STDMASK_MSB1 k \<longleftrightarrow> k = 127" .
  have "STDMASK_NOT_MSB1 = mask 127"
    by (simp add: STDMASK_NOT_MSB1_def mm_set_epi64x_def mask_eq_exp_minus_1)
  then have "bit STDMASK_NOT_MSB1 k \<longleftrightarrow> bit (mask 127 :: block) k" by (simp only:)
  also have "\<dots> \<longleftrightarrow> k < 127"
    by (simp only: bit_mask_iff) auto
  finally show "bit STDMASK_NOT_MSB1 k \<longleftrightarrow> k < 127" .
qed

lemma child_eq: "child h cw st = h st XOR (if bit st 127 then cw else 0)"
  by (simp add: child_def mm_set1_msb)

lemma gen_root_msb: "bit (gen_root 0 r) 127 \<noteq> bit (gen_root 1 r') 127"
  by (simp add: gen_root_def Let_def bit_simps stdmask_bits STDMASK_F0_def)

section \<open>One level of key generation\<close>

lemma u32_bit: "ai = 0 \<or> ai = 1 \<Longrightarrow> (ai XOR 1 = 0) = (ai = 1)" for ai :: u32
  by auto

text \<open>The lost child: the correction word is the difference of the two expansions.\<close>

lemma gen_cw_lost:
  "ai = 1 \<Longrightarrow> fst (gen_cw ai l0 r0 l1 r1) = l0 XOR l1"
  "ai = 0 \<Longrightarrow> snd (gen_cw ai l0 r0 l1 r1) = r0 XOR r1"
proof -
  have *: "bit (getMsb (x XOR y)) 0 \<longleftrightarrow> bit x 127 \<noteq> bit y 127" for x y
    by (simp add: getMsb_eq bit_xor_iff)
  have b: "(x AND STDMASK_NOT_MSB1) XOR (if getMsb x = 0 then STDMASK_F0 else STDMASK_MSB1) = x" for x
  proof (rule bit_word_eqI)
    fix n assume "n < LENGTH(128)"
    then have "n < 127 \<or> n = 127" by auto
    then show "bit ((x AND STDMASK_NOT_MSB1) XOR (if getMsb x = 0 then STDMASK_F0 else STDMASK_MSB1)) n = bit x n"
      by (elim disjE) (auto simp: bit_simps stdmask_bits getMsb_eq STDMASK_F0_def)
  qed
  show "ai = 1 \<Longrightarrow> fst (gen_cw ai l0 r0 l1 r1) = l0 XOR l1"
    using b [of "l0 XOR l1"] by (simp add: gen_cw_def Let_def)
  show "ai = 0 \<Longrightarrow> snd (gen_cw ai l0 r0 l1 r1) = r0 XOR r1"
    using b [of "r0 XOR r1"] by (simp add: gen_cw_def Let_def)
qed

text \<open>The kept child: the correction word makes the two control bits opposite.\<close>

lemma gen_cw_kept:
  "ai = 0 \<Longrightarrow> bit (fst (gen_cw ai l0 r0 l1 r1)) 127 \<longleftrightarrow> bit l0 127 = bit l1 127"
  "ai = 1 \<Longrightarrow> bit (snd (gen_cw ai l0 r0 l1 r1)) 127 \<longleftrightarrow> bit r0 127 = bit r1 127"
  by (auto simp: gen_cw_def Let_def getMsb_eq bit_simps stdmask_bits STDMASK_F0_def)

lemma gen_next_eq:
  "gen_next ai cw st (hL st) (hR st) = (if ai = 0 then child hL (fst cw) st else child hR (snd cw) st)"
  by (simp add: gen_next_def Let_def child_def ac_simps)

section \<open>The tree\<close>

fun node :: "(block \<Rightarrow> block) \<Rightarrow> (block \<Rightarrow> block) \<Rightarrow> (block \<times> block) list \<Rightarrow> block \<Rightarrow> nat \<Rightarrow> nat \<Rightarrow> block"
where
  "node hL hR cs st 0 j = st"
| "node hL hR cs st (Suc d) j =
     (if even j then child hL (fst (cs ! d)) (node hL hR cs st d (j div 2))
      else child hR (snd (cs ! d)) (node hL hR cs st d (j div 2)))"

text \<open>What holds of the two trees in layer \<open>d\<close>, \<open>p\<close> being the node on the path.\<close>

definition paired :: "nat \<Rightarrow> (nat \<Rightarrow> block) \<Rightarrow> (nat \<Rightarrow> block) \<Rightarrow> nat \<Rightarrow> block \<Rightarrow> block \<Rightarrow> bool" where
  "paired d f g p a b \<longleftrightarrow> f p = a \<and> g p = b \<and> bit a 127 \<noteq> bit b 127 \<and>
     (\<forall>j<2 ^ d. j \<noteq> p \<longrightarrow> f j = g j)"

lemma xor_one_side: "p \<noteq> q \<Longrightarrow>
    x XOR (if p then x XOR y else 0) = y XOR (if q then x XOR y else 0)" for x y :: "'a::len word"
  by (rule bit_word_eqI) (auto simp: bit_simps)

lemma paired_step:
  fixes ai :: u32
  assumes P: "paired d (node hL hR cs s0 d) (node hL hR cs s1 d) p a b"
    and ai: "ai = 0 \<or> ai = 1"
    and cw: "cs ! d = gen_cw ai (hL a) (hR a) (hL b) (hR b)"
  shows "paired (Suc d) (node hL hR cs s0 (Suc d)) (node hL hR cs s1 (Suc d)) (2 * p + unat ai)
    (gen_next ai (cs ! d) a (hL a) (hR a)) (gen_next ai (cs ! d) b (hL b) (hR b))"
proof -
  have ab: "node hL hR cs s0 d p = a" "node hL hR cs s1 d p = b" "bit a 127 \<noteq> bit b 127"
    "\<And>j. j < 2 ^ d \<Longrightarrow> j \<noteq> p \<Longrightarrow> node hL hR cs s0 d j = node hL hR cs s1 d j"
    using P by (auto simp: paired_def)
  have lost: "hL a XOR (if bit a 127 then hL a XOR hL b else 0) = hL b XOR (if bit b 127 then hL a XOR hL b else 0)"
    "hR a XOR (if bit a 127 then hR a XOR hR b else 0) = hR b XOR (if bit b 127 then hR a XOR hR b else 0)"
    using ab(3) by (simp_all add: xor_one_side)
  have same: "node hL hR cs s0 (Suc d) j = node hL hR cs s1 (Suc d) j" if "j \<noteq> 2 * p + unat ai" "j < 2 ^ Suc d" for j
  proof (cases "j div 2 = p")
    case True
    then have "if ai = 0 then odd j else even j"
      using that ai by (cases "even j") (auto elim!: oddE)
    then show ?thesis
      using ab ai True lost gen_cw_lost [of ai "hL a" "hR a" "hL b" "hR b"]
      by (auto simp: child_eq cw split: if_splits)
  next
    case False
    moreover have "j div 2 < 2 ^ d" using that(2) by auto
    ultimately show ?thesis using ab(4) by simp
  qed
  have "bit (gen_next ai (cs ! d) a (hL a) (hR a)) 127 \<noteq> bit (gen_next ai (cs ! d) b (hL b) (hR b)) 127"
    using ai ab(3) gen_cw_kept [of ai "hL a" "hR a" "hL b" "hR b"]
    by (auto simp: gen_next_eq child_eq cw bit_xor_iff)
  with same ab ai show ?thesis by (auto simp: paired_def gen_next_eq)
qed

section \<open>All levels\<close>

text \<open>The node on the path to \<open>alpha\<close> in layer \<open>d\<close>.\<close>

definition path :: "nat \<Rightarrow> u32 \<Rightarrow> nat \<Rightarrow> nat" where
  "path n alpha d = unat alpha div 2 ^ (n - d)"

lemma path_Suc:
  assumes "d < n"
  shows "path n alpha (Suc d) = 2 * path n alpha d + unat (drop_bit (n - 1 - d) alpha AND 1)"
proof -
  have "n - d = Suc (n - 1 - d)" using assms by simp
  then have "path n alpha d = unat alpha div 2 ^ (n - 1 - d) div 2"
    by (simp add: path_def flip: div_mult2_eq) (simp add: mult.commute)
  moreover have "unat (drop_bit (n - 1 - d) alpha AND 1) = unat alpha div 2 ^ (n - 1 - d) mod 2"
  proof -
    have "unat (drop_bit k alpha) = unat alpha div 2 ^ k" for k
      using take_bit_nat_eq_self [OF unsigned_less, of alpha]
      by (simp only: unsigned_drop_bit_eq) (simp add: drop_bit_eq_div)
    then show ?thesis by (simp only: and_one_eq unat_mod) simp
  qed
  moreover have "path n alpha (Suc d) = unat alpha div 2 ^ (n - 1 - d)"
    by (simp add: path_def diff_diff_eq)
  ultimately show ?thesis by simp
qed

lemma direction_bit: "drop_bit k alpha AND 1 = 0 \<or> drop_bit k alpha AND 1 = (1 :: u32)"
  by (simp add: and_one_eq mod_2_eq_odd)

lemma gen_loop_paired:
  assumes "i \<le> n" "gen_loop hL hR n alpha [i..<n] a b = (cs', t0, t1)" "drop i cs = cs'"
    and "paired i (node hL hR cs s0 i) (node hL hR cs s1 i) (path n alpha i) a b"
  shows "paired n (node hL hR cs s0 n) (node hL hR cs s1 n) (path n alpha n) t0 t1 \<and>
    length cs' = n - i"
  using assms
proof (induction "n - i" arbitrary: i a b cs')
  case 0
  then show ?case by simp
next
  case (Suc m)
  then have i: "i < n" by simp
  let ?ai = "drop_bit (n - 1 - i) alpha AND 1"
  let ?cw = "gen_cw ?ai (hL a) (hR a) (hL b) (hR b)"
  obtain cs'' where rest: "gen_loop hL hR n alpha [Suc i..<n] (gen_next ?ai ?cw a (hL a) (hR a))
      (gen_next ?ai ?cw b (hL b) (hR b)) = (cs'', t0, t1)" and cs': "cs' = ?cw # cs''"
    using Suc.prems(2) i by (auto simp: upt_conv_Cons Let_def split: prod.splits)
  have "i < length cs" using Suc.prems(3) cs' by (metis drop_eq_Nil2 list.discI not_le)
  then have cs: "cs ! i = ?cw" "drop (Suc i) cs = cs''"
    using Suc.prems(3) cs' by (metis Cons_nth_drop_Suc list.inject)+
  have "paired (Suc i) (node hL hR cs s0 (Suc i)) (node hL hR cs s1 (Suc i)) (path n alpha (Suc i))
      (gen_next ?ai ?cw a (hL a) (hR a)) (gen_next ?ai ?cw b (hL b) (hR b))"
    using paired_step [OF Suc.prems(4) direction_bit cs(1)] path_Suc [OF i] cs(1) by simp
  from Suc.hyps(1) [OF _ _ rest cs(2) this] Suc.hyps(2) i cs' show ?case by simp
qed

section \<open>The leaves\<close>

lemma ucast_add_64: "(ucast (x + y :: u64) :: byte) = ucast x + ucast y"
  and ucast_minus_64: "(ucast (x - y :: u64) :: byte) = ucast x - ucast y"
  and ucast_uminus_64: "(ucast (- x :: u64) :: byte) = - ucast x"
  by (simp_all add: word_uint_eq_iff uint_word_ariths unsigned_ucast_eq take_bit_eq_mod
      mod_mod_cancel mod_simps)

lemma u64_mask: "ell \<le> 8 \<Longrightarrow> (ucast (x AND ucast (RING_MASK8 ell) :: u64) :: byte) = take_bit ell (ucast x)"
proof -
  assume "ell \<le> 8"
  moreover have "(ucast (ucast w :: u64) :: byte) = w" for w :: byte
    by (rule bit_word_eqI) (simp add: bit_simps)
  ultimately show ?thesis by (simp add: ucast_and and_RING_MASK8)
qed

text \<open>The low byte of a state, which is all of it that reaches the output.\<close>

definition low :: "block \<Rightarrow> byte" where "low st = ucast st"

lemma leaf_value_eq:
  assumes "ell \<le> 8" "pid \<noteq> DEALER"
  shows "leaf_value ell pid c st =
    take_bit ell (let v = low st + (if bit st 127 then ucast c else 0) in if pid = EVALUATOR_0 then v else - v)"
proof -
  have "c AND (0 - ucast (getMsb st)) = (if bit st 127 then c else 0)"
    by (simp add: getMsb_eq)
  moreover have "ucast (mm_cvtsi128_si64 st) = low st"
    unfolding mm_cvtsi128_si64_def low_def by (rule bit_word_eqI) (simp add: bit_simps)
  moreover have "(x XOR NOT 0) - NOT 0 = - x" for x :: u64
  proof -
    have "x XOR NOT 0 = NOT x" by (rule bit_word_eqI) (simp add: bit_simps)
    then show ?thesis by (simp add: not_eq_complement)
  qed
  ultimately show ?thesis using assms
    by (cases pid) (simp_all add: leaf_value_def Let_def pidMask_def u64_mask ucast_add_64 ucast_uminus_64)
qed

lemma cwLast_eq:
  assumes "ell \<le> 8"
  shows "ucast (gen_cwLast ell beta a b) =
    take_bit ell (if bit b 127 then low a - low b - beta else beta - low a + low b)"
proof -
  have t: "(ucast (getTrunc ell s) :: byte) = take_bit ell (low s)" for s
  proof -
    have "ucast (mm_cvtsi128_si64 s) = low s"
      unfolding mm_cvtsi128_si64_def low_def by (rule bit_word_eqI) (simp add: bit_simps)
    then show ?thesis using assms by (simp add: getTrunc_def u64_mask)
  qed
  have b: "(ucast (ucast beta :: u64) :: byte) = beta" by (rule bit_word_eqI) (simp add: bit_simps)
  have "take_bit ell (take_bit ell x - take_bit ell y - z) = take_bit ell (x - y - z)"
    "take_bit ell (z - take_bit ell x + take_bit ell y) = take_bit ell (z - x + y)" for x y z :: byte
    by (intro take_bit_cong [OF assms]; simp)+
  then show ?thesis using assms
    by (simp add: gen_cwLast_def Let_def u64_mask ucast_add_64 ucast_minus_64 t b getMsb_eq)
qed

text \<open>The two values of a leaf add up to 0 when the states agree, to \<open>beta\<close> on the path.\<close>

lemma leaf_same:
  assumes "ell \<le> 8"
  shows "ringAdd8 ell (leaf_value ell EVALUATOR_0 c st) (leaf_value ell EVALUATOR_1 c st) = 0"
  using assms take_bit_ring(1) [OF assms, of "low st + (if bit st 127 then ucast c else 0)"
      "- (low st + (if bit st 127 then ucast c else 0))"]
  by (simp add: ringAdd8_eq leaf_value_eq Let_def)

lemma leaf_path:
  assumes "ell \<le> 8" "bit a 127 \<noteq> bit b 127" "c = gen_cwLast ell beta a b"
  shows "ringAdd8 ell (leaf_value ell EVALUATOR_0 c a) (leaf_value ell EVALUATOR_1 c b) = take_bit ell beta"
proof -
  have "take_bit ell (x + take_bit ell y - z) = take_bit ell (x + y - z)"
    "take_bit ell (x - (z + take_bit ell y)) = take_bit ell (x - (z + y))"
    "take_bit ell (x + (z - take_bit ell y)) = take_bit ell (x + (z - y))" for x y z :: byte
    by (intro take_bit_cong [OF assms(1)]; simp)+
  then show ?thesis
    using assms(1,2) take_bit_ring(1) [OF assms(1)]
    by (simp add: ringAdd8_eq leaf_value_eq Let_def assms(3) cwLast_eq split: if_splits)
qed

end
