(* ===== verification/Dpf_Eval.thy ===== *)
theory Dpf_Eval
  imports Dpf_Tree Rvector_Ops Rvector_Pack
begin

text \<open>
  \<open>fullEval\<close> and \<open>rangeEval\<close> of \<^verbatim>\<open>bgi16.hpp\<close> as they are written: the upper levels are
  expanded in place into a task array, every task runs a depth-first search on a bounded stack
  whose lowest levels are expanded breadth first into two buffers, and the tasks are divided
  among threads that write the shared output vector. The two functions share this skeleton;
  they differ in the tests \<open>prune\<close>, \<open>keep\<close> and \<open>emit\<close>.
\<close>

section \<open>Sizes\<close>

definition LOCAL_BFS_D :: "nat \<Rightarrow> nat" where
  "LOCAL_BFS_D ell_in = (if ell_in < 8 then ell_in else 8)"

fun bit_width :: "nat \<Rightarrow> nat" where
  "bit_width n = (if n = 0 then 0 else Suc (bit_width (n div 2)))"

declare bit_width.simps [simp del]

text \<open>\<open>(bit_width(CORES) - 1) + 3\<close>, on the 32-bit value of \<open>CORES\<close>.\<close>

definition splitCoff :: "nat \<Rightarrow> nat \<Rightarrow> nat" where
  "splitCoff ell_in cores = min (ell_in - LOCAL_BFS_D ell_in) (bit_width (cores mod 2 ^ 32) + 2)"

section \<open>The task array\<close>

fun for_down :: "nat \<Rightarrow> (nat \<Rightarrow> 's \<Rightarrow> 's res) \<Rightarrow> 's \<Rightarrow> 's res" where
  "for_down 0 body s = Inr s"
| "for_down (Suc i) body s = rbind (body i s) (for_down i body)"

definition expand_node :: "(block \<Rightarrow> block) \<Rightarrow> (block \<Rightarrow> block) \<Rightarrow> (block \<times> block) list \<Rightarrow>
    nat \<Rightarrow> nat \<Rightarrow> block list \<Rightarrow> block list res" where
  "expand_node hL hR cs d i tasks =
     rbind (rd tasks i) (\<lambda>st.
     rbind (rd cs d) (\<lambda>cw.
     rbind (wr tasks (2 * i) (child hL (fst cw) st)) (\<lambda>tasks.
     wr tasks (2 * i + 1) (child hR (snd cw) st))))"

definition expand_tasks :: "(block \<Rightarrow> block) \<Rightarrow> (block \<Rightarrow> block) \<Rightarrow> (block \<times> block) list \<Rightarrow>
    block \<Rightarrow> nat \<Rightarrow> block list res" where
  "expand_tasks hL hR cs st0 split =
     rbind (wr (replicate (2 ^ split) 0) 0 st0) (\<lambda>tasks.
     for_loop 0 split (\<lambda>d. for_down (2 ^ d) (expand_node hL hR cs d)) tasks)"

section \<open>Breadth-first expansion of a subtree\<close>

text \<open>One level, four states at a time, then one at a time.\<close>

fun bfs_level :: "(block \<Rightarrow> block) \<Rightarrow> (block \<Rightarrow> block) \<Rightarrow> block \<times> block \<Rightarrow> block list \<Rightarrow> block list" where
  "bfs_level hL hR cw (a # b # c # d # sts) =
     [child hL (fst cw) a, child hR (snd cw) a, child hL (fst cw) b, child hR (snd cw) b,
      child hL (fst cw) c, child hR (snd cw) c, child hL (fst cw) d, child hR (snd cw) d]
     @ bfs_level hL hR cw sts"
| "bfs_level hL hR cw (st # sts) =
     [child hL (fst cw) st, child hR (snd cw) st] @ bfs_level hL hR cw sts"
| "bfs_level hL hR cw [] = []"

text \<open>The buffers have \<open>2 ^ LOCAL_BFS_D\<close> entries.\<close>

definition bfs :: "(block \<Rightarrow> block) \<Rightarrow> (block \<Rightarrow> block) \<Rightarrow> (block \<times> block) list \<Rightarrow> nat \<Rightarrow>
    nat \<Rightarrow> nat \<Rightarrow> block \<Rightarrow> block list res" where
  "bfs hL hR cs ell_in layer remaining st =
     for_loop 0 remaining (\<lambda>bd cur.
       rbind (rd cs (layer + bd)) (\<lambda>cw.
       if 2 * length cur > 2 ^ LOCAL_BFS_D ell_in then Inl MemFault
       else Inr (bfs_level hL hR cw cur))) [st]"

text \<open>The writes of the leaves; \<open>emit\<close> gives the output index of a leaf, if it has one.\<close>

fun leaf_writes :: "(nat \<Rightarrow> nat option) \<Rightarrow> (block \<Rightarrow> byte) \<Rightarrow> nat \<Rightarrow> block list \<Rightarrow> (nat \<times> byte) list" where
  "leaf_writes emit val g [] = []"
| "leaf_writes emit val g (st # sts) =
     (case emit g of None \<Rightarrow> leaf_writes emit val (Suc g) sts
      | Some off \<Rightarrow> (off, val st) # leaf_writes emit val (Suc g) sts)"

section \<open>Depth-first search\<close>

text \<open>A stack entry is a state, its number within its layer, and the layer.\<close>

type_synonym stk_node = "block \<times> nat \<times> nat"

definition stk_cap :: "nat \<Rightarrow> nat" where
  "stk_cap ell_in = (if ell_in \<ge> LOCAL_BFS_D ell_in then ell_in - LOCAL_BFS_D ell_in else 1) + 2"

record search =
  s_prune :: "nat \<Rightarrow> nat \<Rightarrow> bool"
  s_keep :: "nat \<Rightarrow> nat \<Rightarrow> bool"
  s_emit :: "nat \<Rightarrow> nat option"

function dfs :: "(block \<Rightarrow> block) \<Rightarrow> (block \<Rightarrow> block) \<Rightarrow> (block \<times> block) list \<Rightarrow> nat \<Rightarrow>
    search \<Rightarrow> (block \<Rightarrow> byte) \<Rightarrow> stk_node list \<Rightarrow> (nat \<times> byte) list res" where
  "dfs hL hR cs ell_in sp val [] = Inr []"
| "dfs hL hR cs ell_in sp val ((st, k, layer) # stk) =
     (let remaining = ell_in - layer;
          nodeStart = k * 2 ^ remaining; nodeEnd = (k + 1) * 2 ^ remaining
      in if s_prune sp nodeStart nodeEnd then dfs hL hR cs ell_in sp val stk
      else if remaining \<le> LOCAL_BFS_D ell_in
      then rbind (bfs hL hR cs ell_in layer remaining st) (\<lambda>leaves.
           rbind (dfs hL hR cs ell_in sp val stk) (\<lambda>ws.
           Inr (leaf_writes (s_emit sp) val nodeStart leaves @ ws)))
      else rbind (rd cs layer) (\<lambda>cw.
        let below = ell_in - (layer + 1);
            rId = 2 * k + 1; lId = 2 * k;
            stk1 = (if s_keep sp (rId * 2 ^ below) ((rId + 1) * 2 ^ below)
                    then (child hR (snd cw) st, rId, layer + 1) # stk else stk);
            stk2 = (if s_keep sp (lId * 2 ^ below) ((lId + 1) * 2 ^ below)
                    then (child hL (fst cw) st, lId, layer + 1) # stk1 else stk1)
        in if length stk2 > stk_cap ell_in then Inl MemFault
           else dfs hL hR cs ell_in sp val stk2))"
  by pat_completeness auto
termination
proof (relation "measure (\<lambda>(hL, hR, cs, ell_in, sp, val, stk). sum_list (map (\<lambda>(st, k, l). 3 ^ (ell_in - l)) stk))",
    goal_cases)
  case 1
  show ?case by simp
next
  case (2 hL hR cs ell_in sp val st k layer stk)
  then show ?case by simp
next
  case (3 hL hR cs ell_in sp val st k layer stk)
  then show ?case by simp
next
  case (4 hL hR cs ell_in sp val st k layer stk)
  then have "0 < ell_in - layer" by linarith
  then have e: "ell_in - layer = Suc (ell_in - Suc layer)" by linarith
  have "(1 :: nat) \<le> 3 ^ (ell_in - Suc layer)" by simp
  with 4 show ?case unfolding in_measure prod.case by (auto simp: e)
qed

declare dfs.simps [simp del]

section \<open>Threads\<close>

definition eval_thread :: "(block \<Rightarrow> block) \<Rightarrow> (block \<Rightarrow> block) \<Rightarrow> (block \<times> block) list \<Rightarrow> nat \<Rightarrow>
    search \<Rightarrow> (block \<Rightarrow> byte) \<Rightarrow> nat \<Rightarrow> block list \<Rightarrow> nat \<Rightarrow> nat \<Rightarrow> (nat \<times> byte) list res" where
  "eval_thread hL hR cs ell_in sp val split tasks startTask endTask =
     for_loop startTask endTask (\<lambda>t ws.
       rbind (rd tasks t) (\<lambda>st.
       rbind (dfs hL hR cs ell_in sp val [(st, t, split)]) (\<lambda>w. Inr (ws @ w)))) []"

text \<open>The task ranges, one per started thread.\<close>

definition task_ranges :: "nat \<Rightarrow> nat \<Rightarrow> (nat \<times> nat) list" where
  "task_ranges totalTasks cores =
     (let tasksPerThread = (totalTasks + cores - 1) div cores
      in map (\<lambda>i. (i * tasksPerThread, min (i * tasksPerThread + tasksPerThread) totalTasks))
           (takeWhile (\<lambda>i. \<not> i * tasksPerThread \<ge> totalTasks) [0..<cores]))"

definition eval_threads :: "ccrh \<Rightarrow> nat \<Rightarrow> nat \<Rightarrow> dpf_pid \<Rightarrow> nat \<Rightarrow> search \<Rightarrow> dpf_key \<Rightarrow>
    (nat \<times> byte) list list res" where
  "eval_threads ccrh ell_in ell_out pid cores sp key =
     (let hL = ccrh (load_block (keyL key)); hR = ccrh (load_block (keyR key));
          split = splitCoff ell_in cores
      in rbind (expand_tasks hL hR (cws key) (stOrigin key) split) (\<lambda>tasks.
         collect (map (\<lambda>(startTask, endTask).
             eval_thread hL hR (cws key) ell_in sp (leaf_value ell_out pid (cwLast key)) split
               tasks startTask endTask)
           (task_ranges (2 ^ split) cores))))"

definition full_search :: search where
  "full_search = \<lparr>s_prune = (\<lambda>_ _. False), s_keep = (\<lambda>_ _. True), s_emit = Some\<rparr>"

text \<open>
  The result is a relation: the threads may interleave in any way, and if two of them write
  elements of one machine word (\<open>set\<close> of a bit vector reads and rewrites the whole word) they
  race. An exception object of the arguments is immediate.
\<close>

definition fullEval :: "ccrh \<Rightarrow> nat \<Rightarrow> nat \<Rightarrow> dpf_pid \<Rightarrow> nat \<Rightarrow> dpf_key \<Rightarrow> rvec \<Rightarrow> rvec res \<Rightarrow> bool" where
  "fullEval ccrh ell_in ell_out pid cores key buf r \<longleftrightarrow>
     (if rv_size buf \<noteq> 2 ^ ell_in then r = Inl InvalidArgument
      else case eval_threads ccrh ell_in ell_out pid cores full_search key of
          Inl e \<Rightarrow> r = Inl e
        | Inr ws \<Rightarrow> threads (\<lambda>k. k div ELEMS_PER_WORD ell_out) (rv_set ell_out) buf ws r)"

section \<open>Ranges\<close>

definition range_prune :: "nat \<Rightarrow> nat \<Rightarrow> nat \<Rightarrow> nat \<Rightarrow> bool" where
  "range_prune bg ed nodeStart nodeEnd =
     (if ed < bg then nodeStart > ed \<and> nodeEnd \<le> bg else nodeEnd \<le> bg \<or> nodeStart > ed)"

definition range_keep :: "nat \<Rightarrow> nat \<Rightarrow> nat \<Rightarrow> nat \<Rightarrow> bool" where
  "range_keep bg ed cStart cEnd =
     (if ed < bg then cEnd > bg \<or> cStart \<le> ed else cStart \<le> ed \<and> cEnd > bg)"

definition range_emit :: "nat \<Rightarrow> nat \<Rightarrow> nat \<Rightarrow> nat \<Rightarrow> nat option" where
  "range_emit VEC_LEN bg ed globalIdx =
     (if (if ed < bg then globalIdx > ed \<and> globalIdx < bg else globalIdx < bg \<or> globalIdx > ed)
      then None
      else Some (if ed < bg
                 then (if globalIdx \<ge> bg then globalIdx - bg else (VEC_LEN - bg) + globalIdx)
                 else globalIdx - bg))"

definition range_search :: "nat \<Rightarrow> nat \<Rightarrow> nat \<Rightarrow> search" where
  "range_search ell_in bg ed =
     \<lparr>s_prune = range_prune bg ed, s_keep = range_keep bg ed, s_emit = range_emit (2 ^ ell_in) bg ed\<rparr>"

definition rangeLen :: "nat \<Rightarrow> nat \<Rightarrow> nat \<Rightarrow> nat" where
  "rangeLen VEC_LEN bg ed = (if ed < bg then (VEC_LEN - bg) + ed + 1 else ed - bg + 1)"

definition rangeEval :: "ccrh \<Rightarrow> nat \<Rightarrow> nat \<Rightarrow> dpf_pid \<Rightarrow> nat \<Rightarrow> dpf_key \<Rightarrow> nat \<Rightarrow> nat \<Rightarrow> rvec \<Rightarrow>
    rvec res \<Rightarrow> bool" where
  "rangeEval ccrh ell_in ell_out pid cores key bg ed buf r \<longleftrightarrow>
     (if bg \<ge> 2 ^ ell_in then r = Inl InvalidArgument
      else if ed \<ge> 2 ^ ell_in then r = Inl InvalidArgument
      else if rv_size buf \<noteq> rangeLen (2 ^ ell_in) bg ed then r = Inl InvalidArgument
      else case eval_threads ccrh ell_in ell_out pid cores (range_search ell_in bg ed) key of
          Inl e \<Rightarrow> r = Inl e
        | Inr ws \<Rightarrow> threads (\<lambda>k. k div ELEMS_PER_WORD ell_out) (rv_set ell_out) buf ws r)"

section \<open>Reconstruction\<close>

text \<open>What an evaluator sends, and what the dealer does with the two byte streams: a stream that
  ends early makes \<open>recv_data\<close> throw.\<close>

definition reveal_bytes :: "nat \<Rightarrow> rvec \<Rightarrow> byte list" where
  "reveal_bytes ell buf = take (bytesSize ell buf) (rv_bytes ell buf)"

definition recv_data :: "byte list \<Rightarrow> nat \<Rightarrow> byte list res" where
  "recv_data stream sz = (if sz \<le> length stream then Inr (take sz stream) else Inl RuntimeError)"

definition dealer_reveal :: "nat \<Rightarrow> heap \<Rightarrow> heap \<Rightarrow> byte list \<Rightarrow> byte list \<Rightarrow> rvec \<Rightarrow> rvec res" where
  "dealer_reveal ell heap0 heap1 in0 in1 out =
     rbind (rv_new ell heap0 (rv_size out)) (\<lambda>e0.
     rbind (rv_new ell heap1 (rv_size out)) (\<lambda>e1.
     let sz = bytesSize ell out in
     rbind (recv_data in0 sz) (\<lambda>b0.
     rbind (recv_data in1 sz) (\<lambda>b1.
     rbind (rv_add ell 0 1 2
        ((\<lambda>_. out)(0 := set_bytes ell e0 b0, 1 := set_bytes ell e1 b1, 2 := out)))
       (\<lambda>st. Inr (st 2))))))"

end
