(* ===== verification/Dpf_Eval_Facts.thy ===== *)
theory Dpf_Eval_Facts
  imports Dpf_Eval
begin

text \<open>
  The evaluation writes the value of every leaf of the tree \<open>node\<close> that \<open>emit\<close> selects exactly
  once, within the task array, the expansion buffers and the stack, for every division of the
  work among threads.
\<close>

section \<open>The task array\<close>

lemma for_down_rule:
  assumes "P n s" and "\<And>k s. k < n \<Longrightarrow> P (Suc k) s \<Longrightarrow> \<exists>s'. body k s = Inr s' \<and> P k s'"
  shows "\<exists>s'. for_down n body s = Inr s' \<and> P 0 s'"
  using assms
proof (induction n arbitrary: s)
  case (Suc n)
  then obtain s' where "body n s = Inr s'" "P n s'" by blast
  moreover from this Suc have "\<exists>s''. for_down n body s' = Inr s'' \<and> P 0 s''" by simp
  ultimately show ?case by simp
qed simp

lemma expand_level:
  assumes d: "d < split" "d < length cs" and len: "length tasks = 2 ^ split"
    and t: "\<forall>j<2 ^ d. tasks ! j = node hL hR cs st0 d j"
  shows "\<exists>tasks'. for_down (2 ^ d) (expand_node hL hR cs d) tasks = Inr tasks' \<and>
    length tasks' = 2 ^ split \<and> (\<forall>j<2 ^ Suc d. tasks' ! j = node hL hR cs st0 (Suc d) j)"
proof -
  let ?P = "\<lambda>i t. length t = (2 :: nat) ^ split \<and> (\<forall>j<i. t ! j = node hL hR cs st0 d j) \<and>
    (\<forall>j. 2 * i \<le> j \<longrightarrow> j < 2 ^ Suc d \<longrightarrow> t ! j = node hL hR cs st0 (Suc d) j)"
  have big: "(2 :: nat) ^ Suc d \<le> 2 ^ split" using d by (intro power_increasing) auto
  have "\<exists>t'. for_down (2 ^ d) (expand_node hL hR cs d) tasks = Inr t' \<and> ?P 0 t'"
  proof (rule for_down_rule)
    show "?P (2 ^ d) tasks" using len t by simp
    fix k t assume k: "k < 2 ^ d" and P: "?P (Suc k) t"
    have b: "2 * k + 1 < 2 ^ split" using k big by simp
    let ?t = "t[2 * k := child hL (fst (cs ! d)) (t ! k), 2 * k + 1 := child hR (snd (cs ! d)) (t ! k)]"
    have "expand_node hL hR cs d k t = Inr ?t"
      using P b d by (simp add: expand_node_def)
    moreover have "?P k ?t"
    proof (intro conjI allI impI)
      fix j assume "2 * k \<le> j" "j < 2 ^ Suc d"
      from \<open>2 * k \<le> j\<close> have "j = 2 * k \<or> j = 2 * k + 1 \<or> 2 * Suc k \<le> j" by presburger
      then show "?t ! j = node hL hR cs st0 (Suc d) j"
        using P b \<open>j < 2 ^ Suc d\<close> by (elim disjE) (auto simp: nth_list_update)
    qed (use P in auto)
    ultimately show "\<exists>t'. expand_node hL hR cs d k t = Inr t' \<and> ?P k t'" by blast
  qed
  then show ?thesis by auto
qed

lemma expand_tasks_ok:
  assumes "split \<le> length cs"
  shows "\<exists>tasks. expand_tasks hL hR cs st0 split = Inr tasks \<and> length tasks = 2 ^ split \<and>
    (\<forall>j<2 ^ split. tasks ! j = node hL hR cs st0 split j)"
proof -
  let ?P = "\<lambda>d t. length t = (2 :: nat) ^ split \<and> (\<forall>j<2 ^ d. t ! j = node hL hR cs st0 d j)"
  have "\<exists>t. for_loop 0 split (\<lambda>d. for_down (2 ^ d) (expand_node hL hR cs d))
      ((replicate (2 ^ split) 0)[0 := st0]) = Inr t \<and> ?P split t"
    by (rule for_loop_rule [where P = ?P]) (use assms expand_level in auto)
  then show ?thesis by (simp add: expand_tasks_def)
qed

section \<open>Breadth-first expansion\<close>

lemma bfs_level_eq:
  "bfs_level hL hR cw sts = concat (map (\<lambda>st. [child hL (fst cw) st, child hR (snd cw) st]) sts)"
  by (induction hL hR cw sts rule: bfs_level.induct) auto

lemma concat_pairs: "concat (map (\<lambda>i. [f (2 * i), f (2 * i + 1)]) [0..<m]) = map f [0..<2 * m]"
  by (induction m) auto

lemma node_double:
  "node hL hR cs st0 (Suc d) (2 * m) = child hL (fst (cs ! d)) (node hL hR cs st0 d m)"
  "node hL hR cs st0 (Suc d) (2 * m + 1) = child hR (snd (cs ! d)) (node hL hR cs st0 d m)"
  by simp_all

lemma bfs_ok:
  assumes "layer + remaining \<le> length cs" "remaining \<le> LOCAL_BFS_D ell_in"
  shows "bfs hL hR cs ell_in layer remaining (node hL hR cs st0 layer k) =
    Inr (map (\<lambda>i. node hL hR cs st0 (layer + remaining) (k * 2 ^ remaining + i)) [0..<2 ^ remaining])"
proof -
  let ?cur = "\<lambda>bd. map (\<lambda>i. node hL hR cs st0 (layer + bd) (k * 2 ^ bd + i)) [0..<2 ^ bd]"
  have "\<exists>c. for_loop 0 remaining (\<lambda>bd cur. rbind (rd cs (layer + bd)) (\<lambda>cw.
       if 2 * length cur > 2 ^ LOCAL_BFS_D ell_in then Inl MemFault
       else Inr (bfs_level hL hR cw cur))) [node hL hR cs st0 layer k] = Inr c \<and> c = ?cur remaining"
  proof (rule for_loop_rule [where P = "\<lambda>bd c. c = ?cur bd"])
    fix bd c assume bd: "bd < remaining" and c: "c = ?cur bd"
    have "(2 :: nat) ^ Suc bd \<le> 2 ^ LOCAL_BFS_D ell_in"
      using bd assms(2) by (intro power_increasing) auto
    then have fit: "\<not> 2 ^ LOCAL_BFS_D ell_in < 2 * length c" using c by simp
    have lt: "layer + bd < length cs" using bd assms(1) by simp
    let ?f = "\<lambda>i. node hL hR cs st0 (Suc (layer + bd)) (k * 2 ^ Suc bd + i)"
    have "k * 2 ^ Suc bd + 2 * i = 2 * (k * 2 ^ bd + i)" "k * 2 ^ Suc bd + (2 * i + 1) = 2 * (k * 2 ^ bd + i) + 1" for i
      by simp_all
    then have f: "?f (2 * i) = child hL (fst (cs ! (layer + bd))) (node hL hR cs st0 (layer + bd) (k * 2 ^ bd + i))"
      "?f (2 * i + 1) = child hR (snd (cs ! (layer + bd))) (node hL hR cs st0 (layer + bd) (k * 2 ^ bd + i))" for i
      by (simp_all only: node_double)
    have "bfs_level hL hR (cs ! (layer + bd)) c = concat (map (\<lambda>i. [?f (2 * i), ?f (2 * i + 1)]) [0..<2 ^ bd])"
      unfolding bfs_level_eq c f map_map o_def by (rule refl)
    also have "\<dots> = map ?f [0..<2 * 2 ^ bd]" by (rule concat_pairs)
    also have "\<dots> = ?cur (Suc bd)" by (simp only: power_Suc add_Suc_right)
    finally show "\<exists>c'. rbind (rd cs (layer + bd)) (\<lambda>cw.
       if 2 * length c > 2 ^ LOCAL_BFS_D ell_in then Inl MemFault
       else Inr (bfs_level hL hR cw c)) = Inr c' \<and> c' = ?cur (Suc bd)"
      using fit lt by simp
  qed auto
  then show ?thesis by (simp add: bfs_def)
qed

section \<open>Depth-first search\<close>

text \<open>The writes for the leaves from \<open>a\<close> to \<open>b\<close>.\<close>

definition out_writes :: "(nat \<Rightarrow> nat option) \<Rightarrow> (nat \<Rightarrow> byte) \<Rightarrow> nat \<Rightarrow> nat \<Rightarrow> (nat \<times> byte) list" where
  "out_writes emit f a b =
     concat (map (\<lambda>j. case emit j of None \<Rightarrow> [] | Some off \<Rightarrow> [(off, f j)]) [a..<b])"

lemma out_writes_split:
  "a \<le> m \<Longrightarrow> m \<le> b \<Longrightarrow> out_writes emit f a b = out_writes emit f a m @ out_writes emit f m b"
  using upt_add_eq_append [of a m "b - m"] by (simp add: out_writes_def)

lemma out_writes_none: "(\<And>j. a \<le> j \<Longrightarrow> j < b \<Longrightarrow> emit j = None) \<Longrightarrow> out_writes emit f a b = []"
  by (simp add: out_writes_def)

lemma leaf_writes_eq:
  "leaf_writes emit val g (map (\<lambda>i. h (g + i)) [0..<m]) = out_writes emit (\<lambda>j. val (h j)) g (g + m)"
proof (induction m arbitrary: g)
  case 0
  then show ?case by (simp add: out_writes_def)
next
  case (Suc m)
  have "map (\<lambda>i. h (g + i)) [0..<Suc m] = h g # map (\<lambda>i. h (Suc g + i)) [0..<m]"
    by (simp only: upt_conv_Cons [OF zero_less_Suc] map_Suc_upt [symmetric]) simp
  moreover have "[g..<g + Suc m] = g # [Suc g..<Suc g + m]" by (simp add: upt_conv_Cons)
  ultimately show ?case using Suc [of "Suc g"]
    by (simp add: out_writes_def del: upt_Suc split: option.split)
qed

text \<open>A pruned or dropped subtree has no selected leaf.\<close>

definition sound :: "search \<Rightarrow> bool" where
  "sound sp \<longleftrightarrow> (\<forall>a b j. (s_prune sp a b \<or> \<not> s_keep sp a b) \<longrightarrow> a \<le> j \<longrightarrow> j < b \<longrightarrow> s_emit sp j = None)"

text \<open>The entries below an entry of layer \<open>l\<close> are at most the \<open>l - split\<close> right siblings.\<close>

fun stk_ok :: "nat \<Rightarrow> stk_node list \<Rightarrow> bool" where
  "stk_ok split [] = True"
| "stk_ok split ((st, k, l) # stk) = (split \<le> l \<and> length stk \<le> l - split \<and> stk_ok split stk)"

definition subtree :: "search \<Rightarrow> (nat \<Rightarrow> byte) \<Rightarrow> nat \<Rightarrow> stk_node \<Rightarrow> (nat \<times> byte) list" where
  "subtree sp f ell_in = (\<lambda>(st, k, l).
     out_writes (s_emit sp) f (k * 2 ^ (ell_in - l)) ((k + 1) * 2 ^ (ell_in - l)))"

lemma subtree_children:
  assumes "l < ell_in"
  shows "subtree sp f ell_in (st, k, l) =
    subtree sp f ell_in (a, 2 * k, l + 1) @ subtree sp f ell_in (b, 2 * k + 1, l + 1)"
proof -
  have e: "(2 :: nat) ^ (ell_in - l) = 2 * 2 ^ (ell_in - (l + 1))"
    using assms by (metis Suc_diff_Suc Suc_eq_plus1 power_Suc)
  have "k * 2 ^ (ell_in - l) = 2 * k * 2 ^ (ell_in - (l + 1))"
    "(k + 1) * 2 ^ (ell_in - l) = (2 * k + 1 + 1) * 2 ^ (ell_in - (l + 1))"
    unfolding e by (simp_all add: algebra_simps)
  then show ?thesis unfolding subtree_def prod.case by (simp only:) (intro out_writes_split; simp)
qed

lemma subtree_none:
  assumes "sound sp" "s_prune sp (k * 2 ^ (ell_in - l)) ((k + 1) * 2 ^ (ell_in - l)) \<or>
    \<not> s_keep sp (k * 2 ^ (ell_in - l)) ((k + 1) * 2 ^ (ell_in - l))"
  shows "subtree sp f ell_in (st, k, l) = []"
  unfolding subtree_def prod.case by (rule out_writes_none) (use assms in \<open>unfold sound_def, blast\<close>)

lemma dfs_ok:
  assumes "length cs = ell_in" "sound sp" "stk_ok split stk"
    and "\<forall>(st, k, l)\<in>set stk. st = node hL hR cs st0 l k \<and> l \<le> ell_in"
  shows "dfs hL hR cs ell_in sp val stk =
    Inr (concat (map (subtree sp (\<lambda>j. val (node hL hR cs st0 ell_in j)) ell_in) stk))"
  using assms
proof (induction hL hR cs ell_in sp val stk rule: dfs.induct)
  case (1 hL hR cs ell_in sp val)
  then show ?case by (simp add: dfs.simps)
next
  case (2 hL hR cs ell_in sp val st k layer stk)
  let ?f = "\<lambda>j. val (node hL hR cs st0 ell_in j)"
  let ?rem = "ell_in - layer" and ?below = "ell_in - (layer + 1)"
  note IH = "2.IH" [OF refl refl refl]
  have st: "st = node hL hR cs st0 layer k" "layer \<le> ell_in" and rest:
    "\<forall>(st, k, l)\<in>set stk. st = node hL hR cs st0 l k \<and> l \<le> ell_in" "stk_ok split stk"
    and sz: "split \<le> layer" "length stk \<le> layer - split"
    using "2.prems" by auto
  show ?case
  proof (cases "s_prune sp (k * 2 ^ ?rem) ((k + 1) * 2 ^ ?rem)")
    case True
    then have "subtree sp ?f ell_in (st, k, layer) = []"
      using "2.prems"(2) by (intro subtree_none) auto
    then show ?thesis using IH(1) [OF True "2.prems"(1,2) rest(2,1)] True
      by (subst dfs.simps) (simp add: Let_def)
  next
    case noprune: False
    show ?thesis
    proof (cases "?rem \<le> LOCAL_BFS_D ell_in")
      case True
      have "bfs hL hR cs ell_in layer ?rem st =
          Inr (map (\<lambda>i. node hL hR cs st0 ell_in (k * 2 ^ ?rem + i)) [0..<2 ^ ?rem])"
        using bfs_ok [of layer ?rem cs ell_in hL hR st0 k] True st "2.prems"(1) by simp
      moreover have "dfs hL hR cs ell_in sp val stk = Inr (concat (map (subtree sp ?f ell_in) stk))"
        using IH(2) [OF noprune True "2.prems"(1,2) rest(2,1)] by blast
      moreover have "leaf_writes (s_emit sp) val (k * 2 ^ ?rem)
          (map (\<lambda>i. node hL hR cs st0 ell_in (k * 2 ^ ?rem + i)) [0..<2 ^ ?rem]) = subtree sp ?f ell_in (st, k, layer)"
        unfolding subtree_def prod.case leaf_writes_eq by (simp add: add.commute)
      ultimately show ?thesis using noprune True
        by (subst dfs.simps) (simp add: Let_def)
    next
      case deep: False
      then have lt: "layer < ell_in" by linarith
      let ?cw = "cs ! layer"
      let ?r = "(child hR (snd ?cw) st, 2 * k + 1, layer + 1)" and ?l = "(child hL (fst ?cw) st, 2 * k, layer + 1)"
      let ?kr = "s_keep sp ((2 * k + 1) * 2 ^ ?below) ((2 * k + 1 + 1) * 2 ^ ?below)"
      let ?kl = "s_keep sp (2 * k * 2 ^ ?below) ((2 * k + 1) * 2 ^ ?below)"
      let ?stk1 = "if ?kr then ?r # stk else stk"
      let ?stk2 = "if ?kl then ?l # ?stk1 else ?stk1"
      have cw: "rd cs layer = Inr ?cw" using lt "2.prems"(1) by simp
      have ok2: "stk_ok split ?stk2" using sz rest(2) by auto
      have "length ?stk2 \<le> layer + 2 - split" using sz by auto
      then have cap: "\<not> length ?stk2 > stk_cap ell_in"
        using deep lt by (auto simp: stk_cap_def split: if_splits)
      have nodes: "\<forall>(st, k, l)\<in>set ?stk2. st = node hL hR cs st0 l k \<and> l \<le> ell_in"
        using rest(1) st lt by auto
      have "subtree sp ?f ell_in ?r = []" if "\<not> ?kr"
        by (rule subtree_none [OF "2.prems"(2)]) (use that in blast)
      moreover have "subtree sp ?f ell_in ?l = []" if "\<not> ?kl"
        by (rule subtree_none [OF "2.prems"(2)]) (use that in blast)
      ultimately have "concat (map (subtree sp ?f ell_in) ?stk2) =
          concat (map (subtree sp ?f ell_in) ((st, k, layer) # stk))"
        using subtree_children [OF lt, of sp ?f st k "child hL (fst ?cw) st" "child hR (snd ?cw) st"]
        by simp
      moreover have "dfs hL hR cs ell_in sp val ((st, k, layer) # stk) = dfs hL hR cs ell_in sp val ?stk2"
        using noprune deep cw cap by (subst dfs.simps) (simp only: Let_def rbind_Inr if_False)
      moreover have "dfs hL hR cs ell_in sp val ?stk2 = Inr (concat (map (subtree sp ?f ell_in) ?stk2))"
        using IH(3) [OF noprune deep refl refl refl refl refl cap "2.prems"(1,2) ok2 nodes] by blast
      ultimately show ?thesis by simp
    qed
  qed
qed

end
