(* ===== verification/Dpf_Threads.thy ===== *)
theory Dpf_Threads
  imports Dpf_Eval_Facts
begin

text \<open>
  From one search to the whole evaluation: the ranges handed to the threads partition the tasks,
  so the writes of all threads together are one write per selected leaf, and every interleaving
  of them leaves the same vector.
\<close>

section \<open>One thread\<close>

lemma eval_thread_ok:
  assumes cs: "length cs = ell_in" "split \<le> ell_in" and sp: "sound sp"
    and tasks: "length tasks = 2 ^ split" "\<forall>j<2 ^ split. tasks ! j = node hL hR cs st0 split j"
    and ab: "a \<le> b" "b \<le> 2 ^ split"
  shows "eval_thread hL hR cs ell_in sp val split tasks a b =
    Inr (out_writes (s_emit sp) (\<lambda>j. val (node hL hR cs st0 ell_in j))
      (a * 2 ^ (ell_in - split)) (b * 2 ^ (ell_in - split)))"
proof -
  let ?w = "2 ^ (ell_in - split)" and ?f = "\<lambda>j. val (node hL hR cs st0 ell_in j)"
  have "\<exists>ws. for_loop a b (\<lambda>t ws. rbind (rd tasks t) (\<lambda>st.
       rbind (dfs hL hR cs ell_in sp val [(st, t, split)]) (\<lambda>w. Inr (ws @ w)))) [] = Inr ws \<and>
     ws = out_writes (s_emit sp) ?f (a * ?w) (b * ?w)"
  proof (rule for_loop_rule [where P = "\<lambda>t ws. ws = out_writes (s_emit sp) ?f (a * ?w) (t * ?w)"])
    fix t ws assume t: "a \<le> t" "t < b" and ws: "ws = out_writes (s_emit sp) ?f (a * ?w) (t * ?w)"
    have lt: "t < 2 ^ split" using t ab by simp
    have "dfs hL hR cs ell_in sp val [(tasks ! t, t, split)] = Inr (subtree sp ?f ell_in (tasks ! t, t, split))"
      using dfs_ok [OF cs(1) sp, of split "[(tasks ! t, t, split)]" hL hR st0 val] tasks(2) lt cs by simp
    moreover have "out_writes (s_emit sp) ?f (a * ?w) (Suc t * ?w) =
        ws @ subtree sp ?f ell_in (tasks ! t, t, split)"
      unfolding ws subtree_def prod.case
      using out_writes_split [of "a * ?w" "t * ?w" "(t + 1) * ?w" "s_emit sp" ?f] t(1) by simp
    ultimately show "\<exists>ws'. rbind (rd tasks t) (\<lambda>st.
        rbind (dfs hL hR cs ell_in sp val [(st, t, split)]) (\<lambda>w. Inr (ws @ w))) = Inr ws' \<and>
        ws' = out_writes (s_emit sp) ?f (a * ?w) (Suc t * ?w)"
      using lt tasks(1) by simp
  qed (use ab in \<open>simp_all add: out_writes_def\<close>)
  then show ?thesis by (simp add: eval_thread_def)
qed

section \<open>The ranges of the threads\<close>

lemma takeWhile_upt: "takeWhile P [0..<n] = [0..<length (takeWhile P [0..<n])]"
  by (metis add_0 diff_zero length_takeWhile_le length_upt take_upt takeWhile_eq_take)

lemma task_ranges_cover:
  fixes total cores :: nat
  assumes "0 < cores"
  shows "concat (map (\<lambda>(a, b). out_writes emit f (a * w) (b * w)) (task_ranges total cores)) =
      out_writes emit f 0 (total * w)"
    and "(a, b) \<in> set (task_ranges total cores) \<Longrightarrow> a \<le> b \<and> b \<le> total"
proof -
  let ?tpt = "(total + cores - 1) div cores"
  let ?P = "\<lambda>i. \<not> i * ?tpt \<ge> total"
  let ?m = "length (takeWhile ?P [0..<cores])"
  let ?r = "\<lambda>i. (i * ?tpt, min (i * ?tpt + ?tpt) total)"
  have ranges: "task_ranges total cores = map ?r [0..<?m]"
    unfolding task_ranges_def Let_def by (subst takeWhile_upt) (rule refl)
  have below: "i * ?tpt < total" if "i < ?m" for i
    using that takeWhile_nth [of i ?P "[0..<cores]"] set_takeWhileD [of i ?P "[0..<cores]"]
      takeWhile_upt [of ?P cores] by (metis add_0 atLeastLessThan_iff linorder_not_le not_less set_upt zero_le)
  have "total \<le> cores * ?tpt"
  proof -
    have "total + cores - 1 < cores * Suc ?tpt"
      using assms by (metis dividend_less_div_times mult.commute mult_Suc_right add.commute)
    then show ?thesis using assms by simp
  qed
  moreover have "?m = cores \<or> total \<le> ?m * ?tpt"
    using nth_length_takeWhile [of ?P "[0..<cores]"] length_takeWhile_le [of ?P "[0..<cores]"]
    by (metis (no_types, lifting) add_0 diff_zero le_neq_implies_less length_upt nth_upt)
  ultimately have top: "total \<le> ?m * ?tpt" by metis
  have "concat (map (\<lambda>(a, b). out_writes emit f (a * w) (b * w)) (map ?r [0..<i])) =
      out_writes emit f 0 (min (i * ?tpt) total * w)" if "i \<le> ?m" for i
    using that
  proof (induction i)
    case 0
    then show ?case by (simp add: out_writes_def)
  next
    case (Suc i)
    then have lt: "i * ?tpt < total" using below by simp
    let ?b = "min (i * ?tpt + ?tpt) total"
    have "out_writes emit f 0 (?b * w) = out_writes emit f 0 (i * ?tpt * w) @ out_writes emit f (i * ?tpt * w) (?b * w)"
      using lt by (intro out_writes_split) (auto intro: mult_le_mono1)
    with Suc lt show ?case by (simp add: min_def add.commute)
  qed
  from this [of ?m] top show "concat (map (\<lambda>(a, b). out_writes emit f (a * w) (b * w)) (task_ranges total cores)) =
      out_writes emit f 0 (total * w)"
    unfolding ranges by (simp add: min_absorb2)
  show "(a, b) \<in> set (task_ranges total cores) \<Longrightarrow> a \<le> b \<and> b \<le> total"
    unfolding ranges using below by fastforce
qed

text \<open>The value a party computes for the leaf \<open>j\<close>.\<close>

definition share_at :: "ccrh \<Rightarrow> nat \<Rightarrow> nat \<Rightarrow> dpf_pid \<Rightarrow> dpf_key \<Rightarrow> nat \<Rightarrow> byte" where
  "share_at ccrh ell_in ell_out pid key j =
     leaf_value ell_out pid (cwLast key)
       (node (ccrh (load_block (keyL key))) (ccrh (load_block (keyR key))) (cws key) (stOrigin key) ell_in j)"

lemma split_le: "splitCoff ell_in cores \<le> ell_in"
  by (simp add: splitCoff_def)

lemma eval_threads_ok:
  assumes "length (cws key) = ell_in" "0 < cores" "sound sp"
  defines "w \<equiv> 2 ^ (ell_in - splitCoff ell_in cores) :: nat"
  shows "\<exists>ws. eval_threads ccrh ell_in ell_out pid cores sp key = Inr ws \<and>
    ws = map (\<lambda>(a, b). out_writes (s_emit sp) (share_at ccrh ell_in ell_out pid key) (a * w) (b * w))
      (task_ranges (2 ^ splitCoff ell_in cores) cores) \<and>
    concat ws = out_writes (s_emit sp) (share_at ccrh ell_in ell_out pid key) 0 (2 ^ ell_in)"
proof -
  let ?hL = "ccrh (load_block (keyL key))" and ?hR = "ccrh (load_block (keyR key))"
  let ?s = "splitCoff ell_in cores" and ?f = "share_at ccrh ell_in ell_out pid key"
  let ?w = "2 ^ (ell_in - ?s) :: nat"
  obtain tasks where tasks: "expand_tasks ?hL ?hR (cws key) (stOrigin key) ?s = Inr tasks"
    "length tasks = 2 ^ ?s" "\<forall>j<2 ^ ?s. tasks ! j = node ?hL ?hR (cws key) (stOrigin key) ?s j"
    using expand_tasks_ok [of ?s "cws key" ?hL ?hR "stOrigin key"] assms(1) split_le by auto
  have "collect (map (\<lambda>(a, b). eval_thread ?hL ?hR (cws key) ell_in sp (leaf_value ell_out pid (cwLast key)) ?s
      tasks a b) (task_ranges (2 ^ ?s) cores)) =
    Inr (map (\<lambda>(a, b). out_writes (s_emit sp) ?f (a * ?w) (b * ?w)) (task_ranges (2 ^ ?s) cores))"
  proof (rule collect_ok)
    fix x assume x: "x \<in> set (task_ranges (2 ^ ?s) cores)"
    obtain a b where ab: "x = (a, b)" by (cases x)
    have "a \<le> b \<and> b \<le> 2 ^ ?s" using task_ranges_cover(2) [OF assms(2)] x ab by blast
    then show "(case x of (a, b) \<Rightarrow> eval_thread ?hL ?hR (cws key) ell_in sp (leaf_value ell_out pid (cwLast key)) ?s
        tasks a b) = Inr (case x of (a, b) \<Rightarrow> out_writes (s_emit sp) ?f (a * ?w) (b * ?w))"
      using eval_thread_ok [OF assms(1) split_le assms(3) tasks(2,3), of a b "leaf_value ell_out pid (cwLast key)"]
      by (simp add: ab share_at_def [abs_def])
  qed
  moreover have "2 ^ ?s * ?w = 2 ^ ell_in" using split_le [of ell_in cores] by (simp flip: power_add)
  ultimately show ?thesis
    using tasks(1) task_ranges_cover(1) [OF assms(2), of "s_emit sp" ?f ?w "2 ^ ?s"]
    by (simp add: eval_threads_def Let_def w_def)
qed

section \<open>The output vector\<close>

lemma share_at_valid:
  "ell_out \<le> 8 \<Longrightarrow> pid \<noteq> DEALER \<Longrightarrow>
     take_bit ell_out (share_at ccrh ell_in ell_out pid key j) = share_at ccrh ell_in ell_out pid key j"
  by (simp add: share_at_def leaf_value_eq)

text \<open>The selected leaves, if their output indices are distinct and fill the vector.\<close>

definition selects :: "(nat \<Rightarrow> nat option) \<Rightarrow> nat \<Rightarrow> (nat \<Rightarrow> nat) \<Rightarrow> nat \<Rightarrow> bool" where
  "selects emit N src len \<longleftrightarrow>
     (\<forall>j off. emit j = Some off \<and> j < N \<longrightarrow> off < len \<and> src off = j) \<and>
     (\<forall>off<len. src off < N \<and> emit (src off) = Some off)"

lemma set_out_writes_between:
  "(off, x) \<in> set (out_writes emit f a b) \<longleftrightarrow> (\<exists>j. a \<le> j \<and> j < b \<and> emit j = Some off \<and> x = f j)"
  by (auto simp: out_writes_def split: option.splits) (metis atLeastLessThan_iff option.set_intros)+

lemma set_out_writes:
  "(off, x) \<in> set (out_writes emit f 0 N) \<longleftrightarrow> (\<exists>j<N. emit j = Some off \<and> x = f j)"
  by (auto simp: set_out_writes_between)

lemma out_writes_distinct:
  assumes "selects emit N src len"
  shows "distinct (map fst (out_writes emit f 0 M)) \<or> M > N"
proof (induction M)
  case (Suc M)
  show ?case
  proof (cases "Suc M > N")
    case False
    then have d: "distinct (map fst (out_writes emit f 0 M))" using Suc by simp
    have "out_writes emit f 0 (Suc M) =
        out_writes emit f 0 M @ (case emit M of None \<Rightarrow> [] | Some off \<Rightarrow> [(off, f M)])"
      by (simp add: out_writes_def)
    moreover have "off \<notin> fst ` set (out_writes emit f 0 M)" if "emit M = Some off" for off
    proof
      assume "off \<in> fst ` set (out_writes emit f 0 M)"
      then obtain j where "j < M" "emit j = Some off" using set_out_writes [of off] by auto
      then show False using assms False that unfolding selects_def
        by (metis Suc_le_lessD less_irrefl less_trans not_le)
    qed
    ultimately show ?thesis using d by (auto split: option.split)
  qed simp
qed (simp add: out_writes_def)

text \<open>
  The threads of a full evaluation own whole machine words: with more than one task, a task is
  at least \<open>2 ^ 8\<close> leaves.
\<close>

lemma task_ranges_apart:
  fixes total cores :: nat
  assumes "i < j" "j < length (task_ranges total cores)"
  shows "snd (task_ranges total cores ! i) \<le> fst (task_ranges total cores ! j)"
    and "0 < cores \<Longrightarrow> total \<noteq> 1"
proof -
  let ?tpt = "(total + cores - 1) div cores"
  let ?P = "\<lambda>i. \<not> i * ?tpt \<ge> total"
  define m where "m = length (takeWhile ?P [0..<cores])"
  have r: "task_ranges total cores = map (\<lambda>i. (i * ?tpt, min (i * ?tpt + ?tpt) total)) [0..<m]"
    unfolding task_ranges_def Let_def m_def by (subst takeWhile_upt) (rule refl)
  have j: "j < m" using assms(2) by (simp add: r)
  have "(i + 1) * ?tpt \<le> j * ?tpt" using assms(1) by (intro mult_le_mono1) simp
  then show "snd (task_ranges total cores ! i) \<le> fst (task_ranges total cores ! j)"
    using assms(1) j by (simp add: r algebra_simps min.coboundedI1)
  have "\<not> total \<le> j * ?tpt"
    using j takeWhile_nth [of j ?P "[0..<cores]"] set_takeWhileD [of j ?P "[0..<cores]"]
    unfolding m_def by (metis (mono_tags, lifting) nth_mem nth_upt add_0 takeWhile_upt)
  then show "total \<noteq> 1" if "0 < cores" using assms(1) that by auto
qed

lemma words_apart:
  fixes k m w :: nat
  assumes "m dvd w" "0 < m" "k < b * w" "b \<le> a" "a * w \<le> k'"
  shows "k div m < k' div m"
proof -
  obtain c where w: "w = m * c" using assms(1) by blast
  have "k div m < b * c" using assms(2,3) by (simp add: div_less_iff_less_mult w mult_ac)
  also have "\<dots> \<le> a * c" using assms(4) by simp
  also have "a * c \<le> k' div m" using assms(2,5) by (simp add: less_eq_div_iff_mult_less_eq w mult_ac)
  finally show ?thesis .
qed

lemma full_no_races:
  assumes "0 < cores"
    and "ws = map (\<lambda>(a, b). out_writes Some f (a * 2 ^ (ell_in - splitCoff ell_in cores))
        (b * 2 ^ (ell_in - splitCoff ell_in cores))) (task_ranges (2 ^ splitCoff ell_in cores) cores)"
  shows "\<not> races (\<lambda>k. k div ELEMS_PER_WORD ell_out) ws"
proof
  let ?s = "splitCoff ell_in cores"
  let ?R = "task_ranges (2 ^ ?s) cores" and ?w = "2 ^ (ell_in - ?s) :: nat" and ?m = "ELEMS_PER_WORD ell_out"
  assume "races (\<lambda>k. k div ?m) ws"
  then obtain i j k x k' x' where ij: "i < j" "j < length ws" and
    k: "(k, x) \<in> set (ws ! i)" "(k', x') \<in> set (ws ! j)" "k div ?m = k' div ?m"
    unfolding races_def by blast
  have j: "j < length ?R" and i: "i < length ?R" using ij by (simp_all add: assms(2))
  have "k < snd (?R ! i) * ?w" "fst (?R ! j) * ?w \<le> k'"
    using k(1,2) i j by (simp_all add: assms(2) set_out_writes_between case_prod_beta)
  moreover have "?s \<noteq> 0" using task_ranges_apart(2) [OF ij(1) j assms(1)] by (metis power_0)
  then have "8 \<le> ell_in - ?s" by (auto simp: splitCoff_def LOCAL_BFS_D_def split: if_splits)
  then have "2 ^ 8 dvd ?w" by (rule le_imp_power_dvd)
  then have "?m dvd ?w" by (rule dvd_trans [rotated]) (simp add: ELEMS_PER_WORD_def)
  ultimately show False
    using words_apart [of ?m ?w k "snd (?R ! i)" "fst (?R ! j)" k'] task_ranges_apart(1) [OF ij(1) j] k(3)
    by (simp add: ELEMS_PER_WORD_def split: if_splits)
qed

lemma joined_out_writes:
  assumes buf: "rv_ok ell_out buf" "n_elems buf = len" and sel: "selects emit N src len"
    and f: "\<And>j. take_bit ell_out (f j) = f j" and ws: "concat ws = out_writes emit f 0 N"
  shows "\<exists>r. joined (rv_set ell_out) buf ws r"
    and "joined (rv_set ell_out) buf ws r \<Longrightarrow>
      \<exists>v. r = Inr v \<and> rv_ok ell_out v \<and> elems ell_out v = map (\<lambda>i. f (src i)) [0..<len]"
proof -
  have d: "distinct (map fst (concat ws))" using out_writes_distinct [OF sel, of f N] ws by simp
  have ok: "\<forall>(k, x)\<in>set (concat ws). k < length (elems ell_out buf) \<and> take_bit ell_out x = x"
    using sel f buf(2) unfolding ws by (auto simp: set_out_writes selects_def)
  have "updates (concat ws) (elems ell_out buf) = map (\<lambda>i. f (src i)) [0..<length (elems ell_out buf)]"
  proof (rule updates_all [OF d])
    show "fst ` set (concat ws) = {..<length (elems ell_out buf)}"
    proof (intro equalityI subsetI)
      fix k assume "k \<in> fst ` set (concat ws)"
      then obtain x where "(k, x) \<in> set (out_writes emit f 0 N)" unfolding ws by auto
      then show "k \<in> {..<length (elems ell_out buf)}"
        using sel buf(2) by (auto simp: set_out_writes selects_def)
    next
      fix k assume "k \<in> {..<length (elems ell_out buf)}"
      then have "(k, f (src k)) \<in> set (out_writes emit f 0 N)"
        using sel buf(2) by (auto simp: set_out_writes selects_def)
      then show "k \<in> fst ` set (concat ws)" unfolding ws by force
    qed
    show "x = f (src i)" if "(i, x) \<in> set (concat ws)" for i x
      using that sel unfolding ws set_out_writes selects_def by blast
  qed
  then show "\<exists>r. joined (rv_set ell_out) buf ws r"
    and "joined (rv_set ell_out) buf ws r \<Longrightarrow>
      \<exists>v. r = Inr v \<and> rv_ok ell_out v \<and> elems ell_out v = map (\<lambda>i. f (src i)) [0..<len]"
    using rv.joined_unique [OF buf(1) d ok] buf(2) by simp_all
qed

end
