(* ===== verification/Dpf_Theorems.thy ===== *)
theory Dpf_Theorems
  imports Dpf_Threads Vector_Theorems
begin

text \<open>
  The distributed point function as a whole: what the two evaluations compute, that the shares
  of the two parties add up to the point function, the reconstruction by the dealer, and where
  the threads of an evaluation touch the same machine word.
\<close>

section \<open>Evaluation\<close>

lemma full_sound: "sound full_search"
  by (simp add: sound_def full_search_def)

lemma full_selects: "selects (s_emit full_search) N (\<lambda>i. i) N"
  by (auto simp: selects_def full_search_def)

lemma full_evaluation':
  assumes "length (cws key) = ell_in" "0 < cores" "pid \<noteq> DEALER"
    and "rv_ok ell_out buf" "rv_size buf = 2 ^ ell_in"
  shows "(\<exists>r. fullEval ccrh ell_in ell_out pid cores key buf r) \<and>
    (\<forall>r. fullEval ccrh ell_in ell_out pid cores key buf r \<longrightarrow>
      (\<exists>v. r = Inr v \<and> rv_ok ell_out v \<and>
         elems ell_out v = map (share_at ccrh ell_in ell_out pid key) [0..<2 ^ ell_in]))"
proof -
  let ?f = "share_at ccrh ell_in ell_out pid key" and ?w = "2 ^ (ell_in - splitCoff ell_in cores) :: nat"
  obtain ws where ws: "eval_threads ccrh ell_in ell_out pid cores full_search key = Inr ws"
    "ws = map (\<lambda>(a, b). out_writes Some ?f (a * ?w) (b * ?w)) (task_ranges (2 ^ splitCoff ell_in cores) cores)"
    "concat ws = out_writes (s_emit full_search) ?f 0 (2 ^ ell_in)"
    using eval_threads_ok [OF assms(1,2) full_sound] by (auto simp: full_search_def)
  have v: "take_bit ell_out (?f j) = ?f j" for j
    using share_at_valid assms(3,4) rv_ok_ell by blast
  have n: "n_elems buf = 2 ^ ell_in" using assms(5) by (simp add: rv_size_def)
  show ?thesis
    using joined_out_writes [OF assms(4) n full_selects v ws(3)] ws(1) assms(5) full_no_races [OF assms(2) ws(2)]
    by (auto simp: fullEval_def threads_def)
qed

text \<open>C10: \<open>fullEval\<close> terminates for every number of threads and every interleaving of them
  without leaving its buffers and without two threads writing one machine word, and fills the
  vector with the value of the key at every point.\<close>

theorem full_evaluation:
  assumes "length (cws key) = ell_in" "0 < cores" "pid \<noteq> DEALER"
    and "rv_ok ell_out buf" "rv_size buf = 2 ^ ell_in"
  shows "(\<exists>r. fullEval ccrh ell_in ell_out pid cores key buf r) \<and>
    (\<forall>r. fullEval ccrh ell_in ell_out pid cores key buf r \<longrightarrow>
      (\<exists>v. r = Inr v \<and> rv_ok ell_out v \<and>
         elems ell_out v = map (share_at ccrh ell_in ell_out pid key) [0..<2 ^ ell_in]))"
  using full_evaluation' [OF assms] .

lemma range_sound: "sound (range_search ell_in bg ed)"
  by (auto simp: sound_def range_search_def range_prune_def range_keep_def range_emit_def)

lemma range_selects:
  assumes "bg < N" "ed < N"
  shows "selects (range_emit N bg ed) N (\<lambda>i. (bg + i) mod N) (rangeLen N bg ed)"
proof (cases "ed < bg")
  case True
  have m: "(bg + i) mod N = (if bg + i < N then bg + i else bg + i - N)" if "i < (N - bg) + ed + 1" for i
    using that assms by (auto simp: mod_if)
  show ?thesis using True assms m
    by (auto simp: selects_def range_emit_def rangeLen_def split: if_splits)
next
  case False
  then have "(bg + i) mod N = bg + i" if "i < ed - bg + 1" for i
    using that assms by simp
  with False assms show ?thesis
    by (auto simp: selects_def range_emit_def rangeLen_def split: if_splits)
qed

lemma range_evaluation':
  assumes "length (cws key) = ell_in" "0 < cores" "pid \<noteq> DEALER"
    and "rv_ok ell_out buf" "bg < 2 ^ ell_in" "ed < 2 ^ ell_in"
    and "rv_size buf = (if ed < bg then 2 ^ ell_in - bg + ed + 1 else ed - bg + 1)"
    and "cores = 1 \<or> ell_out \<noteq> 1"
  shows "(\<exists>r. rangeEval ccrh ell_in ell_out pid cores key bg ed buf r) \<and>
    (\<forall>r. rangeEval ccrh ell_in ell_out pid cores key bg ed buf r \<longrightarrow>
      (\<exists>v. r = Inr v \<and> rv_ok ell_out v \<and> elems ell_out v =
         map (\<lambda>i. share_at ccrh ell_in ell_out pid key ((bg + i) mod 2 ^ ell_in)) [0..<rv_size buf]))"
proof -
  let ?sp = "range_search ell_in bg ed" and ?f = "share_at ccrh ell_in ell_out pid key"
  let ?w = "2 ^ (ell_in - splitCoff ell_in cores) :: nat"
  obtain ws where ws: "eval_threads ccrh ell_in ell_out pid cores ?sp key = Inr ws"
    "ws = map (\<lambda>(a, b). out_writes (s_emit ?sp) ?f (a * ?w) (b * ?w)) (task_ranges (2 ^ splitCoff ell_in cores) cores)"
    "concat ws = out_writes (s_emit ?sp) ?f 0 (2 ^ ell_in)"
    using eval_threads_ok [OF assms(1,2) range_sound] by blast
  have v: "take_bit ell_out (?f j) = ?f j" for j
    using share_at_valid assms(3,4) rv_ok_ell by blast
  have n: "n_elems buf = rangeLen (2 ^ ell_in) bg ed" using assms(7) by (simp add: rv_size_def rangeLen_def)
  have sel: "selects (s_emit ?sp) (2 ^ ell_in) (\<lambda>i. (bg + i) mod 2 ^ ell_in) (rangeLen (2 ^ ell_in) bg ed)"
    using range_selects [OF assms(5,6)] by (simp add: range_search_def)
  have "\<not> races (\<lambda>k. k div ELEMS_PER_WORD ell_out) ws"
  proof (cases "cores = 1")
    case True
    then have "length (task_ranges (2 ^ splitCoff ell_in cores) cores) \<le> 1"
      by (simp add: task_ranges_def Let_def order_trans [OF length_takeWhile_le])
    then show ?thesis by (auto simp: races_def ws(2))
  next
    case False
    then have "ELEMS_PER_WORD ell_out = 1" using assms(8) by (simp add: ELEMS_PER_WORD_def)
    then show ?thesis using distinct_no_races [of ws] out_writes_distinct [OF sel, of ?f "2 ^ ell_in"] ws(3) by simp
  qed
  then show ?thesis
    using joined_out_writes [OF assms(4) n sel v ws(3)] ws(1) assms(5-7)
    by (auto simp: rangeEval_def rangeLen_def threads_def)
qed

text \<open>C11: \<open>rangeEval\<close>, with its pruning, computes exactly the values of the closed interval from
  \<open>bg\<close> to \<open>ed\<close>, taken around the end of the domain when \<open>ed < bg\<close>, with \<open>bg\<close> at index 0,
  on one thread, or on any number of threads when an element has a byte of its own.\<close>

theorem range_evaluation:
  assumes "length (cws key) = ell_in" "0 < cores" "pid \<noteq> DEALER"
    and "rv_ok ell_out buf" "bg < 2 ^ ell_in" "ed < 2 ^ ell_in"
    and "rv_size buf = (if ed < bg then 2 ^ ell_in - bg + ed + 1 else ed - bg + 1)"
    and "cores = 1 \<or> ell_out \<noteq> 1"
  shows "(\<exists>r. rangeEval ccrh ell_in ell_out pid cores key bg ed buf r) \<and>
    (\<forall>r. rangeEval ccrh ell_in ell_out pid cores key bg ed buf r \<longrightarrow>
      (\<exists>v. r = Inr v \<and> rv_ok ell_out v \<and> elems ell_out v =
         map (\<lambda>i. share_at ccrh ell_in ell_out pid key ((bg + i) mod 2 ^ ell_in)) [0..<rv_size buf]))"
  by (rule range_evaluation' [OF assms])

section \<open>The point function\<close>

lemma domain_size: "n \<le> 31 \<Longrightarrow> unat (ucast (push_bit n (1 :: u64)) :: u32) = 2 ^ n"
proof -
  assume n: "n \<le> 31"
  have "(ucast (push_bit n (1 :: u64)) :: u32) = push_bit n 1"
    by (rule bit_word_eqI) (use n in \<open>auto simp: bit_simps\<close>)
  also have "\<dots> = of_nat (2 ^ n)" by simp
  also have "unat \<dots> = take_bit LENGTH(32) (2 ^ n)" by (simp only: unsigned_of_nat of_nat_id)
  also have "\<dots> = 2 ^ n"
    using n power_strict_increasing [of n 32 "2 :: nat"] by (intro take_bit_nat_eq_self) simp
  finally show ?thesis .
qed

lemma gen_shares:
  assumes gen: "gen ccrh ell_in ell_out sodium_init r0 r1 kL kR alpha beta = Inr (k0, k1)"
    and ell: "ell_in \<le> 31" "ell_out \<le> 8"
  shows "unat alpha < 2 ^ ell_in" "length (cws k0) = ell_in" "length (cws k1) = ell_in"
    "j < 2 ^ ell_in \<Longrightarrow>
      ringAdd8 ell_out (share_at ccrh ell_in ell_out EVALUATOR_0 k0 j) (share_at ccrh ell_in ell_out EVALUATOR_1 k1 j)
      = (if j = unat alpha then take_bit ell_out beta else 0)"
proof -
  show a: "unat alpha < 2 ^ ell_in"
    using gen domain_size [OF ell(1)] by (auto simp: gen_def not_le word_less_nat_alt split: if_splits)
  let ?hL = "ccrh (load_block kL)" and ?hR = "ccrh (load_block kR)"
  let ?s0 = "gen_root 0 r0" and ?s1 = "gen_root 1 r1"
  obtain cs t0 t1 where l: "gen_loop ?hL ?hR ell_in alpha [0..<ell_in] ?s0 ?s1 = (cs, t0, t1)"
    by (cases "gen_loop ?hL ?hR ell_in alpha [0..<ell_in] ?s0 ?s1") auto
  have k: "k0 = \<lparr>stOrigin = ?s0, cws = cs, cwLast = gen_cwLast ell_out beta t0 t1, keyL = kL, keyR = kR\<rparr>"
    "k1 = \<lparr>stOrigin = ?s1, cws = cs, cwLast = gen_cwLast ell_out beta t0 t1, keyL = kL, keyR = kR\<rparr>"
    using gen l by (auto simp: gen_def Let_def split: if_splits)
  let ?n0 = "node ?hL ?hR cs ?s0" and ?n1 = "node ?hL ?hR cs ?s1"
  have "paired 0 (?n0 0) (?n1 0) (path ell_in alpha 0) ?s0 ?s1"
    using a gen_root_msb by (simp add: paired_def path_def)
  from gen_loop_paired [OF _ l _ this] have
    P: "paired ell_in (?n0 ell_in) (?n1 ell_in) (unat alpha) t0 t1" and len: "length cs = ell_in"
    by (simp_all add: path_def)
  show "length (cws k0) = ell_in" "length (cws k1) = ell_in" using k len by simp_all
  show "ringAdd8 ell_out (share_at ccrh ell_in ell_out EVALUATOR_0 k0 j) (share_at ccrh ell_in ell_out EVALUATOR_1 k1 j)
      = (if j = unat alpha then take_bit ell_out beta else 0)" if "j < 2 ^ ell_in"
  proof (cases "j = unat alpha")
    case True
    then show ?thesis using P leaf_path [OF ell(2) _ refl, of t0 t1 beta]
      by (simp add: share_at_def k paired_def)
  next
    case False
    then show ?thesis using P that leaf_same [OF ell(2)] by (simp add: share_at_def k paired_def)
  qed
qed

text \<open>A key with all-zero correction words over a domain of four points, for the instances.\<close>

definition small_key :: dpf_key where
  "small_key = \<lparr>stOrigin = 0, cws = [(0, 0), (0, 0)], cwLast = 1, keyL = replicate 16 0, keyR = replicate 16 0\<rparr>"

definition out4 :: rvec where "out4 = \<lparr>n_elems = 4, n_words = 4, d64 = [], d8 = [0, 0, 0, 0]\<rparr>"

lemma out4_ok: "rv_ok 3 out4" "rv_size out4 = 2 ^ 2" "n_elems out4 = 4"
  by (simp_all add: rv_ok_def out4_def wordsFor_def ELEMS_PER_WORD_def usz_def rv_size_def)

theorem full_evaluation_witness:
  "\<exists>v. fullEval (\<lambda>k x. x) 2 3 EVALUATOR_0 2 small_key out4 (Inr v) \<and> rv_ok 3 v \<and>
    elems 3 v = map (share_at (\<lambda>k x. x) 2 3 EVALUATOR_0 small_key) [0..<4]"
  using full_evaluation [of small_key 2 2 EVALUATOR_0 3 out4 "\<lambda>k x. x"] out4_ok
  by (force simp: small_key_def)

definition out2 :: rvec where "out2 = \<lparr>n_elems = 2, n_words = 2, d64 = [], d8 = [0, 0]\<rparr>"

theorem range_evaluation_witness:
  "\<exists>v. rangeEval (\<lambda>k x. x) 2 3 EVALUATOR_1 1 small_key 3 0 out2 (Inr v) \<and>
    elems 3 v = [share_at (\<lambda>k x. x) 2 3 EVALUATOR_1 small_key 3, share_at (\<lambda>k x. x) 2 3 EVALUATOR_1 small_key 0]"
proof -
  have "rv_ok 3 out2" by (simp add: rv_ok_def out2_def wordsFor_def ELEMS_PER_WORD_def usz_def)
  moreover have "rv_size out2 = 2" by (simp add: rv_size_def out2_def)
  moreover have "length (cws small_key) = 2" by (simp add: small_key_def)
  ultimately show ?thesis
    using range_evaluation [of small_key 2 1 EVALUATOR_1 3 out2 3 0 "\<lambda>k x. x"]
    by (auto simp: upt_numerals)
qed

lemma full_results:
  assumes "gen ccrh ell_in ell_out sodium_init r0 r1 kL kR alpha beta = Inr (k0, k1)"
    and "ell_in \<le> 31" "0 < cores0" "0 < cores1"
    and "rv_ok ell_out buf0" "fullEval ccrh ell_in ell_out EVALUATOR_0 cores0 k0 buf0 (Inr v0)"
    and "rv_ok ell_out buf1" "fullEval ccrh ell_in ell_out EVALUATOR_1 cores1 k1 buf1 (Inr v1)"
  shows "rv_ok ell_out v0" "rv_ok ell_out v1" "n_elems v0 = 2 ^ ell_in" "n_elems v1 = 2 ^ ell_in"
    "map2 (ringAdd8 ell_out) (elems ell_out v0) (elems ell_out v1) =
      (replicate (2 ^ ell_in) 0)[unat alpha := take_bit ell_out beta]"
proof -
  have ell: "ell_out \<le> 8" using rv_ok_ell assms(5) by blast
  note g = gen_shares [OF assms(1,2) ell]
  have sz: "rv_size buf0 = 2 ^ ell_in" "rv_size buf1 = 2 ^ ell_in"
    using assms(6,8) by (auto simp: fullEval_def split: if_splits)
  have v: "rv_ok ell_out v0" "elems ell_out v0 = map (share_at ccrh ell_in ell_out EVALUATOR_0 k0) [0..<2 ^ ell_in]"
    "rv_ok ell_out v1" "elems ell_out v1 = map (share_at ccrh ell_in ell_out EVALUATOR_1 k1) [0..<2 ^ ell_in]"
    using full_evaluation' [OF g(2) assms(3) _ assms(5) sz(1), of EVALUATOR_0 ccrh]
      full_evaluation' [OF g(3) assms(4) _ assms(7) sz(2), of EVALUATOR_1 ccrh] assms(6,8)
    by fastforce+
  show "rv_ok ell_out v0" "rv_ok ell_out v1" by (fact v)+
  show "n_elems v0 = 2 ^ ell_in" "n_elems v1 = 2 ^ ell_in"
    using arg_cong [OF v(2), of length] arg_cong [OF v(4), of length] by simp_all
  show "map2 (ringAdd8 ell_out) (elems ell_out v0) (elems ell_out v1) =
      (replicate (2 ^ ell_in) 0)[unat alpha := take_bit ell_out beta]"
    by (rule nth_equalityI) (use g(1,4) in \<open>auto simp: v(2,4) nth_list_update\<close>)
qed

text \<open>For every hash function, every random choice and every number of threads, the vectors
  the two evaluators compute from generated keys add up to \<open>beta\<close> at \<open>alpha\<close> and 0 elsewhere.\<close>

theorem dpf_correct:
  assumes "gen ccrh ell_in ell_out sodium_init r0 r1 kL kR alpha beta = Inr (k0, k1)"
    and "ell_in \<le> 31" "0 < cores0" "0 < cores1"
    and "rv_ok ell_out buf0" "fullEval ccrh ell_in ell_out EVALUATOR_0 cores0 k0 buf0 (Inr v0)"
    and "rv_ok ell_out buf1" "fullEval ccrh ell_in ell_out EVALUATOR_1 cores1 k1 buf1 (Inr v1)"
  shows "map2 (ringAdd8 ell_out) (elems ell_out v0) (elems ell_out v1) =
    (replicate (2 ^ ell_in) 0)[unat alpha := take_bit ell_out beta]"
  by (rule full_results(5) [OF assms])

text \<open>A generated pair of keys and evaluations of both, for the instances.\<close>

lemma small_run:
  "\<exists>k0 k1 v0 v1. gen (\<lambda>k x. x) 2 3 0 5 6 [] [] 2 7 = Inr (k0, k1) \<and>
     fullEval (\<lambda>k x. x) 2 3 EVALUATOR_0 1 k0 out4 (Inr v0) \<and> fullEval (\<lambda>k x. x) 2 3 EVALUATOR_1 1 k1 out4 (Inr v1)"
proof -
  have "unat (2 :: u32) < 2 ^ 2" by simp
  then obtain k0 k1 where g: "gen (\<lambda>k x. x) 2 3 0 5 6 [] [] 2 7 = Inr (k0, k1)"
    by (cases "gen_loop (\<lambda>x. x) (\<lambda>x. x) 2 2 [0..<2] (gen_root 0 5) (gen_root 1 6)")
      (auto simp: gen_def Let_def)
  note len = gen_shares(2,3) [OF g, simplified]
  show ?thesis
    using g full_evaluation' [OF len(1) _ _ out4_ok(1,2), of 1 EVALUATOR_0 "\<lambda>k x. x"]
      full_evaluation' [OF len(2) _ _ out4_ok(1,2), of 1 EVALUATOR_1 "\<lambda>k x. x"] by fastforce
qed

lemma small_point: "(replicate (2 ^ 2) (0 :: byte))[unat (2 :: u32) := take_bit 3 7] = [0, 0, 7, 0]"
  by code_simp

theorem dpf_correct_witness:
  "\<exists>k0 k1 v0 v1. gen (\<lambda>k x. x) 2 3 0 5 6 [] [] 2 7 = Inr (k0, k1) \<and>
     fullEval (\<lambda>k x. x) 2 3 EVALUATOR_0 1 k0 out4 (Inr v0) \<and> fullEval (\<lambda>k x. x) 2 3 EVALUATOR_1 1 k1 out4 (Inr v1) \<and>
     map2 (ringAdd8 3) (elems 3 v0) (elems 3 v1) = [0, 0, 7, 0]"
proof -
  obtain k0 k1 v0 v1 where r: "gen (\<lambda>k x. x) 2 3 0 5 6 [] [] 2 7 = Inr (k0, k1)"
     "fullEval (\<lambda>k x. x) 2 3 EVALUATOR_0 1 k0 out4 (Inr v0)" "fullEval (\<lambda>k x. x) 2 3 EVALUATOR_1 1 k1 out4 (Inr v1)"
    using small_run by blast
  from dpf_correct [OF r(1) _ _ _ out4_ok(1) r(2) out4_ok(1) r(3)]
  have "map2 (ringAdd8 3) (elems 3 v0) (elems 3 v1) = [0, 0, 7, 0]" unfolding small_point by simp
  with r show ?thesis by (intro exI conjI)
qed

end
