(* ===== verification/Dpf_Reveal.thy ===== *)
theory Dpf_Reveal
  imports Dpf_Theorems
begin

text \<open>
  The protocol around the evaluations: when key generation succeeds, what the dealer obtains
  from the two byte streams, and where the threads of a range evaluation race.
\<close>

section \<open>Reconstruction by the dealer\<close>

lemma same_bytesSize: "rv_ok ell u \<Longrightarrow> rv_ok ell v \<Longrightarrow> n_elems u = n_elems v \<Longrightarrow> bytesSize ell u = bytesSize ell v"
  by (simp add: rv_ok_def bytesSize_def)

lemma reveal_bytes_ok: "rv_ok ell v \<Longrightarrow> reveal_bytes ell v = rv_bytes ell v"
  by (simp add: reveal_bytes_def bytesSize_ok)

lemma dealer_reveal_adds:
  assumes v: "rv_ok ell v0" "rv_ok ell v1" "rv_ok ell out" "n_elems v0 = n_elems out" "n_elems v1 = n_elems out"
    and heap: "\<forall>k. heap0 k \<noteq> None" "\<forall>k. heap1 k \<noteq> None"
  shows "\<exists>v. dealer_reveal ell heap0 heap1 (reveal_bytes ell v0 @ more0) (reveal_bytes ell v1 @ more1) out = Inr v \<and>
    rv_ok ell v \<and> canon ell v \<and> elems ell v = map2 (ringAdd8 ell) (elems ell v0) (elems ell v1)"
proof -
  have ell: "1 \<le> ell" "ell \<le> 8" "n_elems out + 63 < 2 ^ 64" using v(3) by (simp_all add: rv_ok_def)
  obtain e0 e1 where e: "rv_new ell heap0 (rv_size out) = Inr e0" "rv_ok ell e0" "n_elems e0 = n_elems v0"
    "rv_new ell heap1 (rv_size out) = Inr e1" "rv_ok ell e1" "n_elems e1 = n_elems v1"
    using rv_new_heap [OF ell heap(1)] rv_new_heap [OF ell heap(2)] v by (auto simp: rv_size_def)
  note s0 = set_bytes_ok [OF v(1) e(2,3)] and s1 = set_bytes_ok [OF v(2) e(5,6)]
  define st :: store where
    "st = (\<lambda>_. out)(0 := set_bytes ell e0 (rv_bytes ell v0), 1 := set_bytes ell e1 (rv_bytes ell v1), 2 := out)"
  have st: "st 0 = set_bytes ell e0 (rv_bytes ell v0)" "st (Suc 0) = set_bytes ell e1 (rv_bytes ell v1)" "st 2 = out"
    by (simp_all add: st_def)
  have "recv_data (reveal_bytes ell u @ more) (bytesSize ell out) = Inr (rv_bytes ell u)"
    if "rv_ok ell u" "n_elems u = n_elems out" for u more
    using same_bytesSize [OF that(1) v(3) that(2)] that(1) by (simp add: recv_data_def reveal_bytes_ok bytesSize_ok)
  then have "dealer_reveal ell heap0 heap1 (reveal_bytes ell v0 @ more0) (reveal_bytes ell v1 @ more1) out =
      rbind (rv_add ell 0 1 2 st) (\<lambda>st. Inr (st 2))"
    using v e by (simp add: dealer_reveal_def st_def Let_def)
  moreover have "same_shape ell st 0 2" "same_shape ell st 1 2"
    using s0 s1 v st unfolding same_shape_def by simp_all
  from rv_add_ok [OF this] obtain st' where "rv_add ell 0 1 2 st = Inr st'" "canon ell (st' 2)"
    "writes ell 2 st (\<lambda>i. ringAdd8 ell (elem ell (st 0) i) (elem ell (st 1) i)) st'" by blast
  moreover have "map (\<lambda>i. ringAdd8 ell (elem ell (st 0) i) (elem ell (st 1) i)) [0..<n_elems out] =
      map2 (ringAdd8 ell) (elems ell (st 0)) (elems ell (st 1))"
    using s0(2) s1(2) v(4,5) by (simp add: map2_elems st)
  ultimately show ?thesis using s0(3) s1(3) by (auto simp: writes_def st)
qed

lemma reveal_point:
  assumes "gen ccrh ell_in ell_out sodium_init r0 r1 kL kR alpha beta = Inr (k0, k1)"
    and "ell_in \<le> 31" "0 < cores0" "0 < cores1"
    and "rv_ok ell_out buf0" "fullEval ccrh ell_in ell_out EVALUATOR_0 cores0 k0 buf0 (Inr v0)"
    and "rv_ok ell_out buf1" "fullEval ccrh ell_in ell_out EVALUATOR_1 cores1 k1 buf1 (Inr v1)"
    and "rv_ok ell_out out" "rv_size out = 2 ^ ell_in" "\<forall>k. heap0 k \<noteq> None" "\<forall>k. heap1 k \<noteq> None"
  shows "\<exists>v. dealer_reveal ell_out heap0 heap1 (reveal_bytes ell_out v0 @ more0) (reveal_bytes ell_out v1 @ more1) out
      = Inr v \<and> rv_ok ell_out v \<and> canon ell_out v \<and>
    elems ell_out v = (replicate (2 ^ ell_in) 0)[unat alpha := take_bit ell_out beta]"
proof -
  note r = full_results [OF assms(1-8)]
  have "n_elems v0 = n_elems out" "n_elems v1 = n_elems out"
    using r(3,4) assms(10) by (simp_all add: rv_size_def)
  from dealer_reveal_adds [OF r(1,2) assms(9) this assms(11,12)] show ?thesis
    unfolding r(5) .
qed

text \<open>C6: Key generation, the two evaluations, the two byte streams and the dealer's addition
  together: the dealer obtains \<open>beta\<close> at \<open>alpha\<close> and 0 elsewhere, whatever follows in the streams.\<close>

theorem reconstruction:
  assumes "gen ccrh ell_in ell_out sodium_init r0 r1 kL kR alpha beta = Inr (k0, k1)"
    and "ell_in \<le> 31" "0 < cores0" "0 < cores1"
    and "rv_ok ell_out buf0" "fullEval ccrh ell_in ell_out EVALUATOR_0 cores0 k0 buf0 (Inr v0)"
    and "rv_ok ell_out buf1" "fullEval ccrh ell_in ell_out EVALUATOR_1 cores1 k1 buf1 (Inr v1)"
    and "rv_ok ell_out out" "rv_size out = 2 ^ ell_in" "\<forall>k. heap0 k \<noteq> None" "\<forall>k. heap1 k \<noteq> None"
  shows "\<exists>v. dealer_reveal ell_out heap0 heap1 (reveal_bytes ell_out v0 @ more0) (reveal_bytes ell_out v1 @ more1) out
      = Inr v \<and> rv_ok ell_out v \<and> canon ell_out v \<and>
    elems ell_out v = (replicate (2 ^ ell_in) 0)[unat alpha := take_bit ell_out beta]"
  by (rule reveal_point [OF assms])

theorem reconstruction_witness:
  "\<exists>k0 k1 v0 v1 v. gen (\<lambda>k x. x) 2 3 0 5 6 [] [] 2 7 = Inr (k0, k1) \<and>
     fullEval (\<lambda>k x. x) 2 3 EVALUATOR_0 1 k0 out4 (Inr v0) \<and> fullEval (\<lambda>k x. x) 2 3 EVALUATOR_1 1 k1 out4 (Inr v1) \<and>
     dealer_reveal 3 (\<lambda>_. Some (\<lambda>_. 0)) (\<lambda>_. Some (\<lambda>_. 0)) (reveal_bytes 3 v0) (reveal_bytes 3 v1) out4 = Inr v \<and>
     elems 3 v = [0, 0, 7, 0]"
proof -
  obtain k0 k1 v0 v1 where r: "gen (\<lambda>k x. x) 2 3 0 5 6 [] [] 2 7 = Inr (k0, k1)"
     "fullEval (\<lambda>k x. x) 2 3 EVALUATOR_0 1 k0 out4 (Inr v0)" "fullEval (\<lambda>k x. x) 2 3 EVALUATOR_1 1 k1 out4 (Inr v1)"
    using small_run by blast
  from reconstruction [OF r(1) _ _ _ out4_ok(1) r(2) out4_ok(1) r(3) out4_ok(1,2),
      of "\<lambda>_. Some (\<lambda>_. 0)" "\<lambda>_. Some (\<lambda>_. 0)" "[]" "[]"]
  obtain v where "dealer_reveal 3 (\<lambda>_. Some (\<lambda>_. 0)) (\<lambda>_. Some (\<lambda>_. 0)) (reveal_bytes 3 v0) (reveal_bytes 3 v1) out4
      = Inr v" "elems 3 v = [0, 0, 7, 0]" unfolding small_point by auto
  with r show ?thesis by (intro exI conjI)
qed

section \<open>Arguments of the generation\<close>

text \<open>\<open>gen\<close> accepts exactly the points of the domain.\<close>

theorem gen_accepts:
  assumes "0 \<le> sodium_init" "ell_in \<le> 31"
  shows "(\<exists>keys. gen ccrh ell_in ell_out sodium_init r0 r1 kL kR alpha beta = Inr keys) =
      (unat alpha < 2 ^ ell_in) \<and>
    (gen ccrh ell_in ell_out sodium_init r0 r1 kL kR alpha beta = Inl InvalidArgument) =
      (2 ^ ell_in \<le> unat alpha)"
  using assms(1) domain_size [OF assms(2)]
  by (auto simp: gen_def Let_def word_le_nat_alt split: prod.split)

theorem gen_accepts_witness:
  "\<exists>keys. gen (\<lambda>k x. x) 2 3 0 0 0 [] [] 3 1 = Inr keys"
  using gen_accepts [of 0 2 "\<lambda>k x. x" 3 0 0 "[]" "[]" 3 1] by simp

text \<open>C38: For 32-bit points nothing is accepted: the size of the domain is a 32-bit constant.\<close>

theorem gen_32_rejects:
  "gen ccrh 32 ell_out sodium_init r0 r1 kL kR alpha beta =
     Inl (if sodium_init < 0 then RuntimeError else InvalidArgument)"
proof -
  have "(ucast (push_bit 32 (1 :: u64)) :: u32) = 0" by simp
  then show ?thesis unfolding gen_def by (simp only:) simp
qed

section \<open>Races of a range evaluation\<close>

text \<open>C36: A range that starts at 1, evaluated into a bit vector by two threads, makes them
  write the same machine word (the first one the bit of point 4095, the second one that of point
  4096), so any outcome is possible.\<close>

theorem range_race:
  assumes "length (cws key) = 13" "rv_size buf = 8191"
  shows "rangeEval ccrh 13 1 pid 2 key 1 8191 buf r"
proof -
  let ?f = "share_at ccrh 13 1 pid key" and ?sp = "range_search 13 1 8191"
  have s: "splitCoff 13 2 = 4"
    by (simp add: splitCoff_def LOCAL_BFS_D_def bit_width.simps)
  have t: "task_ranges 16 2 = [(0, 8), (8, 16)]"
    by (simp add: task_ranges_def Let_def upt_numerals)
  obtain ws where ws: "eval_threads ccrh 13 1 pid 2 ?sp key = Inr ws"
    "ws = map (\<lambda>(a, b). out_writes (s_emit ?sp) ?f (a * 2 ^ (13 - 4)) (b * 2 ^ (13 - 4))) (task_ranges (2 ^ 4) 2)"
    using eval_threads_ok [OF assms(1) _ range_sound, of 2 ccrh 1 pid 13 1 8191] by (auto simp: s)
  have "(4094, ?f 4095) \<in> set (ws ! 0)" "(4095, ?f 4096) \<in> set (ws ! 1)"
    by (simp add: ws(2) t set_out_writes_between range_search_def range_emit_def, rule exI [of _ 4095], simp)
      (simp add: ws(2) t set_out_writes_between range_search_def range_emit_def, rule exI [of _ 4096], simp)
  moreover have "(4094 :: nat) div ELEMS_PER_WORD 1 = 4095 div ELEMS_PER_WORD 1"
    by (simp add: ELEMS_PER_WORD_def)
  moreover have "length ws = 2" by (simp add: ws(2) t)
  ultimately have "races (\<lambda>k. k div ELEMS_PER_WORD 1) ws"
    unfolding races_def by (intro exI [of _ 1] exI [of _ 0] conjI bexI [of _ "(4094, ?f 4095)"]
        bexI [of _ "(4095, ?f 4096)"]) auto
  then show ?thesis using ws(1) assms(2) by (simp add: rangeEval_def threads_def rangeLen_def)
qed

text \<open>In the instance even the input vector is a possible outcome.\<close>

definition key13 :: dpf_key where
  "key13 = \<lparr>stOrigin = 0, cws = replicate 13 (0, 0), cwLast = 1, keyL = replicate 16 0, keyR = replicate 16 0\<rparr>"

definition out8191 :: rvec where
  "out8191 = \<lparr>n_elems = 8191, n_words = 128, d64 = replicate 128 0, d8 = []\<rparr>"

theorem range_race_witness:
  "rangeEval (\<lambda>k x. x) 13 1 EVALUATOR_0 2 key13 1 8191 out8191 (Inr out8191)"
  using range_race [of key13 out8191 "\<lambda>k x. x" EVALUATOR_0] by (simp add: key13_def out8191_def rv_size_def)

end
