(* ===== verification/Hashing.thy ===== *)
theory Hashing
  imports Ring
begin

text \<open>
  The local hash \<open>hashAESDM\<close> and the hexadecimal encodings of \<^verbatim>\<open>include/common.hpp\<close>.
  \<^verbatim>\<open>emp::PRP\<close> is the parameter \<open>prp\<close> (key, then block); a \<^verbatim>\<open>std::string\<close> is a list of
  bytes.
\<close>

section \<open>The AES Davies-Meyer hash\<close>

text \<open>A pointer argument is \<open>None\<close> for a null pointer, otherwise the bytes it points to.\<close>

definition dm_step :: "(block \<Rightarrow> block) \<Rightarrow> block \<Rightarrow> byte list \<Rightarrow> block" where
  "dm_step prp h bs = (let x = h XOR of_le_bytes bs in prp x XOR h)"

function dm_loop :: "(block \<Rightarrow> block) \<Rightarrow> byte list \<Rightarrow> nat \<Rightarrow> nat \<Rightarrow> block \<Rightarrow> (block \<times> nat) res" where
  "dm_loop prp preimage preimage_len pos h =
     (if pos + 16 \<le> preimage_len
      then rbind (of_option (ldn preimage pos 16)) (\<lambda>m.
           dm_loop prp preimage preimage_len (pos + 16) (dm_step prp h m))
      else Inr (h, pos))"
  by pat_completeness auto
termination by (relation "measure (\<lambda>(prp, preimage, preimage_len, pos, h). preimage_len - pos)") auto

declare dm_loop.simps [simp del]

definition memory_of :: "byte list option \<Rightarrow> byte list" where
  "memory_of p = (case p of None \<Rightarrow> [] | Some bs \<Rightarrow> bs)"

definition hashAESDM :: "(block \<Rightarrow> block \<Rightarrow> block) \<Rightarrow> byte list option \<Rightarrow> nat \<Rightarrow> byte list option \<Rightarrow> nat \<Rightarrow>
    nat \<Rightarrow> u32 res" where
  "hashAESDM prp preimage preimage_len key key_len ell =
     (if ell < RING_SCALAR_ELL_MIN \<or> ell > RING_SCALAR_ELL_MAX then Inl InvalidArgument
      else if key_len > 16 then Inl InvalidArgument
      else if key = None \<and> key_len > 0 then Inl InvalidArgument
      else if preimage = None \<and> preimage_len > 0 then Inl InvalidArgument
      else rbind (of_option (ldn (memory_of key) 0 key_len)) (\<lambda>kb.
           let k = kb @ replicate (16 - key_len) 0; f = prp (of_le_bytes k) in
           rbind (dm_loop f (memory_of preimage) preimage_len 0 0) (\<lambda>(h, pos).
           rbind (if pos < preimage_len
                  then rbind (of_option (ldn (memory_of preimage) pos (preimage_len - pos))) (\<lambda>tl.
                       Inr (dm_step f h (tl @ replicate (16 - (preimage_len - pos)) 0)))
                  else Inr h) (\<lambda>h.
           let h32 = ucast h :: u32
           in Inr (if ell < 32 then h32 AND ucast (push_bit ell (1 :: u64) - 1) else h32)))))"

section \<open>Hexadecimal strings\<close>

definition HEX_CHARS :: "byte list" where
  "HEX_CHARS = map of_char ''0123456789abcdef''"

text \<open>\<open>char\<close> is a signed type; the nibble is computed in \<open>int\<close> and converted to a byte.\<close>

definition hexCharToNibble :: "byte \<Rightarrow> byte res" where
  "hexCharToNibble c =
     (if sint c \<ge> 48 \<and> sint c \<le> 57 then Inr (word_of_int (sint c - 48))
      else if sint c \<ge> 65 \<and> sint c \<le> 70 then Inr (word_of_int (sint c - 65 + 10))
      else if sint c \<ge> 97 \<and> sint c \<le> 102 then Inr (word_of_int (sint c - 97 + 10))
      else Inl InvalidArgument)"

text \<open>\<open>hex[2 * i]\<close> and \<open>hex[2 * i + 1]\<close>\<close>

definition hex_byte :: "byte \<Rightarrow> byte list" where
  "hex_byte b = [HEX_CHARS ! unat (drop_bit 4 b), HEX_CHARS ! unat (b AND 0x0F)]"

definition bytesToHexString :: "byte list \<Rightarrow> nat \<Rightarrow> byte list res" where
  "bytesToHexString b n =
     rbind (for_loop 0 n (\<lambda>i hex.
       rbind (rd b i) (\<lambda>x.
       rbind (wr hex (i * 2) (hex_byte x ! 0)) (\<lambda>hex. wr hex (i * 2 + 1) (hex_byte x ! 1))))
       (replicate (n * 2) 48)) Inr"

definition m128iToHexString :: "block \<Rightarrow> byte list res" where
  "m128iToHexString v =
     (let bytes = le_bytes 16 v in
      for_loop 0 16 (\<lambda>i hex.
       rbind (rd bytes i) (\<lambda>x.
       rbind (wr hex (i * 2) (hex_byte x ! 0)) (\<lambda>hex. wr hex (i * 2 + 1) (hex_byte x ! 1))))
       (replicate 32 48))"

text \<open>Sixteen bytes from thirty-two characters; both readers have this loop.\<close>

definition hex_pair :: "byte list \<Rightarrow> nat \<Rightarrow> byte res" where
  "hex_pair hex i =
     rbind (rd hex (i * 2)) (\<lambda>c. rbind (hexCharToNibble c) (\<lambda>hi.
     rbind (rd hex (i * 2 + 1)) (\<lambda>c. rbind (hexCharToNibble c) (\<lambda>lo.
     Inr (push_bit 4 hi OR lo)))))"

definition hexStringToBytes :: "byte list \<Rightarrow> byte list \<Rightarrow> byte list res" where
  "hexStringToBytes hex out =
     (if length hex \<noteq> 32 then Inl InvalidArgument
      else for_loop 0 16 (\<lambda>i out. rbind (hex_pair hex i) (wr out i)) out)"

definition hexStringToM128i :: "byte list \<Rightarrow> block res" where
  "hexStringToM128i hex =
     (if length hex \<noteq> 32 then Inl InvalidArgument
      else rbind (for_loop 0 16 (\<lambda>i bytes. rbind (hex_pair hex i) (wr bytes i)) (replicate 16 0))
        (\<lambda>bytes. Inr (of_le_bytes bytes)))"

section \<open>What they compute\<close>

lemma of_le_bytes_zeros: "(of_le_bytes (bs @ replicate n 0) :: 'a::len word) = of_le_bytes bs"
proof (induction bs)
  case Nil
  show ?case by (induction n) simp_all
qed simp

lemma HEX_CHARS_nibble: "k < 16 \<Longrightarrow> k < length HEX_CHARS \<and> hexCharToNibble (HEX_CHARS ! k) = Inr (word_of_nat k)"
proof -
  have "\<forall>k\<in>set [0..<16]. k < length HEX_CHARS \<and> hexCharToNibble (HEX_CHARS ! k) = Inr (word_of_nat k)"
    by code_simp
  then show "k < 16 \<Longrightarrow> k < length HEX_CHARS \<and> hexCharToNibble (HEX_CHARS ! k) = Inr (word_of_nat k)" by simp
qed

lemma hex_byte_digits:
  "hexCharToNibble (hex_byte b ! 0) = Inr (drop_bit 4 b)" "hexCharToNibble (hex_byte b ! 1) = Inr (b AND 0x0F)"
proof -
  have "take_bit 4 (drop_bit 4 b) = drop_bit 4 b"
    by (rule bit_word_eqI) (auto simp: bit_simps dest: bit_imp_le_length)
  moreover have small: "unat (take_bit 4 (drop_bit 4 b)) < 2 ^ 4"
    unfolding unsigned_take_bit_eq by (rule take_bit_nat_less_exp)
  ultimately have "unat (drop_bit 4 b) < 16" by simp
  moreover have "b AND 0x0F = take_bit 4 b" by (simp add: take_bit_eq_mask mask_numeral)
  moreover have "unat (take_bit 4 b) < 2 ^ 4"
    unfolding unsigned_take_bit_eq by (rule take_bit_nat_less_exp)
  ultimately show "hexCharToNibble (hex_byte b ! 0) = Inr (drop_bit 4 b)"
    "hexCharToNibble (hex_byte b ! 1) = Inr (b AND 0x0F)"
    using HEX_CHARS_nibble by (simp_all add: hex_byte_def)
qed

lemma nibbles: "push_bit 4 (drop_bit 4 b) OR (b AND 0x0F) = b" for b :: byte
proof -
  have "b AND 0x0F = take_bit 4 b" by (simp add: take_bit_eq_mask mask_numeral)
  then show ?thesis by (rule_tac bit_word_eqI) (auto simp: bit_simps)
qed

lemma nth_hex: "i < length bs \<Longrightarrow> j < 2 \<Longrightarrow> concat (map hex_byte bs) ! (i * 2 + j) = hex_byte (bs ! i) ! j"
proof (induction bs arbitrary: i)
  case (Cons b bs)
  then show ?case by (cases i) (auto simp: nth_append hex_byte_def less_2_cases_iff)
qed simp

lemma length_hex [simp]: "length (concat (map hex_byte bs)) = 2 * length bs"
  by (induction bs) (simp_all add: hex_byte_def)

lemma hex_pair_encoded: "i < length bs \<Longrightarrow> hex_pair (concat (map hex_byte bs)) i = Inr (bs ! i)"
  using nth_hex [of i bs 0] nth_hex [of i bs 1] hex_byte_digits nibbles by (simp add: hex_pair_def)

lemma hex_loop:
  assumes "n \<le> length b"
  shows "for_loop 0 n (\<lambda>i hex.
       rbind (rd b i) (\<lambda>x.
       rbind (wr hex (i * 2) (hex_byte x ! 0)) (\<lambda>hex. wr hex (i * 2 + 1) (hex_byte x ! 1))))
       (replicate (n * 2) 48) = Inr (concat (map hex_byte (take n b)))"
proof -
  let ?I = "\<lambda>i hex. hex = concat (map hex_byte (take i b)) @ replicate ((n - i) * 2) 48"
  have "\<exists>hex'. for_loop 0 n (\<lambda>i hex.
       rbind (rd b i) (\<lambda>x.
       rbind (wr hex (i * 2) (hex_byte x ! 0)) (\<lambda>hex. wr hex (i * 2 + 1) (hex_byte x ! 1))))
       (replicate (n * 2) 48) = Inr hex' \<and> ?I n hex'"
  proof (rule for_loop_rule [where P = ?I])
    fix k hex assume k: "0 \<le> k" "k < n" "?I k hex"
    have "replicate ((n - k) * 2) (48 :: byte) = 48 # 48 # replicate ((n - Suc k) * 2) 48"
      using k(2) by (metis Suc_diff_Suc mult_Suc replicate_Suc add_2_eq_Suc)
    then show "\<exists>hex'. rbind (rd b k) (\<lambda>x.
       rbind (wr hex (k * 2) (hex_byte x ! 0)) (\<lambda>hex. wr hex (k * 2 + 1) (hex_byte x ! 1))) = Inr hex' \<and> ?I (Suc k) hex'"
      using k assms by (simp add: take_Suc_conv_app_nth list_update_append hex_byte_def mult.commute)
  qed simp_all
  then show ?thesis by simp
qed

lemma bytesToHexString_eq: "n \<le> length b \<Longrightarrow> bytesToHexString b n = Inr (concat (map hex_byte (take n b)))"
  unfolding bytesToHexString_def by (subst hex_loop) simp_all

lemma m128iToHexString_eq: "m128iToHexString v = Inr (concat (map hex_byte (le_bytes 16 v)))"
  using hex_loop [of 16 "le_bytes 16 v"] unfolding m128iToHexString_def Let_def by simp

lemma hexStringToBytes_eq:
  "length out = 16 \<Longrightarrow> length hex = 32 \<Longrightarrow> hexStringToBytes hex out = collect (map (hex_pair hex) [0..<16])"
  by (simp add: hexStringToBytes_def fill_loop)

lemma hexStringToM128i_eq:
  "length hex = 32 \<Longrightarrow> hexStringToM128i hex = rbind (collect (map (hex_pair hex) [0..<16])) (\<lambda>bytes. Inr (of_le_bytes bytes))"
  by (simp add: hexStringToM128i_def fill_loop)

lemma hex_pairs_encoded: "length bs = n \<Longrightarrow> collect (map (hex_pair (concat (map hex_byte bs))) [0..<n]) = Inr bs"
  using collect_ok [of "[0..<n]" "hex_pair (concat (map hex_byte bs))" "(!) bs"]
  by (simp add: hex_pair_encoded) (metis map_nth)

lemma hex_roundtrips:
  "rbind (m128iToHexString v) hexStringToM128i = Inr v"
  "length bs = 16 \<Longrightarrow> length out = 16 \<Longrightarrow> rbind (bytesToHexString bs 16) (\<lambda>s. hexStringToBytes s out) = Inr bs"
  by (simp_all add: m128iToHexString_eq hexStringToM128i_eq hex_pairs_encoded of_le_bytes_le_bytes
      bytesToHexString_eq hexStringToBytes_eq)

section \<open>The chain\<close>

text \<open>The sixteen-byte blocks of a message, the last one padded with zeros.\<close>

function padded_blocks :: "byte list \<Rightarrow> byte list list" where
  "padded_blocks bs =
     (if bs = [] then [] else (take 16 bs @ replicate (16 - length bs) 0) # padded_blocks (drop 16 bs))"
  by pat_completeness auto
termination by (relation "measure length") auto

declare padded_blocks.simps [simp del]

lemma padded_blocks_Nil [simp]: "padded_blocks [] = []"
  by (simp add: padded_blocks.simps)

lemma padded_blocks_step:
  "16 \<le> length bs \<Longrightarrow> padded_blocks bs = take 16 bs # padded_blocks (drop 16 bs)"
  "0 < length bs \<Longrightarrow> length bs \<le> 16 \<Longrightarrow> padded_blocks bs = [bs @ replicate (16 - length bs) 0]"
  by (subst padded_blocks.simps, force)+

lemma dm_loop_blocks:
  "pos \<le> length pre \<Longrightarrow>
     rbind (dm_loop f pre (length pre) pos h) (\<lambda>(h, pos).
       if pos < length pre
       then rbind (of_option (ldn pre pos (length pre - pos))) (\<lambda>tl.
            Inr (dm_step f h (tl @ replicate (16 - (length pre - pos)) 0)))
       else Inr h) = Inr (foldl (dm_step f) h (padded_blocks (drop pos pre)))"
proof (induction "length pre - pos" arbitrary: pos h rule: less_induct)
  case less
  show ?case
  proof (cases "pos + 16 \<le> length pre")
    case True
    then show ?thesis
      using less(1) [of "pos + 16" "dm_step f h (take 16 (drop pos pre))"] padded_blocks_step(1) [of "drop pos pre"]
      by (subst dm_loop.simps) (simp add: ldn_def add.commute)
  next
    case False
    then show ?thesis using less(2) padded_blocks_step(2) [of "drop pos pre"]
      by (subst dm_loop.simps) (simp add: ldn_def)
  qed
qed

lemma hash_value:
  assumes "1 \<le> ell" "ell \<le> 31" "length key \<le> 16"
  shows "hashAESDM prp (Some pre) (length pre) (Some key) (length key) ell =
    Inr (take_bit ell (ucast (foldl (dm_step (prp (of_le_bytes key))) 0 (padded_blocks pre))))"
proof -
  let ?f = "prp (of_le_bytes key)" and ?h = "foldl (dm_step (prp (of_le_bytes key))) 0 (padded_blocks pre)"
  have m: "h AND ucast (2 ^ ell - 1 :: u64) = take_bit ell h" for h :: u32
  proof -
    have "(ucast (mask ell :: u64) :: u32) = mask ell"
      by (rule bit_word_eqI) (use assms(2) in \<open>auto simp: bit_simps\<close>)
    then show ?thesis by (simp add: take_bit_eq_mask mask_eq_exp_minus_1)
  qed
  show ?thesis
    using dm_loop_blocks [of 0 pre ?f 0] assms
    by (cases "dm_loop ?f pre (length pre) 0 0")
      (auto simp: hashAESDM_def RING_SCALAR_ELL_MIN_def RING_SCALAR_ELL_MAX_def memory_of_def ldn_def
        of_le_bytes_zeros m Let_def split: prod.splits)
qed

text \<open>\<open>hashAESDM\<close> is the truncation to \<open>ell\<close> bits of the Davies-Meyer chain over the
  zero-padded blocks of the preimage, under the zero-padded key; keys longer than 16 bytes and
  widths outside 1 to 31 are rejected.\<close>

theorem hash_chain:
  "hashAESDM prp (Some pre) (length pre) (Some key) (length key) ell =
    (if 1 \<le> ell \<and> ell \<le> 31 \<and> length key \<le> 16
     then Inr (take_bit ell (ucast (foldl (\<lambda>h m. prp (of_le_bytes key) (h XOR of_le_bytes m) XOR h) 0 (padded_blocks pre))))
     else Inl InvalidArgument)"
proof (cases "1 \<le> ell \<and> ell \<le> 31 \<and> length key \<le> 16")
  case True
  have "dm_step (prp (of_le_bytes key)) = (\<lambda>h m. prp (of_le_bytes key) (h XOR of_le_bytes m) XOR h)"
    by (intro ext) (simp add: dm_step_def Let_def)
  then show ?thesis using hash_value [of ell key prp pre] True by simp
next
  case False
  then show ?thesis by (auto simp: hashAESDM_def RING_SCALAR_ELL_MIN_def RING_SCALAR_ELL_MAX_def)
qed

lemma padded_blocks_zero: "length bs mod 16 \<noteq> 0 \<Longrightarrow> padded_blocks (bs @ [0]) = padded_blocks bs"
proof (induction bs rule: padded_blocks.induct)
  case (1 bs)
  show ?case
  proof (cases "16 \<le> length bs")
    case True
    then have "padded_blocks (drop 16 bs @ [0]) = padded_blocks (drop 16 bs)"
      using 1 by (intro "1.IH") (auto simp: le_mod_geq)
    then show ?thesis using True padded_blocks_step(1) [of bs] padded_blocks_step(1) [of "bs @ [0]"] by simp
  next
    case False
    then have l: "0 < length bs" "length bs < 16" using "1.prems" by (auto intro: Nat.gr0I)
    have "replicate (16 - length bs) (0 :: byte) = 0 # replicate (16 - Suc (length bs)) 0"
      using l(2) by (metis Suc_diff_Suc replicate_Suc)
    then show ?thesis using l padded_blocks_step(2) [of bs] padded_blocks_step(2) [of "bs @ [0]"] by simp
  qed
qed

text \<open>The length of the preimage is not hashed: appending zero bytes within the last block
  does not change the hash.\<close>

theorem hash_padding_collides:
  assumes "length pre mod 16 \<noteq> 0"
  shows "hashAESDM prp (Some (pre @ [0])) (length pre + 1) (Some key) (length key) ell =
    hashAESDM prp (Some pre) (length pre) (Some key) (length key) ell"
proof (cases "1 \<le> ell \<and> ell \<le> 31 \<and> length key \<le> 16")
  case True
  then show ?thesis
    using hash_value [of ell key prp pre] hash_value [of ell key prp "pre @ [0]"] padded_blocks_zero [OF assms]
    by simp
next
  case False
  then show ?thesis by (auto simp: hashAESDM_def RING_SCALAR_ELL_MIN_def RING_SCALAR_ELL_MAX_def)
qed

theorem hash_padding_collides_witness:
  "hashAESDM (\<lambda>k x. k XOR x) (Some [7, 0]) 2 (Some [1, 2]) 2 16 =
   hashAESDM (\<lambda>k x. k XOR x) (Some [7]) 1 (Some [1, 2]) 2 16"
  using hash_padding_collides [of "[7]" "\<lambda>k x. k XOR x" "[1, 2]" 16] by (simp add: numeral_2_eq_2)

end
