(* ===== verification/Dpf_Keys.thy ===== *)
theory Dpf_Keys
  imports Dpf_Eval Hashing
begin

text \<open>
  The transfer of a key from the dealer to an evaluator: \<open>KeyType\<close> as a JSON document
  (\<open>to_json\<close>, \<open>from_json\<close>) and \<open>sendKey\<close>/\<open>recvKey\<close> of \<^verbatim>\<open>bgi16.hpp\<close>. Writing a document
  as text and reading it back is done by the JSON library: the parameters \<open>dump\<close> and \<open>parse\<close>.
\<close>

section \<open>JSON documents\<close>

text \<open>Documents, as far as a key needs them; the access functions throw on a wrong shape.\<close>

datatype json = JStr "byte list" | JNum u64 | JArr "json list" | JObj "(string \<times> json) list"

definition at_key :: "string \<Rightarrow> json \<Rightarrow> json res" where
  "at_key k j = (case j of
     JObj kvs \<Rightarrow> (case map_of kvs k of None \<Rightarrow> Inl JsonError | Some x \<Rightarrow> Inr x)
   | _ \<Rightarrow> Inl JsonError)"

definition at_index :: "nat \<Rightarrow> json \<Rightarrow> json res" where
  "at_index i j = (case j of
     JArr xs \<Rightarrow> (if i < length xs then Inr (xs ! i) else Inl JsonError) | _ \<Rightarrow> Inl JsonError)"

definition get_string :: "json \<Rightarrow> byte list res" where
  "get_string j = (case j of JStr s \<Rightarrow> Inr s | _ \<Rightarrow> Inl JsonError)"

definition get_u64 :: "json \<Rightarrow> u64 res" where
  "get_u64 j = (case j of JNum n \<Rightarrow> Inr n | _ \<Rightarrow> Inl JsonError)"

section \<open>Keys\<close>

definition cw_row :: "dpf_key \<Rightarrow> nat \<Rightarrow> json res" where
  "cw_row k i =
     rbind (rd (cws k) i) (\<lambda>(l, r).
     rbind (m128iToHexString l) (\<lambda>hl.
     rbind (m128iToHexString r) (\<lambda>hr. Inr (JArr [JStr hl, JStr hr]))))"

definition to_json :: "nat \<Rightarrow> dpf_key \<Rightarrow> json res" where
  "to_json ell_in k =
     rbind (m128iToHexString (stOrigin k)) (\<lambda>st.
     rbind (collect (map (cw_row k) [0..<ell_in])) (\<lambda>rows.
     rbind (bytesToHexString (keyL k) 16) (\<lambda>kl.
     rbind (bytesToHexString (keyR k) 16) (\<lambda>kr.
     Inr (JObj [(''stOrigin'', JStr st), (''cws'', JArr rows), (''cwLast'', JNum (cwLast k)),
       (''keyL'', JStr kl), (''keyR'', JStr kr)])))))"

definition get_block :: "json \<Rightarrow> block res" where
  "get_block j = rbind (get_string j) hexStringToM128i"

definition get_row :: "json \<Rightarrow> nat \<Rightarrow> (block \<times> block) res" where
  "get_row rows i =
     rbind (at_index i rows) (\<lambda>row.
     rbind (at_index 0 row) (\<lambda>jl. rbind (get_block jl) (\<lambda>l.
     rbind (at_index 1 row) (\<lambda>jr. rbind (get_block jr) (\<lambda>r. Inr (l, r))))))"

text \<open>\<open>fresh\<close> is the content of a new byte array of the key, which is overwritten in full.\<close>

definition from_json :: "nat \<Rightarrow> byte list \<Rightarrow> json \<Rightarrow> dpf_key res" where
  "from_json ell_in fresh j =
     rbind (at_key ''stOrigin'' j) (\<lambda>x. rbind (get_block x) (\<lambda>st.
     rbind (at_key ''cws'' j) (\<lambda>rows.
     rbind (collect (map (get_row rows) [0..<ell_in])) (\<lambda>cs.
     rbind (at_key ''cwLast'' j) (\<lambda>x. rbind (get_u64 x) (\<lambda>last.
     rbind (at_key ''keyL'' j) (\<lambda>x. rbind (get_string x) (\<lambda>s. rbind (hexStringToBytes s fresh) (\<lambda>kl.
     rbind (at_key ''keyR'' j) (\<lambda>x. rbind (get_string x) (\<lambda>s. rbind (hexStringToBytes s fresh) (\<lambda>kr.
     Inr \<lparr>stOrigin = st, cws = cs, cwLast = last, keyL = kl, keyR = kr\<rparr>))))))))))))"

section \<open>Transfer\<close>

definition sendKey :: "(json \<Rightarrow> byte list) \<Rightarrow> nat \<Rightarrow> dpf_key \<Rightarrow> byte list res" where
  "sendKey dump ell_in key =
     rbind (to_json ell_in key) (\<lambda>j.
     let keyStr = dump j in Inr (le_bytes 8 (of_nat (length keyStr) :: u64) @ keyStr))"

text \<open>\<open>alloc\<close> tells whether a string of that length can be allocated; the rest of the stream is
  returned as well.\<close>

definition recvKey :: "(byte list \<Rightarrow> json res) \<Rightarrow> (nat \<Rightarrow> bool) \<Rightarrow> nat \<Rightarrow> byte list \<Rightarrow> byte list \<Rightarrow>
    (dpf_key \<times> byte list) res" where
  "recvKey parse alloc ell_in fresh stream =
     rbind (recv_data stream 8) (\<lambda>b.
     let keyStrLen = unat (of_le_bytes b :: u64) in
     if \<not> alloc keyStrLen then Inl BadAlloc
     else rbind (recv_data (drop 8 stream) keyStrLen) (\<lambda>keyStr.
     rbind (parse keyStr) (\<lambda>j.
     rbind (from_json ell_in fresh j) (\<lambda>k. Inr (k, drop (8 + keyStrLen) stream)))))"

section \<open>Properties\<close>

definition key_ok :: "nat \<Rightarrow> dpf_key \<Rightarrow> bool" where
  "key_ok ell_in k \<longleftrightarrow> length (cws k) = ell_in \<and> length (keyL k) = 16 \<and> length (keyR k) = 16"

lemma get_block_hex: "get_block (JStr (concat (map hex_byte (le_bytes 16 v)))) = Inr v"
  using hex_roundtrips(1) [of v] by (simp add: get_block_def get_string_def m128iToHexString_eq)

lemma collect_length: "collect rs = Inr xs \<Longrightarrow> length xs = length rs"
  by (induction rs arbitrary: xs) (auto simp: res_simps)

lemma json_roundtrip:
  assumes "key_ok ell_in k" "length fresh = 16"
  shows "\<exists>j. to_json ell_in k = Inr j \<and> from_json ell_in fresh j = Inr k"
proof -
  let ?h = "\<lambda>v :: block. JStr (concat (map hex_byte (le_bytes 16 v)))"
  let ?rows = "map (\<lambda>i. JArr [?h (fst (cws k ! i)), ?h (snd (cws k ! i))]) [0..<ell_in]"
  have len: "length (cws k) = ell_in" "length (keyL k) = 16" "length (keyR k) = 16"
    using assms by (simp_all add: key_ok_def)
  have r: "collect (map (cw_row k) [0..<ell_in]) = Inr ?rows"
    by (rule collect_ok) (auto simp: cw_row_def len m128iToHexString_eq split: prod.split)
  have "collect (map (get_row (JArr ?rows)) [0..<ell_in]) = Inr (map ((!) (cws k)) [0..<ell_in])"
    by (rule collect_ok) (simp add: get_row_def at_index_def get_block_hex)
  moreover have "map ((!) (cws k)) [0..<ell_in] = cws k" using len(1) by (metis map_nth)
  ultimately have c: "collect (map (get_row (JArr ?rows)) [0..<ell_in]) = Inr (cws k)" by simp
  have b: "hexStringToBytes (concat (map hex_byte bs)) fresh = Inr bs" if "length bs = 16" for bs
    using hex_roundtrips(2) [OF that assms(2)] that by (simp add: bytesToHexString_eq)
  show ?thesis
    by (simp add: to_json_def from_json_def m128iToHexString_eq bytesToHexString_eq len r c b at_key_def
        get_block_hex get_string_def get_u64_def del: map_map)
qed

lemma key_arrives:
  assumes "key_ok ell_in key" "length fresh = 16"
    and "\<forall>j. to_json ell_in key = Inr j \<longrightarrow>
      parse (dump j) = Inr j \<and> length (dump j) < 2 ^ 64 \<and> alloc (length (dump j))"
  shows "\<exists>bytes. sendKey dump ell_in key = Inr bytes \<and>
    recvKey parse alloc ell_in fresh (bytes @ rest) = Inr (key, rest)"
proof -
  obtain j where j: "to_json ell_in key = Inr j" "from_json ell_in fresh j = Inr key"
    using json_roundtrip [OF assms(1,2)] by blast
  have d: "parse (dump j) = Inr j" "length (dump j) < 2 ^ 64" "alloc (length (dump j))"
    using assms(3) j(1) by simp_all
  have "of_le_bytes (le_bytes 8 (of_nat (length (dump j)) :: u64)) = (of_nat (length (dump j)) :: u64)"
    by (rule of_le_bytes_le_bytes) simp
  moreover have "unat (of_nat (length (dump j)) :: u64) = length (dump j)"
    using d(2) by (simp add: unsigned_of_nat take_bit_nat_eq_self)
  ultimately show ?thesis
    using j d by (simp add: sendKey_def recvKey_def recv_data_def Let_def)
qed

text \<open>A key the dealer sends arrives unchanged, whatever follows it in the stream, if the
  text of its document can be read back and stored.\<close>

theorem key_transfer:
  assumes "key_ok ell_in key" "length fresh = 16"
    and "\<forall>j. to_json ell_in key = Inr j \<longrightarrow>
      parse (dump j) = Inr j \<and> length (dump j) < 2 ^ 64 \<and> alloc (length (dump j))"
  shows "\<exists>bytes. sendKey dump ell_in key = Inr bytes \<and>
    recvKey parse alloc ell_in fresh (bytes @ rest) = Inr (key, rest)"
  by (rule key_arrives [OF assms])

text \<open>For the instances: a document written as one byte.\<close>

definition key2 :: dpf_key where
  "key2 = \<lparr>stOrigin = 5, cws = [(1, 2), (3, 4)], cwLast = 6, keyL = replicate 16 7, keyR = replicate 16 8\<rparr>"

definition doc2 :: "byte list \<Rightarrow> json res" where "doc2 s = to_json 2 key2"

lemma key2_arrives:
  "\<exists>bytes. sendKey (\<lambda>j. [1]) 2 key2 = Inr bytes \<and>
     recvKey doc2 (\<lambda>n. n < 100) 2 (replicate 16 0) (bytes @ [9]) = Inr (key2, [9])"
  by (rule key_arrives) (simp_all add: key_ok_def key2_def doc2_def)

theorem key_transfer_witness:
  "\<exists>bytes. sendKey (\<lambda>j. [1]) 2 key2 = Inr bytes \<and>
     recvKey doc2 (\<lambda>n. n < 100) 2 (replicate 16 0) (bytes @ [9]) = Inr (key2, [9])"
  by (rule key_transfer) (simp_all add: key_ok_def key2_def doc2_def)

section \<open>Which documents are accepted\<close>

text \<open>The readers take digits of either case: a string stands for bytes if it is their
  hexadecimal encoding once its letters are small.\<close>

definition small_letter :: "byte \<Rightarrow> byte" where
  "small_letter c = (if 65 \<le> unat c \<and> unat c \<le> 70 then c + 32 else c)"

definition hex_for :: "byte list \<Rightarrow> byte list \<Rightarrow> bool" where
  "hex_for s bs \<longleftrightarrow> map small_letter s = concat (map hex_byte bs)"

lemma collect_nth: "collect rs = Inr xs \<Longrightarrow> i < length rs \<Longrightarrow> rs ! i = Inr (xs ! i)"
proof (induction rs arbitrary: xs i)
  case (Cons r rs)
  then show ?case by (cases i) (auto simp: res_simps)
qed simp

text \<open>Only the characters up to \<open>f\<close> have to be tried: the others are no digits.\<close>

lemma digit_range: "hexCharToNibble c = Inr k \<Longrightarrow> unat c < 103" "small_letter c \<in> List.set HEX_CHARS \<Longrightarrow> unat c < 103"
proof -
  have u: "int (unat c) = sint c mod 256" using uint_sint [of c] by (simp add: take_bit_eq_mod)
  assume "hexCharToNibble c = Inr k"
  then have "0 \<le> sint c" "sint c < 103" by (simp_all add: hexCharToNibble_def split: if_splits)
  then show "unat c < 103" using u by (simp add: mod_pos_pos_trivial del: of_nat_unat)
next
  have "\<forall>d \<in> List.set HEX_CHARS. unat d < 103" by code_simp
  then show "small_letter c \<in> List.set HEX_CHARS \<Longrightarrow> unat c < 103" by (auto simp: small_letter_def split: if_splits)
qed

lemma nibble_value: "hexCharToNibble c = Inr k \<longleftrightarrow> unat k < 16 \<and> small_letter c = HEX_CHARS ! unat k"
proof -
  have t: "\<forall>n \<in> List.set [0..<103]. case hexCharToNibble (word_of_nat n) of
      Inr k \<Rightarrow> unat k < 16 \<and> small_letter (word_of_nat n) = HEX_CHARS ! unat k | Inl e \<Rightarrow> small_letter (word_of_nat n) \<notin> List.set HEX_CHARS"
    by code_simp
  have d: "distinct HEX_CHARS" "length HEX_CHARS = 16" by code_simp+
  have n: "unat c < 103 \<Longrightarrow> c = word_of_nat (unat c) \<and> unat c \<in> List.set [0..<103]" by simp
  show ?thesis
  proof (cases "hexCharToNibble c")
    case (Inl e)
    then have "small_letter c \<notin> List.set HEX_CHARS" using t n digit_range(2) [of c] by force
    then show ?thesis using Inl d(2) by (metis Inl_Inr_False nth_mem)
  next
    case (Inr j)
    then have j: "unat j < 16" "small_letter c = HEX_CHARS ! unat j" using t n digit_range(1) [of c j] by force+
    then have "unat k < 16 \<Longrightarrow> small_letter c = HEX_CHARS ! unat k \<Longrightarrow> j = k" using d by (metis nth_eq_iff_index_eq word_unat_eq_iff)
    then show ?thesis using Inr j by auto
  qed
qed

lemma hex_pair_iff:
  assumes "length s = 32" "i < 16"
  shows "hex_pair s i = Inr b \<longleftrightarrow> small_letter (s ! (i * 2)) = hex_byte b ! 0 \<and> small_letter (s ! (i * 2 + 1)) = hex_byte b ! 1"
proof -
  have l: "i * 2 < length s" "i * 2 + 1 < length s" using assms by simp_all
  have k: "unat (drop_bit 4 b) < 16" "unat (b AND 0x0F) < 16"
    using nibble_value [THEN iffD1, OF hex_byte_digits(1)] nibble_value [THEN iffD1, OF hex_byte_digits(2)] by auto
  have "hi = drop_bit 4 (push_bit 4 hi OR lo) \<and> lo = (push_bit 4 hi OR lo) AND 0x0F" if "unat hi < 16" "unat lo < 16" for hi lo :: byte
  proof -
    have "hi = word_of_nat (unat hi)" "lo = word_of_nat (unat lo)" by simp_all
    moreover have "\<forall>h \<in> List.set [0..<16]. \<forall>l \<in> List.set [0..<16]. word_of_nat h = drop_bit 4 (push_bit 4 (word_of_nat h) OR (word_of_nat l :: byte)) \<and>
       word_of_nat l = (push_bit 4 (word_of_nat h) OR (word_of_nat l :: byte)) AND 0x0F" by code_simp
    ultimately show ?thesis using that by (metis atLeastLessThan_iff le0 set_upt)
  qed
  then show ?thesis
    using l k nibbles [of b] by (auto simp: hex_pair_def rd_def res_simps nibble_value hex_byte_def)
qed

lemma hex_pairs_iff:
  assumes "length s = 32"
  shows "collect (map (hex_pair s) [0..<16]) = Inr bs \<longleftrightarrow> length bs = 16 \<and> hex_for s bs"
proof -
  have len: "length bs = 16" if "collect (map (hex_pair s) [0..<16]) = Inr bs" using collect_length [OF that] by simp
  have "collect (map (hex_pair s) [0..<16]) = Inr bs \<longleftrightarrow> hex_for s bs" if l: "length bs = 16"
  proof
    assume c: "collect (map (hex_pair s) [0..<16]) = Inr bs"
    show "hex_for s bs" unfolding hex_for_def
    proof (rule nth_equalityI)
      fix i assume "i < length (map small_letter s)"
      then have i: "i div 2 < 16" "i < length s" using assms by simp_all
      have p: "hex_pair s (i div 2) = Inr (bs ! (i div 2))" using collect_nth [OF c, of "i div 2"] i(1) by simp
      have "small_letter (s ! (i div 2 * 2 + i mod 2)) = hex_byte (bs ! (i div 2)) ! (i mod 2)"
        using p hex_pair_iff [OF assms i(1)] by (cases "i mod 2 = 0") auto
      then show "map small_letter s ! i = concat (map hex_byte bs) ! i"
        using nth_hex [of "i div 2" bs "i mod 2"] i l by simp
    qed (use assms l in simp)
  next
    assume h: "hex_for s bs"
    have "hex_pair s i = Inr (bs ! i)" if i: "i < 16" for i
    proof -
      have "small_letter (s ! (i * 2 + j)) = hex_byte (bs ! i) ! j" if "j < 2" for j
        using arg_cong [OF h [unfolded hex_for_def], of "\<lambda>xs. xs ! (i * 2 + j)"] nth_hex [of i bs j] that i l assms by simp
      from this [of 0] this [of 1] show ?thesis using hex_pair_iff [OF assms i] by simp
    qed
    then have "collect (map (hex_pair s) [0..<16]) = Inr (map ((!) bs) [0..<16])" by (intro collect_ok) simp
    then show "collect (map (hex_pair s) [0..<16]) = Inr bs" using l by (metis map_nth)
  qed
  with len show ?thesis by blast
qed

lemma hex_for_length: "hex_for s bs \<Longrightarrow> length s = 2 * length bs"
  unfolding hex_for_def by (metis length_hex length_map)

lemma readers_iff:
  "length out = 16 \<Longrightarrow> hexStringToBytes s out = Inr bs \<longleftrightarrow> length bs = 16 \<and> hex_for s bs"
  "hexStringToM128i s = Inr v \<longleftrightarrow> hex_for s (le_bytes 16 v)"
proof -
  have long: "length s = 32" if "length bs = 16" "hex_for s bs" for bs using hex_for_length [OF that(2)] that(1) by simp
  show "length out = 16 \<Longrightarrow> hexStringToBytes s out = Inr bs \<longleftrightarrow> length bs = 16 \<and> hex_for s bs"
    using long hexStringToBytes_eq [of out s] hex_pairs_iff [of s bs] by (cases "length s = 32") (auto simp: hexStringToBytes_def)
  show "hexStringToM128i s = Inr v \<longleftrightarrow> hex_for s (le_bytes 16 v)"
  proof (cases "length s = 32")
    case True
    have eq: "length bs = 16 \<and> of_le_bytes bs = v \<longleftrightarrow> bs = le_bytes 16 v" for bs
      using le_bytes_of_le_bytes [of bs, where 'a = 128] of_le_bytes_le_bytes [of 16 v] by auto
    have "hexStringToM128i s = Inr v \<longleftrightarrow> (\<exists>bs. (length bs = 16 \<and> of_le_bytes bs = v) \<and> hex_for s bs)"
      unfolding hexStringToM128i_eq [OF True] rbind_eq_Inr hex_pairs_iff [OF True] by blast
    then show ?thesis unfolding eq by blast
  qed (use long [of "le_bytes 16 v"] in \<open>auto simp: hexStringToM128i_def\<close>)
qed

text \<open>A document with the fields of a key: blocks and byte arrays as strings of hexadecimal digits, one row of
  two blocks per level. Further fields and rows are allowed.\<close>

definition block_field :: "block \<Rightarrow> json \<Rightarrow> bool" where
  "block_field v j \<longleftrightarrow> (\<exists>s. j = JStr s \<and> hex_for s (le_bytes 16 v))"

definition bytes_field :: "byte list \<Rightarrow> json \<Rightarrow> bool" where
  "bytes_field bs j \<longleftrightarrow> (\<exists>s. j = JStr s \<and> hex_for s bs)"

definition row_field :: "block \<times> block \<Rightarrow> json \<Rightarrow> bool" where
  "row_field p j \<longleftrightarrow> (\<exists>x y zs. j = JArr (x # y # zs) \<and> block_field (fst p) x \<and> block_field (snd p) y)"

definition key_document :: "nat \<Rightarrow> dpf_key \<Rightarrow> json \<Rightarrow> bool" where
  "key_document ell_in key j \<longleftrightarrow> (\<exists>d st rows kl kr. j = JObj d \<and>
     map_of d ''stOrigin'' = Some st \<and> block_field (stOrigin key) st \<and>
     map_of d ''cws'' = Some (JArr rows) \<and> ell_in \<le> length rows \<and> (\<forall>i<ell_in. row_field (cws key ! i) (rows ! i)) \<and>
     map_of d ''cwLast'' = Some (JNum (cwLast key)) \<and>
     map_of d ''keyL'' = Some kl \<and> bytes_field (keyL key) kl \<and> map_of d ''keyR'' = Some kr \<and> bytes_field (keyR key) kr)"

lemma get_block_iff: "get_block j = Inr v \<longleftrightarrow> block_field v j"
  by (cases j) (simp_all add: get_block_def get_string_def block_field_def readers_iff)

lemma get_bytes_iff:
  assumes "length out = 16"
  shows "rbind (get_string j) (\<lambda>s. hexStringToBytes s out) = Inr bs \<longleftrightarrow> length bs = 16 \<and> bytes_field bs j"
  using readers_iff(1) [OF assms] by (cases j) (auto simp: get_string_def bytes_field_def)

lemma at_index_iff: "at_index i j = Inr x \<longleftrightarrow> (\<exists>xs. j = JArr xs \<and> i < length xs \<and> x = xs ! i)"
  by (cases j) (auto simp: at_index_def)

lemma at_key_iff: "at_key k j = Inr x \<longleftrightarrow> (\<exists>d. j = JObj d \<and> map_of d k = Some x)"
  by (cases j) (auto simp: at_key_def split: option.splits)

lemma get_row_iff: "get_row j i = Inr p \<longleftrightarrow> (\<exists>rows. j = JArr rows \<and> i < length rows \<and> row_field p (rows ! i))"
proof -
  have two: "(\<exists>xs. j = JArr xs \<and> 0 < length xs \<and> block_field (fst p) (xs ! 0) \<and> 1 < length xs \<and> block_field (snd p) (xs ! 1)) \<longleftrightarrow> row_field p j" for j
  proof
    assume "\<exists>xs. j = JArr xs \<and> 0 < length xs \<and> block_field (fst p) (xs ! 0) \<and> 1 < length xs \<and> block_field (snd p) (xs ! 1)"
    then obtain xs where xs: "j = JArr xs" "1 < length xs" "block_field (fst p) (xs ! 0)" "block_field (snd p) (xs ! 1)" by blast
    then obtain x y zs where "xs = x # y # zs" by (metis One_nat_def length_0_conv length_Cons less_irrefl list.exhaust not_less_zero)
    then show "row_field p j" using xs by (simp add: row_field_def)
  qed (auto simp: row_field_def)
  show ?thesis unfolding get_row_def rbind_eq_Inr at_index_iff get_block_iff two [symmetric] by (cases p) fastforce
qed

lemma get_rows_iff:
  assumes "0 < ell_in"
  shows "collect (map (get_row j) [0..<ell_in]) = Inr cs \<longleftrightarrow>
    (\<exists>rows. j = JArr rows \<and> ell_in \<le> length rows \<and> length cs = ell_in \<and> (\<forall>i<ell_in. row_field (cs ! i) (rows ! i)))"
proof
  assume c: "collect (map (get_row j) [0..<ell_in]) = Inr cs"
  have "get_row j i = Inr (cs ! i)" if "i < ell_in" for i using collect_nth [OF c, of i] that by simp
  then have "\<exists>rows. j = JArr rows \<and> i < length rows \<and> row_field (cs ! i) (rows ! i)" if "i < ell_in" for i using that unfolding get_row_iff by blast
  note r = this
  obtain rows where "j = JArr rows" using r [OF assms] by blast
  with r have "\<forall>i<ell_in. i < length rows \<and> row_field (cs ! i) (rows ! i)" by auto
  moreover from this assms have "ell_in \<le> length rows" by (metis less_irrefl not_less)
  ultimately show "\<exists>rows. j = JArr rows \<and> ell_in \<le> length rows \<and> length cs = ell_in \<and> (\<forall>i<ell_in. row_field (cs ! i) (rows ! i))"
    using \<open>j = JArr rows\<close> collect_length [OF c] by auto
next
  assume "\<exists>rows. j = JArr rows \<and> ell_in \<le> length rows \<and> length cs = ell_in \<and> (\<forall>i<ell_in. row_field (cs ! i) (rows ! i))"
  then obtain rows where r: "j = JArr rows" "ell_in \<le> length rows" "length cs = ell_in" "\<forall>i<ell_in. row_field (cs ! i) (rows ! i)" by blast
  have "collect (map (get_row j) [0..<ell_in]) = Inr (map ((!) cs) [0..<ell_in])" by (intro collect_ok) (use r in \<open>auto simp: get_row_iff\<close>)
  then show "collect (map (get_row j) [0..<ell_in]) = Inr cs" using r(3) by (metis map_nth)
qed

lemma from_json_iff:
  assumes "length fresh = 16" "0 < ell_in"
  shows "from_json ell_in fresh j = Inr key \<longleftrightarrow> key_ok ell_in key \<and> key_document ell_in key j"
proof -
  have b: "(\<exists>x. get_string y = Inr x \<and> (\<exists>z. hexStringToBytes x fresh = Inr z \<and> P z)) \<longleftrightarrow> (\<exists>z. (length z = 16 \<and> bytes_field z y) \<and> P z)" for y P
    using get_bytes_iff [OF assms(1), of y] unfolding rbind_eq_Inr by blast
  have n: "get_u64 y = Inr x \<longleftrightarrow> y = JNum x" for x y by (cases y) (simp_all add: get_u64_def)
  show ?thesis
    unfolding from_json_def rbind_eq_Inr b get_rows_iff [OF assms(2)] get_block_iff at_key_iff n
    by (cases key) (auto simp: key_ok_def key_document_def)
qed

text \<open>C40: a key is accepted exactly if the length, the text and the document are complete: the stream holds the
  announced number of bytes, they can be stored and parsed, and the document has every field of that very key, in
  hexadecimal digits of the full length. The document the dealer makes of a key is such a one.\<close>

theorem received_key:
  assumes "length fresh = 16" "0 < ell_in"
  shows "(recvKey parse alloc ell_in fresh stream = Inr (key, rest) \<longleftrightarrow>
      key_ok ell_in key \<and> (\<exists>n j. 8 \<le> length stream \<and> n = unat (of_le_bytes (take 8 stream) :: u64) \<and> alloc n \<and>
        8 + n \<le> length stream \<and> rest = drop (8 + n) stream \<and> parse (take n (drop 8 stream)) = Inr j \<and> key_document ell_in key j)) \<and>
    (key_ok ell_in key \<longrightarrow> (\<exists>j. to_json ell_in key = Inr j \<and> key_document ell_in key j))"
proof -
  have "recvKey parse alloc ell_in fresh stream = Inr (key, rest) \<longleftrightarrow> (\<exists>n j. 8 \<le> length stream \<and> n = unat (of_le_bytes (take 8 stream) :: u64) \<and>
      alloc n \<and> 8 + n \<le> length stream \<and> rest = drop (8 + n) stream \<and> parse (take n (drop 8 stream)) = Inr j \<and> from_json ell_in fresh j = Inr key)"
    by (auto simp: recvKey_def recv_data_def Let_def rbind_eq_Inr split: if_splits)
  moreover have "\<exists>j. to_json ell_in key = Inr j \<and> key_document ell_in key j" if "key_ok ell_in key"
    using json_roundtrip [OF that assms(1)] from_json_iff [OF assms] by blast
  ultimately show ?thesis unfolding from_json_iff [OF assms] by blast
qed

theorem received_key_witness:
  "key_ok 2 key2 \<and> (\<exists>j. to_json 2 key2 = Inr j \<and> key_document 2 key2 j \<and>
    recvKey (\<lambda>_. Inr j) (\<lambda>n. n < 100) 2 (replicate 16 0) [1, 0, 0, 0, 0, 0, 0, 0, 7, 9] = Inr (key2, [9]))"
proof -
  have k: "key_ok 2 key2" by (simp add: key_ok_def key2_def)
  note r = received_key [where fresh = "replicate 16 0" and ell_in = 2 and key = key2, simplified]
  from r k obtain j where j: "to_json 2 key2 = Inr j" "key_document 2 key2 j" by blast
  have "recvKey (\<lambda>_. Inr j) (\<lambda>n. n < 100) 2 (replicate 16 0) [1, 0, 0, 0, 0, 0, 0, 0, 7, 9] = Inr (key2, [9])"
    using r [of "\<lambda>_. Inr j" "\<lambda>n. n < 100" "[1, 0, 0, 0, 0, 0, 0, 0, 7, 9]" "[9]"] k j(2) by simp
  with k j show ?thesis by blast
qed

end
