(* ===== verification/Net.thy ===== *)
theory Net
  imports Prelude
begin

text \<open>
  Parties that exchange bytes over FIFO channels. A party is a process: it returns, throws, or
  performs input and output, with a sending and a receiving thread that run concurrently (the
  plain sequence of calls is the case where one of them is empty). \<open>send_data\<close> fills the output
  buffer of an endpoint, \<open>flush\<close> moves it to the channel, \<open>recv_data\<close> waits for the wanted
  number of bytes. A channel holds at most \<open>cap\<close> bytes: a flush into a full channel waits.

  The theorem is that the scheduling does not matter: if one execution ends with results, every
  execution is finite, never gets stuck before that end, and reaches the same results.
\<close>

section \<open>Processes\<close>

datatype 's send_instr = Put 's "byte list" | Flush 's

text \<open>\<open>Io ss rs acc k\<close>: the sends still to do, the receives still to do (endpoint and number of
  bytes), the bytes received so far, and what follows.\<close>

datatype ('s, 'a) proc =
    Ret 'a
  | Fail error
  | Io "'s send_instr list" "('s \<times> nat) list" "byte list" "byte list \<Rightarrow> ('s, 'a) proc"

primrec pbind :: "('s, 'a) proc \<Rightarrow> ('a \<Rightarrow> ('s, 'b) proc) \<Rightarrow> ('s, 'b) proc" where
  "pbind (Ret x) K = K x"
| "pbind (Fail e) K = Fail e"
| "pbind (Io ss rs acc k) K = Io ss rs acc (\<lambda>bs. pbind (k bs) K)"

definition lift_res :: "'a res \<Rightarrow> ('s, 'a) proc" where
  "lift_res r = (case r of Inl e \<Rightarrow> Fail e | Inr x \<Rightarrow> Ret x)"

definition send_data :: "'s \<Rightarrow> byte list \<Rightarrow> ('s, unit) proc" where
  "send_data s bs = Io [Put s bs] [] [] (\<lambda>_. Ret ())"

definition flush :: "'s \<Rightarrow> ('s, unit) proc" where
  "flush s = Io [Flush s] [] [] (\<lambda>_. Ret ())"

definition recv_bytes :: "'s \<Rightarrow> nat \<Rightarrow> ('s, byte list) proc" where
  "recv_bytes s n = Io [] [(s, n)] [] Ret"

lemma pbind_assoc: "pbind (pbind m f) g = pbind m (\<lambda>x. pbind (f x) g)"
  by (induction m) simp_all

lemma lift_res_simps [simp]: "lift_res (Inl e) = Fail e" "lift_res (Inr x) = Ret x"
  by (simp_all add: lift_res_def)

section \<open>Networks\<close>

text \<open>\<open>outb (p, s)\<close> is the output buffer of endpoint \<open>s\<close> of party \<open>p\<close>, \<open>chan (p, s)\<close> what is on
  its way to that endpoint; \<open>peer\<close> gives the other end of a connection.\<close>

record ('p, 's, 'a) net =
  procs :: "'p \<Rightarrow> ('s, 'a) proc"
  outb :: "'p \<times> 's \<Rightarrow> byte list"
  chan :: "'p \<times> 's \<Rightarrow> byte list"

definition snd_step :: "('p \<times> 's \<Rightarrow> 'p \<times> 's) \<Rightarrow> nat \<Rightarrow> 'p \<Rightarrow> ('p, 's, 'a) net \<Rightarrow> ('p, 's, 'a) net option" where
  "snd_step peer cap p \<sigma> = (case procs \<sigma> p of
     Io (Put s bs # ss) rs acc k \<Rightarrow>
       Some (\<sigma>\<lparr>procs := (procs \<sigma>)(p := Io ss rs acc k), outb := (outb \<sigma>)((p, s) := outb \<sigma> (p, s) @ bs)\<rparr>)
   | Io (Flush s # ss) rs acc k \<Rightarrow> (case outb \<sigma> (p, s) of
         [] \<Rightarrow> Some (\<sigma>\<lparr>procs := (procs \<sigma>)(p := Io ss rs acc k)\<rparr>)
       | b # bs \<Rightarrow>
           (if length (chan \<sigma> (peer (p, s))) < cap
            then Some (\<sigma>\<lparr>outb := (outb \<sigma>)((p, s) := bs),
              chan := (chan \<sigma>)(peer (p, s) := chan \<sigma> (peer (p, s)) @ [b])\<rparr>)
            else None))
   | _ \<Rightarrow> None)"

definition rcv_step :: "'p \<Rightarrow> ('p, 's, 'a) net \<Rightarrow> ('p, 's, 'a) net option" where
  "rcv_step p \<sigma> = (case procs \<sigma> p of
     Io ss ((s, n) # rs) acc k \<Rightarrow>
       (if n = 0 then Some (\<sigma>\<lparr>procs := (procs \<sigma>)(p := Io ss rs acc k)\<rparr>)
        else (case chan \<sigma> (p, s) of [] \<Rightarrow> None
          | b # bs \<Rightarrow> Some (\<sigma>\<lparr>procs := (procs \<sigma>)(p := Io ss ((s, n - 1) # rs) (acc @ [b]) k),
              chan := (chan \<sigma>)((p, s) := bs)\<rparr>)))
   | _ \<Rightarrow> None)"

text \<open>Both threads are done and the party goes on.\<close>

definition join_step :: "'p \<Rightarrow> ('p, 's, 'a) net \<Rightarrow> ('p, 's, 'a) net option" where
  "join_step p \<sigma> = (case procs \<sigma> p of
     Io [] [] acc k \<Rightarrow> Some (\<sigma>\<lparr>procs := (procs \<sigma>)(p := k acc)\<rparr>) | _ \<Rightarrow> None)"

datatype kind = Snd | Rcv | Join

fun exec :: "('p \<times> 's \<Rightarrow> 'p \<times> 's) \<Rightarrow> nat \<Rightarrow> 'p \<times> kind \<Rightarrow> ('p, 's, 'a) net \<Rightarrow> ('p, 's, 'a) net option" where
  "exec peer cap (p, Snd) \<sigma> = snd_step peer cap p \<sigma>"
| "exec peer cap (p, Rcv) \<sigma> = rcv_step p \<sigma>"
| "exec peer cap (p, Join) \<sigma> = join_step p \<sigma>"

inductive net_step :: "('p \<times> 's \<Rightarrow> 'p \<times> 's) \<Rightarrow> nat \<Rightarrow> ('p, 's, 'a) net \<Rightarrow> ('p, 's, 'a) net \<Rightarrow> bool"
  for peer cap
where
  net_step: "exec peer cap a \<sigma> = Some \<tau> \<Longrightarrow> net_step peer cap \<sigma> \<tau>"

inductive_cases net_stepE: "net_step peer cap \<sigma> \<tau>"

definition quiet :: "('p \<Rightarrow> ('s, 'a) proc) \<Rightarrow> ('p, 's, 'a) net" where
  "quiet P = \<lparr>procs = P, outb = (\<lambda>_. []), chan = (\<lambda>_. [])\<rparr>"

text \<open>Every execution has at most \<open>n\<close> steps, and from wherever it is it goes on to the end,
  where every party has returned its result and no byte is left anywhere.\<close>

definition completes :: "('p \<times> 's \<Rightarrow> 'p \<times> 's) \<Rightarrow> nat \<Rightarrow> ('p \<Rightarrow> ('s, 'a) proc) \<Rightarrow> ('p \<Rightarrow> 'a) \<Rightarrow> bool" where
  "completes peer cap P r \<longleftrightarrow> (\<exists>n. \<forall>m \<sigma>. (net_step peer cap ^^ m) (quiet P) \<sigma> \<longrightarrow>
     m \<le> n \<and> (net_step peer cap ^^ (n - m)) \<sigma> (quiet (\<lambda>p. Ret (r p))))"

text \<open>One execution between two moments with empty buffers.\<close>

definition runs :: "('p \<times> 's \<Rightarrow> 'p \<times> 's) \<Rightarrow> nat \<Rightarrow> ('p \<Rightarrow> ('s, 'a) proc) \<Rightarrow> ('p \<Rightarrow> ('s, 'a) proc) \<Rightarrow> bool" where
  "runs peer cap P Q \<longleftrightarrow> (net_step peer cap)\<^sup>*\<^sup>* (quiet P) (quiet Q)"

section \<open>Relations with the diamond property\<close>

definition diamond :: "('a \<Rightarrow> 'a \<Rightarrow> bool) \<Rightarrow> bool" where
  "diamond R \<longleftrightarrow> (\<forall>x y z. R x y \<longrightarrow> R x z \<longrightarrow> y = z \<or> (\<exists>w. R y w \<and> R z w))"

lemma diamond_strip:
  assumes dia: "diamond R" and fin: "\<And>u. \<not> R t u"
  shows "(R ^^ n) x t \<Longrightarrow> R x y \<Longrightarrow> \<exists>k. n = Suc k \<and> (R ^^ k) y t"
proof (induction n arbitrary: x y)
  case 0
  then show ?case using fin by simp
next
  case (Suc n)
  then obtain z where z: "R x z" "(R ^^ n) z t" by (meson relpowp_Suc_E2)
  consider "y = z" | w where "R y w" "R z w" using dia Suc.prems(2) z(1) unfolding diamond_def by blast
  then show ?case
  proof cases
    case 1
    then show ?thesis using z(2) by simp
  next
    case 2
    then obtain k where "n = Suc k" "(R ^^ k) w t" using Suc.IH [OF z(2)] by blast
    then show ?thesis using 2(1) by (metis relpowp_Suc_I2)
  qed
qed

lemma diamond_runs:
  assumes dia: "diamond R" and fin: "\<And>u. \<not> R t u" and run: "(R ^^ n) x t"
  shows "(R ^^ m) x y \<Longrightarrow> m \<le> n \<and> (R ^^ (n - m)) y t"
proof (induction m arbitrary: y)
  case 0
  then show ?case using run by simp
next
  case (Suc m)
  then obtain z where "(R ^^ m) x z" and s: "R z y" by auto
  with Suc.IH have z: "m \<le> n" "(R ^^ (n - m)) z t" by auto
  obtain k where k: "n - m = Suc k" "(R ^^ k) y t"
    using diamond_strip [OF dia fin z(2) s] by blast
  then have "k = n - Suc m" "Suc m \<le> n" by auto
  with k(2) show ?case by simp
qed

text \<open>The possible steps, one rule each.\<close>

lemma snd_cases [consumes 1, case_names put idle push]:
  assumes "snd_step peer cap p \<sigma> = Some \<tau>"
  obtains s bs ss rs acc k where "procs \<sigma> p = Io (Put s bs # ss) rs acc k"
      "\<tau> = \<sigma>\<lparr>procs := (procs \<sigma>)(p := Io ss rs acc k), outb := (outb \<sigma>)((p, s) := outb \<sigma> (p, s) @ bs)\<rparr>"
  | s ss rs acc k where "procs \<sigma> p = Io (Flush s # ss) rs acc k" "outb \<sigma> (p, s) = []"
      "\<tau> = \<sigma>\<lparr>procs := (procs \<sigma>)(p := Io ss rs acc k)\<rparr>"
  | s ss rs acc k b bs where "procs \<sigma> p = Io (Flush s # ss) rs acc k" "outb \<sigma> (p, s) = b # bs"
      "length (chan \<sigma> (peer (p, s))) < cap"
      "\<tau> = \<sigma>\<lparr>outb := (outb \<sigma>)((p, s) := bs), chan := (chan \<sigma>)(peer (p, s) := chan \<sigma> (peer (p, s)) @ [b])\<rparr>"
  using assms unfolding snd_step_def
  by (auto split: proc.splits list.splits send_instr.splits if_splits)

lemma snd_simps:
  "procs \<sigma> p = Io (Put s bs # ss) rs acc k \<Longrightarrow> snd_step peer cap p \<sigma> =
     Some (\<sigma>\<lparr>procs := (procs \<sigma>)(p := Io ss rs acc k), outb := (outb \<sigma>)((p, s) := outb \<sigma> (p, s) @ bs)\<rparr>)"
  "procs \<sigma> p = Io (Flush s # ss) rs acc k \<Longrightarrow> outb \<sigma> (p, s) = [] \<Longrightarrow> snd_step peer cap p \<sigma> =
     Some (\<sigma>\<lparr>procs := (procs \<sigma>)(p := Io ss rs acc k)\<rparr>)"
  "procs \<sigma> p = Io (Flush s # ss) rs acc k \<Longrightarrow> outb \<sigma> (p, s) = b # out \<Longrightarrow>
     length (chan \<sigma> (peer (p, s))) < cap \<Longrightarrow> snd_step peer cap p \<sigma> =
     Some (\<sigma>\<lparr>outb := (outb \<sigma>)((p, s) := out), chan := (chan \<sigma>)(peer (p, s) := chan \<sigma> (peer (p, s)) @ [b])\<rparr>)"
  by (simp_all add: snd_step_def)

lemma rcv_cases [consumes 1, case_names full take]:
  assumes "rcv_step p \<sigma> = Some \<tau>"
  obtains ss s rs acc k where "procs \<sigma> p = Io ss ((s, 0) # rs) acc k"
      "\<tau> = \<sigma>\<lparr>procs := (procs \<sigma>)(p := Io ss rs acc k)\<rparr>"
  | ss s n rs acc k b bs where "procs \<sigma> p = Io ss ((s, Suc n) # rs) acc k" "chan \<sigma> (p, s) = b # bs"
      "\<tau> = \<sigma>\<lparr>procs := (procs \<sigma>)(p := Io ss ((s, n) # rs) (acc @ [b]) k), chan := (chan \<sigma>)((p, s) := bs)\<rparr>"
proof -
  from assms obtain ss s n rs acc k where io: "procs \<sigma> p = Io ss ((s, n) # rs) acc k"
    unfolding rcv_step_def by (auto split: proc.splits list.splits)
  show thesis
  proof (cases n)
    case 0
    then show ?thesis using that(1) assms io by (simp add: rcv_step_def)
  next
    case (Suc m)
    then show ?thesis using that(2) assms io by (simp add: rcv_step_def split: list.splits)
  qed
qed

lemma rcv_simps:
  "procs \<sigma> p = Io ss ((s, 0) # rs) acc k \<Longrightarrow> rcv_step p \<sigma> =
     Some (\<sigma>\<lparr>procs := (procs \<sigma>)(p := Io ss rs acc k)\<rparr>)"
  "procs \<sigma> p = Io ss ((s, Suc n) # rs) acc k \<Longrightarrow> chan \<sigma> (p, s) = b # bs \<Longrightarrow> rcv_step p \<sigma> =
     Some (\<sigma>\<lparr>procs := (procs \<sigma>)(p := Io ss ((s, n) # rs) (acc @ [b]) k), chan := (chan \<sigma>)((p, s) := bs)\<rparr>)"
  by (simp_all add: rcv_step_def)

lemma join_cases [consumes 1, case_names join]:
  assumes "join_step p \<sigma> = Some \<tau>"
  obtains acc k where "procs \<sigma> p = Io [] [] acc k" "\<tau> = \<sigma>\<lparr>procs := (procs \<sigma>)(p := k acc)\<rparr>"
  using assms unfolding join_step_def by (auto split: proc.splits list.splits)

lemma join_simps:
  "procs \<sigma> p = Io [] [] acc k \<Longrightarrow> join_step p \<sigma> = Some (\<sigma>\<lparr>procs := (procs \<sigma>)(p := k acc)\<rparr>)"
  by (simp add: join_step_def)

section \<open>The scheduling does not matter\<close>

text \<open>All the network has to promise: no two endpoints have the same peer.\<close>

locale network =
  fixes peer :: "'p \<times> 's \<Rightarrow> 'p \<times> 's"
  assumes peer_inj: "peer x = peer y \<Longrightarrow> x = y"
begin

lemma snd_snd:
  assumes "p \<noteq> q" "snd_step peer cap p \<sigma> = Some \<tau>" "snd_step peer cap q \<sigma> = Some \<rho>"
  shows "\<exists>\<omega>. snd_step peer cap q \<tau> = Some \<omega> \<and> snd_step peer cap p \<rho> = Some \<omega>"
proof -
  have ne: "peer (p, s) \<noteq> peer (q, s')" "peer (q, s') \<noteq> peer (p, s)" for s s'
    using assms(1) peer_inj by blast+
  show ?thesis
    using assms(2)
  proof (cases rule: snd_cases)
    case put
    from assms(3) show ?thesis
      by (cases rule: snd_cases) (use assms(1) put in \<open>simp_all add: snd_simps fun_upd_twist\<close>)
  next
    case idle
    from assms(3) show ?thesis
      by (cases rule: snd_cases) (use assms(1) idle in \<open>simp_all add: snd_simps fun_upd_twist\<close>)
  next
    case push
    from assms(3) show ?thesis
      by (cases rule: snd_cases) (use assms(1) push ne in \<open>simp_all add: snd_simps fun_upd_twist\<close>)
  qed
qed

lemma snd_rcv:
  assumes "snd_step peer cap p \<sigma> = Some \<tau>" "rcv_step q \<sigma> = Some \<rho>"
  shows "\<exists>\<omega>. rcv_step q \<tau> = Some \<omega> \<and> snd_step peer cap p \<rho> = Some \<omega>"
  using assms(1)
proof (cases rule: snd_cases)
  case put
  from assms(2) show ?thesis
    by (cases rule: rcv_cases; cases "p = q") (use put in \<open>auto simp: snd_simps rcv_simps fun_upd_twist\<close>)
next
  case idle
  from assms(2) show ?thesis
    by (cases rule: rcv_cases; cases "p = q") (use idle in \<open>auto simp: snd_simps rcv_simps fun_upd_twist\<close>)
next
  case (push s ss rs acc k b bs)
  from assms(2) show ?thesis
  proof (cases rule: rcv_cases)
    case full
    then show ?thesis by (cases "p = q") (use push in \<open>auto simp: snd_simps rcv_simps fun_upd_twist\<close>)
  next
    case (take ss' s' n rs' acc' k' b' bs')
    then show ?thesis
      by (cases "p = q"; cases "peer (p, s) = (q, s')")
        (use push in \<open>auto simp: snd_simps rcv_simps fun_upd_twist\<close>)
  qed
qed

lemma rcv_rcv:
  assumes "p \<noteq> q" "rcv_step p \<sigma> = Some \<tau>" "rcv_step q \<sigma> = Some \<rho>"
  shows "\<exists>\<omega>. rcv_step q \<tau> = Some \<omega> \<and> rcv_step p \<rho> = Some \<omega>"
  using assms(2)
proof (cases rule: rcv_cases)
  case full
  from assms(3) show ?thesis
    by (cases rule: rcv_cases) (use assms(1) full in \<open>auto simp: rcv_simps fun_upd_twist\<close>)
next
  case take
  from assms(3) show ?thesis
    by (cases rule: rcv_cases) (use assms(1) take in \<open>auto simp: rcv_simps fun_upd_twist\<close>)
qed

lemma join_any:
  assumes "join_step p \<sigma> = Some \<tau>" "(p, Join) \<noteq> (q, d)" "exec peer cap (q, d) \<sigma> = Some \<rho>"
  shows "\<exists>\<omega>. exec peer cap (q, d) \<tau> = Some \<omega> \<and> join_step p \<rho> = Some \<omega>"
  using assms(1)
proof (cases rule: join_cases)
  case (join acc k)
  show ?thesis
  proof (cases d)
    case Snd
    with assms(3) have "snd_step peer cap q \<sigma> = Some \<rho>" by simp
    then show ?thesis
      by (cases rule: snd_cases; cases "p = q") (use join Snd in \<open>auto simp: join_simps snd_simps fun_upd_twist\<close>)
  next
    case Rcv
    with assms(3) have "rcv_step q \<sigma> = Some \<rho>" by simp
    then show ?thesis
      by (cases rule: rcv_cases; cases "p = q") (use join Rcv in \<open>auto simp: join_simps rcv_simps fun_upd_twist\<close>)
  next
    case Join
    with assms(3) have "join_step q \<sigma> = Some \<rho>" by simp
    then show ?thesis
      by (cases rule: join_cases) (use join Join assms(2) in \<open>auto simp: join_simps fun_upd_twist\<close>)
  qed
qed

lemma exec_commute:
  assumes "x \<noteq> y" "exec peer cap x \<sigma> = Some \<tau>" "exec peer cap y \<sigma> = Some \<rho>"
  shows "\<exists>\<omega>. exec peer cap y \<tau> = Some \<omega> \<and> exec peer cap x \<rho> = Some \<omega>"
proof -
  obtain p c q d where xy: "x = (p, c)" "y = (q, d)" by (cases x, cases y)
  show ?thesis
  proof (cases "c = Join \<or> d = Join")
    case True
    then show ?thesis
      using join_any [of p \<sigma> \<tau> q d cap \<rho>] join_any [of q \<sigma> \<rho> p c cap \<tau>] assms unfolding xy by auto
  next
    case False
    then have cd: "c = Snd \<or> c = Rcv" "d = Snd \<or> d = Rcv" using kind.exhaust by blast+
    then show ?thesis
      using assms snd_snd [of p q cap \<sigma> \<tau> \<rho>] rcv_rcv [of p q \<sigma> \<tau> \<rho>]
        snd_rcv [of cap p \<sigma> \<tau> q \<rho>] snd_rcv [of cap q \<sigma> \<rho> p \<tau>] unfolding xy by auto
  qed
qed

lemma net_diamond: "diamond (net_step peer cap)"
  unfolding diamond_def
proof (intro allI impI)
  fix \<sigma> \<tau> \<rho> assume "net_step peer cap \<sigma> \<tau>" "net_step peer cap \<sigma> \<rho>"
  then obtain x y where "exec peer cap x \<sigma> = Some \<tau>" "exec peer cap y \<sigma> = Some \<rho>"
    by (auto elim!: net_stepE)
  note xy = this
  show "\<tau> = \<rho> \<or> (\<exists>\<omega>. net_step peer cap \<tau> \<omega> \<and> net_step peer cap \<rho> \<omega>)"
  proof (cases "x = y")
    case False
    then show ?thesis using exec_commute [OF _ xy] net_step.intros by metis
  qed (use xy in simp)
qed

lemma returned_stuck: "\<not> net_step peer cap (quiet (\<lambda>p. Ret (r p))) \<tau>"
proof
  assume "net_step peer cap (quiet (\<lambda>p. Ret (r p))) \<tau>"
  then obtain p d where "exec peer cap (p, d) (quiet (\<lambda>p. Ret (r p))) = Some \<tau>" by (auto elim!: net_stepE)
  then show False by (cases d) (auto simp: snd_step_def rcv_step_def join_step_def quiet_def)
qed

theorem runs_completes: "runs peer cap P (\<lambda>p. Ret (r p)) \<Longrightarrow> completes peer cap P r"
  unfolding runs_def completes_def rtranclp_power
  using diamond_runs [OF net_diamond returned_stuck] by blast

text \<open>The results are unique.\<close>

lemma completes_unique:
  fixes P :: "'p \<Rightarrow> ('s, 'a) proc"
  assumes "completes peer cap P r" "completes peer cap P r'"
  shows "r = r'"
proof -
  let ?R = "net_step peer cap" and ?t = "\<lambda>r. quiet (\<lambda>p. Ret (r p))"
  obtain n where n: "\<And>m \<sigma>. (?R ^^ m) (quiet P) \<sigma> \<Longrightarrow> m \<le> n \<and> (?R ^^ (n - m)) \<sigma> (?t r)"
    using assms(1) unfolding completes_def by blast
  obtain n' where n': "\<And>m \<sigma>. (?R ^^ m) (quiet P) \<sigma> \<Longrightarrow> m \<le> n' \<and> (?R ^^ (n' - m)) \<sigma> (?t r')"
    using assms(2) unfolding completes_def by blast
  have "(?R ^^ n) (quiet P) (?t r)" using n [of 0 "quiet P"] by simp
  from n' [OF this] have "(?R ^^ (n' - n)) (?t r) (?t r')" by simp
  then have "(?t r :: ('p, 's, 'a) net) = ?t r'"
  proof (cases "n' - n")
    case (Suc m)
    then have "\<exists>\<tau>. ?R (?t r) \<tau>" using \<open>(?R ^^ (n' - n)) (?t r) (?t r')\<close> by (metis relpowp_Suc_D2)
    then show ?thesis using returned_stuck by blast
  qed simp
  then show ?thesis by (auto simp: quiet_def fun_eq_iff)
qed

end

section \<open>Composition\<close>

definition then_do :: "('p \<Rightarrow> ('s, 'a) proc) \<Rightarrow> ('p \<Rightarrow> 'a \<Rightarrow> ('s, 'b) proc) \<Rightarrow> 'p \<Rightarrow> ('s, 'b) proc" where
  "then_do P K p = pbind (P p) (K p)"

definition net_bind :: "('p, 's, 'a) net \<Rightarrow> ('p \<Rightarrow> 'a \<Rightarrow> ('s, 'b) proc) \<Rightarrow> ('p, 's, 'b) net" where
  "net_bind \<sigma> K = \<lparr>procs = then_do (procs \<sigma>) K, outb = outb \<sigma>, chan = chan \<sigma>\<rparr>"

lemma exec_net_bind: "exec peer cap a \<sigma> = Some \<tau> \<Longrightarrow> exec peer cap a (net_bind \<sigma> K) = Some (net_bind \<tau> K)"
proof -
  assume e: "exec peer cap a \<sigma> = Some \<tau>"
  have upd: "then_do (P(p := x)) K = (then_do P K)(p := pbind x (K p))" for P p x
    by (rule ext) (simp add: then_do_def)
  obtain p d where a: "a = (p, d)" by (cases a)
  show ?thesis
  proof (cases d)
    case Snd
    with e a have "snd_step peer cap p \<sigma> = Some \<tau>" by simp
    then show ?thesis
      by (cases rule: snd_cases)
        (simp_all add: a Snd snd_step_def net_bind_def then_do_def [of _ K p] upd)
  next
    case Rcv
    with e a have "rcv_step p \<sigma> = Some \<tau>" by simp
    then show ?thesis
      by (cases rule: rcv_cases)
        (simp_all add: a Rcv rcv_step_def net_bind_def then_do_def [of _ K p] upd)
  next
    case Join
    with e a have "join_step p \<sigma> = Some \<tau>" by simp
    then show ?thesis
      by (cases rule: join_cases)
        (simp_all add: a Join join_step_def net_bind_def then_do_def [of _ K p] upd)
  qed
qed

lemma runs_bind:
  assumes "runs peer cap P (\<lambda>p. Ret (x p))"
  shows "runs peer cap (\<lambda>p. pbind (P p) (K p)) (\<lambda>p. K p (x p))"
proof -
  have "(net_step peer cap)\<^sup>*\<^sup>* (net_bind \<sigma> K) (net_bind \<tau> K)" if "(net_step peer cap)\<^sup>*\<^sup>* \<sigma> \<tau>" for \<sigma> \<tau>
    using that
    by (induction rule: rtranclp_induct)
      (auto elim!: net_stepE intro: rtranclp.rtrancl_into_rtrancl net_step.intros exec_net_bind)
  from this [OF assms [unfolded runs_def]] show ?thesis
    by (simp add: runs_def net_bind_def quiet_def then_do_def [abs_def])
qed

lemma runs_refl [simp, intro]: "runs peer cap P P"
  by (simp add: runs_def)

lemma runs_trans [trans]: "runs peer cap P Q \<Longrightarrow> runs peer cap Q R \<Longrightarrow> runs peer cap P R"
  unfolding runs_def by (rule rtranclp_trans)

section \<open>Steps of one party\<close>

text \<open>\<open>reaches\<close> is several steps; the following are its useful instances.\<close>

abbreviation reaches :: "('p \<times> 's \<Rightarrow> 'p \<times> 's) \<Rightarrow> nat \<Rightarrow> ('p, 's, 'a) net \<Rightarrow> ('p, 's, 'a) net \<Rightarrow> bool" where
  "reaches peer cap \<equiv> (net_step peer cap)\<^sup>*\<^sup>*"

lemma snd_step_reaches: "snd_step peer cap p \<sigma> = Some \<tau> \<Longrightarrow> reaches peer cap \<sigma> \<tau>"
  by (rule r_into_rtranclp, rule net_step.intros [of _ _ "(p, Snd)"]) simp

lemma rcv_step_reaches: "rcv_step p \<sigma> = Some \<tau> \<Longrightarrow> reaches peer cap \<sigma> \<tau>"
  by (rule r_into_rtranclp, rule net_step.intros [of _ _ "(p, Rcv)"]) simp

definition state :: "('p \<Rightarrow> ('s, 'a) proc) \<Rightarrow> ('p \<times> 's \<Rightarrow> byte list) \<Rightarrow> ('p \<times> 's \<Rightarrow> byte list) \<Rightarrow> ('p, 's, 'a) net" where
  "state P U C = \<lparr>procs = P, outb = U, chan = C\<rparr>"

lemma state_sel [simp]: "procs (state P U C) = P" "outb (state P U C) = U" "chan (state P U C) = C"
  and state_upd [simp]: "(state P U C)\<lparr>procs := P'\<rparr> = state P' U C" "(state P U C)\<lparr>outb := U'\<rparr> = state P U' C"
    "(state P U C)\<lparr>chan := C'\<rparr> = state P U C'"
  by (simp_all add: state_def)

lemma quiet_state: "quiet P = state P (\<lambda>_. []) (\<lambda>_. [])"
  by (simp add: quiet_def state_def)

lemma snd_one:
  "P p = Io (Put s bs # ss) rs acc k \<Longrightarrow> reaches peer cap (state P U C)
     (state (P(p := Io ss rs acc k)) (U((p, s) := U (p, s) @ bs)) C)"
  "P p = Io (Flush s # ss) rs acc k \<Longrightarrow> U (p, s) = [] \<Longrightarrow> reaches peer cap (state P U C)
     (state (P(p := Io ss rs acc k)) U C)"
  "P p = Io (Flush s # ss) rs acc k \<Longrightarrow> U (p, s) = b # out \<Longrightarrow> length (C (peer (p, s))) < cap \<Longrightarrow>
     reaches peer cap (state P U C) (state P (U((p, s) := out)) (C(peer (p, s) := C (peer (p, s)) @ [b])))"
  by (rule snd_step_reaches [where p = p], simp add: snd_step_def state_def)+

lemma rcv_one:
  "P p = Io ss ((s, 0) # rs) acc k \<Longrightarrow> reaches peer cap (state P U C) (state (P(p := Io ss rs acc k)) U C)"
  "P p = Io ss ((s, Suc n) # rs) acc k \<Longrightarrow> C (p, s) = b # bs \<Longrightarrow> reaches peer cap (state P U C)
     (state (P(p := Io ss ((s, n) # rs) (acc @ [b]) k)) U (C((p, s) := bs)))"
  by (rule rcv_step_reaches [where p = p], simp add: rcv_step_def state_def)+

lemma join_one: "P p = Io [] [] acc k \<Longrightarrow> reaches peer cap (state P U C) (state (P(p := k acc)) U C)"
  by (rule r_into_rtranclp, rule net_step.intros [of _ _ "(p, Join)"]) (simp add: join_step_def)

lemma reaches_trans: "reaches peer cap \<sigma> \<tau> \<Longrightarrow> reaches peer cap \<tau> \<rho> \<Longrightarrow> reaches peer cap \<sigma> \<rho>"
  by (rule rtranclp_trans)

lemma upd_id: "f x = y \<Longrightarrow> f(x := y) = f"
  by auto

lemma send_reaches:
  assumes "P p = pbind (send_data s bs) K"
  shows "reaches peer cap (state P U C) (state (P(p := K ())) (U((p, s) := U (p, s) @ bs)) C)"
proof -
  let ?P = "P(p := Io [] [] [] (\<lambda>_. K ()))"
  have "reaches peer cap (state P U C) (state ?P (U((p, s) := U (p, s) @ bs)) C)"
    using assms by (intro snd_one(1)) (simp add: send_data_def)
  from reaches_trans [OF this join_one [of ?P p "[]" "\<lambda>_. K ()"]] show ?thesis by simp
qed

lemma push_reaches:
  "P p = Io (Flush s # ss) rs acc k \<Longrightarrow> U (p, s) = bs \<Longrightarrow> length (C (peer (p, s))) + length bs \<le> cap \<Longrightarrow>
     reaches peer cap (state P U C)
       (state (P(p := Io ss rs acc k)) (U((p, s) := [])) (C(peer (p, s) := C (peer (p, s)) @ bs)))"
proof (induction bs arbitrary: U C)
  case Nil
  show "reaches peer cap (state P U C)
       (state (P(p := Io ss rs acc k)) (U((p, s) := [])) (C(peer (p, s) := C (peer (p, s)) @ [])))"
    using snd_one(2) [of P p s ss rs acc k U peer cap C] Nil upd_id [of U "(p, s)" "[]"] by simp
next
  case (Cons b bs)
  let ?c = "peer (p, s)"
  let ?U = "U((p, s) := bs)" and ?C = "C(?c := C ?c @ [b])"
  have "reaches peer cap (state P U C) (state P ?U ?C)"
    using Cons.prems by (intro snd_one(3)) simp_all
  moreover have "reaches peer cap (state P ?U ?C)
      (state (P(p := Io ss rs acc k)) (?U((p, s) := [])) (?C(?c := ?C ?c @ bs)))"
    using Cons.prems by (intro Cons.IH) simp_all
  ultimately show "reaches peer cap (state P U C)
       (state (P(p := Io ss rs acc k)) (U((p, s) := [])) (C(?c := C ?c @ b # bs)))"
    by (auto intro: reaches_trans)
qed

lemma flush_reaches:
  assumes "P p = pbind (flush s) K" "length (C (peer (p, s))) + length (U (p, s)) \<le> cap"
  shows "reaches peer cap (state P U C)
    (state (P(p := K ())) (U((p, s) := [])) (C(peer (p, s) := C (peer (p, s)) @ U (p, s))))"
proof -
  let ?P = "P(p := Io [] [] [] (\<lambda>_. K ()))"
  have "reaches peer cap (state P U C)
      (state ?P (U((p, s) := [])) (C(peer (p, s) := C (peer (p, s)) @ U (p, s))))"
    using assms by (intro push_reaches) (simp_all add: flush_def)
  from reaches_trans [OF this join_one [of ?P p "[]" "\<lambda>_. K ()"]] show ?thesis by simp
qed

lemma take_reaches:
  "P p = Io ss ((s, n) # rs) acc k \<Longrightarrow> n \<le> length (C (p, s)) \<Longrightarrow>
     reaches peer cap (state P U C)
       (state (P(p := Io ss rs (acc @ take n (C (p, s))) k)) U (C((p, s) := drop n (C (p, s)))))"
proof (induction n arbitrary: P C acc)
  case 0
  show "reaches peer cap (state P U C)
       (state (P(p := Io ss rs (acc @ take 0 (C (p, s))) k)) U (C((p, s) := drop 0 (C (p, s)))))"
    using rcv_one(1) [of P p ss s rs acc k peer cap U C] 0 by simp
next
  case (Suc n)
  then obtain b bs where c: "C (p, s) = b # bs" by (cases "C (p, s)") auto
  let ?P = "P(p := Io ss ((s, n) # rs) (acc @ [b]) k)" and ?C = "C((p, s) := bs)"
  have "reaches peer cap (state P U C) (state ?P U ?C)" by (intro rcv_one(2) Suc.prems c)
  moreover have "reaches peer cap (state ?P U ?C)
      (state (?P(p := Io ss rs ((acc @ [b]) @ take n (?C (p, s))) k)) U (?C((p, s) := drop n (?C (p, s)))))"
    using Suc.prems c by (intro Suc.IH) simp_all
  ultimately show "reaches peer cap (state P U C)
       (state (P(p := Io ss rs (acc @ take (Suc n) (C (p, s))) k)) U (C((p, s) := drop (Suc n) (C (p, s)))))"
    using c by (auto intro: reaches_trans)
qed

lemma recv_reaches:
  assumes "P p = pbind (recv_bytes s n) K" "n \<le> length (C (p, s))"
  shows "reaches peer cap (state P U C)
    (state (P(p := K (take n (C (p, s))))) U (C((p, s) := drop n (C (p, s)))))"
proof -
  let ?P = "P(p := Io [] [] ([] @ take n (C (p, s))) K)"
  have "reaches peer cap (state P U C) (state ?P U (C((p, s) := drop n (C (p, s)))))"
    using assms by (intro take_reaches) (simp_all add: recv_bytes_def)
  from reaches_trans [OF this join_one [of ?P p "take n (C (p, s))" K]] show ?thesis by simp
qed

section \<open>Two parties in step\<close>

text \<open>A message longer than the channel passes while the other side receives.\<close>

lemma link_push:
  assumes pq: "p \<noteq> q" "peer (p, s) = (q, s')" "0 < cap"
  shows "P p = Io (Flush s # ss) rs acc k \<Longrightarrow> P q = Io ss' ((s', length bs + n) # rs') acc' k' \<Longrightarrow>
     C (q, s') = [] \<Longrightarrow> U (p, s) = bs \<Longrightarrow>
     reaches peer cap (state P U C)
       (state (P(p := Io ss rs acc k, q := Io ss' ((s', n) # rs') (acc' @ bs) k')) (U((p, s) := [])) C)"
proof (induction bs arbitrary: P U acc')
  case Nil
  show "reaches peer cap (state P U C)
       (state (P(p := Io ss rs acc k, q := Io ss' ((s', n) # rs') (acc' @ []) k')) (U((p, s) := [])) C)"
    using snd_one(2) [of P p s ss rs acc k U peer cap C] Nil upd_id [of U "(p, s)" "[]"]
      upd_id [of "P(p := Io ss rs acc k)" q "P q"] pq(1) by simp
next
  case (Cons b bs)
  let ?U = "U((p, s) := bs)" and ?P = "P(q := Io ss' ((s', length bs + n) # rs') (acc' @ [b]) k')"
  have "reaches peer cap (state P U C) (state P ?U (C((q, s') := [b])))"
    using Cons.prems pq snd_one(3) [of P p s ss rs acc k U b bs C peer cap] by simp
  moreover have "reaches peer cap (state P ?U (C((q, s') := [b]))) (state ?P ?U C)"
    using Cons.prems rcv_one(2) [of P q ss' s' "length bs + n" rs' acc' k' "C((q, s') := [b])" b "[]"]
      upd_id [of C "(q, s')" "[]"] by simp
  moreover have "reaches peer cap (state ?P ?U C)
      (state (?P(p := Io ss rs acc k, q := Io ss' ((s', n) # rs') ((acc' @ [b]) @ bs) k')) (?U((p, s) := [])) C)"
    using Cons.prems pq by (intro Cons.IH) simp_all
  moreover have "?P(p := Io ss rs acc k, q := Io ss' ((s', n) # rs') ((acc' @ [b]) @ bs) k') =
      P(p := Io ss rs acc k, q := Io ss' ((s', n) # rs') (acc' @ b # bs) k')" using pq(1) by (simp add: fun_upd_twist)
  moreover have "?U((p, s) := []) = U((p, s) := [])" by simp
  ultimately show "reaches peer cap (state P U C)
       (state (P(p := Io ss rs acc k, q := Io ss' ((s', n) # rs') (acc' @ b # bs) k')) (U((p, s) := [])) C)"
    by (metis reaches_trans)
qed

lemma link_reaches:
  assumes pq: "p \<noteq> q" "peer (p, s) = (q, s')" "0 < cap"
    and io: "P p = pbind (flush s) K" "P q = pbind (recv_bytes s' n) K'" "C (q, s') = []" "length (U (p, s)) = n"
  shows "reaches peer cap (state P U C) (state (P(p := K (), q := K' (U (p, s)))) (U((p, s) := [])) C)"
proof -
  let ?b = "U (p, s)" and ?U = "U((p, s) := [])"
  let ?P1 = "P(p := Io [] [] [] (\<lambda>_. K ()), q := Io [] ((s', 0) # []) ([] @ ?b) K')"
  let ?P2 = "?P1(q := Io [] [] ([] @ ?b) K')"
  let ?P3 = "?P2(p := K ())"
  have a: "reaches peer cap (state P U C) (state ?P1 ?U C)"
    by (rule link_push [where peer = peer and p = p and q = q and C = C and U = U and P = P, OF pq]) (use io in \<open>simp_all add: flush_def recv_bytes_def\<close>)
  have b: "reaches peer cap (state ?P1 ?U C) (state ?P2 ?U C)"
    by (rule rcv_one(1)) simp
  have c: "reaches peer cap (state ?P2 ?U C) (state ?P3 ?U C)"
    using join_one [of ?P2 p "[]" "\<lambda>_. K ()" peer cap ?U C] pq(1) by simp
  have d: "reaches peer cap (state ?P3 ?U C) (state (?P3(q := K' ?b)) ?U C)"
    using join_one [of ?P3 q ?b K' peer cap ?U C] pq(1) by simp
  have e: "?P3(q := K' ?b) = P(p := K (), q := K' ?b)" using pq(1) by (simp add: fun_upd_twist)
  show ?thesis using reaches_trans [OF reaches_trans [OF reaches_trans [OF a b] c] d] unfolding e .
qed

text \<open>One message, whatever its length.\<close>

lemma message_reaches:
  assumes pq: "p \<noteq> q" "peer (p, s) = (q, s')" "0 < cap"
    and io: "P p = pbind (send_data s bs) (\<lambda>_. pbind (flush s) K)" "P q = pbind (recv_bytes s' (length bs)) K'"
      "U (p, s) = []" "C (q, s') = []"
  shows "reaches peer cap (state P U C) (state (P(p := K (), q := K' bs)) U C)"
proof -
  let ?P = "P(p := pbind (flush s) K)" and ?U = "U((p, s) := bs)"
  have "reaches peer cap (state P U C) (state ?P ?U C)"
    using send_reaches [of P p s bs "\<lambda>_. pbind (flush s) K" peer cap U C] io by simp
  moreover have "reaches peer cap (state ?P ?U C) (state (?P(p := K (), q := K' (?U (p, s)))) (?U((p, s) := [])) C)"
    using link_reaches [of p q peer s s' cap ?P K "length bs" K' C ?U] pq io by simp
  moreover have "?U((p, s) := []) = U" using io(3) by auto
  ultimately show ?thesis using reaches_trans by fastforce
qed

text \<open>The same for a list of chunks, sent and received by threads of their own.\<close>

definition put_chunks :: "'s \<Rightarrow> byte list list \<Rightarrow> 's send_instr list" where
  "put_chunks s cs = concat (map (\<lambda>c. [Put s c, Flush s]) cs)"

lemma put_chunks_Cons: "put_chunks s (c # cs) = Put s c # Flush s # put_chunks s cs"
  by (simp add: put_chunks_def)

lemma link_chunks:
  assumes pq: "p \<noteq> q" "peer (p, s) = (q, s')" "0 < cap" and e: "C (q, s') = []" "U (p, s) = []"
  shows "P p = Io (put_chunks s cs) rs acc k \<Longrightarrow> P q = Io ss' (map (\<lambda>c. (s', length c)) cs) acc' k' \<Longrightarrow>
     reaches peer cap (state P U C) (state (P(p := Io [] rs acc k, q := Io ss' [] (acc' @ concat cs) k')) U C)"
proof (induction cs arbitrary: P acc')
  case Nil
  then have "P(p := Io [] rs acc k, q := Io ss' [] (acc' @ concat []) k') = P"
    by (auto simp: put_chunks_def)
  then show "reaches peer cap (state P U C)
      (state (P(p := Io [] rs acc k, q := Io ss' [] (acc' @ concat []) k')) U C)" by simp
next
  case (Cons c cs)
  let ?ss = "put_chunks s cs" and ?rs = "map (\<lambda>c. (s', length c)) cs"
  let ?U = "U((p, s) := c)" and ?P1 = "P(p := Io (Flush s # ?ss) rs acc k)"
  let ?P2 = "?P1(p := Io ?ss rs acc k, q := Io ss' ((s', 0) # ?rs) (acc' @ c) k')"
  let ?P3 = "?P2(q := Io ss' ?rs (acc' @ c) k')"
  have "reaches peer cap (state P U C) (state ?P1 ?U C)"
    using Cons.prems e(2) snd_one(1) [of P p s c "Flush s # ?ss" rs acc k peer cap U C] by (simp add: put_chunks_Cons)
  moreover have "reaches peer cap (state ?P1 ?U C) (state ?P2 (?U((p, s) := [])) C)"
    by (rule link_push [where peer = peer and p = p and q = q and C = C and P = ?P1, OF pq]) (use Cons.prems pq(1) e in simp_all)
  moreover have "?U((p, s) := []) = U" using e(2) by auto
  moreover have "reaches peer cap (state ?P2 U C) (state ?P3 U C)" by (rule rcv_one(1)) simp
  moreover have "reaches peer cap (state ?P3 U C) (state (?P3(p := Io [] rs acc k, q := Io ss' [] ((acc' @ c) @ concat cs) k')) U C)"
    using pq(1) by (intro Cons.IH) simp_all
  moreover have "?P3(p := Io [] rs acc k, q := Io ss' [] ((acc' @ c) @ concat cs) k') =
      P(p := Io [] rs acc k, q := Io ss' [] (acc' @ concat (c # cs)) k')" using pq(1) by (simp add: fun_upd_twist)
  ultimately show "reaches peer cap (state P U C)
      (state (P(p := Io [] rs acc k, q := Io ss' [] (acc' @ concat (c # cs)) k')) U C)" by (metis reaches_trans)
qed

end
