(* ===== verification/Parties.thy ===== *)
theory Parties
  imports Net
begin

text \<open>
  The ring of the three parties of \<^verbatim>\<open>include/ref_impl/shr_rep3/aby3.hpp\<close>: who is next to
  whom, the chunked exchange of the two worker threads (\<open>_reshare_ring\<close>), and the executions of
  the communication patterns the protocols use.
\<close>

section \<open>The ring\<close>

datatype pid = P0 | P1 | P2

datatype side = Prev | Next

definition PREV :: "pid \<Rightarrow> pid" where
  "PREV pid = (if pid = P0 then P2 else if pid = P1 then P0 else P1)"

definition NEXT :: "pid \<Rightarrow> pid" where
  "NEXT pid = (if pid = P0 then P1 else if pid = P1 then P2 else P0)"

text \<open>The channel of a party to its predecessor is the predecessor's channel to its successor.\<close>

definition ring_peer :: "pid \<times> side \<Rightarrow> pid \<times> side" where
  "ring_peer x = (case x of (p, Prev) \<Rightarrow> (PREV p, Next) | (p, Next) \<Rightarrow> (NEXT p, Prev))"

lemma PREV_simps [simp]: "PREV P0 = P2" "PREV P1 = P0" "PREV P2 = P1"
  and NEXT_simps [simp]: "NEXT P0 = P1" "NEXT P1 = P2" "NEXT P2 = P0"
  by (simp_all add: PREV_def NEXT_def)

lemma PREV_NEXT [simp]: "PREV (NEXT p) = p" "NEXT (PREV p) = p"
  by (cases p; simp)+

lemma ring_peer_simps [simp]: "ring_peer (p, Prev) = (PREV p, Next)" "ring_peer (p, Next) = (NEXT p, Prev)"
  by (simp_all add: ring_peer_def)

lemma all_pid: "(\<forall>p. Q p) \<longleftrightarrow> Q P0 \<and> Q P1 \<and> Q P2"
  using pid.exhaust by metis

interpretation ring3: network ring_peer
proof
  fix x y :: "pid \<times> side" assume "ring_peer x = ring_peer y"
  then show "x = y"
    by (cases x; cases y; cases "snd x"; cases "snd y") (auto dest: arg_cong [of _ _ PREV] arg_cong [of _ _ NEXT])
qed

section \<open>The exchange of the worker threads\<close>

definition CHUNK :: nat where "CHUNK = 2 ^ 16"

text \<open>\<open>for (off = 0; off < total; off += CHUNK)\<close>: the lengths \<open>min(CHUNK, total - off)\<close>.\<close>

function chunk_lens :: "nat \<Rightarrow> nat \<Rightarrow> nat list" where
  "chunk_lens off tot =
     (if off < tot then min CHUNK (tot - off) # chunk_lens (off + CHUNK) tot else [])"
  by pat_completeness auto
termination by (relation "measure (\<lambda>(off, tot). tot - off)") (auto simp: CHUNK_def)

declare chunk_lens.simps [simp del]

function send_chunks :: "byte list \<Rightarrow> nat \<Rightarrow> nat \<Rightarrow> byte list list" where
  "send_chunks msg off tot =
     (if off < tot then take (min CHUNK (tot - off)) (drop off msg) # send_chunks msg (off + CHUNK) tot
      else [])"
  by pat_completeness auto
termination by (relation "measure (\<lambda>(msg, off, tot). tot - off)") (auto simp: CHUNK_def)

declare send_chunks.simps [simp del]

definition reshare_ring :: "byte list \<Rightarrow> nat \<Rightarrow> (side, byte list) proc" where
  "reshare_ring sendBuf totalBytes =
     (if totalBytes \<le> length sendBuf
      then Io (put_chunks Prev (send_chunks sendBuf 0 totalBytes))
             (map (\<lambda>n. (Next, n)) (chunk_lens 0 totalBytes)) [] Ret
      else Fail MemFault)"

lemma chunk_lens_eq: "tot \<le> length msg \<Longrightarrow> chunk_lens off tot = map length (send_chunks msg off tot)"
proof (induction msg off tot rule: send_chunks.induct)
  case (1 msg off tot)
  then show ?case
    by (cases "off < tot") (simp_all add: chunk_lens.simps [of off] send_chunks.simps [of msg off])
qed

lemma concat_send_chunks: "off \<le> tot \<Longrightarrow> concat (send_chunks msg off tot) = take (tot - off) (drop off msg)"
proof (induction msg off tot rule: send_chunks.induct)
  case (1 msg off tot)
  show ?case
  proof (cases "off + CHUNK \<le> tot")
    case True
    then have "off < tot" "0 < CHUNK" by (auto simp: CHUNK_def)
    moreover have "take CHUNK (drop off msg) @ take (tot - (off + CHUNK)) (drop (off + CHUNK) msg) = take (tot - off) (drop off msg)"
      using True take_add [of CHUNK "tot - (off + CHUNK)" "drop off msg"] by (simp add: add.commute)
    ultimately show ?thesis using 1 True by (simp add: send_chunks.simps [of msg off])
  next
    case False
    then show ?thesis using 1(2)
      by (cases "off < tot") (simp_all add: send_chunks.simps [of msg off] send_chunks.simps [of msg "off + CHUNK"] send_chunks.simps [of msg tot])
  qed
qed

lemma concat_send_chunks_all: "concat (send_chunks msg 0 tot) = take tot msg"
  using concat_send_chunks [of 0 tot msg] by simp

section \<open>Executions\<close>

lemma pid_upd: "f(P0 := a, P1 := b, P2 := c) = (\<lambda>p. case p of P0 \<Rightarrow> a | P1 \<Rightarrow> b | P2 \<Rightarrow> c)"
  by (auto split: pid.split)

lemma ring_exchange:
  assumes "0 < cap" "\<And>p. n \<le> length (m p)"
  shows "runs ring_peer cap (\<lambda>p. reshare_ring (m p) n) (\<lambda>p. Ret (take n (m (NEXT p))))"
proof -
  let ?c = "\<lambda>p. send_chunks (m p) 0 n"
  let ?ss = "\<lambda>p. put_chunks Prev (?c p)" and ?rs = "\<lambda>p. map (\<lambda>c. (Next, length c)) (?c p)"
  let ?E = "\<lambda>_ :: pid \<times> side. [] :: byte list"
  have rs: "map (\<lambda>n. (Next, n)) (chunk_lens 0 n) = ?rs p" for p
    using chunk_lens_eq [OF assms(2) [of p], of 0] by simp
  have P: "(\<lambda>p. reshare_ring (m p) n) = (\<lambda>p. Io (?ss p) (?rs (NEXT p)) [] Ret)"
    using assms(2) rs by (simp add: reshare_ring_def fun_eq_iff)
  let ?A = "\<lambda>p. Io (?ss p) (?rs (NEXT p)) [] Ret :: (side, byte list) proc"
  let ?B = "?A(P0 := Io [] (?rs P1) [] Ret, P2 := Io (?ss P2) [] ([] @ concat (?c P0)) Ret)"
  let ?C = "?B(P1 := Io [] (?rs P2) [] Ret, P0 := Io [] [] ([] @ concat (?c P1)) Ret)"
  let ?D = "?C(P2 := Io [] [] ([] @ concat (?c P0)) Ret, P1 := Io [] [] ([] @ concat (?c P2)) Ret)"
  have "reaches ring_peer cap (state ?A ?E ?E) (state ?B ?E ?E)"
    by (rule link_chunks [where s = Prev and s' = Next and C = ?E]) (use assms in simp_all)
  moreover have "reaches ring_peer cap (state ?B ?E ?E) (state ?C ?E ?E)"
    by (rule link_chunks [where s = Prev and s' = Next and C = ?E]) (use assms in simp_all)
  moreover have "reaches ring_peer cap (state ?C ?E ?E) (state ?D ?E ?E)"
    by (rule link_chunks [where s = Prev and s' = Next and C = ?E]) (use assms in simp_all)
  ultimately have run: "reaches ring_peer cap (state ?A ?E ?E) (state ?D ?E ?E)"
    by (blast intro: reaches_trans)
  have d: "?D = (\<lambda>p. Io [] [] (take n (m (NEXT p))) Ret)"
    by (auto simp: fun_eq_iff concat_send_chunks_all all_pid)
  have join: "reaches ring_peer cap (state (\<lambda>p. Io [] [] (r p) Ret) ?E ?E) (state (\<lambda>p. Ret (r p)) ?E ?E)"
    for r :: "pid \<Rightarrow> byte list"
  proof -
    let ?J = "\<lambda>p. Io [] [] (r p) Ret :: (side, byte list) proc"
    note j = join_one [of _ _ _ Ret ring_peer cap ?E ?E]
    have "(?J(P0 := Ret (r P0), P1 := Ret (r P1), P2 := Ret (r P2))) = (\<lambda>p. Ret (r p))"
      by (auto simp: fun_eq_iff all_pid)
    then show ?thesis
      using reaches_trans [OF j [of ?J P0 "r P0"] reaches_trans [OF j [of "?J(P0 := Ret (r P0))" P1 "r P1"]
          j [of "?J(P0 := Ret (r P0), P1 := Ret (r P1))" P2 "r P2"]]] by simp
  qed
  show ?thesis
    using reaches_trans [OF run [unfolded d] join] unfolding runs_def P quiet_state .
qed

text \<open>Every party sends to one side, then receives as much from the other side.\<close>

definition opposite :: "side \<Rightarrow> side" where
  "opposite s = (if s = Prev then Next else Prev)"

definition towards :: "side \<Rightarrow> pid \<Rightarrow> pid" where
  "towards s p = (if s = Prev then PREV p else NEXT p)"

definition swap :: "side \<Rightarrow> byte list \<Rightarrow> nat \<Rightarrow> (side, byte list) proc" where
  "swap s m n = pbind (send_data s m) (\<lambda>_. pbind (flush s) (\<lambda>_. recv_bytes (opposite s) n))"

lemma swap_runs:
  assumes "n \<le> cap" "\<And>p. length (m p) = n"
  shows "runs ring_peer cap (\<lambda>p. swap s (m p) n) (\<lambda>p. Ret (m (towards (opposite s) p)))"
proof -
  let ?e = "\<lambda>_ :: pid \<times> side. [] :: byte list" and ?o = "opposite s"
  let ?R = "\<lambda>_. recv_bytes ?o n" let ?F = "\<lambda>_. pbind (flush s) ?R"
  let ?A = "\<lambda>p. swap s (m p) n"
  let ?A1 = "?A(P0 := ?F ())" let ?A2 = "?A1(P1 := ?F ())" let ?A3 = "?A2(P2 := ?F ())"
  let ?U1 = "?e((P0, s) := m P0)" let ?U2 = "?U1((P1, s) := m P1)" let ?U3 = "?U2((P2, s) := m P2)"
  have s1: "reaches ring_peer cap (state ?A ?e ?e) (state ?A1 ?U1 ?e)"
    using send_reaches [of ?A P0 s "m P0" ?F ring_peer cap ?e ?e] by (simp add: swap_def)
  have s2: "reaches ring_peer cap (state ?A1 ?U1 ?e) (state ?A2 ?U2 ?e)"
    using send_reaches [of ?A1 P1 s "m P1" ?F ring_peer cap ?U1 ?e] by (simp add: swap_def)
  have s3: "reaches ring_peer cap (state ?A2 ?U2 ?e) (state ?A3 ?U3 ?e)"
    using send_reaches [of ?A2 P2 s "m P2" ?F ring_peer cap ?U2 ?e] by (simp add: swap_def)
  let ?B1 = "?A3(P0 := ?R ())" let ?B2 = "?B1(P1 := ?R ())" let ?B3 = "?B2(P2 := ?R ())"
  let ?V1 = "?U3((P0, s) := [])" let ?V2 = "?V1((P1, s) := [])" let ?V3 = "?V2((P2, s) := [])"
  let ?C1 = "?e(ring_peer (P0, s) := m P0)" let ?C2 = "?C1(ring_peer (P1, s) := m P1)"
  let ?C3 = "?C2(ring_peer (P2, s) := m P2)"
  have pe: "ring_peer (P0, s) \<noteq> ring_peer (P1, s)" "ring_peer (P0, s) \<noteq> ring_peer (P2, s)"
    "ring_peer (P1, s) \<noteq> ring_peer (P2, s)" by (cases s; simp)+
  have f1: "reaches ring_peer cap (state ?A3 ?U3 ?e) (state ?B1 ?V1 ?C1)"
    using flush_reaches [of ?A3 P0 s ?R ?e ring_peer ?U3 cap] assms by simp
  have f2: "reaches ring_peer cap (state ?B1 ?V1 ?C1) (state ?B2 ?V2 ?C2)"
    using flush_reaches [of ?B1 P1 s ?R ?C1 ring_peer ?V1 cap] assms pe by simp
  have f3: "reaches ring_peer cap (state ?B2 ?V2 ?C2) (state ?B3 ?V3 ?C3)"
    using flush_reaches [of ?B2 P2 s ?R ?C2 ring_peer ?V2 cap] assms pe by simp
  let ?r = "\<lambda>p. m (towards ?o p)"
  let ?D1 = "?B3(P0 := Ret (?r P0))" let ?D2 = "?D1(P1 := Ret (?r P1))" let ?D3 = "?D2(P2 := Ret (?r P2))"
  let ?W1 = "?C3((P0, ?o) := [])" let ?W2 = "?W1((P1, ?o) := [])" let ?W3 = "?W2((P2, ?o) := [])"
  have c: "?C3 (p, ?o) = ?r p" for p
    by (cases p; cases s) (simp_all add: opposite_def towards_def)
  have b: "pbind (recv_bytes ?o n) Ret = recv_bytes ?o n" by (simp add: recv_bytes_def)
  have r1: "reaches ring_peer cap (state ?B3 ?V3 ?C3) (state ?D1 ?V3 ?W1)"
    using recv_reaches [of ?B3 P0 ?o n Ret ?C3 ring_peer cap ?V3] c [of P0] assms b by simp
  have r2: "reaches ring_peer cap (state ?D1 ?V3 ?W1) (state ?D2 ?V3 ?W2)"
    using recv_reaches [of ?D1 P1 ?o n Ret ?W1 ring_peer cap ?V3] c [of P1] assms b by simp
  have r3: "reaches ring_peer cap (state ?D2 ?V3 ?W2) (state ?D3 ?V3 ?W3)"
    using recv_reaches [of ?D2 P2 ?o n Ret ?W2 ring_peer cap ?V3] c [of P2] assms b by simp
  have e: "?D3 = (\<lambda>p. Ret (?r p))" "?V3 = ?e" by (auto simp: fun_eq_iff all_pid)
  have w: "?W3 = ?e" by (cases s) (auto simp: fun_eq_iff opposite_def)
  show ?thesis
    using reaches_trans [OF reaches_trans [OF reaches_trans [OF s1 s2] s3] reaches_trans [OF reaches_trans [OF
          reaches_trans [OF f1 f2] f3] reaches_trans [OF reaches_trans [OF r1 r2] r3]]]
    unfolding runs_def quiet_state e w .
qed

text \<open>\<open>P1\<close> sends what \<open>P0\<close> misses, and \<open>P0\<close> sends the outcome to both others.\<close>

lemma hub_runs:
  assumes cap: "0 < cap"
    and P0: "P P0 = pbind (recv_bytes Next (length b)) F"
      "F b = pbind (send_data Next c) (\<lambda>_. pbind (flush Next) (\<lambda>_. pbind (send_data Prev c) (\<lambda>_. pbind (flush Prev) (\<lambda>_. Ret (r P0)))))"
    and P1: "P P1 = pbind (send_data Prev b) (\<lambda>_. pbind (flush Prev) (\<lambda>_. pbind (recv_bytes Prev (length c)) G))" "G c = Ret (r P1)"
    and P2: "P P2 = pbind (recv_bytes Next (length c)) H" "H c = Ret (r P2)"
  shows "runs ring_peer cap P (\<lambda>p. Ret (r p))"
proof -
  let ?e = "\<lambda>_ :: pid \<times> side. [] :: byte list"
  let ?B = "\<lambda>_ :: unit. pbind (send_data Prev c) (\<lambda>_. pbind (flush Prev) (\<lambda>_ :: unit. Ret (r P0)))"
  let ?A = "pbind (send_data Next c) (\<lambda>_. pbind (flush Next) ?B)"
  let ?P1 = "P(P1 := pbind (recv_bytes Prev (length c)) G, P0 := ?A)"
  let ?P2 = "?P1(P0 := ?B (), P1 := G c)" let ?P3 = "?P2(P0 := Ret (r P0), P2 := H c)"
  have 1: "reaches ring_peer cap (state P ?e ?e) (state ?P1 ?e ?e)"
    using message_reaches [of P1 P0 ring_peer Prev Next cap P b "\<lambda>_. pbind (recv_bytes Prev (length c)) G" F ?e ?e]
      P0 P1 cap by simp
  have 2: "reaches ring_peer cap (state ?P1 ?e ?e) (state ?P2 ?e ?e)"
    using message_reaches [of P0 P1 ring_peer Next Prev cap ?P1 c ?B G ?e ?e] cap by simp
  have 3: "reaches ring_peer cap (state ?P2 ?e ?e) (state ?P3 ?e ?e)"
    using message_reaches [of P0 P2 ring_peer Prev Next cap ?P2 c "\<lambda>_. Ret (r P0)" H ?e ?e] cap P2 by simp
  have "?P3 = (\<lambda>p. Ret (r p))"
    using P1(2) P2(2) by (auto simp: fun_eq_iff all_pid)
  then show ?thesis
    using reaches_trans [OF reaches_trans [OF 1 2] 3] unfolding runs_def quiet_state by simp
qed

end
