(* ===== verification/Crng.thy ===== *)
theory Crng
  imports Parties Rvector_Ops
begin

text \<open>
  The correlated randomness of \<^verbatim>\<open>include/ref_impl/shr_rep3/aby3.hpp\<close>: neighbouring parties
  share a key, and each party combines the hash values of a common counter under its two keys, so
  that what the three parties draw adds up to 0. Scalars come from a cached block; a vector takes
  its blocks four at a time.
\<close>

section \<open>State\<close>

text \<open>The two keys stand for \<open>ccrhThis_\<close> and \<open>ccrhPrev_\<close>.\<close>

record aby3 =
  cRngId :: block
  keyThis :: block
  keyPrev :: block
  crngCache :: block
  crngPtr :: nat
  crngIsXor :: bool

definition BLOCK_CAPACITY :: nat where "BLOCK_CAPACITY = 16"

text \<open>\<open>if (++counter[0] == 0) ++counter[1]\<close> on the two halves of the counter.\<close>

definition next_id :: "block \<Rightarrow> block" where
  "next_id cid =
     (let c0 = ucast cid + 1 :: u64; c1 = ucast (drop_bit 64 cid) :: u64
      in mm_set_epi64x (if c0 = 0 then c1 + 1 else c1) c0)"

definition correlate :: "bool \<Rightarrow> block \<Rightarrow> block \<Rightarrow> block" where
  "correlate isXor rawThis rawPrev = (if isXor then rawThis XOR rawPrev else mm_sub_epi8 rawThis rawPrev)"

definition refillCrngCache :: "ccrh \<Rightarrow> bool \<Rightarrow> aby3 \<Rightarrow> aby3" where
  "refillCrngCache ccrh isXor a =
     (let rawThis = ccrh (keyThis a) (cRngId a); rawPrev = ccrh (keyPrev a) (cRngId a)
      in a\<lparr>crngCache := correlate isXor rawThis rawPrev, cRngId := next_id (cRngId a)\<rparr>)"

section \<open>Scalars\<close>

definition crng :: "ccrh \<Rightarrow> nat \<Rightarrow> aby3 \<Rightarrow> byte \<times> aby3" where
  "crng ccrh ell a =
     (if ell = 1
      then let a = (if crngPtr a \<ge> BLOCK_CAPACITY * 8 \<or> \<not> crngIsXor a
                    then (refillCrngCache ccrh True a)\<lparr>crngPtr := 0, crngIsXor := True\<rparr> else a);
               b = drop_bit (crngPtr a mod 8) (le_bytes 16 (crngCache a) ! (crngPtr a div 8)) AND 1
           in (b, a\<lparr>crngPtr := crngPtr a + 1\<rparr>)
      else let a = (if crngPtr a \<ge> BLOCK_CAPACITY * 8 \<or> crngIsXor a
                    then (refillCrngCache ccrh False a)\<lparr>crngPtr := 0, crngIsXor := False\<rparr> else a);
               v = le_bytes 16 (crngCache a) ! (crngPtr a div 8) AND RING_MASK8 ell
           in (v, a\<lparr>crngPtr := crngPtr a + 8\<rparr>))"

section \<open>Vectors\<close>

text \<open>The four counters of one round and the counter after it, by carries between the halves.\<close>

definition id_at :: "block \<Rightarrow> nat \<Rightarrow> block" where
  "id_at cid k =
     (let b0 = ucast cid :: u64; b1 = ucast (drop_bit 64 cid) :: u64; lo = b0 + of_nat k
      in mm_set_epi64x (b1 + (if lo < b0 then 1 else 0)) lo)"

definition id_plus_4 :: "block \<Rightarrow> block" where
  "id_plus_4 cid =
     (let b0 = ucast cid + 4 :: u64; b1 = ucast (drop_bit 64 cid) :: u64
      in mm_set_epi64x (if b0 < 4 then b1 + 1 else b1) b0)"

text \<open>Bit vectors: two words of each block, the last word cut to the length of the vector.\<close>

definition low_bits :: "nat \<Rightarrow> u64 \<Rightarrow> u64" where
  "low_bits bits x = (if bits < 64 then x AND (push_bit bits 1 - 1) else x)"

definition put_words :: "nat \<Rightarrow> nat \<Rightarrow> block \<Rightarrow> nat \<times> u64 list \<Rightarrow> nat \<times> u64 list" where
  "put_words n words raw s =
     (let (w, d) = s in
      if w < words
      then let d = d[w := low_bits (n - w * 64) (mm_cvtsi128_si64 raw)]; w = w + 1
           in if w < words
              then (w + 1, d[w := low_bits (n - w * 64) (mm_cvtsi128_si64 (drop_bit 64 raw))])
              else (w, d)
      else (w, d))"

lemma foldl_fst_mono: "(\<And>s k. fst s \<le> fst (f s k)) \<Longrightarrow> fst s \<le> fst (foldl f s ks)" for f :: "nat \<times> 'a \<Rightarrow> 'b \<Rightarrow> nat \<times> 'a"
proof (induction ks arbitrary: s)
  case (Cons k ks)
  then show ?case using order_trans [of "fst s" "fst (f s k)"] by simp
qed simp

lemma put_words_mono: "fst s \<le> fst (put_words n words raw s)" "fst s < words \<Longrightarrow> fst s < fst (put_words n words raw s)"
  by (auto simp: put_words_def Let_def split: prod.split)

definition round_words :: "(block \<Rightarrow> block) \<Rightarrow> nat \<Rightarrow> nat \<Rightarrow> block \<Rightarrow> nat \<times> u64 list \<Rightarrow> nat \<times> u64 list" where
  "round_words R n words cid s = foldl (\<lambda>s k. put_words n words (R (id_at cid k)) s) s [0, 1, 2, 3]"

lemma round_words_mono: "w < words \<Longrightarrow> w < fst (round_words R n words cid (w, d))"
  using put_words_mono(2) [of "(w, d)" words n "R (id_at cid 0)"]
    foldl_fst_mono [of "\<lambda>s k. put_words n words (R (id_at cid k)) s" "put_words n words (R (id_at cid 0)) (w, d)" "[1, 2, 3]"]
    put_words_mono(1) [of _ n words]
  by (simp add: round_words_def)

function crng_words :: "(block \<Rightarrow> block) \<Rightarrow> nat \<Rightarrow> nat \<Rightarrow> block \<Rightarrow> nat \<Rightarrow> u64 list \<Rightarrow> block \<times> u64 list" where
  "crng_words R n words cid w d =
     (if w < words
      then let (w', d') = round_words R n words cid (w, d) in crng_words R n words (id_plus_4 cid) w' d'
      else (cid, d))"
  by pat_completeness auto
termination
proof (relation "measure (\<lambda>(R, n, words, cid, w, d). words - w)", goal_cases)
  case (2 R n words cid w d x w' d')
  then show ?case using round_words_mono [of w words R n cid d] by (cases "round_words R n words cid (w, d)") (simp add: diff_less_mono2)
qed simp

declare crng_words.simps [simp del]

text \<open>Byte vectors: sixteen bytes of each block.\<close>

definition put_bytes :: "nat \<Rightarrow> block \<Rightarrow> nat \<times> byte list \<Rightarrow> nat \<times> byte list" where
  "put_bytes n masked s =
     (let (i, d) = s in
      if i < n
      then let batch = (if n - i < BLOCK_CAPACITY then n - i else BLOCK_CAPACITY)
           in (i + batch, take i d @ take batch (le_bytes 16 masked) @ drop (i + batch) d)
      else (i, d))"

definition round_bytes :: "(block \<Rightarrow> block) \<Rightarrow> nat \<Rightarrow> block \<Rightarrow> nat \<times> byte list \<Rightarrow> nat \<times> byte list" where
  "round_bytes R n cid s = foldl (\<lambda>s k. put_bytes n (R (id_at cid k)) s) s [0, 1, 2, 3]"

lemma put_bytes_mono: "fst s \<le> fst (put_bytes n raw s)" "fst s < n \<Longrightarrow> fst s < fst (put_bytes n raw s)"
  by (auto simp: put_bytes_def Let_def BLOCK_CAPACITY_def split: prod.split)

lemma round_bytes_mono: "i < n \<Longrightarrow> i < fst (round_bytes R n cid (i, d))"
  using put_bytes_mono(2) [of "(i, d)" n "R (id_at cid 0)"]
    foldl_fst_mono [of "\<lambda>s k. put_bytes n (R (id_at cid k)) s" "put_bytes n (R (id_at cid 0)) (i, d)" "[1, 2, 3]"]
    put_bytes_mono(1) [of _ n]
  by (simp add: round_bytes_def)

function crng_bytes :: "(block \<Rightarrow> block) \<Rightarrow> nat \<Rightarrow> block \<Rightarrow> nat \<Rightarrow> byte list \<Rightarrow> block \<times> byte list" where
  "crng_bytes R n cid i d =
     (if i < n
      then let (i', d') = round_bytes R n cid (i, d) in crng_bytes R n (id_plus_4 cid) i' d'
      else (cid, d))"
  by pat_completeness auto
termination
proof (relation "measure (\<lambda>(R, n, cid, i, d). n - i)", goal_cases)
  case (2 R n cid i d x i' d')
  then show ?case using round_bytes_mono [of i n R cid d] by (cases "round_bytes R n cid (i, d)") (simp add: diff_less_mono2)
qed simp

declare crng_bytes.simps [simp del]

text \<open>All words (bytes) up to the length of the vector are written.\<close>

definition crng_vec :: "ccrh \<Rightarrow> nat \<Rightarrow> rvec \<Rightarrow> aby3 \<Rightarrow> (rvec \<times> aby3) res" where
  "crng_vec ccrh ell v a =
     (let hThis = ccrh (keyThis a); hPrev = ccrh (keyPrev a); n = rv_size v in
      if ell = 1
      then if length (d64 v) < rv_words v then Inl MemFault
           else let (cid, d) = crng_words (\<lambda>x. correlate True (hThis x) (hPrev x)) n (rv_words v) (cRngId a) 0 (d64 v)
                in Inr (v\<lparr>d64 := d\<rparr>, a\<lparr>cRngId := cid, crngPtr := BLOCK_CAPACITY * 8\<rparr>)
      else if length (d8 v) < n then Inl MemFault
           else let M = (if ell = 8 then (\<lambda>x. x) else (\<lambda>x. x AND mm_set1_epi8 (RING_MASK8 ell)));
                    (cid, d) = crng_bytes (\<lambda>x. M (correlate False (hThis x) (hPrev x))) n (cRngId a) 0 (d8 v)
                in Inr (v\<lparr>d8 := d\<rparr>, a\<lparr>cRngId := cid, crngPtr := BLOCK_CAPACITY * 8\<rparr>))"

end
