(* ===== verification/Crng_Facts.thy ===== *)
theory Crng_Facts
  imports Crng
begin

text \<open>
  What correlated randomness is good for: whenever the parties' states are synchronised, the
  values the three of them draw add up to 0 (for single bits: XOR to 0), and the states are
  synchronised again. The counter arithmetic on halves is addition of 128-bit words.
\<close>

section \<open>The counter\<close>

lemma uint_mm_set_epi64x: "uint (mm_set_epi64x h l) = uint h * 2 ^ 64 + uint l"
proof -
  have "mm_set_epi64x h l = ucast l + push_bit 64 (ucast h)"
    unfolding mm_set_epi64x_def by (rule disjunctive_add [symmetric]) (auto simp: bit_simps dest: bit_imp_le_length)
  moreover have "uint h < 2 ^ 64" "uint l < 2 ^ 64" using uint_lt2p [of h] uint_lt2p [of l] by simp_all
  ultimately show ?thesis
    by (simp add: uint_word_ariths push_bit_eq_mult unsigned_ucast_eq take_bit_eq_mod)
qed

lemma mod_sum:
  fixes a b M :: int
  assumes "0 \<le> a" "a < M" "0 \<le> b" "b < M"
  shows "(a + b) mod M = a + b - of_bool (M \<le> a + b) * M"
proof (cases "M \<le> a + b")
  case True
  have "(a + b) mod M = (a + b - M) mod M" by simp
  also have "\<dots> = a + b - M" using assms True by (intro mod_pos_pos_trivial) auto
  finally show ?thesis using True by simp
qed (use assms in simp)

lemma mod_square:
  fixes H L M :: int
  assumes "0 \<le> L" "L < M"
  shows "(H * M + L) mod (M * M) = (H mod M) * M + L"
proof -
  have "(H * M + L) div M = H" "(H * M + L) mod M = L" using assms by simp_all
  then show ?thesis using zmod_zmult2_eq [of M "H * M + L" M] assms by (simp add: mult.commute)
qed

lemma halves: "uint x = uint (ucast (drop_bit 64 x) :: u64) * 2 ^ 64 + uint (ucast x :: u64)" for x :: block
proof -
  have "uint x < 2 ^ 128" using uint_lt2p [of x] by simp
  then have t: "take_bit 128 (uint x) = uint x" and lt: "uint x div 2 ^ 64 < 2 ^ 64" by (simp_all add: div_less_iff_less_mult take_bit_int_eq_self_iff)
  have "uint (ucast (drop_bit 64 x) :: u64) = take_bit 64 (drop_bit 64 (uint x))"
    unfolding unsigned_ucast_eq unsigned_drop_bit_eq using t by simp
  also have "\<dots> = uint x div 2 ^ 64"
    unfolding drop_bit_eq_div take_bit_eq_mod using lt by (intro mod_pos_pos_trivial div_int_pos_iff [THEN iffD2]) simp_all
  finally have "uint (ucast (drop_bit 64 x) :: u64) = uint x div 2 ^ 64" .
  moreover have "uint (ucast x :: u64) = uint x mod 2 ^ 64"
    unfolding unsigned_ucast_eq take_bit_eq_mod by simp
  ultimately show ?thesis by simp
qed

lemma add_halves:
  fixes x :: block and k :: u64
  defines "b0 \<equiv> ucast x :: u64" and "b1 \<equiv> ucast (drop_bit 64 x) :: u64"
  shows "mm_set_epi64x (b1 + of_bool (2 ^ 64 \<le> uint b0 + uint k)) (b0 + k) = x + ucast k"
proof -
  let ?c = "of_bool (2 ^ 64 \<le> uint b0 + uint k) :: int"
  have r: "0 \<le> uint b0" "uint b0 < 2 ^ 64" "0 \<le> uint k" "uint k < 2 ^ 64" "0 \<le> uint b1" "uint b1 < 2 ^ 64"
    using uint_lt2p [of b0] uint_lt2p [of k] uint_lt2p [of b1] by simp_all
  have lo: "uint (b0 + k) = uint b0 + uint k - ?c * 2 ^ 64"
    using mod_sum [of "uint b0" "2 ^ 64" "uint k"] r by (simp add: uint_word_ariths)
  have hi: "uint (b1 + of_bool (2 ^ 64 \<le> uint b0 + uint k)) = (uint b1 + ?c) mod 2 ^ 64"
    by (simp add: uint_word_ariths)
  have "uint (x + ucast k) = (uint b1 * 2 ^ 64 + uint b0 + uint k) mod 2 ^ 128"
    using halves [of x] r by (simp add: uint_word_ariths b0_def b1_def unsigned_ucast_eq take_bit_eq_mod)
  also have "uint b1 * 2 ^ 64 + uint b0 + uint k = (uint b1 + ?c) * 2 ^ 64 + uint (b0 + k)"
    by (simp add: lo algebra_simps)
  also have "((uint b1 + ?c) * 2 ^ 64 + uint (b0 + k)) mod 2 ^ 128 = ((uint b1 + ?c) mod 2 ^ 64) * 2 ^ 64 + uint (b0 + k)"
  proof -
    have "0 \<le> uint (b0 + k)" "uint (b0 + k) < 2 ^ 64" using uint_lt2p [of "b0 + k"] by simp_all
    from mod_square [OF this, of "uint b1 + ?c"] show ?thesis unfolding power_add [symmetric] by simp
  qed
  finally show ?thesis unfolding word_uint_eq_iff uint_mm_set_epi64x hi by (rule sym)
qed

lemma carry_iff:
  fixes a k :: u64
  shows "a + k < k \<longleftrightarrow> 2 ^ 64 \<le> uint a + uint k" "a + k < a \<longleftrightarrow> 2 ^ 64 \<le> uint a + uint k"
proof -
  have r: "uint a < 2 ^ 64" "uint k < 2 ^ 64" using uint_lt2p [of a] uint_lt2p [of k] by simp_all
  have "uint (a + k) = uint a + uint k - of_bool (2 ^ 64 \<le> uint a + uint k) * 2 ^ 64"
    using mod_sum [of "uint a" "2 ^ 64" "uint k"] r by (simp add: uint_word_ariths)
  with r show "a + k < k \<longleftrightarrow> 2 ^ 64 \<le> uint a + uint k" "a + k < a \<longleftrightarrow> 2 ^ 64 \<le> uint a + uint k"
    unfolding word_less_def by (cases "2 ^ 64 \<le> uint a + uint k"; simp)+
qed

lemma next_id_eq: "next_id cid = cid + 1"
proof -
  have "(ucast cid + 1 :: u64) = 0 \<longleftrightarrow> 2 ^ 64 \<le> uint (ucast cid :: u64) + uint (1 :: u64)"
    using carry_iff(1) [of "ucast cid" 1] by (simp add: word_less_1)
  then show ?thesis using add_halves [of cid 1] by (auto simp: next_id_def Let_def)
qed

lemma id_plus_4_eq: "id_plus_4 cid = cid + 4"
  using add_halves [of cid 4] carry_iff(1) [of "ucast cid" 4] by (auto simp: id_plus_4_def Let_def)

lemma id_at_eq: "k < 4 \<Longrightarrow> id_at cid k = cid + of_nat k"
proof -
  assume "k < 4"
  then have "k = 0 \<or> k = 1 \<or> k = 2 \<or> k = 3" by linarith
  then have "ucast (of_nat k :: u64) = (of_nat k :: block)" by auto
  then show ?thesis
    using add_halves [of cid "of_nat k"] carry_iff(2) [of "ucast cid" "of_nat k"] by (auto simp: id_at_def Let_def)
qed

section \<open>Lanes of a register\<close>

lemma le_bytes_sub: "i < 16 \<Longrightarrow> le_bytes 16 (mm_sub_epi8 a b) ! i = le_bytes 16 a ! i - le_bytes 16 b ! i"
proof -
  assume i: "i < 16"
  have "le_bytes (length (map2 (-) (le_bytes 16 a) (le_bytes 16 b))) (mm_sub_epi8 a b) = map2 (-) (le_bytes 16 a) (le_bytes 16 b)"
    unfolding mm_sub_epi8_def by (rule le_bytes_of_le_bytes) simp
  then show ?thesis using i by simp
qed

lemma bit_le_bytes: "i < k \<Longrightarrow> bit (le_bytes k w ! i) j \<longleftrightarrow> j < 8 \<and> bit w (8 * i + j)" for w :: "'a::len word"
  by (auto simp: le_bytes_def bit_simps dest: bit_imp_le_length)

lemma le_bytes_and_set1: "i < 16 \<Longrightarrow> le_bytes 16 (x AND mm_set1_epi8 m) ! i = le_bytes 16 x ! i AND m"
  by (rule bit_word_eqI)
    (auto simp: bit_le_bytes mm_set1_epi8_def bit_of_le_bytes bit_and_iff)

lemma cached_bit: "p < 128 \<Longrightarrow> drop_bit (p mod 8) (le_bytes 16 c ! (p div 8)) AND 1 = of_bool (bit c p)" for c :: block
proof -
  assume p: "p < 128"
  then have "p div 8 < 16" by simp
  then have "bit (le_bytes 16 c ! (p div 8)) (p mod 8) = bit c p" by (simp add: bit_le_bytes)
  moreover have "drop_bit k w AND 1 = of_bool (bit w k)" for k and w :: byte
    by (simp add: and_one_eq odd_iff_mod_2_eq_one bit_iff_odd_drop_bit)
  ultimately show ?thesis by simp
qed

section \<open>Drawing zero\<close>

text \<open>The states of three parties that have drawn the same amount.\<close>

definition synced :: "ccrh \<Rightarrow> (pid \<Rightarrow> aby3) \<Rightarrow> bool" where
  "synced ccrh A \<longleftrightarrow> (\<exists>ctr ptr x cid.
     (\<forall>p. keyPrev (A p) = keyThis (A (PREV p)) \<and> cRngId (A p) = ctr \<and> crngPtr (A p) = ptr \<and> crngIsXor (A p) = x \<and>
        (ptr < 128 \<longrightarrow> crngCache (A p) = correlate x (ccrh (keyThis (A p)) cid) (ccrh (keyThis (A (PREV p))) cid))) \<and>
     ptr \<le> 128 \<and> (x \<or> 8 dvd ptr))"

definition zero3 :: "nat \<Rightarrow> (pid \<Rightarrow> byte) \<Rightarrow> bool" where
  "zero3 ell r \<longleftrightarrow> take_bit ell (r P0 + r P1 + r P2) = 0"

lemma zero_bits:
  fixes a b c :: bool
  shows "take_bit 1 (of_bool (a \<noteq> b) + of_bool (c \<noteq> a) + of_bool (b \<noteq> c) :: byte) = 0"
proof -
  have "\<forall>a\<in>{True, False}. \<forall>b\<in>{True, False}. \<forall>c\<in>{True, False}.
      take_bit 1 (of_bool (a \<noteq> b) + of_bool (c \<noteq> a) + of_bool (b \<noteq> c) :: byte) = 0" by code_simp
  then show ?thesis by (cases a; cases b; cases c) auto
qed

lemma zero_bytes:
  "ell \<le> 8 \<Longrightarrow> take_bit ell (take_bit ell (a - b) + take_bit ell (c - a) + take_bit ell (b - c) :: byte) = 0"
proof -
  assume "ell \<le> 8"
  then have "take_bit ell (take_bit ell (a - b) + take_bit ell (c - a) + take_bit ell (b - c)) =
      take_bit ell ((a - b) + (c - a) + (b - c))" by (intro take_bit_cong) simp_all
  then show ?thesis by simp
qed

text \<open>A refill leaves the parties with correlated caches and the next counter.\<close>

lemma refill_synced:
  assumes "synced ccrh A"
  shows "synced ccrh (\<lambda>p. (refillCrngCache ccrh x (A p))\<lparr>crngPtr := 0, crngIsXor := x\<rparr>)"
proof -
  obtain ctr where "\<And>p. cRngId (A p) = ctr" "\<And>p. keyPrev (A p) = keyThis (A (PREV p))"
    using assms unfolding synced_def by blast
  then show ?thesis unfolding synced_def
    by (intro exI [of _ "next_id ctr"] exI [of _ 0] exI [of _ x] exI [of _ ctr])
      (simp add: refillCrngCache_def Let_def)
qed

text \<open>The state a scalar is drawn from.\<close>

definition ready :: "ccrh \<Rightarrow> bool \<Rightarrow> aby3 \<Rightarrow> aby3" where
  "ready ccrh x a = (if crngPtr a \<ge> 128 \<or> crngIsXor a \<noteq> x
     then (refillCrngCache ccrh x a)\<lparr>crngPtr := 0, crngIsXor := x\<rparr> else a)"

lemma crng_ready:
  "x = (ell = 1) \<Longrightarrow> crng ccrh ell a = (let b = ready ccrh x a; k = crngPtr b in
     if x then (drop_bit (k mod 8) (le_bytes 16 (crngCache b) ! (k div 8)) AND 1, b\<lparr>crngPtr := k + 1\<rparr>)
     else (le_bytes 16 (crngCache b) ! (k div 8) AND RING_MASK8 ell, b\<lparr>crngPtr := k + 8\<rparr>))"
  by (simp add: crng_def ready_def BLOCK_CAPACITY_def Let_def)

lemma ready_synced:
  assumes "synced ccrh A"
  obtains ctr k cid where "k < 128" "x \<or> 8 dvd k" "\<And>p. crngPtr (ready ccrh x (A p)) = k"
    "\<And>p. crngIsXor (ready ccrh x (A p)) = x" "\<And>p. cRngId (ready ccrh x (A p)) = ctr"
    "\<And>p. keyThis (ready ccrh x (A p)) = keyThis (A p)" "\<And>p. keyPrev (ready ccrh x (A p)) = keyThis (A (PREV p))"
    "\<And>p. crngCache (ready ccrh x (A p)) = correlate x (ccrh (keyThis (A p)) cid) (ccrh (keyThis (A (PREV p))) cid)"
proof -
  obtain ctr ptr y cid where A: "\<And>p. keyPrev (A p) = keyThis (A (PREV p))" "\<And>p. cRngId (A p) = ctr"
    "\<And>p. crngPtr (A p) = ptr" "\<And>p. crngIsXor (A p) = y" "y \<or> 8 dvd ptr"
    "\<And>p. ptr < 128 \<Longrightarrow> crngCache (A p) = correlate y (ccrh (keyThis (A p)) cid) (ccrh (keyThis (A (PREV p))) cid)"
    using assms unfolding synced_def by blast
  show thesis
  proof (cases "128 \<le> ptr \<or> y \<noteq> x")
    case True
    show ?thesis by (rule that [of 0 "next_id ctr" ctr]) (use A True in \<open>auto simp: ready_def refillCrngCache_def Let_def\<close>)
  next
    case False
    show ?thesis by (rule that [of ptr ctr cid]) (use A False in \<open>auto simp: ready_def\<close>)
  qed
qed

lemma crng_synced:
  assumes s: "synced ccrh A" and ell: "1 \<le> ell" "ell \<le> 8"
  shows "synced ccrh (\<lambda>p. snd (crng ccrh ell (A p)))"
    and "zero3 ell (\<lambda>p. fst (crng ccrh ell (A p)))"
    and "take_bit ell (fst (crng ccrh ell (A p))) = fst (crng ccrh ell (A p))"
    and "keyThis (snd (crng ccrh ell (A p))) = keyThis (A p)"
proof -
  obtain x where x: "x = (ell = 1)" by blast
  let ?B = "\<lambda>p. ready ccrh x (A p)"
  obtain ctr k cid where k: "k < 128" "x \<or> 8 dvd k" "\<And>p. crngPtr (?B p) = k"
    and B: "\<And>p. crngIsXor (?B p) = x" "\<And>p. cRngId (?B p) = ctr" "\<And>p. keyThis (?B p) = keyThis (A p)"
      "\<And>p. keyPrev (?B p) = keyThis (A (PREV p))"
    and c: "\<And>p. crngCache (?B p) = correlate x (ccrh (keyThis (A p)) cid) (ccrh (keyThis (A (PREV p))) cid)"
    by (rule ready_synced [OF s, where x = x]) (rule that, assumption+)
  let ?F = "\<lambda>p. ccrh (keyThis (A p)) cid"
  have d: "k div 8 < 16" using k(1) by simp
  show "keyThis (snd (crng ccrh ell (A p))) = keyThis (A p)"
    using B(3) [of p] by (cases x) (simp_all add: crng_ready [OF x] Let_def)
  define m where "m = (if x then k + 1 else k + 8)"
  have m: "m \<le> 128" "x \<or> 8 dvd m" using k(1,2) by (cases x; simp add: m_def; presburger)+
  have C: "snd (crng ccrh ell (A p)) = ?B p\<lparr>crngPtr := m\<rparr>" for p
    using k(3) [of p] by (cases x) (simp_all add: crng_ready [OF x] Let_def m_def)
  show "synced ccrh (\<lambda>p. snd (crng ccrh ell (A p)))"
    unfolding synced_def C
    by (rule exI [of _ ctr], rule exI [of _ m], rule exI [of _ x], rule exI [of _ cid]) (simp add: B c m)
  have bit: "fst (crng ccrh ell (A p)) = of_bool (bit (?F p) k \<noteq> bit (?F (PREV p)) k)" if x for p
    using that k(1) k(3) [of p] c [of p] cached_bit [of k "crngCache (?B p)"]
    by (simp add: crng_ready [OF x] Let_def correlate_def bit_xor_iff)
  have byte: "fst (crng ccrh ell (A p)) = take_bit ell (le_bytes 16 (?F p) ! (k div 8) - le_bytes 16 (?F (PREV p)) ! (k div 8))"
    if "\<not> x" for p
    using that k(3) [of p] c [of p] ell le_bytes_sub [OF d] by (simp add: crng_ready [OF x] Let_def correlate_def and_RING_MASK8)
  show "zero3 ell (\<lambda>p. fst (crng ccrh ell (A p)))"
    using bit zero_bits byte zero_bytes [OF ell(2)] x by (cases x) (simp_all add: zero3_def)
  show "take_bit ell (fst (crng ccrh ell (A p))) = fst (crng ccrh ell (A p))"
    using ell bit [of p] byte [of p] x by (cases x) auto
qed

end
