(* ===== verification/Aby3.thy ===== *)
theory Aby3
  imports Crng_Facts
begin

text \<open>
  The scalar protocols of \<^verbatim>\<open>include/ref_impl/shr_rep3/aby3.hpp\<close>, each as the process every party
  runs: its messages, the correlated randomness it draws and the share it ends with. The state
  \<open>aby3\<close> is passed along. Shares are 32-bit fields of which one byte travels.
\<close>

section \<open>Shares\<close>

record 'a shr_rep3 =
  thisShare :: 'a
  nxtShare :: 'a

type_synonym ShrRep3ShareScalar = "u32 shr_rep3"

type_synonym 'a party = "(side, 'a \<times> aby3) proc"

section \<open>Construction\<close>

text \<open>\<open>sodium\<close> is the result of \<open>sodium_init\<close>, \<open>key\<close> the random key, \<open>cache\<close> what the
  uninitialised cache holds.\<close>

definition aby3_new :: "int \<Rightarrow> block \<Rightarrow> block \<Rightarrow> (side, aby3) proc" where
  "aby3_new sodium key cache =
     (if sodium < 0 then Fail RuntimeError
      else pbind (send_data Next (le_bytes 16 key)) (\<lambda>_. pbind (flush Next) (\<lambda>_.
           pbind (recv_bytes Prev 16) (\<lambda>bs.
           Ret \<lparr>cRngId = 0, keyThis = key, keyPrev = of_le_bytes bs, crngCache = cache,
                crngPtr = BLOCK_CAPACITY * 8, crngIsXor = False\<rparr>))))"

section \<open>Sharing\<close>

text \<open>\<open>send_data(&x, 1); flush; recv_data(&y, 1)\<close>, the fields being zero before.\<close>

definition pass_on :: "u32 \<Rightarrow> (side, ShrRep3ShareScalar) proc" where
  "pass_on x =
     pbind (send_data Prev (le_bytes 1 x)) (\<lambda>_. pbind (flush Prev) (\<lambda>_.
     pbind (recv_bytes Next 1) (\<lambda>bs. Ret \<lparr>thisShare = x, nxtShare = of_le_bytes bs\<rparr>)))"

definition share :: "ccrh \<Rightarrow> nat \<Rightarrow> byte \<Rightarrow> aby3 \<Rightarrow> ShrRep3ShareScalar party" where
  "share ccrh ell num a =
     (let (r, a) = crng ccrh ell a
      in pbind (pass_on (ucast (ringAdd8 ell num r))) (\<lambda>s. Ret (s, a)))"

definition recvShare :: "ccrh \<Rightarrow> nat \<Rightarrow> aby3 \<Rightarrow> ShrRep3ShareScalar party" where
  "recvShare ccrh ell a =
     (let (r, a) = crng ccrh ell a in pbind (pass_on (ucast r)) (\<lambda>s. Ret (s, a)))"

definition reshare :: "byte \<Rightarrow> aby3 \<Rightarrow> ShrRep3ShareScalar party" where
  "reshare val a = pbind (pass_on (ucast val)) (\<lambda>s. Ret (s, a))"

section \<open>Messages to one party\<close>

definition send_to :: "pid \<Rightarrow> pid \<Rightarrow> byte list \<Rightarrow> (side, unit) proc" where
  "send_to pid to bs =
     (let s = (if to = PREV pid then Prev else Next)
      in pbind (send_data s bs) (\<lambda>_. flush s))"

definition recv_from :: "pid \<Rightarrow> pid \<Rightarrow> nat \<Rightarrow> (side, byte list) proc" where
  "recv_from pid sender len = recv_bytes (if sender = PREV pid then Prev else Next) len"

definition send_scalar :: "pid \<Rightarrow> pid \<Rightarrow> byte \<Rightarrow> (side, unit) proc" where
  "send_scalar pid to val = send_to pid to [val]"

definition recv_scalar :: "pid \<Rightarrow> pid \<Rightarrow> (side, byte) proc" where
  "recv_scalar pid sender = pbind (recv_from pid sender 1) (\<lambda>bs. Ret (hd bs))"

section \<open>Opening\<close>

definition revealAll :: "nat \<Rightarrow> pid \<Rightarrow> ShrRep3ShareScalar \<Rightarrow> (side, byte) proc" where
  "revealAll ell pid ss =
     (case pid of
        P0 \<Rightarrow> pbind (recv_bytes Next 1) (\<lambda>bs.
          let missing = hd bs;
              r = ucast (thisShare ss) + ucast (nxtShare ss) + ucast missing :: 16 word;
              r = (if ell < 8 then r AND ucast (RING_MASK8 ell) else r);
              result = ucast r
          in pbind (send_data Next [result]) (\<lambda>_. pbind (flush Next) (\<lambda>_.
             pbind (send_data Prev [result]) (\<lambda>_. pbind (flush Prev) (\<lambda>_. Ret result)))))
      | P1 \<Rightarrow> pbind (send_data Prev (le_bytes 1 (nxtShare ss))) (\<lambda>_. pbind (flush Prev) (\<lambda>_.
          pbind (recv_bytes Prev 1) (\<lambda>bs. Ret (hd bs))))
      | P2 \<Rightarrow> pbind (recv_bytes Next 1) (\<lambda>bs. Ret (hd bs)))"

section \<open>Arithmetic\<close>

definition add :: "nat \<Rightarrow> ShrRep3ShareScalar \<Rightarrow> ShrRep3ShareScalar \<Rightarrow> ShrRep3ShareScalar" where
  "add ell num1 num2 =
     \<lparr>thisShare = ucast (ringAdd8 ell (ucast (thisShare num1)) (ucast (thisShare num2))),
      nxtShare = ucast (ringAdd8 ell (ucast (nxtShare num1)) (ucast (nxtShare num2)))\<rparr>"

definition sub :: "nat \<Rightarrow> ShrRep3ShareScalar \<Rightarrow> ShrRep3ShareScalar \<Rightarrow> ShrRep3ShareScalar" where
  "sub ell num1 num2 =
     \<lparr>thisShare = ucast (ringSub8 ell (ucast (thisShare num1)) (ucast (thisShare num2))),
      nxtShare = ucast (ringSub8 ell (ucast (nxtShare num1)) (ucast (nxtShare num2)))\<rparr>"

definition mul :: "ccrh \<Rightarrow> nat \<Rightarrow> ShrRep3ShareScalar \<Rightarrow> ShrRep3ShareScalar \<Rightarrow> aby3 \<Rightarrow> ShrRep3ShareScalar party" where
  "mul ccrh ell num1 num2 a =
     (let mulRes33 = ringMul8 ell (ucast (thisShare num1)) (ucast (thisShare num2));
          mulRes33 = ringAdd8 ell mulRes33 (ringMul8 ell (ucast (thisShare num1)) (ucast (nxtShare num2)));
          mulRes33 = ringAdd8 ell mulRes33 (ringMul8 ell (ucast (nxtShare num1)) (ucast (thisShare num2)));
          (r, a) = crng ccrh ell a
      in pbind (pass_on (ucast (ringAdd8 ell mulRes33 r))) (\<lambda>s. Ret (s, a)))"

section \<open>Conversion of a shared bit\<close>

text \<open>\<open>x1 XOR x2 = x1 + x2 - 2 * x1 * x2\<close> twice, with one product shared in each round.\<close>

definition conv_prod01 :: "ccrh \<Rightarrow> nat \<Rightarrow> pid \<Rightarrow> byte \<Rightarrow> byte \<Rightarrow> aby3 \<Rightarrow> byte \<times> aby3" where
  "conv_prod01 ccrh ell_to pid b0 b1 a =
     (let (r, a) = crng ccrh ell_to a
      in (if pid = P0 then ringAdd8 ell_to (ringMul8 ell_to b0 b1) r else r, a))"

definition conv_d :: "nat \<Rightarrow> pid \<Rightarrow> byte \<Rightarrow> byte \<Rightarrow> byte \<Rightarrow> byte \<Rightarrow> byte \<times> byte" where
  "conv_d ell_to pid b0 b1 q0 q1 =
     (let sub2 = (\<lambda>x q. ringSub8 ell_to x (ringAdd8 ell_to q q))
      in case pid of
           P0 \<Rightarrow> (sub2 b0 q0, sub2 b1 q1)
         | P1 \<Rightarrow> (sub2 b0 q0, sub2 0 q1)
         | P2 \<Rightarrow> (sub2 0 q0, sub2 b1 q1))"

definition conv_prod2 :: "ccrh \<Rightarrow> nat \<Rightarrow> pid \<Rightarrow> byte \<Rightarrow> byte \<Rightarrow> byte \<times> byte \<Rightarrow> aby3 \<Rightarrow> byte \<times> aby3" where
  "conv_prod2 ccrh ell_to pid b0 b1 d a =
     (let (r, a) = crng ccrh ell_to a
      in (case pid of
            P0 \<Rightarrow> r
          | P1 \<Rightarrow> ringAdd8 ell_to (ringMul8 ell_to (fst d) b1) r
          | P2 \<Rightarrow> ringAdd8 ell_to (ringMul8 ell_to (ringAdd8 ell_to (fst d) (snd d)) b0) r, a))"

definition conv_e :: "nat \<Rightarrow> pid \<Rightarrow> byte \<Rightarrow> byte \<Rightarrow> byte \<times> byte \<Rightarrow> byte \<Rightarrow> byte \<Rightarrow> byte \<times> byte" where
  "conv_e ell_to pid b0 b1 d q0 q1 =
     (let sub2 = (\<lambda>x q. ringSub8 ell_to x (ringAdd8 ell_to q q))
      in case pid of
           P0 \<Rightarrow> (sub2 (fst d) q0, sub2 (snd d) q1)
         | P1 \<Rightarrow> (sub2 (fst d) q0, sub2 (ringAdd8 ell_to (snd d) b1) q1)
         | P2 \<Rightarrow> (sub2 (ringAdd8 ell_to (fst d) b0) q0, sub2 (snd d) q1))"

definition ringConv :: "ccrh \<Rightarrow> nat \<Rightarrow> pid \<Rightarrow> ShrRep3ShareScalar \<Rightarrow> aby3 \<Rightarrow> ShrRep3ShareScalar party" where
  "ringConv ccrh ell_to pid num a =
     (let b0 = ucast (thisShare num); b1 = ucast (nxtShare num);
          (m1, a) = conv_prod01 ccrh ell_to pid b0 b1 a
      in pbind (pass_on (ucast m1)) (\<lambda>Jprod01.
         let d = conv_d ell_to pid b0 b1 (ucast (thisShare Jprod01)) (ucast (nxtShare Jprod01));
             (m2, a) = conv_prod2 ccrh ell_to pid b0 b1 d a
         in pbind (pass_on (ucast m2)) (\<lambda>Jprod2.
            let e = conv_e ell_to pid b0 b1 d (ucast (thisShare Jprod2)) (ucast (nxtShare Jprod2))
            in Ret (\<lparr>thisShare = ucast (fst e), nxtShare = ucast (snd e)\<rparr>, a))))"

end
