(* ===== verification/Aby3_Vec.thy ===== *)
theory Aby3_Vec
  imports Aby3 Rvector_Pack
begin

text \<open>
  The vector protocols of \<^verbatim>\<open>include/ref_impl/shr_rep3/aby3.hpp\<close>. Vectors are objects of a store
  and are passed by reference, as in the element-wise arithmetic; a share vector is a pair of
  references to its two members, whose first also identifies the object. Local vectors live at
  references beyond those of the arguments and are gone at the end.
\<close>

type_synonym ShrRep3ShareVec = "nat shr_rep3"

section \<open>Raw data\<close>

definition load_data :: "nat \<Rightarrow> rvec \<Rightarrow> byte list \<Rightarrow> rvec res" where
  "load_data ell v bs = rbind (of_option (stn (rv_bytes ell v) 0 bs)) (\<lambda>b. Inr (set_bytes ell v b))"

definition send_bytes :: "side \<Rightarrow> byte list \<Rightarrow> nat \<Rightarrow> (side, unit) proc" where
  "send_bytes s data n =
     pbind (lift_res (of_option (ldn data 0 n))) (\<lambda>bs. pbind (send_data s bs) (\<lambda>_. flush s))"

definition recv_into :: "nat \<Rightarrow> side \<Rightarrow> nat \<Rightarrow> nat \<Rightarrow> store \<Rightarrow> (side, store) proc" where
  "recv_into ell s r n st =
     pbind (recv_bytes s n) (\<lambda>bs. lift_res (rbind (load_data ell (st r) bs) (\<lambda>v. Inr (st(r := v)))))"

text \<open>\<open>_reshare_ring(x.data(), y.data(), total)\<close>.\<close>

definition ring_data :: "nat \<Rightarrow> nat \<Rightarrow> nat \<Rightarrow> nat \<Rightarrow> store \<Rightarrow> (side, store) proc" where
  "ring_data ell x y tot st =
     pbind (reshare_ring (rv_bytes ell (st x)) tot) (\<lambda>bs.
     lift_res (rbind (load_data ell (st y) bs) (\<lambda>v. Inr (st(y := v)))))"

definition pass_on_vec :: "nat \<Rightarrow> ShrRep3ShareVec \<Rightarrow> store \<times> aby3 \<Rightarrow> (store) party" where
  "pass_on_vec ell oVec s =
     (let (st, a) = s
      in pbind (ring_data ell (thisShare oVec) (nxtShare oVec) (bytesSize ell (st (nxtShare oVec))) st)
           (\<lambda>st. Ret (st, a)))"

definition crng_at :: "ccrh \<Rightarrow> nat \<Rightarrow> nat \<Rightarrow> store \<Rightarrow> aby3 \<Rightarrow> (store \<times> aby3) res" where
  "crng_at ccrh ell r st a = rbind (crng_vec ccrh ell (st r) a) (\<lambda>(v, a). Inr (st(r := v), a))"

section \<open>Sharing\<close>

definition share_vec :: "ccrh \<Rightarrow> nat \<Rightarrow> nat \<Rightarrow> ShrRep3ShareVec \<Rightarrow> store \<Rightarrow> aby3 \<Rightarrow> store party" where
  "share_vec ccrh ell vec oVec st a =
     (if vec = thisShare oVec then Fail InvalidArgument
      else pbind (lift_res (rbind (crng_at ccrh ell (thisShare oVec) st a) (\<lambda>(st, a).
             rbind (rv_add ell vec (thisShare oVec) (thisShare oVec) st) (\<lambda>st. Inr (st, a)))))
             (pass_on_vec ell oVec))"

definition recvShare_vec :: "ccrh \<Rightarrow> nat \<Rightarrow> ShrRep3ShareVec \<Rightarrow> store \<Rightarrow> aby3 \<Rightarrow> store party" where
  "recvShare_vec ccrh ell oVec st a =
     pbind (lift_res (crng_at ccrh ell (thisShare oVec) st a)) (pass_on_vec ell oVec)"

definition reshare_vec :: "heap \<Rightarrow> nat \<Rightarrow> nat \<Rightarrow> ShrRep3ShareVec \<Rightarrow> store \<Rightarrow> aby3 \<Rightarrow> store party" where
  "reshare_vec heap ell vec oVec st a =
     (if vec = thisShare oVec then Fail InvalidArgument
      else pbind (lift_res (rbind (rv_copy_assign ell heap (thisShare oVec) vec st) (\<lambda>st. Inr (st, a))))
             (pass_on_vec ell oVec))"

section \<open>Messages to one party\<close>

definition send_vec :: "nat \<Rightarrow> pid \<Rightarrow> pid \<Rightarrow> nat \<Rightarrow> store \<Rightarrow> (side, unit) proc" where
  "send_vec ell pid to vec st =
     send_bytes (if to = PREV pid then Prev else Next) (rv_bytes ell (st vec)) (bytesSize ell (st vec))"

definition recv_vec :: "nat \<Rightarrow> pid \<Rightarrow> pid \<Rightarrow> nat \<Rightarrow> store \<Rightarrow> (side, store) proc" where
  "recv_vec ell pid sender out st =
     recv_into ell (if sender = PREV pid then Prev else Next) out (bytesSize ell (st out)) st"

section \<open>Opening\<close>

definition revealAll_vec :: "heap \<Rightarrow> nat \<Rightarrow> pid \<Rightarrow> ShrRep3ShareVec \<Rightarrow> nat \<Rightarrow> store \<Rightarrow> (side, store) proc" where
  "revealAll_vec heap ell pid sv out st =
     (let sz = bytesSize ell (st out) in
      case pid of
        P0 \<Rightarrow> pbind (recv_into ell Next out sz st) (\<lambda>st.
          let tmp = Suc (max (max (thisShare sv) (nxtShare sv)) out) in
          pbind (lift_res (rbind (rv_new ell heap (rv_size (st out))) (\<lambda>v.
            rbind (rv_add ell (thisShare sv) (nxtShare sv) tmp (st(tmp := v))) (\<lambda>st'.
            rbind (rv_add ell tmp out out st') (\<lambda>st'. Inr (st'(tmp := st tmp))))))) (\<lambda>st.
          pbind (send_bytes Next (rv_bytes ell (st out)) sz) (\<lambda>_.
          pbind (send_bytes Prev (rv_bytes ell (st out)) sz) (\<lambda>_. Ret st))))
      | P1 \<Rightarrow> pbind (send_bytes Prev (rv_bytes ell (st (nxtShare sv))) sz) (\<lambda>_. recv_into ell Prev out sz st)
      | P2 \<Rightarrow> recv_into ell Next out sz st)"

section \<open>Arithmetic\<close>

definition add_vec :: "nat \<Rightarrow> ShrRep3ShareVec \<Rightarrow> ShrRep3ShareVec \<Rightarrow> ShrRep3ShareVec \<Rightarrow> store \<Rightarrow> store res" where
  "add_vec ell iVec1 iVec2 oVec st =
     rbind (rv_add ell (thisShare iVec1) (thisShare iVec2) (thisShare oVec) st)
       (rv_add ell (nxtShare iVec1) (nxtShare iVec2) (nxtShare oVec))"

definition sub_vec :: "nat \<Rightarrow> ShrRep3ShareVec \<Rightarrow> ShrRep3ShareVec \<Rightarrow> ShrRep3ShareVec \<Rightarrow> store \<Rightarrow> store res" where
  "sub_vec ell iVec1 iVec2 oVec st =
     rbind (rv_sub ell (thisShare iVec1) (thisShare iVec2) (thisShare oVec) st)
       (rv_sub ell (nxtShare iVec1) (nxtShare iVec2) (nxtShare oVec))"

definition hadamard_products :: "nat \<Rightarrow> ShrRep3ShareVec \<Rightarrow> ShrRep3ShareVec \<Rightarrow> ShrRep3ShareVec \<Rightarrow> store \<Rightarrow> store res" where
  "hadamard_products ell iVec1 iVec2 oVec st =
     (let oThis = thisShare oVec; oNxt = nxtShare oVec in
      rbind (rv_hadamard ell (thisShare iVec1) (thisShare iVec2) oThis st) (\<lambda>st.
      rbind (rv_hadamard ell (thisShare iVec1) (nxtShare iVec2) oNxt st) (\<lambda>st.
      rbind (rv_add ell oThis oNxt oThis st) (\<lambda>st.
      rbind (rv_hadamard ell (nxtShare iVec1) (thisShare iVec2) oNxt st) (rv_add ell oThis oNxt oThis)))))"

definition hadamard :: "ccrh \<Rightarrow> nat \<Rightarrow> ShrRep3ShareVec \<Rightarrow> ShrRep3ShareVec \<Rightarrow> ShrRep3ShareVec \<Rightarrow> store \<Rightarrow> aby3 \<Rightarrow> store party" where
  "hadamard ccrh ell iVec1 iVec2 oVec st a =
     (if thisShare oVec = thisShare iVec1 \<or> thisShare oVec = thisShare iVec2 then Fail InvalidArgument
      else pbind (lift_res (rbind (hadamard_products ell iVec1 iVec2 oVec st) (\<lambda>st.
             rbind (crng_at ccrh ell (nxtShare oVec) st a) (\<lambda>(st, a).
             rbind (rv_add ell (thisShare oVec) (nxtShare oVec) (thisShare oVec) st) (\<lambda>st. Inr (st, a))))))
             (pass_on_vec ell oVec))"

definition aby3_dot :: "ccrh \<Rightarrow> nat \<Rightarrow> ShrRep3ShareVec \<Rightarrow> ShrRep3ShareVec \<Rightarrow> store \<Rightarrow> aby3 \<Rightarrow> ShrRep3ShareScalar party" where
  "aby3_dot ccrh ell iVec1 iVec2 st a =
     pbind (lift_res (rbind (dot ell (st (thisShare iVec1)) (st (thisShare iVec2))) (\<lambda>d1.
       rbind (dot ell (st (thisShare iVec1)) (st (nxtShare iVec2))) (\<lambda>d2.
       rbind (dot ell (st (nxtShare iVec1)) (st (thisShare iVec2))) (\<lambda>d3.
       let (r, a) = crng ccrh ell a
       in Inr (ringAdd8 ell (ringAdd8 ell (ringAdd8 ell d1 d2) d3) r, a))))))
       (\<lambda>(dotVal, a). pbind (pass_on (ucast dotVal)) (\<lambda>s. Ret (s, a)))"

end
