(* ===== verification/Aby3_Facts.thy ===== *)
theory Aby3_Facts
  imports Aby3
begin

text \<open>
  What the scalar protocols compute: run together, the parties end in every schedule, with a
  sharing of the specified value and with synchronised states.
\<close>

section \<open>Sharings\<close>

text \<open>\<open>z p\<close> is the summand of party \<open>p\<close>; it also holds that of its successor.\<close>

definition sharing :: "(pid \<Rightarrow> byte) \<Rightarrow> pid \<Rightarrow> ShrRep3ShareScalar" where
  "sharing z p = \<lparr>thisShare = ucast (z p), nxtShare = ucast (z (NEXT p))\<rparr>"

definition sum3 :: "(pid \<Rightarrow> byte) \<Rightarrow> byte" where
  "sum3 z = z P0 + z P1 + z P2"

definition rep3 :: "nat \<Rightarrow> (pid \<Rightarrow> ShrRep3ShareScalar) \<Rightarrow> byte \<Rightarrow> bool" where
  "rep3 ell S x \<longleftrightarrow>
     (\<exists>z. (\<forall>p. S p = sharing z p \<and> take_bit ell (z p) = z p) \<and> take_bit ell (sum3 z) = x)"

lemma rep3I: "(\<And>p. take_bit ell (z p) = z p) \<Longrightarrow> take_bit ell (sum3 z) = x \<Longrightarrow> rep3 ell (sharing z) x"
  by (auto simp: rep3_def)

lemma rep3E:
  assumes "rep3 ell S x"
  obtains z where "S = sharing z" "\<And>p. take_bit ell (z p) = z p" "take_bit ell (sum3 z) = x"
  using assms unfolding rep3_def by (metis ext)

lemma low_byte [simp]: "ucast (ucast b :: u32) = b" "ucast (ucast b :: 16 word) = b" for b :: byte
  by (rule bit_word_eqI; auto simp: bit_simps dest: bit_imp_le_length)+

lemma sharing_sel [simp]: "thisShare (sharing z p) = ucast (z p)" "nxtShare (sharing z p) = ucast (z (NEXT p))"
  by (simp_all add: sharing_def)

text \<open>Truncation of an operand does not matter under truncation of the result.\<close>

lemma take_bit_absorb:
  fixes x y :: byte
  assumes "ell \<le> 8"
  shows "take_bit ell (take_bit ell x + y) = take_bit ell (x + y)" "take_bit ell (x + take_bit ell y) = take_bit ell (x + y)"
    "take_bit ell (take_bit ell x - y) = take_bit ell (x - y)" "take_bit ell (x - take_bit ell y) = take_bit ell (x - y)"
    "take_bit ell (take_bit ell x * y) = take_bit ell (x * y)" "take_bit ell (x * take_bit ell y) = take_bit ell (x * y)"
  by (rule take_bit_cong [OF assms]; simp)+

text \<open>Sums modulo \<open>2 ^ ell\<close> ignore truncation of the summands.\<close>

lemma sum3_cong: "ell \<le> 8 \<Longrightarrow> (\<And>p. take_bit ell (y p) = take_bit ell (z p)) \<Longrightarrow> take_bit ell (sum3 y) = take_bit ell (sum3 z)"
  unfolding sum3_def by (intro take_bit_cong)

lemma sum3_take: "ell \<le> 8 \<Longrightarrow> take_bit ell (sum3 (\<lambda>p. take_bit ell (z p))) = take_bit ell (sum3 z)"
  by (rule sum3_cong) simp_all

lemma zero3_sum: "ell \<le> 8 \<Longrightarrow> zero3 ell r \<Longrightarrow> take_bit ell (sum3 (\<lambda>p. z p + r p)) = take_bit ell (sum3 z)"
proof -
  assume "ell \<le> 8" "zero3 ell r"
  then have "take_bit ell (sum3 z + sum3 r) = take_bit ell (sum3 z + 0)"
    by (intro take_bit_cong) (simp_all add: zero3_def sum3_def)
  then show ?thesis by (simp add: sum3_def algebra_simps)
qed

section \<open>One round\<close>

abbreviation ends_with :: "nat \<Rightarrow> (pid \<Rightarrow> (side, 'a) proc) \<Rightarrow> (pid \<Rightarrow> 'a) \<Rightarrow> bool" where
  "ends_with cap P r \<equiv> runs ring_peer cap P (\<lambda>p. Ret (r p))"

lemma one_byte: "le_bytes (Suc 0) (ucast b :: u32) = [b]" "of_le_bytes [b] = (ucast b :: u32)" for b :: byte
  using le_bytes_Suc [of 0 "ucast b :: u32"] by simp_all

lemma pass_on_runs:
  assumes "0 < cap"
  shows "runs ring_peer cap (\<lambda>p. pass_on (ucast (z p))) (\<lambda>p. Ret (sharing z p))"
proof -
  have "runs ring_peer cap (\<lambda>p. swap Prev [z p] 1) (\<lambda>p. Ret [z (NEXT p)])"
    using swap_runs [of 1 cap "\<lambda>p. [z p]" Prev] assms by (simp add: opposite_def towards_def)
  from runs_bind [OF this, of "\<lambda>p bs. Ret \<lparr>thisShare = ucast (z p), nxtShare = of_le_bytes bs\<rparr>"] show ?thesis
    by (simp add: pass_on_def swap_def pbind_assoc opposite_def one_byte sharing_def [abs_def])
qed

text \<open>A round is over when everybody has the next party's value.\<close>

lemma round_runs:
  assumes "0 < cap" "\<And>p. P p = pbind (pass_on (ucast (z p))) (K p)" "runs ring_peer cap (\<lambda>p. K p (sharing z p)) Q"
  shows "runs ring_peer cap P Q"
proof -
  have "P = (\<lambda>p. pbind (pass_on (ucast (z p))) (K p))" using assms(2) by (rule ext)
  moreover have "runs ring_peer cap (\<lambda>p. pbind (pass_on (ucast (z p))) (K p)) (\<lambda>p. K p (sharing z p))"
    by (rule runs_bind) (rule pass_on_runs [OF assms(1)])
  ultimately show ?thesis using assms(3) by (simp add: runs_trans)
qed

lemma last_round:
  assumes "0 < cap" "\<And>p. P p = pbind (pass_on (ucast (z p))) (\<lambda>s. Ret (s, A p))"
  shows "ends_with cap P (\<lambda>p. (sharing z p, A p))"
  by (intro round_runs [where P = P and z = z and K = "\<lambda>p s. Ret (s, A p)"] assms runs_refl)

section \<open>The protocols\<close>

lemma new_ok:
  assumes "16 \<le> cap" "0 \<le> sodium"
  shows "\<exists>A. ends_with cap (\<lambda>p. aby3_new sodium (key p) (cache p)) A \<and> synced ccrh A \<and> (\<forall>p. keyThis (A p) = key p)"
proof -
  let ?A = "\<lambda>p. \<lparr>cRngId = 0, keyThis = key p, keyPrev = key (PREV p), crngCache = cache p, crngPtr = 128, crngIsXor = False\<rparr>"
  have "runs ring_peer cap (\<lambda>p. swap Next (le_bytes 16 (key p)) 16) (\<lambda>p. Ret (le_bytes 16 (key (PREV p))))"
    using swap_runs [of 16 cap "\<lambda>p. le_bytes 16 (key p)" Next] assms by (simp add: opposite_def towards_def)
  from runs_bind [OF this, of "\<lambda>p bs. Ret \<lparr>cRngId = 0, keyThis = key p, keyPrev = of_le_bytes bs, crngCache = cache p,
      crngPtr = BLOCK_CAPACITY * 8, crngIsXor = False\<rparr>"]
  have "runs ring_peer cap (\<lambda>p. aby3_new sodium (key p) (cache p)) (\<lambda>p. Ret (?A p))"
    using assms(2) by (simp add: aby3_new_def swap_def pbind_assoc opposite_def BLOCK_CAPACITY_def of_le_bytes_le_bytes)
  moreover have "synced ccrh ?A" unfolding synced_def by (rule exI [of _ 0], rule exI [of _ 128], rule exI [of _ False]) simp
  ultimately show ?thesis by (intro exI [of _ ?A] conjI) simp_all
qed

text \<open>The caller's values in additive form become a replicated sharing.\<close>

lemma masked_round:
  assumes "0 < cap" "1 \<le> ell" "ell \<le> 8" "synced ccrh A"
    and P: "\<And>p. P p = pbind (pass_on (ucast (ringAdd8 ell (y p) (fst (crng ccrh ell (A p))))))
      (\<lambda>s. Ret (s, snd (crng ccrh ell (A p))))"
  shows "\<exists>S A'. ends_with cap P (\<lambda>p. (S p, A' p)) \<and> synced ccrh A' \<and> rep3 ell S (take_bit ell (sum3 y))"
proof (intro exI conjI)
  show "synced ccrh (\<lambda>p. snd (crng ccrh ell (A p)))" by (rule crng_synced(1)) fact+
  show "ends_with cap P (\<lambda>p. (sharing (\<lambda>p. ringAdd8 ell (y p) (fst (crng ccrh ell (A p)))) p, snd (crng ccrh ell (A p))))"
    by (rule last_round [OF assms(1)]) (rule P)
  show "rep3 ell (sharing (\<lambda>p. ringAdd8 ell (y p) (fst (crng ccrh ell (A p))))) (take_bit ell (sum3 y))"
    using assms(3) zero3_sum [OF assms(3) crng_synced(2) [OF assms(4,2,3)]]
    by (intro rep3I) (simp_all add: ring_simps sum3_take)
qed


lemma local_ops:
  assumes "1 \<le> ell" "ell \<le> 8" "rep3 ell S x" "rep3 ell T y"
  shows "rep3 ell (\<lambda>p. add ell (S p) (T p)) (ringAdd8 ell x y)"
    and "rep3 ell (\<lambda>p. sub ell (S p) (T p)) (ringSub8 ell x y)"
proof -
  obtain s t where s: "S = sharing s" "\<And>p. take_bit ell (s p) = s p" "take_bit ell (sum3 s) = x"
    and t: "T = sharing t" "\<And>p. take_bit ell (t p) = t p" "take_bit ell (sum3 t) = y"
    using assms(3,4) by (auto elim!: rep3E)
  have "(\<lambda>p. add ell (S p) (T p)) = sharing (\<lambda>p. take_bit ell (s p + t p))"
    using assms(2) by (simp add: s(1) t(1) add_def sharing_def ring_simps fun_eq_iff)
  moreover have "take_bit ell (sum3 (\<lambda>p. s p + t p)) = ringAdd8 ell x y"
    using assms(2) by (simp add: s(3) [symmetric] t(3) [symmetric] ring_simps take_bit_absorb sum3_def) (simp add: algebra_simps)
  ultimately show "rep3 ell (\<lambda>p. add ell (S p) (T p)) (ringAdd8 ell x y)"
    using assms(2) by (auto intro!: rep3I simp: sum3_take)
  have "(\<lambda>p. sub ell (S p) (T p)) = sharing (\<lambda>p. take_bit ell (s p - t p))"
    using assms(2) by (simp add: s(1) t(1) sub_def sharing_def ring_simps fun_eq_iff)
  moreover have "take_bit ell (sum3 (\<lambda>p. s p - t p)) = ringSub8 ell x y"
    using assms(2) by (simp add: s(3) [symmetric] t(3) [symmetric] ring_simps take_bit_absorb sum3_def) (simp add: algebra_simps)
  ultimately show "rep3 ell (\<lambda>p. sub ell (S p) (T p)) (ringSub8 ell x y)"
    using assms(2) by (auto intro!: rep3I simp: sum3_take)
qed

text \<open>The products each party can form add up to the product.\<close>

lemma cross_terms:
  assumes "ell \<le> 8" "take_bit ell (sum3 s) = x" "take_bit ell (sum3 t) = y"
  shows "take_bit ell (sum3 (\<lambda>p. ringAdd8 ell (ringAdd8 ell (ringMul8 ell (s p) (t p)) (ringMul8 ell (s p) (t (NEXT p))))
    (ringMul8 ell (s (NEXT p)) (t p)))) = ringMul8 ell x y"
proof -
  have "take_bit ell (sum3 (\<lambda>p. ringAdd8 ell (ringAdd8 ell (ringMul8 ell (s p) (t p)) (ringMul8 ell (s p) (t (NEXT p))))
    (ringMul8 ell (s (NEXT p)) (t p)))) = take_bit ell (sum3 (\<lambda>p. s p * t p + s p * t (NEXT p) + s (NEXT p) * t p))"
    using assms(1) by (intro sum3_cong) (simp_all add: ring_simps take_bit_absorb add.assoc add.left_commute [of _ "take_bit _ _"])
  also have "\<dots> = take_bit ell (sum3 s * sum3 t)" by (simp add: sum3_def algebra_simps)
  also have "\<dots> = ringMul8 ell x y"
    using assms(1) by (simp add: assms(2,3) [symmetric] ring_simps take_bit_absorb)
  finally show ?thesis .
qed

lemma mul_ok:
  assumes "0 < cap" "1 \<le> ell" "ell \<le> 8" "synced ccrh A" "rep3 ell S x" "rep3 ell T y"
  shows "\<exists>R A'. ends_with cap (\<lambda>p. mul ccrh ell (S p) (T p) (A p)) (\<lambda>p. (R p, A' p)) \<and> synced ccrh A' \<and>
    rep3 ell R (ringMul8 ell x y)"
proof -
  obtain s t where s: "S = sharing s" "\<And>p. take_bit ell (s p) = s p" "take_bit ell (sum3 s) = x"
    and t: "T = sharing t" "\<And>p. take_bit ell (t p) = t p" "take_bit ell (sum3 t) = y"
    using assms(5,6) by (auto elim!: rep3E)
  have "take_bit ell (ringMul8 ell x y) = ringMul8 ell x y" using assms(3) by (simp add: ring_simps)
  moreover have "mul ccrh ell (S p) (T p) (A p) = pbind (pass_on (ucast (ringAdd8 ell (ringAdd8 ell (ringAdd8 ell
      (ringMul8 ell (s p) (t p)) (ringMul8 ell (s p) (t (NEXT p)))) (ringMul8 ell (s (NEXT p)) (t p)))
      (fst (crng ccrh ell (A p)))))) (\<lambda>s. Ret (s, snd (crng ccrh ell (A p))))" for p
    by (simp add: mul_def s(1) t(1) Let_def split_def)
  note masked_round [OF assms(1-4), OF this]
  ultimately show ?thesis using cross_terms [OF assms(3) s(3) t(3)] by simp
qed

end
