(* ===== verification/Crng_Vectors.thy ===== *)
theory Crng_Vectors
  imports Crng_Facts
begin

text \<open>
  The vector generators draw zero as well: the runs of the three parties move through their
  buffers in step, and every element they leave behind combines to 0.
\<close>

section \<open>Three runs in step\<close>

definition in_step :: "('e \<Rightarrow> 'e \<Rightarrow> 'e \<Rightarrow> bool) \<Rightarrow> nat \<Rightarrow> (pid \<Rightarrow> nat \<times> 'e list) \<Rightarrow> bool" where
  "in_step Z L s \<longleftrightarrow> (\<forall>p. fst (s p) = fst (s P0) \<and> length (snd (s p)) = L) \<and>
     (\<forall>j<fst (s P0). Z (snd (s P0) ! j) (snd (s P1) ! j) (snd (s P2) ! j))"

lemma in_step_foldl:
  assumes "\<And>k s. in_step Z L s \<Longrightarrow> in_step Z L (\<lambda>p. f p k (s p))"
  shows "in_step Z L s \<Longrightarrow> in_step Z L (\<lambda>p. foldl (\<lambda>s k. f p k s) (s p) ks)"
proof (induction ks arbitrary: s)
  case (Cons k ks)
  show ?case using Cons.IH [OF assms [OF Cons.prems, of k]] by simp
qed simp

lemma in_stepE:
  assumes "in_step Z L s"
  obtains w d where "\<And>p. s p = (w, d p)" "\<And>p. length (d p) = L" "\<And>j. j < w \<Longrightarrow> Z (d P0 ! j) (d P1 ! j) (d P2 ! j)"
proof
  show "s p = (fst (s P0), snd (s p))" for p using assms unfolding in_step_def by (metis prod.collapse)
qed (use assms in \<open>auto simp: in_step_def\<close>)

lemma in_stepI:
  "(\<And>p. length (d p) = L) \<Longrightarrow> (\<And>j. j < w \<Longrightarrow> Z (d P0 ! j) (d P1 ! j) (d P2 ! j)) \<Longrightarrow> in_step Z L (\<lambda>p. (w, d p))"
  by (simp add: in_step_def)

lemma in_step_split:
  assumes "in_step Z L s"
  obtains w d where "\<And>p. s p = (w, d p)" "in_step Z L (\<lambda>p. (w, d p))"
proof (rule in_stepE [OF assms])
  fix w d
  assume "\<And>p. s p = (w, d p)" "\<And>p. length (d p) = L" "\<And>j. j < w \<Longrightarrow> Z (d P0 ! j) (d P1 ! j) (d P2 ! j)"
  then show thesis by (intro that [of w d] in_stepI)
qed

section \<open>Bit vectors\<close>

definition xor0 :: "'a::len word \<Rightarrow> 'a word \<Rightarrow> 'a word \<Rightarrow> bool" where
  "xor0 x y z \<longleftrightarrow> x XOR y XOR z = 0"

lemma xor0_iff: "xor0 x y z \<longleftrightarrow> (\<forall>k. (bit x k \<noteq> bit y k) = bit z k)" for x :: "'a::len word"
  unfolding xor0_def by (simp add: bit_eq_iff bit_simps) (metis bit_imp_le_length)

lemma xor0_low_bits: "xor0 x y z \<Longrightarrow> xor0 (low_bits m x) (low_bits m y) (low_bits m z)"
  by (auto simp: xor0_iff low_bits_def bit_simps)

lemma xor0_halves:
  assumes "xor0 x y z"
  shows "xor0 (mm_cvtsi128_si64 x) (mm_cvtsi128_si64 y) (mm_cvtsi128_si64 z)"
    "xor0 (mm_cvtsi128_si64 (drop_bit 64 x)) (mm_cvtsi128_si64 (drop_bit 64 y)) (mm_cvtsi128_si64 (drop_bit 64 z))"
  using assms by (auto simp: xor0_iff mm_cvtsi128_si64_def bit_simps)

lemma put_words_in_step:
  assumes "in_step xor0 L s" "words \<le> L" "xor0 (raw P0) (raw P1) (raw P2)"
  shows "in_step xor0 L (\<lambda>p. put_words n words (raw p) (s p))"
proof -
  obtain w d where s: "\<And>p. s p = (w, d p)" and d: "\<And>p. length (d p) = L" "\<And>j. j < w \<Longrightarrow> xor0 (d P0 ! j) (d P1 ! j) (d P2 ! j)"
    using in_stepE [OF assms(1)] by blast
  note z = xor0_halves [OF assms(3), THEN xor0_low_bits]
  show ?thesis
    using d z assms(2) by (auto simp: in_step_def s put_words_def Let_def nth_list_update less_Suc_eq)
qed

lemma crng_words_in_step:
  assumes R: "\<And>x. xor0 (R P0 x) (R P1 x) (R P2 x)" and L: "words \<le> L"
  shows "in_step xor0 L (\<lambda>p. (w, d p)) \<Longrightarrow>
    (\<forall>p. fst (crng_words (R p) n words cid w (d p)) = fst (crng_words (R P0) n words cid w (d P0)) \<and>
       length (snd (crng_words (R p) n words cid w (d p))) = L) \<and>
    (\<forall>j<words. xor0 (snd (crng_words (R P0) n words cid w (d P0)) ! j)
       (snd (crng_words (R P1) n words cid w (d P1)) ! j) (snd (crng_words (R P2) n words cid w (d P2)) ! j))"
proof (induction "words - w" arbitrary: cid w d rule: less_induct)
  case less
  show ?case
  proof (cases "w < words")
    case False
    then have "crng_words (R p) n words cid w (d p) = (cid, d p)" for p by (simp add: crng_words.simps)
    then show ?thesis using less.prems False by (auto simp: in_step_def)
  next
    case True
    have step: "in_step xor0 L s \<Longrightarrow> in_step xor0 L (\<lambda>p. put_words n words (R p (id_at cid k)) (s p))" for k s
      by (rule put_words_in_step [where raw = "\<lambda>p. R p (id_at cid k)"]) (use L R in simp_all)
    have "in_step xor0 L (\<lambda>p. round_words (R p) n words cid (w, d p))"
      unfolding round_words_def
      by (rule in_step_foldl [where f = "\<lambda>p k s. put_words n words (R p (id_at cid k)) s"]) (fact step less.prems)+
    then obtain w' d' where s: "\<And>p. round_words (R p) n words cid (w, d p) = (w', d' p)"
      and i: "in_step xor0 L (\<lambda>p. (w', d' p))"
      by (rule in_step_split) (rule that, assumption+)
    have "words - w' < words - w" using round_words_mono [OF True, of "R P0" n cid "d P0"] s True by simp
    moreover have "crng_words (R p) n words cid w (d p) = crng_words (R p) n words (id_plus_4 cid) w' (d' p)" for p
      using True s by (simp add: crng_words.simps [of "R p" n words cid w])
    ultimately show ?thesis using less.hyps [OF _ i] by simp
  qed
qed

section \<open>Byte vectors\<close>

definition sum0 :: "nat \<Rightarrow> byte \<Rightarrow> byte \<Rightarrow> byte \<Rightarrow> bool" where
  "sum0 ell x y z \<longleftrightarrow> take_bit ell (x + y + z) = 0"

lemma put_bytes_in_step:
  assumes "in_step (sum0 ell) L s" "n \<le> L"
    and raw: "\<And>i. i < 16 \<Longrightarrow> sum0 ell (le_bytes 16 (raw P0) ! i) (le_bytes 16 (raw P1) ! i) (le_bytes 16 (raw P2) ! i)"
  shows "in_step (sum0 ell) L (\<lambda>p. put_bytes n (raw p) (s p))"
proof -
  obtain i d where s: "\<And>p. s p = (i, d p)" and d: "\<And>p. length (d p) = L"
    "\<And>j. j < i \<Longrightarrow> sum0 ell (d P0 ! j) (d P1 ! j) (d P2 ! j)"
    using in_stepE [OF assms(1)] by blast
  define b where "b = (if n - i < BLOCK_CAPACITY then n - i else BLOCK_CAPACITY)"
  show ?thesis
  proof (cases "i < n")
    case True
    have b: "b \<le> 16" "i + b \<le> L" using True assms(2) by (auto simp: b_def BLOCK_CAPACITY_def)
    have p: "put_bytes n (raw p) (s p) = (i + b, take i (d p) @ take b (le_bytes 16 (raw p)) @ drop (i + b) (d p))" for p
      using True by (simp add: put_bytes_def s b_def Let_def)
    have nth: "(take i (d p) @ take b (le_bytes 16 (raw p)) @ drop (i + b) (d p)) ! j =
        (if j < i then d p ! j else le_bytes 16 (raw p) ! (j - i))" if "j < i + b" for p j
      using that b d(1) [of p] by (auto simp: nth_append)
    show ?thesis unfolding p
      by (rule in_stepI) (use b d raw nth in auto)
  next
    case False
    then have "put_bytes n (raw p) (s p) = s p" for p by (simp add: put_bytes_def s)
    then show ?thesis using assms(1) by simp
  qed
qed

lemma crng_bytes_in_step:
  assumes R: "\<And>x i. i < 16 \<Longrightarrow> sum0 ell (le_bytes 16 (R P0 x) ! i) (le_bytes 16 (R P1 x) ! i) (le_bytes 16 (R P2 x) ! i)"
    and L: "n \<le> L"
  shows "in_step (sum0 ell) L (\<lambda>p. (w, d p)) \<Longrightarrow>
    (\<forall>p. fst (crng_bytes (R p) n cid w (d p)) = fst (crng_bytes (R P0) n cid w (d P0)) \<and>
       length (snd (crng_bytes (R p) n cid w (d p))) = L) \<and>
    (\<forall>j<n. sum0 ell (snd (crng_bytes (R P0) n cid w (d P0)) ! j)
       (snd (crng_bytes (R P1) n cid w (d P1)) ! j) (snd (crng_bytes (R P2) n cid w (d P2)) ! j))"
proof (induction "n - w" arbitrary: cid w d rule: less_induct)
  case less
  show ?case
  proof (cases "w < n")
    case False
    then have "crng_bytes (R p) n cid w (d p) = (cid, d p)" for p by (simp add: crng_bytes.simps)
    then show ?thesis using less.prems False by (auto simp: in_step_def)
  next
    case True
    have step: "in_step (sum0 ell) L s \<Longrightarrow> in_step (sum0 ell) L (\<lambda>p. put_bytes n (R p (id_at cid k)) (s p))" for k s
      by (rule put_bytes_in_step [where raw = "\<lambda>p. R p (id_at cid k)"]) (use L R in simp_all)
    have "in_step (sum0 ell) L (\<lambda>p. round_bytes (R p) n cid (w, d p))"
      unfolding round_bytes_def
      by (rule in_step_foldl [where f = "\<lambda>p k s. put_bytes n (R p (id_at cid k)) s"]) (fact step less.prems)+
    then obtain w' d' where s: "\<And>p. round_bytes (R p) n cid (w, d p) = (w', d' p)"
      and i: "in_step (sum0 ell) L (\<lambda>p. (w', d' p))"
      by (rule in_step_split) (rule that, assumption+)
    have "n - w' < n - w" using round_bytes_mono [OF True, of "R P0" cid "d P0"] s True by simp
    moreover have "crng_bytes (R p) n cid w (d p) = crng_bytes (R p) n (id_plus_4 cid) w' (d' p)" for p
      using True s by (simp add: crng_bytes.simps [of "R p" n cid w])
    ultimately show ?thesis using less.hyps [OF _ i] by simp
  qed
qed

lemma take_bit_sum3: "m \<le> 8 \<Longrightarrow> take_bit m (x + y + z) = take_bit m (take_bit m x + take_bit m y + take_bit m z)" for x y z :: byte
  by (intro take_bit_cong) simp_all

section \<open>A vector of zeros in three parts\<close>

definition sums_to :: "nat \<Rightarrow> (pid \<Rightarrow> byte list) \<Rightarrow> byte list \<Rightarrow> bool" where
  "sums_to ell x y \<longleftrightarrow> (\<forall>p. length (x p) = length y) \<and>
     (\<forall>i<length y. take_bit ell (x P0 ! i + x P1 ! i + x P2 ! i) = take_bit ell (y ! i))"

lemma crng_vec_synced:
  assumes s: "synced ccrh A" and v: "\<And>p. rv_ok ell (v p)" "\<And>p. n_elems (v p) = n"
  obtains v' A' where "\<And>p. crng_vec ccrh ell (v p) (A p) = Inr (v' p, A' p)" "synced ccrh A'"
    "\<And>p. keyThis (A' p) = keyThis (A p)" "\<And>p. rv_ok ell (v' p)" "\<And>p. n_elems (v' p) = n"
    "sums_to ell (\<lambda>p. elems ell (v' p)) (replicate n 0)"
proof -
  obtain ctr ptr y cid where A: "\<And>p. keyPrev (A p) = keyThis (A (PREV p))" "\<And>p. cRngId (A p) = ctr"
    "\<And>p. crngIsXor (A p) = y"
    using s unfolding synced_def by blast
  let ?A = "\<lambda>c p. A p\<lparr>cRngId := c, crngPtr := 128\<rparr>"
  have sA: "synced ccrh (?A c)" for c
    unfolding synced_def by (rule exI [of _ c], rule exI [of _ 128]) (simp add: A)
  have ell: "1 \<le> ell" "ell \<le> 8" using rv_ok_ell v(1) by blast+
  let ?F = "\<lambda>p x. ccrh (keyThis (A p)) x"
  show thesis
  proof (cases "ell = 1")
    case True
    let ?R = "\<lambda>p x. correlate True (?F p x) (?F (PREV p) x)" and ?W = "wordsFor 1 n" and ?d = "\<lambda>p. d64 (v p)"
    have L: "rv_words (v p) = ?W" "length (?d p) = ?W" for p
      using v(1) [of p] v(2) [of p] True by (simp_all add: rv_ok_def rv_words_def)
    have "in_step xor0 ?W (\<lambda>p. (0, ?d p))" by (rule in_stepI) (simp_all add: L)
    then have r: "\<And>p. fst (crng_words (?R p) n ?W ctr 0 (?d p)) = fst (crng_words (?R P0) n ?W ctr 0 (?d P0))"
      "\<And>p. length (snd (crng_words (?R p) n ?W ctr 0 (?d p))) = ?W"
      "\<And>j. j < ?W \<Longrightarrow> xor0 (snd (crng_words (?R P0) n ?W ctr 0 (?d P0)) ! j)
         (snd (crng_words (?R P1) n ?W ctr 0 (?d P1)) ! j) (snd (crng_words (?R P2) n ?W ctr 0 (?d P2)) ! j)"
      using crng_words_in_step [of ?R ?W ?W 0 ?d n ctr] by (auto simp: xor0_iff correlate_def bit_simps)
    define c where "c = fst (crng_words (?R P0) n ?W ctr 0 (?d P0))"
    define d where "d p = snd (crng_words (?R p) n ?W ctr 0 (?d p))" for p
    show ?thesis
    proof (rule that [of "\<lambda>p. v p\<lparr>d64 := d p\<rparr>" "?A c"])
      show "crng_vec ccrh ell (v p) (A p) = Inr (v p\<lparr>d64 := d p\<rparr>, ?A c p)" for p
        using True L [of p] r(1) [of p] v(2) [of p] A
        by (simp add: crng_vec_def rv_size_def c_def d_def BLOCK_CAPACITY_def Let_def split: prod.split) (metis fst_conv snd_conv)
      show "rv_ok ell (v p\<lparr>d64 := d p\<rparr>)" "n_elems (v p\<lparr>d64 := d p\<rparr>) = n" for p
        using v [of p] True L [of p] r(2) [of p] by (auto simp: d_def intro!: rv_ok_update)
      have "i div 64 < ?W" if "i < n" for i
        using that v(1) [of P0] v(2) [of P0] wordsFor_1 [of n] word_index by (simp add: rv_ok_def)
      then show "sums_to ell (\<lambda>p. elems ell (v p\<lparr>d64 := d p\<rparr>)) (replicate n 0)"
        using r(3) v(2) by (auto simp: sums_to_def True elem_1 d_def xor0_iff)
    qed (use sA in simp_all)
  next
    case False
    define M :: "block \<Rightarrow> block" where "M = (if ell = 8 then (\<lambda>x. x) else (\<lambda>x. x AND mm_set1_epi8 (RING_MASK8 ell)))"
    define R where "R p x = M (correlate False (?F p x) (?F (PREV p) x))" for p x
    let ?R = R and ?d = "\<lambda>p. d8 (v p)"
    have L: "length (?d p) = n" for p using v(1) [of p] v(2) [of p] rv_ok_byte [OF False] by simp
    have lane: "take_bit ell (le_bytes 16 (?R p x) ! i) = take_bit ell (le_bytes 16 (?F p x) ! i - le_bytes 16 (?F (PREV p) x) ! i)"
      if "i < 16" for p x i
      using that ell le_bytes_and_set1 by (simp add: R_def M_def correlate_def le_bytes_sub and_RING_MASK8)
    have "sum0 ell (le_bytes 16 (?R P0 x) ! i) (le_bytes 16 (?R P1 x) ! i) (le_bytes 16 (?R P2 x) ! i)" if "i < 16" for x i
      using zero_bytes [OF ell(2)] lane [OF that] unfolding sum0_def take_bit_sum3 [OF ell(2), of "le_bytes 16 (?R P0 x) ! i"] by (simp add: lane)
    moreover have "in_step (sum0 ell) n (\<lambda>p. (0, ?d p))" by (rule in_stepI) (simp_all add: L)
    ultimately have r: "\<And>p. fst (crng_bytes (?R p) n ctr 0 (?d p)) = fst (crng_bytes (?R P0) n ctr 0 (?d P0))"
      "\<And>p. length (snd (crng_bytes (?R p) n ctr 0 (?d p))) = n"
      "\<And>j. j < n \<Longrightarrow> sum0 ell (snd (crng_bytes (?R P0) n ctr 0 (?d P0)) ! j)
         (snd (crng_bytes (?R P1) n ctr 0 (?d P1)) ! j) (snd (crng_bytes (?R P2) n ctr 0 (?d P2)) ! j)"
      using crng_bytes_in_step [of ell ?R n n 0 ?d ctr] by auto
    define c where "c = fst (crng_bytes (?R P0) n ctr 0 (?d P0))"
    define d where "d p = snd (crng_bytes (?R p) n ctr 0 (?d p))" for p
    show ?thesis
    proof (rule that [of "\<lambda>p. v p\<lparr>d8 := d p\<rparr>" "?A c"])
      show "crng_vec ccrh ell (v p) (A p) = Inr (v p\<lparr>d8 := d p\<rparr>, ?A c p)" for p
      proof -
        have "crng_bytes (?R p) n ctr 0 (?d p) = (c, d p)" using r(1) [of p] by (simp add: c_def d_def prod_eq_iff)
        then show ?thesis using False L [of p] v(2) [of p] A(1) [of p] A(2) [of p]
          by (simp add: crng_vec_def rv_size_def BLOCK_CAPACITY_def Let_def M_def [symmetric] R_def [abs_def])
      qed
      show "rv_ok ell (v p\<lparr>d8 := d p\<rparr>)" "n_elems (v p\<lparr>d8 := d p\<rparr>) = n" for p
        using v [of p] False L [of p] r(2) [of p] by (auto simp: d_def intro!: rv_ok_update)
      show "sums_to ell (\<lambda>p. elems ell (v p\<lparr>d8 := d p\<rparr>)) (replicate n 0)"
        using r(3) v(2) False ell by (simp add: sums_to_def elem_byte d_def sum0_def take_bit_sum3 [OF ell(2), symmetric])
    qed (use sA in simp_all)
  qed
qed

end
