(* ===== verification/Aby3_Vec_Facts.thy ===== *)
theory Aby3_Vec_Facts
  imports Aby3_Vec Aby3_Facts Crng_Vectors
begin

text \<open>
  The vector protocols element by element: sharings of lists, one round of the ring exchange of
  whole buffers, and what each protocol's local part leaves in the store.
\<close>

section \<open>Contents\<close>

definition vec_at :: "nat \<Rightarrow> store \<Rightarrow> nat \<Rightarrow> byte list \<Rightarrow> bool" where
  "vec_at ell st r xs \<longleftrightarrow> rv_ok ell (st r) \<and> elems ell (st r) = xs"

lemma vec_at_upd [simp]: "vec_at ell (st(r := v)) r xs \<longleftrightarrow> rv_ok ell v \<and> elems ell v = xs"
  "r \<noteq> r' \<Longrightarrow> vec_at ell (st(r' := v)) r xs \<longleftrightarrow> vec_at ell st r xs"
  by (simp_all add: vec_at_def)

lemma vec_at_length: "vec_at ell st r xs \<Longrightarrow> n_elems (st r) = length xs"
  using length_elems [of ell "st r"] by (simp add: vec_at_def del: length_elems)

lemma vec_at_ell: "vec_at ell st r xs \<Longrightarrow> 1 \<le> ell \<and> ell \<le> 8"
  using rv_ok_ell by (auto simp: vec_at_def)

lemma vec_at_elem: "vec_at ell st r xs \<Longrightarrow> i < length xs \<Longrightarrow> elem ell (st r) i = xs ! i"
  using nth_elems [of i "st r" ell] by (auto simp: vec_at_def simp del: nth_elems)

lemma same_shape_at: "vec_at ell st a xs \<Longrightarrow> vec_at ell st out zs \<Longrightarrow> length xs = length zs \<Longrightarrow> same_shape ell st a out"
  using vec_at_length [of ell st a xs] vec_at_length [of ell st out zs] by (simp add: same_shape_def vec_at_def)

lemma writes_at:
  assumes "\<exists>st'. K st = Inr st' \<and> canon ell (st' out) \<and> writes ell out st (\<lambda>i. f (elem ell (st a) i) (elem ell (st b) i)) st'"
    and at: "vec_at ell st a xs" "vec_at ell st b ys" "vec_at ell st out zs" "length xs = length zs" "length ys = length zs"
  shows "\<exists>v. K st = Inr (st(out := v)) \<and> rv_ok ell v \<and> elems ell v = map2 f xs ys"
proof -
  obtain st' where st': "K st = Inr st'" "\<And>r. r \<noteq> out \<Longrightarrow> st' r = st r" "rv_ok ell (st' out)"
    "elems ell (st' out) = map (\<lambda>i. f (elem ell (st a) i) (elem ell (st b) i)) [0..<n_elems (st out)]"
    using assms(1) unfolding writes_def by blast
  have "st' = st(out := st' out)" using st'(2) by auto
  moreover have "elems ell (st' out) = map2 f xs ys"
    unfolding st'(4) using at vec_at_elem [OF at(1)] vec_at_elem [OF at(2)] vec_at_length [OF at(3)]
    by (intro nth_equalityI) simp_all
  ultimately show ?thesis using st'(1,3) by metis
qed

lemma add_at:
  assumes "vec_at ell st a xs" "vec_at ell st b ys" "vec_at ell st out zs" "length xs = length zs" "length ys = length zs"
  shows "\<exists>v. rv_add ell a b out st = Inr (st(out := v)) \<and> rv_ok ell v \<and> elems ell v = map2 (ringAdd8 ell) xs ys"
  by (rule writes_at [where K = "rv_add ell a b out" and f = "ringAdd8 ell", OF rv_add_ok assms]; intro same_shape_at [OF assms(1,3,4)] same_shape_at [OF assms(2,3,5)])

lemma sub_at:
  assumes "vec_at ell st a xs" "vec_at ell st b ys" "vec_at ell st out zs" "length xs = length zs" "length ys = length zs"
  shows "\<exists>v. rv_sub ell a b out st = Inr (st(out := v)) \<and> rv_ok ell v \<and> elems ell v = map2 (ringSub8 ell) xs ys"
  by (rule writes_at [where K = "rv_sub ell a b out" and f = "ringSub8 ell", OF rv_sub_ok assms]; intro same_shape_at [OF assms(1,3,4)] same_shape_at [OF assms(2,3,5)])

lemma hadamard_at:
  assumes "vec_at ell st a xs" "vec_at ell st b ys" "vec_at ell st out zs" "length xs = length zs" "length ys = length zs"
  shows "\<exists>v. rv_hadamard ell a b out st = Inr (st(out := v)) \<and> rv_ok ell v \<and> elems ell v = map2 (ringMul8 ell) xs ys"
  by (rule writes_at [where K = "rv_hadamard ell a b out" and f = "ringMul8 ell", OF rv_hadamard_ok assms]; intro same_shape_at [OF assms(1,3,4)] same_shape_at [OF assms(2,3,5)])

section \<open>Sharings of lists\<close>

definition vsharing :: "nat \<Rightarrow> (pid \<Rightarrow> store) \<Rightarrow> (pid \<Rightarrow> ShrRep3ShareVec) \<Rightarrow> (pid \<Rightarrow> byte list) \<Rightarrow> bool" where
  "vsharing ell St V z \<longleftrightarrow>
     (\<forall>p. vec_at ell (St p) (thisShare (V p)) (z p) \<and> vec_at ell (St p) (nxtShare (V p)) (z (NEXT p)))"

definition rep3_vec :: "nat \<Rightarrow> (pid \<Rightarrow> store) \<Rightarrow> (pid \<Rightarrow> ShrRep3ShareVec) \<Rightarrow> byte list \<Rightarrow> bool" where
  "rep3_vec ell St V xs \<longleftrightarrow> (\<exists>z. vsharing ell St V z \<and> sums_to ell z xs)"

lemma sums_to_sum3: "sums_to ell z xs \<longleftrightarrow> (\<forall>p. length (z p) = length xs) \<and>
    (\<forall>i<length xs. take_bit ell (sum3 (\<lambda>p. z p ! i)) = take_bit ell (xs ! i))"
  by (simp add: sums_to_def sum3_def)

section \<open>One round\<close>

lemma load_data_ok:
  assumes v: "rv_ok ell v" and w: "rv_ok ell w" "n_elems w = n_elems v"
  shows "load_data ell v (rv_bytes ell w) = Inr (set_bytes ell v (rv_bytes ell w))"
    and "take (bytesSize ell v) (rv_bytes ell w) = rv_bytes ell w"
    and "bytesSize ell v \<le> length (rv_bytes ell w)"
    and "bytesSize ell v = length (rv_bytes ell w)"
proof -
  have "length (rv_bytes ell w) = length (rv_bytes ell v)"
    using v w by (simp add: length_rv_bytes) (simp add: rv_ok_def)
  then show "load_data ell v (rv_bytes ell w) = Inr (set_bytes ell v (rv_bytes ell w))"
    "take (bytesSize ell v) (rv_bytes ell w) = rv_bytes ell w" "bytesSize ell v \<le> length (rv_bytes ell w)"
    "bytesSize ell v = length (rv_bytes ell w)"
    by (simp_all add: load_data_def stn_all bytesSize_ok [OF v])
qed

definition taken :: "nat \<Rightarrow> nat \<Rightarrow> nat \<Rightarrow> store \<Rightarrow> store \<Rightarrow> store" where
  "taken ell x y st st' = st(y := set_bytes ell (st y) (rv_bytes ell (st' x)))"

lemma taken_at: "vec_at ell st y ys \<Longrightarrow> vec_at ell st' x xs \<Longrightarrow> length xs = length ys \<Longrightarrow> vec_at ell (taken ell x y st st') y xs"
  using set_bytes_ok [of ell "st' x" "st y"] vec_at_length [of ell st y ys] vec_at_length [of ell st' x xs]
  by (simp add: taken_def vec_at_def)

lemma taken_other: "r \<noteq> y \<Longrightarrow> taken ell x y st st' r = st r"
  by (simp add: taken_def)

lemma ring_data_runs:
  assumes cap: "0 < cap"
    and at: "\<And>p. vec_at ell (St p) (x p) (z p)" "\<And>p. vec_at ell (St p) (y p) (u p)" "\<And>p. length (z p) = n" "\<And>p. length (u p) = n"
    and tot: "\<And>p. tot p = bytesSize ell (St p (x p)) \<or> tot p = bytesSize ell (St p (y p))"
  shows "ends_with cap (\<lambda>p. ring_data ell (x p) (y p) (tot p) (St p))
    (\<lambda>p. taken ell (x (NEXT p)) (y p) (St p) (St (NEXT p)))"
proof -
  have X: "rv_ok ell (St p (x p))" "n_elems (St p (x p)) = n" for p
    using at(1) [of p] at(3) [of p] vec_at_length [OF at(1) [of p]] by (simp_all add: vec_at_def)
  have Y: "rv_ok ell (St p (y p))" "n_elems (St p (y p)) = n" for p
    using at(2) [of p] at(4) [of p] vec_at_length [OF at(2) [of p]] by (simp_all add: vec_at_def)
  define t where "t = bytesSize ell (St P0 (x P0))"
  have "bytesSize ell (St p (x p)) = t" "bytesSize ell (St p (y p)) = t" for p
    unfolding t_def using X [of p] X [of P0] Y [of p] by (simp_all add: rv_ok_def bytesSize_def)
  then have T: "tot p = t" "t = bytesSize ell (St p (y p))" for p using tot [of p] by auto
  have L: "t \<le> length (rv_bytes ell (St p (x p)))" "take t (rv_bytes ell (St p (x p))) = rv_bytes ell (St p (x p))" for p
    using load_data_ok [OF Y(1) X(1), of p p] X(2) Y(2) T(2) by simp_all
  have "ends_with cap (\<lambda>p. reshare_ring (rv_bytes ell (St p (x p))) t) (\<lambda>p. rv_bytes ell (St (NEXT p) (x (NEXT p))))"
    using ring_exchange [OF cap, of t "\<lambda>p. rv_bytes ell (St p (x p))"] L by simp
  from runs_bind [OF this, of "\<lambda>p bs. lift_res (rbind (load_data ell (St p (y p)) bs) (\<lambda>v. Inr ((St p)(y p := v))))"]
  show ?thesis
    using load_data_ok(1) [OF Y(1) X(1)] X(2) Y(2) by (simp add: ring_data_def T(1) taken_def)
qed

text \<open>The end of every protocol that produces a share vector.\<close>

lemma finish_vec:
  assumes cap: "0 < cap" and V: "\<And>p. thisShare (V p) \<noteq> nxtShare (V p)"
    and P: "\<And>p. P p = pbind (lift_res (L p)) (pass_on_vec ell (V p))"
    and L: "\<And>p. L p = Inr (St p, A p)"
    and at: "\<And>p. vec_at ell (St p) (thisShare (V p)) (z p)" "\<And>p. vec_at ell (St p) (nxtShare (V p)) (u p)"
      "\<And>p. length (z p) = n" "\<And>p. length (u p) = n"
  shows "\<exists>St'. ends_with cap P (\<lambda>p. (St' p, A p)) \<and> vsharing ell St' V z \<and>
    (\<forall>p r. r \<noteq> nxtShare (V p) \<longrightarrow> St' p r = St p r)"
proof -
  let ?St = "\<lambda>p. taken ell (thisShare (V (NEXT p))) (nxtShare (V p)) (St p) (St (NEXT p))"
  have "ends_with cap (\<lambda>p. ring_data ell (thisShare (V p)) (nxtShare (V p)) (bytesSize ell (St p (nxtShare (V p)))) (St p)) ?St"
    by (rule ring_data_runs [OF cap at]) simp
  note round = runs_bind [OF this, of "\<lambda>p st. Ret (st, A p)"]
  have "P = (\<lambda>p. pbind (ring_data ell (thisShare (V p)) (nxtShare (V p)) (bytesSize ell (St p (nxtShare (V p)))) (St p))
      (\<lambda>st. Ret (st, A p)))" by (rule ext) (simp add: P L pass_on_vec_def)
  then have "ends_with cap P (\<lambda>p. (?St p, A p))" using round by simp
  moreover have "vsharing ell ?St V z"
    unfolding vsharing_def using taken_at [OF at(2,1)] at V by (auto simp: taken_def vec_at_def)
  ultimately show ?thesis by (intro exI [of _ ?St]) (simp add: taken_other)
qed

section \<open>Local parts\<close>

text \<open>Elements drawn by all parties at once.\<close>

lemma crng_at_all:
  assumes A: "synced ccrh A" and at: "\<And>p. vec_at ell (St p) (x p) (z p)" "\<And>p. length (z p) = n"
  obtains v r A' where "\<And>p. crng_at ccrh ell (x p) (St p) (A p) = Inr ((St p)(x p := v p), A' p)" "synced ccrh A'"
    "\<And>p. rv_ok ell (v p)" "\<And>p. elems ell (v p) = r p" "sums_to ell r (replicate n 0)"
proof -
  have v: "rv_ok ell (St p (x p))" "n_elems (St p (x p)) = n" for p
    using at(1) [of p] at(2) [of p] vec_at_length [OF at(1) [of p]] by (simp_all add: vec_at_def)
  obtain v' A' where v': "\<And>p. crng_vec ccrh ell (St p (x p)) (A p) = Inr (v' p, A' p)" "synced ccrh A'"
    "\<And>p. rv_ok ell (v' p)" "sums_to ell (\<lambda>p. elems ell (v' p)) (replicate n 0)"
    by (rule crng_vec_synced [OF A v]) (rule that, assumption+)
  show thesis by (rule that [OF _ v'(2,3) _ v'(4)]) (simp_all add: crng_at_def v'(1))
qed

text \<open>Adding what was drawn does not change the sum.\<close>

lemma masked_sum:
  assumes ell: "ell \<le> 8" and r: "sums_to ell r (replicate (length xs) 0)" and len: "\<And>p. length (w p) = length xs"
    and w: "\<And>p i. i < length xs \<Longrightarrow> take_bit ell (w p ! i) = take_bit ell (y p i + r p ! i)"
    and y: "\<And>i. i < length xs \<Longrightarrow> take_bit ell (sum3 (\<lambda>p. y p i)) = take_bit ell (xs ! i)"
  shows "sums_to ell w xs"
proof -
  have "take_bit ell (sum3 (\<lambda>p. w p ! i)) = take_bit ell (xs ! i)" if i: "i < length xs" for i
  proof -
    have "take_bit ell (sum3 (\<lambda>p. w p ! i)) = take_bit ell (sum3 (\<lambda>p. y p i + r p ! i))"
      by (rule sum3_cong [OF ell w [OF i]])
    also have "\<dots> = take_bit ell (sum3 (\<lambda>p. y p i))"
      using r i by (intro zero3_sum ell) (simp add: zero3_def sums_to_def)
    finally show ?thesis using y [OF i] by simp
  qed
  then show ?thesis using len by (simp add: sums_to_sum3)
qed

lemma share_vec_local:
  assumes A: "synced ccrh A"
    and V: "\<And>p. thisShare (V p) \<noteq> nxtShare (V p)" and vec: "vec \<noteq> thisShare (V dealer)" "vec_at ell (St dealer) vec xs"
    and at: "\<And>p. vec_at ell (St p) (thisShare (V p)) (z p)" "\<And>p. vec_at ell (St p) (nxtShare (V p)) (u p)"
      "\<And>p. length (z p) = length xs" "\<And>p. length (u p) = length xs" and cap: "0 < cap"
  shows "\<exists>St' A'. ends_with cap (\<lambda>p. if p = dealer then share_vec ccrh ell vec (V p) (St p) (A p)
      else recvShare_vec ccrh ell (V p) (St p) (A p)) (\<lambda>p. (St' p, A' p)) \<and> synced ccrh A' \<and> rep3_vec ell St' V xs"
proof -
  have ell: "ell \<le> 8" using vec_at_ell [OF vec(2)] by simp
  obtain v r A' where c: "\<And>p. crng_at ccrh ell (thisShare (V p)) (St p) (A p) = Inr ((St p)(thisShare (V p) := v p), A' p)"
    "synced ccrh A'" "\<And>p. rv_ok ell (v p)" "\<And>p. elems ell (v p) = r p" "sums_to ell r (replicate (length xs) 0)"
    by (rule crng_at_all [OF A at(1,3)]) (rule that, assumption+)
  have r: "length (r p) = length xs" for p using c(5) by (simp add: sums_to_def)
  obtain w where w: "rv_add ell vec (thisShare (V dealer)) (thisShare (V dealer)) ((St dealer)(thisShare (V dealer) := v dealer)) =
      Inr (((St dealer)(thisShare (V dealer) := v dealer))(thisShare (V dealer) := w))" "rv_ok ell w"
      "elems ell w = map2 (ringAdd8 ell) xs (r dealer)"
    using add_at [of ell "(St dealer)(thisShare (V dealer) := v dealer)" vec xs "thisShare (V dealer)" "r dealer" "thisShare (V dealer)" "r dealer"]
      vec c(3,4) r by auto
  let ?St = "\<lambda>p. (St p)(thisShare (V p) := if p = dealer then w else v p)"
  let ?z = "\<lambda>p. if p = dealer then map2 (ringAdd8 ell) xs (r p) else r p"
  let ?L = "\<lambda>p. if p = dealer then rbind (crng_at ccrh ell (thisShare (V p)) (St p) (A p)) (\<lambda>(st, a).
             rbind (rv_add ell vec (thisShare (V p)) (thisShare (V p)) st) (\<lambda>st. Inr (st, a)))
      else crng_at ccrh ell (thisShare (V p)) (St p) (A p)"
  have "\<exists>St'. ends_with cap (\<lambda>p. if p = dealer then share_vec ccrh ell vec (V p) (St p) (A p)
      else recvShare_vec ccrh ell (V p) (St p) (A p)) (\<lambda>p. (St' p, A' p)) \<and> vsharing ell St' V ?z \<and>
      (\<forall>p r. r \<noteq> nxtShare (V p) \<longrightarrow> St' p r = ?St p r)"
  proof (rule finish_vec [where n = "length xs" and u = u and L = ?L and St = ?St and z = ?z, OF cap V])
    show "(if p = dealer then share_vec ccrh ell vec (V p) (St p) (A p) else recvShare_vec ccrh ell (V p) (St p) (A p)) =
        pbind (lift_res (?L p)) (pass_on_vec ell (V p))" for p
      using vec(1) by (simp add: share_vec_def recvShare_vec_def)
    show "?L p = Inr (?St p, A' p)" for p using w(1) by (simp add: c(1))
    show "vec_at ell (?St p) (thisShare (V p)) (?z p)" "vec_at ell (?St p) (nxtShare (V p)) (u p)"
      "length (?z p) = length xs" for p
      using V [of p] at(2) [of p] c(3,4) r [of p] w(2,3) by (cases "p = dealer"; simp)+
  qed (rule at(4))
  moreover have "sums_to ell ?z xs"
    by (rule masked_sum [OF ell c(5), of _ "\<lambda>p i. if p = dealer then xs ! i else 0"])
      (use r ell in \<open>auto simp: ring_simps sum3_def split: pid.splits\<close>, (cases dealer; simp)+)
  ultimately show ?thesis using c(2) unfolding rep3_vec_def by blast
qed

text \<open>The product of two sharings: the output object is neither input.\<close>

definition apart :: "ShrRep3ShareVec \<Rightarrow> ShrRep3ShareVec \<Rightarrow> bool" where
  "apart v w \<longleftrightarrow> thisShare v \<noteq> thisShare w \<and> thisShare v \<noteq> nxtShare w \<and> nxtShare v \<noteq> thisShare w \<and>
     nxtShare v \<noteq> nxtShare w"

lemma products_local:
  assumes ap: "apart V U" "apart V W" "thisShare V \<noteq> nxtShare V"
    and U: "vec_at ell st (thisShare U) x0" "vec_at ell st (nxtShare U) x1"
    and W: "vec_at ell st (thisShare W) y0" "vec_at ell st (nxtShare W) y1"
    and V: "vec_at ell st (thisShare V) o0" "vec_at ell st (nxtShare V) o1"
    and len: "length x0 = n" "length x1 = n" "length y0 = n" "length y1 = n" "length o0 = n" "length o1 = n"
  shows "\<exists>v w. hadamard_products ell U W V st = Inr (st(thisShare V := v, nxtShare V := w)) \<and> rv_ok ell v \<and> rv_ok ell w \<and>
    elems ell v = map2 (ringAdd8 ell) (map2 (ringAdd8 ell) (map2 (ringMul8 ell) x0 y0) (map2 (ringMul8 ell) x0 y1))
      (map2 (ringMul8 ell) x1 y0) \<and> length (elems ell w) = n"
proof -
  note ne = ap [unfolded apart_def]
  let ?T = "thisShare V" and ?N = "nxtShare V"
  obtain v1 where v1: "rv_hadamard ell (thisShare U) (thisShare W) ?T st = Inr (st(?T := v1))" "rv_ok ell v1"
    "elems ell v1 = map2 (ringMul8 ell) x0 y0"
    using hadamard_at [OF U(1) W(1) V(1)] len by auto
  let ?s1 = "st(?T := v1)"
  obtain v2 where v2: "rv_hadamard ell (thisShare U) (nxtShare W) ?N ?s1 = Inr (?s1(?N := v2))" "rv_ok ell v2"
    "elems ell v2 = map2 (ringMul8 ell) x0 y1"
    using hadamard_at [of ell ?s1 "thisShare U" x0 "nxtShare W" y1 ?N o1] U W V len ne by auto
  let ?s2 = "?s1(?N := v2)"
  obtain v3 where v3: "rv_add ell ?T ?N ?T ?s2 = Inr (?s2(?T := v3))" "rv_ok ell v3"
    "elems ell v3 = map2 (ringAdd8 ell) (map2 (ringMul8 ell) x0 y0) (map2 (ringMul8 ell) x0 y1)"
    using add_at [of ell ?s2 ?T "map2 (ringMul8 ell) x0 y0" ?N "map2 (ringMul8 ell) x0 y1" ?T "map2 (ringMul8 ell) x0 y0"]
      v1 v2 len ne by auto
  let ?s3 = "?s2(?T := v3)"
  obtain v4 where v4: "rv_hadamard ell (nxtShare U) (thisShare W) ?N ?s3 = Inr (?s3(?N := v4))" "rv_ok ell v4"
    "elems ell v4 = map2 (ringMul8 ell) x1 y0"
    using hadamard_at [of ell ?s3 "nxtShare U" x1 "thisShare W" y0 ?N "map2 (ringMul8 ell) x0 y1"] U W v2 len ne by auto
  let ?s4 = "?s3(?N := v4)"
  obtain v5 where v5: "rv_add ell ?T ?N ?T ?s4 = Inr (?s4(?T := v5))" "rv_ok ell v5"
    "elems ell v5 = map2 (ringAdd8 ell) (map2 (ringAdd8 ell) (map2 (ringMul8 ell) x0 y0) (map2 (ringMul8 ell) x0 y1))
      (map2 (ringMul8 ell) x1 y0)"
    using add_at [of ell ?s4 ?T "elems ell v3" ?N "map2 (ringMul8 ell) x1 y0" ?T "elems ell v3"]
      v3 v4 len ne by (auto simp del: length_elems)
  have "?s4(?T := v5) = st(?T := v5, ?N := v4)" using ne by (auto simp: fun_eq_iff)
  moreover have "hadamard_products ell U W V st = Inr (?s4(?T := v5))"
    unfolding hadamard_products_def Let_def v1(1) rbind_Inr v2(1) v3(1) v4(1) v5(1) by (rule refl)
  ultimately show ?thesis using v5 v4 len by (intro exI [of _ v5] exI [of _ v4]) (simp del: length_elems)
qed

lemma hadamard_frame:
  assumes cap: "0 < cap" and A: "synced ccrh A"
    and ap: "\<And>p. apart (V p) (U p)" "\<And>p. apart (V p) (W p)" "\<And>p. thisShare (V p) \<noteq> nxtShare (V p)"
    and UW: "rep3_vec ell St U xs" "rep3_vec ell St W ys" "length ys = length xs"
    and V: "\<And>p. vec_at ell (St p) (thisShare (V p)) (o0 p)" "\<And>p. vec_at ell (St p) (nxtShare (V p)) (o1 p)"
      "\<And>p. length (o0 p) = length xs" "\<And>p. length (o1 p) = length xs"
  shows "\<exists>St' A'. ends_with cap (\<lambda>p. hadamard ccrh ell (U p) (W p) (V p) (St p) (A p)) (\<lambda>p. (St' p, A' p)) \<and>
    synced ccrh A' \<and> rep3_vec ell St' V (map2 (ringMul8 ell) xs ys) \<and>
    (\<forall>p r. r \<notin> {thisShare (V p), nxtShare (V p)} \<longrightarrow> St' p r = St p r)"
proof -
  obtain s t where s: "vsharing ell St U s" "sums_to ell s xs" and t: "vsharing ell St W t" "sums_to ell t ys"
    using UW(1,2) unfolding rep3_vec_def by blast
  have ell: "1 \<le> ell" "ell \<le> 8" using V(1) [of P0] vec_at_ell by auto
  have len: "length (s p) = length xs" "length (t p) = length xs" for p using s(2) t(2) UW(3) by (simp_all add: sums_to_def)
  define y where "y p = map2 (ringAdd8 ell) (map2 (ringAdd8 ell) (map2 (ringMul8 ell) (s p) (t p))
      (map2 (ringMul8 ell) (s p) (t (NEXT p)))) (map2 (ringMul8 ell) (s (NEXT p)) (t p))" for p
  have ly: "length (y p) = length xs" for p using len by (simp add: y_def)
  let ?T = "\<lambda>p. thisShare (V p)" and ?N = "\<lambda>p. nxtShare (V p)"
  have "\<exists>v w. hadamard_products ell (U p) (W p) (V p) (St p) = Inr ((St p)(?T p := v, ?N p := w)) \<and> rv_ok ell v \<and>
      rv_ok ell w \<and> elems ell v = y p \<and> length (elems ell w) = length xs" for p
    unfolding y_def using s(1) t(1)
    by (intro products_local [OF ap(1-3) _ _ _ _ V(1,2) len(1) len(1) len(2) len(2) V(3,4)]) (simp_all add: vsharing_def)
  then obtain v w where p: "\<And>p. hadamard_products ell (U p) (W p) (V p) (St p) = Inr ((St p)(?T p := v p, ?N p := w p))"
    "\<And>p. rv_ok ell (v p)" "\<And>p. rv_ok ell (w p)" "\<And>p. elems ell (v p) = y p" "\<And>p. length (elems ell (w p)) = length xs"
    by metis
  let ?S = "\<lambda>p. (St p)(?T p := v p, ?N p := w p)"
  have w: "vec_at ell (?S p) (?N p) (elems ell (w p))" for p using p(3) by simp
  obtain c r A' where c: "\<And>p. crng_at ccrh ell (?N p) (?S p) (A p) = Inr ((?S p)(?N p := c p), A' p)" "synced ccrh A'"
    "\<And>p. rv_ok ell (c p)" "\<And>p. elems ell (c p) = r p" "sums_to ell r (replicate (length xs) 0)"
    by (rule crng_at_all [OF A w p(5)]) (rule that, assumption+)
  have r: "length (r p) = length xs" for p using c(5) by (simp add: sums_to_def)
  have "\<exists>x. rv_add ell (?T p) (?N p) (?T p) ((?S p)(?N p := c p)) = Inr ((?S p)(?N p := c p, ?T p := x)) \<and> rv_ok ell x \<and>
      elems ell x = map2 (ringAdd8 ell) (y p) (r p)" for p
    by (rule add_at [where zs = "y p"]) (use ap(3) p c ly r in simp_all)
  then obtain x where x: "\<And>p. rv_add ell (?T p) (?N p) (?T p) ((?S p)(?N p := c p)) = Inr ((?S p)(?N p := c p, ?T p := x p))"
    "\<And>p. rv_ok ell (x p)" "\<And>p. elems ell (x p) = map2 (ringAdd8 ell) (y p) (r p)" by metis
  let ?L = "\<lambda>p. rbind (hadamard_products ell (U p) (W p) (V p) (St p)) (\<lambda>st.
             rbind (crng_at ccrh ell (?N p) st (A p)) (\<lambda>(st, a). rbind (rv_add ell (?T p) (?N p) (?T p) st) (\<lambda>st. Inr (st, a))))"
  let ?z = "\<lambda>p. map2 (ringAdd8 ell) (y p) (r p)" and ?F = "\<lambda>p. (?S p)(?N p := c p, ?T p := x p)"
  have "\<exists>St'. ends_with cap (\<lambda>p. hadamard ccrh ell (U p) (W p) (V p) (St p) (A p)) (\<lambda>p. (St' p, A' p)) \<and> vsharing ell St' V ?z \<and>
      (\<forall>p r. r \<noteq> ?N p \<longrightarrow> St' p r = ?F p r)"
  proof (rule finish_vec [where n = "length xs" and u = r and L = ?L and St = ?F and z = ?z, OF cap ap(3)])
    show "hadamard ccrh ell (U p) (W p) (V p) (St p) (A p) = pbind (lift_res (?L p)) (pass_on_vec ell (V p))" for p
      using ap(1,2) by (simp add: hadamard_def apart_def)
    show "?L p = Inr (?F p, A' p)" for p unfolding p(1) rbind_Inr c(1) prod.case x(1) by (rule refl)
    show "vec_at ell (?F p) (?T p) (?z p)" "vec_at ell (?F p) (?N p) (r p)" for p
      using ap(3) [of p] ap(3) [of p, symmetric] x c by simp_all
  qed (simp_all add: ly r)
  then obtain St' where St': "ends_with cap (\<lambda>p. hadamard ccrh ell (U p) (W p) (V p) (St p) (A p)) (\<lambda>p. (St' p, A' p))"
    "vsharing ell St' V ?z" "\<And>p r. r \<noteq> ?N p \<Longrightarrow> St' p r = ?F p r" by blast
  have "\<forall>p r. r \<notin> {?T p, ?N p} \<longrightarrow> St' p r = St p r" using St'(3) by simp
  moreover have "sums_to ell ?z (map2 (ringMul8 ell) xs ys)"
  proof (rule masked_sum [OF ell(2), where r = r and y = "\<lambda>p i. y p ! i"])
    fix i assume "i < length (map2 (ringMul8 ell) xs ys)"
    then have i: "i < length xs" by simp
    have "take_bit ell (sum3 (\<lambda>p. ringAdd8 ell (ringAdd8 ell (ringMul8 ell (s p ! i) (t p ! i)) (ringMul8 ell (s p ! i) (t (NEXT p) ! i)))
        (ringMul8 ell (s (NEXT p) ! i) (t p ! i)))) = ringMul8 ell (take_bit ell (xs ! i)) (take_bit ell (ys ! i))"
      using s(2) t(2) i UW(3) by (intro cross_terms [OF ell(2)]) (simp_all add: sums_to_sum3)
    then show "take_bit ell (sum3 (\<lambda>p. y p ! i)) = take_bit ell (map2 (ringMul8 ell) xs ys ! i)"
      using i len UW(3) ell by (simp add: y_def ring_simps take_bit_absorb)
  qed (use ly r UW(3) c(5) ell in \<open>simp_all add: ring_simps\<close>)
  ultimately show ?thesis using c(2) St'(1,2) unfolding rep3_vec_def by blast
qed

lemma hadamard_ok:
  assumes "0 < cap" "synced ccrh A"
    and "\<And>p. apart (V p) (U p)" "\<And>p. apart (V p) (W p)" "\<And>p. thisShare (V p) \<noteq> nxtShare (V p)"
    and "rep3_vec ell St U xs" "rep3_vec ell St W ys" "length ys = length xs"
    and "\<And>p. vec_at ell (St p) (thisShare (V p)) (o0 p)" "\<And>p. vec_at ell (St p) (nxtShare (V p)) (o1 p)"
      "\<And>p. length (o0 p) = length xs" "\<And>p. length (o1 p) = length xs"
  shows "\<exists>St' A'. ends_with cap (\<lambda>p. hadamard ccrh ell (U p) (W p) (V p) (St p) (A p)) (\<lambda>p. (St' p, A' p)) \<and>
    synced ccrh A' \<and> rep3_vec ell St' V (map2 (ringMul8 ell) xs ys)"
  using hadamard_frame [OF assms] by blast

section \<open>Opening\<close>

lemma send_bytes_all: "pbind (send_bytes s data (length data)) K = pbind (send_data s data) (\<lambda>_. pbind (flush s) K)"
  if "\<And>u v. K u = K v"
proof -
  show ?thesis by (simp add: send_bytes_def pbind_assoc ldn_def)
qed

text \<open>What the first party computes from its share and the summand it receives.\<close>

lemma reveal_local:
  assumes at: "vec_at ell st (thisShare V) x0" "vec_at ell st (nxtShare V) x1" "vec_at ell st out x2"
    and len: "length x0 = n" "length x1 = n" "length x2 = n" and ne: "out \<noteq> thisShare V" "out \<noteq> nxtShare V"
    and heap: "\<forall>k. heap k \<noteq> None"
  defines "tmp \<equiv> Suc (max (max (thisShare V) (nxtShare V)) out)"
  shows "\<exists>w. rbind (rv_new ell heap (rv_size (st out))) (\<lambda>v. rbind (rv_add ell (thisShare V) (nxtShare V) tmp (st(tmp := v))) (\<lambda>st'.
      rbind (rv_add ell tmp out out st') (\<lambda>st'. Inr (st'(tmp := st tmp))))) = Inr (st(out := w)) \<and> rv_ok ell w \<and>
    elems ell w = map2 (ringAdd8 ell) (map2 (ringAdd8 ell) x0 x1) x2"
proof -
  have t: "tmp \<noteq> thisShare V" "tmp \<noteq> nxtShare V" "tmp \<noteq> out" by (simp_all add: tmp_def)
  have n: "rv_size (st out) = n" "1 \<le> ell" "ell \<le> 8" "n + 63 < 2 ^ 64"
    using vec_at_length [OF at(3)] at(3) len by (auto simp: rv_size_def vec_at_def rv_ok_def)
  obtain v where v: "rv_new ell heap n = Inr v" "rv_ok ell v" "n_elems v = n" using rv_new_heap [OF n(2-4) heap] by blast
  obtain v1 where v1: "rv_add ell (thisShare V) (nxtShare V) tmp (st(tmp := v)) = Inr (st(tmp := v1))" "rv_ok ell v1"
    "elems ell v1 = map2 (ringAdd8 ell) x0 x1"
    using add_at [of ell "st(tmp := v)" "thisShare V" x0 "nxtShare V" x1 tmp "elems ell v"] at len t v by auto
  obtain w where w: "rv_add ell tmp out out (st(tmp := v1)) = Inr (st(tmp := v1, out := w))" "rv_ok ell w"
    "elems ell w = map2 (ringAdd8 ell) (map2 (ringAdd8 ell) x0 x1) x2"
    using add_at [of ell "st(tmp := v1)" tmp "map2 (ringAdd8 ell) x0 x1" out x2 out x2] at len t v1 by auto
  have "st(tmp := v1, out := w, tmp := st tmp) = st(out := w)" using t by (auto simp: fun_eq_iff)
  then have "rbind (rv_new ell heap (rv_size (st out))) (\<lambda>v. rbind (rv_add ell (thisShare V) (nxtShare V) tmp (st(tmp := v))) (\<lambda>st'.
      rbind (rv_add ell tmp out out st') (\<lambda>st'. Inr (st'(tmp := st tmp))))) = Inr (st(out := w))"
    unfolding n(1) v(1) rbind_Inr v1(1) w(1) by (rule arg_cong)
  then show ?thesis using w(2,3) by blast
qed

lemma reveal_vec_runs:
  assumes cap: "0 < cap" and S: "rep3_vec ell St V xs" and heap: "\<forall>k. heap k \<noteq> None"
    and out: "\<And>p. vec_at ell (St p) (out p) (u p)" "\<And>p. length (u p) = length xs"
    and ne: "out P0 \<noteq> thisShare (V P0)" "out P0 \<noteq> nxtShare (V P0)"
  shows "\<exists>St'. ends_with cap (\<lambda>p. revealAll_vec heap ell p (V p) (out p) (St p)) St' \<and>
    (\<forall>p. vec_at ell (St' p) (out p) (map (take_bit ell) xs) \<and> (\<forall>r. r \<noteq> out p \<longrightarrow> St' p r = St p r))"
proof -
  obtain z where z: "vsharing ell St V z" "sums_to ell z xs" using S unfolding rep3_vec_def by blast
  have at: "vec_at ell (St p) (thisShare (V p)) (z p)" "vec_at ell (St p) (nxtShare (V p)) (z (NEXT p))"
    and lz: "length (z p) = length xs" for p using z by (simp_all add: vsharing_def sums_to_def)
  have ell: "ell \<le> 8" using vec_at_ell [OF at(1)] by simp
  have ok: "rv_ok ell (St p (out p))" "n_elems (St p (out p)) = length xs" "rv_ok ell (St p (nxtShare (V p)))"
    "n_elems (St p (nxtShare (V p))) = length xs" for p
    using out(1) [of p] out(2) [of p] vec_at_length [OF out(1) [of p]] at(2) [of p] vec_at_length [OF at(2) [of p]] lz
    by (simp_all add: vec_at_def)
  define b where "b = rv_bytes ell (St P1 (nxtShare (V P1)))"
  let ?n = "length b"
  have sz: "bytesSize ell (St p (out p)) = ?n" for p
    unfolding b_def by (rule load_data_ok(4)) (use ok in simp_all)
  define s0 where "s0 = (St P0)(out P0 := set_bytes ell (St P0 (out P0)) b)"
  have l0: "load_data ell (St P0 (out P0)) b = Inr (set_bytes ell (St P0 (out P0)) b)"
    unfolding b_def by (rule load_data_ok(1)) (use ok in simp_all)
  have at0: "vec_at ell s0 (thisShare (V P0)) (z P0)" "vec_at ell s0 (nxtShare (V P0)) (z P1)" "vec_at ell s0 (out P0) (z P2)"
    using at(1,2) [of P0] ne set_bytes_ok [of ell "St P1 (nxtShare (V P1))" "St P0 (out P0)"] ok at(2) [of P1]
    by (simp_all add: s0_def b_def vec_at_def)
  note local = reveal_local [OF at0 lz lz lz ne heap]
  obtain w where w: "rbind (rv_new ell heap (rv_size (s0 (out P0)))) (\<lambda>v.
      rbind (rv_add ell (thisShare (V P0)) (nxtShare (V P0)) (Suc (max (max (thisShare (V P0)) (nxtShare (V P0))) (out P0)))
        (s0(Suc (max (max (thisShare (V P0)) (nxtShare (V P0))) (out P0)) := v))) (\<lambda>st'.
      rbind (rv_add ell (Suc (max (max (thisShare (V P0)) (nxtShare (V P0))) (out P0))) (out P0) (out P0) st')
        (\<lambda>st'. Inr (st'(Suc (max (max (thisShare (V P0)) (nxtShare (V P0))) (out P0)) :=
           s0 (Suc (max (max (thisShare (V P0)) (nxtShare (V P0))) (out P0)))))))) = Inr (s0(out P0 := w))"
    "rv_ok ell w" "elems ell w = map2 (ringAdd8 ell) (map2 (ringAdd8 ell) (z P0) (z P1)) (z P2)"
    using local by blast
  have ew: "elems ell w = map (take_bit ell) xs"
    unfolding w(3) using z(2) ell by (intro nth_equalityI) (auto simp: sums_to_def ring_simps take_bit_absorb)
  have nw: "n_elems w = length xs" using length_elems [of ell w] ew by (simp del: length_elems)
  define c where "c = rv_bytes ell w"
  have lc: "length c = ?n" using load_data_ok(4) [OF ok(1) w(2), of P0] sz [of P0] nw ok(2) by (simp add: c_def)
  let ?F = "\<lambda>p. (St p)(out p := set_bytes ell (St p (out p)) c)"
  let ?St' = "\<lambda>p. if p = P0 then (St P0)(out P0 := w) else ?F p"
  have lp: "load_data ell (St p (out p)) c = Inr (set_bytes ell (St p (out p)) c)" for p
    unfolding c_def by (rule load_data_ok(1)) (use ok w nw in simp_all)
  have res: "vec_at ell (?St' p) (out p) (map (take_bit ell) xs) \<and> (\<forall>r. r \<noteq> out p \<longrightarrow> ?St' p r = St p r)" for p
    using set_bytes_ok [OF w(2) ok(1), of p] ok(2) [of p] nw ew w(2) by (cases "p = P0") (simp_all add: c_def)
  let ?P = "\<lambda>p. revealAll_vec heap ell p (V p) (out p) (St p)"
  let ?k = "\<lambda>p bs. lift_res (rbind (load_data ell (St p (out p)) bs) (\<lambda>v. Inr ((St p)(out p := v)))) :: (side, store) proc"
  let ?R = "(St P0)(out P0 := w)"
  have kc: "?k p c = Ret (?F p)" for p by (simp add: lp)
  have R: "s0(out P0 := w) = ?R" by (simp add: s0_def)
  let ?K0 = "\<lambda>bs. pbind (?k P0 bs) (\<lambda>st.
          let tmp = Suc (max (max (thisShare (V P0)) (nxtShare (V P0))) (out P0)) in
          pbind (lift_res (rbind (rv_new ell heap (rv_size (st (out P0)))) (\<lambda>v.
            rbind (rv_add ell (thisShare (V P0)) (nxtShare (V P0)) tmp (st(tmp := v))) (\<lambda>st'.
            rbind (rv_add ell tmp (out P0) (out P0) st') (\<lambda>st'. Inr (st'(tmp := st tmp))))))) (\<lambda>st.
          pbind (send_bytes Next (rv_bytes ell (st (out P0))) ?n) (\<lambda>_.
          pbind (send_bytes Prev (rv_bytes ell (st (out P0))) ?n) (\<lambda>_. Ret st))))"
  have "ends_with cap ?P ?St'"
  proof (rule hub_runs [where b = b and c = c and F = ?K0 and G = "?k P1" and H = "?k P2", OF cap])
    show "?P P0 = pbind (recv_bytes Next ?n) ?K0"
      by (simp add: revealAll_vec_def recv_into_def pbind_assoc sz Let_def)
    show "?K0 b = pbind (send_data Next c) (\<lambda>_. pbind (flush Next) (\<lambda>_.
        pbind (send_data Prev c) (\<lambda>_. pbind (flush Prev) (\<lambda>_. Ret (?St' P0)))))"
      unfolding l0 rbind_Inr lift_res_simps pbind.simps s0_def [symmetric] Let_def w(1) R
      by (simp only: fun_upd_same c_def [symmetric] lc [symmetric] send_bytes_all if_True refl)
    show "?P P1 = pbind (send_data Prev b) (\<lambda>_. pbind (flush Prev) (\<lambda>_. pbind (recv_bytes Prev (length c)) (?k P1)))"
      by (simp add: revealAll_vec_def recv_into_def sz b_def [symmetric] lc send_bytes_all)
    show "?P P2 = pbind (recv_bytes Next (length c)) (?k P2)"
      by (simp add: revealAll_vec_def recv_into_def sz lc)
  qed (simp_all add: kc)
  then show ?thesis by (intro exI [of _ ?St'] conjI allI res)
qed

end
