(* ===== verification/Aby3_Theorems.thy ===== *)
theory Aby3_Theorems
  imports Aby3_Facts
begin

text \<open>
  Opening and bit conversion, and the properties of the scalar protocols. Every one of them holds
  for every schedule of the parties and of their channels' bytes: \<open>ring_run cap P r\<close> says that
  all executions of \<open>P\<close> are finite and end with the results \<open>r\<close> and nothing left in a buffer.
\<close>

section \<open>Opening\<close>

lemma wide_sum: "ucast (ucast a + ucast b + ucast c :: 16 word) = a + b + c" for a b c :: byte
proof -
  have "uint (ucast (ucast a + ucast b + ucast c :: 16 word) :: byte) = uint (a + b + c)"
    by (simp add: unsigned_ucast_eq uint_word_ariths take_bit_eq_mod mod_mod_cancel mod_simps)
  then show ?thesis by (simp only: word_uint_eq_iff)
qed

lemma wide_mask: "ucast (r AND ucast m :: 16 word) = ucast r AND (m :: byte)"
  by (rule bit_word_eqI) (auto simp: bit_simps dest: bit_imp_le_length)

lemma reveal_sum:
  fixes a b c :: byte
  assumes "1 \<le> ell" "ell \<le> 8"
  shows "(ucast (if ell < 8 then (ucast a + ucast b + ucast c :: 16 word) AND ucast (RING_MASK8 ell)
      else ucast a + ucast b + ucast c) :: byte) = take_bit ell (a + b + c)"
  using assms by (auto simp: wide_mask wide_sum and_RING_MASK8)

lemma reveal_runs:
  assumes "0 < cap" "1 \<le> ell" "ell \<le> 8"
  shows "runs ring_peer cap (\<lambda>p. revealAll ell p (sharing z p)) (\<lambda>_. Ret (take_bit ell (sum3 z)))"
proof -
  let ?x = "take_bit ell (sum3 z)" and ?P = "\<lambda>p. revealAll ell p (sharing z p)"
  let ?k = "\<lambda>bs. Ret (hd bs) :: (side, byte) proc"
  have x: "take_bit ell (z P0 + z P1 + z P2) = ?x" by (simp add: sum3_def)
  let ?K0 = "\<lambda>bs :: byte list. (let missing = hd bs;
      r = ucast (thisShare (sharing z P0)) + ucast (nxtShare (sharing z P0)) + ucast missing :: 16 word;
      r = (if ell < 8 then r AND ucast (RING_MASK8 ell) else r); result = ucast r
      in pbind (send_data Next [result]) (\<lambda>_. pbind (flush Next) (\<lambda>_.
         pbind (send_data Prev [result]) (\<lambda>_. pbind (flush Prev) (\<lambda>_. Ret result)))))"
  have up: "ucast (ucast b :: u32) = (ucast b :: 16 word)" for b :: byte
    by (rule bit_word_eqI) (auto simp: bit_simps dest: bit_imp_le_length)
  show ?thesis
  proof (rule hub_runs [where b = "[z P2]" and c = "[?x]" and F = ?K0 and G = ?k and H = ?k, OF assms(1)])
    show "?K0 [z P2] = pbind (send_data Next [?x]) (\<lambda>_. pbind (flush Next) (\<lambda>_.
        pbind (send_data Prev [?x]) (\<lambda>_. pbind (flush Prev) (\<lambda>_. Ret ?x))))"
      unfolding Let_def sharing_sel up list.sel NEXT_simps reveal_sum [OF assms(2,3)] x ..
  qed (simp_all add: revealAll_def one_byte)
qed

section \<open>Bit conversion\<close>

lemma xor_as_sum:
  assumes "\<And>p. take_bit 1 (s p) = s p"
  shows "s P0 + s P1 - 2 * (s P0 * s P1) + s P2 - 2 * ((s P0 + s P1 - 2 * (s P0 * s P1)) * s P2) = take_bit 1 (sum3 s)"
proof -
  have "s p = 0 \<or> s p = 1" for p using assms [of p] by (rule bit_scalar)
  from this [of P0] this [of P1] this [of P2] show ?thesis
    by (elim disjE) (simp_all add: sum3_def)
qed

lemma conv_algebra:
  fixes s r v :: "pid \<Rightarrow> byte"
  defines "q \<equiv> \<lambda>p. (if p = P0 then s P0 * s P1 else 0) + r p"
  defines "D \<equiv> \<lambda>p. (case p of P0 \<Rightarrow> s P0 | P1 \<Rightarrow> s P1 | P2 \<Rightarrow> 0) - (q p + q p)"
  defines "u \<equiv> \<lambda>p. (case p of P0 \<Rightarrow> 0 | P1 \<Rightarrow> D P1 * s P2 | P2 \<Rightarrow> (D P2 + D P0) * s P2) + v p"
  defines "F \<equiv> s P0 + s P1 - 2 * (s P0 * s P1)"
  shows "sum3 (\<lambda>p. D p + (if p = P2 then s P2 else 0) - (u p + u p)) =
    F + s P2 - 2 * (F * s P2) + ((4 * s P2 - 2) * sum3 r - 2 * sum3 v)"
  by (simp add: q_def D_def u_def F_def sum3_def algebra_simps)

text \<open>The two rounds, for summands \<open>s\<close> of the bit and the randomness \<open>r\<close>, \<open>v\<close> they draw.\<close>

definition d_of :: "nat \<Rightarrow> (pid \<Rightarrow> byte) \<Rightarrow> (pid \<Rightarrow> byte) \<Rightarrow> pid \<Rightarrow> byte" where
  "d_of ell s q p = fst (conv_d ell p (s p) (s (NEXT p)) (q p) (q (NEXT p)))"

definition e_of :: "nat \<Rightarrow> (pid \<Rightarrow> byte) \<Rightarrow> (pid \<Rightarrow> byte) \<Rightarrow> (pid \<Rightarrow> byte) \<Rightarrow> pid \<Rightarrow> byte" where
  "e_of ell s D q p = fst (conv_e ell p (s p) (s (NEXT p)) (D p, D (NEXT p)) (q p) (q (NEXT p)))"

lemma conv_replicated:
  "conv_d ell p (s p) (s (NEXT p)) (q p) (q (NEXT p)) = (d_of ell s q p, d_of ell s q (NEXT p))"
  "conv_e ell p (s p) (s (NEXT p)) (D p, D (NEXT p)) (q p) (q (NEXT p)) = (e_of ell s D q p, e_of ell s D q (NEXT p))"
  by (cases p; simp add: d_of_def e_of_def conv_d_def conv_e_def Let_def)+

lemma ring_ops_cong:
  assumes "ell \<le> 8" "take_bit ell x = take_bit ell x'" "take_bit ell y = take_bit ell y'"
  shows "take_bit ell (ringAdd8 ell x y) = take_bit ell (x' + y')" "take_bit ell (ringSub8 ell x y) = take_bit ell (x' - y')"
    "take_bit ell (ringMul8 ell x y) = take_bit ell (x' * y')"
  using take_bit_cong [OF assms] assms(1) by (simp_all add: ring_simps)

lemma conv_value:
  assumes ell: "ell \<le> 8" and s: "\<And>p. take_bit 1 (s p) = s p" and z: "zero3 ell r" "zero3 ell v"
  defines "q \<equiv> \<lambda>p. if p = P0 then ringAdd8 ell (ringMul8 ell (s p) (s (NEXT p))) (r p) else r p"
  defines "D \<equiv> d_of ell s q"
  defines "u \<equiv> \<lambda>p. case p of P0 \<Rightarrow> v p | P1 \<Rightarrow> ringAdd8 ell (ringMul8 ell (D p) (s (NEXT p))) (v p)
    | P2 \<Rightarrow> ringAdd8 ell (ringMul8 ell (ringAdd8 ell (D p) (D (NEXT p))) (s p)) (v p)"
  shows "take_bit ell (sum3 (e_of ell s D u)) = take_bit ell (take_bit 1 (sum3 s))"
proof -
  define q' where "q' p = (if p = P0 then s P0 * s P1 else 0) + r p" for p
  define D' where "D' p = (case p of P0 \<Rightarrow> s P0 | P1 \<Rightarrow> s P1 | P2 \<Rightarrow> 0) - (q' p + q' p)" for p
  define u' where "u' p = (case p of P0 \<Rightarrow> 0 | P1 \<Rightarrow> D' P1 * s P2 | P2 \<Rightarrow> (D' P2 + D' P0) * s P2) + v p" for p
  have q: "take_bit ell (q p) = take_bit ell (q' p)" for p
    using ell by (cases p) (simp_all add: q_def q'_def ring_simps take_bit_absorb)
  have D: "take_bit ell (D p) = take_bit ell (D' p)" for p
    by (cases p; hypsubst; unfold D_def d_of_def conv_d_def D'_def Let_def pid.case fst_conv) (intro ring_ops_cong [OF ell] q refl)+
  have u: "take_bit ell (u p) = take_bit ell (u' p)" for p
    by (cases p; hypsubst; unfold u_def u'_def pid.case add_0_left NEXT_simps) (intro ring_ops_cong [OF ell] D refl)+
  have "take_bit ell (sum3 (e_of ell s D u)) = take_bit ell (sum3 (\<lambda>p. D' p + (if p = P2 then s P2 else 0) - (u' p + u' p)))"
  proof (rule sum3_cong [OF ell])
    show "take_bit ell (e_of ell s D u p) = take_bit ell (D' p + (if p = P2 then s P2 else 0) - (u' p + u' p))" for p
      by (cases p; hypsubst; unfold e_of_def conv_e_def Let_def pid.case fst_conv; simp only: pid.distinct if_True if_False add_0_right refl)
        (intro ring_ops_cong [OF ell] D u refl)+
  qed
  also have "\<dots> = take_bit ell (take_bit 1 (sum3 s) + ((4 * s P2 - 2) * sum3 r - 2 * sum3 v))"
    unfolding u'_def D'_def q'_def conv_algebra xor_as_sum [of s, OF s] by (rule refl)
  also have "\<dots> = take_bit ell (take_bit 1 (sum3 s) + ((4 * s P2 - 2) * 0 - 2 * 0))"
    using z by (intro take_bit_cong [OF ell] refl) (simp_all add: zero3_def sum3_def)
  finally show ?thesis by simp
qed

lemma ringConv_runs:
  assumes cap: "0 < cap" and ell: "1 \<le> ell" "ell \<le> 8" and A: "synced ccrh A" and S: "rep3 1 S x"
  shows "\<exists>R A'. runs ring_peer cap (\<lambda>p. ringConv ccrh ell p (S p) (A p)) (\<lambda>p. Ret (R p, A' p)) \<and>
    synced ccrh A' \<and> rep3 ell R x"
proof -
  obtain s where s: "S = sharing s" "\<And>p. take_bit 1 (s p) = s p" "take_bit 1 (sum3 s) = x"
    using S by (rule rep3E) blast
  let ?r = "\<lambda>p. fst (crng ccrh ell (A p))" and ?A1 = "\<lambda>p. snd (crng ccrh ell (A p))"
  let ?v = "\<lambda>p. fst (crng ccrh ell (?A1 p))" and ?A2 = "\<lambda>p. snd (crng ccrh ell (?A1 p))"
  note c1 = crng_synced [OF A ell]
  note c2 = crng_synced [OF c1(1) ell]
  define q where "q p = (if p = P0 then ringAdd8 ell (ringMul8 ell (s p) (s (NEXT p))) (?r p) else ?r p)" for p
  define D where "D = d_of ell s q"
  define u where "u p = (case p of P0 \<Rightarrow> ?v p | P1 \<Rightarrow> ringAdd8 ell (ringMul8 ell (D p) (s (NEXT p))) (?v p)
    | P2 \<Rightarrow> ringAdd8 ell (ringMul8 ell (ringAdd8 ell (D p) (D (NEXT p))) (s p)) (?v p))" for p
  let ?E = "e_of ell s D u"
  let ?K2 = "\<lambda>p Jprod2. let e = conv_e ell p (s p) (s (NEXT p)) (D p, D (NEXT p))
      (ucast (thisShare Jprod2)) (ucast (nxtShare Jprod2)) in Ret (\<lparr>thisShare = ucast (fst e), nxtShare = ucast (snd e)\<rparr>, ?A2 p)"
  let ?K1 = "\<lambda>p Jprod01. let d = conv_d ell p (s p) (s (NEXT p)) (ucast (thisShare Jprod01)) (ucast (nxtShare Jprod01));
      (m2, a) = conv_prod2 ccrh ell p (s p) (s (NEXT p)) d (?A1 p)
      in pbind (pass_on (ucast m2)) (\<lambda>Jprod2. let e = conv_e ell p (s p) (s (NEXT p)) d (ucast (thisShare Jprod2)) (ucast (nxtShare Jprod2))
            in Ret (\<lparr>thisShare = ucast (fst e), nxtShare = ucast (snd e)\<rparr>, a))"
  have K2: "?K2 p (sharing u p) = Ret (sharing ?E p, ?A2 p)" for p
    by (simp add: conv_replicated sharing_def)
  have K1: "?K1 p (sharing q p) = pbind (pass_on (ucast (u p))) (?K2 p)" for p
    by (simp only: Let_def sharing_sel low_byte conv_replicated D_def [symmetric] split_def prod.collapse)
      (cases p; simp add: conv_prod2_def u_def Let_def split_def)
  have P: "ringConv ccrh ell p (S p) (A p) = pbind (pass_on (ucast (q p))) (?K1 p)" for p
    by (simp add: ringConv_def s(1) conv_prod01_def q_def Let_def split_def)
  have "runs ring_peer cap (\<lambda>p. ?K1 p (sharing q p)) (\<lambda>p. Ret (sharing ?E p, ?A2 p))"
    by (rule round_runs [where z = u and K = ?K2, OF cap K1]) (simp only: K2 runs_refl)
  then have run: "runs ring_peer cap (\<lambda>p. ringConv ccrh ell p (S p) (A p)) (\<lambda>p. Ret (sharing ?E p, ?A2 p))"
    by (rule round_runs [where z = q and K = ?K1, OF cap P])
  have "take_bit ell (sum3 ?E) = take_bit ell (take_bit 1 (sum3 s))"
    unfolding D_def u_def [abs_def] q_def [abs_def] by (rule conv_value [OF ell(2) s(2) c1(2) c2(2)])
  also have "\<dots> = x"
  proof -
    have "take_bit 1 x = x" using s(3) by (metis take_bit_take_bit min.idem)
    from bit_scalar [OF this] show ?thesis unfolding s(3) using ell(1) by auto
  qed
  finally have "rep3 ell (sharing ?E) x"
    using ell(2) by (intro rep3I) (auto simp: e_of_def conv_e_def Let_def ring_simps split: pid.split)
  then show ?thesis by (intro exI [of _ "sharing ?E"] exI [of _ ?A2] conjI run c2(1))
qed

section \<open>Sharing and resharing\<close>

lemma sharing_ok:
  assumes "0 < cap" "1 \<le> ell" "ell \<le> 8" "synced ccrh A"
  shows "\<exists>S A'. ends_with cap (\<lambda>p. if p = dealer then share ccrh ell x (A p) else recvShare ccrh ell (A p)) (\<lambda>p. (S p, A' p)) \<and>
    synced ccrh A' \<and> rep3 ell S (take_bit ell x)"
proof -
  let ?y = "\<lambda>p. if p = dealer then x else 0"
  let ?P = "\<lambda>p. if p = dealer then share ccrh ell x (A p) else recvShare ccrh ell (A p)"
  have "?P p = pbind (pass_on (ucast (ringAdd8 ell (?y p) (fst (crng ccrh ell (A p))))))
      (\<lambda>s. Ret (s, snd (crng ccrh ell (A p))))" for p
    using crng_synced(3) [OF assms(4,2,3), of p] assms(3)
    by (simp add: share_def recvShare_def split_def Let_def ring_simps)
  note masked_round [OF assms, of ?P, OF this]
  moreover have "sum3 ?y = x" by (cases dealer) (simp_all add: sum3_def)
  ultimately show ?thesis by simp
qed

lemma reshare_ok:
  assumes "0 < cap"
  shows "ends_with cap (\<lambda>p. reshare (z p) (A p)) (\<lambda>p. (sharing z p, A p))"
  by (rule last_round [OF assms]) (simp add: reshare_def)

section \<open>A whole computation\<close>

text \<open>Two dealers share their inputs, all multiply and open the product.\<close>

definition multiply_openly :: "ccrh \<Rightarrow> nat \<Rightarrow> int \<Rightarrow> block \<Rightarrow> block \<Rightarrow> pid \<times> byte \<Rightarrow> pid \<times> byte \<Rightarrow> pid \<Rightarrow> (side, byte) proc" where
  "multiply_openly ccrh ell sodium key cache left right p =
     (let input = (\<lambda>(dealer, x) a. if p = dealer then share ccrh ell x a else recvShare ccrh ell a)
      in pbind (aby3_new sodium key cache) (\<lambda>a.
         pbind (input left a) (\<lambda>(s, a).
         pbind (input right a) (\<lambda>(t, a).
         pbind (mul ccrh ell s t a) (\<lambda>(u, a). revealAll ell p u)))))"

lemma multiply_openly_runs:
  assumes cap: "16 \<le> cap" and sodium: "0 \<le> sodium" and ell: "1 \<le> ell" "ell \<le> 8"
  shows "ends_with cap (\<lambda>p. multiply_openly ccrh ell sodium (key p) (cache p) (dx, x) (dy, y) p) (\<lambda>_. ringMul8 ell x y)"
proof -
  have c: "0 < cap" using cap by simp
  let ?in = "\<lambda>d x p a. if p = d then share ccrh ell x a else recvShare ccrh ell a"
  let ?K4 = "\<lambda>p. \<lambda>(u, a). revealAll ell p u"
  let ?K3 = "\<lambda>p. \<lambda>(s, t, a). pbind (mul ccrh ell s t a) (?K4 p)"
  let ?K2 = "\<lambda>p. \<lambda>(s, a). pbind (?in dy y p a) (\<lambda>(t, a). ?K3 p (s, t, a))"
  let ?K1 = "\<lambda>p a. pbind (?in dx x p a) (?K2 p)"
  obtain A where A: "ends_with cap (\<lambda>p. aby3_new sodium (key p) (cache p)) A" "synced ccrh A"
    using new_ok [OF cap sodium] by blast
  obtain S B where S: "ends_with cap (\<lambda>p. ?in dx x p (A p)) (\<lambda>p. (S p, B p))" "synced ccrh B" "rep3 ell S (take_bit ell x)"
    using sharing_ok [OF c ell A(2)] by blast
  obtain T C where T: "ends_with cap (\<lambda>p. ?in dy y p (B p)) (\<lambda>p. (T p, C p))" "synced ccrh C" "rep3 ell T (take_bit ell y)"
    using sharing_ok [OF c ell S(2)] by blast
  obtain U D where U: "ends_with cap (\<lambda>p. mul ccrh ell (S p) (T p) (C p)) (\<lambda>p. (U p, D p))"
      "rep3 ell U (ringMul8 ell (take_bit ell x) (take_bit ell y))"
    using mul_ok [OF c ell T(2) S(3) T(3)] by blast
  obtain z where z: "U = sharing z" "take_bit ell (sum3 z) = ringMul8 ell (take_bit ell x) (take_bit ell y)"
    using U(2) by (rule rep3E) blast
  have xy: "ringMul8 ell (take_bit ell x) (take_bit ell y) = ringMul8 ell x y"
    using ell by (simp add: ring_simps take_bit_absorb)
  have "runs ring_peer cap (\<lambda>p. multiply_openly ccrh ell sodium (key p) (cache p) (dx, x) (dy, y) p) (\<lambda>p. ?K1 p (A p))"
    using runs_bind [OF A(1), of ?K1] by (simp add: multiply_openly_def split_def cong: if_cong)
  also have "runs ring_peer cap (\<lambda>p. ?K1 p (A p)) (\<lambda>p. ?K2 p (S p, B p))"
    by (rule runs_bind) (rule S(1))
  also have "(\<lambda>p. ?K2 p (S p, B p)) = (\<lambda>p. pbind (?in dy y p (B p)) (\<lambda>(t, a). ?K3 p (S p, t, a)))" by simp
  also have "runs ring_peer cap \<dots> (\<lambda>p. ?K3 p (S p, T p, C p))"
    using runs_bind [OF T(1), of "\<lambda>p (t, a). ?K3 p (S p, t, a)"] by simp
  also have "runs ring_peer cap (\<lambda>p. ?K3 p (S p, T p, C p)) (\<lambda>p. ?K4 p (U p, D p))"
    using runs_bind [OF U(1), of ?K4] by simp
  also have "runs ring_peer cap (\<lambda>p. ?K4 p (U p, D p)) (\<lambda>_. Ret (ringMul8 ell x y))"
    using reveal_runs [OF c ell, of z] by (simp add: z xy)
  finally show ?thesis .
qed

section \<open>Properties\<close>

lemma every_schedule:
  "\<exists>S A. ends_with cap P (\<lambda>p. (S p, A p)) \<and> Q S A \<Longrightarrow> \<exists>S A. completes ring_peer cap P (\<lambda>p. (S p, A p)) \<and> Q S A"
  by (elim exE conjE, intro exI conjI, rule ring3.runs_completes)

text \<open>C32: constructing the three parties ends in every schedule, with the keys exchanged along the
  ring and states that are synchronised for correlated randomness.\<close>

theorem key_agreement:
  assumes "16 \<le> cap" "0 \<le> sodium"
  shows "\<exists>A. completes ring_peer cap (\<lambda>p. aby3_new sodium (key p) (cache p)) A \<and> synced ccrh A \<and>
    (\<forall>p. keyThis (A p) = key p \<and> keyPrev (A p) = key (PREV p))"
proof -
  obtain A where A: "ends_with cap (\<lambda>p. aby3_new sodium (key p) (cache p)) A" "synced ccrh A" "\<And>p. keyThis (A p) = key p"
    using new_ok [OF assms] by blast
  then have "keyPrev (A p) = key (PREV p)" for p unfolding synced_def by (auto simp: A(3))
  with A show ?thesis by (intro exI [of _ A] conjI ring3.runs_completes) simp_all
qed

theorem key_agreement_witness:
  "\<exists>A. completes ring_peer 16 (\<lambda>p. aby3_new 0 (case p of P0 \<Rightarrow> 11 | P1 \<Rightarrow> 22 | P2 \<Rightarrow> 33) 0) A \<and> synced (XOR) A \<and>
    (\<forall>p. keyThis (A p) = (case p of P0 \<Rightarrow> 11 | P1 \<Rightarrow> 22 | P2 \<Rightarrow> 33) \<and>
      keyPrev (A p) = (case PREV p of P0 \<Rightarrow> 11 | P1 \<Rightarrow> 22 | P2 \<Rightarrow> 33))"
  by (rule key_agreement [where key = "\<lambda>p. case p of P0 \<Rightarrow> 11 | P1 \<Rightarrow> 22 | P2 \<Rightarrow> 33" and cache = "\<lambda>_. 0"]) simp_all

text \<open>What synchronised parties draw adds up to 0 modulo \<open>2 ^ ell\<close>, whichever party's randomness
  stands at the front of the cache, and they stay synchronised.\<close>

theorem correlated_randomness:
  assumes "synced ccrh A" "1 \<le> ell" "ell \<le> 8"
  shows "take_bit ell (fst (crng ccrh ell (A P0)) + fst (crng ccrh ell (A P1)) + fst (crng ccrh ell (A P2))) = 0 \<and>
    synced ccrh (\<lambda>p. snd (crng ccrh ell (A p)))"
  using crng_synced [OF assms] by (simp add: zero3_def)

definition fresh :: "pid \<Rightarrow> aby3" where
  "fresh p = \<lparr>cRngId = 5, keyThis = (case p of P0 \<Rightarrow> 11 | P1 \<Rightarrow> 22 | P2 \<Rightarrow> 33),
     keyPrev = (case PREV p of P0 \<Rightarrow> 11 | P1 \<Rightarrow> 22 | P2 \<Rightarrow> 33), crngCache = 0, crngPtr = 128, crngIsXor = False\<rparr>"

lemma fresh_synced: "synced ccrh fresh"
  unfolding synced_def by (intro exI [of _ 5] exI [of _ 128] exI [of _ False]) (simp add: fresh_def)

theorem correlated_randomness_witness:
  "take_bit 3 (fst (crng (XOR) 3 (fresh P0)) + fst (crng (XOR) 3 (fresh P1)) + fst (crng (XOR) 3 (fresh P2))) = 0 \<and>
    synced (XOR) (\<lambda>p. snd (crng (XOR) 3 (fresh p)))"
  by (rule correlated_randomness [OF fresh_synced]) simp_all

text \<open>A dealer's value shared by \<open>share\<close>, the others calling \<open>recvShare\<close>, ends in every schedule
  with a replicated sharing of that value.\<close>

theorem secret_sharing:
  assumes "0 < cap" "1 \<le> ell" "ell \<le> 8" "synced ccrh A"
  shows "\<exists>S A'. completes ring_peer cap
      (\<lambda>p. if p = dealer then share ccrh ell x (A p) else recvShare ccrh ell (A p)) (\<lambda>p. (S p, A' p)) \<and>
    synced ccrh A' \<and> rep3 ell S (take_bit ell x)"
  by (rule every_schedule) (rule sharing_ok [OF assms])

theorem secret_sharing_witness:
  "\<exists>S A'. completes ring_peer 1
      (\<lambda>p. if p = P1 then share (XOR) 4 13 (fresh p) else recvShare (XOR) 4 (fresh p)) (\<lambda>p. (S p, A' p)) \<and>
    synced (XOR) A' \<and> rep3 4 S (take_bit 4 13)"
  by (rule secret_sharing [OF _ _ _ fresh_synced]) simp_all

text \<open>Multiplication turns replicated sharings of \<open>x\<close> and \<open>y\<close> into one of the product in the
  ring, in every schedule; addition and subtraction do so without communication.\<close>

theorem share_arithmetic:
  assumes "0 < cap" "1 \<le> ell" "ell \<le> 8" "synced ccrh A" "rep3 ell S x" "rep3 ell T y"
  shows "(\<exists>R A'. completes ring_peer cap (\<lambda>p. mul ccrh ell (S p) (T p) (A p)) (\<lambda>p. (R p, A' p)) \<and>
      synced ccrh A' \<and> rep3 ell R (ringMul8 ell x y)) \<and>
    rep3 ell (\<lambda>p. add ell (S p) (T p)) (ringAdd8 ell x y) \<and>
    rep3 ell (\<lambda>p. sub ell (S p) (T p)) (ringSub8 ell x y)"
  by (intro conjI every_schedule mul_ok local_ops) (rule assms)+

definition split3 :: "byte \<Rightarrow> byte \<Rightarrow> byte \<Rightarrow> pid \<Rightarrow> ShrRep3ShareScalar" where
  "split3 x y z = sharing (\<lambda>p. case p of P0 \<Rightarrow> x | P1 \<Rightarrow> y | P2 \<Rightarrow> z)"

lemma split3: "take_bit ell x = x \<Longrightarrow> take_bit ell y = y \<Longrightarrow> take_bit ell z = z \<Longrightarrow> rep3 ell (split3 x y z) (take_bit ell (x + y + z))"
  unfolding split3_def by (rule rep3I) (simp_all add: sum3_def split: pid.split)

theorem share_arithmetic_witness:
  "(\<exists>R A'. completes ring_peer 1 (\<lambda>p. mul (XOR) 4 (split3 1 2 3 p) (split3 4 5 15 p) (fresh p)) (\<lambda>p. (R p, A' p)) \<and>
      synced (XOR) A' \<and> rep3 4 R (ringMul8 4 (take_bit 4 (1 + 2 + 3)) (take_bit 4 (4 + 5 + 15)))) \<and>
    rep3 4 (\<lambda>p. add 4 (split3 1 2 3 p) (split3 4 5 15 p)) (ringAdd8 4 (take_bit 4 (1 + 2 + 3)) (take_bit 4 (4 + 5 + 15))) \<and>
    rep3 4 (\<lambda>p. sub 4 (split3 1 2 3 p) (split3 4 5 15 p)) (ringSub8 4 (take_bit 4 (1 + 2 + 3)) (take_bit 4 (4 + 5 + 15)))"
  by (rule share_arithmetic [OF _ _ _ fresh_synced split3 split3]) (simp_all add: take_bit_eq_mod)

text \<open>\<open>revealAll\<close> gives every party the shared value, in every schedule.\<close>

theorem reveal_all:
  assumes "0 < cap" "1 \<le> ell" "ell \<le> 8" "rep3 ell S x"
  shows "completes ring_peer cap (\<lambda>p. revealAll ell p (S p)) (\<lambda>_. x)"
  using assms(4) reveal_runs [OF assms(1-3)] by (auto elim!: rep3E intro!: ring3.runs_completes)

theorem reveal_all_witness: "completes ring_peer 1 (\<lambda>p. revealAll 4 p (split3 4 5 15 p)) (\<lambda>_. take_bit 4 (4 + 5 + 15))"
  by (rule reveal_all [OF _ _ _ split3]) (simp_all add: take_bit_eq_mod)

text \<open>\<open>ringConv\<close> turns a sharing of a bit into a sharing of the same value modulo
  \<open>2 ^ ell\<close>, in every schedule.\<close>

theorem bit_conversion:
  assumes "0 < cap" "1 \<le> ell" "ell \<le> 8" "synced ccrh A" "rep3 1 S x"
  shows "\<exists>R A'. completes ring_peer cap (\<lambda>p. ringConv ccrh ell p (S p) (A p)) (\<lambda>p. (R p, A' p)) \<and>
    synced ccrh A' \<and> rep3 ell R x"
  by (rule every_schedule) (rule ringConv_runs [OF assms])

theorem bit_conversion_witness:
  "\<exists>R A'. completes ring_peer 1 (\<lambda>p. ringConv (XOR) 5 p (split3 1 1 1 p) (fresh p)) (\<lambda>p. (R p, A' p)) \<and>
    synced (XOR) A' \<and> rep3 5 R (take_bit 1 (1 + 1 + 1))"
  by (rule bit_conversion [OF _ _ _ fresh_synced split3]) simp_all

text \<open>C8: the whole computation, from the construction of the parties on: both inputs shared,
  multiplied and opened, every party ends with the product in every schedule.\<close>

theorem secure_multiplication:
  assumes "16 \<le> cap" "0 \<le> sodium" "1 \<le> ell" "ell \<le> 8"
  shows "completes ring_peer cap (\<lambda>p. multiply_openly ccrh ell sodium (key p) (cache p) (dx, x) (dy, y) p)
    (\<lambda>_. ringMul8 ell x y)"
  by (rule ring3.runs_completes, rule multiply_openly_runs [OF assms])

theorem secure_multiplication_witness:
  "completes ring_peer 16 (\<lambda>p. multiply_openly (XOR) 4 0 (case p of P0 \<Rightarrow> 11 | P1 \<Rightarrow> 22 | P2 \<Rightarrow> 33) 0 (P0, 7) (P2, 6) p)
    (\<lambda>_. ringMul8 4 7 6)"
  by (rule secure_multiplication [where key = "\<lambda>p. case p of P0 \<Rightarrow> 11 | P1 \<Rightarrow> 22 | P2 \<Rightarrow> 33" and cache = "\<lambda>_. 0"]) simp_all

end
