(* ===== verification/Aby3_Vec_Theorems.thy ===== *)
theory Aby3_Vec_Theorems
  imports Aby3_Vec_Facts Aby3_Theorems
begin

text \<open>
  The properties of the vector protocols: sharing, products, inner products and opening of whole
  vectors, for every length of the vectors, every capacity of the channels and every schedule.
\<close>

section \<open>Inner products\<close>

lemma sum_cong_low:
  fixes f g :: "nat \<Rightarrow> byte"
  assumes "ell \<le> 8" "\<And>i. i < n \<Longrightarrow> take_bit ell (f i) = take_bit ell (g i)"
  shows "take_bit ell (\<Sum>i<n. f i) = take_bit ell (\<Sum>i<n. g i)"
  using assms(2) by (induction n) (auto intro: take_bit_cong [OF assms(1)])

lemma uint_sum_mod:
  fixes f :: "nat \<Rightarrow> byte"
  shows "ell \<le> 8 \<Longrightarrow> uint (take_bit ell (\<Sum>i<n. f i)) = (\<Sum>i<n. uint (f i)) mod 2 ^ ell"
proof (induction n)
  case (Suc n)
  have "uint (take_bit ell (\<Sum>i<Suc n. f i)) = (uint (take_bit ell (\<Sum>i<n. f i)) + uint (f n)) mod 2 ^ ell"
    using Suc.prems uint_take_bit_ops(1) [of ell "take_bit ell (\<Sum>i<n. f i)" "f n"] by (simp add: take_bit_absorb)
  then show ?case using Suc by (simp add: mod_simps)
qed simp

lemma dot_at:
  assumes at: "vec_at ell st a xs" "vec_at ell st b ys" "length ys = length xs" and c: "ell = 1 \<Longrightarrow> canon ell (st a) \<or> canon ell (st b)"
  shows "dot ell (st a) (st b) = Inr (take_bit ell (\<Sum>i<length xs. xs ! i * ys ! i))"
proof -
  have ok: "rv_ok ell (st a)" "rv_ok ell (st b)" "n_elems (st a) = length xs" "n_elems (st b) = length xs" and ell: "ell \<le> 8"
    using at vec_at_length vec_at_ell by (auto simp: vec_at_def)
  obtain r where r: "dot ell (st a) (st b) = Inr r"
    "uint r = (\<Sum>i\<leftarrow>[0..<length xs]. uint (elem ell (st a) i) * uint (elem ell (st b) i)) mod 2 ^ ell"
    using dot_bits [OF ok(1) _ ok(2)] dot_bytes [OF ok(1) _ ok(2)] ok(3,4) c by (cases "ell = 1") auto
  have "uint (take_bit ell (\<Sum>i<length xs. xs ! i * ys ! i)) = (\<Sum>i<length xs. uint (xs ! i * ys ! i)) mod 2 ^ ell"
    by (rule uint_sum_mod [OF ell])
  also have "\<dots> = (\<Sum>i<length xs. uint (xs ! i) * uint (ys ! i)) mod 2 ^ ell"
  proof -
    have "uint (x * y) mod 2 ^ ell = uint x * uint y mod 2 ^ ell" for x y :: byte
      using uint_take_bit_ops(3) [of ell x y] ell by (simp add: uint_take_bit_mod)
    then show ?thesis by (subst (1 2) mod_sum_eq [symmetric]) simp
  qed
  also have "\<dots> = uint r"
    unfolding r(2) interv_sum_list_conv_sum_set_nat atLeast0LessThan
    using vec_at_elem [OF at(1)] vec_at_elem [OF at(2)] at(3) by (intro arg_cong2 [where f = "(mod)"] sum.cong) auto
  finally show ?thesis using r(1) by (metis word_uint_eqI)
qed

lemma dot_runs:
  assumes cap: "0 < cap" and A: "synced ccrh A"
    and UW: "rep3_vec ell St U xs" "rep3_vec ell St W ys" "length ys = length xs"
    and c: "\<And>p. ell = 1 \<Longrightarrow> canon ell (St p (thisShare (U p))) \<and> canon ell (St p (nxtShare (U p)))"
  shows "\<exists>S A'. ends_with cap (\<lambda>p. aby3_dot ccrh ell (U p) (W p) (St p) (A p)) (\<lambda>p. (S p, A' p)) \<and> synced ccrh A' \<and>
    rep3 ell S (take_bit ell (\<Sum>i<length xs. xs ! i * ys ! i))"
proof -
  obtain s t where s: "vsharing ell St U s" "sums_to ell s xs" and t: "vsharing ell St W t" "sums_to ell t ys"
    using UW(1,2) unfolding rep3_vec_def by blast
  have len: "length (s p) = length xs" "length (t p) = length xs" for p using s(2) t(2) UW(3) by (simp_all add: sums_to_def)
  note at = s(1) [unfolded vsharing_def, rule_format] t(1) [unfolded vsharing_def, rule_format]
  have ell: "1 \<le> ell" "ell \<le> 8" using vec_at_ell at(1) by blast+
  let ?D = "\<lambda>x y. take_bit ell (\<Sum>i<length xs. x ! i * y ! i)"
  define y where "y p = ringAdd8 ell (ringAdd8 ell (?D (s p) (t p)) (?D (s p) (t (NEXT p)))) (?D (s (NEXT p)) (t p))" for p
  have d: "dot ell (St p (thisShare (U p))) (St p (thisShare (W p))) = Inr (?D (s p) (t p))"
    "dot ell (St p (thisShare (U p))) (St p (nxtShare (W p))) = Inr (?D (s p) (t (NEXT p)))"
    "dot ell (St p (nxtShare (U p))) (St p (thisShare (W p))) = Inr (?D (s (NEXT p)) (t p))" for p
    using dot_at [of ell "St p" "thisShare (U p)" "s p" "thisShare (W p)" "t p"]
      dot_at [of ell "St p" "thisShare (U p)" "s p" "nxtShare (W p)" "t (NEXT p)"]
      dot_at [of ell "St p" "nxtShare (U p)" "s (NEXT p)" "thisShare (W p)" "t p"] at [of p] len c [of p] by auto
  have P: "aby3_dot ccrh ell (U p) (W p) (St p) (A p) = pbind (pass_on (ucast (ringAdd8 ell (y p) (fst (crng ccrh ell (A p))))))
      (\<lambda>s. Ret (s, snd (crng ccrh ell (A p))))" for p
    by (simp add: aby3_dot_def d y_def split_def Let_def)
  have "take_bit ell (sum3 y) = ?D xs ys"
  proof -
    have "take_bit ell (sum3 y) = take_bit ell (sum3 (\<lambda>p. (\<Sum>i<length xs. s p ! i * t p ! i + s p ! i * t (NEXT p) ! i + s (NEXT p) ! i * t p ! i)))"
      using ell(2) by (intro sum3_cong) (simp_all add: y_def ring_simps take_bit_absorb sum.distrib)
    also have "sum3 (\<lambda>p. (\<Sum>i<length xs. s p ! i * t p ! i + s p ! i * t (NEXT p) ! i + s (NEXT p) ! i * t p ! i)) =
        (\<Sum>i<length xs. sum3 (\<lambda>p. s p ! i) * sum3 (\<lambda>p. t p ! i))"
      unfolding sum3_def sum.distrib [symmetric] by (rule sum.cong) (simp_all add: algebra_simps)
    also have "take_bit ell \<dots> = ?D xs ys"
      using s(2) t(2) UW(3) by (intro sum_cong_low take_bit_cong ell) (simp_all add: sums_to_sum3)
    finally show ?thesis .
  qed
  then show ?thesis using masked_round [OF cap ell A P] by simp
qed

section \<open>Local operations and resharing\<close>

text \<open>The output object of \<open>add\<close> and \<open>sub\<close> may be an input.\<close>

definition no_overlap :: "ShrRep3ShareVec \<Rightarrow> ShrRep3ShareVec \<Rightarrow> bool" where
  "no_overlap v w \<longleftrightarrow> thisShare v \<noteq> nxtShare v \<and> (v = w \<or> apart v w)"

lemma two_steps:
  assumes K: "\<And>st a b out xs ys zs. vec_at ell st a xs \<Longrightarrow> vec_at ell st b ys \<Longrightarrow> vec_at ell st out zs \<Longrightarrow>
      length xs = length zs \<Longrightarrow> length ys = length zs \<Longrightarrow>
      \<exists>v. K a b out st = Inr (st(out := v)) \<and> rv_ok ell v \<and> elems ell v = map2 f xs ys"
    and V: "no_overlap V U" "no_overlap V W"
    and U: "vec_at ell st (thisShare U) x0" "vec_at ell st (nxtShare U) x1"
    and W: "vec_at ell st (thisShare W) y0" "vec_at ell st (nxtShare W) y1"
    and out: "vec_at ell st (thisShare V) o0" "vec_at ell st (nxtShare V) o1"
    and len: "length x0 = n" "length x1 = n" "length y0 = n" "length y1 = n" "length o0 = n" "length o1 = n"
  shows "\<exists>st'. rbind (K (thisShare U) (thisShare W) (thisShare V) st) (K (nxtShare U) (nxtShare W) (nxtShare V)) = Inr st' \<and>
    vec_at ell st' (thisShare V) (map2 f x0 y0) \<and> vec_at ell st' (nxtShare V) (map2 f x1 y1) \<and>
    (\<forall>r. r \<notin> {thisShare V, nxtShare V} \<longrightarrow> st' r = st r)"
proof -
  have ne: "thisShare V \<noteq> nxtShare V" "thisShare V \<noteq> nxtShare U" "thisShare V \<noteq> nxtShare W"
    using V by (auto simp: no_overlap_def apart_def)
  obtain v where v: "K (thisShare U) (thisShare W) (thisShare V) st = Inr (st(thisShare V := v))" "rv_ok ell v" "elems ell v = map2 f x0 y0"
    using K [OF U(1) W(1) out(1)] len by auto
  let ?s = "st(thisShare V := v)"
  have "vec_at ell ?s (nxtShare U) x1" "vec_at ell ?s (nxtShare W) y1" "vec_at ell ?s (nxtShare V) o1"
    using U W out ne by simp_all
  from K [OF this] obtain w where "K (nxtShare U) (nxtShare W) (nxtShare V) ?s = Inr (?s(nxtShare V := w))" "rv_ok ell w"
    "elems ell w = map2 f x1 y1" using len by auto
  then show ?thesis using v ne by (intro exI [of _ "?s(nxtShare V := w)"]) simp
qed

lemma sums_to_map2:
  assumes ell: "ell \<le> 8" and s: "sums_to ell s xs" "sums_to ell t ys" "length ys = length xs"
  shows "sums_to ell (\<lambda>p. map2 (ringAdd8 ell) (s p) (t p)) (map2 (ringAdd8 ell) xs ys)"
    "sums_to ell (\<lambda>p. map2 (ringSub8 ell) (s p) (t p)) (map2 (ringSub8 ell) xs ys)"
proof -
  have "take_bit ell (sum3 (\<lambda>p. ringAdd8 ell (s p ! i) (t p ! i))) = take_bit ell (ringAdd8 ell (xs ! i) (ys ! i)) \<and>
      take_bit ell (sum3 (\<lambda>p. ringSub8 ell (s p ! i) (t p ! i))) = take_bit ell (ringSub8 ell (xs ! i) (ys ! i))"
    if i: "i < length xs" for i
  proof -
    have "take_bit ell (sum3 (\<lambda>p. s p ! i)) = take_bit ell (xs ! i)" "take_bit ell (sum3 (\<lambda>p. t p ! i)) = take_bit ell (ys ! i)"
      using s i by (simp_all add: sums_to_sum3)
    note c = take_bit_cong [OF ell this]
    have "take_bit ell (sum3 (\<lambda>p. ringAdd8 ell (s p ! i) (t p ! i))) = take_bit ell (sum3 (\<lambda>p. s p ! i + t p ! i))"
      "take_bit ell (sum3 (\<lambda>p. ringSub8 ell (s p ! i) (t p ! i))) = take_bit ell (sum3 (\<lambda>p. s p ! i - t p ! i))"
      using ell by (auto intro!: sum3_cong simp: ring_simps)
    moreover have "sum3 (\<lambda>p. s p ! i + t p ! i) = sum3 (\<lambda>p. s p ! i) + sum3 (\<lambda>p. t p ! i)"
      "sum3 (\<lambda>p. s p ! i - t p ! i) = sum3 (\<lambda>p. s p ! i) - sum3 (\<lambda>p. t p ! i)" by (simp_all add: sum3_def)
    ultimately show ?thesis using c ell by (simp add: ring_simps)
  qed
  then show "sums_to ell (\<lambda>p. map2 (ringAdd8 ell) (s p) (t p)) (map2 (ringAdd8 ell) xs ys)"
    "sums_to ell (\<lambda>p. map2 (ringSub8 ell) (s p) (t p)) (map2 (ringSub8 ell) xs ys)"
    using s by (auto simp: sums_to_sum3)
qed

lemma gather_frame:
  assumes "\<forall>p. \<exists>st'. F p = Inr st' \<and> vec_at ell st' (thisShare (V p)) (z p) \<and> vec_at ell st' (nxtShare (V p)) (z' p) \<and> G p st'"
    and "\<And>p. z' p = z (NEXT p)" "sums_to ell z xs"
  shows "\<exists>St'. (\<forall>p. F p = Inr (St' p)) \<and> rep3_vec ell St' V xs \<and> (\<forall>p. G p (St' p))"
proof -
  obtain St' where "\<And>p. F p = Inr (St' p)" "\<And>p. vec_at ell (St' p) (thisShare (V p)) (z p)"
    "\<And>p. vec_at ell (St' p) (nxtShare (V p)) (z' p)" "\<And>p. G p (St' p)" using choice [OF assms(1)] by blast
  then show ?thesis using assms(2,3) unfolding rep3_vec_def vsharing_def
    by (intro exI [of _ St'] conjI allI exI [of _ z]) simp_all
qed

lemma gather:
  assumes "\<forall>p. \<exists>st'. F p = Inr st' \<and> vec_at ell st' (thisShare (V p)) (z p) \<and> vec_at ell st' (nxtShare (V p)) (z' p) \<and> G p st'"
    and "\<And>p. z' p = z (NEXT p)" "sums_to ell z xs"
  shows "\<exists>St'. (\<forall>p. F p = Inr (St' p)) \<and> rep3_vec ell St' V xs"
  using gather_frame [OF assms] by blast

lemma linear_steps:
  assumes ov: "no_overlap V U" "no_overlap V W"
    and U: "vec_at ell st (thisShare U) x0" "vec_at ell st (nxtShare U) x1"
    and W: "vec_at ell st (thisShare W) y0" "vec_at ell st (nxtShare W) y1"
    and V: "vec_at ell st (thisShare V) o0" "vec_at ell st (nxtShare V) o1"
    and len: "length x0 = n" "length x1 = n" "length y0 = n" "length y1 = n" "length o0 = n" "length o1 = n"
  shows "\<exists>st'. add_vec ell U W V st = Inr st' \<and> vec_at ell st' (thisShare V) (map2 (ringAdd8 ell) x0 y0) \<and>
      vec_at ell st' (nxtShare V) (map2 (ringAdd8 ell) x1 y1) \<and> (\<forall>r. r \<notin> {thisShare V, nxtShare V} \<longrightarrow> st' r = st r)"
    "\<exists>st'. sub_vec ell U W V st = Inr st' \<and> vec_at ell st' (thisShare V) (map2 (ringSub8 ell) x0 y0) \<and>
      vec_at ell st' (nxtShare V) (map2 (ringSub8 ell) x1 y1) \<and> (\<forall>r. r \<notin> {thisShare V, nxtShare V} \<longrightarrow> st' r = st r)"
  unfolding add_vec_def sub_vec_def
  by (rule two_steps [where K = "rv_add ell", OF add_at ov U W V len]; assumption)
    (rule two_steps [where K = "rv_sub ell", OF sub_at ov U W V len]; assumption)

lemma reshare_vec_runs:
  assumes cap: "0 < cap" and heap: "\<forall>k. heap k \<noteq> None"
    and V: "\<And>p. thisShare (V p) \<noteq> nxtShare (V p)" "\<And>p. vec p \<noteq> thisShare (V p)"
    and at: "\<And>p. vec_at ell (St p) (vec p) (z p)" "\<And>p. vec_at ell (St p) (nxtShare (V p)) (u p)"
      "\<And>p. length (z p) = length xs" "\<And>p. length (u p) = length xs"
    and sum: "sums_to ell z xs"
  shows "\<exists>St'. ends_with cap (\<lambda>p. reshare_vec heap ell (vec p) (V p) (St p) (A p)) (\<lambda>p. (St' p, A p)) \<and> rep3_vec ell St' V xs \<and>
    (\<forall>p r. r \<noteq> thisShare (V p) \<longrightarrow> r \<noteq> nxtShare (V p) \<longrightarrow> St' p r = St p r)"
proof -
  let ?L = "\<lambda>p. rbind (rv_copy_assign ell heap (thisShare (V p)) (vec p) (St p)) (\<lambda>st. Inr (st, A p))"
  let ?St = "\<lambda>p. (St p)(thisShare (V p) := St p (vec p))"
  have "\<exists>St'. ends_with cap (\<lambda>p. reshare_vec heap ell (vec p) (V p) (St p) (A p)) (\<lambda>p. (St' p, A p)) \<and> vsharing ell St' V z \<and>
      (\<forall>p r. r \<noteq> nxtShare (V p) \<longrightarrow> St' p r = ?St p r)"
  proof (rule finish_vec [where n = "length xs" and u = u and L = ?L and St = ?St and z = z, OF cap V(1)])
    show "reshare_vec heap ell (vec p) (V p) (St p) (A p) = pbind (lift_res (?L p)) (pass_on_vec ell (V p))" for p
      using V(2) by (simp add: reshare_vec_def)
    show "?L p = Inr (?St p, A p)" for p
      using rv_copy_ok [OF _ heap, of ell "St p (vec p)"] at(1) [of p] V(2) [of p]
      by (auto simp: rv_copy_assign_def rv_move_def vec_at_def)
    show "vec_at ell (?St p) (thisShare (V p)) (z p)" "vec_at ell (?St p) (nxtShare (V p)) (u p)" for p
      using at(1,2) [of p] V(1) [of p] by (simp_all add: vec_at_def)
  qed (rule at)+
  then show ?thesis using sum unfolding rep3_vec_def by fastforce
qed

section \<open>Properties\<close>

text \<open>C26: what the vector generators of synchronised parties leave in vectors of one length adds
  up to 0 element by element (for bits: XORs to 0), and the parties stay synchronised.\<close>

theorem correlated_vectors:
  assumes "synced ccrh A" "\<And>p. rv_ok ell (v p)" "\<And>p. n_elems (v p) = n"
  shows "\<exists>v' A'. (\<forall>p. crng_vec ccrh ell (v p) (A p) = Inr (v' p, A' p) \<and> rv_ok ell (v' p)) \<and> synced ccrh A' \<and>
    sums_to ell (\<lambda>p. elems ell (v' p)) (replicate n 0)"
proof -
  obtain v' A' where "\<And>p. crng_vec ccrh ell (v p) (A p) = Inr (v' p, A' p)" "synced ccrh A'"
    "\<And>p. rv_ok ell (v' p)" "sums_to ell (\<lambda>p. elems ell (v' p)) (replicate n 0)"
    by (rule crng_vec_synced [OF assms]) (rule that, assumption+)
  then show ?thesis by blast
qed

definition bytes_vec :: "byte list \<Rightarrow> rvec" where
  "bytes_vec xs = \<lparr>n_elems = length xs, n_words = length xs, d64 = [], d8 = xs\<rparr>"

lemma bytes_vec: "length xs + 63 < 2 ^ 64 \<Longrightarrow> rv_ok 8 (bytes_vec xs)" "elems 8 (bytes_vec xs) = xs"
  "n_elems (bytes_vec xs) = length xs"
  by (auto simp: bytes_vec_def rv_ok_byte elem_byte intro!: nth_equalityI)

theorem correlated_vectors_witness:
  "\<exists>v' A'. (\<forall>p. crng_vec (XOR) 8 (bytes_vec [1, 2, 3]) (fresh p) = Inr (v' p, A' p) \<and> rv_ok 8 (v' p)) \<and> synced (XOR) A' \<and>
    sums_to 8 (\<lambda>p. elems 8 (v' p)) (replicate 3 0)"
  by (rule correlated_vectors [OF fresh_synced]) (simp_all add: bytes_vec)

text \<open>Objects 0 to 3 hold two share vectors, object 4 a plain one.\<close>

definition cells :: "pid \<Rightarrow> store" where
  "cells p = (let z = (\<lambda>p. case p of P0 \<Rightarrow> [1, 2] | P1 \<Rightarrow> [3, 4] | P2 \<Rightarrow> [250, 6])
     in (\<lambda>r. bytes_vec (if r = 0 then z p else if r = 1 then z (NEXT p) else [7, 9])))"

abbreviation "v01 \<equiv> \<lparr>thisShare = 0, nxtShare = 1 :: nat\<rparr>"
abbreviation "v23 \<equiv> \<lparr>thisShare = 2, nxtShare = 3 :: nat\<rparr>"

lemma cells_sharing: "rep3_vec 8 cells (\<lambda>_. v01) [254, 12]"
  unfolding rep3_vec_def vsharing_def vec_at_def
  by (rule exI [of _ "\<lambda>p. case p of P0 \<Rightarrow> [1, 2] | P1 \<Rightarrow> [3, 4] | P2 \<Rightarrow> [250, 6]"])
    (auto simp: cells_def Let_def bytes_vec sums_to_def less_Suc_eq split: pid.split)

lemma cells_at: "2 \<le> r \<Longrightarrow> vec_at 8 (cells p) r [7, 9]"
  by (simp add: vec_at_def cells_def bytes_vec Let_def)

text \<open>Sharing a vector: the dealer calls \<open>share\<close>, the others \<open>recvShare\<close>, and every schedule
  ends with a replicated sharing of the dealer's elements.\<close>

theorem vector_sharing:
  assumes "0 < cap" "synced ccrh A" "\<And>p. thisShare (V p) \<noteq> nxtShare (V p)"
    and "vec \<noteq> thisShare (V dealer)" "vec_at ell (St dealer) vec xs"
    and "\<And>p. vec_at ell (St p) (thisShare (V p)) (z p)" "\<And>p. vec_at ell (St p) (nxtShare (V p)) (u p)"
      "\<And>p. length (z p) = length xs" "\<And>p. length (u p) = length xs"
  shows "\<exists>St' A'. completes ring_peer cap (\<lambda>p. if p = dealer then share_vec ccrh ell vec (V p) (St p) (A p)
      else recvShare_vec ccrh ell (V p) (St p) (A p)) (\<lambda>p. (St' p, A' p)) \<and> synced ccrh A' \<and> rep3_vec ell St' V xs"
  by (rule every_schedule, rule share_vec_local [where z = z and u = u]) (rule assms)+

theorem vector_sharing_witness:
  "\<exists>St' A'. completes ring_peer 1 (\<lambda>p. if p = P1 then share_vec (XOR) 8 4 v23 (cells p) (fresh p)
      else recvShare_vec (XOR) 8 v23 (cells p) (fresh p)) (\<lambda>p. (St' p, A' p)) \<and> synced (XOR) A' \<and> rep3_vec 8 St' (\<lambda>_. v23) [7, 9]"
  by (rule vector_sharing [OF _ fresh_synced _ _ cells_at cells_at cells_at]) simp_all

text \<open>C9: \<open>hadamard\<close> turns sharings of two vectors into a sharing of their products, in every
  schedule; the output object is neither input.\<close>

theorem vector_product:
  assumes "0 < cap" "synced ccrh A" "\<And>p. apart (V p) (U p)" "\<And>p. apart (V p) (W p)" "\<And>p. thisShare (V p) \<noteq> nxtShare (V p)"
    and "rep3_vec ell St U xs" "rep3_vec ell St W ys" "length ys = length xs"
    and "\<And>p. vec_at ell (St p) (thisShare (V p)) (z p)" "\<And>p. vec_at ell (St p) (nxtShare (V p)) (u p)"
      "\<And>p. length (z p) = length xs" "\<And>p. length (u p) = length xs"
  shows "\<exists>St' A'. completes ring_peer cap (\<lambda>p. hadamard ccrh ell (U p) (W p) (V p) (St p) (A p)) (\<lambda>p. (St' p, A' p)) \<and>
    synced ccrh A' \<and> rep3_vec ell St' V (map2 (ringMul8 ell) xs ys)"
  by (rule every_schedule) (rule hadamard_ok [OF assms])

theorem vector_product_witness:
  "\<exists>St' A'. completes ring_peer 1 (\<lambda>p. hadamard (XOR) 8 v01 v01 v23 (cells p) (fresh p)) (\<lambda>p. (St' p, A' p)) \<and>
    synced (XOR) A' \<and> rep3_vec 8 St' (\<lambda>_. v23) (map2 (ringMul8 8) [254, 12] [254, 12])"
  by (rule vector_product [OF _ fresh_synced _ _ _ cells_sharing cells_sharing _ cells_at cells_at])
    (simp_all add: apart_def)

text \<open>\<open>dot\<close> gives a scalar sharing of the inner product.\<close>

theorem inner_product:
  assumes "0 < cap" "synced ccrh A"
    and "rep3_vec ell St U xs" "rep3_vec ell St W ys" "length ys = length xs"
    and "\<And>p. ell = 1 \<Longrightarrow> canon ell (St p (thisShare (U p))) \<and> canon ell (St p (nxtShare (U p)))"
  shows "\<exists>S A'. completes ring_peer cap (\<lambda>p. aby3_dot ccrh ell (U p) (W p) (St p) (A p)) (\<lambda>p. (S p, A' p)) \<and> synced ccrh A' \<and>
    rep3 ell S (take_bit ell (\<Sum>i<length xs. xs ! i * ys ! i))"
  by (rule every_schedule) (rule dot_runs [OF assms])

theorem inner_product_witness:
  "\<exists>S A'. completes ring_peer 1 (\<lambda>p. aby3_dot (XOR) 8 v01 v01 (cells p) (fresh p)) (\<lambda>p. (S p, A' p)) \<and> synced (XOR) A' \<and>
    rep3 8 S (take_bit 8 (\<Sum>i<length [254 :: byte, 12]. [254, 12] ! i * [254, 12] ! i))"
  by (rule inner_product [OF _ fresh_synced cells_sharing cells_sharing]) simp_all

text \<open>C30: opening a vector gives every party the shared elements in its output vector and
  changes nothing else.\<close>

theorem vector_reveal:
  assumes "0 < cap" "rep3_vec ell St V xs" "\<forall>k. heap k \<noteq> None"
    and "\<And>p. vec_at ell (St p) (out p) (u p)" "\<And>p. length (u p) = length xs"
    and "out P0 \<noteq> thisShare (V P0)" "out P0 \<noteq> nxtShare (V P0)"
  shows "\<exists>St'. completes ring_peer cap (\<lambda>p. revealAll_vec heap ell p (V p) (out p) (St p)) St' \<and>
    (\<forall>p. vec_at ell (St' p) (out p) (map (take_bit ell) xs) \<and> (\<forall>r. r \<noteq> out p \<longrightarrow> St' p r = St p r))"
  using reveal_vec_runs [OF assms] by (elim exE conjE) (intro exI conjI ring3.runs_completes)

theorem vector_reveal_witness:
  "\<exists>St'. completes ring_peer 1 (\<lambda>p. revealAll_vec (\<lambda>_. Some (\<lambda>_. 0)) 8 p v01 4 (cells p)) St' \<and>
    (\<forall>p. vec_at 8 (St' p) 4 (map (take_bit 8) [254, 12]) \<and> (\<forall>r. r \<noteq> 4 \<longrightarrow> St' p r = cells p r))"
  by (rule vector_reveal [OF _ cells_sharing _ cells_at]) simp_all

text \<open>Adding and subtracting shared vectors is local, also when the output object is an
  input, and gives sharings of the element-wise sums and differences.\<close>

theorem vector_linear:
  assumes "\<And>p. no_overlap (V p) (U p)" "\<And>p. no_overlap (V p) (W p)"
    and "rep3_vec ell St U xs" "rep3_vec ell St W ys" "length ys = length xs"
    and "\<And>p. vec_at ell (St p) (thisShare (V p)) (z p)" "\<And>p. vec_at ell (St p) (nxtShare (V p)) (u p)"
      "\<And>p. length (z p) = length xs" "\<And>p. length (u p) = length xs"
  shows "(\<exists>St'. (\<forall>p. add_vec ell (U p) (W p) (V p) (St p) = Inr (St' p)) \<and> rep3_vec ell St' V (map2 (ringAdd8 ell) xs ys)) \<and>
    (\<exists>St'. (\<forall>p. sub_vec ell (U p) (W p) (V p) (St p) = Inr (St' p)) \<and> rep3_vec ell St' V (map2 (ringSub8 ell) xs ys))"
proof -
  obtain s t where s: "vsharing ell St U s" "sums_to ell s xs" and t: "vsharing ell St W t" "sums_to ell t ys"
    using assms(3,4) unfolding rep3_vec_def by blast
  have len: "length (s p) = length xs" "length (t p) = length xs" for p using s(2) t(2) assms(5) by (simp_all add: sums_to_def)
  note at = s(1) [unfolded vsharing_def, rule_format] t(1) [unfolded vsharing_def, rule_format]
  have ell: "ell \<le> 8" using vec_at_ell at(1) by blast
  note steps = linear_steps [OF assms(1,2) conjunct1 [OF at(1)] conjunct2 [OF at(1)] conjunct1 [OF at(2)] conjunct2 [OF at(2)]
      assms(6,7) len(1) len(1) len(2) len(2) assms(8,9)]
  show ?thesis
    by (rule conjI; rule gather [OF allI]; (rule steps | rule sums_to_map2 [OF ell s(2) t(2) assms(5)] | rule refl))
qed

theorem vector_linear_witness:
  "(\<exists>St'. (\<forall>p. add_vec 8 v01 v01 v01 (cells p) = Inr (St' p)) \<and> rep3_vec 8 St' (\<lambda>_. v01) (map2 (ringAdd8 8) [254, 12] [254, 12])) \<and>
    (\<exists>St'. (\<forall>p. sub_vec 8 v01 v01 v01 (cells p) = Inr (St' p)) \<and> rep3_vec 8 St' (\<lambda>_. v01) (map2 (ringSub8 8) [254, 12] [254, 12]))"
  by (rule vector_linear [where z = "\<lambda>p. elems 8 (cells p 0)" and u = "\<lambda>p. elems 8 (cells p 1)", OF _ _ cells_sharing cells_sharing])
    (auto simp: no_overlap_def vec_at_def cells_def Let_def bytes_vec split: pid.split)

text \<open>\<open>reshare\<close> makes a replicated sharing of the vector whose additive shares the parties hold;
  the argument may not be the first member of the output.\<close>

theorem vector_resharing:
  assumes "0 < cap" "\<forall>k. heap k \<noteq> None"
    and "\<And>p. thisShare (V p) \<noteq> nxtShare (V p)" "\<And>p. vec p \<noteq> thisShare (V p)"
    and "\<And>p. vec_at ell (St p) (vec p) (z p)" "\<And>p. vec_at ell (St p) (nxtShare (V p)) (u p)"
      "\<And>p. length (z p) = length xs" "\<And>p. length (u p) = length xs"
    and "sums_to ell z xs"
  shows "\<exists>St' A'. completes ring_peer cap (\<lambda>p. reshare_vec heap ell (vec p) (V p) (St p) (A p)) (\<lambda>p. (St' p, A' p)) \<and>
    A' = A \<and> rep3_vec ell St' V xs"
  using reshare_vec_runs [where z = z and u = u, OF assms] by (intro every_schedule) blast

theorem vector_resharing_witness:
  "\<exists>St' A'. completes ring_peer 1 (\<lambda>p. reshare_vec (\<lambda>_. Some (\<lambda>_. 0)) 8 4 v23 (cells p) (fresh p)) (\<lambda>p. (St' p, A' p)) \<and>
    A' = fresh \<and> rep3_vec 8 St' (\<lambda>_. v23) [21, 27]"
  by (rule vector_resharing [OF _ _ _ _ cells_at cells_at]) (simp_all add: sums_to_def less_Suc_eq)

text \<open>\<open>reshare\<close> sends as many bytes as the output's second member has, whatever the length of
  its argument: with a shorter argument it reads beyond the copy.\<close>

theorem reshare_overread:
  assumes "vec \<noteq> thisShare V" "thisShare V \<noteq> nxtShare V" "rv_ok ell (st vec)" "\<forall>k. heap k \<noteq> None"
    and "length (rv_bytes ell (st vec)) < bytesSize ell (st (nxtShare V))"
  shows "reshare_vec heap ell vec V st a = Fail MemFault"
  using assms rv_copy_ok [OF assms(3,4)]
  by (auto simp: reshare_vec_def rv_copy_assign_def rv_move_def pass_on_vec_def ring_data_def reshare_ring_def)

theorem reshare_overread_witness:
  "reshare_vec (\<lambda>_. Some (\<lambda>_. 0)) 8 4 v01 (\<lambda>r. bytes_vec (if r = 4 then [1] else [1, 2])) (fresh P0) = Fail MemFault"
  by (rule reshare_overread)
    (simp_all add: bytes_vec, simp add: bytes_vec_def rv_bytes_def bytesSize_def sizeof_word_def usz_def)

end
