(* ===== verification/Aby3_Conv.thy ===== *)
theory Aby3_Conv
  imports Aby3_Vec_Facts Aby3_Theorems
begin

text \<open>
  \<open>ringConv\<close> on vectors: a shared vector of bits becomes one over \<open>Z_{2^ell}\<close>. The input object
  has another type than the output, so the two live in different stores; the two local vectors
  live at references beyond the output's. The scalar protocol's \<open>conv_d\<close> and \<open>conv_e\<close> describe
  what each element goes through.
\<close>

section \<open>The code\<close>

definition get_at :: "nat \<Rightarrow> nat \<Rightarrow> nat \<Rightarrow> store \<Rightarrow> byte res" where
  "get_at ell r i st = rv_get ell (st r) i"

definition set_at :: "nat \<Rightarrow> nat \<Rightarrow> nat \<Rightarrow> byte \<Rightarrow> store \<Rightarrow> store res" where
  "set_at ell r i x st = rbind (rv_set ell (st r) i x) (\<lambda>v. Inr (st(r := v)))"

definition fill_at :: "nat \<Rightarrow> nat \<Rightarrow> byte \<Rightarrow> store \<Rightarrow> store res" where
  "fill_at ell r x st = rbind (rv_fill ell x (st r)) (\<lambda>v. Inr (st(r := v)))"

definition conv_lift :: "nat \<Rightarrow> ShrRep3ShareVec \<Rightarrow> ShrRep3ShareVec \<Rightarrow> store \<Rightarrow> nat \<Rightarrow> store \<Rightarrow> store res" where
  "conv_lift ell iVec oVec bits n =
     for_loop 0 n (\<lambda>i st.
       rbind (get_at 1 (thisShare iVec) i bits) (\<lambda>x. rbind (set_at ell (thisShare oVec) i x st) (\<lambda>st.
       rbind (get_at 1 (nxtShare iVec) i bits) (\<lambda>x. set_at ell (nxtShare oVec) i x st))))"

definition conv_mask :: "ccrh \<Rightarrow> nat \<Rightarrow> nat \<Rightarrow> nat \<Rightarrow> store \<Rightarrow> aby3 \<Rightarrow> (store \<times> aby3) res" where
  "conv_mask ccrh ell prd tmp st a =
     rbind (crng_at ccrh ell tmp st a) (\<lambda>(st, a). rbind (rv_add ell prd tmp prd st) (\<lambda>st. Inr (st, a)))"

definition conv_vec_prod01 :: "nat \<Rightarrow> pid \<Rightarrow> ShrRep3ShareVec \<Rightarrow> nat \<Rightarrow> store \<Rightarrow> store res" where
  "conv_vec_prod01 ell pid oVec prd st =
     (if pid = P0 then rv_hadamard ell (thisShare oVec) (nxtShare oVec) prd st else fill_at ell prd 0 st)"

definition conv_double :: "nat \<Rightarrow> nat \<Rightarrow> nat \<Rightarrow> store \<Rightarrow> store res" where
  "conv_double ell prd tmp st = rbind (rv_add ell prd prd prd st) (rv_add ell tmp tmp tmp)"

definition conv_vec_d :: "nat \<Rightarrow> pid \<Rightarrow> ShrRep3ShareVec \<Rightarrow> nat \<Rightarrow> nat \<Rightarrow> store \<Rightarrow> store res" where
  "conv_vec_d ell pid oVec prd tmp st =
     (let oThis = thisShare oVec; oNxt = nxtShare oVec in
      case pid of
        P0 \<Rightarrow> rbind (rv_sub ell oThis prd oThis st) (rv_sub ell oNxt tmp oNxt)
      | P1 \<Rightarrow> rbind (rv_sub ell oThis prd oThis st) (\<lambda>st.
          rbind (fill_at ell oNxt 0 st) (rv_sub ell oNxt tmp oNxt))
      | P2 \<Rightarrow> rbind (fill_at ell oThis 0 st) (\<lambda>st.
          rbind (rv_sub ell oThis prd oThis st) (rv_sub ell oNxt tmp oNxt)))"

definition conv_vec_prod2 :: "nat \<Rightarrow> pid \<Rightarrow> ShrRep3ShareVec \<Rightarrow> ShrRep3ShareVec \<Rightarrow> store \<Rightarrow> nat \<Rightarrow> nat \<Rightarrow> store \<Rightarrow> store res" where
  "conv_vec_prod2 ell pid iVec oVec bits n prd st =
     (case pid of
        P0 \<Rightarrow> fill_at ell prd 0 st
      | P1 \<Rightarrow> for_loop 0 n (\<lambda>i st.
          rbind (get_at ell (thisShare oVec) i st) (\<lambda>x. rbind (get_at 1 (nxtShare iVec) i bits) (\<lambda>b.
          set_at ell prd i (ringMul8 ell x b) st))) st
      | P2 \<Rightarrow> for_loop 0 n (\<lambda>i st.
          rbind (get_at ell (thisShare oVec) i st) (\<lambda>x. rbind (get_at ell (nxtShare oVec) i st) (\<lambda>y.
          rbind (get_at 1 (thisShare iVec) i bits) (\<lambda>b.
          set_at ell prd i (ringMul8 ell (ringAdd8 ell x y) b) st)))) st)"

definition conv_vec_e :: "nat \<Rightarrow> pid \<Rightarrow> ShrRep3ShareVec \<Rightarrow> ShrRep3ShareVec \<Rightarrow> store \<Rightarrow> nat \<Rightarrow> nat \<Rightarrow> nat \<Rightarrow> store \<Rightarrow> store res" where
  "conv_vec_e ell pid iVec oVec bits n prd tmp st =
     (let oThis = thisShare oVec; oNxt = nxtShare oVec in
      case pid of
        P0 \<Rightarrow> rbind (rv_sub ell oThis prd oThis st) (rv_sub ell oNxt tmp oNxt)
      | P1 \<Rightarrow> rbind (rv_sub ell oThis prd oThis st) (for_loop 0 n (\<lambda>i st.
          rbind (get_at ell oNxt i st) (\<lambda>x. rbind (get_at 1 (nxtShare iVec) i bits) (\<lambda>b.
          rbind (get_at ell tmp i st) (\<lambda>q. set_at ell oNxt i (ringSub8 ell (ringAdd8 ell x b) q) st)))))
      | P2 \<Rightarrow> rbind (for_loop 0 n (\<lambda>i st.
          rbind (get_at ell oThis i st) (\<lambda>x. rbind (get_at 1 (thisShare iVec) i bits) (\<lambda>b.
          rbind (get_at ell prd i st) (\<lambda>q. set_at ell oThis i (ringSub8 ell (ringAdd8 ell x b) q) st)))) st)
          (rv_sub ell oNxt tmp oNxt))"

text \<open>\<open>heap_p\<close> and \<open>heap_t\<close> give the fresh blocks of \<open>prod01\<close> and \<open>tmp\<close>.\<close>

definition ringConv_vec :: "ccrh \<Rightarrow> heap \<Rightarrow> heap \<Rightarrow> nat \<Rightarrow> pid \<Rightarrow> ShrRep3ShareVec \<Rightarrow> ShrRep3ShareVec \<Rightarrow> store \<Rightarrow> store \<Rightarrow> aby3 \<Rightarrow> store party" where
  "ringConv_vec ccrh heap_p heap_t ell pid iVec oVec bits st a =
     (let n = rv_size (bits (thisShare iVec)) in
      if n = 0 then Ret (st, a)
      else
        let prd = Suc (max (thisShare oVec) (nxtShare oVec)); tmp = Suc prd in
        pbind (lift_res (
          rbind (conv_lift ell iVec oVec bits n st) (\<lambda>st.
          rbind (rv_new ell heap_p n) (\<lambda>v. rbind (rv_new ell heap_t n) (\<lambda>w.
          rbind (conv_vec_prod01 ell pid oVec prd (st(prd := v, tmp := w))) (\<lambda>st.
          conv_mask ccrh ell prd tmp st a)))))) (\<lambda>(st', a).
        pbind (ring_data ell prd tmp (bytesSize ell (st' prd)) st') (\<lambda>st'.
        pbind (lift_res (
          rbind (conv_double ell prd tmp st') (\<lambda>st.
          rbind (conv_vec_d ell pid oVec prd tmp st) (\<lambda>st.
          rbind (conv_vec_prod2 ell pid iVec oVec bits n prd st) (\<lambda>st.
          conv_mask ccrh ell prd tmp st a))))) (\<lambda>(st', a).
        pbind (ring_data ell prd tmp (bytesSize ell (st' prd)) st') (\<lambda>st'.
        lift_res (
          rbind (conv_double ell prd tmp st') (\<lambda>st'.
          rbind (conv_vec_e ell pid iVec oVec bits n prd tmp st') (\<lambda>st'.
          Inr (st'(prd := st prd, tmp := st tmp), a)))))))))"

section \<open>Single steps\<close>

lemma get_at_ok: "vec_at ell st r xs \<Longrightarrow> i < length xs \<Longrightarrow> get_at ell r i st = Inr (xs ! i)"
  using vec_at_length [of ell st r xs] vec_at_elem [of ell st r xs i] by (simp add: get_at_def vec_at_def rv_get_ok)

lemma fill_at_ok:
  assumes "vec_at ell st r xs"
  shows "\<exists>v. fill_at ell r 0 st = Inr (st(r := v)) \<and> rv_ok ell v \<and> elems ell v = replicate (length xs) 0"
proof -
  have "rv_ok ell (st r)" "n_elems (st r) = length xs"
    using assms vec_at_length [OF assms] by (simp_all add: vec_at_def)
  moreover obtain v where "rv_fill ell 0 (st r) = Inr v" "rv_ok ell v" "elems ell v = replicate (n_elems (st r)) 0"
    using rv_fill_ok [of ell "st r" 0] calculation(1) by auto
  ultimately show ?thesis by (intro exI [of _ v]) (simp add: fill_at_def)
qed

lemma set_at_ok:
  assumes "vec_at ell st r xs" "i < length xs" "take_bit ell x = x"
  shows "\<exists>v. set_at ell r i x st = Inr (st(r := v)) \<and> rv_ok ell v \<and> elems ell v = xs[i := x]"
proof -
  have "rv_ok ell (st r)" "elems ell (st r) = xs" "i < n_elems (st r)"
    using assms(1,2) vec_at_length [OF assms(1)] by (simp_all add: vec_at_def)
  moreover obtain v where "rv_set ell (st r) i x = Inr v" "rv_ok ell v" "elems ell v = (elems ell (st r))[i := x]"
    using rv_set_ok [OF calculation(1,3) assms(3)] by blast
  ultimately show ?thesis by (intro exI [of _ v]) (simp add: set_at_def)
qed

text \<open>A loop that sets every element of one object, reading it at most at the index it sets.\<close>

lemma set_loop:
  assumes at: "vec_at ell st r xs" "length xs = n" and f: "\<And>i. i < n \<Longrightarrow> take_bit ell (f i) = f i"
    and body: "\<And>i v. i < n \<Longrightarrow> rv_ok ell v \<Longrightarrow> n_elems v = n \<Longrightarrow> elem ell v i = xs ! i \<Longrightarrow>
      B i (st(r := v)) = set_at ell r i (f i) (st(r := v))"
  shows "\<exists>v. for_loop 0 n B st = Inr (st(r := v)) \<and> rv_ok ell v \<and> elems ell v = map f [0..<n]"
proof -
  let ?P = "\<lambda>k s. \<exists>v. s = st(r := v) \<and> rv_ok ell v \<and> elems ell v = map f [0..<k] @ drop k xs"
  have "\<exists>s'. for_loop 0 n B st = Inr s' \<and> ?P n s'"
  proof (rule for_loop_rule)
    show "?P 0 st" using at by (intro exI [of _ "st r"]) (simp add: vec_at_def)
    fix k s assume k: "0 \<le> k" "k < n" and "?P k s"
    then obtain v where v: "s = st(r := v)" "rv_ok ell v" "elems ell v = map f [0..<k] @ drop k xs" by blast
    have n: "n_elems v = n" using arg_cong [OF v(3), of length] k at by simp
    have "elem ell v k = xs ! k" using nth_elems [of k v ell] n k at unfolding v(3) by (simp add: nth_append)
    note step = body [OF k(2) v(2) n this]
    have u: "(map f [0..<k] @ drop k xs)[k := f k] = map f [0..<Suc k] @ drop (Suc k) xs"
      using k at by (simp add: list_update_append flip: Cons_nth_drop_Suc)
    obtain w where w: "set_at ell r k (f k) (st(r := v)) = Inr ((st(r := v))(r := w))" "rv_ok ell w"
      "elems ell w = (elems ell v)[k := f k]"
      using set_at_ok [of ell "st(r := v)" r "elems ell v" k "f k"] v(2) n k f by auto
    then show "\<exists>s'. B k s = Inr s' \<and> ?P (Suc k) s'" using step v(1,3) u by auto
  qed simp
  then show ?thesis using at by auto
qed

section \<open>The four vectors\<close>

definition quad :: "nat \<Rightarrow> ShrRep3ShareVec \<Rightarrow> nat \<Rightarrow> nat \<Rightarrow> byte list \<Rightarrow> byte list \<Rightarrow> byte list \<Rightarrow> byte list \<Rightarrow> store \<Rightarrow> store \<Rightarrow> bool" where
  "quad ell V prd tmp a b c d st0 st \<longleftrightarrow> vec_at ell st (thisShare V) a \<and> vec_at ell st (nxtShare V) b \<and>
     vec_at ell st prd c \<and> vec_at ell st tmp d \<and> (\<forall>r. r \<notin> {thisShare V, nxtShare V, prd, tmp} \<longrightarrow> st r = st0 r)"

definition four :: "ShrRep3ShareVec \<Rightarrow> nat \<Rightarrow> nat \<Rightarrow> bool" where
  "four V prd tmp \<longleftrightarrow> distinct [thisShare V, nxtShare V, prd, tmp]"

lemma quadD:
  assumes "quad ell V prd tmp a b c d st0 st"
  shows "vec_at ell st (thisShare V) a" "vec_at ell st (nxtShare V) b" "vec_at ell st prd c" "vec_at ell st tmp d"
  using assms by (simp_all add: quad_def)

lemma quad_upd:
  assumes "four V prd tmp" "quad ell V prd tmp a b c d st0 st" "rv_ok ell v" "elems ell v = x"
  shows "quad ell V prd tmp x b c d st0 (st(thisShare V := v))" "quad ell V prd tmp a x c d st0 (st(nxtShare V := v))"
    "quad ell V prd tmp a b x d st0 (st(prd := v))" "quad ell V prd tmp a b c x st0 (st(tmp := v))"
  using assms by (auto simp: quad_def four_def)

lemma four_ne:
  assumes "four V prd tmp"
  shows "thisShare V \<noteq> nxtShare V" "prd \<noteq> thisShare V" "prd \<noteq> nxtShare V" "tmp \<noteq> thisShare V" "tmp \<noteq> nxtShare V" "prd \<noteq> tmp"
    "thisShare V \<noteq> prd" "nxtShare V \<noteq> prd" "thisShare V \<noteq> tmp" "nxtShare V \<noteq> tmp" "nxtShare V \<noteq> thisShare V" "tmp \<noteq> prd"
  using assms by (auto simp: four_def)

text \<open>One element-wise operation on two of the four.\<close>

lemma quad_step:
  assumes F: "four V prd tmp" and Q: "quad ell V prd tmp a b c d st0 st" and K: "\<exists>v. K = Inr (st(r := v)) \<and> rv_ok ell v \<and> elems ell v = x"
  shows "r = thisShare V \<Longrightarrow> \<exists>st'. K = Inr st' \<and> quad ell V prd tmp x b c d st0 st'"
    "r = nxtShare V \<Longrightarrow> \<exists>st'. K = Inr st' \<and> quad ell V prd tmp a x c d st0 st'"
    "r = prd \<Longrightarrow> \<exists>st'. K = Inr st' \<and> quad ell V prd tmp a b x d st0 st'"
    "r = tmp \<Longrightarrow> \<exists>st'. K = Inr st' \<and> quad ell V prd tmp a b c x st0 st'"
  using K quad_upd [OF F Q] by (elim exE conjE; hypsubst; intro exI conjI; assumption?; blast)+

text \<open>Sequencing.\<close>

lemma then_ok: "\<exists>s. K = Inr s \<and> P s \<Longrightarrow> (\<And>s. P s \<Longrightarrow> \<exists>t. L s = Inr t \<and> Q t) \<Longrightarrow> \<exists>t. rbind K L = Inr t \<and> Q t"
  by (elim exE conjE) simp

definition sized :: "nat \<Rightarrow> byte list list \<Rightarrow> bool" where
  "sized n xss \<longleftrightarrow> (\<forall>xs\<in>set xss. length xs = n)"

lemma quad_add:
  assumes "four V prd tmp" "quad ell V prd tmp a b c d st0 st" "sized n [a, b, c, d]"
  shows "\<exists>st'. rv_add ell prd tmp prd st = Inr st' \<and> quad ell V prd tmp a b (map2 (ringAdd8 ell) c d) d st0 st'"
    "\<exists>st'. conv_double ell prd tmp st = Inr st' \<and> quad ell V prd tmp a b (map2 (ringAdd8 ell) c c) (map2 (ringAdd8 ell) d d) st0 st'"
proof -
  have len: "length a = n" "length b = n" "length c = n" "length d = n" using assms(3) by (simp_all add: sized_def)
  note at = quadD [OF assms(2)]
  show "\<exists>st'. rv_add ell prd tmp prd st = Inr st' \<and> quad ell V prd tmp a b (map2 (ringAdd8 ell) c d) d st0 st'"
    by (rule quad_step(3) [OF assms(1,2) add_at [OF at(3,4,3)]]) (simp_all add: len)
  show "\<exists>st'. conv_double ell prd tmp st = Inr st' \<and> quad ell V prd tmp a b (map2 (ringAdd8 ell) c c) (map2 (ringAdd8 ell) d d) st0 st'"
    unfolding conv_double_def
  proof (rule then_ok [where P = "quad ell V prd tmp a b (map2 (ringAdd8 ell) c c) d st0"])
    show "\<exists>s. rv_add ell prd prd prd st = Inr s \<and> quad ell V prd tmp a b (map2 (ringAdd8 ell) c c) d st0 s"
      by (rule quad_step(3) [OF assms(1,2) add_at [OF at(3,3,3)]]) simp_all
    show "\<exists>t. rv_add ell tmp tmp tmp s = Inr t \<and> quad ell V prd tmp a b (map2 (ringAdd8 ell) c c) (map2 (ringAdd8 ell) d d) st0 t"
      if "quad ell V prd tmp a b (map2 (ringAdd8 ell) c c) d st0 s" for s
      by (rule quad_step(4) [OF assms(1) that add_at [OF quadD(4,4,4)]]) (rule that | simp)+
  qed
qed

lemma quad_sub:
  assumes "four V prd tmp" "quad ell V prd tmp a b c d st0 st" "sized n [a, b, c, d]"
  shows "\<exists>st'. rv_sub ell (thisShare V) prd (thisShare V) st = Inr st' \<and> quad ell V prd tmp (map2 (ringSub8 ell) a c) b c d st0 st'"
    "\<exists>st'. rv_sub ell (nxtShare V) tmp (nxtShare V) st = Inr st' \<and> quad ell V prd tmp a (map2 (ringSub8 ell) b d) c d st0 st'"
proof -
  have len: "length a = n" "length b = n" "length c = n" "length d = n" using assms(3) by (simp_all add: sized_def)
  note at = quadD [OF assms(2)]
  show "\<exists>st'. rv_sub ell (thisShare V) prd (thisShare V) st = Inr st' \<and> quad ell V prd tmp (map2 (ringSub8 ell) a c) b c d st0 st'"
    by (rule quad_step(1) [OF assms(1,2) sub_at [OF at(1,3,1)]]) (simp_all add: len)
  show "\<exists>st'. rv_sub ell (nxtShare V) tmp (nxtShare V) st = Inr st' \<and> quad ell V prd tmp a (map2 (ringSub8 ell) b d) c d st0 st'"
    by (rule quad_step(2) [OF assms(1,2) sub_at [OF at(2,4,2)]]) (simp_all add: len)
qed

lemma quad_fill:
  assumes "four V prd tmp" "quad ell V prd tmp a b c d st0 st"
  shows "\<exists>st'. fill_at ell (thisShare V) 0 st = Inr st' \<and> quad ell V prd tmp (replicate (length a) 0) b c d st0 st'"
    "\<exists>st'. fill_at ell (nxtShare V) 0 st = Inr st' \<and> quad ell V prd tmp a (replicate (length b) 0) c d st0 st'"
    "\<exists>st'. fill_at ell prd 0 st = Inr st' \<and> quad ell V prd tmp a b (replicate (length c) 0) d st0 st'"
  using quad_step [OF assms fill_at_ok] quadD [OF assms(2)] by blast+

section \<open>What each party computes\<close>

text \<open>\<open>tab n f\<close> lists \<open>f\<close> over the indices.\<close>

definition tab :: "nat \<Rightarrow> (nat \<Rightarrow> byte) \<Rightarrow> byte list" where
  "tab n f = map f [0..<n]"

lemma length_tab [simp]: "length (tab n f) = n"
  by (simp add: tab_def)

lemma nth_tab [simp]: "i < n \<Longrightarrow> tab n f ! i = f i"
  by (simp add: tab_def)

lemma tab_eqI: "length xs = n \<Longrightarrow> (\<And>i. i < n \<Longrightarrow> xs ! i = f i) \<Longrightarrow> xs = tab n f"
  by (rule nth_equalityI) simp_all

lemma bit_range: "take_bit 1 x = x \<Longrightarrow> 1 \<le> ell \<Longrightarrow> take_bit ell x = (x :: byte)"
  using bit_scalar by fastforce

lemma bits_range: "vec_at 1 st r xs \<Longrightarrow> i < length xs \<Longrightarrow> take_bit 1 (xs ! i) = xs ! i"
  using elems_range [of 1 "st r" "xs ! i"] by (auto simp: vec_at_def)

lemma lift_ok:
  assumes I: "vec_at 1 bits (thisShare U) x" "vec_at 1 bits (nxtShare U) y" "length x = n" "length y = n"
    and V: "thisShare V \<noteq> nxtShare V" "vec_at ell st (thisShare V) a" "vec_at ell st (nxtShare V) b" "length a = n" "length b = n"
  shows "\<exists>v w. conv_lift ell U V bits n st = Inr (st(thisShare V := v, nxtShare V := w)) \<and> rv_ok ell v \<and> elems ell v = x \<and>
    rv_ok ell w \<and> elems ell w = y"
proof -
  let ?T = "thisShare V" and ?N = "nxtShare V"
  let ?P = "\<lambda>k s. \<exists>v w. s = st(?T := v, ?N := w) \<and> rv_ok ell v \<and> elems ell v = take k x @ drop k a \<and>
    rv_ok ell w \<and> elems ell w = take k y @ drop k b"
  have ell: "1 \<le> ell" using vec_at_ell [OF V(2)] by simp
  have r: "take_bit ell (x ! i) = x ! i" "take_bit ell (y ! i) = y ! i" if "i < n" for i
    using bit_range [OF bits_range ell] I that by simp_all
  have upd: "(take k u @ drop k z)[k := u ! k] = take (Suc k) u @ drop (Suc k) z" if "k < n" "length u = n" "length z = n"
    for k and u z :: "byte list"
    using that by (simp add: list_update_append take_Suc_conv_app_nth flip: Cons_nth_drop_Suc)
  have "\<exists>s'. conv_lift ell U V bits n st = Inr s' \<and> ?P n s'"
    unfolding conv_lift_def
  proof (rule for_loop_rule)
    show "?P 0 st" using V by (intro exI [of _ "st ?T"] exI [of _ "st ?N"]) (simp add: vec_at_def)
    fix k s assume k: "0 \<le> k" "k < n" and "?P k s"
    then obtain v w where s: "s = st(?T := v, ?N := w)" "rv_ok ell v" "elems ell v = take k x @ drop k a"
      "rv_ok ell w" "elems ell w = take k y @ drop k b" by blast
    have at: "vec_at ell s ?T (take k x @ drop k a)" "vec_at ell s ?N (take k y @ drop k b)" using s V(1) by simp_all
    obtain v' where v': "set_at ell ?T k (x ! k) s = Inr (s(?T := v'))" "rv_ok ell v'" "elems ell v' = take (Suc k) x @ drop (Suc k) a"
      using set_at_ok [OF at(1), of k "x ! k"] k I(3) V(4) r upd by auto
    obtain w' where w': "set_at ell ?N k (y ! k) (s(?T := v')) = Inr (s(?T := v', ?N := w'))" "rv_ok ell w'"
      "elems ell w' = take (Suc k) y @ drop (Suc k) b"
      using set_at_ok [of ell "s(?T := v')" ?N "take k y @ drop k b" k "y ! k"] at(2) k I(4) V(1,5) r upd by auto
    have "s(?T := v', ?N := w') = st(?T := v', ?N := w')" using s(1) by (auto simp: fun_eq_iff)
    then show "\<exists>s'. rbind (get_at 1 (thisShare U) k bits) (\<lambda>x. rbind (set_at ell ?T k x s) (\<lambda>st.
       rbind (get_at 1 (nxtShare U) k bits) (\<lambda>x. set_at ell ?N k x st))) = Inr s' \<and> ?P (Suc k) s'"
      using get_at_ok [OF I(1)] get_at_ok [OF I(2)] I(3,4) k v' w' by auto
  qed simp
  then show ?thesis using I V by auto
qed

lemma prod01_ok:
  assumes F: "four V prd tmp" and Q: "quad ell V prd tmp a b c d st0 st" and n: "sized n [a, b, c, d]"
  shows "\<exists>st'. conv_vec_prod01 ell pid V prd st = Inr st' \<and>
    quad ell V prd tmp a b (tab n (\<lambda>i. if pid = P0 then ringMul8 ell (a ! i) (b ! i) else 0)) d st0 st'"
proof (cases "pid = P0")
  case True
  have len: "length a = n" "length b = n" "length c = n" using n by (simp_all add: sized_def)
  have "map2 (ringMul8 ell) a b = tab n (\<lambda>i. ringMul8 ell (a ! i) (b ! i))" by (rule tab_eqI) (simp_all add: len)
  moreover have "\<exists>st'. rv_hadamard ell (thisShare V) (nxtShare V) prd st = Inr st' \<and> quad ell V prd tmp a b (map2 (ringMul8 ell) a b) d st0 st'"
    by (rule quad_step(3) [OF F Q hadamard_at [OF quadD(1,2,3) [OF Q]]]) (simp_all add: len)
  ultimately show ?thesis using True by (simp add: conv_vec_prod01_def)
next
  case False
  have "replicate (length c) 0 = tab n (\<lambda>i. 0)" using n by (intro tab_eqI) (simp_all add: sized_def)
  then show ?thesis using False quad_fill(3) [OF F Q] by (simp add: conv_vec_prod01_def)
qed

text \<open>The subtractions of the first round, after the products have been doubled.\<close>

lemma d_ok:
  assumes F: "four V prd tmp" and Q: "quad ell V prd tmp a b c d st0 st" and n: "sized n [a, b, c, d]"
  shows "\<exists>st'. rbind (conv_double ell prd tmp st) (conv_vec_d ell pid V prd tmp) = Inr st' \<and>
    quad ell V prd tmp (tab n (\<lambda>i. fst (conv_d ell pid (a ! i) (b ! i) (c ! i) (d ! i))))
      (tab n (\<lambda>i. snd (conv_d ell pid (a ! i) (b ! i) (c ! i) (d ! i)))) (map2 (ringAdd8 ell) c c) (map2 (ringAdd8 ell) d d) st0 st'"
proof -
  have len: "length a = n" "length b = n" "length c = n" "length d = n" using n by (simp_all add: sized_def)
  let ?c = "map2 (ringAdd8 ell) c c" and ?d = "map2 (ringAdd8 ell) d d" and ?zs = "replicate n 0 :: byte list"
  let ?a' = "if pid = P2 then ?zs else a" and ?b' = "if pid = P1 then ?zs else b"
  have ab: "map2 (ringSub8 ell) ?a' ?c = tab n (\<lambda>i. fst (conv_d ell pid (a ! i) (b ! i) (c ! i) (d ! i)))"
    "map2 (ringSub8 ell) ?b' ?d = tab n (\<lambda>i. snd (conv_d ell pid (a ! i) (b ! i) (c ! i) (d ! i)))"
    by (rule tab_eqI; cases pid; simp add: len conv_d_def)+
  have "\<exists>st'. rbind (conv_double ell prd tmp st) (conv_vec_d ell pid V prd tmp) = Inr st' \<and>
    quad ell V prd tmp (map2 (ringSub8 ell) ?a' ?c) (map2 (ringSub8 ell) ?b' ?d) ?c ?d st0 st'"
  proof (rule then_ok [OF quad_add(2) [OF F Q n]])
    fix s assume S: "quad ell V prd tmp a b ?c ?d st0 s"
    have n': "sized n [a, b, ?c, ?d]" "sized n [?zs, b, ?c, ?d]" "sized n [map2 (ringSub8 ell) a ?c, b, ?c, ?d]"
      "sized n [map2 (ringSub8 ell) a ?c, ?zs, ?c, ?d]" "sized n [map2 (ringSub8 ell) ?zs ?c, b, ?c, ?d]"
      by (simp_all add: sized_def len)
    have z: "\<exists>t. fill_at ell (thisShare V) 0 s = Inr t \<and> quad ell V prd tmp ?zs b ?c ?d st0 t"
      using quad_fill(1) [OF F S] len by simp
    have z': "\<exists>t. fill_at ell (nxtShare V) 0 s' = Inr t \<and> quad ell V prd tmp e ?zs ?c ?d st0 t" if "quad ell V prd tmp e b ?c ?d st0 s'" for e s'
      using quad_fill(2) [OF F that] len by simp
    show "\<exists>t. conv_vec_d ell pid V prd tmp s = Inr t \<and> quad ell V prd tmp (map2 (ringSub8 ell) ?a' ?c) (map2 (ringSub8 ell) ?b' ?d) ?c ?d st0 t"
      by (cases pid; simp only: conv_vec_d_def Let_def pid.case pid.distinct if_True if_False refl)
        (rule then_ok, (rule quad_sub(1) [OF F S n'(1)] | rule z), (rule then_ok)?,
          (rule quad_sub(1) [OF F _ n'(2)] quad_sub(2) [OF F _ n'(3)] z' quad_sub(2) [OF F _ n'(4)] quad_sub(2) [OF F _ n'(5)], assumption)+)+
  qed
  then show ?thesis by (simp only: ab)
qed

lemma get_other [simp]: "r \<noteq> r' \<Longrightarrow> get_at ell r i (st(r' := v)) = get_at ell r i st"
  by (simp add: get_at_def)

lemma get_same: "rv_ok ell v \<Longrightarrow> i < n_elems v \<Longrightarrow> get_at ell r i (st(r := v)) = Inr (elem ell v i)"
  by (simp add: get_at_def rv_get_ok)

lemma ring_range [simp]:
  "1 \<le> ell \<Longrightarrow> ell \<le> 8 \<Longrightarrow> take_bit ell (ringAdd8 ell x y) = ringAdd8 ell x y"
  "1 \<le> ell \<Longrightarrow> ell \<le> 8 \<Longrightarrow> take_bit ell (ringSub8 ell x y) = ringSub8 ell x y"
  "1 \<le> ell \<Longrightarrow> ell \<le> 8 \<Longrightarrow> take_bit ell (ringMul8 ell x y) = ringMul8 ell x y"
  by (simp_all add: ring_simps)

lemma prod2_ok:
  assumes F: "four V prd tmp" and Q: "quad ell V prd tmp a b c d st0 st" and n: "sized n [a, b, c, d, x, y]"
    and I: "vec_at 1 bits (thisShare U) x" "vec_at 1 bits (nxtShare U) y"
  shows "\<exists>st'. conv_vec_prod2 ell pid U V bits n prd st = Inr st' \<and>
    quad ell V prd tmp a b (tab n (\<lambda>i. case pid of P0 \<Rightarrow> 0 | P1 \<Rightarrow> ringMul8 ell (a ! i) (y ! i)
      | P2 \<Rightarrow> ringMul8 ell (ringAdd8 ell (a ! i) (b ! i)) (x ! i))) d st0 st'"
proof -
  note at = quadD [OF Q] and ne = four_ne [OF F]
  have len: "length a = n" "length b = n" "length c = n" "length x = n" "length y = n" using n by (simp_all add: sized_def)
  have ell: "1 \<le> ell" "ell \<le> 8" using vec_at_ell [OF at(1)] by simp_all
  have get: "get_at ell (thisShare V) i (st(prd := v)) = Inr (a ! i)" "get_at ell (nxtShare V) i (st(prd := v)) = Inr (b ! i)"
    "get_at 1 (thisShare U) i bits = Inr (x ! i)" "get_at 1 (nxtShare U) i bits = Inr (y ! i)" if "i < n" for i v
    using that ne len at I by (simp_all add: get_at_ok)
  show ?thesis
  proof (cases pid)
    case P0
    have "replicate (length c) 0 = tab n (\<lambda>i. 0)" by (rule tab_eqI) (simp_all add: len)
    then show ?thesis using quad_fill(3) [OF F Q] P0 by (simp add: conv_vec_prod2_def)
  next
    case P1
    show ?thesis unfolding P1 conv_vec_prod2_def pid.case
      by (rule quad_step(3) [OF F Q _ refl], unfold tab_def, rule set_loop [OF at(3) len(3)]) (simp_all add: get ell del: One_nat_def)
  next
    case P2
    show ?thesis unfolding P2 conv_vec_prod2_def pid.case
      by (rule quad_step(3) [OF F Q _ refl], unfold tab_def, rule set_loop [OF at(3) len(3)]) (simp_all add: get ell del: One_nat_def)
  qed
qed

lemma e_ok:
  assumes F: "four V prd tmp" and Q: "quad ell V prd tmp a b c d st0 st" and n: "sized n [a, b, c, d, x, y]"
    and I: "vec_at 1 bits (thisShare U) x" "vec_at 1 bits (nxtShare U) y"
  shows "\<exists>st'. rbind (conv_double ell prd tmp st) (conv_vec_e ell pid U V bits n prd tmp) = Inr st' \<and>
    quad ell V prd tmp (tab n (\<lambda>i. fst (conv_e ell pid (x ! i) (y ! i) (a ! i, b ! i) (c ! i) (d ! i))))
      (tab n (\<lambda>i. snd (conv_e ell pid (x ! i) (y ! i) (a ! i, b ! i) (c ! i) (d ! i)))) (map2 (ringAdd8 ell) c c) (map2 (ringAdd8 ell) d d) st0 st'"
proof -
  have len: "length a = n" "length b = n" "length c = n" "length d = n" "length x = n" "length y = n"
    using n by (simp_all add: sized_def)
  have ell: "1 \<le> ell" "ell \<le> 8" using vec_at_ell [OF quadD(1) [OF Q]] by simp_all
  note ne = four_ne [OF F]
  let ?c = "map2 (ringAdd8 ell) c c" and ?d = "map2 (ringAdd8 ell) d d"
  let ?a' = "if pid = P2 then tab n (\<lambda>i. ringSub8 ell (ringAdd8 ell (a ! i) (x ! i)) (?c ! i)) else map2 (ringSub8 ell) a ?c"
  let ?b' = "if pid = P1 then tab n (\<lambda>i. ringSub8 ell (ringAdd8 ell (b ! i) (y ! i)) (?d ! i)) else map2 (ringSub8 ell) b ?d"
  have ab: "?a' = tab n (\<lambda>i. fst (conv_e ell pid (x ! i) (y ! i) (a ! i, b ! i) (c ! i) (d ! i)))"
    "?b' = tab n (\<lambda>i. snd (conv_e ell pid (x ! i) (y ! i) (a ! i, b ! i) (c ! i) (d ! i)))"
    by (rule tab_eqI; cases pid; simp add: len conv_e_def)+
  have n': "sized n [a, b, ?c, ?d]" "sized n [map2 (ringSub8 ell) a ?c, b, ?c, ?d]"
    "sized n [tab n (\<lambda>i. ringSub8 ell (ringAdd8 ell (a ! i) (x ! i)) (?c ! i)), b, ?c, ?d]" by (simp_all add: sized_def len)
  have bits: "get_at 1 (thisShare U) i bits = Inr (x ! i)" "get_at 1 (nxtShare U) i bits = Inr (y ! i)" if "i < n" for i
    using that len I by (simp_all add: get_at_ok)
  have this_loop: "\<exists>t. for_loop 0 n (\<lambda>i st. rbind (get_at ell (thisShare V) i st) (\<lambda>x. rbind (get_at 1 (thisShare U) i bits) (\<lambda>b.
        rbind (get_at ell prd i st) (\<lambda>q. set_at ell (thisShare V) i (ringSub8 ell (ringAdd8 ell x b) q) st)))) s = Inr t \<and>
      quad ell V prd tmp (tab n (\<lambda>i. ringSub8 ell (ringAdd8 ell (a ! i) (x ! i)) (?c ! i))) b ?c ?d st0 t"
    if S: "quad ell V prd tmp a b ?c ?d st0 s" for s
  proof -
    have "get_at ell prd i s = Inr (?c ! i)" if "i < n" for i
      using get_at_ok [OF quadD(3) [OF S]] that len by simp
    then show ?thesis
      by (intro quad_step(1) [OF F S _ refl], unfold tab_def, intro set_loop [OF quadD(1) [OF S] len(1)])
        (simp_all add: bits get_same ell ne del: nth_map One_nat_def)
  qed
  have nxt_loop: "\<exists>t. for_loop 0 n (\<lambda>i st. rbind (get_at ell (nxtShare V) i st) (\<lambda>x. rbind (get_at 1 (nxtShare U) i bits) (\<lambda>b.
        rbind (get_at ell tmp i st) (\<lambda>q. set_at ell (nxtShare V) i (ringSub8 ell (ringAdd8 ell x b) q) st)))) s = Inr t \<and>
      quad ell V prd tmp e (tab n (\<lambda>i. ringSub8 ell (ringAdd8 ell (b ! i) (y ! i)) (?d ! i))) ?c ?d st0 t"
    if S: "quad ell V prd tmp e b ?c ?d st0 s" for s e
  proof -
    have "get_at ell tmp i s = Inr (?d ! i)" if "i < n" for i
      using get_at_ok [OF quadD(4) [OF S]] that len by simp
    then show ?thesis
      by (intro quad_step(2) [OF F S _ refl], unfold tab_def, intro set_loop [OF quadD(2) [OF S] len(2)])
        (simp_all add: bits get_same ell ne del: nth_map One_nat_def)
  qed
  have "\<exists>st'. rbind (conv_double ell prd tmp st) (conv_vec_e ell pid U V bits n prd tmp) = Inr st' \<and>
    quad ell V prd tmp ?a' ?b' ?c ?d st0 st'"
  proof (rule then_ok [OF quad_add(2) [OF F Q]])
    show "sized n [a, b, c, d]" by (simp add: sized_def len)
    fix s assume S: "quad ell V prd tmp a b ?c ?d st0 s"
    show "\<exists>t. conv_vec_e ell pid U V bits n prd tmp s = Inr t \<and> quad ell V prd tmp ?a' ?b' ?c ?d st0 t"
      by (cases pid; simp only: conv_vec_e_def Let_def pid.case pid.distinct if_True if_False refl)
        (rule then_ok, (rule quad_sub(1) [OF F S n'(1)] | rule this_loop [OF S]),
          (rule nxt_loop quad_sub(2) [OF F _ n'(2)] quad_sub(2) [OF F _ n'(3)], assumption))+
  qed
  then show ?thesis by (simp only: ab)
qed

end
