(* ===== verification/Aby3_Conv_Theorems.thy ===== *)
theory Aby3_Conv_Theorems
  imports Aby3_Conv Aby3_Vec_Theorems
begin

text \<open>
  The vector conversion run by three parties: two rounds of the ring exchange between the local
  parts, and the value of the result.
\<close>

section \<open>Rounds\<close>

lemma mask_all:
  assumes A: "synced ccrh A" and F: "\<And>p. four (V p) (P p) (T p)"
    and Q: "\<And>p. quad ell (V p) (P p) (T p) (a p) (b p) (c p) (d p) (S p) (St p)"
    and n: "\<And>p. sized n [a p, b p, c p, d p]"
  obtains St' A' r where "\<And>p. conv_mask ccrh ell (P p) (T p) (St p) (A p) = Inr (St' p, A' p)" "synced ccrh A'"
    "\<And>p. quad ell (V p) (P p) (T p) (a p) (b p) (map2 (ringAdd8 ell) (c p) (r p)) (r p) (S p) (St' p)"
    "sums_to ell r (replicate n 0)"
proof -
  have len: "length (d p) = n" for p using n by (simp add: sized_def)
  obtain v r A' where v: "\<And>p. crng_at ccrh ell (T p) (St p) (A p) = Inr ((St p)(T p := v p), A' p)" "synced ccrh A'"
    "\<And>p. rv_ok ell (v p)" "\<And>p. elems ell (v p) = r p" "sums_to ell r (replicate n 0)"
    by (rule crng_at_all [OF A quadD(4) [OF Q] len]) (rule that, assumption+)
  have r: "length (r p) = n" for p using v(5) by (simp add: sums_to_def)
  have "sized n [a p, b p, c p, r p]" for p using n r by (simp add: sized_def)
  note step = quad_add(1) [OF F quad_upd(4) [OF F Q v(3,4)] this]
  obtain St' where "\<And>p. rv_add ell (P p) (T p) (P p) ((St p)(T p := v p)) = Inr (St' p)"
    "\<And>p. quad ell (V p) (P p) (T p) (a p) (b p) (map2 (ringAdd8 ell) (c p) (r p)) (r p) (S p) (St' p)"
    using step by metis
  then show thesis by (intro that [of St' A' r]) (simp_all add: conv_mask_def v)
qed

lemma round_quad:
  assumes cap: "0 < cap" and F: "\<And>p. four (V p) (P p) (T p)"
    and Q: "\<And>p. quad ell (V p) (P p) (T p) (a p) (b p) (c p) (d p) (S p) (St p)"
    and n: "\<And>p. sized n [a p, b p, c p, d p]"
  obtains St' where "ends_with cap (\<lambda>p. ring_data ell (P p) (T p) (bytesSize ell (St p (P p))) (St p)) St'"
    "\<And>p. quad ell (V p) (P p) (T p) (a p) (b p) (c p) (c (NEXT p)) (S p) (St' p)"
proof -
  have len: "length (c p) = n" "length (d p) = n" for p using n by (simp_all add: sized_def)
  let ?St = "\<lambda>p. taken ell (P (NEXT p)) (T p) (St p) (St (NEXT p))"
  have "quad ell (V p) (P p) (T p) (a p) (b p) (c p) (c (NEXT p)) (S p) (?St p)" for p
    unfolding taken_def using taken_at [OF quadD(4) [OF Q [of p]] quadD(3) [OF Q [of "NEXT p"]]] len
    by (intro quad_upd(4) [OF F Q]) (simp_all add: taken_def)
  moreover have "ends_with cap (\<lambda>p. ring_data ell (P p) (T p) (bytesSize ell (St p (P p))) (St p)) ?St"
    by (rule ring_data_runs [OF cap quadD(3) [OF Q] quadD(4) [OF Q] len]) simp
  ultimately show thesis by (rule that [rotated])
qed

lemma start_quad:
  assumes I: "vec_at 1 bits (thisShare U) x" "vec_at 1 bits (nxtShare U) y" "length x = n" "length y = n"
    and V: "thisShare V \<noteq> nxtShare V" "vec_at ell st (thisShare V) a" "vec_at ell st (nxtShare V) b" "length a = n" "length b = n"
    and heaps: "\<forall>k. heap_p k \<noteq> None" "\<forall>k. heap_t k \<noteq> None"
    and prd: "prd = Suc (max (thisShare V) (nxtShare V))" and tmp: "tmp = Suc prd"
  shows "\<exists>st' q. rbind (conv_lift ell U V bits n st) (\<lambda>st.
      rbind (rv_new ell heap_p n) (\<lambda>v. rbind (rv_new ell heap_t n) (\<lambda>w.
      conv_vec_prod01 ell pid V prd (st(prd := v, tmp := w))))) = Inr st' \<and>
    quad ell V prd tmp x y (tab n (\<lambda>i. if pid = P0 then ringMul8 ell (x ! i) (y ! i) else 0)) q st st' \<and> length q = n"
proof -
  have F: "four V prd tmp" using V(1) by (auto simp: four_def prd tmp)
  have ell: "1 \<le> ell" "ell \<le> 8" using vec_at_ell [OF V(2)] by simp_all
  have n: "n + 63 < 2 ^ 64" using vec_at_length [OF V(2)] V(2,4) by (auto simp: vec_at_def rv_ok_def)
  obtain v w where l: "conv_lift ell U V bits n st = Inr (st(thisShare V := v, nxtShare V := w))" "rv_ok ell v" "elems ell v = x"
    "rv_ok ell w" "elems ell w = y" using lift_ok [OF I V] by blast
  obtain p q where pq: "rv_new ell heap_p n = Inr p" "rv_ok ell p" "n_elems p = n" "rv_new ell heap_t n = Inr q" "rv_ok ell q" "n_elems q = n"
    using rv_new_heap [OF ell n heaps(1)] rv_new_heap [OF ell n heaps(2)] by blast
  let ?s = "st(thisShare V := v, nxtShare V := w, prd := p, tmp := q)"
  have Q: "quad ell V prd tmp x y (elems ell p) (elems ell q) st ?s"
    using l pq V(1) by (auto simp: quad_def prd tmp)
  have "sized n [x, y, elems ell p, elems ell q]" using I pq by (simp add: sized_def)
  then show ?thesis using prod01_ok [OF F Q, of n pid] pq(6)
    unfolding l(1) rbind_Inr pq(1,4) by (auto intro!: exI [of _ "elems ell q"])
qed

section \<open>The value\<close>

lemma elem_low: "vec_at ell st r xs \<Longrightarrow> i < length xs \<Longrightarrow> take_bit ell (xs ! i) = xs ! i"
  using elems_range [of ell "st r" "xs ! i"] by (auto simp: vec_at_def)

text \<open>The summands after each round, from those of the bits and the randomness of the rounds.\<close>

definition conv_q :: "nat \<Rightarrow> (pid \<Rightarrow> byte) \<Rightarrow> (pid \<Rightarrow> byte) \<Rightarrow> pid \<Rightarrow> byte" where
  "conv_q ell s r p = (if p = P0 then ringAdd8 ell (ringMul8 ell (s p) (s (NEXT p))) (r p) else r p)"

definition conv_u :: "nat \<Rightarrow> (pid \<Rightarrow> byte) \<Rightarrow> (pid \<Rightarrow> byte) \<Rightarrow> (pid \<Rightarrow> byte) \<Rightarrow> pid \<Rightarrow> byte" where
  "conv_u ell s D v p = (case p of P0 \<Rightarrow> v p | P1 \<Rightarrow> ringAdd8 ell (ringMul8 ell (D p) (s (NEXT p))) (v p)
    | P2 \<Rightarrow> ringAdd8 ell (ringMul8 ell (ringAdd8 ell (D p) (D (NEXT p))) (s p)) (v p))"

lemma conv_values:
  assumes "ell \<le> 8" "\<And>p. take_bit 1 (s p) = s p" "zero3 ell r" "zero3 ell v"
  shows "take_bit ell (sum3 (e_of ell s (d_of ell s (conv_q ell s r)) (conv_u ell s (d_of ell s (conv_q ell s r)) v))) =
    take_bit ell (take_bit 1 (sum3 s))"
  unfolding conv_u_def [abs_def] conv_q_def [abs_def] by (rule conv_value [OF assms])

lemma conv_sums:
  assumes ell: "ell \<le> 8" and s: "sums_to 1 s xs" "\<And>p i. i < length xs \<Longrightarrow> take_bit 1 (s p ! i) = s p ! i"
    and z: "sums_to ell r (replicate (length xs) 0)" "sums_to ell v (replicate (length xs) 0)"
    and D: "\<And>i. D i = d_of ell (\<lambda>p. s p ! i) (conv_q ell (\<lambda>p. s p ! i) (\<lambda>p. r p ! i))"
  shows "sums_to ell (\<lambda>p. tab (length xs) (\<lambda>i. e_of ell (\<lambda>p. s p ! i) (D i) (conv_u ell (\<lambda>p. s p ! i) (D i) (\<lambda>p. v p ! i)) p))
    (map (take_bit 1) xs)"
proof -
  have "take_bit ell (sum3 (e_of ell (\<lambda>p. s p ! i) (D i) (conv_u ell (\<lambda>p. s p ! i) (D i) (\<lambda>p. v p ! i)))) =
      take_bit ell (take_bit 1 (xs ! i))" if i: "i < length xs" for i
  proof -
    have z: "zero3 ell (\<lambda>p. r p ! i)" "zero3 ell (\<lambda>p. v p ! i)" using z i by (simp_all add: zero3_def sums_to_def)
    have "take_bit 1 (sum3 (\<lambda>p. s p ! i)) = take_bit 1 (xs ! i)" using s(1) i by (simp add: sums_to_sum3)
    then show ?thesis unfolding D conv_values [where s = "\<lambda>p. s p ! i", OF ell s(2) [OF i] z] by (rule arg_cong)
  qed
  then show ?thesis by (simp add: sums_to_sum3 sum3_def)
qed

section \<open>The protocol\<close>

text \<open>The summands of the three parties in the course of the protocol, as lists.\<close>

definition q_list :: "nat \<Rightarrow> nat \<Rightarrow> (pid \<Rightarrow> byte list) \<Rightarrow> (pid \<Rightarrow> byte list) \<Rightarrow> pid \<Rightarrow> byte list" where
  "q_list ell n s r p = tab n (\<lambda>i. conv_q ell (\<lambda>p. s p ! i) (\<lambda>p. r p ! i) p)"

definition d_list :: "nat \<Rightarrow> nat \<Rightarrow> (pid \<Rightarrow> byte list) \<Rightarrow> (pid \<Rightarrow> byte list) \<Rightarrow> pid \<Rightarrow> byte list" where
  "d_list ell n s q p = tab n (\<lambda>i. d_of ell (\<lambda>p. s p ! i) (\<lambda>p. q p ! i) p)"

definition u_list :: "nat \<Rightarrow> nat \<Rightarrow> (pid \<Rightarrow> byte list) \<Rightarrow> (pid \<Rightarrow> byte list) \<Rightarrow> (pid \<Rightarrow> byte list) \<Rightarrow> pid \<Rightarrow> byte list" where
  "u_list ell n s D v p = tab n (\<lambda>i. conv_u ell (\<lambda>p. s p ! i) (\<lambda>p. D p ! i) (\<lambda>p. v p ! i) p)"

definition e_list :: "nat \<Rightarrow> nat \<Rightarrow> (pid \<Rightarrow> byte list) \<Rightarrow> (pid \<Rightarrow> byte list) \<Rightarrow> (pid \<Rightarrow> byte list) \<Rightarrow> pid \<Rightarrow> byte list" where
  "e_list ell n s D u p = tab n (\<lambda>i. e_of ell (\<lambda>p. s p ! i) (\<lambda>p. D p ! i) (\<lambda>p. u p ! i) p)"

lemma list_lengths [simp]: "length (q_list ell n s r p) = n" "length (d_list ell n s r p) = n"
  "length (u_list ell n s D r p) = n" "length (e_list ell n s D r p) = n"
  by (simp_all add: q_list_def d_list_def u_list_def e_list_def)

lemma d_e_lists:
  "tab n (\<lambda>i. fst (conv_d ell p (s p ! i) (s (NEXT p) ! i) (q p ! i) (q (NEXT p) ! i))) = d_list ell n s q p"
  "tab n (\<lambda>i. snd (conv_d ell p (s p ! i) (s (NEXT p) ! i) (q p ! i) (q (NEXT p) ! i))) = d_list ell n s q (NEXT p)"
  "tab n (\<lambda>i. fst (conv_e ell p (s p ! i) (s (NEXT p) ! i) (D p ! i, D (NEXT p) ! i) (q p ! i) (q (NEXT p) ! i))) = e_list ell n s D q p"
  "tab n (\<lambda>i. snd (conv_e ell p (s p ! i) (s (NEXT p) ! i) (D p ! i, D (NEXT p) ! i) (q p ! i) (q (NEXT p) ! i))) = e_list ell n s D q (NEXT p)"
  using conv_replicated(1) [of ell p "\<lambda>p. s p ! i" "\<lambda>p. q p ! i" for i]
    conv_replicated(2) [of ell p "\<lambda>p. s p ! i" "\<lambda>p. D p ! i" "\<lambda>p. q p ! i" for i]
  by (simp_all add: d_list_def e_list_def)

lemma lists_sum:
  assumes "ell \<le> 8" "sums_to 1 s xs" "\<And>p i. i < length xs \<Longrightarrow> take_bit 1 (s p ! i) = s p ! i"
    and "sums_to ell r (replicate (length xs) 0)" "sums_to ell v (replicate (length xs) 0)"
  defines "D \<equiv> d_list ell (length xs) s (q_list ell (length xs) s r)"
  shows "sums_to ell (e_list ell (length xs) s D (u_list ell (length xs) s D v)) (map (take_bit 1) xs)"
proof -
  let ?D = "\<lambda>i. d_of ell (\<lambda>p. s p ! i) (conv_q ell (\<lambda>p. s p ! i) (\<lambda>p. r p ! i))"
  have "e_list ell (length xs) s D (u_list ell (length xs) s D v) =
      (\<lambda>p. tab (length xs) (\<lambda>i. e_of ell (\<lambda>p. s p ! i) (?D i) (conv_u ell (\<lambda>p. s p ! i) (?D i) (\<lambda>p. v p ! i)) p))"
    by (intro ext nth_equalityI) (simp_all add: e_list_def u_list_def D_def d_list_def q_list_def)
  then show ?thesis using conv_sums [OF assms(1-5) refl] by simp
qed

text \<open>The local parts before the first and before the second round.\<close>

lemma first_round:
  assumes A: "synced ccrh A" and heaps: "\<forall>k. heap_p k \<noteq> None" "\<forall>k. heap_t k \<noteq> None"
    and sb: "\<And>p. vec_at 1 (B p) (thisShare (U p)) (s p)" "\<And>p. vec_at 1 (B p) (nxtShare (U p)) (s (NEXT p))" "\<And>p. length (s p) = n"
    and V: "\<And>p. thisShare (V p) \<noteq> nxtShare (V p)"
    and at: "\<And>p. vec_at ell (St p) (thisShare (V p)) (a p)" "\<And>p. vec_at ell (St p) (nxtShare (V p)) (b p)"
      "\<And>p. length (a p) = n" "\<And>p. length (b p) = n"
    and P: "\<And>p. P p = Suc (max (thisShare (V p)) (nxtShare (V p)))" and T: "\<And>p. T p = Suc (P p)"
  obtains S A' r where "\<And>p. rbind (conv_lift ell (U p) (V p) (B p) n (St p)) (\<lambda>st. rbind (rv_new ell heap_p n) (\<lambda>v.
      rbind (rv_new ell heap_t n) (\<lambda>w. rbind (conv_vec_prod01 ell p (V p) (P p) (st(P p := v, T p := w))) (\<lambda>st.
      conv_mask ccrh ell (P p) (T p) st (A p))))) = Inr (S p, A' p)" "synced ccrh A'" "sums_to ell r (replicate n 0)"
    "\<And>p. quad ell (V p) (P p) (T p) (s p) (s (NEXT p)) (q_list ell n s r p) (r p) (St p) (S p)"
proof -
  have F: "four (V p) (P p) (T p)" for p using V by (auto simp: four_def P T)
  have ell: "1 \<le> ell" "ell \<le> 8" using vec_at_ell [OF at(1)] by simp_all
  define S0 where "S0 p = rbind (conv_lift ell (U p) (V p) (B p) n (St p)) (\<lambda>st. rbind (rv_new ell heap_p n) (\<lambda>v.
      rbind (rv_new ell heap_t n) (\<lambda>w. conv_vec_prod01 ell p (V p) (P p) (st(P p := v, T p := w)))))" for p
  define m1 where "m1 p = tab n (\<lambda>i. if p = P0 then ringMul8 ell (s p ! i) (s (NEXT p) ! i) else 0)" for p
  have "\<exists>st' d. S0 p = Inr st' \<and> quad ell (V p) (P p) (T p) (s p) (s (NEXT p)) (m1 p) d (St p) st' \<and> length d = n" for p
    unfolding S0_def m1_def by (rule start_quad [OF sb(1,2,3,3) V at heaps P T])
  then obtain S1 d1 where S1: "\<And>p. S0 p = Inr (S1 p)" and Q1: "\<And>p. quad ell (V p) (P p) (T p) (s p) (s (NEXT p)) (m1 p) (d1 p) (St p) (S1 p)"
    and d1: "\<And>p. length (d1 p) = n" by metis
  have "sized n [s p, s (NEXT p), m1 p, d1 p]" for p using sb(3) d1 by (simp add: sized_def m1_def)
  note mask = mask_all [OF A F Q1 this]
  obtain S2 A2 r where S2: "\<And>p. conv_mask ccrh ell (P p) (T p) (S1 p) (A p) = Inr (S2 p, A2 p)"
    and A2: "synced ccrh A2" and Q2: "\<And>p. quad ell (V p) (P p) (T p) (s p) (s (NEXT p)) (map2 (ringAdd8 ell) (m1 p) (r p)) (r p) (St p) (S2 p)"
    and r: "sums_to ell r (replicate n 0)" by (rule mask) (rule that, assumption+)
  have rl: "length (r p) = n" for p using r by (simp add: sums_to_def)
  have rr: "take_bit ell (r p ! i) = r p ! i" if "i < n" for p i using elem_low [OF quadD(4) [OF Q2]] that rl by simp
  have q: "map2 (ringAdd8 ell) (m1 p) (r p) = q_list ell n s r p" for p
    unfolding q_list_def by (rule tab_eqI) (simp_all add: rl rr m1_def conv_q_def ring_simps ell)
  have "rbind (S0 p) (\<lambda>st. conv_mask ccrh ell (P p) (T p) st (A p)) = Inr (S2 p, A2 p)" for p by (simp add: S1 S2)
  then show thesis by (intro that [of S2 A2 r] A2 r Q2 [unfolded q]) (simp only: S0_def rbind_assoc)
qed

lemma second_round:
  assumes A: "synced ccrh A" and F: "\<And>p. four (V p) (P p) (T p)"
    and sb: "\<And>p. vec_at 1 (B p) (thisShare (U p)) (s p)" "\<And>p. vec_at 1 (B p) (nxtShare (U p)) (s (NEXT p))" "\<And>p. length (s p) = n"
    and Q: "\<And>p. quad ell (V p) (P p) (T p) (s p) (s (NEXT p)) (q p) (q (NEXT p)) (S p) (St p)" "\<And>p. length (q p) = n"
  obtains S' A' v where "\<And>p. rbind (conv_double ell (P p) (T p) (St p)) (\<lambda>st. rbind (conv_vec_d ell p (V p) (P p) (T p) st) (\<lambda>st.
      rbind (conv_vec_prod2 ell p (U p) (V p) (B p) n (P p) st) (\<lambda>st. conv_mask ccrh ell (P p) (T p) st (A p)))) = Inr (S' p, A' p)"
    "synced ccrh A'" "sums_to ell v (replicate n 0)"
    "\<And>p. quad ell (V p) (P p) (T p) (d_list ell n s q p) (d_list ell n s q (NEXT p)) (u_list ell n s (d_list ell n s q) v p) (v p) (S p) (S' p)"
proof -
  let ?D = "d_list ell n s q"
  have ell: "1 \<le> ell" "ell \<le> 8" using vec_at_ell [OF quadD(1) [OF Q(1)]] by simp_all
  have len: "sized n [s p, s (NEXT p), q p, q (NEXT p)]" "sized n [?D p, ?D (NEXT p), map2 (ringAdd8 ell) (q p) (q p),
      map2 (ringAdd8 ell) (q (NEXT p)) (q (NEXT p)), s p, s (NEXT p)]" for p using sb(3) Q(2) by (simp_all add: sized_def)
  define m2 where "m2 p = tab n (\<lambda>i. case p of P0 \<Rightarrow> 0 | P1 \<Rightarrow> ringMul8 ell (?D p ! i) (s (NEXT p) ! i)
      | P2 \<Rightarrow> ringMul8 ell (ringAdd8 ell (?D p ! i) (?D (NEXT p) ! i)) (s p ! i))" for p
  define L where "L p = rbind (rbind (conv_double ell (P p) (T p) (St p)) (conv_vec_d ell p (V p) (P p) (T p)))
      (conv_vec_prod2 ell p (U p) (V p) (B p) n (P p))" for p
  have "\<exists>t. L p = Inr t \<and> quad ell (V p) (P p) (T p) (?D p) (?D (NEXT p)) (m2 p) (map2 (ringAdd8 ell) (q (NEXT p)) (q (NEXT p))) (S p) t" for p
    unfolding L_def m2_def
    by (rule then_ok, rule d_ok [OF F Q(1) len(1)], unfold d_e_lists, rule prod2_ok [OF F _ len(2) sb(1,2)])
  then obtain S1 where S1: "\<And>p. L p = Inr (S1 p)" and Q1: "\<And>p. quad ell (V p) (P p) (T p) (?D p) (?D (NEXT p)) (m2 p)
      (map2 (ringAdd8 ell) (q (NEXT p)) (q (NEXT p))) (S p) (S1 p)" by metis
  have "sized n [?D p, ?D (NEXT p), m2 p, map2 (ringAdd8 ell) (q (NEXT p)) (q (NEXT p))]" for p
    using Q(2) by (simp add: sized_def m2_def)
  note mask = mask_all [OF A F Q1 this]
  obtain S2 A2 v where S2: "\<And>p. conv_mask ccrh ell (P p) (T p) (S1 p) (A p) = Inr (S2 p, A2 p)" and A2: "synced ccrh A2"
    and Q2: "\<And>p. quad ell (V p) (P p) (T p) (?D p) (?D (NEXT p)) (map2 (ringAdd8 ell) (m2 p) (v p)) (v p) (S p) (S2 p)"
    and v: "sums_to ell v (replicate n 0)" by (rule mask) (rule that, assumption+)
  have vl: "length (v p) = n" for p using v by (simp add: sums_to_def)
  have vr: "take_bit ell (v p ! i) = v p ! i" if "i < n" for p i using elem_low [OF quadD(4) [OF Q2]] that vl by simp
  have u: "map2 (ringAdd8 ell) (m2 p) (v p) = u_list ell n s ?D v p" for p
    unfolding u_list_def by (rule tab_eqI; cases p) (simp_all add: vl vr m2_def conv_u_def ring_simps ell)
  have "rbind (L p) (\<lambda>st. conv_mask ccrh ell (P p) (T p) st (A p)) = Inr (S2 p, A2 p)" for p by (simp add: S1 S2)
  then show thesis by (intro that [of S2 A2 v] A2 v Q2 [unfolded u]) (simp only: L_def rbind_assoc)
qed

lemma ringConv_vec_runs:
  assumes cap: "0 < cap" and A: "synced ccrh A" and heaps: "\<forall>k. heap_p k \<noteq> None" "\<forall>k. heap_t k \<noteq> None"
    and U: "vsharing 1 B U s" "sums_to 1 s xs" and ne: "xs \<noteq> []" and V: "\<And>p. thisShare (V p) \<noteq> nxtShare (V p)"
    and at: "\<And>p. vec_at ell (St p) (thisShare (V p)) (a p)" "\<And>p. vec_at ell (St p) (nxtShare (V p)) (b p)"
      "\<And>p. length (a p) = length xs" "\<And>p. length (b p) = length xs"
  shows "\<exists>St' A'. ends_with cap (\<lambda>p. ringConv_vec ccrh heap_p heap_t ell p (U p) (V p) (B p) (St p) (A p)) (\<lambda>p. (St' p, A' p)) \<and>
    synced ccrh A' \<and> rep3_vec ell St' V (map (take_bit 1) xs) \<and> (\<forall>p r. r \<notin> {thisShare (V p), nxtShare (V p)} \<longrightarrow> St' p r = St p r)"
proof -
  let ?n = "length xs"
  define P where "P p = Suc (max (thisShare (V p)) (nxtShare (V p)))" for p
  define T where "T p = Suc (P p)" for p
  have F: "four (V p) (P p) (T p)" for p using V by (auto simp: four_def P_def T_def)
  have sb: "vec_at 1 (B p) (thisShare (U p)) (s p)" "vec_at 1 (B p) (nxtShare (U p)) (s (NEXT p))" "length (s p) = ?n" for p
    using U by (simp_all add: vsharing_def sums_to_def)
  have n: "rv_size (B p (thisShare (U p))) = ?n" "?n \<noteq> 0" for p
    using vec_at_length [OF sb(1)] sb(3) ne by (simp_all add: rv_size_def)
  have ell: "ell \<le> 8" using vec_at_ell [OF at(1)] by simp
  have low: "take_bit 1 (s p ! i) = s p ! i" if "i < ?n" for p i using elem_low [OF sb(1)] that sb(3) by simp
  obtain S1 A1 r where L1: "\<And>p. rbind (conv_lift ell (U p) (V p) (B p) ?n (St p)) (\<lambda>st. rbind (rv_new ell heap_p ?n) (\<lambda>v.
      rbind (rv_new ell heap_t ?n) (\<lambda>w. rbind (conv_vec_prod01 ell p (V p) (P p) (st(P p := v, T p := w))) (\<lambda>st.
      conv_mask ccrh ell (P p) (T p) st (A p))))) = Inr (S1 p, A1 p)" and A1: "synced ccrh A1" and r: "sums_to ell r (replicate ?n 0)"
    and Q1: "\<And>p. quad ell (V p) (P p) (T p) (s p) (s (NEXT p)) (q_list ell ?n s r p) (r p) (St p) (S1 p)"
    by (rule first_round [where U = U and B = B and s = s and V = V and St = St and a = a and b = b and P = P and T = T, OF A heaps sb V at P_def T_def]) (rule that, assumption+)
  let ?q = "q_list ell ?n s r"
  have "sized ?n [s p, s (NEXT p), ?q p, r p]" for p using sb(3) r by (simp add: sized_def sums_to_def)
  note exchange = round_quad [OF cap F Q1 this]
  obtain S2 where R1: "ends_with cap (\<lambda>p. ring_data ell (P p) (T p) (bytesSize ell (S1 p (P p))) (S1 p)) S2"
    and Q2: "\<And>p. quad ell (V p) (P p) (T p) (s p) (s (NEXT p)) (?q p) (?q (NEXT p)) (St p) (S2 p)"
    by (rule exchange) (rule that, assumption+)
  let ?D = "d_list ell ?n s ?q"
  obtain S3 A3 v where L2: "\<And>p. rbind (conv_double ell (P p) (T p) (S2 p)) (\<lambda>st. rbind (conv_vec_d ell p (V p) (P p) (T p) st) (\<lambda>st.
      rbind (conv_vec_prod2 ell p (U p) (V p) (B p) ?n (P p) st) (\<lambda>st. conv_mask ccrh ell (P p) (T p) st (A1 p)))) = Inr (S3 p, A3 p)"
    and A3: "synced ccrh A3" and v: "sums_to ell v (replicate ?n 0)"
    and Q3: "\<And>p. quad ell (V p) (P p) (T p) (?D p) (?D (NEXT p)) (u_list ell ?n s ?D v p) (v p) (St p) (S3 p)"
    by (rule second_round [where U = U and B = B and s = s and V = V and St = S2 and q = ?q and P = P and T = T, OF A1 F sb Q2]) (simp, rule that, assumption+)
  let ?u = "u_list ell ?n s ?D v"
  have "sized ?n [?D p, ?D (NEXT p), ?u p, v p]" for p using v by (simp add: sized_def sums_to_def)
  note exchange = round_quad [OF cap F Q3 this]
  obtain S4 where R2: "ends_with cap (\<lambda>p. ring_data ell (P p) (T p) (bytesSize ell (S3 p (P p))) (S3 p)) S4"
    and Q4: "\<And>p. quad ell (V p) (P p) (T p) (?D p) (?D (NEXT p)) (?u p) (?u (NEXT p)) (St p) (S4 p)"
    by (rule exchange) (rule that, assumption+)
  let ?E = "e_list ell ?n s ?D ?u"
  have "sized ?n [?D p, ?D (NEXT p), ?u p, ?u (NEXT p), s p, s (NEXT p)]" for p using sb(3) by (simp add: sized_def)
  note fin = e_ok [OF F Q4 this sb(1,2)]
  have "\<exists>S5. rbind (conv_double ell (P p) (T p) (S4 p)) (conv_vec_e ell p (U p) (V p) (B p) ?n (P p) (T p)) = Inr S5 \<and>
      quad ell (V p) (P p) (T p) (?E p) (?E (NEXT p)) (map2 (ringAdd8 ell) (?u p) (?u p)) (map2 (ringAdd8 ell) (?u (NEXT p)) (?u (NEXT p))) (St p) S5" for p
    using fin [of p p] unfolding d_e_lists .
  then obtain S5 where L3: "\<And>p. rbind (conv_double ell (P p) (T p) (S4 p)) (conv_vec_e ell p (U p) (V p) (B p) ?n (P p) (T p)) = Inr (S5 p)"
    and Q5: "\<And>p. quad ell (V p) (P p) (T p) (?E p) (?E (NEXT p)) (map2 (ringAdd8 ell) (?u p) (?u p)) (map2 (ringAdd8 ell) (?u (NEXT p)) (?u (NEXT p))) (St p) (S5 p)"
    by metis
  let ?St = "\<lambda>p. (S5 p)(P p := St p (P p), T p := St p (T p))"
  define K2 where "K2 p a st = (lift_res (rbind (conv_double ell (P p) (T p) st) (\<lambda>st'.
      rbind (conv_vec_e ell p (U p) (V p) (B p) ?n (P p) (T p) st') (\<lambda>st'.
      Inr (st'(P p := St p (P p), T p := St p (T p)), a)))) :: store party)" for p st and a :: aby3
  define K1 where "K1 p a st = pbind (lift_res (rbind (conv_double ell (P p) (T p) st) (\<lambda>st. rbind (conv_vec_d ell p (V p) (P p) (T p) st) (\<lambda>st.
      rbind (conv_vec_prod2 ell p (U p) (V p) (B p) ?n (P p) st) (\<lambda>st. conv_mask ccrh ell (P p) (T p) st a))))) (\<lambda>(st', a).
      pbind (ring_data ell (P p) (T p) (bytesSize ell (st' (P p))) st') (K2 p a))" for p st a
  have start: "ringConv_vec ccrh heap_p heap_t ell p (U p) (V p) (B p) (St p) (A p) =
      pbind (ring_data ell (P p) (T p) (bytesSize ell (S1 p (P p))) (S1 p)) (K1 p (A1 p))" for p
    unfolding ringConv_vec_def Let_def n(1) P_def [symmetric] T_def [symmetric] L1 if_not_P [OF n(2)] lift_res_simps pbind.simps prod.case
      K1_def [abs_def] K2_def [abs_def] by (rule refl)
  have "K1 p (A1 p) (S2 p) = pbind (ring_data ell (P p) (T p) (bytesSize ell (S3 p (P p))) (S3 p)) (K2 p (A3 p))" for p
    unfolding K1_def L2 lift_res_simps pbind.simps prod.case by (rule refl)
  moreover have "K2 p (A3 p) (S4 p) = Ret (?St p, A3 p)" for p
    using L3 [of p] unfolding K2_def by (auto simp: rbind_eq_Inr)
  ultimately have "ends_with cap (\<lambda>p. ringConv_vec ccrh heap_p heap_t ell p (U p) (V p) (B p) (St p) (A p)) (\<lambda>p. (?St p, A3 p))"
    using runs_trans [OF runs_bind [OF R1, of "\<lambda>p. K1 p (A1 p)"]] runs_bind [OF R2, of "\<lambda>p. K2 p (A3 p)"] by (simp only: start)
  moreover have "vsharing ell ?St V ?E" "\<forall>p r. r \<notin> {thisShare (V p), nxtShare (V p)} \<longrightarrow> ?St p r = St p r"
    using Q5 four_ne [OF F] by (auto simp: vsharing_def quad_def)
  moreover have "sums_to ell ?E (map (take_bit 1) xs)" by (rule lists_sum [OF ell U(2) low r v])
  ultimately show ?thesis using A3 unfolding rep3_vec_def
    by (intro exI [of _ ?St] exI [of _ A3] exI [of _ ?E] conjI) assumption+
qed

lemma ringConv_vec_empty:
  assumes U: "vsharing 1 B U s" "\<And>p. length (s p) = 0"
    and at: "\<And>p. vec_at ell (St p) (thisShare (V p)) (a p)" "\<And>p. vec_at ell (St p) (nxtShare (V p)) (b p)"
      "\<And>p. length (a p) = 0" "\<And>p. length (b p) = 0"
  shows "ends_with cap (\<lambda>p. ringConv_vec ccrh heap_p heap_t ell p (U p) (V p) (B p) (St p) (A p)) (\<lambda>p. (St p, A p)) \<and> rep3_vec ell St V []"
proof -
  have "rv_size (B p (thisShare (U p))) = 0" for p
    using U vec_at_length [of 1 "B p" "thisShare (U p)" "s p"] by (simp add: vsharing_def rv_size_def)
  then have "ends_with cap (\<lambda>p. ringConv_vec ccrh heap_p heap_t ell p (U p) (V p) (B p) (St p) (A p)) (\<lambda>p. (St p, A p))"
    by (simp add: ringConv_vec_def runs_refl)
  moreover have "vsharing ell St V (\<lambda>_. [])" "sums_to ell (\<lambda>_. []) []"
    using at by (simp_all add: vsharing_def sums_to_def)
  ultimately show ?thesis unfolding rep3_vec_def by blast
qed

section \<open>Property\<close>

text \<open>C12: \<open>ringConv\<close> turns a sharing of a vector of bits into a sharing of the same values modulo
  \<open>2 ^ ell\<close>, in every schedule, and changes no other vector; the empty vector is left alone.\<close>

theorem vector_bit_conversion:
  assumes "0 < cap" "synced ccrh A" "\<forall>k. heap_p k \<noteq> None" "\<forall>k. heap_t k \<noteq> None"
    and "rep3_vec 1 B U xs" "\<And>p. thisShare (V p) \<noteq> nxtShare (V p)"
    and "\<And>p. vec_at ell (St p) (thisShare (V p)) (a p)" "\<And>p. vec_at ell (St p) (nxtShare (V p)) (b p)"
      "\<And>p. length (a p) = length xs" "\<And>p. length (b p) = length xs"
  shows "\<exists>St' A'. completes ring_peer cap (\<lambda>p. ringConv_vec ccrh heap_p heap_t ell p (U p) (V p) (B p) (St p) (A p))
      (\<lambda>p. (St' p, A' p)) \<and> synced ccrh A' \<and> rep3_vec ell St' V (map (take_bit 1) xs) \<and>
    (\<forall>p r. r \<notin> {thisShare (V p), nxtShare (V p)} \<longrightarrow> St' p r = St p r)"
proof -
  obtain s where s: "vsharing 1 B U s" "sums_to 1 s xs" using assms(5) unfolding rep3_vec_def by blast
  show ?thesis
  proof (rule every_schedule, cases "xs = []")
    case True
    have "\<And>p. length (s p) = 0" "\<And>p. length (a p) = 0" "\<And>p. length (b p) = 0" using s(2) assms(9,10) True by (simp_all add: sums_to_def)
    note ringConv_vec_empty [where A = A and cap = cap and ccrh = ccrh and heap_p = heap_p and heap_t = heap_t, OF s(1) this(1) assms(7,8) this(2,3)]
    then show "\<exists>St' A'. ends_with cap (\<lambda>p. ringConv_vec ccrh heap_p heap_t ell p (U p) (V p) (B p) (St p) (A p)) (\<lambda>p. (St' p, A' p)) \<and>
      synced ccrh A' \<and> rep3_vec ell St' V (map (take_bit 1) xs) \<and> (\<forall>p r. r \<notin> {thisShare (V p), nxtShare (V p)} \<longrightarrow> St' p r = St p r)"
      using assms(2) True by (intro exI [of _ St] exI [of _ A]) simp
  qed (rule ringConv_vec_runs [OF assms(1-4) s _ assms(6-10)])
qed

text \<open>Objects 0 and 1 hold the members of a sharing of the bits 1, 0.\<close>

definition bit_cells :: "pid \<Rightarrow> store" where
  "bit_cells p r = \<lparr>n_elems = 2, n_words = 1, d64 = [if (if r = 0 then p else NEXT p) = P1 then 1 else 3], d8 = []\<rparr>"

lemma bit_cells_sharing: "rep3_vec 1 bit_cells (\<lambda>_. v01) [1, 0]"
proof -
  have at: "vec_at 1 (bit_cells p) r (if (if r = 0 then p else NEXT p) = P1 then [1, 0] else [1, 1])" for p r
    by (simp add: vec_at_def bit_cells_def rv_ok_def wordsFor_def ELEMS_PER_WORD_def usz_def elems_def elem_def upt_numerals)
  show ?thesis unfolding rep3_vec_def vsharing_def
    using at [of _ 0] at [of _ 1]
    by (intro exI [of _ "\<lambda>p. if p = P1 then [1, 0] else [1, 1]"]) (simp add: sums_to_def less_Suc_eq take_bit_eq_mod del: One_nat_def)
qed

lemma cells_at_5: "2 \<le> r \<Longrightarrow> vec_at 5 (cells p) r [7, 9]"
  by (auto simp: vec_at_def cells_def Let_def bytes_vec_def rv_ok_byte elem_byte less_Suc_eq intro!: nth_equalityI)

theorem vector_bit_conversion_witness:
  "\<exists>St' A'. completes ring_peer 1 (\<lambda>p. ringConv_vec (XOR) (\<lambda>_. Some (\<lambda>_. 0)) (\<lambda>_. Some (\<lambda>_. 9)) 5 p v01 v23 (bit_cells p) (cells p) (fresh p))
      (\<lambda>p. (St' p, A' p)) \<and> synced (XOR) A' \<and> rep3_vec 5 St' (\<lambda>_. v23) (map (take_bit 1) [1, 0]) \<and>
    (\<forall>p r. r \<notin> {thisShare v23, nxtShare v23} \<longrightarrow> St' p r = cells p r)"
  by (rule vector_bit_conversion [OF _ fresh_synced _ _ bit_cells_sharing _ cells_at_5 cells_at_5]) simp_all

end
