(* ===== verification/Workers.thy ===== *)
theory Workers
  imports Parties
begin

text \<open>
  The two I/O workers of an \<open>Aby3\<close> object (\<^verbatim>\<open>include/ref_impl/shr_rep3/aby3.hpp\<close>): the handshake by
  mutexes, condition variables and flags between the calling thread and \<open>sendLoop\<close> and
  \<open>recvLoop\<close>, at the granularity of the critical sections, and the loops over the chunks of a transfer. A critical
  section is one step, so is every \<open>notify_one\<close>, a notification nobody waits for is lost, and every chunk a worker sends or receives
  is a step, in which the channel may throw. The bytes that come from the next party are a given sequence; how the three
  parties' transfers wait for each other is the matter of \<open>Net\<close> and \<open>Parties\<close>.
\<close>

section \<open>State\<close>

datatype worker = SendWorker | RecvWorker

text \<open>A transfer: the memory at the pointer that the caller passes, and \<open>totalBytes\<close>.\<close>

record xfer =
  x_buf :: "byte list"
  x_total :: nat

text \<open>Where a worker is: about to test its predicate, blocked on the condition variable, in the
  loop over the chunks of its job, after it, before \<open>notify_one\<close>, returned.\<close>

datatype wpc = WCheck | WBlocked | WJob | WFinish | WNotify | WExit

text \<open>What the calling thread has left to do.\<close>

datatype 'j stmt =
    SetJob worker 'j
  | Notify worker
  | Wait worker
  | Rethrow
  | Shutdown
  | Halt
  | Raise worker
  | JoinThread worker

text \<open>\<open>waits\<close>: the calling thread is blocked on the condition variable of the \<open>Wait\<close> in front. \<open>off\<close> is the
  loop variable of a worker; \<open>area\<close> is what the sender has passed on of its current job, and the receiver's buffer.
  \<open>incoming\<close> are the bytes the next party sends, \<open>taken\<close> how many were received, \<open>sent\<close> those passed on to
  the previous party. For the properties, \<open>log\<close> records the jobs performed with their exceptions, \<open>areas\<close> and \<open>amounts\<close> what
  each left behind and how many bytes it moved, \<open>outcomes\<close> what each call threw.\<close>

record workers =
  prog :: "xfer stmt list"
  waits :: bool
  shut :: bool
  job :: "worker \<Rightarrow> xfer"
  ready :: "worker \<Rightarrow> bool"
  ended :: "worker \<Rightarrow> bool"
  pc :: "worker \<Rightarrow> wpc"
  err :: "worker \<Rightarrow> error option"
  log :: "worker \<Rightarrow> (xfer \<times> error option) list"
  outcomes :: "error option list"
  off :: "worker \<Rightarrow> nat"
  area :: "worker \<Rightarrow> byte list"
  areas :: "worker \<Rightarrow> byte list list"
  amounts :: "worker \<Rightarrow> nat list"
  incoming :: "nat \<Rightarrow> byte"
  taken :: nat
  sent :: "byte list"

section \<open>The calling thread\<close>

definition reshare_code :: "'j \<times> 'j \<Rightarrow> 'j stmt list" where
  "reshare_code c =
     [SetJob SendWorker (fst c), Notify SendWorker, SetJob RecvWorker (snd c), Notify RecvWorker,
      Wait SendWorker, Wait RecvWorker, Rethrow]"

definition shutdown_code :: "'j stmt list" where
  "shutdown_code = [Halt, Notify SendWorker, Raise RecvWorker, Notify RecvWorker, JoinThread SendWorker, JoinThread RecvWorker]"

definition main_step :: "workers \<Rightarrow> workers option" where
  "main_step \<sigma> = (case prog \<sigma> of
     [] \<Rightarrow> None
   | SetJob w j # P \<Rightarrow> Some (\<sigma>\<lparr>prog := P, job := (job \<sigma>)(w := j), ready := (ready \<sigma>)(w := True)\<rparr>)
   | Notify w # P \<Rightarrow> Some (\<sigma>\<lparr>prog := P, pc := (if pc \<sigma> w = WBlocked then (pc \<sigma>)(w := WCheck) else pc \<sigma>)\<rparr>)
   | Wait w # P \<Rightarrow>
       (if waits \<sigma> then None
        else if ended \<sigma> w then Some (\<sigma>\<lparr>prog := P, ended := (ended \<sigma>)(w := False)\<rparr>)
        else Some (\<sigma>\<lparr>waits := True\<rparr>))
   | Rethrow # P \<Rightarrow> Some (\<sigma>\<lparr>prog := P, outcomes := outcomes \<sigma> @
       [case err \<sigma> SendWorker of Some e \<Rightarrow> Some e | None \<Rightarrow> err \<sigma> RecvWorker]\<rparr>)
   | Shutdown # P \<Rightarrow> Some (\<sigma>\<lparr>prog := (if shut \<sigma> then P else shutdown_code @ P)\<rparr>)
   | Halt # P \<Rightarrow> Some (\<sigma>\<lparr>prog := P, shut := True, ready := (ready \<sigma>)(SendWorker := True)\<rparr>)
   | Raise w # P \<Rightarrow> Some (\<sigma>\<lparr>prog := P, ready := (ready \<sigma>)(w := True)\<rparr>)
   | JoinThread w # P \<Rightarrow> (if pc \<sigma> w = WExit then Some (\<sigma>\<lparr>prog := P\<rparr>) else None))"

section \<open>The workers\<close>

fun waits_for :: "worker \<Rightarrow> 'j stmt list \<Rightarrow> bool" where
  "waits_for w (Wait w' # P) = (w' = w)"
| "waits_for w P = False"

text \<open>What the channel does with a chunk: it moves all of it, or throws after some bytes.\<close>

datatype chunk = Whole | Threw error nat

text \<open>\<open>send_data(snd + off, n)\<close> and \<open>recv_data(rcv + off, n)\<close>.\<close>

definition overwrite :: "byte list \<Rightarrow> nat \<Rightarrow> byte list \<Rightarrow> byte list" where
  "overwrite mem k bs = take k mem @ bs @ drop (k + length bs) mem"

definition transfer :: "worker \<Rightarrow> nat \<Rightarrow> workers \<Rightarrow> workers" where
  "transfer w n \<sigma> = (case w of
     SendWorker \<Rightarrow> let bs = take n (drop (off \<sigma> w) (x_buf (job \<sigma> w)))
       in \<sigma>\<lparr>sent := sent \<sigma> @ bs, area := (area \<sigma>)(w := area \<sigma> w @ bs)\<rparr>
   | RecvWorker \<Rightarrow> let bs = map (incoming \<sigma>) [taken \<sigma>..<taken \<sigma> + n]
       in \<sigma>\<lparr>taken := taken \<sigma> + n, area := (area \<sigma>)(w := overwrite (area \<sigma> w) (off \<sigma> w) bs)\<rparr>)"

text \<open>The end of a job, which has moved \<open>n\<close> bytes; the first exception is kept.\<close>

definition job_ends :: "worker \<Rightarrow> nat \<Rightarrow> error option \<Rightarrow> workers \<Rightarrow> workers" where
  "job_ends w n e \<sigma> = \<sigma>\<lparr>pc := (pc \<sigma>)(w := WFinish), log := (log \<sigma>)(w := log \<sigma> w @ [(job \<sigma> w, e)]),
     err := (err \<sigma>)(w := if err \<sigma> w = None then e else err \<sigma> w),
     areas := (areas \<sigma>)(w := areas \<sigma> w @ [area \<sigma> w]), amounts := (amounts \<sigma>)(w := amounts \<sigma> w @ [n])\<rparr>"

definition chunk_step :: "chunk \<Rightarrow> worker \<Rightarrow> workers \<Rightarrow> workers" where
  "chunk_step out w \<sigma> = (let tot = x_total (job \<sigma> w); k = off \<sigma> w in
     if k < tot
     then let n = min CHUNK (tot - k) in
       (case out of
          Whole \<Rightarrow> (transfer w n \<sigma>)\<lparr>off := (off \<sigma>)(w := k + CHUNK)\<rparr>
        | Threw e i \<Rightarrow> job_ends w (k + min i n) (Some e) (transfer w (min i n) \<sigma>))
     else job_ends w tot None \<sigma>)"

definition worker_step :: "chunk \<Rightarrow> worker \<Rightarrow> workers \<Rightarrow> workers option" where
  "worker_step out w \<sigma> = (case pc \<sigma> w of
     WCheck \<Rightarrow>
       if \<not> ready \<sigma> w then Some (\<sigma>\<lparr>pc := (pc \<sigma>)(w := WBlocked)\<rparr>)
       else if shut \<sigma> then Some (\<sigma>\<lparr>pc := (pc \<sigma>)(w := WExit)\<rparr>)
       else Some (\<sigma>\<lparr>pc := (pc \<sigma>)(w := WJob), off := (off \<sigma>)(w := 0),
         area := (area \<sigma>)(w := case w of SendWorker \<Rightarrow> [] | RecvWorker \<Rightarrow> x_buf (job \<sigma> w))\<rparr>)
   | WBlocked \<Rightarrow> None
   | WJob \<Rightarrow> Some (chunk_step out w \<sigma>)
   | WFinish \<Rightarrow> Some (\<sigma>\<lparr>pc := (pc \<sigma>)(w := WNotify), ready := (ready \<sigma>)(w := False), ended := (ended \<sigma>)(w := True)\<rparr>)
   | WNotify \<Rightarrow> Some (\<sigma>\<lparr>pc := (pc \<sigma>)(w := WCheck),
       waits := (waits \<sigma> \<and> \<not> waits_for w (prog \<sigma>))\<rparr>)
   | WExit \<Rightarrow> None)"

inductive step :: "workers \<Rightarrow> workers \<Rightarrow> bool" where
  main: "main_step \<sigma> = Some \<tau> \<Longrightarrow> step \<sigma> \<tau>"
| worker: "worker_step out w \<sigma> = Some \<tau> \<Longrightarrow> step \<sigma> \<tau>"

text \<open>A blocked thread may also wake up without a notification.\<close>

inductive wakeup :: "workers \<Rightarrow> workers \<Rightarrow> bool" where
  wake_main: "waits \<sigma> \<Longrightarrow> wakeup \<sigma> (\<sigma>\<lparr>waits := False\<rparr>)"
| wake_worker: "pc \<sigma> w = WBlocked \<Longrightarrow> wakeup \<sigma> (\<sigma>\<lparr>pc := (pc \<sigma>)(w := WCheck)\<rparr>)"

inductive reached :: "workers \<Rightarrow> workers \<Rightarrow> bool" for \<sigma>0 where
  refl: "reached \<sigma>0 \<sigma>0"
| by_step: "reached \<sigma>0 \<sigma> \<Longrightarrow> step \<sigma> \<tau> \<Longrightarrow> reached \<sigma>0 \<tau>"
| by_wakeup: "reached \<sigma>0 \<sigma> \<Longrightarrow> wakeup \<sigma> \<tau> \<Longrightarrow> reached \<sigma>0 \<tau>"

text \<open>The object after its construction, with a sequence of calls ahead, then \<open>shutdown\<close> and the
  destructor's second \<open>shutdown\<close>.\<close>

definition workers_new :: "(nat \<Rightarrow> byte) \<Rightarrow> xfer \<Rightarrow> (xfer \<times> xfer) list \<Rightarrow> workers" where
  "workers_new bytes null calls =
     \<lparr>prog = concat (map reshare_code calls) @ [Shutdown, Shutdown], waits = False, shut = False,
      job = (\<lambda>_. null), ready = (\<lambda>_. False), ended = (\<lambda>_. False), pc = (\<lambda>_. WCheck), err = (\<lambda>_. None),
      log = (\<lambda>_. []), outcomes = [], off = (\<lambda>_. 0), area = (\<lambda>_. []), areas = (\<lambda>_. []), amounts = (\<lambda>_. []),
      incoming = bytes, taken = 0, sent = []\<rparr>"

end
