(* ===== verification/Workers_Facts.thy ===== *)
theory Workers_Facts
  imports Workers
begin

text \<open>
  The invariant of the handshake, its progress, and what a whole run of calls leaves behind.
\<close>

section \<open>Phases\<close>

text \<open>Where the calling thread stands with respect to one worker, read off the statements ahead:
  between calls, after setting the job and before notifying, before the end of the wait; in
  \<open>shutdown\<close> also waiting for the thread's end, and after it.\<close>

datatype stage = Quiet | Armed | Waiting | Joining | Gone

fun phase :: "bool \<Rightarrow> worker \<Rightarrow> 'j stmt list \<Rightarrow> stage" where
  "phase d w [] = (if d then Gone else Quiet)"
| "phase d w (SetJob v j # P) = (if v = w then Quiet else phase d w P)"
| "phase d w (Notify v # P) = (if v = w then Armed else phase d w P)"
| "phase d w (Wait v # P) = (if v = w then Waiting else phase d w P)"
| "phase d w (Rethrow # P) = phase d w P"
| "phase d w (Shutdown # P) = (if d then phase d w P else Quiet)"
| "phase d w (Halt # P) = Quiet"
| "phase d w (Raise v # P) = (if v = w then Quiet else phase d w P)"
| "phase d w (JoinThread v # P) = (if v = w then Joining else phase d w P)"

primrec todo :: "worker \<Rightarrow> 'j stmt list \<Rightarrow> 'j list" where
  "todo w [] = []"
| "todo w (s # P) = (case s of SetJob v j \<Rightarrow> if v = w then [j] else [] | _ \<Rightarrow> []) @ todo w P"

primrec rethrows :: "'j stmt list \<Rightarrow> nat" where
  "rethrows [] = 0"
| "rethrows (s # P) = (case s of Rethrow \<Rightarrow> 1 | _ \<Rightarrow> 0) + rethrows P"

text \<open>The programs a thread that uses the object properly can have ahead: nothing but \<open>shutdown\<close>
  after \<open>shutdown\<close>.\<close>

fun proper :: "bool \<Rightarrow> 'j stmt list \<Rightarrow> bool" where
  "proper d [] = True"
| "proper d (SetJob v j # P) = (\<not> d \<and> phase d v P = Armed \<and> proper d P)"
| "proper d (Notify v # P) = (phase d v P = (if d then Joining else Waiting) \<and> proper d P)"
| "proper d (Wait v # P) = (\<not> d \<and> phase d v P = Quiet \<and> proper d P)"
| "proper d (Rethrow # P) = (\<not> d \<and> (\<forall>w. phase d w P = Quiet \<and> length (todo w P) = rethrows P) \<and> proper d P)"
| "proper d (Shutdown # P) = (proper True P \<and> (\<forall>w. phase True w P = Gone \<and> todo w P = []) \<and> rethrows P = 0)"
| "proper d (Halt # P) = (\<not> d \<and> phase True SendWorker P = Armed \<and> phase True RecvWorker P = Quiet \<and> proper True P)"
| "proper d (Raise v # P) = (d \<and> phase d v P = Armed \<and> proper d P)"
| "proper d (JoinThread v # P) = (d \<and> phase d v P = Gone \<and> proper d P)"

lemma all_workers: "(\<forall>w. Q w) \<longleftrightarrow> Q SendWorker \<and> Q RecvWorker"
  by (metis worker.exhaust)

lemma todo_append [simp]: "todo w (P @ Q) = todo w P @ todo w Q" and rethrows_append [simp]: "rethrows (P @ Q) = rethrows P + rethrows Q"
  by (induction P) simp_all

lemma calls_program:
  "proper False (concat (map reshare_code cs) @ [Shutdown, Shutdown]) \<and>
    (\<forall>w. phase False w (concat (map reshare_code cs) @ [Shutdown, Shutdown]) = Quiet \<and>
      todo w (concat (map reshare_code cs)) = map (case w of SendWorker \<Rightarrow> fst | RecvWorker \<Rightarrow> snd) cs) \<and>
    rethrows (concat (map reshare_code cs)) = length cs"
  by (induction cs) (simp_all add: reshare_code_def all_workers)

section \<open>The invariant\<close>

definition at_rest :: "wpc set" where "at_rest = {WCheck, WBlocked, WNotify}"

text \<open>The flags and the worker's place in each phase.\<close>

fun fits :: "stage \<Rightarrow> bool \<Rightarrow> bool \<Rightarrow> bool \<Rightarrow> wpc \<Rightarrow> bool" where
  "fits Quiet d r e p = (\<not> r \<and> \<not> e \<and> p \<in> at_rest)"
| "fits Armed d r e p = (if d then r \<and> \<not> e \<and> p \<in> at_rest \<union> {WExit}
       else if r then \<not> e \<and> p \<noteq> WExit else e \<and> p \<in> at_rest)"
| "fits Waiting d r e p = (\<not> d \<and> (if r then \<not> e \<and> p \<noteq> WExit \<and> p \<noteq> WBlocked else e \<and> p \<in> at_rest))"
| "fits Joining d r e p = (d \<and> r \<and> \<not> e \<and> p \<in> {WCheck, WNotify, WExit})"
| "fits Gone d r e p = (p = WExit)"

abbreviation "in_phase ph w \<sigma> \<equiv> fits ph (shut \<sigma>) (ready \<sigma> w) (ended \<sigma> w) (pc \<sigma> w)"

definition pending :: "worker \<Rightarrow> workers \<Rightarrow> xfer list" where
  "pending w \<sigma> = (if ready \<sigma> w \<and> \<not> shut \<sigma> \<and> pc \<sigma> w \<noteq> WFinish then [job \<sigma> w] else [])"

definition first_err :: "error option list \<Rightarrow> error option" where
  "first_err es = (case dropWhile (\<lambda>e. e = None) es of [] \<Rightarrow> None | e # _ \<Rightarrow> e)"

definition outcome_of :: "error option list \<Rightarrow> error option list \<Rightarrow> error option" where
  "outcome_of ss rs = (case first_err ss of Some e \<Rightarrow> Some e | None \<Rightarrow> first_err rs)"

definition errs :: "worker \<Rightarrow> workers \<Rightarrow> error option list" where
  "errs w \<sigma> = map snd (log \<sigma> w)"

text \<open>Flags.\<close>

definition flags_ok :: "workers \<Rightarrow> bool" where
  "flags_ok \<sigma> \<longleftrightarrow> proper (shut \<sigma>) (prog \<sigma>) \<and> (\<forall>w. in_phase (phase (shut \<sigma>) w (prog \<sigma>)) w \<sigma>) \<and>
     (waits \<sigma> \<longrightarrow> (\<exists>w P. prog \<sigma> = Wait w # P \<and> (ended \<sigma> w \<longrightarrow> pc \<sigma> w = WNotify)))"

text \<open>The jobs performed, in order.\<close>

definition log_ok :: "(xfer \<times> xfer) list \<Rightarrow> workers \<Rightarrow> bool" where
  "log_ok cs \<sigma> \<longleftrightarrow> (\<forall>w. map fst (log \<sigma> w) @ pending w \<sigma> @ todo w (prog \<sigma>) = map (case w of SendWorker \<Rightarrow> fst | RecvWorker \<Rightarrow> snd) cs \<and>
       err \<sigma> w = first_err (errs w \<sigma>)) \<and>
     length (outcomes \<sigma>) + rethrows (prog \<sigma>) = length cs \<and>
     (\<forall>k<length (outcomes \<sigma>). (\<forall>w. k < length (log \<sigma> w)) \<and>
        outcomes \<sigma> ! k = outcome_of (take (Suc k) (errs SendWorker \<sigma>)) (take (Suc k) (errs RecvWorker \<sigma>)))"

lemma first_err_snoc: "first_err (es @ [e]) = (if first_err es = None then e else first_err es)"
  by (induction es) (auto simp: first_err_def)

lemma start_ok: "flags_ok (workers_new bytes null cs)" "log_ok cs (workers_new bytes null cs)"
  using calls_program [of cs]
  by (auto simp: flags_ok_def log_ok_def workers_new_def at_rest_def pending_def errs_def first_err_def)

text \<open>The calling thread.\<close>

lemma flagsI:
  "proper (shut \<sigma>) (prog \<sigma>) \<Longrightarrow> (\<And>w. in_phase (phase (shut \<sigma>) w (prog \<sigma>)) w \<sigma>) \<Longrightarrow>
    (waits \<sigma> \<Longrightarrow> \<exists>w P. prog \<sigma> = Wait w # P \<and> (ended \<sigma> w \<longrightarrow> pc \<sigma> w = WNotify)) \<Longrightarrow> flags_ok \<sigma>"
  by (simp add: flags_ok_def)

lemma flagsD:
  assumes "flags_ok \<sigma>"
  shows "proper (shut \<sigma>) (prog \<sigma>)" "in_phase (phase (shut \<sigma>) w (prog \<sigma>)) w \<sigma>"
    "waits \<sigma> \<Longrightarrow> \<exists>w P. prog \<sigma> = Wait w # P \<and> (ended \<sigma> w \<longrightarrow> pc \<sigma> w = WNotify)"
  using assms by (simp_all add: flags_ok_def)

lemma main_cases [consumes 1, case_names set notify wait block rethrow again shutdown halt raise join]:
  assumes "main_step \<sigma> = Some \<tau>"
  obtains v j P where "prog \<sigma> = SetJob v j # P" "\<tau> = \<sigma>\<lparr>prog := P, job := (job \<sigma>)(v := j), ready := (ready \<sigma>)(v := True)\<rparr>"
  | v P where "prog \<sigma> = Notify v # P" "\<tau> = \<sigma>\<lparr>prog := P, pc := (if pc \<sigma> v = WBlocked then (pc \<sigma>)(v := WCheck) else pc \<sigma>)\<rparr>"
  | v P where "prog \<sigma> = Wait v # P" "\<not> waits \<sigma>" "ended \<sigma> v" "\<tau> = \<sigma>\<lparr>prog := P, ended := (ended \<sigma>)(v := False)\<rparr>"
  | v P where "prog \<sigma> = Wait v # P" "\<not> waits \<sigma>" "\<not> ended \<sigma> v" "\<tau> = \<sigma>\<lparr>waits := True\<rparr>"
  | P where "prog \<sigma> = Rethrow # P" "\<tau> = \<sigma>\<lparr>prog := P, outcomes := outcomes \<sigma> @
       [case err \<sigma> SendWorker of Some e \<Rightarrow> Some e | None \<Rightarrow> err \<sigma> RecvWorker]\<rparr>"
  | P where "prog \<sigma> = Shutdown # P" "shut \<sigma>" "\<tau> = \<sigma>\<lparr>prog := P\<rparr>"
  | P where "prog \<sigma> = Shutdown # P" "\<not> shut \<sigma>" "\<tau> = \<sigma>\<lparr>prog := shutdown_code @ P\<rparr>"
  | P where "prog \<sigma> = Halt # P" "\<tau> = \<sigma>\<lparr>prog := P, shut := True, ready := (ready \<sigma>)(SendWorker := True)\<rparr>"
  | v P where "prog \<sigma> = Raise v # P" "\<tau> = \<sigma>\<lparr>prog := P, ready := (ready \<sigma>)(v := True)\<rparr>"
  | v P where "prog \<sigma> = JoinThread v # P" "pc \<sigma> v = WExit" "\<tau> = \<sigma>\<lparr>prog := P\<rparr>"
proof (cases "prog \<sigma>")
  case Nil
  then show ?thesis using assms by (simp add: main_step_def)
next
  case (Cons s P)
  note st = assms [unfolded main_step_def Cons list.case]
  show ?thesis
  proof (cases s)
    case (Wait v)
    then show ?thesis using st that(3,4) [of v P] Cons by (auto split: if_splits)
  next
    case Shutdown
    then show ?thesis using st that(6,7) [of P] Cons by (cases "shut \<sigma>") simp_all
  next
    case (JoinThread v)
    then show ?thesis using st that(10) [of v P] Cons by (cases "pc \<sigma> v = WExit") simp_all
  next
    case (SetJob v j)
    show ?thesis by (rule that(1)) (use st Cons SetJob in auto)
  next
    case (Notify v)
    show ?thesis by (rule that(2)) (use st Cons Notify in auto)
  next
    case Rethrow
    show ?thesis by (rule that(5)) (use st Cons Rethrow in auto)
  next
    case Halt
    show ?thesis by (rule that(8)) (use st Cons Halt in auto)
  next
    case (Raise v)
    show ?thesis by (rule that(9)) (use st Cons Raise in auto)
  qed
qed

lemma main_flags:
  assumes ok: "flags_ok \<sigma>" and st: "main_step \<sigma> = Some \<tau>"
  shows "flags_ok \<tau>"
  using st
proof (cases rule: main_cases)
  case (set v j P)
  note f = flagsD [OF ok, unfolded set(1)]
  show ?thesis
  proof (rule flagsI)
    show "in_phase (phase (shut \<tau>) w (prog \<tau>)) w \<tau>" for w
      using f(1) f(2) [of w] by (cases "v = w") (auto simp: set(2) at_rest_def)
  qed (use f in \<open>auto simp: set(2)\<close>)
next
  case (notify v P)
  note f = flagsD [OF ok, unfolded notify(1)]
  show ?thesis
  proof (rule flagsI)
    show "in_phase (phase (shut \<tau>) w (prog \<tau>)) w \<tau>" for w
      using f(1) f(2) [of w] by (cases "v = w") (auto simp: notify(2) at_rest_def split: if_splits)
  qed (use f in \<open>auto simp: notify(2) split: if_splits\<close>)
next
  case (wait v P)
  note f = flagsD [OF ok, unfolded wait(1)]
  show ?thesis
  proof (rule flagsI)
    show "in_phase (phase (shut \<tau>) w (prog \<tau>)) w \<tau>" for w
      using f(1) f(2) [of w] wait(3) by (cases "v = w") (auto simp: wait(4) split: if_splits)
  qed (use f wait(2) in \<open>auto simp: wait(4)\<close>)
next
  case (block v P)
  note f = flagsD [OF ok]
  show ?thesis
  proof (rule flagsI)
    show "in_phase (phase (shut \<tau>) w (prog \<tau>)) w \<tau>" for w using f(2) [of w] by (simp add: block(4))
  qed (use f block in auto)
next
  case (rethrow P)
  note f = flagsD [OF ok, unfolded rethrow(1)]
  show ?thesis
  proof (rule flagsI)
    show "in_phase (phase (shut \<tau>) w (prog \<tau>)) w \<tau>" for w using f(2) [of w] by (simp add: rethrow(2))
  qed (use f in \<open>auto simp: rethrow(2)\<close>)
next
  case (again P)
  note f = flagsD [OF ok, unfolded again(1)]
  show ?thesis
  proof (rule flagsI)
    show "in_phase (phase (shut \<tau>) w (prog \<tau>)) w \<tau>" for w using f(2) [of w] again(2) by (simp add: again(3))
  qed (use f again(2) in \<open>simp_all add: again(3)\<close>)
next
  case (shutdown P)
  note f = flagsD [OF ok, unfolded shutdown(1)]
  show ?thesis
  proof (rule flagsI)
    show "in_phase (phase (shut \<tau>) w (prog \<tau>)) w \<tau>" for w using f(2) [of w] shutdown(2) by (simp add: shutdown(3) shutdown_code_def)
  qed (use f shutdown(2) in \<open>simp_all add: shutdown(3) shutdown_code_def\<close>)
next
  case (halt P)
  note f = flagsD [OF ok, unfolded halt(1)]
  show ?thesis
  proof (rule flagsI)
    show "in_phase (phase (shut \<tau>) w (prog \<tau>)) w \<tau>" for w using f(1) f(2) [of w] by (cases w) (simp_all add: halt(2))
  qed (use f in \<open>simp_all add: halt(2)\<close>)
next
  case (raise v P)
  note f = flagsD [OF ok, unfolded raise(1)]
  show ?thesis
  proof (rule flagsI)
    show "in_phase (phase (shut \<tau>) w (prog \<tau>)) w \<tau>" for w using f(1) f(2) [of w] by (cases "v = w") (auto simp: raise(2))
  qed (use f in \<open>auto simp: raise(2)\<close>)
next
  case (join v P)
  note f = flagsD [OF ok, unfolded join(1)]
  show ?thesis
  proof (rule flagsI)
    show "in_phase (phase (shut \<tau>) w (prog \<tau>)) w \<tau>" for w
      using f(1) f(2) [of w] join(2) by (cases "v = w") (auto simp: join(3))
  qed (use f in \<open>auto simp: join(3)\<close>)
qed

text \<open>The workers.\<close>

lemma transfer_same [simp]:
  "prog (transfer w n \<sigma>) = prog \<sigma>" "waits (transfer w n \<sigma>) = waits \<sigma>" "shut (transfer w n \<sigma>) = shut \<sigma>" "job (transfer w n \<sigma>) = job \<sigma>"
  "ready (transfer w n \<sigma>) = ready \<sigma>" "ended (transfer w n \<sigma>) = ended \<sigma>" "pc (transfer w n \<sigma>) = pc \<sigma>" "err (transfer w n \<sigma>) = err \<sigma>"
  "log (transfer w n \<sigma>) = log \<sigma>" "outcomes (transfer w n \<sigma>) = outcomes \<sigma>" "off (transfer w n \<sigma>) = off \<sigma>" "areas (transfer w n \<sigma>) = areas \<sigma>"
  "amounts (transfer w n \<sigma>) = amounts \<sigma>" "incoming (transfer w n \<sigma>) = incoming \<sigma>" "v \<noteq> w \<Longrightarrow> area (transfer w n \<sigma>) v = area \<sigma> v"
  by (cases w; simp add: transfer_def Let_def)+

lemma transfer_0: "transfer w 0 \<sigma> = \<sigma>"
  by (cases w) (simp_all add: transfer_def overwrite_def)

text \<open>A job ends with an exception after a part of a chunk, or after the last chunk.\<close>

definition last_part :: "worker \<Rightarrow> workers \<Rightarrow> nat \<Rightarrow> nat \<Rightarrow> error option \<Rightarrow> bool" where
  "last_part w \<sigma> m n e \<longleftrightarrow>
     (if off \<sigma> w < x_total (job \<sigma> w) then m \<le> x_total (job \<sigma> w) - off \<sigma> w \<and> n = off \<sigma> w + m \<and> e \<noteq> None
      else m = 0 \<and> n = x_total (job \<sigma> w) \<and> e = None)"

lemma worker_cases [consumes 1, case_names run exit block chunk work finish notify]:
  assumes "worker_step out w \<sigma> = Some \<tau>"
  obtains "pc \<sigma> w = WCheck" "ready \<sigma> w" "\<not> shut \<sigma>" "\<tau> = \<sigma>\<lparr>pc := (pc \<sigma>)(w := WJob), off := (off \<sigma>)(w := 0),
      area := (area \<sigma>)(w := case w of SendWorker \<Rightarrow> [] | RecvWorker \<Rightarrow> x_buf (job \<sigma> w))\<rparr>"
  | "pc \<sigma> w = WCheck" "ready \<sigma> w" "shut \<sigma>" "\<tau> = \<sigma>\<lparr>pc := (pc \<sigma>)(w := WExit)\<rparr>"
  | "pc \<sigma> w = WCheck" "\<not> ready \<sigma> w" "\<tau> = \<sigma>\<lparr>pc := (pc \<sigma>)(w := WBlocked)\<rparr>"
  | "pc \<sigma> w = WJob" "off \<sigma> w < x_total (job \<sigma> w)"
      "\<tau> = (transfer w (min CHUNK (x_total (job \<sigma> w) - off \<sigma> w)) \<sigma>)\<lparr>off := (off \<sigma>)(w := off \<sigma> w + CHUNK)\<rparr>"
  | m n e where "pc \<sigma> w = WJob" "last_part w \<sigma> m n e" "\<tau> = job_ends w n e (transfer w m \<sigma>)"
  | "pc \<sigma> w = WFinish" "\<tau> = \<sigma>\<lparr>pc := (pc \<sigma>)(w := WNotify), ready := (ready \<sigma>)(w := False), ended := (ended \<sigma>)(w := True)\<rparr>"
  | "pc \<sigma> w = WNotify" "\<tau> = \<sigma>\<lparr>pc := (pc \<sigma>)(w := WCheck), waits := (waits \<sigma> \<and> \<not> waits_for w (prog \<sigma>))\<rparr>"
proof -
  note st = assms [unfolded worker_step_def]
  show thesis
  proof (cases "pc \<sigma> w")
    case WCheck
    consider "ready \<sigma> w" "\<not> shut \<sigma>" | "ready \<sigma> w" "shut \<sigma>" | "\<not> ready \<sigma> w" by blast
    then show thesis
    proof cases
      case 1
      then show ?thesis using st WCheck by (intro that(1)) simp_all
    next
      case 2
      then show ?thesis using st WCheck by (intro that(2)) simp_all
    next
      case 3
      then show ?thesis using st WCheck by (intro that(3)) simp_all
    qed
  next
    case WJob
    note step = st [unfolded WJob chunk_step_def Let_def, simplified]
    show ?thesis
    proof (cases "off \<sigma> w < x_total (job \<sigma> w)")
      case True
      show ?thesis
      proof (cases out)
        case Whole
        then show ?thesis using step True by (intro that(4) [OF WJob True]) simp
      next
        case (Threw e i)
        show ?thesis
          by (rule that(5) [OF WJob, of "min i (min CHUNK (x_total (job \<sigma> w) - off \<sigma> w))" _ "Some e"])
            (use step True Threw in \<open>auto simp: last_part_def\<close>)
      qed
    next
      case False
      then show ?thesis using step by (intro that(5) [OF WJob, of 0 _ None]) (auto simp: last_part_def transfer_0)
    qed
  next
    case WFinish
    show ?thesis by (rule that(6) [OF WFinish]) (use st WFinish in simp)
  next
    case WNotify
    show ?thesis by (rule that(7) [OF WNotify]) (use st WNotify in simp)
  qed (use st in simp_all)
qed

text \<open>A step of worker \<open>w\<close> leaves the other worker's part alone.\<close>

lemma worker_flagsI:
  assumes ok: "flags_ok \<sigma>" and same: "prog \<tau> = prog \<sigma>" "shut \<tau> = shut \<sigma>"
    and other: "\<And>v. v \<noteq> w \<Longrightarrow> ready \<tau> v = ready \<sigma> v \<and> ended \<tau> v = ended \<sigma> v \<and> pc \<tau> v = pc \<sigma> v"
    and here: "\<And>ph. in_phase ph w \<sigma> \<Longrightarrow> in_phase ph w \<tau>"
    and waits: "waits \<tau> \<Longrightarrow> waits \<sigma> \<and> (waits_for w (prog \<sigma>) \<longrightarrow> ended \<tau> w \<longrightarrow> pc \<tau> w = WNotify)"
  shows "flags_ok \<tau>"
proof (rule flagsI)
  show "proper (shut \<tau>) (prog \<tau>)" using flagsD(1) [OF ok] same by simp
  show "in_phase (phase (shut \<tau>) v (prog \<tau>)) v \<tau>" for v
    using flagsD(2) [OF ok, of v] here other [of v] same by (cases "v = w") simp_all
  assume w: "waits \<tau>"
  with waits flagsD(3) [OF ok] obtain v P where P: "prog \<sigma> = Wait v # P" "ended \<sigma> v \<longrightarrow> pc \<sigma> v = WNotify" by blast
  then have "ended \<tau> v \<longrightarrow> pc \<tau> v = WNotify" using waits [OF w] other [of v] by (cases "v = w") simp_all
  then show "\<exists>w P. prog \<tau> = Wait w # P \<and> (ended \<tau> w \<longrightarrow> pc \<tau> w = WNotify)" using P(1) same by simp
qed

lemma worker_flags:
  assumes ok: "flags_ok \<sigma>" and st: "worker_step out w \<sigma> = Some \<tau>"
  shows "flags_ok \<tau>"
proof -
  have wt: "waits_for w (prog \<sigma>) \<Longrightarrow> ended \<sigma> w \<Longrightarrow> pc \<sigma> w = WNotify" if "waits \<sigma>" using flagsD(3) [OF ok that] by auto
  show ?thesis
    using st
  proof (cases rule: worker_cases)
    case run
    have "in_phase ph w \<sigma> \<Longrightarrow> in_phase ph w \<tau>" for ph using run by (cases ph) (simp_all add: at_rest_def)
    then show ?thesis by (intro worker_flagsI [OF ok]) (use run wt in auto)
  next
    case exit
    have "in_phase ph w \<sigma> \<Longrightarrow> in_phase ph w \<tau>" for ph using exit by (cases ph) (simp_all add: at_rest_def)
    then show ?thesis by (intro worker_flagsI [OF ok]) (use exit wt in auto)
  next
    case block
    have "in_phase ph w \<sigma> \<Longrightarrow> in_phase ph w \<tau>" for ph using block by (cases ph) (auto simp: at_rest_def split: if_splits)
    then show ?thesis by (intro worker_flagsI [OF ok]) (use block wt in auto)
  next
    case chunk
    have "in_phase ph w \<sigma> \<Longrightarrow> in_phase ph w \<tau>" for ph using chunk by (cases ph) (auto simp: at_rest_def split: if_splits)
    then show ?thesis by (intro worker_flagsI [OF ok]) (use chunk wt in auto)
  next
    case (work m n e)
    have "in_phase ph w \<sigma> \<Longrightarrow> in_phase ph w \<tau>" for ph using work by (cases ph) (auto simp: at_rest_def job_ends_def split: if_splits)
    then show ?thesis by (intro worker_flagsI [OF ok]) (use work wt in \<open>auto simp: job_ends_def\<close>)
  next
    case finish
    have "in_phase ph w \<sigma> \<Longrightarrow> in_phase ph w \<tau>" for ph using finish by (cases ph) (auto simp: at_rest_def split: if_splits)
    then show ?thesis by (intro worker_flagsI [OF ok]) (use finish wt in auto)
  next
    case notify
    have "in_phase ph w \<sigma> \<Longrightarrow> in_phase ph w \<tau>" for ph using notify by (cases ph) (auto simp: at_rest_def)
    then show ?thesis by (intro worker_flagsI [OF ok]) (use notify wt in auto)
  qed
qed

lemma wakeup_flags:
  assumes ok: "flags_ok \<sigma>" and st: "wakeup \<sigma> \<tau>"
  shows "flags_ok \<tau>"
  using st
proof cases
  case wake_main
  then show ?thesis using flagsD [OF ok] by (intro flagsI) simp_all
next
  case (wake_worker w)
  have "in_phase ph w \<sigma> \<Longrightarrow> in_phase ph w \<tau>" for ph using wake_worker by (cases ph) (auto simp: at_rest_def split: if_splits)
  moreover have "waits_for w (prog \<sigma>) \<Longrightarrow> ended \<sigma> w \<Longrightarrow> pc \<sigma> w = WNotify" if "waits \<sigma>" using flagsD(3) [OF ok that] by auto
  ultimately show ?thesis by (intro worker_flagsI [OF ok, of _ w]) (use wake_worker in auto)
qed

section \<open>Jobs and outcomes\<close>

abbreviation "side_of w \<equiv> (case w of SendWorker \<Rightarrow> fst | RecvWorker \<Rightarrow> snd)"

lemma logI:
  assumes "\<And>w. map fst (log \<sigma> w) @ pending w \<sigma> @ todo w (prog \<sigma>) = map (side_of w) cs"
    and "\<And>w. err \<sigma> w = first_err (errs w \<sigma>)"
    and "length (outcomes \<sigma>) + rethrows (prog \<sigma>) = length cs"
    and "\<And>k w. k < length (outcomes \<sigma>) \<Longrightarrow> k < length (log \<sigma> w)"
    and "\<And>k. k < length (outcomes \<sigma>) \<Longrightarrow>
      outcomes \<sigma> ! k = outcome_of (take (Suc k) (errs SendWorker \<sigma>)) (take (Suc k) (errs RecvWorker \<sigma>))"
  shows "log_ok cs \<sigma>"
  using assms by (simp add: log_ok_def)

lemma logD:
  assumes "log_ok cs \<sigma>"
  shows "map fst (log \<sigma> w) @ pending w \<sigma> @ todo w (prog \<sigma>) = map (side_of w) cs" "err \<sigma> w = first_err (errs w \<sigma>)"
    "length (outcomes \<sigma>) + rethrows (prog \<sigma>) = length cs" "k < length (outcomes \<sigma>) \<Longrightarrow> k < length (log \<sigma> w)"
    "k < length (outcomes \<sigma>) \<Longrightarrow>
      outcomes \<sigma> ! k = outcome_of (take (Suc k) (errs SendWorker \<sigma>)) (take (Suc k) (errs RecvWorker \<sigma>))"
  using assms by (simp_all add: log_ok_def)

text \<open>Steps that perform no job and report no outcome.\<close>

lemma log_same:
  assumes "log_ok cs \<sigma>" "log \<tau> = log \<sigma>" "err \<tau> = err \<sigma>" "outcomes \<tau> = outcomes \<sigma>" "rethrows (prog \<tau>) = rethrows (prog \<sigma>)"
    and "\<And>w. pending w \<tau> @ todo w (prog \<tau>) = pending w \<sigma> @ todo w (prog \<sigma>)"
  shows "log_ok cs \<tau>"
  using assms by (simp add: log_ok_def errs_def)

lemma main_log:
  assumes ok: "flags_ok \<sigma>" "log_ok cs \<sigma>" and st: "main_step \<sigma> = Some \<tau>"
  shows "log_ok cs \<tau>"
  using st
proof (cases rule: main_cases)
  case (set v j P)
  note f = flagsD(1,2) [OF ok(1), unfolded set(1)]
  have "pending w \<tau> @ todo w (prog \<tau>) = pending w \<sigma> @ todo w (prog \<sigma>)" for w
    using f(1) f(2) [of v] by (cases "v = w") (auto simp: set pending_def at_rest_def)
  then show ?thesis by (intro log_same [OF ok(2)]) (simp_all add: set)
next
  case (rethrow P)
  note f = flagsD(1,2) [OF ok(1), unfolded rethrow(1)] and l = logD [OF ok(2)]
  have "\<not> ready \<sigma> w" for w using f(1) f(2) [of w] by auto
  then have pend: "pending w \<sigma> = []" "pending w \<tau> = []" for w by (simp_all add: pending_def rethrow(2))
  have len: "length (log \<sigma> w) = Suc (length (outcomes \<sigma>))" for w
    using arg_cong [OF l(1) [of w], of length] l(3) f(1) by (auto simp: pend rethrow(1))
  show ?thesis
  proof (rule logI)
    show "map fst (log \<tau> w) @ pending w \<tau> @ todo w (prog \<tau>) = map (side_of w) cs" for w
      using l(1) [of w] unfolding pend by (simp add: rethrow)
    show "outcomes \<tau> ! k = outcome_of (take (Suc k) (errs SendWorker \<tau>)) (take (Suc k) (errs RecvWorker \<tau>))"
      if "k < length (outcomes \<tau>)" for k
      using that l(5) [of k] l(2) len by (cases "k < length (outcomes \<sigma>)") (auto simp: rethrow nth_append less_Suc_eq outcome_of_def errs_def split: option.split)
  qed (use l(2,3,4) len in \<open>auto simp: rethrow errs_def less_Suc_eq\<close>)
next
  case (halt P)
  have "\<not> ready \<sigma> w" for w using flagsD(2) [OF ok(1), of w] by (simp add: halt(1))
  then show ?thesis by (intro log_same [OF ok(2)]) (simp_all add: halt pending_def)
next
  case (raise v P)
  then have "shut \<sigma>" using flagsD(1) [OF ok(1)] by simp
  then show ?thesis by (intro log_same [OF ok(2)]) (simp_all add: raise pending_def)
qed (rule log_same [OF ok(2)]; auto simp: pending_def shutdown_code_def)+

lemma working:
  assumes "flags_ok \<sigma>" "pc \<sigma> w = WJob"
  shows "ready \<sigma> w" "\<not> shut \<sigma>"
  using flagsD(2) [OF assms(1), of w] assms(2)
  by (cases "phase (shut \<sigma>) w (prog \<sigma>)"; simp add: at_rest_def split: if_splits)+

lemma worker_log:
  assumes ok: "flags_ok \<sigma>" "log_ok cs \<sigma>" and st: "worker_step out w \<sigma> = Some \<tau>"
  shows "log_ok cs \<tau>"
  using st
proof (cases rule: worker_cases)
  case (work m n e)
  note work = work(1,2) work(3) [unfolded job_ends_def]
  note l = logD [OF ok(2)] and r = working [OF ok(1) work(1)]
  show ?thesis
  proof (rule logI)
    show "map fst (log \<tau> v) @ pending v \<tau> @ todo v (prog \<tau>) = map (side_of v) cs" for v
      using l(1) [of v] r work by (cases "v = w") (auto simp: pending_def)
    show "err \<tau> v = first_err (errs v \<tau>)" for v
      using l(2) [of v] work by (cases "v = w") (simp_all add: errs_def first_err_snoc)
    show "k < length (outcomes \<tau>) \<Longrightarrow> k < length (log \<tau> v)" for k v using l(4) [of k v] work by (cases "v = w") auto
    show "outcomes \<tau> ! k = outcome_of (take (Suc k) (errs SendWorker \<tau>)) (take (Suc k) (errs RecvWorker \<tau>))"
      if "k < length (outcomes \<tau>)" for k
      using that l(4) [of k w] l(5) [of k] work by (cases w) (simp_all add: errs_def)
  qed (use l(3) work in simp)
qed (rule log_same [OF ok(2)]; auto simp: pending_def)+

lemma wakeup_log: "log_ok cs \<sigma> \<Longrightarrow> wakeup \<sigma> \<tau> \<Longrightarrow> log_ok cs \<tau>"
  by (erule wakeup.cases) (rule log_same, assumption, auto simp: pending_def)+

lemma reached_ok: "reached (workers_new bytes null cs) \<sigma> \<Longrightarrow> flags_ok \<sigma> \<and> log_ok cs \<sigma>"
  by (induction rule: reached.induct)
    (auto simp: start_ok step.simps intro: main_flags main_log worker_flags worker_log wakeup_flags wakeup_log)

section \<open>Progress\<close>

text \<open>How many chunks a transfer has from the offset \<open>k\<close> on.\<close>

definition chunks :: "nat \<Rightarrow> xfer \<Rightarrow> nat" where
  "chunks k j = length (chunk_lens k (x_total j))"

lemma chunks_step: "k < x_total j \<Longrightarrow> chunks k j = Suc (chunks (k + CHUNK) j)"
  unfolding chunks_def by (subst chunk_lens.simps) simp

primrec weight :: "xfer stmt list \<Rightarrow> nat" where
  "weight [] = 0"
| "weight (s # P) = (case s of Shutdown \<Rightarrow> 7 | SetJob w j \<Rightarrow> Suc (chunks 0 j) | _ \<Rightarrow> 1) + weight P"

lemma weight_append [simp]: "weight (P @ Q) = weight P + weight Q"
  by (induction P) simp_all

fun worker_rank :: "bool \<Rightarrow> wpc \<Rightarrow> nat" where
  "worker_rank r WNotify = (if r then 11 else 5)"
| "worker_rank r WCheck = (if r then 8 else 2)"
| "worker_rank r WJob = 7"
| "worker_rank r WFinish = 6"
| "worker_rank r WBlocked = 1"
| "worker_rank r WExit = 0"

text \<open>The chunks a worker still has to move for the job it has or is about to take up.\<close>

definition chunks_left :: "worker \<Rightarrow> workers \<Rightarrow> nat" where
  "chunks_left w \<sigma> =
     (if pc \<sigma> w = WJob then chunks (off \<sigma> w) (job \<sigma> w)
      else if ready \<sigma> w \<and> \<not> shut \<sigma> \<and> pc \<sigma> w \<noteq> WFinish then chunks 0 (job \<sigma> w) else 0)"

text \<open>The number of steps left is at most this.\<close>

definition rank_of :: "worker \<Rightarrow> workers \<Rightarrow> nat" where
  "rank_of w \<sigma> = worker_rank (ready \<sigma> w) (pc \<sigma> w) + chunks_left w \<sigma>"

definition rank :: "workers \<Rightarrow> nat" where
  "rank \<sigma> = 20 * weight (prog \<sigma>) + (if waits \<sigma> then 0 else 1) + rank_of SendWorker \<sigma> + rank_of RecvWorker \<sigma>"

lemma worker_rank_le: "worker_rank r p \<le> 11"
  by (cases p; simp)

lemma rank_of_cong:
  "ready \<tau> w = ready \<sigma> w \<Longrightarrow> pc \<tau> w = pc \<sigma> w \<Longrightarrow> shut \<tau> = shut \<sigma> \<Longrightarrow> job \<tau> w = job \<sigma> w \<Longrightarrow> off \<tau> w = off \<sigma> w \<Longrightarrow>
    rank_of w \<tau> = rank_of w \<sigma>"
  by (simp add: rank_of_def chunks_left_def)

text \<open>A step of the calling thread takes at least 20 from the weight, and more for a job.\<close>

lemma main_rankI:
  assumes "20 * weight (prog \<tau>) + b \<le> 20 * weight (prog \<sigma>)" "rank_of SendWorker \<tau> + rank_of RecvWorker \<tau> < rank_of SendWorker \<sigma> + rank_of RecvWorker \<sigma> + b"
    and "waits \<tau> = waits \<sigma> \<or> waits \<tau>"
  shows "rank \<tau> < rank \<sigma>"
  using assms by (auto simp: rank_def)

lemma one_worker:
  assumes "\<And>v. v \<noteq> w \<Longrightarrow> rank_of v \<tau> = rank_of v \<sigma>" "rank_of w \<tau> < rank_of w \<sigma> + b"
  shows "rank_of SendWorker \<tau> + rank_of RecvWorker \<tau> < rank_of SendWorker \<sigma> + rank_of RecvWorker \<sigma> + b"
  using assms(1) [of SendWorker] assms(1) [of RecvWorker] assms(2) by (cases w) simp_all

lemma main_rank:
  assumes "main_step \<sigma> = Some \<tau>" "flags_ok \<sigma>"
  shows "rank \<tau> < rank \<sigma>"
  using assms(1)
proof (cases rule: main_cases)
  case (set v j P)
  note f = flagsD(1,2) [OF assms(2), unfolded set(1)]
  have "rank_of v \<tau> < rank_of v \<sigma> + 20 * Suc (chunks 0 j)"
    using f(1) f(2) [of v] worker_rank_le [of True "pc \<sigma> v"] by (auto simp: set rank_of_def chunks_left_def at_rest_def)
  then have "rank_of SendWorker \<tau> + rank_of RecvWorker \<tau> < rank_of SendWorker \<sigma> + rank_of RecvWorker \<sigma> + 20 * Suc (chunks 0 j)"
    by (rule one_worker [rotated]) (rule rank_of_cong; simp add: set)
  then show ?thesis by (rule main_rankI [rotated]) (simp_all add: set)
next
  case (notify v P)
  have "rank_of v \<tau> < rank_of v \<sigma> + 20" using worker_rank_le [of "ready \<sigma> v" WCheck] by (simp add: notify rank_of_def chunks_left_def)
  then have "rank_of SendWorker \<tau> + rank_of RecvWorker \<tau> < rank_of SendWorker \<sigma> + rank_of RecvWorker \<sigma> + 20"
    by (rule one_worker [rotated]) (rule rank_of_cong; simp add: notify)
  then show ?thesis by (rule main_rankI [rotated]) (simp_all add: notify)
next
  case (halt P)
  have q: "phase (shut \<sigma>) w (prog \<sigma>) = Quiet" for w by (simp add: halt(1))
  have "rank_of w \<tau> < rank_of w \<sigma> + 10" for w
    using flagsD(2) [OF assms(2), of w] unfolding q by (cases "w = SendWorker") (auto simp: halt rank_of_def chunks_left_def at_rest_def)
  from this [of SendWorker] this [of RecvWorker] show ?thesis by (intro main_rankI [where b = 20]) (simp_all add: halt)
next
  case (raise v P)
  have "shut \<sigma>" using flagsD(1) [OF assms(2)] raise(1) by simp
  then have "rank_of v \<tau> < rank_of v \<sigma> + 20" using worker_rank_le [of True "pc \<sigma> v"] by (simp add: raise rank_of_def chunks_left_def)
  then have "rank_of SendWorker \<tau> + rank_of RecvWorker \<tau> < rank_of SendWorker \<sigma> + rank_of RecvWorker \<sigma> + 20"
    by (rule one_worker [rotated]) (rule rank_of_cong; simp add: raise)
  then show ?thesis by (rule main_rankI [rotated]) (simp_all add: raise)
qed (simp_all add: rank_def rank_of_def chunks_left_def shutdown_code_def)

lemma worker_rank_less:
  assumes "worker_step out w \<sigma> = Some \<tau>" "flags_ok \<sigma>"
  shows "rank \<tau> < rank \<sigma>"
proof -
  have "rank_of w \<tau> < rank_of w \<sigma> \<and> (\<forall>v. v \<noteq> w \<longrightarrow> rank_of v \<tau> = rank_of v \<sigma>) \<and> prog \<tau> = prog \<sigma> \<and> (waits \<tau> \<longrightarrow> waits \<sigma>) \<and>
      (waits \<sigma> \<longrightarrow> \<not> waits \<tau> \<longrightarrow> rank_of w \<tau> + 1 < rank_of w \<sigma>)"
    using assms(1)
  proof (cases rule: worker_cases)
    case chunk
    then show ?thesis using chunks_step [of "off \<sigma> w" "job \<sigma> w"] by (auto simp: rank_of_def chunks_left_def)
  next
    case (work m n e)
    have "ready \<sigma> w" "\<not> shut \<sigma>" by (rule working [OF assms(2) work(1)])+
    then show ?thesis using work by (auto simp: rank_of_def chunks_left_def job_ends_def)
  qed (auto simp: rank_of_def chunks_left_def)
  then show ?thesis unfolding rank_def by (cases w) (auto split: if_splits)
qed

lemma progress:
  assumes ok: "flags_ok \<sigma>" and more: "prog \<sigma> \<noteq> []"
  shows "\<exists>\<tau>. step \<sigma> \<tau>"
proof -
  have st: "(\<exists>\<tau>. main_step \<sigma> = Some \<tau>) \<or> (\<exists>w \<tau>. worker_step Whole w \<sigma> = Some \<tau>)"
  proof (cases "prog \<sigma>")
    case (Cons s P)
    note f = flagsD [OF ok, unfolded Cons]
    show ?thesis
    proof (cases s)
      case (Wait w)
      show ?thesis
      proof (cases "waits \<sigma>")
        case True
        then have "ended \<sigma> w \<longrightarrow> pc \<sigma> w = WNotify" using f(3) Wait by auto
        then have "pc \<sigma> w \<notin> {WBlocked, WExit}" using f(2) [of w] Wait by (auto split: if_splits)
        then have "\<exists>\<tau>. worker_step Whole w \<sigma> = Some \<tau>" by (cases "pc \<sigma> w") (simp_all add: worker_step_def)
        then show ?thesis by blast
      next
        case False
        then show ?thesis using Cons Wait by (simp add: main_step_def)
      qed
    next
      case (JoinThread w)
      show ?thesis
      proof (cases "pc \<sigma> w = WExit")
        case True
        then show ?thesis using Cons JoinThread by (simp add: main_step_def)
      next
        case False
        then have "pc \<sigma> w = WCheck \<or> pc \<sigma> w = WNotify" using f(2) [of w] JoinThread by auto
        then have "\<exists>\<tau>. worker_step Whole w \<sigma> = Some \<tau>" by (auto simp: worker_step_def)
        then show ?thesis by blast
      qed
    qed (use Cons in \<open>simp_all add: main_step_def\<close>)
  qed (use more in simp)
  then show ?thesis by (blast intro: step.intros)
qed

lemma step_rank: "flags_ok \<sigma> \<Longrightarrow> step \<sigma> \<tau> \<Longrightarrow> flags_ok \<tau> \<and> rank \<tau> < rank \<sigma>"
  by (auto elim!: step.cases intro: main_flags worker_flags main_rank worker_rank_less)

lemma steps_bounded: "flags_ok \<sigma> \<Longrightarrow> (step ^^ n) \<sigma> \<tau> \<Longrightarrow> n + rank \<tau> \<le> rank \<sigma> \<and> flags_ok \<tau>"
proof (induction n arbitrary: \<tau>)
  case (Suc n)
  then obtain \<rho> where "(step ^^ n) \<sigma> \<rho>" "step \<rho> \<tau>" by auto
  then show ?case using Suc step_rank [of \<rho> \<tau>] by fastforce
qed simp

lemma run_ends:
  "flags_ok \<sigma> \<Longrightarrow> \<exists>\<tau>. step\<^sup>*\<^sup>* \<sigma> \<tau> \<and> prog \<tau> = []"
proof (induction "rank \<sigma>" arbitrary: \<sigma> rule: less_induct)
  case less
  show ?case
  proof (cases "prog \<sigma> = []")
    case False
    then obtain \<rho> where "step \<sigma> \<rho>" using progress [OF less(2)] by blast
    moreover then obtain \<tau> where "step\<^sup>*\<^sup>* \<rho> \<tau>" "prog \<tau> = []" using less step_rank by blast
    ultimately show ?thesis by (blast intro: converse_rtranclp_into_rtranclp)
  qed blast
qed

section \<open>The bytes\<close>

text \<open>What a job that has moved \<open>n\<close> bytes leaves behind, if \<open>t\<close> bytes had been received before: the sender has passed
  on the first \<open>n\<close> bytes of its memory, the receiver has put the next \<open>n\<close> bytes there.\<close>

definition moved_bytes :: "worker \<Rightarrow> (nat \<Rightarrow> byte) \<Rightarrow> nat \<Rightarrow> xfer \<Rightarrow> nat \<Rightarrow> byte list" where
  "moved_bytes w bytes t j n = (case w of SendWorker \<Rightarrow> take n (x_buf j) | RecvWorker \<Rightarrow> map bytes [t..<t + n] @ drop n (x_buf j))"

definition job_done :: "worker \<Rightarrow> (nat \<Rightarrow> byte) \<Rightarrow> nat \<Rightarrow> xfer \<times> error option \<Rightarrow> nat \<Rightarrow> byte list \<Rightarrow> bool" where
  "job_done w bytes t c n a \<longleftrightarrow> n \<le> x_total (fst c) \<and> (snd c = None \<longrightarrow> n = x_total (fst c)) \<and> a = moved_bytes w bytes t (fst c) n"

text \<open>How many bytes the current job has moved.\<close>

definition now :: "worker \<Rightarrow> workers \<Rightarrow> nat" where
  "now w \<sigma> = (if pc \<sigma> w = WJob then min (off \<sigma> w) (x_total (job \<sigma> w)) else 0)"

definition bytes_ok :: "(nat \<Rightarrow> byte) \<Rightarrow> workers \<Rightarrow> bool" where
  "bytes_ok bytes \<sigma> \<longleftrightarrow> incoming \<sigma> = bytes \<and>
     (\<forall>w. length (areas \<sigma> w) = length (log \<sigma> w) \<and> length (amounts \<sigma> w) = length (log \<sigma> w) \<and>
       (\<forall>k<length (log \<sigma> w). job_done w bytes (sum_list (take k (amounts \<sigma> w))) (log \<sigma> w ! k) (amounts \<sigma> w ! k) (areas \<sigma> w ! k)) \<and>
       (pc \<sigma> w = WJob \<longrightarrow> area \<sigma> w = moved_bytes w bytes (sum_list (amounts \<sigma> w)) (job \<sigma> w) (now w \<sigma>))) \<and>
     sent \<sigma> = concat (areas \<sigma> SendWorker) @ (if pc \<sigma> SendWorker = WJob then area \<sigma> SendWorker else []) \<and>
     taken \<sigma> = sum_list (amounts \<sigma> RecvWorker) + now RecvWorker \<sigma>"

lemma bytes_new: "bytes_ok bytes (workers_new bytes null cs)"
  by (simp add: bytes_ok_def workers_new_def now_def)

text \<open>Steps that move nothing: those of the calling thread, and of a worker outside its job.\<close>

lemma bytes_same:
  assumes "bytes_ok bytes \<sigma>" "incoming \<tau> = incoming \<sigma>" "areas \<tau> = areas \<sigma>" "amounts \<tau> = amounts \<sigma>" "log \<tau> = log \<sigma>"
    "sent \<tau> = sent \<sigma>" "taken \<tau> = taken \<sigma>"
    and "\<And>w. pc \<tau> w = WJob \<longleftrightarrow> pc \<sigma> w = WJob" "\<And>w. pc \<sigma> w = WJob \<Longrightarrow> area \<tau> w = area \<sigma> w \<and> off \<tau> w = off \<sigma> w \<and> job \<tau> w = job \<sigma> w"
  shows "bytes_ok bytes \<tau>"
proof -
  have "now w \<tau> = now w \<sigma>" for w using assms(8,9) [of w] by (simp add: now_def)
  then show ?thesis using assms unfolding bytes_ok_def by simp
qed

lemma main_bytes:
  assumes ok: "bytes_ok bytes \<sigma>" "flags_ok \<sigma>" and st: "main_step \<sigma> = Some \<tau>"
  shows "bytes_ok bytes \<tau>"
  using st
proof (cases rule: main_cases)
  case (set v j P)
  have "pc \<sigma> v \<noteq> WJob" using flagsD(2) [OF ok(2), of v] set(1) by (auto simp: at_rest_def)
  then show ?thesis by (intro bytes_same [OF ok(1)]) (auto simp: set)
qed (rule bytes_same [OF ok(1)]; auto)+

lemma wakeup_bytes: "bytes_ok bytes \<sigma> \<Longrightarrow> wakeup \<sigma> \<tau> \<Longrightarrow> bytes_ok bytes \<tau>"
  by (erule wakeup.cases) (rule bytes_same, assumption, auto)+

text \<open>A piece of a chunk: \<open>m\<close> more bytes at the offset, none beyond the end of the transfer.\<close>

lemma transfer_piece:
  assumes "bytes_ok bytes \<sigma>" "pc \<sigma> w = WJob" "off \<sigma> w + m \<le> x_total (job \<sigma> w)"
  shows "area (transfer w m \<sigma>) w = moved_bytes w bytes (sum_list (amounts \<sigma> w)) (job \<sigma> w) (off \<sigma> w + m)"
    and "sent (transfer w m \<sigma>) = (if w = SendWorker then concat (areas \<sigma> w) @ area (transfer w m \<sigma>) w else sent \<sigma>)"
    and "taken (transfer w m \<sigma>) = (if w = RecvWorker then sum_list (amounts \<sigma> w) + (off \<sigma> w + m) else taken \<sigma>)"
proof -
  have now: "now w \<sigma> = off \<sigma> w" using assms(2,3) by (simp add: now_def)
  have a: "area \<sigma> w = moved_bytes w bytes (sum_list (amounts \<sigma> w)) (job \<sigma> w) (off \<sigma> w)" and i: "incoming \<sigma> = bytes"
    using assms(1,2) now unfolding bytes_ok_def by auto
  have s: "sent \<sigma> = concat (areas \<sigma> w) @ area \<sigma> w" if "w = SendWorker" using assms(1,2) that by (simp add: bytes_ok_def)
  have t: "taken \<sigma> = sum_list (amounts \<sigma> w) + off \<sigma> w" if "w = RecvWorker" using assms(1,2) that now by (simp add: bytes_ok_def)
  show "area (transfer w m \<sigma>) w = moved_bytes w bytes (sum_list (amounts \<sigma> w)) (job \<sigma> w) (off \<sigma> w + m)"
  proof (cases w)
    case SendWorker
    then show ?thesis using a by (simp add: transfer_def moved_bytes_def take_add Let_def)
  next
    case RecvWorker
    let ?t = "sum_list (amounts \<sigma> RecvWorker)" and ?k = "off \<sigma> RecvWorker"
    have "[?t..<?t + (?k + m)] = [?t..<?t + ?k] @ [?t + ?k..<?t + ?k + m]" by (metis add.assoc le_add1 upt_add_eq_append)
    then have up: "map bytes [?t..<?t + (?k + m)] = map bytes [?t..<?t + ?k] @ map bytes [?t + ?k..<?t + ?k + m]" by simp
    have "drop (?k + m) (map bytes [?t..<?t + ?k] @ drop ?k (x_buf (job \<sigma> w))) = drop (?k + m) (x_buf (job \<sigma> w))"
      by (simp add: add.commute)
    then show ?thesis using RecvWorker a i t unfolding moved_bytes_def
      by (simp add: transfer_def overwrite_def Let_def up)
  qed
  show "sent (transfer w m \<sigma>) = (if w = SendWorker then concat (areas \<sigma> w) @ area (transfer w m \<sigma>) w else sent \<sigma>)"
    using s by (cases w) (simp_all add: transfer_def Let_def)
  show "taken (transfer w m \<sigma>) = (if w = RecvWorker then sum_list (amounts \<sigma> w) + (off \<sigma> w + m) else taken \<sigma>)"
    using t by (cases w) (simp_all add: transfer_def Let_def)
qed

lemma work_piece:
  assumes ok: "bytes_ok bytes \<sigma>" "pc \<sigma> w = WJob" and part: "last_part w \<sigma> m n e"
  shows "area (transfer w m \<sigma>) w = moved_bytes w bytes (sum_list (amounts \<sigma> w)) (job \<sigma> w) n"
    and "sent (transfer w m \<sigma>) = (if w = SendWorker then concat (areas \<sigma> w) @ area (transfer w m \<sigma>) w else sent \<sigma>)"
    and "taken (transfer w m \<sigma>) = (if w = RecvWorker then sum_list (amounts \<sigma> w) + n else taken \<sigma>)"
    and "n \<le> x_total (job \<sigma> w)" "e = None \<Longrightarrow> n = x_total (job \<sigma> w)"
proof -
  show "n \<le> x_total (job \<sigma> w)" "e = None \<Longrightarrow> n = x_total (job \<sigma> w)" using part by (auto simp: last_part_def split: if_splits)
  have "area (transfer w m \<sigma>) w = moved_bytes w bytes (sum_list (amounts \<sigma> w)) (job \<sigma> w) n \<and>
    sent (transfer w m \<sigma>) = (if w = SendWorker then concat (areas \<sigma> w) @ area (transfer w m \<sigma>) w else sent \<sigma>) \<and>
    taken (transfer w m \<sigma>) = (if w = RecvWorker then sum_list (amounts \<sigma> w) + n else taken \<sigma>)"
  proof (cases "off \<sigma> w < x_total (job \<sigma> w)")
    case True
    then have "off \<sigma> w + m \<le> x_total (job \<sigma> w)" "n = off \<sigma> w + m" using part by (auto simp: last_part_def)
    then show ?thesis using transfer_piece [OF ok] by simp
  next
    case False
    then have e: "m = 0" "n = now w \<sigma>" using part ok(2) by (auto simp: last_part_def now_def)
    show ?thesis using ok unfolding e(1) transfer_0 e(2) bytes_ok_def by auto
  qed
  then show "area (transfer w m \<sigma>) w = moved_bytes w bytes (sum_list (amounts \<sigma> w)) (job \<sigma> w) n"
    "sent (transfer w m \<sigma>) = (if w = SendWorker then concat (areas \<sigma> w) @ area (transfer w m \<sigma>) w else sent \<sigma>)"
    "taken (transfer w m \<sigma>) = (if w = RecvWorker then sum_list (amounts \<sigma> w) + n else taken \<sigma>)" by blast+
qed

lemma bytesI:
  assumes "incoming \<sigma> = bytes" "\<And>w. length (areas \<sigma> w) = length (log \<sigma> w)" "\<And>w. length (amounts \<sigma> w) = length (log \<sigma> w)"
    and "\<And>w k. k < length (log \<sigma> w) \<Longrightarrow> job_done w bytes (sum_list (take k (amounts \<sigma> w))) (log \<sigma> w ! k) (amounts \<sigma> w ! k) (areas \<sigma> w ! k)"
    and "\<And>w. pc \<sigma> w = WJob \<Longrightarrow> area \<sigma> w = moved_bytes w bytes (sum_list (amounts \<sigma> w)) (job \<sigma> w) (now w \<sigma>)"
    and "sent \<sigma> = concat (areas \<sigma> SendWorker) @ (if pc \<sigma> SendWorker = WJob then area \<sigma> SendWorker else [])"
    and "taken \<sigma> = sum_list (amounts \<sigma> RecvWorker) + now RecvWorker \<sigma>"
  shows "bytes_ok bytes \<sigma>"
  using assms by (simp add: bytes_ok_def)

lemma bytesD:
  assumes "bytes_ok bytes \<sigma>"
  shows "incoming \<sigma> = bytes" "length (areas \<sigma> w) = length (log \<sigma> w)" "length (amounts \<sigma> w) = length (log \<sigma> w)"
    and "k < length (log \<sigma> w) \<Longrightarrow> job_done w bytes (sum_list (take k (amounts \<sigma> w))) (log \<sigma> w ! k) (amounts \<sigma> w ! k) (areas \<sigma> w ! k)"
    and "pc \<sigma> w = WJob \<Longrightarrow> area \<sigma> w = moved_bytes w bytes (sum_list (amounts \<sigma> w)) (job \<sigma> w) (now w \<sigma>)"
    and "sent \<sigma> = concat (areas \<sigma> SendWorker) @ (if pc \<sigma> SendWorker = WJob then area \<sigma> SendWorker else [])"
    and "taken \<sigma> = sum_list (amounts \<sigma> RecvWorker) + now RecvWorker \<sigma>"
  using assms by (simp_all add: bytes_ok_def)

lemma worker_bytes:
  assumes ok: "bytes_ok bytes \<sigma>" "flags_ok \<sigma>" and st: "worker_step out w \<sigma> = Some \<tau>"
  shows "bytes_ok bytes \<tau>"
  using st
proof (cases rule: worker_cases)
  case run
  have n: "now v \<tau> = now v \<sigma>" for v using run by (simp add: now_def)
  show ?thesis
    using bytesD [OF ok(1)] n run by (intro bytesI) (auto simp: moved_bytes_def now_def split: worker.split if_splits)
next
  case chunk
  let ?m = "min CHUNK (x_total (job \<sigma> w) - off \<sigma> w)"
  have m: "off \<sigma> w + ?m \<le> x_total (job \<sigma> w)" "now w \<tau> = off \<sigma> w + ?m" using chunk by (auto simp: now_def)
  note p = transfer_piece [OF ok(1) chunk(1) m(1)]
  have other: "now v \<tau> = now v \<sigma>" if "v \<noteq> w" for v using that chunk by (simp add: now_def)
  have f: "areas \<tau> = areas \<sigma>" "amounts \<tau> = amounts \<sigma>" "log \<tau> = log \<sigma>" "pc \<tau> = pc \<sigma>" "job \<tau> = job \<sigma>" "incoming \<tau> = incoming \<sigma>"
    "area \<tau> w = moved_bytes w bytes (sum_list (amounts \<sigma> w)) (job \<sigma> w) (now w \<tau>)" "\<And>v. v \<noteq> w \<Longrightarrow> area \<tau> v = area \<sigma> v"
    "sent \<tau> = (if w = SendWorker then concat (areas \<sigma> w) @ area \<tau> w else sent \<sigma>)"
    "taken \<tau> = (if w = RecvWorker then sum_list (amounts \<sigma> w) + now w \<tau> else taken \<sigma>)"
    using p unfolding m(2) by (simp_all add: chunk(3))
  note d = bytesD [OF ok(1)]
  show ?thesis
  proof (rule bytesI)
    fix v assume "pc \<tau> v = WJob"
    then show "area \<tau> v = moved_bytes v bytes (sum_list (amounts \<tau> v)) (job \<tau> v) (now v \<tau>)"
      using f d(5) [of v] other [of v] by (cases "v = w") simp_all
  next
    show "sent \<tau> = concat (areas \<tau> SendWorker) @ (if pc \<tau> SendWorker = WJob then area \<tau> SendWorker else [])"
      using f d(6) chunk(1) by (cases w) simp_all
    show "taken \<tau> = sum_list (amounts \<tau> RecvWorker) + now RecvWorker \<tau>"
      using f(2,10) d(7) other [of RecvWorker] by (cases w) simp_all
  qed (use f(1-6) d(1-4) in simp_all)
next
  case (work m n e)
  note p = work_piece [OF ok(1) work(1,2)] and d = bytesD [OF ok(1)]
  let ?\<rho> = "transfer w m \<sigma>"
  have f: "areas \<tau> w = areas \<sigma> w @ [area ?\<rho> w]" "amounts \<tau> w = amounts \<sigma> w @ [n]" "log \<tau> w = log \<sigma> w @ [(job \<sigma> w, e)]" "pc \<tau> w = WFinish"
    "incoming \<tau> = incoming \<sigma>" "sent \<tau> = sent ?\<rho>" "taken \<tau> = taken ?\<rho>"
    using work(3) by (simp_all add: job_ends_def)
  have same: "areas \<tau> v = areas \<sigma> v \<and> amounts \<tau> v = amounts \<sigma> v \<and> log \<tau> v = log \<sigma> v \<and> pc \<tau> v = pc \<sigma> v \<and> area \<tau> v = area \<sigma> v \<and>
      job \<tau> v = job \<sigma> v \<and> now v \<tau> = now v \<sigma>" if "v \<noteq> w" for v
    using work(3) that by (simp add: job_ends_def now_def)
  have now: "now w \<tau> = 0" by (simp add: now_def f(4))
  show ?thesis
  proof (rule bytesI)
    fix v show "length (areas \<tau> v) = length (log \<tau> v)" "length (amounts \<tau> v) = length (log \<tau> v)"
      using f(1-3) same [of v] d(2,3) [of v] by (cases "v = w"; simp)+
    show "pc \<tau> v = WJob \<Longrightarrow> area \<tau> v = moved_bytes v bytes (sum_list (amounts \<tau> v)) (job \<tau> v) (now v \<tau>)"
      using f(4) same [of v] d(5) [of v] by (cases "v = w") simp_all
    fix k assume k: "k < length (log \<tau> v)"
    show "job_done v bytes (sum_list (take k (amounts \<tau> v))) (log \<tau> v ! k) (amounts \<tau> v ! k) (areas \<tau> v ! k)"
    proof (cases "v = w")
      case True
      show ?thesis
      proof (cases "k < length (log \<sigma> w)")
        case old: True
        then show ?thesis using d(4) [OF old] d(2,3) [of w] f(1-3) True by (simp add: nth_append)
      next
        case False
        then have "k = length (log \<sigma> w)" using k f(3) True by simp
        then show ?thesis using p(1,4,5) d(2,3) [of w] f(1-3) True by (simp add: nth_append job_done_def)
      qed
    next
      case False
      then show ?thesis using same [of v] d(4) [of k v] k by simp
    qed
  next
    show "sent \<tau> = concat (areas \<tau> SendWorker) @ (if pc \<tau> SendWorker = WJob then area \<tau> SendWorker else [])"
      using f(1,4,6) p(2) d(6) same [of SendWorker] by (cases w) simp_all
    show "taken \<tau> = sum_list (amounts \<tau> RecvWorker) + now RecvWorker \<tau>"
      using f(2,7) p(3) d(7) same [of RecvWorker] now by (cases w) simp_all
  qed (use f(5) d(1) in simp)
qed (rule bytes_same [OF ok(1)]; auto)+

lemma reached_bytes: "reached (workers_new bytes null cs) \<sigma> \<Longrightarrow> bytes_ok bytes \<sigma>"
  by (induction rule: reached.induct)
    (auto simp: bytes_new step.simps intro: main_bytes worker_bytes wakeup_bytes dest: reached_ok)

end
