(* ===== verification/Workers_Theorems.thy ===== *)
theory Workers_Theorems
  imports Workers_Facts
begin

text \<open>
  What the handshake of the two I/O workers guarantees, and what it does not: an exception stays
  forever, and after \<open>shutdown\<close> a call waits forever.
\<close>

text \<open>A schedule, for concrete runs: the calling thread, or a worker with what the channel does with its next chunk.\<close>

datatype move = Main | Work worker chunk

fun moved :: "workers \<Rightarrow> move list \<Rightarrow> workers option" where
  "moved \<sigma> [] = Some \<sigma>"
| "moved \<sigma> (Main # ms) = (case main_step \<sigma> of None \<Rightarrow> None | Some \<tau> \<Rightarrow> moved \<tau> ms)"
| "moved \<sigma> (Work w out # ms) = (case worker_step out w \<sigma> of None \<Rightarrow> None | Some \<tau> \<Rightarrow> moved \<tau> ms)"

lemma moved_reached: "moved \<sigma> ms = Some \<tau> \<Longrightarrow> reached \<sigma>0 \<sigma> \<Longrightarrow> reached \<sigma>0 \<tau>"
  by (induction \<sigma> ms rule: moved.induct) (auto split: option.splits intro: reached.by_step step.intros)

text \<open>One call: the statements up to the waits, the jobs of both workers with the steps of their loops, the rest.\<close>

definition one_call :: "chunk list \<Rightarrow> chunk list \<Rightarrow> move list" where
  "one_call ss rs = [Main, Main, Main, Main, Work SendWorker Whole] @ map (Work SendWorker) ss @ [Work SendWorker Whole, Work SendWorker Whole,
     Work RecvWorker Whole] @ map (Work RecvWorker) rs @ [Work RecvWorker Whole, Work RecvWorker Whole, Main, Main, Main]"

text \<open>Two calls with two bytes each way. In the first the sender's channel throws after a byte; in the second everything arrives.\<close>

definition pair_of :: "byte \<Rightarrow> byte \<Rightarrow> xfer" where "pair_of x y = \<lparr>x_buf = [x, y], x_total = 2\<rparr>"

definition new2 :: "(xfer \<times> xfer) list \<Rightarrow> workers" where "new2 = workers_new of_nat (pair_of 0 0)"

definition two_jobs :: "(xfer \<times> xfer) list" where "two_jobs = [(pair_of 1 2, pair_of 0 0), (pair_of 3 4, pair_of 0 0)]"

definition two_calls :: workers where
  "two_calls = the (moved (new2 two_jobs) (one_call [Threw RuntimeError 1] [Whole, Whole] @ one_call [Whole, Whole] [Whole, Whole]))"

lemmas run_defs = two_calls_def one_call_def new2_def workers_new_def two_jobs_def pair_of_def reshare_code_def shutdown_code_def
  main_step_def worker_step_def chunk_step_def transfer_def job_ends_def overwrite_def Let_def CHUNK_def upt_rec

lemma two_calls: "reached (new2 two_jobs) two_calls" "outcomes two_calls = [Some RuntimeError, Some RuntimeError]"
proof -
  have "moved (new2 two_jobs) (one_call [Threw RuntimeError 1] [Whole, Whole] @ one_call [Whole, Whole] [Whole, Whole]) = Some two_calls"
    by (simp add: run_defs)
  then show "reached (new2 two_jobs) two_calls" by (rule moved_reached) (rule reached.refl)
  show "outcomes two_calls = [Some RuntimeError, Some RuntimeError]" by (simp add: run_defs)
qed

text \<open>One call that succeeds, and the shutdown.\<close>

definition one_done :: workers where
  "one_done = the (moved (new2 [(pair_of 1 2, pair_of 0 0)]) (one_call [Whole, Whole] [Whole, Whole] @
     [Main, Main, Main, Main, Main, Work SendWorker Whole, Work RecvWorker Whole, Main, Main, Main]))"

lemma one_done: "reached (new2 [(pair_of 1 2, pair_of 0 0)]) one_done" "prog one_done = []" "outcomes one_done = [None]"
proof -
  have "moved (new2 [(pair_of 1 2, pair_of 0 0)]) (one_call [Whole, Whole] [Whole, Whole] @
     [Main, Main, Main, Main, Main, Work SendWorker Whole, Work RecvWorker Whole, Main, Main, Main]) = Some one_done"
    and "prog one_done = []" "outcomes one_done = [None]"
    by (simp_all add: one_done_def run_defs)
  then show "reached (new2 [(pair_of 1 2, pair_of 0 0)]) one_done" "prog one_done = []" "outcomes one_done = [None]"
    using moved_reached reached.refl by blast+
qed

text \<open>An object after \<open>shutdown\<close>, about to be used again, and the thread as far as it gets.\<close>

definition used_again :: workers where
  "used_again = (new2 [])\<lparr>prog := reshare_code (pair_of 5 6, pair_of 0 0), shut := True, ready := (\<lambda>_. True), pc := (\<lambda>_. WExit)\<rparr>"

definition stuck :: workers where
  "stuck = the (moved used_again [Main, Main, Main, Main, Main])"

lemma stuck: "reached used_again stuck" "waits stuck"
proof -
  have "moved used_again [Main, Main, Main, Main, Main] = Some stuck" and "waits stuck"
    by (simp_all add: stuck_def used_again_def run_defs)
  then show "reached used_again stuck" "waits stuck" using moved_reached reached.refl by blast+
qed

lemma shut_in_the_end:
  "reached (workers_new bytes null cs) \<sigma> \<Longrightarrow> shut \<sigma> \<or> Shutdown \<in> set (prog \<sigma>) \<or> Halt \<in> set (prog \<sigma>)"
proof (induction rule: reached.induct)
  case (by_step \<sigma> \<tau>)
  from by_step(2) show ?case
  proof cases
    case main
    from this by_step(3) show ?thesis by (cases rule: main_cases) (auto simp: shutdown_code_def)
  next
    case (worker out w)
    from this by_step(3) show ?thesis by (cases rule: worker_cases) (simp_all add: job_ends_def)
  qed
qed (auto simp: workers_new_def elim: wakeup.cases)

lemma outcomes_list:
  "log_ok cs \<sigma> \<Longrightarrow> prog \<sigma> = [] \<Longrightarrow>
    outcomes \<sigma> = map (\<lambda>k. outcome_of (take (Suc k) (errs SendWorker \<sigma>)) (take (Suc k) (errs RecvWorker \<sigma>))) [0..<length cs]"
  using logD(3,5) [of cs \<sigma>] by (intro nth_equalityI) auto

text \<open>Where no call threw, no job did.\<close>

lemma first_err_None: "first_err es = None \<longleftrightarrow> (\<forall>e \<in> set es. e = None)"
  by (induction es) (auto simp: first_err_def)

lemma no_outcome:
  assumes l: "log_ok cs \<sigma>" and "prog \<sigma> = []" "\<forall>e \<in> set (outcomes \<sigma>). e = None" "k < length cs" "length (log \<sigma> w) = length cs"
  shows "snd (log \<sigma> w ! k) = None"
proof -
  let ?o = "\<lambda>k. outcome_of (take (Suc k) (errs SendWorker \<sigma>)) (take (Suc k) (errs RecvWorker \<sigma>))"
  have "outcomes \<sigma> = map ?o [0..<length cs]" by (rule outcomes_list [OF l assms(2)])
  then have "?o k = None" using assms(3,4) by auto
  then have n: "first_err (take (Suc k) (errs SendWorker \<sigma>)) = None" "first_err (take (Suc k) (errs RecvWorker \<sigma>)) = None"
    by (auto simp: outcome_of_def split: option.splits)
  have "errs w \<sigma> ! k \<in> set (take (Suc k) (errs w \<sigma>))" using assms(4,5) by (auto simp: in_set_conv_nth errs_def intro!: exI [of _ k])
  then have "errs w \<sigma> ! k = None" using n unfolding first_err_None by (cases w) auto
  then show ?thesis using assms(4,5) by (simp add: errs_def)
qed

text \<open>The end of a run: every job is done, and what it did follows the jobs before it.\<close>

lemma run_over:
  assumes run: "reached (workers_new bytes null cs) \<sigma>" and fin: "prog \<sigma> = []"
  shows "pc \<sigma> w = WExit" "map fst (log \<sigma> w) = map (side_of w) cs" "length (log \<sigma> w) = length cs"
    "length (amounts \<sigma> w) = length cs" "length (areas \<sigma> w) = length cs"
    and "sent \<sigma> = concat (areas \<sigma> SendWorker)" "taken \<sigma> = sum_list (amounts \<sigma> RecvWorker)"
    and "k < length cs \<Longrightarrow> job_done w bytes (sum_list (take k (amounts \<sigma> w))) (side_of w (cs ! k), snd (log \<sigma> w ! k)) (amounts \<sigma> w ! k) (areas \<sigma> w ! k)"
proof -
  note ok = conjunct1 [OF reached_ok [OF run]] conjunct2 [OF reached_ok [OF run]] and b = bytesD [OF reached_bytes [OF run]]
  have w: "pc \<sigma> w = WExit \<and> map fst (log \<sigma> w) = map (side_of w) cs" for w
  proof -
    have "shut \<sigma>" using shut_in_the_end [OF run] fin by simp
    then show ?thesis using flagsD(2) [OF ok(1), of w] logD(1) [OF ok(2), of w] fin by (simp add: pending_def)
  qed
  have len: "length (log \<sigma> w) = length cs" for w using w [of w] by (metis length_map)
  show "pc \<sigma> w = WExit" "map fst (log \<sigma> w) = map (side_of w) cs" "length (log \<sigma> w) = length cs"
    "length (amounts \<sigma> w) = length cs" "length (areas \<sigma> w) = length cs" using w len b(2,3) by simp_all
  show "sent \<sigma> = concat (areas \<sigma> SendWorker)" "taken \<sigma> = sum_list (amounts \<sigma> RecvWorker)" using b(6,7) w by (simp_all add: now_def)
  assume k: "k < length cs"
  then have "fst (log \<sigma> w ! k) = side_of w (cs ! k)" using arg_cong [OF conjunct2 [OF w [of w]], of "\<lambda>xs. xs ! k"] len by simp
  then show "job_done w bytes (sum_list (take k (amounts \<sigma> w))) (side_of w (cs ! k), snd (log \<sigma> w ! k)) (amounts \<sigma> w ! k) (areas \<sigma> w ! k)"
    using b(4) [of k w] k len by (metis prod.collapse)
qed

text \<open>C22: the handshake of \<open>_reshare_ring\<close>, \<open>sendLoop\<close>, \<open>recvLoop\<close> and \<open>shutdown\<close> loses no
  wake-up and no byte. From every state that any interleaving reaches (spurious wake-ups included), the threads
  can go on to the end without one, and every run that has no spurious wake-up is finite. At the end
  both workers have returned and have performed the jobs of all calls, each once and in order; a call
  threw what the jobs up to its own had thrown first. The \<open>k\<close>-th send job passed on the first bytes of its buffer and nothing else, the
  \<open>k\<close>-th receive job put into the front of its buffer the bytes that follow those of the jobs before, and left the rest of it alone; each moved
  all its bytes unless the channel threw. So if no call threw, what went out is the buffers one after the other and every receive buffer
  holds its part of what came in.\<close>

theorem worker_handshake:
  assumes "reached (workers_new bytes null cs) \<sigma>"
  shows "(\<exists>\<tau>. step\<^sup>*\<^sup>* \<sigma> \<tau> \<and> prog \<tau> = []) \<and> (\<forall>n \<tau>. (step ^^ n) \<sigma> \<tau> \<longrightarrow> n \<le> rank \<sigma>) \<and>
    (prog \<sigma> = [] \<longrightarrow> (\<forall>w. pc \<sigma> w = WExit \<and> map fst (log \<sigma> w) = map (case w of SendWorker \<Rightarrow> fst | RecvWorker \<Rightarrow> snd) cs \<and>
        length (amounts \<sigma> w) = length cs \<and> length (areas \<sigma> w) = length cs) \<and>
      outcomes \<sigma> = map (\<lambda>k. outcome_of (take (Suc k) (map snd (log \<sigma> SendWorker))) (take (Suc k) (map snd (log \<sigma> RecvWorker))))
        [0..<length cs] \<and>
      sent \<sigma> = concat (areas \<sigma> SendWorker) \<and> taken \<sigma> = sum_list (amounts \<sigma> RecvWorker) \<and>
      (\<forall>k<length cs. let n = amounts \<sigma> SendWorker ! k; m = amounts \<sigma> RecvWorker ! k; t = sum_list (take k (amounts \<sigma> RecvWorker))
        in n \<le> x_total (fst (cs ! k)) \<and> (snd (log \<sigma> SendWorker ! k) = None \<longrightarrow> n = x_total (fst (cs ! k))) \<and>
          areas \<sigma> SendWorker ! k = take n (x_buf (fst (cs ! k))) \<and>
          m \<le> x_total (snd (cs ! k)) \<and> (snd (log \<sigma> RecvWorker ! k) = None \<longrightarrow> m = x_total (snd (cs ! k))) \<and>
          areas \<sigma> RecvWorker ! k = map bytes [t..<t + m] @ drop m (x_buf (snd (cs ! k)))) \<and>
      ((\<forall>e \<in> set (outcomes \<sigma>). e = None) \<longrightarrow>
        sent \<sigma> = concat (map (\<lambda>c. take (x_total (fst c)) (x_buf (fst c))) cs) \<and> amounts \<sigma> RecvWorker = map (\<lambda>c. x_total (snd c)) cs))"
proof (intro conjI impI)
  note ok = conjunct1 [OF reached_ok [OF assms]] conjunct2 [OF reached_ok [OF assms]]
  show "\<exists>\<tau>. step\<^sup>*\<^sup>* \<sigma> \<tau> \<and> prog \<tau> = []" "\<forall>n \<tau>. (step ^^ n) \<sigma> \<tau> \<longrightarrow> n \<le> rank \<sigma>"
    using run_ends [OF ok(1)] steps_bounded [OF ok(1)] by fastforce+
  assume fin: "prog \<sigma> = []"
  note e = run_over [OF assms fin]
  show "\<forall>w. pc \<sigma> w = WExit \<and> map fst (log \<sigma> w) = map (side_of w) cs \<and> length (amounts \<sigma> w) = length cs \<and> length (areas \<sigma> w) = length cs"
    using e(1,2,4,5) by blast
  show "outcomes \<sigma> = map (\<lambda>k. outcome_of (take (Suc k) (map snd (log \<sigma> SendWorker))) (take (Suc k) (map snd (log \<sigma> RecvWorker)))) [0..<length cs]"
    using outcomes_list [OF ok(2) fin] unfolding errs_def by simp
  show "sent \<sigma> = concat (areas \<sigma> SendWorker)" "taken \<sigma> = sum_list (amounts \<sigma> RecvWorker)" by (rule e)+
  show "\<forall>k<length cs. let n = amounts \<sigma> SendWorker ! k; m = amounts \<sigma> RecvWorker ! k; t = sum_list (take k (amounts \<sigma> RecvWorker))
      in n \<le> x_total (fst (cs ! k)) \<and> (snd (log \<sigma> SendWorker ! k) = None \<longrightarrow> n = x_total (fst (cs ! k))) \<and>
        areas \<sigma> SendWorker ! k = take n (x_buf (fst (cs ! k))) \<and>
        m \<le> x_total (snd (cs ! k)) \<and> (snd (log \<sigma> RecvWorker ! k) = None \<longrightarrow> m = x_total (snd (cs ! k))) \<and>
        areas \<sigma> RecvWorker ! k = map bytes [t..<t + m] @ drop m (x_buf (snd (cs ! k)))"
    using e(8) [where w = SendWorker] e(8) [where w = RecvWorker] by (simp add: job_done_def moved_bytes_def Let_def)
  assume none: "\<forall>e \<in> set (outcomes \<sigma>). e = None"
  have all: "amounts \<sigma> w ! k = x_total (side_of w (cs ! k))" if "k < length cs" for w k
    using e(8) [OF that, of w] no_outcome [OF ok(2) fin none that e(3)] by (simp add: job_done_def)
  then have "areas \<sigma> SendWorker ! k = take (x_total (fst (cs ! k))) (x_buf (fst (cs ! k)))" if "k < length cs" for k
    using e(8) [OF that, of SendWorker] that by (simp add: job_done_def moved_bytes_def)
  then have "areas \<sigma> SendWorker = map (\<lambda>c. take (x_total (fst c)) (x_buf (fst c))) cs" by (intro nth_equalityI) (simp_all add: e(5))
  then show "sent \<sigma> = concat (map (\<lambda>c. take (x_total (fst c)) (x_buf (fst c))) cs)" using e(6) by simp
  show "amounts \<sigma> RecvWorker = map (\<lambda>c. x_total (snd c)) cs" using all [of _ RecvWorker] by (intro nth_equalityI) (simp_all add: e(4))
qed

theorem worker_handshake_witness:
  "(\<exists>\<tau>. step\<^sup>*\<^sup>* two_calls \<tau> \<and> prog \<tau> = []) \<and> (\<nexists>\<tau>. (step ^^ Suc (rank two_calls)) two_calls \<tau>) \<and>
    sent one_done = [1, 2] \<and> taken one_done = 2 \<and> areas one_done RecvWorker = [[0, 1]]"
proof -
  have "(\<exists>\<tau>. step\<^sup>*\<^sup>* two_calls \<tau> \<and> prog \<tau> = []) \<and> (\<nexists>\<tau>. (step ^^ Suc (rank two_calls)) two_calls \<tau>)"
    using worker_handshake [OF two_calls(1) [unfolded new2_def]] Suc_n_not_le_n by blast
  moreover have "sent one_done = [1, 2] \<and> taken one_done = 2 \<and> length (areas one_done RecvWorker) = 1 \<and> areas one_done RecvWorker ! 0 = [0, 1]"
  proof -
    let ?cs = "[(pair_of 1 2, pair_of 0 0)]"
    note h = worker_handshake [OF one_done(1) [unfolded new2_def], THEN conjunct2, THEN conjunct2, THEN mp, OF one_done(2)]
    have n: "\<forall>e \<in> set (outcomes one_done). e = None" using one_done(3) by simp
    have "sent one_done = concat (map (\<lambda>c. take (x_total (fst c)) (x_buf (fst c))) ?cs) \<and> amounts one_done RecvWorker = map (\<lambda>c. x_total (snd c)) ?cs"
      using h n by blast
    moreover have "taken one_done = sum_list (amounts one_done RecvWorker)" "length (areas one_done RecvWorker) = length ?cs" using h by blast+
    moreover have "areas one_done RecvWorker ! 0 = map of_nat [0..<amounts one_done RecvWorker ! 0] @ drop (amounts one_done RecvWorker ! 0) [0, 0]"
      using h by (simp add: pair_of_def Let_def)
    ultimately show ?thesis by (simp add: pair_of_def numeral_2_eq_2)
  qed
  moreover then have "areas one_done RecvWorker = [[0, 1]]" by (cases "areas one_done RecvWorker") auto
  ultimately show ?thesis by blast
qed

text \<open>When a call has returned, both its jobs have been performed.\<close>

theorem jobs_before_return:
  assumes "reached (workers_new bytes null cs) \<sigma>" "k < length (outcomes \<sigma>)"
  shows "k < length (log \<sigma> w) \<and> fst (log \<sigma> w ! k) = (case w of SendWorker \<Rightarrow> fst | RecvWorker \<Rightarrow> snd) (cs ! k)"
proof -
  note l = logD [OF conjunct2 [OF reached_ok [OF assms(1)]]]
  have k: "k < length (log \<sigma> w)" "k < length cs" using l(3) l(4) [OF assms(2), of w] assms(2) by simp_all
  have "map fst (log \<sigma> w) ! k = map (side_of w) cs ! k"
    using k arg_cong [OF l(1) [of w], of "\<lambda>xs. xs ! k"] by (simp add: nth_append)
  then show ?thesis using k by simp
qed

theorem jobs_before_return_witness:
  "1 < length (log two_calls RecvWorker) \<and> fst (log two_calls RecvWorker ! 1) = (case RecvWorker of SendWorker \<Rightarrow> fst | RecvWorker \<Rightarrow> snd) (two_jobs ! 1)"
  by (rule jobs_before_return [OF two_calls(1) [unfolded new2_def]]) (simp add: two_calls(2))

text \<open>C39: \<open>sendErr_\<close> and \<open>recvErr_\<close> are never cleared: after a call that threw, every later call
  throws, whether or not its own jobs fail.\<close>

theorem sticky_errors:
  assumes "reached (workers_new bytes null cs) \<sigma>" "k \<le> m" "m < length (outcomes \<sigma>)" "outcomes \<sigma> ! k \<noteq> None"
  shows "outcomes \<sigma> ! m \<noteq> None"
proof -
  note l = logD [OF conjunct2 [OF reached_ok [OF assms(1)]]]
  have more: "first_err (take (Suc k) es) \<noteq> None \<Longrightarrow> first_err (take (Suc m) es) \<noteq> None" for es
  proof -
    have app: "first_err (us @ vs) = None \<Longrightarrow> first_err us = None" for us vs
      by (induction us) (auto simp: first_err_def split: if_splits)
    show "first_err (take (Suc k) es) \<noteq> None \<Longrightarrow> first_err (take (Suc m) es) \<noteq> None"
      using app [of "take (Suc k) es" "take (m - k) (drop (Suc k) es)"] assms(2) take_add [of "Suc k" "m - k" es] by force
  qed
  show ?thesis
    using assms(4) more [of "errs SendWorker \<sigma>"] more [of "errs RecvWorker \<sigma>"] l(5) [of k] l(5) [of m] assms(2,3)
    by (auto simp: outcome_of_def split: option.splits)
qed

theorem sticky_errors_witness: "outcomes two_calls ! 1 \<noteq> None"
  by (rule sticky_errors [OF two_calls(1) [unfolded new2_def], of 0]) (simp_all add: two_calls(2))

text \<open>A call after \<open>shutdown\<close> never returns: the workers are gone, and the wait for
  \<open>sendDone_\<close> has nobody to end it.\<close>

theorem reshare_after_shutdown:
  assumes "reached \<sigma> \<tau>" "\<And>w. pc \<sigma> w = WExit" "\<not> ended \<sigma> SendWorker" "prog \<sigma> = reshare_code c @ P"
  shows "(\<exists>k\<le>4. prog \<tau> = drop k (reshare_code c) @ P) \<and> outcomes \<tau> = outcomes \<sigma>"
proof -
  have "(\<exists>k\<le>4. prog \<tau> = drop k (reshare_code c) @ P) \<and> outcomes \<tau> = outcomes \<sigma> \<and> (\<forall>w. pc \<tau> w = WExit) \<and> \<not> ended \<tau> SendWorker"
    using assms(1)
  proof (induction rule: reached.induct)
    case refl
    then show ?case using assms by (intro conjI exI [of _ 0]) simp_all
  next
    case (by_step \<rho> \<tau>)
    then obtain k where k: "k \<le> 4" "prog \<rho> = drop k (reshare_code c) @ P" by blast
    then consider "k = 0" | "k = 1" | "k = 2" | "k = 3" | "k = 4" by linarith
    note pos = this
    from by_step(2) show ?case
    proof cases
      case main
      show ?thesis
      proof (cases "k = 4")
        case True
        with main k by_step(3) show ?thesis by (auto simp: main_step_def reshare_code_def split: if_splits)
      next
        case False
        with pos have "prog \<tau> = drop (Suc k) (reshare_code c) @ P \<and> outcomes \<tau> = outcomes \<rho> \<and> pc \<tau> = pc \<rho> \<and> ended \<tau> = ended \<rho>"
          by cases (use main k(2) by_step(3) in \<open>auto simp: main_step_def reshare_code_def split: if_splits\<close>)
        then show ?thesis using by_step(3) False k(1) by (intro conjI exI [of _ "Suc k"]) simp_all
      qed
    next
      case (worker out w)
      then show ?thesis using by_step(3) by (simp add: worker_step_def)
    qed
  next
    case (by_wakeup \<rho> \<tau>)
    from by_wakeup(2) show ?case by cases (use by_wakeup(3) in auto)
  qed
  then show ?thesis by blast
qed

theorem reshare_after_shutdown_witness:
  "(\<exists>k\<le>4. prog stuck = drop k (reshare_code (pair_of 5 6, pair_of 0 0)) @ []) \<and> outcomes stuck = outcomes used_again"
  by (rule reshare_after_shutdown [OF stuck(1)]) (simp_all add: used_again_def new2_def workers_new_def)

end
