(* ===== verification/Emp2.thy ===== *)
theory Emp2
  imports Hashing Net
begin

text \<open>
  Two-party additive sharing, \<^verbatim>\<open>include/ref_impl/shr_add2/emp2.hpp\<close>: construction and the
  messages that share, send and receive values. The random values a call draws are its arguments.
\<close>

section \<open>The two parties\<close>

text \<open>\<open>ShrAdd2Pid::P0\<close> is \<open>ALICE\<close> of the toolkit, \<open>P1\<close> is \<open>BOB\<close>.\<close>

datatype ShrAdd2Pid = Alice | Bob

type_synonym 'a both = "ShrAdd2Pid \<Rightarrow> 'a"

text \<open>Each party has one endpoint.\<close>

definition pair_peer :: "ShrAdd2Pid \<times> unit \<Rightarrow> ShrAdd2Pid \<times> unit" where
  "pair_peer x = (if fst x = Alice then Bob else Alice, ())"

interpretation pair: network pair_peer
proof
  fix x y :: "ShrAdd2Pid \<times> unit" assume "pair_peer x = pair_peer y"
  then show "x = y" by (cases "fst x"; cases "fst y") (simp_all add: pair_peer_def prod_eq_iff)
qed

definition rand_mask :: "nat \<Rightarrow> u32 \<Rightarrow> u32" where
  "rand_mask ell v = v AND RING_MASK32 ell"

section \<open>Messages\<close>

definition emp2_send_data :: "byte list \<Rightarrow> (unit, unit) proc" where
  "emp2_send_data bs = pbind (send_data () bs) (\<lambda>_. flush ())"

definition emp2_recv_data :: "nat \<Rightarrow> (unit, byte list) proc" where
  "emp2_recv_data n = recv_bytes () n"

text \<open>\<open>sodium\<close> is the result of \<open>sodium_init\<close>; the seed is sent and forgotten on both sides.\<close>

definition emp2_new :: "int \<Rightarrow> block \<Rightarrow> ShrAdd2Pid \<Rightarrow> (unit, unit) proc" where
  "emp2_new sodium seed party =
     (if sodium < 0 then Fail RuntimeError
      else pbind (if party = Alice then send_data () (le_bytes 16 seed) else pbind (recv_bytes () 16) (\<lambda>_. Ret ()))
             (\<lambda>_. flush ()))"

section \<open>Sharing modulo \<open>2 ^ ELL\<close>\<close>

definition emp2_share :: "nat \<Rightarrow> u32 \<Rightarrow> u32 \<Rightarrow> (unit, u32) proc" where
  "emp2_share ell rand val =
     (let r = rand_mask ell rand; complement = ringSub32 ell val r
      in pbind (emp2_send_data (le_bytes 4 complement)) (\<lambda>_. Ret r))"

definition emp2_recvShare :: "(unit, u32) proc" where
  "emp2_recvShare = pbind (emp2_recv_data 4) (\<lambda>bs. Ret (of_le_bytes bs))"

definition emp2_send :: "u32 \<Rightarrow> (unit, unit) proc" where
  "emp2_send val = emp2_send_data (le_bytes 4 val)"

definition emp2_recv :: "(unit, u32) proc" where
  "emp2_recv = pbind (emp2_recv_data 4) (\<lambda>bs. Ret (of_le_bytes bs))"

section \<open>XOR sharing of bytes\<close>

definition xor_bytes :: "byte list \<Rightarrow> byte list \<Rightarrow> byte list" where
  "xor_bytes xs ys = map (\<lambda>(x, y). x XOR y) (zip xs ys)"

text \<open>\<open>mine\<close> is what \<open>randombytes_buf\<close> writes, as long as the plain text.\<close>

definition shareBytes :: "byte list \<Rightarrow> byte list \<Rightarrow> (unit, byte list) proc" where
  "shareBytes mine plain =
     pbind (lift_res (collect (map (\<lambda>i. rbind (rd plain i) (\<lambda>x. rbind (rd mine i) (\<lambda>y. Inr (x XOR y)))) [0..<length plain]))) (\<lambda>other.
     pbind (emp2_send_data (le_bytes 8 (of_nat (length plain) :: u64))) (\<lambda>_.
     pbind (emp2_send_data other) (\<lambda>_. Ret mine)))"

text \<open>\<open>alloc\<close> tells whether a vector of that length can be allocated.\<close>

definition recvBytes :: "(nat \<Rightarrow> bool) \<Rightarrow> (unit, byte list) proc" where
  "recvBytes alloc =
     pbind (emp2_recv_data 8) (\<lambda>bs. let len = unat (of_le_bytes bs :: u64) in
     if alloc len then emp2_recv_data len else Fail BadAlloc)"

definition shareKey :: "byte list \<Rightarrow> byte list \<Rightarrow> (unit, byte list) proc" where
  "shareKey mine key =
     pbind (lift_res (collect (map (\<lambda>i. rbind (rd key i) (\<lambda>x. rbind (rd mine i) (\<lambda>y. Inr (x XOR y)))) [0..<16]))) (\<lambda>other.
     pbind (emp2_send_data other) (\<lambda>_. Ret mine))"

definition recvKey16 :: "(unit, byte list) proc" where
  "recvKey16 = emp2_recv_data 16"

section \<open>One message\<close>

definition other_of :: "ShrAdd2Pid \<Rightarrow> ShrAdd2Pid" where
  "other_of p = (if p = Alice then Bob else Alice)"

lemma pair_peer_other [simp]: "pair_peer (p, u) = (other_of p, ())" and other_of_ne [simp]: "other_of p \<noteq> p" "p \<noteq> other_of p"
  by (simp_all add: pair_peer_def other_of_def)

lemma pair_run:
  assumes "0 < cap" "P d = pbind (emp2_send_data bs) K" "P (other_of d) = pbind (emp2_recv_data (length bs)) K'"
  shows "runs pair_peer cap P (\<lambda>p. if p = d then K () else K' bs)"
proof -
  let ?e = "\<lambda>_. []"
  have "reaches pair_peer cap (state P ?e ?e) (state (P(d := K (), other_of d := K' bs)) ?e ?e)"
    by (rule message_reaches) (use assms in \<open>simp_all add: emp2_send_data_def emp2_recv_data_def pbind_assoc\<close>)
  moreover have "P(d := K (), other_of d := K' bs) = (\<lambda>p. if p = d then K () else K' bs)"
    by (rule ext) (case_tac p; cases d; simp add: other_of_def)
  ultimately show ?thesis by (simp add: runs_def quiet_state)
qed

abbreviation "pair_ends cap P r \<equiv> runs pair_peer cap P (\<lambda>p. Ret (r p))"

lemma xor_shares:
  "length mine = length plain \<Longrightarrow>
    collect (map (\<lambda>i. rbind (rd plain i) (\<lambda>x. rbind (rd mine i) (\<lambda>y. Inr (x XOR y)))) [0..<length plain]) = Inr (xor_bytes plain mine)"
  by (subst collect_ok [where g = "\<lambda>i. plain ! i XOR mine ! i"]) (auto simp: xor_bytes_def intro: nth_equalityI)

lemma length_xor_bytes [simp]: "length (xor_bytes xs ys) = min (length xs) (length ys)"
  by (simp add: xor_bytes_def)

lemma xor_bytes_commute: "xor_bytes xs ys = xor_bytes ys xs"
  by (rule nth_equalityI) (auto simp: xor_bytes_def xor.commute)

lemma xor_bytes_back: "length xs = length ys \<Longrightarrow> xor_bytes (xor_bytes xs ys) ys = xs"
  by (rule nth_equalityI) (auto simp: xor_bytes_def xor.assoc)

lemma take_bit_word:
  fixes x y :: "'a::len word"
  assumes "ell \<le> LENGTH('a)"
  shows "take_bit ell (take_bit ell x + take_bit ell y) = take_bit ell (x + y)"
    "take_bit ell (take_bit ell x - take_bit ell y) = take_bit ell (x - y)"
    "take_bit ell (x + take_bit ell (y - x)) = take_bit ell y"
  using assms by (simp_all add: word_uint_eq_iff uint_take_bit_ops) (simp_all add: uint_take_bit_mod uint_take_bit_ops mod_simps)

lemma construction_runs:
  assumes "0 < cap" "0 \<le> sodium"
  shows "pair_ends cap (emp2_new sodium seed) (\<lambda>_. ())"
proof -
  let ?e = "\<lambda>_ :: ShrAdd2Pid \<times> unit. [] :: byte list" and ?P = "emp2_new sodium seed"
  let ?P1 = "?P(Alice := Ret (), Bob := flush ())" let ?P2 = "?P1(Bob := Ret ())"
  have "reaches pair_peer cap (state ?P ?e ?e) (state ?P1 ?e ?e)"
    using message_reaches [of Alice Bob pair_peer "()" "()" cap ?P "le_bytes 16 seed" Ret "\<lambda>_. flush ()" ?e ?e] assms
    by (simp add: emp2_new_def pbind_assoc other_of_def flush_def recv_bytes_def)
  moreover have "reaches pair_peer cap (state ?P1 ?e ?e) (state ?P2 ?e ?e)"
    using flush_reaches [of ?P1 Bob "()" Ret ?e pair_peer ?e cap] upd_id [of ?e "(Bob, ())" "[]"] upd_id [of ?e "(Alice, ())" "[]"]
    by (simp add: flush_def other_of_def)
  moreover have "?P2 p = Ret ()" for p by (cases p) simp_all
  then have "?P2 = (\<lambda>_. Ret ())" by blast
  ultimately show ?thesis unfolding runs_def quiet_state by (metis reaches_trans)
qed

text \<open>What the parties of an XOR sharing are left with.\<close>

definition xor_parts :: "ShrAdd2Pid \<Rightarrow> byte list \<Rightarrow> byte list \<Rightarrow> byte list both" where
  "xor_parts d mine plain = (\<lambda>p. if p = d then mine else xor_bytes plain mine)"

lemma pbind_Ret: "pbind m Ret = m"
  by (induction m) simp_all

lemma xor_parts_sum:
  assumes "length mine = length plain"
  shows "xor_bytes (xor_parts d mine plain Alice) (xor_parts d mine plain Bob) = plain"
    "length (xor_parts d mine plain p) = length plain"
  using xor_bytes_back [OF assms [symmetric]] xor_bytes_commute [of mine "xor_bytes plain mine"] assms
  by (cases d; simp add: xor_parts_def)+

lemma xor_sent:
  assumes "0 < cap" "length mine = length plain" "K' (xor_bytes plain mine) = Ret (xor_bytes plain mine)"
  shows "pair_ends cap (\<lambda>p. if p = d then pbind (emp2_send_data (xor_bytes plain mine)) (\<lambda>_. Ret mine)
    else pbind (emp2_recv_data (length plain)) K') (xor_parts d mine plain)"
  using pair_run [OF assms(1), of _ d "xor_bytes plain mine" "\<lambda>_. Ret mine" K'] assms(2,3)
  by (simp add: xor_parts_def if_distrib cong: if_cong)

lemma bytes_shared:
  assumes "0 < cap" "length mine = length plain" "length plain < 2 ^ 64"
  shows "completes pair_peer cap (\<lambda>p. if p = d then shareBytes mine plain else recvBytes (\<lambda>_. True)) (xor_parts d mine plain)"
proof -
  let ?x = "xor_bytes plain mine" and ?n = "le_bytes 8 (of_nat (length plain) :: u64)"
  let ?P = "\<lambda>p. if p = d then shareBytes mine plain else recvBytes (\<lambda>_. True)"
  let ?Q = "\<lambda>p. if p = d then pbind (emp2_send_data ?x) (\<lambda>_. Ret mine) else emp2_recv_data (length plain)"
  have n: "unat (of_le_bytes ?n :: u64) = length plain"
    using assms(3) by (simp add: of_le_bytes_le_bytes unsigned_of_nat take_bit_nat_eq_self)
  have "runs pair_peer cap ?P ?Q"
    using pair_run [OF assms(1), of ?P d ?n "\<lambda>_. pbind (emp2_send_data ?x) (\<lambda>_. Ret mine)"
        "\<lambda>bs. let len = unat (of_le_bytes bs :: u64) in if True then emp2_recv_data len else Fail BadAlloc"]
    by (simp add: shareBytes_def recvBytes_def xor_shares [OF assms(2)] n Let_def cong: if_cong)
  moreover have "pair_ends cap ?Q (xor_parts d mine plain)"
    using xor_sent [OF assms(1,2), of Ret d] by (simp add: pbind_Ret cong: if_cong)
  ultimately show ?thesis by (intro pair.runs_completes) (rule runs_trans)
qed

lemma key_shared:
  assumes "0 < cap" "length kmine = 16" "length key = 16" "K' (xor_bytes key kmine) = Ret (xor_bytes key kmine)"
  shows "completes pair_peer cap (\<lambda>p. if p = d then shareKey kmine key else pbind recvKey16 K') (xor_parts d kmine key)"
  using pair.runs_completes [OF xor_sent [where mine = kmine and plain = key and K' = K' and d = d, OF assms(1) _ assms(4)]]
    xor_shares [of kmine key] assms(2,3)
  by (simp add: shareKey_def recvKey16_def cong: if_cong)

section \<open>Properties\<close>

text \<open>\<open>share\<close> and \<open>recvShare\<close>, whoever the dealer is, end in every schedule with two ring
  elements that add up to the value modulo \<open>2 ^ ell\<close>.\<close>

theorem emp2_sharing:
  assumes "0 < cap" "1 \<le> ell" "ell \<le> 31"
  shows "\<exists>s. completes pair_peer cap (\<lambda>p. if p = dealer then emp2_share ell rand val else emp2_recvShare) s \<and>
    ringAdd32 ell (s Alice) (s Bob) = take_bit ell val \<and> (\<forall>p. take_bit ell (s p) = s p)"
proof -
  let ?r = "rand_mask ell rand" and ?P = "\<lambda>p. if p = dealer then emp2_share ell rand val else emp2_recvShare"
  let ?c = "ringSub32 ell val ?r" let ?s = "\<lambda>p. if p = dealer then ?r else ?c"
  have "of_le_bytes (le_bytes 4 ?c) = ?c" by (rule of_le_bytes_le_bytes) simp
  then have "pair_ends cap ?P ?s"
    using pair_run [OF assms(1), of ?P dealer "le_bytes 4 ?c" "\<lambda>_. Ret ?r" "\<lambda>bs. Ret (of_le_bytes bs)"]
    by (simp add: emp2_share_def emp2_recvShare_def Let_def if_distrib cong: if_cong)
  then have "completes pair_peer cap ?P ?s" by (rule pair.runs_completes)
  moreover have r: "take_bit ell ?r = ?r" using assms by (simp add: rand_mask_def RING_MASK32_eq take_bit_eq_mask and.assoc)
  have "take_bit ell (?r + take_bit ell (val - ?r)) = take_bit ell val" by (rule take_bit_word) (use assms in simp)
  then have "ringAdd32 ell (?s Alice) (?s Bob) = take_bit ell val" "\<forall>p. take_bit ell (?s p) = ?s p"
    using assms r by (cases dealer; simp add: ring_simps add.commute)+
  ultimately show ?thesis by (intro exI [of _ ?s] conjI)
qed

theorem emp2_sharing_witness:
  "\<exists>s. completes pair_peer 1 (\<lambda>p. if p = Bob then emp2_share 10 77777 1000 else emp2_recvShare) s \<and>
    ringAdd32 10 (s Alice) (s Bob) = take_bit 10 1000 \<and> (\<forall>p. take_bit 10 (s p) = s p)"
  by (rule emp2_sharing) simp_all

text \<open>\<open>shareBytes\<close> and \<open>recvBytes\<close> leave the two parties with XOR shares of the plain text, of
  any length the receiver can allocate; so do \<open>shareKey\<close> and \<open>recvKey\<close> for sixteen bytes.\<close>

theorem emp2_byte_sharing:
  assumes "0 < cap" "length mine = length plain" "length plain < 2 ^ 64"
  shows "(\<exists>s. completes pair_peer cap (\<lambda>p. if p = dealer then shareBytes mine plain else recvBytes (\<lambda>_. True)) s \<and>
      xor_bytes (s Alice) (s Bob) = plain) \<and>
    (length plain = 16 \<longrightarrow> (\<exists>s. completes pair_peer cap (\<lambda>p. if p = dealer then shareKey mine plain else recvKey16) s \<and>
      xor_bytes (s Alice) (s Bob) = plain))"
proof (intro conjI impI)
  show "\<exists>s. completes pair_peer cap (\<lambda>p. if p = dealer then shareBytes mine plain else recvBytes (\<lambda>_. True)) s \<and>
      xor_bytes (s Alice) (s Bob) = plain"
    using bytes_shared [OF assms, of dealer] xor_parts_sum(1) [OF assms(2), of dealer] by blast
  assume "length plain = 16"
  then show "\<exists>s. completes pair_peer cap (\<lambda>p. if p = dealer then shareKey mine plain else recvKey16) s \<and>
      xor_bytes (s Alice) (s Bob) = plain"
    using key_shared [OF assms(1), of mine plain Ret dealer] xor_parts_sum(1) [OF assms(2), of dealer] assms(2)
    by (auto simp: pbind_Ret cong: if_cong)
qed

theorem emp2_byte_sharing_witness:
  "\<exists>s. completes pair_peer 2 (\<lambda>p. if p = Alice then shareBytes [9, 200, 4] [1, 2, 255] else recvBytes (\<lambda>_. True)) s \<and>
    xor_bytes (s Alice) (s Bob) = [1, 2, 255]"
  using emp2_byte_sharing [of 2 "[9, 200, 4]" "[1, 2, 255]" Alice] by simp

end
