(* ===== verification/Emp2_Circuits.thy ===== *)
theory Emp2_Circuits
  imports Emp2
begin

text \<open>
  The operations of \<^verbatim>\<open>include/ref_impl/shr_add2/emp2.hpp\<close> that run inside a garbled circuit:
  \<open>hash\<close>, \<open>mod\<close> and \<open>equalityTest\<close>. Both parties run the same code with arguments of their own,
  so an operation is a function of both parties' arguments. The toolkit's session is the record
  \<open>sh2pc\<close> of functions on wires; what its documentation promises of them is \<open>sh2pc_ok\<close>.
\<close>

section \<open>The session\<close>

text \<open>\<open>input_bit p x\<close> is a wire that carries \<open>x p\<close>; the other party's argument is ignored. \<open>'u\<close> is
  \<open>UInt_T\<close> of \<open>ELL\<close> bits, a list of wires is a \<open>BitVec_T\<close>.\<close>

record ('w, 'u) sh2pc =
  input_bit :: "ShrAdd2Pid \<Rightarrow> (ShrAdd2Pid \<Rightarrow> bool) \<Rightarrow> 'w"
  wire_xor :: "'w \<Rightarrow> 'w \<Rightarrow> 'w"
  aes128_encrypt :: "'w list \<Rightarrow> 'w list \<Rightarrow> 'w list"
  low_uint :: "'w list \<Rightarrow> 'u"
  input_uint :: "ShrAdd2Pid \<Rightarrow> (ShrAdd2Pid \<Rightarrow> u32) \<Rightarrow> 'u"
  u_const :: "u32 \<Rightarrow> 'u"
  u_add :: "'u \<Rightarrow> 'u \<Rightarrow> 'u"
  u_sub :: "'u \<Rightarrow> 'u \<Rightarrow> 'u"
  u_mod :: "'u \<Rightarrow> 'u \<Rightarrow> 'u"
  u_eq :: "'u \<Rightarrow> 'u \<Rightarrow> 'w"
  u_select :: "'u \<Rightarrow> 'w \<Rightarrow> 'u \<Rightarrow> 'u"
  reveal :: "'u \<Rightarrow> ShrAdd2Pid \<Rightarrow> ShrAdd2Pid \<Rightarrow> u32"

definition xor_wires :: "('w, 'u) sh2pc \<Rightarrow> 'w list \<Rightarrow> 'w list \<Rightarrow> 'w list" where
  "xor_wires S = map2 (wire_xor S)"

text \<open>A value of the caller's own, an ALICE input at one party and a BOB input at the other.\<close>

definition inputs_of :: "('w, 'u) sh2pc \<Rightarrow> u32 both \<Rightarrow> 'u \<times> 'u" where
  "inputs_of S x =
     (input_uint S Alice (\<lambda>p. if p = Alice then x p else 0), input_uint S Bob (\<lambda>p. if p = Alice then 0 else x p))"

text \<open>The end of every operation: a fresh mask from both, the masked value revealed to BOB.\<close>

definition reshare_out :: "('w, 'u) sh2pc \<Rightarrow> nat \<Rightarrow> u32 both \<Rightarrow> 'u \<Rightarrow> u32 both" where
  "reshare_out S ell rand x =
     (let r = (\<lambda>p. rand_mask ell (rand p)); s = input_uint S Alice r; v = u_sub S x s; rb = reveal S v Bob
      in (\<lambda>p. if p = Alice then r p else rb p AND RING_MASK32 ell))"

section \<open>The operations\<close>

definition bytesToBits :: "byte list \<Rightarrow> nat \<Rightarrow> bool list \<Rightarrow> bool list res" where
  "bytesToBits src nbytes bits =
     for_loop 0 (nbytes * 8) (\<lambda>i bits. rbind (rd src (i div 8)) (\<lambda>x. wr bits i (drop_bit (i mod 8) x AND 1 \<noteq> 0))) bits"

definition hash_blocks :: "nat \<Rightarrow> nat" where
  "hash_blocks ptLen = (let nBlocks = usz (ptLen + 16 - 1) div 16 in if nBlocks = 0 then 1 else nBlocks)"

definition pt_bits :: "byte list \<Rightarrow> nat \<Rightarrow> bool list res" where
  "pt_bits myPt ptLen =
     for_loop 0 (hash_blocks ptLen) (\<lambda>b pt_u8.
       let off = b * 16; len = min (ptLen - off) 16
       in rbind (bytesToBits (drop off myPt) len (replicate 128 False)) (\<lambda>blockBits.
          for_loop 0 128 (\<lambda>i pt_u8. rbind (rd blockBits i) (wr pt_u8 (b * 128 + i))) pt_u8))
       (replicate (usz (hash_blocks ptLen * 128)) False)"

definition bit_inputs :: "('w, 'u) sh2pc \<Rightarrow> bool list both \<Rightarrow> nat \<Rightarrow> 'w list" where
  "bit_inputs S bits N = map (\<lambda>i. wire_xor S (input_bit S Alice (\<lambda>p. if p = Alice then bits p ! i else False))
     (input_bit S Bob (\<lambda>p. if p = Alice then False else bits p ! i))) [0..<N]"

definition dm_circuit :: "('w, 'u) sh2pc \<Rightarrow> 'w list \<Rightarrow> 'w list \<Rightarrow> nat \<Rightarrow> 'w list \<Rightarrow> 'w list res" where
  "dm_circuit S ptWire kyBlk b h =
     (let m = take 128 (drop (b * 128) ptWire) in
      if b = 0 then Inr (aes128_encrypt S m kyBlk)
      else let x = xor_wires S h m; ct = aes128_encrypt S x kyBlk in Inr (xor_wires S ct h))"

definition emp2_hash :: "('w, 'u) sh2pc \<Rightarrow> nat \<Rightarrow> byte list both \<Rightarrow> nat \<Rightarrow> byte list both \<Rightarrow> u32 both \<Rightarrow> u32 both res" where
  "emp2_hash S ell myPt ptLen myKey rand =
     rbind (pt_bits (myPt Alice) ptLen) (\<lambda>pt_a. rbind (pt_bits (myPt Bob) ptLen) (\<lambda>pt_b.
     rbind (bytesToBits (myKey Alice) 16 (replicate 128 False)) (\<lambda>ky_a. rbind (bytesToBits (myKey Bob) 16 (replicate 128 False)) (\<lambda>ky_b.
     let ptWire = bit_inputs S (\<lambda>p. if p = Alice then pt_a else pt_b) (usz (hash_blocks ptLen * 128));
         kyBlk = bit_inputs S (\<lambda>p. if p = Alice then ky_a else ky_b) 128
     in rbind (for_loop 0 (hash_blocks ptLen) (dm_circuit S ptWire kyBlk) []) (\<lambda>h.
        Inr (reshare_out S ell rand (low_uint S h)))))))"

definition emp2_mod :: "('w, 'u) sh2pc \<Rightarrow> nat \<Rightarrow> u32 both \<Rightarrow> u32 \<Rightarrow> u32 both \<Rightarrow> u32 both res" where
  "emp2_mod S ell my_a mv rand =
     (if mv = 0 then Inl InvalidArgument
      else if (ucast mv :: u64) \<ge> push_bit ell 1 then Inl InvalidArgument
      else let (a_a, a_b) = inputs_of S my_a; r = u_mod S (u_add S a_a a_b) (u_const S mv)
        in Inr (reshare_out S ell rand r))"

definition equalityTest :: "('w, 'u) sh2pc \<Rightarrow> nat \<Rightarrow> u32 both \<Rightarrow> u32 both \<Rightarrow> u32 both \<Rightarrow> u32 both" where
  "equalityTest S ell my_a my_b rand =
     (let (a_a, a_b) = inputs_of S my_a; (b_a, b_b) = inputs_of S my_b;
          diff = u_sub S (u_add S a_a a_b) (u_add S b_a b_b); eq_bit = u_eq S diff (u_const S 0);
          eq_val = u_select S (u_const S 0) eq_bit (u_const S 1)
      in reshare_out S ell rand eq_val)"

section \<open>What the toolkit promises\<close>

definition block_of :: "('w \<Rightarrow> bool) \<Rightarrow> 'w list \<Rightarrow> block" where
  "block_of bv ws = horner_sum of_bool 2 (map bv ws)"

definition sh2pc_ok :: "('w, 'u) sh2pc \<Rightarrow> nat \<Rightarrow> (block \<Rightarrow> block \<Rightarrow> block) \<Rightarrow> ('w \<Rightarrow> bool) \<Rightarrow> ('u \<Rightarrow> u32) \<Rightarrow> bool" where
  "sh2pc_ok S ell prp bv uv \<longleftrightarrow>
     (\<forall>p x. bv (input_bit S p x) = x p) \<and>
     (\<forall>v w. bv (wire_xor S v w) = (bv v \<noteq> bv w)) \<and>
     (\<forall>m k. length m = 128 \<longrightarrow> length k = 128 \<longrightarrow>
        length (aes128_encrypt S m k) = 128 \<and> block_of bv (aes128_encrypt S m k) = prp (block_of bv k) (block_of bv m)) \<and>
     (\<forall>ws. length ws = 128 \<longrightarrow> uv (low_uint S ws) = take_bit ell (ucast (block_of bv ws))) \<and>
     (\<forall>p x. uv (input_uint S p x) = take_bit ell (x p)) \<and>
     (\<forall>c. uv (u_const S c) = take_bit ell c) \<and>
     (\<forall>x y. uv (u_add S x y) = take_bit ell (uv x + uv y)) \<and>
     (\<forall>x y. uv (u_sub S x y) = take_bit ell (uv x - uv y)) \<and>
     (\<forall>x y. uv y \<noteq> 0 \<longrightarrow> uv (u_mod S x y) = uv x mod uv y) \<and>
     (\<forall>x y. bv (u_eq S x y) = (uv x = uv y)) \<and>
     (\<forall>x w y. uv (u_select S x w y) = (if bv w then uv y else uv x)) \<and>
     (\<forall>x p. reveal S x p p = uv x)"

text \<open>An instance: wires that carry their values in the clear.\<close>

definition clear :: "nat \<Rightarrow> (block \<Rightarrow> block \<Rightarrow> block) \<Rightarrow> (bool, u32) sh2pc" where
  "clear ell prp = \<lparr>input_bit = (\<lambda>p x. x p), wire_xor = (\<noteq>),
     aes128_encrypt = (\<lambda>m k. map (bit (prp (horner_sum of_bool 2 k) (horner_sum of_bool 2 m))) [0..<128]),
     low_uint = (\<lambda>ws. take_bit ell (ucast (horner_sum of_bool 2 ws :: block))), input_uint = (\<lambda>p x. take_bit ell (x p)),
     u_const = take_bit ell, u_add = (\<lambda>x y. take_bit ell (x + y)), u_sub = (\<lambda>x y. take_bit ell (x - y)), u_mod = (mod),
     u_eq = (=), u_select = (\<lambda>x w y. if w then y else x), reveal = (\<lambda>x p q. if p = q then x else 0)\<rparr>"

lemma bits_of_block: "horner_sum of_bool 2 (map (bit w) [0..<128]) = (w :: block)"
  by (rule bit_word_eqI) (simp add: bit_horner_sum_bit_word_iff)

lemma clear_ok: "sh2pc_ok (clear ell prp) ell prp (\<lambda>w. w) (\<lambda>x. x)"
  by (simp add: sh2pc_ok_def clear_def block_of_def bits_of_block)

section \<open>Wires and their values\<close>

lemma sh2pcD:
  assumes "sh2pc_ok S ell prp bv uv"
  shows "bv (input_bit S p x) = x p" "bv (wire_xor S v w) = (bv v \<noteq> bv w)"
    "length m = 128 \<Longrightarrow> length k = 128 \<Longrightarrow> length (aes128_encrypt S m k) = 128"
    "length m = 128 \<Longrightarrow> length k = 128 \<Longrightarrow> block_of bv (aes128_encrypt S m k) = prp (block_of bv k) (block_of bv m)"
    "length m = 128 \<Longrightarrow> uv (low_uint S m) = take_bit ell (ucast (block_of bv m))"
    "uv (input_uint S p y) = take_bit ell (y p)" "uv (u_const S c) = take_bit ell c"
    "uv (u_add S a b) = take_bit ell (uv a + uv b)" "uv (u_sub S a b) = take_bit ell (uv a - uv b)"
    "uv b \<noteq> 0 \<Longrightarrow> uv (u_mod S a b) = uv a mod uv b" "bv (u_eq S a b) = (uv a = uv b)"
    "uv (u_select S a w b) = (if bv w then uv b else uv a)" "reveal S a p p = uv a"
  using assms unfolding sh2pc_ok_def by simp_all

lemma reshared:
  assumes S: "sh2pc_ok S ell prp bv uv" and ell: "1 \<le> ell" "ell \<le> 31" and x: "uv x = take_bit ell y"
  shows "ringAdd32 ell (reshare_out S ell rand x Alice) (reshare_out S ell rand x Bob) = take_bit ell y"
proof -
  let ?r = "rand_mask ell (rand Alice)"
  have m: "w AND RING_MASK32 ell = take_bit ell w" for w by (simp add: RING_MASK32_eq take_bit_eq_mask)
  have "reshare_out S ell rand x Alice = ?r" "reshare_out S ell rand x Bob = take_bit ell (take_bit ell y - take_bit ell ?r)"
    by (simp_all add: reshare_out_def Let_def m sh2pcD [OF S] x)
  moreover have "take_bit ell (?r + take_bit ell (take_bit ell y - take_bit ell ?r)) = take_bit ell y"
    using take_bit_word(3) [of ell ?r y] take_bit_word(2) [of ell y ?r] ell by simp
  ultimately show ?thesis using ell by (simp add: ring_simps)
qed

lemma reshare_out_range: "take_bit ell (reshare_out S ell rand x p) = reshare_out S ell rand x p"
  by (simp add: reshare_out_def rand_mask_def RING_MASK32_eq take_bit_eq_mask and.assoc)

lemma sum_input:
  assumes S: "sh2pc_ok S ell prp bv uv" and ell: "ell \<le> 31"
  shows "uv (u_add S (fst (inputs_of S x)) (snd (inputs_of S x))) = take_bit ell (x Alice + x Bob)"
  using take_bit_word(1) [of ell "x Alice" "x Bob"] ell by (simp add: inputs_of_def sh2pcD [OF S])

section \<open>Modulus and equality\<close>

lemma small_word: "uint w < 2 ^ ell \<Longrightarrow> take_bit ell w = (w :: u32)"
  by (simp add: word_uint_eq_iff uint_take_bit_mod)

lemma fits_ring: "ell \<le> 31 \<Longrightarrow> (ucast mv :: u64) \<ge> push_bit ell 1 \<longleftrightarrow> 2 ^ ell \<le> uint mv" for mv :: u32
proof -
  assume ell: "ell \<le> 31"
  then have "(2 :: int) ^ ell < 2 ^ 64" by (intro power_strict_increasing) simp_all
  with ell have "uint (push_bit ell 1 :: u64) = 2 ^ ell" unfolding unsigned_push_bit_eq by (simp add: take_bit_int_eq_self push_bit_eq_mult)
  moreover have "uint (ucast mv :: u64) = uint mv" by (rule uint_up_ucast) (simp add: is_up)
  ultimately show ?thesis by (simp add: word_le_def)
qed

lemma emp2_mod_value:
  assumes "sh2pc_ok S ell prp bv uv" "1 \<le> ell" "ell \<le> 31"
  shows "if mv = 0 \<or> 2 ^ ell \<le> uint mv then emp2_mod S ell x mv rand = Inl InvalidArgument
    else \<exists>s. emp2_mod S ell x mv rand = Inr s \<and> ringAdd32 ell (s Alice) (s Bob) = take_bit ell (x Alice + x Bob) mod mv"
proof (cases "mv = 0 \<or> 2 ^ ell \<le> uint mv")
  case True
  then show ?thesis using fits_ring [OF assms(3), of mv] by (auto simp: emp2_mod_def)
next
  case False
  let ?a = "take_bit ell (x Alice + x Bob)" and ?r = "u_mod S (u_add S (fst (inputs_of S x)) (snd (inputs_of S x))) (u_const S mv)"
  have mv: "take_bit ell mv = mv" using False by (intro small_word) simp
  have "uint mv \<noteq> 0" using False by (simp add: uint_0_iff)
  then have "uint (?a mod mv) < uint mv"
    using pos_mod_bound [of "uint mv" "uint ?a"] uint_ge_0 [of mv] unfolding uint_mod by linarith
  then have "take_bit ell (?a mod mv) = ?a mod mv" using False by (intro small_word) simp
  moreover have "uv ?r = ?a mod mv" using False mv by (simp add: sh2pcD(7,10) [OF assms(1)] sum_input [OF assms(1,3)])
  ultimately have "uv ?r = take_bit ell (?a mod mv)" "take_bit ell (?a mod mv) = ?a mod mv" by simp_all
  from reshared [OF assms this(1)] this(2) show ?thesis
    using False fits_ring [OF assms(3), of mv] by (simp add: emp2_mod_def split_def Let_def)
qed

text \<open>C31: \<open>mod\<close> of additive shares of \<open>a\<close> gives additive shares of the remainder of \<open>a\<close> by the
  modulus; a modulus that is 0 or is no ring element is rejected.\<close>

theorem emp2_mod_correct:
  assumes "sh2pc_ok S ell prp bv uv" "1 \<le> ell" "ell \<le> 31"
  shows "if mv = 0 \<or> 2 ^ ell \<le> uint mv then emp2_mod S ell x mv rand = Inl InvalidArgument
    else \<exists>s. emp2_mod S ell x mv rand = Inr s \<and> ringAdd32 ell (s Alice) (s Bob) = take_bit ell (x Alice + x Bob) mod mv"
  by (rule emp2_mod_value [OF assms])

theorem emp2_mod_correct_witness:
  "\<exists>s. emp2_mod (clear 10 (XOR)) 10 (\<lambda>p. if p = Alice then 1000 else 500) 7 (\<lambda>_. 99) = Inr s \<and>
    ringAdd32 10 (s Alice) (s Bob) = take_bit 10 1500 mod 7"
  using emp2_mod_correct [OF clear_ok, where ell = 10 and mv = 7 and x = "\<lambda>p. if p = Alice then 1000 else 500" and prp = "(XOR)" and rand = "\<lambda>_. 99"] by simp

lemma equality_value:
  assumes "sh2pc_ok S ell prp bv uv" "1 \<le> ell" "ell \<le> 31"
  shows "ringAdd32 ell (equalityTest S ell x y rand Alice) (equalityTest S ell x y rand Bob) =
    (if take_bit ell (x Alice + x Bob) = take_bit ell (y Alice + y Bob) then 1 else 0)"
proof -
  let ?a = "take_bit ell (x Alice + x Bob)" and ?b = "take_bit ell (y Alice + y Bob)"
  have eq: "take_bit ell (?a - ?b) = 0 \<longleftrightarrow> ?a = ?b"
  proof
    assume "take_bit ell (?a - ?b) = 0"
    then show "?a = ?b" using take_bit_word(3) [of ell ?b ?a] assms(3) by simp
  qed simp
  have one: "take_bit ell (1 :: u32) = 1" by (rule small_word) (use assms(2) in simp)
  let ?e = "u_select S (u_const S 0) (u_eq S (u_sub S (u_add S (fst (inputs_of S x)) (snd (inputs_of S x)))
    (u_add S (fst (inputs_of S y)) (snd (inputs_of S y)))) (u_const S 0)) (u_const S 1)"
  have "uv ?e = take_bit ell (if ?a = ?b then 1 else 0)"
    using eq by (simp add: sh2pcD(7,9,11,12) [OF assms(1)] sum_input [OF assms(1,3)])
  from reshared [OF assms this] one show ?thesis by (simp add: equalityTest_def split_def Let_def)
qed

text \<open>\<open>equalityTest\<close> gives additive shares of 1 if the shared values are equal modulo \<open>2 ^ ell\<close>,
  of 0 if not.\<close>

theorem emp2_equality:
  assumes "sh2pc_ok S ell prp bv uv" "1 \<le> ell" "ell \<le> 31"
  shows "ringAdd32 ell (equalityTest S ell x y rand Alice) (equalityTest S ell x y rand Bob) =
    (if take_bit ell (x Alice + x Bob) = take_bit ell (y Alice + y Bob) then 1 else 0)"
  by (rule equality_value [OF assms])

theorem emp2_equality_witness:
  "ringAdd32 10 (equalityTest (clear 10 (XOR)) 10 (\<lambda>p. 600) (\<lambda>p. if p = Alice then 176 else 0) (\<lambda>_. 5) Alice)
    (equalityTest (clear 10 (XOR)) 10 (\<lambda>p. 600) (\<lambda>p. if p = Alice then 176 else 0) (\<lambda>_. 5) Bob) =
    (if take_bit 10 (600 + 600) = take_bit 10 (176 + 0 :: u32) then 1 else 0)"
  using emp2_equality [OF clear_ok, where ell = 10 and x = "\<lambda>p. 600" and y = "\<lambda>p. if p = Alice then 176 else 0" and prp = "(XOR)"
      and rand = "\<lambda>_. 5"] by simp

section \<open>The bits of the preimage\<close>

lemma low_bit_set: "x AND 1 \<noteq> 0 \<longleftrightarrow> bit x 0" for x :: byte
  by (simp add: and_one_eq odd_iff_mod_2_eq_one bit_0)

text \<open>A loop that writes the positions after a prefix.\<close>

lemma append_fill:
  assumes "length xs = p" "k \<le> m" "\<And>i. i < k \<Longrightarrow> f i = Inr (g i)"
  shows "for_loop 0 k (\<lambda>i out. rbind (f i) (wr out (p + i))) (xs @ replicate m z) = Inr (xs @ map g [0..<k] @ replicate (m - k) z)"
proof -
  let ?I = "\<lambda>i out. out = xs @ map g [0..<i] @ replicate (m - i) z"
  have "\<exists>out. for_loop 0 k (\<lambda>i out. rbind (f i) (wr out (p + i))) (xs @ replicate m z) = Inr out \<and> ?I k out"
  proof (rule for_loop_rule [where P = ?I])
    fix i out assume i: "0 \<le> i" "i < k" "?I i out"
    moreover have "replicate (m - i) z = z # replicate (m - Suc i) z" using i assms(2) by (metis Suc_diff_Suc less_le_trans replicate_Suc)
    ultimately show "\<exists>out'. rbind (f i) (wr out (p + i)) = Inr out' \<and> ?I (Suc i) out'"
      using assms by (simp add: list_update_append)
  qed simp_all
  then show ?thesis by simp
qed

text \<open>Block \<open>b\<close> of a message, padded with zeros.\<close>

definition chunk :: "byte list \<Rightarrow> nat \<Rightarrow> byte list" where
  "chunk pre b = take 16 (drop (b * 16) pre) @ replicate (16 - (length pre - b * 16)) 0"

lemma length_chunk [simp]: "length (chunk pre b) = 16"
  by (simp add: chunk_def)

lemma bits_of_zeros: "bits_of 8 (replicate k 0) = replicate (8 * k) False"
  by (rule nth_equalityI) (simp_all add: nth_bits_of)

lemma bytesToBits_eq:
  assumes "n \<le> length src" "n \<le> 16"
  shows "bytesToBits src n (replicate 128 False) = Inr (bits_of 8 (take n src @ replicate (16 - n) 0))"
proof -
  have "rbind (rd src (i div 8)) (\<lambda>x. Inr (drop_bit (i mod 8) x AND 1 \<noteq> 0)) = Inr (bits_of 8 (take n src) ! i)" if "i < n * 8" for i
  proof -
    have "i div 8 < n" using that by auto
    moreover have "i < 8 * length (take n src)" using that assms by simp
    ultimately show ?thesis using assms by (simp add: nth_bits_of low_bit_set bit_simps)
  qed
  note loop = append_fill [of "[]" 0 "n * 8" 128 "\<lambda>i. rbind (rd src (i div 8)) (\<lambda>x. Inr (drop_bit (i mod 8) x AND 1 \<noteq> 0))"
      "\<lambda>i. bits_of 8 (take n src) ! i" False, OF _ _ this]
  have r: "rbind (rbind (rd src k) (\<lambda>x. Inr (g x))) w = rbind (rd src k) (\<lambda>x. w (g x))" for k g and w :: "bool \<Rightarrow> bool list res"
    by (cases "rd src k") simp_all
  have "map (\<lambda>i. bits_of 8 (take n src) ! i) [0..<n * 8] = bits_of 8 (take n src)"
    using map_nth [of "bits_of 8 (take n src)"] assms by (simp add: mult.commute)
  then show ?thesis using loop assms by (simp add: bytesToBits_def r bits_of_zeros algebra_simps)
qed

lemma concat_map_Suc: "concat (map h [0..<Suc m]) = concat (map h [0..<m]) @ h m"
  by simp

lemma length_concat_blocks: "(\<And>b. b < m \<Longrightarrow> length (h b) = l) \<Longrightarrow> length (concat (map h [0..<m])) = m * l"
  by (induction m) simp_all

lemma nth_concat_blocks:
  "(\<And>b. b < m \<Longrightarrow> length (h b) = l) \<Longrightarrow> b < m \<Longrightarrow> k < l \<Longrightarrow> concat (map h [0..<m]) ! (b * l + k) = h b ! k"
proof (induction m)
  case (Suc m)
  have len: "length (concat (map h [0..<m])) = m * l" using Suc.prems(1) by (intro length_concat_blocks) simp
  show ?case
  proof (cases "b = m")
    case True
    then show ?thesis using len by (simp add: nth_append)
  next
    case False
    then have b: "b < m" using Suc.prems(2) by simp
    then have "b * l + k < Suc b * l" "Suc b * l \<le> m * l" using Suc.prems(3) by (simp_all add: mult_le_mono1 del: mult_Suc) simp
    then have "b * l + k < m * l" by linarith
    then show ?thesis using Suc.IH [OF _ b Suc.prems(3)] Suc.prems(1) len by (simp add: nth_append)
  qed
qed simp

lemma pt_bits_eq:
  assumes "length pre < 2 ^ 60"
  shows "pt_bits pre (length pre) = Inr (concat (map (\<lambda>b. bits_of 8 (chunk pre b)) [0..<hash_blocks (length pre)]))"
proof -
  let ?nb = "hash_blocks (length pre)" and ?h = "\<lambda>b. bits_of 8 (chunk pre b)"
  let ?I = "\<lambda>b out. out = concat (map ?h [0..<b]) @ replicate (?nb * 128 - b * 128) False"
  have nb: "?nb * 128 < 2 ^ 64" "?nb \<le> length pre div 16 + 1" using assms by (auto simp: hash_blocks_def Let_def)
  have "\<exists>out. pt_bits pre (length pre) = Inr out \<and> ?I ?nb out"
    unfolding pt_bits_def Let_def
  proof (rule for_loop_rule [where P = ?I])
    show "?I 0 (replicate (usz (?nb * 128)) False)" using nb by simp
    fix b out assume b: "0 \<le> b" "b < ?nb" "?I b out"
    have off: "b * 16 \<le> length pre" using b(2) nb(2) by (cases "length pre = 0") (auto simp: hash_blocks_def)
    have blk: "bytesToBits (drop (b * 16) pre) (min (length pre - b * 16) 16) (replicate 128 False) = Inr (?h b)"
      using bytesToBits_eq [of "min (length pre - b * 16) 16" "drop (b * 16) pre"]
      by (simp add: chunk_def min_def)
    have len: "length (concat (map ?h [0..<b])) = b * 128" by (rule length_concat_blocks) simp
    have "for_loop 0 128 (\<lambda>i pt. rbind (rd (?h b) i) (wr pt (b * 128 + i))) out =
        Inr (concat (map ?h [0..<b]) @ map (\<lambda>i. ?h b ! i) [0..<128] @ replicate (?nb * 128 - b * 128 - 128) False)"
      unfolding b(3) using b(2) by (intro append_fill [OF len]) simp_all
    moreover have "map (\<lambda>i. ?h b ! i) [0..<128] = ?h b" using map_nth [of "?h b"] by simp
    moreover have "?nb * 128 - b * 128 - 128 = ?nb * 128 - Suc b * 128" by simp
    ultimately show "\<exists>out'. rbind (bytesToBits (drop (b * 16) pre) (min (length pre - b * 16) 16) (replicate 128 False))
        (\<lambda>blockBits. for_loop 0 128 (\<lambda>i pt_u8. rbind (rd blockBits i) (wr pt_u8 (b * 128 + i))) out) = Inr out' \<and> ?I (Suc b) out'"
      by (simp add: blk)
  qed simp
  then show ?thesis by simp
qed

section \<open>The chain in the circuit\<close>

lemma xor_chunk:
  assumes "length ma = length mb"
  shows "xor_bytes (chunk ma b) (chunk mb b) = chunk (xor_bytes ma mb) b"
  using assms by (intro nth_equalityI) (auto simp: chunk_def xor_bytes_def nth_append)

text \<open>A block of wires that carries the XOR of both parties' bits.\<close>

lemma block_of_inputs:
  assumes S: "sh2pc_ok S ell prp bv uv" and len: "length xa = 16" "length xb = 16"
    and at: "\<And>k. k < 128 \<Longrightarrow> bits Alice ! (o' + k) = bits_of 8 xa ! k" "\<And>k. k < 128 \<Longrightarrow> bits Bob ! (o' + k) = bits_of 8 xb ! k"
    and N: "o' + 128 \<le> N"
  shows "block_of bv (take 128 (drop o' (bit_inputs S bits N))) = of_le_bytes (xor_bytes xa xb)"
    "length (take 128 (drop o' (bit_inputs S bits N))) = 128"
proof -
  show len': "length (take 128 (drop o' (bit_inputs S bits N))) = 128" using N by (simp add: bit_inputs_def)
  show "block_of bv (take 128 (drop o' (bit_inputs S bits N))) = of_le_bytes (xor_bytes xa xb)"
  proof (rule bit_word_eqI)
    fix k assume "k < LENGTH(128)"
    then have k: "k < 128" by simp
    then have d: "k div 8 < 16" by auto
    have "bit (block_of bv (take 128 (drop o' (bit_inputs S bits N)))) k = (bits Alice ! (o' + k) \<noteq> bits Bob ! (o' + k))"
      using k N by (simp add: block_of_def bit_horner_sum_bit_word_iff bit_inputs_def sh2pcD(1,2) [OF S])
    also have "\<dots> = bit (of_le_bytes (xor_bytes xa xb) :: block) k"
      using k d len by (simp add: at nth_bits_of bit_of_le_bytes xor_bytes_def bit_simps)
    finally show "bit (block_of bv (take 128 (drop o' (bit_inputs S bits N)))) k = bit (of_le_bytes (xor_bytes xa xb) :: block) k" .
  qed
qed

lemma block_of_xor:
  assumes S: "sh2pc_ok S ell prp bv uv" and len: "length v = 128" "length w = 128"
  shows "block_of bv (xor_wires S v w) = block_of bv v XOR block_of bv w" "length (xor_wires S v w) = 128"
  using len by (auto intro!: bit_word_eqI simp: xor_wires_def block_of_def bit_horner_sum_bit_word_iff bit_simps sh2pcD(2) [OF S])

lemma blocks_pos: "pre \<noteq> [] \<Longrightarrow> 1 \<le> length pre"
  by (cases pre) simp_all

lemma blocks_step: "1 \<le> n \<Longrightarrow> (n + 15) div 16 = Suc ((n - 16 + 15) div 16)" for n :: nat
proof -
  assume "1 \<le> n"
  then obtain m where n: "n = Suc m" by (cases n) auto
  show ?thesis
  proof (cases "16 \<le> n")
    case True
    then have "n + 15 = (n - 16 + 15) + 16" by simp
    then show ?thesis by (metis div_add_self2 add.commute Suc_eq_plus1 zero_neq_numeral)
  next
    case False
    then have "n + 15 = m + 16" "m < 16" "n - 16 = 0" using n by simp_all
    then show ?thesis by simp
  qed
qed

lemma padded_blocks_chunks: "padded_blocks pre = map (chunk pre) [0..<(length pre + 15) div 16]"
proof (induction pre rule: padded_blocks.induct)
  case (1 pre)
  show ?case
  proof (cases "pre = []")
    case False
    have n: "(length pre + 15) div 16 = Suc ((length (drop 16 pre) + 15) div 16)" unfolding length_drop by (rule blocks_step) (rule blocks_pos [OF False])
    have c: "chunk pre (Suc b) = chunk (drop 16 pre) b" for b by (simp add: chunk_def add.commute)
    show ?thesis unfolding n using 1 False
      by (subst padded_blocks.simps) (simp add: upt_conv_Cons map_Suc_upt [symmetric] c comp_def chunk_def [of pre 0] del: upt_Suc)
  qed simp
qed

text \<open>What the chain goes over: at least one block.\<close>

lemma hash_blocks_chunks:
  assumes "length pre < 2 ^ 60"
  shows "map (chunk pre) [0..<hash_blocks (length pre)] = (if pre = [] then [replicate 16 0] else padded_blocks pre)"
proof (cases "pre = []")
  case False
  then have "hash_blocks (length pre) = (length pre + 15) div 16"
    using assms blocks_pos [OF False] by (auto simp: hash_blocks_def Let_def div_eq_0_iff)
  then show ?thesis using False by (simp add: padded_blocks_chunks)
qed (simp add: hash_blocks_def chunk_def)

lemma dm_chain:
  assumes S: "sh2pc_ok S ell prp bv uv" and key: "block_of bv ky = k" "length ky = 128"
    and m: "\<And>b. b < n \<Longrightarrow> block_of bv (take 128 (drop (b * 128) pt)) = of_le_bytes (c b)"
      "\<And>b. b < n \<Longrightarrow> length (take 128 (drop (b * 128) pt)) = 128" and n: "0 < n"
  shows "\<exists>h. for_loop 0 n (dm_circuit S pt ky) [] = Inr h \<and> length h = 128 \<and> block_of bv h = foldl (dm_step (prp k)) 0 (map c [0..<n])"
proof -
  let ?I = "\<lambda>b h. 0 < b \<longrightarrow> length h = 128 \<and> block_of bv h = foldl (dm_step (prp k)) 0 (map c [0..<b])"
  have "\<exists>h. for_loop 0 n (dm_circuit S pt ky) [] = Inr h \<and> ?I n h"
  proof (rule for_loop_rule [where P = ?I])
    fix b h assume b: "0 \<le> b" "b < n" "?I b h"
    let ?m = "take 128 (drop (b * 128) pt)"
    show "\<exists>h'. dm_circuit S pt ky b h = Inr h' \<and> ?I (Suc b) h'"
    proof (cases "b = 0")
      case True
      then show ?thesis using sh2pcD(3,4) [OF S m(2) [OF b(2)] key(2)] m(1) [OF b(2)] key(1)
        by (simp add: dm_circuit_def dm_step_def)
    next
      case False
      with b have h: "length h = 128" "block_of bv h = foldl (dm_step (prp k)) 0 (map c [0..<b])" by simp_all
      note x = block_of_xor [OF S h(1) m(2) [OF b(2)]]
      note ct = sh2pcD(3,4) [OF S x(2) key(2)]
      show ?thesis using False block_of_xor [OF S ct(1) h(1)] x(1) ct(2) m(1) [OF b(2)] key(1) h(2)
        by (simp add: dm_circuit_def dm_step_def Let_def)
    qed
  qed simp_all
  then show ?thesis using n by blast
qed

lemma emp2_hash_value:
  assumes S: "sh2pc_ok S ell prp bv uv" and ell: "1 \<le> ell" "ell \<le> 31"
    and pt: "length (pt Alice) = n" "length (pt Bob) = n" "n < 2 ^ 60" and ky: "length (ky Alice) = 16" "length (ky Bob) = 16"
  defines "pre \<equiv> xor_bytes (pt Alice) (pt Bob)"
  shows "\<exists>s. emp2_hash S ell pt n ky rand = Inr s \<and> ringAdd32 ell (s Alice) (s Bob) =
    take_bit ell (ucast (foldl (dm_step (prp (of_le_bytes (xor_bytes (ky Alice) (ky Bob))))) 0
      (if pre = [] then [replicate 16 0] else padded_blocks pre)))"
proof -
  let ?nb = "hash_blocks n" let ?N = "usz (?nb * 128)"
  have N: "?N = ?nb * 128" "0 < ?nb" using pt(3) by (auto simp: hash_blocks_def Let_def)
  define ptb where "ptb p = concat (map (\<lambda>b. bits_of 8 (chunk (pt p) b)) [0..<?nb])" for p
  define kyb where "kyb p = bits_of 8 (ky p)" for p
  have B: "pt_bits (pt Alice) n = Inr (ptb Alice)" "pt_bits (pt Bob) n = Inr (ptb Bob)"
    using pt_bits_eq [of "pt Alice"] pt_bits_eq [of "pt Bob"] pt by (simp_all add: ptb_def)
  have K: "bytesToBits (ky Alice) 16 (replicate 128 False) = Inr (kyb Alice)" "bytesToBits (ky Bob) 16 (replicate 128 False) = Inr (kyb Bob)"
    using bytesToBits_eq [of 16 "ky Alice"] bytesToBits_eq [of 16 "ky Bob"] ky by (simp_all add: kyb_def)
  have eta: "(\<lambda>p. if p = Alice then f Alice else f Bob) = f" for f :: "bool list both"
    by (rule ext, rename_tac p, case_tac p) simp_all
  let ?w = "bit_inputs S ptb ?N" and ?k = "take 128 (drop 0 (bit_inputs S kyb 128))"
  have key: "block_of bv ?k = of_le_bytes (xor_bytes (ky Alice) (ky Bob))" "length ?k = 128"
    by (rule block_of_inputs [OF S ky]; simp add: kyb_def)+
  have m: "block_of bv (take 128 (drop (b * 128) ?w)) = of_le_bytes (chunk pre b)" "length (take 128 (drop (b * 128) ?w)) = 128"
    if b: "b < ?nb" for b
  proof -
    have "Suc b * 128 \<le> ?nb * 128" using b by (intro mult_le_mono1) simp
    then have r: "b * 128 + 128 \<le> ?N" using N by simp
    have at: "ptb p ! (b * 128 + k) = bits_of 8 (chunk (pt p) b) ! k" if "k < 128" for p k
      unfolding ptb_def by (rule nth_concat_blocks) (use b that in simp_all)
    note blk = block_of_inputs [OF S length_chunk length_chunk at at r]
    show "block_of bv (take 128 (drop (b * 128) ?w)) = of_le_bytes (chunk pre b)" "length (take 128 (drop (b * 128) ?w)) = 128"
      using blk xor_chunk [of "pt Alice" "pt Bob" b] pt(1,2) unfolding pre_def by simp_all
  qed
  obtain h where h: "for_loop 0 ?nb (dm_circuit S ?w ?k) [] = Inr h" "length h = 128"
    "block_of bv h = foldl (dm_step (prp (of_le_bytes (xor_bytes (ky Alice) (ky Bob))))) 0 (map (chunk pre) [0..<?nb])"
    using dm_chain [OF S key m N(2)] by blast
  have "length pre = n" using pt by (simp add: pre_def)
  then have c: "map (chunk pre) [0..<?nb] = (if pre = [] then [replicate 16 0] else padded_blocks pre)"
    using hash_blocks_chunks [of pre] pt(3) by simp
  have k: "bit_inputs S kyb 128 = ?k" by (simp add: bit_inputs_def)
  have "emp2_hash S ell pt n ky rand = Inr (reshare_out S ell rand (low_uint S h))"
    unfolding emp2_hash_def B K rbind_Inr Let_def eta using h(1) k by simp
  then show ?thesis using reshared [OF S ell sh2pcD(5) [OF S h(2)]] unfolding h(3) c by blast
qed

section \<open>The hash\<close>

text \<open>C27: \<open>hash\<close> of XOR-shared preimage and key gives additive shares of what \<open>hashAESDM\<close>
  computes in the clear, for every non-empty preimage.\<close>

theorem emp2_hash_correct:
  assumes "sh2pc_ok S ell prp bv uv" "1 \<le> ell" "ell \<le> 31"
    and "length (pt Alice) = n" "length (pt Bob) = n" "0 < n" "n < 2 ^ 60" "length (ky Alice) = 16" "length (ky Bob) = 16"
  shows "\<exists>s. emp2_hash S ell pt n ky rand = Inr s \<and>
    Inr (ringAdd32 ell (s Alice) (s Bob)) =
      hashAESDM prp (Some (xor_bytes (pt Alice) (pt Bob))) n (Some (xor_bytes (ky Alice) (ky Bob))) 16 ell"
proof -
  have l: "length (xor_bytes (pt Alice) (pt Bob)) = n" "length (xor_bytes (ky Alice) (ky Bob)) = 16" using assms by simp_all
  then have "xor_bytes (pt Alice) (pt Bob) \<noteq> []" using assms(6) by fastforce
  with l show ?thesis
    using emp2_hash_value [OF assms(1-5,7-9), of rand] hash_value [OF assms(2,3), of "xor_bytes (ky Alice) (ky Bob)" prp "xor_bytes (pt Alice) (pt Bob)"]
    by simp
qed

theorem emp2_hash_correct_witness:
  "\<exists>s. emp2_hash (clear 20 (XOR)) 20 (\<lambda>p. if p = Alice then [7, 8] else [1, 2]) 2 (\<lambda>p. replicate 16 (if p = Alice then 5 else 9)) (\<lambda>_. 3) = Inr s \<and>
    Inr (ringAdd32 20 (s Alice) (s Bob)) =
      hashAESDM (XOR) (Some (xor_bytes [7, 8] [1, 2])) 2 (Some (xor_bytes (replicate 16 5) (replicate 16 9))) 16 20"
  using emp2_hash_correct [OF clear_ok, where ell = 20 and prp = "(XOR)" and pt = "\<lambda>p. if p = Alice then [7, 8] else [1, 2]" and n = 2
      and ky = "\<lambda>p. replicate 16 (if p = Alice then 5 else 9)" and rand = "\<lambda>_. 3"] by simp

text \<open>For the empty preimage it does not: \<open>hash\<close> encrypts one block of zeros, \<open>hashAESDM\<close>
  returns the initial value 0.\<close>

theorem emp2_hash_empty:
  assumes "sh2pc_ok S ell prp bv uv" "1 \<le> ell" "ell \<le> 31" "length (ky Alice) = 16" "length (ky Bob) = 16"
  shows "(\<exists>s. emp2_hash S ell (\<lambda>_. []) 0 ky rand = Inr s \<and>
      ringAdd32 ell (s Alice) (s Bob) = take_bit ell (ucast (prp (of_le_bytes (xor_bytes (ky Alice) (ky Bob))) 0))) \<and>
    hashAESDM prp (Some []) 0 (Some (xor_bytes (ky Alice) (ky Bob))) 16 ell = Inr 0"
proof -
  have z: "of_le_bytes (replicate 16 0) = (0 :: block)" using of_le_bytes_zeros [of "[]" 16, where 'a = 128] by simp
  have "length (xor_bytes (ky Alice) (ky Bob)) = 16" using assms by simp
  then show ?thesis
    using emp2_hash_value [OF assms(1-3), of "\<lambda>_. []" 0 ky rand] assms(4,5)
      hash_value [OF assms(2,3), of "xor_bytes (ky Alice) (ky Bob)" prp "[]"]
    by (simp add: xor_bytes_def dm_step_def z)
qed

theorem emp2_hash_empty_witness:
  "(\<exists>s. emp2_hash (clear 20 (XOR)) 20 (\<lambda>_. []) 0 (\<lambda>p. replicate 16 (if p = Alice then 5 else 9)) (\<lambda>_. 3) = Inr s \<and>
      ringAdd32 20 (s Alice) (s Bob) = take_bit 20 (ucast (of_le_bytes (xor_bytes (replicate 16 5) (replicate 16 9)) XOR 0 :: block))) \<and>
    hashAESDM (XOR) (Some []) 0 (Some (xor_bytes (replicate 16 5) (replicate 16 9))) 16 20 = Inr 0"
  using emp2_hash_empty [OF clear_ok, where ell = 20 and prp = "(XOR)" and ky = "\<lambda>p. replicate 16 (if p = Alice then 5 else 9)" and rand = "\<lambda>_. 3"]
  by simp

end
