(* ===== verification/Registry.thy ===== *)
theory Registry
  imports Prelude
begin

text \<open>
  The registry of connections behind the Python channel objects (\<^verbatim>\<open>src/bind/util_bind.cpp\<close>):
  a map from opaque handles to shared pointers and an atomic counter. Python threads use it
  without the interpreter lock, so registering is two steps, the atomic \<open>fetch_add\<close> and the
  insertion under the mutex. A connection is closed when the last copy of its shared pointer goes.
\<close>

section \<open>State\<close>

text \<open>Connections are numbered. \<open>holders\<close> are the protocol objects, and the calls in progress, that
  own copies of shared pointers; \<open>registering\<close> are the calls of \<open>netio_register\<close> between their two
  steps; \<open>use_count\<close> is the reference count of a connection.\<close>

record 'o registry =
  g_registry :: "u64 \<Rightarrow> nat option"
  g_next_handle :: u64
  registering :: "(u64 \<times> nat) list"
  holders :: "'o \<Rightarrow> nat list"
  use_count :: "nat \<Rightarrow> nat"
  closed :: "nat set"

definition registry_new :: "'o registry" where
  "registry_new = \<lparr>g_registry = Map.empty, g_next_handle = 1, registering = [], holders = (\<lambda>_. []),
     use_count = (\<lambda>_. 0), closed = {}\<rparr>"

section \<open>Operations\<close>

definition copy_ptr :: "nat \<Rightarrow> 'o registry \<Rightarrow> 'o registry" where
  "copy_ptr io w = w\<lparr>use_count := (use_count w)(io := Suc (use_count w io))\<rparr>"

definition drop_ptr :: "nat \<Rightarrow> 'o registry \<Rightarrow> 'o registry" where
  "drop_ptr io w = w\<lparr>use_count := (use_count w)(io := use_count w io - 1),
     closed := (if use_count w io = 1 then insert io (closed w) else closed w)\<rparr>"

definition drop_opt :: "nat option \<Rightarrow> 'o registry \<Rightarrow> 'o registry" where
  "drop_opt x = (case x of None \<Rightarrow> (\<lambda>w. w) | Some io \<Rightarrow> drop_ptr io)"

definition netio_acquire :: "'o registry \<Rightarrow> u64 \<Rightarrow> nat res" where
  "netio_acquire w h = (case g_registry w h of None \<Rightarrow> Inl RuntimeError | Some io \<Rightarrow> Inr io)"

definition netio_lookup :: "'o registry \<Rightarrow> u64 \<Rightarrow> nat res" where
  "netio_lookup w h = (case g_registry w h of None \<Rightarrow> Inl RuntimeError | Some io \<Rightarrow> Inr io)"

definition netio_release :: "u64 \<Rightarrow> 'o registry \<Rightarrow> 'o registry" where
  "netio_release h w = drop_opt (g_registry w h) (w\<lparr>g_registry := (g_registry w)(h := None)\<rparr>)"

text \<open>\<open>netio_register\<close> of the connection \<open>io\<close>, of which the caller holds the only pointer.\<close>

definition register_fetch :: "nat \<Rightarrow> 'o registry \<Rightarrow> 'o registry" where
  "register_fetch io w =
     w\<lparr>g_next_handle := g_next_handle w + 1, registering := registering w @ [(g_next_handle w, io)]\<rparr>"

definition register_insert :: "u64 \<times> nat \<Rightarrow> 'o registry \<Rightarrow> 'o registry" where
  "register_insert c w = drop_opt (g_registry w (fst c))
     (w\<lparr>g_registry := (g_registry w)(fst c := Some (snd c)), registering := remove1 c (registering w)\<rparr>)"

text \<open>\<open>NetIO_connect\<close>, \<open>NetIO_listen\<close> and \<open>NetIO_from_socket\<close> up to the insertion: a new connection.\<close>

definition netio_make :: "nat \<Rightarrow> 'o registry \<Rightarrow> 'o registry" where
  "netio_make io w = register_fetch io (copy_ptr io w)"

text \<open>A protocol object acquires the pointers of all its channels, then keeps them; when one handle is
  no longer valid, the copies made so far go again.\<close>

definition acquire_all :: "'o registry \<Rightarrow> u64 list \<Rightarrow> nat list res" where
  "acquire_all w hs = collect (map (netio_acquire w) hs)"

definition construct :: "'o \<Rightarrow> u64 list \<Rightarrow> 'o registry \<Rightarrow> 'o registry res" where
  "construct x hs w = rbind (acquire_all w hs) (\<lambda>ios. Inr (fold copy_ptr ios (w\<lparr>holders := (holders w)(x := ios)\<rparr>)))"

definition destroy :: "'o \<Rightarrow> 'o registry \<Rightarrow> 'o registry" where
  "destroy x w = fold drop_ptr (holders w x) (w\<lparr>holders := (holders w)(x := [])\<rparr>)"

section \<open>Executions\<close>

text \<open>\<open>reg n w w'\<close>: the threads lead from \<open>w\<close> to \<open>w'\<close> with \<open>n\<close> calls of \<open>netio_register\<close>. A new
  connection is one that no pointer has denoted before.\<close>

definition unused :: "nat \<Rightarrow> 'o registry \<Rightarrow> bool" where
  "unused io w \<longleftrightarrow> use_count w io = 0 \<and> io \<notin> closed w"

inductive reg :: "nat \<Rightarrow> 'o registry \<Rightarrow> 'o registry \<Rightarrow> bool" where
  reg_refl: "reg 0 w w"
| reg_make: "reg n w w' \<Longrightarrow> unused io w' \<Longrightarrow> reg (Suc n) w (netio_make io w')"
| reg_insert: "reg n w w' \<Longrightarrow> c \<in> List.set (registering w') \<Longrightarrow> reg n w (register_insert c w')"
| reg_release: "reg n w w' \<Longrightarrow> reg n w (netio_release h w')"
| reg_construct: "reg n w w' \<Longrightarrow> holders w' x = [] \<Longrightarrow> construct x hs w' = Inr w'' \<Longrightarrow> reg n w w''"
| reg_destroy: "reg n w w' \<Longrightarrow> reg n w (destroy x w')"

text \<open>The executions in which nobody releases the handle \<open>h\<close>; other handles may be.\<close>

inductive reg_kept :: "u64 \<Rightarrow> nat \<Rightarrow> 'o registry \<Rightarrow> 'o registry \<Rightarrow> bool" for h where
  kept_refl: "reg_kept h 0 w w"
| kept_make: "reg_kept h n w w' \<Longrightarrow> unused io w' \<Longrightarrow> reg_kept h (Suc n) w (netio_make io w')"
| kept_insert: "reg_kept h n w w' \<Longrightarrow> c \<in> List.set (registering w') \<Longrightarrow> reg_kept h n w (register_insert c w')"
| kept_release: "reg_kept h n w w' \<Longrightarrow> k \<noteq> h \<Longrightarrow> reg_kept h n w (netio_release k w')"
| kept_construct: "reg_kept h n w w' \<Longrightarrow> holders w' x = [] \<Longrightarrow> construct x hs w' = Inr w'' \<Longrightarrow> reg_kept h n w w''"
| kept_destroy: "reg_kept h n w w' \<Longrightarrow> reg_kept h n w (destroy x w')"

lemma kept_reg: "reg_kept h n w w' \<Longrightarrow> reg n w w'"
  by (induction rule: reg_kept.induct) (auto intro: reg.intros)

section \<open>The invariant\<close>

text \<open>How many pointers there are to a connection. The objects are finitely many.\<close>

definition entries :: "(u64 \<Rightarrow> nat option) \<Rightarrow> nat \<Rightarrow> nat" where
  "entries m io = card {h. m h = Some io}"

definition held :: "('o \<Rightarrow> nat list) \<Rightarrow> nat \<Rightarrow> nat" where
  "held f io = (\<Sum>x | f x \<noteq> []. count_list (f x) io)"

definition pointers :: "'o registry \<Rightarrow> nat \<Rightarrow> nat" where
  "pointers w io = entries (g_registry w) io + count_list (map snd (registering w)) io + held (holders w) io"

definition reg_ok :: "nat \<Rightarrow> 'o registry \<Rightarrow> bool" where
  "reg_ok n w \<longleftrightarrow> finite {x. holders w x \<noteq> []} \<and> g_next_handle w = of_nat (Suc n) \<and>
     distinct (map fst (registering w)) \<and>
     (\<forall>h. g_registry w h \<noteq> None \<or> h \<in> fst ` List.set (registering w) \<longrightarrow> 1 \<le> unat h \<and> unat h \<le> n) \<and>
     (\<forall>h \<in> fst ` List.set (registering w). g_registry w h = None) \<and>
     (\<forall>io. use_count w io = pointers w io) \<and> (\<forall>io \<in> closed w. use_count w io = 0)"

section \<open>Counting pointers\<close>

lemma entries_upd:
  "entries (m(h := x)) y + (if m h = Some y then 1 else 0) = entries m y + (if x = Some y then 1 else 0)"
proof -
  let ?R = "{k. k \<noteq> h \<and> m k = Some y}"
  have fin: "finite ?R" and out: "h \<notin> ?R" by simp_all
  have "{k. (m(h := z)) k = Some y} = (if z = Some y then insert h ?R else ?R)" for z by auto
  then have "entries (m(h := z)) y = card ?R + (if z = Some y then 1 else 0)" for z
    using card_insert_disjoint [OF fin out] by (simp add: entries_def)
  from this [of x] this [of "m h"] show ?thesis by simp
qed

lemma entries_pos: "m h = Some io \<Longrightarrow> 0 < entries m io"
  by (auto simp: entries_def card_gt_0_iff)

lemma held_upd:
  assumes "finite {x. f x \<noteq> []}"
  shows "held (f(y := zs)) io + count_list (f y) io = held f io + count_list zs io"
proof -
  let ?S = "insert y {x. f x \<noteq> []}"
  have wide: "(\<Sum>x | g x \<noteq> []. count_list (g x) io) = (\<Sum>x \<in> ?S. count_list (g x) io)"
    if "{x. g x \<noteq> []} \<subseteq> ?S" for g :: "'a \<Rightarrow> nat list"
    by (rule sum.mono_neutral_left) (use assms that in auto)
  have split: "(\<Sum>x \<in> ?S. count_list (g x) io) = count_list (g y) io + (\<Sum>x \<in> ?S - {y}. count_list (g x) io)"
    for g :: "'a \<Rightarrow> nat list"
    using assms by (simp add: sum.remove [of ?S y])
  have "(\<Sum>x \<in> ?S - {y}. count_list ((f(y := zs)) x) io) = (\<Sum>x \<in> ?S - {y}. count_list (f x) io)"
    by (rule sum.cong) auto
  moreover have "{x. (f(y := zs)) x \<noteq> []} \<subseteq> ?S" "{x. f x \<noteq> []} \<subseteq> ?S" by auto
  ultimately show ?thesis using wide [of "f(y := zs)"] wide [of f] split [of "f(y := zs)"] split [of f] by (simp add: held_def)
qed

lemma fold_copy:
  "use_count (fold copy_ptr ios w) io = use_count w io + count_list ios io"
  "closed (fold copy_ptr ios w) = closed w" "g_registry (fold copy_ptr ios w) = g_registry w"
  "g_next_handle (fold copy_ptr ios w) = g_next_handle w" "registering (fold copy_ptr ios w) = registering w"
  "holders (fold copy_ptr ios w) = holders w"
  by (induction ios arbitrary: w) (simp_all add: copy_ptr_def)

lemma fold_drop:
  "use_count (fold drop_ptr ios w) io = use_count w io - count_list ios io"
  "g_registry (fold drop_ptr ios w) = g_registry w" "g_next_handle (fold drop_ptr ios w) = g_next_handle w"
  "registering (fold drop_ptr ios w) = registering w" "holders (fold drop_ptr ios w) = holders w"
  by (induction ios arbitrary: w) (simp_all add: drop_ptr_def)

lemma drop_one:
  "use_count (drop_ptr y w) io = (if io = y then use_count w io - 1 else use_count w io)"
  "closed (drop_ptr y w) = (if use_count w y = 1 then insert y (closed w) else closed w)"
  by (simp_all add: drop_ptr_def)

lemma fold_drop_closed:
  "io \<in> closed (fold drop_ptr ios w) \<Longrightarrow> io \<in> closed w \<or> use_count (fold drop_ptr ios w) io = 0"
  "io \<in> closed w \<Longrightarrow> io \<in> closed (fold drop_ptr ios w)"
  "0 < use_count w io \<Longrightarrow> 0 < use_count (fold drop_ptr ios w) io \<or> io \<in> closed (fold drop_ptr ios w)"
proof (induction ios arbitrary: w)
  case (Cons y ios)
  note fold_drop(1) [simp] drop_one [simp]
  { case 1 then show ?case using Cons.IH(1) [of "drop_ptr y w"] by (auto split: if_splits) }
  { case 2 then show ?case using Cons.IH(2) [of "drop_ptr y w"] by (auto split: if_splits) }
  { case 3 then show ?case
      using Cons.IH(2) [of "drop_ptr y w"] Cons.IH(3) [of "drop_ptr y w"]
      by (cases "io = y"; cases "use_count w y = 1") auto }
qed simp_all

lemma drop_opt_fold: "drop_opt x = fold drop_ptr (case x of None \<Rightarrow> [] | Some io \<Rightarrow> [io])"
  by (cases x) (simp_all add: drop_opt_def id_def comp_def)

section \<open>Every operation keeps the invariant\<close>

lemma reg_okI:
  assumes "finite {x. holders w x \<noteq> []}" "g_next_handle w = of_nat (Suc n)" "distinct (map fst (registering w))"
    and "\<And>h. g_registry w h \<noteq> None \<or> h \<in> fst ` List.set (registering w) \<Longrightarrow> 1 \<le> unat h \<and> unat h \<le> n"
    and "\<And>h. h \<in> fst ` List.set (registering w) \<Longrightarrow> g_registry w h = None"
    and "\<And>io. use_count w io = pointers w io" "\<And>io. io \<in> closed w \<Longrightarrow> use_count w io = 0"
  shows "reg_ok n w"
  using assms by (simp add: reg_ok_def)

lemma reg_okD:
  assumes "reg_ok n w"
  shows "finite {x. holders w x \<noteq> []}" "g_next_handle w = of_nat (Suc n)" "distinct (map fst (registering w))"
    and "g_registry w h \<noteq> None \<or> h \<in> fst ` List.set (registering w) \<Longrightarrow> 1 \<le> unat h \<and> unat h \<le> n"
    and "h \<in> fst ` List.set (registering w) \<Longrightarrow> g_registry w h = None"
    and "use_count w io = pointers w io" "io \<in> closed w \<Longrightarrow> use_count w io = 0"
  using assms by (auto simp: reg_ok_def)

lemma reg_ok_new: "reg_ok 0 registry_new"
  by (rule reg_okI) (simp_all add: registry_new_def pointers_def entries_def held_def)

lemma reg_ok_make:
  assumes w: "reg_ok n w" and n: "Suc n < 2 ^ 64 - 1" and io: "unused io w"
  shows "reg_ok (Suc n) (netio_make io w)"
proof -
  have h: "unat (g_next_handle w) = Suc n" using n by (simp add: reg_okD(2) [OF w] unat_of_nat del: of_nat_Suc)
  then have new: "g_registry w (g_next_handle w) = None" "g_next_handle w \<notin> fst ` List.set (registering w)"
    using reg_okD(4) [OF w, of "g_next_handle w"] by (cases "g_registry w (g_next_handle w)", auto)
  show ?thesis
  proof (rule reg_okI)
    fix k assume "g_registry (netio_make io w) k \<noteq> None \<or> k \<in> fst ` List.set (registering (netio_make io w))"
    then have "g_registry w k \<noteq> None \<or> k \<in> fst ` List.set (registering w) \<or> k = g_next_handle w"
      by (auto simp: netio_make_def register_fetch_def copy_ptr_def)
    then show "1 \<le> unat k \<and> unat k \<le> Suc n"
      by (elim disjE) (use h reg_okD(4) [OF w, of k] in auto)
  next
    fix k assume "k \<in> fst ` List.set (registering (netio_make io w))"
    then show "g_registry (netio_make io w) k = None"
      using new(1) reg_okD(5) [OF w, of k] by (auto simp: netio_make_def register_fetch_def copy_ptr_def)
  next
    fix k show "use_count (netio_make io w) k = pointers (netio_make io w) k"
      using reg_okD(6) [OF w, of k] by (auto simp: netio_make_def register_fetch_def copy_ptr_def pointers_def)
  next
    fix k assume "k \<in> closed (netio_make io w)"
    then show "use_count (netio_make io w) k = 0"
      using io reg_okD(7) [OF w, of k] by (auto simp: netio_make_def register_fetch_def copy_ptr_def unused_def)
  qed (use reg_okD(1-3) [OF w] new(2) in \<open>simp_all add: netio_make_def register_fetch_def copy_ptr_def add.commute\<close>)
qed

text \<open>Dropping the pointers that have just lost their owner.\<close>

lemma reg_ok_drop:
  assumes n: "finite {x. holders w x \<noteq> []}" "g_next_handle w = of_nat (Suc n)" "distinct (map fst (registering w))"
      "\<And>h. g_registry w h \<noteq> None \<or> h \<in> fst ` List.set (registering w) \<Longrightarrow> 1 \<le> unat h \<and> unat h \<le> n"
      "\<And>h. h \<in> fst ` List.set (registering w) \<Longrightarrow> g_registry w h = None"
    and count: "\<And>io. use_count w io = pointers w io + count_list ios io"
    and closed: "\<And>io. io \<in> closed w \<Longrightarrow> use_count w io = 0"
  shows "reg_ok n (fold drop_ptr ios w)"
proof (rule reg_okI)
  fix io show "use_count (fold drop_ptr ios w) io = pointers (fold drop_ptr ios w) io"
    using count [of io] by (simp add: fold_drop pointers_def)
next
  fix io assume "io \<in> closed (fold drop_ptr ios w)"
  then show "use_count (fold drop_ptr ios w) io = 0"
    using fold_drop_closed(1) [of io ios w] closed [of io] by (auto simp: fold_drop(1))
qed (use n in \<open>simp_all add: fold_drop\<close>)

lemma reg_ok_release:
  assumes w: "reg_ok n w"
  shows "reg_ok n (netio_release h w)"
  unfolding netio_release_def drop_opt_fold
proof (rule reg_ok_drop)
  let ?w = "w\<lparr>g_registry := (g_registry w)(h := None)\<rparr>"
  fix io show "use_count ?w io = pointers ?w io + count_list (case g_registry w h of None \<Rightarrow> [] | Some io \<Rightarrow> [io]) io"
    using reg_okD(6) [OF w, of io] entries_upd [of "g_registry w" h None io] by (auto simp: pointers_def split: option.splits if_splits)
qed (use reg_okD [OF w] in \<open>auto split: if_splits\<close>)

lemma reg_ok_insert:
  assumes w: "reg_ok n w" and c: "c \<in> List.set (registering w)"
  shows "reg_ok n (register_insert c w)"
  unfolding register_insert_def drop_opt_fold
proof (rule reg_ok_drop)
  let ?w = "w\<lparr>g_registry := (g_registry w)(fst c := Some (snd c)), registering := remove1 c (registering w)\<rparr>"
  obtain xs ys where r: "registering w = xs @ c # ys" "c \<notin> List.set xs"
    using split_list_first [OF c] by blast
  then have rest: "remove1 c (registering w) = xs @ ys" by (simp add: remove1_append)
  have none: "g_registry w (fst c) = None" using reg_okD(5) [OF w] c by blast
  have dist: "distinct (map fst xs @ fst c # map fst ys)" using reg_okD(3) [OF w] by (simp add: r(1))
  fix io show "use_count ?w io = pointers ?w io + count_list (case g_registry w (fst c) of None \<Rightarrow> [] | Some io \<Rightarrow> [io]) io"
    using reg_okD(6) [OF w, of io] entries_upd [of "g_registry w" "fst c" "Some (snd c)" io] none
    by (simp add: pointers_def rest) (simp add: r(1) split: if_splits)
  show "distinct (map fst (registering ?w))" using dist by (simp add: rest)
  fix k
  { assume "k \<in> fst ` List.set (registering ?w)"
    then have "k \<in> fst ` (List.set xs \<union> List.set ys)" by (simp add: rest)
    moreover have "fst c \<notin> fst ` (List.set xs \<union> List.set ys)" using dist by (simp add: image_Un)
    ultimately have "k \<noteq> fst c" "k \<in> fst ` List.set (registering w)" by (blast, auto simp: r(1))
    then show "g_registry ?w k = None" using reg_okD(5) [OF w, of k] by simp }
  { assume "g_registry ?w k \<noteq> None \<or> k \<in> fst ` List.set (registering ?w)"
    then have "g_registry w k \<noteq> None \<or> k \<in> fst ` List.set (registering w)"
      by (cases "k = fst c") (simp_all add: rest, auto simp: r(1))
    then show "1 \<le> unat k \<and> unat k \<le> n" by (rule reg_okD(4) [OF w]) }
  show "finite {x. holders ?w x \<noteq> []}" "g_next_handle ?w = of_nat (Suc n)" using reg_okD(1,2) [OF w] by simp_all
  show "io \<in> closed ?w \<Longrightarrow> use_count ?w io = 0" for io using reg_okD(7) [OF w, of io] by simp
qed

lemma reg_ok_construct:
  assumes w: "reg_ok n w" and fresh: "holders w x = []" and "construct x hs w = Inr w'"
  shows "reg_ok n w'"
proof -
  obtain ios where ios: "collect (map (netio_acquire w) hs) = Inr ios"
      "w' = fold copy_ptr ios (w\<lparr>holders := (holders w)(x := ios)\<rparr>)"
    using assms(3) by (auto simp: construct_def acquire_all_def res_simps)
  have live: "\<exists>h. g_registry w h = Some io" if "io \<in> List.set ios" for io
  proof -
    have "\<forall>ios. collect (map (netio_acquire w) hs) = Inr ios \<longrightarrow> io \<in> List.set ios \<longrightarrow> (\<exists>h. g_registry w h = Some io)"
      by (induction hs) (auto simp: res_simps netio_acquire_def split: option.splits)
    then show ?thesis using ios(1) that by blast
  qed
  show ?thesis
  proof (rule reg_okI)
    have "{y. holders w' y \<noteq> []} \<subseteq> insert x {y. holders w y \<noteq> []}" by (auto simp: ios(2) fold_copy)
    then show "finite {y. holders w' y \<noteq> []}" by (rule finite_subset) (simp add: reg_okD(1) [OF w])
    fix io show "use_count w' io = pointers w' io"
      using reg_okD(6) [OF w, of io] held_upd [OF reg_okD(1) [OF w], of x ios io] fresh
      by (simp add: ios(2) fold_copy pointers_def)
    assume io: "io \<in> closed w'"
    then have zero: "use_count w io = 0" using reg_okD(7) [OF w, of io] by (simp add: ios(2) fold_copy)
    have "io \<notin> List.set ios"
    proof
      assume "io \<in> List.set ios"
      then obtain h where "g_registry w h = Some io" using live by blast
      then have "0 < entries (g_registry w) io" by (rule entries_pos)
      then show False using zero reg_okD(6) [OF w, of io] by (simp add: pointers_def)
    qed
    then show "use_count w' io = 0" using zero by (simp add: ios(2) fold_copy count_notin)
  qed (use reg_okD(2-5) [OF w] in \<open>auto simp: ios(2) fold_copy\<close>)
qed

lemma reg_ok_destroy:
  assumes w: "reg_ok n w"
  shows "reg_ok n (destroy x w)"
  unfolding destroy_def
proof (rule reg_ok_drop)
  let ?w = "w\<lparr>holders := (holders w)(x := [])\<rparr>"
  have "{y. holders ?w y \<noteq> []} \<subseteq> {y. holders w y \<noteq> []}" by auto
  then show "finite {y. holders ?w y \<noteq> []}" by (rule finite_subset) (rule reg_okD(1) [OF w])
  fix io show "use_count ?w io = pointers ?w io + count_list (holders w x) io"
    using reg_okD(6) [OF w, of io] held_upd [OF reg_okD(1) [OF w], of x "[]" io] by (simp add: pointers_def)
qed (use reg_okD(2-5,7) [OF w] in auto)

lemma reg_step_ok:
  assumes "reg n w w'" "reg_ok m w" "m + n < 2 ^ 64 - 1"
  shows "reg_ok (m + n) w'"
  using assms
proof (induction rule: reg.induct)
  case (reg_make n w w' io)
  then show ?case using reg_ok_make [of "m + n" w' io] by simp
qed (simp_all add: reg_ok_insert reg_ok_release reg_ok_construct reg_ok_destroy)

section \<open>Handles and lifetimes\<close>

text \<open>A handle that has been given out and inserted keeps its connection or loses it for good.\<close>

lemma old_handle:
  assumes "reg n w w'" "reg_ok m w" "m + n < 2 ^ 64 - 1" "unat h \<le> m" "h \<notin> fst ` List.set (registering w)"
  shows "(g_registry w' h = g_registry w h \<or> g_registry w' h = None) \<and> h \<notin> fst ` List.set (registering w')"
  using assms
proof (induction rule: reg.induct)
  case (reg_make n w w' io)
  have "reg_ok (m + n) w'" using reg_step_ok [OF reg_make.hyps(1) reg_make.prems(1)] reg_make.prems(2) by simp
  then have "unat (g_next_handle w') = Suc (m + n)"
    using reg_make.prems(2) by (simp add: reg_okD(2) [of "m + n"] unat_of_nat del: of_nat_Suc of_nat_add)
  then show ?case using reg_make by (auto simp: netio_make_def register_fetch_def copy_ptr_def)
next
  case (reg_insert n w w' c)
  then show ?case using set_remove1_subset [of c "registering w'"]
    by (auto simp: register_insert_def drop_opt_fold fold_drop)
next
  case (reg_release n w w' k)
  then show ?case by (auto simp: netio_release_def drop_opt_fold fold_drop)
next
  case (reg_construct n w w' x hs w'')
  then show ?case by (auto simp: construct_def res_simps fold_copy)
next
  case (reg_destroy n w w' x)
  then show ?case by (auto simp: destroy_def fold_drop)
qed simp

text \<open>The only step that takes a handle out of the map is its own release.\<close>

lemma kept_handle:
  assumes "reg_kept h n w w'" "reg_ok m w" "m + n < 2 ^ 64 - 1" "g_registry w h = Some io"
  shows "g_registry w' h = Some io"
  using assms
proof (induction rule: reg_kept.induct)
  case (kept_insert n w w' c)
  have "reg_ok (m + n) w'" using reg_step_ok [OF kept_reg [OF kept_insert.hyps(1)] kept_insert.prems(1,2)] .
  then have "g_registry w' (fst c) = None" using reg_okD(5) kept_insert.hyps(2) by blast
  then have "fst c \<noteq> h" using kept_insert by auto
  then show ?case using kept_insert by (simp add: register_insert_def drop_opt_fold fold_drop)
next
  case (kept_construct n w w' x hs w'')
  then show ?case by (auto simp: construct_def res_simps fold_copy)
qed (simp_all add: netio_make_def register_fetch_def copy_ptr_def netio_release_def drop_opt_fold destroy_def fold_drop)

lemma alive_or_closed:
  assumes "reg n w w'" "0 < use_count w io"
  shows "0 < use_count w' io \<or> io \<in> closed w'"
  using assms
proof (induction rule: reg.induct)
  case (reg_make n w w' y)
  then show ?case by (auto simp: netio_make_def register_fetch_def copy_ptr_def)
next
  case (reg_insert n w w' c)
  let ?w = "w'\<lparr>g_registry := (g_registry w')(fst c := Some (snd c)), registering := remove1 c (registering w')\<rparr>"
  show ?case using reg_insert fold_drop_closed(2) [of io ?w] fold_drop_closed(3) [of ?w io]
    by (auto simp: register_insert_def drop_opt_fold)
next
  case (reg_release n w w' h)
  let ?w = "w'\<lparr>g_registry := (g_registry w')(h := None)\<rparr>"
  show ?case using reg_release fold_drop_closed(2) [of io ?w] fold_drop_closed(3) [of ?w io] by (auto simp: netio_release_def drop_opt_fold)
next
  case (reg_construct n w w' x hs w'')
  then show ?case by (auto simp: construct_def res_simps fold_copy)
next
  case (reg_destroy n w w' x)
  let ?w = "w'\<lparr>holders := (holders w')(x := [])\<rparr>"
  show ?case using reg_destroy fold_drop_closed(2) [of io ?w] fold_drop_closed(3) [of ?w io] by (auto simp: destroy_def)
qed simp

lemma pointed:
  assumes "g_registry w h = Some io \<or> (h, io) \<in> List.set (registering w) \<or>
    finite {x. holders w x \<noteq> []} \<and> io \<in> List.set (holders w x)"
  shows "0 < pointers w io"
proof -
  have "0 < held (holders w) io" if "finite {x. holders w x \<noteq> []}" "io \<in> List.set (holders w x)"
  proof -
    have "0 < count_list (holders w x) io" using that(2) by (simp add: count_list_0_iff zero_less_iff_neq_zero)
    moreover have "x \<in> {x. holders w x \<noteq> []}" using that(2) by auto
    ultimately show ?thesis unfolding held_def using that(1) by (intro sum_pos2)  auto
  qed
  moreover have "0 < count_list (map snd (registering w)) io" if "(h, io) \<in> List.set (registering w)"
    using that by (force simp: count_list_0_iff zero_less_iff_neq_zero)
  ultimately show ?thesis using assms entries_pos [of "g_registry w" h io] by (auto simp: pointers_def)
qed

text \<open>C25: the lifetime of a connection, in every interleaving of registrations, releases,
  constructions and destructions of protocol objects and calls: a connection some pointer
  denotes is open, so no handle and no object leads to a closed one, and one that had a pointer is
  closed as soon as none is left.\<close>

theorem connection_lifetime:
  assumes "reg m registry_new w" "reg n w w'" "m + n < 2 ^ 64 - 1"
  shows "(\<forall>h io. netio_acquire w' h = Inr io \<longrightarrow> io \<notin> closed w') \<and> (\<forall>x. \<forall>io \<in> List.set (holders w' x). io \<notin> closed w') \<and>
    (\<forall>io. 0 < pointers w io \<longrightarrow> (io \<in> closed w' \<longleftrightarrow> pointers w' io = 0))"
proof -
  have w: "reg_ok m w" using reg_step_ok [OF assms(1) reg_ok_new] assms(3) by simp
  have w': "reg_ok (m + n) w'" by (rule reg_step_ok [OF assms(2) w assms(3)])
  have open_if: "io \<notin> closed w'" if "0 < pointers w' io" for io
    using that reg_okD(6,7) [OF w', of io] by auto
  have "io \<notin> closed w'" if "netio_acquire w' h = Inr io" for h io
    using that by (intro open_if pointed [of w' h]) (auto simp: netio_acquire_def split: option.splits)
  moreover have "io \<notin> closed w'" if "io \<in> List.set (holders w' x)" for x io
    using that reg_okD(1) [OF w'] by (intro open_if pointed [of w' 0 io x]) simp
  moreover have "io \<in> closed w' \<longleftrightarrow> pointers w' io = 0" if "0 < pointers w io" for io
    using that open_if [of io] alive_or_closed [OF assms(2), of io] reg_okD(6) [OF w, of io] reg_okD(6) [OF w', of io] by auto
  ultimately show ?thesis by blast
qed

text \<open>C33: a handle denotes one connection only: the insertion makes it denote the connection being registered; from
  then on it gives that connection in every execution in which nobody releases this handle, whatever is
  registered, released, constructed and destroyed besides; in any execution it gives that connection or, for ever
  after its release, the error of the registry. A handle that is being registered cannot be looked up yet, and no
  two registrations get the same.\<close>

theorem handle_stability:
  assumes "reg m registry_new w" "reg n w w'" "m + n < 2 ^ 64 - 1"
  shows "(\<forall>c \<in> List.set (registering w). netio_acquire (register_insert c w) (fst c) = Inr (snd c)) \<and>
    (\<forall>h io. netio_acquire w h = Inr io \<longrightarrow> reg_kept h n w w' \<longrightarrow> netio_acquire w' h = Inr io) \<and>
    (\<forall>h io. netio_acquire w h = Inr io \<longrightarrow> netio_acquire w' h = Inr io \<or> netio_acquire w' h = Inl RuntimeError) \<and>
    (\<forall>h. 1 \<le> unat h \<and> unat h \<le> m \<and> h \<notin> fst ` List.set (registering w) \<and> netio_acquire w h = Inl RuntimeError \<longrightarrow>
      netio_acquire w' h = Inl RuntimeError) \<and>
    (\<forall>h. netio_acquire (netio_release h w) h = Inl RuntimeError) \<and>
    distinct (map fst (registering w)) \<and> (\<forall>c \<in> List.set (registering w). netio_acquire w (fst c) = Inl RuntimeError)"
proof -
  have w: "reg_ok m w" using reg_step_ok [OF assms(1) reg_ok_new] assms(3) by simp
  note old = old_handle [OF assms(2) w assms(3)]
  have "netio_acquire w' h = Inr io \<or> netio_acquire w' h = Inl RuntimeError" if "netio_acquire w h = Inr io" for h io
  proof -
    have some: "g_registry w h = Some io" using that by (simp add: netio_acquire_def split: option.splits)
    then have "unat h \<le> m" "h \<notin> fst ` List.set (registering w)"
      using reg_okD(4) [OF w, of h] reg_okD(5) [OF w, of h] by auto
    then show ?thesis using old [of h] some by (auto simp: netio_acquire_def)
  qed
  moreover have "netio_acquire w' h = Inl RuntimeError"
    if "unat h \<le> m" "h \<notin> fst ` List.set (registering w)" "netio_acquire w h = Inl RuntimeError" for h
    using old [OF that(1,2)] that(3) by (auto simp: netio_acquire_def split: option.splits)
  moreover have "netio_acquire (netio_release h w) h = Inl RuntimeError" for h
    by (simp add: netio_acquire_def netio_release_def drop_opt_fold fold_drop)
  moreover have "netio_acquire w (fst c) = Inl RuntimeError" if "c \<in> List.set (registering w)" for c
    using reg_okD(5) [OF w, of "fst c"] that by (simp add: netio_acquire_def)
  moreover have "netio_acquire (register_insert c w) (fst c) = Inr (snd c)" if "c \<in> List.set (registering w)" for c
    by (simp add: netio_acquire_def register_insert_def drop_opt_fold fold_drop)
  moreover have "netio_acquire w' h = Inr io" if "netio_acquire w h = Inr io" "reg_kept h n w w'" for h io
    using kept_handle [OF that(2) w assms(3)] that(1) by (simp add: netio_acquire_def split: option.splits)
  ultimately show ?thesis using reg_okD(3) [OF w] by blast
qed

text \<open>A connection registered as handle 1, an object \<open>()\<close> that uses it, and the release of the handle.\<close>

definition reg_demo :: "unit registry" where
  "reg_demo = register_insert (1, 7) (netio_make 7 registry_new)"

definition reg_demo' :: "unit registry" where
  "reg_demo' = netio_release 1 (fold copy_ptr [7] (reg_demo\<lparr>holders := (holders reg_demo)(() := [7])\<rparr>))"

lemma reg_demo_runs: "reg 1 registry_new reg_demo" "reg 0 reg_demo reg_demo'"
proof -
  have "reg 1 registry_new (netio_make 7 registry_new :: unit registry)"
    using reg_make [OF reg_refl, of 7 "registry_new :: unit registry"] by (simp add: unused_def registry_new_def)
  then show "reg 1 registry_new reg_demo" unfolding reg_demo_def
    by (rule reg_insert) (simp add: netio_make_def register_fetch_def copy_ptr_def registry_new_def)
  have "construct () [1] reg_demo = Inr (fold copy_ptr [7] (reg_demo\<lparr>holders := (holders reg_demo)(() := [7])\<rparr>))"
    by (simp add: construct_def acquire_all_def netio_acquire_def reg_demo_def register_insert_def netio_make_def
      register_fetch_def copy_ptr_def registry_new_def drop_opt_def)
  then show "reg 0 reg_demo reg_demo'" unfolding reg_demo'_def
    by (intro reg_release reg_construct [OF reg_refl, of _ "()" "[1]"])
      (simp_all add: reg_demo_def register_insert_def netio_make_def register_fetch_def copy_ptr_def registry_new_def drop_opt_def)
qed

theorem connection_lifetime_witness:
  "7 \<notin> closed reg_demo' \<and> netio_acquire reg_demo' 1 = Inl RuntimeError \<and> 7 \<in> List.set (holders reg_demo' ())"
proof -
  have "7 \<in> List.set (holders reg_demo' ())" "netio_acquire reg_demo' 1 = Inl RuntimeError"
    by (simp_all add: reg_demo'_def reg_demo_def register_insert_def netio_make_def register_fetch_def copy_ptr_def
      registry_new_def drop_opt_def netio_release_def drop_ptr_def netio_acquire_def)
  then show ?thesis using connection_lifetime [OF reg_demo_runs] by auto
qed

text \<open>A second connection is registered and its handle released.\<close>

definition reg_later :: "unit registry" where
  "reg_later = netio_release 2 (register_insert (2, 8) (netio_make 8 reg_demo))"

lemma reg_later_kept: "reg_kept 1 1 reg_demo reg_later"
proof -
  have "reg_kept 1 1 reg_demo (netio_make 8 reg_demo)"
    using kept_make [OF kept_refl, of 8 reg_demo 1] by (simp add: unused_def reg_demo_def register_insert_def netio_make_def
      register_fetch_def copy_ptr_def registry_new_def drop_opt_def)
  then show ?thesis unfolding reg_later_def
    by (intro kept_release kept_insert) (simp_all add: reg_demo_def register_insert_def netio_make_def register_fetch_def
      copy_ptr_def registry_new_def drop_opt_def)
qed

theorem handle_stability_witness:
  "netio_acquire reg_demo 1 = Inr 7 \<and> netio_acquire reg_later 1 = Inr 7 \<and> netio_acquire (netio_release 1 reg_demo) 1 = Inl RuntimeError"
proof -
  have "netio_acquire reg_demo 1 = Inr 7"
    by (simp add: netio_acquire_def reg_demo_def register_insert_def netio_make_def register_fetch_def copy_ptr_def registry_new_def drop_opt_def)
  then show ?thesis using handle_stability [OF reg_demo_runs(1) kept_reg [OF reg_later_kept]] reg_later_kept by auto
qed

end
