(* ===== verification/Bind_Common.thy ===== *)
theory Bind_Common
  imports Rvector_Pack Hashing Registry Net
begin

text \<open>
  What the Python bindings share (\<^verbatim>\<open>src/bind/bind_common.hpp\<close>) and the functions of
  \<^verbatim>\<open>src/bind/util_bind.cpp\<close> on bytes: the argument conversions, the local hash, and raw input
  and output over a registered connection.
\<close>

section \<open>Python objects\<close>

text \<open>
  The arguments a binding inspects. A \<open>str\<close> is its UTF-8 encoding, \<open>None\<close> if it has none (a lone
  surrogate). \<open>PyArray\<close> is any other object with a buffer, of the given item size.
\<close>

datatype pyobj =
    PyStr "byte list option"
  | PyBytes "byte list"
  | PyByteArray "byte list"
  | PyArray nat "byte list"
  | PyRvector nat rvec
  | PyOther

text \<open>
  \<open>PyUnicode_AsUTF8AndSize\<close> answers a null pointer for a \<open>str\<close> it cannot encode; \<open>junk\<close> is then
  the value of the local variable \<open>sz\<close>, which nothing has initialised.
\<close>

definition toBytes :: "nat \<Rightarrow> pyobj \<Rightarrow> (byte list option \<times> nat) res" where
  "toBytes junk h = (case h of
     PyStr (Some s) \<Rightarrow> Inr (Some s, length s)
   | PyStr None \<Rightarrow> Inr (None, junk)
   | PyBytes b \<Rightarrow> Inr (Some b, length b)
   | _ \<Rightarrow> Inl TypeError)"

definition getByteBuffer :: "pyobj \<Rightarrow> byte list res" where
  "getByteBuffer h = (case h of PyBytes b \<Rightarrow> Inr b | PyByteArray b \<Rightarrow> Inr b | _ \<Rightarrow> Inl TypeError)"

definition getWritableByteBuffer :: "pyobj \<Rightarrow> byte list res" where
  "getWritableByteBuffer h = (case h of PyByteArray b \<Rightarrow> Inr b | _ \<Rightarrow> Inl TypeError)"

text \<open>The parameter ranges.\<close>

definition RVECTOR_ELL :: "nat \<times> nat" where "RVECTOR_ELL = (1, 8)"
definition DPF_ELL_IN :: "nat \<times> nat" where "DPF_ELL_IN = (13, 31)"
definition DPF_ELL_OUT :: "nat \<times> nat" where "DPF_ELL_OUT = (2, 6)"
definition RSS3_ELL :: "nat \<times> nat" where "RSS3_ELL = (1, 8)"
definition ADD2_ELL :: "nat \<times> nat" where "ADD2_ELL = (2, 31)"

definition outside :: "nat \<times> nat \<Rightarrow> nat \<Rightarrow> bool" where
  "outside r x \<longleftrightarrow> x < fst r \<or> x > snd r"

section \<open>The local hash\<close>

definition hash_aes_dm :: "(block \<Rightarrow> block \<Rightarrow> block) \<Rightarrow> nat \<Rightarrow> nat \<Rightarrow> pyobj \<Rightarrow> pyobj \<Rightarrow> nat \<Rightarrow> u32 res" where
  "hash_aes_dm prp junk_p junk_k preimage key ell =
     rbind (toBytes junk_p preimage) (\<lambda>(pt, ptLen). rbind (toBytes junk_k key) (\<lambda>(ky, kyLen).
     hashAESDM prp pt ptLen ky kyLen ell))"

section \<open>Raw input and output\<close>

text \<open>The endpoints of a process are the numbers of its connections.\<close>

definition netio_flush :: "'o registry \<Rightarrow> u64 \<Rightarrow> (nat, unit) proc" where
  "netio_flush w h = pbind (lift_res (netio_lookup w h)) flush"

definition netio_send :: "'o registry \<Rightarrow> u64 \<Rightarrow> pyobj \<Rightarrow> (nat, unit) proc" where
  "netio_send w h data =
     pbind (lift_res (getByteBuffer data)) (\<lambda>buf. pbind (lift_res (netio_lookup w h)) (\<lambda>p.
     pbind (send_data p buf) (\<lambda>_. flush p)))"

text \<open>The result is the new contents of the \<open>bytearray\<close>.\<close>

definition netio_recv :: "'o registry \<Rightarrow> u64 \<Rightarrow> pyobj \<Rightarrow> (nat, byte list) proc" where
  "netio_recv w h buf = (case buf of
     PyByteArray b \<Rightarrow> pbind (lift_res (netio_lookup w h)) (\<lambda>p. recv_bytes p (length b))
   | _ \<Rightarrow> Fail InvalidArgument)"

text \<open>A protocol object gets its channels by their handles.\<close>

definition channels :: "'o \<Rightarrow> u64 list \<Rightarrow> 'o registry \<Rightarrow> (nat list \<times> 'o registry) res" where
  "channels x hs w = rbind (construct x hs w) (\<lambda>w'. Inr (holders w' x, w'))"

end
