(* ===== verification/Transport.thy ===== *)
theory Transport
  imports Bind_Common Emp2
begin

text \<open>
  \<open>RingTransport\<close> (\<^verbatim>\<open>src/bind/transport_bind.cpp\<close>): ring elements and packed vectors over one
  connection, \<open>s\<close> being its endpoint. The two C++ templates have the same scalar operations.
\<close>

section \<open>Operations\<close>

definition transport_bytes :: "nat \<Rightarrow> nat" where
  "transport_bytes ell = (ell + 7) div 8"

definition transport_send_scalar :: "nat \<Rightarrow> 's \<Rightarrow> u64 \<Rightarrow> ('s, unit) proc" where
  "transport_send_scalar ell s val =
     (if val > push_bit ell 1 - 1 then Fail InvalidArgument
      else let buf = map (\<lambda>i. ucast (drop_bit (8 * i) val)) [0..<transport_bytes ell]
        in pbind (send_data s buf) (\<lambda>_. flush s))"

definition scalar_of :: "nat \<Rightarrow> byte list \<Rightarrow> u64 res" where
  "scalar_of ell buf =
     rbind (for_loop 0 (transport_bytes ell)
       (\<lambda>i val. rbind (rd buf i) (\<lambda>b. Inr (val OR push_bit (8 * i) (ucast b)))) 0) (\<lambda>val.
     Inr (val AND (push_bit ell 1 - 1)))"

definition transport_recv_scalar :: "nat \<Rightarrow> 's \<Rightarrow> ('s, u64) proc" where
  "transport_recv_scalar ell s =
     pbind (recv_bytes s (transport_bytes ell)) (\<lambda>buf. lift_res (scalar_of ell buf))"

definition transport_send_vector :: "nat \<Rightarrow> 's \<Rightarrow> rvec \<Rightarrow> rpack \<Rightarrow> ('s, rpack) proc" where
  "transport_send_vector ell s vec aux_buf =
     pbind (lift_res (packRvec ell vec aux_buf)) (\<lambda>aux_buf.
     pbind (send_data s (p_buf aux_buf)) (\<lambda>_. pbind (flush s) (\<lambda>_. Ret aux_buf)))"

definition transport_recv_vector :: "nat \<Rightarrow> 's \<Rightarrow> rvec \<Rightarrow> rpack \<Rightarrow> ('s, rvec \<times> rpack) proc" where
  "transport_recv_vector ell s vec aux_buf =
     pbind (recv_bytes s (length (p_buf aux_buf))) (\<lambda>bs.
     lift_res (rbind (unpackRvec ell (aux_buf\<lparr>p_buf := bs\<rparr>) vec) (\<lambda>vec. Inr (vec, aux_buf\<lparr>p_buf := bs\<rparr>))))"

text \<open>\<open>RingTransport(ell)\<close>: the class of that width.\<close>

definition ring_transport :: "nat \<Rightarrow> nat res" where
  "ring_transport ell = (if outside (1, 31) ell then Inl InvalidArgument else Inr ell)"

section \<open>Scalars\<close>

lemma scalar_bits:
  fixes val :: u64
  assumes "1 \<le> ell" "ell \<le> 31"
  shows "val > push_bit ell 1 - 1 \<longleftrightarrow> 2 ^ ell \<le> uint val" "val AND (push_bit ell 1 - 1) = take_bit ell val"
proof -
  have m: "push_bit ell 1 - 1 = (mask ell :: u64)" by (simp add: push_bit_eq_mult mask_eq_exp_minus_1)
  have "uint (mask ell :: u64) = mask ell" by (rule bit_eqI) (use assms in \<open>auto simp: bit_simps\<close>)
  then have "uint (mask ell :: u64) = 2 ^ ell - 1" by (simp add: mask_eq_exp_minus_1)
  then show "val > push_bit ell 1 - 1 \<longleftrightarrow> 2 ^ ell \<le> uint val" unfolding m word_less_def by linarith
  show "val AND (push_bit ell 1 - 1) = take_bit ell val" by (simp only: m take_bit_eq_mask)
qed

text \<open>The loop puts the bytes together as \<open>of_le_bytes\<close> does.\<close>

lemma scalar_loop:
  fixes v :: u64
  assumes "length buf = k"
  shows "for_loop 0 k (\<lambda>i val. rbind (rd buf i) (\<lambda>b. Inr (val OR push_bit (8 * i) (ucast b)))) (0 :: u64) =
    Inr (of_le_bytes buf)"
proof -
  let ?B = "\<lambda>i val. rbind (rd buf i) (\<lambda>b. Inr (val OR push_bit (8 * i) (ucast b)))"
  have "\<exists>r. for_loop 0 k ?B (0 :: u64) = Inr r \<and> r = of_le_bytes (take k buf)"
  proof (rule for_loop_rule)
    fix i and s :: u64 assume i: "0 \<le> i" "i < k" "s = of_le_bytes (take i buf)"
    have "of_le_bytes (take i buf) OR push_bit (8 * i) (ucast (buf ! i)) = (of_le_bytes (take (Suc i) buf) :: u64)"
    proof (rule bit_word_eqI)
      fix n assume n: "n < LENGTH(64)"
      have b: "\<not> bit (buf ! i) (n - 8 * i)" if "8 * Suc i \<le> n" using that by (auto dest: bit_imp_le_length)
      consider "n div 8 < i" "n < 8 * i" | "n div 8 = i" "n mod 8 = n - 8 * i" "8 * i \<le> n" | "i < n div 8" "8 * Suc i \<le> n"
        by (cases "n div 8" i rule: linorder_cases) (auto simp: minus_mult_div_eq_mod [symmetric])
      then show "bit (of_le_bytes (take i buf) OR push_bit (8 * i) (ucast (buf ! i)) :: u64) n \<longleftrightarrow>
          bit (of_le_bytes (take (Suc i) buf) :: u64) n"
        by cases (use n i assms b in \<open>auto simp: bit_simps bit_of_le_bytes\<close>)
    qed
    then show "\<exists>s'. ?B i s = Inr s' \<and> s' = of_le_bytes (take (Suc i) buf)" using i assms by simp
  qed simp_all
  then show ?thesis using assms by simp
qed

lemma scalar_round:
  fixes val :: u64
  assumes "1 \<le> ell" "ell \<le> 31" "uint val < 2 ^ ell"
  shows "of_le_bytes (le_bytes (transport_bytes ell) val) = val" "take_bit ell val = val"
proof -
  have high: "\<not> bit val n" if "ell \<le> n" for n
  proof -
    have "take_bit ell (uint val) = uint val" using assms(3) by (simp add: take_bit_int_eq_self)
    then have "bit (uint val) n = bit (take_bit ell (uint val)) n" by simp
    then show ?thesis using that by (simp add: bit_simps)
  qed
  then have low: "n < ell" if "bit val n" for n using that not_less by blast
  then show "take_bit ell val = val" by (intro bit_word_eqI) (auto simp: bit_simps not_less [symmetric])
  have idx: "n div 8 < transport_bytes ell" if "bit val n" for n
  proof -
    have "Suc (n div 8) * 8 \<le> n + 8" by simp
    then have "Suc (n div 8) * 8 \<le> ell + 7" using low [OF that] by linarith
    then have "Suc (n div 8) \<le> (ell + 7) div 8" by (subst less_eq_div_iff_mult_less_eq) simp_all
    then show ?thesis by (simp add: transport_bytes_def)
  qed
  then show "of_le_bytes (le_bytes (transport_bytes ell) val) = val"
    by (intro bit_word_eqI) (auto simp: bit_of_le_bytes le_bytes_def bit_simps idx)
qed

lemma scalar_of_bytes:
  assumes "1 \<le> ell" "ell \<le> 31" "uint val < 2 ^ ell"
  shows "scalar_of ell (le_bytes (transport_bytes ell) val) = Inr val"
  using assms by (simp add: scalar_of_def scalar_loop scalar_bits(2) scalar_round del: push_bit_of_1)

section \<open>Properties\<close>

text \<open>C34: a ring element sent over the transport arrives in every schedule, a value that is no ring
  element is refused before anything is sent, and a vector arrives with the same elements.\<close>

theorem transport_transfer:
  assumes "0 < cap" "1 \<le> ell" "ell \<le> 31"
  shows "(uint val < 2 ^ ell \<longrightarrow> completes pair_peer cap
      (\<lambda>p. if p = d then pbind (transport_send_scalar ell () val) (\<lambda>_. Ret val) else transport_recv_scalar ell ()) (\<lambda>_. val)) \<and>
    (2 ^ ell \<le> uint val \<longrightarrow> transport_send_scalar ell s val = Fail InvalidArgument) \<and>
    (rv_ok ell u \<longrightarrow> rv_ok ell v \<longrightarrow> n_elems v = n_elems u \<longrightarrow> aux_ok ell (n_elems u) aux \<longrightarrow> aux_ok ell (n_elems u) aux' \<longrightarrow>
      (\<exists>w b. elems ell w = elems ell u \<and> rv_ok ell w \<and> canon ell w \<and> completes pair_peer cap
        (\<lambda>p. if p = d then pbind (transport_send_vector ell () u aux) (\<lambda>b. Ret (u, b)) else transport_recv_vector ell () v aux')
        (\<lambda>p. (if p = d then u else w, b p))))"
proof (intro conjI impI)
  assume val: "uint val < 2 ^ ell"
  let ?P = "\<lambda>p. if p = d then pbind (transport_send_scalar ell () val) (\<lambda>_. Ret val) else transport_recv_scalar ell ()"
  have "pair_ends cap ?P (\<lambda>_. val)"
    using pair_run [OF assms(1), of ?P d "le_bytes (transport_bytes ell) val" "\<lambda>_. Ret val" "\<lambda>buf. lift_res (scalar_of ell buf)"]
      scalar_bits(1) [OF assms(2,3), of val] val scalar_of_bytes [OF assms(2,3) val]
    by (simp add: transport_send_scalar_def transport_recv_scalar_def emp2_send_data_def emp2_recv_data_def
      pbind_assoc le_bytes_def cong: if_cong)
  then show "completes pair_peer cap ?P (\<lambda>_. val)" by (rule pair.runs_completes)
next
  assume "2 ^ ell \<le> uint val"
  then show "transport_send_scalar ell s val = Fail InvalidArgument"
    using scalar_bits(1) [OF assms(2,3), of val] by (simp add: transport_send_scalar_def)
next
  assume u: "rv_ok ell u" and v: "rv_ok ell v" "n_elems v = n_elems u"
    and aux: "aux_ok ell (n_elems u) aux" "aux_ok ell (n_elems u) aux'"
  let ?P = "\<lambda>p. if p = d then pbind (transport_send_vector ell () u aux) (\<lambda>b. Ret (u, b)) else transport_recv_vector ell () v aux'"
  obtain b where b: "packRvec ell u aux = Inr b" "holds ell b u" "length (p_buf b) = length (p_buf aux)"
    using packRvec_holds [OF u aux(1)] by blast
  have len: "length (p_buf aux') = length (p_buf b)" using aux b(3) by (simp add: aux_ok_def)
  have same: "aux'\<lparr>p_buf := p_buf b\<rparr> = b" using b(2) aux(2) by (simp add: holds_def aux_ok_def)
  obtain w where w: "unpackRvec ell b v = Inr w" "rv_ok ell w" "canon ell w" "elems ell w = elems ell u"
    using b(2) v unfolding holds_def by blast
  let ?K = "\<lambda>bs. lift_res (rbind (unpackRvec ell (aux'\<lparr>p_buf := bs\<rparr>) v) (\<lambda>vec. Inr (vec, aux'\<lparr>p_buf := bs\<rparr>)))"
  have "runs pair_peer cap ?P (\<lambda>p. if p = d then Ret (u, b) else ?K (p_buf b))"
    by (rule pair_run [OF assms(1)]) (simp_all add: transport_send_vector_def transport_recv_vector_def b(1) len
      emp2_send_data_def emp2_recv_data_def pbind_assoc)
  moreover have "(\<lambda>p. if p = d then Ret (u, b) else ?K (p_buf b)) = (\<lambda>p. Ret (if p = d then u else w, b))"
    by (rule ext) (simp add: same w(1))
  ultimately have "pair_ends cap ?P (\<lambda>p. (if p = d then u else w, b))" by (rule subst [rotated])
  then have "completes pair_peer cap ?P (\<lambda>p. (if p = d then u else w, b))" by (rule pair.runs_completes)
  then show "\<exists>w b. elems ell w = elems ell u \<and> rv_ok ell w \<and> canon ell w \<and> completes pair_peer cap ?P (\<lambda>p. (if p = d then u else w, b p))"
    using w by (intro exI [of _ w] exI [of _ "\<lambda>_. b"]) simp
qed

theorem transport_transfer_witness:
  "completes pair_peer 1
      (\<lambda>p. if p = Bob then pbind (transport_send_scalar 4 () 9) (\<lambda>_. Ret 9) else transport_recv_scalar 4 ()) (\<lambda>_. 9) \<and>
    transport_send_scalar 4 () 16 = Fail InvalidArgument \<and>
    (\<exists>w b. elems 4 w = [1, 2, 15] \<and> completes pair_peer 1
        (\<lambda>p. if p = Bob
          then pbind (transport_send_vector 4 () \<lparr>n_elems = 3, n_words = 3, d64 = [], d8 = [1, 2, 15]\<rparr> \<lparr>p_ell = 4, p_n = 3, p_buf = [0, 0]\<rparr>)
            (\<lambda>b. Ret (\<lparr>n_elems = 3, n_words = 3, d64 = [], d8 = [1, 2, 15]\<rparr>, b))
          else transport_recv_vector 4 () \<lparr>n_elems = 3, n_words = 3, d64 = [], d8 = [7, 7, 7]\<rparr> \<lparr>p_ell = 4, p_n = 3, p_buf = [0, 0]\<rparr>)
        (\<lambda>p. (if p = Bob then \<lparr>n_elems = 3, n_words = 3, d64 = [], d8 = [1, 2, 15]\<rparr> else w, b p)))"
proof -
  let ?u = "\<lparr>n_elems = 3, n_words = 3, d64 = [], d8 = [1, 2, 15]\<rparr>" and ?v = "\<lparr>n_elems = 3, n_words = 3, d64 = [], d8 = [7, 7, 7]\<rparr>"
  let ?a = "\<lparr>p_ell = 4, p_n = 3, p_buf = [0, 0]\<rparr>"
  have ok: "rv_ok 4 ?u" "rv_ok 4 ?v" "n_elems ?v = n_elems ?u" "aux_ok 4 (n_elems ?u) ?a"
    by (simp_all add: rv_ok_def aux_ok_def bytesFor_def SIZE_MAX_def usz_def wordsFor_def ELEMS_PER_WORD_def)
  have "elems 4 ?u = [1, 2, 15]" by (simp add: elems_def elem_def upt_rec RING_MASK8_def)
  then show ?thesis
    using transport_transfer [of 1 4 9 Bob "()" ?u ?v ?a ?a] transport_transfer [of 1 4 16 Bob "()" ?u ?v ?a ?a] ok by auto
qed

end
