(* ===== verification/Rvector_Bind.thy ===== *)
theory Rvector_Bind
  imports Bind_Common Vector_Theorems
begin

text \<open>
  The Python class of \<open>Rvector\<close> (\<^verbatim>\<open>src/bind/rvector_bind.cpp\<close>): constructors, the container
  protocol, batch access through buffers, raw bytes, the packing functions and the factories. The
  other methods are the C++ operations themselves.
\<close>

section \<open>Constructors and container protocol\<close>

definition py_filled :: "nat \<Rightarrow> heap \<Rightarrow> nat \<Rightarrow> byte \<Rightarrow> rvec res" where
  "py_filled ell heap sz val = rbind (rv_new ell heap sz) (rv_fill ell val)"

definition py_getitem :: "nat \<Rightarrow> rvec \<Rightarrow> nat \<Rightarrow> byte res" where
  "py_getitem ell v i = (if i \<ge> rv_size v then Inl OutOfRange else rv_get ell v i)"

definition py_setitem :: "nat \<Rightarrow> rvec \<Rightarrow> nat \<Rightarrow> byte \<Rightarrow> rvec res" where
  "py_setitem ell v i val = (if i \<ge> rv_size v then Inl OutOfRange else rv_set ell v i val)"

text \<open>\<open>std::to_string\<close>\<close>

function to_string :: "nat \<Rightarrow> string" where
  "to_string n = (if n < 10 then [char_of (n + 48)] else to_string (n div 10) @ [char_of (n mod 10 + 48)])"
  by pat_completeness auto
termination by (relation "measure (\<lambda>n. n)") auto

declare to_string.simps [simp del]

definition py_repr :: "string \<Rightarrow> nat \<Rightarrow> rvec \<Rightarrow> string res" where
  "py_repr cls_name ell v =
     (let s = cls_name @ ''(size='' @ to_string (rv_size v) @ '', [''; n = min (rv_size v) 8 in
      rbind (for_loop 0 n (\<lambda>i s. rbind (rv_get ell v i) (\<lambda>x.
        Inr (s @ (if i \<noteq> 0 then '', '' else []) @ to_string (unat x)))) s) (\<lambda>s.
      Inr (s @ (if rv_size v > n then '', ...'' else []) @ ''])'')))"

function eq_from :: "nat \<Rightarrow> rvec \<Rightarrow> rvec \<Rightarrow> nat \<Rightarrow> bool res" where
  "eq_from ell a b i =
     (if i < rv_size a
      then rbind (rv_get ell a i) (\<lambda>x. rbind (rv_get ell b i) (\<lambda>y. if x \<noteq> y then Inr False else eq_from ell a b (Suc i)))
      else Inr True)"
  by pat_completeness auto
termination by (relation "measure (\<lambda>(ell, a, b, i). rv_size a - i)") auto

declare eq_from.simps [simp del]

definition py_eq :: "nat \<Rightarrow> rvec \<Rightarrow> rvec \<Rightarrow> bool res" where
  "py_eq ell a b = (if rv_size a \<noteq> rv_size b then Inr False else eq_from ell a b 0)"

section \<open>Batch access\<close>

text \<open>\<open>PyObject_GetBuffer\<close>: the item size and the bytes.\<close>

definition get_buffer :: "pyobj \<Rightarrow> (nat \<times> byte list) res" where
  "get_buffer x = (case x of
     PyBytes b \<Rightarrow> Inr (1, b) | PyByteArray b \<Rightarrow> Inr (1, b) | PyArray k b \<Rightarrow> Inr (k, b) | _ \<Rightarrow> Inl PythonError)"

text \<open>The buffer read as an array of \<open>uint64_t\<close>.\<close>

definition as_u64 :: "byte list \<Rightarrow> nat list" where
  "as_u64 b = map (\<lambda>i. unat (of_le_bytes (take 8 (drop (8 * i) b)) :: u64)) [0..<length b div 8]"

definition py_batch_set :: "nat \<Rightarrow> rvec \<Rightarrow> pyobj \<Rightarrow> byte \<Rightarrow> rvec res" where
  "py_batch_set ell v indices val =
     rbind (get_buffer indices) (\<lambda>(itemsize, buf).
     if itemsize \<noteq> 8 then Inl InvalidArgument else batchSet ell (as_u64 buf) val v)"

definition py_batch_get :: "nat \<Rightarrow> bool \<Rightarrow> rvec \<Rightarrow> pyobj \<Rightarrow> rvec \<Rightarrow> rvec res" where
  "py_batch_get ell alias v indices out =
     rbind (get_buffer indices) (\<lambda>(itemsize, buf).
     if itemsize \<noteq> 8 then Inl InvalidArgument
     else if rv_size out < length buf div 8 then Inl InvalidArgument
     else batchGet ell alias v (as_u64 buf) out)"

section \<open>Raw bytes and packing\<close>

definition py_to_bytes :: "nat \<Rightarrow> rvec \<Rightarrow> byte list res" where
  "py_to_bytes ell v = of_option (ldn (rv_bytes ell v) 0 (bytesSize ell v))"

definition py_from_bytes :: "nat \<Rightarrow> rvec \<Rightarrow> byte list \<Rightarrow> rvec res" where
  "py_from_bytes ell v b =
     (let expected = bytesSize ell v in
      if length b \<noteq> expected then Inl InvalidArgument
      else rbind (of_option (stn (rv_bytes ell v) 0 b)) (\<lambda>bs. canonicalize ell (set_bytes ell v bs)))"

text \<open>The factories of vectors and of buffers.\<close>

definition py_Rvector :: "nat \<Rightarrow> nat res" where
  "py_Rvector ell = (if outside RVECTOR_ELL ell then Inl InvalidArgument else Inr ell)"

definition py_RvectorPack :: "(nat \<Rightarrow> bool) \<Rightarrow> nat \<Rightarrow> nat \<Rightarrow> rpack res" where
  "py_RvectorPack avail ell = (\<lambda>n. rp_new avail ell n)"

text \<open>\<open>try_cast\<close> succeeds for the width of the vector; the widths are tried in turn.\<close>

definition try_cast :: "pyobj \<Rightarrow> nat \<Rightarrow> rvec option" where
  "try_cast x ell = (case x of PyRvector k v \<Rightarrow> if k = ell then Some v else None | _ \<Rightarrow> None)"

definition py_rvector_pack :: "pyobj \<Rightarrow> rpack \<Rightarrow> rpack res" where
  "py_rvector_pack src aux_buf =
     rbind (for_loop 1 9 (\<lambda>ell (found, aux). if found then Inr (found, aux)
         else (case try_cast src ell of None \<Rightarrow> Inr (found, aux)
           | Some v \<Rightarrow> rbind (packRvec ell v aux) (\<lambda>aux. Inr (True, aux)))) (False, aux_buf))
       (\<lambda>(found, aux). if \<not> found then Inl TypeError else Inr aux)"

definition py_rvector_unpack :: "rpack \<Rightarrow> pyobj \<Rightarrow> pyobj res" where
  "py_rvector_unpack aux_buf dst =
     rbind (for_loop 1 9 (\<lambda>ell (found, x). if found then Inr (found, x)
         else (case try_cast dst ell of None \<Rightarrow> Inr (found, x)
           | Some v \<Rightarrow> rbind (rbind (unpackRvec ell aux_buf v) (\<lambda>v. Inr (PyRvector ell v))) (\<lambda>x. Inr (True, x)))) (False, dst))
       (\<lambda>(found, x). if \<not> found then Inl TypeError else Inr x)"

section \<open>Facts\<close>

lemma py_repr_total:
  assumes "rv_ok ell v"
  shows "\<exists>s. py_repr cls_name ell v = Inr s"
proof -
  have "\<exists>s'. for_loop 0 (min (rv_size v) 8) (\<lambda>i s. rbind (rv_get ell v i) (\<lambda>x.
        Inr (s @ (if i \<noteq> 0 then '', '' else []) @ to_string (unat x)))) s = Inr s' \<and> True" for s
    by (rule for_loop_rule) (use assms in \<open>auto simp: rv_size_def rv_get_ok\<close>)
  then obtain s' where "for_loop 0 (min (rv_size v) 8) (\<lambda>i s. rbind (rv_get ell v i) (\<lambda>x.
        Inr (s @ (if i \<noteq> 0 then '', '' else []) @ to_string (unat x))))
      (cls_name @ ''(size='' @ to_string (rv_size v) @ '', ['') = Inr s'" by blast
  then show ?thesis unfolding py_repr_def Let_def by simp
qed

lemma eq_from_eq:
  assumes "rv_ok ell a" "rv_ok ell b" "n_elems a = n_elems b"
  shows "eq_from ell a b i = Inr (\<forall>k. i \<le> k \<longrightarrow> k < n_elems a \<longrightarrow> elem ell a k = elem ell b k)"
proof (induction "n_elems a - i" arbitrary: i)
  case 0
  then show ?case by (simp add: eq_from.simps [of ell a b i] rv_size_def)
next
  case (Suc m)
  then have i: "i < n_elems a" "m = n_elems a - Suc i" by simp_all
  have split: "(\<forall>k. i \<le> k \<longrightarrow> Q k) \<longleftrightarrow> Q i \<and> (\<forall>k. Suc i \<le> k \<longrightarrow> Q k)" for Q
    using Suc_le_eq le_eq_less_or_eq by auto
  show ?case
    using Suc.hyps(1) [OF i(2)] i(1) assms
    by (simp add: eq_from.simps [of ell a b i] rv_size_def rv_get_ok split)
qed

lemma as_u64_bytes:
  assumes "\<And>i. i \<in> List.set is \<Longrightarrow> i < 2 ^ 64"
  shows "as_u64 (concat (map (\<lambda>i. le_bytes 8 (of_nat i :: u64)) is)) = is"
proof (rule nth_equalityI)
  let ?f = "\<lambda>i. le_bytes 8 (of_nat i :: u64)"
  have l: "length (concat (map ?f xs)) = 8 * length xs" for xs by (induction xs) simp_all
  show "length (as_u64 (concat (map ?f is))) = length is" by (simp add: as_u64_def l)
  fix k assume "k < length (as_u64 (concat (map ?f is)))"
  then have k: "k < length is" by (simp add: as_u64_def l)
  have "is = take k is @ is ! k # drop (Suc k) is" using k by (rule id_take_nth_drop)
  then have "concat (map ?f is) = concat (map ?f (take k is)) @ ?f (is ! k) @ concat (map ?f (drop (Suc k) is))"
    by (drule_tac f = "\<lambda>xs. concat (map ?f xs)" in arg_cong) (simp del: append_take_drop_id)
  then have "take 8 (drop (8 * k) (concat (map ?f is))) = ?f (is ! k)" using k by (simp add: l)
  then show "as_u64 (concat (map ?f is)) ! k = is ! k"
    using k assms [of "is ! k"] by (simp add: as_u64_def l of_le_bytes_le_bytes unat_of_nat)
qed

lemma cast_loop:
  fixes F :: "nat \<Rightarrow> rvec \<Rightarrow> 'a \<Rightarrow> 'a res"
  assumes "1 \<le> ell" "ell \<le> 8"
  shows "for_loop 1 9 (\<lambda>k (found, x). if found then Inr (found, x)
      else (case try_cast (PyRvector ell v) k of None \<Rightarrow> Inr (found, x) | Some w \<Rightarrow> rbind (F k w x) (\<lambda>x. Inr (True, x)))) (False, x) =
    rbind (F ell v x) (\<lambda>x. Inr (True, x))"
  (is "for_loop 1 9 ?B _ = _")
proof -
  have found: "for_loop k 9 ?B (True, y) = Inr (True, y)" for k y
    by (induction "9 - k" arbitrary: k) (simp_all add: for_loop_step)
  have "k \<le> ell \<Longrightarrow> for_loop k 9 ?B (False, x) = rbind (F ell v x) (\<lambda>x. Inr (True, x))" for k
  proof (induction "ell - k" arbitrary: k)
    case 0
    then show ?case using assms by (cases "F ell v x") (simp_all add: for_loop_step try_cast_def found)
  next
    case (Suc m)
    then have "k < ell" "m = ell - Suc k" by simp_all
    then show ?case using Suc.hyps(1) [of "Suc k"] assms by (simp add: for_loop_step [of k] try_cast_def)
  qed
  then show ?thesis using assms by simp
qed

lemma cast_other:
  "for_loop k 9 (\<lambda>ell (found, x). if found then Inr (found, x)
      else (case try_cast PyOther ell of None \<Rightarrow> Inr (found, x) | Some w \<Rightarrow> F ell found x w)) (False, y) = Inr (False, y)"
  by (induction "9 - k" arbitrary: k) (simp_all add: for_loop_step try_cast_def)

lemma py_eq_elems:
  assumes "rv_ok ell a" "rv_ok ell b"
  shows "py_eq ell a b = Inr (elems ell a = elems ell b)"
proof (cases "n_elems a = n_elems b")
  case True
  then show ?thesis
    using eq_from_eq [OF assms True, of 0] by (auto simp: py_eq_def rv_size_def list_eq_iff_nth_eq)
next
  case False
  then have "length (elems ell a) \<noteq> length (elems ell b)" by simp
  then have "elems ell a \<noteq> elems ell b" by metis
  with False show ?thesis by (simp add: py_eq_def rv_size_def)
qed

section \<open>Properties\<close>

text \<open>The container protocol of a vector: an index in range gives or sets the element, any other
  raises an exception, a value that is no ring element too; \<open>==\<close> compares lengths and elements, whatever the
  padding holds.\<close>

theorem python_container:
  assumes "rv_ok ell v" "rv_ok ell w"
  shows "py_getitem ell v i = (if i < rv_size v then Inr (elems ell v ! i) else Inl OutOfRange) \<and>
    (if i < rv_size v then if take_bit ell x = x
         then \<exists>v'. py_setitem ell v i x = Inr v' \<and> rv_ok ell v' \<and> elems ell v' = (elems ell v)[i := x]
         else py_setitem ell v i x = Inl InvalidArgument
     else py_setitem ell v i x = Inl OutOfRange) \<and>
    py_eq ell v w = Inr (elems ell v = elems ell w) \<and> (\<exists>s. py_repr cls_name ell v = Inr s)"
proof -
  have "py_setitem ell v i x = Inl InvalidArgument" if "i < rv_size v" "take_bit ell x \<noteq> x"
    using that rv_ok_ell [OF assms(1)] by (simp add: py_setitem_def rv_size_def rv_set_def checkRing_iff)
  moreover have "\<exists>v'. py_setitem ell v i x = Inr v' \<and> rv_ok ell v' \<and> elems ell v' = (elems ell v)[i := x]"
    if "i < rv_size v" "take_bit ell x = x"
    using that rv_set_ok [OF assms(1), of i x] by (auto simp: py_setitem_def rv_size_def)
  ultimately show ?thesis
    using py_eq_elems [OF assms] py_repr_total [OF assms(1), of cls_name] assms(1)
    by (simp add: py_getitem_def py_setitem_def rv_size_def rv_get_ok)
qed

theorem python_container_witness:
  "py_getitem 3 trits3 1 = Inr 7 \<and> py_setitem 3 trits3 3 1 = Inl OutOfRange \<and> py_setitem 3 trits3 0 8 = Inl InvalidArgument \<and>
    py_eq 3 trits3 trits3 = Inr True"
  using python_container [OF trits3_ok(1) trits3_ok(1), of 1 0 "''RvectorEll3''"]
    python_container [OF trits3_ok(1) trits3_ok(1), of 3 1 "''RvectorEll3''"]
    python_container [OF trits3_ok(1) trits3_ok(1), of 0 8 "''RvectorEll3''"] trits3_ok(2)
  by (simp add: rv_size_def trits3_elems)

text \<open>The raw bytes of a vector, and its packed form, make another vector of its length equal to it;
  bytes of the wrong number are refused, and so is packing anything that is no vector.\<close>

theorem python_bytes:
  assumes "rv_ok ell v" "rv_ok ell w" "rv_size w = rv_size v" "rp_new avail ell (rv_size v) = Inr aux"
  shows "(\<exists>b w'. py_to_bytes ell v = Inr b \<and> py_from_bytes ell w b = Inr w' \<and> py_eq ell w' v = Inr True \<and>
      (\<forall>c. length c \<noteq> length b \<longrightarrow> py_from_bytes ell w c = Inl InvalidArgument)) \<and>
    (\<exists>aux' w'. py_rvector_pack (PyRvector ell v) aux = Inr aux' \<and> py_rvector_unpack aux' (PyRvector ell w) = Inr (PyRvector ell w') \<and>
      py_eq ell w' v = Inr True) \<and>
    py_rvector_pack PyOther aux = Inl TypeError \<and> py_rvector_unpack aux PyOther = Inl TypeError"
proof -
  have n: "n_elems w = n_elems v" using assms(3) by (simp add: rv_size_def)
  have len: "length (rv_bytes ell w) = length (rv_bytes ell v)"
    using assms(1,2) n by (simp add: length_rv_bytes) (auto simp: rv_ok_def)
  obtain w' where w': "canonicalize ell (set_bytes ell w (rv_bytes ell v)) = Inr w'" "rv_ok ell w'" "elems ell w' = elems ell v"
    using stored_ok [OF set_bytes_ok [OF assms(1,2) n]] by blast
  have bytes: "py_to_bytes ell v = Inr (rv_bytes ell v)" "py_from_bytes ell w (rv_bytes ell v) = Inr w'" "py_eq ell w' v = Inr True"
      "\<forall>c. length c \<noteq> length (rv_bytes ell v) \<longrightarrow> py_from_bytes ell w c = Inl InvalidArgument"
    using w'(1,3) len py_eq_elems [OF w'(2) assms(1)]
    by (simp_all add: py_to_bytes_def py_from_bytes_def bytesSize_ok assms(1,2) ldn_def stn_all)
  have aux: "aux_ok ell (n_elems v) aux" using rp_new_ok [OF assms(4)] by (simp add: rv_size_def)
  obtain aux' where aux': "packRvec ell v aux = Inr aux'" "holds ell aux' v" using packRvec_holds [OF assms(1) aux] by blast
  obtain u where u: "unpackRvec ell aux' w = Inr u" "rv_ok ell u" "elems ell u = elems ell v"
    using aux'(2) assms(2) n unfolding holds_def by blast
  have ell: "1 \<le> ell" "ell \<le> 8" using rv_ok_ell [OF assms(1)] by simp_all
  have "py_rvector_pack (PyRvector ell v) aux = Inr aux'"
    using aux'(1) cast_loop [OF ell, of packRvec v aux] by (simp add: py_rvector_pack_def)
  moreover have "py_rvector_unpack aux' (PyRvector ell w) = Inr (PyRvector ell u)"
    using u(1) cast_loop [OF ell, of "\<lambda>k v _. rbind (unpackRvec k aux' v) (\<lambda>v. Inr (PyRvector k v))" w "PyRvector ell w"]
    by (simp add: py_rvector_unpack_def)
  moreover have "py_eq ell u v = Inr True" using py_eq_elems [OF u(2) assms(1)] u(3) by simp
  moreover have "py_rvector_pack PyOther aux = Inl TypeError" "py_rvector_unpack aux PyOther = Inl TypeError"
    unfolding py_rvector_pack_def py_rvector_unpack_def cast_other by simp_all
  ultimately show ?thesis using bytes by blast
qed

theorem python_bytes_witness:
  "(\<exists>b w'. py_to_bytes 3 trits3 = Inr b \<and> py_from_bytes 3 trits3 b = Inr w' \<and> py_eq 3 w' trits3 = Inr True) \<and>
    (\<exists>aux' w'. py_rvector_pack (PyRvector 3 trits3) pack3_buf = Inr aux' \<and>
      py_rvector_unpack aux' (PyRvector 3 trits3) = Inr (PyRvector 3 w') \<and> py_eq 3 w' trits3 = Inr True)"
  using python_bytes [OF trits3_ok(1) trits3_ok(1) refl, of "\<lambda>_. True" pack3_buf] pack3_buf_new
  unfolding rv_size_def by blast

lemma as_u64_append: "length b = 8 * k \<Longrightarrow> as_u64 (b @ c) = as_u64 b @ as_u64 c"
proof (rule nth_equalityI)
  assume l: "length b = 8 * k"
  show "length (as_u64 (b @ c)) = length (as_u64 b @ as_u64 c)" by (simp add: as_u64_def l)
  fix i assume i: "i < length (as_u64 (b @ c))"
  show "as_u64 (b @ c) ! i = (as_u64 b @ as_u64 c) ! i"
  proof (cases "i < k")
    case True
    then have "take 8 (drop (8 * i) (b @ c)) = take 8 (drop (8 * i) b)" by (simp add: l)
    then show ?thesis using True i by (simp add: as_u64_def l nth_append)
  next
    case False
    then have "drop (8 * i) (b @ c) = drop (8 * (i - k)) c" by (simp add: l diff_mult_distrib2)
    moreover have "i - k < length c div 8" using False i l by (simp add: as_u64_def)
    ultimately show ?thesis using False i by (simp add: as_u64_def l nth_append del: upt_Suc)
  qed
qed

lemma for_loop_prefix:
  "i \<le> k \<Longrightarrow> k \<le> n \<Longrightarrow> for_loop i n body s = rbind (for_loop i k body s) (for_loop k n body)"
proof (induction "k - i" arbitrary: i s)
  case (Suc d)
  then have i: "i < k" "i < n" by simp_all
  have "for_loop (Suc i) n body s' = rbind (for_loop (Suc i) k body s') (for_loop k n body)" for s'
    using Suc by (intro Suc.hyps) simp_all
  with i show ?case by (cases "body i s") (simp_all add: for_loop_step)
qed simp

lemma batchGet_out:
  assumes v: "rv_ok ell v" and out: "rv_ok ell out" and len: "length (is @ j # js) \<le> n_elems out"
    and "is": "\<forall>i \<in> List.set is. i < n_elems v" "n_elems v \<le> j"
  shows "batchGet ell False v (is @ j # js) out = Inl OutOfRange"
proof -
  let ?B = "\<lambda>k o'. rbind (rd (is @ j # js) k) (\<lambda>i. if i \<ge> n_elems v then Inl OutOfRange
      else rbind (rv_get ell v i) (rv_set ell o' k))"
  have "\<exists>o'. for_loop 0 (length is) ?B out = Inr o' \<and> rv_ok ell o' \<and> n_elems o' = n_elems out"
  proof (rule for_loop_rule)
    fix k o' assume k: "k < length is" and o': "rv_ok ell o' \<and> n_elems o' = n_elems out"
    let ?x = "elems ell v ! (is ! k)"
    have i: "is ! k < n_elems v" using k "is"(1) by simp
    have "take_bit ell ?x = ?x" using elems_range [OF v] i by (metis length_elems nth_mem)
    then have "\<exists>v'. rv_set ell o' k ?x = Inr v' \<and> rv_ok ell v' \<and> elems ell v' = (elems ell o')[k := ?x]"
      using o' k len by (intro rv.set_ok) simp_all
    then obtain v' where "rv_set ell o' k ?x = Inr v'" "rv_ok ell v'" "n_elems v' = n_elems out"
      using o' by (metis length_elems length_list_update)
    then show "\<exists>s'. ?B k o' = Inr s' \<and> rv_ok ell s' \<and> n_elems s' = n_elems out"
      using k i rv.get_ok [OF v] by (simp add: rd_def nth_append)
  qed (use out in simp_all)
  then obtain o' where o': "for_loop 0 (length is) ?B out = Inr o'" by blast
  have "for_loop 0 (length (is @ j # js)) ?B out = rbind (for_loop 0 (length is) ?B out) (for_loop (length is) (length (is @ j # js)) ?B)"
    by (rule for_loop_prefix) simp_all
  also have "\<dots> = for_loop (length is) (length (is @ j # js)) ?B o'" unfolding o' by simp
  also have "\<dots> = Inl OutOfRange" using "is"(2) by (simp add: for_loop_step)
  finally show ?thesis using len by (simp add: batchGet_def rv_size_def)
qed

text \<open>C35: batch access takes the indices from a buffer of 64-bit items: with indices in range it sets exactly
  the listed elements, or copies them to the front of the output. Both methods refuse a buffer of other items,
  an object without a buffer and an index out of range, wherever it stands; \<open>batch_get\<close> also an output that is
  too short and an output that is the vector itself.\<close>

theorem python_batch:
  assumes "rv_ok ell v" "rv_ok ell out" "take_bit ell x = x" "\<forall>i \<in> List.set is. i < rv_size v"
    and "b = concat (map (\<lambda>i. le_bytes 8 (of_nat i :: u64)) is)"
  shows "(\<exists>v'. py_batch_set ell v (PyArray 8 b) x = Inr v' \<and> rv_ok ell v' \<and>
      elems ell v' = map (\<lambda>k. if k \<in> List.set is then x else elems ell v ! k) [0..<rv_size v]) \<and>
    (if length is \<le> rv_size out
     then \<exists>out'. py_batch_get ell False v (PyArray 8 b) out = Inr out' \<and> rv_ok ell out' \<and>
       elems ell out' = map ((!) (elems ell v)) is @ drop (length is) (elems ell out)
     else py_batch_get ell False v (PyArray 8 b) out = Inl InvalidArgument) \<and>
    (\<forall>j < 2 ^ 64. \<forall>more. rv_size v \<le> j \<longrightarrow>
      py_batch_set ell v (PyArray 8 (b @ le_bytes 8 (of_nat j :: u64) @ more)) x = Inl OutOfRange \<and>
      (Suc (length is) + length more div 8 \<le> rv_size out \<longrightarrow>
        py_batch_get ell False v (PyArray 8 (b @ le_bytes 8 (of_nat j :: u64) @ more)) out = Inl OutOfRange)) \<and>
    (\<forall>k c. k \<noteq> 8 \<longrightarrow> py_batch_set ell v (PyArray k c) x = Inl InvalidArgument \<and>
      py_batch_get ell same v (PyArray k c) out = Inl InvalidArgument) \<and>
    (\<forall>c. py_batch_set ell v (PyBytes c) x = Inl InvalidArgument \<and> py_batch_get ell same v (PyBytes c) out = Inl InvalidArgument) \<and>
    py_batch_set ell v PyOther x = Inl PythonError \<and> py_batch_get ell same v PyOther out = Inl PythonError \<and>
    py_batch_get ell True v (PyArray 8 b) v = Inl InvalidArgument"
proof -
  have small: "i < 2 ^ 64" if "i \<in> List.set is" for i
    using that assms(1,4) by (fastforce simp: rv_ok_def rv_size_def)
  note get = as_u64_bytes [OF small]
  have l: "length b = 8 * length is" unfolding assms(5) by (induction "is") simp_all
  have more: "as_u64 (b @ le_bytes 8 (of_nat j :: u64) @ more) = is @ j # as_u64 more" if "j < 2 ^ 64" for j more
    using as_u64_bytes [of "is @ [j]"] small that as_u64_append [of "b @ le_bytes 8 (of_nat j :: u64)" "Suc (length is)" more] l
    by (fastforce simp: assms(5))
  have len: "length (as_u64 c) = length c div 8" for c by (simp add: as_u64_def)
  have out: "py_batch_set ell v (PyArray 8 (b @ le_bytes 8 (of_nat j :: u64) @ more)) x = Inl OutOfRange"
      "Suc (length is) + length more div 8 \<le> rv_size out \<Longrightarrow>
        py_batch_get ell False v (PyArray 8 (b @ le_bytes 8 (of_nat j :: u64) @ more)) out = Inl OutOfRange"
    if "j < 2 ^ 64" "rv_size v \<le> j" for j more
    using batchSet_out [OF assms(1,3), of "is" j] batchGet_out [OF assms(1,2), of "is" j "as_u64 more"] that assms(4) len [of more] l
    by (simp_all add: py_batch_set_def py_batch_get_def get_buffer_def rv_size_def more)
  have refused: "py_batch_set ell v (PyArray k c) x = Inl InvalidArgument \<and> py_batch_get ell same v (PyArray k c) out = Inl InvalidArgument"
    if "k \<noteq> 8" for k c using that by (simp add: py_batch_set_def py_batch_get_def get_buffer_def)
  have "\<exists>v'. py_batch_set ell v (PyArray 8 b) x = Inr v' \<and> rv_ok ell v' \<and>
      elems ell v' = map (\<lambda>k. if k \<in> List.set is then x else elems ell v ! k) [0..<rv_size v]"
    using batchSet_ok [OF assms(1,3), of "is"] assms(4) get by (simp add: py_batch_set_def get_buffer_def rv_size_def assms(5))
  moreover have "if length is \<le> rv_size out
     then \<exists>out'. py_batch_get ell False v (PyArray 8 b) out = Inr out' \<and> rv_ok ell out' \<and>
       elems ell out' = map ((!) (elems ell v)) is @ drop (length is) (elems ell out)
     else py_batch_get ell False v (PyArray 8 b) out = Inl InvalidArgument"
    using batchGet_ok [OF assms(1,2), of "is"] assms(4) get l by (simp add: py_batch_get_def get_buffer_def rv_size_def assms(5))
  moreover have "py_batch_get ell True v (PyArray 8 b) v = Inl InvalidArgument" by (simp add: py_batch_get_def get_buffer_def batchGet_def)
  ultimately show ?thesis using out refused by (simp add: py_batch_set_def py_batch_get_def get_buffer_def)
qed

theorem python_batch_witness:
  "(\<exists>v'. py_batch_set 3 trits3 (PyArray 8 (concat (map (\<lambda>i. le_bytes 8 (of_nat i :: u64)) [0, 2]))) 5 = Inr v' \<and> elems 3 v' = [5, 7, 5]) \<and>
    (\<exists>w. py_batch_get 3 False trits3 (PyArray 8 (concat (map (\<lambda>i. le_bytes 8 (of_nat i :: u64)) [0, 2]))) trits3 = Inr w \<and>
      elems 3 w = [elems 3 trits3 ! 0, elems 3 trits3 ! 2, elems 3 trits3 ! 2]) \<and>
    py_batch_get 3 False trits3 (PyArray 8 (concat (map (\<lambda>i. le_bytes 8 (of_nat i :: u64)) [0, 2]) @ le_bytes 8 (of_nat 3 :: u64) @ [])) trits3 = Inl OutOfRange \<and>
    py_batch_get 3 False trits3 (PyArray 4 []) trits3 = Inl InvalidArgument \<and> py_batch_set 3 trits3 (PyArray 4 []) 5 = Inl InvalidArgument \<and>
    py_batch_set 3 trits3 PyOther 5 = Inl PythonError"
proof -
  have n: "rv_size trits3 = 3" using length_elems [of 3 trits3] by (simp add: rv_size_def trits3_elems)
  have i: "\<forall>i \<in> List.set [0, 2]. i < rv_size trits3" by (simp add: n)
  have x: "take_bit 3 5 = (5 :: byte)" by simp
  note b = python_batch [OF trits3_ok(1) trits3_ok(1) x i refl, where same = False, unfolded n]
  have "py_batch_get 3 False trits3 (PyArray 8 (concat (map (\<lambda>i. le_bytes 8 (of_nat i :: u64)) [0, 2]) @ le_bytes 8 (of_nat 3 :: u64) @ [])) trits3 = Inl OutOfRange"
    using b [THEN conjunct2, THEN conjunct2, THEN conjunct1, rule_format, of 3 "[]"] by auto
  with b show ?thesis by (auto simp: trits3_elems upt_numerals)
qed

end
