(* ===== verification/Dpf_Bind.thy ===== *)
theory Dpf_Bind
  imports Bind_Common Dpf_Reveal Dpf_Keys
begin

text \<open>
  The Python classes of the dealer and the evaluators (\<^verbatim>\<open>src/bind/dpf_bind.cpp\<close>): keys are
  JSON texts on the Python side, the number of threads and the party select an instance of a C++
  template. \<open>reveal\<close> is the C++ operation itself on both sides.
\<close>

section \<open>Classes\<close>

definition py_DpfDealer :: "nat \<Rightarrow> nat \<Rightarrow> (nat \<times> nat) res" where
  "py_DpfDealer ei eo =
     (if outside DPF_ELL_IN ei \<or> outside DPF_ELL_OUT eo then Inl InvalidArgument else Inr (ei, eo))"

definition py_DpfEvaluator :: "nat \<Rightarrow> nat \<Rightarrow> int \<Rightarrow> (nat \<times> nat \<times> dpf_pid) res" where
  "py_DpfEvaluator ei eo party =
     (if outside DPF_ELL_IN ei \<or> outside DPF_ELL_OUT eo then Inl InvalidArgument
      else if party \<noteq> 0 \<and> party \<noteq> 1 then Inl InvalidArgument
      else Inr (ei, eo, if party = 0 then EVALUATOR_0 else EVALUATOR_1))"

section \<open>Dealer\<close>

definition key_text :: "(json \<Rightarrow> byte list) \<Rightarrow> nat \<Rightarrow> dpf_key \<Rightarrow> byte list res" where
  "key_text dump ell_in key = rbind (to_json ell_in key) (\<lambda>j. Inr (dump j))"

definition key_of_text :: "(byte list \<Rightarrow> json res) \<Rightarrow> nat \<Rightarrow> byte list \<Rightarrow> byte list \<Rightarrow> dpf_key res" where
  "key_of_text parse ell_in fresh key_json = rbind (parse key_json) (from_json ell_in fresh)"

definition py_gen :: "(json \<Rightarrow> byte list) \<Rightarrow> ccrh \<Rightarrow> nat \<Rightarrow> nat \<Rightarrow> int \<Rightarrow> block \<Rightarrow> block \<Rightarrow> byte list \<Rightarrow> byte list \<Rightarrow>
    u32 \<Rightarrow> byte \<Rightarrow> (byte list \<times> byte list) res" where
  "py_gen dump ccrh ell_in ell_out sodium_init rnd0 rnd1 kL kR alpha beta =
     rbind (gen ccrh ell_in ell_out sodium_init rnd0 rnd1 kL kR alpha beta) (\<lambda>(k0, k1).
     rbind (key_text dump ell_in k0) (\<lambda>s0. rbind (key_text dump ell_in k1) (\<lambda>s1. Inr (s0, s1))))"

text \<open>What goes to which evaluator.\<close>

definition py_send_key :: "(json \<Rightarrow> byte list) \<Rightarrow> (byte list \<Rightarrow> json res) \<Rightarrow> nat \<Rightarrow> byte list \<Rightarrow> byte list \<Rightarrow> int \<Rightarrow>
    (dpf_pid \<times> byte list) res" where
  "py_send_key dump parse ell_in fresh key_json party =
     (if party \<noteq> 0 \<and> party \<noteq> 1 then Inl InvalidArgument
      else rbind (key_of_text parse ell_in fresh key_json) (\<lambda>key.
        rbind (sendKey dump ell_in key) (\<lambda>bytes. Inr (if party = 0 then EVALUATOR_0 else EVALUATOR_1, bytes))))"

section \<open>Evaluators\<close>

definition py_recv_key :: "(json \<Rightarrow> byte list) \<Rightarrow> (byte list \<Rightarrow> json res) \<Rightarrow> (nat \<Rightarrow> bool) \<Rightarrow> nat \<Rightarrow> byte list \<Rightarrow> byte list \<Rightarrow>
    (byte list \<times> byte list) res" where
  "py_recv_key dump parse alloc ell_in fresh stream =
     rbind (recvKey parse alloc ell_in fresh stream) (\<lambda>(key, rest).
     rbind (key_text dump ell_in key) (\<lambda>s. Inr (s, rest)))"

definition CORES :: "int list" where "CORES = [1, 2, 4, 8, 16, 32]"

definition do_eval :: "ccrh \<Rightarrow> nat \<Rightarrow> nat \<Rightarrow> dpf_pid \<Rightarrow> dpf_key \<Rightarrow> rvec \<Rightarrow> int \<Rightarrow> rvec res \<Rightarrow> bool" where
  "do_eval ccrh ell_in ell_out pid key buf cores r \<longleftrightarrow>
     (if cores \<in> List.set CORES then fullEval ccrh ell_in ell_out pid (nat cores) key buf r else r = Inl InvalidArgument)"

definition do_range_eval :: "ccrh \<Rightarrow> nat \<Rightarrow> nat \<Rightarrow> dpf_pid \<Rightarrow> dpf_key \<Rightarrow> rvec \<Rightarrow> nat \<Rightarrow> nat \<Rightarrow> int \<Rightarrow> rvec res \<Rightarrow> bool" where
  "do_range_eval ccrh ell_in ell_out pid key buf bg ed cores r \<longleftrightarrow>
     (if cores \<in> List.set CORES then rangeEval ccrh ell_in ell_out pid (nat cores) key bg ed buf r else r = Inl InvalidArgument)"

text \<open>The key is parsed first, then the buffer is taken for a vector of the output width.\<close>

definition eval_args :: "(byte list \<Rightarrow> json res) \<Rightarrow> nat \<Rightarrow> nat \<Rightarrow> byte list \<Rightarrow> byte list \<Rightarrow> pyobj \<Rightarrow> (dpf_key \<times> rvec) res" where
  "eval_args parse ell_in ell_out fresh key_json buf_obj =
     rbind (key_of_text parse ell_in fresh key_json) (\<lambda>key.
     case buf_obj of PyRvector k buf \<Rightarrow> if k = ell_out then Inr (key, buf) else Inl CastError | _ \<Rightarrow> Inl CastError)"

definition py_eval :: "(byte list \<Rightarrow> json res) \<Rightarrow> ccrh \<Rightarrow> nat \<Rightarrow> nat \<Rightarrow> dpf_pid \<Rightarrow> byte list \<Rightarrow> byte list \<Rightarrow> pyobj \<Rightarrow> int \<Rightarrow>
    rvec res \<Rightarrow> bool" where
  "py_eval parse ccrh ell_in ell_out pid fresh key_json buf_obj cores r \<longleftrightarrow>
     (case eval_args parse ell_in ell_out fresh key_json buf_obj of
        Inl e \<Rightarrow> r = Inl e | Inr (key, buf) \<Rightarrow> do_eval ccrh ell_in ell_out pid key buf cores r)"

definition py_eval_range :: "(byte list \<Rightarrow> json res) \<Rightarrow> ccrh \<Rightarrow> nat \<Rightarrow> nat \<Rightarrow> dpf_pid \<Rightarrow> byte list \<Rightarrow> byte list \<Rightarrow> pyobj \<Rightarrow>
    nat \<Rightarrow> nat \<Rightarrow> int \<Rightarrow> rvec res \<Rightarrow> bool" where
  "py_eval_range parse ccrh ell_in ell_out pid fresh key_json buf_obj bg ed cores r \<longleftrightarrow>
     (case eval_args parse ell_in ell_out fresh key_json buf_obj of
        Inl e \<Rightarrow> r = Inl e | Inr (key, buf) \<Rightarrow> do_range_eval ccrh ell_in ell_out pid key buf bg ed cores r)"

section \<open>Keys as texts\<close>

text \<open>What the JSON library promises for one key.\<close>

definition text_ok :: "(json \<Rightarrow> byte list) \<Rightarrow> (byte list \<Rightarrow> json res) \<Rightarrow> (nat \<Rightarrow> bool) \<Rightarrow> nat \<Rightarrow> dpf_key \<Rightarrow> bool" where
  "text_ok dump parse alloc ell_in key \<longleftrightarrow> (\<forall>j. to_json ell_in key = Inr j \<longrightarrow>
     parse (dump j) = Inr j \<and> length (dump j) < 2 ^ 64 \<and> alloc (length (dump j)))"

lemma key_round:
  assumes "key_ok ell_in key" "length fresh = 16" "text_ok dump parse alloc ell_in key"
  shows "\<exists>s bytes. key_text dump ell_in key = Inr s \<and> key_of_text parse ell_in fresh s = Inr key \<and>
    sendKey dump ell_in key = Inr bytes \<and> (\<forall>rest. py_recv_key dump parse alloc ell_in fresh (bytes @ rest) = Inr (s, rest))"
proof -
  obtain j where j: "to_json ell_in key = Inr j" "from_json ell_in fresh j = Inr key"
    using json_roundtrip [OF assms(1,2)] by blast
  have t: "parse (dump j) = Inr j" using assms(3) j(1) by (simp add: text_ok_def)
  obtain bytes where b: "sendKey dump ell_in key = Inr bytes" using j(1) by (simp add: sendKey_def Let_def)
  have "recvKey parse alloc ell_in fresh (bytes @ rest) = Inr (key, rest)" for rest
    using key_arrives [OF assms(1,2), of parse dump alloc rest] assms(3) b by (auto simp: text_ok_def)
  then show ?thesis using j t b
    by (intro exI [of _ "dump j"] exI [of _ bytes]) (simp add: key_text_def key_of_text_def py_recv_key_def)
qed

lemma gen_key_ok:
  assumes "gen ccrh ell_in ell_out sodium_init r0 r1 kL kR alpha beta = Inr (k0, k1)" "ell_in \<le> 31" "ell_out \<le> 8"
    and "length kL = 16" "length kR = 16"
  shows "key_ok ell_in k0" "key_ok ell_in k1"
proof -
  have "keyL k = kL \<and> keyR k = kR" if "k \<in> {k0, k1}" for k
    using assms(1) that by (auto simp: gen_def Let_def split: if_splits prod.splits)
  moreover have "length (cws k0) = ell_in" "length (cws k1) = ell_in"
    using gen_shares(2,3) [OF assms(1-3)] by simp_all
  ultimately show "key_ok ell_in k0" "key_ok ell_in k1" using assms(4,5) by (simp_all add: key_ok_def)
qed

section \<open>Properties\<close>

text \<open>C7: the whole protocol through the Python classes: the dealer makes two key texts and sends one to
  each evaluator, who receives it as the same text, evaluates it into a vector on any admitted number of
  threads and reveals the vector; the dealer ends with \<open>beta\<close> at \<open>alpha\<close> and 0 elsewhere.\<close>

theorem python_point_function:
  assumes gen: "gen ccrh ell_in ell_out sodium_init r0 r1 kL kR alpha beta = Inr (k0, k1)" "length kL = 16" "length kR = 16"
    and ell: "ell_in \<le> 31" and fresh: "length fresh = 16"
    and doc: "text_ok dump parse alloc ell_in k0" "text_ok dump parse alloc ell_in k1"
    and cores: "cores0 \<in> List.set CORES" "cores1 \<in> List.set CORES"
    and bufs: "rv_ok ell_out b0" "rv_size b0 = 2 ^ ell_in" "rv_ok ell_out b1" "rv_size b1 = 2 ^ ell_in"
      "rv_ok ell_out out" "rv_size out = 2 ^ ell_in" "\<forall>k. heap0 k \<noteq> None" "\<forall>k. heap1 k \<noteq> None"
  shows "\<exists>s0 s1 m0 m1. py_gen dump ccrh ell_in ell_out sodium_init r0 r1 kL kR alpha beta = Inr (s0, s1) \<and>
    py_send_key dump parse ell_in fresh s0 0 = Inr (EVALUATOR_0, m0) \<and>
    py_send_key dump parse ell_in fresh s1 1 = Inr (EVALUATOR_1, m1) \<and>
    py_recv_key dump parse alloc ell_in fresh m0 = Inr (s0, []) \<and> py_recv_key dump parse alloc ell_in fresh m1 = Inr (s1, []) \<and>
    (\<exists>e0. py_eval parse ccrh ell_in ell_out EVALUATOR_0 fresh s0 (PyRvector ell_out b0) cores0 e0) \<and>
    (\<exists>e1. py_eval parse ccrh ell_in ell_out EVALUATOR_1 fresh s1 (PyRvector ell_out b1) cores1 e1) \<and>
    (\<forall>e0 e1. py_eval parse ccrh ell_in ell_out EVALUATOR_0 fresh s0 (PyRvector ell_out b0) cores0 e0 \<longrightarrow>
      py_eval parse ccrh ell_in ell_out EVALUATOR_1 fresh s1 (PyRvector ell_out b1) cores1 e1 \<longrightarrow>
      (\<exists>v0 v1 v. e0 = Inr v0 \<and> e1 = Inr v1 \<and>
        dealer_reveal ell_out heap0 heap1 (reveal_bytes ell_out v0) (reveal_bytes ell_out v1) out = Inr v \<and>
        elems ell_out v = (replicate (2 ^ ell_in) 0)[unat alpha := take_bit ell_out beta]))"
proof -
  have out: "ell_out \<le> 8" using rv_ok_ell [OF bufs(1)] by simp
  note k = gen_key_ok [OF gen(1) ell out gen(2,3)]
  obtain s0 m0 where s0: "key_text dump ell_in k0 = Inr s0" "key_of_text parse ell_in fresh s0 = Inr k0"
    "sendKey dump ell_in k0 = Inr m0" "py_recv_key dump parse alloc ell_in fresh (m0 @ []) = Inr (s0, [])"
    using key_round [OF k(1) fresh doc(1)] by blast
  obtain s1 m1 where s1: "key_text dump ell_in k1 = Inr s1" "key_of_text parse ell_in fresh s1 = Inr k1"
    "sendKey dump ell_in k1 = Inr m1" "py_recv_key dump parse alloc ell_in fresh (m1 @ []) = Inr (s1, [])"
    using key_round [OF k(2) fresh doc(2)] by blast
  have c: "0 < nat cores0" "0 < nat cores1" using cores by (auto simp: CORES_def)
  have e: "py_eval parse ccrh ell_in ell_out EVALUATOR_0 fresh s0 (PyRvector ell_out b0) cores0 =
      fullEval ccrh ell_in ell_out EVALUATOR_0 (nat cores0) k0 b0"
    "py_eval parse ccrh ell_in ell_out EVALUATOR_1 fresh s1 (PyRvector ell_out b1) cores1 =
      fullEval ccrh ell_in ell_out EVALUATOR_1 (nat cores1) k1 b1"
    using s0(2) s1(2) cores by (simp_all add: fun_eq_iff py_eval_def eval_args_def do_eval_def)
  have full: "(\<exists>r. fullEval ccrh ell_in ell_out EVALUATOR_0 (nat cores0) k0 b0 r) \<and>
      (\<forall>r. fullEval ccrh ell_in ell_out EVALUATOR_0 (nat cores0) k0 b0 r \<longrightarrow> (\<exists>v. r = Inr v))"
    "(\<exists>r. fullEval ccrh ell_in ell_out EVALUATOR_1 (nat cores1) k1 b1 r) \<and>
      (\<forall>r. fullEval ccrh ell_in ell_out EVALUATOR_1 (nat cores1) k1 b1 r \<longrightarrow> (\<exists>v. r = Inr v))"
    using full_evaluation' [of k0 ell_in "nat cores0" EVALUATOR_0 ell_out b0 ccrh]
      full_evaluation' [of k1 ell_in "nat cores1" EVALUATOR_1 ell_out b1 ccrh] k c bufs by (auto simp: key_ok_def)
  have point: "\<exists>v. dealer_reveal ell_out heap0 heap1 (reveal_bytes ell_out v0) (reveal_bytes ell_out v1) out = Inr v \<and>
      elems ell_out v = (replicate (2 ^ ell_in) 0)[unat alpha := take_bit ell_out beta]"
    if "fullEval ccrh ell_in ell_out EVALUATOR_0 (nat cores0) k0 b0 (Inr v0)"
      "fullEval ccrh ell_in ell_out EVALUATOR_1 (nat cores1) k1 b1 (Inr v1)" for v0 v1
    using reveal_point [OF gen(1) ell c bufs(1) that(1) bufs(3) that(2) bufs(5-8), of "[]" "[]"] by auto
  have all: "\<exists>v0 v1 v. e0 = Inr v0 \<and> e1 = Inr v1 \<and>
      dealer_reveal ell_out heap0 heap1 (reveal_bytes ell_out v0) (reveal_bytes ell_out v1) out = Inr v \<and>
      elems ell_out v = (replicate (2 ^ ell_in) 0)[unat alpha := take_bit ell_out beta]"
    if run: "py_eval parse ccrh ell_in ell_out EVALUATOR_0 fresh s0 (PyRvector ell_out b0) cores0 e0"
      "py_eval parse ccrh ell_in ell_out EVALUATOR_1 fresh s1 (PyRvector ell_out b1) cores1 e1" for e0 e1
  proof -
    obtain v0 v1 where v: "e0 = Inr v0" "e1 = Inr v1" using full run unfolding e by blast
    show ?thesis using point [of v0 v1] run unfolding e v by simp
  qed
  have "py_gen dump ccrh ell_in ell_out sodium_init r0 r1 kL kR alpha beta = Inr (s0, s1)"
    using gen(1) s0(1) s1(1) by (simp add: py_gen_def)
  moreover have "py_send_key dump parse ell_in fresh s0 0 = Inr (EVALUATOR_0, m0)"
    "py_send_key dump parse ell_in fresh s1 1 = Inr (EVALUATOR_1, m1)"
    using s0(2,3) s1(2,3) by (simp_all add: py_send_key_def)
  moreover have "py_recv_key dump parse alloc ell_in fresh m0 = Inr (s0, [])" "py_recv_key dump parse alloc ell_in fresh m1 = Inr (s1, [])"
    using s0(4) s1(4) by simp_all
  moreover have "\<exists>e0. py_eval parse ccrh ell_in ell_out EVALUATOR_0 fresh s0 (PyRvector ell_out b0) cores0 e0"
    "\<exists>e1. py_eval parse ccrh ell_in ell_out EVALUATOR_1 fresh s1 (PyRvector ell_out b1) cores1 e1"
    using full unfolding e by simp_all
  ultimately show ?thesis using all by (intro exI [of _ s0] exI [of _ s1] exI [of _ m0] exI [of _ m1] conjI allI impI) simp_all
qed

theorem python_point_function_witness:
  "\<exists>dump parse s0 s1 v0 v1 v. py_gen dump (\<lambda>k x. x) 2 3 0 5 6 (replicate 16 1) (replicate 16 2) 2 7 = Inr (s0, s1) \<and>
    py_eval parse (\<lambda>k x. x) 2 3 EVALUATOR_0 (replicate 16 0) s0 (PyRvector 3 out4) 1 (Inr v0) \<and>
    py_eval parse (\<lambda>k x. x) 2 3 EVALUATOR_1 (replicate 16 0) s1 (PyRvector 3 out4) 8 (Inr v1) \<and>
    dealer_reveal 3 (\<lambda>_. Some (\<lambda>_. 0)) (\<lambda>_. Some (\<lambda>_. 0)) (reveal_bytes 3 v0) (reveal_bytes 3 v1) out4 = Inr v \<and>
    elems 3 v = [0, 0, 7, 0]"
proof -
  let ?g = "gen (\<lambda>k x. x) 2 3 0 5 6 (replicate 16 1) (replicate 16 2) 2 7"
  obtain k0 k1 where g: "?g = Inr (k0, k1)"
    by (cases "gen_loop (\<lambda>x. x) (\<lambda>x. x) 2 2 [0..<2] (gen_root 0 5) (gen_root 1 6)") (auto simp: gen_def Let_def)
  let ?dump = "\<lambda>j. if Inr j = to_json 2 k0 then [1] else [2 :: byte]"
  let ?parse = "\<lambda>s. if s = [1] then to_json 2 k0 else to_json 2 k1"
  have t: "text_ok ?dump ?parse (\<lambda>_. True) 2 k0" "text_ok ?dump ?parse (\<lambda>_. True) 2 k1"
    by (auto simp: text_ok_def)
  have c: "1 \<in> List.set CORES" "8 \<in> List.set CORES" by (simp_all add: CORES_def)
  have "length (replicate 16 b) = 16" for b :: byte by simp
  from python_point_function [where fresh = "replicate 16 0" and ?heap0.0 = "\<lambda>_. Some (\<lambda>_. 0)" and ?heap1.0 = "\<lambda>_. Some (\<lambda>_. 0)",
      OF g this this _ this t c out4_ok(1,2) out4_ok(1,2) out4_ok(1,2)]
  obtain s0 s1 e0 e1 where s: "py_gen ?dump (\<lambda>k x. x) 2 3 0 5 6 (replicate 16 1) (replicate 16 2) 2 7 = Inr (s0, s1)"
    "py_eval ?parse (\<lambda>k x. x) 2 3 EVALUATOR_0 (replicate 16 0) s0 (PyRvector 3 out4) 1 e0"
    "py_eval ?parse (\<lambda>k x. x) 2 3 EVALUATOR_1 (replicate 16 0) s1 (PyRvector 3 out4) 8 e1"
    and r: "\<exists>v0 v1 v. e0 = Inr v0 \<and> e1 = Inr v1 \<and>
      dealer_reveal 3 (\<lambda>_. Some (\<lambda>_. 0)) (\<lambda>_. Some (\<lambda>_. 0)) (reveal_bytes 3 v0) (reveal_bytes 3 v1) out4 = Inr v \<and>
      elems 3 v = [0, 0, 7, 0]"
    unfolding small_point by auto
  from r obtain v0 v1 v where "e0 = Inr v0" "e1 = Inr v1"
      "dealer_reveal 3 (\<lambda>_. Some (\<lambda>_. 0)) (\<lambda>_. Some (\<lambda>_. 0)) (reveal_bytes 3 v0) (reveal_bytes 3 v1) out4 = Inr v"
      "elems 3 v = [0, 0, 7, 0]" by blast
  with s show ?thesis by (intro exI conjI) simp_all
qed

end
