(* ===== verification/Emp2_Bind.thy ===== *)
theory Emp2_Bind
  imports Bind_Common Emp2_Circuits
begin

text \<open>
  The Python class of two-party sharing (\<^verbatim>\<open>src/bind/emp2_bind.cpp\<close>): argument checks around the
  operations of \<open>Emp2\<close>. The methods that only forward (\<open>share_scalar\<close>, \<open>recv_scalar_share\<close>, \<open>mod\<close>,
  \<open>equality_test\<close>) are the C++ operations themselves.
\<close>

section \<open>Class and scalars\<close>

definition py_ShrAdd2 :: "nat \<Rightarrow> int \<Rightarrow> (nat \<times> ShrAdd2Pid) res" where
  "py_ShrAdd2 ell party =
     (if outside ADD2_ELL ell then Inl InvalidArgument
      else if party \<noteq> 0 \<and> party \<noteq> 1 then Inl InvalidArgument
      else Inr (ell, if party = 0 then Alice else Bob))"

definition add2_send_scalar :: "nat \<Rightarrow> u32 \<Rightarrow> (unit, unit) proc" where
  "add2_send_scalar ell val =
     (if ell < 32 \<and> (ucast val :: u64) \<ge> push_bit ell 1 then Fail InvalidArgument else emp2_send val)"

section \<open>Raw bytes\<close>

definition add2_send_data :: "pyobj \<Rightarrow> (unit, unit) proc" where
  "add2_send_data x = (case x of
     PyBytes b \<Rightarrow> emp2_send_data b | PyByteArray b \<Rightarrow> emp2_send_data b | _ \<Rightarrow> Fail InvalidArgument)"

definition add2_recv_data :: "pyobj \<Rightarrow> (unit, byte list) proc" where
  "add2_recv_data buf = (case buf of PyByteArray b \<Rightarrow> emp2_recv_data (length b) | _ \<Rightarrow> Fail InvalidArgument)"

section \<open>XOR shares\<close>

text \<open>The vector is copied from the pointer and the length that \<open>_toBytes\<close> gives.\<close>

definition add2_share_element :: "nat \<Rightarrow> byte list \<Rightarrow> pyobj \<Rightarrow> (unit, byte list) proc" where
  "add2_share_element junk mine plain =
     pbind (lift_res (rbind (toBytes junk plain) (\<lambda>(data, len). of_option (ldn (memory_of data) 0 len)))) (shareBytes mine)"

definition add2_share_key :: "byte list \<Rightarrow> pyobj \<Rightarrow> (unit, byte list) proc" where
  "add2_share_key mine key = (case key of
     PyBytes k \<Rightarrow> (if length k \<noteq> 16 then Fail InvalidArgument else shareKey mine k) | _ \<Rightarrow> Fail TypeError)"

definition add2_recv_key_share :: "pyobj \<Rightarrow> (unit, byte list) proc" where
  "add2_recv_key_share buf = (case buf of
     PyByteArray b \<Rightarrow> (if length b \<noteq> 16 then Fail InvalidArgument else pbind recvKey16 (\<lambda>v. Ret (take 16 v)))
   | _ \<Rightarrow> Fail InvalidArgument)"

section \<open>The hash\<close>

text \<open>
  What both parties do together. A \<open>bytes\<close> object ends with a zero byte that is not part of it;
  nothing checks the length of the key. Preimages of different lengths make different circuits, which is
  counted as a fault.
\<close>

definition add2_hash :: "('w, 'u) sh2pc \<Rightarrow> nat \<Rightarrow> nat both \<Rightarrow> pyobj both \<Rightarrow> byte list both \<Rightarrow> u32 both \<Rightarrow> u32 both res" where
  "add2_hash S ell junk my_pt my_key rand =
     rbind (toBytes (junk Alice) (my_pt Alice)) (\<lambda>(pt_a, n_a). rbind (toBytes (junk Bob) (my_pt Bob)) (\<lambda>(pt_b, n_b).
     if n_a \<noteq> n_b then Inl MemFault
     else emp2_hash S ell (\<lambda>p. memory_of (if p = Alice then pt_a else pt_b)) n_a (\<lambda>p. my_key p @ [0]) rand))"

section \<open>Keys longer and shorter than 16 bytes\<close>

lemma emp2_hash_key:
  assumes "\<And>p. 16 \<le> length (ky p)"
  shows "emp2_hash S ell pt n ky rand = emp2_hash S ell pt n (\<lambda>p. take 16 (ky p)) rand"
proof -
  have "bytesToBits (ky p) 16 (replicate 128 False) = bytesToBits (take 16 (ky p)) 16 (replicate 128 False)" for p
    using assms [of p] bytesToBits_eq [of 16 "ky p"] bytesToBits_eq [of 16 "take 16 (ky p)"] by simp
  then show ?thesis by (simp add: emp2_hash_def)
qed

lemma bytesToBits_short:
  assumes "length src < n" "length bits = 8 * n"
  shows "bytesToBits src n bits = Inl MemFault"
proof -
  let ?B = "\<lambda>i bits. rbind (rd src (i div 8)) (\<lambda>x. wr bits i (drop_bit (i mod 8) x AND 1 \<noteq> 0))"
  have "i \<le> 8 * length src \<Longrightarrow> length bs = 8 * n \<Longrightarrow> for_loop i (n * 8) ?B bs = Inl MemFault" for i bs
  proof (induction "8 * length src - i" arbitrary: i bs)
    case 0
    then have "i = 8 * length src" by simp
    then show ?case using assms(1) by (simp add: for_loop_step rd_def)
  next
    case (Suc k)
    then have i: "i < 8 * length src" "i < n * 8" "i div 8 < length src" using assms(1) by (simp_all add: div_less_iff_less_mult)
    show ?case using Suc.hyps(1) [of "Suc i"] Suc.hyps(2) Suc.prems i by (simp add: for_loop_step)
  qed
  then show ?thesis using assms(2) by (simp add: bytesToBits_def)
qed

lemma memory_pair: "(\<lambda>p. memory_of (if p = Alice then Some (f Alice) else Some (f Bob))) = f"
  by (rule ext, rename_tac p, case_tac p) (simp_all add: memory_of_def)

text \<open>The hash of shared bytes under a shared key.\<close>

lemma add2_hash_value:
  assumes S: "sh2pc_ok S ell prp bv uv" "1 \<le> ell" "ell \<le> 31"
    and ps: "length (ps Alice) = n" "length (ps Bob) = n" "0 < n" "n < 2 ^ 60" and ks: "\<And>p. length (ks p) = 16"
  shows "\<exists>s. add2_hash S ell jj (\<lambda>p. PyBytes (ps p)) ks rand = Inr s \<and> (\<forall>p. take_bit ell (s p) = s p) \<and>
    hash_aes_dm prp j j' (PyBytes (xor_bytes (ps Alice) (ps Bob))) (PyBytes (xor_bytes (ks Alice) (ks Bob))) ell =
      Inr (ringAdd32 ell (s Alice) (s Bob))"
proof -
  let ?H = "emp2_hash S ell ps n ks rand" and ?pre = "xor_bytes (ps Alice) (ps Bob)" and ?key = "xor_bytes (ks Alice) (ks Bob)"
  have pre: "?pre \<noteq> []" using ps(1-3) by (auto simp: xor_bytes_def)
  have "add2_hash S ell jj (\<lambda>p. PyBytes (ps p)) ks rand = ?H"
    using emp2_hash_key [of "\<lambda>p. ks p @ [0]" S ell ps n rand] ks ps(1,2)
    by (simp add: add2_hash_def toBytes_def memory_pair)
  moreover obtain s where s: "?H = Inr s" "ringAdd32 ell (s Alice) (s Bob) =
      take_bit ell (ucast (foldl (dm_step (prp (of_le_bytes ?key))) 0 (padded_blocks ?pre)))"
    using emp2_hash_value [where rand = rand and ky = ks, OF S ps(1,2,4) ks ks] pre by auto
  moreover have "hash_aes_dm prp j j' (PyBytes ?pre) (PyBytes ?key) ell =
      Inr (take_bit ell (ucast (foldl (dm_step (prp (of_le_bytes ?key))) 0 (padded_blocks ?pre))))"
    using hash_value [OF S(2,3), of ?key prp ?pre] ks by (auto simp: hash_aes_dm_def toBytes_def)
  moreover have "\<forall>p. take_bit ell (s p) = s p"
    using s(1) by (auto simp: emp2_hash_def Let_def rbind_eq_Inr reshare_out_range)
  ultimately show ?thesis by auto
qed

section \<open>Properties\<close>

text \<open>C13: the two-party hash through the Python class agrees with the local one: whoever shares the preimage and
  the key, once both are shared the results of \<open>hash\<close> add up to what \<open>hash_aes_dm\<close> computes from them, for
  every non-empty preimage.\<close>

theorem python_hash_agrees:
  assumes S: "sh2pc_ok S ell prp bv uv" "1 \<le> ell" "ell \<le> 31" and cap: "0 < cap"
    and len: "length mine = length plain" "0 < length plain" "length plain < 2 ^ 60" "length kmine = 16" "length key = 16"
    and buf: "length buf = 16" and x: "x = PyBytes plain \<or> x = PyStr (Some plain)"
  shows "\<exists>ps ks s. completes pair_peer cap (\<lambda>p. if p = d then add2_share_element j mine x else recvBytes (\<lambda>_. True)) ps \<and>
    completes pair_peer cap (\<lambda>p. if p = e then add2_share_key kmine (PyBytes key) else add2_recv_key_share (PyByteArray buf)) ks \<and>
    add2_hash S ell jj (\<lambda>p. PyBytes (ps p)) ks rand = Inr s \<and>
    Inr (ringAdd32 ell (s Alice) (s Bob)) = hash_aes_dm prp j j' x (PyBytes key) ell"
proof -
  have el: "add2_share_element j mine x = shareBytes mine plain"
    using x by (auto simp: add2_share_element_def toBytes_def memory_of_def ldn_def)
  define ps where "ps = xor_parts d mine plain"
  have ps: "completes pair_peer cap (\<lambda>p. if p = d then shareBytes mine plain else recvBytes (\<lambda>_. True)) ps"
    "xor_bytes (ps Alice) (ps Bob) = plain" "length (ps Alice) = length plain" "length (ps Bob) = length plain"
    using bytes_shared [OF cap len(1), of d] xor_parts_sum [OF len(1), of d] len(3) by (simp_all add: ps_def)
  define ks where "ks = xor_parts e kmine key"
  have kp: "length (ks p) = 16" for p using xor_parts_sum(2) [of kmine key e p] len(4,5) by (simp add: ks_def)
  have ks: "completes pair_peer cap (\<lambda>p. if p = e then shareKey kmine key else pbind recvKey16 (\<lambda>v. Ret (take 16 v))) ks"
    "xor_bytes (ks Alice) (ks Bob) = key"
    using key_shared [OF cap len(4,5), of "\<lambda>v. Ret (take 16 v)" e] xor_parts_sum(1) [of kmine key e] len(4,5)
    by (simp_all add: ks_def)
  have h: "hash_aes_dm prp j j' x (PyBytes key) ell = hash_aes_dm prp j j' (PyBytes plain) (PyBytes key) ell"
    using x by (auto simp: hash_aes_dm_def toBytes_def)
  obtain s where "add2_hash S ell jj (\<lambda>p. PyBytes (ps p)) ks rand = Inr s"
    "hash_aes_dm prp j j' (PyBytes plain) (PyBytes key) ell = Inr (ringAdd32 ell (s Alice) (s Bob))"
    using add2_hash_value [where ps = ps and ks = ks and jj = jj and rand = rand and j = j and j' = j', OF S ps(3,4) len(2,3) kp]
    unfolding ps(2) ks(2) by blast
  then show ?thesis
    using ps(1) ks(1) len(5) buf h
    by (rule_tac exI [of _ ps], rule_tac exI [of _ ks], rule_tac exI [of _ s])
      (simp add: el add2_share_key_def add2_recv_key_share_def cong: if_cong)
qed

theorem python_hash_agrees_witness:
  "\<exists>ps ks s. add2_hash (clear 20 (XOR)) 20 (\<lambda>_. 0) (\<lambda>p. PyBytes (ps p)) ks (\<lambda>_. 3) = Inr s \<and>
    Inr (ringAdd32 20 (s Alice) (s Bob)) = hash_aes_dm (XOR) 0 0 (PyBytes [7, 8]) (PyBytes (replicate 16 9)) 20 \<and>
    completes pair_peer 1 (\<lambda>p. if p = Bob then add2_share_element 0 [1, 2] (PyBytes [7, 8]) else recvBytes (\<lambda>_. True)) ps"
  using python_hash_agrees [OF clear_ok, where ell = 20 and prp = "(XOR)" and cap = 1 and mine = "[1, 2]" and plain = "[7, 8]" and
      kmine = "replicate 16 5" and key = "replicate 16 9" and buf = "replicate 16 0" and x = "PyBytes [7, 8]" and rand = "\<lambda>_. 3" and
      d = Bob and e = Alice and j = 0 and j' = 0 and jj = "\<lambda>_. 0"] by auto

text \<open>\<open>hash\<close> does not check the length of the key: with fewer than 15 bytes it reads memory beyond the
  object (the fifteenth may be missing, a zero byte follows it), of more than 16 bytes it takes the first 16.\<close>

theorem python_hash_key_length:
  assumes "length (pt Alice) = n" "length (pt Bob) = n" "n < 2 ^ 60"
  shows "(length (ky Alice) < 15 \<or> length (ky Bob) < 15 \<longrightarrow> add2_hash S ell junk (\<lambda>p. PyBytes (pt p)) ky rand = Inl MemFault) \<and>
    ((\<forall>p. 16 \<le> length (ky p)) \<longrightarrow>
      add2_hash S ell junk (\<lambda>p. PyBytes (pt p)) ky rand = add2_hash S ell junk (\<lambda>p. PyBytes (pt p)) (\<lambda>p. take 16 (ky p)) rand)"
proof -
  have h: "add2_hash S ell junk (\<lambda>p. PyBytes (pt p)) k rand = emp2_hash S ell pt n (\<lambda>p. k p @ [0]) rand" for k
    using assms(1,2) by (simp add: add2_hash_def toBytes_def memory_pair)
  have pts: "\<exists>bs. pt_bits (pt p) n = Inr bs" for p
    using pt_bits_eq [of "pt p"] assms by (cases p) auto
  have short: "emp2_hash S ell pt n (\<lambda>p. ky p @ [0]) rand = Inl MemFault" if "length (ky Alice) < 15 \<or> length (ky Bob) < 15"
  proof -
    obtain a b where ab: "pt_bits (pt Alice) n = Inr a" "pt_bits (pt Bob) n = Inr b" using pts by blast
    have f: "bytesToBits (ky p @ [0]) 16 (replicate 128 False) = Inl MemFault" if "length (ky p) < 15" for p
      by (rule bytesToBits_short) (use that in simp_all)
    have "bytesToBits (ky Alice @ [0]) 16 (replicate 128 False) = Inl MemFault \<or>
        (\<exists>x. bytesToBits (ky Alice @ [0]) 16 (replicate 128 False) = Inr x)"
      using f [of Alice] bytesToBits_eq [of 16 "ky Alice @ [0]"] by (cases "length (ky Alice) < 15") auto
    then show ?thesis using that f ab bytesToBits_eq [of 16 "ky Alice @ [0]"]
      by (cases "length (ky Alice) < 15") (auto simp: emp2_hash_def)
  qed
  moreover have "emp2_hash S ell pt n (\<lambda>p. ky p @ [0]) rand = emp2_hash S ell pt n (\<lambda>p. take 16 (ky p) @ [0]) rand"
    if l: "\<And>p. 16 \<le> length (ky p)"
    using le_trans [OF _ l, of 15] l emp2_hash_key [of "\<lambda>p. ky p @ [0]" S ell pt n rand] emp2_hash_key [of "\<lambda>p. take 16 (ky p) @ [0]" S ell pt n rand]
    by simp
  ultimately show ?thesis by (simp add: h)
qed

theorem python_hash_key_length_witness:
  "add2_hash (clear 20 (XOR)) 20 (\<lambda>_. 0) (\<lambda>_. PyBytes [1]) (\<lambda>_. [5, 5, 5]) (\<lambda>_. 0) = Inl MemFault"
  using python_hash_key_length [of "\<lambda>_. [1]" 1 "\<lambda>_. [5, 5, 5]" "clear 20 (XOR)" 20 "\<lambda>_. 0" "\<lambda>_. 0"] by simp

end
