(* ===== verification/Aby3_Bind.thy ===== *)
theory Aby3_Bind
  imports Bind_Common Aby3_Conv Aby3_Vec_Theorems
begin

text \<open>
  The Python class of replicated sharing (\<^verbatim>\<open>src/bind/aby3_bind.cpp\<close>): the wrapper \<open>Rss3T\<close> around an
  \<open>Aby3\<close> object, the class of share vectors and the factories. Methods that only forward are the
  operations of \<open>Aby3\<close> themselves. Objects live in the store of their party; the buffer arguments the
  wrappers ignore are left out.
\<close>

section \<open>Classes\<close>

definition Rss3Party :: "int \<Rightarrow> pid" where
  "Rss3Party P = (if P = 0 then P0 else if P = 1 then P1 else P2)"

definition py_ShrRep3 :: "nat \<Rightarrow> int \<Rightarrow> (nat \<times> pid) res" where
  "py_ShrRep3 ell party =
     (if outside RSS3_ELL ell then Inl InvalidArgument
      else if party < 0 \<or> party > 2 then Inl InvalidArgument
      else Inr (ell, Rss3Party party))"

definition py_ShrRep3ShareVec :: "nat \<Rightarrow> nat res" where
  "py_ShrRep3ShareVec ell = (if outside RSS3_ELL ell then Inl InvalidArgument else Inr ell)"

section \<open>Share vectors\<close>

text \<open>\<open>ShareVecType(n)\<close> and its assignment to an object: the members of the temporary are moved.\<close>

definition share_vec_new :: "heap \<Rightarrow> heap \<Rightarrow> nat \<Rightarrow> nat \<Rightarrow> (rvec \<times> rvec) res" where
  "share_vec_new heap0 heap1 ell n =
     rbind (rv_new ell heap0 n) (\<lambda>v. rbind (rv_new ell heap1 n) (\<lambda>w. Inr (v, w)))"

definition share_vec_assign :: "ShrRep3ShareVec \<Rightarrow> rvec \<times> rvec \<Rightarrow> store \<Rightarrow> store" where
  "share_vec_assign sv x st = st(thisShare sv := fst (rv_move (fst x)), nxtShare sv := fst (rv_move (snd x)))"

definition sv_size :: "ShrRep3ShareVec \<Rightarrow> store \<Rightarrow> nat" where
  "sv_size sv st = rv_size (st (thisShare sv))"

definition set_this_share :: "nat \<Rightarrow> heap \<Rightarrow> ShrRep3ShareVec \<Rightarrow> nat \<Rightarrow> store \<Rightarrow> store res" where
  "set_this_share ell heap sv v st =
     (if rv_size (st v) \<noteq> rv_size (st (nxtShare sv)) then Inl InvalidArgument
      else rv_copy_assign ell heap (thisShare sv) v st)"

definition set_nxt_share :: "nat \<Rightarrow> heap \<Rightarrow> ShrRep3ShareVec \<Rightarrow> nat \<Rightarrow> store \<Rightarrow> store res" where
  "set_nxt_share ell heap sv v st =
     (if rv_size (st v) \<noteq> rv_size (st (thisShare sv)) then Inl InvalidArgument
      else rv_copy_assign ell heap (nxtShare sv) v st)"

section \<open>Sharing\<close>

text \<open>A new pair of vectors of the wanted length, if the output has another.\<close>

definition fit_output :: "heap \<Rightarrow> heap \<Rightarrow> nat \<Rightarrow> ShrRep3ShareVec \<Rightarrow> nat \<Rightarrow> store \<Rightarrow> store res" where
  "fit_output heap0 heap1 ell sv n st =
     (if sv_size sv st \<noteq> n then rbind (share_vec_new heap0 heap1 ell n) (\<lambda>x. Inr (share_vec_assign sv x st))
      else Inr st)"

definition rss_share_vec :: "ccrh \<Rightarrow> heap \<Rightarrow> heap \<Rightarrow> nat \<Rightarrow> nat \<Rightarrow> ShrRep3ShareVec \<Rightarrow> store \<Rightarrow> aby3 \<Rightarrow> store party" where
  "rss_share_vec ccrh heap0 heap1 ell vec sv st a =
     pbind (lift_res (fit_output heap0 heap1 ell sv (rv_size (st vec)) st)) (\<lambda>st. share_vec ccrh ell vec sv st a)"

definition rss_recv_share_vec :: "ccrh \<Rightarrow> nat \<Rightarrow> ShrRep3ShareVec \<Rightarrow> store \<Rightarrow> aby3 \<Rightarrow> store party" where
  "rss_recv_share_vec ccrh ell sv st a =
     (if sv_size sv st = 0 then Fail InvalidArgument else recvShare_vec ccrh ell sv st a)"

definition rss_reshare_vec :: "heap \<Rightarrow> nat \<Rightarrow> nat \<Rightarrow> ShrRep3ShareVec \<Rightarrow> store \<Rightarrow> aby3 \<Rightarrow> store party" where
  "rss_reshare_vec heap ell vec sv st a =
     (if vec = thisShare sv then Fail InvalidArgument
      else if sv_size sv st = 0 then Fail InvalidArgument
      else reshare_vec heap ell vec sv st a)"

section \<open>Messages\<close>

text \<open>The \<open>switch\<close> over the other parties; \<open>PID\<close> is the own one.\<close>

definition other_party :: "pid \<Rightarrow> int \<Rightarrow> pid res" where
  "other_party PID p =
     (if p = 0 then (if PID \<noteq> P0 then Inr P0 else Inl InvalidArgument)
      else if p = 1 then (if PID \<noteq> P1 then Inr P1 else Inl InvalidArgument)
      else if p = 2 then (if PID \<noteq> P2 then Inr P2 else Inl InvalidArgument)
      else Inl InvalidArgument)"

definition rss_send :: "pid \<Rightarrow> int \<Rightarrow> byte \<Rightarrow> (side, unit) proc" where
  "rss_send PID to val = pbind (lift_res (other_party PID to)) (\<lambda>q. send_scalar PID q val)"

definition rss_recv :: "pid \<Rightarrow> int \<Rightarrow> (side, byte) proc" where
  "rss_recv PID frm = pbind (lift_res (other_party PID frm)) (recv_scalar PID)"

definition rss_send_bytes :: "pid \<Rightarrow> int \<Rightarrow> pyobj \<Rightarrow> (side, unit) proc" where
  "rss_send_bytes PID to data =
     pbind (lift_res (getByteBuffer data)) (\<lambda>bs.
     if to < 0 \<or> to > 2 \<or> Rss3Party to = PID then Fail InvalidArgument else send_to PID (Rss3Party to) bs)"

definition rss_recv_bytes :: "pid \<Rightarrow> int \<Rightarrow> pyobj \<Rightarrow> (side, byte list) proc" where
  "rss_recv_bytes PID frm buf =
     pbind (lift_res (getWritableByteBuffer buf)) (\<lambda>bs.
     if frm < 0 \<or> frm > 2 \<or> Rss3Party frm = PID then Fail InvalidArgument
     else recv_from PID (Rss3Party frm) (length bs))"

section \<open>Products and conversion\<close>

text \<open>The object is identified by its first member.\<close>

definition rss_hadamard_vec :: "ccrh \<Rightarrow> heap \<Rightarrow> heap \<Rightarrow> nat \<Rightarrow> ShrRep3ShareVec \<Rightarrow> ShrRep3ShareVec \<Rightarrow> ShrRep3ShareVec \<Rightarrow>
    store \<Rightarrow> aby3 \<Rightarrow> store party" where
  "rss_hadamard_vec ccrh heap0 heap1 ell sv1 sv2 out st a =
     (if thisShare out = thisShare sv1 \<or> thisShare out = thisShare sv2 then Fail InvalidArgument
      else pbind (lift_res (fit_output heap0 heap1 ell out (sv_size sv1 st) st)) (\<lambda>st. hadamard ccrh ell sv1 sv2 out st a))"

definition rss_ring_conv :: "ccrh \<Rightarrow> pid \<Rightarrow> ShrRep3ShareScalar \<Rightarrow> nat \<Rightarrow> aby3 \<Rightarrow> ShrRep3ShareScalar party" where
  "rss_ring_conv ccrh PID ss ell_to a =
     (if ell_to \<in> {2, 3, 4, 5, 6} then ringConv ccrh ell_to PID ss a else Fail InvalidArgument)"

text \<open>\<open>ell_out\<close> is the width of the output object, or \<open>None\<close> if it is no share vector.\<close>

definition rss_ring_conv_vec :: "ccrh \<Rightarrow> heap \<Rightarrow> heap \<Rightarrow> pid \<Rightarrow> ShrRep3ShareVec \<Rightarrow> nat option \<Rightarrow> ShrRep3ShareVec \<Rightarrow> nat \<Rightarrow>
    store \<Rightarrow> store \<Rightarrow> aby3 \<Rightarrow> store party" where
  "rss_ring_conv_vec ccrh heap_p heap_t PID sv ell_out out ell_to bits st a =
     (if ell_to \<in> {2, 3, 4, 5, 6}
      then if ell_out \<noteq> Some ell_to then Fail CastError
        else ringConv_vec ccrh heap_p heap_t ell_to PID sv out bits st a
      else Fail InvalidArgument)"

section \<open>Facts\<close>

definition fitted :: "nat \<Rightarrow> ShrRep3ShareVec \<Rightarrow> nat \<Rightarrow> store \<Rightarrow> bool" where
  "fitted ell sv n st \<longleftrightarrow> (\<forall>r \<in> {thisShare sv, nxtShare sv}. rv_ok ell (st r) \<and> n_elems (st r) = n)"

lemma fit_output_ok:
  assumes n: "1 \<le> ell" "ell \<le> 8" "n + 63 < 2 ^ 64" and heap: "\<forall>k. heap0 k \<noteq> None" "\<forall>k. heap1 k \<noteq> None"
    and ne: "thisShare sv \<noteq> nxtShare sv" and at: "sv_size sv st = n \<Longrightarrow> fitted ell sv n st"
  shows "\<exists>st'. fit_output heap0 heap1 ell sv n st = Inr st' \<and> fitted ell sv n st' \<and>
    (\<forall>r. r \<noteq> thisShare sv \<longrightarrow> r \<noteq> nxtShare sv \<longrightarrow> st' r = st r)"
proof (cases "sv_size sv st = n")
  case True
  then show ?thesis using at [OF True] by (simp add: fit_output_def)
next
  case False
  obtain v w where "rv_new ell heap0 n = Inr v" "rv_ok ell v" "n_elems v = n" "rv_new ell heap1 n = Inr w" "rv_ok ell w" "n_elems w = n"
    using rv_new_heap [OF n heap(1)] rv_new_heap [OF n heap(2)] by blast
  then show ?thesis using False ne
    by (intro exI [of _ "share_vec_assign sv (v, w) st"])
      (auto simp: fit_output_def share_vec_new_def share_vec_assign_def rv_move_def fitted_def)
qed

lemma fitted_at:
  "fitted ell sv n st \<Longrightarrow> vec_at ell st (thisShare sv) (elems ell (st (thisShare sv)))"
  "fitted ell sv n st \<Longrightarrow> vec_at ell st (nxtShare sv) (elems ell (st (nxtShare sv)))"
  "fitted ell sv n st \<Longrightarrow> length (elems ell (st (thisShare sv))) = n"
  "fitted ell sv n st \<Longrightarrow> length (elems ell (st (nxtShare sv))) = n"
  by (simp_all add: fitted_def vec_at_def)

lemma python_share_runs:
  assumes cap: "0 < cap" and A: "synced ccrh A" and V: "\<And>p. thisShare (V p) \<noteq> nxtShare (V p)"
    and vec: "vec \<noteq> thisShare (V dealer)" "vec \<noteq> nxtShare (V dealer)" "vec_at ell (St dealer) vec xs" "xs \<noteq> []"
    and heap: "\<forall>k. heap0 k \<noteq> None" "\<forall>k. heap1 k \<noteq> None"
    and at: "\<And>p. p \<noteq> dealer \<or> sv_size (V p) (St p) = length xs \<Longrightarrow> fitted ell (V p) (length xs) (St p)"
  shows "\<exists>St' A'. ends_with cap (\<lambda>p. if p = dealer then rss_share_vec ccrh heap0 heap1 ell vec (V p) (St p) (A p)
      else rss_recv_share_vec ccrh ell (V p) (St p) (A p)) (\<lambda>p. (St' p, A' p)) \<and> synced ccrh A' \<and> rep3_vec ell St' V xs"
proof -
  have n: "1 \<le> ell" "ell \<le> 8" "length xs + 63 < 2 ^ 64"
    using vec_at_ell [OF vec(3)] vec_at_length [OF vec(3)] vec(3) by (auto simp: vec_at_def rv_ok_def)
  have "sv_size (V dealer) (St dealer) = length xs \<Longrightarrow> fitted ell (V dealer) (length xs) (St dealer)" using at [of dealer] by simp
  from fit_output_ok [OF n heap V this]
  obtain st where st: "fit_output heap0 heap1 ell (V dealer) (length xs) (St dealer) = Inr st" "fitted ell (V dealer) (length xs) st"
    "\<And>r. r \<noteq> thisShare (V dealer) \<Longrightarrow> r \<noteq> nxtShare (V dealer) \<Longrightarrow> st r = St dealer r" by blast
  define St1 where "St1 = St(dealer := st)"
  have fit: "fitted ell (V p) (length xs) (St1 p)" for p using st(2) at [of p] by (simp add: St1_def)
  have size0: "sv_size (V p) (St p) \<noteq> 0" if "p \<noteq> dealer" for p
    using at [of p] that vec(4) by (simp add: fitted_def sv_size_def rv_size_def)
  have eq: "(\<lambda>p. if p = dealer then rss_share_vec ccrh heap0 heap1 ell vec (V p) (St p) (A p)
        else rss_recv_share_vec ccrh ell (V p) (St p) (A p)) =
      (\<lambda>p. if p = dealer then share_vec ccrh ell vec (V p) (St1 p) (A p) else recvShare_vec ccrh ell (V p) (St1 p) (A p))"
    using st(1) vec_at_length [OF vec(3)]
    by (intro ext) (auto simp: rss_share_vec_def rss_recv_share_vec_def St1_def rv_size_def dest: size0)
  have at1: "vec_at ell (St1 dealer) vec xs" using st(3) vec(1-3) by (simp add: St1_def vec_at_def)
  show ?thesis unfolding eq
    by (rule share_vec_local [where z = "\<lambda>p. elems ell (St1 p (thisShare (V p)))" and
        u = "\<lambda>p. elems ell (St1 p (nxtShare (V p)))"])
      (rule A V vec(1) at1 cap fitted_at(1) [OF fit] fitted_at(2) [OF fit] fitted_at(3) [OF fit] fitted_at(4) [OF fit])+
qed

section \<open>Properties\<close>

text \<open>Sharing through the Python class: the dealer's output may have any length, it is replaced by one
  that fits; every schedule ends with a replicated sharing of the dealer's elements.\<close>

theorem python_share:
  assumes cap: "0 < cap" and A: "synced ccrh A" and V: "\<And>p. thisShare (V p) \<noteq> nxtShare (V p)"
    and vec: "vec \<noteq> thisShare (V dealer)" "vec \<noteq> nxtShare (V dealer)" "vec_at ell (St dealer) vec xs" "xs \<noteq> []"
    and heap: "\<forall>k. heap0 k \<noteq> None" "\<forall>k. heap1 k \<noteq> None"
    and at: "\<And>p. p \<noteq> dealer \<or> sv_size (V p) (St p) = length xs \<Longrightarrow> fitted ell (V p) (length xs) (St p)"
  shows "\<exists>St' A'. completes ring_peer cap (\<lambda>p. if p = dealer then rss_share_vec ccrh heap0 heap1 ell vec (V p) (St p) (A p)
      else rss_recv_share_vec ccrh ell (V p) (St p) (A p)) (\<lambda>p. (St' p, A' p)) \<and> synced ccrh A' \<and> rep3_vec ell St' V xs"
  by (rule every_schedule, rule python_share_runs [where V = V and St = St and A = A, OF assms])

text \<open>C29: the product through the Python class: whatever the length of the output object, every schedule ends with a
  sharing of the products; an output object that is the first or the second input is refused before anything is
  changed or sent.\<close>

theorem python_hadamard:
  assumes cap: "0 < cap" and A: "synced ccrh A"
    and ap: "\<And>p. apart (V p) (U p)" "\<And>p. apart (V p) (W p)" "\<And>p. thisShare (V p) \<noteq> nxtShare (V p)"
    and in1: "rep3_vec ell St U xs" and in2: "rep3_vec ell St W ys" "length ys = length xs"
    and heap: "\<forall>k. heap0 k \<noteq> None" "\<forall>k. heap1 k \<noteq> None"
    and at: "\<And>p. sv_size (V p) (St p) = length xs \<Longrightarrow> fitted ell (V p) (length xs) (St p)"
  shows "(\<exists>St' A'. completes ring_peer cap (\<lambda>p. rss_hadamard_vec ccrh heap0 heap1 ell (U p) (W p) (V p) (St p) (A p)) (\<lambda>p. (St' p, A' p)) \<and>
      synced ccrh A' \<and> rep3_vec ell St' V (map2 (ringMul8 ell) xs ys)) \<and>
    rss_hadamard_vec ccrh heap0 heap1 ell v w v st a = Fail InvalidArgument \<and>
    rss_hadamard_vec ccrh heap0 heap1 ell w v v st a = Fail InvalidArgument"
proof -
  obtain s where s: "vsharing ell St U s" "sums_to ell s xs" using in1 unfolding rep3_vec_def by blast
  have len: "sv_size (U p) (St p) = length xs" for p
    using s vec_at_length [of ell "St p" "thisShare (U p)" "s p"] by (simp add: vsharing_def sums_to_def sv_size_def rv_size_def)
  have u0: "vec_at ell (St P0) (thisShare (U P0)) (s P0)" using s(1) by (simp add: vsharing_def)
  then have n: "1 \<le> ell" "ell \<le> 8" "length xs + 63 < 2 ^ 64"
    using vec_at_ell [OF u0] vec_at_length [OF u0] s(2) by (auto simp: vec_at_def rv_ok_def sums_to_def)
  have "\<forall>p. \<exists>st'. fit_output heap0 heap1 ell (V p) (length xs) (St p) = Inr st' \<and> fitted ell (V p) (length xs) st' \<and>
      (\<forall>r. r \<noteq> thisShare (V p) \<longrightarrow> r \<noteq> nxtShare (V p) \<longrightarrow> st' r = St p r)"
    by (intro allI, rule fit_output_ok [OF n heap ap(3)]) (rule at)
  from choice [OF this] obtain S1 where S1: "\<And>p. fit_output heap0 heap1 ell (V p) (length xs) (St p) = Inr (S1 p)"
    "\<And>p. fitted ell (V p) (length xs) (S1 p)"
    "\<And>p r. r \<noteq> thisShare (V p) \<Longrightarrow> r \<noteq> nxtShare (V p) \<Longrightarrow> S1 p r = St p r" by blast
  have keep: "rep3_vec ell S1 X as" if "rep3_vec ell St X as" "\<And>p. apart (V p) (X p)" for X as
  proof -
    have "S1 p (thisShare (X p)) = St p (thisShare (X p))" "S1 p (nxtShare (X p)) = St p (nxtShare (X p))" for p
      using that(2) [of p] S1(3) by (auto simp: apart_def)
    then show ?thesis using that(1) by (simp add: rep3_vec_def vsharing_def vec_at_def)
  qed
  have eq: "(\<lambda>p. rss_hadamard_vec ccrh heap0 heap1 ell (U p) (W p) (V p) (St p) (A p)) =
      (\<lambda>p. hadamard ccrh ell (U p) (W p) (V p) (S1 p) (A p))"
    using ap by (intro ext) (simp add: rss_hadamard_vec_def len S1(1) apart_def)
  have "\<exists>St' A'. completes ring_peer cap (\<lambda>p. hadamard ccrh ell (U p) (W p) (V p) (S1 p) (A p)) (\<lambda>p. (St' p, A' p)) \<and>
      synced ccrh A' \<and> rep3_vec ell St' V (map2 (ringMul8 ell) xs ys)"
    by (rule every_schedule, rule hadamard_ok [where ?o0.0 = "\<lambda>p. elems ell (S1 p (thisShare (V p)))" and
        ?o1.0 = "\<lambda>p. elems ell (S1 p (nxtShare (V p)))"])
      (rule cap A ap keep [OF in1 ap(1)] keep [OF in2(1) ap(2)] in2(2)
        fitted_at(1) [OF S1(2)] fitted_at(2) [OF S1(2)] fitted_at(3) [OF S1(2)] fitted_at(4) [OF S1(2)])+
  then show ?thesis unfolding eq by (simp add: rss_hadamard_vec_def)
qed

text \<open>A value sent to another party arrives there in every schedule, whichever two of the three they
  are; a message to oneself or to a party that does not exist is refused, for raw bytes too.\<close>

definition party_no :: "pid \<Rightarrow> int" where
  "party_no p = (case p of P0 \<Rightarrow> 0 | P1 \<Rightarrow> 1 | P2 \<Rightarrow> 2)"

theorem python_message:
  assumes "0 < cap" "p \<noteq> q"
  shows "completes ring_peer cap (\<lambda>r. if r = p then pbind (rss_send p (party_no q) val) (\<lambda>_. Ret val)
      else if r = q then rss_recv q (party_no p) else Ret val) (\<lambda>_. val) \<and>
    (k \<notin> {0, 1, 2} \<or> k = party_no p \<longrightarrow> rss_send p k val = Fail InvalidArgument \<and> rss_recv p k = Fail InvalidArgument \<and>
      rss_send_bytes p k (PyBytes bs) = Fail InvalidArgument \<and> rss_recv_bytes p k (PyByteArray bs) = Fail InvalidArgument)"
proof (intro conjI impI)
  let ?P = "\<lambda>r. if r = p then pbind (rss_send p (party_no q) val) (\<lambda>_. Ret val) else if r = q then rss_recv q (party_no p) else Ret val"
  let ?s = "if q = PREV p then Prev else Next" and ?t = "if p = PREV q then Prev else Next" and ?e = "\<lambda>_. []"
  have o: "other_party p (party_no q) = Inr q" "other_party q (party_no p) = Inr p"
    using assms(2) by (cases p; cases q; simp add: other_party_def party_no_def)+
  have peer: "ring_peer (p, ?s) = (q, ?t)" using assms(2) by (cases p; cases q) (simp_all add: ring_peer_def)
  have "reaches ring_peer cap (state ?P ?e ?e) (state (?P(p := Ret val, q := Ret (hd [val]))) ?e ?e)"
    by (rule message_reaches [where s = ?s and s' = ?t and bs = "[val]" and K = "\<lambda>_. Ret val" and K' = "\<lambda>bs. Ret (hd bs)"])
      (use assms peer in \<open>simp_all add: rss_send_def rss_recv_def o send_scalar_def send_to_def recv_scalar_def recv_from_def pbind_assoc Let_def\<close>)
  moreover have "?P(p := Ret val, q := Ret (hd [val])) = (\<lambda>_. Ret val)" by (rule ext) simp
  ultimately have "runs ring_peer cap ?P (\<lambda>_. Ret val)" by (simp only: runs_def quiet_state)
  then show "completes ring_peer cap ?P (\<lambda>_. val)" by (rule ring3.runs_completes)
qed (cases p; auto simp: rss_send_def rss_recv_def rss_send_bytes_def rss_recv_bytes_def other_party_def party_no_def
  Rss3Party_def getByteBuffer_def getWritableByteBuffer_def)+

theorem python_message_witness:
  "completes ring_peer 1 (\<lambda>r. if r = P2 then pbind (rss_send P2 0 77) (\<lambda>_. Ret 77) else if r = P0 then rss_recv P0 2 else Ret 77) (\<lambda>_. 77) \<and>
    rss_send P2 2 77 = Fail InvalidArgument \<and> rss_send P2 3 77 = Fail InvalidArgument"
  using python_message [of 1 P2 P0 77 2 "[]"] python_message [of 1 P2 P0 77 3 "[]"]
  by (simp add: party_no_def cong: if_cong)

text \<open>The members of a share vector keep equal lengths: a new object has them, and either setter
  replaces its member by a copy exactly if the length fits.\<close>

theorem share_vector_sizes:
  assumes "fitted ell sv n st" "thisShare sv \<noteq> nxtShare sv" "rv_ok ell (st v)" "v \<noteq> thisShare sv" "v \<noteq> nxtShare sv"
    and "\<forall>k. heap k \<noteq> None"
  shows "(if rv_size (st v) = n
      then \<exists>st1 st2. set_this_share ell heap sv v st = Inr st1 \<and> fitted ell sv n st1 \<and>
          elems ell (st1 (thisShare sv)) = elems ell (st v) \<and> st1 (nxtShare sv) = st (nxtShare sv) \<and>
        set_nxt_share ell heap sv v st = Inr st2 \<and> fitted ell sv n st2 \<and>
          elems ell (st2 (nxtShare sv)) = elems ell (st v) \<and> st2 (thisShare sv) = st (thisShare sv)
      else set_this_share ell heap sv v st = Inl InvalidArgument \<and> set_nxt_share ell heap sv v st = Inl InvalidArgument)"
  using assms(1-5) rv_copy_ok [OF assms(3,6)]
  by (auto simp: set_this_share_def set_nxt_share_def fitted_def rv_size_def rv_copy_assign_def rv_move_def)

text \<open>C37: the wrapper of \<open>reshare\<close> checks that the output is not empty but not that the argument has its
  length: a shorter one is read beyond its end.\<close>

theorem python_reshare_overread:
  assumes "fitted ell sv n st" "vec \<noteq> thisShare sv" "thisShare sv \<noteq> nxtShare sv" "rv_ok ell (st vec)" "\<forall>k. heap k \<noteq> None"
    and "0 < n" "length (rv_bytes ell (st vec)) < bytesSize ell (st (nxtShare sv))"
  shows "rss_reshare_vec heap ell vec sv st a = Fail MemFault"
  using assms rv_copy_ok [OF assms(4,5)]
  by (auto simp: rss_reshare_vec_def fitted_def sv_size_def rv_size_def reshare_vec_def rv_copy_assign_def rv_move_def pass_on_vec_def
    ring_data_def reshare_ring_def)

section \<open>Instances\<close>

text \<open>The output object of \<open>P1\<close> is empty, those of the others have length 2.\<close>

definition v56 :: ShrRep3ShareVec where "v56 = \<lparr>thisShare = 5, nxtShare = 6\<rparr>"

definition uneven :: "pid \<Rightarrow> store" where
  "uneven p = (if p = P1 then (cells p)(5 := bytes_vec [], 6 := bytes_vec []) else cells p)"

lemma uneven_simps [simp]:
  "thisShare v56 = 5" "nxtShare v56 = 6" "r \<noteq> 5 \<Longrightarrow> r \<noteq> 6 \<Longrightarrow> uneven p r = cells p r" "uneven P1 5 = bytes_vec []"
  "p \<noteq> P1 \<Longrightarrow> uneven p = cells p" "2 \<le> r \<Longrightarrow> cells p r = bytes_vec [7, 9]" "n_elems (bytes_vec xs) = length xs"
  by (simp_all add: v56_def uneven_def cells_def Let_def bytes_vec_def)

lemma uneven_fitted: "p \<noteq> P1 \<or> sv_size v56 (uneven p) = 2 \<Longrightarrow> fitted 8 v56 2 (uneven p)"
  by (cases "p = P1") (simp_all add: fitted_def bytes_vec sv_size_def rv_size_def)

lemma uneven_refit: "sv_size v56 (uneven p) = Suc (Suc 0) \<Longrightarrow> fitted 8 v56 (Suc (Suc 0)) (uneven p)"
  using uneven_fitted [of p] by (simp add: numeral_2_eq_2)

theorem python_share_witness:
  "\<exists>St' A'. completes ring_peer 1 (\<lambda>p. if p = P1 then rss_share_vec (XOR) (\<lambda>_. Some (\<lambda>_. 0)) (\<lambda>_. Some (\<lambda>_. 0)) 8 4 v56 (uneven p) (fresh p)
      else rss_recv_share_vec (XOR) 8 v56 (uneven p) (fresh p)) (\<lambda>p. (St' p, A' p)) \<and> synced (XOR) A' \<and> rep3_vec 8 St' (\<lambda>_. v56) [7, 9]"
  by (rule python_share [where V = "\<lambda>_. v56", OF _ fresh_synced])
    (use uneven_fitted cells_at [of 4] in \<open>simp_all add: vec_at_def eval_nat_numeral\<close>)

theorem python_hadamard_witness:
  "(\<exists>St' A'. completes ring_peer 1 (\<lambda>p. rss_hadamard_vec (XOR) (\<lambda>_. Some (\<lambda>_. 0)) (\<lambda>_. Some (\<lambda>_. 0)) 8 v01 v01 v56 (uneven p) (fresh p))
      (\<lambda>p. (St' p, A' p)) \<and> synced (XOR) A' \<and> rep3_vec 8 St' (\<lambda>_. v56) (map2 (ringMul8 8) [254, 12] [254, 12])) \<and>
    rss_hadamard_vec (XOR) (\<lambda>_. Some (\<lambda>_. 0)) (\<lambda>_. Some (\<lambda>_. 0)) 8 v56 v01 v56 (uneven P0) (fresh P0) = Fail InvalidArgument \<and>
    rss_hadamard_vec (XOR) (\<lambda>_. Some (\<lambda>_. 0)) (\<lambda>_. Some (\<lambda>_. 0)) 8 v01 v56 v56 (uneven P0) (fresh P0) = Fail InvalidArgument"
proof -
  have u: "rep3_vec 8 uneven (\<lambda>_. v01) [254, 12]"
    using cells_sharing by (simp add: rep3_vec_def vsharing_def vec_at_def)
  show ?thesis
    by (rule python_hadamard [where V = "\<lambda>_. v56", OF _ fresh_synced _ _ _ u u])
      (simp_all add: apart_def uneven_refit)
qed

theorem share_vector_sizes_witness:
  "set_this_share 8 (\<lambda>_. Some (\<lambda>_. 0)) v23 0 (\<lambda>r. bytes_vec (if r = 0 then [1] else [1, 2])) = Inl InvalidArgument \<and>
    (\<exists>st. set_nxt_share 8 (\<lambda>_. Some (\<lambda>_. 0)) v23 4 (\<lambda>r. bytes_vec (if r = 0 then [1] else [1, 2])) = Inr st \<and> elems 8 (st 3) = [1, 2])"
proof -
  let ?st = "\<lambda>r :: nat. bytes_vec (if r = 0 then [1] else [1, 2])"
  have "fitted 8 v23 2 ?st" "rv_ok 8 (?st 0)" "rv_ok 8 (?st 4)" by (simp_all add: fitted_def bytes_vec)
  then show ?thesis
    using share_vector_sizes [of 8 v23 2 ?st 0 "\<lambda>_. Some (\<lambda>_. 0)"] share_vector_sizes [of 8 v23 2 ?st 4 "\<lambda>_. Some (\<lambda>_. 0)"]
    by (auto simp: rv_size_def bytes_vec)
qed

theorem python_reshare_overread_witness:
  "rss_reshare_vec (\<lambda>_. Some (\<lambda>_. 0)) 8 4 v23 (\<lambda>r. bytes_vec (if r = 4 then [1] else [1, 2])) (fresh P0) = Fail MemFault"
  by (rule python_reshare_overread [of 8 v23 2])
    (simp_all add: bytes_vec fitted_def, simp add: bytes_vec_def rv_bytes_def bytesSize_def sizeof_word_def usz_def)

end
