(* ===== verification/Rvector_Rand.thy ===== *)
theory Rvector_Rand
  imports Rvector_Pack
begin

text \<open>
  \<open>randFill\<close> of \<^verbatim>\<open>include/rvector.hpp\<close>: a vector filled from the hash of a counter. \<open>H\<close> is the
  hash \<^verbatim>\<open>emp::CCRH\<close> under the key that is drawn for the call.
\<close>

section \<open>The code\<close>

definition rand_raw :: "(block \<Rightarrow> block) \<Rightarrow> u64 \<Rightarrow> byte list" where
  "rand_raw H ctr = concat (map (\<lambda>k. le_bytes 16 (H (ucast (ctr + of_nat k)))) [0..<4])"

text \<open>The loop over whole groups of four blocks; the offsets stay below the size of an allocation.\<close>

function rand_groups :: "(block \<Rightarrow> block) \<Rightarrow> nat \<Rightarrow> u64 \<Rightarrow> nat \<Rightarrow> byte list \<Rightarrow> (byte list \<times> u64 \<times> nat) res" where
  "rand_groups H tot ctr offset dst =
     (if offset + 64 \<le> tot
      then rbind (of_option (stn dst offset (rand_raw H ctr))) (rand_groups H tot (ctr + 4) (offset + 64))
      else Inr (dst, ctr, offset))"
  by pat_completeness auto
termination by (relation "measure (\<lambda>(H, tot, ctr, offset, dst). tot - offset)") auto

declare rand_groups.simps [simp del]

definition rand_bytes :: "(block \<Rightarrow> block) \<Rightarrow> nat \<Rightarrow> byte list \<Rightarrow> byte list res" where
  "rand_bytes H tot dst =
     rbind (rand_groups H tot 0 0 dst) (\<lambda>(dst, ctr, offset).
     if offset < tot then of_option (stn dst offset (take (tot - offset) (rand_raw H ctr))) else Inr dst)"

definition randFill :: "(block \<Rightarrow> block) \<Rightarrow> nat \<Rightarrow> rvec \<Rightarrow> rvec res" where
  "randFill H ell v =
     (if n_elems v = 0 then Inr v
      else rbind (rand_bytes H (usz (n_words v * sizeof_word ell)) (rv_bytes ell v)) (\<lambda>bs.
        let v = set_bytes ell v bs in
        if ell \<noteq> 8 \<and> ell \<noteq> 1 then mask_bytes ell v
        else if ell = 1 then maskPartialLastWord ell v
        else Inr v))"

section \<open>The stream\<close>

definition rand_stream :: "(block \<Rightarrow> block) \<Rightarrow> nat \<Rightarrow> byte list" where
  "rand_stream H n = concat (map (\<lambda>i. le_bytes 16 (H (ucast (of_nat i :: u64)))) [0..<n])"

lemma length_rand_stream [simp]: "length (rand_stream H n) = 16 * n"
  by (induction n) (simp_all add: rand_stream_def)

lemma length_rand_raw [simp]: "length (rand_raw H ctr) = 64"
  by (simp add: rand_raw_def length_concat o_def sum_list_triv)

lemma rand_stream_4: "rand_stream H (4 * j) @ rand_raw H (of_nat (4 * j)) = rand_stream H (4 * Suc j)"
proof -
  have "[0..<4 * j + 4] = [0..<4 * j] @ [4 * j..<4 * j + 4]" by (rule upt_add_eq_append) simp
  moreover have "[4 * j..<4 * j + 4] = map (\<lambda>k. 4 * j + k) [0..<4]"
    using map_add_upt [of "4 * j" 4] by (simp add: add.commute)
  ultimately have "[0..<4 * Suc j] = [0..<4 * j] @ map (\<lambda>k. 4 * j + k) [0..<4]" by (simp only: mult_Suc_right add.commute)
  then show ?thesis by (simp add: rand_stream_def rand_raw_def o_def del: mult_Suc_right)
qed

lemma take_rand_stream: "m \<le> n \<Longrightarrow> take (16 * m) (rand_stream H n) = rand_stream H m"
proof -
  assume "m \<le> n"
  then have "[0..<n] = [0..<m] @ [m..<n]" by (metis le_add_diff_inverse upt_add_eq_append zero_le)
  then have "rand_stream H n = rand_stream H m @ concat (map (\<lambda>i. le_bytes 16 (H (ucast (of_nat i :: u64)))) [m..<n])"
    by (simp add: rand_stream_def)
  then show ?thesis by simp
qed

lemma groups_ok:
  assumes "64 * j \<le> tot" "length dst = tot"
  shows "\<exists>m. rand_groups H tot (of_nat (4 * j)) (64 * j) (rand_stream H (4 * j) @ drop (64 * j) dst) =
    Inr (rand_stream H (4 * m) @ drop (64 * m) dst, of_nat (4 * m), 64 * m) \<and> 64 * m \<le> tot \<and> tot < 64 * m + 64"
  using assms(1)
proof (induction "tot - 64 * j" arbitrary: j rule: less_induct)
  case less
  let ?dst = "rand_stream H (4 * j) @ drop (64 * j) dst"
  show ?case
  proof (cases "64 * j + 64 \<le> tot")
    case True
    have "stn ?dst (64 * j) (rand_raw H (of_nat (4 * j))) = Some (rand_stream H (4 * Suc j) @ drop (64 * Suc j) dst)"
      using True assms(2) rand_stream_4 [of H j, symmetric] by (simp add: stn_def add.commute)
    moreover have "\<exists>m. rand_groups H tot (of_nat (4 * Suc j)) (64 * Suc j) (rand_stream H (4 * Suc j) @ drop (64 * Suc j) dst) =
        Inr (rand_stream H (4 * m) @ drop (64 * m) dst, of_nat (4 * m), 64 * m) \<and> 64 * m \<le> tot \<and> tot < 64 * m + 64"
      by (rule less.hyps) (use True in simp_all)
    ultimately show ?thesis by (subst rand_groups.simps) (use True in \<open>simp add: add.commute\<close>)
  next
    case False
    then show ?thesis using less.prems by (intro exI [of _ j]) (subst rand_groups.simps, simp)
  qed
qed

lemma rand_bytes_ok:
  assumes "length dst = tot"
  shows "rand_bytes H tot dst = Inr (take tot (rand_stream H tot))"
proof -
  obtain m where m: "rand_groups H tot 0 0 dst = Inr (rand_stream H (4 * m) @ drop (64 * m) dst, of_nat (4 * m), 64 * m)"
    "64 * m \<le> tot" "tot < 64 * m + 64"
    using groups_ok [of 0 tot dst H] assms by (auto simp: rand_stream_def)
  show ?thesis
  proof (cases "64 * m < tot")
    case True
    have "take tot (rand_stream H (4 * Suc m)) = rand_stream H (4 * m) @ take (tot - 64 * m) (rand_raw H (of_nat (4 * m)))"
      using m(2) by (simp add: rand_stream_4 [symmetric] del: mult_Suc_right)
    moreover have "take tot (rand_stream H tot) = take tot (rand_stream H (max tot (4 * Suc m)))"
      using arg_cong [OF take_rand_stream [of tot "max tot (4 * Suc m)" H], of "take tot"] by (simp add: min_def)
    moreover have "take tot (rand_stream H (4 * Suc m)) = take tot (rand_stream H (max tot (4 * Suc m)))"
      using arg_cong [OF take_rand_stream [of "4 * Suc m" "max tot (4 * Suc m)" H], of "take tot"] m(3) by (simp add: min_def)
    ultimately show ?thesis using True m assms by (simp add: rand_bytes_def stn_def)
  next
    case False
    then have "tot = 64 * m" using m(2) by simp
    then show ?thesis using m(1) assms take_rand_stream [of "4 * m" tot H] by (simp add: rand_bytes_def)
  qed
qed

section \<open>The filled vector\<close>

lemma randFill_canonicalize:
  "n_elems v \<noteq> 0 \<Longrightarrow> randFill H ell v = rbind (rand_bytes H (bytesSize ell v) (rv_bytes ell v)) (\<lambda>bs. canonicalize ell (set_bytes ell v bs))"
  by (cases "ell = 1"; cases "ell = 8") (simp_all add: randFill_def bytesSize_def canonicalize_def Let_def del: One_nat_def)

text \<open>The element a byte stream of the storage size has at an index.\<close>

definition stream_elem :: "nat \<Rightarrow> byte list \<Rightarrow> nat \<Rightarrow> byte" where
  "stream_elem ell bs i = (if ell = 1 then of_bool (bit (bs ! (i div 8)) (i mod 8)) else take_bit ell (bs ! i))"

lemma byte_of_word_index:
  fixes i :: nat
  shows "8 * (i div 64) + i mod 64 div 8 = i div 8" "i mod 64 mod 8 = i mod 8" "i mod 64 div 8 < 8"
proof -
  have "i mod (8 * 8) = 8 * (i div 8 mod 8) + i mod 8" by (rule mod_mult2_eq)
  then have m: "i mod 64 = 8 * (i div 8 mod 8) + i mod 8" by simp
  have "i div (8 * 8) = i div 8 div 8" by (rule div_mult2_eq)
  then have "i div 64 = i div 8 div 8" by simp
  then show "8 * (i div 64) + i mod 64 div 8 = i div 8" using m by simp
  show "i mod 64 mod 8 = i mod 8" using m by simp
  show "i mod 64 div 8 < 8" using m by simp
qed

lemma set_bytes_elems:
  assumes v: "rv_ok ell v" and len: "length bs = length (rv_bytes ell v)"
  shows "rv_ok ell (set_bytes ell v bs)" "elems ell (set_bytes ell v bs) = map (stream_elem ell bs) [0..<n_elems v]"
proof -
  have "rv_ok ell (set_bytes ell v bs) \<and> elems ell (set_bytes ell v bs) = map (stream_elem ell bs) [0..<n_elems v]"
  proof (cases "ell = 1")
    case True
    have l: "length (d64 v) = (n_elems v + 63) div 64" using rv_ok_words [OF v True] by simp
    have bl: "length bs = 8 * length (d64 v)" using len v True l by (simp add: length_rv_bytes rv_ok_words)
    have "elem ell (set_bytes ell v bs) i = stream_elem ell bs i" if i: "i < n_elems v" for i
    proof -
      have w: "i div 64 < length (d64 v)" using word_index [OF i] l by simp
      have d: "8 * (i div 64) + i mod 64 div 8 = i div 8" "i mod 64 mod 8 = i mod 8" "i mod 64 div 8 < 8"
        using byte_of_word_index [of i] by simp_all
      have "i mod 64 < 64" by simp
      moreover have "i mod 64 div 8 < 8 * length (d64 v) - 8 * (i div 64)" using w d(3) by simp
      ultimately show ?thesis using True w bl d
        by (simp add: elem_1 set_bytes_def stream_elem_def bit_of_le_bytes)
    qed
    then have e: "elems ell (set_bytes ell v bs) = map (stream_elem ell bs) [0..<n_elems v]"
      using True by (auto simp: elems_def set_bytes_def)
    have "set_bytes ell v bs = v\<lparr>d64 := d64 (set_bytes ell v bs)\<rparr>" using True by (simp add: set_bytes_def)
    then have "rv_ok ell (set_bytes ell v bs)"
      using rv_ok_update(1) [OF v True, of "d64 (set_bytes ell v bs)"] True by (simp add: set_bytes_def)
    with e show ?thesis by simp
  next
    case False
    then have "length bs = n_elems v" "ell \<le> 8" using len v by (auto simp: length_rv_bytes rv_ok_byte)
    then show ?thesis using False v rv_ok_update(2) [OF v False, of bs]
      by (auto simp: set_bytes_def elems_def elem_byte stream_elem_def rv_ok_byte)
  qed
  then show "rv_ok ell (set_bytes ell v bs)" "elems ell (set_bytes ell v bs) = map (stream_elem ell bs) [0..<n_elems v]" by simp_all
qed

text \<open>\<open>randFill\<close> stays within the vector and fills it, whatever it held, with the bits of the hash values
  of 0, 1, 2 and so on, masked to canonical elements.\<close>

theorem random_fill:
  assumes "rv_ok ell v"
  shows "\<exists>v'. randFill H ell v = Inr v' \<and> rv_ok ell v' \<and> n_elems v' = n_elems v \<and> (0 < n_elems v \<longrightarrow> canon ell v') \<and>
    elems ell v' = map (stream_elem ell (take (bytesSize ell v) (rand_stream H (bytesSize ell v)))) [0..<n_elems v]"
proof (cases "n_elems v = 0")
  case True
  then show ?thesis using assms by (simp add: randFill_def elems_def)
next
  case False
  let ?bs = "take (bytesSize ell v) (rand_stream H (bytesSize ell v))"
  have l: "length (rv_bytes ell v) = bytesSize ell v" using bytesSize_ok [OF assms] by simp
  have lb: "length ?bs = length (rv_bytes ell v)" by (simp add: l)
  note s = set_bytes_elems [OF assms lb]
  obtain v' where v': "canonicalize ell (set_bytes ell v ?bs) = Inr v'" "rv_ok ell v'" "canon ell v'"
    "elems ell v' = elems ell (set_bytes ell v ?bs)" using canonicalize_ok [OF s(1)] by blast
  moreover have "n_elems v' = n_elems v" using arg_cong [OF v'(4), of length] by (simp add: set_bytes_def)
  ultimately show ?thesis using s(2) rand_bytes_ok [OF l, of H] False by (simp add: randFill_canonicalize)
qed

theorem random_fill_witness:
  "\<exists>v'. randFill (\<lambda>x. x + 5) 3 \<lparr>n_elems = 3, n_words = 3, d64 = [], d8 = [1, 7, 4]\<rparr> = Inr v' \<and> elems 3 v' = [5, 0, 0]"
proof -
  have "rv_ok 3 \<lparr>n_elems = 3, n_words = 3, d64 = [], d8 = [1, 7, 4]\<rparr>" by (simp add: rv_ok_def wordsFor_def ELEMS_PER_WORD_def usz_def)
  from random_fill [OF this, of "\<lambda>x. x + 5"] show ?thesis
    by (auto simp: bytesSize_def sizeof_word_def usz_def rand_stream_def le_bytes_def stream_elem_def upt_rec)
qed

end
