(* ===== verification/Tree_Cache.thy ===== *)
theory Tree_Cache
  imports Rvector_Bind Aby3_Bind "HOL-Library.AList"
begin

text \<open>
  The tree cache of an agent (\<^verbatim>\<open>src/mpmt/_tree_cache.py\<close>): a heap-shaped binary tree whose leaves are the
  shared filters of the set holders and whose inner nodes are their unions. Node \<open>x\<close> has the children \<open>2x\<close> and \<open>2x + 1\<close>;
  with \<open>L\<close> leaves the nodes are \<open>1, ..., 2L - 1\<close> and the leaves are those from \<open>L\<close> on. Every node has a token, and two
  files named after it with the members of its share. Leaves that changed are recorded as dirty; \<open>execute_merge\<close>, in
  \<open>Tree_Merge\<close>, recomputes what is above them.
\<close>

section \<open>Documents, files and random tokens\<close>

text \<open>A value read from a JSON file; \<open>DOther\<close> is a float or null.\<close>

datatype doc = DBool bool | DInt int | DStr string | DList "doc list" | DDict "(string \<times> doc) list" | DOther

text \<open>\<^verbatim>\<open>str(n)\<close> of a number, and \<^verbatim>\<open>int(s)\<close> of a string.\<close>

definition digit :: "nat \<Rightarrow> char" where
  "digit d = char_of (48 + d)"

fun py_str :: "nat \<Rightarrow> string" where
  "py_str n = (if n < 10 then [digit n] else py_str (n div 10) @ [digit (n mod 10)])"

definition is_digit :: "char \<Rightarrow> bool" where
  "is_digit c \<longleftrightarrow> 48 \<le> (of_char c :: nat) \<and> (of_char c :: nat) \<le> 57"

definition is_blank :: "char \<Rightarrow> bool" where
  "is_blank c \<longleftrightarrow> (of_char c :: nat) \<in> {9, 10, 11, 12, 13, 28, 29, 30, 31, 32, 133, 160}"

definition strip :: "string \<Rightarrow> string" where
  "strip s = rev (dropWhile is_blank (rev (dropWhile is_blank s)))"

text \<open>Digits with single underscores between them; the flag tells whether the last character was a digit.\<close>

fun digits :: "bool \<Rightarrow> nat \<Rightarrow> string \<Rightarrow> nat res" where
  "digits after n [] = (if after then Inr n else Inl ValueError)"
| "digits after n (c # cs) =
     (if is_digit c then digits True (10 * n + (of_char c - 48)) cs
      else if c = CHR ''_'' \<and> after then digits False n cs
      else Inl ValueError)"

definition py_int :: "string \<Rightarrow> int res" where
  "py_int s = (case strip s of
      [] \<Rightarrow> Inl ValueError
    | c # cs \<Rightarrow>
        if c = CHR ''-'' then rbind (digits False 0 cs) (\<lambda>n. Inr (- int n))
        else if c = CHR ''+'' then rbind (digits False 0 cs) (\<lambda>n. Inr (int n))
        else rbind (digits False 0 (c # cs)) (\<lambda>n. Inr (int n)))"

text \<open>What the cache finds around it: which files can be written, when the C library writes its buffers out and how long
  a file may get, which state documents can be written to the end, which files can be removed, which allocations succeed,
  what memory holds before it is written, and what the calls of \<^verbatim>\<open>secrets.token_hex(16)\<close> return.\<close>

record host =
  openable :: "string \<Rightarrow> bool"
  drain :: "nat \<Rightarrow> nat \<Rightarrow> nat"
  room :: nat
  writable :: "doc \<Rightarrow> bool"
  removable :: "string \<Rightarrow> bool"
  alloc :: "nat \<Rightarrow> bool"
  junk :: heap
  token_hex :: "nat \<Rightarrow> string"

text \<open>\<^verbatim>\<open>path.unlink(missing_ok=True)\<close>.\<close>

definition unlink :: "host \<Rightarrow> string \<Rightarrow> files \<Rightarrow> files \<times> unit res" where
  "unlink h path fs =
     (if fs path = None then (fs, Inr ())
      else if removable h path then (fs(path := None), Inr ()) else (fs, Inl OSError))"

definition this_path :: "string \<Rightarrow> string" where "this_path token = token @ ''_this.mpmtrvp''"
definition nxt_path :: "string \<Rightarrow> string" where "nxt_path token = token @ ''_nxt.mpmtrvp''"

text \<open>The root's files are \<^verbatim>\<open>root_this.mpmtrvp\<close> and \<^verbatim>\<open>root_nxt.mpmtrvp\<close>.\<close>

abbreviation root_name :: string where "root_name \<equiv> ''root''"

definition save_pair :: "host \<Rightarrow> nat \<Rightarrow> string \<Rightarrow> rvec shr_rep3 \<Rightarrow> rpack \<Rightarrow> files \<Rightarrow> files \<times> rpack \<times> unit res" where
  "save_pair h ell token node aux fs =
     (case save ell (openable h) (drain h) (room h) (this_path token) (thisShare node) aux fs of
        (fs, aux, Inl e) \<Rightarrow> (fs, aux, Inl e)
      | (fs, aux, Inr _) \<Rightarrow> save ell (openable h) (drain h) (room h) (nxt_path token) (nxtShare node) aux fs)"

text \<open>Removing both files; \<open>drop_pair\<close> stops at the first error, \<open>discard_pair\<close> ignores them.\<close>

definition drop_pair :: "host \<Rightarrow> string \<Rightarrow> files \<Rightarrow> files \<times> unit res" where
  "drop_pair h token fs =
     (case unlink h (this_path token) fs of (fs, Inl e) \<Rightarrow> (fs, Inl e) | (fs, Inr _) \<Rightarrow> unlink h (nxt_path token) fs)"

definition discard_pair :: "host \<Rightarrow> string \<Rightarrow> files \<Rightarrow> files" where
  "discard_pair h token fs = fst (unlink h (nxt_path token) (fst (unlink h (this_path token) fs)))"

section \<open>The cache\<close>

text \<open>\<open>meta\<close> is the file \<^verbatim>\<open>meta.json\<close>, if there is one, and what reading it gives. Dictionaries are lists in the order of insertion.\<close>

record tree_cache =
  filter_size :: nat
  root_ell :: nat
  corrupted :: bool
  phi_f :: "(string \<times> nat) list"
  phi_r :: "(nat \<times> string) list"
  dirty_leaf :: "nat set"
  leaf_num :: nat
  meta :: "doc res option"
  files :: files

text \<open>A statement that may throw and has changed the cache in any case.\<close>

type_synonym 'a step = "tree_cache \<times> 'a res"

definition sthen :: "'a step \<Rightarrow> (tree_cache \<Rightarrow> 'a \<Rightarrow> 'b step) \<Rightarrow> 'b step" where
  "sthen m K = (case m of (c, Inl e) \<Rightarrow> (c, Inl e) | (c, Inr x) \<Rightarrow> K c x)"

definition look :: "('k \<times> 'v) list \<Rightarrow> 'k \<Rightarrow> 'v res" where
  "look d k = (case map_of d k of None \<Rightarrow> Inl KeyError | Some v \<Rightarrow> Inr v)"

definition py_del :: "'k \<Rightarrow> ('k \<times> 'v) list \<Rightarrow> ('k \<times> 'v) list res" where
  "py_del k d = (if map_of d k = None then Inl KeyError else Inr (AList.delete k d))"

definition meta_doc :: "string \<Rightarrow> tree_cache \<Rightarrow> doc" where
  "meta_doc status c = DDict
     [(''state'', DStr status), (''bf_size'', DInt (int (filter_size c))), (''ell_root'', DInt (int (root_ell c))),
      (''leaf_num'', DInt (int (leaf_num c))),
      (''phi_f'', DDict (map (\<lambda>(token, x). (token, DInt (int x))) (phi_f c))),
      (''phi_r'', DDict (map (\<lambda>(x, token). (py_str x, DStr token)) (phi_r c))),
      (''dirty_leaf'', DList (map (\<lambda>x. DInt (int x)) (sorted_list_of_set (dirty_leaf c))))]"

text \<open>Opening the state file empties it. If the document cannot be written to the end, what is left is a proper
  beginning of the text of an object, which no parser accepts, and Python's stream reports the failure at the latest when it is closed.\<close>

definition write_meta :: "host \<Rightarrow> string \<Rightarrow> tree_cache \<Rightarrow> unit step" where
  "write_meta h status c =
     (if \<not> openable h ''meta.json'' then (c, Inl OSError)
      else if writable h (meta_doc status c) then (c\<lparr>meta := Some (Inr (meta_doc status c))\<rparr>, Inr ())
      else (c\<lparr>meta := Some (Inl JsonError)\<rparr>, Inl OSError))"

definition mark_corrupted :: "host \<Rightarrow> tree_cache \<Rightarrow> unit step" where
  "mark_corrupted h c = write_meta h ''dirty'' (c\<lparr>corrupted := True\<rparr>)"

definition mark_valid :: "host \<Rightarrow> tree_cache \<Rightarrow> unit step" where
  "mark_valid h c = sthen (write_meta h ''valid'' c) (\<lambda>c _. (c\<lparr>corrupted := False\<rparr>, Inr ()))"

text \<open>\<open>new_token\<close> draws until the token is new, and returns it with the number of the next draw; it need not end.\<close>

partial_function (option) new_token :: "host \<Rightarrow> nat \<Rightarrow> (string \<times> nat) list \<Rightarrow> (string \<times> nat) option" where
  [code]: "new_token h k f =
     (if map_of f (token_hex h k) \<noteq> None then new_token h (Suc k) f else Some (token_hex h k, Suc k))"

definition has_inserted :: "string \<Rightarrow> tree_cache \<Rightarrow> bool" where
  "has_inserted token c = (case map_of (phi_f c) token of None \<Rightarrow> False | Some x \<Rightarrow> x \<ge> leaf_num c)"

section \<open>Changing the leaves\<close>

text \<open>The first leaf becomes the root; otherwise the leaf with the least number becomes an inner node, whose children
  are what it was and the new leaf.\<close>

definition add_leaf :: "host \<Rightarrow> nat \<Rightarrow> string \<Rightarrow> tree_cache \<Rightarrow> unit step option" where
  "add_leaf h k token c =
     (if leaf_num c = 0
      then Some (c\<lparr>leaf_num := 1, phi_r := AList.update 1 token (phi_r c), phi_f := AList.update token 1 (phi_f c)\<rparr>, Inr ())
      else
        let old_leaf_id = leaf_num c; lc_id = old_leaf_id * 2; rc_id = lc_id + 1 in
        case look (phi_r c) old_leaf_id of Inl e \<Rightarrow> Some (c, Inl e)
        | Inr ori_root_token \<Rightarrow>
          let r = AList.update rc_id token (phi_r c); f = AList.update token rc_id (phi_f c) in
          Option.bind (new_token h k f) (\<lambda>(new_root_token, _).
          let r = AList.update old_leaf_id new_root_token r; f = AList.update new_root_token old_leaf_id f;
              r = AList.update lc_id ori_root_token r; f = AList.update ori_root_token lc_id f;
              d = (if old_leaf_id \<in> dirty_leaf c then Set.insert lc_id (dirty_leaf c - {old_leaf_id}) else dirty_leaf c)
          in Some (c\<lparr>phi_r := r, phi_f := f, dirty_leaf := d, leaf_num := leaf_num c + 1\<rparr>, Inr ())))"

definition tc_insert :: "host \<Rightarrow> nat \<Rightarrow> rvec shr_rep3 \<Rightarrow> tree_cache \<Rightarrow> string step option" where
  "tc_insert h k node c =
     (if corrupted c then Some (c, Inl RuntimeError)
      else case mark_corrupted h c of (c, Inl e) \<Rightarrow> Some (c, Inl e)
      | (c, Inr _) \<Rightarrow>
        case py_RvectorPack (alloc h) 1 (filter_size c) of Inl e \<Rightarrow> Some (c, Inl e)
        | Inr aux_buf \<Rightarrow>
          Option.bind (new_token h k (phi_f c)) (\<lambda>(token, k).
          case save_pair h 1 token node aux_buf (files c) of
            (fs, _, Inl e) \<Rightarrow> Some (c\<lparr>files := discard_pair h token fs\<rparr>, Inl e)
          | (fs, _, Inr _) \<Rightarrow>
            Option.bind (add_leaf h k token (c\<lparr>files := fs\<rparr>)) (\<lambda>m. Some (sthen m (\<lambda>c _.
            sthen (c, look (phi_f c) token) (\<lambda>c x.
            sthen (mark_valid h (c\<lparr>dirty_leaf := Set.insert x (dirty_leaf c)\<rparr>)) (\<lambda>c _. (c, Inr token))))))))"

definition tc_update :: "host \<Rightarrow> string \<Rightarrow> rvec shr_rep3 \<Rightarrow> tree_cache \<Rightarrow> unit step" where
  "tc_update h token new_node c =
     (if corrupted c then (c, Inl RuntimeError)
      else case map_of (phi_f c) token of None \<Rightarrow> (c, Inl KeyError)
      | Some node_id \<Rightarrow>
        if node_id < leaf_num c then (c, Inl ValueError)
        else sthen (mark_corrupted h c) (\<lambda>c _.
          case py_RvectorPack (alloc h) 1 (filter_size c) of Inl e \<Rightarrow> (c, Inl e)
          | Inr aux_buf \<Rightarrow>
            case save_pair h 1 token new_node aux_buf (files c) of (fs, _, r) \<Rightarrow>
              sthen (c\<lparr>files := fs\<rparr>, r) (\<lambda>c _. mark_valid h (c\<lparr>dirty_leaf := Set.insert node_id (dirty_leaf c)\<rparr>))))"

text \<open>The tree without the leaf, and the token of the inner node that is gone: the last inner node becomes a leaf, with
  one of its two children; the other one takes the place of the removed leaf. An exception here ends an operation on a cache that is already
  marked; how far its dictionaries had been changed then is not followed.\<close>

definition collapse :: "string \<Rightarrow> nat \<Rightarrow> tree_cache \<Rightarrow> (tree_cache \<times> string option) res" where
  "collapse del_token del_id c =
     (if leaf_num c = 1
      then rbind (py_del del_token (phi_f c)) (\<lambda>f. rbind (py_del 1 (phi_r c)) (\<lambda>r.
           Inr (c\<lparr>phi_f := f, phi_r := r, leaf_num := 0, dirty_leaf := {}\<rparr>, None)))
      else
        let collapse_id = leaf_num c - 1; left_id = collapse_id * 2; right_id = left_id + 1 in
        rbind (look (phi_r c) collapse_id) (\<lambda>internal_token.
        rbind (look (phi_r c) left_id) (\<lambda>left_token.
        rbind (look (phi_r c) right_id) (\<lambda>right_token.
        let (r, f, promoted_token, d) =
              (if del_id = left_id then (phi_r c, phi_f c, right_token, dirty_leaf c)
               else if del_id = right_id then (phi_r c, phi_f c, left_token, dirty_leaf c)
               else (AList.update del_id right_token (phi_r c), AList.update right_token del_id (phi_f c), left_token,
                     Set.insert del_id (dirty_leaf c)));
            r = AList.update collapse_id promoted_token r; f = AList.update promoted_token collapse_id f
        in rbind (py_del left_id r) (\<lambda>r. rbind (py_del right_id r) (\<lambda>r.
           rbind (py_del internal_token f) (\<lambda>f. rbind (py_del del_token f) (\<lambda>f.
           Inr (c\<lparr>phi_r := r, phi_f := f, leaf_num := leaf_num c - 1,
             dirty_leaf := Set.insert collapse_id (d - {left_id, right_id})\<rparr>, Some internal_token)))))))))"

definition tc_remove :: "host \<Rightarrow> string \<Rightarrow> tree_cache \<Rightarrow> unit step" where
  "tc_remove h del_token c =
     (if corrupted c then (c, Inl RuntimeError)
      else case map_of (phi_f c) del_token of None \<Rightarrow> (c, Inr ())
      | Some del_id \<Rightarrow>
        if del_id < leaf_num c then (c, Inl ValueError)
        else sthen (mark_corrupted h c) (\<lambda>c _.
          case collapse del_token del_id c of Inl e \<Rightarrow> (c, Inl e)
          | Inr (c, removed_internal_token) \<Rightarrow>
            case drop_pair h del_token (files c) of (fs, r) \<Rightarrow>
            sthen (c\<lparr>files := fs\<rparr>, r) (\<lambda>c _.
            sthen (case removed_internal_token of None \<Rightarrow> (c, Inr ())
                   | Some token \<Rightarrow> (case drop_pair h token (files c) of (fs, r) \<Rightarrow> (c\<lparr>files := fs\<rparr>, r)))
              (\<lambda>c _. mark_valid h c))))"

end
