(* ===== verification/Tree_Cache_Facts.thy ===== *)
theory Tree_Cache_Facts
  imports Tree_Cache
begin

text \<open>
  Single operations on the tree cache of one agent: the invariant \<open>tree_ok\<close>, what each operation does to the nodes and
  the files, and what is left when it throws.
\<close>

section \<open>Trees and their nodes\<close>

lemma paths [simp]:
  "this_path t = this_path t' \<longleftrightarrow> t = t'" "nxt_path t = nxt_path t' \<longleftrightarrow> t = t'"
  "this_path t \<noteq> nxt_path t'" "nxt_path t \<noteq> this_path t'"
proof -
  have "''_this.mpmtrvp'' ! 4 = CHR ''s''" by simp
  have ne: "rev (this_path t) \<noteq> rev (nxt_path t')" for t t' by (simp add: this_path_def nxt_path_def)
  then show "this_path t \<noteq> nxt_path t'" "nxt_path t \<noteq> this_path t'" by metis+
qed (simp_all add: this_path_def nxt_path_def)

lemma path_ext [simp]: "checkExt (this_path t) ''.mpmtrvp'' = Inr ()" "checkExt (nxt_path t) ''.mpmtrvp'' = Inr ()"
  by (simp_all add: checkExt_def this_path_def nxt_path_def)

lemma sthen_simps [simp]: "sthen (c, Inl e) K = (c, Inl e)" "sthen (c, Inr x) K = K c x"
  by (simp_all add: sthen_def)

lemma look_Inr: "look d k = Inr v \<longleftrightarrow> map_of d k = Some v"
  by (simp add: look_def split: option.splits)

lemma look_ok [simp]: "map_of d k = Some v \<Longrightarrow> look d k = Inr v"
  by (simp add: look_Inr)

lemma py_del_ok: "map_of d k = Some v \<Longrightarrow> py_del k d = Inr (AList.delete k d)"
  by (simp add: py_del_def)

lemma new_token_fresh: "new_token h k f = Some r \<Longrightarrow> map_of f (fst r) = None"
  by (rule new_token.raw_induct [where P = "\<lambda>h k f r. map_of f (fst r) = None"], force split: if_splits)

text \<open>Drawing ends as soon as some draw is new.\<close>

lemma new_token_returns:
  assumes "k \<le> i" "map_of f (token_hex h i) = None"
  shows "\<exists>t k'. new_token h k f = Some (t, k') \<and> k' \<le> Suc i"
  using assms
proof (induction "i - k" arbitrary: k)
  case 0
  then have "k = i" by simp
  then show ?case using 0 by (subst new_token.simps) simp
next
  case (Suc d)
  show ?case
  proof (cases "map_of f (token_hex h k) = None")
    case True
    then show ?thesis using Suc.prems by (subst new_token.simps) simp
  next
    case False
    moreover have "\<exists>t k'. new_token h (Suc k) f = Some (t, k') \<and> k' \<le> Suc i" using Suc by (intro Suc.hyps(1)) auto
    ultimately show ?thesis by (subst new_token.simps) simp
  qed
qed


section \<open>The invariant\<close>

text \<open>The two dictionaries are mutual inverses, the nodes are numbered without gaps, and dirty leaves are leaves.\<close>

definition paired :: "('a \<rightharpoonup> 'b) \<Rightarrow> ('b \<rightharpoonup> 'a) \<Rightarrow> bool" where
  "paired f r \<longleftrightarrow> (\<forall>t x. r x = Some t \<longleftrightarrow> f t = Some x)"

definition tree_ok :: "tree_cache \<Rightarrow> bool" where
  "tree_ok c \<longleftrightarrow> distinct (map fst (phi_f c)) \<and> distinct (map fst (phi_r c)) \<and> paired (map_of (phi_f c)) (map_of (phi_r c)) \<and>
     dom (map_of (phi_r c)) = {1..<2 * leaf_num c} \<and> dirty_leaf c \<subseteq> {leaf_num c..<2 * leaf_num c} \<and>
     map_of (phi_f c) root_name = None"

lemma paired_split:
  assumes "paired f r" "f token = None" "f new = None" "new \<noteq> token" "r old = Some ori" "r lc = None" "r rc = None" "lc \<noteq> rc"
  shows "paired (f(token \<mapsto> rc, new \<mapsto> old, ori \<mapsto> lc)) (r(rc \<mapsto> token, old \<mapsto> new, lc \<mapsto> ori))"
proof -
  have "f ori = Some old" using assms(1,5) by (simp add: paired_def)
  then have "ori \<noteq> token" "ori \<noteq> new" "old \<noteq> lc" "old \<noteq> rc" using assms by auto
  then show ?thesis using assms unfolding paired_def by (auto split: if_splits) (metis option.distinct(1) option.inject)+
qed

lemma paired_one: "paired f r \<Longrightarrow> f token = None \<Longrightarrow> r x = None \<Longrightarrow> paired (f(token \<mapsto> x)) (r(x \<mapsto> token))"
  unfolding paired_def by (auto split: if_splits) (metis option.distinct(1) option.inject)+

lemma node_bound: "tree_ok c \<Longrightarrow> map_of (phi_r c) x = None \<longleftrightarrow> x \<notin> {1..<2 * leaf_num c}"
  unfolding tree_ok_def by (metis domIff)

lemma token_of: "tree_ok c \<Longrightarrow> map_of (phi_r c) x = Some t \<longleftrightarrow> map_of (phi_f c) t = Some x"
  by (simp add: tree_ok_def paired_def)

lemma add_leaf_ok:
  assumes c: "tree_ok c" and token: "map_of (phi_f c) token = None" "token \<noteq> root_name"
    and new: "leaf_num c \<noteq> 0 \<Longrightarrow> new_token h k (AList.update token (2 * leaf_num c + 1) (phi_f c)) = Some (new, k')" "new \<noteq> root_name"
  defines "L \<equiv> leaf_num c"
  shows "\<exists>c'. add_leaf h k token c = Some (c', Inr ()) \<and> tree_ok c' \<and> leaf_num c' = L + 1 \<and>
    map_of (phi_r c') = (\<lambda>y. if y = 2 * L + 1 then Some token else if L \<noteq> 0 \<and> y = L then Some new
      else if L \<noteq> 0 \<and> y = 2 * L then map_of (phi_r c) L else map_of (phi_r c) y) \<and>
    dirty_leaf c' = (if L \<in> dirty_leaf c then Set.insert (2 * L) (dirty_leaf c - {L}) else dirty_leaf c) \<and>
    files c' = files c \<and> meta c' = meta c \<and> corrupted c' = corrupted c \<and> filter_size c' = filter_size c \<and> root_ell c' = root_ell c"
proof (cases "L = 0")
  case True
  then have e: "map_of (phi_r c) x = None" "dirty_leaf c = {}" for x using node_bound [OF c, of x] c by (simp_all add: L_def tree_ok_def)
  show ?thesis
    using c token paired_one [of "map_of (phi_f c)" "map_of (phi_r c)" token 1] e True
    by (auto simp: add_leaf_def L_def tree_ok_def AList.update_conv' distinct_update fun_eq_iff)
next
  case False
  then obtain ori where ori: "map_of (phi_r c) L = Some ori" using node_bound [OF c, of L] by (auto simp: L_def)
  have n: "map_of (phi_f c) new = None" "new \<noteq> token"
    using new_token_fresh [OF new(1)] False by (auto simp: L_def AList.update_conv' split: if_splits)
  have p: "paired ((map_of (phi_f c))(token \<mapsto> 2 * L + 1, new \<mapsto> L, ori \<mapsto> 2 * L)) ((map_of (phi_r c))(2 * L + 1 \<mapsto> token, L \<mapsto> new, 2 * L \<mapsto> ori))"
    using paired_split [where f = "map_of (phi_f c)" and r = "map_of (phi_r c)" and lc = "2 * L" and rc = "2 * L + 1", OF _ token(1) n ori] c node_bound [OF c] by (simp add: tree_ok_def L_def)
  let ?r = "AList.update (2 * L) ori (AList.update L new (AList.update (2 * L + 1) token (phi_r c)))"
  let ?f = "AList.update ori (2 * L) (AList.update new L (AList.update token (2 * L + 1) (phi_f c)))"
  let ?d = "if L \<in> dirty_leaf c then Set.insert (2 * L) (dirty_leaf c - {L}) else dirty_leaf c"
  have "ori \<noteq> root_name" using c ori token_of [OF c, of L ori] by (auto simp: tree_ok_def)
  moreover have "dom (map_of ?r) = Set.insert (2 * L) (Set.insert L (Set.insert (2 * L + 1) {1..<2 * L}))"
    using c by (simp add: tree_ok_def L_def AList.update_conv')
  then have "dom (map_of ?r) = {1..<2 * (L + 1)}" using False by auto
  moreover have "?d \<subseteq> {L + 1..<2 * (L + 1)}"
  proof
    fix x assume "x \<in> ?d"
    then have "x = 2 * L \<or> x \<in> dirty_leaf c \<and> x \<noteq> L" by (auto split: if_splits)
    moreover have "x \<in> dirty_leaf c \<Longrightarrow> L \<le> x \<and> x < 2 * L" using c by (auto simp: tree_ok_def L_def)
    ultimately show "x \<in> {L + 1..<2 * (L + 1)}" using False by auto
  qed
  ultimately have "tree_ok (c\<lparr>phi_r := ?r, phi_f := ?f, dirty_leaf := ?d, leaf_num := L + 1\<rparr>)"
    using c p token(2) new(2) by (simp add: tree_ok_def AList.update_conv' distinct_update)
  moreover have "add_leaf h k token c = Some (c\<lparr>phi_r := ?r, phi_f := ?f, dirty_leaf := ?d, leaf_num := L + 1\<rparr>, Inr ())"
    using False ori new(1) by (simp add: add_leaf_def L_def Let_def mult.commute)
  ultimately show ?thesis using False ori by (auto simp: AList.update_conv' fun_eq_iff)
qed


text \<open>A leaf is removed by moving another one to its place.\<close>

lemma paired_del: "paired f r \<Longrightarrow> r x = Some t \<Longrightarrow> paired (f(t := None)) (r(x := None))"
  unfolding paired_def by (auto split: if_splits) (metis option.inject)+

lemma paired_move:
  assumes "paired f r" "r x = Some t" "r y = Some u" "x \<noteq> y"
  shows "paired (f(u \<mapsto> x, t := None)) (r(x \<mapsto> u, y := None))"
proof -
  have "f t = Some x" "f u = Some y" "t \<noteq> u" using assms by (auto simp: paired_def)
  then show ?thesis using assms unfolding paired_def by (auto split: if_splits) (metis option.inject)+
qed

lemma collapse_ok:
  assumes c: "tree_ok c" and d: "map_of (phi_f c) del = Some d" "leaf_num c \<le> d" and two: "2 \<le> leaf_num c"
  defines "k \<equiv> leaf_num c - 1"
  shows "\<exists>c' internal. collapse del d c = Inr (c', Some internal) \<and> tree_ok c' \<and> leaf_num c' = k \<and>
    map_of (phi_r c) k = Some internal \<and>
    map_of (phi_r c') = (\<lambda>y. if y = 2 * k \<or> y = 2 * k + 1 then None
      else if y = k then map_of (phi_r c) (if d = 2 * k then 2 * k + 1 else 2 * k)
      else if y = d then map_of (phi_r c) (2 * k + 1) else map_of (phi_r c) y) \<and>
    dirty_leaf c' = Set.insert k ((if d = 2 * k \<or> d = 2 * k + 1 then dirty_leaf c else Set.insert d (dirty_leaf c)) - {2 * k, 2 * k + 1}) \<and>
    files c' = files c \<and> meta c' = meta c \<and> corrupted c' = corrupted c \<and> filter_size c' = filter_size c \<and> root_ell c' = root_ell c"
proof -
  let ?L = "leaf_num c" and ?R = "map_of (phi_r c)" and ?F = "map_of (phi_f c)"
  have L: "?L = k + 1" "1 \<le> k" using two by (simp_all add: k_def)
  obtain internal lt rt where t: "?R k = Some internal" "?R (2 * k) = Some lt" "?R (2 * k + 1) = Some rt"
    using node_bound [OF c, of k] node_bound [OF c, of "2 * k"] node_bound [OF c, of "2 * k + 1"] L by fastforce
  have del: "?R d = Some del" using d(1) token_of [OF c] by simp
  then have db: "d < 2 * k + 2" "k + 1 \<le> d" using node_bound [OF c, of d] L d(2) by auto
  have P: "paired ?F ?R" using c by (simp add: tree_ok_def)
  note f = t [unfolded token_of [OF c]] del [unfolded token_of [OF c]]
  define case3 where "case3 \<longleftrightarrow> d \<noteq> 2 * k \<and> d \<noteq> 2 * k + 1"
  define r0 where "r0 = (if case3 then AList.update d rt (phi_r c) else phi_r c)"
  define f0 where "f0 = (if case3 then AList.update rt d (phi_f c) else phi_f c)"
  define pr where "pr = (if d = 2 * k then rt else lt)"
  define r1 where "r1 = AList.delete (2 * k + 1) (AList.delete (2 * k) (AList.update k pr r0))"
  define f1 where "f1 = AList.delete del (AList.delete internal (AList.update pr k f0))"
  define d1 where "d1 = Set.insert k ((if case3 then Set.insert d (dirty_leaf c) else dirty_leaf c) - {2 * k, 2 * k + 1})"
  note ne = L db t del f P
  have r1: "map_of r1 = ((if case3 then ?R(d \<mapsto> rt) else ?R)(k \<mapsto> pr))(2 * k := None, 2 * k + 1 := None)"
    by (simp add: r1_def r0_def AList.update_conv' AList.delete_conv')
  have f1: "map_of f1 = ((if case3 then ?F(rt \<mapsto> d) else ?F)(pr \<mapsto> k))(internal := None, del := None)"
    by (simp add: f1_def f0_def AList.update_conv' AList.delete_conv')
  have keys: "map_of (AList.update k pr r0) (2 * k) \<noteq> None" "map_of (AList.delete (2 * k) (AList.update k pr r0)) (2 * k + 1) \<noteq> None"
    "map_of (AList.update pr k f0) internal \<noteq> None" "map_of (AList.delete internal (AList.update pr k f0)) del \<noteq> None"
    using f t L db by (auto simp: r0_def f0_def pr_def AList.update_conv' AList.delete_conv')
  have four: "(if d = k * 2 then (phi_r c, phi_f c, rt, dirty_leaf c) else if d = k * 2 + 1 then (phi_r c, phi_f c, lt, dirty_leaf c)
      else (AList.update d rt (phi_r c), AList.update rt d (phi_f c), lt, Set.insert d (dirty_leaf c))) =
      (r0, f0, pr, if case3 then Set.insert d (dirty_leaf c) else dirty_leaf c)"
    by (simp add: r0_def f0_def pr_def case3_def mult.commute)
  have t': "?R (k * 2) = Some lt" "?R (k * 2 + 1) = Some rt" using t by (simp_all add: mult.commute)
  have "collapse del d c = Inr (c\<lparr>phi_r := r1, phi_f := f1, leaf_num := k, dirty_leaf := d1\<rparr>, Some internal)"
    using keys two unfolding collapse_def Let_def k_def [symmetric] look_ok [OF t(1)] look_ok [OF t'(1)] look_ok [OF t'(2)] rbind_Inr four prod.case
    by (simp add: py_del_def r1_def f1_def d1_def mult.commute)
  moreover have "paired (map_of f1) (map_of r1)"
  proof (cases case3)
    case True
    have "paired (?F(rt \<mapsto> d, del := None)) (?R(d \<mapsto> rt, 2 * k + 1 := None))"
      by (rule paired_move [OF P del t(3)]) (use True in \<open>simp add: case3_def\<close>)
    then have "paired (?F(rt \<mapsto> d, del := None, lt \<mapsto> k, internal := None)) (?R(d \<mapsto> rt, 2 * k + 1 := None, k \<mapsto> lt, 2 * k := None))"
      by (rule paired_move) (use True t L db in \<open>auto simp: case3_def\<close>)
    moreover have "lt \<noteq> del" "internal \<noteq> del" using f True db by (auto simp: case3_def)
    ultimately show ?thesis using True L unfolding r1 f1 by (simp add: fun_upd_twist case3_def pr_def)
  next
    case False
    have "paired (?F(pr \<mapsto> k, internal := None)) (?R(k \<mapsto> pr, (if d = 2 * k then 2 * k + 1 else 2 * k) := None))"
      by (rule paired_move [OF P t(1)]) (use t L in \<open>auto simp: pr_def\<close>)
    then have "paired (?F(pr \<mapsto> k, internal := None, del := None)) (?R(k \<mapsto> pr, (if d = 2 * k then 2 * k + 1 else 2 * k) := None, d := None))"
      by (rule paired_del) (use False del L db in \<open>auto simp: case3_def\<close>)
    then show ?thesis using False unfolding r1 f1 by (auto simp: fun_upd_twist case3_def)
  qed
  moreover have dom: "dom (map_of r1) = {1..<2 * k}"
  proof -
    have "dom ?R = {1..<2 * k + 2}" using c L by (simp add: tree_ok_def)
    then have "dom (map_of r1) = Set.insert k (if case3 then Set.insert d {1..<2 * k + 2} else {1..<2 * k + 2}) - {2 * k} - {2 * k + 1}"
      unfolding r1 by simp
    moreover have "k \<in> {1..<2 * k + 2}" "d \<in> {1..<2 * k + 2}" using L db by auto
    ultimately have "dom (map_of r1) = {1..<2 * k + 2} - {2 * k} - {2 * k + 1}" by (simp add: insert_absorb)
    moreover have "{1..<2 * k + 2} - {2 * k} - {2 * k + 1} = {1..<2 * k}" by auto
    ultimately show ?thesis by (simp only:)
  qed
  moreover have "d1 \<subseteq> {k..<2 * k}"
  proof
    fix x assume "x \<in> d1"
    then have "x = k \<or> (x = d \<and> case3 \<or> x \<in> dirty_leaf c) \<and> x \<noteq> 2 * k \<and> x \<noteq> 2 * k + 1" by (auto simp: d1_def split: if_splits)
    moreover have "x \<in> dirty_leaf c \<Longrightarrow> ?L \<le> x \<and> x < 2 * ?L" using c by (auto simp: tree_ok_def)
    ultimately show "x \<in> {k..<2 * k}" using L db by (auto simp: case3_def)
  qed
  moreover have "map_of f1 root_name = None"
    using c f unfolding f1 by (auto simp: tree_ok_def pr_def)
  moreover have "distinct (map fst f1)" "distinct (map fst r1)"
    using c by (simp_all add: f1_def r1_def f0_def r0_def tree_ok_def distinct_update distinct_delete)
  ultimately have "collapse del d c = Inr (c\<lparr>phi_r := r1, phi_f := f1, leaf_num := k, dirty_leaf := d1\<rparr>, Some internal)"
    "tree_ok (c\<lparr>phi_r := r1, phi_f := f1, leaf_num := k, dirty_leaf := d1\<rparr>)" by (simp_all add: tree_ok_def)
  moreover have "map_of r1 = (\<lambda>y. if y = 2 * k \<or> y = 2 * k + 1 then None
      else if y = k then ?R (if d = 2 * k then 2 * k + 1 else 2 * k) else if y = d then ?R (2 * k + 1) else ?R y)"
    using t L db unfolding r1 by (auto simp: fun_eq_iff case3_def pr_def)
  ultimately show ?thesis using t(1)
    by (intro exI [of _ "c\<lparr>phi_r := r1, phi_f := f1, leaf_num := k, dirty_leaf := d1\<rparr>"] exI [of _ internal]) (auto simp: d1_def case3_def)
qed


section \<open>Files\<close>

text \<open>The file holds a packed vector with the elements \<open>w\<close>.\<close>

definition stored :: "nat \<Rightarrow> nat \<Rightarrow> files \<Rightarrow> string \<Rightarrow> byte list \<Rightarrow> bool" where
  "stored ell n fs path w \<longleftrightarrow>
     (\<exists>a v. holds ell a v \<and> n_elems v = n \<and> elems ell v = w \<and> fs path = Some (file_of ell n (p_buf a)))"

definition others_kept :: "string \<Rightarrow> files \<Rightarrow> files \<Rightarrow> bool" where
  "others_kept token fs fs' \<longleftrightarrow> (\<forall>q. q \<noteq> this_path token \<longrightarrow> q \<noteq> nxt_path token \<longrightarrow> fs' q = fs q)"

lemma stored_cong: "fs' path = fs path \<Longrightarrow> stored ell n fs' path w = stored ell n fs path w"
  by (simp add: stored_def)

lemma stored_length: "stored ell n fs path w \<Longrightarrow> length w = n"
  by (auto simp: stored_def)

lemma stored_other [simp]:
  "others_kept token fs fs' \<Longrightarrow> t \<noteq> token \<Longrightarrow> stored ell n fs' (this_path t) w = stored ell n fs (this_path t) w"
  "others_kept token fs fs' \<Longrightarrow> t \<noteq> token \<Longrightarrow> stored ell n fs' (nxt_path t) w = stored ell n fs (nxt_path t) w"
  by (rule stored_cong, simp add: others_kept_def)+

lemma save_stored:
  assumes v: "rv_ok ell v" "n_elems v = n" "aux_ok ell n aux"
    and path: "checkExt path ''.mpmtrvp'' = Inr ()" "can path" and space: "20 + length (p_buf aux) \<le> space"
  shows "\<exists>fs' aux'. save ell can drn space path v aux fs = (fs', aux', Inr ()) \<and> aux_ok ell n aux' \<and>
    length (p_buf aux') = length (p_buf aux) \<and> stored ell n fs' path (elems ell v) \<and> (\<forall>q. q \<noteq> path \<longrightarrow> fs' q = fs q)"
proof -
  obtain a where a: "packRvec ell v aux = Inr a" "holds ell a v" "length (p_buf a) = length (p_buf aux)"
    using packRvec_holds [OF v(1)] v(2,3) by blast
  have "save ell can drn space path v aux fs = (fs(path := Some (file_of ell n (p_buf a))), a, Inr ())"
    using save_file [where openable = can and room = space and drain = drn and fs = fs, OF v(1) v(3) [folded v(2)] path] v(2) a(1,3) space
    by (auto simp: header_fields)
  then show ?thesis using a v(2) by (auto simp: stored_def holds_def)
qed

lemma load_stored:
  assumes "stored ell n fs path w" "rv_ok ell dst" "n_elems dst = n" "aux_ok ell n aux" "checkExt path ''.mpmtrvp'' = Inr ()"
  shows "\<exists>dst' aux'. load ell path dst aux fs = (dst', aux', Inr ()) \<and> aux_ok ell n aux' \<and> rv_ok ell dst' \<and> elems ell dst' = w \<and>
    length (p_buf aux') = length (p_buf aux)"
proof -
  obtain a v where a: "holds ell a v" "n_elems v = n" "elems ell v = w" "fs path = Some (file_of ell n (p_buf a))"
    using assms(1) unfolding stored_def by blast
  have "aux_ok ell n a" using a(1,2) by (simp add: holds_def)
  then show ?thesis using load_whole [OF a(1) assms(2), of aux path fs] a assms(3-5) by (auto simp: aux_ok_def)
qed

text \<open>What has to be promised about the machine for an operation to succeed on vectors of \<open>n\<close> elements.\<close>

definition host_ok :: "host \<Rightarrow> nat \<Rightarrow> nat \<Rightarrow> bool" where
  "host_ok h ell n \<longleftrightarrow> (\<forall>p. openable h p) \<and> (\<forall>d. writable h d) \<and> (\<forall>p. removable h p) \<and> (\<forall>k. alloc h k) \<and> (\<forall>k. junk h k \<noteq> None) \<and>
     (\<forall>k. token_hex h k \<noteq> root_name) \<and>
     (\<forall>e \<in> {1, ell}. \<exists>b. bytesFor e n = Inr b \<and> b < 2 ^ 63 \<and> 20 + b \<le> room h)"

lemma host_pack:
  assumes "host_ok h ell n" "e = 1 \<or> e = ell"
  obtains aux where "py_RvectorPack (alloc h) e n = Inr aux" "aux_ok e n aux" "20 + length (p_buf aux) \<le> room h"
proof -
  obtain b where b: "bytesFor e n = Inr b" "b < 2 ^ 63" "20 + b \<le> room h" using assms by (auto simp: host_ok_def)
  then have "rp_new (alloc h) e n = Inr \<lparr>p_ell = e, p_n = n, p_buf = replicate b 0\<rparr>"
    using assms(1) bytesFor_Inr [OF b(1)] by (auto simp: rp_new_def aligned_allocate_def host_ok_def throw_if_def Let_def usz_def)
  then show thesis using that rp_new_ok b by (simp add: py_RvectorPack_def)
qed

lemma save_pair_ok:
  assumes v: "rv_ok ell (thisShare node)" "rv_ok ell (nxtShare node)" "n_elems (thisShare node) = n" "n_elems (nxtShare node) = n"
    and aux: "aux_ok ell n aux" and h: "\<forall>p. openable h p" "20 + length (p_buf aux) \<le> room h"
  shows "\<exists>fs' aux'. save_pair h ell token node aux fs = (fs', aux', Inr ()) \<and> aux_ok ell n aux' \<and> length (p_buf aux') = length (p_buf aux) \<and>
    stored ell n fs' (this_path token) (elems ell (thisShare node)) \<and> stored ell n fs' (nxt_path token) (elems ell (nxtShare node)) \<and>
    others_kept token fs fs'"
proof -
  obtain f1 a1 where 1: "save ell (openable h) (drain h) (room h) (this_path token) (thisShare node) aux fs = (f1, a1, Inr ())" "aux_ok ell n a1"
    "length (p_buf a1) = length (p_buf aux)" "stored ell n f1 (this_path token) (elems ell (thisShare node))"
    "\<And>q. q \<noteq> this_path token \<Longrightarrow> f1 q = fs q"
    using save_stored [where can = "openable h" and space = "room h" and fs = fs, OF v(1,3) aux path_ext(1) _ h(2)] h(1) by blast
  obtain f2 a2 where 2: "save ell (openable h) (drain h) (room h) (nxt_path token) (nxtShare node) a1 f1 = (f2, a2, Inr ())" "aux_ok ell n a2"
    "length (p_buf a2) = length (p_buf a1)" "stored ell n f2 (nxt_path token) (elems ell (nxtShare node))"
    "\<And>q. q \<noteq> nxt_path token \<Longrightarrow> f2 q = f1 q"
    using save_stored [where can = "openable h" and space = "room h" and fs = f1, OF v(2,4) 1(2) path_ext(2)] h 1(3) by metis
  have "stored ell n f2 (this_path token) (elems ell (thisShare node))" using 1(4) 2(5) by (simp add: stored_def)
  then show ?thesis using 1 2 by (simp add: save_pair_def others_kept_def)
qed


section \<open>Operations that return\<close>

text \<open>A cache that can be used: its file, if there is one yet, describes it.\<close>

definition live :: "tree_cache \<Rightarrow> bool" where
  "live c \<longleftrightarrow> tree_ok c \<and> \<not> corrupted c \<and> meta c \<in> {None, Some (Inr (meta_doc ''valid'' c))}"

lemma tree_ok_upd [simp]: "tree_ok (c\<lparr>meta := m\<rparr>) = tree_ok c" "tree_ok (c\<lparr>corrupted := b\<rparr>) = tree_ok c"
  "tree_ok (c\<lparr>files := fs\<rparr>) = tree_ok c"
  by (simp_all add: tree_ok_def)

lemma meta_doc_upd [simp]: "meta_doc s (c\<lparr>meta := m\<rparr>) = meta_doc s c" "meta_doc s (c\<lparr>corrupted := b\<rparr>) = meta_doc s c"
  "meta_doc s (c\<lparr>files := fs\<rparr>) = meta_doc s c"
  by (simp_all add: meta_doc_def)

lemma mark_corrupted_ok:
  "openable h ''meta.json'' \<Longrightarrow> \<forall>d. writable h d \<Longrightarrow> mark_corrupted h c = (c\<lparr>corrupted := True, meta := Some (Inr (meta_doc ''dirty'' c))\<rparr>, Inr ())"
  by (simp add: mark_corrupted_def write_meta_def)

lemma mark_valid_ok:
  "openable h ''meta.json'' \<Longrightarrow> \<forall>d. writable h d \<Longrightarrow> mark_valid h c = (c\<lparr>meta := Some (Inr (meta_doc ''valid'' c)), corrupted := False\<rparr>, Inr ())"
  by (simp add: mark_valid_def write_meta_def)

lemma drop_pair_ok:
  "\<forall>p. removable h p \<Longrightarrow> drop_pair h t fs = (fs(this_path t := None, nxt_path t := None), Inr ())"
  by (auto simp: drop_pair_def unlink_def fun_eq_iff)

text \<open>Two different new draws are enough for an insertion.\<close>

definition draws_new :: "host \<Rightarrow> nat \<Rightarrow> tree_cache \<Rightarrow> bool" where
  "draws_new h k c \<longleftrightarrow> (\<exists>i \<ge> k. \<exists>j > i. map_of (phi_f c) (token_hex h i) = None \<and> map_of (phi_f c) (token_hex h j) = None \<and>
     token_hex h i \<noteq> token_hex h j)"

lemma new_token_drawn: "new_token h k f = Some r \<Longrightarrow> \<exists>i. r = (token_hex h i, Suc i)"
  by (rule new_token.raw_induct [where P = "\<lambda>h k f r. \<exists>i. r = (token_hex h i, Suc i)"], force split: if_splits)

lemma draw_two:
  assumes "draws_new h k c" "\<forall>i. token_hex h i \<noteq> root_name"
  obtains token k' new k'' where "new_token h k (phi_f c) = Some (token, k')" "map_of (phi_f c) token = None" "token \<noteq> root_name"
    "new_token h k' (AList.update token x (phi_f c)) = Some (new, k'')" "new \<noteq> root_name"
proof -
  obtain i j where ij: "k \<le> i" "i < j" "map_of (phi_f c) (token_hex h i) = None" "map_of (phi_f c) (token_hex h j) = None"
    "token_hex h i \<noteq> token_hex h j" using assms(1) by (auto simp: draws_new_def)
  obtain token k' where 1: "new_token h k (phi_f c) = Some (token, k')" "k' \<le> Suc i" using new_token_returns [OF ij(1,3)] by blast
  have "\<exists>m \<ge> k'. map_of (AList.update token x (phi_f c)) (token_hex h m) = None"
  proof (cases "token = token_hex h j")
    case True
    then have "k' \<noteq> Suc i" using new_token_drawn [OF 1(1)] ij(5) by auto
    then show ?thesis using True 1(2) ij by (intro exI [of _ i]) (auto simp: AList.update_conv')
  next
    case False
    then show ?thesis using 1(2) ij by (intro exI [of _ j]) (auto simp: AList.update_conv')
  qed
  then obtain m where "k' \<le> m" "map_of (AList.update token x (phi_f c)) (token_hex h m) = None" by blast
  from new_token_returns [OF this] obtain new k'' where 2: "new_token h k' (AList.update token x (phi_f c)) = Some (new, k'')" by blast
  show thesis
    by (rule that [OF 1(1) _ _ 2]) (use new_token_fresh [OF 1(1)] new_token_drawn [OF 1(1)] new_token_drawn [OF 2] assms(2) in auto)
qed


lemma tc_insert_ok:
  assumes c: "live c" and h: "host_ok h ell (filter_size c)" "draws_new h k c"
    and node: "rv_ok 1 (thisShare node)" "rv_ok 1 (nxtShare node)" "n_elems (thisShare node) = filter_size c"
      "n_elems (nxtShare node) = filter_size c"
  defines "L \<equiv> leaf_num c"
  shows "\<exists>c' token new. tc_insert h k node c = Some (c', Inr token) \<and> live c' \<and> leaf_num c' = L + 1 \<and> map_of (phi_f c) token = None \<and>
    token \<noteq> root_name \<and>
    map_of (phi_r c') = (\<lambda>y. if y = 2 * L + 1 then Some token else if L \<noteq> 0 \<and> y = L then Some new
      else if L \<noteq> 0 \<and> y = 2 * L then map_of (phi_r c) L else map_of (phi_r c) y) \<and>
    dirty_leaf c' = Set.insert (2 * L + 1) (if L \<in> dirty_leaf c then Set.insert (2 * L) (dirty_leaf c - {L}) else dirty_leaf c) \<and>
    stored 1 (filter_size c) (files c') (this_path token) (elems 1 (thisShare node)) \<and>
    stored 1 (filter_size c) (files c') (nxt_path token) (elems 1 (nxtShare node)) \<and> others_kept token (files c) (files c') \<and>
    filter_size c' = filter_size c \<and> root_ell c' = root_ell c"
proof -
  let ?n = "filter_size c"
  have op: "\<forall>p. openable h p" and wr: "\<forall>d. writable h d" and hex: "\<forall>i. token_hex h i \<noteq> root_name"
    using h(1) by (simp_all add: host_ok_def)
  obtain token k' new k'' where t: "new_token h k (phi_f c) = Some (token, k')" "map_of (phi_f c) token = None" "token \<noteq> root_name"
    "new_token h k' (AList.update token (2 * L + 1) (phi_f c)) = Some (new, k'')" "new \<noteq> root_name"
    by (rule draw_two [OF h(2) hex])
  obtain aux where aux: "py_RvectorPack (alloc h) 1 ?n = Inr aux" "aux_ok 1 ?n aux" "20 + length (p_buf aux) \<le> room h"
    by (rule host_pack [OF h(1), of 1]) simp
  obtain fs' aux' where fs: "save_pair h 1 token node aux (files c) = (fs', aux', Inr ())"
    "stored 1 ?n fs' (this_path token) (elems 1 (thisShare node))" "stored 1 ?n fs' (nxt_path token) (elems 1 (nxtShare node))"
    "others_kept token (files c) fs'"
    using save_pair_ok [OF node aux(2) op aux(3), of token "files c"] by blast
  define c1 where "c1 = c\<lparr>corrupted := True, meta := Some (Inr (meta_doc ''dirty'' c))\<rparr>"
  define c2 where "c2 = c1\<lparr>files := fs'\<rparr>"
  have c2: "tree_ok c2" "leaf_num c2 = L" "phi_f c2 = phi_f c" "phi_r c2 = phi_r c" "dirty_leaf c2 = dirty_leaf c"
    "files c2 = fs'" "filter_size c2 = ?n" "root_ell c2 = root_ell c"
    using c by (simp_all add: c1_def c2_def live_def L_def tree_ok_def)
  obtain c3 where c3: "add_leaf h k' token c2 = Some (c3, Inr ())" "tree_ok c3" "leaf_num c3 = L + 1"
    "map_of (phi_r c3) = (\<lambda>y. if y = 2 * L + 1 then Some token else if L \<noteq> 0 \<and> y = L then Some new
      else if L \<noteq> 0 \<and> y = 2 * L then map_of (phi_r c) L else map_of (phi_r c) y)"
    "dirty_leaf c3 = (if L \<in> dirty_leaf c then Set.insert (2 * L) (dirty_leaf c - {L}) else dirty_leaf c)"
    "files c3 = fs'" "filter_size c3 = ?n" "root_ell c3 = root_ell c"
    using add_leaf_ok [OF c2(1), of token h k' new k'', unfolded c2(2-8), OF t(2,3,4,5)] by blast
  have x: "map_of (phi_f c3) token = Some (2 * L + 1)" using c3(4) token_of [OF c3(2), of "2 * L + 1" token] by simp
  define c4 where "c4 = c3\<lparr>dirty_leaf := Set.insert (2 * L + 1) (dirty_leaf c3)\<rparr>"
  have ok4: "tree_ok c4" using c3(2,3) by (simp add: c4_def tree_ok_def)
  have "tc_insert h k node c = Some (c4\<lparr>meta := Some (Inr (meta_doc ''valid'' c4)), corrupted := False\<rparr>, Inr token)"
    using c op wr aux(1) t(1) fs(1) c3(1) [unfolded c2_def c1_def] x
    by (simp add: tc_insert_def live_def mark_corrupted_ok mark_valid_ok c4_def)
  then show ?thesis using ok4 c3 t fs by (auto simp: live_def c4_def)
qed


lemma tc_update_ok:
  assumes c: "live c" and h: "host_ok h ell (filter_size c)"
    and x: "map_of (phi_f c) token = Some x" "leaf_num c \<le> x"
    and node: "rv_ok 1 (thisShare node)" "rv_ok 1 (nxtShare node)" "n_elems (thisShare node) = filter_size c"
      "n_elems (nxtShare node) = filter_size c"
  shows "\<exists>c'. tc_update h token node c = (c', Inr ()) \<and> live c' \<and> leaf_num c' = leaf_num c \<and> map_of (phi_r c') = map_of (phi_r c) \<and>
    dirty_leaf c' = Set.insert x (dirty_leaf c) \<and>
    stored 1 (filter_size c) (files c') (this_path token) (elems 1 (thisShare node)) \<and>
    stored 1 (filter_size c) (files c') (nxt_path token) (elems 1 (nxtShare node)) \<and> others_kept token (files c) (files c') \<and>
    filter_size c' = filter_size c \<and> root_ell c' = root_ell c"
proof -
  let ?n = "filter_size c"
  have op: "\<forall>p. openable h p" and wr: "\<forall>d. writable h d" using h by (simp_all add: host_ok_def)
  obtain aux where aux: "py_RvectorPack (alloc h) 1 ?n = Inr aux" "aux_ok 1 ?n aux" "20 + length (p_buf aux) \<le> room h"
    by (rule host_pack [OF h, of 1]) simp
  obtain fs' aux' where fs: "save_pair h 1 token node aux (files c) = (fs', aux', Inr ())"
    "stored 1 ?n fs' (this_path token) (elems 1 (thisShare node))" "stored 1 ?n fs' (nxt_path token) (elems 1 (nxtShare node))"
    "others_kept token (files c) fs'"
    using save_pair_ok [OF node aux(2) op aux(3), of token "files c"] by blast
  define c1 where "c1 = c\<lparr>files := fs', dirty_leaf := Set.insert x (dirty_leaf c)\<rparr>"
  have "map_of (phi_r c) x = Some token" using x(1) token_of [of c x token] c by (simp add: live_def)
  then have "x < 2 * leaf_num c" using node_bound [of c x] c by (auto simp: live_def)
  then have "tree_ok c1" using c x(2) by (simp add: c1_def tree_ok_def live_def)
  moreover have "tc_update h token node c = (c1\<lparr>meta := Some (Inr (meta_doc ''valid'' c1)), corrupted := False\<rparr>, Inr ())"
    using c op wr aux(1) fs(1) x by (simp add: tc_update_def live_def mark_corrupted_ok mark_valid_ok c1_def meta_doc_def)
  ultimately show ?thesis using fs by (simp add: live_def c1_def)
qed

text \<open>The last leaf, and one of several.\<close>

lemma tc_remove_last:
  assumes c: "live c" and h: "host_ok h ell n" and x: "map_of (phi_f c) token = Some x" and one: "leaf_num c = 1"
  shows "\<exists>c'. tc_remove h token c = (c', Inr ()) \<and> live c' \<and> leaf_num c' = 0 \<and> dirty_leaf c' = {} \<and> map_of (phi_r c') = Map.empty \<and>
    others_kept token (files c) (files c') \<and> filter_size c' = filter_size c \<and> root_ell c' = root_ell c"
proof -
  have h': "\<forall>p. openable h p" "\<forall>p. removable h p" "\<forall>d. writable h d" using h by (simp_all add: host_ok_def)
  have ok: "tree_ok c" using c by (simp add: live_def)
  have r: "map_of (phi_r c) y = None \<longleftrightarrow> y \<noteq> 1" for y using node_bound [OF ok, of y] one by auto
  have "map_of (phi_r c) x = Some token" using x token_of [OF ok] by simp
  then have x1: "x = 1" using r [of x] by simp
  have f: "map_of (phi_f c) t = None" if "t \<noteq> token" for t
  proof (rule ccontr)
    assume "map_of (phi_f c) t \<noteq> None"
    then obtain y where "map_of (phi_r c) y = Some t" using token_of [OF ok] by blast
    moreover from this have "y = 1" using r [of y] by auto
    ultimately show False using \<open>map_of (phi_r c) x = Some token\<close> x1 that by simp
  qed
  define c1 where "c1 = c\<lparr>phi_f := AList.delete token (phi_f c), phi_r := AList.delete 1 (phi_r c), leaf_num := 0, dirty_leaf := {},
    files := (files c)(this_path token := None, nxt_path token := None)\<rparr>"
  have e: "map_of (phi_f c1) = Map.empty" "map_of (phi_r c1) = Map.empty"
    using f r by (auto simp: c1_def AList.delete_conv' fun_eq_iff)
  then have "tree_ok c1" using ok by (simp add: tree_ok_def paired_def distinct_delete) (simp add: c1_def distinct_delete)
  moreover have "tc_remove h token c = (c1\<lparr>meta := Some (Inr (meta_doc ''valid'' c1)), corrupted := False\<rparr>, Inr ())"
    using c h' x x1 one r [of 1]
    by (auto simp: tc_remove_def live_def mark_corrupted_ok mark_valid_ok collapse_def py_del_def drop_pair_ok c1_def meta_doc_def)
  ultimately show ?thesis using e by (simp add: live_def) (simp add: c1_def others_kept_def)
qed

lemma tc_remove_ok:
  assumes c: "live c" and h: "host_ok h ell n" and x: "map_of (phi_f c) token = Some x" "leaf_num c \<le> x" and two: "2 \<le> leaf_num c"
  defines "k \<equiv> leaf_num c - 1"
  shows "\<exists>c' internal. tc_remove h token c = (c', Inr ()) \<and> live c' \<and> leaf_num c' = k \<and> map_of (phi_r c) k = Some internal \<and>
    map_of (phi_r c') = (\<lambda>y. if y = 2 * k \<or> y = 2 * k + 1 then None
      else if y = k then map_of (phi_r c) (if x = 2 * k then 2 * k + 1 else 2 * k)
      else if y = x then map_of (phi_r c) (2 * k + 1) else map_of (phi_r c) y) \<and>
    dirty_leaf c' = Set.insert k ((if x = 2 * k \<or> x = 2 * k + 1 then dirty_leaf c else Set.insert x (dirty_leaf c)) - {2 * k, 2 * k + 1}) \<and>
    (\<forall>q. q \<notin> {this_path token, nxt_path token, this_path internal, nxt_path internal} \<longrightarrow> files c' q = files c q) \<and>
    filter_size c' = filter_size c \<and> root_ell c' = root_ell c"
proof -
  have h': "\<forall>p. openable h p" "\<forall>p. removable h p" "\<forall>d. writable h d" using h by (simp_all add: host_ok_def)
  define c1 where "c1 = c\<lparr>corrupted := True, meta := Some (Inr (meta_doc ''dirty'' c))\<rparr>"
  have c1: "tree_ok c1" "leaf_num c1 = leaf_num c" "phi_f c1 = phi_f c" "phi_r c1 = phi_r c" "dirty_leaf c1 = dirty_leaf c"
    "files c1 = files c" "filter_size c1 = filter_size c" "root_ell c1 = root_ell c"
    using c by (simp_all add: c1_def live_def)
  obtain c2 internal where c2: "collapse token x c1 = Inr (c2, Some internal)" "tree_ok c2" "leaf_num c2 = k" "map_of (phi_r c) k = Some internal"
    "map_of (phi_r c2) = (\<lambda>y. if y = 2 * k \<or> y = 2 * k + 1 then None
      else if y = k then map_of (phi_r c) (if x = 2 * k then 2 * k + 1 else 2 * k)
      else if y = x then map_of (phi_r c) (2 * k + 1) else map_of (phi_r c) y)"
    "dirty_leaf c2 = Set.insert k ((if x = 2 * k \<or> x = 2 * k + 1 then dirty_leaf c else Set.insert x (dirty_leaf c)) - {2 * k, 2 * k + 1})"
    "files c2 = files c" "filter_size c2 = filter_size c" "root_ell c2 = root_ell c"
    using collapse_ok [OF c1(1), of token x, unfolded c1(2-8) k_def [symmetric], OF x two] by blast
  define c3 where "c3 = c2\<lparr>files := (files c)(this_path token := None, nxt_path token := None, this_path internal := None, nxt_path internal := None)\<rparr>"
  have "tc_remove h token c = (c3\<lparr>meta := Some (Inr (meta_doc ''valid'' c3)), corrupted := False\<rparr>, Inr ())"
    using c h' x c2(1) [unfolded c1_def] c2(7)
    by (simp add: tc_remove_def live_def mark_corrupted_ok mark_valid_ok drop_pair_ok c3_def)
  moreover have "tree_ok c3" using c2(2) by (simp add: c3_def)
  ultimately show ?thesis using c2 by (simp add: live_def) (simp add: c3_def)
qed

end
