(* ===== verification/Tree_Merge.thy ===== *)
theory Tree_Merge
  imports Tree_Cache_Facts
begin

text \<open>
  The parts of the tree cache (\<^verbatim>\<open>src/mpmt/_tree_cache.py\<close>) in which the three agents talk to each other: opening a
  cache and \<open>execute_merge\<close>; and the union of two shared filters that an agent passes to it (\<open>_merge\<close> of
  \<^verbatim>\<open>agent_server.py\<close>). Vectors of bits live in one store, those over the root's ring in another.
\<close>

section \<open>Vectors, buffers and callbacks\<close>

type_synonym merge_fn = "ShrRep3ShareVec \<Rightarrow> ShrRep3ShareVec \<Rightarrow> ShrRep3ShareVec \<Rightarrow> store \<Rightarrow> aby3 \<Rightarrow> store party"
type_synonym ring_conv_fn = "ShrRep3ShareVec \<Rightarrow> ShrRep3ShareVec \<Rightarrow> nat \<Rightarrow> store \<Rightarrow> store \<Rightarrow> aby3 \<Rightarrow> store party"

text \<open>\<open>prefetch_buf[i]\<close>, and what is allocated for the first \<open>n\<close> of them.\<close>

definition buf :: "nat \<Rightarrow> ShrRep3ShareVec" where
  "buf i = \<lparr>thisShare = 2 * i, nxtShare = 2 * i + 1\<rparr>"

definition new_share :: "host \<Rightarrow> nat \<Rightarrow> nat \<Rightarrow> ShrRep3ShareVec \<Rightarrow> store \<Rightarrow> store res" where
  "new_share h ell n sv st =
     rbind (py_ShrRep3ShareVec ell) (\<lambda>ell. rbind (share_vec_new (junk h) (junk h) ell n) (\<lambda>x. Inr (share_vec_assign sv x st)))"

primrec new_bufs :: "host \<Rightarrow> nat \<Rightarrow> nat \<Rightarrow> store \<Rightarrow> store res" where
  "new_bufs h n 0 st = Inr st"
| "new_bufs h n (Suc i) st = rbind (new_bufs h n i st) (new_share h 1 n (buf i))"

definition load_share :: "nat \<Rightarrow> string \<Rightarrow> ShrRep3ShareVec \<Rightarrow> files \<Rightarrow> store \<times> rpack \<Rightarrow> (store \<times> rpack) res" where
  "load_share ell token sv fs s =
     (case s of (st, aux) \<Rightarrow>
        case load ell (this_path token) (st (thisShare sv)) aux fs of
          (_, _, Inl e) \<Rightarrow> Inl e
        | (v, aux, Inr _) \<Rightarrow>
          let st = st(thisShare sv := v) in
          case load ell (nxt_path token) (st (nxtShare sv)) aux fs of
            (_, _, Inl e) \<Rightarrow> Inl e
          | (v, aux, Inr _) \<Rightarrow> Inr (st(nxtShare sv := v), aux))"

definition share_at_refs :: "store \<Rightarrow> ShrRep3ShareVec \<Rightarrow> rvec shr_rep3" where
  "share_at_refs st sv = \<lparr>thisShare = st (thisShare sv), nxtShare = st (nxtShare sv)\<rparr>"

text \<open>What a merge works on: the cache, both stores, the two packing buffers and the sharing object.\<close>

record workspace =
  tree :: tree_cache
  bufs :: store
  roots :: store
  pack_1 :: rpack
  pack_root :: rpack
  shr :: aby3

definition save_buf :: "host \<Rightarrow> string \<Rightarrow> ShrRep3ShareVec \<Rightarrow> workspace \<Rightarrow> workspace res" where
  "save_buf h token sv w =
     (case save_pair h 1 token (share_at_refs (bufs w) sv) (pack_1 w) (files (tree w)) of
        (fs, aux, r) \<Rightarrow> rbind r (\<lambda>_. Inr (w\<lparr>tree := (tree w)\<lparr>files := fs\<rparr>, pack_1 := aux\<rparr>)))"

text \<open>The root's bits become elements of its ring, in memory and in its files.\<close>

definition convert_root :: "host \<Rightarrow> ring_conv_fn \<Rightarrow> ShrRep3ShareVec \<Rightarrow> ShrRep3ShareVec \<Rightarrow> workspace \<Rightarrow> (side, workspace) proc" where
  "convert_root h ring_conv root sv w =
     pbind (ring_conv sv root (root_ell (tree w)) (bufs w) (roots w) (shr w)) (\<lambda>(rst, a).
     lift_res (case save_pair h (root_ell (tree w)) root_name (share_at_refs rst root) (pack_root w) (files (tree w)) of
        (fs, aux, r) \<Rightarrow> rbind r (\<lambda>_. Inr (w\<lparr>tree := (tree w)\<lparr>files := fs\<rparr>, roots := rst, pack_root := aux, shr := a\<rparr>))))"

section \<open>Merging\<close>

text \<open>The inner nodes above a node.\<close>

fun ancestors :: "nat \<Rightarrow> nat list" where
  "ancestors node = (if node div 2 > 0 then node div 2 # ancestors (node div 2) else [])"

declare ancestors.simps [simp del]

definition dirty_node :: "tree_cache \<Rightarrow> nat list" where
  "dirty_node c = rev (sorted_list_of_set (\<Union>node \<in> dirty_leaf c. List.set (ancestors node)))"

definition merge_node :: "host \<Rightarrow> merge_fn \<Rightarrow> ring_conv_fn \<Rightarrow> ShrRep3ShareVec \<Rightarrow> nat \<Rightarrow> workspace \<Rightarrow> (side, workspace) proc" where
  "merge_node h merge ring_conv root node w =
     pbind (lift_res (
       rbind (look (phi_r (tree w)) node) (\<lambda>out_token.
       rbind (look (phi_r (tree w)) (node * 2)) (\<lambda>lc_token.
       rbind (look (phi_r (tree w)) (node * 2 + 1)) (\<lambda>rc_token.
       rbind (load_share 1 lc_token (buf 1) (files (tree w)) (bufs w, pack_1 w)) (\<lambda>s.
       rbind (load_share 1 rc_token (buf 2) (files (tree w)) s) (\<lambda>(st, aux).
       Inr (out_token, w\<lparr>bufs := st, pack_1 := aux\<rparr>)))))))) (\<lambda>(out_token, w).
     pbind (merge (buf 1) (buf 2) (buf 0) (bufs w) (shr w)) (\<lambda>(st, a).
     pbind (lift_res (save_buf h out_token (buf 0) (w\<lparr>bufs := st, shr := a\<rparr>))) (\<lambda>w.
     if node = 1 then convert_root h ring_conv root (buf 0) w else Ret w)))"

primrec merge_nodes :: "host \<Rightarrow> merge_fn \<Rightarrow> ring_conv_fn \<Rightarrow> ShrRep3ShareVec \<Rightarrow> nat list \<Rightarrow> workspace \<Rightarrow> (side, workspace) proc" where
  "merge_nodes h merge ring_conv root [] w = Ret w"
| "merge_nodes h merge ring_conv root (node # nodes) w =
     pbind (merge_node h merge ring_conv root node w) (merge_nodes h merge ring_conv root nodes)"

text \<open>What is allocated at the beginning: \<open>k\<close> buffers and two packing buffers.\<close>

definition workspace_for :: "host \<Rightarrow> nat \<Rightarrow> tree_cache \<Rightarrow> store \<Rightarrow> store \<Rightarrow> aby3 \<Rightarrow> workspace res" where
  "workspace_for h k c st rst a =
     rbind (new_bufs h (filter_size c) k st) (\<lambda>st.
     rbind (py_RvectorPack (alloc h) 1 (filter_size c)) (\<lambda>pack_1.
     rbind (py_RvectorPack (alloc h) (root_ell c) (filter_size c)) (\<lambda>pack_root.
     Inr \<lparr>tree = c, bufs = st, roots = rst, pack_1 = pack_1, pack_root = pack_root, shr = a\<rparr>)))"

text \<open>The cases without a leaf, with one, and with several. An exception ends the process.\<close>

definition clear_root :: "host \<Rightarrow> ShrRep3ShareVec \<Rightarrow> tree_cache \<Rightarrow> store \<Rightarrow> (tree_cache \<times> store) res" where
  "clear_root h root c rst =
     rbind (rv_fill (root_ell c) 0 (rst (thisShare root))) (\<lambda>v.
     let rst = rst(thisShare root := v) in
     rbind (rv_fill (root_ell c) 0 (rst (nxtShare root))) (\<lambda>v.
     let rst = rst(nxtShare root := v) in
     case drop_pair h root_name (files c) of (fs, r) \<Rightarrow> rbind r (\<lambda>_. Inr (c\<lparr>files := fs\<rparr>, rst))))"

definition root_files :: "tree_cache \<Rightarrow> bool" where
  "root_files c \<longleftrightarrow> files c (this_path root_name) \<noteq> None \<and> files c (nxt_path root_name) \<noteq> None"

definition merge_one :: "host \<Rightarrow> ring_conv_fn \<Rightarrow> ShrRep3ShareVec \<Rightarrow> tree_cache \<Rightarrow> store \<Rightarrow> store \<Rightarrow> aby3 \<Rightarrow> (side, workspace) proc" where
  "merge_one h ring_conv root c st rst a =
     pbind (lift_res (
       rbind (look (phi_r c) 1) (\<lambda>leaf_token.
       rbind (workspace_for h 1 c st rst a) (\<lambda>w.
       rbind (load_share 1 leaf_token (buf 0) (files c) (bufs w, pack_1 w)) (\<lambda>(st, aux).
       Inr (w\<lparr>bufs := st, pack_1 := aux\<rparr>)))))) (convert_root h ring_conv root (buf 0))"

definition merge_tree :: "host \<Rightarrow> merge_fn \<Rightarrow> ring_conv_fn \<Rightarrow> ShrRep3ShareVec \<Rightarrow> tree_cache \<Rightarrow> store \<Rightarrow> store \<Rightarrow> aby3 \<Rightarrow>
    (side, tree_cache \<times> store \<times> store \<times> aby3) proc" where
  "merge_tree h merge ring_conv root c st rst a =
     (if leaf_num c = 0
      then lift_res (rbind (clear_root h root c rst) (\<lambda>(c, rst). Inr (c\<lparr>dirty_leaf := {}\<rparr>, st, rst, a)))
      else if leaf_num c = 1
      then if dirty_leaf c \<noteq> {} \<or> \<not> root_files c
        then pbind (merge_one h ring_conv root c st rst a) (\<lambda>w.
             Ret ((tree w)\<lparr>dirty_leaf := {}\<rparr>, bufs w, roots w, shr w))
        else Ret (c\<lparr>dirty_leaf := {}\<rparr>, st, rst, a)
      else pbind (lift_res (workspace_for h 3 (c\<lparr>dirty_leaf := {}\<rparr>) st rst a)) (\<lambda>w.
           pbind (merge_nodes h merge ring_conv root (dirty_node c) w) (\<lambda>w. Ret (tree w, bufs w, roots w, shr w))))"

definition execute_merge :: "host \<Rightarrow> merge_fn \<Rightarrow> ring_conv_fn \<Rightarrow> ShrRep3ShareVec \<Rightarrow> tree_cache \<Rightarrow> store \<Rightarrow> store \<Rightarrow> aby3 \<Rightarrow>
    (side, tree_cache \<times> store \<times> store \<times> aby3) proc" where
  "execute_merge h merge ring_conv root c st rst a =
     (if corrupted c then Fail RuntimeError
      else case mark_corrupted h c of
        (_, Inl e) \<Rightarrow> Fail e
      | (c, Inr _) \<Rightarrow> pbind (merge_tree h merge ring_conv root c st rst a) (\<lambda>(c, st, rst, a).
          case mark_valid h c of (_, Inl e) \<Rightarrow> Fail e | (c, Inr _) \<Rightarrow> Ret (c, st, rst, a)))"

section \<open>The callbacks of an agent\<close>

text \<open>The union of two filters: the sum less the product; \<open>merge_buf\<close> is the agent's own buffer.\<close>

definition agent_merge :: "ccrh \<Rightarrow> heap \<Rightarrow> ShrRep3ShareVec \<Rightarrow> merge_fn" where
  "agent_merge ccrh heap merge_buf sva svb svout st a =
     pbind (lift_res (add_vec 1 sva svb svout st)) (\<lambda>st.
     pbind (rss_hadamard_vec ccrh heap heap 1 sva svb merge_buf st a) (\<lambda>(st, a).
     pbind (lift_res (sub_vec 1 svout merge_buf svout st)) (\<lambda>st. Ret (st, a))))"

text \<open>\<open>ring_conv_vec\<close> of the agent's sharing object; \<open>ell\<close> is the width of the root's vectors.\<close>

definition agent_ring_conv :: "ccrh \<Rightarrow> heap \<Rightarrow> pid \<Rightarrow> nat \<Rightarrow> ring_conv_fn" where
  "agent_ring_conv ccrh heap p ell sv sv_out ell_to bits st a =
     rss_ring_conv_vec ccrh heap heap p sv (Some ell) sv_out ell_to bits st a"

section \<open>Opening a cache\<close>

definition as_int :: "error \<Rightarrow> doc \<Rightarrow> int res" where
  "as_int e v = (case v of DInt i \<Rightarrow> Inr i | _ \<Rightarrow> Inl e)"

text \<open>A number that must be the one asked for.\<close>

definition same_number :: "(string \<times> doc) list \<Rightarrow> string \<Rightarrow> nat \<Rightarrow> unit res" where
  "same_number d key n =
     (case map_of d key of None \<Rightarrow> Inl RuntimeError
      | Some v \<Rightarrow> rbind (as_int TypeError v) (\<lambda>i. throw_if (i \<noteq> int n) ValueError))"

fun read_phi_f :: "(string \<times> doc) list \<Rightarrow> nat set \<Rightarrow> (string \<times> nat) list \<Rightarrow> (string \<times> nat) list res" where
  "read_phi_f [] used_node_ids new_phi_f = Inr new_phi_f"
| "read_phi_f ((token, node_id) # items) used_node_ids new_phi_f =
     (case node_id of
        DInt i \<Rightarrow> if i < 0 \<or> nat i \<in> used_node_ids then Inl RuntimeError
          else read_phi_f items (Set.insert (nat i) used_node_ids) (AList.update token (nat i) new_phi_f)
      | _ \<Rightarrow> Inl RuntimeError)"

fun read_phi_r :: "(string \<times> doc) list \<Rightarrow> (nat \<times> string) list \<Rightarrow> (nat \<times> string) list res" where
  "read_phi_r [] new_phi_r = Inr new_phi_r"
| "read_phi_r ((raw_node_id, token) # items) new_phi_r =
     (case py_int raw_node_id of
        Inl _ \<Rightarrow> Inl RuntimeError
      | Inr i \<Rightarrow> if i < 0 then Inl RuntimeError
          else case token of
            DStr t \<Rightarrow> if map_of new_phi_r (nat i) \<noteq> None then Inl RuntimeError
              else read_phi_r items (AList.update (nat i) t new_phi_r)
          | _ \<Rightarrow> Inl RuntimeError)"

definition as_dict :: "doc \<Rightarrow> (string \<times> doc) list res" where
  "as_dict v = (case v of DDict d \<Rightarrow> Inr d | _ \<Rightarrow> Inl RuntimeError)"

definition as_list :: "doc \<Rightarrow> doc list res" where
  "as_list v = (case v of DList l \<Rightarrow> Inr l | _ \<Rightarrow> Inl RuntimeError)"

text \<open>The fields of a valid document.\<close>

definition read_fields :: "(string \<times> doc) list \<Rightarrow> (nat \<times> (string \<times> nat) list \<times> (nat \<times> string) list \<times> nat set) res" where
  "read_fields d =
     rbind (look d ''leaf_num'') (\<lambda>leaf_num. rbind (look d ''phi_f'') (\<lambda>phi_f. rbind (look d ''phi_r'') (\<lambda>phi_r.
     rbind (look d ''dirty_leaf'') (\<lambda>raw_dirty_leaf.
     rbind (as_int RuntimeError leaf_num) (\<lambda>leaf_num. rbind (throw_if (leaf_num < 0) RuntimeError) (\<lambda>_.
     rbind (as_dict phi_f) (\<lambda>phi_f. rbind (as_dict phi_r) (\<lambda>phi_r. rbind (as_list raw_dirty_leaf) (\<lambda>raw_dirty_leaf.
     rbind (collect (map (as_int RuntimeError) raw_dirty_leaf)) (\<lambda>dirty.
     rbind (throw_if (if leaf_num = 0 then dirty \<noteq> [] else \<exists>x \<in> List.set dirty. x < leaf_num \<or> x > 2 * leaf_num - 1) RuntimeError) (\<lambda>_.
     rbind (read_phi_f phi_f {} []) (\<lambda>f. rbind (read_phi_r phi_r []) (\<lambda>r.
     rbind (throw_if (length f \<noteq> length r) RuntimeError) (\<lambda>_.
     rbind (throw_if (\<exists>(token, x) \<in> List.set f. map_of r x \<noteq> Some token) RuntimeError) (\<lambda>_.
     let expected_node_count = (if leaf_num = 0 then 0 else 2 * nat leaf_num - 1)
     in rbind (throw_if (fst ` List.set r \<noteq> List.set [1..<expected_node_count + 1]) RuntimeError) (\<lambda>_.
     Inr (nat leaf_num, f, r, nat ` List.set dirty)))))))))))))))))"

definition read_meta :: "nat \<Rightarrow> nat \<Rightarrow> doc res \<Rightarrow> files \<Rightarrow> tree_cache res" where
  "read_meta bf_size ell_root m fs =
     (case m of
        Inr (DDict d) \<Rightarrow>
          rbind (same_number d ''bf_size'' bf_size) (\<lambda>_. rbind (same_number d ''ell_root'' ell_root) (\<lambda>_.
          rbind (throw_if (\<not> List.set [''state'', ''leaf_num'', ''phi_f'', ''phi_r'', ''dirty_leaf''] \<subseteq> fst ` List.set d) RuntimeError) (\<lambda>_.
          rbind (look d ''state'') (\<lambda>s. rbind (throw_if (s \<noteq> DStr ''valid'') RuntimeError) (\<lambda>_.
          rbind (read_fields d) (\<lambda>(leaf_num, f, r, dirty).
          Inr \<lparr>filter_size = bf_size, root_ell = ell_root, corrupted = False, phi_f = f, phi_r = r, dirty_leaf = dirty,
            leaf_num = leaf_num, meta = Some m, files = fs\<rparr>))))))
      | _ \<Rightarrow> Inl RuntimeError)"

text \<open>\<open>__init__\<close>: \<open>listing\<close> is what \<^verbatim>\<open>iterdir\<close> gives; the root vector is made first.\<close>

definition pair_files :: "string \<Rightarrow> tree_cache \<Rightarrow> bool" where
  "pair_files token c \<longleftrightarrow> files c (this_path token) \<noteq> None \<and> files c (nxt_path token) \<noteq> None"

definition open_root :: "host \<Rightarrow> ring_conv_fn \<Rightarrow> ShrRep3ShareVec \<Rightarrow> tree_cache \<Rightarrow> store \<Rightarrow> store \<Rightarrow> aby3 \<Rightarrow>
    (side, tree_cache \<times> store \<times> store \<times> aby3) proc" where
  "open_root h ring_conv root c st rst a =
     (if leaf_num c = 0 then Ret (c, st, rst, a)
      else if root_files c
      then lift_res (rbind (py_RvectorPack (alloc h) (root_ell c) (filter_size c)) (\<lambda>tmp_pack_buf.
           rbind (load_share (root_ell c) root_name root (files c) (rst, tmp_pack_buf)) (\<lambda>(rst, _). Inr (c, st, rst, a))))
      else pbind (lift_res (look (phi_r c) 1)) (\<lambda>root_token.
        if pair_files root_token c
        then pbind (merge_one h ring_conv root c st rst a) (\<lambda>w. Ret (tree w, bufs w, roots w, shr w))
        else if leaf_num c = 1 then Fail RuntimeError
        else Ret (c\<lparr>dirty_leaf := dirty_leaf c \<union> List.set [leaf_num c..<2 * leaf_num c]\<rparr>, st, rst, a)))"

definition tc_open :: "host \<Rightarrow> ring_conv_fn \<Rightarrow> ShrRep3ShareVec \<Rightarrow> nat \<Rightarrow> nat \<Rightarrow> string list \<Rightarrow> doc res option \<Rightarrow> files \<Rightarrow>
    store \<Rightarrow> store \<Rightarrow> aby3 \<Rightarrow> (side, tree_cache \<times> store \<times> store \<times> aby3) proc" where
  "tc_open h ring_conv root bf_size ell_root listing meta_json fs st rst a =
     pbind (lift_res (new_share h ell_root bf_size root rst)) (\<lambda>rst.
     case meta_json of
       None \<Rightarrow> if listing \<noteq> [] then Fail RuntimeError
         else Ret (\<lparr>filter_size = bf_size, root_ell = ell_root, corrupted = False, phi_f = [], phi_r = [], dirty_leaf = {},
           leaf_num = 0, meta = None, files = fs\<rparr>, st, rst, a)
     | Some m \<Rightarrow> pbind (lift_res (read_meta bf_size ell_root m fs)) (\<lambda>c. open_root h ring_conv root c st rst a))"

end
