(* ===== verification/Tree_Shape.thy ===== *)
theory Tree_Shape
  imports Tree_Merge
begin

text \<open>
  The shape of the tree: which nodes are above a leaf, the union of what is below a node, and how both change when a leaf
  is split or two leaves become one.
\<close>

section \<open>Above and below\<close>

definition below :: "nat \<Rightarrow> nat \<Rightarrow> bool" where
  "below x y \<longleftrightarrow> (\<exists>i. y div 2 ^ i = x)"

lemma below_refl [simp]: "below x x"
  unfolding below_def by (intro exI [of _ 0]) simp

lemma below_step: "below x y \<longleftrightarrow> x = y \<or> below x (y div 2)"
proof
  assume "below x y"
  then obtain i where i: "y div 2 ^ i = x" by (auto simp: below_def)
  then show "x = y \<or> below x (y div 2)" by (cases i) (auto simp: below_def div_mult2_eq)
next
  assume "x = y \<or> below x (y div 2)"
  then show "below x y"
  proof
    assume "below x (y div 2)"
    then obtain i where "y div 2 div 2 ^ i = x" by (auto simp: below_def)
    then show "below x y" unfolding below_def by (intro exI [of _ "Suc i"]) (simp add: div_mult2_eq)
  qed simp
qed

lemma below_child: "below x (2 * y) \<longleftrightarrow> x = 2 * y \<or> below x y" "below x (2 * y + 1) \<longleftrightarrow> x = 2 * y + 1 \<or> below x y"
  by (subst below_step, simp)+

lemma below_trans: "below x y \<Longrightarrow> below y z \<Longrightarrow> below x z"
  unfolding below_def by (metis div_mult2_eq power_add)

lemma below_children: "below x (2 * x)" "below x (2 * x + 1)"
  by (simp_all only: below_child below_refl simp_thms)

lemma below_le: "below x y \<Longrightarrow> x \<le> y"
  unfolding below_def by auto

lemma below_one: "0 < y \<Longrightarrow> below 1 y"
proof (induction y rule: less_induct)
  case (less y)
  then show ?case by (cases "y = 1") (use below_step [of 1 y] in auto)
qed

lemma set_ancestors: "x \<in> List.set (ancestors y) \<longleftrightarrow> 0 < x \<and> below x (y div 2)"
proof (induction y rule: ancestors.induct)
  case (1 y)
  show ?case
  proof (cases "y div 2 > 0")
    case True
    then show ?thesis using 1 below_step [of x "y div 2"] by (subst ancestors.simps) auto
  next
    case False
    then show ?thesis by (subst ancestors.simps) (auto dest: below_le)
  qed
qed

text \<open>For an inner node and a leaf, being an ancestor and being above are the same.\<close>

lemma inner_ancestor: "0 < x \<Longrightarrow> x < d \<Longrightarrow> x \<in> List.set (ancestors d) \<longleftrightarrow> below x d"
  using below_step [of x d] by (auto simp: set_ancestors)

section \<open>Unions\<close>

definition or_bits :: "byte list \<Rightarrow> byte list \<Rightarrow> byte list" where
  "or_bits xs ys = map2 (OR) xs ys"

definition bits :: "byte list \<Rightarrow> bool" where
  "bits xs \<longleftrightarrow> List.set xs \<subseteq> {0, 1}"

function tree_or :: "nat \<Rightarrow> (nat \<Rightarrow> byte list) \<Rightarrow> nat \<Rightarrow> byte list" where
  "tree_or L lf x = (if L \<le> x \<or> x = 0 then lf x else or_bits (tree_or L lf (2 * x)) (tree_or L lf (2 * x + 1)))"
  by pat_completeness auto
termination by (relation "measure (\<lambda>(L, _, x). L - x)") auto

declare tree_or.simps [simp del]

lemma tree_or_leaf: "L \<le> x \<Longrightarrow> tree_or L lf x = lf x"
  by (simp add: tree_or.simps)

lemma tree_or_inner: "0 < x \<Longrightarrow> x < L \<Longrightarrow> tree_or L lf x = or_bits (tree_or L lf (2 * x)) (tree_or L lf (2 * x + 1))"
  by (subst tree_or.simps) simp

lemma tree_or_cong:
  assumes "0 < x" "\<And>y. below x y \<Longrightarrow> (L \<le> y \<longleftrightarrow> L' \<le> y) \<and> (L \<le> y \<longrightarrow> lf y = lf' y)"
  shows "tree_or L lf x = tree_or L' lf' x"
  using assms
proof (induction L lf x rule: tree_or.induct)
  case (1 L lf x)
  show ?case
  proof (cases "L \<le> x")
    case True
    then show ?thesis using 1(4) [of x] by (simp add: tree_or_leaf)
  next
    case False
    then have i: "\<not> (L \<le> x \<or> x = 0)" "x < L'" using 1(3) 1(4) [of x] by auto
    have "below x y" if "below (2 * x) y \<or> below (2 * x + 1) y" for y
      using that below_trans [OF below_children(1)] below_trans [OF below_children(2)] by blast
    then have "tree_or L lf (2 * x) = tree_or L' lf' (2 * x)" "tree_or L lf (2 * x + 1) = tree_or L' lf' (2 * x + 1)"
      using 1(1) [OF i(1)] 1(2) [OF i(1)] 1(3,4) by auto
    then show ?thesis using i 1(3) by (simp add: tree_or_inner)
  qed
qed

lemma length_or_bits: "length xs = n \<Longrightarrow> length ys = n \<Longrightarrow> length (or_bits xs ys) = n"
  by (simp add: or_bits_def)

lemma bits_or:
  assumes "bits xs" "bits ys"
  shows "bits (or_bits xs ys)"
  unfolding bits_def
proof
  fix x assume "x \<in> List.set (or_bits xs ys)"
  then obtain a b where ab: "(a, b) \<in> List.set (zip xs ys)" "x = a OR b" by (auto simp: or_bits_def)
  then have "a \<in> {0, 1}" "b \<in> {0, 1}"
    using assms set_zip_leftD [OF ab(1)] set_zip_rightD [OF ab(1)] unfolding bits_def by blast+
  then show "x \<in> {0, 1}" using ab(2) by auto
qed

lemma bit_or_iff: "a = 0 \<or> a = 1 \<Longrightarrow> b = 0 \<or> b = 1 \<Longrightarrow> a OR b = 1 \<longleftrightarrow> a = 1 \<or> b = 1" for a b :: byte
  by auto

text \<open>The bits below a node: those set in some leaf below it.\<close>

lemma tree_or_bits:
  assumes "0 < x" "x < 2 * L" "\<And>y. L \<le> y \<Longrightarrow> y < 2 * L \<Longrightarrow> length (lf y) = n \<and> bits (lf y)"
  shows "length (tree_or L lf x) = n \<and> bits (tree_or L lf x) \<and>
    (\<forall>j < n. tree_or L lf x ! j = 1 \<longleftrightarrow> (\<exists>y. L \<le> y \<and> y < 2 * L \<and> below x y \<and> lf y ! j = 1))"
  using assms
proof (induction L lf x rule: tree_or.induct)
  case (1 L lf x)
  show ?case
  proof (cases "L \<le> x")
    case True
    have "y = x" if "below x y" "y < 2 * L" for y
      using that(1) below_step [of x y] below_le [of x "y div 2"] that(2) True by auto
    then show ?thesis using 1(4) 1(5) [of x] True by (auto simp: tree_or_leaf)
  next
    case False
    then have i: "\<not> (L \<le> x \<or> x = 0)" using 1(3) by auto
    then have c: "0 < 2 * x" "2 * x < 2 * L" "0 < 2 * x + 1" "2 * x + 1 < 2 * L" by auto
    note l = 1(1) [OF i c(1,2) 1(5)] and r = 1(2) [OF i c(3,4) 1(5)]
    let ?l = "tree_or L lf (2 * x)" and ?r = "tree_or L lf (2 * x + 1)"
    have e: "tree_or L lf x = or_bits ?l ?r" using i by (simp add: tree_or_inner)
    have split: "below x y \<longleftrightarrow> below (2 * x) y \<or> below (2 * x + 1) y" if "L \<le> y" for y
    proof -
      have "below x y \<Longrightarrow> below (2 * x) y \<or> below (2 * x + 1) y" if "x < y" for y
        using that
      proof (induction y rule: less_induct)
        case (less y)
        then have b: "below x (y div 2)" using below_step [of x y] by auto
        show ?case
        proof (cases "x < y div 2")
          case True
          then show ?thesis using less.IH [OF _ b True] i below_step [of "2 * x" y] below_step [of "2 * x + 1" y] by auto
        next
          case False
          then have "y div 2 = x" using below_le [OF b] by simp
          then have "y = 2 * x \<or> y = 2 * x + 1" by arith
          then show ?thesis by auto
        qed
      qed
      moreover have "x < y" using i that by simp
      ultimately show ?thesis using below_trans [OF below_children(1)] below_trans [OF below_children(2)] by blast
    qed
    have "tree_or L lf x ! j = 1 \<longleftrightarrow> ?l ! j = 1 \<or> ?r ! j = 1" if j: "j < n" for j
    proof -
      have "?l ! j \<in> List.set ?l" "?r ! j \<in> List.set ?r" using l r j by auto
      then have "?l ! j = 0 \<or> ?l ! j = 1" "?r ! j = 0 \<or> ?r ! j = 1" using l r unfolding bits_def by blast+
      from bit_or_iff [OF this] show ?thesis using l r j by (simp add: e or_bits_def)
    qed
    moreover have "?l ! j = 1 \<or> ?r ! j = 1 \<longleftrightarrow> (\<exists>y. L \<le> y \<and> y < 2 * L \<and> below x y \<and> lf y ! j = 1)" if j: "j < n" for j
      using l r j split by blast
    ultimately show ?thesis using l r bits_or [of ?l ?r] length_or_bits [of ?l n ?r] unfolding e by simp
  qed
qed

end
