(* ===== verification/Tree_Merge_Facts.thy ===== *)
theory Tree_Merge_Facts
  imports Tree_Shape Aby3_Conv_Theorems
begin

text \<open>
  What the three agents compute when they merge their caches in step: the union of two shared filters, the conversion of
  the root, one node, and all of the nodes above dirty leaves.
\<close>

section \<open>The union of two shared vectors\<close>

lemma rep3_at:
  assumes "rep3_vec ell St V xs"
  obtains z where "\<And>p. vec_at ell (St p) (thisShare (V p)) (z p)" "\<And>p. vec_at ell (St p) (nxtShare (V p)) (z (NEXT p))"
    "\<And>p. length (z p) = length xs" "sums_to ell z xs"
  using assms that by (auto simp: rep3_vec_def vsharing_def sums_to_def)

lemma rep3_fitted: "rep3_vec ell St V xs \<Longrightarrow> length xs = n \<Longrightarrow> fitted ell (V p) n (St p)"
proof (erule rep3_at)
  fix z assume z: "\<And>p. vec_at ell (St p) (thisShare (V p)) (z p)" "\<And>p. vec_at ell (St p) (nxtShare (V p)) (z (NEXT p))"
    "\<And>p. length (z p) = length xs" and n: "length xs = n"
  show ?thesis using z(1,2) [of p] vec_at_length [OF z(1)] vec_at_length [OF z(2)] z(3) n by (simp add: fitted_def vec_at_def)
qed

lemma rep3_cong:
  assumes "rep3_vec ell St V xs" "\<And>p. St' p (thisShare (V p)) = St p (thisShare (V p))" "\<And>p. St' p (nxtShare (V p)) = St p (nxtShare (V p))"
  shows "rep3_vec ell St' V xs"
  using assms by (simp add: rep3_vec_def vsharing_def vec_at_def)

lemma linear_runs:
  assumes "\<And>p. no_overlap (V p) (U p)" "\<And>p. no_overlap (V p) (W p)"
    and "rep3_vec ell St U xs" "rep3_vec ell St W ys" "length ys = length xs"
    and "\<And>p. fitted ell (V p) (length xs) (St p)"
  shows "\<exists>St'. (\<forall>p. add_vec ell (U p) (W p) (V p) (St p) = Inr (St' p)) \<and> rep3_vec ell St' V (map2 (ringAdd8 ell) xs ys) \<and>
      (\<forall>p r. r \<notin> {thisShare (V p), nxtShare (V p)} \<longrightarrow> St' p r = St p r)"
    and "\<exists>St'. (\<forall>p. sub_vec ell (U p) (W p) (V p) (St p) = Inr (St' p)) \<and> rep3_vec ell St' V (map2 (ringSub8 ell) xs ys) \<and>
      (\<forall>p r. r \<notin> {thisShare (V p), nxtShare (V p)} \<longrightarrow> St' p r = St p r)"
proof -
  obtain s where s: "\<And>p. vec_at ell (St p) (thisShare (U p)) (s p)" "\<And>p. vec_at ell (St p) (nxtShare (U p)) (s (NEXT p))"
    "\<And>p. length (s p) = length xs" "sums_to ell s xs" by (rule rep3_at [OF assms(3)], rule that, assumption+)
  obtain t where t: "\<And>p. vec_at ell (St p) (thisShare (W p)) (t p)" "\<And>p. vec_at ell (St p) (nxtShare (W p)) (t (NEXT p))"
    "\<And>p. length (t p) = length xs" "sums_to ell t ys"
    by (rule rep3_at [OF assms(4)], rule that, assumption+) (simp_all add: assms(5))
  have ell: "ell \<le> 8" using vec_at_ell [OF s(1)] by simp
  note steps = linear_steps [OF assms(1,2) s(1,2) t(1,2) fitted_at(1,2) [OF assms(6)] s(3,3) t(3,3) fitted_at(3,4) [OF assms(6)]]
  show "\<exists>St'. (\<forall>p. add_vec ell (U p) (W p) (V p) (St p) = Inr (St' p)) \<and> rep3_vec ell St' V (map2 (ringAdd8 ell) xs ys) \<and>
      (\<forall>p r. r \<notin> {thisShare (V p), nxtShare (V p)} \<longrightarrow> St' p r = St p r)"
    by (rule gather_frame [where G = "\<lambda>p st. \<forall>r. r \<notin> {thisShare (V p), nxtShare (V p)} \<longrightarrow> st r = St p r", OF allI [OF steps(1)] refl
      sums_to_map2(1) [OF ell s(4) t(4) assms(5)]])
  show "\<exists>St'. (\<forall>p. sub_vec ell (U p) (W p) (V p) (St p) = Inr (St' p)) \<and> rep3_vec ell St' V (map2 (ringSub8 ell) xs ys) \<and>
      (\<forall>p r. r \<notin> {thisShare (V p), nxtShare (V p)} \<longrightarrow> St' p r = St p r)"
    by (rule gather_frame [where G = "\<lambda>p st. \<forall>r. r \<notin> {thisShare (V p), nxtShare (V p)} \<longrightarrow> st r = St p r", OF allI [OF steps(2)] refl
      sums_to_map2(2) [OF ell s(4) t(4) assms(5)]])
qed

lemma or_as_ring:
  assumes "bits xs" "bits ys"
  shows "map2 (ringSub8 1) (map2 (ringAdd8 1) xs ys) (map2 (ringMul8 1) xs ys) = or_bits xs ys"
proof -
  have "ringSub8 1 (ringAdd8 1 a b) (ringMul8 1 a b) = a OR b" if "(a, b) \<in> List.set (zip xs ys)" for a b
  proof -
    have "a \<in> {0, 1}" "b \<in> {0, 1}" using set_zip_leftD [OF that] set_zip_rightD [OF that] assms unfolding bits_def by blast+
    then show ?thesis by (auto simp: ring_simps)
  qed
  then show ?thesis unfolding or_bits_def
    by (auto intro!: nth_equalityI) (metis in_set_zip fst_conv snd_conv)
qed


section \<open>The callbacks\<close>

lemma ends_bind:
  assumes "ends_with cap P x" "ends_with cap (\<lambda>p. K p (x p)) y"
  shows "ends_with cap (\<lambda>p. pbind (P p) (K p)) y"
  by (rule runs_trans [OF runs_bind [where K = K, OF assms(1)] assms(2)])

lemma ends_eq: "ends_with cap P x \<Longrightarrow> (\<And>p. Q p = P p) \<Longrightarrow> ends_with cap Q x"
  by presburger

lemma agent_merge_runs:
  fixes xs :: "byte list"
  assumes cap: "0 < cap" and A: "synced ccrh A" and b: "bits xs" "bits ys" "length xs = n" "length ys = n"
    and UW: "rep3_vec 1 St (\<lambda>_. U) xs" "rep3_vec 1 St (\<lambda>_. W) ys"
    and ap: "apart V U" "apart V W" "apart V M" "apart M U" "apart M W" and ne: "thisShare V \<noteq> nxtShare V" "thisShare M \<noteq> nxtShare M"
    and fit: "\<And>p. fitted 1 V n (St p)" "\<And>p. fitted 1 M n (St p)"
  shows "\<exists>St' A'. ends_with cap (\<lambda>p. agent_merge ccrh heap M U W V (St p) (A p)) (\<lambda>p. (St' p, A' p)) \<and> synced ccrh A' \<and>
    rep3_vec 1 St' (\<lambda>_. V) (or_bits xs ys) \<and> (\<forall>p. fitted 1 M n (St' p)) \<and>
    (\<forall>p r. r \<notin> {thisShare V, nxtShare V, thisShare M, nxtShare M} \<longrightarrow> St' p r = St p r)"
proof -
  have len: "length ys = length xs" using b by simp
  have ov: "no_overlap V U" "no_overlap V W" "no_overlap V V" "no_overlap V M" using ap ne by (simp_all add: no_overlap_def)
  obtain St1 where s1: "\<And>p. add_vec 1 U W V (St p) = Inr (St1 p)" "rep3_vec 1 St1 (\<lambda>_. V) (map2 (ringAdd8 1) xs ys)"
    "\<And>p r. r \<notin> {thisShare V, nxtShare V} \<Longrightarrow> St1 p r = St p r"
    using linear_runs(1) [OF ov(1,2) UW len] fit(1) b(3) by blast
  have far: "thisShare U \<notin> {thisShare V, nxtShare V}" "nxtShare U \<notin> {thisShare V, nxtShare V}" "thisShare W \<notin> {thisShare V, nxtShare V}"
    "nxtShare W \<notin> {thisShare V, nxtShare V}" "thisShare M \<notin> {thisShare V, nxtShare V}" "nxtShare M \<notin> {thisShare V, nxtShare V}"
    using ap unfolding apart_def by auto
  have UW1: "rep3_vec 1 St1 (\<lambda>_. U) xs" "rep3_vec 1 St1 (\<lambda>_. W) ys"
    using rep3_cong [OF UW(1), of St1] rep3_cong [OF UW(2), of St1] s1(3) far by blast+
  have M1: "fitted 1 M n (St1 p)" for p using fit(2) [of p] s1(3) far by (simp add: fitted_def)
  obtain St2 A2 where s2: "ends_with cap (\<lambda>p. hadamard ccrh 1 U W M (St1 p) (A p)) (\<lambda>p. (St2 p, A2 p))" "synced ccrh A2"
    "rep3_vec 1 St2 (\<lambda>_. M) (map2 (ringMul8 1) xs ys)" "\<And>p r. r \<notin> {thisShare M, nxtShare M} \<Longrightarrow> St2 p r = St1 p r"
    using hadamard_frame [where V = "\<lambda>_. M" and ?o0.0 = "\<lambda>p. elems 1 (St1 p (thisShare M))" and ?o1.0 = "\<lambda>p. elems 1 (St1 p (nxtShare M))",
      OF cap A ap(4,5) ne(2) UW1 len fitted_at(1,2) [OF M1] fitted_at(3,4) [OF M1, folded b(3)]] by blast
  have far2: "thisShare V \<notin> {thisShare M, nxtShare M}" "nxtShare V \<notin> {thisShare M, nxtShare M}" using ap(3) unfolding apart_def by auto
  have V2: "rep3_vec 1 St2 (\<lambda>_. V) (map2 (ringAdd8 1) xs ys)" by (rule rep3_cong [OF s1(2)]) (use s2(4) far2 in blast)+
  have fit2: "fitted 1 V (length (map2 (ringAdd8 1) xs ys)) (St2 p)" for p using rep3_fitted [OF V2] by simp
  obtain St3 where s3: "\<And>p. sub_vec 1 V M V (St2 p) = Inr (St3 p)"
    "rep3_vec 1 St3 (\<lambda>_. V) (map2 (ringSub8 1) (map2 (ringAdd8 1) xs ys) (map2 (ringMul8 1) xs ys))"
    "\<And>p r. r \<notin> {thisShare V, nxtShare V} \<Longrightarrow> St3 p r = St2 p r"
    using linear_runs(2) [OF ov(3,4) V2 s2(3) _ fit2] by auto
  have "fitted 1 M n (St3 p)" for p
    using rep3_fitted [OF s2(3), of n p] b s3(3) far by (simp add: fitted_def)
  moreover have "St3 p r = St p r" if "r \<notin> {thisShare V, nxtShare V, thisShare M, nxtShare M}" for p r
    using that s3(3) s2(4) s1(3) by simp
  moreover have "ends_with cap (\<lambda>p. agent_merge ccrh heap M U W V (St p) (A p)) (\<lambda>p. (St3 p, A2 p))"
  proof (rule ends_eq)
    show "ends_with cap (\<lambda>p. pbind (hadamard ccrh 1 U W M (St1 p) (A p)) (\<lambda>(st, a). pbind (lift_res (sub_vec 1 V M V st)) (\<lambda>st. Ret (st, a)))) (\<lambda>p. (St3 p, A2 p))"
      by (rule ends_bind [OF s2(1)]) (simp add: s3(1) del: One_nat_def)
    have "sv_size M (St1 p) = sv_size U (St1 p)" for p
      using M1 [of p] rep3_fitted [OF UW1(1) b(3), of p] by (simp add: sv_size_def fitted_def rv_size_def)
    then show "agent_merge ccrh heap M U W V (St p) (A p) = pbind (hadamard ccrh 1 U W M (St1 p) (A p))
        (\<lambda>(st, a). pbind (lift_res (sub_vec 1 V M V st)) (\<lambda>st. Ret (st, a)))" for p
      using ap(4,5) by (simp add: agent_merge_def s1(1) rss_hadamard_vec_def fit_output_def apart_def del: One_nat_def)
  qed
  ultimately show ?thesis using s2(2) s3(2) unfolding or_as_ring [OF b(1,2)] by blast
qed

lemma agent_conv_runs:
  assumes cap: "0 < cap" and A: "synced ccrh A" and heap: "\<forall>k. heap k \<noteq> None" and ell: "ell \<in> {2, 3, 4, 5, 6}"
    and U: "rep3_vec 1 B (\<lambda>_. U) xs" "bits xs" "length xs = n" "0 < n"
    and V: "thisShare V \<noteq> nxtShare V" "\<And>p. fitted ell V n (St p)"
  shows "\<exists>St' A'. ends_with cap (\<lambda>p. agent_ring_conv ccrh heap p ell U V ell (B p) (St p) (A p)) (\<lambda>p. (St' p, A' p)) \<and> synced ccrh A' \<and>
    rep3_vec ell St' (\<lambda>_. V) xs \<and> (\<forall>p r. r \<notin> {thisShare V, nxtShare V} \<longrightarrow> St' p r = St p r)"
proof -
  obtain s where s: "vsharing 1 B (\<lambda>_. U) s" "sums_to 1 s xs" using U(1) unfolding rep3_vec_def by blast
  have "map (take_bit 1) xs = xs" using U(2) unfolding bits_def by (intro map_idI) auto
  moreover have "(\<lambda>p. agent_ring_conv ccrh heap p ell U V ell (B p) (St p) (A p)) = (\<lambda>p. ringConv_vec ccrh heap heap ell p U V (B p) (St p) (A p))"
    using ell by (simp add: agent_ring_conv_def rss_ring_conv_vec_def)
  moreover have "xs \<noteq> []" using U(3,4) by auto
  ultimately show ?thesis
    using ringConv_vec_runs [where V = "\<lambda>_. V", OF cap A heap heap s _ V(1) fitted_at(1,2) [OF V(2)] fitted_at(3,4) [OF V(2), folded U(3)]] by simp
qed


section \<open>Loading and saving\<close>

lemma load_share_ok:
  assumes f: "stored ell n fs (this_path t) z0" "stored ell n fs (nxt_path t) z1" and sv: "fitted ell sv n st" "thisShare sv \<noteq> nxtShare sv"
    and aux: "aux_ok ell n aux"
  shows "\<exists>st' aux'. load_share ell t sv fs (st, aux) = Inr (st', aux') \<and> vec_at ell st' (thisShare sv) z0 \<and> vec_at ell st' (nxtShare sv) z1 \<and>
    (\<forall>r. r \<notin> {thisShare sv, nxtShare sv} \<longrightarrow> st' r = st r) \<and> aux_ok ell n aux' \<and> length (p_buf aux') = length (p_buf aux)"
proof -
  let ?T = "thisShare sv" and ?N = "nxtShare sv"
  have d: "rv_ok ell (st ?T)" "n_elems (st ?T) = n" "rv_ok ell (st ?N)" "n_elems (st ?N) = n" using sv(1) by (simp_all add: fitted_def)
  obtain v a1 where 1: "load ell (this_path t) (st ?T) aux fs = (v, a1, Inr ())" "aux_ok ell n a1" "rv_ok ell v" "elems ell v = z0"
    "length (p_buf a1) = length (p_buf aux)" using load_stored [OF f(1) d(1,2) aux path_ext(1)] by blast
  obtain w a2 where 2: "load ell (nxt_path t) (st ?N) a1 fs = (w, a2, Inr ())" "aux_ok ell n a2" "rv_ok ell w" "elems ell w = z1"
    "length (p_buf a2) = length (p_buf a1)" using load_stored [OF f(2) d(3,4) 1(2) path_ext(2)] by blast
  have "load_share ell t sv fs (st, aux) = Inr (st(?T := v, ?N := w), a2)" using 1(1) 2(1) sv(2) by (simp add: load_share_def Let_def)
  then show ?thesis using 1 2 sv(2) by simp
qed

text \<open>The files of the agents at one name hold a sharing of \<open>w\<close>.\<close>

definition shared_files :: "nat \<Rightarrow> nat \<Rightarrow> (pid \<Rightarrow> files) \<Rightarrow> (pid \<Rightarrow> string) \<Rightarrow> byte list \<Rightarrow> bool" where
  "shared_files ell n F t w \<longleftrightarrow> (\<exists>z. sums_to ell z w \<and>
     (\<forall>p. stored ell n (F p) (this_path (t p)) (z p) \<and> stored ell n (F p) (nxt_path (t p)) (z (NEXT p))))"

lemma shared_files_kept:
  "shared_files ell n F t w \<Longrightarrow> (\<And>p. F' p (this_path (t p)) = F p (this_path (t p)) \<and> F' p (nxt_path (t p)) = F p (nxt_path (t p))) \<Longrightarrow>
   shared_files ell n F' t w"
  by (simp add: shared_files_def stored_def)

lemma shared_files_length: "shared_files ell n F t w \<Longrightarrow> length w = n"
  unfolding shared_files_def sums_to_def using stored_length by metis

lemma load_shared:
  assumes "shared_files ell n F t w" and "\<And>p. fitted ell (V p) n (St p)" "\<And>p. thisShare (V p) \<noteq> nxtShare (V p)" "\<And>p. aux_ok ell n (P p)"
  obtains St' P' where "\<And>p. load_share ell (t p) (V p) (F p) (St p, P p) = Inr (St' p, P' p)" "rep3_vec ell St' V w"
    "\<And>p r. r \<notin> {thisShare (V p), nxtShare (V p)} \<Longrightarrow> St' p r = St p r" "\<And>p. aux_ok ell n (P' p)" "\<And>p. length (p_buf (P' p)) = length (p_buf (P p))"
proof -
  obtain z where z: "sums_to ell z w" "\<And>p. stored ell n (F p) (this_path (t p)) (z p)" "\<And>p. stored ell n (F p) (nxt_path (t p)) (z (NEXT p))"
    using assms(1) by (auto simp: shared_files_def)
  have "\<forall>p. \<exists>st' aux'. load_share ell (t p) (V p) (F p) (St p, P p) = Inr (st', aux') \<and> vec_at ell st' (thisShare (V p)) (z p) \<and>
      vec_at ell st' (nxtShare (V p)) (z (NEXT p)) \<and> (\<forall>r. r \<notin> {thisShare (V p), nxtShare (V p)} \<longrightarrow> st' r = St p r) \<and> aux_ok ell n aux' \<and>
      length (p_buf aux') = length (p_buf (P p))"
    by (intro allI load_share_ok [OF z(2,3) assms(2-4)])
  then obtain St' P' where s: "\<And>p. load_share ell (t p) (V p) (F p) (St p, P p) = Inr (St' p, P' p)" "\<And>p. vec_at ell (St' p) (thisShare (V p)) (z p)"
      "\<And>p. vec_at ell (St' p) (nxtShare (V p)) (z (NEXT p))" "\<And>p r. r \<notin> {thisShare (V p), nxtShare (V p)} \<Longrightarrow> St' p r = St p r"
      "\<And>p. aux_ok ell n (P' p)" "\<And>p. length (p_buf (P' p)) = length (p_buf (P p))" by metis
  have "rep3_vec ell St' V w" using s(2,3) z(1) unfolding rep3_vec_def vsharing_def by blast
  with s show thesis using that by blast
qed

lemma save_shared:
  assumes "rep3_vec ell St V w" "length w = n" "\<And>p. aux_ok ell n (P p)" "\<And>p q. openable (h p) q" "\<And>p. 20 + length (p_buf (P p)) \<le> room (h p)"
  obtains F' P' where "\<And>p. save_pair (h p) ell (t p) (share_at_refs (St p) (V p)) (P p) (F p) = (F' p, P' p, Inr ())"
    "shared_files ell n F' t w" "\<And>p. others_kept (t p) (F p) (F' p)" "\<And>p. aux_ok ell n (P' p)" "\<And>p. length (p_buf (P' p)) = length (p_buf (P p))"
    "\<And>p. F' p (this_path (t p)) \<noteq> None \<and> F' p (nxt_path (t p)) \<noteq> None"
proof -
  obtain z where z: "\<And>p. vec_at ell (St p) (thisShare (V p)) (z p)" "\<And>p. vec_at ell (St p) (nxtShare (V p)) (z (NEXT p))"
    "\<And>p. length (z p) = length w" "sums_to ell z w" by (rule rep3_at [OF assms(1)], rule that, assumption+)
  have "\<forall>p. \<exists>fs' aux'. save_pair (h p) ell (t p) (share_at_refs (St p) (V p)) (P p) (F p) = (fs', aux', Inr ()) \<and> aux_ok ell n aux' \<and>
      length (p_buf aux') = length (p_buf (P p)) \<and> stored ell n fs' (this_path (t p)) (z p) \<and> stored ell n fs' (nxt_path (t p)) (z (NEXT p)) \<and>
      others_kept (t p) (F p) fs'"
  proof
    fix p
    have "elems ell (thisShare (share_at_refs (St p) (V p))) = z p" "elems ell (nxtShare (share_at_refs (St p) (V p))) = z (NEXT p)"
      "rv_ok ell (thisShare (share_at_refs (St p) (V p)))" "rv_ok ell (nxtShare (share_at_refs (St p) (V p)))"
      "n_elems (thisShare (share_at_refs (St p) (V p))) = n" "n_elems (nxtShare (share_at_refs (St p) (V p))) = n"
      using z(1,2) [of p] vec_at_length [OF z(1) [of p]] vec_at_length [OF z(2) [of p]] z(3) assms(2) by (simp_all add: share_at_refs_def vec_at_def)
    from save_pair_ok [where h = "h p" and token = "t p" and fs = "F p", OF this(3-6) assms(3) [of p]] this(1,2)
    show "\<exists>fs' aux'. save_pair (h p) ell (t p) (share_at_refs (St p) (V p)) (P p) (F p) = (fs', aux', Inr ()) \<and> aux_ok ell n aux' \<and>
      length (p_buf aux') = length (p_buf (P p)) \<and> stored ell n fs' (this_path (t p)) (z p) \<and> stored ell n fs' (nxt_path (t p)) (z (NEXT p)) \<and>
      others_kept (t p) (F p) fs'" using assms(4,5) by simp
  qed
  then obtain F' P' where s: "\<And>p. save_pair (h p) ell (t p) (share_at_refs (St p) (V p)) (P p) (F p) = (F' p, P' p, Inr ())" "\<And>p. aux_ok ell n (P' p)"
    "\<And>p. length (p_buf (P' p)) = length (p_buf (P p))" "\<And>p. stored ell n (F' p) (this_path (t p)) (z p)"
    "\<And>p. stored ell n (F' p) (nxt_path (t p)) (z (NEXT p))" "\<And>p. others_kept (t p) (F p) (F' p)" by metis
  have "shared_files ell n F' t w" using s(4,5) z(4) unfolding shared_files_def by blast
  moreover have "F' p (this_path (t p)) \<noteq> None \<and> F' p (nxt_path (t p)) \<noteq> None" for p using s(4,5) [of p] by (auto simp: stored_def)
  ultimately show thesis using s that by blast
qed

end
