(* ===== verification/Tree_Sync.thy ===== *)
theory Tree_Sync
  imports Tree_Merge_Facts
begin

text \<open>
  Merging in step at the three agents: one node, the dirty nodes in descending order, and \<open>execute_merge\<close> as a whole.
\<close>

section \<open>The agents\<close>

text \<open>Node \<open>x\<close> has a token at every agent, and the files with these tokens hold a sharing of \<open>w\<close>.\<close>

definition node_at :: "nat \<Rightarrow> (pid \<Rightarrow> tree_cache) \<Rightarrow> nat \<Rightarrow> byte list \<Rightarrow> bool" where
  "node_at n C x w \<longleftrightarrow> (\<exists>t. (\<forall>p. map_of (phi_r (C p)) x = Some (t p)) \<and> shared_files 1 n (\<lambda>p. files (C p)) t w)"

definition setting :: "nat \<Rightarrow> heap \<Rightarrow> nat \<Rightarrow> nat \<Rightarrow> ShrRep3ShareVec \<Rightarrow> ShrRep3ShareVec \<Rightarrow> (pid \<Rightarrow> host) \<Rightarrow> bool" where
  "setting cap heap ell n M root h \<longleftrightarrow> 0 < cap \<and> (\<forall>k. heap k \<noteq> None) \<and> ell \<in> {2, 3, 4, 5, 6} \<and> 0 < n \<and>
     apart M (buf 0) \<and> apart M (buf 1) \<and> apart M (buf 2) \<and> thisShare M \<noteq> nxtShare M \<and> thisShare root \<noteq> nxtShare root \<and>
     (\<forall>p. host_ok (h p) ell n)"

text \<open>The first \<open>k\<close> buffers, the agent's own one and the root have the right length, and packed vectors fit the disk.\<close>

definition ready :: "ccrh \<Rightarrow> nat \<Rightarrow> nat \<Rightarrow> ShrRep3ShareVec \<Rightarrow> ShrRep3ShareVec \<Rightarrow> (pid \<Rightarrow> host) \<Rightarrow> nat \<Rightarrow> (pid \<Rightarrow> workspace) \<Rightarrow> bool" where
  "ready ccrh ell n M root h k W \<longleftrightarrow> synced ccrh (\<lambda>p. shr (W p)) \<and>
     (\<forall>p. (\<forall>i < k. fitted 1 (buf i) n (bufs (W p))) \<and> fitted 1 M n (bufs (W p)) \<and>
       fitted ell root n (roots (W p)) \<and> aux_ok 1 n (pack_1 (W p)) \<and> aux_ok ell n (pack_root (W p)) \<and>
       20 + length (p_buf (pack_1 (W p))) \<le> room (h p) \<and> 20 + length (p_buf (pack_root (W p))) \<le> room (h p))"

text \<open>Only the files of the caches change.\<close>

definition same_trees :: "(pid \<Rightarrow> workspace) \<Rightarrow> (pid \<Rightarrow> workspace) \<Rightarrow> bool" where
  "same_trees W W' \<longleftrightarrow> (\<forall>p. \<exists>fs. tree (W' p) = (tree (W p))\<lparr>files := fs\<rparr>)"

lemma same_treesI: "(\<And>p. tree (W' p) = (tree (W p))\<lparr>files := fs p\<rparr>) \<Longrightarrow> same_trees W W'"
  by (auto simp: same_trees_def)

lemma same_trees_refl: "same_trees W W"
  by (rule same_treesI [where fs = "\<lambda>p. files (tree (W p))"]) simp

lemma same_trees_files: "same_trees W W' \<Longrightarrow> tree (W' p) = (tree (W p))\<lparr>files := files (tree (W' p))\<rparr>"
proof -
  assume "same_trees W W'"
  then obtain fs where "tree (W' p) = (tree (W p))\<lparr>files := fs\<rparr>" unfolding same_trees_def by blast
  then show ?thesis by simp
qed

lemma same_trees_trans: "same_trees W W' \<Longrightarrow> same_trees W' W'' \<Longrightarrow> same_trees W W''"
  unfolding same_trees_def
proof
  fix p assume "\<forall>p. \<exists>fs. tree (W' p) = (tree (W p))\<lparr>files := fs\<rparr>" "\<forall>p. \<exists>fs. tree (W'' p) = (tree (W' p))\<lparr>files := fs\<rparr>"
  then obtain fs fs' where "tree (W' p) = (tree (W p))\<lparr>files := fs\<rparr>" "tree (W'' p) = (tree (W' p))\<lparr>files := fs'\<rparr>" by blast
  then show "\<exists>fs. tree (W'' p) = (tree (W p))\<lparr>files := fs\<rparr>" by (intro exI [of _ fs']) simp
qed

lemma same_trees_sel:
  assumes "same_trees W W'"
  shows "phi_r (tree (W' p)) = phi_r (tree (W p))" "phi_f (tree (W' p)) = phi_f (tree (W p))" "leaf_num (tree (W' p)) = leaf_num (tree (W p))"
    "root_ell (tree (W' p)) = root_ell (tree (W p))" "filter_size (tree (W' p)) = filter_size (tree (W p))"
    "dirty_leaf (tree (W' p)) = dirty_leaf (tree (W p))" "corrupted (tree (W' p)) = corrupted (tree (W p))" "meta (tree (W' p)) = meta (tree (W p))"
    "tree_ok (tree (W' p)) = tree_ok (tree (W p))"
proof -
  obtain fs where e: "tree (W' p) = (tree (W p))\<lparr>files := fs\<rparr>" using assms unfolding same_trees_def by blast
  show "phi_r (tree (W' p)) = phi_r (tree (W p))" "phi_f (tree (W' p)) = phi_f (tree (W p))" "leaf_num (tree (W' p)) = leaf_num (tree (W p))"
    "root_ell (tree (W' p)) = root_ell (tree (W p))" "filter_size (tree (W' p)) = filter_size (tree (W p))"
    "dirty_leaf (tree (W' p)) = dirty_leaf (tree (W p))" "corrupted (tree (W' p)) = corrupted (tree (W p))" "meta (tree (W' p)) = meta (tree (W p))"
    "tree_ok (tree (W' p)) = tree_ok (tree (W p))" unfolding e by simp_all
qed

lemma buf_apart [simp]: "apart (buf 0) (buf 1)" "apart (buf 0) (buf 2)" "thisShare (buf i) \<noteq> nxtShare (buf i)"
  by (simp_all add: apart_def buf_def)

lemma apart_sym: "apart v w \<Longrightarrow> apart w v"
  by (auto simp: apart_def)

lemma fitted_kept:
  "fitted ell sv n st \<Longrightarrow> (\<And>r. r \<notin> X \<Longrightarrow> st' r = st r) \<Longrightarrow> thisShare sv \<notin> X \<Longrightarrow> nxtShare sv \<notin> X \<Longrightarrow> fitted ell sv n st'"
  by (simp add: fitted_def)

lemma buf_refs:
  "i \<noteq> j \<Longrightarrow> thisShare (buf i) \<notin> {thisShare (buf j), nxtShare (buf j)} \<and> nxtShare (buf i) \<notin> {thisShare (buf j), nxtShare (buf j)}"
  by (auto simp: buf_def; presburger)

lemma apart_refs:
  "apart M v \<Longrightarrow> thisShare M \<notin> {thisShare v, nxtShare v} \<and> nxtShare M \<notin> {thisShare v, nxtShare v}"
  "apart M v \<Longrightarrow> thisShare v \<notin> {thisShare M, nxtShare M} \<and> nxtShare v \<notin> {thisShare M, nxtShare M}"
  by (auto simp: apart_def)

section \<open>One node\<close>

lemma convert_root_runs:
  assumes s: "setting cap heap ell n M root h" and W: "ready ccrh ell n M root h k W" "\<And>p. root_ell (tree (W p)) = ell"
    and w: "rep3_vec 1 (\<lambda>p. bufs (W p)) (\<lambda>_. buf 0) w" "bits w" "length w = n"
  shows "\<exists>W'. ends_with cap (\<lambda>p. convert_root (h p) (agent_ring_conv ccrh heap p ell) root (buf 0) (W p)) W' \<and> ready ccrh ell n M root h k W' \<and>
    same_trees W W' \<and> (\<forall>p. bufs (W' p) = bufs (W p)) \<and> rep3_vec ell (\<lambda>p. roots (W' p)) (\<lambda>_. root) w \<and>
    (\<forall>p. others_kept root_name (files (tree (W p))) (files (tree (W' p))) \<and> root_files (tree (W' p))) \<and>
    shared_files ell n (\<lambda>p. files (tree (W' p))) (\<lambda>_. root_name) w"
proof -
  note S = s [unfolded setting_def] and R = W(1) [unfolded ready_def]
  have op: "\<And>p q. openable (h p) q" using S by (simp add: host_ok_def)
  obtain R' A' where c: "ends_with cap (\<lambda>p. agent_ring_conv ccrh heap p ell (buf 0) root ell (bufs (W p)) (roots (W p)) (shr (W p))) (\<lambda>p. (R' p, A' p))"
    "synced ccrh A'" "rep3_vec ell R' (\<lambda>_. root) w"
    using agent_conv_runs [of cap ccrh "\<lambda>p. shr (W p)" heap ell "\<lambda>p. bufs (W p)" "buf 0" w n root "\<lambda>p. roots (W p)"] S R w by blast
  obtain F' P' where f: "\<And>p. save_pair (h p) ell root_name (share_at_refs (R' p) root) (pack_root (W p)) (files (tree (W p))) = (F' p, P' p, Inr ())"
    "shared_files ell n F' (\<lambda>_. root_name) w" "\<And>p. others_kept root_name (files (tree (W p))) (F' p)" "\<And>p. aux_ok ell n (P' p)"
    "\<And>p. length (p_buf (P' p)) = length (p_buf (pack_root (W p)))"
    "\<And>p. F' p (this_path root_name) \<noteq> None \<and> F' p (nxt_path root_name) \<noteq> None"
    using save_shared [where t = "\<lambda>_. root_name" and P = "\<lambda>p. pack_root (W p)" and F = "\<lambda>p. files (tree (W p))" and h = h, OF c(3) w(3)] R op by metis
  define W' where "W' p = (W p)\<lparr>tree := (tree (W p))\<lparr>files := F' p\<rparr>, roots := R' p, pack_root := P' p, shr := A' p\<rparr>" for p
  have "ends_with cap (\<lambda>p. convert_root (h p) (agent_ring_conv ccrh heap p ell) root (buf 0) (W p)) W'"
    unfolding convert_root_def W(2) by (rule ends_bind [OF c(1)]) (simp add: f(1) W(2) W'_def)
  moreover have "ready ccrh ell n M root h k W'"
    using R c(2) f(4,5) rep3_fitted [OF c(3) w(3)] by (simp add: ready_def W'_def)
  moreover have "same_trees W W'" by (rule same_treesI [where fs = F']) (simp add: W'_def)
  ultimately show ?thesis using c(3) f(2,3,6) by (intro exI [of _ W']) (simp add: W'_def root_files_def)
qed


lemma node_token: "tree_ok c \<Longrightarrow> map_of (phi_r c) x = Some t \<Longrightarrow> t \<noteq> root_name"
  using token_of [of c x t] by (auto simp: tree_ok_def)

lemma token_inj: "tree_ok c \<Longrightarrow> map_of (phi_r c) x = Some t \<Longrightarrow> map_of (phi_r c) y = Some t \<Longrightarrow> x = y"
  using token_of [of c] by auto

text \<open>Writing the files of one name leaves those of other nodes alone.\<close>

lemma node_at_kept:
  assumes "node_at n C y w" "\<And>p. phi_r (C' p) = phi_r (C p)" "\<And>p. others_kept (t p) (files (C p)) (files (C' p))"
    and "\<And>p. map_of (phi_r (C p)) y \<noteq> Some (t p)"
  shows "node_at n C' y w"
proof -
  obtain u where u: "\<And>p. map_of (phi_r (C p)) y = Some (u p)" "shared_files 1 n (\<lambda>p. files (C p)) u w"
    using assms(1) by (auto simp: node_at_def)
  have "u p \<noteq> t p" for p using u(1) assms(4) by metis
  then have "shared_files 1 n (\<lambda>p. files (C' p)) u w"
    using shared_files_kept [OF u(2)] assms(3) by (simp add: others_kept_def)
  then show ?thesis using u(1) assms(2) by (auto simp: node_at_def)
qed

lemma merge_node_runs:
  assumes s: "setting cap heap ell n M root h" and W: "ready ccrh ell n M root h 3 W" "\<And>p. root_ell (tree (W p)) = ell"
    and ok: "\<And>p. tree_ok (tree (W p))" "\<And>p. leaf_num (tree (W p)) = L" and x: "0 < x" "x < L"
    and u: "node_at n (\<lambda>p. tree (W p)) (2 * x) u" "bits u" and v: "node_at n (\<lambda>p. tree (W p)) (2 * x + 1) v" "bits v"
  shows "\<exists>W'. ends_with cap (\<lambda>p. merge_node (h p) (agent_merge ccrh heap M) (agent_ring_conv ccrh heap p ell) root x (W p)) W' \<and>
    ready ccrh ell n M root h 3 W' \<and> same_trees W W' \<and> node_at n (\<lambda>p. tree (W' p)) x (or_bits u v) \<and>
    (\<forall>y w. y \<noteq> x \<longrightarrow> node_at n (\<lambda>p. tree (W p)) y w \<longrightarrow> node_at n (\<lambda>p. tree (W' p)) y w) \<and>
    (x = 1 \<longrightarrow> rep3_vec ell (\<lambda>p. roots (W' p)) (\<lambda>_. root) (or_bits u v) \<and> (\<forall>p. root_files (tree (W' p))) \<and>
      shared_files ell n (\<lambda>p. files (tree (W' p))) (\<lambda>_. root_name) (or_bits u v))"
proof -
  note S = s [unfolded setting_def] and R = W(1) [unfolded ready_def]
  let ?C = "\<lambda>p. tree (W p)" and ?F = "\<lambda>p. files (tree (W p))"
  have op: "\<And>p q. openable (h p) q" using S by (simp add: host_ok_def)
  have M: "0 < cap" "apart (buf 0) M" "apart M (buf 1)" "apart M (buf 2)" "thisShare M \<noteq> nxtShare M" using S apart_sym by blast+
  have "\<forall>p. \<exists>t. map_of (phi_r (?C p)) x = Some t" using node_bound [OF ok(1), of _ x] ok(2) x by auto
  then obtain t where t: "\<And>p. map_of (phi_r (?C p)) x = Some (t p)" by metis
  obtain tl where tl: "\<And>p. map_of (phi_r (?C p)) (2 * x) = Some (tl p)" "shared_files 1 n ?F tl u" using u(1) by (auto simp: node_at_def)
  obtain tr where tr: "\<And>p. map_of (phi_r (?C p)) (2 * x + 1) = Some (tr p)" "shared_files 1 n ?F tr v" using v(1) by (auto simp: node_at_def)
  have len: "length u = n" "length v = n" using shared_files_length tl(2) tr(2) by blast+
  have fb: "\<And>p. fitted 1 (buf 0) n (bufs (W p))" "\<And>p. fitted 1 (buf 1) n (bufs (W p))" "\<And>p. fitted 1 (buf 2) n (bufs (W p))"
    "\<And>p. fitted 1 M n (bufs (W p))" and P0: "\<And>p. aux_ok 1 n (pack_1 (W p))" using R by simp_all
  obtain B1 P1 where l: "\<And>p. load_share 1 (tl p) (buf 1) (?F p) (bufs (W p), pack_1 (W p)) = Inr (B1 p, P1 p)" "rep3_vec 1 B1 (\<lambda>_. buf 1) u"
    "\<And>p r. r \<notin> {thisShare (buf 1), nxtShare (buf 1)} \<Longrightarrow> B1 p r = bufs (W p) r" "\<And>p. aux_ok 1 n (P1 p)"
    "\<And>p. length (p_buf (P1 p)) = length (p_buf (pack_1 (W p)))"
    using load_shared [where V = "\<lambda>_. buf 1" and St = "\<lambda>p. bufs (W p)" and P = "\<lambda>p. pack_1 (W p)", OF tl(2) fb(2) buf_apart(3) P0] by metis
  have f1: "fitted 1 (buf 0) n (B1 p)" "fitted 1 (buf 2) n (B1 p)" "fitted 1 M n (B1 p)" for p
    using fb M buf_refs [of 0 1] buf_refs [of 2 1] apart_refs(1) [OF M(3)]
      fitted_kept [where st' = "B1 p" and st = "bufs (W p)" and X = "{thisShare (buf 1), nxtShare (buf 1)}", OF _ l(3)] by auto
  obtain B2 P2 where r: "\<And>p. load_share 1 (tr p) (buf 2) (?F p) (B1 p, P1 p) = Inr (B2 p, P2 p)" "rep3_vec 1 B2 (\<lambda>_. buf 2) v"
    "\<And>p r. r \<notin> {thisShare (buf 2), nxtShare (buf 2)} \<Longrightarrow> B2 p r = B1 p r" "\<And>p. aux_ok 1 n (P2 p)"
    "\<And>p. length (p_buf (P2 p)) = length (p_buf (P1 p))"
    using load_shared [where V = "\<lambda>_. buf 2" and St = B1 and P = P1, OF tr(2)] f1(2) l(4) by (metis buf_apart(3))
  have f2: "fitted 1 (buf 0) n (B2 p)" "fitted 1 M n (B2 p)" for p
    using f1 [of p] buf_refs [of 0 2] apart_refs(1) [OF M(4)]
      fitted_kept [where st' = "B2 p" and st = "B1 p" and X = "{thisShare (buf 2), nxtShare (buf 2)}", OF _ r(3)] by auto
  have u2: "rep3_vec 1 B2 (\<lambda>_. buf 1) u" by (rule rep3_cong [OF l(2)]) (simp_all add: r(3) buf_def)
  obtain B3 A3 where m: "ends_with cap (\<lambda>p. agent_merge ccrh heap M (buf 1) (buf 2) (buf 0) (B2 p) (shr (W p))) (\<lambda>p. (B3 p, A3 p))"
    "synced ccrh A3" "rep3_vec 1 B3 (\<lambda>_. buf 0) (or_bits u v)" "\<And>p. fitted 1 M n (B3 p)"
    "\<And>p r. r \<notin> {thisShare (buf 0), nxtShare (buf 0), thisShare M, nxtShare M} \<Longrightarrow> B3 p r = B2 p r"
    using agent_merge_runs [where heap = heap, OF M(1) conjunct1 [OF R] u(2) v(2) len u2 r(2) buf_apart(1,2) M(2-4) buf_apart(3) M(5) f2] by blast
  have lo: "length (or_bits u v) = n" "bits (or_bits u v)" using length_or_bits [OF len] bits_or [OF u(2) v(2)] by simp_all
  have room: "20 + length (p_buf (P2 p)) \<le> room (h p)" for p using R l(5) r(5) by simp
  obtain F4 P4 where f: "\<And>p. save_pair (h p) 1 (t p) (share_at_refs (B3 p) (buf 0)) (P2 p) (?F p) = (F4 p, P4 p, Inr ())"
    "shared_files 1 n F4 t (or_bits u v)" "\<And>p. others_kept (t p) (?F p) (F4 p)" "\<And>p. aux_ok 1 n (P4 p)"
    "\<And>p. length (p_buf (P4 p)) = length (p_buf (P2 p))"
    using save_shared [where t = t and P = P2 and F = ?F and h = h, OF m(3) lo(1) r(4) op room] by metis
  define W4 where "W4 p = (W p)\<lparr>bufs := B3 p, shr := A3 p, tree := (tree (W p))\<lparr>files := F4 p\<rparr>, pack_1 := P4 p\<rparr>" for p
  have f3: "fitted 1 (buf 1) n (B3 p)" "fitted 1 (buf 2) n (B3 p)" for p
    using fitted_kept [where X = "{thisShare (buf 0), nxtShare (buf 0), thisShare M, nxtShare M}" and st' = "B3 p", OF _ m(5)]
      rep3_fitted [OF u2 len(1), of p] rep3_fitted [OF r(2) len(2), of p]
      buf_refs [of 1 0] buf_refs [of 2 0] apart_refs(2) [OF M(3)] apart_refs(2) [OF M(4)] by auto
  have "fitted 1 (buf i) n (B3 p)" if "i < 3" for i p
    using f3 [of p] rep3_fitted [OF m(3) lo(1), of p] that by (auto simp: less_Suc_eq numeral_3_eq_3 numeral_2_eq_2)
  then have ready4: "ready ccrh ell n M root h 3 W4"
    using R m(2,4) f(4,5) l(5) r(5) by (simp add: ready_def W4_def)
  have same4: "same_trees W W4" by (rule same_treesI [where fs = F4]) (simp add: W4_def)
  have node4: "node_at n (\<lambda>p. tree (W4 p)) x (or_bits u v)" using f(2) t by (auto simp: node_at_def W4_def)
  have kept4: "node_at n (\<lambda>p. tree (W4 p)) y w" if "y \<noteq> x" "node_at n ?C y w" for y w
    by (rule node_at_kept [OF that(2), where t = t]) (use f(3) t that(1) token_inj [OF ok(1)] in \<open>auto simp: W4_def\<close>)
  have run: "ends_with cap (\<lambda>p. merge_node (h p) (agent_merge ccrh heap M) (agent_ring_conv ccrh heap p ell) root x (W p)) W'"
    if "ends_with cap (\<lambda>p. if x = 1 then convert_root (h p) (agent_ring_conv ccrh heap p ell) root (buf 0) (W4 p) else Ret (W4 p)) W'" for W'
  proof (rule ends_eq)
    show "ends_with cap (\<lambda>p. pbind (agent_merge ccrh heap M (buf 1) (buf 2) (buf 0) (B2 p) (shr (W p))) (\<lambda>(st, a).
        pbind (lift_res (save_buf (h p) (t p) (buf 0) ((W p)\<lparr>pack_1 := P2 p, bufs := st, shr := a\<rparr>)))
          (\<lambda>w. if x = 1 then convert_root (h p) (agent_ring_conv ccrh heap p ell) root (buf 0) w else Ret w))) W'"
      by (rule ends_bind [OF m(1)]) (use that f(1) in \<open>simp add: save_buf_def W4_def cong: if_cong\<close>)
    show "merge_node (h p) (agent_merge ccrh heap M) (agent_ring_conv ccrh heap p ell) root x (W p) =
        pbind (agent_merge ccrh heap M (buf 1) (buf 2) (buf 0) (B2 p) (shr (W p))) (\<lambda>(st, a).
        pbind (lift_res (save_buf (h p) (t p) (buf 0) ((W p)\<lparr>pack_1 := P2 p, bufs := st, shr := a\<rparr>)))
          (\<lambda>w. if x = 1 then convert_root (h p) (agent_ring_conv ccrh heap p ell) root (buf 0) w else Ret w))" for p
      using t tl(1) tr(1) l(1) r(1) unfolding merge_node_def by (simp add: mult.commute del: One_nat_def)
  qed
  show ?thesis
  proof (cases "x = 1")
    case False
    then show ?thesis using run [of W4] ready4 same4 node4 kept4 by (intro exI [of _ W4]) simp
  next
    case True
    have ell4: "\<And>p. root_ell (tree (W4 p)) = ell" using W(2) by (simp add: W4_def)
    have rep4: "rep3_vec 1 (\<lambda>p. bufs (W4 p)) (\<lambda>_. buf 0) (or_bits u v)" using m(3) by (simp add: W4_def)
    obtain W' where W': "ends_with cap (\<lambda>p. convert_root (h p) (agent_ring_conv ccrh heap p ell) root (buf 0) (W4 p)) W'" "ready ccrh ell n M root h 3 W'"
      "same_trees W4 W'" "rep3_vec ell (\<lambda>p. roots (W' p)) (\<lambda>_. root) (or_bits u v)"
      "\<And>p. others_kept root_name (files (tree (W4 p))) (files (tree (W' p)))" "\<And>p. root_files (tree (W' p))"
      "shared_files ell n (\<lambda>p. files (tree (W' p))) (\<lambda>_. root_name) (or_bits u v)"
      using convert_root_runs [OF s ready4 ell4 rep4 lo(2,1)] by blast
    have "node_at n (\<lambda>p. tree (W' p)) y w" if "node_at n (\<lambda>p. tree (W4 p)) y w" for y w
    proof (rule node_at_kept [OF that, where t = "\<lambda>_. root_name"])
      show "phi_r (tree (W' p)) = phi_r (tree (W4 p))" for p by (rule same_trees_sel(1) [OF W'(3)])
      show "map_of (phi_r (tree (W4 p))) y \<noteq> Some root_name" for p using node_token [OF ok(1)] by (auto simp: W4_def)
    qed (rule W'(5))
    moreover have "same_trees W W'" by (rule same_trees_trans [OF same4 W'(3)])
    ultimately show ?thesis using run [of W'] True W' node4 kept4 by (intro exI [of _ W']) simp
  qed
qed

section \<open>All dirty nodes\<close>

lemma merge_nodes_runs:
  assumes s: "setting cap heap ell n M root h" and lf: "\<And>y. L \<le> y \<Longrightarrow> y < 2 * L \<Longrightarrow> length (lf y) = n \<and> bits (lf y)"
  shows "sorted_wrt (>) nodes \<Longrightarrow> List.set nodes \<subseteq> {1..<L} \<Longrightarrow> ready ccrh ell n M root h 3 W \<Longrightarrow> (\<And>p. root_ell (tree (W p)) = ell) \<Longrightarrow>
    (\<And>p. tree_ok (tree (W p))) \<Longrightarrow> (\<And>p. leaf_num (tree (W p)) = L) \<Longrightarrow>
    (\<And>x. x \<in> {1..<2 * L} - List.set nodes \<Longrightarrow> node_at n (\<lambda>p. tree (W p)) x (tree_or L lf x)) \<Longrightarrow>
    \<exists>W'. ends_with cap (\<lambda>p. merge_nodes (h p) (agent_merge ccrh heap M) (agent_ring_conv ccrh heap p ell) root nodes (W p)) W' \<and>
      ready ccrh ell n M root h 3 W' \<and> same_trees W W' \<and> (\<forall>x \<in> {1..<2 * L}. node_at n (\<lambda>p. tree (W' p)) x (tree_or L lf x)) \<and>
      (1 \<in> List.set nodes \<longrightarrow> rep3_vec ell (\<lambda>p. roots (W' p)) (\<lambda>_. root) (tree_or L lf 1) \<and> (\<forall>p. root_files (tree (W' p))) \<and>
        shared_files ell n (\<lambda>p. files (tree (W' p))) (\<lambda>_. root_name) (tree_or L lf 1)) \<and>
      (nodes = [] \<longrightarrow> W' = W)"
proof (induction nodes arbitrary: W)
  case Nil
  then show ?case by (intro exI [of _ W]) (auto simp: same_trees_refl)
next
  case (Cons x nodes)
  let ?C = "\<lambda>p. tree (W p)" and ?u = "tree_or L lf (2 * x)" and ?v = "tree_or L lf (2 * x + 1)"
  have x: "0 < x" "x < L" and gt: "\<And>y. y \<in> List.set nodes \<Longrightarrow> y < x" using Cons.prems(1,2) by auto
  have out: "2 * x \<in> {1..<2 * L} - List.set (x # nodes)" "2 * x + 1 \<in> {1..<2 * L} - List.set (x # nodes)"
    using x gt [of "2 * x"] gt [of "2 * x + 1"] by auto
  have b: "bits ?u" "bits ?v" using tree_or_bits [of "2 * x" L lf n] tree_or_bits [of "2 * x + 1" L lf n] lf x by auto
  have or: "or_bits ?u ?v = tree_or L lf x" using tree_or_inner [OF x] by simp
  obtain W1 where 1: "ends_with cap (\<lambda>p. merge_node (h p) (agent_merge ccrh heap M) (agent_ring_conv ccrh heap p ell) root x (W p)) W1"
    "ready ccrh ell n M root h 3 W1" "same_trees W W1" "node_at n (\<lambda>p. tree (W1 p)) x (tree_or L lf x)"
    "\<And>y w. y \<noteq> x \<Longrightarrow> node_at n ?C y w \<Longrightarrow> node_at n (\<lambda>p. tree (W1 p)) y w"
    "x = 1 \<Longrightarrow> rep3_vec ell (\<lambda>p. roots (W1 p)) (\<lambda>_. root) (tree_or L lf x) \<and> (\<forall>p. root_files (tree (W1 p))) \<and>
      shared_files ell n (\<lambda>p. files (tree (W1 p))) (\<lambda>_. root_name) (tree_or L lf x)"
    using merge_node_runs [OF s Cons.prems(3-6) x Cons.prems(7) [OF out(1)] b(1) Cons.prems(7) [OF out(2)] b(2)] unfolding or by blast
  note sel = same_trees_sel [OF 1(3)]
  have "node_at n (\<lambda>p. tree (W1 p)) y (tree_or L lf y)" if "y \<in> {1..<2 * L} - List.set nodes" for y
    using that 1(4,5) Cons.prems(7) [of y] by (cases "y = x") auto
  then obtain W2 where 2: "ends_with cap (\<lambda>p. merge_nodes (h p) (agent_merge ccrh heap M) (agent_ring_conv ccrh heap p ell) root nodes (W1 p)) W2"
    "ready ccrh ell n M root h 3 W2" "same_trees W1 W2" "\<forall>x \<in> {1..<2 * L}. node_at n (\<lambda>p. tree (W2 p)) x (tree_or L lf x)"
    "1 \<in> List.set nodes \<longrightarrow> rep3_vec ell (\<lambda>p. roots (W2 p)) (\<lambda>_. root) (tree_or L lf 1) \<and> (\<forall>p. root_files (tree (W2 p))) \<and>
        shared_files ell n (\<lambda>p. files (tree (W2 p))) (\<lambda>_. root_name) (tree_or L lf 1)"
    "nodes = [] \<longrightarrow> W2 = W1"
    using Cons.IH [of W1] Cons.prems 1(2) sel by auto
  have "nodes = []" if "x = 1" using gt Cons.prems(2) that by (cases nodes) auto
  then have "1 \<in> List.set (x # nodes) \<longrightarrow> rep3_vec ell (\<lambda>p. roots (W2 p)) (\<lambda>_. root) (tree_or L lf 1) \<and> (\<forall>p. root_files (tree (W2 p))) \<and>
      shared_files ell n (\<lambda>p. files (tree (W2 p))) (\<lambda>_. root_name) (tree_or L lf 1)" using 2(5,6) 1(6) by auto
  moreover have "ends_with cap (\<lambda>p. merge_nodes (h p) (agent_merge ccrh heap M) (agent_ring_conv ccrh heap p ell) root (x # nodes) (W p)) W2"
    unfolding merge_nodes.simps by (rule ends_bind [OF 1(1)]) (rule 2(1))
  ultimately show ?case using 2 same_trees_trans [OF 1(3) 2(3)] by (intro exI [of _ W2]) simp
qed


section \<open>What is allocated\<close>

lemma host_size: "host_ok h ell n \<Longrightarrow> n + 63 < 2 ^ 64"
  using bytesFor_Inr(3) [of 1 n] by (fastforce simp: host_ok_def)

lemma new_share_ok:
  assumes "host_ok h ell n" "1 \<le> e" "e \<le> 8" "thisShare sv \<noteq> nxtShare sv"
  shows "\<exists>st'. new_share h e n sv st = Inr st' \<and> fitted e sv n st' \<and> (\<forall>r. r \<notin> {thisShare sv, nxtShare sv} \<longrightarrow> st' r = st r)"
proof -
  have "\<forall>k. junk h k \<noteq> None" using assms(1) by (simp add: host_ok_def)
  from rv_new_heap [OF assms(2,3) host_size [OF assms(1)] this]
  obtain v where v: "rv_new e (junk h) n = Inr v" "rv_ok e v" "n_elems v = n" by blast
  have "py_ShrRep3ShareVec e = Inr e" using assms(2,3) by (simp add: py_ShrRep3ShareVec_def outside_def RSS3_ELL_def)
  then show ?thesis using v assms(4)
    by (intro exI [of _ "share_vec_assign sv (v, v) st"])
      (auto simp: new_share_def share_vec_new_def share_vec_assign_def rv_move_def fitted_def)
qed

lemma new_bufs_ok:
  assumes "host_ok h ell n"
  shows "\<exists>st'. new_bufs h n k st = Inr st' \<and> (\<forall>i < k. fitted 1 (buf i) n st') \<and>
    (\<forall>r. (\<forall>i < k. r \<notin> {thisShare (buf i), nxtShare (buf i)}) \<longrightarrow> st' r = st r)"
proof (induction k)
  case (Suc k)
  then obtain s1 where s1: "new_bufs h n k st = Inr s1" "\<And>i. i < k \<Longrightarrow> fitted 1 (buf i) n s1"
    "\<And>r. (\<forall>i < k. r \<notin> {thisShare (buf i), nxtShare (buf i)}) \<Longrightarrow> s1 r = st r" by blast
  obtain s2 where s2: "new_share h 1 n (buf k) s1 = Inr s2" "fitted 1 (buf k) n s2" "\<And>r. r \<notin> {thisShare (buf k), nxtShare (buf k)} \<Longrightarrow> s2 r = s1 r"
    using new_share_ok [OF assms, of 1 "buf k" s1] by auto
  have "fitted 1 (buf i) n s2" if "i < k" for i
    using fitted_kept [where X = "{thisShare (buf k), nxtShare (buf k)}", OF s1(2) [OF that] s2(3)] buf_refs [of i k] that by simp
  then have "\<forall>i < Suc k. fitted 1 (buf i) n s2" using s2(2) by (simp add: less_Suc_eq)
  then show ?case using s1(1,3) s2(1,3) by (intro exI [of _ s2]) simp
qed simp

lemma workspace_ok:
  assumes s: "setting cap heap ell n M root h" and k: "k \<le> 3" and C: "\<And>p. filter_size (C p) = n" "\<And>p. root_ell (C p) = ell"
    and A: "synced ccrh A" and fit: "\<And>p. fitted 1 M n (St p)" "\<And>p. fitted ell root n (Rst p)"
  obtains W where "\<And>p. workspace_for (h p) k (C p) (St p) (Rst p) (A p) = Inr (W p)" "ready ccrh ell n M root h k W"
    "\<And>p. tree (W p) = C p" "\<And>p. roots (W p) = Rst p"
proof -
  note S = s [unfolded setting_def]
  have "\<exists>w. workspace_for (h p) k (C p) (St p) (Rst p) (A p) = Inr w \<and> shr w = A p \<and> tree w = C p \<and> roots w = Rst p \<and>
      (\<forall>i < k. fitted 1 (buf i) n (bufs w)) \<and> fitted 1 M n (bufs w) \<and> aux_ok 1 n (pack_1 w) \<and> aux_ok ell n (pack_root w) \<and>
      20 + length (p_buf (pack_1 w)) \<le> room (h p) \<and> 20 + length (p_buf (pack_root w)) \<le> room (h p)" for p
  proof -
    have h: "host_ok (h p) ell n" using S by simp
    obtain st where st: "new_bufs (h p) n k (St p) = Inr st" "\<forall>i < k. fitted 1 (buf i) n st"
      "\<forall>r. (\<forall>i < k. r \<notin> {thisShare (buf i), nxtShare (buf i)}) \<longrightarrow> st r = St p r"
      using new_bufs_ok [OF h] by blast
    obtain a1 where a1: "py_RvectorPack (alloc (h p)) 1 n = Inr a1" "aux_ok 1 n a1" "20 + length (p_buf a1) \<le> room (h p)"
      by (rule host_pack [OF h, of 1]) simp
    obtain a2 where a2: "py_RvectorPack (alloc (h p)) ell n = Inr a2" "aux_ok ell n a2" "20 + length (p_buf a2) \<le> room (h p)"
      by (rule host_pack [OF h, of ell]) simp
    have "i = 0 \<or> i = 1 \<or> i = 2" if "i < k" for i using that k by auto
    then have "apart M (buf i)" if "i < k" for i using that S by metis
    then have "st (thisShare M) = St p (thisShare M)" "st (nxtShare M) = St p (nxtShare M)" using st(3) apart_refs(1) by blast+
    then have "fitted 1 M n st" using fit(1) [of p] by (simp add: fitted_def)
    then show ?thesis using st a1 a2 C fit by (simp add: workspace_for_def del: One_nat_def)
  qed
  then obtain W where "\<And>p. workspace_for (h p) k (C p) (St p) (Rst p) (A p) = Inr (W p) \<and> shr (W p) = A p \<and> tree (W p) = C p \<and> roots (W p) = Rst p \<and>
      (\<forall>i < k. fitted 1 (buf i) n (bufs (W p))) \<and> fitted 1 M n (bufs (W p)) \<and> aux_ok 1 n (pack_1 (W p)) \<and> aux_ok ell n (pack_root (W p)) \<and>
      20 + length (p_buf (pack_1 (W p))) \<le> room (h p) \<and> 20 + length (p_buf (pack_root (W p))) \<le> room (h p)" by metis
  then show thesis using that [of W] A fit(2) by (simp add: ready_def)
qed

end
