(* ===== verification/Tree_Agents.thy ===== *)
theory Tree_Agents
  imports Tree_Sync
begin

text \<open>
  The caches of the three agents together: how they agree, and \<open>execute_merge\<close> at all three, for a tree without leaves,
  with one and with several.
\<close>

section \<open>The caches of the three agents\<close>

text \<open>The agents' caches have the same shape; every node that is not above a dirty leaf has the files of a
  sharing of the union of the leaves below it, which are \<open>lf\<close>.\<close>

definition above :: "nat set \<Rightarrow> nat set" where
  "above D = (\<Union>d \<in> D. List.set (ancestors d))"

definition forest :: "nat \<Rightarrow> nat \<Rightarrow> (pid \<Rightarrow> tree_cache) \<Rightarrow> nat \<Rightarrow> nat set \<Rightarrow> (nat \<Rightarrow> byte list) \<Rightarrow> bool" where
  "forest n ell C L D lf \<longleftrightarrow>
     (\<forall>p. tree_ok (C p) \<and> leaf_num (C p) = L \<and> dirty_leaf (C p) = D \<and> filter_size (C p) = n \<and> root_ell (C p) = ell) \<and>
     (\<forall>y. L \<le> y \<longrightarrow> y < 2 * L \<longrightarrow> length (lf y) = n \<and> bits (lf y)) \<and>
     (\<forall>x \<in> {1..<2 * L} - above D. node_at n C x (tree_or L lf x))"

definition joint :: "nat \<Rightarrow> nat \<Rightarrow> (pid \<Rightarrow> tree_cache) \<Rightarrow> nat \<Rightarrow> nat set \<Rightarrow> (nat \<Rightarrow> byte list) \<Rightarrow> bool" where
  "joint n ell C L D lf \<longleftrightarrow> (\<forall>p. live (C p)) \<and> forest n ell C L D lf"

text \<open>The root in memory and its files hold the union of all leaves.\<close>

definition root_is :: "nat \<Rightarrow> nat \<Rightarrow> (pid \<Rightarrow> tree_cache) \<Rightarrow> (pid \<Rightarrow> store) \<Rightarrow> ShrRep3ShareVec \<Rightarrow> byte list \<Rightarrow> bool" where
  "root_is n ell C R root w \<longleftrightarrow> rep3_vec ell R (\<lambda>_. root) w \<and> shared_files ell n (\<lambda>p. files (C p)) (\<lambda>_. root_name) w"

definition all_leaves :: "nat \<Rightarrow> nat \<Rightarrow> (nat \<Rightarrow> byte list) \<Rightarrow> byte list" where
  "all_leaves n L lf = map (\<lambda>j. if \<exists>y \<in> {L..<2 * L}. lf y ! j = 1 then 1 else 0) [0..<n]"

lemma root_union:
  assumes "0 < L" "\<And>y. L \<le> y \<Longrightarrow> y < 2 * L \<Longrightarrow> length (lf y) = n \<and> bits (lf y)"
  shows "tree_or L lf 1 = all_leaves n L lf"
proof (rule nth_equalityI)
  have t: "length (tree_or L lf 1) = n \<and> bits (tree_or L lf 1) \<and>
      (\<forall>j < n. tree_or L lf 1 ! j = 1 \<longleftrightarrow> (\<exists>y. L \<le> y \<and> y < 2 * L \<and> below 1 y \<and> lf y ! j = 1))"
  proof (rule tree_or_bits)
    show "1 < 2 * L" using assms(1) by simp
  qed (simp, rule assms(2))
  have len: "length (tree_or L lf 1) = n" and b: "bits (tree_or L lf 1)"
    and one: "\<And>j. j < n \<Longrightarrow> tree_or L lf 1 ! j = 1 \<longleftrightarrow> (\<exists>y. L \<le> y \<and> y < 2 * L \<and> below 1 y \<and> lf y ! j = 1)" using t by blast+
  show "length (tree_or L lf 1) = length (all_leaves n L lf)" using len by (simp add: all_leaves_def)
  fix j assume "j < length (tree_or L lf 1)"
  then have j: "j < n" "tree_or L lf 1 ! j \<in> {0, 1}" using len b nth_mem [of j "tree_or L lf 1"] unfolding bits_def by (simp, blast)
  have "tree_or L lf 1 ! j = 1 \<longleftrightarrow> (\<exists>y \<in> {L..<2 * L}. lf y ! j = 1)" using one [OF j(1)] below_one assms(1) by fastforce
  then show "tree_or L lf 1 ! j = all_leaves n L lf ! j" using j by (auto simp: all_leaves_def)
qed

lemma dirty_nodes:
  assumes "tree_ok c"
  shows "sorted_wrt (>) (dirty_node c)" "List.set (dirty_node c) = above (dirty_leaf c)" "above (dirty_leaf c) \<subseteq> {1..<leaf_num c}"
    "2 \<le> leaf_num c \<Longrightarrow> dirty_leaf c \<noteq> {} \<Longrightarrow> 1 \<in> above (dirty_leaf c)"
proof -
  have D: "dirty_leaf c \<subseteq> {leaf_num c..<2 * leaf_num c}" using assms by (simp add: tree_ok_def)
  then have fin: "finite (dirty_leaf c)" using finite_subset by blast
  then have "finite (above (dirty_leaf c))" by (simp add: above_def)
  then show "List.set (dirty_node c) = above (dirty_leaf c)" "sorted_wrt (>) (dirty_node c)"
    by (simp_all add: dirty_node_def above_def sorted_wrt_rev)
  show "above (dirty_leaf c) \<subseteq> {1..<leaf_num c}"
  proof
    fix x assume "x \<in> above (dirty_leaf c)"
    then obtain d where d: "d \<in> dirty_leaf c" "0 < x" "below x (d div 2)" by (auto simp: above_def set_ancestors)
    then have "x \<le> d div 2" "d < 2 * leaf_num c" using below_le D by auto
    then show "x \<in> {1..<leaf_num c}" using d(2) by auto
  qed
  assume "2 \<le> leaf_num c" "dirty_leaf c \<noteq> {}"
  then obtain d where "d \<in> dirty_leaf c" "2 \<le> d" using D by fastforce
  then show "1 \<in> above (dirty_leaf c)" using below_one [of "d div 2"] unfolding above_def by (auto simp: set_ancestors)
qed

lemma merge_one_runs:
  assumes s: "setting cap heap ell n M root h" and C: "\<And>p. filter_size (C p) = n" "\<And>p. root_ell (C p) = ell"
    and A: "synced ccrh A" and fit: "\<And>p. fitted 1 M n (St p)" "\<And>p. fitted ell root n (Rst p)"
    and w: "node_at n C 1 w" "bits w"
  shows "\<exists>W'. ends_with cap (\<lambda>p. merge_one (h p) (agent_ring_conv ccrh heap p ell) root (C p) (St p) (Rst p) (A p)) W' \<and>
    synced ccrh (\<lambda>p. shr (W' p)) \<and> (\<forall>p. tree (W' p) = (C p)\<lparr>files := files (tree (W' p))\<rparr>) \<and> (\<forall>p. fitted 1 M n (bufs (W' p))) \<and>
    (\<forall>p. others_kept root_name (files (C p)) (files (tree (W' p)))) \<and> root_is n ell (\<lambda>p. tree (W' p)) (\<lambda>p. roots (W' p)) root w"
proof -
  obtain W where W: "\<And>p. workspace_for (h p) 1 (C p) (St p) (Rst p) (A p) = Inr (W p)" "ready ccrh ell n M root h 1 W" "\<And>p. tree (W p) = C p"
    by (rule workspace_ok [where C = C and St = St and Rst = Rst and k = 1, OF s _ C A fit]) (simp, rule that, assumption+)
  note R = W(2) [unfolded ready_def] and S = s [unfolded setting_def]
  obtain t where t: "\<And>p. map_of (phi_r (C p)) 1 = Some (t p)" "shared_files 1 n (\<lambda>p. files (C p)) t w" using w(1) by (auto simp: node_at_def)
  have b: "\<And>p. fitted 1 (buf 0) n (bufs (W p))" "\<And>p. aux_ok 1 n (pack_1 (W p))" using R by simp_all
  obtain B1 P1 where l: "\<And>p. load_share 1 (t p) (buf 0) (files (C p)) (bufs (W p), pack_1 (W p)) = Inr (B1 p, P1 p)" "rep3_vec 1 B1 (\<lambda>_. buf 0) w"
    "\<And>p r. r \<notin> {thisShare (buf 0), nxtShare (buf 0)} \<Longrightarrow> B1 p r = bufs (W p) r" "\<And>p. aux_ok 1 n (P1 p)"
    "\<And>p. length (p_buf (P1 p)) = length (p_buf (pack_1 (W p)))"
    using load_shared [where V = "\<lambda>_. buf 0" and St = "\<lambda>p. bufs (W p)" and P = "\<lambda>p. pack_1 (W p)", OF t(2) b(1) buf_apart(3) b(2)] by metis
  define W1 where "W1 p = (W p)\<lparr>bufs := B1 p, pack_1 := P1 p\<rparr>" for p
  have len: "length w = n" using shared_files_length [OF t(2)] .
  have M: "fitted 1 M n (B1 p)" for p
    using fitted_kept [where X = "{thisShare (buf 0), nxtShare (buf 0)}" and st' = "B1 p" and st = "bufs (W p)", OF _ l(3)] R apart_refs(1) [of M "buf 0"] S by auto
  have "ready ccrh ell n M root h 1 W1" using R l(4,5) M rep3_fitted [OF l(2) len] by (simp add: ready_def W1_def)
  moreover have "root_ell (tree (W1 p)) = ell" for p by (simp add: W1_def W(3) C)
  moreover have "rep3_vec 1 (\<lambda>p. bufs (W1 p)) (\<lambda>_. buf 0) w" using l(2) by (simp add: W1_def)
  ultimately obtain W' where W': "ends_with cap (\<lambda>p. convert_root (h p) (agent_ring_conv ccrh heap p ell) root (buf 0) (W1 p)) W'"
    "ready ccrh ell n M root h 1 W'" "same_trees W1 W'" "rep3_vec ell (\<lambda>p. roots (W' p)) (\<lambda>_. root) w"
    "\<And>p. others_kept root_name (files (tree (W1 p))) (files (tree (W' p)))" "shared_files ell n (\<lambda>p. files (tree (W' p))) (\<lambda>_. root_name) w"
    using convert_root_runs [where W = W1, OF s _ _ _ w(2) len] by blast
  have "merge_one (h p) (agent_ring_conv ccrh heap p ell) root (C p) (St p) (Rst p) (A p) =
      convert_root (h p) (agent_ring_conv ccrh heap p ell) root (buf 0) (W1 p)" for p
    using t(1) [of p] W(1) [of p] l(1) [of p] by (simp add: merge_one_def W1_def del: One_nat_def)
  from ends_eq [OF W'(1) this] show ?thesis
    using W'(2,4-6) same_trees_files [OF W'(3)] unfolding root_is_def ready_def by (intro exI [of _ W']) (simp add: W1_def W(3))
qed


section \<open>The three cases of a merge\<close>

text \<open>The processes end with caches that differ from \<open>C\<close> in the files and have no dirty leaf, every node has its union, and
  the root has that of all leaves.\<close>

definition merged :: "nat \<Rightarrow> ccrh \<Rightarrow> nat \<Rightarrow> nat \<Rightarrow> ShrRep3ShareVec \<Rightarrow> ShrRep3ShareVec \<Rightarrow> nat \<Rightarrow> (nat \<Rightarrow> byte list) \<Rightarrow> (pid \<Rightarrow> tree_cache) \<Rightarrow>
    (pid \<Rightarrow> (side, tree_cache \<times> store \<times> store \<times> aby3) proc) \<Rightarrow> bool" where
  "merged cap ccrh n ell M root L lf C P \<longleftrightarrow> (\<exists>C2 St2 R2 A2. ends_with cap P (\<lambda>p. (C2 p, St2 p, R2 p, A2 p)) \<and>
     (\<forall>p. \<exists>fs. C2 p = (C p)\<lparr>files := fs, dirty_leaf := {}\<rparr>) \<and> synced ccrh A2 \<and> (\<forall>p. fitted 1 M n (St2 p)) \<and>
     rep3_vec ell R2 (\<lambda>_. root) (all_leaves n L lf) \<and> (0 < L \<longrightarrow> root_is n ell C2 R2 root (all_leaves n L lf)) \<and>
     (L = 0 \<longrightarrow> (\<forall>p. \<not> root_files (C2 p))) \<and> (\<forall>x \<in> {1..<2 * L}. node_at n C2 x (tree_or L lf x)))"

lemma mergedI:
  assumes "ends_with cap P (\<lambda>p. (C2 p, St2 p, R2 p, A2 p))" "\<And>p. \<exists>fs. C2 p = (C p)\<lparr>files := fs, dirty_leaf := {}\<rparr>" "synced ccrh A2"
    "\<And>p. fitted 1 M n (St2 p)" "rep3_vec ell R2 (\<lambda>_. root) (all_leaves n L lf)" "0 < L \<Longrightarrow> root_is n ell C2 R2 root (all_leaves n L lf)"
    "\<And>p. L = 0 \<Longrightarrow> \<not> root_files (C2 p)" "\<forall>x \<in> {1..<2 * L}. node_at n C2 x (tree_or L lf x)"
  shows "merged cap ccrh n ell M root L lf C P"
  unfolding merged_def using assms by blast

lemma merge_none:
  assumes s: "setting cap heap ell n M root h" and F: "forest n ell C L D lf" and L: "L = 0" and A: "synced ccrh A"
    and fit: "\<And>p. fitted 1 M n (St p)" "\<And>p. fitted ell root n (Rst p)"
  shows "merged cap ccrh n ell M root L lf C
    (\<lambda>p. merge_tree (h p) (agent_merge ccrh heap M) (agent_ring_conv ccrh heap p ell) root (C p) (St p) (Rst p) (A p))"
proof -
  note S = s [unfolded setting_def]
  have h: "\<And>p q. openable (h p) q" "\<And>p q. removable (h p) q" using S by (simp_all add: host_ok_def)
  have C1: "tree_ok (C p)" "leaf_num (C p) = L" "dirty_leaf (C p) = D" "filter_size (C p) = n" "root_ell (C p) = ell" for p
    using F by (simp_all add: forest_def)
  have lf: "\<And>y. L \<le> y \<Longrightarrow> y < 2 * L \<Longrightarrow> length (lf y) = n \<and> bits (lf y)"
    and nodes: "\<And>x. x \<in> {1..<2 * L} - above D \<Longrightarrow> node_at n C x (tree_or L lf x)" using F by (simp_all add: forest_def)
  note none = L
  then have e: "D = {}" "all_leaves n L lf = replicate n 0" using C1(1,3) [of P0] C1(2) [of P0]
    by (simp_all add: tree_ok_def all_leaves_def map_replicate_trivial)
  have "\<exists>v w. clear_root (h p) root (C p) (Rst p) = Inr ((C p)\<lparr>files := (files (C p))(this_path root_name := None, nxt_path root_name := None)\<rparr>,
      (Rst p)(thisShare root := v, nxtShare root := w)) \<and> rv_ok ell v \<and> rv_ok ell w \<and> elems ell v = replicate n 0 \<and> elems ell w = replicate n 0" for p
  proof -
    obtain v where v: "rv_fill ell 0 (Rst p (thisShare root)) = Inr v" "rv_ok ell v" "elems ell v = replicate n 0"
      using rv_fill_ok [of ell "Rst p (thisShare root)" 0] fit(2) [of p] by (auto simp: fitted_def)
    obtain w where w: "rv_fill ell 0 (Rst p (nxtShare root)) = Inr w" "rv_ok ell w" "elems ell w = replicate n 0"
      using rv_fill_ok [of ell "Rst p (nxtShare root)" 0] fit(2) [of p] by (auto simp: fitted_def)
    show ?thesis using v w S h by (intro exI [of _ v] exI [of _ w]) (simp add: clear_root_def C1(5) drop_pair_ok)
  qed
  then obtain v w where vw: "\<And>p. clear_root (h p) root (C p) (Rst p) = Inr ((C p)\<lparr>files := (files (C p))(this_path root_name := None, nxt_path root_name := None)\<rparr>,
      (Rst p)(thisShare root := v p, nxtShare root := w p))" "\<And>p. rv_ok ell (v p)" "\<And>p. rv_ok ell (w p)" "\<And>p. elems ell (v p) = replicate n 0"
      "\<And>p. elems ell (w p) = replicate n 0" by metis
  let ?C2 = "\<lambda>p. (C p)\<lparr>files := (files (C p))(this_path root_name := None, nxt_path root_name := None), dirty_leaf := {}\<rparr>"
  let ?R2 = "\<lambda>p. (Rst p)(thisShare root := v p, nxtShare root := w p)"
  have "vsharing ell ?R2 (\<lambda>_. root) (\<lambda>_. replicate n 0)" using vw S by (simp add: vsharing_def)
  moreover have "sums_to ell (\<lambda>_. replicate n 0) (replicate n 0)" by (simp add: sums_to_def)
  ultimately have "rep3_vec ell ?R2 (\<lambda>_. root) (all_leaves n L lf)" unfolding e(2) rep3_vec_def by blast
  moreover have run: "ends_with cap (\<lambda>p. merge_tree (h p) (agent_merge ccrh heap M) (agent_ring_conv ccrh heap p ell) root (C p) (St p) (Rst p) (A p))
      (\<lambda>p. (?C2 p, St p, ?R2 p, A p))" by (simp add: merge_tree_def C1 none vw(1))
  ultimately show ?thesis using none A fit(1) by (intro mergedI [OF run]) (auto simp: root_files_def)
qed

lemma merge_single:
  assumes s: "setting cap heap ell n M root h" and F: "forest n ell C L D lf" and L: "L = 1" and A: "synced ccrh A"
    and fit: "\<And>p. fitted 1 M n (St p)" "\<And>p. fitted ell root n (Rst p)"
    and clean: "D = {} \<Longrightarrow> root_is n ell C Rst root (all_leaves n L lf)"
  shows "merged cap ccrh n ell M root L lf C
    (\<lambda>p. merge_tree (h p) (agent_merge ccrh heap M) (agent_ring_conv ccrh heap p ell) root (C p) (St p) (Rst p) (A p))"
proof -
  note S = s [unfolded setting_def]
  have h: "\<And>p q. openable (h p) q" "\<And>p q. removable (h p) q" using S by (simp_all add: host_ok_def)
  have C1: "tree_ok (C p)" "leaf_num (C p) = L" "dirty_leaf (C p) = D" "filter_size (C p) = n" "root_ell (C p) = ell" for p
    using F by (simp_all add: forest_def)
  have lf: "\<And>y. L \<le> y \<Longrightarrow> y < 2 * L \<Longrightarrow> length (lf y) = n \<and> bits (lf y)"
    and nodes: "\<And>x. x \<in> {1..<2 * L} - above D \<Longrightarrow> node_at n C x (tree_or L lf x)" using F by (simp_all add: forest_def)
  note one = L
  have ok: "tree_ok (C P0)" "leaf_num (C P0) = 1" "dirty_leaf (C P0) = D" using C1(1-3) one by simp_all
  then have "above D \<subseteq> {}" using dirty_nodes(3) [OF ok(1)] by simp
  then have w: "node_at n C 1 (all_leaves n L lf)" using nodes [of 1] root_union [of L lf n] lf one by simp
  have b: "bits (all_leaves n L lf)" by (auto simp: all_leaves_def bits_def)
  show ?thesis
  proof (cases "D = {}")
    case True
    have "root_files (C p)" for p using clean True one by (auto simp: root_is_def shared_files_def stored_def root_files_def C1)
    then have run: "ends_with cap (\<lambda>p. merge_tree (h p) (agent_merge ccrh heap M) (agent_ring_conv ccrh heap p ell) root (C p) (St p) (Rst p) (A p))
        (\<lambda>p. ((C p)\<lparr>dirty_leaf := {}\<rparr>, St p, Rst p, A p))" by (simp add: merge_tree_def C1 one True)
    moreover have "\<exists>fs. (C p)\<lparr>dirty_leaf := {}\<rparr> = (C p)\<lparr>files := fs, dirty_leaf := {}\<rparr>" for p
      by (intro exI [of _ "files (C p)"]) simp
    moreover have "root_is n ell (\<lambda>p. (C p)\<lparr>dirty_leaf := {}\<rparr>) Rst root (all_leaves n L lf)" using clean True one by (simp add: root_is_def C1)
    moreover have "node_at n (\<lambda>p. (C p)\<lparr>dirty_leaf := {}\<rparr>) 1 (tree_or L lf 1)"
      using w root_union [of L lf n] lf one by (simp add: node_at_def)
    then have "\<forall>x \<in> {1..<2 * L}. node_at n (\<lambda>p. (C p)\<lparr>dirty_leaf := {}\<rparr>) x (tree_or L lf x)"
      using one by (auto simp: less_Suc_eq numeral_2_eq_2)
    ultimately show ?thesis using A fit(1) one by (intro mergedI [OF run]) (simp_all add: root_is_def)
  next
    case False
    obtain W where W: "ends_with cap (\<lambda>p. merge_one (h p) (agent_ring_conv ccrh heap p ell) root (C p) (St p) (Rst p) (A p)) W"
      "synced ccrh (\<lambda>p. shr (W p))" "\<And>p. tree (W p) = (C p)\<lparr>files := files (tree (W p))\<rparr>" "\<And>p. fitted 1 M n (bufs (W p))"
      "\<And>p. others_kept root_name (files (C p)) (files (tree (W p)))"
      "root_is n ell (\<lambda>p. tree (W p)) (\<lambda>p. roots (W p)) root (all_leaves n L lf)"
      using merge_one_runs [where C = C and St = St and Rst = Rst, OF s C1(4,5) A fit w b] by blast
    let ?C2 = "\<lambda>p. (tree (W p))\<lparr>dirty_leaf := {}\<rparr>"
    have run: "ends_with cap (\<lambda>p. merge_tree (h p) (agent_merge ccrh heap M) (agent_ring_conv ccrh heap p ell) root (C p) (St p) (Rst p) (A p))
        (\<lambda>p. (?C2 p, bufs (W p), roots (W p), shr (W p)))"
    proof (rule ends_eq)
      show "ends_with cap (\<lambda>p. pbind (merge_one (h p) (agent_ring_conv ccrh heap p ell) root (C p) (St p) (Rst p) (A p))
          (\<lambda>w. Ret ((tree w)\<lparr>dirty_leaf := {}\<rparr>, bufs w, roots w, shr w))) (\<lambda>p. (?C2 p, bufs (W p), roots (W p), shr (W p)))"
        by (rule ends_bind [OF W(1)]) simp
    qed (simp add: merge_tree_def C1 one False)
    moreover have "\<exists>fs. ?C2 p = (C p)\<lparr>files := fs, dirty_leaf := {}\<rparr>" for p
      by (intro exI [of _ "files (tree (W p))"], subst W(3)) simp
    moreover have "root_is n ell ?C2 (\<lambda>p. roots (W p)) root (all_leaves n L lf)" using W(6) by (simp add: root_is_def)
    moreover have "node_at n ?C2 1 (all_leaves n L lf)"
    proof (rule node_at_kept [OF w, where t = "\<lambda>_. root_name"])
      show "phi_r (?C2 p) = phi_r (C p)" for p by (simp, subst W(3)) simp
    qed (use W(5) node_token [OF C1(1)] in auto)
    then have "node_at n ?C2 1 (tree_or L lf 1)" using root_union [of L lf n] lf one by simp
    then have "\<forall>x \<in> {1..<2 * L}. node_at n ?C2 x (tree_or L lf x)" using one by (auto simp: less_Suc_eq numeral_2_eq_2)
    ultimately show ?thesis using W(2,4) one by (intro mergedI [OF run]) (simp_all add: root_is_def)
  qed
qed

lemma merge_several:
  assumes s: "setting cap heap ell n M root h" and F: "forest n ell C L D lf" and L: "2 \<le> L" and A: "synced ccrh A"
    and fit: "\<And>p. fitted 1 M n (St p)" "\<And>p. fitted ell root n (Rst p)"
    and clean: "D = {} \<Longrightarrow> root_is n ell C Rst root (all_leaves n L lf)"
  shows "merged cap ccrh n ell M root L lf C
    (\<lambda>p. merge_tree (h p) (agent_merge ccrh heap M) (agent_ring_conv ccrh heap p ell) root (C p) (St p) (Rst p) (A p))"
proof -
  note S = s [unfolded setting_def]
  have h: "\<And>p q. openable (h p) q" "\<And>p q. removable (h p) q" using S by (simp_all add: host_ok_def)
  have C1: "tree_ok (C p)" "leaf_num (C p) = L" "dirty_leaf (C p) = D" "filter_size (C p) = n" "root_ell (C p) = ell" for p
    using F by (simp_all add: forest_def)
  have lf: "\<And>y. L \<le> y \<Longrightarrow> y < 2 * L \<Longrightarrow> length (lf y) = n \<and> bits (lf y)"
    and nodes: "\<And>x. x \<in> {1..<2 * L} - above D \<Longrightarrow> node_at n C x (tree_or L lf x)" using F by (simp_all add: forest_def)
  note more = L
  let ?C = "\<lambda>p. (C p)\<lparr>dirty_leaf := {}\<rparr>"
  obtain W where W: "\<And>p. workspace_for (h p) 3 (?C p) (St p) (Rst p) (A p) = Inr (W p)" "ready ccrh ell n M root h 3 W"
    "\<And>p. tree (W p) = ?C p" "\<And>p. roots (W p) = Rst p"
    by (rule workspace_ok [where C = ?C and St = St and Rst = Rst and k = 3, OF s _ _ _ A fit]) (simp, simp add: C1, simp add: C1, rule that, assumption+)
  define N where "N = dirty_node (C P0)"
  have N: "dirty_node (C p) = N" for p by (simp add: N_def dirty_node_def C1)
  have N': "sorted_wrt (>) N" "List.set N = above D" "above D \<subseteq> {1..<L}" "D \<noteq> {} \<Longrightarrow> 1 \<in> above D"
    using dirty_nodes [OF C1(1) [of P0]] more by (simp_all add: N_def C1)
  have pre: "List.set N \<subseteq> {1..<L}" "\<And>p. root_ell (tree (W p)) = ell" "\<And>p. tree_ok (tree (W p))" "\<And>p. leaf_num (tree (W p)) = L"
    using C1(1) N'(2,3) by (simp_all add: W(3) C1 tree_ok_def)
  have "node_at n (\<lambda>p. tree (W p)) x (tree_or L lf x)" if "x \<in> {1..<2 * L} - List.set N" for x
    using nodes [of x] that unfolding N'(2) by (simp add: W(3) node_at_def C1)
  note merge_nodes_runs [where L = L and lf = lf, OF s lf N'(1) pre(1) W(2) pre(2-4) this, unfolded N'(2)]
  then obtain W' where W': "ends_with cap (\<lambda>p. merge_nodes (h p) (agent_merge ccrh heap M) (agent_ring_conv ccrh heap p ell) root N (W p)) W'"
    "ready ccrh ell n M root h 3 W'" "same_trees W W'" "\<forall>x \<in> {1..<2 * L}. node_at n (\<lambda>p. tree (W' p)) x (tree_or L lf x)"
    "1 \<in> above D \<longrightarrow> root_is n ell (\<lambda>p. tree (W' p)) (\<lambda>p. roots (W' p)) root (tree_or L lf 1)" "N = [] \<longrightarrow> W' = W"
    unfolding root_is_def by blast
  have root: "root_is n ell (\<lambda>p. tree (W' p)) (\<lambda>p. roots (W' p)) root (all_leaves n L lf)"
  proof (cases "D = {}")
    case True
    then have "W' = W" using W'(6) N'(2) by (simp add: above_def)
    then show ?thesis using clean True more by (simp add: root_is_def W(3,4) C1)
  next
    case False
    then show ?thesis using W'(5) N'(4) root_union [of L lf n] lf more by simp
  qed
  have run: "ends_with cap (\<lambda>p. merge_tree (h p) (agent_merge ccrh heap M) (agent_ring_conv ccrh heap p ell) root (C p) (St p) (Rst p) (A p))
      (\<lambda>p. (tree (W' p), bufs (W' p), roots (W' p), shr (W' p)))"
  proof (rule ends_eq)
    show "ends_with cap (\<lambda>p. pbind (merge_nodes (h p) (agent_merge ccrh heap M) (agent_ring_conv ccrh heap p ell) root N (W p))
        (\<lambda>w. Ret (tree w, bufs w, roots w, shr w))) (\<lambda>p. (tree (W' p), bufs (W' p), roots (W' p), shr (W' p)))"
      by (rule ends_bind [OF W'(1)]) simp
  qed (use more in \<open>simp add: merge_tree_def C1 W(1) N\<close>)
  moreover have "\<exists>fs. tree (W' p) = (C p)\<lparr>files := fs, dirty_leaf := {}\<rparr>" for p
  proof -
    obtain fs where "tree (W' p) = (?C p)\<lparr>files := fs\<rparr>" using W'(3) unfolding same_trees_def W(3) by blast
    then show ?thesis by (intro exI [of _ fs], cases "C p") simp
  qed
  ultimately show ?thesis using W'(2,4) root more by (intro mergedI [OF run]) (simp_all add: ready_def root_is_def)
qed

section \<open>execute\_merge\<close>

lemma joint_sel:
  assumes "joint n ell C L D lf"
  shows "live (C p)" "leaf_num (C p) = L" "dirty_leaf (C p) = D" "filter_size (C p) = n" "root_ell (C p) = ell" "tree_ok (C p)"
    "L \<le> y \<Longrightarrow> y < 2 * L \<Longrightarrow> length (lf y) = n \<and> bits (lf y)"
    "x \<in> {1..<2 * L} - above D \<Longrightarrow> node_at n C x (tree_or L lf x)"
  using assms by (simp_all add: joint_def forest_def)

lemma merge_runs:
  assumes s: "setting cap heap ell n M root h" and J: "joint n ell C L D lf" and A: "synced ccrh A"
    and fit: "\<And>p. fitted 1 M n (St p)" "\<And>p. fitted ell root n (Rst p)"
    and clean: "0 < L \<Longrightarrow> D = {} \<Longrightarrow> root_is n ell C Rst root (all_leaves n L lf)"
  shows "\<exists>C' St' R' A'. ends_with cap (\<lambda>p. execute_merge (h p) (agent_merge ccrh heap M) (agent_ring_conv ccrh heap p ell) root (C p) (St p) (Rst p) (A p))
      (\<lambda>p. (C' p, St' p, R' p, A' p)) \<and> joint n ell C' L {} lf \<and> synced ccrh A' \<and>
    (\<forall>p. phi_f (C' p) = phi_f (C p) \<and> phi_r (C' p) = phi_r (C p) \<and> meta (C' p) \<noteq> None) \<and> (\<forall>p. fitted 1 M n (St' p)) \<and>
    rep3_vec ell R' (\<lambda>_. root) (all_leaves n L lf) \<and> (0 < L \<longrightarrow> root_is n ell C' R' root (all_leaves n L lf)) \<and>
    (L = 0 \<longrightarrow> (\<forall>p. \<not> root_files (C' p)))"
proof -
  note C = joint_sel [OF J]
  have h: "\<And>p q. openable (h p) q" "\<And>p. \<forall>d. writable (h p) d" using s by (simp_all add: setting_def host_ok_def)
  define C1 where "C1 p = (C p)\<lparr>corrupted := True, meta := Some (Inr (meta_doc ''dirty'' (C p)))\<rparr>" for p
  define fin where "fin c = c\<lparr>meta := Some (Inr (meta_doc ''valid'' c)), corrupted := False\<rparr>" for c
  let ?P = "\<lambda>p. merge_tree (h p) (agent_merge ccrh heap M) (agent_ring_conv ccrh heap p ell) root (C1 p) (St p) (Rst p) (A p)"
  have same: "node_at n C1 x w = node_at n C x w" "root_is n ell C1 R root w = root_is n ell C R root w" for x w R
    by (simp_all add: node_at_def root_is_def C1_def)
  have F: "forest n ell C1 L D lf" using C by (simp add: forest_def same) (simp add: C1_def)
  consider "L = 0" | "L = 1" | "2 \<le> L" by linarith
  then have "merged cap ccrh n ell M root L lf C1 ?P"
    by cases ((rule merge_none merge_single merge_several, rule s, rule F, assumption, rule A, rule fit, rule fit);
      use clean in \<open>simp add: same\<close>)+
  then obtain C2 St2 R2 A2 where m: "ends_with cap ?P (\<lambda>p. (C2 p, St2 p, R2 p, A2 p))" "\<And>p. \<exists>fs. C2 p = (C1 p)\<lparr>files := fs, dirty_leaf := {}\<rparr>"
    "synced ccrh A2" "\<And>p. fitted 1 M n (St2 p)" "rep3_vec ell R2 (\<lambda>_. root) (all_leaves n L lf)"
    "0 < L \<longrightarrow> root_is n ell C2 R2 root (all_leaves n L lf)" "L = 0 \<longrightarrow> (\<forall>p. \<not> root_files (C2 p))" "\<forall>x \<in> {1..<2 * L}. node_at n C2 x (tree_or L lf x)"
    unfolding merged_def by blast
  have sel: "live (fin (C2 p)) \<and> tree_ok (fin (C2 p)) \<and> leaf_num (fin (C2 p)) = L \<and> dirty_leaf (fin (C2 p)) = {} \<and> filter_size (fin (C2 p)) = n \<and>
      root_ell (fin (C2 p)) = ell \<and> phi_f (fin (C2 p)) = phi_f (C p) \<and> phi_r (fin (C2 p)) = phi_r (C p) \<and> meta (fin (C2 p)) \<noteq> None \<and>
      files (fin (C2 p)) = files (C2 p) \<and> root_files (fin (C2 p)) = root_files (C2 p)" for p
  proof -
    obtain fs where e: "C2 p = (C1 p)\<lparr>files := fs, dirty_leaf := {}\<rparr>" using m(2) by blast
    show ?thesis using C(2,4-6) [of p] unfolding e by (simp add: fin_def live_def C1_def tree_ok_def meta_doc_def root_files_def)
  qed
  have "phi_r (fin (C2 p)) = phi_r (C2 p)" for p by (simp add: fin_def)
  then have "node_at n (\<lambda>p. fin (C2 p)) x w = node_at n C2 x w" "root_is n ell (\<lambda>p. fin (C2 p)) R2 root w = root_is n ell C2 R2 root w" for x w
    using sel by (simp_all add: node_at_def root_is_def)
  then have "joint n ell (\<lambda>p. fin (C2 p)) L {} lf" "0 < L \<longrightarrow> root_is n ell (\<lambda>p. fin (C2 p)) R2 root (all_leaves n L lf)"
    using m(6,8) sel C(7) by (simp_all add: joint_def forest_def)
  moreover have "ends_with cap (\<lambda>p. execute_merge (h p) (agent_merge ccrh heap M) (agent_ring_conv ccrh heap p ell) root (C p) (St p) (Rst p) (A p))
      (\<lambda>p. (fin (C2 p), St2 p, R2 p, A2 p))"
  proof (rule ends_eq)
    show "ends_with cap (\<lambda>p. pbind (?P p) (\<lambda>(c, st, rst, a). case mark_valid (h p) c of (_, Inl e) \<Rightarrow> Fail e | (c, Inr _) \<Rightarrow> Ret (c, st, rst, a)))
        (\<lambda>p. (fin (C2 p), St2 p, R2 p, A2 p))"
      by (rule ends_bind [OF m(1)]) (simp add: mark_valid_ok h fin_def)
    show "execute_merge (h p) (agent_merge ccrh heap M) (agent_ring_conv ccrh heap p ell) root (C p) (St p) (Rst p) (A p) =
        pbind (?P p) (\<lambda>(c, st, rst, a). case mark_valid (h p) c of (_, Inl e) \<Rightarrow> Fail e | (c, Inr _) \<Rightarrow> Ret (c, st, rst, a))" for p
      using C(1) [of p] by (simp add: execute_merge_def live_def mark_corrupted_ok h C1_def)
  qed
  ultimately show ?thesis using m(3-5,7) sel
    by (intro exI [of _ "\<lambda>p. fin (C2 p)"] exI [of _ St2] exI [of _ R2] exI [of _ A2]) simp
qed

end
