(* ===== verification/Tree_Holders.thy ===== *)
theory Tree_Holders
  imports Tree_Agents
begin

text \<open>
  The set holders and the tree: joining, updating and leaving at all three agents, as changes of a map from the holders'
  tokens to their filters.
\<close>

section \<open>Tokens and filters\<close>

text \<open>A holder has a token at each agent; \<open>H\<close> maps the tokens of the present holders to their filters.\<close>

type_synonym holders = "(pid \<Rightarrow> string) \<rightharpoonup> byte list"

definition has_tokens :: "(pid \<Rightarrow> tree_cache) \<Rightarrow> nat \<Rightarrow> (pid \<Rightarrow> string) \<Rightarrow> bool" where
  "has_tokens C x t \<longleftrightarrow> (\<forall>p. map_of (phi_r (C p)) x = Some (t p))"

definition agree :: "(pid \<Rightarrow> tree_cache) \<Rightarrow> nat \<Rightarrow> (nat \<Rightarrow> byte list) \<Rightarrow> holders \<Rightarrow> bool" where
  "agree C L lf H \<longleftrightarrow> (\<forall>t w. H t = Some w \<longleftrightarrow> (\<exists>x. L \<le> x \<and> x < 2 * L \<and> has_tokens C x t \<and> lf x = w))"

text \<open>The shares a holder sends to the agents.\<close>

definition shares_of :: "nat \<Rightarrow> byte list \<Rightarrow> (pid \<Rightarrow> rvec shr_rep3) \<Rightarrow> bool" where
  "shares_of n w s \<longleftrightarrow> length w = n \<and> bits w \<and> (\<exists>z. sums_to 1 z w \<and> (\<forall>p. rv_ok 1 (thisShare (s p)) \<and> rv_ok 1 (nxtShare (s p)) \<and>
     elems 1 (thisShare (s p)) = z p \<and> elems 1 (nxtShare (s p)) = z (NEXT p)))"

lemma shares_stored:
  assumes "shares_of n w s" "\<And>p. stored 1 n (F p) (this_path (t p)) (elems 1 (thisShare (s p)))"
    "\<And>p. stored 1 n (F p) (nxt_path (t p)) (elems 1 (nxtShare (s p)))"
  shows "shared_files 1 n F t w"
  using assms unfolding shares_of_def shared_files_def by metis

lemma shares_sizes:
  assumes "shares_of n w s"
  shows "rv_ok 1 (thisShare (s p))" "rv_ok 1 (nxtShare (s p))" "n_elems (thisShare (s p)) = n" "n_elems (nxtShare (s p)) = n"
proof -
  obtain z where z: "sums_to 1 z w" "\<And>p. rv_ok 1 (thisShare (s p)) \<and> rv_ok 1 (nxtShare (s p)) \<and>
     elems 1 (thisShare (s p)) = z p \<and> elems 1 (nxtShare (s p)) = z (NEXT p)" "length w = n" using assms by (auto simp: shares_of_def)
  then show "rv_ok 1 (thisShare (s p))" "rv_ok 1 (nxtShare (s p))" by simp_all
  have "length (elems 1 (thisShare (s p))) = n" "length (elems 1 (nxtShare (s p))) = n" using z by (simp_all add: sums_to_def del: length_elems)
  then show "n_elems (thisShare (s p)) = n" "n_elems (nxtShare (s p)) = n" by simp_all
qed

lemma has_tokens_inj: "tree_ok (C p) \<Longrightarrow> has_tokens C x t \<Longrightarrow> has_tokens C y t \<Longrightarrow> x = y"
  using token_inj [of "C p" x "t p" y] by (simp add: has_tokens_def)

lemma has_tokens_same: "has_tokens C x t \<Longrightarrow> has_tokens C x u \<Longrightarrow> u = t"
  by (auto simp: has_tokens_def fun_eq_iff)

lemma node_at_tokens: "has_tokens C x t \<Longrightarrow> node_at n C x w \<longleftrightarrow> shared_files 1 n (\<lambda>p. files (C p)) t w"
proof -
  assume h: "has_tokens C x t"
  have "u = t" if "\<forall>p. map_of (phi_r (C p)) x = Some (u p)" for u using h that by (auto simp: has_tokens_def fun_eq_iff)
  then show ?thesis using h by (auto simp: node_at_def has_tokens_def)
qed

text \<open>A node whose tokens and files are those of another one before.\<close>

lemma node_moved:
  assumes "node_at n C y w" "\<And>p. map_of (phi_r (C' p)) x = map_of (phi_r (C p)) y"
    and "\<And>p t. map_of (phi_r (C p)) y = Some t \<Longrightarrow> files (C' p) (this_path t) = files (C p) (this_path t) \<and> files (C' p) (nxt_path t) = files (C p) (nxt_path t)"
  shows "node_at n C' x w"
proof -
  obtain t where t: "has_tokens C y t" "shared_files 1 n (\<lambda>p. files (C p)) t w" using assms(1) by (auto simp: node_at_def has_tokens_def)
  have "shared_files 1 n (\<lambda>p. files (C' p)) t w" by (rule shared_files_kept [OF t(2)]) (use assms(3) t(1) in \<open>simp add: has_tokens_def\<close>)
  then show ?thesis using t(1) assms(2) by (auto simp: node_at_def has_tokens_def)
qed

text \<open>The files of the root.\<close>

definition root_kept :: "(pid \<Rightarrow> tree_cache) \<Rightarrow> (pid \<Rightarrow> tree_cache) \<Rightarrow> bool" where
  "root_kept C C' \<longleftrightarrow> (\<forall>p. files (C' p) (this_path root_name) = files (C p) (this_path root_name) \<and>
     files (C' p) (nxt_path root_name) = files (C p) (nxt_path root_name))"

lemma not_root: "tree_ok c \<Longrightarrow> map_of (phi_r c) x = Some u \<Longrightarrow> root_name \<noteq> u"
  using token_of [of c x u] by (auto simp: tree_ok_def)

lemma root_keptI:
  assumes "\<And>p. tree_ok (B p)" "has_tokens B x t" "\<And>p. others_kept (t p) (files (C p)) (files (C' p))"
  shows "root_kept C C'"
proof -
  have "root_name \<noteq> t p" for p using not_root [OF assms(1), of p x "t p"] assms(2) by (simp add: has_tokens_def)
  then show ?thesis using assms(3) by (simp add: root_kept_def others_kept_def)
qed

lemma below_half: "below y x \<Longrightarrow> y \<noteq> x \<Longrightarrow> below y (x div 2)"
  using below_step [of y x] by auto

lemma not_above: "y \<notin> above D \<Longrightarrow> 0 < y \<Longrightarrow> d \<in> D \<Longrightarrow> \<not> below y (d div 2)"
  by (auto simp: above_def set_ancestors)

section \<open>Joining\<close>

definition split_leaf :: "nat \<Rightarrow> byte list \<Rightarrow> (nat \<Rightarrow> byte list) \<Rightarrow> nat \<Rightarrow> byte list" where
  "split_leaf L w lf y = (if y = 2 * L + 1 then w else if L \<noteq> 0 \<and> y = 2 * L then lf L else lf y)"

lemma join_runs:
  assumes s: "setting cap heap ell n M root h" and J: "joint n ell C L D lf" and H: "agree C L lf H"
    and k: "\<And>p. draws_new (h p) (k p) (C p)" and node: "shares_of n w s"
  shows "\<exists>C' t D'. (\<forall>p. tc_insert (h p) (k p) (s p) (C p) = Some (C' p, Inr (t p))) \<and> H t = None \<and>
    joint n ell C' (L + 1) D' (split_leaf L w lf) \<and> D' \<noteq> {} \<and> agree C' (L + 1) (split_leaf L w lf) (H(t \<mapsto> w)) \<and>
    root_kept C C'"
proof -
  note C = joint_sel [OF J]
  have hok: "host_ok (h p) ell (filter_size (C p))" for p using s C(4) by (simp add: setting_def)
  have sz: "n_elems (thisShare (s p)) = filter_size (C p)" "n_elems (nxtShare (s p)) = filter_size (C p)" for p
    using shares_sizes(3,4) [OF node] C(4) by simp_all
  let ?D = "Set.insert (2 * L + 1) (if L \<in> D then Set.insert (2 * L) (D - {L}) else D)"
  define Q where "Q p c' token new \<longleftrightarrow> tc_insert (h p) (k p) (s p) (C p) = Some (c', Inr token) \<and> live c' \<and> leaf_num c' = L + 1 \<and> map_of (phi_f (C p)) token = None \<and>
    map_of (phi_r c') = (\<lambda>y. if y = 2 * L + 1 then Some token else if L \<noteq> 0 \<and> y = L then Some new
      else if L \<noteq> 0 \<and> y = 2 * L then map_of (phi_r (C p)) L else map_of (phi_r (C p)) y) \<and> dirty_leaf c' = ?D \<and>
    stored 1 n (files c') (this_path token) (elems 1 (thisShare (s p))) \<and> stored 1 n (files c') (nxt_path token) (elems 1 (nxtShare (s p))) \<and>
    others_kept token (files (C p)) (files c') \<and> filter_size c' = n \<and> root_ell c' = ell" for p c' token new
  have "\<exists>c' token new. Q p c' token new" for p
    using tc_insert_ok [OF C(1) hok k shares_sizes(1,2) [OF node] sz, of p] unfolding C(2-5) Q_def by blast
  then obtain C' t new where "\<And>p. Q p (C' p) (t p) (new p)" by metis
  then have I: "\<And>p. tc_insert (h p) (k p) (s p) (C p) = Some (C' p, Inr (t p))" "\<And>p. live (C' p)" "\<And>p. leaf_num (C' p) = L + 1"
    "\<And>p. map_of (phi_f (C p)) (t p) = None"
    "\<And>p. map_of (phi_r (C' p)) = (\<lambda>y. if y = 2 * L + 1 then Some (t p) else if L \<noteq> 0 \<and> y = L then Some (new p)
      else if L \<noteq> 0 \<and> y = 2 * L then map_of (phi_r (C p)) L else map_of (phi_r (C p)) y)" "\<And>p. dirty_leaf (C' p) = ?D"
    "\<And>p. stored 1 n (files (C' p)) (this_path (t p)) (elems 1 (thisShare (s p)))" "\<And>p. stored 1 n (files (C' p)) (nxt_path (t p)) (elems 1 (nxtShare (s p)))"
    "\<And>p. others_kept (t p) (files (C p)) (files (C' p))" "\<And>p. filter_size (C' p) = n" "\<And>p. root_ell (C' p) = ell" unfolding Q_def by blast+
  have old: "files (C' p) (this_path u) = files (C p) (this_path u) \<and> files (C' p) (nxt_path u) = files (C p) (nxt_path u)"
    if "map_of (phi_r (C p)) y = Some u" for p y u
  proof -
    have "u \<noteq> t p" using I(4) [of p] token_of [OF C(6), of p y u] that by auto
    then show ?thesis using I(9) [of p] by (simp add: others_kept_def)
  qed
  have ok': "tree_ok (C' p)" for p using I(2) by (simp add: live_def)
  have new_leaf: "has_tokens C' (2 * L + 1) t" by (simp add: has_tokens_def I(5))
  have node': "node_at n C' y (tree_or (L + 1) (split_leaf L w lf) y)" if y: "y \<in> {1..<2 * (L + 1)} - above ?D" for y
  proof -
    have nb: "\<not> below y L" using not_above [of y ?D "2 * L + 1"] y by simp
    consider (new) "y = 2 * L + 1" | (moved) "y = 2 * L" "L \<noteq> 0" | (kept) "y \<noteq> 2 * L + 1" "y \<noteq> 2 * L" "0 < y" "y \<noteq> L" using y nb by fastforce
    then show ?thesis
    proof cases
      case new
      have "shared_files 1 n (\<lambda>p. files (C' p)) t w" by (rule shares_stored [OF node I(7,8)])
      then show ?thesis using new node_at_tokens [OF new_leaf] by (simp add: tree_or_leaf split_leaf_def)
    next
      case moved
      have "L \<notin> above D" using dirty_nodes(3) [OF C(6), of P0] C(2,3) by auto
      then have "node_at n C L (lf L)" using C(8) [of L] moved by (simp add: tree_or_leaf)
      then have "node_at n C' y (lf L)" by (rule node_moved) (use moved old in \<open>simp_all add: I(5)\<close>)
      then show ?thesis using moved by (simp add: tree_or_leaf split_leaf_def)
    next
      case kept
      have "y \<notin> above D"
      proof
        assume "y \<in> above D"
        then obtain d where d: "d \<in> D" "below y (d div 2)" by (auto simp: above_def set_ancestors)
        then have "d \<notin> ?D" using not_above [of y ?D d] y kept by blast
        then have "d = L" using d(1) by (auto split: if_splits)
        then show False using d(2) nb below_step [of y L] by simp
      qed
      moreover have "y < 2 * L" using y kept by auto
      ultimately have "node_at n C y (tree_or L lf y)" using C(8) [of y] kept by simp
      moreover have "tree_or L lf y = tree_or (L + 1) (split_leaf L w lf) y"
      proof (rule tree_or_cong [OF kept(3)])
        fix x assume b: "below y x"
        then have "x \<noteq> L" "x \<noteq> 2 * L" "x \<noteq> 2 * L + 1" using nb kept below_half [OF b] by auto
        then show "(L \<le> x \<longleftrightarrow> L + 1 \<le> x) \<and> (L \<le> x \<longrightarrow> lf x = split_leaf L w lf x)" by (auto simp: split_leaf_def)
      qed
      ultimately show ?thesis using node_moved [of n C y _ C' y] kept old by (simp add: I(5))
    qed
  qed
  have leaf': "length (split_leaf L w lf y) = n \<and> bits (split_leaf L w lf y)" if "L + 1 \<le> y" "y < 2 * (L + 1)" for y
    using that C(7) [of L] C(7) [of y] node by (auto simp: split_leaf_def shares_of_def)
  have "joint n ell C' (L + 1) ?D (split_leaf L w lf)"
    using I ok' leaf' node' by (simp add: joint_def forest_def)
  moreover have unused: "\<not> has_tokens C x t" for x
    using I(4) [of P0] token_of [OF C(6), of P0 x "t P0"] by (auto simp: has_tokens_def)
  then have "H t = None" using H unfolding agree_def by (metis option.exhaust)
  moreover have "agree C' (L + 1) (split_leaf L w lf) (H(t \<mapsto> w))"
    unfolding agree_def
  proof (intro allI)
    fix u v
    have other: "has_tokens C' x u \<longleftrightarrow> has_tokens C (if x = 2 * L then L else x) u" if "x \<noteq> 2 * L + 1" "L + 1 \<le> x" for x
      using that by (auto simp: has_tokens_def I(5))
    show "(H(t \<mapsto> w)) u = Some v \<longleftrightarrow> (\<exists>x. L + 1 \<le> x \<and> x < 2 * (L + 1) \<and> has_tokens C' x u \<and> split_leaf L w lf x = v)"
    proof (cases "u = t")
      case True
      then have "has_tokens C' x u \<longleftrightarrow> x = 2 * L + 1" for x using has_tokens_inj [where C = C' and p = P0, OF ok'] new_leaf by blast
      then show ?thesis using True by (auto simp: split_leaf_def)
    next
      case False
      have no: "\<not> has_tokens C' (2 * L + 1) u" using False has_tokens_same [OF new_leaf] by blast
      have "(\<exists>x. L + 1 \<le> x \<and> x < 2 * (L + 1) \<and> has_tokens C' x u \<and> split_leaf L w lf x = v) \<longleftrightarrow>
          (\<exists>x. L \<le> x \<and> x < 2 * L \<and> has_tokens C x u \<and> lf x = v)"
      proof
        assume "\<exists>x. L + 1 \<le> x \<and> x < 2 * (L + 1) \<and> has_tokens C' x u \<and> split_leaf L w lf x = v"
        then obtain x where x: "L + 1 \<le> x" "x < 2 * (L + 1)" "has_tokens C' x u" "split_leaf L w lf x = v" by blast
        then have "x \<noteq> 2 * L + 1" using no by auto
        then show "\<exists>x. L \<le> x \<and> x < 2 * L \<and> has_tokens C x u \<and> lf x = v"
          using x other [OF _ x(1)] by (intro exI [of _ "if x = 2 * L then L else x"]) (auto simp: split_leaf_def split: if_splits)
      next
        assume "\<exists>x. L \<le> x \<and> x < 2 * L \<and> has_tokens C x u \<and> lf x = v"
        then obtain x where x: "L \<le> x" "x < 2 * L" "has_tokens C x u" "lf x = v" by blast
        let ?x = "if x = L then 2 * L else x"
        have "has_tokens C' ?x u" using other [of ?x] x by auto
        then show "\<exists>x. L + 1 \<le> x \<and> x < 2 * (L + 1) \<and> has_tokens C' x u \<and> split_leaf L w lf x = v"
          using x by (intro exI [of _ ?x]) (auto simp: split_leaf_def)
      qed
      then show ?thesis using False H by (simp add: agree_def)
    qed
  qed
  moreover have "root_kept C C'" by (rule root_keptI [OF ok' new_leaf I(9)])
  ultimately show ?thesis using I(1) by (intro exI [of _ C'] exI [of _ t] exI [of _ ?D]) simp
qed


section \<open>Updating\<close>

lemma update_runs:
  assumes s: "setting cap heap ell n M root h" and J: "joint n ell C L D lf" and H: "agree C L lf H"
    and t: "H t = Some v" and node: "shares_of n w s"
  shows "\<exists>C' D' lf'. (\<forall>p. tc_update (h p) (t p) (s p) (C p) = (C' p, Inr ())) \<and> joint n ell C' L D' lf' \<and> D' \<noteq> {} \<and> agree C' L lf' (H(t \<mapsto> w)) \<and>
    root_kept C C'"
proof -
  note C = joint_sel [OF J]
  have hok: "host_ok (h p) ell (filter_size (C p))" for p using s C(4) by (simp add: setting_def)
  obtain x where x: "L \<le> x" "x < 2 * L" "has_tokens C x t" "lf x = v" using t H by (auto simp: agree_def)
  have sz: "n_elems (thisShare (s p)) = filter_size (C p)" "n_elems (nxtShare (s p)) = filter_size (C p)" for p
    using shares_sizes(3,4) [OF node] C(4) by simp_all
  have f: "map_of (phi_f (C p)) (t p) = Some x" "leaf_num (C p) \<le> x" for p
    using x token_of [OF C(6), of p x "t p"] C(2) by (simp_all add: has_tokens_def)
  define Q where "Q p c' \<longleftrightarrow> tc_update (h p) (t p) (s p) (C p) = (c', Inr ()) \<and> live c' \<and> leaf_num c' = L \<and> map_of (phi_r c') = map_of (phi_r (C p)) \<and>
    dirty_leaf c' = Set.insert x D \<and> stored 1 n (files c') (this_path (t p)) (elems 1 (thisShare (s p))) \<and>
    stored 1 n (files c') (nxt_path (t p)) (elems 1 (nxtShare (s p))) \<and> others_kept (t p) (files (C p)) (files c') \<and>
    filter_size c' = n \<and> root_ell c' = ell" for p c'
  have "\<exists>c'. Q p c'" for p
    using tc_update_ok [OF C(1) hok f shares_sizes(1,2) [OF node] sz, of p] unfolding C(2-5) Q_def by blast
  then obtain C' where "\<And>p. Q p (C' p)" by metis
  then have I: "\<And>p. tc_update (h p) (t p) (s p) (C p) = (C' p, Inr ())" "\<And>p. live (C' p)" "\<And>p. leaf_num (C' p) = L"
    "\<And>p. map_of (phi_r (C' p)) = map_of (phi_r (C p))" "\<And>p. dirty_leaf (C' p) = Set.insert x D"
    "\<And>p. stored 1 n (files (C' p)) (this_path (t p)) (elems 1 (thisShare (s p)))"
    "\<And>p. stored 1 n (files (C' p)) (nxt_path (t p)) (elems 1 (nxtShare (s p)))" "\<And>p. others_kept (t p) (files (C p)) (files (C' p))"
    "\<And>p. filter_size (C' p) = n" "\<And>p. root_ell (C' p) = ell" unfolding Q_def by blast+
  have tok: "has_tokens C' y u \<longleftrightarrow> has_tokens C y u" for y u by (simp add: has_tokens_def I(4))
  have ok': "tree_ok (C' p)" for p using I(2) by (simp add: live_def)
  let ?lf = "lf(x := w)"
  have node': "node_at n C' y (tree_or L ?lf y)" if y: "y \<in> {1..<2 * L} - above (Set.insert x D)" for y
  proof (cases "y = x")
    case True
    have "shared_files 1 n (\<lambda>p. files (C' p)) t w" by (rule shares_stored [OF node I(6,7)])
    then show ?thesis using True x node_at_tokens [of C' x t n w] by (simp add: tok tree_or_leaf)
  next
    case False
    have nb: "\<not> below y x" using not_above [of y _ x] y below_half [of y x] False by fastforce
    have "tree_or L lf y = tree_or L ?lf y" by (rule tree_or_cong) (use y nb in auto)
    moreover have "y \<notin> above D" using y by (auto simp: above_def)
    ultimately have "node_at n C y (tree_or L ?lf y)" using C(8) [of y] y by simp
    then show ?thesis
    proof (rule node_moved)
      fix p u assume "map_of (phi_r (C p)) y = Some u"
      then have "u \<noteq> t p" using token_inj [OF C(6), of p y "t p" x] x(3) False by (auto simp: has_tokens_def)
      then show "files (C' p) (this_path u) = files (C p) (this_path u) \<and> files (C' p) (nxt_path u) = files (C p) (nxt_path u)"
        using I(8) [of p] by (simp add: others_kept_def)
    qed (simp add: I(4))
  qed
  have "length (?lf y) = n \<and> bits (?lf y)" if "L \<le> y" "y < 2 * L" for y using C(7) [OF that] node by (simp add: shares_of_def)
  then have "joint n ell C' L (Set.insert x D) ?lf" using I ok' node' by (simp add: joint_def forest_def)
  moreover have "agree C' L ?lf (H(t \<mapsto> w))"
    unfolding agree_def
  proof (intro allI)
    fix u v'
    have one: "has_tokens C y t \<longleftrightarrow> y = x" for y using has_tokens_inj [where C = C and p = P0, OF C(6)] x(3) by blast
    show "(H(t \<mapsto> w)) u = Some v' \<longleftrightarrow> (\<exists>y. L \<le> y \<and> y < 2 * L \<and> has_tokens C' y u \<and> ?lf y = v')"
    proof (cases "u = t")
      case True
      then show ?thesis using x by (auto simp: tok one)
    next
      case False
      have "\<not> has_tokens C x u" using False has_tokens_same [OF x(3)] by blast
      then have "has_tokens C y u \<and> ?lf y = v' \<longleftrightarrow> has_tokens C y u \<and> lf y = v'" for y by auto
      then show ?thesis using False H by (simp add: tok agree_def)
    qed
  qed
  moreover have "root_kept C C'" by (rule root_keptI [OF C(6) x(3) I(8)])
  ultimately show ?thesis using I(1) by (intro exI [of _ C'] exI [of _ "Set.insert x D"] exI [of _ ?lf]) simp
qed

section \<open>Leaving\<close>

text \<open>The node whose filter node \<open>y\<close> has after leaf \<open>x\<close> of \<open>k + 1\<close> is gone.\<close>

definition moved_from :: "nat \<Rightarrow> nat \<Rightarrow> nat \<Rightarrow> nat" where
  "moved_from k x y = (if y = k then (if x = 2 * k then 2 * k + 1 else 2 * k) else if y = x then 2 * k + 1 else y)"

lemma moved_leaf:
  assumes "k < x" "x < 2 * k + 2" "0 < k" "k \<le> y" "y < 2 * k"
  shows "k < moved_from k x y" "moved_from k x y < 2 * k + 2" "moved_from k x y \<noteq> x"
  using assms by (auto simp: moved_from_def)

lemma moved_onto:
  assumes "k < x" "x < 2 * k + 2" "k < z" "z < 2 * k + 2" "z \<noteq> x"
  shows "\<exists>y \<ge> k. y < 2 * k \<and> moved_from k x y = z"
proof -
  have "0 < k" using assms by auto
  then show ?thesis using assms
    by (intro exI [of _ "if z = 2 * k \<and> x \<noteq> 2 * k + 1 \<or> z = 2 * k + 1 \<and> x = 2 * k then k else if z = 2 * k + 1 then x else if z = 2 * k then k else z"])
      (auto simp: moved_from_def)
qed

lemma quit_tree:
  assumes J: "joint n ell C L D lf" and two: "2 \<le> L" and x: "L \<le> x" "x < 2 * L" "has_tokens C x t"
  defines "k \<equiv> L - 1"
  assumes C': "\<And>p. live (C' p) \<and> leaf_num (C' p) = k \<and> filter_size (C' p) = n \<and> root_ell (C' p) = ell"
    "\<And>p. dirty_leaf (C' p) = Set.insert k ((if x = 2 * k \<or> x = 2 * k + 1 then D else Set.insert x D) - {2 * k, 2 * k + 1})"
    "\<And>p y. y < 2 * k \<Longrightarrow> map_of (phi_r (C' p)) y = map_of (phi_r (C p)) (moved_from k x y)"
    "\<And>p y u. map_of (phi_r (C p)) y = Some u \<Longrightarrow> y \<noteq> x \<Longrightarrow> y \<noteq> k \<Longrightarrow>
       files (C' p) (this_path u) = files (C p) (this_path u) \<and> files (C' p) (nxt_path u) = files (C p) (nxt_path u)"
  shows "joint n ell C' k (dirty_leaf (C' P0)) (\<lambda>y. lf (moved_from k x y))"
proof -
  note C = joint_sel [OF J]
  let ?lf = "\<lambda>y. lf (moved_from k x y)" and ?D = "dirty_leaf (C' P0)"
  have L: "L = k + 1" "0 < k" using two by (simp_all add: k_def)
  have node': "node_at n C' y (tree_or k ?lf y)" if y: "y \<in> {1..<2 * k} - above ?D" for y
  proof (cases "y = k \<or> y = x")
    case True
    let ?z = "moved_from k x y"
    have z: "L \<le> ?z" "?z < 2 * L" "?z \<noteq> x" using moved_leaf [of k x y] x y L True by auto
    have "?z \<notin> above D" using dirty_nodes(3) [OF C(6), of P0] C(2,3) z by fastforce
    then have "node_at n C ?z (lf ?z)" using C(8) [of ?z] z two by (simp add: tree_or_leaf)
    then have "node_at n C' y (lf ?z)" by (rule node_moved) (use C'(3,4) z y L in auto)
    moreover have "k \<le> y" using True x L by auto
    ultimately show ?thesis by (simp add: tree_or_leaf)
  next
    case False
    have k: "\<not> below y k" using not_above [of y ?D k] below_half [of y k] y False by (auto simp: C'(2))
    have "y \<noteq> 2 * k" "y \<noteq> 2 * k + 1" using y by auto
    then have kids: "\<not> below y (2 * k)" "\<not> below y (2 * k + 1)" using k by (simp_all only: below_child simp_thms)
    have b: "\<not> below y x"
    proof (cases "x = 2 * k \<or> x = 2 * k + 1")
      case True
      then show ?thesis using kids by blast
    next
      case no: False
      then have "x \<in> ?D" by (simp add: C'(2))
      then show ?thesis using not_above [of y ?D x] below_half [of y x] y False by auto
    qed
    have "y \<notin> above D"
    proof
      assume "y \<in> above D"
      then obtain d where d: "d \<in> D" "below y (d div 2)" by (auto simp: above_def set_ancestors)
      then have "d \<noteq> 2 * k" "d \<noteq> 2 * k + 1" using k by auto
      then have "d \<in> ?D" using d(1) by (simp add: C'(2))
      then show False using not_above [of y ?D d] d(2) y by auto
    qed
    then have "node_at n C y (tree_or L lf y)" using C(8) [of y] y L by simp
    moreover have "tree_or L lf y = tree_or k ?lf y"
    proof (rule tree_or_cong)
      fix z assume "below y z"
      then have "z \<noteq> k" "z \<noteq> x" using k b by auto
      then show "(L \<le> z \<longleftrightarrow> k \<le> z) \<and> (L \<le> z \<longrightarrow> lf z = ?lf z)" by (auto simp: L moved_from_def)
    qed (use y in simp)
    moreover have "moved_from k x y = y" using False by (simp add: moved_from_def)
    ultimately show ?thesis using node_moved [of n C y _ C' y] C'(3,4) False y by simp
  qed
  have "length (?lf y) = n \<and> bits (?lf y)" if "k \<le> y" "y < 2 * k" for y
    using C(7) [of "moved_from k x y"] moved_leaf [of k x y] that x L by simp
  then show ?thesis using C'(1,2) node' by (simp add: joint_def forest_def live_def)
qed

lemma quit_agree:
  assumes J: "joint n ell C L D lf" and H: "agree C L lf H" and two: "2 \<le> L" and x: "L \<le> x" "x < 2 * L" "has_tokens C x t"
    and C': "\<And>p y. y < 2 * (L - 1) \<Longrightarrow> map_of (phi_r (C' p)) y = map_of (phi_r (C p)) (moved_from (L - 1) x y)"
  shows "agree C' (L - 1) (\<lambda>y. lf (moved_from (L - 1) x y)) (H(t := None))"
  unfolding agree_def
proof (intro allI)
  fix u v
  let ?k = "L - 1"
  have tok: "has_tokens C' y u \<longleftrightarrow> has_tokens C (moved_from ?k x y) u" if "y < 2 * ?k" for y using that by (simp add: has_tokens_def C')
  show "(H(t := None)) u = Some v \<longleftrightarrow> (\<exists>y. ?k \<le> y \<and> y < 2 * ?k \<and> has_tokens C' y u \<and> lf (moved_from ?k x y) = v)"
  proof (cases "u = t")
    case True
    have "has_tokens C y t \<longleftrightarrow> y = x" for y using has_tokens_inj [where C = C and p = P0, OF joint_sel(6) [OF J]] x(3) by blast
    then show ?thesis using True tok moved_leaf(3) [of ?k x] x two by auto
  next
    case False
    then have not: "\<not> has_tokens C x u" using has_tokens_same [OF x(3)] by blast
    have "(\<exists>z. L \<le> z \<and> z < 2 * L \<and> has_tokens C z u \<and> lf z = v) \<longleftrightarrow>
        (\<exists>y. ?k \<le> y \<and> y < 2 * ?k \<and> has_tokens C' y u \<and> lf (moved_from ?k x y) = v)"
    proof
      assume "\<exists>z. L \<le> z \<and> z < 2 * L \<and> has_tokens C z u \<and> lf z = v"
      then obtain z where z: "L \<le> z" "z < 2 * L" "has_tokens C z u" "lf z = v" by blast
      then obtain y where "?k \<le> y" "y < 2 * ?k" "moved_from ?k x y = z" using moved_onto [of ?k x z] x two not by fastforce
      then show "\<exists>y. ?k \<le> y \<and> y < 2 * ?k \<and> has_tokens C' y u \<and> lf (moved_from ?k x y) = v" using z tok by auto
    next
      assume "\<exists>y. ?k \<le> y \<and> y < 2 * ?k \<and> has_tokens C' y u \<and> lf (moved_from ?k x y) = v"
      then obtain y where y: "?k \<le> y" "y < 2 * ?k" "has_tokens C' y u" "lf (moved_from ?k x y) = v" by blast
      have "?k < moved_from ?k x y" "moved_from ?k x y < 2 * ?k + 2" using moved_leaf(1,2) [of ?k x y] x two y(1,2) by simp_all
      then have "L \<le> moved_from ?k x y" "moved_from ?k x y < 2 * L" using two by simp_all
      then show "\<exists>z. L \<le> z \<and> z < 2 * L \<and> has_tokens C z u \<and> lf z = v" using tok y by blast
    qed
    then show ?thesis using False H by (simp add: agree_def)
  qed
qed

lemma quit_runs:
  assumes s: "setting cap heap ell n M root h" and J: "joint n ell C L D lf" and H: "agree C L lf H" and t: "H t = Some v"
  shows "\<exists>C' D' lf'. (\<forall>p. tc_remove (h p) (t p) (C p) = (C' p, Inr ())) \<and> joint n ell C' (L - 1) D' lf' \<and>
    (1 < L \<longrightarrow> D' \<noteq> {}) \<and> agree C' (L - 1) lf' (H(t := None)) \<and> root_kept C C'"
proof -
  note C = joint_sel [OF J]
  have hok: "host_ok (h p) ell n" for p using s by (simp add: setting_def)
  obtain x where x: "L \<le> x" "x < 2 * L" "has_tokens C x t" using t H by (auto simp: agree_def)
  then have f: "map_of (phi_f (C p)) (t p) = Some x" "leaf_num (C p) \<le> x" for p
    using token_of [OF C(6), of p x "t p"] C(2) by (simp_all add: has_tokens_def)
  show ?thesis
  proof (cases "L = 1")
    case True
    define Q where "Q p c' \<longleftrightarrow> tc_remove (h p) (t p) (C p) = (c', Inr ()) \<and> live c' \<and> leaf_num c' = 0 \<and> dirty_leaf c' = {} \<and>
      others_kept (t p) (files (C p)) (files c') \<and> filter_size c' = n \<and> root_ell c' = ell" for p c'
    have "\<exists>c'. Q p c'" for p using tc_remove_last [OF C(1) hok f(1)] C(2,4,5) True unfolding Q_def by metis
    then obtain C' where C': "\<And>p. Q p (C' p)" by metis
    have "H u = (if u = t then Some v else None)" for u
    proof (cases "H u")
      case (Some w)
      then obtain y where "L \<le> y" "y < 2 * L" "has_tokens C y u" using H by (auto simp: agree_def)
      moreover have "y = x" using calculation x True by simp
      ultimately have "u = t" using has_tokens_same [OF x(3)] by simp
      then show ?thesis using t by simp
    qed (use t in auto)
    then have "agree C' (L - 1) lf (H(t := None))" using True by (simp add: agree_def)
    moreover have "joint n ell C' (L - 1) {} lf" using C' True by (simp add: joint_def forest_def Q_def live_def)
    moreover have "root_kept C C'" by (rule root_keptI [OF C(6) x(3)]) (use C' in \<open>simp add: Q_def\<close>)
    ultimately show ?thesis using C' True unfolding Q_def by blast
  next
    case False
    then have two: "2 \<le> L" using x by simp
    let ?k = "L - 1"
    define Q where "Q p c' internal \<longleftrightarrow> tc_remove (h p) (t p) (C p) = (c', Inr ()) \<and> live c' \<and> leaf_num c' = ?k \<and> map_of (phi_r (C p)) ?k = Some internal \<and>
      map_of (phi_r c') = (\<lambda>y. if y = 2 * ?k \<or> y = 2 * ?k + 1 then None
        else if y = ?k then map_of (phi_r (C p)) (if x = 2 * ?k then 2 * ?k + 1 else 2 * ?k)
        else if y = x then map_of (phi_r (C p)) (2 * ?k + 1) else map_of (phi_r (C p)) y) \<and>
      dirty_leaf c' = Set.insert ?k ((if x = 2 * ?k \<or> x = 2 * ?k + 1 then D else Set.insert x D) - {2 * ?k, 2 * ?k + 1}) \<and>
      (\<forall>q. q \<notin> {this_path (t p), nxt_path (t p), this_path internal, nxt_path internal} \<longrightarrow> files c' q = files (C p) q) \<and>
      filter_size c' = n \<and> root_ell c' = ell" for p c' internal
    have "\<exists>c' internal. Q p c' internal" for p
      using tc_remove_ok [OF C(1) hok f, of p] two unfolding C(2-5) Q_def by blast
    then obtain C' internal where Q: "\<And>p. Q p (C' p) (internal p)" by metis
    have moved: "map_of (phi_r (C' p)) y = map_of (phi_r (C p)) (moved_from ?k x y)" if "y < 2 * ?k" for p y
      using Q [of p] that by (auto simp: Q_def moved_from_def)
    have kept: "files (C' p) (this_path u) = files (C p) (this_path u) \<and> files (C' p) (nxt_path u) = files (C p) (nxt_path u)"
      if u: "map_of (phi_r (C p)) y = Some u" "y \<noteq> x" "y \<noteq> ?k" for p y u
    proof -
      have "u \<noteq> t p" "u \<noteq> internal p"
        using token_inj [OF C(6), of p y u x] token_inj [OF C(6), of p y u ?k] x(3) u Q [of p] by (auto simp: has_tokens_def Q_def)
      then show ?thesis using Q [of p] by (simp add: Q_def)
    qed
    have "joint n ell C' ?k (dirty_leaf (C' P0)) (\<lambda>y. lf (moved_from ?k x y))"
      by (rule quit_tree [OF J two x]) (use Q moved kept in \<open>simp_all add: Q_def\<close>)
    moreover have "agree C' ?k (\<lambda>y. lf (moved_from ?k x y)) (H(t := None))" by (rule quit_agree [OF J H two x moved])
    moreover have "dirty_leaf (C' P0) \<noteq> {}" using Q [of P0] by (simp add: Q_def)
    moreover have "root_name \<noteq> t p" "root_name \<noteq> internal p" for p
      using not_root [OF C(6), of p x "t p"] not_root [OF C(6), of p ?k "internal p"] x(3) Q [of p] by (simp_all add: has_tokens_def Q_def)
    then have "root_kept C C'" using Q by (simp add: root_kept_def Q_def)
    ultimately show ?thesis using Q unfolding Q_def by blast
  qed
qed

end
