(* ===== verification/Tree_Reload.thy ===== *)
theory Tree_Reload
  imports Tree_Holders
begin

text \<open>
  The state file of a tree cache: reading back what was written gives the same tree, and a cache whose last operation was
  interrupted is refused.
\<close>

section \<open>Numbers as keys\<close>

declare py_str.simps [simp del]

lemma digit_facts: "d < 10 \<Longrightarrow> is_digit (digit d) \<and> (of_char (digit d) :: nat) = 48 + d \<and> \<not> is_blank (digit d) \<and>
    digit d \<noteq> CHR ''-'' \<and> digit d \<noteq> CHR ''+''"
proof -
  assume "d < 10"
  then have v: "(of_char (digit d) :: nat) = 48 + d" by (simp add: digit_def)
  then have "digit d \<noteq> c" if "(of_char c :: nat) < 48" for c using that by auto
  then show ?thesis using \<open>d < 10\<close> v by (simp add: is_digit_def is_blank_def)
qed

lemma py_str_digits: "c \<in> List.set (py_str n) \<Longrightarrow> \<exists>d < 10. c = digit d"
proof (induction n rule: py_str.induct)
  case (1 n)
  show ?case
  proof (cases "n < 10")
    case False
    then have "py_str n = py_str (n div 10) @ [digit (n mod 10)]" by (subst py_str.simps) simp
    then consider "c \<in> List.set (py_str (n div 10))" | "c = digit (n mod 10)" using 1(2) by auto
    then show ?thesis
    proof cases
      case 1
      then show ?thesis using "1.IH" False by blast
    next
      case 2
      then show ?thesis by (intro exI [of _ "n mod 10"]) simp
    qed
  next
    case True
    then have "py_str n = [digit n]" by (subst py_str.simps) simp
    then show ?thesis using 1(2) True by auto
  qed
qed

lemma py_str_nonempty: "py_str n \<noteq> []"
  by (subst py_str.simps) simp

lemma digits_py_str: "digits after m (py_str n @ cs) = digits True (m * 10 ^ length (py_str n) + n) cs"
proof (induction n arbitrary: after m cs rule: py_str.induct)
  case (1 n)
  show ?case
  proof (cases "n < 10")
    case True
    then have "py_str n = [digit n]" by (subst py_str.simps) simp
    then show ?thesis using digit_facts [OF True] by (simp add: mult.commute)
  next
    case False
    have e: "py_str n = py_str (n div 10) @ [digit (n mod 10)]" using False by (subst py_str.simps) simp
    have "digits after m (py_str n @ cs) = digits True (m * 10 ^ length (py_str (n div 10)) + n div 10) (digit (n mod 10) # cs)"
      unfolding e using 1 [OF False] by simp
    also have "\<dots> = digits True (m * 10 ^ length (py_str n) + n) cs"
      using digit_facts [of "n mod 10"] unfolding e by (simp add: algebra_simps)
    finally show ?thesis .
  qed
qed

lemma strip_same: "s \<noteq> [] \<Longrightarrow> \<not> is_blank (hd s) \<Longrightarrow> \<not> is_blank (last s) \<Longrightarrow> strip s = s"
  by (simp add: strip_def dropWhile_eq_self_iff [THEN iffD2] hd_rev)

lemma py_int_str: "py_int (py_str n) = Inr (int n)"
proof -
  have plain: "\<not> is_blank c \<and> c \<noteq> CHR ''-'' \<and> c \<noteq> CHR ''+''" if c: "c \<in> List.set (py_str n)" for c
  proof -
    obtain d where d: "d < 10" "c = digit d" using py_str_digits [OF c] by auto
    then show ?thesis using digit_facts [of d] by simp
  qed
  then have "strip (py_str n) = py_str n" using py_str_nonempty by (intro strip_same) simp_all
  moreover obtain c cs where c: "py_str n = c # cs" using py_str_nonempty [of n] by (cases "py_str n") auto
  moreover have "digits False 0 (c # cs) = Inr n" using digits_py_str [of False 0 n "[]"] c by simp
  ultimately show ?thesis using plain [of c] by (simp add: py_int_def)
qed

section \<open>Dictionaries\<close>

lemma update_new: "k \<notin> fst ` List.set d \<Longrightarrow> AList.update k v d = d @ [(k, v)]"
  by (induction d) auto

lemma read_phi_f_ok:
  assumes "distinct (map fst (acc @ d))" "distinct (map snd (acc @ d))"
  shows "read_phi_f (map (\<lambda>(token, x). (token, DInt (int x))) d) (snd ` List.set acc) acc = Inr (acc @ d)"
  using assms
proof (induction d arbitrary: acc)
  case (Cons e d)
  obtain token x where e: "e = (token, x)" by (cases e)
  have "AList.update token x acc = acc @ [e]" using Cons.prems(1) by (simp add: e update_new)
  moreover have "x \<notin> snd ` List.set acc" using Cons.prems(2) by (auto simp: e)
  moreover have "Set.insert x (snd ` List.set acc) = snd ` List.set (acc @ [e])" by (simp add: e)
  ultimately show ?case using Cons.IH [of "acc @ [e]"] Cons.prems by (simp add: e)
qed simp

lemma read_phi_r_ok:
  assumes "distinct (map fst (acc @ d))"
  shows "read_phi_r (map (\<lambda>(x, token). (py_str x, DStr token)) d) acc = Inr (acc @ d)"
  using assms
proof (induction d arbitrary: acc)
  case (Cons e d)
  obtain x token where e: "e = (x, token)" by (cases e)
  have x: "x \<notin> fst ` List.set acc" using Cons.prems by (auto simp: e)
  then have "AList.update x token acc = acc @ [e]" "map_of acc x = None" by (simp_all add: e update_new map_of_eq_None_iff)
  then show ?case using Cons.IH [of "acc @ [e]"] Cons.prems by (simp add: e py_int_str)
qed simp

section \<open>Reading the state back\<close>

lemma paired_values:
  assumes "distinct (map fst d)" "paired (map_of d) r"
  shows "distinct (map snd d)"
  unfolding distinct_map
proof (intro conjI inj_onI)
  show "distinct d" using assms(1) by (simp add: distinct_map)
  fix a b assume ab: "a \<in> List.set d" "b \<in> List.set d" "snd a = snd b"
  have "map_of d (fst a) = Some (snd a)" "map_of d (fst b) = Some (snd b)" using assms(1) ab(1,2) by (simp_all add: map_of_eq_Some_iff)
  then have "r (snd a) = Some (fst a)" "r (snd b) = Some (fst b)" using assms(2) by (simp_all add: paired_def)
  then show "a = b" using ab(3) by (simp add: prod_eq_iff)
qed

lemma paired_length:
  assumes "distinct (map fst f)" "distinct (map fst r)" "paired (map_of f) (map_of r)"
  shows "length f = length r"
proof -
  have "(\<lambda>(a, b). (b, a)) ` List.set f = List.set r"
  proof (intro set_eqI)
    fix e :: "'b \<times> 'a"
    obtain x t where e: "e = (x, t)" by (cases e)
    have "e \<in> (\<lambda>(a, b). (b, a)) ` List.set f \<longleftrightarrow> (t, x) \<in> List.set f" by (force simp: e)
    also have "\<dots> \<longleftrightarrow> map_of r x = Some t" using assms(3) map_of_eq_Some_iff [OF assms(1), of t x] by (simp add: paired_def)
    also have "\<dots> \<longleftrightarrow> e \<in> List.set r" using map_of_eq_Some_iff [OF assms(2), of x t] by (simp add: e)
    finally show "e \<in> (\<lambda>(a, b). (b, a)) ` List.set f \<longleftrightarrow> e \<in> List.set r" .
  qed
  moreover have "inj_on (\<lambda>(a, b). (b, a)) (List.set f)" by (auto simp: inj_on_def)
  ultimately have "card (List.set r) = card (List.set f)" using card_image by fastforce
  then show ?thesis using assms(1,2) by (simp add: distinct_card distinct_map)
qed

lemma same_number_ok: "map_of d key = Some (DInt (int n)) \<Longrightarrow> same_number d key n = Inr ()"
  by (simp add: same_number_def as_int_def throw_if_def)

lemma read_fields_ok:
  assumes c: "tree_ok c" and d: "map_of d ''leaf_num'' = Some (DInt (int (leaf_num c)))"
    "map_of d ''phi_f'' = Some (DDict (map (\<lambda>(token, x). (token, DInt (int x))) (phi_f c)))"
    "map_of d ''phi_r'' = Some (DDict (map (\<lambda>(x, token). (py_str x, DStr token)) (phi_r c)))"
    "map_of d ''dirty_leaf'' = Some (DList (map (\<lambda>x. DInt (int x)) (sorted_list_of_set (dirty_leaf c))))"
  shows "read_fields d = Inr (leaf_num c, phi_f c, phi_r c, dirty_leaf c)"
proof -
  have D: "dirty_leaf c \<subseteq> {leaf_num c..<2 * leaf_num c}" using c by (simp add: tree_ok_def)
  then have fin: "finite (dirty_leaf c)" using finite_subset by blast
  have p: "distinct (map fst (phi_f c))" "distinct (map fst (phi_r c))" "paired (map_of (phi_f c)) (map_of (phi_r c))"
    using c by (simp_all add: tree_ok_def)
  have dirty: "collect (map (as_int RuntimeError) (map (\<lambda>x. DInt (int x)) (sorted_list_of_set (dirty_leaf c)))) =
      Inr (map int (sorted_list_of_set (dirty_leaf c)))"
    using collect_ok [of "sorted_list_of_set (dirty_leaf c)" "\<lambda>x. as_int RuntimeError (DInt (int x))" int] by (simp add: as_int_def comp_def)
  have range: "\<not> (if int (leaf_num c) = 0 then map int (sorted_list_of_set (dirty_leaf c)) \<noteq> []
      else \<exists>x \<in> List.set (map int (sorted_list_of_set (dirty_leaf c))). x < int (leaf_num c) \<or> x > 2 * int (leaf_num c) - 1)"
    using D fin by (auto simp: subset_iff)
  have "map_of (phi_r c) x = Some token" if "(token, x) \<in> List.set (phi_f c)" for token x
    using that p by (auto simp: paired_def)
  then have inverse: "\<not> (\<exists>(token, x) \<in> List.set (phi_f c). map_of (phi_r c) x \<noteq> Some token)" by auto
  have "fst ` List.set (phi_r c) = {1..<2 * leaf_num c}" using c by (simp add: tree_ok_def flip: dom_map_of_conv_image_fst)
  then have keys: "fst ` List.set (phi_r c) = List.set [1..<(if int (leaf_num c) = 0 then 0 else 2 * nat (int (leaf_num c)) - 1) + 1]" by auto
  have look: "look d ''leaf_num'' = Inr (DInt (int (leaf_num c)))"
    "look d ''phi_f'' = Inr (DDict (map (\<lambda>(token, x). (token, DInt (int x))) (phi_f c)))"
    "look d ''phi_r'' = Inr (DDict (map (\<lambda>(x, token). (py_str x, DStr token)) (phi_r c)))"
    "look d ''dirty_leaf'' = Inr (DList (map (\<lambda>x. DInt (int x)) (sorted_list_of_set (dirty_leaf c))))"
    by (simp_all only: look_def d option.case)
  have conv: "\<And>e i. as_int e (DInt i) = Inr i" "\<And>l. as_dict (DDict l) = Inr l" "\<And>l. as_list (DList l) = Inr l"
    by (simp_all add: as_int_def as_dict_def as_list_def)
  have ok: "throw_if False e = Inr ()" for e by (simp add: throw_if_def)
  have lists: "read_phi_f (map (\<lambda>(token, x). (token, DInt (int x))) (phi_f c)) {} [] = Inr (phi_f c)"
    "read_phi_r (map (\<lambda>(x, token). (py_str x, DStr token)) (phi_r c)) [] = Inr (phi_r c)"
    using read_phi_f_ok [of "[]" "phi_f c"] read_phi_r_ok [of "[]" "phi_r c"] p paired_values [OF p(1,3)] by simp_all
  have negative: "(int (leaf_num c) < 0) = False" by simp
  show ?thesis
    unfolding read_fields_def
    by (simp only: look conv rbind_Inr negative ok dirty range lists paired_length [OF p] inverse keys Let_def simp_thms)
      (simp add: image_image fin)
qed

lemma read_meta_ok:
  assumes "live c" "meta c = Some (Inr (meta_doc ''valid'' c))"
  shows "read_meta (filter_size c) (root_ell c) (Inr (meta_doc ''valid'' c)) (files c) = Inr c"
proof -
  let ?d = "[(''state'', DStr ''valid''), (''bf_size'', DInt (int (filter_size c))), (''ell_root'', DInt (int (root_ell c))),
      (''leaf_num'', DInt (int (leaf_num c))), (''phi_f'', DDict (map (\<lambda>(token, x). (token, DInt (int x))) (phi_f c))),
      (''phi_r'', DDict (map (\<lambda>(x, token). (py_str x, DStr token)) (phi_r c))),
      (''dirty_leaf'', DList (map (\<lambda>x. DInt (int x)) (sorted_list_of_set (dirty_leaf c))))]"
  have f: "read_fields ?d = Inr (leaf_num c, phi_f c, phi_r c, dirty_leaf c)"
    by (rule read_fields_ok) (use assms(1) in \<open>simp_all add: live_def\<close>)
  have s: "same_number ?d ''bf_size'' (filter_size c) = Inr ()" "same_number ?d ''ell_root'' (root_ell c) = Inr ()"
    "look ?d ''state'' = Inr (DStr ''valid'')"
    by (rule same_number_ok, simp)+ (simp add: look_def)
  have k: "List.set [''state'', ''leaf_num'', ''phi_f'', ''phi_r'', ''dirty_leaf''] \<subseteq> fst ` List.set ?d" by simp
  have "\<not> corrupted c" using assms(1) by (simp add: live_def)
  then show ?thesis using assms(2) unfolding read_meta_def meta_doc_def
    by (simp only: sum.case doc.case f s k rbind_Inr throw_if_def simp_thms if_False) simp
qed

section \<open>Interrupted operations\<close>

lemma read_meta_dirty:
  "m \<in> {Inr (meta_doc ''dirty'' c), Inl e} \<Longrightarrow> read_meta (filter_size c) (root_ell c) m fs = Inl RuntimeError"
  by (auto simp: read_meta_def meta_doc_def same_number_def as_int_def throw_if_def look_def)

lemma corrupted_refuses:
  assumes "corrupted c"
  shows "tc_insert h k sh c = Some (c, Inl RuntimeError)" "tc_update h t sh c = (c, Inl RuntimeError)" "tc_remove h t c = (c, Inl RuntimeError)"
    "execute_merge h merge ring_conv root c st rst a = Fail RuntimeError"
  using assms by (simp_all add: tc_insert_def tc_update_def tc_remove_def execute_merge_def)

text \<open>The marks are those of a cache that is being changed: in memory, and in the state file, which says so or is cut.
  Where the file could not even be opened, there is only the one in memory.\<close>

definition in_change :: "tree_cache \<Rightarrow> tree_cache \<Rightarrow> bool" where
  "in_change c c' \<longleftrightarrow> corrupted c' \<and> (\<exists>m \<in> {Inr (meta_doc ''dirty'' c), Inl JsonError}. meta c' = Some m)"

definition marked :: "host \<Rightarrow> tree_cache \<Rightarrow> tree_cache \<Rightarrow> bool" where
  "marked h c c' \<longleftrightarrow> in_change c c' \<or> c' = c\<lparr>corrupted := True\<rparr> \<and> \<not> openable h ''meta.json''"

lemma in_change_marked: "in_change c c' \<Longrightarrow> marked h c c'"
  by (simp add: marked_def)

lemma in_change_upd [simp]: "in_change c (c'\<lparr>files := fs\<rparr>) = in_change c c'" "in_change c (c'\<lparr>dirty_leaf := D\<rparr>) = in_change c c'"
  by (simp_all add: in_change_def)

lemma mark_corrupted_cases: "mark_corrupted h c = (c', r) \<Longrightarrow> (case r of Inl _ \<Rightarrow> marked h c c' | Inr _ \<Rightarrow> in_change c c')"
  by (auto simp: mark_corrupted_def write_meta_def marked_def in_change_def meta_doc_def split: if_splits)

lemma mark_valid_throws: "mark_valid h c1 = (c', Inl e) \<Longrightarrow> in_change c c1 \<Longrightarrow> in_change c c'"
  by (auto simp: mark_valid_def write_meta_def sthen_def in_change_def split: if_splits)

lemma add_leaf_marks: "in_change c c1 \<Longrightarrow> add_leaf h k token c1 = Some (c', r) \<Longrightarrow> in_change c c'"
  by (auto simp: add_leaf_def Let_def in_change_def bind_eq_Some_conv split: if_splits sum.splits)

lemma collapse_marks: "in_change c c1 \<Longrightarrow> collapse token x c1 = Inr (c', r) \<Longrightarrow> in_change c c'"
  by (auto simp: collapse_def Let_def in_change_def rbind_eq_Inr split: if_splits)

lemma sthen_throws: "sthen m K = (c', Inl e) \<Longrightarrow> (\<exists>c x. m = (c, Inr x) \<and> K c x = (c', Inl e)) \<or> m = (c', Inl e)"
  by (cases m) (auto simp: sthen_def split: sum.splits)

lemma insert_throws:
  assumes "\<not> corrupted c" "tc_insert h k sh c = Some (c', Inl e)"
  shows "marked h c c'"
proof (cases "mark_corrupted h c")
  case (Pair c1 r)
  note m = mark_corrupted_cases [OF Pair]
  show ?thesis
  proof (cases r)
    case (Inl e1)
    then show ?thesis using assms Pair m by (simp add: tc_insert_def)
  next
    case (Inr u)
    then have c1: "in_change c c1" using m by simp
    have "in_change c c'"
    proof (cases "py_RvectorPack (alloc h) 1 (filter_size c1)")
      case (Inl e1)
      then show ?thesis using assms Pair Inr c1 by (simp add: tc_insert_def)
    next
      case pack: (Inr aux)
      then obtain token k' where t: "new_token h k (phi_f c1) = Some (token, k')" using assms Pair Inr by (auto simp: tc_insert_def bind_eq_Some_conv)
      obtain fs a sr where sv: "save_pair h 1 token sh aux (files c1) = (fs, a, sr)" by (cases "save_pair h 1 token sh aux (files c1)") auto
      show ?thesis
      proof (cases sr)
        case (Inl e1)
        then show ?thesis using assms Pair Inr c1 pack t sv by (auto simp: tc_insert_def)
      next
        case saved: (Inr u1)
        obtain c2 ar where add: "add_leaf h k' token (c1\<lparr>files := fs\<rparr>) = Some (c2, ar)"
          "sthen (c2, ar) (\<lambda>c _. sthen (c, look (phi_f c) token) (\<lambda>c x.
            sthen (mark_valid h (c\<lparr>dirty_leaf := Set.insert x (dirty_leaf c)\<rparr>)) (\<lambda>c _. (c, Inr token)))) = (c', Inl e)"
          using assms Pair Inr pack t sv saved by (auto simp: tc_insert_def bind_eq_Some_conv)
        have "in_change c c2" by (rule add_leaf_marks [OF _ add(1)]) (simp add: c1)
        then show ?thesis using add(2) by (auto dest!: sthen_throws mark_valid_throws)
      qed
    qed
    then show ?thesis by (rule in_change_marked)
  qed
qed

lemma update_throws:
  assumes "\<not> corrupted c" "tc_update h t sh c = (c', Inl e)"
  shows "c' = c \<or> marked h c c'"
proof (cases "mark_corrupted h c")
  case (Pair c1 r)
  note m = mark_corrupted_cases [OF Pair]
  show ?thesis
  proof (cases r)
    case (Inl e1)
    then show ?thesis using assms Pair m by (auto simp: tc_update_def split: option.splits if_splits)
  next
    case (Inr u)
    then have "in_change c c1" using m by simp
    then have "c' = c \<or> in_change c c'" using assms Pair Inr
      by (auto simp: tc_update_def sthen_def split: option.splits if_splits sum.splits prod.splits dest: mark_valid_throws)
    then show ?thesis using in_change_marked by blast
  qed
qed

lemma remove_throws:
  assumes "\<not> corrupted c" "tc_remove h t c = (c', Inl e)"
  shows "c' = c \<or> marked h c c'"
proof (cases "mark_corrupted h c")
  case (Pair c1 r)
  note m = mark_corrupted_cases [OF Pair]
  show ?thesis
  proof (cases r)
    case (Inl e1)
    then show ?thesis using assms Pair m by (auto simp: tc_remove_def split: option.splits if_splits)
  next
    case (Inr u)
    then have "in_change c c1" using m by simp
    then have "c' = c \<or> in_change c c'" using assms Pair Inr
      by (auto simp: tc_remove_def sthen_def split: option.splits if_splits sum.splits prod.splits dest!: mark_valid_throws dest: collapse_marks)
    then show ?thesis using in_change_marked by blast
  qed
qed

text \<open>Where the state file cannot be opened, nothing but the mark in memory changes.\<close>

lemma nothing_opened:
  assumes "\<not> corrupted c" "\<not> openable h ''meta.json''"
    and "tc_insert h k sh c = Some (c', Inl e) \<or> tc_update h t sh c = (c', Inl e) \<or> tc_remove h t c = (c', Inl e)"
  shows "c' = c \<or> c' = c\<lparr>corrupted := True\<rparr>"
proof -
  have "mark_corrupted h c = (c\<lparr>corrupted := True\<rparr>, Inl OSError)" using assms(2) by (simp add: mark_corrupted_def write_meta_def)
  then show ?thesis using assms by (auto simp: tc_insert_def tc_update_def tc_remove_def sthen_def split: option.splits if_splits)
qed

end
