(* ===== verification/Tree_Run.thy ===== *)
theory Tree_Run
  imports Tree_Reload
begin

text \<open>
  The life of the three agents' tree caches: started on empty directories, holders join, update their filters and leave,
  the trees are merged, and agents are restarted from their disks. In every state that is reached so, merging ends in every
  schedule with a sharing of the union of the present holders' filters.
\<close>

section \<open>Steps\<close>

text \<open>The trees, the agents' own vectors, the roots, and the states of the sharing objects.\<close>

record agents =
  trees :: "pid \<Rightarrow> tree_cache"
  own :: "pid \<Rightarrow> store"
  root_at :: "pid \<Rightarrow> store"
  sharing_at :: "pid \<Rightarrow> aby3"

definition agent_open :: "ccrh \<Rightarrow> heap \<Rightarrow> nat \<Rightarrow> nat \<Rightarrow> ShrRep3ShareVec \<Rightarrow> (pid \<Rightarrow> host) \<Rightarrow> string list \<Rightarrow> (pid \<Rightarrow> doc res option) \<Rightarrow>
    (pid \<Rightarrow> files) \<Rightarrow> (pid \<Rightarrow> store) \<Rightarrow> (pid \<Rightarrow> store) \<Rightarrow> (pid \<Rightarrow> aby3) \<Rightarrow> pid \<Rightarrow> (side, tree_cache \<times> store \<times> store \<times> aby3) proc" where
  "agent_open ccrh heap ell n root h listing m fs st rst a p =
     tc_open (h p) (agent_ring_conv ccrh heap p ell) root n ell listing (m p) (fs p) (st p) (rst p) (a p)"

definition sync_cache :: "ccrh \<Rightarrow> heap \<Rightarrow> nat \<Rightarrow> ShrRep3ShareVec \<Rightarrow> ShrRep3ShareVec \<Rightarrow> (pid \<Rightarrow> host) \<Rightarrow> agents \<Rightarrow> pid \<Rightarrow>
    (side, tree_cache \<times> store \<times> store \<times> aby3) proc" where
  "sync_cache ccrh heap ell M root h s p =
     execute_merge (h p) (agent_merge ccrh heap M) (agent_ring_conv ccrh heap p ell) root (trees s p) (own s p) (root_at s p) (sharing_at s p)"

text \<open>A restart keeps the disk; it is possible here when the root was merged before, or there is no holder.\<close>

inductive agents_run :: "nat \<Rightarrow> ccrh \<Rightarrow> heap \<Rightarrow> nat \<Rightarrow> nat \<Rightarrow> ShrRep3ShareVec \<Rightarrow> ShrRep3ShareVec \<Rightarrow> (pid \<Rightarrow> host) \<Rightarrow> agents \<Rightarrow> holders \<Rightarrow> bool"
  for cap ccrh heap ell n M root h where
  start: "completes ring_peer cap (agent_open ccrh heap ell n root h [] (\<lambda>_. None) (\<lambda>_. Map.empty) St Rst A)
      (\<lambda>p. (trees s p, own s p, root_at s p, sharing_at s p)) \<Longrightarrow> synced ccrh A \<Longrightarrow> (\<And>p. fitted 1 M n (St p)) \<Longrightarrow>
    agents_run cap ccrh heap ell n M root h s Map.empty"
| join: "agents_run cap ccrh heap ell n M root h s H \<Longrightarrow> shares_of n w node \<Longrightarrow> (\<And>p. draws_new (h p) (k p) (trees s p)) \<Longrightarrow>
    (\<And>p. tc_insert (h p) (k p) (node p) (trees s p) = Some (C p, Inr (t p))) \<Longrightarrow>
    agents_run cap ccrh heap ell n M root h (s\<lparr>trees := C\<rparr>) (H(t \<mapsto> w))"
| update: "agents_run cap ccrh heap ell n M root h s H \<Longrightarrow> shares_of n w node \<Longrightarrow> H t = Some v \<Longrightarrow>
    (\<And>p. tc_update (h p) (t p) (node p) (trees s p) = (C p, Inr ())) \<Longrightarrow>
    agents_run cap ccrh heap ell n M root h (s\<lparr>trees := C\<rparr>) (H(t \<mapsto> w))"
| quit: "agents_run cap ccrh heap ell n M root h s H \<Longrightarrow> H t = Some v \<Longrightarrow>
    (\<And>p. tc_remove (h p) (t p) (trees s p) = (C p, Inr ())) \<Longrightarrow>
    agents_run cap ccrh heap ell n M root h (s\<lparr>trees := C\<rparr>) (H(t := None))"
| sync: "agents_run cap ccrh heap ell n M root h s H \<Longrightarrow>
    completes ring_peer cap (sync_cache ccrh heap ell M root h s) (\<lambda>p. (trees s' p, own s' p, root_at s' p, sharing_at s' p)) \<Longrightarrow>
    agents_run cap ccrh heap ell n M root h s' H"
| restart: "agents_run cap ccrh heap ell n M root h s H \<Longrightarrow> (\<And>p. meta (trees s p) \<noteq> None) \<Longrightarrow>
    (\<And>p. leaf_num (trees s p) = 0 \<or> root_files (trees s p)) \<Longrightarrow>
    completes ring_peer cap (agent_open ccrh heap ell n root h listing (\<lambda>p. meta (trees s p)) (\<lambda>p. files (trees s p)) St Rst A)
      (\<lambda>p. (trees s' p, own s' p, root_at s' p, sharing_at s' p)) \<Longrightarrow> synced ccrh A \<Longrightarrow> (\<And>p. fitted 1 M n (St p)) \<Longrightarrow>
    agents_run cap ccrh heap ell n M root h s' H"

section \<open>The invariant\<close>

text \<open>The trees agree and hold the present holders' filters; a tree without dirty leaves has the right root; root files,
  if all agents have them, can be loaded.\<close>

definition root_saved :: "nat \<Rightarrow> nat \<Rightarrow> (pid \<Rightarrow> tree_cache) \<Rightarrow> bool" where
  "root_saved n ell C \<longleftrightarrow> (\<exists>w. shared_files ell n (\<lambda>p. files (C p)) (\<lambda>_. root_name) w) \<or> (\<forall>p. \<not> root_files (C p))"

definition agents_ok :: "ccrh \<Rightarrow> nat \<Rightarrow> nat \<Rightarrow> ShrRep3ShareVec \<Rightarrow> ShrRep3ShareVec \<Rightarrow> agents \<Rightarrow> holders \<Rightarrow> nat \<Rightarrow> nat set \<Rightarrow> (nat \<Rightarrow> byte list) \<Rightarrow> bool" where
  "agents_ok ccrh ell n M root s H L D lf \<longleftrightarrow> joint n ell (trees s) L D lf \<and> agree (trees s) L lf H \<and> synced ccrh (sharing_at s) \<and>
     (\<forall>p. fitted 1 M n (own s p)) \<and> (\<forall>p. fitted ell root n (root_at s p)) \<and> root_saved n ell (trees s) \<and>
     (0 < L \<longrightarrow> D = {} \<longrightarrow> root_is n ell (trees s) (root_at s) root (all_leaves n L lf))"

lemma root_saved_kept:
  assumes "root_saved n ell C" "root_kept C C'"
  shows "root_saved n ell C'"
proof -
  have k: "files (C' p) (this_path root_name) = files (C p) (this_path root_name)" "files (C' p) (nxt_path root_name) = files (C p) (nxt_path root_name)" for p
    using assms(2) by (simp_all add: root_kept_def)
  then have "root_files (C' p) = root_files (C p)" for p by (simp add: root_files_def)
  moreover have "shared_files ell n (\<lambda>p. files (C' p)) (\<lambda>_. root_name) w" if "shared_files ell n (\<lambda>p. files (C p)) (\<lambda>_. root_name) w" for w
    by (rule shared_files_kept [OF that]) (simp add: k)
  ultimately show ?thesis using assms(1) unfolding root_saved_def by blast
qed

lemma shared_root_files: "shared_files ell n (\<lambda>p. files (C p)) (\<lambda>_. root_name) w \<Longrightarrow> root_files (C p)"
  by (auto simp: shared_files_def stored_def root_files_def)

lemma completes_ends: "completes ring_peer cap P r \<Longrightarrow> ends_with cap P r' \<Longrightarrow> r = r'"
  using ring3.completes_unique ring3.runs_completes by blast

lemma ends_at_once: "(\<And>p. P p = Ret (r p)) \<Longrightarrow> ends_with cap P r"
proof -
  assume "\<And>p. P p = Ret (r p)"
  then have "P = (\<lambda>p. Ret (r p))" by (rule ext)
  then show ?thesis by simp
qed

section \<open>Starting\<close>

definition empty_tree :: "nat \<Rightarrow> nat \<Rightarrow> tree_cache" where
  "empty_tree n ell = \<lparr>filter_size = n, root_ell = ell, corrupted = False, phi_f = [], phi_r = [], dirty_leaf = {}, leaf_num = 0,
     meta = None, files = Map.empty\<rparr>"

lemma empty_tree_ok: "live (empty_tree n ell)"
  by (simp add: live_def tree_ok_def paired_def empty_tree_def)

lemma roots_ok:
  assumes "setting cap heap ell n M root h"
  obtains R where "\<And>p. new_share (h p) ell n root (Rst p) = Inr (R p)" "\<And>p. fitted ell root n (R p)"
proof -
  have "\<exists>r. new_share (h p) ell n root (Rst p) = Inr r \<and> fitted ell root n r" for p
    using new_share_ok [of "h p" ell n ell root "Rst p"] assms unfolding setting_def by fastforce
  then show thesis using that by metis
qed

lemma open_empty_ok:
  assumes s: "setting cap heap ell n M root h"
    and run: "completes ring_peer cap (agent_open ccrh heap ell n root h [] (\<lambda>_. None) (\<lambda>_. Map.empty) St Rst A)
      (\<lambda>p. (trees s p, own s p, root_at s p, sharing_at s p))" and A: "synced ccrh A" and fit: "\<And>p. fitted 1 M n (St p)"
  shows "agents_ok ccrh ell n M root s Map.empty 0 {} lf"
proof -
  obtain R where R: "\<And>p. new_share (h p) ell n root (Rst p) = Inr (R p)" "\<And>p. fitted ell root n (R p)" using roots_ok [OF s] by blast
  have "ends_with cap (agent_open ccrh heap ell n root h [] (\<lambda>_. None) (\<lambda>_. Map.empty) St Rst A) (\<lambda>p. (empty_tree n ell, St p, R p, A p))"
    by (rule ends_at_once) (simp add: agent_open_def tc_open_def R(1) empty_tree_def)
  then have "(\<lambda>p. (trees s p, own s p, root_at s p, sharing_at s p)) = (\<lambda>p. (empty_tree n ell, St p, R p, A p))"
    by (rule completes_ends [OF run])
  then have e: "\<And>p. trees s p = empty_tree n ell" "\<And>p. own s p = St p" "\<And>p. root_at s p = R p" "\<And>p. sharing_at s p = A p"
    by (simp_all add: fun_eq_iff)
  have "trees s = (\<lambda>_. empty_tree n ell)" "own s = St" "root_at s = R" "sharing_at s = A" using e by (simp_all add: fun_eq_iff)
  moreover have "tree_ok (empty_tree n ell)" using empty_tree_ok by (simp add: live_def)
  ultimately show ?thesis using A fit R(2) empty_tree_ok
    by (simp add: agents_ok_def joint_def forest_def agree_def root_saved_def root_files_def) (simp add: empty_tree_def)
qed

section \<open>Merging and restarting\<close>

lemma sync_runs:
  assumes s: "setting cap heap ell n M root h" and ok: "agents_ok ccrh ell n M root s H L D lf"
  shows "\<exists>s'. ends_with cap (sync_cache ccrh heap ell M root h s) (\<lambda>p. (trees s' p, own s' p, root_at s' p, sharing_at s' p)) \<and>
    agents_ok ccrh ell n M root s' H L {} lf \<and> rep3_vec ell (root_at s') (\<lambda>_. root) (all_leaves n L lf) \<and>
    (\<forall>p. meta (trees s' p) \<noteq> None \<and> (leaf_num (trees s' p) = 0 \<or> root_files (trees s' p)))"
proof -
  have J: "joint n ell (trees s) L D lf" and H: "agree (trees s) L lf H" and A: "synced ccrh (sharing_at s)"
    and fit: "\<And>p. fitted 1 M n (own s p)" "\<And>p. fitted ell root n (root_at s p)"
    and clean: "0 < L \<Longrightarrow> D = {} \<Longrightarrow> root_is n ell (trees s) (root_at s) root (all_leaves n L lf)"
    using ok by (simp_all add: agents_ok_def)
  obtain C' St' R' A' where m: "ends_with cap (\<lambda>p. execute_merge (h p) (agent_merge ccrh heap M) (agent_ring_conv ccrh heap p ell) root
      (trees s p) (own s p) (root_at s p) (sharing_at s p)) (\<lambda>p. (C' p, St' p, R' p, A' p))" "joint n ell C' L {} lf" "synced ccrh A'"
    "\<And>p. phi_f (C' p) = phi_f (trees s p) \<and> phi_r (C' p) = phi_r (trees s p) \<and> meta (C' p) \<noteq> None" "\<And>p. fitted 1 M n (St' p)"
    "rep3_vec ell R' (\<lambda>_. root) (all_leaves n L lf)" "0 < L \<longrightarrow> root_is n ell C' R' root (all_leaves n L lf)"
    "L = 0 \<longrightarrow> (\<forall>p. \<not> root_files (C' p))"
    using merge_runs [where C = "trees s" and St = "own s" and Rst = "root_at s", OF s J A fit] clean by blast
  let ?s = "\<lparr>trees = C', own = St', root_at = R', sharing_at = A'\<rparr>"
  have len: "length (all_leaves n L lf) = n" by (simp add: all_leaves_def)
  have "has_tokens C' x t = has_tokens (trees s) x t" for x t using m(4) by (simp add: has_tokens_def)
  then have "agree C' L lf H" using H by (simp add: agree_def)
  moreover have "root_saved n ell C'" using m(7,8) by (cases "L = 0") (auto simp: root_saved_def root_is_def)
  ultimately have "agents_ok ccrh ell n M root ?s H L {} lf"
    using m(2,3,5,7) rep3_fitted [OF m(6) len] by (simp add: agents_ok_def)
  moreover have "leaf_num (C' p) = 0 \<or> root_files (C' p)" for p
    using m(7) shared_root_files [of ell n C' _ p] joint_sel(2) [OF m(2), of p] by (auto simp: root_is_def)
  ultimately show ?thesis using m(1,4,6) unfolding sync_cache_def [abs_def] by (intro exI [of _ ?s]) simp
qed

lemma open_saved:
  assumes c: "live c" "meta c \<noteq> None" and sv: "fitted (root_ell c) root (filter_size c) r" "thisShare root \<noteq> nxtShare root"
    and new: "new_share h (root_ell c) (filter_size c) root rst = Inr r" and h: "host_ok h (root_ell c) (filter_size c)"
    and f: "stored (root_ell c) (filter_size c) (files c) (this_path root_name) z0" "stored (root_ell c) (filter_size c) (files c) (nxt_path root_name) z1"
    and L: "leaf_num c \<noteq> 0"
  shows "\<exists>r'. tc_open h conv root (filter_size c) (root_ell c) listing (meta c) (files c) st rst a = Ret (c, st, r', a) \<and>
    vec_at (root_ell c) r' (thisShare root) z0 \<and> vec_at (root_ell c) r' (nxtShare root) z1"
proof -
  have m: "meta c = Some (Inr (meta_doc ''valid'' c))" using c by (auto simp: live_def)
  obtain aux where aux: "py_RvectorPack (alloc h) (root_ell c) (filter_size c) = Inr aux" "aux_ok (root_ell c) (filter_size c) aux"
    using host_pack [OF h] by blast
  obtain r' aux' where l: "load_share (root_ell c) root_name root (files c) (r, aux) = Inr (r', aux')"
    "vec_at (root_ell c) r' (thisShare root) z0" "vec_at (root_ell c) r' (nxtShare root) z1"
    using load_share_ok [OF f sv aux(2)] by blast
  have "root_files c" using f by (auto simp: root_files_def stored_def)
  then show ?thesis using l L unfolding m
    by (simp add: tc_open_def new read_meta_ok [OF c(1) m] open_root_def aux(1))
qed

lemma restart_runs:
  assumes s: "setting cap heap ell n M root h" and ok: "agents_ok ccrh ell n M root s H L D lf"
    and m: "\<And>p. meta (trees s p) \<noteq> None" and r: "\<And>p. leaf_num (trees s p) = 0 \<or> root_files (trees s p)"
    and A: "synced ccrh A" and fit: "\<And>p. fitted 1 M n (St p)"
  shows "\<exists>s'. ends_with cap (agent_open ccrh heap ell n root h listing (\<lambda>p. meta (trees s p)) (\<lambda>p. files (trees s p)) St Rst A)
      (\<lambda>p. (trees s' p, own s' p, root_at s' p, sharing_at s' p)) \<and> agents_ok ccrh ell n M root s' H L D lf \<and> trees s' = trees s"
proof -
  have J: "joint n ell (trees s) L D lf" using ok by (simp add: agents_ok_def)
  note C = joint_sel [OF J]
  have hok: "host_ok (h p) ell n" for p using s by (simp add: setting_def)
  obtain R where R: "\<And>p. new_share (h p) ell n root (Rst p) = Inr (R p)" "\<And>p. fitted ell root n (R p)" using roots_ok [OF s] by blast
  have "\<exists>R'. (\<forall>p. agent_open ccrh heap ell n root h listing (\<lambda>p. meta (trees s p)) (\<lambda>p. files (trees s p)) St Rst A p = Ret (trees s p, St p, R' p, A p)) \<and>
      (\<forall>p. fitted ell root n (R' p)) \<and> (0 < L \<longrightarrow> D = {} \<longrightarrow> root_is n ell (trees s) R' root (all_leaves n L lf))"
  proof (cases "L = 0")
    case True
    have v: "meta (trees s p) = Some (Inr (meta_doc ''valid'' (trees s p)))" for p using C(1) [of p] m [of p] by (auto simp: live_def)
    have "agent_open ccrh heap ell n root h listing (\<lambda>p. meta (trees s p)) (\<lambda>p. files (trees s p)) St Rst A p = Ret (trees s p, St p, R p, A p)" for p
      using read_meta_ok [OF C(1) v, of p] C(2,4,5) [of p] True by (simp add: agent_open_def tc_open_def R(1) v open_root_def)
    then show ?thesis using R(2) True by blast
  next
    case False
    have "\<exists>w. shared_files ell n (\<lambda>p. files (trees s p)) (\<lambda>_. root_name) w \<and> (D = {} \<longrightarrow> w = all_leaves n L lf)"
      using ok r [of P0] C(2) [of P0] False unfolding agents_ok_def root_is_def root_saved_def by (cases "D = {}") auto
    then obtain w z where w: "D = {} \<longrightarrow> w = all_leaves n L lf" "shared_files ell n (\<lambda>p. files (trees s p)) (\<lambda>_. root_name) w" "sums_to ell z w"
      "\<And>p. stored ell n (files (trees s p)) (this_path root_name) (z p)" "\<And>p. stored ell n (files (trees s p)) (nxt_path root_name) (z (NEXT p))"
      unfolding shared_files_def by blast
    have "\<exists>R'. agent_open ccrh heap ell n root h listing (\<lambda>p. meta (trees s p)) (\<lambda>p. files (trees s p)) St Rst A p = Ret (trees s p, St p, R', A p) \<and>
        vec_at ell R' (thisShare root) (z p) \<and> vec_at ell R' (nxtShare root) (z (NEXT p))" for p
      using open_saved [where c = "trees s p" and h = "h p" and r = "R p" and root = root and rst = "Rst p" and st = "St p" and a = "A p" and listing = listing
          and conv = "agent_ring_conv ccrh heap p ell", OF C(1) m, unfolded C(2,4,5), OF R(2) _ R(1) hok w(4,5) False] s
      by (simp add: agent_open_def setting_def)
    then obtain R' where R': "\<And>p. agent_open ccrh heap ell n root h listing (\<lambda>p. meta (trees s p)) (\<lambda>p. files (trees s p)) St Rst A p = Ret (trees s p, St p, R' p, A p)"
      "\<And>p. vec_at ell (R' p) (thisShare root) (z p) \<and> vec_at ell (R' p) (nxtShare root) (z (NEXT p))" by metis
    have "rep3_vec ell R' (\<lambda>_. root) w" using w(3) R'(2) unfolding rep3_vec_def vsharing_def by blast
    moreover from this have "fitted ell root n (R' p)" for p
      using rep3_fitted [of ell R' "\<lambda>_. root" w n p] w(3) stored_length [OF w(4)] by (simp add: sums_to_def)
    ultimately show ?thesis using R'(1) w(1,2) unfolding root_is_def by blast
  qed
  then obtain R' where R': "\<And>p. agent_open ccrh heap ell n root h listing (\<lambda>p. meta (trees s p)) (\<lambda>p. files (trees s p)) St Rst A p = Ret (trees s p, St p, R' p, A p)"
    "\<And>p. fitted ell root n (R' p)" "0 < L \<Longrightarrow> D = {} \<Longrightarrow> root_is n ell (trees s) R' root (all_leaves n L lf)" by blast
  let ?s = "\<lparr>trees = trees s, own = St, root_at = R', sharing_at = A\<rparr>"
  have "agents_ok ccrh ell n M root ?s H L D lf" using ok R'(2,3) A fit by (simp add: agents_ok_def)
  then show ?thesis using ends_at_once [OF R'(1), of cap] by (intro exI [of _ ?s]) simp
qed

section \<open>Reachable states\<close>

lemma agents_eq: "(\<lambda>p. (trees s p, own s p, root_at s p, sharing_at s p)) = (\<lambda>p. (trees s' p, own s' p, root_at s' p, sharing_at s' p)) \<Longrightarrow> s = (s' :: agents)"
  by (cases s; cases s') (simp add: fun_eq_iff)

lemma agents_ok_trees:
  assumes "agents_ok ccrh ell n M root s H L D lf" "joint n ell C L' D' lf'" "agree C L' lf' H'" "root_kept (trees s) C" "0 < L' \<longrightarrow> D' \<noteq> {}"
  shows "agents_ok ccrh ell n M root (s\<lparr>trees := C\<rparr>) H' L' D' lf'"
  using assms root_saved_kept [of n ell "trees s" C] unfolding agents_ok_def by simp

lemma agents_run_ok:
  assumes s: "setting cap heap ell n M root h" and run: "agents_run cap ccrh heap ell n M root h s H"
  shows "\<exists>L D lf. agents_ok ccrh ell n M root s H L D lf"
  using run
proof induction
  case (start St Rst A s)
  then show ?case using open_empty_ok [OF assms(1)] by blast
next
  case (join s H w node k C t)
  then obtain L D lf where ok: "agents_ok ccrh ell n M root s H L D lf" by blast
  then have J: "joint n ell (trees s) L D lf" "agree (trees s) L lf H" by (simp_all add: agents_ok_def)
  obtain C' t' D' where n: "\<And>p. tc_insert (h p) (k p) (node p) (trees s p) = Some (C' p, Inr (t' p))"
    "joint n ell C' (L + 1) D' (split_leaf L w lf)" "D' \<noteq> {}" "agree C' (L + 1) (split_leaf L w lf) (H(t' \<mapsto> w))" "root_kept (trees s) C'"
    using join_runs [OF assms(1) J join.hyps(3,2)] by blast
  have "C' = C" "t' = t" using n(1) join.hyps(4) by (auto simp: fun_eq_iff)
  then show ?case using agents_ok_trees [OF ok n(2,4,5)] n(3) by blast
next
  case (update s H w node t v C)
  then obtain L D lf where ok: "agents_ok ccrh ell n M root s H L D lf" by blast
  then have J: "joint n ell (trees s) L D lf" "agree (trees s) L lf H" by (simp_all add: agents_ok_def)
  obtain C' D' lf' where n: "\<And>p. tc_update (h p) (t p) (node p) (trees s p) = (C' p, Inr ())" "joint n ell C' L D' lf'" "D' \<noteq> {}"
    "agree C' L lf' (H(t \<mapsto> w))" "root_kept (trees s) C'" using update_runs [OF assms(1) J update.hyps(3,2)] by blast
  have "C' = C" using n(1) update.hyps(4) by (auto simp: fun_eq_iff)
  then show ?case using agents_ok_trees [OF ok n(2,4,5)] n(3) by blast
next
  case (quit s H t v C)
  then obtain L D lf where ok: "agents_ok ccrh ell n M root s H L D lf" by blast
  then have J: "joint n ell (trees s) L D lf" "agree (trees s) L lf H" by (simp_all add: agents_ok_def)
  obtain C' D' lf' where n: "\<And>p. tc_remove (h p) (t p) (trees s p) = (C' p, Inr ())" "joint n ell C' (L - 1) D' lf'" "1 < L \<longrightarrow> D' \<noteq> {}"
    "agree C' (L - 1) lf' (H(t := None))" "root_kept (trees s) C'" using quit_runs [OF assms(1) J quit.hyps(2)] by blast
  have "C' = C" using n(1) quit.hyps(3) by (auto simp: fun_eq_iff)
  moreover have "0 < L - 1 \<longrightarrow> D' \<noteq> {}" using n(3) by simp
  ultimately show ?case using agents_ok_trees [OF ok n(2,4,5)] by blast
next
  case (sync s H s')
  then obtain L D lf where ok: "agents_ok ccrh ell n M root s H L D lf" by blast
  then obtain s2 where n: "ends_with cap (sync_cache ccrh heap ell M root h s) (\<lambda>p. (trees s2 p, own s2 p, root_at s2 p, sharing_at s2 p))"
    "agents_ok ccrh ell n M root s2 H L {} lf" using sync_runs [OF assms(1)] by blast
  have "s' = s2" by (rule agents_eq, rule completes_ends [OF sync.hyps(2) n(1)])
  then show ?case using n(2) by blast
next
  case (restart s H listing St Rst A s')
  then obtain L D lf where ok: "agents_ok ccrh ell n M root s H L D lf" by blast
  obtain s2 where n: "ends_with cap (agent_open ccrh heap ell n root h listing (\<lambda>p. meta (trees s p)) (\<lambda>p. files (trees s p)) St Rst A)
      (\<lambda>p. (trees s2 p, own s2 p, root_at s2 p, sharing_at s2 p))" "agents_ok ccrh ell n M root s2 H L D lf"
    using restart_runs [where St = St and Rst = Rst and listing = listing, OF assms(1) ok restart.hyps(2,3,5,6)] by blast
  have "s' = s2" by (rule agents_eq, rule completes_ends [OF restart.hyps(4) n(1)])
  then show ?case using n(2) by blast
qed

end
