(* ===== verification/Bloom.thy ===== *)
theory Bloom
  imports Rvector_Bind
begin

text \<open>
  The Bloom filter of a set holder, \<open>gen_bf\<close> of \<^verbatim>\<open>src/mpmt/util.py\<close>: the indices of the elements
  are collected in an array of fixed length that is written to the filter when it is full.
\<close>

section \<open>The code\<close>

definition bloom_index :: "(block \<Rightarrow> block \<Rightarrow> block) \<Rightarrow> nat \<Rightarrow> nat \<Rightarrow> byte list \<Rightarrow> byte list \<Rightarrow> u64 res" where
  "bloom_index prp ell_add2 bf_size e hs =
     rbind (hash_aes_dm prp 0 0 (PyBytes e) (PyBytes hs) ell_add2) (\<lambda>h. ring_mod ell_add2 (ucast h) (of_nat bf_size))"

text \<open>\<open>batch_idx[pos] = x\<close>, and an \<open>array("Q")\<close> as an object with a buffer.\<close>

definition index_set :: "u64 list \<Rightarrow> nat \<Rightarrow> u64 \<Rightarrow> u64 list res" where
  "index_set xs pos x = (if pos < length xs then Inr (xs[pos := x]) else Inl IndexError)"

definition array_Q :: "u64 list \<Rightarrow> pyobj" where
  "array_Q xs = PyArray 8 (concat (map (le_bytes 8) xs))"

text \<open>The inner loop over the hash keys, the outer loop over the elements.\<close>

fun put_indices :: "(block \<Rightarrow> block \<Rightarrow> block) \<Rightarrow> nat \<Rightarrow> nat \<Rightarrow> byte list \<Rightarrow> byte list list \<Rightarrow> u64 list \<times> nat \<Rightarrow> (u64 list \<times> nat) res" where
  "put_indices prp ell_add2 bf_size e [] s = Inr s"
| "put_indices prp ell_add2 bf_size e (hs # seeds) (batch_idx, pos) =
     rbind (bloom_index prp ell_add2 bf_size e hs) (\<lambda>i. rbind (index_set batch_idx pos i) (\<lambda>batch_idx.
     put_indices prp ell_add2 bf_size e seeds (batch_idx, pos + 1)))"

fun put_elements :: "(block \<Rightarrow> block \<Rightarrow> block) \<Rightarrow> nat \<Rightarrow> nat \<Rightarrow> nat \<Rightarrow> byte list list \<Rightarrow> nat \<Rightarrow> byte list list \<Rightarrow>
    rvec \<times> u64 list \<times> nat \<Rightarrow> (rvec \<times> u64 list \<times> nat) res" where
  "put_elements prp ell ell_add2 bf_size seeds batch_cap [] s = Inr s"
| "put_elements prp ell ell_add2 bf_size seeds batch_cap (e # es) (bf, batch_idx, pos) =
     rbind (put_indices prp ell_add2 bf_size e seeds (batch_idx, pos)) (\<lambda>(batch_idx, pos).
     if pos \<ge> batch_cap
     then rbind (py_batch_set ell bf (array_Q batch_idx) 1) (\<lambda>bf.
       put_elements prp ell ell_add2 bf_size seeds batch_cap es (bf, batch_idx, 0))
     else put_elements prp ell ell_add2 bf_size seeds batch_cap es (bf, batch_idx, pos))"

definition gen_bf :: "(block \<Rightarrow> block \<Rightarrow> block) \<Rightarrow> heap \<Rightarrow> nat \<Rightarrow> byte list list \<Rightarrow> byte list list \<Rightarrow> nat \<Rightarrow> nat \<Rightarrow> nat \<Rightarrow> rvec res" where
  "gen_bf prp heap ell elements seeds bf_size hf_num ell_add2 =
     rbind (py_Rvector ell) (\<lambda>ell. rbind (rv_new ell heap bf_size) (\<lambda>bf. rbind (rv_fill ell 0 bf) (\<lambda>bf.
     let batch_size = min (2 ^ 20) (max (2 ^ 18) (bf_size div 128)); batch_cap = batch_size * hf_num
     in rbind (put_elements prp ell ell_add2 bf_size seeds batch_cap elements (bf, replicate batch_cap 0, 0)) (\<lambda>(bf, batch_idx, pos).
        if pos > 0 then py_batch_set ell bf (array_Q (take pos batch_idx)) 1 else Inr bf))))"

section \<open>The indices\<close>

lemma bloom_index_ok:
  assumes "1 \<le> ell_add2" "ell_add2 \<le> 31" "0 < n" "n < 2 ^ ell_add2" "length hs \<le> 16"
  shows "\<exists>i. bloom_index prp ell_add2 n e hs = Inr i \<and> unat i < n"
proof -
  obtain h :: u32 where h: "hash_aes_dm prp 0 0 (PyBytes e) (PyBytes hs) ell_add2 = Inr (take_bit ell_add2 h)"
    using hash_value [OF assms(1,2,5)] by (auto simp: hash_aes_dm_def toBytes_def)
  have "(2 :: nat) ^ ell_add2 \<le> 2 ^ 31" using assms(2) by (intro power_increasing) simp_all
  then have n: "unat (of_nat n :: u64) = n" using assms(4) by (simp add: unat_of_nat)
  have "in_ring ell_add2 (ucast (take_bit ell_add2 h))"
    unfolding in_ring_def using assms(2) by (simp add: unsigned_ucast_eq unsigned_take_bit_eq take_bit_take_bit)
  moreover have "in_ring ell_add2 (of_nat n)"
    unfolding in_ring_def using assms(4) n by (simp add: uint_nat)
  moreover have "(of_nat n :: u64) \<noteq> 0" using n assms(3) by auto
  ultimately have "ring_mod ell_add2 (ucast (take_bit ell_add2 h)) (of_nat n) = Inr (ucast (take_bit ell_add2 h) mod of_nat n)"
    using assms(1,2) in_ring_iff [OF assms(2)] by (simp add: ring_mod_def Let_def)
  moreover have "unat (ucast (take_bit ell_add2 h) mod of_nat n :: u64) < n"
    using assms(3) n by (simp add: unat_mod)
  ultimately show ?thesis by (simp add: bloom_index_def h)
qed

text \<open>The indices of an element, and the filter that has exactly the positions of \<open>D\<close> set.\<close>

definition bloom_indices :: "(block \<Rightarrow> block \<Rightarrow> block) \<Rightarrow> nat \<Rightarrow> nat \<Rightarrow> byte list list \<Rightarrow> byte list \<Rightarrow> u64 list" where
  "bloom_indices prp ell_add2 n seeds e = map (\<lambda>hs. projr (bloom_index prp ell_add2 n e hs)) seeds"

definition marks :: "nat \<Rightarrow> u64 set \<Rightarrow> byte list" where
  "marks n D = map (\<lambda>j. if j \<in> unat ` D then 1 else 0) [0..<n]"

lemma put_indices_ok:
  assumes "\<forall>hs \<in> set seeds. \<exists>i. bloom_index prp ell_add2 n e hs = Inr i" "pos + length seeds \<le> length xs"
  shows "put_indices prp ell_add2 n e seeds (xs, pos) =
    Inr (take pos xs @ bloom_indices prp ell_add2 n seeds e @ drop (pos + length seeds) xs, pos + length seeds)"
  using assms
proof (induction seeds arbitrary: xs pos)
  case Nil
  then show ?case by (simp add: bloom_indices_def)
next
  case (Cons hs seeds)
  then obtain i where i: "bloom_index prp ell_add2 n e hs = Inr i" by auto
  have "take (Suc pos) (xs[pos := i]) = take pos xs @ [i]" using Cons.prems(2) by (simp add: take_Suc_conv_app_nth)
  then show ?case using i Cons by (simp add: index_set_def bloom_indices_def)
qed

lemma batch_marks:
  assumes "rv_ok ell bf" "n_elems bf = n" "elems ell bf = marks n D" "\<forall>i \<in> set xs. unat i < n"
  shows "\<exists>bf'. py_batch_set ell bf (array_Q xs) 1 = Inr bf' \<and> rv_ok ell bf' \<and> n_elems bf' = n \<and> elems ell bf' = marks n (D \<union> set xs)"
proof -
  have n: "n < 2 ^ 64" using assms(1,2) by (auto simp: rv_ok_def)
  have "as_u64 (concat (map (\<lambda>i. le_bytes 8 (of_nat i :: u64)) (map unat xs))) = map unat xs"
    by (rule as_u64_bytes) (auto intro: order_less_le_trans [OF unsigned_less])
  then have get: "py_batch_set ell bf (array_Q xs) 1 = batchSet ell (map unat xs) 1 bf"
    by (simp add: py_batch_set_def get_buffer_def array_Q_def o_def)
  have one: "take_bit ell (1 :: byte) = 1" using rv_ok_ell [OF assms(1)] by simp
  obtain v' where v': "batchSet ell (map unat xs) 1 bf = Inr v'" "rv_ok ell v'"
    "elems ell v' = map (\<lambda>k. if k \<in> set (map unat xs) then 1 else elems ell bf ! k) [0..<n]"
    using batchSet_ok [OF assms(1) one, of "map unat xs"] assms(2,4) by auto
  have "n_elems v' = n" using arg_cong [OF v'(3), of length] by simp
  moreover have "elems ell v' = marks n (D \<union> set xs)"
    unfolding v'(3) assms(3) by (rule nth_equalityI) (auto simp: marks_def)
  ultimately show ?thesis using v' get by simp
qed

section \<open>The loops\<close>

definition gathered :: "nat \<Rightarrow> nat \<Rightarrow> nat \<Rightarrow> nat \<Rightarrow> u64 set \<Rightarrow> rvec \<times> u64 list \<times> nat \<Rightarrow> bool" where
  "gathered ell n k cap D s \<longleftrightarrow> (case s of (bf, xs, pos) \<Rightarrow>
     rv_ok ell bf \<and> n_elems bf = n \<and> length xs = cap \<and> pos < cap \<and> k dvd pos \<and> (\<forall>i \<in> set (take pos xs). unat i < n) \<and>
     (\<exists>D1. elems ell bf = marks n D1 \<and> D = D1 \<union> set (take pos xs)))"

lemma put_elements_ok:
  assumes idx: "\<And>e hs. hs \<in> set seeds \<Longrightarrow> \<exists>i. bloom_index prp ell_add2 n e hs = Inr i \<and> unat i < n"
    and k: "k = length seeds" "0 < k" "k dvd cap"
  shows "gathered ell n k cap D s \<Longrightarrow> \<exists>s'. put_elements prp ell ell_add2 n seeds cap es s = Inr s' \<and>
    gathered ell n k cap (D \<union> (\<Union>e \<in> set es. set (bloom_indices prp ell_add2 n seeds e))) s'"
proof (induction es arbitrary: D s)
  case Nil
  then show ?case by simp
next
  case (Cons e es)
  obtain bf xs pos where s: "s = (bf, xs, pos)" by (cases s)
  let ?I = "bloom_indices prp ell_add2 n seeds e"
  obtain D1 where bf: "rv_ok ell bf" "n_elems bf = n" "elems ell bf = marks n D1" "D = D1 \<union> set (take pos xs)"
    and xs: "length xs = cap" "pos < cap" "k dvd pos" "\<forall>i \<in> set (take pos xs). unat i < n"
    using Cons.prems by (auto simp: gathered_def s)
  have room: "pos + k \<le> cap"
  proof -
    obtain a b where ab: "pos = k * a" "cap = k * b" using k(3) xs(3) by (auto elim!: dvdE)
    then have "Suc a \<le> b" using xs(2) k(2) by simp
    then have "k * Suc a \<le> k * b" by (rule mult_le_mono2)
    then show ?thesis using ab by simp
  qed
  have "unat (projr (bloom_index prp ell_add2 n e hs)) < n" if "hs \<in> set seeds" for hs using idx [OF that, of e] by auto
  then have I: "length ?I = k" "\<forall>i \<in> set ?I. unat i < n" by (auto simp: bloom_indices_def k(1))
  let ?xs = "take pos xs @ ?I @ drop (pos + k) xs"
  have put: "put_indices prp ell_add2 n e seeds (xs, pos) = Inr (?xs, pos + k)"
    using put_indices_ok [of seeds prp ell_add2 n e pos xs] idx room xs(1) by (auto simp: k(1))
  have len: "length ?xs = cap" using room xs(1) I(1) by simp
  show ?case
  proof (cases "pos + k \<ge> cap")
    case True
    then have all: "?xs = take pos xs @ ?I" using xs(1) by simp
    obtain bf' where bf': "py_batch_set ell bf (array_Q ?xs) 1 = Inr bf'" "rv_ok ell bf'" "n_elems bf' = n"
      "elems ell bf' = marks n (D1 \<union> set ?xs)"
      using batch_marks [OF bf(1-3), of ?xs] I(2) xs(4) unfolding all by auto
    have "gathered ell n k cap (D \<union> set ?I) (bf', ?xs, 0)"
      using bf' len xs(2) bf(4) unfolding all by (auto simp: gathered_def Un_assoc)
    from Cons.IH [OF this] show ?thesis using put True bf'(1) by (simp add: s Un_assoc)
  next
    case False
    have "gathered ell n k cap (D \<union> set ?I) (bf, ?xs, pos + k)"
      using bf xs len False I by (auto simp: gathered_def)
    from Cons.IH [OF this] show ?thesis using put False by (simp add: s Un_assoc)
  qed
qed

section \<open>The filter\<close>

lemma gen_bf_ok:
  assumes "1 \<le> ell" "ell \<le> 8" "1 \<le> ell_add2" "ell_add2 \<le> 31" "0 < n" "n < 2 ^ ell_add2"
    and "\<forall>hs \<in> set seeds. length hs \<le> 16" "seeds \<noteq> []" "\<forall>k. heap k \<noteq> None"
  shows "\<exists>bf. gen_bf prp heap ell elements seeds n (length seeds) ell_add2 = Inr bf \<and> rv_ok ell bf \<and> rv_size bf = n \<and>
    elems ell bf = map (\<lambda>j. if \<exists>e \<in> set elements. \<exists>hs \<in> set seeds. bloom_index prp ell_add2 n e hs = Inr (of_nat j) then 1 else 0) [0..<n]"
proof -
  have idx: "\<exists>i. bloom_index prp ell_add2 n e hs = Inr i \<and> unat i < n" if "hs \<in> set seeds" for e hs
    by (rule bloom_index_ok) (use assms that in auto)
  have "(2 :: nat) ^ ell_add2 \<le> 2 ^ 31" using assms(4) by (intro power_increasing) simp_all
  then have n: "n + 63 < 2 ^ 64" using assms(6) by simp
  obtain v where v: "rv_new ell heap n = Inr v" "rv_ok ell v" "n_elems v = n"
    using rv_new_heap [OF assms(1,2) n assms(9)] by blast
  obtain bf0 where bf0: "rv_fill ell 0 v = Inr bf0" "rv_ok ell bf0" "elems ell bf0 = replicate n 0"
    using rv_fill_ok [OF v(2), of 0] v(3) by auto
  have n0: "n_elems bf0 = n" using arg_cong [OF bf0(3), of length] by simp
  define b :: nat where "b = min (2 ^ 20) (max (2 ^ 18) (n div 128))"
  then have b: "0 < b" by simp
  let ?cap = "b * length seeds" and ?k = "length seeds"
  let ?D = "\<Union>e \<in> set elements. set (bloom_indices prp ell_add2 n seeds e)"
  have g: "gathered ell n ?k ?cap {} (bf0, replicate ?cap 0, 0)"
    using bf0 n0 assms(8) b by (auto simp: gathered_def marks_def map_replicate_trivial intro!: exI [of _ "{}"])
  have "0 < ?k" using assms(8) by simp
  from put_elements_ok [OF idx refl this dvd_triv_right g, of elements]
  obtain s where s: "put_elements prp ell ell_add2 n seeds ?cap elements (bf0, replicate ?cap 0, 0) = Inr s"
    "gathered ell n ?k ?cap ({} \<union> ?D) s" by blast
  obtain bf xs pos where "s = (bf, xs, pos)" by (cases s)
  with s have r: "put_elements prp ell ell_add2 n seeds ?cap elements (bf0, replicate ?cap 0, 0) = Inr (bf, xs, pos)"
    "gathered ell n ?k ?cap ?D (bf, xs, pos)" by simp_all
  then obtain D1 where D1: "elems ell bf = marks n D1" "?D = D1 \<union> set (take pos xs)" and bf: "rv_ok ell bf" "n_elems bf = n"
    and lt: "\<forall>i \<in> set (take pos xs). unat i < n" by (auto simp: gathered_def)
  obtain bf' where bf': "(if pos > 0 then py_batch_set ell bf (array_Q (take pos xs)) 1 else Inr bf) = Inr bf'"
    "rv_ok ell bf'" "n_elems bf' = n" "elems ell bf' = marks n ?D"
    using batch_marks [OF bf D1(1) lt] D1 bf by (cases "pos > 0") auto
  have "gen_bf prp heap ell elements seeds n ?k ell_add2 = Inr bf'"
    using assms(1,2) v(1) bf0(1) r(1) bf'(1) by (simp add: gen_bf_def py_Rvector_def outside_def RVECTOR_ELL_def Let_def b_def)
  moreover have "j \<in> unat ` ?D \<longleftrightarrow> (\<exists>e \<in> set elements. \<exists>hs \<in> set seeds. bloom_index prp ell_add2 n e hs = Inr (of_nat j))" if "j < n" for j
  proof -
    have "unat (of_nat j :: u64) = j" using that n by (simp add: unat_of_nat)
    moreover have "bloom_index prp ell_add2 n e hs = Inr i \<longleftrightarrow> projr (bloom_index prp ell_add2 n e hs) = i" if "hs \<in> set seeds" for e hs i
      using idx [OF that, of e] by auto
    ultimately show ?thesis by (force simp: bloom_indices_def)
  qed
  ultimately show ?thesis using bf' by (intro exI [of _ bf']) (simp add: marks_def rv_size_def)
qed

section \<open>Properties\<close>

text \<open>C20: \<open>gen_bf\<close> gives the filter with exactly the indices of the elements set, whatever the number
  of elements, of hash keys and of batches.\<close>

theorem bloom_filter:
  assumes "1 \<le> ell" "ell \<le> 8" "1 \<le> ell_add2" "ell_add2 \<le> 31" "0 < n" "n < 2 ^ ell_add2"
    and "\<forall>hs \<in> set seeds. length hs \<le> 16" "seeds \<noteq> []" "\<forall>k. heap k \<noteq> None"
  shows "\<exists>bf. gen_bf prp heap ell elements seeds n (length seeds) ell_add2 = Inr bf \<and> rv_ok ell bf \<and> rv_size bf = n \<and>
    elems ell bf = map (\<lambda>j. if \<exists>e \<in> set elements. \<exists>hs \<in> set seeds. bloom_index prp ell_add2 n e hs = Inr (of_nat j) then 1 else 0) [0..<n]"
  by (rule gen_bf_ok [OF assms])

theorem bloom_filter_witness:
  "\<exists>bf. gen_bf (XOR) (\<lambda>_. Some (\<lambda>_. 0)) 1 [[1], [2, 3]] [replicate 16 5] 6 1 3 = Inr bf \<and> rv_size bf = 6"
  using bloom_filter [of 1 3 6 "[replicate 16 5]" "\<lambda>_. Some (\<lambda>_. 0)" "(XOR)" "[[1], [2, 3]]"] by auto

end
