(* ===== verification/Query_Agents.thy ===== *)
theory Query_Agents
  imports Transport Dpf_Bind Aby3_Bind
begin

text \<open>
  A query at the three agents (\<open>response_query\<close> of \<^verbatim>\<open>src/mpmt/agent_server.py\<close>): \<open>P0\<close> is the steward,
  \<open>P1\<close> and \<open>P2\<close> are the peers. Each has a summand of the positions to look up; together they
  evaluate point functions into a shared vector of counters and take the inner product with the root of the cache.
\<close>

section \<open>Parameters and libraries\<close>

record bf_params =
  bf_size :: nat
  ell_add2 :: nat
  hf_num :: nat
  ell_root :: nat

text \<open>The JSON library, the allocator, the random generator (for the \<open>i\<close>-th key), and what the threads of the
  \<open>i\<close>-th evaluation leave in the buffer.\<close>

record platform =
  json_dump :: "json \<Rightarrow> byte list"
  json_parse :: "byte list \<Rightarrow> json res"
  str_alloc :: "nat \<Rightarrow> bool"
  key_fresh :: "byte list"
  hash_fn :: ccrh
  vec_heap :: heap
  sodium :: int
  dpf_cores :: int
  key_rnd :: "nat \<Rightarrow> block \<times> block \<times> byte list \<times> byte list"
  eval_outcome :: "dpf_pid \<Rightarrow> nat \<Rightarrow> byte list \<Rightarrow> pyobj \<Rightarrow> nat \<Rightarrow> nat \<Rightarrow> rvec res"

text \<open>An integer of Python where the binding wants a \<open>uint32_t\<close>.\<close>

definition to_u32 :: "u64 \<Rightarrow> u32 res" where
  "to_u32 x = (if x < 2 ^ 32 then Inr (ucast x) else Inl CastError)"

primrec proc_map :: "('x \<Rightarrow> ('s, 'a) proc) \<Rightarrow> 'x list \<Rightarrow> ('s, 'a list) proc" where
  "proc_map f [] = Ret []"
| "proc_map f (x # xs) = pbind (f x) (\<lambda>y. pbind (proc_map f xs) (\<lambda>ys. Ret (y # ys)))"

section \<open>Positions\<close>

text \<open>\<open>_reshare_idx_share\<close>: every agent sends its summand to its predecessor; the last one receives first.\<close>

definition reshare_idx_share :: "nat \<Rightarrow> pid \<Rightarrow> u64 \<Rightarrow> (side, ShrRep3ShareScalar) proc" where
  "reshare_idx_share ell server_role val =
     pbind (lift_res (to_u32 val)) (\<lambda>this.
     if server_role = P2
     then pbind (transport_recv_scalar ell Next) (\<lambda>n. pbind (lift_res (to_u32 n)) (\<lambda>nxt.
       pbind (transport_send_scalar ell Prev val) (\<lambda>_. Ret \<lparr>thisShare = this, nxtShare = nxt\<rparr>)))
     else pbind (transport_send_scalar ell Prev val) (\<lambda>_.
       pbind (transport_recv_scalar ell Next) (\<lambda>n. pbind (lift_res (to_u32 n)) (\<lambda>nxt.
       Ret \<lparr>thisShare = this, nxtShare = nxt\<rparr>))))"

text \<open>The steward adds its summand and that of the first peer; the peers use the remaining one.\<close>

definition steward_alpha :: "nat \<Rightarrow> u64 \<Rightarrow> (side, u64) proc" where
  "steward_alpha ell ishare =
     pbind (reshare_idx_share ell P0 ishare) (\<lambda>ss. lift_res (ring_add ell (ucast (thisShare ss)) (ucast (nxtShare ss))))"

definition peer_bias :: "nat \<Rightarrow> pid \<Rightarrow> u64 \<Rightarrow> (side, u64) proc" where
  "peer_bias ell server_role ishare =
     pbind (reshare_idx_share ell server_role ishare) (\<lambda>ss.
     Ret (ucast (if server_role = P1 then nxtShare ss else thisShare ss)))"

section \<open>Keys\<close>

text \<open>\<open>gen\<close>, \<open>send_key\<close> and \<open>recv_key\<close> over the channels: the length and the text are flushed one after the other.\<close>

definition steward_gen :: "platform \<Rightarrow> bf_params \<Rightarrow> nat \<Rightarrow> u64 \<Rightarrow> (byte list \<times> byte list) res" where
  "steward_gen m bp i alpha =
     (case key_rnd m i of (rnd0, rnd1, kL, kR) \<Rightarrow> rbind (to_u32 alpha) (\<lambda>alpha.
        py_gen (json_dump m) (hash_fn m) (ell_add2 bp) (ell_root bp) (sodium m) rnd0 rnd1 kL kR alpha 1))"

definition send_key_to :: "platform \<Rightarrow> bf_params \<Rightarrow> int \<Rightarrow> byte list \<Rightarrow> (side, unit) proc" where
  "send_key_to m bp party key_json =
     pbind (lift_res (py_send_key (json_dump m) (json_parse m) (ell_add2 bp) (key_fresh m) key_json party)) (\<lambda>(e, bytes).
     let nio = (if e = EVALUATOR_0 then Next else Prev)
     in pbind (send_data nio (take 8 bytes)) (\<lambda>_. pbind (flush nio) (\<lambda>_.
        pbind (send_data nio (drop 8 bytes)) (\<lambda>_. flush nio))))"

definition send_key_pair :: "platform \<Rightarrow> bf_params \<Rightarrow> byte list \<times> byte list \<Rightarrow> (side, unit) proc" where
  "send_key_pair m bp keys = (case keys of (key_e0, key_e1) \<Rightarrow>
     pbind (send_key_to m bp 0 key_e0) (\<lambda>_. send_key_to m bp 1 key_e1))"

definition recv_key_from :: "platform \<Rightarrow> bf_params \<Rightarrow> side \<Rightarrow> (side, byte list) proc" where
  "recv_key_from m bp nio =
     pbind (recv_bytes nio 8) (\<lambda>b.
     let keyStrLen = unat (of_le_bytes b :: u64) in
     if \<not> str_alloc m keyStrLen then Fail BadAlloc
     else pbind (recv_bytes nio keyStrLen) (\<lambda>keyStr.
       lift_res (rbind (json_parse m keyStr) (\<lambda>j. rbind (from_json (ell_add2 bp) (key_fresh m) j)
         (key_text (json_dump m) (ell_add2 bp))))))"

section \<open>Evaluation\<close>

definition dpf_party :: "pid \<Rightarrow> dpf_pid" where
  "dpf_party server_role = (if server_role = P1 then EVALUATOR_0 else EVALUATOR_1)"

definition eval_key :: "platform \<Rightarrow> bf_params \<Rightarrow> pid \<Rightarrow> ShrRep3ShareVec \<Rightarrow> nat \<Rightarrow> byte list \<times> u64 \<Rightarrow> store \<Rightarrow> store res" where
  "eval_key m bp server_role query_buf i kb st = (case kb of (key, bias) \<Rightarrow>
     rbind (ring_sub (ell_add2 bp) 0 bias) (\<lambda>eval_bg.
     rbind (ring_add (ell_add2 bp) eval_bg (of_nat (bf_size bp))) (\<lambda>eval_ed.
     rbind (ring_sub (ell_add2 bp) eval_ed 1) (\<lambda>eval_ed.
     rbind (eval_outcome m (dpf_party server_role) i key (PyRvector (ell_root bp) (st (thisShare query_buf)))
       (unat eval_bg) (unat eval_ed)) (\<lambda>v.
     rv_add (ell_root bp) (nxtShare query_buf) (thisShare query_buf) (nxtShare query_buf) (st(thisShare query_buf := v)))))))"

fun eval_keys :: "platform \<Rightarrow> bf_params \<Rightarrow> pid \<Rightarrow> ShrRep3ShareVec \<Rightarrow> nat \<Rightarrow> (byte list \<times> u64) list \<Rightarrow> store \<Rightarrow> store res" where
  "eval_keys m bp server_role query_buf i [] st = Inr st"
| "eval_keys m bp server_role query_buf i (kb # kbs) st =
     rbind (eval_key m bp server_role query_buf i kb st) (eval_keys m bp server_role query_buf (Suc i) kbs)"

section \<open>The agents\<close>

text \<open>The counters become a replicated sharing, of which the inner product with the root is taken.\<close>

definition look_up :: "platform \<Rightarrow> bf_params \<Rightarrow> ShrRep3ShareVec \<Rightarrow> ShrRep3ShareVec \<Rightarrow> store \<Rightarrow> aby3 \<Rightarrow>
    (side, ShrRep3ShareScalar \<times> store \<times> aby3) proc" where
  "look_up m bp query_buf root_node st a =
     pbind (rss_reshare_vec (vec_heap m) (ell_root bp) (nxtShare query_buf) query_buf st a) (\<lambda>(st, a).
     pbind (aby3_dot (hash_fn m) (ell_root bp) query_buf root_node st a) (\<lambda>(dr, a). Ret (dr, st, a)))"

definition steward_query :: "platform \<Rightarrow> bf_params \<Rightarrow> ShrRep3ShareVec \<Rightarrow> ShrRep3ShareVec \<Rightarrow> u64 list \<Rightarrow> store \<Rightarrow> aby3 \<Rightarrow>
    (side, ShrRep3ShareScalar \<times> store \<times> aby3) proc" where
  "steward_query m bp query_buf root_node idx_shares st a =
     pbind (proc_map (steward_alpha (ell_add2 bp)) idx_shares) (\<lambda>alpha_set.
     pbind (lift_res (collect (map (\<lambda>(i, alpha). steward_gen m bp i alpha) (enumerate 0 alpha_set)))) (\<lambda>keylist.
     pbind (proc_map (send_key_pair m bp) keylist) (\<lambda>_.
     pbind (lift_res (crng_at (hash_fn m) (ell_root bp) (nxtShare query_buf) st a)) (\<lambda>(st, a).
     look_up m bp query_buf root_node st a))))"

definition peer_query :: "platform \<Rightarrow> bf_params \<Rightarrow> pid \<Rightarrow> ShrRep3ShareVec \<Rightarrow> ShrRep3ShareVec \<Rightarrow> u64 list \<Rightarrow> store \<Rightarrow> aby3 \<Rightarrow>
    (side, ShrRep3ShareScalar \<times> store \<times> aby3) proc" where
  "peer_query m bp server_role query_buf root_node idx_shares st a =
     pbind (lift_res (crng_at (hash_fn m) (ell_root bp) (nxtShare query_buf) st a)) (\<lambda>(st, a).
     pbind (proc_map (peer_bias (ell_add2 bp) server_role) idx_shares) (\<lambda>bias_set.
     pbind (proc_map (\<lambda>_. recv_key_from m bp (if server_role = P1 then Prev else Next)) [0..<hf_num bp]) (\<lambda>keylist.
     pbind (lift_res (eval_keys m bp server_role query_buf 0 (zip keylist bias_set) st)) (\<lambda>st.
     look_up m bp query_buf root_node st a))))"

definition agent_query :: "platform \<Rightarrow> bf_params \<Rightarrow> pid \<Rightarrow> ShrRep3ShareVec \<Rightarrow> ShrRep3ShareVec \<Rightarrow> u64 list \<Rightarrow> store \<Rightarrow> aby3 \<Rightarrow>
    (side, ShrRep3ShareScalar \<times> store \<times> aby3) proc" where
  "agent_query m bp server_role =
     (if server_role = P0 then steward_query m bp else peer_query m bp server_role)"

section \<open>Positions, exchanged\<close>

lemma to_u32_ok: "x < 2 ^ 32 \<Longrightarrow> to_u32 x = Inr (ucast x)"
  by (simp add: to_u32_def)

lemma ring_u32:
  fixes x :: u64
  assumes "ell \<le> 31" "uint x < 2 ^ ell"
  shows "to_u32 x = Inr (ucast x)" "ucast (ucast x :: u32) = x"
proof -
  have "(2 :: int) ^ ell \<le> 2 ^ 31" using assms(1) by (intro power_increasing) simp_all
  then have x: "uint x < 2 ^ 32" using assms(2) by simp
  then have "x < 2 ^ 32" by (simp add: word_less_def)
  then show "to_u32 x = Inr (ucast x)" by (rule to_u32_ok)
  show "ucast (ucast x :: u32) = x"
    using x by (intro word_uint_eqI) (simp add: unsigned_ucast_eq unsigned_take_bit_eq take_bit_int_eq_self)
qed

lemma idx_exchange:
  assumes cap: "0 < cap" and ell: "1 \<le> ell" "ell \<le> 31" and v: "\<And>p. uint (v p :: u64) < 2 ^ ell"
  shows "ends_with cap (\<lambda>p. reshare_idx_share ell p (v p)) (\<lambda>p. \<lparr>thisShare = ucast (v p), nxtShare = ucast (v (NEXT p))\<rparr>)"
proof -
  let ?b = "\<lambda>p. le_bytes (transport_bytes ell) (v p)" and ?e = "\<lambda>_ :: pid \<times> side. [] :: byte list"
  let ?r = "\<lambda>p. \<lparr>thisShare = ucast (v p), nxtShare = ucast (v (NEXT p))\<rparr> :: ShrRep3ShareScalar"
  have snd: "transport_send_scalar ell Prev (v p) = pbind (send_data Prev (?b p)) (\<lambda>_. flush Prev)" for p
    using scalar_bits(1) [OF ell, of "v p"] v [of p] by (simp add: transport_send_scalar_def le_bytes_def)
  have rcv: "lift_res (scalar_of ell (?b p)) = Ret (v p)" for p
    using scalar_of_bytes [OF ell v] by simp
  note u = ring_u32(1) [OF ell(2) v]
  let ?R = "\<lambda>p. pbind (transport_recv_scalar ell Next) (\<lambda>n. pbind (lift_res (to_u32 n)) (\<lambda>nxt. Ret \<lparr>thisShare = ucast (v p), nxtShare = nxt\<rparr>))"
  let ?S = "\<lambda>p K. pbind (send_data Prev (?b p)) (\<lambda>_. pbind (flush Prev) (\<lambda>_. K))"
  let ?P = "\<lambda>p. if p = P2 then pbind (transport_recv_scalar ell Next) (\<lambda>n. pbind (lift_res (to_u32 n)) (\<lambda>nxt. ?S P2 (Ret \<lparr>thisShare = ucast (v P2), nxtShare = nxt\<rparr>)))
    else ?S p (?R p)"
  have P: "(\<lambda>p. reshare_idx_share ell p (v p)) = ?P"
    by (rule ext) (simp add: reshare_idx_share_def u snd pbind_assoc)
  let ?P1 = "?P(P0 := ?R P0, P2 := ?S P2 (Ret (?r P2)))"
  let ?P2 = "?P1(P1 := ?R P1, P0 := Ret (?r P0))"
  let ?P3 = "?P2(P2 := Ret (?r P2), P1 := Ret (?r P1))"
  let ?K = "\<lambda>p bs. pbind (lift_res (scalar_of ell bs)) (\<lambda>n. pbind (lift_res (to_u32 n)) (\<lambda>nxt. Ret \<lparr>thisShare = ucast (v p), nxtShare = nxt\<rparr>))"
  let ?K2 = "\<lambda>bs. pbind (lift_res (scalar_of ell bs)) (\<lambda>n. pbind (lift_res (to_u32 n)) (\<lambda>nxt. ?S P2 (Ret \<lparr>thisShare = ucast (v P2), nxtShare = nxt\<rparr>)))"
  have len: "length (?b p) = transport_bytes ell" for p by simp
  have 1: "reaches ring_peer cap (state ?P ?e ?e) (state ?P1 ?e ?e)"
    using message_reaches [of P0 P2 ring_peer Prev Next cap ?P "?b P0" "\<lambda>_. ?R P0" ?K2 ?e ?e] cap
    by (simp add: transport_recv_scalar_def pbind_assoc rcv u)
  have 2: "reaches ring_peer cap (state ?P1 ?e ?e) (state ?P2 ?e ?e)"
    using message_reaches [of P1 P0 ring_peer Prev Next cap ?P1 "?b P1" "\<lambda>_. ?R P1" "?K P0" ?e ?e] cap
    by (simp add: transport_recv_scalar_def pbind_assoc rcv u)
  have 3: "reaches ring_peer cap (state ?P2 ?e ?e) (state ?P3 ?e ?e)"
    using message_reaches [of P2 P1 ring_peer Prev Next cap ?P2 "?b P2" "\<lambda>_. Ret (?r P2)" "?K P1" ?e ?e] cap
    by (simp add: transport_recv_scalar_def pbind_assoc rcv u)
  have e: "?P3 = (\<lambda>p. Ret (?r p))" by (auto simp: fun_eq_iff all_pid)
  show ?thesis
    using reaches_trans [OF reaches_trans [OF 1 2] 3] unfolding P runs_def quiet_state e .
qed

lemma proc_map_runs:
  assumes "\<And>p. length (xs p) = n" "\<And>k. k < n \<Longrightarrow> ends_with cap (\<lambda>p. f p (xs p ! k)) (\<lambda>p. g p k)"
  shows "ends_with cap (\<lambda>p. proc_map (f p) (xs p)) (\<lambda>p. map (g p) [0..<n])"
  using assms
proof (induction n arbitrary: xs g)
  case 0
  then show ?case by simp
next
  case (Suc n)
  have xs: "xs p = hd (xs p) # tl (xs p)" for p using Suc.prems(1) [of p] by (cases "xs p") simp_all
  have hd: "ends_with cap (\<lambda>p. f p (hd (xs p))) (\<lambda>p. g p 0)" 
    using Suc.prems(2) [of 0] hd_conv_nth [of "xs _"] xs by (metis (no_types, lifting) ext list.distinct(1) zero_less_Suc)
  have tl: "ends_with cap (\<lambda>p. proc_map (f p) (tl (xs p))) (\<lambda>p. map (\<lambda>k. g p (Suc k)) [0..<n])"
  proof (rule Suc.IH)
    show "length (tl (xs p)) = n" for p using Suc.prems(1) by simp
    show "ends_with cap (\<lambda>p. f p (tl (xs p) ! k)) (\<lambda>p. g p (Suc k))" if "k < n" for k
      using Suc.prems(2) [of "Suc k"] that Suc.prems(1) by (simp add: nth_tl)
  qed
  have "runs ring_peer cap (\<lambda>p. proc_map (f p) (hd (xs p) # tl (xs p))) (\<lambda>p. pbind (proc_map (f p) (tl (xs p))) (\<lambda>ys. Ret (g p 0 # ys)))"
    using runs_bind [OF hd, of "\<lambda>p y. pbind (proc_map (f p) (tl (xs p))) (\<lambda>ys. Ret (y # ys))"] by simp
  moreover have "runs ring_peer cap (\<lambda>p. pbind (proc_map (f p) (tl (xs p))) (\<lambda>ys. Ret (g p 0 # ys))) (\<lambda>p. Ret (map (g p) [0..<Suc n]))"
    using runs_bind [OF tl, of "\<lambda>p ys. Ret (g p 0 # ys)"] by (simp add: upt_conv_Cons map_Suc_upt [symmetric] o_def del: upt_Suc)
  ultimately show ?case using runs_trans xs by (metis (no_types, lifting) ext)
qed

section \<open>Keys, delivered\<close>

text \<open>The message \<open>bytes\<close> brings the key text \<open>s\<close> to an evaluator.\<close>

definition carries :: "platform \<Rightarrow> bf_params \<Rightarrow> byte list \<Rightarrow> byte list \<Rightarrow> bool" where
  "carries m bp s bytes \<longleftrightarrow> 8 \<le> length bytes \<and>
     py_send_key (json_dump m) (json_parse m) (ell_add2 bp) (key_fresh m) s 0 = Inr (EVALUATOR_0, bytes) \<and>
     py_send_key (json_dump m) (json_parse m) (ell_add2 bp) (key_fresh m) s 1 = Inr (EVALUATOR_1, bytes) \<and>
     unat (of_le_bytes (take 8 bytes) :: u64) = length bytes - 8 \<and> str_alloc m (length bytes - 8) \<and>
     rbind (json_parse m (drop 8 bytes)) (\<lambda>j. rbind (from_json (ell_add2 bp) (key_fresh m) j)
       (key_text (json_dump m) (ell_add2 bp))) = Inr s"

lemma key_carried:
  assumes "key_ok (ell_add2 bp) key" "length (key_fresh m) = 16" "text_ok (json_dump m) (json_parse m) (str_alloc m) (ell_add2 bp) key"
  shows "\<exists>s bytes. key_text (json_dump m) (ell_add2 bp) key = Inr s \<and> key_of_text (json_parse m) (ell_add2 bp) (key_fresh m) s = Inr key \<and>
    carries m bp s bytes"
proof -
  obtain j where j: "to_json (ell_add2 bp) key = Inr j" "from_json (ell_add2 bp) (key_fresh m) j = Inr key"
    using json_roundtrip [OF assms(1,2)] by blast
  let ?s = "json_dump m j"
  have t: "json_parse m ?s = Inr j" "length ?s < 2 ^ 64" "str_alloc m (length ?s)"
    using assms(3) j(1) by (simp_all add: text_ok_def)
  have "of_le_bytes (le_bytes 8 (of_nat (length ?s) :: u64)) = (of_nat (length ?s) :: u64)" by (rule of_le_bytes_le_bytes) simp
  then have "unat (of_le_bytes (le_bytes 8 (of_nat (length ?s) :: u64)) :: u64) = length ?s"
    using t(2) by (simp add: unsigned_of_nat take_bit_nat_eq_self)
  then show ?thesis using j t
    by (intro exI [of _ ?s] exI [of _ "le_bytes 8 (of_nat (length ?s) :: u64) @ ?s"])
      (simp add: carries_def py_send_key_def key_text_def key_of_text_def sendKey_def Let_def)
qed

lemma key_reaches:
  assumes cap: "0 < cap" and c: "carries m bp s bytes"
    and q: "party = 0 \<and> q = P1 \<and> nio = Prev \<or> party = 1 \<and> q = P2 \<and> nio = Next"
    and P: "P P0 = pbind (send_key_to m bp party s) K" "P q = pbind (recv_key_from m bp nio) K'"
  shows "reaches ring_peer cap (state P (\<lambda>_. []) (\<lambda>_. [])) (state (P(P0 := K (), q := K' s)) (\<lambda>_. []) (\<lambda>_. []))"
proof -
  let ?e = "\<lambda>_ :: pid \<times> side. [] :: byte list" and ?n = "if nio = Prev then Next else Prev"
  let ?a = "take 8 bytes" and ?b = "drop 8 bytes"
  let ?S = "\<lambda>_ :: unit. pbind (send_data ?n ?b) (\<lambda>_. pbind (flush ?n) K)"
  let ?G = "\<lambda>keyStr. pbind (lift_res (rbind (json_parse m keyStr) (\<lambda>j. rbind (from_json (ell_add2 bp) (key_fresh m) j)
      (key_text (json_dump m) (ell_add2 bp))))) K'"
  let ?F = "\<lambda>b. let keyStrLen = unat (of_le_bytes b :: u64) in
     if \<not> str_alloc m keyStrLen then Fail BadAlloc else pbind (recv_bytes nio keyStrLen) ?G"
  have len: "length ?a = 8" "length ?b = length bytes - 8" using c by (simp_all add: carries_def)
  have S: "P P0 = pbind (send_data ?n ?a) (\<lambda>_. pbind (flush ?n) ?S)"
    using c q unfolding P by (auto simp: send_key_to_def carries_def pbind_assoc Let_def)
  have R: "P q = pbind (recv_bytes nio (length ?a)) ?F"
    unfolding P len(1) by (simp add: recv_key_from_def pbind_assoc Let_def if_distrib [of "\<lambda>x. pbind x _"] cong: if_cong)
  have F: "?F ?a = pbind (recv_bytes nio (length ?b)) ?G" using c by (simp add: carries_def Let_def)
  have G: "?G ?b = K' s" using c by (simp add: carries_def)
  have ne: "P0 \<noteq> q" "ring_peer (P0, ?n) = (q, nio)" using q by auto
  have 1: "reaches ring_peer cap (state P ?e ?e) (state (P(P0 := ?S (), q := ?F ?a)) ?e ?e)"
    using message_reaches [of P0 q ring_peer ?n nio cap P ?a ?S ?F ?e ?e, OF ne cap S R] by simp
  have 2: "reaches ring_peer cap (state (P(P0 := ?S (), q := ?F ?a)) ?e ?e)
      (state (P(P0 := ?S (), q := ?F ?a, P0 := K (), q := ?G ?b)) ?e ?e)"
    using message_reaches [of P0 q ring_peer ?n nio cap "P(P0 := ?S (), q := ?F ?a)" ?b K ?G ?e ?e, OF ne cap] ne(1) F by simp
  have "P(P0 := ?S (), q := ?F ?a, P0 := K (), q := ?G ?b) = P(P0 := K (), q := K' s)" unfolding G by auto
  then show ?thesis using reaches_trans [OF 1 2] by simp
qed

lemma keys_reach:
  assumes cap: "0 < cap"
  shows "list_all2 (\<lambda>k b. carries m bp (fst k) (fst b) \<and> carries m bp (snd k) (snd b)) keys msgs \<Longrightarrow> length xs = length keys \<Longrightarrow>
    P P0 = pbind (proc_map (send_key_pair m bp) keys) (\<lambda>_. K0) \<Longrightarrow>
    P P1 = pbind (proc_map (\<lambda>_. recv_key_from m bp Prev) xs) K1 \<Longrightarrow>
    P P2 = pbind (proc_map (\<lambda>_. recv_key_from m bp Next) xs) K2 \<Longrightarrow>
    reaches ring_peer cap (state P (\<lambda>_. []) (\<lambda>_. []))
      (state (P(P0 := K0, P1 := K1 (map fst keys), P2 := K2 (map snd keys))) (\<lambda>_. []) (\<lambda>_. []))"
proof (induction keys msgs arbitrary: P K0 K1 K2 xs rule: list_all2_induct)
  case Nil
  then have e: "P(P0 := K0, P1 := K1 (map fst []), P2 := K2 (map snd [])) = P" by auto
  show ?case unfolding e by (rule rtranclp.rtrancl_refl)
next
  case (Cons k keys b msgs)
  obtain x xs' where xs: "xs = x # xs'" "length xs' = length keys" using Cons.prems(1) by (cases xs) auto
  obtain s0 s1 where k: "k = (s0, s1)" by (cases k)
  let ?e = "\<lambda>_ :: pid \<times> side. [] :: byte list"
  let ?K0 = "pbind (proc_map (send_key_pair m bp) keys) (\<lambda>_. K0)"
  let ?K1 = "\<lambda>y. pbind (proc_map (\<lambda>_. recv_key_from m bp Prev) xs') (\<lambda>ys. K1 (y # ys))"
  let ?K2 = "\<lambda>y. pbind (proc_map (\<lambda>_. recv_key_from m bp Next) xs') (\<lambda>ys. K2 (y # ys))"
  let ?S = "\<lambda>_ :: unit. pbind (send_key_to m bp 1 s1) (\<lambda>_. ?K0)"
  let ?P1 = "P(P0 := ?S (), P1 := ?K1 s0)" let ?P2 = "?P1(P0 := ?K0, P2 := ?K2 s1)"
  have c: "carries m bp s0 (fst b)" "carries m bp s1 (snd b)" using Cons.hyps(1) by (simp_all add: k)
  have 1: "reaches ring_peer cap (state P ?e ?e) (state ?P1 ?e ?e)"
    by (rule key_reaches [OF cap c(1), where party = 0 and nio = Prev])
      (use Cons.prems in \<open>simp_all add: k xs send_key_pair_def pbind_assoc\<close>)
  have 2: "reaches ring_peer cap (state ?P1 ?e ?e) (state ?P2 ?e ?e)"
    using key_reaches [OF cap c(2), of 1 P2 Next ?P1 "\<lambda>_. ?K0" ?K2] Cons.prems by (simp add: xs pbind_assoc)
  have 3: "reaches ring_peer cap (state ?P2 ?e ?e)
      (state (?P2(P0 := K0, P1 := K1 (s0 # map fst keys), P2 := K2 (s1 # map snd keys))) ?e ?e)"
    by (rule Cons.IH [OF xs(2), of ?P2 K0 "\<lambda>ys. K1 (s0 # ys)" "\<lambda>ys. K2 (s1 # ys)"]) simp_all
  have e: "?P2(P0 := K0, P1 := K1 (s0 # map fst keys), P2 := K2 (s1 # map snd keys)) =
      P(P0 := K0, P1 := K1 (map fst (k # keys)), P2 := K2 (map snd (k # keys)))" by (auto simp: k)
  show ?case using reaches_trans [OF reaches_trans [OF 1 2] 3 [unfolded e]] .
qed

section \<open>Evaluations\<close>

definition bf_ok :: "bf_params \<Rightarrow> bool" where
  "bf_ok bp \<longleftrightarrow> 1 \<le> ell_add2 bp \<and> ell_add2 bp \<le> 31 \<and> 2 \<le> ell_root bp \<and> ell_root bp \<le> 8 \<and>
     0 < bf_size bp \<and> bf_size bp < 2 ^ ell_add2 bp"

text \<open>What the threads leave is an outcome of the evaluation.\<close>

definition outcomes_ok :: "platform \<Rightarrow> bf_params \<Rightarrow> bool" where
  "outcomes_ok m bp \<longleftrightarrow> (\<forall>pid i key buf bg ed. py_eval_range (json_parse m) (hash_fn m) (ell_add2 bp) (ell_root bp) pid (key_fresh m)
     key buf bg ed (dpf_cores m) (eval_outcome m pid i key buf bg ed))"

lemma ring_ops_ok:
  assumes "1 \<le> ell" "ell \<le> 31" "uint a < 2 ^ ell" "uint b < 2 ^ ell"
  shows "ring_add ell a b = Inr (take_bit ell (a + b))" "ring_sub ell a b = Inr (take_bit ell (a - b))"
  using assms scalar_bits [OF assms(1,2)] by (simp_all add: ring_add_def ring_sub_def Let_def not_le del: push_bit_of_1)

lemma trunc64: "unat (take_bit ell x) = unat x mod 2 ^ ell" for x :: u64
  by (simp only: unsigned_take_bit_eq) (simp only: take_bit_eq_mod)

lemma trunc64_ops:
  fixes x y :: u64
  assumes "ell \<le> 64"
  shows "uint (take_bit ell (x + y)) = (uint x + uint y) mod 2 ^ ell" "uint (take_bit ell (x - y)) = (uint x - uint y) mod 2 ^ ell"
    "unat (take_bit ell (x + y)) = (unat x + unat y) mod 2 ^ ell"
  using assms by (simp_all add: uint_take_bit_ops)
    (simp_all only: trunc64 unat_word_ariths mod_mod_cancel le_imp_power_dvd len_num1 len_bit0 len_bit1)

lemma trunc64_absorb:
  fixes x y :: u64
  assumes "ell \<le> 64"
  shows "take_bit ell (take_bit ell x + y) = take_bit ell (x + y)" "take_bit ell (x + take_bit ell y) = take_bit ell (x + y)"
    "take_bit ell (take_bit ell x - y) = take_bit ell (x - y)" "take_bit ell (x - take_bit ell y) = take_bit ell (x - y)"
  by (rule word_uint_eqI; simp only: trunc64_ops [OF assms]; simp only: uint_take_bit_mod mod_simps)+

lemma uint_take_bit_less: "uint (take_bit ell (x :: u64)) < 2 ^ ell"
  by (simp add: uint_take_bit_mod)

lemma unat_take_bit_less: "unat (take_bit ell (x :: u64)) < 2 ^ ell"
  by (simp add: trunc64)

lemma interval:
  fixes bias :: u64
  assumes bp: "bf_ok bp" and b: "uint bias < 2 ^ ell_add2 bp"
  defines "bg \<equiv> take_bit (ell_add2 bp) (0 - bias)"
  shows "\<exists>ed. (\<forall>K :: u64 \<Rightarrow> u64 \<Rightarrow> store res. rbind (ring_sub (ell_add2 bp) 0 bias) (\<lambda>eval_bg. rbind (ring_add (ell_add2 bp) eval_bg (of_nat (bf_size bp))) (\<lambda>eval_ed.
      rbind (ring_sub (ell_add2 bp) eval_ed 1) (K eval_bg))) = K bg ed) \<and>
    unat ed < 2 ^ ell_add2 bp \<and>
    bf_size bp = (if unat ed < unat bg then 2 ^ ell_add2 bp - unat bg + unat ed + 1 else unat ed - unat bg + 1)"
proof -
  let ?l = "ell_add2 bp" and ?n = "bf_size bp" and ?N = "2 ^ ell_add2 bp :: nat"
  have l: "1 \<le> ?l" "?l \<le> 31" and n: "0 < ?n" "?n < ?N" using bp by (simp_all add: bf_ok_def)
  have N: "?N \<le> 2 ^ 31" using l(2) by (intro power_increasing) simp_all
  then have un: "unat (of_nat ?n :: u64) = ?n" using n(2) by (simp add: unat_of_nat)
  then have rn: "uint (of_nat ?n :: u64) < 2 ^ ?l" using n(2) by (simp add: uint_nat)
  have one: "uint (1 :: u64) < 2 ^ ?l" using l(1) one_less_power [of "2 :: int" ?l] by simp
  let ?e = "take_bit ?l (bg + of_nat ?n)" let ?ed = "take_bit ?l (?e - 1)"
  have bg: "unat bg < ?N" "take_bit ?l bg = bg" unfolding bg_def by (rule unat_take_bit_less) simp
  have "take_bit ?l (?e - 1) = take_bit ?l (bg + of_nat (?n - 1))"
  proof -
    have "take_bit ?l (?e - 1) = take_bit ?l (bg + of_nat ?n - 1)" using l(2) by (simp only: trunc64_absorb)
    then show ?thesis using n(1) by (simp add: of_nat_diff add_diff_eq)
  qed
  then have "unat ?ed = (unat bg + unat (of_nat (?n - 1) :: u64)) mod ?N" using l(2) by (simp only: trunc64_ops)
  moreover have "unat (of_nat k :: u64) = k" if "k < ?N" for k using that N by (simp add: unat_of_nat)
  then have "unat (of_nat (?n - 1) :: u64) = ?n - 1" using n less_imp_diff_less by blast
  ultimately have ed: "unat ?ed = (unat bg + (?n - 1)) mod ?N" by simp
  have "?n = (if unat ?ed < unat bg then ?N - unat bg + unat ?ed + 1 else unat ?ed - unat bg + 1)"
  proof (cases "unat bg + (?n - 1) < ?N")
    case True
    then show ?thesis using ed n(1) by (simp; linarith)
  next
    case False
    then have "unat ?ed = unat bg + (?n - 1) - ?N" using ed bg(1) n(2) by (simp add: mod_if)
    then show ?thesis using False bg(1) n by auto
  qed
  moreover have "ring_sub ?l 0 bias = Inr bg" "ring_add ?l bg (of_nat ?n) = Inr ?e" "ring_sub ?l ?e 1 = Inr ?ed"
    using ring_ops_ok [OF l, of 0 bias] ring_ops_ok [OF l, of bg "of_nat ?n"] ring_ops_ok [OF l, of ?e 1] b rn one
      uint_take_bit_less [of ?l "0 - bias"] uint_take_bit_less [of ?l "bg + of_nat ?n"] by (simp_all add: bg_def)
  moreover have "unat ?ed < ?N" by (rule unat_take_bit_less)
  ultimately show ?thesis by (intro exI [of _ ?ed]) simp
qed

text \<open>One evaluation adds the values of the key, from the negated bias on, to the counters.\<close>

definition point :: "bf_params \<Rightarrow> u64 \<Rightarrow> nat \<Rightarrow> nat" where
  "point bp bias j = (unat (take_bit (ell_add2 bp) (0 - bias)) + j) mod 2 ^ ell_add2 bp"

lemma eval_key_ok:
  assumes bp: "bf_ok bp" and out: "outcomes_ok m bp" and cores: "dpf_cores m \<in> List.set CORES" and V: "thisShare V \<noteq> nxtShare V"
    and key: "key_of_text (json_parse m) (ell_add2 bp) (key_fresh m) s = Inr key" "length (cws key) = ell_add2 bp"
    and b: "uint bias < 2 ^ ell_add2 bp"
    and at: "vec_at (ell_root bp) st (thisShare V) z" "vec_at (ell_root bp) st (nxtShare V) w" "length z = bf_size bp" "length w = bf_size bp"
  shows "\<exists>st' z'. eval_key m bp p V i (s, bias) st = Inr st' \<and> vec_at (ell_root bp) st' (thisShare V) z' \<and> length z' = bf_size bp \<and>
    vec_at (ell_root bp) st' (nxtShare V) (map (\<lambda>j. ringAdd8 (ell_root bp) (w ! j)
      (share_at (hash_fn m) (ell_add2 bp) (ell_root bp) (dpf_party p) key (point bp bias j))) [0..<bf_size bp]) \<and>
    (\<forall>r. r \<noteq> thisShare V \<longrightarrow> r \<noteq> nxtShare V \<longrightarrow> st' r = st r)"
proof -
  let ?l = "ell_add2 bp" and ?r = "ell_root bp" and ?n = "bf_size bp" and ?buf = "st (thisShare V)"
  let ?bg = "take_bit ?l (0 - bias)"
  have "?r \<noteq> 1" using bp by (simp add: bf_ok_def)
  obtain ed where ed: "\<And>K :: u64 \<Rightarrow> u64 \<Rightarrow> store res. rbind (ring_sub ?l 0 bias) (\<lambda>eval_bg. rbind (ring_add ?l eval_bg (of_nat ?n)) (\<lambda>eval_ed.
      rbind (ring_sub ?l eval_ed 1) (K eval_bg))) = K ?bg ed"
    "unat ed < 2 ^ ?l" "?n = (if unat ed < unat ?bg then 2 ^ ?l - unat ?bg + unat ed + 1 else unat ed - unat ?bg + 1)"
    using interval [OF bp b] by blast
  let ?o = "eval_outcome m (dpf_party p) i s (PyRvector ?r ?buf) (unat ?bg) (unat ed)"
  have "py_eval_range (json_parse m) (hash_fn m) ?l ?r (dpf_party p) (key_fresh m) s (PyRvector ?r ?buf) (unat ?bg) (unat ed) (dpf_cores m) ?o"
    using out by (simp add: outcomes_ok_def)
  then have run: "rangeEval (hash_fn m) ?l ?r (dpf_party p) (nat (dpf_cores m)) key (unat ?bg) (unat ed) ?buf ?o"
    using key(1) cores by (simp add: py_eval_range_def eval_args_def do_range_eval_def)
  have buf: "rv_ok ?r ?buf" "rv_size ?buf = ?n" using at(1,3) vec_at_length [OF at(1)] by (simp_all add: vec_at_def rv_size_def)
  have "0 < nat (dpf_cores m)" "dpf_party p \<noteq> DEALER" using cores by (auto simp: CORES_def dpf_party_def)
  from range_evaluation' [OF key(2) this buf(1) unat_take_bit_less ed(2), of "0 - bias" "hash_fn m"] run buf(2) ed(3) \<open>?r \<noteq> 1\<close>
  obtain v where v: "?o = Inr v" "rv_ok ?r v"
    "elems ?r v = map (\<lambda>j. share_at (hash_fn m) ?l ?r (dpf_party p) key (point bp bias j)) [0..<?n]"
    by (auto simp: point_def)
  let ?st = "st(thisShare V := v)" and ?z = "map (\<lambda>j. share_at (hash_fn m) ?l ?r (dpf_party p) key (point bp bias j)) [0..<?n]"
  have "vec_at ?r ?st (nxtShare V) w" "vec_at ?r ?st (thisShare V) ?z" using at(2) V v(2,3) by simp_all
  from add_at [OF this(1,2,1)] at(4) obtain v' where v': "rv_add ?r (nxtShare V) (thisShare V) (nxtShare V) ?st = Inr (?st(nxtShare V := v'))"
    "rv_ok ?r v'" "elems ?r v' = map2 (ringAdd8 ?r) w ?z" by auto
  have "eval_key m bp p V i (s, bias) st = Inr (?st(nxtShare V := v'))"
    using v(1) v'(1) by (simp add: eval_key_def ed(1))
  moreover have "map2 (ringAdd8 ?r) w ?z = map (\<lambda>j. ringAdd8 ?r (w ! j)
      (share_at (hash_fn m) ?l ?r (dpf_party p) key (point bp bias j))) [0..<?n]"
    using at(4) by (intro nth_equalityI) simp_all
  ultimately show ?thesis using V v v' by (intro exI [of _ "?st(nxtShare V := v')"] exI [of _ ?z]) simp
qed

text \<open>All of them: the counters end with the sums.\<close>

lemma eval_keys_ok:
  assumes bp: "bf_ok bp" and out: "outcomes_ok m bp" and cores: "dpf_cores m \<in> List.set CORES" and V: "thisShare V \<noteq> nxtShare V"
  shows "list_all2 (\<lambda>s key. key_of_text (json_parse m) (ell_add2 bp) (key_fresh m) s = Inr key \<and> length (cws key) = ell_add2 bp) ss keys \<Longrightarrow>
    length bs = length keys \<Longrightarrow> \<forall>b \<in> set bs. uint b < 2 ^ ell_add2 bp \<Longrightarrow>
    vec_at (ell_root bp) st (thisShare V) z \<Longrightarrow> vec_at (ell_root bp) st (nxtShare V) w \<Longrightarrow> length z = bf_size bp \<Longrightarrow> length w = bf_size bp \<Longrightarrow>
    \<exists>st' z' w'. eval_keys m bp p V i (zip ss bs) st = Inr st' \<and> vec_at (ell_root bp) st' (thisShare V) z' \<and> length z' = bf_size bp \<and>
      vec_at (ell_root bp) st' (nxtShare V) w' \<and> length w' = bf_size bp \<and>
      (\<forall>j < bf_size bp. take_bit (ell_root bp) (w' ! j) = take_bit (ell_root bp) (w ! j +
        (\<Sum>k < length keys. share_at (hash_fn m) (ell_add2 bp) (ell_root bp) (dpf_party p) (keys ! k) (point bp (bs ! k) j)))) \<and>
      (\<forall>r. r \<noteq> thisShare V \<longrightarrow> r \<noteq> nxtShare V \<longrightarrow> st' r = st r)"
proof (induction ss keys arbitrary: bs i st z w rule: list_all2_induct)
  case Nil
  then show ?case by (intro exI [of _ st] exI [of _ z] exI [of _ w]) simp
next
  case (Cons s ss key keys)
  obtain b bs' where bs: "bs = b # bs'" "length bs' = length keys" using Cons.prems(1) by (cases bs) auto
  let ?l = "ell_add2 bp" and ?r = "ell_root bp" and ?n = "bf_size bp"
  let ?f = "\<lambda>key b j. share_at (hash_fn m) ?l ?r (dpf_party p) key (point bp b j)"
  have ell: "?r \<le> 8" using bp by (simp add: bf_ok_def)
  have "uint b < 2 ^ ?l" using Cons.prems(2) by (simp add: bs)
  from eval_key_ok [OF bp out cores V conjunct1 [OF Cons.hyps(1)] conjunct2 [OF Cons.hyps(1)] this Cons.prems(3-6), of p i]
  obtain st1 z1 where st1: "eval_key m bp p V i (s, b) st = Inr st1" "vec_at ?r st1 (thisShare V) z1" "length z1 = ?n"
    "vec_at ?r st1 (nxtShare V) (map (\<lambda>j. ringAdd8 ?r (w ! j) (?f key b j)) [0..<?n])"
    "\<And>r. r \<noteq> thisShare V \<Longrightarrow> r \<noteq> nxtShare V \<Longrightarrow> st1 r = st r" by blast
  let ?w = "map (\<lambda>j. ringAdd8 ?r (w ! j) (?f key b j)) [0..<?n]"
  have "\<forall>b \<in> set bs'. uint b < 2 ^ ?l" using Cons.prems(2) by (simp add: bs)
  from Cons.IH [OF bs(2) this st1(2,4,3), of "Suc i"]
  obtain st2 z2 w2 where st2: "eval_keys m bp p V (Suc i) (zip ss bs') st1 = Inr st2" "vec_at ?r st2 (thisShare V) z2" "length z2 = ?n"
    "vec_at ?r st2 (nxtShare V) w2" "length w2 = ?n"
    "\<And>j. j < ?n \<Longrightarrow> take_bit ?r (w2 ! j) = take_bit ?r (?w ! j + (\<Sum>k < length keys. ?f (keys ! k) (bs' ! k) j))"
    "\<And>r. r \<noteq> thisShare V \<Longrightarrow> r \<noteq> nxtShare V \<Longrightarrow> st2 r = st1 r" by auto
  have "take_bit ?r (w2 ! j) = take_bit ?r (w ! j + (\<Sum>k < length (key # keys). ?f ((key # keys) ! k) (bs ! k) j))" if j: "j < ?n" for j
  proof -
    have "?w ! j = take_bit ?r (w ! j + ?f key b j)" using j ell by (simp add: ring_simps)
    then have "take_bit ?r (w2 ! j) = take_bit ?r (w ! j + ?f key b j + (\<Sum>k < length keys. ?f (keys ! k) (bs' ! k) j))"
      using st2(6) [OF j] by (simp only: take_bit_absorb [OF ell])
    then show ?thesis by (simp add: bs sum.lessThan_Suc_shift add.assoc del: sum.lessThan_Suc)
  qed
  then show ?case using st1 st2 by (intro exI [of _ st2] exI [of _ z2] exI [of _ w2]) (simp add: bs)
qed

section \<open>The inner product\<close>

lemma lookup_runs:
  assumes cap: "0 < cap" and bp: "bf_ok bp" and heap: "\<forall>k. vec_heap m k \<noteq> None" and A: "synced (hash_fn m) A"
    and V: "\<And>p. thisShare (V p) \<noteq> nxtShare (V p)" "\<And>p. apart (V p) (W p)"
    and at: "\<And>p. vec_at (ell_root bp) (St p) (thisShare (V p)) (y p)" "\<And>p. length (y p) = bf_size bp"
      "\<And>p. vec_at (ell_root bp) (St p) (nxtShare (V p)) (z p)"
    and sum: "sums_to (ell_root bp) z xs" "length xs = bf_size bp"
    and root: "rep3_vec (ell_root bp) St W root" "length root = bf_size bp"
  shows "\<exists>S St' A'. ends_with cap (\<lambda>p. look_up m bp (V p) (W p) (St p) (A p)) (\<lambda>p. (S p, St' p, A' p)) \<and> synced (hash_fn m) A' \<and>
    rep3 (ell_root bp) S (take_bit (ell_root bp) (\<Sum>i<bf_size bp. xs ! i * root ! i)) \<and>
    rep3_vec (ell_root bp) St' W root \<and> (\<forall>p. fitted (ell_root bp) (V p) (bf_size bp) (St' p))"
proof -
  let ?r = "ell_root bp"
  have r: "?r \<noteq> 1" "0 < bf_size bp" using bp by (simp_all add: bf_ok_def)
  have len: "length (z p) = length xs" for p using sum(1) by (simp add: sums_to_def)
  have size: "sv_size (V p) (St p) = bf_size bp" for p using vec_at_length [OF at(1) [of p]] at(2) [of p] by (simp add: sv_size_def rv_size_def)
  obtain St1 where St1: "ends_with cap (\<lambda>p. reshare_vec (vec_heap m) ?r (nxtShare (V p)) (V p) (St p) (A p)) (\<lambda>p. (St1 p, A p))"
    "rep3_vec ?r St1 V xs" "\<And>p q. q \<noteq> thisShare (V p) \<Longrightarrow> q \<noteq> nxtShare (V p) \<Longrightarrow> St1 p q = St p q"
    using reshare_vec_runs [where vec = "\<lambda>p. nxtShare (V p)" and u = z and xs = xs, OF cap heap V(1) V(1) [symmetric] at(3) at(3) len len sum(1), of A]
    by blast
  have "St1 p (thisShare (W p)) = St p (thisShare (W p))" "St1 p (nxtShare (W p)) = St p (nxtShare (W p))" for p
    using V(2) [of p] by (intro St1(3); fastforce simp: apart_def)+
  then have W: "rep3_vec ?r St1 W root" using root(1) by (simp add: rep3_vec_def vsharing_def vec_at_def)
  from dot_runs [OF cap A St1(2) W] root(2) sum(2) r(1)
  obtain S A' where S: "ends_with cap (\<lambda>p. aby3_dot (hash_fn m) ?r (V p) (W p) (St1 p) (A p)) (\<lambda>p. (S p, A' p))" "synced (hash_fn m) A'"
    "rep3 ?r S (take_bit ?r (\<Sum>i<bf_size bp. xs ! i * root ! i))" by auto
  have eq: "(\<lambda>p. look_up m bp (V p) (W p) (St p) (A p)) = (\<lambda>p. pbind (reshare_vec (vec_heap m) ?r (nxtShare (V p)) (V p) (St p) (A p))
      (\<lambda>(st, a). pbind (aby3_dot (hash_fn m) ?r (V p) (W p) st a) (\<lambda>(dr, a). Ret (dr, st, a))))"
    using V(1) [symmetric] size r(2) by (intro ext) (simp add: look_up_def rss_reshare_vec_def)
  have "ends_with cap (\<lambda>p. look_up m bp (V p) (W p) (St p) (A p)) (\<lambda>p. (S p, St1 p, A' p))"
    unfolding eq using runs_trans [OF runs_bind [OF St1(1), of "\<lambda>p (st, a). pbind (aby3_dot (hash_fn m) ?r (V p) (W p) st a) (\<lambda>(dr, a). Ret (dr, st, a))", simplified]
        runs_bind [OF S(1), of "\<lambda>p (dr, a). Ret (dr, St1 p, a)", simplified]] .
  moreover have "fitted ?r (V p) (bf_size bp) (St1 p)" for p
  proof -
    obtain t where t: "vsharing ?r St1 V t" "sums_to ?r t xs" using St1(2) unfolding rep3_vec_def by blast
    then have at: "vec_at ?r (St1 p) (thisShare (V p)) (t p)" "vec_at ?r (St1 p) (nxtShare (V p)) (t (NEXT p))"
      and "length (t q) = bf_size bp" for q using sum(2) by (simp_all add: vsharing_def sums_to_def)
    then show ?thesis using vec_at_length [OF at(1)] vec_at_length [OF at(2)] by (simp add: fitted_def vec_at_def)
  qed
  ultimately show ?thesis using S(2,3) W by blast
qed

section \<open>Positions and keys of a query\<close>

text \<open>The agents' summands of the \<open>k\<close>-th position, and what the steward and the peers make of them.\<close>

definition query_alpha :: "bf_params \<Rightarrow> (pid \<Rightarrow> u64 list) \<Rightarrow> nat \<Rightarrow> u64" where
  "query_alpha bp idx k = take_bit (ell_add2 bp) (idx P0 ! k + idx P1 ! k)"

definition query_pos :: "bf_params \<Rightarrow> (pid \<Rightarrow> u64 list) \<Rightarrow> nat \<Rightarrow> nat" where
  "query_pos bp idx k = unat (take_bit (ell_add2 bp) (idx P0 ! k + idx P1 ! k + idx P2 ! k))"

definition idx_ok :: "bf_params \<Rightarrow> (pid \<Rightarrow> u64 list) \<Rightarrow> bool" where
  "idx_ok bp idx \<longleftrightarrow> (\<forall>p. length (idx p) = hf_num bp \<and> (\<forall>x \<in> set (idx p). uint x < 2 ^ ell_add2 bp)) \<and>
     (\<forall>k < hf_num bp. query_pos bp idx k < bf_size bp)"

lemma point_hit:
  assumes bp: "bf_ok bp" and j: "j < bf_size bp"
  shows "point bp (idx P2 ! k) j = unat (query_alpha bp idx k) \<longleftrightarrow> j = query_pos bp idx k"
proof -
  let ?l = "ell_add2 bp" and ?a = "idx P0 ! k + idx P1 ! k" and ?b = "idx P2 ! k" and ?j = "of_nat j :: u64"
  have l: "?l \<le> 31" "?l \<le> 64" and jl: "j < 2 ^ ?l" using bp j by (auto simp: bf_ok_def)
  have "(2 :: nat) ^ ?l \<le> 2 ^ 31" using l(1) by (intro power_increasing) simp_all
  then have uj: "unat ?j = j" using jl by (simp add: unat_of_nat)
  have tj: "unat (take_bit ?l ?j) = j" using jl by (simp only: trunc64 uj mod_less)
  have "point bp ?b j = unat (take_bit ?l (take_bit ?l (0 - ?b) + ?j))"
    by (simp only: point_def trunc64_ops(3) [OF l(2)] uj)
  also have "\<dots> = unat (take_bit ?l (?j - ?b))" by (simp only: trunc64_absorb [OF l(2)]) simp
  finally have p: "point bp ?b j = unat (take_bit ?l (?j - ?b))" .
  have "take_bit ?l (?j - ?b) = take_bit ?l ?a \<longleftrightarrow> take_bit ?l ?j = take_bit ?l (?a + ?b)"
  proof
    assume "take_bit ?l (?j - ?b) = take_bit ?l ?a"
    then have "take_bit ?l (take_bit ?l (?j - ?b) + ?b) = take_bit ?l (take_bit ?l ?a + ?b)" by simp
    then show "take_bit ?l ?j = take_bit ?l (?a + ?b)" by (simp only: trunc64_absorb [OF l(2)]) simp
  next
    assume "take_bit ?l ?j = take_bit ?l (?a + ?b)"
    then have "take_bit ?l (take_bit ?l ?j - ?b) = take_bit ?l (take_bit ?l (?a + ?b) - ?b)" by simp
    then show "take_bit ?l (?j - ?b) = take_bit ?l ?a" by (simp only: trunc64_absorb [OF l(2)]) simp
  qed
  then show ?thesis unfolding p query_alpha_def query_pos_def
    using tj by (metis unsigned_word_eqI)
qed

lemma positions_runs:
  assumes cap: "0 < cap" and bp: "bf_ok bp" and idx: "idx_ok bp idx"
  shows "ends_with cap (\<lambda>p. proc_map (if p = P0 then steward_alpha (ell_add2 bp) else peer_bias (ell_add2 bp) p) (idx p))
    (\<lambda>p. if p = P0 then map (query_alpha bp idx) [0..<hf_num bp] else idx P2)"
proof -
  let ?l = "ell_add2 bp"
  let ?f = "\<lambda>p. if p = P0 then steward_alpha ?l else peer_bias ?l p"
  let ?g = "\<lambda>p k. if p = P0 then query_alpha bp idx k else idx P2 ! k"
  have l: "1 \<le> ?l" "?l \<le> 31" using bp by (simp_all add: bf_ok_def)
  have one: "ends_with cap (\<lambda>p. ?f p (idx p ! k)) (\<lambda>p. ?g p k)" if k: "k < hf_num bp" for k
  proof -
    have v: "uint (idx p ! k) < 2 ^ ?l" for p
    proof -
      have "length (idx p) = hf_num bp" "\<forall>x \<in> set (idx p). uint x < 2 ^ ?l" using idx by (simp_all add: idx_ok_def)
      then show ?thesis using k by simp
    qed
    let ?K = "\<lambda>p (ss :: ShrRep3ShareScalar). if p = P0 then lift_res (ring_add ?l (ucast (thisShare ss)) (ucast (nxtShare ss)))
      else Ret (ucast (if p = P1 then nxtShare ss else thisShare ss))"
    have eq: "(\<lambda>p. ?f p (idx p ! k)) = (\<lambda>p. pbind (reshare_idx_share ?l p (idx p ! k)) (?K p))"
      by (rule ext) (simp add: steward_alpha_def peer_bias_def)
    have e: "(\<lambda>p. ?K p \<lparr>thisShare = ucast (idx p ! k), nxtShare = ucast (idx (NEXT p) ! k)\<rparr>) = (\<lambda>p. Ret (?g p k))"
      using ring_ops_ok(1) [OF l v v, of P0 P1] ring_u32(2) [OF l(2) v]
      by (auto simp: fun_eq_iff all_pid query_alpha_def)
    have "ends_with cap (\<lambda>p. reshare_idx_share ?l p (idx p ! k)) (\<lambda>p. \<lparr>thisShare = ucast (idx p ! k), nxtShare = ucast (idx (NEXT p) ! k)\<rparr>)"
      by (rule idx_exchange [OF cap l v])
    from runs_bind [OF this, of ?K] show ?thesis unfolding eq e .
  qed
  have "ends_with cap (\<lambda>p. proc_map (?f p) (idx p)) (\<lambda>p. map (?g p) [0..<hf_num bp])"
    by (rule proc_map_runs) (use idx one in \<open>simp_all add: idx_ok_def\<close>)
  moreover have "map (?g p) [0..<hf_num bp] = (if p = P0 then map (query_alpha bp idx) [0..<hf_num bp] else idx P2)" for p
    using idx by (auto simp: idx_ok_def intro!: nth_equalityI)
  ultimately show ?thesis by (simp only:)
qed

text \<open>What the query relies on: the random generator works, and the JSON library reads back what it has written for the keys made.\<close>

definition keys_ok :: "platform \<Rightarrow> bf_params \<Rightarrow> (pid \<Rightarrow> u64 list) \<Rightarrow> bool" where
  "keys_ok m bp idx \<longleftrightarrow> 0 \<le> sodium m \<and> length (key_fresh m) = 16 \<and>
     (\<forall>k < hf_num bp. case key_rnd m k of (r0, r1, kL, kR) \<Rightarrow> length kL = 16 \<and> length kR = 16 \<and>
        (\<forall>k0 k1. gen (hash_fn m) (ell_add2 bp) (ell_root bp) (sodium m) r0 r1 kL kR (ucast (query_alpha bp idx k)) 1 = Inr (k0, k1) \<longrightarrow>
           text_ok (json_dump m) (json_parse m) (str_alloc m) (ell_add2 bp) k0 \<and>
           text_ok (json_dump m) (json_parse m) (str_alloc m) (ell_add2 bp) k1))"

lemma gen_ok:
  assumes "0 \<le> sod" "ell \<le> 31" "unat alpha < 2 ^ ell"
  shows "\<exists>k0 k1. gen ccrh ell ell_out sod r0 r1 kL kR alpha beta = Inr (k0, k1)"
  using assms domain_size [OF assms(2)] by (auto simp: gen_def Let_def word_le_nat_alt split: prod.split)

lemma alpha_u32:
  assumes "bf_ok bp"
  shows "to_u32 (query_alpha bp idx k) = Inr (ucast (query_alpha bp idx k))"
    "unat (ucast (query_alpha bp idx k) :: u32) = unat (query_alpha bp idx k)"
    "unat (ucast (query_alpha bp idx k) :: u32) < 2 ^ ell_add2 bp"
proof -
  let ?l = "ell_add2 bp" and ?al = "query_alpha bp idx k"
  have l: "?l \<le> 31" using assms by (simp add: bf_ok_def)
  have al: "uint ?al < 2 ^ ?l" "unat ?al < 2 ^ ?l" unfolding query_alpha_def by (rule uint_take_bit_less unat_take_bit_less)+
  show "to_u32 ?al = Inr (ucast ?al)" by (rule ring_u32 [OF l al(1)])
  have "(2 :: nat) ^ ?l \<le> 2 ^ 31" using l by (intro power_increasing) simp_all
  then have "unat ?al < 2 ^ 32" using al(2) by simp
  then show u: "unat (ucast ?al :: u32) = unat ?al" by (simp add: unsigned_ucast_eq take_bit_nat_eq_self)
  show "unat (ucast ?al :: u32) < 2 ^ ?l" unfolding u by (rule al(2))
qed

lemma key_made:
  assumes bp: "bf_ok bp" and m: "keys_ok m bp idx" and k: "k < hf_num bp"
  shows "\<exists>s0 s1 m0 m1 k0 k1. steward_gen m bp k (query_alpha bp idx k) = Inr (s0, s1) \<and> carries m bp s0 m0 \<and> carries m bp s1 m1 \<and>
    key_of_text (json_parse m) (ell_add2 bp) (key_fresh m) s0 = Inr k0 \<and> key_of_text (json_parse m) (ell_add2 bp) (key_fresh m) s1 = Inr k1 \<and>
    length (cws k0) = ell_add2 bp \<and> length (cws k1) = ell_add2 bp \<and>
    (\<forall>j < bf_size bp. take_bit (ell_root bp) (share_at (hash_fn m) (ell_add2 bp) (ell_root bp) EVALUATOR_0 k0 (point bp (idx P2 ! k) j) +
      share_at (hash_fn m) (ell_add2 bp) (ell_root bp) EVALUATOR_1 k1 (point bp (idx P2 ! k) j)) = (if j = query_pos bp idx k then 1 else 0))"
proof -
  let ?l = "ell_add2 bp" and ?r = "ell_root bp" and ?al = "query_alpha bp idx k" and ?N = "2 ^ ell_add2 bp :: nat"
  obtain r0 r1 kL kR where rnd: "key_rnd m k = (r0, r1, kL, kR)" by (cases "key_rnd m k") auto
  have l: "?l \<le> 31" and r: "1 \<le> ?r" "?r \<le> 8" using bp by (auto simp: bf_ok_def)
  note al = alpha_u32 [OF bp, of idx k]
  obtain k0 k1 where g: "gen (hash_fn m) ?l ?r (sodium m) r0 r1 kL kR (ucast ?al) 1 = Inr (k0, k1)"
    using gen_ok [OF _ l al(3)] m unfolding keys_ok_def by blast
  have len: "length kL = 16" "length kR = 16" "length (key_fresh m) = 16"
    and t: "text_ok (json_dump m) (json_parse m) (str_alloc m) ?l k0" "text_ok (json_dump m) (json_parse m) (str_alloc m) ?l k1"
    using m k rnd g by (auto simp: keys_ok_def)
  note ok = gen_key_ok [OF g l r(2) len(1,2)]
  obtain s0 m0 where s0: "key_text (json_dump m) ?l k0 = Inr s0" "key_of_text (json_parse m) ?l (key_fresh m) s0 = Inr k0" "carries m bp s0 m0"
    using key_carried [OF ok(1) len(3) t(1)] by blast
  obtain s1 m1 where s1: "key_text (json_dump m) ?l k1 = Inr s1" "key_of_text (json_parse m) ?l (key_fresh m) s1 = Inr k1" "carries m bp s1 m1"
    using key_carried [OF ok(2) len(3) t(2)] by blast
  have "steward_gen m bp k ?al = Inr (s0, s1)" using g s0(1) s1(1) by (simp add: steward_gen_def rnd al(1) py_gen_def)
  moreover have "take_bit ?r (share_at (hash_fn m) ?l ?r EVALUATOR_0 k0 (point bp (idx P2 ! k) j) +
      share_at (hash_fn m) ?l ?r EVALUATOR_1 k1 (point bp (idx P2 ! k) j)) = (if j = query_pos bp idx k then 1 else 0)" if j: "j < bf_size bp" for j
  proof -
    have "point bp (idx P2 ! k) j < ?N" by (simp add: point_def)
    from gen_shares(4) [OF g l r(2) this] point_hit [OF bp j, of idx k] r show ?thesis by (simp add: al(2) ringAdd8_eq)
  qed
  ultimately show ?thesis using s0 s1 gen_shares(2,3) [OF g l r(2)] by blast
qed

text \<open>The keys of all positions, and the counters the peers end with.\<close>

lemma keys_made:
  assumes bp: "bf_ok bp" and m: "keys_ok m bp idx"
  shows "\<exists>ss ms ks. collect (map (\<lambda>(i, alpha). steward_gen m bp i alpha) (enumerate 0 (map (query_alpha bp idx) [0..<hf_num bp]))) = Inr ss \<and>
    length ss = hf_num bp \<and> length ks = hf_num bp \<and>
    list_all2 (\<lambda>k b. carries m bp (fst k) (fst b) \<and> carries m bp (snd k) (snd b)) ss ms \<and>
    list_all2 (\<lambda>s key. key_of_text (json_parse m) (ell_add2 bp) (key_fresh m) s = Inr key \<and> length (cws key) = ell_add2 bp) (map fst ss) (map fst ks) \<and>
    list_all2 (\<lambda>s key. key_of_text (json_parse m) (ell_add2 bp) (key_fresh m) s = Inr key \<and> length (cws key) = ell_add2 bp) (map snd ss) (map snd ks) \<and>
    (\<forall>k < hf_num bp. \<forall>j < bf_size bp. take_bit (ell_root bp)
      (share_at (hash_fn m) (ell_add2 bp) (ell_root bp) EVALUATOR_0 (map fst ks ! k) (point bp (idx P2 ! k) j) +
       share_at (hash_fn m) (ell_add2 bp) (ell_root bp) EVALUATOR_1 (map snd ks ! k) (point bp (idx P2 ! k) j)) =
      (if j = query_pos bp idx k then 1 else 0))"
proof -
  let ?Q = "\<lambda>k s b (key :: dpf_key \<times> dpf_key). steward_gen m bp k (query_alpha bp idx k) = Inr s \<and>
    carries m bp (fst s) (fst b) \<and> carries m bp (snd s) (snd b) \<and>
    key_of_text (json_parse m) (ell_add2 bp) (key_fresh m) (fst s) = Inr (fst key) \<and>
    key_of_text (json_parse m) (ell_add2 bp) (key_fresh m) (snd s) = Inr (snd key) \<and>
    length (cws (fst key)) = ell_add2 bp \<and> length (cws (snd key)) = ell_add2 bp \<and>
    (\<forall>j < bf_size bp. take_bit (ell_root bp) (share_at (hash_fn m) (ell_add2 bp) (ell_root bp) EVALUATOR_0 (fst key) (point bp (idx P2 ! k) j) +
      share_at (hash_fn m) (ell_add2 bp) (ell_root bp) EVALUATOR_1 (snd key) (point bp (idx P2 ! k) j)) = (if j = query_pos bp idx k then 1 else 0))"
  have "\<forall>k \<in> {..<hf_num bp}. \<exists>x. ?Q k (fst x) (fst (snd x)) (snd (snd x))"
  proof
    fix k assume "k \<in> {..<hf_num bp}"
    then obtain s0 s1 m0 m1 k0 k1 where "?Q k (s0, s1) (m0, m1) (k0, k1)" using key_made [OF bp m, of k] by auto
    then show "\<exists>x. ?Q k (fst x) (fst (snd x)) (snd (snd x))" by (intro exI [of _ "((s0, s1), (m0, m1), (k0, k1))"]) simp
  qed
  from bchoice [OF this] obtain F where F: "\<And>k. k < hf_num bp \<Longrightarrow> ?Q k (fst (F k)) (fst (snd (F k))) (snd (snd (F k)))" by blast
  let ?is = "[0..<hf_num bp]"
  have "map (\<lambda>(i, alpha). steward_gen m bp i alpha) (enumerate 0 (map (query_alpha bp idx) ?is)) =
      map (\<lambda>k. steward_gen m bp k (query_alpha bp idx k)) ?is"
    by (rule nth_equalityI) (simp_all add: nth_enumerate_eq)
  moreover have "collect (map (\<lambda>k. steward_gen m bp k (query_alpha bp idx k)) ?is) = Inr (map (\<lambda>k. fst (F k)) ?is)"
    by (rule collect_ok) (use F in simp)
  ultimately show ?thesis using F
    by (intro exI [of _ "map (\<lambda>k. fst (F k)) ?is"] exI [of _ "map (\<lambda>k. fst (snd (F k))) ?is"] exI [of _ "map (\<lambda>k. snd (snd (F k))) ?is"])
      (simp add: list_all2_conv_all_nth)
qed

lemma counters:
  fixes h :: nat
  assumes bp: "bf_ok bp" and r: "sums_to (ell_root bp) r (replicate (bf_size bp) 0)"
    and share: "\<And>k j. k < h \<Longrightarrow> j < bf_size bp \<Longrightarrow> take_bit (ell_root bp) (f k j + g k j) = (if j = pos k then 1 else 0)"
    and w: "\<And>j. j < bf_size bp \<Longrightarrow> take_bit (ell_root bp) (w1 ! j) = take_bit (ell_root bp) (r P1 ! j + (\<Sum>k<h. f k j))"
      "\<And>j. j < bf_size bp \<Longrightarrow> take_bit (ell_root bp) (w2 ! j) = take_bit (ell_root bp) (r P2 ! j + (\<Sum>k<h. g k j))"
    and len: "length w1 = bf_size bp" "length w2 = bf_size bp"
  shows "sums_to (ell_root bp) (case_pid (r P0) w1 w2) (map (\<lambda>j. \<Sum>k<h. if j = pos k then 1 else 0) [0..<bf_size bp])"
proof -
  let ?r = "ell_root bp"
  have ell: "?r \<le> 8" and r1: "1 \<le> ?r" using bp by (simp_all add: bf_ok_def)
  have "take_bit ?r (sum3 (\<lambda>p. case_pid (r P0) w1 w2 p ! j)) = take_bit ?r (\<Sum>k<h. if j = pos k then 1 else 0)" if j: "j < bf_size bp" for j
  proof -
    let ?y = "case_pid (r P0 ! j) (r P1 ! j + (\<Sum>k<h. f k j)) (r P2 ! j + (\<Sum>k<h. g k j))"
    have "take_bit ?r (sum3 (\<lambda>p. case_pid (r P0) w1 w2 p ! j)) = take_bit ?r (sum3 ?y)"
      using w [OF j] by (intro sum3_cong ell) (auto split: pid.split)
    also have "sum3 ?y = (\<Sum>k<h. f k j + g k j) + sum3 (\<lambda>p. r p ! j)" by (simp add: sum3_def sum.distrib)
    also have "take_bit ?r \<dots> = take_bit ?r ((\<Sum>k<h. if j = pos k then 1 else 0) + 0)"
    proof (rule take_bit_cong(1) [OF ell])
      show "take_bit ?r (\<Sum>k<h. f k j + g k j) = take_bit ?r (\<Sum>k<h. if j = pos k then 1 else 0)"
        by (rule sum_cong_low [OF ell]) (use share [OF _ j] r1 in auto)
      show "take_bit ?r (sum3 (\<lambda>p. r p ! j)) = take_bit ?r 0" using r j by (simp add: sums_to_sum3)
    qed
    finally show ?thesis by simp
  qed
  then show ?thesis using r len by (auto simp: sums_to_sum3 split: pid.split)
qed

lemma query_runs:
  assumes cap: "0 < cap" and A: "synced (hash_fn m) A" and bp: "bf_ok bp"
    and m: "keys_ok m bp idx" "outcomes_ok m bp" "dpf_cores m \<in> List.set CORES" "\<forall>k. vec_heap m k \<noteq> None"
    and idx: "idx_ok bp idx" and V: "\<And>p. thisShare (V p) \<noteq> nxtShare (V p)" "\<And>p. apart (V p) (W p)"
    and fit: "\<And>p. fitted (ell_root bp) (V p) (bf_size bp) (St p)"
    and root: "rep3_vec (ell_root bp) St W root" "length root = bf_size bp"
  shows "\<exists>S St' A'. ends_with cap (\<lambda>p. agent_query m bp p (V p) (W p) (idx p) (St p) (A p)) (\<lambda>p. (S p, St' p, A' p)) \<and>
    synced (hash_fn m) A' \<and> rep3 (ell_root bp) S (take_bit (ell_root bp) (\<Sum>k<hf_num bp. root ! query_pos bp idx k)) \<and>
    rep3_vec (ell_root bp) St' W root \<and> (\<forall>p. fitted (ell_root bp) (V p) (bf_size bp) (St' p))"
proof -
  let ?r = "ell_root bp" and ?n = "bf_size bp" and ?h = "hf_num bp" and ?l = "ell_add2 bp"
  have ell: "?r \<le> 8" using bp by (simp add: bf_ok_def)
  obtain v q A1 where c: "\<And>p. crng_at (hash_fn m) ?r (nxtShare (V p)) (St p) (A p) = Inr ((St p)(nxtShare (V p) := v p), A1 p)"
    "synced (hash_fn m) A1" "\<And>p. rv_ok ?r (v p)" "\<And>p. elems ?r (v p) = q p" "sums_to ?r q (replicate ?n 0)"
    by (rule crng_at_all [OF A fitted_at(2) [OF fit] fitted_at(4) [OF fit]]) (rule that, assumption+)
  define St1 where "St1 p = (St p)(nxtShare (V p) := v p)" for p
  define y where "y p = elems ?r (St p (thisShare (V p)))" for p
  have St1: "vec_at ?r (St1 p) (thisShare (V p)) (y p)" "vec_at ?r (St1 p) (nxtShare (V p)) (q p)" "length (y p) = ?n" "length (q p) = ?n" for p
    using fitted_at(1,3) [OF fit [of p]] V(1) [of p] c(3,4) [of p] c(5) by (simp_all add: St1_def y_def sums_to_def)
  obtain ss ms ks where ss: "collect (map (\<lambda>(i, alpha). steward_gen m bp i alpha) (enumerate 0 (map (query_alpha bp idx) [0..<?h]))) = Inr ss"
    "length ss = ?h" "length ks = ?h" "list_all2 (\<lambda>k b. carries m bp (fst k) (fst b) \<and> carries m bp (snd k) (snd b)) ss ms"
    and k0: "list_all2 (\<lambda>s key. key_of_text (json_parse m) ?l (key_fresh m) s = Inr key \<and> length (cws key) = ?l) (map fst ss) (map fst ks)"
    and k1: "list_all2 (\<lambda>s key. key_of_text (json_parse m) ?l (key_fresh m) s = Inr key \<and> length (cws key) = ?l) (map snd ss) (map snd ks)"
    and share: "\<And>k j. k < ?h \<Longrightarrow> j < ?n \<Longrightarrow> take_bit ?r
      (share_at (hash_fn m) ?l ?r EVALUATOR_0 (map fst ks ! k) (point bp (idx P2 ! k) j) +
       share_at (hash_fn m) ?l ?r EVALUATOR_1 (map snd ks ! k) (point bp (idx P2 ! k) j)) = (if j = query_pos bp idx k then 1 else 0)"
    using keys_made [OF bp m(1)] by blast
  have bs: "length (idx P2) = ?h" "\<forall>b \<in> set (idx P2). uint b < 2 ^ ?l" using idx by (simp_all add: idx_ok_def)
  have lk: "length (idx P2) = length (map fst ks)" "length (idx P2) = length (map snd ks)" using bs ss(3) by simp_all
  obtain st1 z1 w1 where e1: "eval_keys m bp P1 (V P1) 0 (zip (map fst ss) (idx P2)) (St1 P1) = Inr st1"
    "vec_at ?r st1 (thisShare (V P1)) z1" "length z1 = ?n" "vec_at ?r st1 (nxtShare (V P1)) w1" "length w1 = ?n"
    "\<And>j. j < ?n \<Longrightarrow> take_bit ?r (w1 ! j) = take_bit ?r (q P1 ! j +
      (\<Sum>k<?h. share_at (hash_fn m) ?l ?r EVALUATOR_0 (map fst ks ! k) (point bp (idx P2 ! k) j)))"
    "\<And>r. r \<noteq> thisShare (V P1) \<Longrightarrow> r \<noteq> nxtShare (V P1) \<Longrightarrow> st1 r = St1 P1 r"
    using eval_keys_ok [where V = "V P1" and st = "St1 P1" and p = P1 and i = 0, OF bp m(2,3) V(1) k0 lk(1) bs(2) St1] ss(3) by (auto simp: dpf_party_def)
  obtain st2 z2 w2 where e2: "eval_keys m bp P2 (V P2) 0 (zip (map snd ss) (idx P2)) (St1 P2) = Inr st2"
    "vec_at ?r st2 (thisShare (V P2)) z2" "length z2 = ?n" "vec_at ?r st2 (nxtShare (V P2)) w2" "length w2 = ?n"
    "\<And>j. j < ?n \<Longrightarrow> take_bit ?r (w2 ! j) = take_bit ?r (q P2 ! j +
      (\<Sum>k<?h. share_at (hash_fn m) ?l ?r EVALUATOR_1 (map snd ks ! k) (point bp (idx P2 ! k) j)))"
    "\<And>r. r \<noteq> thisShare (V P2) \<Longrightarrow> r \<noteq> nxtShare (V P2) \<Longrightarrow> st2 r = St1 P2 r"
    using eval_keys_ok [where V = "V P2" and st = "St1 P2" and p = P2 and i = 0, OF bp m(2,3) V(1) k1 lk(2) bs(2) St1] ss(3) by (auto simp: dpf_party_def)
  let ?St2 = "case_pid (St1 P0) st1 st2" and ?w = "case_pid (q P0) w1 w2" and ?y = "case_pid (y P0) z1 z2"
  let ?xs = "map (\<lambda>j. \<Sum>k<?h. if j = query_pos bp idx k then 1 else 0) [0..<?n] :: byte list"
  have sum: "sums_to ?r ?w ?xs" by (rule counters [OF bp c(5) share e1(6) e2(6) e1(5) e2(5)])
  let ?L = "\<lambda>p. look_up m bp (V p) (W p) (?St2 p) (A1 p)"
  let ?B = "\<lambda>p. if p = P0 then map (query_alpha bp idx) [0..<?h] else idx P2"
  let ?K = "\<lambda>p xs. if p = P0
    then pbind (lift_res (collect (map (\<lambda>(i, alpha). steward_gen m bp i alpha) (enumerate 0 xs)))) (\<lambda>keylist.
      pbind (proc_map (send_key_pair m bp) keylist) (\<lambda>_. ?L P0))
    else pbind (proc_map (\<lambda>_. recv_key_from m bp (if p = P1 then Prev else Next)) [0..<?h]) (\<lambda>keylist.
      pbind (lift_res (eval_keys m bp p (V p) 0 (zip keylist xs) (St1 p))) (\<lambda>st. look_up m bp (V p) (W p) st (A1 p)))"
  have P: "(\<lambda>p. agent_query m bp p (V p) (W p) (idx p) (St p) (A p)) =
      (\<lambda>p. pbind (proc_map (if p = P0 then steward_alpha ?l else peer_bias ?l p) (idx p)) (?K p))"
    by (rule ext) (simp add: agent_query_def steward_query_def peer_query_def c(1) St1_def)
  have 1: "runs ring_peer cap (\<lambda>p. agent_query m bp p (V p) (W p) (idx p) (St p) (A p)) (\<lambda>p. ?K p (?B p))"
    unfolding P by (rule runs_bind [OF positions_runs [OF cap bp idx]])
  have "length [0..<?h] = length ss" using ss(2) by simp
  from keys_reach [OF cap ss(4) this, of "\<lambda>p. ?K p (?B p)" "?L P0"
      "\<lambda>keylist. pbind (lift_res (eval_keys m bp P1 (V P1) 0 (zip keylist (idx P2)) (St1 P1))) (\<lambda>st. look_up m bp (V P1) (W P1) st (A1 P1))"
      "\<lambda>keylist. pbind (lift_res (eval_keys m bp P2 (V P2) 0 (zip keylist (idx P2)) (St1 P2))) (\<lambda>st. look_up m bp (V P2) (W P2) st (A1 P2))"]
  have "reaches ring_peer cap (quiet (\<lambda>p. ?K p (?B p))) (quiet ((\<lambda>p. ?K p (?B p))(P0 := ?L P0, P1 := ?L P1, P2 := ?L P2)))"
    by (simp add: ss(1) e1(1) e2(1) quiet_state)
  moreover have "(\<lambda>p. ?K p (?B p))(P0 := ?L P0, P1 := ?L P1, P2 := ?L P2) = ?L" by (auto simp: fun_eq_iff all_pid)
  ultimately have 2: "runs ring_peer cap (\<lambda>p. ?K p (?B p)) ?L" by (simp only: runs_def)
  have "?St2 p r = St p r" if "r \<noteq> thisShare (V p)" "r \<noteq> nxtShare (V p)" for p r
    using that e1(7) e2(7) by (cases p) (simp_all add: St1_def)
  then have W2: "rep3_vec ?r ?St2 W root"
    using root(1) V(2) by (simp add: rep3_vec_def vsharing_def vec_at_def apart_def) metis
  have at2: "vec_at ?r (?St2 p) (thisShare (V p)) (?y p)" "length (?y p) = ?n" "vec_at ?r (?St2 p) (nxtShare (V p)) (?w p)" for p
    using St1 e1(2-5) e2(2-5) by (cases p; simp)+
  have xs: "length ?xs = ?n" by simp
  obtain S St' A' where S: "ends_with cap ?L (\<lambda>p. (S p, St' p, A' p))" "synced (hash_fn m) A'"
    "rep3 ?r S (take_bit ?r (\<Sum>i<?n. ?xs ! i * root ! i))" "rep3_vec ?r St' W root" "\<forall>p. fitted ?r (V p) ?n (St' p)"
    using lookup_runs [where St = ?St2 and y = ?y and z = ?w, OF cap bp m(4) c(2) V at2 sum xs W2 root(2)] by blast
  have "(\<Sum>i<?n. ?xs ! i * root ! i) = (\<Sum>i<?n. \<Sum>k<?h. if i = query_pos bp idx k then root ! i else 0)"
    by (rule sum.cong) (auto simp: sum_distrib_right intro!: sum.cong)
  also have "\<dots> = (\<Sum>k<?h. \<Sum>i<?n. if i = query_pos bp idx k then root ! i else 0)" by (rule sum.swap)
  also have "\<dots> = (\<Sum>k<?h. root ! query_pos bp idx k)"
    using idx by (intro sum.cong) (auto simp: idx_ok_def sum.delta)
  finally show ?thesis using runs_trans [OF runs_trans [OF 1 2] S(1)] S(2-5) by (intro exI [of _ S] exI [of _ St'] exI [of _ A']) simp
qed

section \<open>Properties\<close>

text \<open>C5: a query at the three agents: under every schedule they end with a replicated sharing of the sum of the
  elements of the root at the positions whose summands they started from; the root is unchanged and the buffers and
  generators are ready for the next query.\<close>

theorem private_lookup:
  assumes "0 < cap" "synced (hash_fn m) A" "bf_ok bp"
    and "keys_ok m bp idx" "outcomes_ok m bp" "dpf_cores m \<in> List.set CORES" "\<forall>k. vec_heap m k \<noteq> None"
    and "idx_ok bp idx" "\<And>p. thisShare (V p) \<noteq> nxtShare (V p)" "\<And>p. apart (V p) (W p)"
    and "\<And>p. fitted (ell_root bp) (V p) (bf_size bp) (St p)"
    and "rep3_vec (ell_root bp) St W root" "length root = bf_size bp"
  shows "\<exists>S St' A'. completes ring_peer cap (\<lambda>p. agent_query m bp p (V p) (W p) (idx p) (St p) (A p)) (\<lambda>p. (S p, St' p, A' p)) \<and>
    synced (hash_fn m) A' \<and> rep3 (ell_root bp) S (take_bit (ell_root bp) (\<Sum>k<hf_num bp. root ! query_pos bp idx k)) \<and>
    rep3_vec (ell_root bp) St' W root \<and> (\<forall>p. fitted (ell_root bp) (V p) (bf_size bp) (St' p))"
proof -
  from query_runs [OF assms] obtain S St' A' where
    "ends_with cap (\<lambda>p. agent_query m bp p (V p) (W p) (idx p) (St p) (A p)) (\<lambda>p. (S p, St' p, A' p))"
    and r: "synced (hash_fn m) A'" "rep3 (ell_root bp) S (take_bit (ell_root bp) (\<Sum>k<hf_num bp. root ! query_pos bp idx k))"
      "rep3_vec (ell_root bp) St' W root" "\<forall>p. fitted (ell_root bp) (V p) (bf_size bp) (St' p)" by blast
  from ring3.runs_completes [OF this(1)] r show ?thesis by blast
qed

text \<open>C21: for a filter whose size is exactly \<open>2 ^ ell_add2\<close>, which \<open>bf_param\<close> may choose, the size is no ring element and every
  evaluation is refused.\<close>

theorem full_filter_rejects:
  assumes "1 \<le> ell_add2 bp" "ell_add2 bp \<le> 31" "bf_size bp = 2 ^ ell_add2 bp" "uint bias < 2 ^ ell_add2 bp"
  shows "eval_key m bp p V i (s, bias) st = Inl InvalidArgument"
proof -
  let ?l = "ell_add2 bp"
  have "(2 :: nat) ^ ?l \<le> 2 ^ 31" using assms(2) by (intro power_increasing) simp_all
  then have "unat (of_nat (2 ^ ?l) :: u64) = 2 ^ ?l" by (simp only: unat_of_nat) simp
  then have "2 ^ ?l \<le> uint (of_nat (bf_size bp) :: u64)" by (simp only: assms(3) uint_nat) simp
  then have "ring_add ?l a (of_nat (bf_size bp)) = Inl InvalidArgument" for a
    using assms(1,2) scalar_bits(1) [OF assms(1,2)] by (simp add: ring_add_def Let_def del: push_bit_of_1)
  then show ?thesis using ring_ops_ok(2) [OF assms(1,2), of 0 bias] assms(4) by (simp add: eval_key_def)
qed

section \<open>Instances\<close>

text \<open>One thread writes in order.\<close>

fun put_all :: "('v \<Rightarrow> nat \<Rightarrow> 'e \<Rightarrow> 'v res) \<Rightarrow> (nat \<times> 'e) list \<Rightarrow> 'v \<Rightarrow> 'v res" where
  "put_all put [] v = Inr v"
| "put_all put ((k, x) # w) v = rbind (put v k x) (put_all put w)"

lemma put_all_thread:
  "\<exists>v' e. (par_step put)\<^sup>*\<^sup>* (v, None, [w]) (v', e, [[]]) \<and> put_all put w v = (case e of None \<Rightarrow> Inr v' | Some err \<Rightarrow> Inl err)"
proof (induction w arbitrary: v)
  case Nil
  then show ?case by (intro exI [of _ v] exI [of _ None]) simp
next
  case (Cons kx w)
  obtain k x where kx: "kx = (k, x)" by (cases kx)
  show ?case
  proof (cases "put v k x")
    case (Inl err)
    have "par_step put (v, None, [kx # w]) (v, Some err, [[]])"
      using step_throw [of 0 "[kx # w]" k x w put v err None] Inl by (simp add: kx)
    then show ?thesis using Inl by (intro exI [of _ v] exI [of _ "Some err"]) (simp add: kx r_into_rtranclp)
  next
    case (Inr v1)
    have "par_step put (v, None, [kx # w]) (v1, None, [w])"
      using step_write [of 0 "[kx # w]" k x w put v v1 None] Inr by (simp add: kx)
    moreover obtain v' e where "(par_step put)\<^sup>*\<^sup>* (v1, None, [w]) (v', e, [[]])" "put_all put w v1 = (case e of None \<Rightarrow> Inr v' | Some err \<Rightarrow> Inl err)"
      using Cons.IH by blast
    ultimately show ?thesis using Inr by (intro exI [of _ v'] exI [of _ e]) (simp add: kx converse_rtranclp_into_rtranclp)
  qed
qed

lemma put_all_joined: "length ws \<le> 1 \<Longrightarrow> joined put v ws (put_all put (concat ws) v)"
proof (cases ws)
  case Nil
  then show ?thesis by (force simp: joined_def)
next
  case (Cons w ws')
  assume "length ws \<le> 1"
  then have ws: "ws = [w]" using Cons by simp
  then show ?thesis using put_all_thread [of put v w] unfolding joined_def ws by fastforce
qed

definition in_order :: "(byte list \<Rightarrow> json res) \<Rightarrow> ccrh \<Rightarrow> nat \<Rightarrow> nat \<Rightarrow> byte list \<Rightarrow> dpf_pid \<Rightarrow> nat \<Rightarrow> byte list \<Rightarrow> pyobj \<Rightarrow> nat \<Rightarrow> nat \<Rightarrow> rvec res" where
  "in_order parse ccrh ell_in ell_out fr pid i key_json buf bg ed =
     rbind (eval_args parse ell_in ell_out fr key_json buf) (\<lambda>(key, v).
     if bg \<ge> 2 ^ ell_in \<or> ed \<ge> 2 ^ ell_in \<or> rv_size v \<noteq> rangeLen (2 ^ ell_in) bg ed then Inl InvalidArgument
     else rbind (eval_threads ccrh ell_in ell_out pid 1 (range_search ell_in bg ed) key) (\<lambda>ws. put_all (rv_set ell_out) (concat ws) v))"

lemma in_order_outcome:
  "py_eval_range parse ccrh ell_in ell_out pid fr key_json buf bg ed 1 (in_order parse ccrh ell_in ell_out fr pid i key_json buf bg ed)"
proof (cases "eval_args parse ell_in ell_out fr key_json buf")
  case (Inr x)
  obtain key v where x: "x = (key, v)" by (cases x)
  have "length (task_ranges (2 ^ splitCoff ell_in 1) 1) \<le> 1" by (simp add: task_ranges_def Let_def order_trans [OF length_takeWhile_le])
  then have "length ws \<le> 1" if "eval_threads ccrh ell_in ell_out pid 1 (range_search ell_in bg ed) key = Inr ws" for ws
    using that collect_length by (fastforce simp: eval_threads_def Let_def rbind_eq_Inr)
  then show ?thesis using Inr put_all_joined [of _ "rv_set ell_out" v]
    by (auto simp: x py_eval_range_def do_range_eval_def rangeEval_def in_order_def CORES_def threads_def split: sum.split)
qed (simp add: py_eval_range_def in_order_def)

text \<open>One position: \<open>1 + 3 + 1\<close> modulo 4 in a root of two elements.\<close>

definition bp2 :: bf_params where
  "bp2 = \<lparr>bf_size = 2, ell_add2 = 2, hf_num = 1, ell_root = 8\<rparr>"

definition idx2 :: "pid \<Rightarrow> u64 list" where
  "idx2 p = (if p = P1 then [3] else [1])"

lemma idx2_ok: "bf_ok bp2" "idx_ok bp2 idx2" "query_pos bp2 idx2 0 = 1" "query_alpha bp2 idx2 0 = 0"
proof -
  show q: "query_pos bp2 idx2 0 = 1" by (simp add: query_pos_def bp2_def idx2_def)
  show "query_alpha bp2 idx2 0 = 0" by (simp add: query_alpha_def bp2_def idx2_def)
  show "bf_ok bp2" by (simp add: bf_ok_def bp2_def)
  show "idx_ok bp2 idx2" using q by (simp add: idx_ok_def bp2_def idx2_def)
qed

lemma platform_at:
  assumes "2 \<le> r" "r \<le> 8"
  defines "bp \<equiv> bp2\<lparr>ell_root := r\<rparr>"
  shows "\<exists>m. keys_ok m bp idx \<and> outcomes_ok m bp \<and> dpf_cores m \<in> List.set CORES \<and> (\<forall>k. vec_heap m k \<noteq> None) \<and> synced (hash_fn m) fresh"
proof -
  have "unat (ucast (query_alpha bp idx 0) :: u32) < 2 ^ 2" using alpha_u32(3) [of bp idx 0] assms(1,2) by (simp add: bp_def bp2_def bf_ok_def)
  from gen_ok [OF _ _ this] obtain k0 k1 where
    g: "gen (XOR) 2 r 0 5 6 (replicate 16 1) (replicate 16 2) (ucast (query_alpha bp idx 0)) 1 = Inr (k0, k1)" using assms(1,2) by fastforce
  let ?dump = "\<lambda>j. if Inr j = to_json 2 k0 then [1] else [2 :: byte]"
  let ?parse = "\<lambda>s. if s = [1] then to_json 2 k0 else to_json 2 k1"
  define m where "m = \<lparr>json_dump = ?dump, json_parse = ?parse, str_alloc = \<lambda>_. True, key_fresh = replicate 16 0, hash_fn = (XOR),
    vec_heap = \<lambda>_. Some (\<lambda>_. 0), sodium = 0, dpf_cores = 1, key_rnd = \<lambda>_. (5, 6, replicate 16 1, replicate 16 2),
    eval_outcome = in_order ?parse (XOR) 2 r (replicate 16 0)\<rparr>"
  have "text_ok ?dump ?parse (\<lambda>_. True) 2 k0" "text_ok ?dump ?parse (\<lambda>_. True) 2 k1" by (auto simp: text_ok_def)
  then have "keys_ok m bp idx" using g by (simp add: keys_ok_def m_def bp_def bp2_def)
  moreover have "outcomes_ok m bp" using in_order_outcome by (simp add: outcomes_ok_def m_def bp_def bp2_def)
  ultimately show ?thesis using fresh_synced by (intro exI [of _ m]) (simp add: m_def CORES_def)
qed

lemma platform2:
  "\<exists>m. keys_ok m bp2 idx \<and> outcomes_ok m bp2 \<and> dpf_cores m \<in> List.set CORES \<and> (\<forall>k. vec_heap m k \<noteq> None) \<and> synced (hash_fn m) fresh"
  using platform_at [of 8 idx] by (simp add: bp2_def)

lemma fitted2: "st 2 = cells p 2 \<Longrightarrow> st 3 = cells p 3 \<Longrightarrow> fitted (ell_root bp2) v23 (bf_size bp2) st"
  by (simp add: fitted_def bp2_def bytes_vec)

theorem private_lookup_witness:
  "\<exists>m S St' A'. completes ring_peer 1 (\<lambda>p. agent_query m bp2 p v23 v01 (idx2 p) (cells p) (fresh p)) (\<lambda>p. (S p, St' p, A' p)) \<and>
    rep3 8 S 12"
proof -
  obtain m where m: "keys_ok m bp2 idx2" "outcomes_ok m bp2" "dpf_cores m \<in> List.set CORES" "\<forall>k. vec_heap m k \<noteq> None"
    "synced (hash_fn m) fresh" using platform2 by blast
  have fit: "fitted (ell_root bp2) v23 (bf_size bp2) (cells p)" for p
    by (rule fitted2) (rule refl)+
  have root: "rep3_vec (ell_root bp2) cells (\<lambda>_. v01) [254, 12]" using cells_sharing by (simp add: bp2_def)
  from private_lookup [OF _ m(5) idx2_ok(1) m(1-4) idx2_ok(2) _ _ fit root, of 1]
  obtain S St' A' where "completes ring_peer 1 (\<lambda>p. agent_query m bp2 p v23 v01 (idx2 p) (cells p) (fresh p)) (\<lambda>p. (S p, St' p, A' p))"
    "rep3 (ell_root bp2) S (take_bit (ell_root bp2) (\<Sum>k<hf_num bp2. [254, 12] ! query_pos bp2 idx2 k))"
    by (auto simp: apart_def bp2_def)
  then show ?thesis using idx2_ok(3) by (intro exI conjI) (assumption, simp add: bp2_def)
qed

theorem full_filter_rejects_witness:
  "\<forall>m. eval_key m \<lparr>bf_size = 8192, ell_add2 = 13, hf_num = 6, ell_root = 3\<rparr> P1 v23 0 ([], 5) (cells P1) = Inl InvalidArgument"
  by (intro allI full_filter_rejects) simp_all

end
