(* ===== verification/Query.thy ===== *)
theory Query
  imports Bloom Query_Agents Emp2_Bind
begin

text \<open>
  A query from end to end (\<^verbatim>\<open>src/mpmt/querier.py\<close> with \<open>response_query\<close> of \<^verbatim>\<open>agent_server.py\<close>):
  the querier and the steward hash the shared element under shared keys, the querier splits its share of
  every position between the two peers, the agents look the positions up, and the querier learns whether all of them are set.
  What two parties do in a circuit is one function of both inputs; the messages between the querier and one agent
  appear as their results.
\<close>

section \<open>Positions\<close>

text \<open>Random values: the mask of the element, and for the \<open>k\<close>-th key the mask of the key, those of the two circuits and the
  one by which the querier splits its share.\<close>

record query_rnd =
  element_mine :: "byte list"
  key_mine :: "nat \<Rightarrow> byte list"
  hash_rnd :: "nat \<Rightarrow> u32 both"
  mod_rnd :: "nat \<Rightarrow> u32 both"
  split_rnd :: "nat \<Rightarrow> u32"

text \<open>One turn of the loop over the keys: \<open>Alice\<close> is the querier, \<open>Bob\<close> the steward. \<open>share_scalar\<close> leaves the querier
  with a mask, which it sends to the second peer, and the first peer with the difference.\<close>

definition position_shares :: "('w, 'u) sh2pc \<Rightarrow> bf_params \<Rightarrow> nat both \<Rightarrow> query_rnd \<Rightarrow> byte list both \<Rightarrow> nat \<Rightarrow> byte list \<Rightarrow>
    (pid \<Rightarrow> u64) res" where
  "position_shares S bp junk rnd element_share k key =
     (let key_share = xor_parts Bob (key_mine rnd k) key in
      rbind (add2_hash S (ell_add2 bp) junk (\<lambda>p. PyBytes (element_share p)) key_share (hash_rnd rnd k)) (\<lambda>h_share.
      rbind (emp2_mod S (ell_add2 bp) h_share (of_nat (bf_size bp)) (mod_rnd rnd k)) (\<lambda>idx_share.
      let r = rand_mask (ell_add2 bp) (split_rnd rnd k)
      in Inr (\<lambda>p. case p of P0 \<Rightarrow> ucast (idx_share Bob)
        | P1 \<Rightarrow> ucast (ringSub32 (ell_add2 bp) (idx_share Alice) r) | P2 \<Rightarrow> ucast r))))"

definition query_positions :: "('w, 'u) sh2pc \<Rightarrow> bf_params \<Rightarrow> nat both \<Rightarrow> query_rnd \<Rightarrow> byte list list \<Rightarrow> byte list \<Rightarrow>
    (pid \<Rightarrow> u64 list) res" where
  "query_positions S bp junk rnd hash_seed_list element =
     (let element_share = xor_parts Alice (element_mine rnd) element in
      rbind (collect (map (\<lambda>(k, key). position_shares S bp junk rnd element_share k key) (enumerate 0 hash_seed_list))) (\<lambda>rows.
      Inr (\<lambda>p. map (\<lambda>row. row p) rows)))"

section \<open>The answer\<close>

text \<open>The second peer sends its share of the inner product to the querier, the steward adds its two; they test for equality with the
  number of hash functions, and the querier adds the shares of the outcome.\<close>

definition query_answer :: "('w, 'u) sh2pc \<Rightarrow> bf_params \<Rightarrow> (pid \<Rightarrow> ShrRep3ShareScalar) \<Rightarrow> u32 both \<Rightarrow> u64 res" where
  "query_answer S bp dr rand =
     rbind (ring_add (ell_root bp) (ucast (thisShare (dr P0))) (ucast (nxtShare (dr P0)))) (\<lambda>dr_share.
     let qr_share = equalityTest S (ell_root bp) (\<lambda>p. if p = Alice then thisShare (dr P2) else ucast dr_share)
           (\<lambda>p. if p = Alice then 0 else of_nat (hf_num bp)) rand
     in ring_add (ell_root bp) (ucast (qr_share Bob)) (ucast (qr_share Alice)))"

section \<open>What the positions are\<close>

lemma ucast_up: "uint (ucast x :: u64) = uint x" "unat (ucast x :: u64) = unat x" for x :: u32
proof -
  show u: "uint (ucast x :: u64) = uint x" by (rule uint_up_ucast) (simp add: is_up)
  show "unat (ucast x :: u64) = unat x" using u by (simp only: unat_eq_nat_uint)
qed

lemma ucast_ring:
  fixes x y :: u32
  assumes "ell \<le> 32"
  shows "take_bit ell (ucast x + ucast y :: u64) = ucast (take_bit ell (x + y))" "uint (ucast (take_bit ell x) :: u64) < 2 ^ ell"
proof -
  show "uint (ucast (take_bit ell x) :: u64) < 2 ^ ell" by (simp only: ucast_up uint_take_bit_mod) simp
  show "take_bit ell (ucast x + ucast y :: u64) = ucast (take_bit ell (x + y))"
    using assms by (intro word_uint_eqI) (simp add: ucast_up trunc64_ops uint_take_bit_ops)
qed

text \<open>The index of the Bloom filter, as a number.\<close>

definition bloom_pos :: "(block \<Rightarrow> block \<Rightarrow> block) \<Rightarrow> bf_params \<Rightarrow> byte list \<Rightarrow> byte list \<Rightarrow> nat" where
  "bloom_pos prp bp element key = unat (projr (bloom_index prp (ell_add2 bp) (bf_size bp) element key))"

lemma ring_mod_u32:
  fixes h :: u32
  assumes ell: "1 \<le> ell" "ell \<le> 31" and h: "take_bit ell h = h" and n: "0 < n" "n < 2 ^ ell"
  shows "ring_mod ell (ucast h) (of_nat n) = Inr (ucast (h mod of_nat n))" "unat (h mod (of_nat n :: u32)) < n"
    "(of_nat n :: u32) \<noteq> 0" "uint (of_nat n :: u32) < 2 ^ ell"
proof -
  have "(2 :: nat) ^ ell \<le> 2 ^ 31" using ell(2) by (intro power_increasing) simp_all
  then have u: "unat (of_nat n :: u64) = n" "unat (of_nat n :: u32) = n" using n(2) by (simp_all add: unat_of_nat)
  then show n0: "(of_nat n :: u32) \<noteq> 0" using n(1) by auto
  have n64: "(of_nat n :: u64) \<noteq> 0" using u(1) n(1) by auto
  show "uint (of_nat n :: u32) < 2 ^ ell" using n(2) u(2) by (simp only: uint_nat) simp
  show "unat (h mod (of_nat n :: u32)) < n" using n(1) u(2) by (simp add: unat_mod)
  have r: "uint (ucast h :: u64) < 2 ^ ell" using ucast_ring(2) [of ell h] ell(2) unfolding h by simp
  have rn: "uint (of_nat n :: u64) < 2 ^ ell" using n(2) u(1) by (simp only: uint_nat) simp
  have "ring_mod ell (ucast h) (of_nat n) = Inr (ucast h mod of_nat n)"
    using ell r rn n64 scalar_bits(1) [OF ell] by (simp add: ring_mod_def Let_def del: push_bit_of_1)
  moreover have "(ucast h mod of_nat n :: u64) = ucast (h mod of_nat n)"
    by (rule word_uint_eqI) (simp only: uint_nat unat_mod u ucast_up(2))
  ultimately show "ring_mod ell (ucast h) (of_nat n) = Inr (ucast (h mod of_nat n))" by simp
qed

lemma position_ok:
  assumes S: "sh2pc_ok S (ell_add2 bp) prp bv uv" and bp: "bf_ok bp"
    and e: "length (element_mine rnd) = length element" "0 < length element" "length element < 2 ^ 60"
    and key: "length (key_mine rnd k) = 16" "length key = 16"
  shows "\<exists>row. position_shares S bp junk rnd (xor_parts Alice (element_mine rnd) element) k key = Inr row \<and>
    (\<forall>p. uint (row p) < 2 ^ ell_add2 bp) \<and>
    unat (take_bit (ell_add2 bp) (row P0 + row P1 + row P2)) = bloom_pos prp bp element key \<and> bloom_pos prp bp element key < bf_size bp"
proof -
  let ?l = "ell_add2 bp" and ?n = "bf_size bp" and ?ps = "xor_parts Alice (element_mine rnd) element" and ?ks = "xor_parts Bob (key_mine rnd k) key"
  have l: "1 \<le> ?l" "?l \<le> 31" and n: "0 < ?n" "?n < 2 ^ ?l" using bp by (simp_all add: bf_ok_def)
  note ps = xor_parts_sum [OF e(1), of Alice]
  have km: "length (key_mine rnd k) = length key" using key by simp
  note ks = xor_parts_sum [OF km, of Bob]
  have k16: "length (?ks p) = 16" for p using ks(2) key(2) by simp
  obtain h where h: "add2_hash S ?l junk (\<lambda>p. PyBytes (?ps p)) ?ks (hash_rnd rnd k) = Inr h"
    "hash_aes_dm prp 0 0 (PyBytes element) (PyBytes key) ?l = Inr (ringAdd32 ?l (h Alice) (h Bob))"
    using add2_hash_value [where ps = ?ps and ks = ?ks and jj = junk and rand = "hash_rnd rnd k" and j = 0 and j' = 0,
        OF S l ps(2) ps(2) e(2,3) k16] unfolding ps(1) ks(1) by blast
  let ?H = "take_bit ?l (h Alice + h Bob)" and ?N = "of_nat ?n :: u32"
  have H: "ringAdd32 ?l (h Alice) (h Bob) = ?H" "take_bit ?l ?H = ?H" using l by (simp_all add: ringAdd32_eq)
  note m = ring_mod_u32 [OF l H(2) n]
  obtain i where i: "emp2_mod S ?l h ?N (mod_rnd rnd k) = Inr i" "ringAdd32 ?l (i Alice) (i Bob) = ?H mod ?N"
    using emp2_mod_value [OF S l, of ?N h "mod_rnd rnd k"] m(3,4) by (auto simp: not_le)
  have ir: "take_bit ?l (i p) = i p" for p
    using i(1) by (auto simp: emp2_mod_def Let_def split_def reshare_out_range split: if_splits)
  let ?r = "rand_mask ?l (split_rnd rnd k)"
  let ?row = "case_pid (ucast (i Bob)) (ucast (ringSub32 ?l (i Alice) ?r)) (ucast ?r) :: pid \<Rightarrow> u64"
  have rr: "take_bit ?l ?r = ?r" by (simp add: rand_mask_def RING_MASK32_eq take_bit_eq_mask and.assoc)
  have bloom: "bloom_index prp ?l ?n element key = Inr (ucast (?H mod ?N))" using h(2) m(1) H(1) by (simp add: bloom_index_def)
  have pos: "bloom_pos prp bp element key = unat (?H mod ?N)" by (simp add: bloom_pos_def bloom ucast_up)
  have "take_bit ?l (?row P0 + ?row P1 + ?row P2) = take_bit ?l (take_bit ?l (?row P0 + ?row P1) + ?row P2)"
    using l(2) by (simp add: trunc64_absorb)
  also have "\<dots> = ucast (take_bit ?l (take_bit ?l (i Bob + ringSub32 ?l (i Alice) ?r) + ?r))"
    using l(2) by (simp add: ucast_ring)
  also have "take_bit ?l (take_bit ?l (i Bob + ringSub32 ?l (i Alice) ?r) + ?r) = take_bit ?l (i Alice + i Bob)"
  proof -
    have "?l \<le> LENGTH(32)" using l(2) by simp
    note o = uint_take_bit_ops [OF this]
    have "ringSub32 ?l (i Alice) ?r = take_bit ?l (i Alice - ?r)" using l(2) by (simp add: ringSub32_eq)
    then show ?thesis by (rule_tac word_uint_eqI) (simp only: o mod_simps, simp add: algebra_simps)
  qed
  finally have sum: "take_bit ?l (?row P0 + ?row P1 + ?row P2) = ucast (?H mod ?N)" using i(2) l by (simp add: ringAdd32_eq)
  have "uint (?row p) < 2 ^ ?l" for p
    using ucast_ring(2) [of ?l "i Bob"] ucast_ring(2) [of ?l ?r] ucast_ring(2) [of ?l "i Alice - ?r"] l(2) ir rr
    by (cases p) (simp_all add: ringSub32_eq)
  then show ?thesis
    using h(1) i(1) m(2) sum pos ucast_up(2) [of "?H mod ?N"]
    by (intro exI [of _ ?row]) (simp add: position_shares_def Let_def)
qed

lemma positions_ok:
  assumes S: "sh2pc_ok S (ell_add2 bp) prp bv uv" and bp: "bf_ok bp" "hf_num bp = length seeds"
    and e: "length (element_mine rnd) = length element" "0 < length element" "length element < 2 ^ 60"
    and key: "\<And>k. k < hf_num bp \<Longrightarrow> length (key_mine rnd k) = 16" "\<And>key. key \<in> set seeds \<Longrightarrow> length key = 16"
  shows "\<exists>idx. query_positions S bp junk rnd seeds element = Inr idx \<and> idx_ok bp idx \<and>
    (\<forall>k < hf_num bp. query_pos bp idx k = bloom_pos prp bp element (seeds ! k))"
proof -
  let ?f = "\<lambda>k. position_shares S bp junk rnd (xor_parts Alice (element_mine rnd) element) k (seeds ! k)"
  have "\<forall>k \<in> {..<hf_num bp}. \<exists>row. ?f k = Inr row \<and> (\<forall>p. uint (row p) < 2 ^ ell_add2 bp) \<and>
      unat (take_bit (ell_add2 bp) (row P0 + row P1 + row P2)) = bloom_pos prp bp element (seeds ! k) \<and>
      bloom_pos prp bp element (seeds ! k) < bf_size bp"
  proof
    fix k assume "k \<in> {..<hf_num bp}"
    then have "length (key_mine rnd k) = 16" "length (seeds ! k) = 16" using key bp(2) by simp_all
    from position_ok [OF S bp(1) e this] show "\<exists>row. ?f k = Inr row \<and> (\<forall>p. uint (row p) < 2 ^ ell_add2 bp) \<and>
      unat (take_bit (ell_add2 bp) (row P0 + row P1 + row P2)) = bloom_pos prp bp element (seeds ! k) \<and>
      bloom_pos prp bp element (seeds ! k) < bf_size bp" .
  qed
  from bchoice [OF this] obtain R where R: "\<And>k. k < hf_num bp \<Longrightarrow> ?f k = Inr (R k)"
    "\<And>k p. k < hf_num bp \<Longrightarrow> uint (R k p) < 2 ^ ell_add2 bp"
    "\<And>k. k < hf_num bp \<Longrightarrow> unat (take_bit (ell_add2 bp) (R k P0 + R k P1 + R k P2)) = bloom_pos prp bp element (seeds ! k)"
    "\<And>k. k < hf_num bp \<Longrightarrow> bloom_pos prp bp element (seeds ! k) < bf_size bp" by blast
  let ?idx = "\<lambda>p. map (\<lambda>k. R k p) [0..<hf_num bp]"
  have "map (\<lambda>(k, key). position_shares S bp junk rnd (xor_parts Alice (element_mine rnd) element) k key) (enumerate 0 seeds) = map ?f [0..<hf_num bp]"
    using bp(2) by (intro nth_equalityI) (simp_all add: nth_enumerate_eq)
  moreover have "collect (map ?f [0..<hf_num bp]) = Inr (map R [0..<hf_num bp])" by (rule collect_ok) (use R(1) in simp)
  ultimately have "query_positions S bp junk rnd seeds element = Inr ?idx" by (simp add: query_positions_def o_def)
  moreover have q: "query_pos bp ?idx k = bloom_pos prp bp element (seeds ! k)" if "k < hf_num bp" for k
    using R(3) [OF that] that by (simp add: query_pos_def)
  moreover have "idx_ok bp ?idx" using R(2,4) q by (auto simp: idx_ok_def)
  ultimately show ?thesis by blast
qed

section \<open>What the answer is\<close>

lemma answer_ok:
  assumes S: "sh2pc_ok S (ell_root bp) prp bv uv" and bp: "bf_ok bp" "hf_num bp < 2 ^ ell_root bp" and dr: "rep3 (ell_root bp) dr x"
  shows "query_answer S bp dr rand = Inr (if unat x = hf_num bp then 1 else 0)"
proof -
  let ?r = "ell_root bp"
  have r: "1 \<le> ?r" "?r \<le> 31" "?r \<le> 8" using bp(1) by (simp_all add: bf_ok_def)
  obtain z where z: "dr = sharing z" "\<And>p. take_bit ?r (z p) = z p" "take_bit ?r (sum3 z) = x" using rep3E [OF dr] by blast
  have zu: "uint (ucast (z p) :: u32) = uint (z p)" for p by (rule uint_up_ucast) (simp add: is_up)
  have zr: "uint (z p) < 2 ^ ?r" for p using uint_take_bit_mod [of ?r "z p"] by (simp only: z(2)) (metis pos_mod_bound zero_less_numeral zero_less_power)
  let ?D = "take_bit ?r (ucast (ucast (z P0) :: u32) + ucast (ucast (z P1) :: u32)) :: u64"
  have D: "ring_add ?r (ucast (ucast (z P0) :: u32)) (ucast (ucast (z P1) :: u32)) = Inr ?D"
    using zr by (intro ring_ops_ok r) (simp_all only: ucast_up zu)
  have uD: "uint ?D = (uint (z P0) + uint (z P1)) mod 2 ^ ?r" using r(2) by (simp add: trunc64_ops ucast_up zu)
  have "(2 :: int) ^ ?r \<le> 2 ^ 8" using r(3) by (intro power_increasing) simp_all
  moreover have "uint ?D < 2 ^ ?r" by (simp only: uD) simp
  ultimately have uD32: "uint (ucast ?D :: u32) = uint ?D"
    by (simp only: unsigned_ucast_eq) (rule take_bit_int_eq_self, simp_all)
  let ?X = "take_bit ?r (ucast (z P2) + ucast ?D) :: u32" and ?Y = "take_bit ?r (0 + of_nat (hf_num bp)) :: u32"
  have uX: "uint ?X = uint x"
  proof -
    have "uint ?X = (uint (z P2) + (uint (z P0) + uint (z P1)) mod 2 ^ ?r) mod 2 ^ ?r"
      using uint_take_bit_ops(1) [of ?r "ucast (z P2) :: u32" "ucast ?D"] r(2) by (simp only: zu uD32 uD) simp
    also have "\<dots> = (uint (z P0) + uint (z P1) + uint (z P2)) mod 2 ^ ?r" by (simp add: mod_simps algebra_simps)
    also have "\<dots> = uint x"
      using uint_take_bit_ops(1) [of ?r "z P0 + z P1" "z P2"] uint_take_bit_ops(1) [of ?r "z P0" "z P1"] r(3)
      unfolding z(3) [symmetric] sum3_def by (simp add: uint_take_bit_mod) (metis mod_add_left_eq)
    finally show ?thesis .
  qed
  have "unat (of_nat (hf_num bp) :: u32) = hf_num bp"
  proof -
    have "(2 :: nat) ^ ?r \<le> 2 ^ 8" using r(3) by (intro power_increasing) simp_all
    then show ?thesis using bp(2) by (simp add: unat_of_nat)
  qed
  then have "uint (of_nat (hf_num bp) :: u32) = int (hf_num bp)" by (simp only: uint_nat)
  then have uY: "uint ?Y = int (hf_num bp)" using bp(2) by (simp only: uint_take_bit_mod add_0) simp
  have eq: "?X = ?Y \<longleftrightarrow> unat x = hf_num bp"
  proof -
    have "?X = ?Y \<longleftrightarrow> uint x = int (hf_num bp)" by (simp only: word_uint_eq_iff uX uY)
    then show ?thesis by (simp only: uint_nat of_nat_eq_iff)
  qed
  let ?x = "\<lambda>p. if p = Alice then thisShare (dr P2) else ucast ?D" and ?y = "\<lambda>p. if p = Alice then 0 else of_nat (hf_num bp) :: u32"
  let ?q = "equalityTest S ?r ?x ?y rand"
  have q: "ringAdd32 ?r (?q Alice) (?q Bob) = (if unat x = hf_num bp then 1 else 0)"
    using equality_value [OF S r(1,2), of ?x ?y rand] eq by (simp add: z(1))
  have qr: "uint (ucast (?q p) :: u64) < 2 ^ ?r" for p
    using ucast_ring(2) [of ?r "?q p"] r(2) by (simp add: equalityTest_def Let_def split_def reshare_out_range)
  have "query_answer S bp dr rand = ring_add ?r (ucast (?q Bob)) (ucast (?q Alice))"
  proof -
    have "ring_add ?r (ucast (thisShare (dr P0))) (ucast (nxtShare (dr P0))) = Inr ?D" using D by (simp add: z(1))
    then show ?thesis by (simp add: query_answer_def Let_def)
  qed
  also have "\<dots> = Inr (take_bit ?r (ucast (?q Bob) + ucast (?q Alice)))"
    by (rule ring_ops_ok(1) [OF r(1,2) qr qr])
  also have "take_bit ?r (ucast (?q Bob) + ucast (?q Alice) :: u64) = ucast (ringAdd32 ?r (?q Alice) (?q Bob))"
    using r(2) by (simp add: ucast_ring ringAdd32_eq add.commute)
  also have "\<dots> = (if unat x = hf_num bp then 1 else 0)" by (simp add: q)
  finally show ?thesis .
qed

lemma count_ones:
  assumes r: "r \<le> 8" "h < 2 ^ r" and f: "\<And>k. k < h \<Longrightarrow> f k = (0 :: byte) \<or> f k = 1"
  shows "unat (take_bit r (\<Sum>k<h. f k)) = h \<longleftrightarrow> (\<forall>k<h. f k = 1)"
proof -
  define c where "c = card {k. k < h \<and> f k = 1}"
  have "(\<Sum>k<h. f k) = (\<Sum>k<h. if f k = 1 then 1 else 0)" using f by (intro sum.cong) auto
  also have "\<dots> = of_nat c" by (simp add: c_def sum.If_cases Int_def)
  finally have s: "(\<Sum>k<h. f k) = of_nat c" .
  have sub: "{k. k < h \<and> f k = 1} \<subseteq> {..<h}" by auto
  have ch: "c \<le> h" using card_mono [OF _ sub] by (simp add: c_def)
  have "(2 :: nat) ^ r \<le> 2 ^ 8" using r(1) by (intro power_increasing) simp_all
  then have "unat (of_nat c :: byte) = c" using ch r(2) by (simp add: unat_of_nat)
  then have "unat (take_bit r (of_nat c :: byte)) = c"
    using ch r(2) by (simp only: unsigned_take_bit_eq) (simp add: take_bit_nat_eq_self)
  moreover have "c = h \<longleftrightarrow> (\<forall>k<h. f k = 1)"
  proof
    assume "c = h"
    then show "\<forall>k<h. f k = 1" using card_subset_eq [OF _ sub] by (auto simp: c_def)
  next
    assume "\<forall>k<h. f k = 1"
    then have "{k. k < h \<and> f k = 1} = {..<h}" by auto
    then show "c = h" by (simp add: c_def)
  qed
  ultimately show ?thesis by (simp only: s)
qed

section \<open>Properties\<close>

lemma membership:
  assumes cap: "0 < cap" "synced (hash_fn m) A" "bf_ok bp" "keys_ok m bp idx" "outcomes_ok m bp" "dpf_cores m \<in> List.set CORES"
      "\<forall>k. vec_heap m k \<noteq> None"
    and V: "\<And>p. thisShare (V p) \<noteq> nxtShare (V p)" "\<And>p. apart (V p) (W p)" "\<And>p. fitted (ell_root bp) (V p) (bf_size bp) (St p)"
    and root: "rep3_vec (ell_root bp) St W root" "length root = bf_size bp" "\<forall>x \<in> set root. x = 0 \<or> x = 1"
    and S: "sh2pc_ok S (ell_add2 bp) prp bv uv" "sh2pc_ok S' (ell_root bp) prp' bv' uv'"
    and seeds: "hf_num bp = length seeds" "hf_num bp < 2 ^ ell_root bp" "\<And>key. key \<in> set seeds \<Longrightarrow> length key = 16"
    and e: "length (element_mine rnd) = length element" "0 < length element" "length element < 2 ^ 60"
      "\<And>k. k < hf_num bp \<Longrightarrow> length (key_mine rnd k) = 16"
    and idx: "query_positions S bp junk rnd seeds element = Inr idx"
  shows "\<exists>dr St' A'. completes ring_peer cap (\<lambda>p. agent_query m bp p (V p) (W p) (idx p) (St p) (A p)) (\<lambda>p. (dr p, St' p, A' p)) \<and>
    query_answer S' bp dr rand = Inr (if \<forall>key \<in> set seeds. root ! bloom_pos prp bp element key = 1 then 1 else 0)"
proof -
  have i: "idx_ok bp idx" "\<And>k. k < hf_num bp \<Longrightarrow> query_pos bp idx k = bloom_pos prp bp element (seeds ! k)"
    using positions_ok [OF S(1) cap(3) seeds(1) e(1-4) seeds(3), of junk] idx by auto
  from query_runs [OF cap(1-7) i(1) V root(1,2)] obtain dr St' A' where
    run: "ends_with cap (\<lambda>p. agent_query m bp p (V p) (W p) (idx p) (St p) (A p)) (\<lambda>p. (dr p, St' p, A' p))"
    and dr: "rep3 (ell_root bp) dr (take_bit (ell_root bp) (\<Sum>k<hf_num bp. root ! query_pos bp idx k))" by blast
  have r: "ell_root bp \<le> 8" using cap(3) by (simp add: bf_ok_def)
  have bit: "root ! query_pos bp idx k = 0 \<or> root ! query_pos bp idx k = 1" if "k < hf_num bp" for k
    using that i(1) root(2,3) by (simp add: idx_ok_def)
  have "(\<forall>k < hf_num bp. root ! query_pos bp idx k = 1) \<longleftrightarrow> (\<forall>key \<in> set seeds. root ! bloom_pos prp bp element key = 1)"
    using i(2) seeds(1) by (simp add: all_set_conv_all_nth)
  then have "query_answer S' bp dr rand = Inr (if \<forall>key \<in> set seeds. root ! bloom_pos prp bp element key = 1 then 1 else 0)"
    using answer_ok [OF S(2) cap(3) seeds(2) dr, of rand] count_ones [OF r seeds(2) bit] by simp
  with ring3.runs_completes [OF run] show ?thesis by blast
qed

text \<open>C3: a query for an element that is not empty gives 1 exactly if all positions that the keys give for the element are set in the filter at the root: the
  positions the querier and the steward share are those of the filter, every schedule of the agents ends, and the
  answer the querier computes from their shares is 1 or 0 accordingly.\<close>

theorem private_membership:
  assumes "0 < cap" "synced (hash_fn m) A" "bf_ok bp" "keys_ok m bp idx" "outcomes_ok m bp" "dpf_cores m \<in> List.set CORES"
      "\<forall>k. vec_heap m k \<noteq> None"
    and "\<And>p. thisShare (V p) \<noteq> nxtShare (V p)" "\<And>p. apart (V p) (W p)" "\<And>p. fitted (ell_root bp) (V p) (bf_size bp) (St p)"
    and "rep3_vec (ell_root bp) St W root" "length root = bf_size bp" "\<forall>x \<in> set root. x = 0 \<or> x = 1"
    and "sh2pc_ok S (ell_add2 bp) prp bv uv" "sh2pc_ok S' (ell_root bp) prp' bv' uv'"
    and "hf_num bp = length seeds" "hf_num bp < 2 ^ ell_root bp" "\<And>key. key \<in> set seeds \<Longrightarrow> length key = 16"
    and "length (element_mine rnd) = length element" "0 < length element" "length element < 2 ^ 60"
      "\<And>k. k < hf_num bp \<Longrightarrow> length (key_mine rnd k) = 16"
    and "query_positions S bp junk rnd seeds element = Inr idx"
  shows "\<exists>dr St' A'. completes ring_peer cap (\<lambda>p. agent_query m bp p (V p) (W p) (idx p) (St p) (A p)) (\<lambda>p. (dr p, St' p, A' p)) \<and>
    query_answer S' bp dr rand = Inr (if \<forall>key \<in> set seeds. root ! bloom_pos prp bp element key = 1 then 1 else 0)"
  by (rule membership [OF assms])

text \<open>C4: no member that is not the empty string is missed: if the root holds the filter \<open>gen_bf\<close> made of a set under
  the same keys, a query for an element of the set with at least one byte gives 1. (For the empty string the circuit
  hashes a block of zeros and \<open>gen_bf\<close> none, see \<open>emp2_hash_empty\<close>: the two give different positions.)\<close>

theorem members_found:
  assumes "0 < cap" "synced (hash_fn m) A" "bf_ok bp" "keys_ok m bp idx" "outcomes_ok m bp" "dpf_cores m \<in> List.set CORES"
      "\<forall>k. vec_heap m k \<noteq> None"
    and "\<And>p. thisShare (V p) \<noteq> nxtShare (V p)" "\<And>p. apart (V p) (W p)" "\<And>p. fitted (ell_root bp) (V p) (bf_size bp) (St p)"
    and bf: "gen_bf prp heap 1 members seeds (bf_size bp) (hf_num bp) (ell_add2 bp) = Inr bf" "\<forall>k. heap k \<noteq> None" "element \<in> set members"
      "rep3_vec (ell_root bp) St W (elems 1 bf)"
    and "sh2pc_ok S (ell_add2 bp) prp bv uv" "sh2pc_ok S' (ell_root bp) prp' bv' uv'"
    and seeds: "hf_num bp = length seeds" "seeds \<noteq> []" "hf_num bp < 2 ^ ell_root bp" "\<And>key. key \<in> set seeds \<Longrightarrow> length key = 16"
    and "length (element_mine rnd) = length element" "0 < length element" "length element < 2 ^ 60"
      "\<And>k. k < hf_num bp \<Longrightarrow> length (key_mine rnd k) = 16"
    and "query_positions S bp junk rnd seeds element = Inr idx"
  shows "\<exists>dr St' A'. completes ring_peer cap (\<lambda>p. agent_query m bp p (V p) (W p) (idx p) (St p) (A p)) (\<lambda>p. (dr p, St' p, A' p)) \<and>
    query_answer S' bp dr rand = Inr 1"
proof -
  let ?l = "ell_add2 bp" and ?n = "bf_size bp"
  have bp: "1 \<le> ?l" "?l \<le> 31" "0 < ?n" "?n < 2 ^ ?l" using assms(3) by (simp_all add: bf_ok_def)
  have k16: "\<forall>hs \<in> set seeds. length hs \<le> 16" using seeds(4) by simp
  have root: "length (elems 1 bf) = ?n" "elems 1 bf = map (\<lambda>j. if \<exists>e \<in> set members. \<exists>hs \<in> set seeds. bloom_index prp ?l ?n e hs = Inr (of_nat j)
      then 1 else 0) [0..<?n]"
    using gen_bf_ok [of 1 ?l ?n seeds heap prp members] bp k16 seeds(1,2) bf(1,2) by auto
  have bits: "\<forall>x \<in> set (elems 1 bf). x = 0 \<or> x = 1" unfolding root(2) by auto
  have "elems 1 bf ! bloom_pos prp bp element key = 1" if key: "key \<in> set seeds" for key
  proof -
    obtain i where i: "bloom_index prp ?l ?n element key = Inr i" "unat i < ?n"
      using bloom_index_ok [OF bp, of key prp element] k16 key by blast
    then have "\<exists>e \<in> set members. \<exists>hs \<in> set seeds. bloom_index prp ?l ?n e hs = Inr i" using bf(3) key by blast
    then show ?thesis using i(2) unfolding root(2) by (simp add: bloom_pos_def i(1))
  qed
  then show ?thesis
    using membership [OF assms(1-10) bf(4) root(1) bits assms(15,16) seeds(1,3,4) assms(21-25), of rand] by simp
qed

section \<open>Instances\<close>

text \<open>A store with a root of two elements, which \<open>P0\<close> holds as a whole.\<close>

definition root_cells :: "byte list \<Rightarrow> pid \<Rightarrow> store" where
  "root_cells xs p = (cells p)(0 := bytes_vec (if p = P0 then xs else [0, 0]), 1 := bytes_vec (if p = P2 then xs else [0, 0]))"

lemma root_cells:
  assumes "length xs = 2"
  shows "rep3_vec (ell_root bp2) (root_cells xs) (\<lambda>_. v01) xs" "fitted (ell_root bp2) v23 (bf_size bp2) (root_cells xs p)"
proof -
  let ?z = "\<lambda>p. if p = P0 then xs else [0, 0]"
  have "vsharing 8 (root_cells xs) (\<lambda>_. v01) ?z"
    using assms by (auto simp: vsharing_def vec_at_def root_cells_def bytes_vec all_pid)
  moreover have "sums_to 8 ?z xs" using assms by (auto simp: sums_to_def less_Suc_eq numeral_2_eq_2)
  ultimately show "rep3_vec (ell_root bp2) (root_cells xs) (\<lambda>_. v01) xs" by (auto simp: rep3_vec_def bp2_def)
  show "fitted (ell_root bp2) v23 (bf_size bp2) (root_cells xs p)"
    by (rule fitted2) (simp_all add: root_cells_def)
qed

definition rnd2 :: query_rnd where
  "rnd2 = \<lparr>element_mine = [9], key_mine = \<lambda>_. replicate 16 8, hash_rnd = \<lambda>_ _. 1, mod_rnd = \<lambda>_ _. 2, split_rnd = \<lambda>_. 3\<rparr>"

lemma clear2: "sh2pc_ok (clear 2 (XOR)) (ell_add2 bp2) (XOR) (\<lambda>w. w) (\<lambda>x. x)" "sh2pc_ok (clear 8 (XOR)) (ell_root bp2) (XOR) (\<lambda>w. w) (\<lambda>x. x)"
  using clear_ok by (simp_all add: bp2_def)

lemma idx_of: "\<exists>idx. query_positions (clear 2 (XOR)) bp2 (\<lambda>_. 0) rnd2 [replicate 16 5] [7] = Inr idx"
proof -
  have "hf_num bp2 = length [replicate 16 (5 :: byte)]" "length (element_mine rnd2) = length [7 :: byte]"
    "\<And>k. length (key_mine rnd2 k) = 16" by (simp_all add: bp2_def rnd2_def)
  from positions_ok [OF clear2(1) idx2_ok(1) this(1,2) _ _ this(3)] show ?thesis by fastforce
qed

theorem private_membership_witness:
  "\<exists>m idx dr St' A'. query_positions (clear 2 (XOR)) bp2 (\<lambda>_. 0) rnd2 [replicate 16 5] [7] = Inr idx \<and>
    completes ring_peer 1 (\<lambda>p. agent_query m bp2 p v23 v01 (idx p) (root_cells [1, 1] p) (fresh p)) (\<lambda>p. (dr p, St' p, A' p)) \<and>
    query_answer (clear 8 (XOR)) bp2 dr (\<lambda>_. 4) = Inr 1"
proof -
  obtain idx where idx: "query_positions (clear 2 (XOR)) bp2 (\<lambda>_. 0) rnd2 [replicate 16 5] [7] = Inr idx" using idx_of by blast
  obtain m where m: "keys_ok m bp2 idx" "outcomes_ok m bp2" "dpf_cores m \<in> List.set CORES" "\<forall>k. vec_heap m k \<noteq> None"
    "synced (hash_fn m) fresh" using platform2 by blast
  have len: "length [1 :: byte, 1] = 2" "length [1 :: byte, 1] = bf_size bp2" by (simp_all add: bp2_def)
  have b: "bloom_pos (XOR) bp2 [7] (replicate 16 5) < 2"
    using bloom_index_ok [of "ell_add2 bp2" "bf_size bp2" "replicate 16 5" "(XOR)" "[7]"] by (auto simp: bloom_pos_def bp2_def)
  then have one: "[1, 1] ! bloom_pos (XOR) bp2 [7] (replicate 16 5) = (1 :: byte)" by (auto simp: less_Suc_eq numeral_2_eq_2)
  have "\<exists>dr St' A'. completes ring_peer 1 (\<lambda>p. agent_query m bp2 p v23 v01 (idx p) (root_cells [1, 1] p) (fresh p)) (\<lambda>p. (dr p, St' p, A' p)) \<and>
      query_answer (clear 8 (XOR)) bp2 dr (\<lambda>_. 4) =
        Inr (if \<forall>key \<in> set [replicate 16 5]. [1, 1] ! bloom_pos (XOR) bp2 [7] key = (1 :: byte) then 1 else 0)"
    by (rule private_membership [OF _ m(5) idx2_ok(1) m(1-4) _ _ root_cells(2) [OF len(1)] root_cells(1) [OF len(1)] len(2) _ clear2])
      (use idx in \<open>simp_all add: apart_def\<close>, simp_all add: bp2_def rnd2_def)
  with idx one show ?thesis by fastforce
qed

theorem members_found_witness:
  "\<exists>m bf idx dr St' A'. gen_bf (XOR) (\<lambda>_. Some (\<lambda>_. 0)) 1 [[3], [7]] [replicate 16 5] 2 1 2 = Inr bf \<and>
    completes ring_peer 1 (\<lambda>p. agent_query m bp2 p v23 v01 (idx p) (root_cells (elems 1 bf) p) (fresh p)) (\<lambda>p. (dr p, St' p, A' p)) \<and>
    query_answer (clear 8 (XOR)) bp2 dr (\<lambda>_. 4) = Inr 1"
proof -
  obtain idx where idx: "query_positions (clear 2 (XOR)) bp2 (\<lambda>_. 0) rnd2 [replicate 16 5] [7] = Inr idx" using idx_of by blast
  obtain m where m: "keys_ok m bp2 idx" "outcomes_ok m bp2" "dpf_cores m \<in> List.set CORES" "\<forall>k. vec_heap m k \<noteq> None"
    "synced (hash_fn m) fresh" using platform2 by blast
  obtain bf where bf: "gen_bf (XOR) (\<lambda>_. Some (\<lambda>_. 0)) 1 [[3], [7]] [replicate 16 5] 2 1 2 = Inr bf" "rv_size bf = 2"
    using gen_bf_ok [of 1 2 2 "[replicate 16 5]" "\<lambda>_. Some (\<lambda>_. 0)" "(XOR)" "[[3], [7]]"] by auto
  have len: "length (elems 1 bf) = 2" using bf(2) by (simp add: rv_size_def)
  have bf': "gen_bf (XOR) (\<lambda>_. Some (\<lambda>_. 0)) 1 [[3], [7]] [replicate 16 5] (bf_size bp2) (hf_num bp2) (ell_add2 bp2) = Inr bf"
    using bf(1) by (simp add: bp2_def)
  have "\<exists>dr St' A'. completes ring_peer 1 (\<lambda>p. agent_query m bp2 p v23 v01 (idx p) (root_cells (elems 1 bf) p) (fresh p)) (\<lambda>p. (dr p, St' p, A' p)) \<and>
      query_answer (clear 8 (XOR)) bp2 dr (\<lambda>_. 4) = Inr 1"
    by (rule members_found [OF _ m(5) idx2_ok(1) m(1-4) _ _ root_cells(2) [OF len] bf' _ _ root_cells(1) [OF len] clear2])
      (use idx in \<open>simp_all add: apart_def\<close>, simp_all add: bp2_def rnd2_def)
  with bf(1) show ?thesis by blast
qed

end
