(* ===== verification/Tree_Theorems.thy ===== *)
theory Tree_Theorems
  imports Tree_Run Query
begin

text \<open>
  The properties of the tree caches: holders can always join, update and leave; merging and restarting end in every
  schedule; queries are answered for the union of the present holders' filters; the state file is read back as it was
  written, and a cache whose operation was interrupted is not used again.
\<close>

section \<open>The union of the filters\<close>

definition union_of :: "nat \<Rightarrow> holders \<Rightarrow> byte list" where
  "union_of n H = map (\<lambda>j. if \<exists>w \<in> ran H. w ! j = 1 then 1 else 0) [0..<n]"

lemma tokens_exist:
  assumes "joint n ell C L D lf" "L \<le> x" "x < 2 * L"
  obtains t where "has_tokens C x t"
proof -
  have "\<exists>u. map_of (phi_r (C p)) x = Some u" for p using node_bound [OF joint_sel(6) [OF assms(1)], of p x] joint_sel(2) [OF assms(1), of p] assms(2,3) by auto
  then obtain t where "\<And>p. map_of (phi_r (C p)) x = Some (t p)" by metis
  then have "has_tokens C x t" by (simp add: has_tokens_def)
  then show thesis by (rule that)
qed

lemma leaves_union:
  assumes J: "joint n ell C L D lf" and H: "agree C L lf H"
  shows "all_leaves n L lf = union_of n H"
proof -
  have "ran H = lf ` {L..<2 * L}"
  proof (intro set_eqI iffI)
    fix w assume "w \<in> lf ` {L..<2 * L}"
    then obtain x where x: "L \<le> x" "x < 2 * L" "lf x = w" by auto
    then obtain t where "has_tokens C x t" using tokens_exist [OF J] by blast
    then show "w \<in> ran H" using H x by (auto simp: agree_def ran_def)
  qed (use H in \<open>fastforce simp: agree_def ran_def\<close>)
  then show ?thesis by (simp add: all_leaves_def union_of_def)
qed

lemma sync_union:
  assumes s: "setting cap heap ell n M root h" and run: "agents_run cap ccrh heap ell n M root h s H"
  shows "\<exists>s'. completes ring_peer cap (sync_cache ccrh heap ell M root h s) (\<lambda>p. (trees s' p, own s' p, root_at s' p, sharing_at s' p)) \<and>
    agents_run cap ccrh heap ell n M root h s' H \<and> rep3_vec ell (root_at s') (\<lambda>_. root) (union_of n H) \<and>
    (\<forall>p. meta (trees s' p) \<noteq> None \<and> (leaf_num (trees s' p) = 0 \<or> root_files (trees s' p)))"
proof -
  obtain L D lf where ok: "agents_ok ccrh ell n M root s H L D lf" using agents_run_ok [OF s run] by blast
  obtain s' where m: "ends_with cap (sync_cache ccrh heap ell M root h s) (\<lambda>p. (trees s' p, own s' p, root_at s' p, sharing_at s' p))"
    "agents_ok ccrh ell n M root s' H L {} lf" "rep3_vec ell (root_at s') (\<lambda>_. root) (all_leaves n L lf)"
    "\<forall>p. meta (trees s' p) \<noteq> None \<and> (leaf_num (trees s' p) = 0 \<or> root_files (trees s' p))" using sync_runs [OF s ok] by blast
  have c: "completes ring_peer cap (sync_cache ccrh heap ell M root h s) (\<lambda>p. (trees s' p, own s' p, root_at s' p, sharing_at s' p))"
    by (rule ring3.runs_completes [OF m(1)])
  have "joint n ell (trees s) L D lf" "agree (trees s) L lf H" using ok by (simp_all add: agents_ok_def)
  then have u: "all_leaves n L lf = union_of n H" by (rule leaves_union)
  show ?thesis using c agents_run.sync [OF run c] m(3,4) unfolding u by blast
qed

lemma union_bits: "length (union_of n H) = n \<and> (\<forall>x \<in> List.set (union_of n H). x = 0 \<or> x = 1)"
  by (auto simp: union_of_def)

lemma start_exists:
  fixes St :: "pid \<Rightarrow> store"
  assumes s: "setting cap heap ell n M root h" and "synced ccrh A" "\<And>p. fitted 1 M n (St p)"
  shows "\<exists>s. agents_run cap ccrh heap ell n M root h s Map.empty \<and> (\<forall>p. trees s p = empty_tree n ell)"
proof -
  obtain R where R: "\<And>p. new_share (h p) ell n root (St p) = Inr (R p)" using roots_ok [OF s] by blast
  let ?s = "\<lparr>trees = \<lambda>_. empty_tree n ell, own = St, root_at = R, sharing_at = A\<rparr>"
  have "completes ring_peer cap (agent_open ccrh heap ell n root h [] (\<lambda>_. None) (\<lambda>_. Map.empty) St St A)
      (\<lambda>p. (trees ?s p, own ?s p, root_at ?s p, sharing_at ?s p))"
    by (rule ring3.runs_completes, rule ends_at_once) (simp add: agent_open_def tc_open_def R empty_tree_def)
  from agents_run.start [OF this assms(2,3)] show ?thesis by (intro exI [of _ ?s]) simp
qed

lemma join_step:
  assumes "setting cap heap ell n M root h" "agents_run cap ccrh heap ell n M root h s H"
    and "shares_of n w sh" "\<And>p. draws_new (h p) (k p) (trees s p)"
  shows "\<exists>C t. (\<forall>p. tc_insert (h p) (k p) (sh p) (trees s p) = Some (C p, Inr (t p))) \<and> H t = None \<and>
    agents_run cap ccrh heap ell n M root h (s\<lparr>trees := C\<rparr>) (H(t \<mapsto> w))"
proof -
  obtain L D lf where "joint n ell (trees s) L D lf" "agree (trees s) L lf H" using agents_run_ok [OF assms(1,2)] by (auto simp: agents_ok_def)
  from join_runs [OF assms(1) this assms(4,3)] obtain C t where "\<And>p. tc_insert (h p) (k p) (sh p) (trees s p) = Some (C p, Inr (t p))" "H t = None" by blast
  then show ?thesis using agents_run.join [OF assms(2-4)] by blast
qed

lemma registered:
  assumes "setting cap heap ell n M root h" "agents_run cap ccrh heap ell n M root h s H"
  shows "has_inserted token (trees s p) = (\<exists>t \<in> dom H. t p = token)"
proof -
  obtain L D lf where J: "joint n ell (trees s) L D lf" and H: "agree (trees s) L lf H" using agents_run_ok [OF assms] by (auto simp: agents_ok_def)
  note C = joint_sel [OF J]
  show ?thesis
  proof
    assume "has_inserted token (trees s p)"
    then obtain x where x: "map_of (phi_f (trees s p)) token = Some x" "L \<le> x" using C(2) by (auto simp: has_inserted_def split: option.splits)
    then have r: "map_of (phi_r (trees s p)) x = Some token" using token_of [OF C(6)] by blast
    then have "x < 2 * L" using node_bound [OF C(6), of p x] C(2) by auto
    then obtain t where t: "has_tokens (trees s) x t" using tokens_exist [OF J x(2)] by blast
    then have "H t = Some (lf x)" using H x(2) \<open>x < 2 * L\<close> by (auto simp: agree_def)
    moreover have "t p = token" using t r by (simp add: has_tokens_def)
    ultimately show "\<exists>t \<in> dom H. t p = token" by blast
  next
    assume "\<exists>t \<in> dom H. t p = token"
    then obtain t w where t: "H t = Some w" "t p = token" by auto
    then obtain x where "L \<le> x" "has_tokens (trees s) x t" using H by (auto simp: agree_def)
    then show "has_inserted token (trees s p)" using token_of [OF C(6), of p x token] C(2) t(2) by (auto simp: has_inserted_def has_tokens_def)
  qed
qed

section \<open>Properties\<close>

text \<open>C2: in every state that the agents can reach, merging ends in every schedule; afterwards the roots are a sharing of
  the union of the present holders' filters, and everything a restart needs is on disk.\<close>

theorem merging_reachable:
  assumes "setting cap heap ell n M root h" "agents_run cap ccrh heap ell n M root h s H"
  shows "\<exists>s'. completes ring_peer cap (sync_cache ccrh heap ell M root h s) (\<lambda>p. (trees s' p, own s' p, root_at s' p, sharing_at s' p)) \<and>
    agents_run cap ccrh heap ell n M root h s' H \<and> rep3_vec ell (root_at s') (\<lambda>_. root) (union_of n H) \<and>
    (\<forall>p. meta (trees s' p) \<noteq> None \<and> (leaf_num (trees s' p) = 0 \<or> root_files (trees s' p)))"
  by (rule sync_union [OF assms])

text \<open>A holder can join in every reachable state: all agents insert the shares, under tokens that no present holder has.\<close>

theorem joining:
  assumes "setting cap heap ell n M root h" "agents_run cap ccrh heap ell n M root h s H"
    and "shares_of n w sh" "\<And>p. draws_new (h p) (k p) (trees s p)"
  shows "\<exists>C t. (\<forall>p. tc_insert (h p) (k p) (sh p) (trees s p) = Some (C p, Inr (t p))) \<and> H t = None \<and>
    agents_run cap ccrh heap ell n M root h (s\<lparr>trees := C\<rparr>) (H(t \<mapsto> w))"
  by (rule join_step [OF assms])

text \<open>A present holder can update its filter and can leave, in every reachable state; neither throws at any agent.\<close>

theorem updating_leaving:
  assumes "setting cap heap ell n M root h" "agents_run cap ccrh heap ell n M root h s H" "H t = Some v" "shares_of n w sh"
  shows "(\<exists>C. (\<forall>p. tc_update (h p) (t p) (sh p) (trees s p) = (C p, Inr ())) \<and> agents_run cap ccrh heap ell n M root h (s\<lparr>trees := C\<rparr>) (H(t \<mapsto> w))) \<and>
    (\<exists>C. (\<forall>p. tc_remove (h p) (t p) (trees s p) = (C p, Inr ())) \<and> agents_run cap ccrh heap ell n M root h (s\<lparr>trees := C\<rparr>) (H(t := None)))"
proof -
  obtain L D lf where J: "joint n ell (trees s) L D lf" "agree (trees s) L lf H" using agents_run_ok [OF assms(1,2)] by (auto simp: agents_ok_def)
  from update_runs [OF assms(1) J assms(3,4)] obtain C where "\<And>p. tc_update (h p) (t p) (sh p) (trees s p) = (C p, Inr ())" by blast
  moreover from quit_runs [OF assms(1) J assms(3)] obtain C' where "\<And>p. tc_remove (h p) (t p) (trees s p) = (C' p, Inr ())" by blast
  ultimately show ?thesis using agents_run.update [OF assms(2,4,3)] agents_run.quit [OF assms(2,3)] by blast
qed

text \<open>C16: the agents know exactly the present holders: a token is inserted at an agent if and only if a present holder has it there.\<close>

theorem holders_registered:
  assumes "setting cap heap ell n M root h" "agents_run cap ccrh heap ell n M root h s H"
  shows "has_inserted token (trees s p) = (\<exists>t \<in> dom H. t p = token)"
  by (rule registered [OF assms])

text \<open>C17: agents that stop after their root was merged, or when there is no holder, are restarted from what is on their
  disks: opening ends in every schedule with the same trees, and in a reachable state of the same holders.\<close>

theorem restarting:
  assumes "setting cap heap ell n M root h" "agents_run cap ccrh heap ell n M root h s H"
    and "\<And>p. meta (trees s p) \<noteq> None" "\<And>p. leaf_num (trees s p) = 0 \<or> root_files (trees s p)"
    and "synced ccrh A" "\<And>p. fitted 1 M n (St p)"
  shows "\<exists>s'. completes ring_peer cap (agent_open ccrh heap ell n root h listing (\<lambda>p. meta (trees s p)) (\<lambda>p. files (trees s p)) St Rst A)
      (\<lambda>p. (trees s' p, own s' p, root_at s' p, sharing_at s' p)) \<and> trees s' = trees s \<and> agents_run cap ccrh heap ell n M root h s' H"
proof -
  obtain L D lf where "agents_ok ccrh ell n M root s H L D lf" using agents_run_ok [OF assms(1,2)] by blast
  from restart_runs [where St = St and Rst = Rst and listing = listing, OF assms(1) this assms(3-6)]
  obtain s' :: agents where s': "ends_with cap (agent_open ccrh heap ell n root h listing (\<lambda>p. meta (trees s p)) (\<lambda>p. files (trees s p)) St Rst A)
      (\<lambda>p. (trees s' p, own s' p, root_at s' p, sharing_at s' p))" "trees s' = trees s" by blast
  note c = ring3.runs_completes [OF s'(1)]
  show ?thesis using c s'(2) agents_run.restart [OF assms(2-4) c assms(5,6)] by blast
qed

text \<open>C1: the whole test: after merging in a reachable state, a query for an element that is not empty gives 1 exactly if all positions the keys give for the
  element are set in the filters of the present holders, taken together.\<close>

theorem holders_queried:
  fixes s' :: agents
  assumes "setting cap heap (ell_root bp) (bf_size bp) M root h" "agents_run cap ccrh heap (ell_root bp) (bf_size bp) M root h s H"
    and sync: "completes ring_peer cap (sync_cache ccrh heap (ell_root bp) M root h s) (\<lambda>p. (trees s' p, own s' p, root_at s' p, sharing_at s' p))"
    and "synced (hash_fn m) A" "bf_ok bp" "keys_ok m bp idx" "outcomes_ok m bp" "dpf_cores m \<in> List.set CORES" "\<forall>k. vec_heap m k \<noteq> None"
    and "\<And>p. thisShare (V p) \<noteq> nxtShare (V p)" "\<And>p. apart (V p) root" "\<And>p. fitted (ell_root bp) (V p) (bf_size bp) (St p)"
    and mem: "\<And>p. St p (thisShare root) = root_at s' p (thisShare root)" "\<And>p. St p (nxtShare root) = root_at s' p (nxtShare root)"
    and "sh2pc_ok S (ell_add2 bp) prp bv uv" "sh2pc_ok S' (ell_root bp) prp' bv' uv'"
    and seeds: "hf_num bp = length seeds" "hf_num bp < 2 ^ ell_root bp" "\<And>key. key \<in> set seeds \<Longrightarrow> length key = 16"
    and "length (element_mine rnd) = length element" "0 < length element" "length element < 2 ^ 60"
      "\<And>k. k < hf_num bp \<Longrightarrow> length (key_mine rnd k) = 16"
    and "query_positions S bp uninit rnd seeds element = Inr idx"
  shows "\<exists>dr St' A'. completes ring_peer cap (\<lambda>p. agent_query m bp p (V p) root (idx p) (St p) (A p)) (\<lambda>p. (dr p, St' p, A' p)) \<and>
    query_answer S' bp dr rand = Inr (if \<forall>key \<in> set seeds. \<exists>w \<in> ran H. w ! bloom_pos prp bp element key = 1 then 1 else 0)"
proof -
  obtain s2 :: agents where s2: "completes ring_peer cap (sync_cache ccrh heap (ell_root bp) M root h s) (\<lambda>p. (trees s2 p, own s2 p, root_at s2 p, sharing_at s2 p))"
    "rep3_vec (ell_root bp) (root_at s2) (\<lambda>_. root) (union_of (bf_size bp) H)" using sync_union [OF assms(1,2)] by blast
  have "root_at s2 = root_at s'" using ring3.completes_unique [OF s2(1) sync] by (simp add: fun_eq_iff)
  then have root: "rep3_vec (ell_root bp) St (\<lambda>_. root) (union_of (bf_size bp) H)" using rep3_cong [OF s2(2), of St] mem by simp
  have cap: "0 < cap" using assms(1) by (simp add: setting_def)
  have "union_of (bf_size bp) H ! bloom_pos prp bp element key = 1 \<longleftrightarrow> (\<exists>w \<in> ran H. w ! bloom_pos prp bp element key = 1)" if "key \<in> set seeds" for key
  proof -
    have "bloom_pos prp bp element key < bf_size bp"
      using bloom_index_ok [of "ell_add2 bp" "bf_size bp" key prp element] assms(5) seeds(3) [OF that] by (auto simp: bf_ok_def bloom_pos_def)
    then show ?thesis by (simp add: union_of_def)
  qed
  then show ?thesis
    using membership [where V = V and W = "\<lambda>_. root" and St = St and rand = rand, OF cap assms(4-12) root _ _ assms(15,16) seeds assms(20-24)] union_bits by simp
qed

text \<open>C18: the state file is read back as it was written: opening finds the same tree after every operation that succeeded.\<close>

theorem state_file_roundtrip:
  assumes "tree_ok c" "mark_valid h c = (c', Inr ())"
  shows "\<exists>m. meta c' = Some m \<and> read_meta (filter_size c) (root_ell c) m (files c) = Inr c' \<and>
    phi_f c' = phi_f c \<and> phi_r c' = phi_r c \<and> leaf_num c' = leaf_num c \<and> dirty_leaf c' = dirty_leaf c"
proof -
  let ?c = "c\<lparr>meta := Some (Inr (meta_doc ''valid'' c)), corrupted := False\<rparr>"
  have c': "c' = ?c" using assms(2) by (auto simp: mark_valid_def write_meta_def split: if_splits)
  have "live ?c" using assms(1) by (simp add: live_def)
  from read_meta_ok [OF this] show ?thesis unfolding c' by simp
qed

text \<open>C19: an insertion, an update or a removal that throws either changed nothing or leaves the cache marked: every further
  insertion, update, removal and merge is refused and changes nothing, and opening the cache again from what is on the
  disk throws; unless the state file could not even be opened, when nothing at all was changed but the mark in memory.\<close>

theorem interrupted_refused:
  assumes "\<not> corrupted c" "tc_insert h k sh c = Some (c', Inl e) \<or> tc_update h t sh c = (c', Inl e) \<or> tc_remove h t c = (c', Inl e)"
  shows "c' = c \<or>
    tc_insert h' k' sh' c' = Some (c', Inl RuntimeError) \<and> tc_update h' t' sh' c' = (c', Inl RuntimeError) \<and>
    tc_remove h' t' c' = (c', Inl RuntimeError) \<and> execute_merge h' merge ring_conv root c' st rst a = Fail RuntimeError \<and>
    (if openable h ''meta.json''
     then tc_open h' ring_conv root (filter_size c) (root_ell c) listing (meta c') (files c') st rst a =
       Fail (case new_share h' (root_ell c) (filter_size c) root rst of Inl e \<Rightarrow> e | Inr _ \<Rightarrow> RuntimeError)
     else c' = c\<lparr>corrupted := True\<rparr>)"
proof -
  have "c' = c \<or> marked h c c'" using assms insert_throws update_throws remove_throws by blast
  moreover have "tc_open h' ring_conv root (filter_size c) (root_ell c) listing (meta c') (files c') st rst a =
       Fail (case new_share h' (root_ell c) (filter_size c) root rst of Inl e \<Rightarrow> e | Inr _ \<Rightarrow> RuntimeError)" if ch: "in_change c c'"
  proof -
    obtain m where m: "meta c' = Some m" "m \<in> {Inr (meta_doc ''dirty'' c), Inl JsonError}" using ch by (auto simp: in_change_def)
    show ?thesis using read_meta_dirty [OF m(2), of "files c'"] unfolding tc_open_def m(1) by (simp split: sum.split)
  qed
  moreover have "corrupted c'" if "marked h c c'" using that by (auto simp: marked_def in_change_def)
  moreover have "c' = c\<lparr>corrupted := True\<rparr>" if "marked h c c'" "\<not> openable h ''meta.json''"
    using that assms(1) nothing_opened [OF assms(1) that(2) assms(2)] by (auto simp: marked_def in_change_def)
  ultimately show ?thesis using corrupted_refuses [of c'] unfolding marked_def by auto
qed

section \<open>Instances\<close>

text \<open>Filters of two elements, with 5 bits at the root; the \<open>k\<close>-th token is a string of \<open>k\<close> letters.\<close>

definition host1 :: host where
  "host1 = \<lparr>openable = (\<lambda>_. True), drain = (\<lambda>_ n. if n < 16 then 0 else n), room = 100, writable = (\<lambda>_. True), removable = (\<lambda>_. True), alloc = (\<lambda>_. True), junk = (\<lambda>_. Some (\<lambda>_. 0)),
     token_hex = (\<lambda>k. replicate k CHR ''a'')\<rparr>"

abbreviation "v67 \<equiv> \<lparr>thisShare = 6, nxtShare = 7 :: nat\<rparr>"

abbreviation "zeros \<equiv> (\<lambda>_. Some (\<lambda>_. 0)) :: heap"

lemma setting1: "setting 1 zeros 5 2 v67 v01 (\<lambda>_. host1)"
proof -
  have "bytesFor 1 2 = Inr 8" "bytesFor 5 2 = Inr 2" by (simp_all add: bytesFor_def usz_def SIZE_MAX_def)
  moreover have "replicate k CHR ''a'' \<noteq> root_name" for k by (cases k) auto
  ultimately show ?thesis by (simp add: setting_def host_ok_def host1_def apart_def buf_def)
qed

text \<open>Three shares of the filter with both bits set.\<close>

definition ones :: rvec where
  "ones = \<lparr>n_elems = 2, n_words = 1, d64 = [3], d8 = []\<rparr>"

definition full_bits :: "rvec shr_rep3" where
  "full_bits = \<lparr>thisShare = ones, nxtShare = ones\<rparr>"

lemma ones: "rv_ok 1 ones" "elems 1 ones = [1, 1]" "n_elems ones = 2"
  by (simp_all add: ones_def rv_ok_def wordsFor_def ELEMS_PER_WORD_def usz_def elems_def elem_def upt_numerals)

lemma full_bits_shares: "shares_of 2 [1, 1] (\<lambda>_. full_bits)"
proof -
  have "sums_to 1 (\<lambda>_. [1, 1]) [1, 1]" by (simp add: sums_to_def less_Suc_eq take_bit_eq_mod del: One_nat_def)
  then show ?thesis using ones(1,2) unfolding shares_of_def by (auto simp: full_bits_def bits_def simp del: One_nat_def)
qed

lemma draws1: "draws_new host1 0 (empty_tree 2 5)"
  unfolding draws_new_def by (intro exI [of _ 0] conjI exI [of _ 1]) (simp_all add: host1_def empty_tree_def)

lemma at_start: "\<exists>s. agents_run 1 (XOR) zeros 5 2 v67 v01 (\<lambda>_. host1) s Map.empty \<and> (\<forall>p. trees s p = empty_tree 2 5)"
  by (rule start_exists [OF setting1 fresh_synced, of "\<lambda>_ _. ones"]) (simp add: fitted_def ones del: One_nat_def)

lemma one_holder: "\<exists>s t. agents_run 1 (XOR) zeros 5 2 v67 v01 (\<lambda>_. host1) s [t \<mapsto> [1, 1]]"
proof -
  obtain s where s: "agents_run 1 (XOR) zeros 5 2 v67 v01 (\<lambda>_. host1) s Map.empty" "\<And>p. trees s p = empty_tree 2 5" using at_start by blast
  from join_step [OF setting1 s(1) full_bits_shares, of "\<lambda>_. 0", unfolded s(2), OF draws1] show ?thesis by blast
qed

theorem joining_witness:
  "\<exists>s C t. (\<forall>p. trees s p = empty_tree 2 5) \<and> (\<forall>p. tc_insert host1 0 full_bits (trees s p) = Some (C p, Inr (t p))) \<and>
    agents_run 1 (XOR) zeros 5 2 v67 v01 (\<lambda>_. host1) (s\<lparr>trees := C\<rparr>) [t \<mapsto> [1, 1]]"
proof -
  obtain s where s: "agents_run 1 (XOR) zeros 5 2 v67 v01 (\<lambda>_. host1) s Map.empty" "\<And>p. trees s p = empty_tree 2 5" using at_start by blast
  from joining [OF setting1 s(1) full_bits_shares, of "\<lambda>_. 0", unfolded s(2), OF draws1]
  obtain C t where "\<forall>p. tc_insert host1 0 full_bits (empty_tree 2 5) = Some (C p, Inr (t p))"
    "agents_run 1 (XOR) zeros 5 2 v67 v01 (\<lambda>_. host1) (s\<lparr>trees := C\<rparr>) [t \<mapsto> [1, 1]]" by blast
  then show ?thesis using s(2) by (intro exI [of _ s] exI [of _ C] exI [of _ t]) simp
qed

theorem merging_reachable_witness:
  "\<exists>s t (s' :: agents). agents_run 1 (XOR) zeros 5 2 v67 v01 (\<lambda>_. host1) s [t \<mapsto> [1, 1]] \<and>
    completes ring_peer 1 (sync_cache (XOR) zeros 5 v67 v01 (\<lambda>_. host1) s) (\<lambda>p. (trees s' p, own s' p, root_at s' p, sharing_at s' p)) \<and>
    rep3_vec 5 (root_at s') (\<lambda>_. v01) [1, 1]"
proof -
  obtain s t where s: "agents_run 1 (XOR) zeros 5 2 v67 v01 (\<lambda>_. host1) s [t \<mapsto> [1, 1]]" using one_holder by blast
  have "union_of 2 [t \<mapsto> [1, 1]] = [1, 1]" by (simp add: union_of_def upt_numerals)
  from merging_reachable [OF setting1 s, unfolded this] s show ?thesis by blast
qed

theorem updating_leaving_witness:
  "\<exists>s t. agents_run 1 (XOR) zeros 5 2 v67 v01 (\<lambda>_. host1) s [t \<mapsto> [1, 1]] \<and>
    (\<exists>C. (\<forall>p. tc_update host1 (t p) full_bits (trees s p) = (C p, Inr ()))) \<and>
    (\<exists>C. (\<forall>p. tc_remove host1 (t p) (trees s p) = (C p, Inr ())) \<and>
      agents_run 1 (XOR) zeros 5 2 v67 v01 (\<lambda>_. host1) (s\<lparr>trees := C\<rparr>) Map.empty)"
proof -
  obtain s t where s: "agents_run 1 (XOR) zeros 5 2 v67 v01 (\<lambda>_. host1) s [t \<mapsto> [1, 1]]" using one_holder by blast
  have "[t \<mapsto> [1, 1]](t := None) = Map.empty" by simp
  with updating_leaving [OF setting1 s _ full_bits_shares, of t "[1, 1]"] s show ?thesis by auto
qed

theorem holders_registered_witness:
  "\<exists>s t. agents_run 1 (XOR) zeros 5 2 v67 v01 (\<lambda>_. host1) s [t \<mapsto> [1, 1]] \<and>
    has_inserted (t P1) (trees s P1) \<and> \<not> has_inserted (t P1 @ ''b'') (trees s P1)"
proof -
  obtain s t where s: "agents_run 1 (XOR) zeros 5 2 v67 v01 (\<lambda>_. host1) s [t \<mapsto> [1, 1]]" using one_holder by blast
  have "has_inserted (t P1) (trees s P1)" "\<not> has_inserted (t P1 @ ''b'') (trees s P1)" by (simp_all add: holders_registered [OF setting1 s])
  with s show ?thesis by blast
qed

theorem restarting_witness:
  "\<exists>s t s'. agents_run 1 (XOR) zeros 5 2 v67 v01 (\<lambda>_. host1) s [t \<mapsto> [1, 1]] \<and>
    completes ring_peer 1 (agent_open (XOR) zeros 5 2 v01 (\<lambda>_. host1) [''meta.json''] (\<lambda>p. meta (trees s p)) (\<lambda>p. files (trees s p))
      (\<lambda>_ _. ones) (\<lambda>_ _. ones) fresh) (\<lambda>p. (trees s' p, own s' p, root_at s' p, sharing_at s' p)) \<and> trees s' = trees s \<and>
    agents_run 1 (XOR) zeros 5 2 v67 v01 (\<lambda>_. host1) s' [t \<mapsto> [1, 1]]"
proof -
  obtain s t where "agents_run 1 (XOR) zeros 5 2 v67 v01 (\<lambda>_. host1) s [t \<mapsto> [1, 1]]" using one_holder by blast
  from sync_union [OF setting1 this] obtain s where s: "agents_run 1 (XOR) zeros 5 2 v67 v01 (\<lambda>_. host1) s [t \<mapsto> [1, 1]]"
    "\<And>p. meta (trees s p) \<noteq> None" "\<And>p. leaf_num (trees s p) = 0 \<or> root_files (trees s p)" by blast
  have "fitted 1 v67 2 (\<lambda>_. ones)" by (simp add: fitted_def ones del: One_nat_def)
  from restarting [where St = "\<lambda>_ _. ones" and Rst = "\<lambda>_ _. ones" and listing = "[''meta.json'']", OF setting1 s fresh_synced this] s(1)
  show ?thesis by blast
qed

theorem state_file_roundtrip_witness:
  "\<exists>c' m. mark_valid host1 ((empty_tree 2 5)\<lparr>leaf_num := 2, phi_f := [(''a'', 2), (''b'', 3), (''c'', 1)], phi_r := [(1, ''c''), (2, ''a''), (3, ''b'')],
      dirty_leaf := {2, 3}\<rparr>) = (c', Inr ()) \<and> meta c' = Some m \<and> read_meta 2 5 m (files c') = Inr c' \<and> dirty_leaf c' = {2, 3}"
proof -
  let ?c = "(empty_tree 2 5)\<lparr>leaf_num := 2, phi_f := [(''a'', 2), (''b'', 3), (''c'', 1)], phi_r := [(1, ''c''), (2, ''a''), (3, ''b'')], dirty_leaf := {2, 3}\<rparr>"
  have ok: "tree_ok ?c" by (auto simp: tree_ok_def Tree_Cache_Facts.paired_def empty_tree_def split: if_splits)
  obtain c' where c': "mark_valid host1 ?c = (c', Inr ())" "files c' = files ?c" by (simp add: mark_valid_def write_meta_def host1_def)
  from state_file_roundtrip [OF ok c'(1)] c' show ?thesis by (auto simp: empty_tree_def)
qed

theorem interrupted_refused_witness:
  "\<exists>c' e. tc_insert (host1\<lparr>alloc := \<lambda>_. False\<rparr>) 0 full_bits (empty_tree 2 5) = Some (c', Inl BadAlloc) \<and>
    tc_insert host1 0 full_bits c' = Some (c', Inl RuntimeError) \<and>
    execute_merge host1 (agent_merge (XOR) zeros v67) (agent_ring_conv (XOR) zeros P0 5) v01 c' (cells P0) (cells P0) (fresh P0) = Fail RuntimeError \<and>
    tc_open host1 (agent_ring_conv (XOR) zeros P0 5) v01 2 5 [''meta.json''] (meta c') (files c') (cells P0) (cells P0) (fresh P0) = Fail e"
proof -
  obtain c' where c': "tc_insert (host1\<lparr>alloc := \<lambda>_. False\<rparr>) 0 full_bits (empty_tree 2 5) = Some (c', Inl BadAlloc)" "c' \<noteq> empty_tree 2 5"
    by (simp add: tc_insert_def mark_corrupted_def write_meta_def empty_tree_def host1_def py_RvectorPack_def rp_new_def bytesFor_def usz_def
        aligned_allocate_def throw_if_def outside_def RSS3_ELL_def SIZE_MAX_def)
  have e: "\<not> corrupted (empty_tree 2 5)" "filter_size (empty_tree 2 5) = 2" "root_ell (empty_tree 2 5) = 5" by (simp_all add: empty_tree_def)
  have o: "openable (host1\<lparr>alloc := \<lambda>_. False\<rparr>) ''meta.json''" by (simp add: host1_def)
  from interrupted_refused [OF e(1) disjI1 [OF c'(1)], unfolded e(2,3)] c' o show ?thesis by auto
qed

text \<open>The query after that: parameters for a root of 5 bits, and a store with the merged root and two vectors for the query.\<close>

definition bp5 :: bf_params where
  "bp5 = bp2\<lparr>ell_root := 5\<rparr>"

lemma bp5: "bf_ok bp5" "hf_num bp5 = 1" "bf_size bp5 = 2" "ell_add2 bp5 = 2" "ell_root bp5 = 5"
  by (simp_all add: bp5_def bp2_def bf_ok_def)

definition query_store :: "agents \<Rightarrow> pid \<Rightarrow> store" where
  "query_store s p = (root_at s p)(2 := cells p 2, 3 := cells p 3)"

lemma query_store_fits: "fitted (ell_root bp5) v23 (bf_size bp5) (query_store s p)"
  using cells_at_5 [of 2 p] cells_at_5 [of 3 p] vec_at_length [of 5 "cells p" 2] vec_at_length [of 5 "cells p" 3]
  by (auto simp: fitted_def bp5 query_store_def vec_at_def)

lemma idx_of5: "\<exists>idx. query_positions (clear 2 (XOR)) bp5 (\<lambda>_. 0) rnd2 [replicate 16 5] [7] = Inr idx"
proof -
  have "hf_num bp5 = length [replicate 16 (5 :: byte)]" "length (element_mine rnd2) = length [7 :: byte]"
    "\<And>k. length (key_mine rnd2 k) = 16" by (simp_all add: bp5 rnd2_def)
  from positions_ok [OF _ bp5(1) this(1,2) _ _ this(3)] clear_ok [of 2 "(XOR)"] show ?thesis unfolding bp5 by fastforce
qed

theorem holders_queried_witness:
  "\<exists>m s t (s' :: agents) idx dr St' A'. agents_run 1 (XOR) zeros 5 2 v67 v01 (\<lambda>_. host1) s [t \<mapsto> [1, 1]] \<and>
    completes ring_peer 1 (sync_cache (XOR) zeros 5 v67 v01 (\<lambda>_. host1) s) (\<lambda>p. (trees s' p, own s' p, root_at s' p, sharing_at s' p)) \<and>
    query_positions (clear 2 (XOR)) bp5 (\<lambda>_. 0) rnd2 [replicate 16 5] [7] = Inr idx \<and>
    completes ring_peer 1 (\<lambda>p. agent_query m bp5 p v23 v01 (idx p) (query_store s' p) (fresh p)) (\<lambda>p. (dr p, St' p, A' p)) \<and>
    query_answer (clear 5 (XOR)) bp5 dr (\<lambda>_. 4) = Inr 1"
proof -
  obtain s t where s: "agents_run 1 (XOR) zeros 5 2 v67 v01 (\<lambda>_. host1) s [t \<mapsto> [1, 1]]" using one_holder by blast
  then obtain s' :: agents where s': "completes ring_peer 1 (sync_cache (XOR) zeros 5 v67 v01 (\<lambda>_. host1) s) (\<lambda>p. (trees s' p, own s' p, root_at s' p, sharing_at s' p))"
    using sync_union [OF setting1 s] by blast
  obtain idx where idx: "query_positions (clear 2 (XOR)) bp5 (\<lambda>_. 0) rnd2 [replicate 16 5] [7] = Inr idx" using idx_of5 by blast
  obtain m where m: "keys_ok m bp5 idx" "outcomes_ok m bp5" "dpf_cores m \<in> List.set CORES" "\<forall>k. vec_heap m k \<noteq> None"
    "synced (hash_fn m) fresh" using platform_at [of 5 idx] unfolding bp5_def by fastforce
  have "bloom_pos (XOR) bp5 [7] (replicate 16 5) < 2"
    using bloom_index_ok [of "ell_add2 bp5" "bf_size bp5" "replicate 16 5" "(XOR)" "[7]"] by (auto simp: bloom_pos_def bp5)
  then have one: "[1, 1] ! bloom_pos (XOR) bp5 [7] (replicate 16 5) = (1 :: byte)" by (auto simp: less_Suc_eq numeral_2_eq_2)
  have S: "sh2pc_ok (clear 2 (XOR)) (ell_add2 bp5) (XOR) (\<lambda>w. w) (\<lambda>x. x)" "sh2pc_ok (clear 5 (XOR)) (ell_root bp5) (XOR) (\<lambda>w. w) (\<lambda>x. x)"
    using clear_ok by (simp_all add: bp5)
  have "\<exists>dr St' A'. completes ring_peer 1 (\<lambda>p. agent_query m bp5 p v23 v01 (idx p) (query_store s' p) (fresh p)) (\<lambda>p. (dr p, St' p, A' p)) \<and>
      query_answer (clear 5 (XOR)) bp5 dr (\<lambda>_. 4) =
        Inr (if \<forall>key \<in> set [replicate 16 5]. \<exists>w \<in> ran [t \<mapsto> [1, 1]]. w ! bloom_pos (XOR) bp5 [7] key = (1 :: byte) then 1 else 0)"
    by (rule holders_queried [OF setting1 [folded bp5(3,5)] s [folded bp5(3,5)] s' [folded bp5(5)] m(5) bp5(1) m(1-4) _ _ query_store_fits _ _ S])
      (use idx in \<open>simp_all add: apart_def query_store_def bp5\<close>, simp_all add: rnd2_def)
  with s s' idx one show ?thesis by fastforce
qed

end
