(* ===== verification/Set_Holder.thy ===== *)
theory Set_Holder
  imports Tree_Theorems Transport
begin

text \<open>
  A set holder hands its Bloom filter to the agents (\<^verbatim>\<open>src/mpmt/set_holder.py\<close> with \<open>response_share_bf\<close> of
  \<^verbatim>\<open>agent_server.py\<close>). It makes a replicated sharing of the filter together with the two peers, in which it is party 0,
  and sends its own share to the steward. The result is what the agents' tree caches insert.
\<close>

section \<open>The holder and the agents\<close>

text \<open>What a new \<open>ShrRep3\<close> object draws.\<close>

record rep3_rnd =
  rnd_sodium :: int
  rnd_key :: block
  rnd_cache :: block

definition new_rep3 :: "int \<Rightarrow> rep3_rnd \<Rightarrow> (side, aby3) proc" where
  "new_rep3 party r = pbind (lift_res (py_ShrRep3 1 party)) (\<lambda>_. aby3_new (rnd_sodium r) (rnd_key r) (rnd_cache r))"

text \<open>\<open>share_bf\<close> up to the messages to the steward; \<open>bf\<close> is where the filter is kept.\<close>

definition share_bf :: "(block \<Rightarrow> block \<Rightarrow> block) \<Rightarrow> ccrh \<Rightarrow> heap \<Rightarrow> rep3_rnd \<Rightarrow> bf_params \<Rightarrow> byte list list \<Rightarrow> byte list list \<Rightarrow>
    nat \<Rightarrow> ShrRep3ShareVec \<Rightarrow> store \<Rightarrow> (side, store) proc" where
  "share_bf prp ccrh heap r bp members hash_seed_list bf sv_buf st =
     (if length hash_seed_list \<noteq> hf_num bp then Fail ValueError
      else pbind (new_rep3 0 r) (\<lambda>a.
           pbind (lift_res (gen_bf prp heap 1 members hash_seed_list (bf_size bp) (hf_num bp) (ell_add2 bp))) (\<lambda>v.
           pbind (rss_share_vec ccrh heap heap 1 bf sv_buf (st(bf := v)) a) (\<lambda>(st, a). Ret st))))"

definition peer_share_bf :: "ccrh \<Rightarrow> rep3_rnd \<Rightarrow> int \<Rightarrow> ShrRep3ShareVec \<Rightarrow> store \<Rightarrow> (side, store) proc" where
  "peer_share_bf ccrh r server_role merge_buf st =
     pbind (new_rep3 server_role r) (\<lambda>a. pbind (rss_recv_share_vec ccrh 1 merge_buf st a) (\<lambda>(st, a). Ret st))"

text \<open>The members of the holder's share, one after the other.\<close>

definition send_share :: "ShrRep3ShareVec \<Rightarrow> store \<Rightarrow> rpack \<Rightarrow> (unit, store \<times> rpack) proc" where
  "send_share sv_buf st pack_buf =
     pbind (transport_send_vector 1 () (st (thisShare sv_buf)) pack_buf) (\<lambda>pack_buf.
     pbind (transport_send_vector 1 () (st (nxtShare sv_buf)) pack_buf) (\<lambda>pack_buf. Ret (st, pack_buf)))"

definition recv_share :: "ShrRep3ShareVec \<Rightarrow> store \<Rightarrow> rpack \<Rightarrow> (unit, store \<times> rpack) proc" where
  "recv_share merge_buf st pack_buf =
     pbind (transport_recv_vector 1 () (st (thisShare merge_buf)) pack_buf) (\<lambda>(v, pack_buf).
     let st = st(thisShare merge_buf := v) in
     pbind (transport_recv_vector 1 () (st (nxtShare merge_buf)) pack_buf) (\<lambda>(v, pack_buf).
     Ret (st(nxtShare merge_buf := v), pack_buf)))"

text \<open>The checks of \<open>response_share_bf\<close> before anything is received, and what it does with the cache when \<open>merge_buf\<close> holds
  the share.\<close>

datatype prot_type = JOIN | UPDATE | QUIT

definition share_bf_allowed :: "prot_type \<Rightarrow> bool \<Rightarrow> string option \<Rightarrow> tree_cache \<Rightarrow> unit res" where
  "share_bf_allowed prot has_channel token c =
     (case prot of
        QUIT \<Rightarrow> (case token of None \<Rightarrow> Inl TypeError | Some t \<Rightarrow> throw_if (\<not> has_inserted t c) KeyError)
      | JOIN \<Rightarrow> throw_if (\<not> has_channel) TypeError
      | UPDATE \<Rightarrow> rbind (throw_if (\<not> has_channel) TypeError) (\<lambda>_.
          case token of None \<Rightarrow> Inl TypeError | Some t \<Rightarrow> throw_if (\<not> has_inserted t c) KeyError))"

definition response_share_bf :: "host \<Rightarrow> nat \<Rightarrow> prot_type \<Rightarrow> bool \<Rightarrow> string option \<Rightarrow> rvec shr_rep3 \<Rightarrow> tree_cache \<Rightarrow> string option step option" where
  "response_share_bf h k prot has_channel token sh c =
     (case share_bf_allowed prot has_channel token c of Inl e \<Rightarrow> Some (c, Inl e)
      | Inr _ \<Rightarrow>
        (case prot of
           QUIT \<Rightarrow> Some (sthen (tc_remove h (the token) c) (\<lambda>c _. (c, Inr None)))
         | JOIN \<Rightarrow> Option.bind (tc_insert h k sh c) (\<lambda>m. Some (sthen m (\<lambda>c t. (c, Inr (Some t)))))
         | UPDATE \<Rightarrow> Some (sthen (tc_update h (the token) sh c) (\<lambda>c _. (c, Inr None)))))"

section \<open>Facts\<close>

lemma new_rep3_runs:
  assumes "16 \<le> cap" "\<And>p. 0 \<le> rnd_sodium (r p)"
  obtains A where "ends_with cap (\<lambda>p. new_rep3 (case p of P0 \<Rightarrow> 0 | P1 \<Rightarrow> 1 | P2 \<Rightarrow> 2) (r p)) A" "synced ccrh A"
proof -
  have "aby3_new (rnd_sodium (r p)) (rnd_key (r p)) (rnd_cache (r p)) = aby3_new 0 (rnd_key (r p)) (rnd_cache (r p))" for p
    using assms(2) [of p] by (simp add: aby3_new_def)
  then have "new_rep3 (case p of P0 \<Rightarrow> 0 | P1 \<Rightarrow> 1 | P2 \<Rightarrow> 2) (r p) = aby3_new 0 (rnd_key (r p)) (rnd_cache (r p))" for p
    by (cases p) (simp_all add: new_rep3_def py_ShrRep3_def outside_def RSS3_ELL_def)
  then show thesis using new_ok [OF assms(1), of 0 "\<lambda>p. rnd_key (r p)" "\<lambda>p. rnd_cache (r p)" ccrh] that by auto
qed

text \<open>The shares of a replicated sharing are what a tree cache expects.\<close>

lemma sharing_shares:
  assumes "rep3_vec 1 St V w" "length w = n" "bits w"
    and "\<And>p. rv_ok 1 (thisShare (s p)) \<and> elems 1 (thisShare (s p)) = elems 1 (St p (thisShare (V p)))"
    and "\<And>p. rv_ok 1 (nxtShare (s p)) \<and> elems 1 (nxtShare (s p)) = elems 1 (St p (nxtShare (V p)))"
  shows "shares_of n w s"
proof -
  obtain z where "sums_to 1 z w" "\<And>p. vec_at 1 (St p) (thisShare (V p)) (z p) \<and> vec_at 1 (St p) (nxtShare (V p)) (z (NEXT p))"
    using assms(1) unfolding rep3_vec_def vsharing_def by blast
  then show ?thesis using assms(2-5) unfolding shares_of_def by (auto simp: vec_at_def)
qed

lemma vector_sent:
  assumes cap: "0 < cap" and u: "rv_ok 1 u" and v: "rv_ok 1 v" "n_elems v = n_elems u" and aux: "aux_ok 1 (n_elems u) aux" "aux_ok 1 (n_elems u) aux'"
  obtains b w where "\<And>K L. runs pair_peer cap
      (\<lambda>p. if p = Alice then pbind (transport_send_vector 1 () u aux) K else pbind (transport_recv_vector 1 () v aux') L)
      (\<lambda>p. if p = Alice then K b else L (w, b))" "rv_ok 1 w" "elems 1 w = elems 1 u" "aux_ok 1 (n_elems u) b"
proof -
  obtain b where b: "packRvec 1 u aux = Inr b" "holds 1 b u" "length (p_buf b) = length (p_buf aux)"
    using packRvec_holds [OF u aux(1)] by blast
  have len: "length (p_buf aux') = length (p_buf b)" using aux b(3) by (simp add: aux_ok_def)
  have same: "aux'\<lparr>p_buf := p_buf b\<rparr> = b" using b(2) aux(2) by (simp add: holds_def aux_ok_def)
  obtain w where w: "unpackRvec 1 b v = Inr w" "rv_ok 1 w" "elems 1 w = elems 1 u" using b(2) v unfolding holds_def by blast
  let ?U = "\<lambda>bs. lift_res (rbind (unpackRvec 1 (aux'\<lparr>p_buf := bs\<rparr>) v) (\<lambda>vec. Inr (vec, aux'\<lparr>p_buf := bs\<rparr>)))"
  have "runs pair_peer cap (\<lambda>p. if p = Alice then pbind (transport_send_vector 1 () u aux) K else pbind (transport_recv_vector 1 () v aux') L)
      (\<lambda>p. if p = Alice then K b else L (w, b))" for K :: "rpack \<Rightarrow> (unit, 'b) proc" and L
  proof -
    have "runs pair_peer cap (\<lambda>p. if p = Alice then pbind (transport_send_vector 1 () u aux) K else pbind (transport_recv_vector 1 () v aux') L)
        (\<lambda>p. if p = Alice then (\<lambda>_. K b) () else (\<lambda>bs. pbind (?U bs) L) (p_buf b))"
      by (rule pair_run [OF cap, of _ Alice]) (simp_all add: transport_send_vector_def transport_recv_vector_def b(1) len
        emp2_send_data_def emp2_recv_data_def pbind_assoc other_of_def del: One_nat_def)
    also have "(\<lambda>p. if p = Alice then (\<lambda>_. K b) () else (\<lambda>bs. pbind (?U bs) L) (p_buf b)) = (\<lambda>p. if p = Alice then K b else L (w, b))"
      by (simp add: same w(1) del: One_nat_def cong: if_cong)
    finally show ?thesis .
  qed
  moreover have "aux_ok 1 (n_elems u) b" using b(2) by (simp add: holds_def)
  ultimately show thesis using that w(2,3) by blast
qed

lemma share_sent:
  assumes cap: "0 < cap" and U: "fitted 1 U n st" and V: "fitted 1 V n st'" "thisShare V \<noteq> nxtShare V" and aux: "aux_ok 1 n aux" "aux_ok 1 n aux'"
  shows "\<exists>st2 b. pair_ends cap (\<lambda>p. if p = Alice then send_share U st aux else recv_share V st' aux') (\<lambda>p. (if p = Alice then st else st2, b)) \<and>
    rv_ok 1 (st2 (thisShare V)) \<and> elems 1 (st2 (thisShare V)) = elems 1 (st (thisShare U)) \<and>
    rv_ok 1 (st2 (nxtShare V)) \<and> elems 1 (st2 (nxtShare V)) = elems 1 (st (nxtShare U))"
proof -
  have u: "rv_ok 1 (st (thisShare U))" "n_elems (st (thisShare U)) = n" "rv_ok 1 (st (nxtShare U))" "n_elems (st (nxtShare U)) = n"
    and v: "rv_ok 1 (st' (thisShare V))" "n_elems (st' (thisShare V)) = n" "rv_ok 1 (st' (nxtShare V))" "n_elems (st' (nxtShare V)) = n"
    using U V(1) by (simp_all add: fitted_def)
  obtain b w where 1: "\<And>K L :: rvec \<times> rpack \<Rightarrow> (unit, store \<times> rpack) proc. runs pair_peer cap
      (\<lambda>p. if p = Alice then pbind (transport_send_vector 1 () (st (thisShare U)) aux) K
        else pbind (transport_recv_vector 1 () (st' (thisShare V)) aux') L)
      (\<lambda>p. if p = Alice then K b else L (w, b))" "rv_ok 1 w" "elems 1 w = elems 1 (st (thisShare U))" "aux_ok 1 n b"
    by (rule vector_sent [OF cap u(1) v(1), unfolded u(2) v(2), OF refl aux]) (rule that, assumption+)
  obtain b2 w2 where 2: "\<And>K L :: rvec \<times> rpack \<Rightarrow> (unit, store \<times> rpack) proc. runs pair_peer cap
      (\<lambda>p. if p = Alice then pbind (transport_send_vector 1 () (st (nxtShare U)) b) K
        else pbind (transport_recv_vector 1 () (st' (nxtShare V)) b) L)
      (\<lambda>p. if p = Alice then K b2 else L (w2, b2))" "rv_ok 1 w2" "elems 1 w2 = elems 1 (st (nxtShare U))"
    by (rule vector_sent [OF cap u(3) v(3), unfolded u(4) v(4), OF refl 1(4,4)]) (rule that, assumption+)
  let ?st = "st'(thisShare V := w)"
  let ?L = "\<lambda>x. pbind (transport_recv_vector 1 () (st' (nxtShare V)) (snd x)) (\<lambda>y. Ret (st'(thisShare V := fst x, nxtShare V := fst y), snd y))"
  have e: "send_share U st aux = pbind (transport_send_vector 1 () (st (thisShare U)) aux) (\<lambda>b.
      pbind (transport_send_vector 1 () (st (nxtShare U)) b) (\<lambda>b. Ret (st, b)))"
    "recv_share V st' aux' = pbind (transport_recv_vector 1 () (st' (thisShare V)) aux') ?L"
    using V(2) by (simp_all only: send_share_def recv_share_def Let_def split_def fun_upd_apply not_sym [OF V(2)] if_False)
  have "runs pair_peer cap (\<lambda>p. if p = Alice then send_share U st aux else recv_share V st' aux')
      (\<lambda>p. if p = Alice then pbind (transport_send_vector 1 () (st (nxtShare U)) b) (\<lambda>b. Ret (st, b)) else ?L (w, b))"
    unfolding e by (rule 1(1))
  also have "runs pair_peer cap \<dots> (\<lambda>p. if p = Alice then Ret (st, b2) else Ret (?st(nxtShare V := w2), b2))"
    unfolding fst_conv snd_conv using 2(1) [of "\<lambda>b. Ret (st, b)" "\<lambda>y. Ret (?st(nxtShare V := fst y), snd y)"] by (simp only: fst_conv snd_conv)
  also have "\<dots> = (\<lambda>p. Ret (if p = Alice then st else ?st(nxtShare V := w2), b2))" by auto
  finally show ?thesis using 1(2,3) 2(2,3) V(2) by (intro exI [of _ "?st(nxtShare V := w2)"] exI [of _ b2]) simp
qed

section \<open>Properties\<close>

text \<open>C15: sharing a filter ends in every schedule, among the holder and the peers and then with the steward, and leaves at the
  three agents a sharing of the Bloom filter of the holder's set, as the tree caches take it.\<close>

theorem filter_shared:
  assumes cap: "16 \<le> cap" and r: "\<And>p. 0 \<le> rnd_sodium (r p)" and bp: "bf_ok bp" and seeds: "hf_num bp = length seeds" "seeds \<noteq> []"
      "\<forall>key \<in> set seeds. length key \<le> 16" and heap: "\<forall>k. heap k \<noteq> None"
    and V: "\<And>p. thisShare (V p) \<noteq> nxtShare (V p)" "\<And>p. fitted 1 (V p) (bf_size bp) (St p)" "bf \<noteq> thisShare (V P0)" "bf \<noteq> nxtShare (V P0)"
    and M: "fitted 1 M (bf_size bp) steward" "thisShare M \<noteq> nxtShare M" "aux_ok 1 (bf_size bp) aux" "aux_ok 1 (bf_size bp) aux'"
  shows "\<exists>St' steward' b v. completes ring_peer cap (\<lambda>p. if p = P0 then share_bf prp ccrh heap (r P0) bp members seeds bf (V P0) (St P0)
        else peer_share_bf ccrh (r p) (if p = P1 then 1 else 2) (V p) (St p)) St' \<and>
    completes pair_peer cap (\<lambda>p. if p = Alice then send_share (V P0) (St' P0) aux else recv_share M steward aux')
      (\<lambda>p. (if p = Alice then St' P0 else steward', b)) \<and>
    gen_bf prp heap 1 members seeds (bf_size bp) (hf_num bp) (ell_add2 bp) = Inr v \<and>
    shares_of (bf_size bp) (elems 1 v) (\<lambda>p. if p = P0 then share_at_refs steward' M else share_at_refs (St' p) (V p))"
proof -
  let ?n = "bf_size bp"
  have n: "1 \<le> ell_add2 bp" "ell_add2 bp \<le> 31" "0 < ?n" "?n < 2 ^ ell_add2 bp" using bp by (simp_all add: bf_ok_def)
  obtain v where v: "gen_bf prp heap 1 members seeds ?n (hf_num bp) (ell_add2 bp) = Inr v" "rv_ok 1 v" "n_elems v = ?n" "bits (elems 1 v)"
    using gen_bf_ok [of 1 "ell_add2 bp" ?n seeds heap prp members] n seeds heap by (fastforce simp: rv_size_def bits_def)
  have len: "length (elems 1 v) = ?n" "elems 1 v \<noteq> []" using v(3) n(3) by (simp_all flip: length_0_conv)
  have c: "0 < cap" using cap by simp
  obtain A where A: "ends_with cap (\<lambda>p. new_rep3 (case p of P0 \<Rightarrow> 0 | P1 \<Rightarrow> 1 | P2 \<Rightarrow> 2) (r p)) A" "synced ccrh A"
    using new_rep3_runs [where r = r, OF cap r] by blast
  define S1 where "S1 = St(P0 := (St P0)(bf := v))"
  have at: "vec_at 1 (S1 P0) bf (elems 1 v)" using v(2) by (simp add: S1_def vec_at_def)
  have fit: "fitted 1 (V p) ?n (S1 p)" for p using V(2) [of p] V(3,4) by (auto simp: S1_def fitted_def)
  let ?sh = "\<lambda>p. if p = P0 then rss_share_vec ccrh heap heap 1 bf (V p) (S1 p) (A p) else rss_recv_share_vec ccrh 1 (V p) (S1 p) (A p)"
  obtain S2 A2 where S2: "ends_with cap ?sh (\<lambda>p. (S2 p, A2 p))" "rep3_vec 1 S2 V (elems 1 v)"
    using python_share_runs [where V = V and St = S1 and A = A and dealer = P0, OF c A(2) V(1) V(3,4) at len(2) heap heap] fit len(1) by auto
  let ?K = "\<lambda>p a. if p = P0 then pbind (lift_res (gen_bf prp heap 1 members seeds ?n (hf_num bp) (ell_add2 bp))) (\<lambda>v.
      pbind (rss_share_vec ccrh heap heap 1 bf (V P0) ((St P0)(bf := v)) a) (\<lambda>(st, a). Ret st))
    else pbind (rss_recv_share_vec ccrh 1 (V p) (St p) a) (\<lambda>(st, a). Ret st)"
  have P: "(if p = P0 then share_bf prp ccrh heap (r P0) bp members seeds bf (V P0) (St P0) else peer_share_bf ccrh (r p) (if p = P1 then 1 else 2) (V p) (St p)) =
      pbind (new_rep3 (case p of P0 \<Rightarrow> 0 | P1 \<Rightarrow> 1 | P2 \<Rightarrow> 2) (r p)) (?K p)" for p
    using seeds(1) by (cases p) (simp_all add: share_bf_def peer_share_bf_def)
  have K: "?K p (A p) = pbind (?sh p) (\<lambda>(st, a). Ret st)" for p by (cases p) (simp_all add: v(1) S1_def del: One_nat_def)
  have "ends_with cap (\<lambda>p. ?K p (A p)) S2" unfolding K by (rule ends_bind [OF S2(1)]) simp
  from ends_bind [where K = ?K, OF A(1) this] have run: "completes ring_peer cap (\<lambda>p. if p = P0 then share_bf prp ccrh heap (r P0) bp members seeds bf (V P0) (St P0)
      else peer_share_bf ccrh (r p) (if p = P1 then 1 else 2) (V p) (St p)) S2" unfolding P by (rule ring3.runs_completes)
  have fit2: "fitted 1 (V p) ?n (S2 p)" for p by (rule rep3_fitted [OF S2(2) len(1)])
  obtain st2 b where st2: "pair_ends cap (\<lambda>p. if p = Alice then send_share (V P0) (S2 P0) aux else recv_share M steward aux') (\<lambda>p. (if p = Alice then S2 P0 else st2, b))"
    "rv_ok 1 (st2 (thisShare M))" "elems 1 (st2 (thisShare M)) = elems 1 (S2 P0 (thisShare (V P0)))"
    "rv_ok 1 (st2 (nxtShare M))" "elems 1 (st2 (nxtShare M)) = elems 1 (S2 P0 (nxtShare (V P0)))"
    using share_sent [OF c fit2 M] by blast
  have "shares_of ?n (elems 1 v) (\<lambda>p. if p = P0 then share_at_refs st2 M else share_at_refs (S2 p) (V p))"
    by (rule sharing_shares [OF S2(2) len(1) v(4)]) (use st2(2-5) fit2 in \<open>auto simp: share_at_refs_def fitted_def\<close>)
  then show ?thesis using run pair.runs_completes [OF st2(1)] v(1) by blast
qed

text \<open>C14: the requests of holders in any reachable state: a new holder is inserted, a present one can update and leave, none of
  this throws at any agent, and a token that no present holder has is refused with the cache unchanged.\<close>

theorem holder_requests:
  assumes "setting cap heap ell n M root h" "agents_run cap ccrh heap ell n M root h s H" "shares_of n w sh" "\<And>p. draws_new (h p) (k p) (trees s p)"
  shows "(\<exists>C t. (\<forall>p. response_share_bf (h p) (k p) JOIN True None (sh p) (trees s p) = Some (C p, Inr (Some (t p)))) \<and> H t = None \<and>
      agents_run cap ccrh heap ell n M root h (s\<lparr>trees := C\<rparr>) (H(t \<mapsto> w))) \<and>
    (\<forall>t \<in> dom H. \<exists>C. (\<forall>p. response_share_bf (h p) (k p) UPDATE True (Some (t p)) (sh p) (trees s p) = Some (C p, Inr None)) \<and>
      agents_run cap ccrh heap ell n M root h (s\<lparr>trees := C\<rparr>) (H(t \<mapsto> w))) \<and>
    (\<forall>t \<in> dom H. \<exists>C. (\<forall>p. response_share_bf (h p) (k p) QUIT False (Some (t p)) (sh p) (trees s p) = Some (C p, Inr None)) \<and>
      agents_run cap ccrh heap ell n M root h (s\<lparr>trees := C\<rparr>) (H(t := None))) \<and>
    (\<forall>p token. (\<forall>t \<in> dom H. t p \<noteq> token) \<longrightarrow>
      response_share_bf (h p) (k p) UPDATE True (Some token) (sh p) (trees s p) = Some (trees s p, Inl KeyError) \<and>
      response_share_bf (h p) (k p) QUIT False (Some token) (sh p) (trees s p) = Some (trees s p, Inl KeyError))"
proof -
  have known: "has_inserted (t p) (trees s p)" if "t \<in> dom H" for t p using registered [OF assms(1,2)] that by blast
  have unknown: "\<not> has_inserted token (trees s p)" if "\<forall>t \<in> dom H. t p \<noteq> token" for token p using registered [OF assms(1,2)] that by blast
  note defs = response_share_bf_def share_bf_allowed_def throw_if_def
  have "\<exists>C t. (\<forall>p. response_share_bf (h p) (k p) JOIN True None (sh p) (trees s p) = Some (C p, Inr (Some (t p)))) \<and> H t = None \<and>
      agents_run cap ccrh heap ell n M root h (s\<lparr>trees := C\<rparr>) (H(t \<mapsto> w))"
  proof -
    obtain C t where "\<And>p. tc_insert (h p) (k p) (sh p) (trees s p) = Some (C p, Inr (t p))" "H t = None"
      "agents_run cap ccrh heap ell n M root h (s\<lparr>trees := C\<rparr>) (H(t \<mapsto> w))" using joining [OF assms] by blast
    then show ?thesis by (intro exI [of _ C] exI [of _ t]) (simp add: defs)
  qed
  moreover have "\<exists>C. (\<forall>p. response_share_bf (h p) (k p) UPDATE True (Some (t p)) (sh p) (trees s p) = Some (C p, Inr None)) \<and>
      agents_run cap ccrh heap ell n M root h (s\<lparr>trees := C\<rparr>) (H(t \<mapsto> w))" if t: "t \<in> dom H" for t
  proof -
    obtain v where v: "H t = Some v" using t by blast
    obtain C where "\<And>p. tc_update (h p) (t p) (sh p) (trees s p) = (C p, Inr ())" "agents_run cap ccrh heap ell n M root h (s\<lparr>trees := C\<rparr>) (H(t \<mapsto> w))"
      using updating_leaving [OF assms(1,2) v assms(3)] by blast
    then show ?thesis using known [OF t] by (intro exI [of _ C]) (simp add: defs)
  qed
  moreover have "\<exists>C. (\<forall>p. response_share_bf (h p) (k p) QUIT False (Some (t p)) (sh p) (trees s p) = Some (C p, Inr None)) \<and>
      agents_run cap ccrh heap ell n M root h (s\<lparr>trees := C\<rparr>) (H(t := None))" if t: "t \<in> dom H" for t
  proof -
    obtain v where v: "H t = Some v" using t by blast
    obtain C where "\<And>p. tc_remove (h p) (t p) (trees s p) = (C p, Inr ())" "agents_run cap ccrh heap ell n M root h (s\<lparr>trees := C\<rparr>) (H(t := None))"
      using updating_leaving [OF assms(1,2) v assms(3)] by blast
    then show ?thesis using known [OF t] by (intro exI [of _ C]) (simp add: defs)
  qed
  ultimately show ?thesis using unknown by (simp add: defs)
qed

section \<open>Instances\<close>

theorem filter_shared_witness:
  "\<exists>St' steward' b v. completes ring_peer 16 (\<lambda>p. if p = P0 then share_bf (XOR) (XOR) zeros \<lparr>rnd_sodium = 0, rnd_key = 11, rnd_cache = 0\<rparr> bp5 [[3], [7]] [replicate 16 5] 4 v23 (\<lambda>_. ones)
        else peer_share_bf (XOR) \<lparr>rnd_sodium = 0, rnd_key = 11, rnd_cache = 0\<rparr> (if p = P1 then 1 else 2) v23 (\<lambda>_. ones)) St' \<and>
    completes pair_peer 16 (\<lambda>p. if p = Alice then send_share v23 (St' P0) \<lparr>p_ell = 1, p_n = 2, p_buf = replicate 8 0\<rparr>
        else recv_share v67 (\<lambda>_. ones) \<lparr>p_ell = 1, p_n = 2, p_buf = replicate 8 0\<rparr>)
      (\<lambda>p. (if p = Alice then St' P0 else steward', b)) \<and>
    gen_bf (XOR) zeros 1 [[3], [7]] [replicate 16 5] 2 1 2 = Inr v \<and>
    shares_of 2 (elems 1 v) (\<lambda>p. if p = P0 then share_at_refs steward' v67 else share_at_refs (St' p) v23)"
proof -
  let ?r = "\<lambda>_ :: pid. \<lparr>rnd_sodium = 0, rnd_key = 11, rnd_cache = 0\<rparr>" and ?aux = "\<lparr>p_ell = 1, p_n = 2, p_buf = replicate 8 0\<rparr>"
  have aux: "aux_ok 1 (bf_size bp5) ?aux" by (simp add: aux_ok_def bp5 bytesFor_def usz_def SIZE_MAX_def)
  have fit: "fitted 1 v23 (bf_size bp5) (\<lambda>_. ones)" "fitted 1 v67 (bf_size bp5) (\<lambda>_. ones)" by (simp_all add: fitted_def ones bp5 del: One_nat_def)
  show ?thesis
    using filter_shared [where r = ?r and V = "\<lambda>_. v23" and St = "\<lambda>_ _. ones" and seeds = "[replicate 16 5]" and bf = 4 and M = v67 and prp = "(XOR)"
        and ccrh = "(XOR)" and cap = 16 and heap = zeros and members = "[[3], [7]]", OF _ _ bp5(1) _ _ _ _ _ fit(1) _ _ fit(2) _ aux aux]
    by (simp add: bp5 del: One_nat_def)
qed

lemma draws_host1: "draws_new host1 k c"
proof -
  have "inj (token_hex host1)" by (rule injI) (simp add: host1_def replicate_eq_replicate)
  then have "finite (token_hex host1 -` dom (map_of (phi_f c)))" by (simp add: finite_vimageI finite_dom_map_of)
  then obtain N where "\<And>i. token_hex host1 i \<in> dom (map_of (phi_f c)) \<Longrightarrow> i < N" unfolding finite_nat_set_iff_bounded by auto
  then have new: "map_of (phi_f c) (token_hex host1 i) = None" if "N \<le> i" for i using that not_less by blast
  show ?thesis unfolding draws_new_def
    by (intro exI [of _ "max k N"] conjI exI [of _ "Suc (max k N)"] new) (simp_all add: host1_def)
qed

theorem holder_requests_witness:
  "\<exists>s t. agents_run 1 (XOR) zeros 5 2 v67 v01 (\<lambda>_. host1) s [t \<mapsto> [1, 1]] \<and>
    (\<exists>C. (\<forall>p. response_share_bf host1 9 QUIT False (Some (t p)) full_bits (trees s p) = Some (C p, Inr None)) \<and>
      agents_run 1 (XOR) zeros 5 2 v67 v01 (\<lambda>_. host1) (s\<lparr>trees := C\<rparr>) Map.empty) \<and>
    response_share_bf host1 9 QUIT False (Some (t P1 @ ''b'')) full_bits (trees s P1) = Some (trees s P1, Inl KeyError)"
proof -
  obtain s t where s: "agents_run 1 (XOR) zeros 5 2 v67 v01 (\<lambda>_. host1) s [t \<mapsto> [1, 1]]" using one_holder by blast
  note holder_requests [where k = "\<lambda>_. 9", OF setting1 s full_bits_shares draws_host1]
  moreover have "[t \<mapsto> [1, 1]](t := None) = Map.empty" by simp
  ultimately show ?thesis using s by (intro exI [of _ s] exI [of _ t]) simp
qed

end
