(* ===== verification/Spec2Isabelle.thy ===== *)
theory Spec2Isabelle
  imports Vector_Theorems Dpf_Reveal Dpf_Keys Aby3_Vec_Theorems Aby3_Conv_Theorems Workers_Theorems Emp2_Circuits
    Transport Rvector_Bind Dpf_Bind Emp2_Bind Aby3_Bind Rvector_Rand Set_Holder
begin

text \<open>
  A model of MPMT, a library for private membership tests among several parties: ring vectors,
  function secret sharing, three-party and two-party secret sharing, and their Python interface.

  \<^bold>\<open>The parts and how they interact.\<close> \<^verbatim>\<open>include/common.hpp\<close> has the arithmetic of \<open>Z_{2^ELL}\<close>, the
  hash and the hex strings that everything uses. \<^verbatim>\<open>include/rvector.hpp\<close> is the vector of ring
  elements: bytes, or 64 elements in a word for \<open>ELL = 1\<close>; its packed form goes into files and
  messages. \<^verbatim>\<open>include/ref_impl/dpf/bgi16.hpp\<close> gives two evaluators keys that expand to vectors adding
  up to a point function. \<^verbatim>\<open>include/ref_impl/shr_rep3/aby3.hpp\<close> is replicated sharing among three
  parties on a ring of channels, with two worker threads per party for the exchange of vectors.
  \<^verbatim>\<open>include/ref_impl/shr_add2/emp2.hpp\<close> is additive sharing between two parties, with circuits for the
  hash, for residues and for equality. The files of \<^verbatim>\<open>src/bind/\<close> check the arguments that come from
  Python, keep the registry of connections and call the rest. The Python package \<^verbatim>\<open>src/mpmt/\<close> builds the
  membership test from them: set holders make Bloom filters (\<^verbatim>\<open>util.py\<close>), three agents keep shares of
  them in a tree and merge it to a root (\<^verbatim>\<open>_tree_cache.py\<close>, \<^verbatim>\<open>agent_server.py\<close>), and a querier learns whether
  the positions of its element are set there (\<^verbatim>\<open>querier.py\<close>).

  \<^bold>\<open>Theories and sources.\<close>
  \<^item> \<open>Prelude\<close>: results with errors, checked memory accesses, loops, bytes of words.
    \<open>Array_Spec\<close>, \<open>Threads\<close>: interfaces (locales) of an indexed store and of threads that write to it.
    \<open>Intrinsics\<close>: the vector instructions the sources use, lane by lane.
  \<^item> \<open>Ring\<close>, \<open>Hashing\<close>: \<^verbatim>\<open>common.hpp\<close> and the ring functions of \<^verbatim>\<open>util_bind.cpp\<close>.
  \<^item> \<open>Packing\<close>, \<open>Kernel_Lemmas\<close>, \<open>Pack_Proofs\<close>, \<open>Unpack_Proofs\<close>, \<open>Codec\<close>: the packing kernels of \<^verbatim>\<open>rvector.hpp\<close>.
    \<open>Rvector\<close>, \<open>Rvector_Facts\<close>, \<open>Rvector_Batch\<close>, \<open>Rvector_Ops\<close>, \<open>Rvector_Pack\<close>, \<open>Rvector_Rand\<close>,
    \<open>Vector_Theorems\<close>: the class \<open>Rvector\<close>, its batch access, arithmetic (with every aliasing of
    inputs and output), packed buffers, files and random fill.
  \<^item> \<open>Dpf\<close>, \<open>Dpf_Tree\<close>, \<open>Dpf_Eval\<close>, \<open>Dpf_Eval_Facts\<close>, \<open>Dpf_Threads\<close>, \<open>Dpf_Theorems\<close>, \<open>Dpf_Reveal\<close>, \<open>Dpf_Keys\<close>:
    \<^verbatim>\<open>bgi16.hpp\<close>: generation, the breadth-first and depth-first evaluation on several threads, the
    evaluation of ranges, reconstruction, and keys as JSON documents.
  \<^item> \<open>Net\<close>, \<open>Parties\<close>: processes that exchange bytes over bounded FIFO channels, and the ring of three.
    \<open>Crng\<close>, \<open>Crng_Facts\<close>, \<open>Crng_Vectors\<close>, \<open>Aby3\<close>, \<open>Aby3_Facts\<close>, \<open>Aby3_Theorems\<close>, \<open>Aby3_Vec\<close>,
    \<open>Aby3_Vec_Facts\<close>, \<open>Aby3_Vec_Theorems\<close>, \<open>Aby3_Conv\<close>, \<open>Aby3_Conv_Theorems\<close>: \<^verbatim>\<open>aby3.hpp\<close>: correlated
    randomness, scalar and vector protocols, bit conversion.
    \<open>Workers\<close>, \<open>Workers_Facts\<close>, \<open>Workers_Theorems\<close>: its worker threads, mutexes and conditions, and their
    loops over the chunks of a transfer.
  \<^item> \<open>Emp2\<close>, \<open>Emp2_Circuits\<close>: \<^verbatim>\<open>emp2.hpp\<close>.
  \<^item> \<open>Registry\<close>, \<open>Bind_Common\<close>, \<open>Transport\<close>, \<open>Rvector_Bind\<close>, \<open>Dpf_Bind\<close>, \<open>Emp2_Bind\<close>, \<open>Aby3_Bind\<close>: the files of
    \<^verbatim>\<open>src/bind/\<close>.
  \<^item> \<open>Bloom\<close>: \<open>gen_bf\<close> of \<^verbatim>\<open>util.py\<close>. \<open>Query_Agents\<close>: \<open>response_query\<close> of \<^verbatim>\<open>agent_server.py\<close>. \<open>Query\<close>: \<^verbatim>\<open>querier.py\<close>,
    and a query from end to end.
  \<^item> \<open>Tree_Cache\<close>, \<open>Tree_Cache_Facts\<close>: the state of \<^verbatim>\<open>_tree_cache.py\<close> with its dictionaries and files; inserting,
    updating and removing at one agent. \<open>Tree_Merge\<close>, \<open>Tree_Merge_Facts\<close>: \<open>execute_merge\<close>, opening a cache, and
    \<open>_merge\<close> of \<^verbatim>\<open>agent_server.py\<close>. \<open>Tree_Shape\<close>, \<open>Tree_Sync\<close>, \<open>Tree_Agents\<close>: the union of the leaves below a
    node, and merging at all three agents. \<open>Tree_Holders\<close>: joining, updating and leaving as changes of a map
    from tokens to filters. \<open>Tree_Reload\<close>: reading the state file back. \<open>Tree_Run\<close>, \<open>Tree_Theorems\<close>: the states
    that start, these operations, merging and restarting reach (\<open>agents_run\<close>), their invariant (\<open>agents_ok\<close>),
    and the properties. \<open>Set_Holder\<close>: how a holder shares its filter with the agents (\<^verbatim>\<open>set_holder.py\<close>), and
    the requests of holders (\<open>response_share_bf\<close> of \<^verbatim>\<open>agent_server.py\<close>).

  \<^bold>\<open>State and effects.\<close> A function that may throw has a result \<open>error + 'a\<close>; \<open>MemFault\<close> stands for an
  access outside the memory an object owns, so a proved result \<open>Inr _\<close> also says that there is none.
  Vectors that are passed by reference live in a \<open>store\<close>. Machine integers are words; \<open>size_t\<close>
  arithmetic that may wrap is written with \<open>usz\<close>. The order in which threads run is not fixed: the
  evaluation threads of a key are arbitrary interleavings of their writes, the worker threads and the
  registry are step relations, and the parties of a protocol run on channels of any capacity under
  any schedule. \<open>completes\<close> says that every schedule is finite, never stuck and ends with the given
  results; \<open>Net\<close> proves that one execution to the end is enough for that. The messages between the querier
  and one agent appear as their results. An exception in \<open>execute_merge\<close> or on opening ends the process of
  that agent, and its memory is dropped.

  \<^bold>\<open>Termination and bounds.\<close> No fuel is used. Drawing a new token need not end and is a partial function;
  \<open>draws_new\<close> says that the generator gives two new tokens in time. The other loops are total functions, the depth-first
  search of the evaluation terminates by the size of what is left on its stack, and the number of steps
  of the worker threads is bounded by \<open>rank\<close>. Theorems on vectors hold for every length that can be
  allocated, and say where the wrap-around of \<open>size_t\<close> begins.

  \<^bold>\<open>Parameters.\<close> Code outside the repository is a parameter. The hash \<open>CCRH\<close> and the AES permutation are
  arbitrary functions; \<open>dump\<close> and \<open>parse\<close> of the JSON library are arbitrary functions too, assumed to invert each other
  on the keys in question where a key is sent and received; a two-party session is a record of functions on wires that compute what the
  documentation of the toolkit says (\<open>sh2pc_ok\<close>, which \<open>clear\<close> satisfies); random values, fresh memory
  and the success of allocations are arguments. What a query needs of the agents' machines is the record
  \<open>platform\<close>, what a tree cache needs the record \<open>host\<close>: which files can be written and removed and how
  long they get, when the C library writes its buffers out (\<open>drain\<close>; a file of a vector is written through a
  stream with a buffer, and what its closing reports is ignored as in the code), which state documents can be written to the
  end, allocations, fresh memory and the tokens drawn. A JSON file is what reading it gives. The bytes that a receiving worker thread finds on
  its channel are a given sequence, and the channel may throw in any chunk.

  \<^bold>\<open>What the lemmas show.\<close> The \<open>_Facts\<close> and \<open>_Proofs\<close> theories relate each operation to the list of
  ring elements a vector holds, to the tree a key denotes or to the values a sharing adds up to; the
  properties, numbered C1, C2 and so on, are corollaries: what every operation computes, for every
  aliasing, number of threads and schedule; round trips of packing, files, keys and transport; the
  safety of memory, handles and threads; and the places where the code does not do what it says.

  \<^bold>\<open>Not modelled.\<close> The registration of classes with the binding library, the interpreter lock and
  the byte counters; the sockets behind a channel; the choice of the filter's parameters in floating point;
  what an interrupted merge leaves of
  the inner nodes' files, and exceptions between two changes of a dictionary of a cache that is marked already; a restart before
  the first merge of a tree with holders, which runs the bit conversion; the secrecy of the protocols, which is a statement
  about probabilities; tests, benchmarks and the simulation application.
\<close>

end
